(* ===== verification/Prelude.thy ===== *)
theory Prelude
  imports Main "HOL-Library.Word" "HOL-Library.Monad_Syntax"
begin

text \<open>
  Types, hint collections and generic facts shared by the components.

  \<^item> \<open>u8\<close>, \<open>u16\<close>, \<open>u32\<close>: the unsigned integers of the target (32-bit ARM,
    \<^verbatim>\<open>include/asm-arm/types.h\<close>); \<open>ulong\<close>, \<open>phys_addr\<close> and \<open>phys_size\<close> are 32 bits wide there.
  \<^item> A value of type \<open>'a option\<close> returned by an operation on an array or on memory is \<open>None\<close>
    exactly when the C code would read or write outside the object (undefined behaviour), so
    a theorem that concludes \<open>Some\<close> is also a memory-safety statement.
\<close>

unbundle bit_operations_syntax

type_synonym u8 = "8 word"
type_synonym u16 = "16 word"
type_synonym u32 = "32 word"
type_synonym u64 = "64 word"
type_synonym ulong = "32 word"
type_synonym phys_addr = "32 word"
type_synonym phys_size = "32 word"

named_theorems word_nat "unsigned words read as natural numbers where nothing wraps"
named_theorems bounds "bounds of array indices and lengths"

section \<open>Words as natural numbers\<close>

definition nowrap :: "'a::len word \<Rightarrow> 'a word \<Rightarrow> bool" where
  "nowrap b s \<longleftrightarrow> unat b + unat s < 2 ^ LENGTH('a)"

lemma unat_add_nowrap [word_nat]: "nowrap b s \<Longrightarrow> unat (b + s) = unat b + unat s"
  by (simp add: nowrap_def unat_word_ariths)

lemma unat_add_le: "unat (a + b) \<le> unat a + unat b" for a b :: "'a::len word"
  by (simp add: unat_word_ariths)

lemma eq_add_nowrap: "nowrap b s \<Longrightarrow> (a = b + s) = (unat a = unat b + unat s)"
  for a b s :: "'a::len word"
  by (metis unat_add_nowrap word_unat_eq_iff)

lemma unat_sub_le [word_nat]: "b \<le> a \<Longrightarrow> unat (a - b) = unat a - unat b"
  for a b :: "'a::len word"
  by (rule unat_sub)

lemma word_le_unat: "(a \<le> b) = (unat a \<le> unat b)" for a b :: "'a::len word"
  by (rule word_le_nat_alt)

lemma word_less_unat: "(a < b) = (unat a < unat b)" for a b :: "'a::len word"
  by (rule word_less_nat_alt)

lemma word_eq_unat: "(a = b) = (unat a = unat b)" for a b :: "'a::len word"
  by (auto simp: word_unat_eq_iff)

lemmas word_cmp_nat = word_le_unat word_less_unat word_eq_unat

lemma unat_pos_iff: "(0 < unat a) = (a \<noteq> 0)"
  by (simp add: unat_gt_0)

lemma unat_word_lt [bounds]: "unat (a :: u32) < 4294967296"
  using unsigned_less [of a] by simp

lemma of_nat_u32: "n < 4294967296 \<Longrightarrow> unat (of_nat n :: u32) = n"
  by (simp add: unsigned_of_nat take_bit_nat_eq_self)

lemma unat_pow2_u32: "j < 32 \<Longrightarrow> unat (2 ^ j :: u32) = 2 ^ j"
proof -
  assume j: "j < 32"
  then have "(2 :: nat) ^ j < 2 ^ 32" by (intro power_strict_increasing) simp_all
  then have "take_bit 32 ((2 :: nat) ^ j) = 2 ^ j" by (rule take_bit_nat_eq_self)
  moreover have "unat (of_nat (2 ^ j) :: u32) = take_bit 32 (2 ^ j)" by (simp only: unsigned_of_nat) simp
  ultimately show ?thesis by simp
qed

lemma sint_u32_pos: "(0 < sint n) = (0 < unat n \<and> unat n < 2147483648)" for n :: u32
proof
  assume pos: "0 < sint n"
  have lt: "sint n < 2147483648" using sint_lt [of n] by simp
  have "take_bit 32 (sint n) = sint n" using pos lt by (intro take_bit_int_eq_self) simp_all
  then have "uint n = sint n" using uint_sint [of n] by simp
  then show "0 < unat n \<and> unat n < 2147483648" using pos lt unfolding unat_eq_nat_uint by linarith
next
  assume u: "0 < unat n \<and> unat n < 2147483648"
  then have p: "0 < uint n" "uint n < 2147483648" unfolding uint_nat by linarith+
  then have "signed_take_bit 31 (uint n) = uint n" by (intro signed_take_bit_int_eq_self) simp_all
  then show "0 < sint n" using p(1) by (simp add: sint_uint)
qed

lemma sint_u32_unat: "unat n < 2147483648 \<Longrightarrow> sint n = int (unat n)" for n :: u32
proof -
  assume u: "unat n < 2147483648"
  then have "uint n < 2147483648" unfolding uint_nat by linarith
  then have "uint n < 2 ^ 31" by simp
  moreover have "- (2 ^ 31) \<le> uint n" by (rule order_trans [of _ 0]) simp_all
  ultimately have "signed_take_bit 31 (uint n) = uint n" by (intro signed_take_bit_int_eq_self)
  then have "sint n = uint n" by (simp add: sint_uint)
  then show "sint n = int (unat n)" by (simp only: uint_nat)
qed

lemma unat_u8_lt [bounds]: "unat (a :: u8) < 256"
  using unsigned_less [of a] by simp

section \<open>Characters as bytes\<close>

lemma int_of_char: "(of_char c :: int) = int (of_char c)"
  using of_nat_of_char [of c, where ?'a = int] by simp

lemma int_of_char_bounds: "0 \<le> (of_char c :: int)" "(of_char c :: int) < 256"
  by (simp_all add: int_of_char)

lemma unat_of_char [simp]: "unat (of_char c :: u8) = of_char c"
proof -
  have "(of_char c :: u8) = word_of_nat (of_char c)" by (simp add: of_nat_of_char)
  then show ?thesis by (simp add: unat_of_nat)
qed

lemma word_of_char_eq_iff [simp]: "((of_char c :: u8) = of_char d) = (c = d)"
  by (metis unat_of_char of_char_eq_iff)

section \<open>Array cells\<close>

text \<open>A bounded read of an array of the C code.\<close>

definition rd :: "'a list \<Rightarrow> nat \<Rightarrow> 'a option" where
  "rd xs i = (if i < length xs then Some (xs ! i) else None)"

definition wr :: "'a list \<Rightarrow> nat \<Rightarrow> 'a \<Rightarrow> 'a list option" where
  "wr xs i x = (if i < length xs then Some (xs[i := x]) else None)"

lemma rd_Some [simp]: "i < length xs \<Longrightarrow> rd xs i = Some (xs ! i)"
  by (simp add: rd_def)

lemma rd_eq_Some: "(rd xs i = Some x) = (i < length xs \<and> xs ! i = x)"
  by (simp add: rd_def)

lemma wr_Some [simp]: "i < length xs \<Longrightarrow> wr xs i x = Some (xs[i := x])"
  by (simp add: wr_def)

lemma wr_eq_Some: "(wr xs i x = Some ys) = (i < length xs \<and> ys = xs[i := x])"
  by (auto simp: wr_def)

lemma take_update_last: "i < length xs \<Longrightarrow> take (Suc i) (xs[i := x]) = take i xs @ [x]"
  by (simp add: take_Suc_conv_app_nth)

lemma bind_Some_iff: "(Option.bind m f = Some y) = (\<exists>x. m = Some x \<and> f x = Some y)"
  by (cases m) auto

section \<open>Searches that walk an index upwards\<close>

lemma ex_from: "i < n \<Longrightarrow> (\<exists>j\<ge>i. j < n \<and> P j) = (P i \<or> (\<exists>j\<ge>Suc i. j < n \<and> P j))"
  by (metis Suc_leD Suc_leI le_eq_less_or_eq)

lemma all_from: "i < n \<Longrightarrow> (\<forall>j. i \<le> j \<and> j < n \<longrightarrow> P j) = (P i \<and> (\<forall>j. Suc i \<le> j \<and> j < n \<longrightarrow> P j))"
  by (metis Suc_leD Suc_leI le_eq_less_or_eq)

end
