(* ===== verification/Lmb.thy ===== *)
theory Lmb
  imports Prelude
begin

text \<open>
  Logical memory blocks, \<^verbatim>\<open>lib_generic/lmb.c\<close> and \<^verbatim>\<open>include/lmb.h\<close>: two tables of address
  ranges (the memory of the board, and the parts of it that are reserved), kept as arrays of
  nine slots of which the first \<open>cnt\<close> are in use, sorted by address and coalesced.
  The whole array is modelled, stale slots included, because the code reads them when
  \<open>cnt\<close> is zero.  \<open>None\<close> is an access outside the nine slots.
\<close>

section \<open>The tables\<close>

record lmb_property =
  lmb_base :: phys_addr
  lmb_size :: phys_size

record lmb_region =
  cnt :: ulong
  total :: phys_size
  region :: "lmb_property list"

record lmb =
  memory :: lmb_region
  reserved :: lmb_region

definition MAX_LMB_REGIONS :: nat where
  "MAX_LMB_REGIONS = 8"

definition LMB_ALLOC_ANYWHERE :: phys_addr where
  "LMB_ALLOC_ANYWHERE = 0"

definition mk_prop :: "phys_addr \<Rightarrow> phys_size \<Rightarrow> lmb_property" where
  "mk_prop b s = \<lparr>lmb_base = b, lmb_size = s\<rparr>"

section \<open>Operations\<close>

definition lmb_addrs_overlap :: "phys_addr \<Rightarrow> phys_size \<Rightarrow> phys_addr \<Rightarrow> phys_size \<Rightarrow> bool" where
  "lmb_addrs_overlap base1 size1 base2 size2 \<longleftrightarrow> base1 < base2 + size2 \<and> base2 < base1 + size1"

definition lmb_addrs_adjacent :: "phys_addr \<Rightarrow> phys_size \<Rightarrow> phys_addr \<Rightarrow> phys_size \<Rightarrow> int" where
  "lmb_addrs_adjacent base1 size1 base2 size2 =
     (if base2 = base1 + size1 then 1 else if base1 = base2 + size2 then -1 else 0)"

definition lmb_regions_adjacent :: "lmb_region \<Rightarrow> nat \<Rightarrow> nat \<Rightarrow> int option" where
  "lmb_regions_adjacent rgn r1 r2 = do {
     p1 \<leftarrow> rd (region rgn) r1;
     p2 \<leftarrow> rd (region rgn) r2;
     Some (lmb_addrs_adjacent (lmb_base p1) (lmb_size p1) (lmb_base p2) (lmb_size p2)) }"

text \<open>
  The shifting loop of \<open>lmb_remove_region\<close>: slot \<open>i + 1\<close> is copied to slot \<open>i\<close> while \<open>i < n\<close>.
  The bound is \<open>cnt - 1\<close> in \<^verbatim>\<open>unsigned long\<close>, which is the largest word when \<open>cnt\<close> is 0.
\<close>

function lmb_shift_down :: "lmb_property list \<Rightarrow> ulong \<Rightarrow> nat \<Rightarrow> lmb_property list option" where
  "lmb_shift_down rs n i =
     (if of_nat i < n
      then if Suc i < length rs then lmb_shift_down (rs[i := rs ! Suc i]) n (Suc i) else None
      else Some rs)"
  by pat_completeness auto
termination
  by (relation "measure (\<lambda>(rs, n, i). length rs - i)") auto

declare lmb_shift_down.simps [simp del]

definition lmb_remove_region :: "lmb_region \<Rightarrow> nat \<Rightarrow> lmb_region option" where
  "lmb_remove_region rgn r = do {
     rs \<leftarrow> lmb_shift_down (region rgn) (cnt rgn - 1) r;
     Some (rgn\<lparr>region := rs, cnt := cnt rgn - 1\<rparr>) }"

definition lmb_coalesce_regions :: "lmb_region \<Rightarrow> nat \<Rightarrow> nat \<Rightarrow> lmb_region option" where
  "lmb_coalesce_regions rgn r1 r2 = do {
     p1 \<leftarrow> rd (region rgn) r1;
     p2 \<leftarrow> rd (region rgn) r2;
     lmb_remove_region
       (rgn\<lparr>region := (region rgn)[r1 := p1\<lparr>lmb_size := lmb_size p1 + lmb_size p2\<rparr>]\<rparr>) r2 }"

text \<open>\<open>lmb_init\<close> writes slot 0 of both tables only; the other slots keep what the memory held.\<close>

definition lmb_init_region :: "lmb_region \<Rightarrow> lmb_region" where
  "lmb_init_region rgn = rgn\<lparr>region := (region rgn)[0 := mk_prop 0 0], cnt := 1, total := 0\<rparr>"

definition lmb_init :: "lmb \<Rightarrow> lmb" where
  "lmb_init l = \<lparr>memory = lmb_init_region (memory l), reserved = lmb_init_region (reserved l)\<rparr>"

text \<open>
  The first loop of \<open>lmb_add_region\<close>: where it stops, and what it has changed.
  \<open>Already\<close> is the early return, \<open>Grown i rs\<close> the \<open>break\<close> after a coalescing at slot \<open>i\<close>,
  \<open>Missed i\<close> the end of the loop.
\<close>

datatype scan = Already | Grown nat "lmb_property list" | Missed nat

function lmb_scan :: "lmb_property list \<Rightarrow> nat \<Rightarrow> phys_addr \<Rightarrow> phys_size \<Rightarrow> nat \<Rightarrow> scan option" where
  "lmb_scan rs n base sz i =
     (if i < n
      then if i < length rs
        then let p = rs ! i; adj = lmb_addrs_adjacent base sz (lmb_base p) (lmb_size p) in
          if lmb_base p = base \<and> lmb_size p = sz then Some Already
          else if adj > 0
            then Some (Grown i (rs[i := mk_prop (lmb_base p - sz) (lmb_size p + sz)]))
          else if adj < 0
            then Some (Grown i (rs[i := mk_prop (lmb_base p) (lmb_size p + sz)]))
          else lmb_scan rs n base sz (Suc i)
        else None
      else Some (Missed i))"
  by pat_completeness auto
termination
  by (relation "measure (\<lambda>(rs, n, base, sz, i). n - i)") auto

declare lmb_scan.simps [simp del]

text \<open>The insertion loop, downwards from slot \<open>i\<close> (the argument is \<open>i + 1\<close>).\<close>

fun lmb_insert_loop :: "lmb_property list \<Rightarrow> phys_addr \<Rightarrow> phys_size \<Rightarrow> nat \<Rightarrow> lmb_property list" where
  "lmb_insert_loop rs base sz 0 = rs"
| "lmb_insert_loop rs base sz (Suc i) =
     (if base < lmb_base (rs ! i)
      then lmb_insert_loop (rs[Suc i := rs ! i]) base sz i
      else rs[Suc i := mk_prop base sz])"

text \<open>
  The highest slot the loop writes is slot \<open>cnt\<close>, in its first turn: the bounds check of the whole
  loop.
\<close>

definition lmb_insert :: "lmb_region \<Rightarrow> phys_addr \<Rightarrow> phys_size \<Rightarrow> lmb_region option" where
  "lmb_insert rgn base sz = do {
     rs0 \<leftarrow> (if unat (cnt rgn) < length (region rgn) then Some (region rgn) else None);
     let rs = lmb_insert_loop rs0 base sz (unat (cnt rgn));
     p0 \<leftarrow> rd rs 0;
     let rs' = (if base < lmb_base p0 then rs[0 := mk_prop base sz] else rs);
     Some (rgn\<lparr>region := rs', cnt := cnt rgn + 1\<rparr>) }"

definition lmb_add_region :: "lmb_region \<Rightarrow> phys_addr \<Rightarrow> phys_size \<Rightarrow> (int \<times> lmb_region) option" where
  "lmb_add_region rgn base sz = do {
     p0 \<leftarrow> rd (region rgn) 0;
     if cnt rgn = 1 \<and> lmb_size p0 = 0
     then Some (0, rgn\<lparr>region := (region rgn)[0 := mk_prop base sz]\<rparr>)
     else do {
       sc \<leftarrow> lmb_scan (region rgn) (unat (cnt rgn)) base sz 0;
       (case sc of
          Already \<Rightarrow> Some (0, rgn)
        | Grown i rs \<Rightarrow> do {
            let rgn1 = rgn\<lparr>region := rs\<rparr>;
            if of_nat i < cnt rgn - 1
            then do {
              adj \<leftarrow> lmb_regions_adjacent rgn1 i (i + 1);
              if adj \<noteq> 0
              then do { rgn2 \<leftarrow> lmb_coalesce_regions rgn1 i (i + 1); Some (2, rgn2) }
              else Some (1, rgn1) }
            else Some (1, rgn1) }
        | Missed i \<Rightarrow> do {
            adj \<leftarrow> (if of_nat i < cnt rgn - 1 then lmb_regions_adjacent rgn i (i + 1) else Some 0);
            if adj \<noteq> 0
            then do { rgn2 \<leftarrow> lmb_coalesce_regions rgn i (i + 1); Some (1, rgn2) }
            else if MAX_LMB_REGIONS \<le> unat (cnt rgn) then Some (-1, rgn)
            else do { rgn2 \<leftarrow> lmb_insert rgn base sz; Some (0, rgn2) } }) } }"

definition lmb_add :: "lmb \<Rightarrow> phys_addr \<Rightarrow> phys_size \<Rightarrow> (int \<times> lmb) option" where
  "lmb_add l base sz = do {
     (r, rgn) \<leftarrow> lmb_add_region (memory l) base sz;
     Some (r, l\<lparr>memory := rgn\<rparr>) }"

definition lmb_reserve :: "lmb \<Rightarrow> phys_addr \<Rightarrow> phys_size \<Rightarrow> (int \<times> lmb) option" where
  "lmb_reserve l base sz = do {
     (r, rgn) \<leftarrow> lmb_add_region (reserved l) base sz;
     Some (r, l\<lparr>reserved := rgn\<rparr>) }"

text \<open>The search of \<open>lmb_free\<close>: the first slot whose range holds the freed one.\<close>

function lmb_find_holder :: "lmb_property list \<Rightarrow> nat \<Rightarrow> phys_addr \<Rightarrow> phys_addr \<Rightarrow> nat \<Rightarrow> nat option option" where
  "lmb_find_holder rs n base fin i =
     (if i < n
      then if i < length rs
        then let p = rs ! i in
          if lmb_base p \<le> base \<and> fin \<le> lmb_base p + lmb_size p then Some (Some i)
          else lmb_find_holder rs n base fin (Suc i)
        else None
      else Some None)"
  by pat_completeness auto
termination
  by (relation "measure (\<lambda>(rs, n, base, fin, i). n - i)") auto

declare lmb_find_holder.simps [simp del]

definition lmb_free :: "lmb \<Rightarrow> phys_addr \<Rightarrow> phys_size \<Rightarrow> (int \<times> lmb) option" where
  "lmb_free l base sz = do {
     let rgn = reserved l;
     let fin = base + sz;
     found \<leftarrow> lmb_find_holder (region rgn) (unat (cnt rgn)) base fin 0;
     (case found of
        None \<Rightarrow> Some (-1, l)
      | Some i \<Rightarrow> do {
          p \<leftarrow> rd (region rgn) i;
          let rgnbegin = lmb_base p;
          let rgnend = lmb_base p + lmb_size p;
          if rgnbegin = base \<and> rgnend = fin
          then do { rgn' \<leftarrow> lmb_remove_region rgn i; Some (0, l\<lparr>reserved := rgn'\<rparr>) }
          else if rgnbegin = base
          then Some (0, l\<lparr>reserved := rgn\<lparr>region :=
                  (region rgn)[i := mk_prop fin (lmb_size p - sz)]\<rparr>\<rparr>)
          else if rgnend = fin
          then Some (0, l\<lparr>reserved := rgn\<lparr>region :=
                  (region rgn)[i := mk_prop rgnbegin (lmb_size p - sz)]\<rparr>\<rparr>)
          else do {
            let rgn1 = rgn\<lparr>region := (region rgn)[i := mk_prop rgnbegin (base - rgnbegin)]\<rparr>;
            (r, rgn2) \<leftarrow> lmb_add_region rgn1 fin (rgnend - fin);
            Some (r, l\<lparr>reserved := rgn2\<rparr>) } }) }"

function lmb_overlap_scan :: "lmb_property list \<Rightarrow> nat \<Rightarrow> phys_addr \<Rightarrow> phys_size \<Rightarrow> nat \<Rightarrow> nat option option" where
  "lmb_overlap_scan rs n base sz i =
     (if i < n
      then if i < length rs
        then if lmb_addrs_overlap base sz (lmb_base (rs ! i)) (lmb_size (rs ! i)) then Some (Some i)
          else lmb_overlap_scan rs n base sz (Suc i)
        else None
      else Some None)"
  by pat_completeness auto
termination
  by (relation "measure (\<lambda>(rs, n, base, sz, i). n - i)") auto

declare lmb_overlap_scan.simps [simp del]

text \<open>The C function returns the index, or -1; here \<open>Some i\<close>, or \<open>None\<close>, inside the outer option.\<close>

definition lmb_overlaps_region :: "lmb_region \<Rightarrow> phys_addr \<Rightarrow> phys_size \<Rightarrow> nat option option" where
  "lmb_overlaps_region rgn base sz = lmb_overlap_scan (region rgn) (unat (cnt rgn)) base sz 0"

definition lmb_align_down :: "phys_addr \<Rightarrow> phys_size \<Rightarrow> phys_addr" where
  "lmb_align_down addr sz = addr AND NOT (sz - 1)"

definition lmb_align_up :: "phys_addr \<Rightarrow> ulong \<Rightarrow> phys_addr" where
  "lmb_align_up addr sz = (addr + (sz - 1)) AND NOT (sz - 1)"


subsection \<open>Allocation\<close>

lemma lmb_overlap_scan_Some:
  "lmb_overlap_scan rs n b s i = Some (Some j) \<Longrightarrow>
     i \<le> j \<and> j < n \<and> j < length rs \<and> lmb_addrs_overlap b s (lmb_base (rs ! j)) (lmb_size (rs ! j))"
proof (induction rs n b s i rule: lmb_overlap_scan.induct)
  case (1 rs n b s i)
  then show ?case
    by (subst (asm) (2) lmb_overlap_scan.simps) (auto split: if_splits dest: Suc_leD)
qed

lemma lmb_align_down_le: "lmb_align_down a s \<le> a"
  unfolding lmb_align_down_def by (rule word_and_le2)

lemma lmb_retry_decreases:
  assumes "lmb_overlap_scan rs n b s i = Some (Some j)" and "\<not> lmb_base (rs ! j) < s"
  shows "unat (lmb_align_down (lmb_base (rs ! j) - s) a) < unat b"
proof -
  let ?r = "lmb_base (rs ! j)"
  have "?r < b + s"
    using lmb_overlap_scan_Some [OF assms(1)] by (simp add: lmb_addrs_overlap_def)
  then have "unat ?r < unat b + unat s"
    by (metis less_le_trans unat_add_le word_less_nat_alt)
  moreover have "unat (?r - s) = unat ?r - unat s" and "unat s \<le> unat ?r"
    using assms(2) by (simp_all add: unat_sub_le word_cmp_nat)
  moreover have "unat (lmb_align_down (?r - s) a) \<le> unat (?r - s)"
    using lmb_align_down_le by (simp add: word_cmp_nat)
  ultimately show ?thesis by linarith
qed

text \<open>
  The \<open>while\<close> loop of \<open>__lmb_alloc_base\<close> for one memory region: \<open>Some (Some r)\<close> is a \<open>return\<close>
  from inside the loop, \<open>Some None\<close> the end of the loop (its guard fails, or \<open>break\<close>).
  Each retry moves strictly down, so the loop ends.
\<close>

function lmb_alloc_loop ::
  "lmb \<Rightarrow> phys_addr \<Rightarrow> phys_size \<Rightarrow> ulong \<Rightarrow> phys_addr \<Rightarrow> (phys_addr \<times> lmb) option option" where
  "lmb_alloc_loop l lmbbase sz align base =
     (if base \<noteq> 0 \<and> lmbbase \<le> base
      then case lmb_overlaps_region (reserved l) base sz of
          None \<Rightarrow> None
        | Some None \<Rightarrow>
            do { (r, rgn) \<leftarrow> lmb_add_region (reserved l) base (lmb_align_up sz align);
                 Some (Some (if r < 0 then 0 else base, l\<lparr>reserved := rgn\<rparr>)) }
        | Some (Some j) \<Rightarrow>
            if lmb_base (region (reserved l) ! j) < sz then Some None
            else lmb_alloc_loop l lmbbase sz align
                   (lmb_align_down (lmb_base (region (reserved l) ! j) - sz) align)
      else Some None)"
  by pat_completeness auto
termination
  by (relation "measure (\<lambda>(l, lmbbase, sz, align, base). unat base)")
     (auto simp: lmb_overlaps_region_def intro: lmb_retry_decreases)

declare lmb_alloc_loop.simps [simp del]

text \<open>The outer loop, from the highest memory region downwards (the argument is \<open>i + 1\<close>).\<close>

fun lmb_alloc_regions ::
  "lmb \<Rightarrow> phys_size \<Rightarrow> ulong \<Rightarrow> phys_addr \<Rightarrow> nat \<Rightarrow> (phys_addr \<times> lmb) option" where
  "lmb_alloc_regions l sz align max_addr 0 = Some (0, l)"
| "lmb_alloc_regions l sz align max_addr (Suc i) = do {
     p \<leftarrow> rd (region (memory l)) i;
     let lmbbase = lmb_base p;
     let lmbsize = lmb_size p;
     let start =
       (if max_addr = LMB_ALLOC_ANYWHERE
        then Some (lmb_align_down (lmbbase + lmbsize - sz) align)
        else if lmbbase < max_addr
        then Some (lmb_align_down (min (lmbbase + lmbsize) max_addr - sz) align)
        else None);
     if lmbsize < sz then lmb_alloc_regions l sz align max_addr i
     else case start of
         None \<Rightarrow> lmb_alloc_regions l sz align max_addr i
       | Some base \<Rightarrow> do {
           r \<leftarrow> lmb_alloc_loop l lmbbase sz align base;
           (case r of
              Some res \<Rightarrow> Some res
            | None \<Rightarrow> lmb_alloc_regions l sz align max_addr i) } }"

definition lmb_alloc_base0 :: "lmb \<Rightarrow> phys_size \<Rightarrow> ulong \<Rightarrow> phys_addr \<Rightarrow> (phys_addr \<times> lmb) option" where
  "lmb_alloc_base0 l sz align max_addr =
     lmb_alloc_regions l sz align max_addr (unat (cnt (memory l)))"

text \<open>\<open>lmb_alloc_base\<close> only adds a message on the console when the result is 0.\<close>

definition lmb_alloc_base :: "lmb \<Rightarrow> phys_size \<Rightarrow> ulong \<Rightarrow> phys_addr \<Rightarrow> (phys_addr \<times> lmb) option" where
  "lmb_alloc_base l sz align max_addr = lmb_alloc_base0 l sz align max_addr"

definition lmb_alloc :: "lmb \<Rightarrow> phys_size \<Rightarrow> ulong \<Rightarrow> (phys_addr \<times> lmb) option" where
  "lmb_alloc l sz align = lmb_alloc_base l sz align LMB_ALLOC_ANYWHERE"

function lmb_reserved_scan :: "lmb_property list \<Rightarrow> nat \<Rightarrow> phys_addr \<Rightarrow> nat \<Rightarrow> bool option" where
  "lmb_reserved_scan rs n addr i =
     (if i < n
      then if i < length rs
        then let upper = lmb_base (rs ! i) + lmb_size (rs ! i) - 1 in
          if lmb_base (rs ! i) \<le> addr \<and> addr \<le> upper then Some True
          else lmb_reserved_scan rs n addr (Suc i)
        else None
      else Some False)"
  by pat_completeness auto
termination
  by (relation "measure (\<lambda>(rs, n, addr, i). n - i)") auto

declare lmb_reserved_scan.simps [simp del]

definition lmb_is_reserved :: "lmb \<Rightarrow> phys_addr \<Rightarrow> bool option" where
  "lmb_is_reserved l addr = lmb_reserved_scan (region (reserved l)) (unat (cnt (reserved l))) addr 0"

section \<open>The abstract table: a sorted list of separated ranges\<close>

abbreviation p_lo :: "lmb_property \<Rightarrow> nat" where
  "p_lo p \<equiv> unat (lmb_base p)"

abbreviation p_hi :: "lmb_property \<Rightarrow> nat" where
  "p_hi p \<equiv> unat (lmb_base p) + unat (lmb_size p)"

definition span :: "lmb_property \<Rightarrow> nat set" where
  "span p = {p_lo p ..< p_hi p}"

definition ents :: "lmb_region \<Rightarrow> lmb_property list" where
  "ents rgn = take (unat (cnt rgn)) (region rgn)"

definition cover :: "lmb_property list \<Rightarrow> nat set" where
  "cover xs = (\<Union>p\<in>set xs. span p)"

definition covered :: "lmb_region \<Rightarrow> nat set" where
  "covered rgn = cover (ents rgn)"

definition wf_prop :: "lmb_property \<Rightarrow> bool" where
  "wf_prop p \<longleftrightarrow> 0 < unat (lmb_size p) \<and> p_hi p < 2 ^ 32"

definition gap :: "lmb_property \<Rightarrow> lmb_property \<Rightarrow> bool" where
  "gap p q \<longleftrightarrow> p_hi p < p_lo q"

definition wf_ents :: "lmb_property list \<Rightarrow> bool" where
  "wf_ents xs \<longleftrightarrow> list_all wf_prop xs \<and> sorted_wrt gap xs"

definition wf_table :: "lmb_region \<Rightarrow> bool" where
  "wf_table rgn \<longleftrightarrow> length (region rgn) = Suc MAX_LMB_REGIONS \<and>
     1 \<le> unat (cnt rgn) \<and> unat (cnt rgn) \<le> MAX_LMB_REGIONS \<and> wf_ents (ents rgn)"

text \<open>The table after \<open>lmb_init\<close>: one slot in use, of size zero.\<close>

definition fresh_table :: "lmb_region \<Rightarrow> bool" where
  "fresh_table rgn \<longleftrightarrow> length (region rgn) = Suc MAX_LMB_REGIONS \<and> cnt rgn = 1 \<and>
     lmb_size (region rgn ! 0) = 0 \<and> lmb_base (region rgn ! 0) = 0"

definition disjoint_from :: "phys_addr \<Rightarrow> phys_size \<Rightarrow> lmb_region \<Rightarrow> bool" where
  "disjoint_from b s rgn \<longleftrightarrow> span (mk_prop b s) \<inter> covered rgn = {}"

section \<open>Refinement of the table operations\<close>

lemma of_nat_less_pred:
  "n \<noteq> 0 \<Longrightarrow> i < 2 ^ 32 \<Longrightarrow> (of_nat i < n - 1) = (Suc i < unat n)" for n :: u32
proof -
  assume "n \<noteq> 0" and i: "i < 2 ^ 32"
  have "unat (of_nat i :: u32) = i" using i by (simp add: unat_of_nat take_bit_nat_eq_self)
  moreover have "unat (n - 1) = unat n - 1"
    using \<open>n \<noteq> 0\<close> by (metis unat_minus_one)
  ultimately show ?thesis by (auto simp: word_less_nat_alt)
qed

lemma lmb_base_mk [simp]: "lmb_base (mk_prop b s) = b" "lmb_size (mk_prop b s) = s"
  by (simp_all add: mk_prop_def)

lemma prop_eqI: "lmb_base p = lmb_base q \<Longrightarrow> lmb_size p = lmb_size q \<Longrightarrow> p = q" for p q :: lmb_property
  by (cases p; cases q) simp

text \<open>Shifting down removes slot \<open>i\<close>.\<close>

lemma lmb_shift_down_eq:
  "unat n < length rs \<Longrightarrow> i \<le> unat n \<Longrightarrow> length rs < 2 ^ 32 \<Longrightarrow>
   \<exists>rs'. lmb_shift_down rs n i = Some rs' \<and> length rs' = length rs \<and>
      take (unat n) rs' = take i rs @ drop (Suc i) (take (Suc (unat n)) rs)"
proof (induction rs n i rule: lmb_shift_down.induct)
  case (1 rs n i)
  have u: "unat (of_nat i :: ulong) = i" using "1.prems" by (simp add: unat_of_nat take_bit_nat_eq_self)
  show ?case
  proof (cases "i < unat n")
    case True
    let ?rs = "rs[i := rs ! Suc i]"
    have "of_nat i < n" using True u by (simp add: word_less_nat_alt)
    moreover have lt: "Suc i < length rs" using True "1.prems" by simp
    ultimately obtain rs' where rs': "lmb_shift_down ?rs n (Suc i) = Some rs'"
        "length rs' = length ?rs"
        "take (unat n) rs' = take (Suc i) ?rs @ drop (Suc (Suc i)) (take (Suc (unat n)) ?rs)"
      using "1.IH" "1.prems" True by auto
    have "take (Suc i) ?rs @ drop (Suc (Suc i)) (take (Suc (unat n)) ?rs) =
      take i rs @ [rs ! Suc i] @ drop (Suc (Suc i)) (take (Suc (unat n)) rs)"
      using lt by (simp add: take_Suc_conv_app_nth drop_take)
    also have "[rs ! Suc i] @ drop (Suc (Suc i)) (take (Suc (unat n)) rs) = drop (Suc i) (take (Suc (unat n)) rs)"
      using lt True by (simp add: Cons_nth_drop_Suc [symmetric])
    finally show ?thesis
      using rs' \<open>of_nat i < n\<close> lt by (simp add: lmb_shift_down.simps [of rs n i])
  next
    case False
    then have "i = unat n" using "1.prems" by simp
    then show ?thesis using "1.prems" by (simp add: lmb_shift_down.simps [of rs n])
  qed
qed

text \<open>The array shape alone, without any order.\<close>

definition tbl :: "lmb_region \<Rightarrow> bool" where
  "tbl rgn \<longleftrightarrow> length (region rgn) = Suc MAX_LMB_REGIONS \<and>
     1 \<le> unat (cnt rgn) \<and> unat (cnt rgn) \<le> MAX_LMB_REGIONS"

lemma tbl_length_ents [simp]: "tbl rgn \<Longrightarrow> length (ents rgn) = unat (cnt rgn)"
  by (simp add: tbl_def ents_def)

lemma tbl_nth [simp]: "tbl rgn \<Longrightarrow> i < unat (cnt rgn) \<Longrightarrow> region rgn ! i = ents rgn ! i"
  by (simp add: tbl_def ents_def)

lemma tbl_cnt_pred: "tbl rgn \<Longrightarrow> unat (cnt rgn - 1) = unat (cnt rgn) - 1"
  unfolding tbl_def by (metis One_nat_def less_eq_Suc_le unat_minus_one unat_pos_iff)

lemma tbl_less_pred: "tbl rgn \<Longrightarrow> i < 2 ^ 32 \<Longrightarrow> (of_nat i < cnt rgn - 1) = (Suc i < unat (cnt rgn))"
  by (rule of_nat_less_pred) (auto simp: tbl_def)

lemma lmb_remove_region_spec:
  assumes "tbl rgn" and "r < unat (cnt rgn)"
  shows "\<exists>rgn'. lmb_remove_region rgn r = Some rgn' \<and> cnt rgn' = cnt rgn - 1 \<and>
    length (region rgn') = length (region rgn) \<and>
    ents rgn' = take r (ents rgn) @ drop (Suc r) (ents rgn)"
proof -
  let ?n = "cnt rgn - 1"
  have n: "unat ?n = unat (cnt rgn) - 1" "Suc (unat ?n) = unat (cnt rgn)"
    using assms by (simp_all add: tbl_cnt_pred)
  have "\<exists>rs'. lmb_shift_down (region rgn) ?n r = Some rs' \<and> length rs' = length (region rgn) \<and>
      take (unat ?n) rs' = take r (region rgn) @ drop (Suc r) (take (Suc (unat ?n)) (region rgn))"
    by (rule lmb_shift_down_eq) (use assms n in \<open>auto simp: tbl_def MAX_LMB_REGIONS_def\<close>)
  moreover have "take r (region rgn) = take r (ents rgn)"
    using assms by (simp add: ents_def min_def)
  ultimately show ?thesis
    using n by (auto simp: lmb_remove_region_def ents_def)
qed

text \<open>Where the coalescing scan stops.\<close>

abbreviation adj_up :: "lmb_property \<Rightarrow> phys_addr \<Rightarrow> phys_size \<Rightarrow> bool" where
  "adj_up p b s \<equiv> lmb_base p = b + s"

abbreviation adj_dn :: "lmb_property \<Rightarrow> phys_addr \<Rightarrow> phys_size \<Rightarrow> bool" where
  "adj_dn p b s \<equiv> b = lmb_base p + lmb_size p"

definition untouched :: "lmb_property list \<Rightarrow> phys_addr \<Rightarrow> phys_size \<Rightarrow> bool" where
  "untouched ps b s \<longleftrightarrow> (\<forall>p\<in>set ps. \<not> adj_up p b s \<and> \<not> adj_dn p b s)"

definition scan_ok :: "lmb_property list \<Rightarrow> phys_addr \<Rightarrow> phys_size \<Rightarrow> lmb_property list \<Rightarrow> scan \<Rightarrow> bool" where
  "scan_ok rs b s xs r = (case r of
      Already \<Rightarrow> mk_prop b s \<in> set xs
    | Grown j rs' \<Rightarrow> j < length xs \<and> untouched (take j xs) b s \<and>
        (adj_up (xs ! j) b s \<and> rs' = rs[j := mk_prop (lmb_base (xs ! j) - s) (lmb_size (xs ! j) + s)] \<or>
         \<not> adj_up (xs ! j) b s \<and> adj_dn (xs ! j) b s \<and> rs' = rs[j := mk_prop (lmb_base (xs ! j)) (lmb_size (xs ! j) + s)])
    | Missed j \<Rightarrow> j = length xs \<and> untouched xs b s)"

lemma lmb_scan_ok:
  "n \<le> length rs \<Longrightarrow> i \<le> n \<Longrightarrow> untouched (take i rs) b s \<Longrightarrow>
   \<exists>r. lmb_scan rs n b s i = Some r \<and> scan_ok rs b s (take n rs) r"
proof (induction rs n b s i rule: lmb_scan.induct)
  case (1 rs n b s i)
  show ?case
  proof (cases "i < n")
    case False
    then show ?thesis using "1.prems" by (simp add: lmb_scan.simps [of rs n] scan_ok_def)
  next
    case True
    let ?p = "rs ! i"
    have i: "i < length rs" "take n rs ! i = ?p" "take i (take n rs) = take i rs"
        "i < length (take n rs)"
      using True "1.prems" by (simp_all add: min_def)
    consider (eq) "lmb_base ?p = b \<and> lmb_size ?p = s"
      | (up) "\<not> (lmb_base ?p = b \<and> lmb_size ?p = s)" "adj_up ?p b s"
      | (dn) "\<not> (lmb_base ?p = b \<and> lmb_size ?p = s)" "\<not> adj_up ?p b s" "adj_dn ?p b s"
      | (no) "\<not> (lmb_base ?p = b \<and> lmb_size ?p = s)" "\<not> adj_up ?p b s" "\<not> adj_dn ?p b s" by blast
    then show ?thesis
    proof cases
      case eq
      then have "mk_prop b s = ?p" by (intro prop_eqI) simp_all
      then have "mk_prop b s \<in> set (take n rs)"
        using i by (metis nth_mem)
      with eq True i show ?thesis by (simp add: lmb_scan.simps [of rs n] scan_ok_def)
    next
      case up
      with True i "1.prems" show ?thesis
        by (auto simp: lmb_scan.simps [of rs n] scan_ok_def lmb_addrs_adjacent_def Let_def)
    next
      case dn
      with True i "1.prems" show ?thesis
        by (auto simp: lmb_scan.simps [of rs n] scan_ok_def lmb_addrs_adjacent_def Let_def)
    next
      case no
      have "untouched (take (Suc i) rs) b s"
        using "1.prems" no i by (auto simp: take_Suc_conv_app_nth untouched_def)
      with no True i "1.prems" "1.IH" show ?thesis
        by (auto simp: lmb_scan.simps [of rs n b s i] lmb_addrs_adjacent_def Let_def)
    qed
  qed
qed


text \<open>The insertion loop puts the new range behind the last one that starts at or below it.\<close>

definition ins_ents :: "lmb_property \<Rightarrow> lmb_property list \<Rightarrow> lmb_property list" where
  "ins_ents x xs = (let above = \<lambda>p. lmb_base x < lmb_base p in
     rev (dropWhile above (rev xs)) @ x # rev (takeWhile above (rev xs)))"

lemma lmb_insert_loop_frame:
  "length (lmb_insert_loop rs b s k) = length rs \<and>
   lmb_insert_loop rs b s k ! 0 = rs ! 0 \<and>
   (\<forall>j>k. lmb_insert_loop rs b s k ! j = rs ! j)"
  by (induction k arbitrary: rs) auto

lemma lmb_insert_loop_take:
  "k < length rs \<Longrightarrow> 0 < k \<Longrightarrow>
   take (Suc k) (lmb_insert_loop rs b s k) =
     (if \<forall>p\<in>set (take k rs). b < lmb_base p
      then rs ! 0 # take k rs
      else ins_ents (mk_prop b s) (take k rs))"
proof (induction k arbitrary: rs)
  case 0
  then show ?case by simp
next
  case (Suc k)
  let ?R = "lmb_insert_loop rs b s (Suc k)"
  have tk: "take (Suc k) rs = take k rs @ [rs ! k]"
    using Suc.prems by (simp add: take_Suc_conv_app_nth)
  show ?case
  proof (cases "b < lmb_base (rs ! k)")
    case False
    then have "?R = rs[Suc k := mk_prop b s]" by simp
    moreover have "take (Suc (Suc k)) (rs[Suc k := mk_prop b s]) = take (Suc k) rs @ [mk_prop b s]"
      using Suc.prems by (intro take_update_last) simp
    ultimately show ?thesis using False by (simp add: tk ins_ents_def Let_def)
  next
    case True
    let ?rs = "rs[Suc k := rs ! k]"
    have R: "?R = lmb_insert_loop ?rs b s k" using True by simp
    have last: "?R ! Suc k = rs ! k"
      using lmb_insert_loop_frame [of ?rs b s k] Suc.prems R by simp
    have len: "length ?R = length rs"
      using lmb_insert_loop_frame [of ?rs b s k] R by simp
    have split: "take (Suc (Suc k)) ?R = take (Suc k) ?R @ [rs ! k]"
      using last len Suc.prems by (simp add: take_Suc_conv_app_nth)
    show ?thesis
    proof (cases "k = 0")
      case True
      then show ?thesis using split len Suc.prems \<open>b < lmb_base (rs ! k)\<close> R
        by (cases rs) auto
    next
      case False
      have "take (Suc k) ?R =
        (if \<forall>p\<in>set (take k rs). b < lmb_base p
         then rs ! 0 # take k rs else ins_ents (mk_prop b s) (take k rs))"
        using Suc.IH [of ?rs] Suc.prems False R by simp
      with split True show ?thesis by (auto simp: tk ins_ents_def Let_def)
    qed
  qed
qed

lemma ins_ents_all_above: "\<forall>p\<in>set xs. lmb_base x < lmb_base p \<Longrightarrow> ins_ents x xs = x # xs"
  by (simp add: ins_ents_def Let_def takeWhile_eq_all_conv [THEN iffD2] dropWhile_eq_Nil_conv [THEN iffD2])

lemma lmb_insert_spec:
  assumes "tbl rgn" and "unat (cnt rgn) < MAX_LMB_REGIONS"
    and sorted: "sorted_wrt (\<lambda>p q. lmb_base p \<le> lmb_base q) (ents rgn)"
  shows "\<exists>rgn'. lmb_insert rgn b s = Some rgn' \<and> tbl rgn' \<and> ents rgn' = ins_ents (mk_prop b s) (ents rgn)"
proof -
  let ?n = "unat (cnt rgn)" and ?rs = "region rgn"
  let ?R = "lmb_insert_loop ?rs b s ?n"
  have n: "?n < length ?rs" "0 < ?n" using assms by (auto simp: tbl_def)
  have len: "length ?R = length ?rs" and hd0: "?R ! 0 = ?rs ! 0"
    using lmb_insert_loop_frame by blast+
  have cnt': "unat (cnt rgn + 1) = Suc ?n"
    using assms(2) by (simp add: unat_word_ariths MAX_LMB_REGIONS_def)
  let ?R' = "if b < lmb_base (?R ! 0) then ?R[0 := mk_prop b s] else ?R"
  have ents0: "take ?n ?rs = ents rgn" by (simp add: ents_def)
  obtain ps where e0: "ents rgn = ?rs ! 0 # ps"
    using n by (cases "region rgn"; cases "unat (cnt rgn)") (auto simp: ents_def)
  have all: "b < lmb_base (?rs ! 0) \<longleftrightarrow> (\<forall>p\<in>set (ents rgn). b < lmb_base p)"
    using sorted unfolding e0 by (auto intro: less_le_trans)
  have "take (Suc ?n) ?R' = ins_ents (mk_prop b s) (ents rgn)"
  proof (cases "b < lmb_base (?rs ! 0)")
    case True
    then have "take (Suc ?n) ?R = ?rs ! 0 # ents rgn"
      using lmb_insert_loop_take [OF n, of b s] all by (simp add: ents0)
    then have "take (Suc ?n) (?R[0 := mk_prop b s]) = mk_prop b s # ents rgn"
      by (simp add: take_update_swap)
    then show ?thesis using True hd0 all by (simp add: ins_ents_all_above)
  next
    case False
    with all have na: "\<not> (\<forall>p\<in>set (ents rgn). b < lmb_base p)" by simp
    have "take (Suc ?n) ?R = ins_ents (mk_prop b s) (ents rgn)"
      using lmb_insert_loop_take [OF n, of b s] unfolding ents0 if_not_P [OF na] .
    then show ?thesis using False hd0 by simp
  qed
  then show ?thesis
    using assms len cnt' n by (auto simp: lmb_insert_def ents_def tbl_def rd_def Let_def)
qed


text \<open>Separated lists.\<close>

lemma wf_ents_append:
  "wf_ents (xs @ ys) \<longleftrightarrow> wf_ents xs \<and> wf_ents ys \<and> (\<forall>p\<in>set xs. \<forall>q\<in>set ys. gap p q)"
  by (auto simp: wf_ents_def sorted_wrt_append)

lemma wf_ents_Cons:
  "wf_ents (x # ys) \<longleftrightarrow> wf_prop x \<and> wf_ents ys \<and> (\<forall>q\<in>set ys. gap x q)"
  by (auto simp: wf_ents_def)

lemma wf_ents_Nil [simp]: "wf_ents []"
  by (simp add: wf_ents_def)

lemma wf_ents_sorted: "wf_ents xs \<Longrightarrow> sorted_wrt (\<lambda>p q. lmb_base p \<le> lmb_base q) xs"
  unfolding wf_ents_def by (auto elim!: sorted_wrt_mono_rel [rotated] simp: gap_def word_le_unat)

lemma cover_append [simp]: "cover (xs @ ys) = cover xs \<union> cover ys"
  and cover_Cons [simp]: "cover (x # xs) = span x \<union> cover xs"
  and cover_Nil [simp]: "cover [] = {}"
  by (auto simp: cover_def)

lemma span_disjoint_iff:
  "wf_prop p \<Longrightarrow> wf_prop q \<Longrightarrow> (span p \<inter> span q = {}) = (p_hi p \<le> p_lo q \<or> p_hi q \<le> p_lo p)"
proof -
  assume wf: "wf_prop p" "wf_prop q"
  then have "0 < unat (lmb_size p)" "0 < unat (lmb_size q)" by (simp_all add: wf_prop_def)
  then show ?thesis by (auto simp: span_def max_def min_def not_le)
qed

lemma adj_up_iff: "wf_prop (mk_prop b s) \<Longrightarrow> adj_up p b s = (p_lo p = p_hi (mk_prop b s))"
  by (simp add: wf_prop_def eq_add_nowrap nowrap_def)

lemma adj_dn_iff: "wf_prop p \<Longrightarrow> adj_dn p b s = (p_hi p = unat b)"
  by (auto simp: wf_prop_def eq_add_nowrap nowrap_def)

text \<open>The three ways a new range enters a separated list.\<close>

lemma ins_ents_wf:
  assumes wf: "wf_ents xs" and x: "wf_prop x" and un: "untouched xs (lmb_base x) (lmb_size x)"
    and disj: "span x \<inter> cover xs = {}"
  shows "wf_ents (ins_ents x xs) \<and> cover (ins_ents x xs) = cover xs \<union> span x"
proof -
  let ?above = "\<lambda>p. lmb_base x < lmb_base p"
  define lo where "lo = rev (dropWhile ?above (rev xs))"
  define hi where "hi = rev (takeWhile ?above (rev xs))"
  have xs: "xs = lo @ hi"
    unfolding lo_def hi_def by (metis rev_append rev_rev_ident takeWhile_dropWhile_id)
  have ins: "ins_ents x xs = lo @ x # hi"
    by (simp add: ins_ents_def Let_def lo_def hi_def)
  have hi: "\<forall>p\<in>set hi. p_lo x < p_lo p"
    unfolding hi_def by (auto dest!: set_takeWhileD simp: word_less_unat)
  have lo: "\<forall>p\<in>set lo. p_lo p \<le> p_lo x"
  proof (cases lo rule: rev_cases)
    case (snoc ys y)
    then have "rev lo \<noteq> []" and "hd (rev lo) = y" by simp_all
    then have "\<not> ?above y"
      unfolding lo_def by (metis hd_dropWhile rev_rev_ident)
    moreover have "\<forall>p\<in>set ys. gap p y"
      using wf unfolding xs snoc by (auto simp: wf_ents_append wf_ents_Cons)
    ultimately show ?thesis using snoc by (auto simp: gap_def word_less_unat not_less)
  qed simp
  have "gap p x" if p: "p \<in> set lo" for p
  proof -
    have wp: "wf_prop p" and sep: "span x \<inter> span p = {}"
      using wf disj p unfolding xs by (auto simp: wf_ents_def list_all_iff cover_def)
    have "p_hi p \<noteq> p_lo x"
      using un p wp unfolding xs untouched_def by (metis Un_iff adj_dn_iff set_append)
    moreover have "p_hi p \<le> p_lo x"
      using sep lo p wp x by (auto simp: span_disjoint_iff wf_prop_def)
    ultimately show ?thesis by (simp add: gap_def)
  qed
  moreover have "gap x q" if q: "q \<in> set hi" for q
  proof -
    have wq: "wf_prop q" and sep: "span x \<inter> span q = {}"
      using wf disj q unfolding xs by (auto simp: wf_ents_def list_all_iff cover_def)
    have "p_lo q \<noteq> p_hi x"
      using un q x unfolding xs untouched_def
      by (auto simp: adj_up_iff [of "lmb_base x" "lmb_size x"] wf_prop_def)
    moreover have "p_hi x \<le> p_lo q"
      using sep hi q wq x by (auto simp: span_disjoint_iff wf_prop_def)
    ultimately show ?thesis by (simp add: gap_def)
  qed
  ultimately show ?thesis
    using wf x unfolding ins unfolding xs by (auto simp: wf_ents_append wf_ents_Cons)
qed

lemma wf_table_tbl: "wf_table rgn \<longleftrightarrow> tbl rgn \<and> wf_ents (ents rgn)"
  by (auto simp: wf_table_def tbl_def)

lemma wf_entsD: "wf_ents xs \<Longrightarrow> p \<in> set xs \<Longrightarrow> wf_prop p"
  by (simp add: wf_ents_def list_all_iff)

lemma wf_ents_gapD: "wf_ents (l @ p # r) \<Longrightarrow> (q \<in> set l \<longrightarrow> gap q p) \<and> (q \<in> set r \<longrightarrow> gap p q)"
  by (simp add: wf_ents_append wf_ents_Cons)

lemma cover_disjointD: "A \<inter> cover xs = {} \<Longrightarrow> p \<in> set xs \<Longrightarrow> A \<inter> span p = {}"
  by (auto simp: cover_def)

lemma grow_up_wf:
  assumes wf: "wf_ents (l @ p # r)" and x: "wf_prop (mk_prop b s)" and un: "untouched l b s"
    and disj: "span (mk_prop b s) \<inter> cover (l @ p # r) = {}" and adj: "adj_up p b s"
  defines "y \<equiv> mk_prop (lmb_base p - s) (lmb_size p + s)"
  shows "lmb_base y = b" and "wf_ents (l @ y # r) \<and> cover (l @ y # r) = cover (l @ p # r) \<union> span (mk_prop b s)"
    and "p_hi y = p_hi p"
proof -
  have p: "wf_prop p" using wf by (simp add: wf_ents_append wf_ents_Cons)
  have lo: "p_lo p = unat b + unat s" using adj x by (simp add: adj_up_iff)
  show base: "lmb_base y = b" using adj by (simp add: y_def)
  have "unat (lmb_size p + s) = unat (lmb_size p) + unat s"
    by (rule unat_add_nowrap) (use p lo in \<open>simp add: nowrap_def wf_prop_def\<close>)
  then have sz: "unat (lmb_size y) = unat (lmb_size p) + unat s" by (simp add: y_def)
  show hi: "p_hi y = p_hi p" using base sz lo by simp
  have wy: "wf_prop y" using p sz hi by (simp add: wf_prop_def)
  have sp: "span y = span p \<union> span (mk_prop b s)"
    using base sz lo p x by (auto simp: span_def wf_prop_def)
  have "gap q y" if q: "q \<in> set l" for q
  proof -
    have wq: "wf_prop q" and sep: "span (mk_prop b s) \<inter> span q = {}" and g: "gap q p"
      using wf_entsD [OF wf, of q] cover_disjointD [OF disj, of q] wf_ents_gapD [OF wf, of q] q by simp_all
    have "p_hi q \<noteq> unat b" using un q wq unfolding untouched_def by (metis adj_dn_iff)
    moreover have "p_hi q \<le> unat b"
      using sep g lo wq x by (auto simp: span_disjoint_iff wf_prop_def gap_def)
    ultimately show ?thesis by (simp add: gap_def base)
  qed
  moreover have "\<forall>q\<in>set r. gap y q"
    using wf hi by (auto simp: wf_ents_append wf_ents_Cons gap_def)
  ultimately show "wf_ents (l @ y # r) \<and> cover (l @ y # r) = cover (l @ p # r) \<union> span (mk_prop b s)"
    using wf wy sp by (auto simp: wf_ents_append wf_ents_Cons)
qed

lemma grow_dn_bounds:
  assumes p: "wf_prop p" and x: "wf_prop (mk_prop b s)" and adj: "adj_dn p b s"
  defines "y \<equiv> mk_prop (lmb_base p) (lmb_size p + s)"
  shows "wf_prop y" and "p_lo y = p_lo p" and "p_hi y = unat b + unat s"
    and "span y = span p \<union> span (mk_prop b s)"
proof -
  have hi: "p_hi p = unat b" using adj p by (simp add: adj_dn_iff)
  have "unat (lmb_size p + s) = unat (lmb_size p) + unat s"
    by (rule unat_add_nowrap) (use x hi in \<open>simp add: nowrap_def wf_prop_def\<close>)
  then have sz: "unat (lmb_size y) = unat (lmb_size p) + unat s" by (simp add: y_def)
  show lo: "p_lo y = p_lo p" by (simp add: y_def)
  show "p_hi y = unat b + unat s" using sz lo hi by simp
  then show "wf_prop y" using sz p x by (simp add: wf_prop_def)
  show "span y = span p \<union> span (mk_prop b s)"
    using sz lo hi by (auto simp: span_def)
qed

lemma grow_dn_right:
  assumes wf: "wf_ents (l @ p # r)" and x: "wf_prop (mk_prop b s)"
    and disj: "span (mk_prop b s) \<inter> cover (l @ p # r) = {}" and adj: "adj_dn p b s" and q: "q \<in> set r"
  shows "unat b + unat s \<le> p_lo q"
proof -
  have hi: "p_hi p = unat b" using adj wf by (simp add: adj_dn_iff wf_ents_append wf_ents_Cons)
  have wq: "wf_prop q" and sep: "span (mk_prop b s) \<inter> span q = {}" and g: "gap p q"
    using wf_entsD [OF wf, of q] cover_disjointD [OF disj, of q] wf_ents_gapD [OF wf, of q] q by simp_all
  then show ?thesis using hi x by (auto simp: span_disjoint_iff wf_prop_def gap_def)
qed

lemma grow_dn_wf:
  assumes wf: "wf_ents (l @ p # r)" and x: "wf_prop (mk_prop b s)"
    and disj: "span (mk_prop b s) \<inter> cover (l @ p # r) = {}" and adj: "adj_dn p b s"
    and nxt: "r = [] \<or> p_lo (hd r) \<noteq> unat b + unat s"
  defines "y \<equiv> mk_prop (lmb_base p) (lmb_size p + s)"
  shows "wf_ents (l @ y # r) \<and> cover (l @ y # r) = cover (l @ p # r) \<union> span (mk_prop b s)"
proof -
  have p: "wf_prop p" using wf by (simp add: wf_ents_append wf_ents_Cons)
  note y = grow_dn_bounds [OF p x adj, folded y_def]
  have "gap y q" if q: "q \<in> set r" for q
  proof -
    obtain q0 r' where r: "r = q0 # r'" using q by (cases r) auto
    have "unat b + unat s < p_lo q0"
      using grow_dn_right [OF wf x disj adj, of q0] nxt r by auto
    moreover have "p_lo q0 \<le> p_lo q"
      using wf q unfolding r by (auto simp: wf_ents_append wf_ents_Cons gap_def)
    ultimately show ?thesis using y(3) by (simp add: gap_def)
  qed
  moreover have "\<forall>q\<in>set l. gap q y"
    using wf y(2) by (auto simp: wf_ents_append wf_ents_Cons gap_def)
  ultimately show ?thesis
    using wf y by (auto simp: wf_ents_append wf_ents_Cons)
qed

text \<open>Closing the hole between two ranges.\<close>

lemma grow_merge_wf:
  assumes wf: "wf_ents (l @ p # q # r)" and x: "wf_prop (mk_prop b s)"
    and disj: "span (mk_prop b s) \<inter> cover (l @ p # q # r) = {}" and adj: "adj_dn p b s"
    and nxt: "p_lo q = unat b + unat s"
  defines "y \<equiv> mk_prop (lmb_base p) (lmb_size p + s + lmb_size q)"
  shows "wf_ents (l @ y # r) \<and> cover (l @ y # r) = cover (l @ p # q # r) \<union> span (mk_prop b s)"
proof -
  have p: "wf_prop p" and q: "wf_prop q" using wf by (simp_all add: wf_ents_append wf_ents_Cons)
  let ?z = "mk_prop (lmb_base p) (lmb_size p + s)"
  note z = grow_dn_bounds [OF p x adj]
  have "unat (lmb_size p + s + lmb_size q) = unat (lmb_size p + s) + unat (lmb_size q)"
    by (rule unat_add_nowrap) (use q nxt z(2,3) in \<open>simp add: nowrap_def wf_prop_def\<close>)
  then have add: "unat (lmb_size y) = unat (lmb_size ?z) + unat (lmb_size q)" by (simp add: y_def)
  have lo: "p_lo y = p_lo p" by (simp add: y_def)
  have hi: "p_hi y = p_hi q" and sz: "p_hi ?z \<le> p_hi y"
    using add nxt z(2,3) lo by linarith+
  have wy: "wf_prop y" using q hi lo z(1) sz by (simp add: wf_prop_def)
  have sp: "span y = span p \<union> span (mk_prop b s) \<union> span q"
    unfolding z(4) [symmetric] using hi lo nxt z(2,3) by (simp add: span_def ivl_disj_un_two)
  have "\<forall>q\<in>set l. gap q y" "\<forall>q\<in>set r. gap y q"
    using wf lo hi by (auto simp: wf_ents_append wf_ents_Cons gap_def)
  with wy sp wf show ?thesis by (auto simp: wf_ents_append wf_ents_Cons)
qed

lemma ents_update:
  "ents (rgn\<lparr>region := (region rgn)[j := y]\<rparr>) = (ents rgn)[j := y]"
  by (simp add: ents_def take_update_swap)

lemma tbl_update: "tbl (rgn\<lparr>region := (region rgn)[j := y]\<rparr>) = tbl rgn"
  by (simp add: tbl_def)

lemma lmb_coalesce_spec:
  assumes t: "tbl rgn" and e: "ents rgn = l @ p # q # r"
  shows "\<exists>rgn'. lmb_coalesce_regions rgn (length l) (length l + 1) = Some rgn' \<and> tbl rgn' \<and>
     ents rgn' = l @ mk_prop (lmb_base p) (lmb_size p + lmb_size q) # r"
proof -
  have n: "unat (cnt rgn) = length l + 2 + length r"
    using tbl_length_ents [OF t] e by simp
  have cells: "region rgn ! length l = p" "region rgn ! Suc (length l) = q"
    using n by (simp_all add: tbl_nth [OF t] e nth_append)
  let ?y = "mk_prop (lmb_base p) (lmb_size p + lmb_size q)"
  let ?rgn = "rgn\<lparr>region := (region rgn)[length l := ?y]\<rparr>"
  have y: "p\<lparr>lmb_size := lmb_size p + lmb_size q\<rparr> = ?y" by (rule prop_eqI) simp_all
  have e1: "ents ?rgn = l @ ?y # q # r" by (simp add: ents_update e)
  have t1: "tbl ?rgn" using t by (simp add: tbl_update)
  obtain rgn' where rgn': "lmb_remove_region ?rgn (Suc (length l)) = Some rgn'"
      "cnt rgn' = cnt ?rgn - 1" "length (region rgn') = length (region ?rgn)"
      "ents rgn' = take (Suc (length l)) (ents ?rgn) @ drop (Suc (Suc (length l))) (ents ?rgn)"
    using lmb_remove_region_spec [OF t1, of "Suc (length l)"] n by auto
  have "tbl rgn'"
    using rgn'(2,3) t n tbl_cnt_pred [OF t] by (simp add: tbl_def)
  moreover have "ents rgn' = l @ ?y # r" using rgn'(4) by (simp add: e1)
  moreover have "length l < length (region rgn)" "Suc (length l) < length (region rgn)"
    using n t by (auto simp: tbl_def)
  moreover from this have "lmb_coalesce_regions rgn (length l) (length l + 1) = Some rgn'"
    using rgn'(1) by (simp add: lmb_coalesce_regions_def cells y)
  ultimately show ?thesis by blast
qed

lemma ents_split:
  assumes "i < length (ents rgn)"
  obtains l p r where "ents rgn = l @ p # r" "length l = i" "ents rgn ! i = p" "take i (ents rgn) = l"
  using assms id_take_nth_drop [of i "ents rgn"] by (metis length_take min.absorb4)

lemma regions_adjacent_Some:
  "tbl rgn \<Longrightarrow> i < unat (cnt rgn) \<Longrightarrow> j < unat (cnt rgn) \<Longrightarrow>
   lmb_regions_adjacent rgn i j =
     Some (lmb_addrs_adjacent (lmb_base (ents rgn ! i)) (lmb_size (ents rgn ! i))
             (lmb_base (ents rgn ! j)) (lmb_size (ents rgn ! j)))"
  unfolding lmb_regions_adjacent_def using tbl_nth [of rgn]
  by (auto simp: rd_def tbl_def)

lemma addrs_adjacent_gap:
  assumes "wf_prop p" and "wf_prop q" and "p_lo p < p_lo q"
  shows "lmb_addrs_adjacent (lmb_base p) (lmb_size p) (lmb_base q) (lmb_size q) =
    (if p_lo q = p_hi p then 1 else 0)"
  using assms by (auto simp: lmb_addrs_adjacent_def wf_prop_def eq_add_nowrap nowrap_def)

text \<open>The result of adding a range that meets none of the table.\<close>

definition add_result :: "lmb_region \<Rightarrow> phys_addr \<Rightarrow> phys_size \<Rightarrow> int \<Rightarrow> lmb_region \<Rightarrow> bool" where
  "add_result rgn b s ret rgn' \<longleftrightarrow> wf_table rgn' \<and>
     (if ret = -1
      then rgn' = rgn \<and> unat (cnt rgn) = MAX_LMB_REGIONS \<and> untouched (ents rgn) b s
      else 0 \<le> ret \<and> covered rgn' = covered rgn \<union> span (mk_prop b s))"

lemma add_result_ents:
  "tbl rgn' \<Longrightarrow> wf_ents (ents rgn') \<and> cover (ents rgn') = cover (ents rgn) \<union> span (mk_prop b s) \<Longrightarrow>
   0 \<le> ret \<Longrightarrow> add_result rgn b s ret rgn'"
  by (simp add: add_result_def wf_table_tbl covered_def)

lemma span_nonempty: "wf_prop p \<Longrightarrow> span p \<noteq> {}"
  by (simp add: wf_prop_def span_def)

lemma lmb_add_Missed:
  assumes t: "tbl rgn" and w: "wf_ents (ents rgn)" and x: "wf_prop (mk_prop b s)"
    and d: "span (mk_prop b s) \<inter> cover (ents rgn) = {}" and un: "untouched (ents rgn) b s"
    and full: "unat (cnt rgn) < MAX_LMB_REGIONS"
  shows "\<exists>rgn'. lmb_insert rgn b s = Some rgn' \<and> add_result rgn b s 0 rgn'"
proof -
  obtain rgn' where "lmb_insert rgn b s = Some rgn'" "tbl rgn'"
      "ents rgn' = ins_ents (mk_prop b s) (ents rgn)"
    using lmb_insert_spec [OF t full wf_ents_sorted [OF w]] by blast
  moreover have "wf_ents (ins_ents (mk_prop b s) (ents rgn)) \<and>
      cover (ins_ents (mk_prop b s) (ents rgn)) = cover (ents rgn) \<union> span (mk_prop b s)"
    by (rule ins_ents_wf) (use w x d un in simp_all)
  ultimately show ?thesis using add_result_ents [of rgn' rgn b s 0] by auto
qed

text \<open>After growing upwards from below, the next slot may touch the grown one and is merged.\<close>

lemma lmb_add_Grown_dn:
  assumes t: "tbl rgn" and e: "ents rgn = l @ p # r" and w: "wf_ents (ents rgn)" and x: "wf_prop (mk_prop b s)"
    and d: "span (mk_prop b s) \<inter> cover (ents rgn) = {}" and a: "adj_dn p b s"
  defines "rgn1 \<equiv> rgn\<lparr>region := (region rgn)[length l := mk_prop (lmb_base p) (lmb_size p + s)]\<rparr>"
  shows "\<exists>ret rgn'. (if of_nat (length l) < cnt rgn - 1
      then do { adj \<leftarrow> lmb_regions_adjacent rgn1 (length l) (length l + 1);
             if adj \<noteq> 0
             then do { rgn2 \<leftarrow> lmb_coalesce_regions rgn1 (length l) (length l + 1); Some (2, rgn2) }
             else Some (1, rgn1) }
      else Some (1, rgn1)) = Some (ret, rgn') \<and> add_result rgn b s ret rgn'"
proof -
  let ?y = "mk_prop (lmb_base p) (lmb_size p + s)"
  have t1: "tbl rgn1" and e1: "ents rgn1 = l @ ?y # r"
    using t by (simp_all add: rgn1_def tbl_update ents_update e)
  have n: "unat (cnt rgn) = length l + 1 + length r" "cnt rgn1 = cnt rgn"
    using tbl_length_ents [OF t] e by (simp_all add: rgn1_def)
  have w': "wf_ents (l @ p # r)" and d': "span (mk_prop b s) \<inter> cover (l @ p # r) = {}"
    using w d by (simp_all add: e)
  have p: "wf_prop p" using w' by (simp add: wf_ents_append wf_ents_Cons)
  note y = grow_dn_bounds [OF p x a]
  have c: "(of_nat (length l) < cnt rgn - 1) = (r \<noteq> [])"
    using tbl_less_pred [OF t, of "length l"] n t by (auto simp: tbl_def MAX_LMB_REGIONS_def)
  show ?thesis
  proof (cases "r = [] \<or> p_lo (hd r) \<noteq> unat b + unat s")
    case True
    have res: "add_result rgn b s 1 rgn1"
      by (rule add_result_ents [OF t1]) (use grow_dn_wf [OF w' x d' a True] e e1 in simp_all)
    have "lmb_regions_adjacent rgn1 (length l) (length l + 1) = Some 0" if ne: "r \<noteq> []"
    proof -
      obtain q r' where r: "r = q # r'" using ne by (cases r) auto
      have q: "wf_prop q" "p_lo p < p_lo q"
        using w' p by (auto simp: r wf_ents_append wf_ents_Cons gap_def)
      have "lmb_addrs_adjacent (lmb_base ?y) (lmb_size ?y) (lmb_base q) (lmb_size q) = 0"
        using addrs_adjacent_gap [OF y(1) q(1)] q(2) y(2,3) True r by simp
      then show ?thesis
        using regions_adjacent_Some [OF t1, of "length l" "length l + 1"] n by (simp add: e1 r nth_append)
    qed
    then show ?thesis using res c by auto
  next
    case False
    then obtain q r' where r: "r = q # r'" and q: "p_lo q = unat b + unat s" by (cases r) auto
    have wq: "wf_prop q" "p_lo p < p_lo q"
      using w' p by (auto simp: r wf_ents_append wf_ents_Cons gap_def)
    have "lmb_addrs_adjacent (lmb_base ?y) (lmb_size ?y) (lmb_base q) (lmb_size q) = 1"
      using addrs_adjacent_gap [OF y(1) wq(1)] wq(2) y(2,3) q by simp
    then have adj: "lmb_regions_adjacent rgn1 (length l) (length l + 1) = Some 1"
      using regions_adjacent_Some [OF t1, of "length l" "length l + 1"] n by (simp add: e1 r nth_append)
    obtain rgn' where rgn': "lmb_coalesce_regions rgn1 (length l) (length l + 1) = Some rgn'" "tbl rgn'"
        "ents rgn' = l @ mk_prop (lmb_base p) (lmb_size p + s + lmb_size q) # r'"
      using lmb_coalesce_spec [OF t1, of l ?y q r'] e1 r by auto
    have "add_result rgn b s 2 rgn'"
      by (rule add_result_ents [OF rgn'(2)])
        (use grow_merge_wf [OF w' [unfolded r] x d' [unfolded r] a q] e r rgn'(3) in simp_all)
    then show ?thesis using adj rgn'(1) c r by auto
  qed
qed

lemma lmb_add_Grown_up:
  assumes t: "tbl rgn" and e: "ents rgn = l @ p # r" and w: "wf_ents (ents rgn)" and x: "wf_prop (mk_prop b s)"
    and d: "span (mk_prop b s) \<inter> cover (ents rgn) = {}" and a: "adj_up p b s" and un: "untouched l b s"
  defines "rgn1 \<equiv> rgn\<lparr>region := (region rgn)[length l := mk_prop (lmb_base p - s) (lmb_size p + s)]\<rparr>"
  shows "add_result rgn b s 1 rgn1"
    and "of_nat (length l) < cnt rgn - 1 \<Longrightarrow> lmb_regions_adjacent rgn1 (length l) (length l + 1) = Some 0"
proof -
  let ?y = "mk_prop (lmb_base p - s) (lmb_size p + s)"
  have t1: "tbl rgn1" and e1: "ents rgn1 = l @ ?y # r"
    using t by (simp_all add: rgn1_def tbl_update ents_update e)
  have w': "wf_ents (l @ p # r)" and d': "span (mk_prop b s) \<inter> cover (l @ p # r) = {}"
    using w d by (simp_all add: e)
  note y = grow_up_wf [OF w' x un d' a]
  show "add_result rgn b s 1 rgn1"
    by (rule add_result_ents [OF t1]) (use y(2) e e1 in simp_all)
  assume lt: "of_nat (length l) < cnt rgn - 1"
  have n: "unat (cnt rgn) = length l + 1 + length r" "cnt rgn1 = cnt rgn"
    using tbl_length_ents [OF t] e by (simp_all add: rgn1_def)
  have "length l < 2 ^ 32" using n t by (simp add: tbl_def MAX_LMB_REGIONS_def)
  then obtain q r' where r: "r = q # r'"
    using lt tbl_less_pred [OF t] n by (cases r) auto
  have wy: "wf_prop ?y" "wf_prop q" "gap ?y q"
    using y(2) by (simp_all add: r wf_ents_append wf_ents_Cons)
  then have "lmb_addrs_adjacent (lmb_base ?y) (lmb_size ?y) (lmb_base q) (lmb_size q) = 0"
    using addrs_adjacent_gap [OF wy(1,2)] by (simp add: gap_def)
  then show "lmb_regions_adjacent rgn1 (length l) (length l + 1) = Some 0"
    using regions_adjacent_Some [OF t1, of "length l" "length l + 1"] n by (simp add: e1 r nth_append)
qed

lemma lmb_add_region_wf:
  assumes wf: "wf_table rgn" and x: "wf_prop (mk_prop b s)" and disj: "disjoint_from b s rgn"
  shows "\<exists>ret rgn'. lmb_add_region rgn b s = Some (ret, rgn') \<and> add_result rgn b s ret rgn'"
proof -
  have t: "tbl rgn" and w: "wf_ents (ents rgn)" using wf by (simp_all add: wf_table_tbl)
  have d: "span (mk_prop b s) \<inter> cover (ents rgn) = {}"
    using disj by (simp add: disjoint_from_def covered_def)
  have len: "region rgn \<noteq> []" "0 < unat (cnt rgn)" "unat (cnt rgn) \<le> length (region rgn)"
    using t by (auto simp: tbl_def)
  have "ents rgn ! 0 \<in> set (ents rgn)" using len t by (intro nth_mem) simp
  then have "lmb_size (region rgn ! 0) \<noteq> 0"
    using wf_entsD [OF w] tbl_nth [OF t, of 0] len by (fastforce simp: wf_prop_def)
  moreover obtain r where r: "lmb_scan (region rgn) (unat (cnt rgn)) b s 0 = Some r"
      "scan_ok (region rgn) b s (ents rgn) r"
    using lmb_scan_ok [of "unat (cnt rgn)" "region rgn" 0 b s] len by (auto simp: ents_def untouched_def)
  ultimately have code: "lmb_add_region rgn b s = (case r of
          Already \<Rightarrow> Some (0, rgn)
        | Grown i rs \<Rightarrow> do {
            let rgn1 = rgn\<lparr>region := rs\<rparr>;
            if of_nat i < cnt rgn - 1
            then do {
              adj \<leftarrow> lmb_regions_adjacent rgn1 i (i + 1);
              if adj \<noteq> 0
              then do { rgn2 \<leftarrow> lmb_coalesce_regions rgn1 i (i + 1); Some (2, rgn2) }
              else Some (1, rgn1) }
            else Some (1, rgn1) }
        | Missed i \<Rightarrow> do {
            adj \<leftarrow> (if of_nat i < cnt rgn - 1 then lmb_regions_adjacent rgn i (i + 1) else Some 0);
            if adj \<noteq> 0
            then do { rgn2 \<leftarrow> lmb_coalesce_regions rgn i (i + 1); Some (1, rgn2) }
            else if MAX_LMB_REGIONS \<le> unat (cnt rgn) then Some (-1, rgn)
            else do { rgn2 \<leftarrow> lmb_insert rgn b s; Some (0, rgn2) } })"
    using len by (simp add: lmb_add_region_def)
  show ?thesis
  proof (cases r)
    case Already
    then have "mk_prop b s \<in> set (ents rgn)" using r by (simp add: scan_ok_def)
    then have False using cover_disjointD [OF d] span_nonempty [OF x] by blast
    then show ?thesis ..
  next
    case (Grown i rs)
    with r have ok: "i < length (ents rgn)" "untouched (take i (ents rgn)) b s" by (simp_all add: scan_ok_def)
    from ok(1) obtain l p q where e: "ents rgn = l @ p # q" "length l = i" "ents rgn ! i = p" "take i (ents rgn) = l"
      by (rule ents_split)
    show ?thesis
    proof (cases "adj_up p b s")
      case True
      with r Grown e have "rs = (region rgn)[length l := mk_prop (lmb_base p - s) (lmb_size p + s)]"
        by (simp add: scan_ok_def)
      with lmb_add_Grown_up [OF t e(1) w x d True] ok e Grown show ?thesis
        unfolding code by (cases "of_nat (length l) < cnt rgn - 1") (auto simp: Let_def)
    next
      case False
      with r Grown e have dn: "adj_dn p b s" and rs: "rs = (region rgn)[length l := mk_prop (lmb_base p) (lmb_size p + s)]"
        by (simp_all add: scan_ok_def)
      show ?thesis
        unfolding code Grown scan.case Let_def rs e(2) [symmetric]
        by (rule lmb_add_Grown_dn [OF t e(1) w x d dn])
    qed
  next
    case (Missed i)
    then have i: "i = unat (cnt rgn)" "untouched (ents rgn) b s" using r t by (simp_all add: scan_ok_def)
    have nl: "\<not> of_nat i < cnt rgn - 1" unfolding i
      using tbl_less_pred [OF t, of "unat (cnt rgn)"] t by (simp add: tbl_def MAX_LMB_REGIONS_def)
    show ?thesis
    proof (cases "MAX_LMB_REGIONS \<le> unat (cnt rgn)")
      case True
      then have "add_result rgn b s (-1) rgn"
        using wf i t by (simp add: add_result_def tbl_def)
      then show ?thesis unfolding code using True nl Missed by simp
    next
      case False
      then show ?thesis
        using lmb_add_Missed [OF t w x d i(2)] nl Missed unfolding code by auto
    qed
  qed
qed

section \<open>Memory safety of every insertion\<close>

text \<open>
  Whatever is added, overlapping or not, the table operations stay inside the nine slots and
  keep the shape of the table.
\<close>

lemma tbl_region_update: "length rs = length (region rgn) \<Longrightarrow> tbl (rgn\<lparr>region := rs\<rparr>) = tbl rgn"
  by (simp add: tbl_def)

lemma lmb_coalesce_safe:
  assumes "tbl rgn" and "Suc i < unat (cnt rgn)"
  shows "\<exists>rgn'. lmb_coalesce_regions rgn i (i + 1) = Some rgn' \<and> tbl rgn'"
proof -
  have i: "i < length (ents rgn)" "Suc i < length (ents rgn)" using assms by simp_all
  have "ents rgn = take i (ents rgn) @ ents rgn ! i # ents rgn ! Suc i # drop (Suc (Suc i)) (ents rgn)"
    using i by (simp add: Cons_nth_drop_Suc id_take_nth_drop [symmetric])
  from lmb_coalesce_spec [OF assms(1) this] i show ?thesis by auto
qed

lemma lmb_insert_safe:
  assumes "tbl rgn" and "unat (cnt rgn) < MAX_LMB_REGIONS"
  shows "\<exists>rgn'. lmb_insert rgn b s = Some rgn' \<and> tbl rgn'"
proof -
  have "unat (cnt rgn + 1) = Suc (unat (cnt rgn))"
    using assms(2) by (simp add: unat_word_ariths MAX_LMB_REGIONS_def)
  then show ?thesis
    using assms lmb_insert_loop_frame [of "region rgn" b s "unat (cnt rgn)"]
    by (auto simp: lmb_insert_def rd_def Let_def tbl_def)
qed

lemma lmb_add_region_safe:
  assumes t: "tbl rgn"
  shows "\<exists>ret rgn'. lmb_add_region rgn b s = Some (ret, rgn') \<and> tbl rgn' \<and> (ret < 0 \<longrightarrow> rgn' = rgn)"
proof -
  have len: "region rgn \<noteq> []" "unat (cnt rgn) \<le> length (region rgn)"
    using t by (auto simp: tbl_def)
  obtain r where r: "lmb_scan (region rgn) (unat (cnt rgn)) b s 0 = Some r"
      "scan_ok (region rgn) b s (ents rgn) r"
    using lmb_scan_ok [of "unat (cnt rgn)" "region rgn" 0 b s] len by (auto simp: ents_def untouched_def)
  have lt: "(of_nat i < cnt rgn - 1) = (Suc i < unat (cnt rgn))" if "i \<le> length (ents rgn)" for i
    by (rule tbl_less_pred [OF t]) (use that t in \<open>simp add: tbl_def MAX_LMB_REGIONS_def\<close>)
  show ?thesis
  proof (cases "cnt rgn = 1 \<and> lmb_size (region rgn ! 0) = 0")
    case True
    then show ?thesis using t len by (simp add: lmb_add_region_def tbl_update del: tbl_nth)
  next
    case dummy: False
    show ?thesis
    proof (cases r)
      case Already
      then show ?thesis using r len dummy t by (auto simp: lmb_add_region_def)
    next
      case (Grown i rs)
      let ?rgn = "rgn\<lparr>region := rs\<rparr>"
      have i: "i < unat (cnt rgn)" "length rs = length (region rgn)"
        using r Grown t by (auto simp: scan_ok_def)
      have t1: "tbl ?rgn" using t i by (simp add: tbl_region_update)
      show ?thesis
      proof (cases "Suc i < unat (cnt rgn)")
        case True
        obtain rgn2 where "lmb_coalesce_regions ?rgn i (Suc i) = Some rgn2" "tbl rgn2"
          using lmb_coalesce_safe [OF t1, of i] True by auto
        moreover obtain a where "lmb_regions_adjacent ?rgn i (Suc i) = Some a"
          using regions_adjacent_Some [OF t1, of i "Suc i"] True i by simp
        ultimately show ?thesis
          using r len dummy Grown i t t1 True lt [of i] by (auto simp: lmb_add_region_def Let_def)
      next
        case False
        then show ?thesis
          using r len dummy Grown i t t1 lt [of i] by (auto simp: lmb_add_region_def Let_def)
      qed
    next
      case (Missed i)
      have nl: "\<not> of_nat i < cnt rgn - 1" using lt [of i] r Missed t by (simp add: scan_ok_def)
      show ?thesis
      proof (cases "MAX_LMB_REGIONS \<le> unat (cnt rgn)")
        case True
        then show ?thesis using nl Missed r len dummy t by (auto simp: lmb_add_region_def)
      next
        case False
        then obtain rgn2 where "lmb_insert rgn b s = Some rgn2" "tbl rgn2"
          using lmb_insert_safe [OF t] by auto
        then show ?thesis using False nl Missed r len dummy by (auto simp: lmb_add_region_def)
      qed
    qed
  qed
qed

section \<open>Usable tables: fresh or well formed\<close>

definition lmb_ok :: "lmb_region \<Rightarrow> bool" where
  "lmb_ok rgn \<longleftrightarrow> fresh_table rgn \<or> wf_table rgn"

lemma fresh_ents: "fresh_table rgn \<Longrightarrow> ents rgn = [mk_prop 0 0]"
  by (cases "region rgn") (auto simp: fresh_table_def ents_def intro: prop_eqI)

lemma fresh_covered [simp]: "fresh_table rgn \<Longrightarrow> covered rgn = {}"
  by (simp add: covered_def fresh_ents span_def)

lemma fresh_tbl: "fresh_table rgn \<Longrightarrow> tbl rgn"
  by (simp add: fresh_table_def tbl_def MAX_LMB_REGIONS_def)

lemma lmb_ok_tbl: "lmb_ok rgn \<Longrightarrow> tbl rgn"
  by (auto simp: lmb_ok_def fresh_tbl wf_table_tbl)

lemma lmb_init_ok:
  "length (region (memory l)) = Suc MAX_LMB_REGIONS \<Longrightarrow> length (region (reserved l)) = Suc MAX_LMB_REGIONS \<Longrightarrow>
   fresh_table (memory (lmb_init l)) \<and> fresh_table (reserved (lmb_init l))"
  by (simp add: lmb_init_def lmb_init_region_def fresh_table_def)

lemma lmb_add_region_fresh:
  assumes f: "fresh_table rgn" and x: "wf_prop (mk_prop b s)"
  shows "\<exists>rgn'. lmb_add_region rgn b s = Some (0, rgn') \<and> add_result rgn b s 0 rgn'"
proof -
  let ?rgn = "rgn\<lparr>region := (region rgn)[0 := mk_prop b s]\<rparr>"
  have e: "ents ?rgn = [mk_prop b s]" by (simp add: ents_update fresh_ents [OF f])
  have "add_result rgn b s 0 ?rgn"
    using f x fresh_tbl [OF f]
    by (simp add: add_result_def wf_table_tbl tbl_update covered_def e wf_ents_Cons fresh_ents span_def)
  moreover have "lmb_add_region rgn b s = Some (0, ?rgn)"
    using f by (simp add: lmb_add_region_def fresh_table_def)
  ultimately show ?thesis by blast
qed

lemma lmb_add_region_ok:
  assumes "lmb_ok rgn" and "wf_prop (mk_prop b s)" and "disjoint_from b s rgn"
  shows "\<exists>ret rgn'. lmb_add_region rgn b s = Some (ret, rgn') \<and> add_result rgn b s ret rgn'"
  using assms lmb_add_region_wf lmb_add_region_fresh unfolding lmb_ok_def by blast

section \<open>Overlap test and reservation test\<close>

lemma lmb_overlap_scan_spec:
  "n \<le> length rs \<Longrightarrow> \<exists>r. lmb_overlap_scan rs n b s i = Some r \<and>
     (r = None \<longrightarrow> (\<forall>j. i \<le> j \<and> j < n \<longrightarrow> \<not> lmb_addrs_overlap b s (lmb_base (rs ! j)) (lmb_size (rs ! j))))"
proof (induction rs n b s i rule: lmb_overlap_scan.induct)
  case (1 rs n b s i)
  show ?case
  proof (cases "i < n \<and> \<not> lmb_addrs_overlap b s (lmb_base (rs ! i)) (lmb_size (rs ! i))")
    case True
    then obtain r where "lmb_overlap_scan rs n b s (Suc i) = Some r"
      "r = None \<longrightarrow> (\<forall>j. Suc i \<le> j \<and> j < n \<longrightarrow> \<not> lmb_addrs_overlap b s (lmb_base (rs ! j)) (lmb_size (rs ! j)))"
      using "1" by (metis order_less_le_trans)
    then show ?thesis using True "1.prems"
      by (auto simp: lmb_overlap_scan.simps [of rs n b s i] Suc_le_eq dest!: le_eq_less_or_eq [THEN iffD1])
  next
    case False
    then show ?thesis using "1.prems" by (auto simp: lmb_overlap_scan.simps [of rs n b s i])
  qed
qed

lemma overlap_iff:
  assumes "wf_prop p" and "wf_prop (mk_prop b s)"
  shows "lmb_addrs_overlap b s (lmb_base p) (lmb_size p) \<longleftrightarrow> span (mk_prop b s) \<inter> span p \<noteq> {}"
  using assms span_disjoint_iff [OF assms(2,1)]
  by (auto simp: lmb_addrs_overlap_def word_less_unat wf_prop_def nowrap_def unat_add_nowrap)

lemma lmb_overlaps_region_spec:
  assumes ok: "lmb_ok rgn" and x: "wf_prop (mk_prop b s)"
  shows "\<exists>r. lmb_overlaps_region rgn b s = Some r \<and>
     (case r of None \<Rightarrow> disjoint_from b s rgn
      | Some j \<Rightarrow> j < unat (cnt rgn) \<and> span (mk_prop b s) \<inter> span (ents rgn ! j) \<noteq> {})"
proof -
  have t: "tbl rgn" using ok by (rule lmb_ok_tbl)
  then have "unat (cnt rgn) \<le> length (region rgn)" by (simp add: tbl_def)
  then obtain r where r: "lmb_overlaps_region rgn b s = Some r"
      "r = None \<longrightarrow> (\<forall>j<unat (cnt rgn). \<not> lmb_addrs_overlap b s (lmb_base (ents rgn ! j)) (lmb_size (ents rgn ! j)))"
    using lmb_overlap_scan_spec [of "unat (cnt rgn)" "region rgn" b s 0] tbl_nth [OF t]
    by (auto simp: lmb_overlaps_region_def)
  have some: "j < unat (cnt rgn) \<and> lmb_addrs_overlap b s (lmb_base (ents rgn ! j)) (lmb_size (ents rgn ! j))"
    if "r = Some j" for j
    using lmb_overlap_scan_Some [of "region rgn" "unat (cnt rgn)" b s 0 j] r(1) that tbl_nth [OF t]
    by (auto simp: lmb_overlaps_region_def)
  show ?thesis
  proof (cases "fresh_table rgn")
    case True
    then have "r = None" using some fresh_ents [OF True]
      by (cases r) (auto simp: lmb_addrs_overlap_def fresh_table_def)
    then show ?thesis using r(1) True by (simp add: disjoint_from_def)
  next
    case False
    then have w: "wf_ents (ents rgn)" using ok by (simp add: lmb_ok_def wf_table_def)
    have iff: "lmb_addrs_overlap b s (lmb_base (ents rgn ! j)) (lmb_size (ents rgn ! j)) \<longleftrightarrow>
        span (mk_prop b s) \<inter> span (ents rgn ! j) \<noteq> {}" if "j < unat (cnt rgn)" for j
      by (rule overlap_iff [OF wf_entsD [OF w] x]) (use t that in simp)
    show ?thesis
    proof (cases r)
      case None
      then have "disjoint_from b s rgn"
        using r(2) iff t unfolding disjoint_from_def covered_def cover_def
        by (fastforce simp: in_set_conv_nth)
      then show ?thesis using r(1) None by simp
    next
      case (Some j)
      then show ?thesis using r(1) some [OF Some] iff by auto
    qed
  qed
qed

lemma lmb_reserved_scan_spec:
  "n \<le> length rs \<Longrightarrow> \<forall>p\<in>set (take n rs). wf_prop p \<Longrightarrow>
   lmb_reserved_scan rs n a i = Some (\<exists>j\<ge>i. j < n \<and> unat a \<in> span (rs ! j))"
proof (induction rs n a i rule: lmb_reserved_scan.induct)
  case (1 rs n a i)
  show ?case
  proof (cases "i < n")
    case False
    then show ?thesis by (simp add: lmb_reserved_scan.simps [of rs n a i])
  next
    case True
    let ?p = "rs ! i"
    have "?p \<in> set (take n rs)" using True "1.prems" by (metis length_take min.absorb4 nth_mem nth_take min.absorb2)
    then have wp: "wf_prop ?p" using "1.prems" by blast
    have "unat (lmb_base ?p + lmb_size ?p - 1) = p_hi ?p - 1"
      using wp by (subst unat_sub_le) (auto simp: wf_prop_def nowrap_def unat_add_nowrap word_le_unat)
    then have hit: "(lmb_base ?p \<le> a \<and> a \<le> lmb_base ?p + lmb_size ?p - 1) = (unat a \<in> span ?p)"
      using wp by (auto simp: word_le_unat span_def wf_prop_def)
    show ?thesis
      using hit True "1" wp
      by (auto simp: lmb_reserved_scan.simps [of rs n a i] Let_def ex_from [OF True])
  qed
qed

lemma covered_nth: "tbl rgn \<Longrightarrow> covered rgn = (\<Union>j<unat (cnt rgn). span (ents rgn ! j))"
  by (auto simp: covered_def cover_def set_conv_nth)

lemma lmb_is_reserved_wf:
  assumes "wf_table (reserved l)"
  shows "lmb_is_reserved l a = Some (unat a \<in> covered (reserved l))"
proof -
  have t: "tbl (reserved l)" and w: "wf_ents (ents (reserved l))"
    using assms by (simp_all add: wf_table_tbl)
  then have "lmb_is_reserved l a =
      Some (\<exists>j\<ge>0. j < unat (cnt (reserved l)) \<and> unat a \<in> span (region (reserved l) ! j))"
    unfolding lmb_is_reserved_def
    by (intro lmb_reserved_scan_spec) (auto simp: tbl_def ents_def wf_ents_def list_all_iff)
  also have "(\<exists>j\<ge>0. j < unat (cnt (reserved l)) \<and> unat a \<in> span (region (reserved l) ! j)) =
      (unat a \<in> covered (reserved l))"
    using t by (auto simp: covered_nth)
  finally show ?thesis .
qed

section \<open>Release\<close>

text \<open>A non-empty range inside the table lies in one slot, because slots are separated.\<close>

lemma span_in_one_slot:
  assumes w: "wf_ents xs" and x: "wf_prop x" and sub: "span x \<subseteq> cover xs"
  shows "\<exists>p\<in>set xs. p_lo p \<le> p_lo x \<and> p_hi x \<le> p_hi p"
proof -
  have "p_lo x \<in> cover xs" using sub x by (auto simp: span_def wf_prop_def)
  then obtain p where p: "p \<in> set xs" "p_lo p \<le> p_lo x" "p_lo x < p_hi p"
    by (auto simp: cover_def span_def)
  have "p_hi x \<le> p_hi p"
  proof (rule ccontr)
    assume "\<not> p_hi x \<le> p_hi p"
    then have "p_hi p \<in> span x" using p by (simp add: span_def)
    then obtain q where q: "q \<in> set xs" "p_lo q \<le> p_hi p" "p_hi p < p_hi q"
      using sub by (auto simp: cover_def span_def)
    obtain l r where xs: "xs = l @ p # r" using p(1) by (auto dest: split_list)
    then consider "q \<in> set l" | "q = p" | "q \<in> set r" using q(1) by auto
    then show False
      using wf_ents_gapD [of l p r q] w p q unfolding xs gap_def by cases auto
  qed
  with p show ?thesis by blast
qed

lemma lmb_find_holder_spec:
  assumes "n \<le> length rs" and "\<forall>p\<in>set (take n rs). wf_prop p"
    and "\<exists>j\<ge>i. j < n \<and> p_lo (rs ! j) \<le> unat b \<and> unat f \<le> p_hi (rs ! j)"
  shows "\<exists>j. lmb_find_holder rs n b f i = Some (Some j) \<and> j < n \<and>
     p_lo (rs ! j) \<le> unat b \<and> unat f \<le> p_hi (rs ! j)"
  using assms
proof (induction rs n b f i rule: lmb_find_holder.induct)
  case (1 rs n b f i)
  have i: "i < n" "i < length rs" using "1.prems" by auto
  have "rs ! i \<in> set (take n rs)" using i "1.prems"(1) by (auto simp: in_set_conv_nth)
  then have "nowrap (lmb_base (rs ! i)) (lmb_size (rs ! i))"
    using "1.prems"(2) by (auto simp: wf_prop_def nowrap_def)
  then have hit: "(lmb_base (rs ! i) \<le> b \<and> f \<le> lmb_base (rs ! i) + lmb_size (rs ! i)) =
      (p_lo (rs ! i) \<le> unat b \<and> unat f \<le> p_hi (rs ! i))"
    by (simp add: word_le_unat unat_add_nowrap)
  show ?case
    using "1" i hit
    by (auto simp: lmb_find_holder.simps [of rs n b f i] Let_def ex_from [OF i(1)])
qed

lemma lmb_find_holder_None:
  assumes "n \<le> length rs" and "\<forall>p\<in>set (take n rs). wf_prop p"
    and "\<not> (\<exists>j\<ge>i. j < n \<and> p_lo (rs ! j) \<le> unat b \<and> unat f \<le> p_hi (rs ! j))"
  shows "lmb_find_holder rs n b f i = Some None"
  using assms
proof (induction rs n b f i rule: lmb_find_holder.induct)
  case (1 rs n b f i)
  show ?case
  proof (cases "i < n")
    case i: True
    have "rs ! i \<in> set (take n rs)" using i "1.prems"(1) by (auto simp: in_set_conv_nth)
    then have "nowrap (lmb_base (rs ! i)) (lmb_size (rs ! i))"
      using "1.prems"(2) by (auto simp: wf_prop_def nowrap_def)
    then have hit: "(lmb_base (rs ! i) \<le> b \<and> f \<le> lmb_base (rs ! i) + lmb_size (rs ! i)) =
        (p_lo (rs ! i) \<le> unat b \<and> unat f \<le> p_hi (rs ! i))"
      by (simp add: word_le_unat unat_add_nowrap)
    show ?thesis
      using "1" i hit
      by (auto simp: lmb_find_holder.simps [of rs n b f i] Let_def ex_from [OF i])
  qed (simp add: lmb_find_holder.simps [of rs n b f i])
qed

text \<open>Removing a range from the slot that holds it.\<close>

definition less_range :: "lmb_property list \<Rightarrow> lmb_property list \<Rightarrow> lmb_property \<Rightarrow> bool" where
  "less_range ys xs x \<longleftrightarrow> wf_ents ys \<and> cover ys = cover xs - span x"

lemma other_slots_disjoint:
  assumes w: "wf_ents (l @ p # r)" and x: "wf_prop x" and in_p: "p_lo p \<le> p_lo x" "p_hi x \<le> p_hi p"
  shows "span x \<inter> cover l = {}" "span x \<inter> cover r = {}"
proof -
  have "span x \<subseteq> span p" using in_p by (auto simp: span_def)
  moreover have "span p \<inter> cover l = {}" "span p \<inter> cover r = {}"
    using w by (fastforce simp: cover_def span_def wf_ents_append wf_ents_Cons gap_def)+
  ultimately show "span x \<inter> cover l = {}" "span x \<inter> cover r = {}" by blast+
qed

lemma replace_slot:
  assumes w: "wf_ents (l @ p # r)" and x: "wf_prop x" and in_p: "p_lo p \<le> p_lo x" "p_hi x \<le> p_hi p"
    and y: "wf_prop y" "p_lo p \<le> p_lo y" "p_hi y \<le> p_hi p" "span y = span p - span x"
  shows "less_range (l @ y # r) (l @ p # r) x"
proof -
  have "\<forall>q\<in>set l. gap q y" "\<forall>q\<in>set r. gap y q"
    using w y by (auto simp: wf_ents_append wf_ents_Cons gap_def)
  moreover have "cover (l @ y # r) = cover (l @ p # r) - span x"
    using other_slots_disjoint [OF w x in_p] y(4) by auto
  ultimately show ?thesis
    using w y(1) by (auto simp: less_range_def wf_ents_append wf_ents_Cons)
qed

lemma drop_slot:
  assumes w: "wf_ents (l @ p # r)" and x: "wf_prop x" and eq: "p_lo p = p_lo x" "p_hi x = p_hi p"
  shows "less_range (l @ r) (l @ p # r) x"
proof -
  have "span x = span p" using eq by (simp add: span_def)
  with other_slots_disjoint [OF w x] eq w show ?thesis
    by (auto simp: less_range_def wf_ents_append wf_ents_Cons)
qed

text \<open>
  The outcome of \<open>lmb_free\<close> on a range of the table: the range is gone, everything else is
  unchanged.  When the range was the only slot, the table is left with \<open>cnt = 0\<close>.
\<close>

definition free_result :: "lmb_region \<Rightarrow> lmb_property \<Rightarrow> lmb_region \<Rightarrow> bool" where
  "free_result rgn x rgn' \<longleftrightarrow> length (region rgn') = length (region rgn) \<and>
     less_range (ents rgn') (ents rgn) x \<and> (cnt rgn' = 0 \<or> tbl rgn')"

text \<open>On a full table a range that touches no slot is refused.\<close>

lemma lmb_add_full:
  assumes t: "tbl rgn" and full: "unat (cnt rgn) = MAX_LMB_REGIONS"
    and un: "untouched (ents rgn) b s" and new: "mk_prop b s \<notin> set (ents rgn)"
  shows "lmb_add_region rgn b s = Some (- 1, rgn)"
proof -
  have len: "region rgn \<noteq> []" "unat (cnt rgn) \<le> length (region rgn)" "cnt rgn \<noteq> 1"
    using t full by (auto simp: tbl_def MAX_LMB_REGIONS_def)
  obtain r where r: "lmb_scan (region rgn) (unat (cnt rgn)) b s 0 = Some r" "scan_ok (region rgn) b s (ents rgn) r"
    using lmb_scan_ok [of "unat (cnt rgn)" "region rgn" 0 b s] len by (auto simp: ents_def untouched_def)
  have "r = Missed (unat (cnt rgn))"
    using r(2) un new t by (cases r) (auto simp: scan_ok_def untouched_def)
  moreover have "\<not> of_nat (unat (cnt rgn)) < cnt rgn - 1"
    using tbl_less_pred [OF t, of "unat (cnt rgn)"] full by (simp add: MAX_LMB_REGIONS_def)
  ultimately show ?thesis using r(1) len full by (simp add: lmb_add_region_def)
qed

lemma lmb_free_split:
  assumes t: "tbl rgn" and e: "ents rgn = l @ p # r" and w: "wf_ents (ents rgn)"
    and x: "wf_prop (mk_prop b s)" and "in": "p_lo p < unat b" "unat b + unat s < p_hi p"
  defines "rgn1 \<equiv> rgn\<lparr>region := (region rgn)[length l := mk_prop (lmb_base p) (b - lmb_base p)]\<rparr>"
    and "f \<equiv> b + s" and "rgnend \<equiv> lmb_base p + lmb_size p"
  shows "\<exists>ret rgn'. lmb_add_region rgn1 f (rgnend - f) = Some (ret, rgn') \<and>
    (if unat (cnt rgn) < MAX_LMB_REGIONS then 0 \<le> ret \<and> free_result rgn (mk_prop b s) rgn'
     else ret = - 1 \<and> free_result rgn (mk_prop b (lmb_size p - (b - lmb_base p))) rgn')"
proof -
  let ?x = "mk_prop b s" and ?y = "mk_prop (lmb_base p) (b - lmb_base p)" and ?z = "mk_prop f (rgnend - f)"
  have w': "wf_ents (l @ p # r)" using w e by simp
  then have p: "wf_prop p" by (simp add: wf_ents_append wf_ents_Cons)
  have f: "unat f = unat b + unat s" using x by (simp add: f_def wf_prop_def nowrap_def unat_add_nowrap)
  have re: "unat rgnend = p_hi p" using p by (simp add: rgnend_def wf_prop_def nowrap_def unat_add_nowrap)
  have z: "unat (rgnend - f) = p_hi p - unat f"
    using f re "in" by (simp add: unat_sub_le word_le_unat)
  have y: "p_hi ?y = unat b" using "in" by (simp add: unat_sub_le word_le_unat)
  have wy: "wf_prop ?y" and wz: "wf_prop ?z" and zhi: "p_hi ?z = p_hi p"
    using y "in" p z f by (auto simp: wf_prop_def)
  have t1: "tbl rgn1" and e1: "ents rgn1 = l @ ?y # r" and c1: "cnt rgn1 = cnt rgn"
    using t by (simp_all add: rgn1_def tbl_update ents_update e)
  have lr: "less_range (l @ ?y # r) (l @ p # r) (mk_prop b (lmb_size p - (b - lmb_base p)))"
  proof (rule replace_slot [OF w'])
    have sz: "unat (lmb_size p - (b - lmb_base p)) = p_hi p - unat b"
      using "in" y by (subst unat_sub_le) (auto simp: word_le_unat)
    then show "wf_prop (mk_prop b (lmb_size p - (b - lmb_base p)))"
      using "in" p by (auto simp: wf_prop_def)
    show "p_hi (mk_prop b (lmb_size p - (b - lmb_base p))) \<le> p_hi p" using sz "in" by simp
    show "span ?y = span p - span (mk_prop b (lmb_size p - (b - lmb_base p)))"
      using sz "in" y by (auto simp: span_def)
  qed (use "in" wy y in simp_all)
  then have w1: "wf_ents (ents rgn1)" by (simp add: less_range_def e1)
  have zdis: "disjoint_from f (rgnend - f) rgn1"
    using other_slots_disjoint [OF w' wz] zhi "in" f y
    by (auto simp: disjoint_from_def covered_def e1 span_def)
  show ?thesis
  proof (cases "unat (cnt rgn) < MAX_LMB_REGIONS")
    case room: True
    obtain ret rgn' where ret: "lmb_add_region rgn1 f (rgnend - f) = Some (ret, rgn')"
        "add_result rgn1 f (rgnend - f) ret rgn'"
      using lmb_add_region_wf [OF _ wz zdis] t1 w1 by (auto simp: wf_table_tbl)
    with room c1 have "0 \<le> ret" and wf': "wf_table rgn'"
      and cov: "covered rgn' = covered rgn1 \<union> span ?z"
      by (auto simp: add_result_def split: if_splits)
    moreover have "cover (ents rgn') = cover (ents rgn) - span ?x"
      using cov other_slots_disjoint [OF w' x] "in" y zhi f
      by (auto simp: covered_def e1 e span_def)
    ultimately show ?thesis
      using ret(1) t wf' room by (auto simp: free_result_def less_range_def wf_table_tbl tbl_def)
  next
    case False
    have s: "0 < unat s" using x by (simp add: wf_prop_def)
    have g: "\<And>q. q \<in> set l \<Longrightarrow> p_hi q < p_lo p \<and> wf_prop q" "\<And>q. q \<in> set r \<Longrightarrow> p_hi p < p_lo q \<and> wf_prop q"
      using w' wf_entsD [OF w'] by (auto simp: wf_ents_append wf_ents_Cons gap_def)
    have "untouched (ents rgn1) f (rgnend - f)"
      unfolding untouched_def e1
    proof (intro ballI)
      fix q assume "q \<in> set (l @ ?y # r)"
      then have "wf_prop q" "p_lo q \<noteq> p_hi ?z" "p_hi q \<noteq> unat f"
        using g [of q] wy y zhi f s "in" by (auto simp: wf_prop_def)
      then show "\<not> adj_up q f (rgnend - f) \<and> \<not> adj_dn q f (rgnend - f)"
        using adj_up_iff [OF wz, of q] adj_dn_iff [of q f] by simp
    qed
    moreover have "?z \<notin> set (ents rgn1)"
      using zdis span_nonempty [OF wz] by (auto simp: disjoint_from_def covered_def cover_def)
    ultimately have "lmb_add_region rgn1 f (rgnend - f) = Some (- 1, rgn1)"
      by (intro lmb_add_full [OF t1]) (use False t c1 in \<open>simp_all add: tbl_def\<close>)
    then show ?thesis using False lr t t1 e e1 by (simp add: free_result_def rgn1_def)
  qed
qed

text \<open>A range with reserved addresses of its slot on both sides.\<close>

definition inner :: "lmb_region \<Rightarrow> phys_addr \<Rightarrow> phys_size \<Rightarrow> bool" where
  "inner rgn b s \<longleftrightarrow> (\<exists>p\<in>set (ents rgn). p_lo p < unat b \<and> unat b + unat s < p_hi p)"

lemma inner_slot:
  assumes "wf_ents (l @ p # r)" and "wf_prop (mk_prop b s)" and "p_lo p \<le> unat b" "unat b + unat s \<le> p_hi p"
    and "q \<in> set (l @ p # r)" "p_lo q < unat b" "unat b + unat s < p_hi q"
  shows "q = p"
proof (rule ccontr)
  assume "q \<noteq> p"
  then have "p_hi q < p_lo p \<or> p_hi p < p_lo q"
    using assms(1,5) by (auto simp: wf_ents_append wf_ents_Cons gap_def)
  then show False using assms(2-4,6,7) by (auto simp: wf_prop_def)
qed

lemma lmb_free_ok:
  assumes wf: "wf_table (reserved l)" and x: "wf_prop (mk_prop b s)"
    and sub: "span (mk_prop b s) \<subseteq> covered (reserved l)"
  shows "\<exists>ret l'. lmb_free l b s = Some (ret, l') \<and> memory l' = memory l \<and>
     (if unat (cnt (reserved l)) < MAX_LMB_REGIONS \<or> \<not> inner (reserved l) b s
      then 0 \<le> ret \<and> free_result (reserved l) (mk_prop b s) (reserved l')
      else ret = - 1 \<and> (\<exists>p n. p \<in> set (ents (reserved l)) \<and> p_lo p < unat b \<and> unat b + unat s < p_hi p \<and>
        p_hi (mk_prop b n) = p_hi p \<and> free_result (reserved l) (mk_prop b n) (reserved l')))"
proof -
  let ?rgn = "reserved l" and ?x = "mk_prop b s"
  have t: "tbl ?rgn" and w: "wf_ents (ents ?rgn)" using wf by (simp_all add: wf_table_tbl)
  have f: "unat (b + s) = p_hi ?x" using x by (simp add: wf_prop_def nowrap_def unat_add_nowrap)
  obtain p0 where "p0 \<in> set (ents ?rgn)" "p_lo p0 \<le> unat b" "p_hi ?x \<le> p_hi p0"
    using span_in_one_slot [OF w x] sub by (auto simp: covered_def)
  then have ex: "\<exists>j\<ge>0. j < unat (cnt ?rgn) \<and> p_lo (region ?rgn ! j) \<le> unat b \<and> unat (b + s) \<le> p_hi (region ?rgn ! j)"
    using t f by (auto simp: in_set_conv_nth)
  have len: "unat (cnt ?rgn) \<le> length (region ?rgn)" using t by (simp add: tbl_def)
  have wfall: "\<forall>p\<in>set (take (unat (cnt ?rgn)) (region ?rgn)). wf_prop p"
    using wf_entsD [OF w] unfolding ents_def by blast
  from ex obtain j where j: "lmb_find_holder (region ?rgn) (unat (cnt ?rgn)) b (b + s) 0 = Some (Some j)"
      "j < unat (cnt ?rgn)" "p_lo (region ?rgn ! j) \<le> unat b" "unat (b + s) \<le> p_hi (region ?rgn ! j)"
    using lmb_find_holder_spec [OF len wfall] by blast
  obtain la p r where e: "ents ?rgn = la @ p # r" "length la = j" "ents ?rgn ! j = p" "take j (ents ?rgn) = la"
    using ents_split [of j ?rgn] j t by auto
  have pj: "region ?rgn ! j = p" using e j t by simp
  have "in": "p_lo p \<le> unat b" "p_hi ?x \<le> p_hi p" using j f pj by simp_all
  have w': "wf_ents (la @ p # r)" using w e by simp
  then have p: "wf_prop p" by (simp add: wf_ents_append wf_ents_Cons)
  have rgnend: "unat (lmb_base p + lmb_size p) = p_hi p"
    using p by (simp add: wf_prop_def nowrap_def unat_add_nowrap)
  have bs: "lmb_base p = b \<longleftrightarrow> p_lo p = unat b" "lmb_base p + lmb_size p = b + s \<longleftrightarrow> p_hi p = p_hi ?x"
    using f rgnend by (simp_all add: word_eq_unat)
  have jl: "j < length (region ?rgn)" using j t by (simp add: tbl_def)
  note code = lmb_free_def [of l b s] Let_def j(1) rd_Some [OF jl] pj
  have shape: "tbl (?rgn\<lparr>region := (region ?rgn)[j := y]\<rparr>)" "ents (?rgn\<lparr>region := (region ?rgn)[j := y]\<rparr>) = la @ y # r" for y
    using t e(1) by (simp_all add: tbl_update ents_update e(2) [symmetric])
  have inner: "inner ?rgn b s \<longleftrightarrow> p_lo p < unat b \<and> p_hi ?x < p_hi p"
    using inner_slot [OF w' x, of] "in" e(1) by (auto simp: inner_def)
  consider (whole) "p_lo p = unat b" "p_hi p = p_hi ?x" | (front) "p_lo p = unat b" "p_hi ?x < p_hi p"
    | (rear) "p_lo p < unat b" "p_hi p = p_hi ?x" | (mid) "p_lo p < unat b" "p_hi ?x < p_hi p"
    using "in" by linarith
  then show ?thesis
  proof cases
    case whole
    obtain rgn' where rgn': "lmb_remove_region ?rgn j = Some rgn'" "cnt rgn' = cnt ?rgn - 1"
        "length (region rgn') = length (region ?rgn)" "ents rgn' = la @ r"
      using lmb_remove_region_spec [OF t j(2)] e by auto
    have "cnt rgn' = 0 \<or> tbl rgn'"
      using rgn' t tbl_cnt_pred [OF t] by (auto simp: tbl_def word_eq_unat)
    then have "free_result ?rgn ?x rgn'"
      using rgn' drop_slot [OF w' x] whole e by (simp add: free_result_def)
    then show ?thesis using whole bs rgn'(1) inner by (simp add: code)
  next
    case front
    let ?y = "mk_prop (b + s) (lmb_size p - s)"
    have sz: "unat (lmb_size p - s) = unat (lmb_size p) - unat s"
      using front by (simp add: unat_sub_le word_le_unat)
    have "less_range (la @ ?y # r) (la @ p # r) ?x"
      by (rule replace_slot [OF w' x]) (use front sz f p in \<open>auto simp: wf_prop_def span_def\<close>)
    then show ?thesis using front bs shape [of ?y] e inner by (simp add: code free_result_def)
  next
    case rear
    let ?y = "mk_prop (lmb_base p) (lmb_size p - s)"
    have sz: "unat (lmb_size p - s) = unat (lmb_size p) - unat s"
      using rear by (simp add: unat_sub_le word_le_unat)
    have "less_range (la @ ?y # r) (la @ p # r) ?x"
      by (rule replace_slot [OF w' x]) (use rear sz f p in \<open>auto simp: wf_prop_def span_def\<close>)
    then show ?thesis using rear bs shape [of ?y] e inner by (simp add: code free_result_def)
  next
    case mid
    let ?n = "lmb_size p - (b - lmb_base p)"
    have "\<exists>ret rgn'. lmb_add_region (?rgn\<lparr>region := (region ?rgn)[j := mk_prop (lmb_base p) (b - lmb_base p)]\<rparr>)
        (b + s) (lmb_base p + lmb_size p - (b + s)) = Some (ret, rgn') \<and>
        (if unat (cnt ?rgn) < MAX_LMB_REGIONS then 0 \<le> ret \<and> free_result ?rgn ?x rgn'
         else ret = - 1 \<and> free_result ?rgn (mk_prop b ?n) rgn')"
      using lmb_free_split [OF t e(1) w x] mid e(2) by simp
    then obtain ret rgn' where r: "lmb_add_region (?rgn\<lparr>region := (region ?rgn)[j := mk_prop (lmb_base p) (b - lmb_base p)]\<rparr>)
        (b + s) (lmb_base p + lmb_size p - (b + s)) = Some (ret, rgn')"
        "if unat (cnt ?rgn) < MAX_LMB_REGIONS then 0 \<le> ret \<and> free_result ?rgn ?x rgn'
         else ret = - 1 \<and> free_result ?rgn (mk_prop b ?n) rgn'" by blast
    have d: "unat (b - lmb_base p) = unat b - p_lo p" using mid by (simp add: unat_sub_le word_le_unat)
    then have "p_hi (mk_prop b ?n) = p_hi p" using mid by (simp add: unat_sub_le word_le_unat)
    then show ?thesis
      using r mid bs inner e(1) by (cases "unat (cnt ?rgn) < MAX_LMB_REGIONS") (auto simp: code)
  qed
qed

lemma lmb_free_unknown:
  assumes wf: "wf_table (reserved l)" and x: "wf_prop (mk_prop b s)"
    and no: "\<not> span (mk_prop b s) \<subseteq> covered (reserved l)"
  shows "lmb_free l b s = Some (-1, l)"
proof -
  let ?rgn = "reserved l"
  have t: "tbl ?rgn" and w: "wf_ents (ents ?rgn)" using wf by (simp_all add: wf_table_tbl)
  have f: "unat (b + s) = unat b + unat s" using x by (simp add: wf_prop_def nowrap_def unat_add_nowrap)
  have "\<not> (\<exists>j\<ge>0. j < unat (cnt ?rgn) \<and> p_lo (region ?rgn ! j) \<le> unat b \<and> unat (b + s) \<le> p_hi (region ?rgn ! j))"
  proof clarsimp
    fix j assume j: "j < unat (cnt ?rgn)" "p_lo (region ?rgn ! j) \<le> unat b" "unat (b + s) \<le> p_hi (region ?rgn ! j)"
    have "span (mk_prop b s) \<subseteq> span (ents ?rgn ! j)"
      using j t f by (auto simp: span_def)
    then show False using no j t by (auto simp: covered_nth)
  qed
  moreover have "unat (cnt ?rgn) \<le> length (region ?rgn)" using t by (simp add: tbl_def)
  moreover have "\<forall>p\<in>set (take (unat (cnt ?rgn)) (region ?rgn)). wf_prop p"
    using wf_entsD [OF w] unfolding ents_def by blast
  ultimately have "lmb_find_holder (region ?rgn) (unat (cnt ?rgn)) b (b + s) 0 = Some None"
    by (intro lmb_find_holder_None)
  then show ?thesis by (simp add: lmb_free_def Let_def)
qed

section \<open>Allocation\<close>

lemma align_mask: "k < 32 \<Longrightarrow> (2 ^ k :: u32) - 1 = mask k"
  by (simp add: mask_eq_exp_minus_1)

lemma lmb_align_down_dvd: "2 ^ k dvd unat (lmb_align_down a (2 ^ k))"
proof -
  have "(a AND NOT (mask k)) AND mask k = (0 :: u32)"
    by (simp add: and.assoc)
  then show ?thesis
    unfolding lmb_align_down_def by (simp add: and_mask_dvd_nat mask_eq_exp_minus_1)
qed

lemma lmb_align_up_id: "2 ^ k dvd unat s \<Longrightarrow> lmb_align_up s (2 ^ k) = s"
proof -
  assume "2 ^ k dvd unat s"
  then have z: "s AND mask k = 0" by (simp add: and_mask_dvd_nat)
  then have "s + mask k = s OR mask k" by (rule disjunctive_add_eq_or)
  moreover have "(s OR mask k) AND NOT (mask k) = s"
    using z by (auto simp: bit_eq_iff bit_simps)
  ultimately show ?thesis by (simp add: lmb_align_up_def mask_eq_exp_minus_1)
qed

text \<open>What a successful allocation promises, for the memory region \<open>p\<close> it came from.\<close>

definition alloc_ok :: "lmb \<Rightarrow> phys_size \<Rightarrow> ulong \<Rightarrow> phys_addr \<Rightarrow> lmb \<Rightarrow> bool" where
  "alloc_ok l s a base l' \<longleftrightarrow> memory l' = memory l \<and>
     disjoint_from base s (reserved l) \<and> tbl (reserved l') \<and>
     (lmb_align_up s a = s \<longrightarrow> wf_table (reserved l') \<and>
        covered (reserved l') = covered (reserved l) \<union> span (mk_prop base s))"

definition in_region :: "lmb_property \<Rightarrow> phys_addr \<Rightarrow> phys_size \<Rightarrow> ulong \<Rightarrow> bool" where
  "in_region p b s a \<longleftrightarrow> p_lo p \<le> unat b \<and> unat b + unat s \<le> p_hi p \<and> (\<exists>x. b = lmb_align_down x a)"

lemma lmb_alloc_loop_ok:
  assumes ok: "lmb_ok (reserved l)" and s: "0 < unat s" and p: "wf_prop p" and "in": "unat b + unat s \<le> p_hi p"
    and al: "\<exists>x. b = lmb_align_down x a"
  shows "\<exists>r. lmb_alloc_loop l (lmb_base p) s a b = Some r \<and>
    (case r of None \<Rightarrow> True
     | Some (base, l') \<Rightarrow> if base = 0 then l' = l
         else in_region p base s a \<and> unat base \<le> unat b \<and> alloc_ok l s a base l')"
  using ok s "in" al
proof (induction l "lmb_base p" s a b rule: lmb_alloc_loop.induct)
  case (1 l s a b)
  let ?R = "reserved l"
  show ?case
  proof (cases "b \<noteq> 0 \<and> lmb_base p \<le> b")
    case False
    then show ?thesis by (auto simp: lmb_alloc_loop.simps [of l])
  next
    case True
    have x: "wf_prop (mk_prop b s)" using "1.prems" p by (simp add: wf_prop_def)
    obtain r where r: "lmb_overlaps_region ?R b s = Some r"
      "case r of None \<Rightarrow> disjoint_from b s ?R
         | Some j \<Rightarrow> j < unat (cnt ?R) \<and> span (mk_prop b s) \<inter> span (ents ?R ! j) \<noteq> {}"
      using lmb_overlaps_region_spec [OF "1.prems"(1) x] by blast
    show ?thesis
    proof (cases r)
      case None
      then have d: "disjoint_from b s ?R" using r by simp
      obtain ret rgn' where ret: "lmb_add_region ?R b (lmb_align_up s a) = Some (ret, rgn')" "tbl rgn'" "ret < 0 \<longrightarrow> rgn' = ?R"
        using lmb_add_region_safe [OF lmb_ok_tbl [OF "1.prems"(1)]] by blast
      have "wf_table rgn' \<and> covered rgn' = covered ?R \<union> span (mk_prop b s)"
        if "0 \<le> ret" "lmb_align_up s a = s"
        using lmb_add_region_ok [OF "1.prems"(1) x d] ret that by (auto simp: add_result_def)
      moreover have "in_region p b s a"
        using True "1.prems" by (simp add: in_region_def word_le_unat)
      ultimately show ?thesis
        using None r(1) ret d True by (auto simp: lmb_alloc_loop.simps [of l] alloc_ok_def)
    next
      case (Some j)
      let ?b' = "lmb_align_down (lmb_base (region ?R ! j) - s) a"
      show ?thesis
      proof (cases "lmb_base (region ?R ! j) < s")
        case True
        then show ?thesis using Some r(1) by (auto simp: lmb_alloc_loop.simps [of l])
      next
        case False
        have lt: "unat ?b' < unat b"
          using lmb_retry_decreases [OF r(1) [unfolded Some lmb_overlaps_region_def] False] .
        then have "unat ?b' + unat s \<le> p_hi p" using "1.prems"(3) by simp
        then obtain q where q: "lmb_alloc_loop l (lmb_base p) s a ?b' = Some q"
          "case q of None \<Rightarrow> True
           | Some (base, l') \<Rightarrow> if base = 0 then l' = l
               else in_region p base s a \<and> unat base \<le> unat ?b' \<and> alloc_ok l s a base l'"
          using "1.hyps" [OF True r(1) Some False "1.prems"(1,2)] by blast
        have "lmb_alloc_loop l (lmb_base p) s a b = Some q"
          using True False Some r(1) q(1) by (subst lmb_alloc_loop.simps) simp
        then show ?thesis using q(2) lt by (auto split: option.splits if_splits)
      qed
    qed
  qed
qed

lemma lmb_alloc_regions_ok:
  assumes m: "wf_table (memory l)" and ok: "lmb_ok (reserved l)" and s: "0 < unat s"
    and mx: "max_addr = 0 \<or> s \<le> max_addr" and i: "i \<le> unat (cnt (memory l))"
  shows "\<exists>base l'. lmb_alloc_regions l s a max_addr i = Some (base, l') \<and>
    (if base = 0 then l' = l
     else (\<exists>p\<in>set (ents (memory l)). in_region p base s a) \<and>
          (max_addr = 0 \<or> unat base + unat s \<le> unat max_addr) \<and> alloc_ok l s a base l')"
  using i
proof (induction i)
  case 0
  then show ?case by simp
next
  case (Suc i)
  have t: "tbl (memory l)" and w: "wf_ents (ents (memory l))" using m by (simp_all add: wf_table_tbl)
  let ?p = "ents (memory l) ! i"
  have i: "i < unat (cnt (memory l))" "i < length (region (memory l))" using Suc.prems t by (auto simp: tbl_def)
  have pin: "?p \<in> set (ents (memory l))" using i t by simp
  have p: "wf_prop ?p" using wf_entsD [OF w pin] .
  have top: "unat (lmb_base ?p + lmb_size ?p) = p_hi ?p"
    using p by (simp add: wf_prop_def nowrap_def unat_add_nowrap)
  obtain base l' where IH: "lmb_alloc_regions l s a max_addr i = Some (base, l')"
    "if base = 0 then l' = l
     else (\<exists>p\<in>set (ents (memory l)). in_region p base s a) \<and>
          (max_addr = 0 \<or> unat base + unat s \<le> unat max_addr) \<and> alloc_ok l s a base l'"
    using Suc by auto
  define lim where "lim = (if max_addr = 0 then lmb_base ?p + lmb_size ?p else min (lmb_base ?p + lmb_size ?p) max_addr)"
  show ?case
  proof (cases "lmb_size ?p < s \<or> max_addr \<noteq> 0 \<and> max_addr \<le> lmb_base ?p")
    case True
    then show ?thesis using IH i tbl_nth [OF t i(1)]
      by (auto simp: LMB_ALLOC_ANYWHERE_def Let_def not_less)
  next
    case False
    have ls: "unat s \<le> unat (lmb_size ?p)" using False by (simp add: word_le_unat [symmetric] not_less)
    have lim: "unat lim \<le> p_hi ?p" "max_addr = 0 \<or> unat lim \<le> unat max_addr" "s \<le> lim"
      using top False mx ls by (auto simp: lim_def word_le_unat min_def)
    have code: "lmb_alloc_regions l s a max_addr (Suc i) =
      do { r \<leftarrow> lmb_alloc_loop l (lmb_base ?p) s a (lmb_align_down (lim - s) a);
           (case r of Some res \<Rightarrow> Some res | None \<Rightarrow> lmb_alloc_regions l s a max_addr i) }"
      using False i tbl_nth [OF t i(1)] by (auto simp: LMB_ALLOC_ANYWHERE_def Let_def lim_def)
    have "unat (lmb_align_down (lim - s) a) \<le> unat (lim - s)"
      using lmb_align_down_le [of "lim - s" a] by (simp add: word_le_unat)
    then have b0: "unat (lmb_align_down (lim - s) a) + unat s \<le> unat lim"
      using lim(3) by (simp add: unat_sub_le word_le_unat)
    then obtain r where r: "lmb_alloc_loop l (lmb_base ?p) s a (lmb_align_down (lim - s) a) = Some r"
      "case r of None \<Rightarrow> True
       | Some (base, l') \<Rightarrow> if base = 0 then l' = l
         else in_region ?p base s a \<and> unat base \<le> unat (lmb_align_down (lim - s) a) \<and> alloc_ok l s a base l'"
      using lmb_alloc_loop_ok [OF ok s p, of "lmb_align_down (lim - s) a" a] lim(1) by auto
    show ?thesis
    proof (cases r)
      case None
      then show ?thesis using code r(1) IH by simp
    next
      case (Some res)
      obtain base l' where res: "res = (base, l')" by (cases res)
      have "base \<noteq> 0 \<longrightarrow> max_addr = 0 \<or> unat base + unat s \<le> unat max_addr"
        using r(2) Some res b0 lim(2) by auto
      then show ?thesis using code r Some res pin by auto
    qed
  qed
qed

section \<open>Properties\<close>

text \<open>
  A board used by the witnesses: 256 MB of memory at \<open>0x40000000\<close>, the kernel and a ramdisk
  reserved in it.
\<close>

definition slots :: "lmb_property list \<Rightarrow> lmb_property list" where
  "slots ps = ps @ replicate (9 - length ps) (mk_prop 0 0)"

definition board :: lmb where
  "board = \<lparr>memory = \<lparr>cnt = 1, total = 0, region = slots [mk_prop 0x40000000 0x10000000]\<rparr>,
            reserved = \<lparr>cnt = 2, total = 0,
              region = slots [mk_prop 0x40008000 0x400000, mk_prop 0x41000000 0x200000]\<rparr>\<rparr>"

definition blank_lmb :: lmb where
  "blank_lmb = lmb_init \<lparr>memory = \<lparr>cnt = 0, total = 0, region = slots []\<rparr>,
                     reserved = \<lparr>cnt = 0, total = 0, region = slots []\<rparr>\<rparr>"

lemmas table_eval = wf_table_def ents_def wf_ents_def wf_prop_def gap_def slots_def
  MAX_LMB_REGIONS_def

lemma board_reserved_wf: "wf_table (reserved board)"
  by (simp add: board_def table_eval)

lemma board_memory_wf: "wf_table (memory board)"
  by (simp add: board_def table_eval)

lemma board_ok: "lmb_ok (reserved board)"
  by (simp add: lmb_ok_def board_reserved_wf)

lemma board_covered: "covered (reserved board) = {0x40008000..<0x40408000} \<union> {0x41000000..<0x41200000}"
  by (simp add: board_def table_eval covered_def cover_def span_def)

lemma board_cnt: "cnt (reserved board) = 2" "cnt (memory board) = 1"
  by (simp_all add: board_def)



text \<open>
  C20: Whatever is added, also a range that overlaps the table, \<open>lmb_add_region\<close> touches only the
  nine slots of the array and leaves a table with one to eight slots in use; a negative result
  leaves the table unchanged.
\<close>

theorem lmb_add_region_memory_safe:
  assumes "length (region rgn) = Suc MAX_LMB_REGIONS" and "1 \<le> unat (cnt rgn)"
    and "unat (cnt rgn) \<le> MAX_LMB_REGIONS"
  shows "\<exists>ret rgn'. lmb_add_region rgn b s = Some (ret, rgn') \<and>
    length (region rgn') = Suc MAX_LMB_REGIONS \<and> 1 \<le> unat (cnt rgn') \<and>
    unat (cnt rgn') \<le> MAX_LMB_REGIONS \<and> (ret < 0 \<longrightarrow> rgn' = rgn)"
  using lmb_add_region_safe [of rgn b s] assms by (simp add: tbl_def)

theorem lmb_add_region_memory_safe_witness:
  "\<exists>ret rgn'. lmb_add_region (reserved board) 0x40000000 0xFFFFFFFF = Some (ret, rgn') \<and>
    length (region rgn') = Suc MAX_LMB_REGIONS \<and> 1 \<le> unat (cnt rgn') \<and>
    unat (cnt rgn') \<le> MAX_LMB_REGIONS \<and> (ret < 0 \<longrightarrow> rgn' = reserved board)"
  by (rule lmb_add_region_memory_safe) (use board_reserved_wf in \<open>simp_all add: wf_table_def\<close>)

text \<open>
  C21: Freeing a reserved range, of at least a byte and ending before the last address, succeeds,
  removes exactly that range from the reserved addresses, leaves the memory table alone and keeps the remaining slots sorted and separated, whether the range is a whole slot, its
  front, its end or, while a slot is left, its middle.  In the middle of a slot of a full table -1 is returned,
  and all that the slot held from the range upwards is no longer reserved.
\<close>

theorem lmb_free_correct:
  assumes "wf_table (reserved l)" and "0 < unat s" and "unat b + unat s < 2 ^ 32"
    and "{unat b ..< unat b + unat s} \<subseteq> covered (reserved l)"
  shows "\<exists>ret l'. lmb_free l b s = Some (ret, l') \<and> memory l' = memory l \<and>
    (wf_table (reserved l') \<or> cnt (reserved l') = 0 \<and> covered (reserved l') = {}) \<and>
    (if unat (cnt (reserved l)) < MAX_LMB_REGIONS \<or> \<not> inner (reserved l) b s
     then 0 \<le> ret \<and> covered (reserved l') = covered (reserved l) - {unat b ..< unat b + unat s}
     else ret = - 1 \<and> (\<exists>p\<in>set (ents (reserved l)). p_lo p < unat b \<and> unat b + unat s < p_hi p \<and>
       covered (reserved l') = covered (reserved l) - {unat b ..< p_hi p}))"
proof -
  have f: "covered rgn' = covered rgn - span x \<and> (wf_table rgn' \<or> cnt rgn' = 0 \<and> covered rgn' = {})"
    if "free_result rgn x rgn'" for rgn x rgn'
    using that by (auto simp: free_result_def less_range_def wf_table_tbl covered_def ents_def)
  obtain ret l' where r: "lmb_free l b s = Some (ret, l')" "memory l' = memory l"
      "if unat (cnt (reserved l)) < MAX_LMB_REGIONS \<or> \<not> inner (reserved l) b s
      then 0 \<le> ret \<and> free_result (reserved l) (mk_prop b s) (reserved l')
      else ret = - 1 \<and> (\<exists>p n. p \<in> set (ents (reserved l)) \<and> p_lo p < unat b \<and> unat b + unat s < p_hi p \<and>
        p_hi (mk_prop b n) = p_hi p \<and> free_result (reserved l) (mk_prop b n) (reserved l'))"
    using lmb_free_ok [of l b s] assms by (auto simp: wf_prop_def span_def)
  show ?thesis
  proof (cases "unat (cnt (reserved l)) < MAX_LMB_REGIONS \<or> \<not> inner (reserved l) b s")
    case True
    then show ?thesis using r f [of "reserved l" "mk_prop b s" "reserved l'"] by (auto simp: span_def)
  next
    case False
    then obtain p n where "p \<in> set (ents (reserved l))" "p_lo p < unat b" "unat b + unat s < p_hi p"
        "p_hi (mk_prop b n) = p_hi p" "free_result (reserved l) (mk_prop b n) (reserved l')" "ret = - 1"
      using r(3) by auto
    then show ?thesis using False r(1,2) f [of "reserved l" "mk_prop b n" "reserved l'"] by (auto simp: span_def)
  qed
qed

theorem lmb_free_correct_witness:
  "\<exists>ret l'. lmb_free board 0x41100000 0x1000 = Some (ret, l') \<and> 0 \<le> ret \<and> memory l' = memory board \<and>
    covered (reserved l') = covered (reserved board) - {0x41100000 ..< 0x41101000} \<and>
    (wf_table (reserved l') \<or> cnt (reserved l') = 0 \<and> covered (reserved l') = {})"
proof -
  have "{0x41100000 ..< 0x41101000} \<subseteq> covered (reserved board)"
    unfolding board_covered by auto
  then show ?thesis
    using lmb_free_correct [OF board_reserved_wf, of "0x1000" "0x41100000"]
    by (auto simp: board_cnt MAX_LMB_REGIONS_def)
qed

text \<open>
  Freeing a range of which some address is not reserved is refused with -1 and changes
  nothing.
\<close>

theorem lmb_free_refused:
  assumes "wf_table (reserved l)" and "0 < unat s" and "unat b + unat s < 2 ^ 32"
    and "\<not> {unat b ..< unat b + unat s} \<subseteq> covered (reserved l)"
  shows "lmb_free l b s = Some (-1, l)"
  using lmb_free_unknown [of l b s] assms by (simp add: wf_prop_def span_def)

theorem lmb_free_refused_witness: "lmb_free board 0x40400000 0x10000 = Some (-1, board)"
proof -
  have "0x40408000 \<in> {0x40400000..<0x40410000::nat}"
    "0x40408000 \<notin> {0x40008000..<0x40408000} \<union> {0x41000000..<0x41200000::nat}" by simp_all
  then have "\<not> {0x40400000..<0x40410000} \<subseteq> covered (reserved board)"
    unfolding board_covered by blast
  then show ?thesis
    using lmb_free_refused [OF board_reserved_wf, of "0x10000" "0x40400000"] by simp
qed

text \<open>
  C11: For a limit \<open>max_addr\<close> that is \<open>LMB_ALLOC_ANYWHERE\<close> or not below the size (below it, the subtraction
  wraps: \<open>lmb_alloc_base_outside_memory\<close>), a block that \<open>lmb_alloc_base\<close> returns lies inside one memory region and
  below \<open>max_addr\<close>, is aligned and meets no reserved address; when the size is a multiple of the
  alignment, exactly the block is reserved in addition afterwards (when it is not, the size is rounded up and may
  run into the next range: \<open>lmb_alloc_rounding_overlaps\<close>); 0 means that nothing changed.  The call always returns.
\<close>

theorem lmb_alloc_base_correct:
  assumes "wf_table (memory l)" and "lmb_ok (reserved l)" and "0 < unat s"
    and "max_addr = LMB_ALLOC_ANYWHERE \<or> s \<le> max_addr"
  shows "\<exists>base l'. lmb_alloc_base l s (2 ^ k) max_addr = Some (base, l') \<and> memory l' = memory l \<and>
    (base = 0 \<longrightarrow> l' = l) \<and>
    (base \<noteq> 0 \<longrightarrow>
       (\<exists>p\<in>set (ents (memory l)). p_lo p \<le> unat base \<and> unat base + unat s \<le> p_hi p) \<and>
       (max_addr \<noteq> LMB_ALLOC_ANYWHERE \<longrightarrow> unat base + unat s \<le> unat max_addr) \<and>
       2 ^ k dvd unat base \<and>
       {unat base ..< unat base + unat s} \<inter> covered (reserved l) = {} \<and>
       (2 ^ k dvd unat s \<longrightarrow> wf_table (reserved l') \<and>
          covered (reserved l') = covered (reserved l) \<union> {unat base ..< unat base + unat s}))"
proof -
  obtain base l' where r: "lmb_alloc_regions l s (2 ^ k) max_addr (unat (cnt (memory l))) = Some (base, l')"
    "if base = 0 then l' = l
     else (\<exists>p\<in>set (ents (memory l)). in_region p base s (2 ^ k)) \<and>
          (max_addr = 0 \<or> unat base + unat s \<le> unat max_addr) \<and> alloc_ok l s (2 ^ k) base l'"
    using lmb_alloc_regions_ok [of l s max_addr "unat (cnt (memory l))" "2 ^ k"] assms
    by (auto simp: LMB_ALLOC_ANYWHERE_def)
  then show ?thesis
    using lmb_align_down_dvd [of k] lmb_align_up_id [of k s]
    by (auto simp: lmb_alloc_base_def lmb_alloc_base0_def in_region_def alloc_ok_def disjoint_from_def
        span_def LMB_ALLOC_ANYWHERE_def split: if_splits)
qed

theorem lmb_alloc_base_correct_witness:
  "\<exists>base l'. lmb_alloc_base board 0x2000 (2 ^ 12) 0x42000000 = Some (base, l') \<and> memory l' = memory board \<and>
    (base = 0 \<longrightarrow> l' = board) \<and>
    (base \<noteq> 0 \<longrightarrow>
       (\<exists>p\<in>set (ents (memory board)). p_lo p \<le> unat base \<and> unat base + 0x2000 \<le> p_hi p) \<and>
       unat base + 0x2000 \<le> 0x42000000 \<and> 2 ^ 12 dvd unat base \<and>
       {unat base ..< unat base + 0x2000} \<inter> covered (reserved board) = {} \<and>
       wf_table (reserved l') \<and>
       covered (reserved l') = covered (reserved board) \<union> {unat base ..< unat base + 0x2000})"
proof -
  have "\<exists>base l'. lmb_alloc_base board 0x2000 (2 ^ 12) 0x42000000 = Some (base, l') \<and> memory l' = memory board \<and>
    (base = 0 \<longrightarrow> l' = board) \<and>
    (base \<noteq> 0 \<longrightarrow>
       (\<exists>p\<in>set (ents (memory board)). p_lo p \<le> unat base \<and> unat base + unat (0x2000 :: u32) \<le> p_hi p) \<and>
       (0x42000000 \<noteq> LMB_ALLOC_ANYWHERE \<longrightarrow> unat base + unat (0x2000 :: u32) \<le> unat (0x42000000 :: u32)) \<and>
       2 ^ 12 dvd unat base \<and>
       {unat base ..< unat base + unat (0x2000 :: u32)} \<inter> covered (reserved board) = {} \<and>
       (2 ^ 12 dvd unat (0x2000 :: u32) \<longrightarrow> wf_table (reserved l') \<and>
          covered (reserved l') = covered (reserved board) \<union> {unat base ..< unat base + unat (0x2000 :: u32)}))"
    by (rule lmb_alloc_base_correct [OF board_memory_wf board_ok]) (simp_all add: LMB_ALLOC_ANYWHERE_def)
  then show ?thesis by (simp add: LMB_ALLOC_ANYWHERE_def)
qed

text \<open>
  On a table with something reserved, \<open>lmb_is_reserved\<close> answers exactly whether the address
  is covered by the table.
\<close>

theorem lmb_is_reserved_correct:
  assumes "wf_table (reserved l)"
  shows "lmb_is_reserved l a = Some (unat a \<in> covered (reserved l))"
  using lmb_is_reserved_wf [OF assms] .

theorem lmb_is_reserved_correct_witness: "lmb_is_reserved board 0x41000010 = Some True"
  using lmb_is_reserved_correct [OF board_reserved_wf, of "0x41000010"] by (simp add: board_covered)


subsection \<open>Behaviour the code does not mean to have\<close>

text \<open>
  The dummy slot of \<open>lmb_init\<close> has base and size 0, so \<open>upper\<close> wraps to the largest address:
  until something is reserved, \<open>lmb_is_reserved\<close> says that every address is.
\<close>

lemma lmb_is_reserved_when_fresh:
  "fresh_table (reserved l) \<Longrightarrow> lmb_is_reserved l a = Some True"
  by (simp add: lmb_is_reserved_def fresh_table_def lmb_reserved_scan.simps [of "region (reserved l)"])

text \<open>
  Freeing the only reserved range leaves \<open>cnt = 0\<close>, which \<open>lmb_add_region\<close> does not expect: the
  next range reserved above the stale slot 0 is lost, and the freed one is back.
\<close>

lemma lmb_reserve_after_last_free:
  "do { (r1, l1) \<leftarrow> lmb_reserve blank_lmb 0x1000 0x1000;
        (r2, l2) \<leftarrow> lmb_free l1 0x1000 0x1000;
        (r3, l3) \<leftarrow> lmb_reserve l2 0x5000 0x1000;
        Some (r3, ents (reserved l3)) } = Some (0, [mk_prop 0x1000 0x1000])"
  by code_simp

text \<open>
  When \<open>max_addr\<close> is smaller than the size but above the start of memory, \<open>max_addr - size\<close>
  wraps and the block returned lies outside the memory.
\<close>

lemma lmb_alloc_base_outside_memory:
  "do { (r1, l1) \<leftarrow> lmb_add blank_lmb 0 0x10000000;
        (a, l2) \<leftarrow> lmb_alloc_base l1 0x2000 0x1000 0x1000;
        Some a } = Some 0xFFFFF000"
  by code_simp

text \<open>
  The reservation is rounded up to the alignment without a second overlap test: next to an
  unaligned reserved range it overlaps it, and the table is no longer separated.
\<close>

lemma lmb_alloc_rounding_overlaps:
  "do { (r1, l1) \<leftarrow> lmb_add blank_lmb 0x40000000 0x10000000;
        (r2, l2) \<leftarrow> lmb_reserve l1 0x4FFFF804 0x1000;
        (a, l3) \<leftarrow> lmb_alloc_base l2 0x800 0x1000 0;
        Some (a, ents (reserved l3)) } =
   Some (0x4FFFF000, [mk_prop 0x4FFFF000 0x1000, mk_prop 0x4FFFF804 0x1000])"
  by code_simp

end
