(* ===== verification/CString.thy ===== *)
theory CString
  imports Prelude "HOL-Library.Char_ord" "HOL-Library.Sublist"
begin

text \<open>
  The C string and memory routines, \<^verbatim>\<open>lib_generic/string.c\<close>, over an explicit memory:
  a function from addresses to bytes.  A routine that walks to a terminating NUL is a
  \<open>partial_function\<close>: \<open>None\<close> means that it never meets one and does not return.  Aliasing of
  source and destination is the aliasing of the two address ranges.  \<open>char\<close> is unsigned on
  the target; an address is a natural number (an object never wraps around the address space).
\<close>

section \<open>Memory\<close>

type_synonym mem = "nat \<Rightarrow> char"
type_synonym ptr = nat

abbreviation NUL :: char where
  "NUL \<equiv> CHR 0x00"

text \<open>The difference of two bytes, truncated to \<^verbatim>\<open>signed char\<close> as in \<open>strcmp\<close>.\<close>

definition schar_diff :: "char \<Rightarrow> char \<Rightarrow> int" where
  "schar_diff a b = sint ((of_char a :: u8) - of_char b)"

section \<open>Copying\<close>

partial_function (option) strcpy_loop :: "mem \<Rightarrow> ptr \<Rightarrow> ptr \<Rightarrow> mem option" where [code]:
  "strcpy_loop m dest src =
     (let m' = m(dest := m src) in
      if m src \<noteq> NUL then strcpy_loop m' (Suc dest) (Suc src) else Some m')"

definition strcpy :: "mem \<Rightarrow> ptr \<Rightarrow> ptr \<Rightarrow> (ptr \<times> mem) option" where
  "strcpy m dest src = do { m' \<leftarrow> strcpy_loop m dest src; Some (dest, m') }"

fun strncpy_loop :: "mem \<Rightarrow> ptr \<Rightarrow> ptr \<Rightarrow> nat \<Rightarrow> mem" where
  "strncpy_loop m dest src 0 = m"
| "strncpy_loop m dest src (Suc count) =
     (let m' = m(dest := m src) in
      if m src \<noteq> NUL then strncpy_loop m' (Suc dest) (Suc src) count else m')"

definition strncpy :: "mem \<Rightarrow> ptr \<Rightarrow> ptr \<Rightarrow> nat \<Rightarrow> ptr \<times> mem" where
  "strncpy m dest src count = (dest, strncpy_loop m dest src count)"

partial_function (option) find_nul :: "mem \<Rightarrow> ptr \<Rightarrow> ptr option" where [code]:
  "find_nul m p = (if m p \<noteq> NUL then find_nul m (Suc p) else Some p)"

definition strcat :: "mem \<Rightarrow> ptr \<Rightarrow> ptr \<Rightarrow> (ptr \<times> mem) option" where
  "strcat m dest src = do {
     d \<leftarrow> find_nul m dest;
     m' \<leftarrow> strcpy_loop m d src;
     Some (dest, m') }"

text \<open>The copying loop of \<open>strncat\<close>; \<open>count\<close> is not zero when it is entered.\<close>

fun strncat_loop :: "mem \<Rightarrow> ptr \<Rightarrow> ptr \<Rightarrow> nat \<Rightarrow> mem" where
  "strncat_loop m dest src 0 = m"
| "strncat_loop m dest src (Suc count) =
     (let m' = m(dest := m src) in
      if m src \<noteq> NUL
      then if count = 0 then m'(Suc dest := NUL)
        else strncat_loop m' (Suc dest) (Suc src) count
      else m')"

definition strncat :: "mem \<Rightarrow> ptr \<Rightarrow> ptr \<Rightarrow> nat \<Rightarrow> (ptr \<times> mem) option" where
  "strncat m dest src count =
     (if count \<noteq> 0
      then do { d \<leftarrow> find_nul m dest; Some (dest, strncat_loop m d src count) }
      else Some (dest, m))"

fun memcpy_loop :: "mem \<Rightarrow> ptr \<Rightarrow> ptr \<Rightarrow> nat \<Rightarrow> mem" where
  "memcpy_loop m dest src 0 = m"
| "memcpy_loop m dest src (Suc count) = memcpy_loop (m(dest := m src)) (Suc dest) (Suc src) count"

definition memcpy :: "mem \<Rightarrow> ptr \<Rightarrow> ptr \<Rightarrow> nat \<Rightarrow> ptr \<times> mem" where
  "memcpy m dest src count = (dest, memcpy_loop m dest src count)"

text \<open>\<open>bcopy\<close> is the same loop with the first two arguments in the other order.\<close>

definition bcopy :: "mem \<Rightarrow> ptr \<Rightarrow> ptr \<Rightarrow> nat \<Rightarrow> ptr \<times> mem" where
  "bcopy m src dest count = (dest, memcpy_loop m dest src count)"

text \<open>The backward loop of \<open>memmove\<close>: both pointers start one past the end.\<close>

fun memmove_down :: "mem \<Rightarrow> ptr \<Rightarrow> ptr \<Rightarrow> nat \<Rightarrow> mem" where
  "memmove_down m tmp s 0 = m"
| "memmove_down m tmp s (Suc count) =
     memmove_down (m(tmp - 1 := m (s - 1))) (tmp - 1) (s - 1) count"

definition memmove :: "mem \<Rightarrow> ptr \<Rightarrow> ptr \<Rightarrow> nat \<Rightarrow> ptr \<times> mem" where
  "memmove m dest src count =
     (dest, if dest \<le> src then memcpy_loop m dest src count
            else memmove_down m (dest + count) (src + count) count)"

fun memset_loop :: "mem \<Rightarrow> ptr \<Rightarrow> char \<Rightarrow> nat \<Rightarrow> mem" where
  "memset_loop m xs c 0 = m"
| "memset_loop m xs c (Suc count) = memset_loop (m(xs := c)) (Suc xs) c count"

text \<open>The \<^verbatim>\<open>int\<close> argument of \<open>memset\<close> is truncated to a byte by the store.\<close>

definition memset :: "mem \<Rightarrow> ptr \<Rightarrow> int \<Rightarrow> nat \<Rightarrow> ptr \<times> mem" where
  "memset m s c count = (s, memset_loop m s (char_of (nat (c mod 256))) count)"

section \<open>Comparing and searching\<close>

partial_function (option) strcmp :: "mem \<Rightarrow> ptr \<Rightarrow> ptr \<Rightarrow> int option" where [code]:
  "strcmp m cs ct =
     (let res = schar_diff (m cs) (m ct) in
      if res \<noteq> 0 \<or> m cs = NUL then Some res else strcmp m (Suc cs) (Suc ct))"

fun strncmp_loop :: "mem \<Rightarrow> ptr \<Rightarrow> ptr \<Rightarrow> nat \<Rightarrow> int \<Rightarrow> int" where
  "strncmp_loop m cs ct 0 res = res"
| "strncmp_loop m cs ct (Suc count) _ =
     (let res = schar_diff (m cs) (m ct) in
      if res \<noteq> 0 \<or> m cs = NUL then res else strncmp_loop m (Suc cs) (Suc ct) count res)"

definition strncmp :: "mem \<Rightarrow> ptr \<Rightarrow> ptr \<Rightarrow> nat \<Rightarrow> int" where
  "strncmp m cs ct count = strncmp_loop m cs ct count 0"

text \<open>Results that are pointers or \<^verbatim>\<open>NULL\<close> are \<open>ptr option\<close>, inside the option of termination.\<close>

partial_function (option) strchr :: "mem \<Rightarrow> ptr \<Rightarrow> char \<Rightarrow> ptr option option" where [code]:
  "strchr m s c =
     (if m s \<noteq> c then if m s = NUL then Some None else strchr m (Suc s) c else Some (Some s))"

definition strlen :: "mem \<Rightarrow> ptr \<Rightarrow> nat option" where
  "strlen m s = do { sc \<leftarrow> find_nul m s; Some (sc - s) }"

fun strnlen_loop :: "mem \<Rightarrow> ptr \<Rightarrow> nat \<Rightarrow> ptr" where
  "strnlen_loop m sc 0 = sc"
| "strnlen_loop m sc (Suc count) = (if m sc \<noteq> NUL then strnlen_loop m (Suc sc) count else sc)"

definition strnlen :: "mem \<Rightarrow> ptr \<Rightarrow> nat \<Rightarrow> nat" where
  "strnlen m s count = strnlen_loop m s count - s"

text \<open>The downward loop of \<open>strrchr\<close>, for the offsets \<open>k\<close>, \<open>k - 1\<close>, ..., 0.\<close>

fun strrchr_loop :: "mem \<Rightarrow> ptr \<Rightarrow> char \<Rightarrow> nat \<Rightarrow> ptr option" where
  "strrchr_loop m s c 0 = (if m s = c then Some s else None)"
| "strrchr_loop m s c (Suc k) =
     (if m (s + Suc k) = c then Some (s + Suc k) else strrchr_loop m s c k)"

definition strrchr :: "mem \<Rightarrow> ptr \<Rightarrow> char \<Rightarrow> ptr option option" where
  "strrchr m s c = do { n \<leftarrow> strlen m s; Some (strrchr_loop m s c n) }"

partial_function (option) strspn_loop :: "mem \<Rightarrow> ptr \<Rightarrow> ptr \<Rightarrow> nat \<Rightarrow> nat option" where [code]:
  "strspn_loop m p accept count =
     (if m p \<noteq> NUL
      then do {
        a \<leftarrow> strchr m accept (m p);
        (case a of None \<Rightarrow> Some count | Some _ \<Rightarrow> strspn_loop m (Suc p) accept (Suc count)) }
      else Some count)"

text \<open>
  The inner loops of \<open>strspn\<close> and \<open>strpbrk\<close>, which look for the (non-NUL) byte \<open>*p\<close> in the
  second string, are the loop of \<open>strchr\<close>.
\<close>

definition strspn :: "mem \<Rightarrow> ptr \<Rightarrow> ptr \<Rightarrow> nat option" where
  "strspn m s accept = strspn_loop m s accept 0"

partial_function (option) strpbrk :: "mem \<Rightarrow> ptr \<Rightarrow> ptr \<Rightarrow> ptr option option" where [code]:
  "strpbrk m cs ct =
     (if m cs \<noteq> NUL
      then do {
        a \<leftarrow> strchr m ct (m cs);
        (case a of Some _ \<Rightarrow> Some (Some cs) | None \<Rightarrow> strpbrk m (Suc cs) ct) }
      else Some None)"

text \<open>
  \<open>strtok\<close> keeps its position in the global \<open>___strtok\<close>, which is the second component of the
  state here; a null argument continues from it.
\<close>

definition strtok :: "mem \<Rightarrow> ptr option \<Rightarrow> ptr option \<Rightarrow> ptr \<Rightarrow> (ptr option \<times> ptr option \<times> mem) option" where
  "strtok m saved s ct =
     (case (case s of Some p \<Rightarrow> Some p | None \<Rightarrow> saved) of
        None \<Rightarrow> Some (None, saved, m)
      | Some sbegin0 \<Rightarrow> do {
          n \<leftarrow> strspn m sbegin0 ct;
          let sbegin = sbegin0 + n;
          if m sbegin = NUL then Some (None, None, m)
          else do {
            send \<leftarrow> strpbrk m sbegin ct;
            (case send of
               Some e \<Rightarrow> if m e \<noteq> NUL then Some (Some sbegin, Some (Suc e), m(e := NUL))
                         else Some (Some sbegin, Some e, m)
             | None \<Rightarrow> Some (Some sbegin, None, m)) } })"

text \<open>\<open>strsep\<close> returns the token, the new value of \<open>*s\<close> and the memory.\<close>

definition strsep :: "mem \<Rightarrow> ptr option \<Rightarrow> ptr \<Rightarrow> (ptr option \<times> ptr option \<times> mem) option" where
  "strsep m s ct =
     (case s of
        None \<Rightarrow> Some (None, None, m)
      | Some sbegin \<Rightarrow> do {
          e \<leftarrow> strpbrk m sbegin ct;
          (case e of
             Some p \<Rightarrow> Some (Some sbegin, Some (Suc p), m(p := NUL))
           | None \<Rightarrow> Some (Some sbegin, None, m)) })"

partial_function (option) strswab_loop :: "mem \<Rightarrow> ptr \<Rightarrow> mem option" where [code]:
  "strswab_loop m p =
     (if m p \<noteq> NUL \<and> m (Suc p) \<noteq> NUL
      then strswab_loop (m(p := m (Suc p), Suc p := m p)) (p + 2)
      else Some m)"

definition strswab :: "mem \<Rightarrow> ptr option \<Rightarrow> (ptr option \<times> mem) option" where
  "strswab m s =
     (case s of
        None \<Rightarrow> Some (None, m)
      | Some p \<Rightarrow> if m p = NUL then Some (None, m)
                  else do { m' \<leftarrow> strswab_loop m p; Some (s, m') })"

fun memcmp :: "mem \<Rightarrow> ptr \<Rightarrow> ptr \<Rightarrow> nat \<Rightarrow> int" where
  "memcmp m su1 su2 0 = 0"
| "memcmp m su1 su2 (Suc count) =
     (let res = of_char (m su1) - of_char (m su2) in
      if res \<noteq> 0 then res else memcmp m (Suc su1) (Suc su2) count)"

text \<open>\<open>memscan\<close> compares the byte with the whole \<^verbatim>\<open>int\<close>.\<close>

fun memscan :: "mem \<Rightarrow> ptr \<Rightarrow> int \<Rightarrow> nat \<Rightarrow> ptr" where
  "memscan m p c 0 = p"
| "memscan m p c (Suc size') = (if of_char (m p) = c then p else memscan m (Suc p) c size')"

fun memchr :: "mem \<Rightarrow> ptr \<Rightarrow> char \<Rightarrow> nat \<Rightarrow> ptr option" where
  "memchr m p c 0 = None"
| "memchr m p c (Suc n) = (if c = m p then Some p else memchr m (Suc p) c n)"

fun strstr_loop :: "mem \<Rightarrow> ptr \<Rightarrow> ptr \<Rightarrow> nat \<Rightarrow> nat \<Rightarrow> ptr option" where
  "strstr_loop m s1 s2 l2 l1 =
     (if l2 \<le> l1 \<and> 0 < l2
      then if memcmp m s1 s2 l2 = 0 then Some s1 else strstr_loop m (Suc s1) s2 l2 (l1 - 1)
      else None)"

declare strstr_loop.simps [simp del]

definition strstr :: "mem \<Rightarrow> ptr \<Rightarrow> ptr \<Rightarrow> ptr option option" where
  "strstr m s1 s2 = do {
     l2 \<leftarrow> strlen m s2;
     if l2 = 0 then Some (Some s1)
     else do { l1 \<leftarrow> strlen m s1; Some (strstr_loop m s1 s2 l2 l1) } }"

section \<open>C strings in memory\<close>

text \<open>\<open>cstr m p s\<close>: at \<open>p\<close> stands the string \<open>s\<close>, which has no NUL, and then a NUL.\<close>

fun cstr :: "mem \<Rightarrow> ptr \<Rightarrow> string \<Rightarrow> bool" where
  "cstr m p [] \<longleftrightarrow> m p = NUL"
| "cstr m p (c # s) \<longleftrightarrow> m p = c \<and> c \<noteq> NUL \<and> cstr m (Suc p) s"

definition copied :: "mem \<Rightarrow> ptr \<Rightarrow> ptr \<Rightarrow> nat \<Rightarrow> mem" where
  "copied m d s n = (\<lambda>a. if d \<le> a \<and> a < d + n then m (s + (a - d)) else m a)"

lemma cstr_nth: "cstr m p s \<Longrightarrow> i < length s \<Longrightarrow> m (p + i) = s ! i \<and> s ! i \<noteq> NUL"
proof (induction s arbitrary: p i)
  case (Cons c s)
  then show ?case by (cases i) fastforce+
qed simp

lemma cstr_end: "cstr m p s \<Longrightarrow> m (p + length s) = NUL"
  by (induction s arbitrary: p) fastforce+

lemma cstr_no_NUL: "cstr m p s \<Longrightarrow> NUL \<notin> set s"
  by (induction s arbitrary: p) auto

lemma cstrI:
  "(\<And>i. i < length s \<Longrightarrow> m (p + i) = s ! i) \<Longrightarrow> NUL \<notin> set s \<Longrightarrow> m (p + length s) = NUL \<Longrightarrow> cstr m p s"
proof (induction s arbitrary: p)
  case (Cons c s)
  have "cstr m (Suc p) s"
  proof (rule Cons.IH)
    fix i assume "i < length s"
    then show "m (Suc p + i) = s ! i" using Cons.prems(1) [of "Suc i"] by simp
  qed (use Cons.prems in simp_all)
  with Cons.prems(1) [of 0] Cons.prems(2) show ?case by auto
qed simp

lemma cstr_unique: "cstr m p s \<Longrightarrow> cstr m p t \<Longrightarrow> s = t"
proof (induction s arbitrary: p t)
  case Nil then show ?case by (cases t) auto
next
  case (Cons c s) then show ?case by (cases t) auto
qed

lemma cstr_drop: "cstr m p s \<Longrightarrow> i \<le> length s \<Longrightarrow> cstr m (p + i) (drop i s)"
proof (induction i arbitrary: p s)
  case (Suc i) then show ?case by (cases s) fastforce+
qed simp

section \<open>Block operations\<close>

lemma memcpy_loop_copied: "d \<le> s \<or> s + n \<le> d \<Longrightarrow> memcpy_loop m d s n = copied m d s n"
proof (induction n arbitrary: m d s)
  case 0
  then show ?case by (auto simp: copied_def fun_eq_iff)
next
  case (Suc n)
  have "Suc d \<le> Suc s \<or> Suc s + n \<le> Suc d" using Suc.prems by auto
  note IH = Suc.IH [OF this, of "m(d := m s)"]
  have "copied (m(d := m s)) (Suc d) (Suc s) n a = copied m d s (Suc n) a" for a
  proof (cases "d < a \<and> a < d + Suc n")
    case True
    then have "Suc s + (a - Suc d) = s + (a - d)" "s + (a - d) \<noteq> d" using Suc.prems by auto
    with True show ?thesis by (simp add: copied_def)
  qed (auto simp: copied_def)
  then show ?case using IH by (simp add: fun_eq_iff del: fun_upd_apply)
qed

lemma memmove_down_copied: "s \<le> d \<Longrightarrow> memmove_down m (d + n) (s + n) n = copied m d s n"
proof (induction n arbitrary: m)
  case 0
  then show ?case by (auto simp: copied_def fun_eq_iff)
next
  case (Suc n)
  from Suc.IH [OF Suc.prems] Suc.prems show ?case
    by (auto simp: copied_def fun_eq_iff less_Suc_eq)
qed

lemma memset_loop_eq: "memset_loop m p c n = (\<lambda>a. if p \<le> a \<and> a < p + n then c else m a)"
  by (induction n arbitrary: m p) (auto simp: fun_eq_iff)

lemma memcmp_zero: "(memcmp m p q n = 0) = (\<forall>i<n. m (p + i) = m (q + i))"
proof (induction n arbitrary: p q)
  case (Suc n)
  have eq: "((of_char (m p) :: int) - of_char (m q) = 0) = (m p = m q)"
    by simp
  show ?case using Suc [of "Suc p" "Suc q"] eq by (auto simp: Let_def less_Suc_eq_0_disj)
qed simp

text \<open>A search result: the first address of the area that holds the byte.\<close>

definition first_at :: "mem \<Rightarrow> ptr \<Rightarrow> char \<Rightarrow> nat \<Rightarrow> ptr option \<Rightarrow> bool" where
  "first_at m p c n r \<longleftrightarrow> (case r of
     None \<Rightarrow> (\<forall>i<n. m (p + i) \<noteq> c)
   | Some q \<Rightarrow> (\<exists>i<n. q = p + i \<and> m q = c \<and> (\<forall>j<i. m (p + j) \<noteq> c)))"

lemma first_at_here: "m p = c \<Longrightarrow> first_at m p c (Suc n) (Some p)"
  by (auto simp: first_at_def)

lemma first_at_later: "m p \<noteq> c \<Longrightarrow> first_at m (Suc p) c n r \<Longrightarrow> first_at m p c (Suc n) r"
proof (cases r)
  case (Some q)
  assume ne: "m p \<noteq> c" and "first_at m (Suc p) c n r"
  then obtain i where i: "i < n" "q = Suc p + i" "m q = c" "\<forall>j<i. m (Suc p + j) \<noteq> c"
    by (auto simp: first_at_def Some)
  have "\<forall>j<Suc i. m (p + j) \<noteq> c" using ne i(4) by (auto simp: less_Suc_eq_0_disj)
  then show ?thesis using i by (auto simp: first_at_def Some intro!: exI [of _ "Suc i"])
qed (auto simp: first_at_def less_Suc_eq_0_disj)

lemma memchr_spec: "first_at m p c n (memchr m p c n)"
proof (induction n arbitrary: p)
  case 0
  then show ?case by (simp add: first_at_def)
next
  case (Suc n)
  then show ?case by (auto intro: first_at_here first_at_later)
qed

lemma memscan_spec:
  "memscan m p c n = (case memchr m p (char_of (nat c)) n of
     Some q \<Rightarrow> if 0 \<le> c \<and> c < 256 then q else p + n | None \<Rightarrow> p + n)"
proof (induction n arbitrary: p)
  case (Suc n)
  have "((of_char (m p) :: int) = c) = (0 \<le> c \<and> c < 256 \<and> char_of (nat c) = m p)"
  proof (cases "0 \<le> c \<and> c < 256")
    case True
    moreover from True have "int (nat c mod 256) = c" by (simp add: nat_less_iff)
    ultimately have "int (of_char (char_of (nat c) :: char)) = c"
      by simp
    then show ?thesis using True by (metis of_char_eq_iff of_nat_eq_iff of_nat_of_char char_of_char nat_int)
  qed (use int_of_char_bounds [of "m p"] in auto)
  with Suc [of "Suc p"] show ?case by (auto split: option.splits)
qed simp

section \<open>Walks over strings\<close>

lemma find_nul_cstr: "cstr m p s \<Longrightarrow> find_nul m p = Some (p + length s)"
  by (induction s arbitrary: p) (auto simp: find_nul.simps)

lemma strlen_cstr: "cstr m p s \<Longrightarrow> strlen m p = Some (length s)"
  by (simp add: strlen_def find_nul_cstr)

lemma strnlen_loop_cstr: "cstr m p s \<Longrightarrow> strnlen_loop m p n = p + min n (length s)"
proof (induction s arbitrary: p n)
  case Nil then show ?case by (cases n) auto
next
  case (Cons c s) then show ?case by (cases n) auto
qed

lemma schar_diff_zero [simp]: "(schar_diff a b = 0) = (a = b)"
proof -
  have "(schar_diff a b = 0) = ((of_char a :: u8) - of_char b = 0)"
    unfolding schar_diff_def by (metis signed_0 signed_word_eqI)
  also have "\<dots> = ((of_char a :: u8) = of_char b)" by simp
  finally show ?thesis by simp
qed

lemma schar_diff_refl [simp]: "schar_diff a a = 0"
  by simp

lemma strcmp_cstr: "cstr m p a \<Longrightarrow> cstr m q b \<Longrightarrow> \<exists>r. strcmp m p q = Some r \<and> (r = 0 \<longleftrightarrow> a = b)"
proof (induction a arbitrary: p q b)
  case Nil
  then show ?case by (cases b) (auto simp: strcmp.simps Let_def)
next
  case (Cons c a)
  show ?case
  proof (cases b)
    case Nil
    then show ?thesis using Cons.prems by (auto simp: strcmp.simps [of m p] Let_def)
  next
    case (Cons d b')
    show ?thesis
    proof (cases "c = d")
      case True
      then show ?thesis
        using Cons.IH [of "Suc p" "Suc q" b'] Cons.prems Cons by (simp add: strcmp.simps [of m p] Let_def)
    next
      case False
      then show ?thesis using Cons.prems Cons by (auto simp: strcmp.simps [of m p] Let_def)
    qed
  qed
qed

lemma strncmp_loop_cstr:
  "cstr m p a \<Longrightarrow> cstr m q b \<Longrightarrow> (strncmp_loop m p q n r = 0) = (if n = 0 then r = 0 else take n a = take n b)"
proof (induction n arbitrary: p q a b r)
  case (Suc n)
  show ?case
    using Suc.IH [of "Suc p" "tl a" "Suc q" "tl b" 0] Suc.prems
    by (cases a; cases b; cases n) (auto simp: Let_def)
qed simp

lemma strchr_cstr:
  "cstr m p s \<Longrightarrow> c \<noteq> NUL \<Longrightarrow> \<exists>r. strchr m p c = Some r \<and> first_at m p c (length s) r"
proof (induction s arbitrary: p)
  case Nil
  then show ?case by (auto simp: strchr.simps first_at_def)
next
  case (Cons d s)
  then show ?case
    by (cases "c = d") (auto simp: strchr.simps [of m p] intro: first_at_here first_at_later)
qed

lemma first_at_cstr: "cstr m p s \<Longrightarrow> first_at m p c (length s) r \<Longrightarrow> (r = None) = (c \<notin> set s)"
  using cstr_nth [of m p s] by (cases r) (auto simp: first_at_def in_set_conv_nth; metis)+

lemma strspn_loop_cstr:
  assumes q: "cstr m q d" and "cstr m p s"
  shows "strspn_loop m p q k = Some (k + length (takeWhile (\<lambda>c. c \<in> set d) s))"
  using assms(2)
proof (induction s arbitrary: p k)
  case Nil
  then show ?case by (simp add: strspn_loop.simps)
next
  case (Cons c s)
  obtain r where r: "strchr m q c = Some r" "first_at m q c (length d) r"
    using strchr_cstr [OF q, of c] Cons.prems by auto
  then show ?case
    using Cons first_at_cstr [OF q r(2)] by (cases r) (auto simp: strspn_loop.simps [of m p])
qed

lemma strpbrk_cstr:
  assumes q: "cstr m q d" and "cstr m p s"
  shows "strpbrk m p q = Some (if \<exists>c\<in>set s. c \<in> set d
     then Some (p + length (takeWhile (\<lambda>c. c \<notin> set d) s)) else None)"
  using assms(2)
proof (induction s arbitrary: p)
  case Nil
  then show ?case by (simp add: strpbrk.simps)
next
  case (Cons c s)
  obtain r where r: "strchr m q c = Some r" "first_at m q c (length d) r"
    using strchr_cstr [OF q, of c] Cons.prems by auto
  then show ?case
    using Cons first_at_cstr [OF q r(2)] by (cases r) (auto simp: strpbrk.simps [of m p])
qed


section \<open>Copying strings\<close>

lemma strcpy_loop_copied:
  "cstr m p s \<Longrightarrow> d \<le> p \<or> p + length s < d \<Longrightarrow>
   strcpy_loop m d p = Some (copied m d p (Suc (length s)))"
proof (induction s arbitrary: m d p)
  case Nil
  then show ?case by (auto simp: strcpy_loop.simps copied_def fun_eq_iff)
next
  case (Cons c s)
  let ?m = "m(d := m p)"
  have "cstr ?m (Suc p) s"
  proof (rule cstrI)
    fix i assume "i < length s"
    then show "?m (Suc p + i) = s ! i"
      using Cons.prems cstr_nth [of m "Suc p" s i] by auto
  qed (use Cons.prems cstr_end [of m "Suc p" s] cstr_no_NUL [of m "Suc p" s] in auto)
  then have "strcpy_loop ?m (Suc d) (Suc p) = Some (copied ?m (Suc d) (Suc p) (Suc (length s)))"
    using Cons.prems by (intro Cons.IH) (simp_all del: fun_upd_apply, auto)
  moreover have "copied ?m (Suc d) (Suc p) (Suc (length s)) = copied m d p (Suc (Suc (length s)))"
    using memcpy_loop_copied [of d p "Suc (Suc (length s))" m]
      memcpy_loop_copied [of "Suc d" "Suc p" "Suc (length s)" ?m] Cons.prems by fastforce
  ultimately show ?case
    using Cons.prems by (simp add: strcpy_loop.simps [of m d p] Let_def del: fun_upd_apply)
qed

lemma copied_cstr: "cstr m p s \<Longrightarrow> cstr (copied m d p (Suc (length s))) d s"
  by (rule cstrI) (auto simp: copied_def cstr_nth cstr_end cstr_no_NUL)

text \<open>
  Copying a string onto its own tail overwrites the NUL before it is read: the loop does not end.
\<close>

lemma strcpy_loop_overlap:
  assumes "strcpy_loop m d p = Some r" and "p < d" and "\<forall>a. p \<le> a \<and> a < d \<longrightarrow> m a \<noteq> NUL"
  shows False
proof -
  have "p < d \<longrightarrow> (\<forall>a. p \<le> a \<and> a < d \<longrightarrow> m a \<noteq> NUL) \<longrightarrow> False"
  proof (rule strcpy_loop.raw_induct [where P = "\<lambda>m d p r. p < d \<longrightarrow> (\<forall>a. p \<le> a \<and> a < d \<longrightarrow> m a \<noteq> NUL) \<longrightarrow> False", OF _ assms(1)], intro impI)
    fix loop m d p r
    assume IH: "\<And>m d p r. loop m d p = Some r \<Longrightarrow> p < d \<longrightarrow> (\<forall>a. p \<le> a \<and> a < d \<longrightarrow> m a \<noteq> NUL) \<longrightarrow> False"
      and eq: "(let m' = m(d := m p) in if m p \<noteq> NUL then loop m' (Suc d) (Suc p) else Some m') = Some r"
      and inv: "p < d" "\<forall>a. p \<le> a \<and> a < d \<longrightarrow> m a \<noteq> NUL"
    have "m p \<noteq> NUL" using inv by simp
    then have "loop (m(d := m p)) (Suc d) (Suc p) = Some r" using eq by (simp add: Let_def)
    moreover have "Suc p < Suc d" using inv by simp
    moreover have "(m(d := m p)) a \<noteq> NUL" if "Suc p \<le> a" "a < Suc d" for a
      using inv that \<open>m p \<noteq> NUL\<close> by (cases "a = d") simp_all
    ultimately show False using IH by blast
  qed
  then show False using assms(2,3) by blast
qed

lemma strncpy_loop_copied:
  "cstr m p s \<Longrightarrow> d \<le> p \<or> p + length s < d \<Longrightarrow>
   strncpy_loop m d p n = copied m d p (min n (Suc (length s)))"
proof (induction s arbitrary: m d p n)
  case Nil
  then show ?case by (cases n) (auto simp: copied_def fun_eq_iff)
next
  case (Cons c s)
  show ?case
  proof (cases n)
    case 0
    then show ?thesis by (auto simp: copied_def fun_eq_iff)
  next
    case (Suc k)
    let ?m = "m(d := m p)"
    have "cstr ?m (Suc p) s"
    proof (rule cstrI)
      fix i assume "i < length s"
      then show "?m (Suc p + i) = s ! i"
        using Cons.prems cstr_nth [of m "Suc p" s i] by auto
    qed (use Cons.prems cstr_end [of m "Suc p" s] cstr_no_NUL [of m "Suc p" s] in auto)
    then have "strncpy_loop ?m (Suc d) (Suc p) k = copied ?m (Suc d) (Suc p) (min k (Suc (length s)))"
      using Cons.prems by (intro Cons.IH) (simp_all del: fun_upd_apply, auto)
    moreover have "copied ?m (Suc d) (Suc p) (min k (Suc (length s))) = copied m d p (Suc (min k (Suc (length s))))"
      using memcpy_loop_copied [of d p "Suc (min k (Suc (length s)))" m]
        memcpy_loop_copied [of "Suc d" "Suc p" "min k (Suc (length s))" ?m] Cons.prems by fastforce
    ultimately show ?thesis using Cons.prems Suc by (simp add: Let_def del: fun_upd_apply)
  qed
qed

section \<open>Tokens\<close>

lemma cstr_cut:
  assumes "cstr m p s" and "i < length s"
  shows "cstr (m(p + i := NUL)) p (take i s)" and "cstr (m(p + i := NUL)) (Suc (p + i)) (drop (Suc i) s)"
proof -
  show "cstr (m(p + i := NUL)) p (take i s)"
    by (rule cstrI) (use assms cstr_nth [OF assms(1)] cstr_no_NUL [OF assms(1)] in \<open>auto dest: in_set_takeD\<close>)
  have "cstr m (p + Suc i) (drop (Suc i) s)" by (rule cstr_drop) (use assms in simp_all)
  then show "cstr (m(p + i := NUL)) (Suc (p + i)) (drop (Suc i) s)"
    using cstr_nth [of m "p + Suc i" "drop (Suc i) s"] cstr_end [of m "p + Suc i" "drop (Suc i) s"]
      cstr_no_NUL [of m "p + Suc i" "drop (Suc i) s"]
    by (intro cstrI) auto
qed

lemma strsep_cstr:
  assumes s: "cstr m p s" and d: "cstr m q d"
  defines "t \<equiv> takeWhile (\<lambda>c. c \<notin> set d) s"
  shows "\<exists>nxt m'. strsep m (Some p) q = Some (Some p, nxt, m') \<and> cstr m' p t \<and>
     (if t = s then nxt = None \<and> m' = m
      else nxt = Some (p + length t + 1) \<and> cstr m' (p + length t + 1) (drop (length t + 1) s) \<and>
           (\<forall>a. a \<noteq> p + length t \<longrightarrow> m' a = m a))"
proof (cases "\<exists>c\<in>set s. c \<in> set d")
  case False
  then have "t = s" unfolding t_def by (simp add: takeWhile_eq_all_conv)
  then show ?thesis using False s strpbrk_cstr [OF d s] by (simp add: strsep_def)
next
  case True
  then have ne: "t \<noteq> s" unfolding t_def by (metis takeWhile_eq_all_conv)
  have pre: "take (length t) s = t" unfolding t_def by (metis takeWhile_eq_take)
  have lt: "length t < length s"
    using ne pre length_takeWhile_le [of "\<lambda>c. c \<notin> set d" s] unfolding t_def [symmetric]
    by (metis order_le_imp_less_or_eq take_all_iff)
  have "strpbrk m p q = Some (Some (p + length t))"
    using True strpbrk_cstr [OF d s] by (simp add: t_def)
  then show ?thesis
    using ne cstr_cut [OF s lt] pre by (simp add: strsep_def)
qed

section \<open>Swapping and searching\<close>

fun swab :: "string \<Rightarrow> string" where
  "swab (a # b # s) = b # a # swab s"
| "swab s = s"

lemma swab_swab: "swab (swab s) = s" and length_swab: "length (swab s) = length s"
  and set_swab: "set (swab s) = set s"
  by (induction s rule: swab.induct) auto

lemma cstr_frame: "cstr m p s \<Longrightarrow> (\<And>a. p \<le> a \<Longrightarrow> a \<le> p + length s \<Longrightarrow> m' a = m a) \<Longrightarrow> cstr m' p s"
  using cstr_nth [of m p s] cstr_end [of m p s] cstr_no_NUL [of m p s] by (intro cstrI) auto

lemma strswab_loop_cstr:
  "cstr m p s \<Longrightarrow> \<exists>m'. strswab_loop m p = Some m' \<and> cstr m' p (swab s) \<and>
     (\<forall>a. a < p \<or> p + length s \<le> a \<longrightarrow> m' a = m a)"
proof (induction s arbitrary: m p rule: swab.induct)
  case (1 a b s)
  let ?m = "m(p := m (Suc p), Suc p := m p)"
  have ab: "m p = a" "m (Suc p) = b" "a \<noteq> NUL" "b \<noteq> NUL" "cstr m (p + 2) s" using "1.prems" by auto
  have "cstr ?m (p + 2) s" by (rule cstr_frame [OF ab(5)]) auto
  then obtain m' where m': "strswab_loop ?m (p + 2) = Some m'" "cstr m' (p + 2) (swab s)"
      "\<forall>x. x < p + 2 \<or> p + 2 + length s \<le> x \<longrightarrow> m' x = ?m x"
    using "1.IH" by blast
  have "strswab_loop m p = Some m'" using m'(1) ab by (simp add: strswab_loop.simps [of m p])
  then show ?case using m'(2,3) ab by auto
qed (auto simp: strswab_loop.simps)

lemma strstr_loop_spec:
  assumes "0 < l2"
  shows "case strstr_loop m p q l2 l1 of
      None \<Rightarrow> \<forall>i. i + l2 \<le> l1 \<longrightarrow> memcmp m (p + i) q l2 \<noteq> 0
    | Some x \<Rightarrow> \<exists>i. x = p + i \<and> i + l2 \<le> l1 \<and> memcmp m x q l2 = 0 \<and> (\<forall>j<i. memcmp m (p + j) q l2 \<noteq> 0)"
  using assms
proof (induction m p q l2 l1 rule: strstr_loop.induct)
  case (1 m p q l2 l1)
  show ?case
  proof (cases "l2 \<le> l1 \<and> memcmp m p q l2 \<noteq> 0")
    case False
    then show ?thesis using "1.prems" by (auto simp: strstr_loop.simps [of m p] intro: exI [of _ 0])
  next
    case True
    then have rec: "strstr_loop m p q l2 l1 = strstr_loop m (Suc p) q l2 (l1 - 1)"
      using "1.prems" by (simp add: strstr_loop.simps [of m p])
    have IH: "case strstr_loop m (Suc p) q l2 (l1 - 1) of
        None \<Rightarrow> \<forall>i. i + l2 \<le> l1 - 1 \<longrightarrow> memcmp m (Suc p + i) q l2 \<noteq> 0
      | Some x \<Rightarrow> \<exists>i. x = Suc p + i \<and> i + l2 \<le> l1 - 1 \<and> memcmp m x q l2 = 0 \<and>
          (\<forall>j<i. memcmp m (Suc p + j) q l2 \<noteq> 0)"
      using "1.IH" True "1.prems" by blast
    show ?thesis
    proof (cases "strstr_loop m (Suc p) q l2 (l1 - 1)")
      case None
      have "memcmp m (p + i) q l2 \<noteq> 0" if "i + l2 \<le> l1" for i
        using IH None True that by (cases i) auto
      then show ?thesis using rec None by simp
    next
      case (Some x)
      then obtain i where i: "x = Suc p + i" "i + l2 \<le> l1 - 1" "memcmp m x q l2 = 0"
          "\<forall>j<i. memcmp m (Suc p + j) q l2 \<noteq> 0" using IH by auto
      have "\<forall>j<Suc i. memcmp m (p + j) q l2 \<noteq> 0"
        using i(4) True by (auto simp: less_Suc_eq_0_disj)
      moreover have "Suc i + l2 \<le> l1" using i(2) True "1.prems" by linarith
      ultimately show ?thesis using rec Some i by (auto intro!: exI [of _ "Suc i"])
    qed
  qed
qed

lemma memcmp_prefix:
  assumes a: "cstr m p a" and b: "cstr m q b" and "i + length b \<le> length a"
  shows "(memcmp m (p + i) q (length b) = 0) = prefix b (drop i a)"
proof -
  have "(memcmp m (p + i) q (length b) = 0) = (\<forall>j<length b. a ! (i + j) = b ! j)"
    using assms cstr_nth [OF a] cstr_nth [OF b] by (auto simp: memcmp_zero add.assoc)
  also have "\<dots> = (take (length b) (drop i a) = b)"
    using assms(3) by (auto simp: list_eq_iff_nth_eq)
  finally show ?thesis by (metis append_eq_conv_conj prefix_def)
qed

lemma strstr_cstr:
  assumes a: "cstr m p a" and b: "cstr m q b"
  shows "\<exists>r. strstr m p q = Some r \<and> (case r of
      None \<Rightarrow> \<forall>i. \<not> prefix b (drop i a)
    | Some x \<Rightarrow> \<exists>i. x = p + i \<and> prefix b (drop i a) \<and> (\<forall>j<i. \<not> prefix b (drop j a)))"
proof (cases "b = []")
  case True
  then show ?thesis using strlen_cstr [OF b] by (auto simp: strstr_def)
next
  case False
  let ?r = "strstr_loop m p q (length b) (length a)"
  have fits: "i + length b \<le> length a" if "prefix b (drop i a)" for i
    using prefix_length_le [OF that] False by (cases "i \<le> length a") auto
  have run: "strstr m p q = Some ?r"
    using False strlen_cstr [OF a] strlen_cstr [OF b] by (simp add: strstr_def)
  note spec = strstr_loop_spec [where m = m and p = p and q = q and ?l2.0 = "length b" and ?l1.0 = "length a"]
  show ?thesis
  proof (cases ?r)
    case None
    then show ?thesis using run spec False fits memcmp_prefix [OF a b] by auto
  next
    case (Some x)
    then obtain i where "x = p + i" "i + length b \<le> length a" "memcmp m (p + i) q (length b) = 0"
        "\<forall>j<i. memcmp m (p + j) q (length b) \<noteq> 0" using spec False by auto
    then show ?thesis using run Some memcmp_prefix [OF a b] by (auto intro!: exI [of _ i])
  qed
qed

section \<open>What the routines promise\<close>

text \<open>A memory that holds the given bytes from address 0 on, for the examples.\<close>

definition mem_of :: "string \<Rightarrow> mem" where
  "mem_of s = (\<lambda>a. if a < length s then s ! a else NUL)"

text \<open>
  C22: \<open>memmove\<close> returns the destination and copies the \<open>count\<close> bytes as they were before the
  call, however the two areas overlap, and changes no other byte; \<open>memcpy\<close> and \<open>bcopy\<close> agree
  with it when the areas are disjoint or the destination is the lower one.
\<close>

theorem memmove_correct:
  "memmove m dest src n = (dest, copied m dest src n) \<and>
   (dest \<le> src \<or> src + n \<le> dest \<longrightarrow>
      memcpy m dest src n = memmove m dest src n \<and> bcopy m src dest n = memmove m dest src n)"
  using memcpy_loop_copied [of dest src n m] memmove_down_copied [of src dest m n]
  by (auto simp: memmove_def memcpy_def bcopy_def)

theorem memmove_correct_witness:
  "memmove (mem_of ''abcdef'') 0 2 3 = (0, copied (mem_of ''abcdef'') 0 2 3) \<and>
   memcpy (mem_of ''abcdef'') 0 2 3 = memmove (mem_of ''abcdef'') 0 2 3 \<and>
   copied (mem_of ''abcdef'') 0 2 3 1 = CHR ''d''"
  using memmove_correct [of "mem_of ''abcdef''" 0 2 3] by (simp add: copied_def mem_of_def)

text \<open>The overlap that \<open>memcpy\<close> gets wrong, where \<open>memmove\<close> goes backwards.\<close>

lemma memcpy_overlap_differs:
  "snd (memcpy (mem_of ''abcd'') 1 0 3) 2 = CHR ''a''" "snd (memmove (mem_of ''abcd'') 1 0 3) 2 = CHR ''b''"
  by (simp_all add: memcpy_def memmove_def mem_of_def numeral_eq_Suc)

lemma cstr_append:
  "(\<And>i. i < length t \<Longrightarrow> m (p + i) = t ! i) \<Longrightarrow> NUL \<notin> set t \<Longrightarrow> cstr m (p + length t) s \<Longrightarrow> cstr m p (t @ s)"
proof (induction t arbitrary: p)
  case (Cons c t)
  have "cstr m (Suc p) (t @ s)"
  proof (rule Cons.IH)
    fix i assume "i < length t"
    then show "m (Suc p + i) = t ! i" using Cons.prems(1) [of "Suc i"] by simp
  qed (use Cons.prems in simp_all)
  with Cons.prems(1) [of 0] Cons.prems(2) show ?case by auto
qed simp

lemma strcat_cstr:
  assumes a: "cstr m d a" and b: "cstr m p b" and "d + length a \<le> p \<or> p + length b < d + length a"
  shows "strcat m d p = Some (d, copied m (d + length a) p (Suc (length b)))"
  using strcpy_loop_copied [OF b assms(3)] by (simp add: strcat_def find_nul_cstr [OF a])

lemma strcpy_loop_inside:
  assumes "cstr m src s" and "src < d" and "d \<le> src + length s"
  shows "strcpy_loop m d src = None"
proof (cases "strcpy_loop m d src")
  case (Some r)
  have "m a \<noteq> NUL" if "src \<le> a" "a < d" for a
    using that assms(3) cstr_nth [OF assms(1), of "a - src"] by auto
  then show ?thesis using strcpy_loop_overlap [OF Some assms(2)] by blast
qed

text \<open>
  C23: \<open>strcpy\<close> and \<open>strcat\<close>.  When the destination does not lie inside the source string, \<open>strcpy\<close> returns, the
  destination holds the source string and no byte outside it has changed.  When it does, the terminator is
  overwritten before it is read, and \<open>strcpy\<close> never returns.  \<open>strcat\<close> leaves the concatenation of any
  two strings; but when the two end at the same byte (one is a tail of the other) and the source is not
  empty, it overwrites the common terminator and never returns.
\<close>

theorem strcpy_correct:
  assumes src: "cstr m src s"
  shows "(dest \<le> src \<or> src + length s < dest \<longrightarrow>
      (\<exists>m'. strcpy m dest src = Some (dest, m') \<and> cstr m' dest s \<and>
           (\<forall>a. a < dest \<or> dest + length s < a \<longrightarrow> m' a = m a))) \<and>
    (src < dest \<and> dest \<le> src + length s \<longrightarrow> strcpy m dest src = None) \<and>
    (\<forall>t. cstr m dest t \<longrightarrow>
      (if s \<noteq> [] \<and> src + length s = dest + length t then strcat m dest src = None
       else \<exists>m'. strcat m dest src = Some (dest, m') \<and> cstr m' dest (t @ s)))"
proof (intro conjI impI allI)
  assume "dest \<le> src \<or> src + length s < dest"
  then show "\<exists>m'. strcpy m dest src = Some (dest, m') \<and> cstr m' dest s \<and>
           (\<forall>a. a < dest \<or> dest + length s < a \<longrightarrow> m' a = m a)"
    using strcpy_loop_copied [OF src] copied_cstr [OF src, of dest]
    by (auto simp: strcpy_def copied_def)
next
  assume "src < dest \<and> dest \<le> src + length s"
  then show "strcpy m dest src = None" using strcpy_loop_inside [OF src] by (simp add: strcpy_def)
next
  fix t assume t: "cstr m dest t"
  let ?d = "dest + length t"
  show "if s \<noteq> [] \<and> src + length s = ?d then strcat m dest src = None
       else \<exists>m'. strcat m dest src = Some (dest, m') \<and> cstr m' dest (t @ s)"
  proof (cases "s \<noteq> [] \<and> src + length s = ?d")
    case True
    then show ?thesis using strcpy_loop_inside [OF src, of ?d] by (cases s) (auto simp: strcat_def find_nul_cstr [OF t])
  next
    case False
    have "?d = src + length s" if "src < ?d" "?d \<le> src + length s"
      using that cstr_nth [OF src, of "?d - src"] cstr_end [OF t] by (cases "?d - src < length s") auto
    then have far: "?d \<le> src \<or> src + length s < ?d" using False by (cases "s = []") force+
    let ?m = "copied m ?d src (Suc (length s))"
    have s: "cstr ?m ?d s" by (rule copied_cstr [OF src])
    have "?m (dest + i) = t ! i" if "i < length t" for i
      using that cstr_nth [of m dest t] t by (simp add: copied_def)
    then have "cstr ?m dest (t @ s)" using s cstr_no_NUL [OF t] by (simp add: cstr_append)
    then show ?thesis using False strcat_cstr [OF t src far] by auto
  qed
qed

theorem strcpy_correct_witness:
  "strcpy (mem_of ''ab'') 1 0 = None \<and>
   (\<exists>m'. strcpy (mem_of ''ab'') 3 0 = Some (3, m') \<and> cstr m' 3 ''ab'') \<and>
   (\<exists>m'. strcat (mem_of (''ab'' @ NUL # ''cd'')) 3 0 = Some (3, m') \<and> cstr m' 3 ''cdab'') \<and>
   strcat (mem_of ''ab'') 0 0 = None"
proof -
  let ?m = "mem_of (''ab'' @ NUL # ''cd'')"
  have ab: "cstr (mem_of ''ab'') 0 ''ab''" and src: "cstr ?m 0 ''ab''" and dst: "cstr ?m 3 ''cd''"
    by (simp_all add: mem_of_def numeral_eq_Suc)
  have "strcpy (mem_of ''ab'') 1 0 = None"
    by (rule strcpy_correct [OF ab, THEN conjunct2, THEN conjunct1, THEN mp]) simp
  moreover have "\<exists>m'. strcpy (mem_of ''ab'') 3 0 = Some (3, m') \<and> cstr m' 3 ''ab''"
    using strcpy_correct [OF ab, of 3, THEN conjunct1] by auto
  moreover have "\<exists>m'. strcat ?m 3 0 = Some (3, m') \<and> cstr m' 3 (''cd'' @ ''ab'')"
    using strcpy_correct [OF src, of 3, THEN conjunct2, THEN conjunct2, THEN spec, THEN mp, OF dst] by simp
  moreover have "strcat (mem_of ''ab'') 0 0 = None"
    using strcpy_correct [OF ab, of 0, THEN conjunct2, THEN conjunct2, THEN spec, THEN mp, OF ab] by simp
  ultimately show ?thesis by simp
qed

text \<open>
  Comparison.  On two strings \<open>strcmp\<close> returns, and returns 0 exactly when they are equal;
  \<open>strncmp\<close> returns 0 exactly when their first \<open>n\<close> characters are; \<open>memcmp\<close> returns 0 exactly
  when the two areas hold the same bytes.
\<close>

theorem strcmp_correct:
  assumes "cstr m p a" and "cstr m q b"
  shows "(\<exists>r. strcmp m p q = Some r \<and> (r = 0 \<longleftrightarrow> a = b)) \<and>
    (strncmp m p q n = 0 \<longleftrightarrow> take n a = take n b) \<and>
    (memcmp m p q n = 0 \<longleftrightarrow> (\<forall>i<n. m (p + i) = m (q + i)))"
  using strcmp_cstr [OF assms] strncmp_loop_cstr [OF assms, of n 0]
  by (simp add: strncmp_def memcmp_zero)

theorem strcmp_correct_witness:
  "(\<exists>r. strcmp (mem_of (''ab'' @ NUL # ''ac'')) 0 3 = Some r \<and> r \<noteq> 0) \<and>
   strncmp (mem_of (''ab'' @ NUL # ''ac'')) 0 3 1 = 0"
proof -
  have "cstr (mem_of (''ab'' @ NUL # ''ac'')) 0 ''ab''" "cstr (mem_of (''ab'' @ NUL # ''ac'')) 3 ''ac''"
    by (simp_all add: mem_of_def numeral_eq_Suc)
  then show ?thesis
    using strcmp_correct [of "mem_of (''ab'' @ NUL # ''ac'')" 0 "''ab''" 3 "''ac''" 1] by auto
qed

text \<open>
  The sign is not an order: the difference is kept in a \<^verbatim>\<open>signed char\<close>, so bytes 128 apart
  compare as "less" both ways.
\<close>

lemma strcmp_sign_not_antisymmetric:
  "strcmp (mem_of [CHR 0x80]) 0 1 = Some (-128)" "strcmp (mem_of [CHR 0x80]) 1 0 = Some (-128)"
  by (simp_all add: strcmp.simps mem_of_def schar_diff_def Let_def)

text \<open>
  \<open>strsep\<close> on a string and a set of delimiters returns the text before the first delimiter
  as a string of its own, and sets the caller's pointer to what follows the delimiter, or to
  \<^verbatim>\<open>NULL\<close> when there is none; the only byte written is that delimiter.
\<close>

theorem strsep_correct:
  assumes "cstr m p s" and "cstr m q d"
  shows "\<exists>nxt m'. strsep m (Some p) q = Some (Some p, nxt, m') \<and>
    cstr m' p (takeWhile (\<lambda>c. c \<notin> set d) s) \<and>
    (if \<forall>c\<in>set s. c \<notin> set d then nxt = None \<and> m' = m
     else let n = length (takeWhile (\<lambda>c. c \<notin> set d) s) in
       nxt = Some (p + n + 1) \<and> cstr m' (p + n + 1) (drop (n + 1) s) \<and>
       (\<forall>a. a \<noteq> p + n \<longrightarrow> m' a = m a))"
proof -
  have "takeWhile (\<lambda>c. c \<notin> set d) s = s \<longleftrightarrow> (\<forall>c\<in>set s. c \<notin> set d)"
    by (rule takeWhile_eq_all_conv)
  then show ?thesis using strsep_cstr [OF assms] unfolding Let_def by presburger
qed

theorem strsep_correct_witness:
  "\<exists>m'. strsep (mem_of (''a,b'' @ NUL # '','')) (Some 0) 4 = Some (Some 0, Some 2, m') \<and>
     cstr m' 0 ''a'' \<and> cstr m' 2 ''b''"
proof -
  have "cstr (mem_of (''a,b'' @ NUL # '','')) 0 ''a,b''" "cstr (mem_of (''a,b'' @ NUL # '','')) 4 '',''"
    by (simp_all add: mem_of_def numeral_eq_Suc)
  then show ?thesis
    using strsep_correct [of "mem_of (''a,b'' @ NUL # '','')" 0 "''a,b''" 4 "'',''"]
    by (auto simp: numeral_eq_Suc)
qed

text \<open>
  \<open>strstr\<close> on two strings returns the address of the first occurrence of the second in the
  first, and \<^verbatim>\<open>NULL\<close> exactly when there is none.
\<close>

theorem strstr_correct:
  assumes "cstr m p a" and "cstr m q b"
  shows "\<exists>r. strstr m p q = Some r \<and> (case r of
      None \<Rightarrow> \<not> sublist b a
    | Some x \<Rightarrow> \<exists>i. x = p + i \<and> prefix b (drop i a) \<and> (\<forall>j<i. \<not> prefix b (drop j a)))"
proof -
  have "(\<forall>i. \<not> prefix b (drop i a)) \<Longrightarrow> \<not> sublist b a"
    by (metis append_eq_conv_conj prefix_def sublist_def)
  then show ?thesis using strstr_cstr [OF assms] by (fastforce split: option.splits)
qed

theorem strstr_correct_witness:
  "\<exists>r. strstr (mem_of (''abab'' @ NUL # ''ba'')) 0 5 = Some r \<and> r \<noteq> None"
proof -
  let ?m = "mem_of (''abab'' @ NUL # ''ba'')"
  have "cstr ?m 0 ''abab''" "cstr ?m 5 ''ba''" by (simp_all add: mem_of_def numeral_eq_Suc)
  from strstr_correct [OF this] obtain r where r: "strstr ?m 0 5 = Some r"
      "case r of None \<Rightarrow> \<not> sublist ''ba'' ''abab''
      | Some x \<Rightarrow> \<exists>i. x = 0 + i \<and> prefix ''ba'' (drop i ''abab'') \<and>
          (\<forall>j<i. \<not> prefix ''ba'' (drop j ''abab''))"
    by blast
  have "r \<noteq> None" using r(2) by (cases r) (simp_all add: sublist_code)
  with r(1) show ?thesis by blast
qed

text \<open>
  \<open>strswab\<close> on a non-empty string exchanges the characters of each pair, leaves a last odd
  one, and touches no byte outside the string; a second call restores the string.
\<close>

theorem strswab_roundtrip:
  assumes "cstr m p s" and "s \<noteq> []"
  shows "\<exists>m1 m2. strswab m (Some p) = Some (Some p, m1) \<and> cstr m1 p (swab s) \<and>
    strswab m1 (Some p) = Some (Some p, m2) \<and> m2 = m"
proof -
  have ne: "m' p \<noteq> NUL" if "cstr m' p t" "length t = length s" for m' t
    using that assms(2) by (cases t) auto
  obtain m1 where 1: "strswab_loop m p = Some m1" "cstr m1 p (swab s)"
      "\<forall>a. a < p \<or> p + length s \<le> a \<longrightarrow> m1 a = m a"
    using strswab_loop_cstr [OF assms(1)] by blast
  obtain m2 where 2: "strswab_loop m1 p = Some m2" "cstr m2 p s"
      "\<forall>a. a < p \<or> p + length s \<le> a \<longrightarrow> m2 a = m1 a"
    using strswab_loop_cstr [OF 1(2)] by (auto simp: swab_swab length_swab)
  have "m2 a = m a" for a
  proof (cases "a < p \<or> p + length s \<le> a")
    case False
    then have "p + (a - p) = a" "a - p < length s" by auto
    then show ?thesis using cstr_nth [OF 2(2), of "a - p"] cstr_nth [OF assms(1), of "a - p"] by simp
  qed (use 1(3) 2(3) in auto)
  then have "m2 = m" by (simp add: fun_eq_iff)
  then show ?thesis
    using 1 2 ne [OF assms(1)] ne [OF 1(2)] by (simp add: strswab_def length_swab)
qed

theorem strswab_roundtrip_witness:
  "\<exists>m1. strswab (mem_of ''abc'') (Some 0) = Some (Some 0, m1) \<and> cstr m1 0 ''bac'' \<and>
     strswab m1 (Some 0) = Some (Some 0, mem_of ''abc'')"
  using strswab_roundtrip [of "mem_of ''abc''" 0 "''abc''"] by (auto simp: mem_of_def numeral_eq_Suc)

end
