(* ===== verification/Circbuf.thy ===== *)
theory Circbuf
  imports Prelude
begin

text \<open>
  The circular byte buffer of the USB terminal, \<^verbatim>\<open>common/circbuf.c\<close> and
  \<^verbatim>\<open>include/circbuf.h\<close>.  The pointers \<open>top\<close>, \<open>tail\<close> and \<open>end\<close> are indices into \<open>data\<close>.
  The abstract view is a bounded queue of bytes that forgets its oldest bytes when it
  overflows: the interface \<open>byte_fifo\<close>, whose client lemmas are interpreted on the model.
\<close>

section \<open>The code\<close>

record circbuf =
  cb_size :: u32
  totalsize :: u32
  top :: nat
  tail :: nat
  cb_data :: "char list"
  cb_end :: nat

text \<open>
  \<open>malloc\<close> is the argument: the block it returned, of \<open>sz\<close> bytes, or \<open>None\<close> for \<^verbatim>\<open>NULL\<close>
  (the \<open>assert\<close>, and with assertions disabled a null pointer in \<open>data\<close>).
\<close>

definition buf_init :: "char list option \<Rightarrow> u32 \<Rightarrow> (int \<times> circbuf) option" where
  "buf_init block sz = do {
     d \<leftarrow> block;
     Some (1, \<lparr>cb_size = 0, totalsize = sz, top = 0, tail = 0, cb_data = d, cb_end = unat sz\<rparr>) }"

text \<open>\<open>free\<close> and \<open>memset\<close>: every field is zero, and the block is gone.\<close>

definition buf_free :: "circbuf \<Rightarrow> int \<times> circbuf" where
  "buf_free buf = (1, \<lparr>cb_size = 0, totalsize = 0, top = 0, tail = 0, cb_data = [], cb_end = 0\<rparr>)"

fun buf_pop_loop :: "circbuf \<Rightarrow> nat \<Rightarrow> nat \<Rightarrow> (char list \<times> nat) option" where
  "buf_pop_loop buf p 0 = Some ([], p)"
| "buf_pop_loop buf p (Suc k) = do {
     c \<leftarrow> rd (cb_data buf) p;
     (dest, p') \<leftarrow> buf_pop_loop buf (if Suc p = cb_end buf then 0 else Suc p) k;
     Some (c # dest, p') }"

text \<open>\<open>buf_pop\<close>: the length returned, the bytes written to \<open>dest\<close> and the new buffer.\<close>

definition buf_pop :: "circbuf \<Rightarrow> u32 \<Rightarrow> (u32 \<times> char list \<times> circbuf) option" where
  "buf_pop buf len0 =
     (let len = if cb_size buf < len0 then cb_size buf else len0 in
      do {
        (dest, p) \<leftarrow> buf_pop_loop buf (top buf) (unat len);
        Some (len, dest, buf\<lparr>top := p, cb_size := cb_size buf - len\<rparr>) })"

text \<open>One turn of the loop of \<open>buf_push\<close>, on the byte \<open>c\<close>.\<close>

definition buf_put :: "circbuf \<Rightarrow> nat \<Rightarrow> char \<Rightarrow> (circbuf \<times> nat) option" where
  "buf_put buf p c = do {
     d \<leftarrow> wr (cb_data buf) p c;
     let buf1 = buf\<lparr>cb_data := d\<rparr>;
     let p' = (if Suc p = cb_end buf then 0 else Suc p);
     Some (if cb_size buf < totalsize buf then buf1\<lparr>cb_size := cb_size buf + 1\<rparr>
           else buf1\<lparr>top := (if Suc (top buf) = cb_end buf then 0 else Suc (top buf))\<rparr>, p') }"

fun buf_push_loop :: "circbuf \<Rightarrow> nat \<Rightarrow> char list \<Rightarrow> nat \<Rightarrow> nat \<Rightarrow> (circbuf \<times> nat) option" where
  "buf_push_loop buf p src i 0 = Some (buf, p)"
| "buf_push_loop buf p src i (Suc k) = do {
     c \<leftarrow> rd src i;
     (buf', p') \<leftarrow> buf_put buf p c;
     buf_push_loop buf' p' src (Suc i) k }"

definition buf_push :: "circbuf \<Rightarrow> char list \<Rightarrow> u32 \<Rightarrow> (u32 \<times> circbuf) option" where
  "buf_push buf src len = do {
     (buf', p) \<leftarrow> buf_push_loop buf (tail buf) src 0 (unat len);
     Some (len, buf'\<lparr>tail := p\<rparr>) }"

section \<open>The interface: a bounded queue of bytes\<close>

definition last_bytes :: "nat \<Rightarrow> 'a list \<Rightarrow> 'a list" where
  "last_bytes n xs = drop (length xs - n) xs"

lemma last_bytes_id [simp]: "length xs \<le> n \<Longrightarrow> last_bytes n xs = xs"
  by (simp add: last_bytes_def)

lemma length_last_bytes [simp]: "length (last_bytes n xs) = min n (length xs)"
  by (auto simp: last_bytes_def)

lemma last_bytes_append: "last_bytes n (last_bytes n xs @ ys) = last_bytes n (xs @ ys)"
  by (cases "length xs \<le> n") (auto simp: last_bytes_def add.commute)

locale byte_fifo =
  fixes inv :: "'s \<Rightarrow> bool"
    and cap :: "'s \<Rightarrow> nat"
    and contents :: "'s \<Rightarrow> char list"
    and push :: "'s \<Rightarrow> char list \<Rightarrow> 's option"
    and pop :: "'s \<Rightarrow> nat \<Rightarrow> (char list \<times> 's) option"
    and fits :: "nat \<Rightarrow> bool"
  assumes room: "inv s \<Longrightarrow> length (contents s) \<le> cap s"
    and push_law: "inv s \<Longrightarrow> fits (length xs) \<Longrightarrow> \<exists>s'. push s xs = Some s' \<and> inv s' \<and> cap s' = cap s \<and>
        contents s' = last_bytes (cap s) (contents s @ xs)"
    and pop_law: "inv s \<Longrightarrow> fits n \<Longrightarrow> \<exists>s'. pop s n = Some (take n (contents s), s') \<and> inv s' \<and> cap s' = cap s \<and>
        contents s' = drop n (contents s)"
begin

text \<open>Bytes come out in the order they went in, as long as the buffer did not overflow.\<close>

lemma push_pop:
  assumes "inv s" and "contents s = []" and "length xs \<le> cap s" and "fits (length xs)"
  shows "\<exists>s1 s2. push s xs = Some s1 \<and> pop s1 (length xs) = Some (xs, s2) \<and> inv s2 \<and> contents s2 = []"
proof -
  obtain s1 where s1: "push s xs = Some s1" "inv s1" "contents s1 = xs"
    using push_law [OF assms(1,4)] assms(2,3) by auto
  then show ?thesis using pop_law [OF s1(2) assms(4)] by auto
qed

text \<open>Two pushes are one push of both: how the caller cuts its data does not matter.\<close>

lemma push_push:
  assumes "inv s" and "fits (length xs)" and "fits (length ys)" and "fits (length (xs @ ys))"
  shows "\<exists>s1 s2 s3. push s xs = Some s1 \<and> push s1 ys = Some s2 \<and> push s (xs @ ys) = Some s3 \<and>
     contents s2 = contents s3"
proof -
  obtain s1 where s1: "push s xs = Some s1" "inv s1" "cap s1 = cap s"
      "contents s1 = last_bytes (cap s) (contents s @ xs)"
    using push_law [OF assms(1,2)] by auto
  then show ?thesis using push_law [OF s1(2) assms(3)] push_law [OF assms(1,4)]
    by (auto simp: last_bytes_append)
qed

text \<open>
  A run of the producer and the consumer: each step pushes some bytes or pops some.  As long
  as no push overflows, the bytes popped are a prefix of the bytes pushed, in order, and the
  rest is in the buffer.
\<close>

fun run :: "'s \<Rightarrow> (char list + nat) list \<Rightarrow> (char list \<times> char list \<times> 's) option" where
  "run s [] = Some ([], [], s)"
| "run s (Inl xs # ops) = do { s1 \<leftarrow> push s xs; (ins, outs, s2) \<leftarrow> run s1 ops; Some (xs @ ins, outs, s2) }"
| "run s (Inr n # ops) = do { (ys, s1) \<leftarrow> pop s n; (ins, outs, s2) \<leftarrow> run s1 ops; Some (ins, ys @ outs, s2) }"

fun no_loss :: "nat \<Rightarrow> nat \<Rightarrow> (char list + nat) list \<Rightarrow> bool" where
  "no_loss k c [] \<longleftrightarrow> True"
| "no_loss k c (Inl xs # ops) \<longleftrightarrow> fits (length xs) \<and> k + length xs \<le> c \<and> no_loss (k + length xs) c ops"
| "no_loss k c (Inr n # ops) \<longleftrightarrow> fits n \<and> no_loss (k - n) c ops"

lemma run_fifo:
  "inv s \<Longrightarrow> no_loss (length (contents s)) (cap s) ops \<Longrightarrow>
   \<exists>ins outs s'. run s ops = Some (ins, outs, s') \<and> inv s' \<and> contents s @ ins = outs @ contents s'"
proof (induction s ops rule: run.induct)
  case (2 s xs ops)
  then obtain s1 where s1: "push s xs = Some s1" "inv s1" "cap s1 = cap s" "contents s1 = contents s @ xs"
    using push_law [of s xs] by auto
  with 2 show ?case by fastforce
next
  case (3 s n ops)
  then obtain s1 where s1: "pop s n = Some (take n (contents s), s1)" "inv s1" "cap s1 = cap s"
      "contents s1 = drop n (contents s)"
    using pop_law [of s n] by auto
  with 3 obtain ins outs s' where "run s1 ops = Some (ins, outs, s')" "inv s'"
      "drop n (contents s) @ ins = outs @ contents s'" by fastforce
  moreover from this have "contents s @ ins = (take n (contents s) @ outs) @ contents s'"
    by (metis append.assoc append_take_drop_id)
  ultimately show ?case using s1 by simp
qed simp

end

section \<open>The buffer implements the interface\<close>

definition cb_inv :: "circbuf \<Rightarrow> bool" where
  "cb_inv b \<longleftrightarrow> 0 < unat (totalsize b) \<and> length (cb_data b) = unat (totalsize b) \<and>
     cb_end b = unat (totalsize b) \<and> cb_size b \<le> totalsize b \<and> top b < unat (totalsize b) \<and>
     tail b = (top b + unat (cb_size b)) mod unat (totalsize b)"

definition cb_contents :: "circbuf \<Rightarrow> char list" where
  "cb_contents b = map (\<lambda>i. cb_data b ! ((top b + i) mod length (cb_data b))) [0..<unat (cb_size b)]"

lemma length_cb_contents [simp]: "length (cb_contents b) = unat (cb_size b)"
  by (simp add: cb_contents_def)

lemma wrap_Suc: "p < n \<Longrightarrow> (if Suc p = n then 0 else Suc p) = Suc p mod n"
  by auto

lemma mod_shift: "(Suc p mod n + i) mod n = (p + Suc i) mod (n :: nat)"
  by (simp add: mod_add_left_eq)

lemma buf_pop_loop_ok:
  "p < length (cb_data b) \<Longrightarrow> cb_end b = length (cb_data b) \<Longrightarrow>
   buf_pop_loop b p k = Some (map (\<lambda>i. cb_data b ! ((p + i) mod length (cb_data b))) [0..<k],
     (p + k) mod length (cb_data b))"
proof (induction k arbitrary: p)
  case (Suc k)
  let ?n = "length (cb_data b)"
  have "Suc p mod ?n < ?n" using Suc.prems(1) by (intro mod_less_divisor) auto
  note IH = Suc.IH [OF this Suc.prems(2)]
  have "[0..<Suc k] = 0 # map Suc [0..<k]" by (simp add: map_Suc_upt upt_conv_Cons)
  then show ?case
    using Suc.prems IH wrap_Suc [OF Suc.prems(1)] by (simp add: mod_shift o_def)
qed simp

text \<open>The step of \<open>buf_push\<close>, with \<open>tail\<close> as the running pointer.\<close>

lemma buf_put_ok:
  assumes "cb_inv b"
  shows "\<exists>b' p. buf_put b (tail b) c = Some (b', p) \<and> cb_inv (b'\<lparr>tail := p\<rparr>) \<and>
     totalsize b' = totalsize b \<and>
     cb_contents b' = last_bytes (unat (totalsize b)) (cb_contents b @ [c])"
proof -
  let ?n = "unat (totalsize b)"
  have I: "0 < ?n" "length (cb_data b) = ?n" "cb_end b = ?n" "unat (cb_size b) \<le> ?n" "top b < ?n"
      "tail b = (top b + unat (cb_size b)) mod ?n"
    using assms by (auto simp: cb_inv_def word_le_unat)
  have t: "tail b < ?n" using I by simp
  have far: "(top b + i) mod ?n \<noteq> tail b" if "i < unat (cb_size b)" "unat (cb_size b) - i < ?n" for i
  proof
    assume "(top b + i) mod ?n = tail b"
    then have "(top b + unat (cb_size b)) mod ?n = (top b + i) mod ?n" using I by simp
    then have "?n dvd (top b + unat (cb_size b)) - (top b + i)"
      using that(1) by (simp add: mod_eq_dvd_iff_nat)
    then show False using that by (auto dest!: dvd_imp_le)
  qed
  show ?thesis
  proof (cases "unat (cb_size b) < ?n")
    case True
    then have up: "unat (cb_size b + 1) = Suc (unat (cb_size b))"
      using unat_word_lt [of "totalsize b"] by (simp add: unat_word_ariths)
    let ?b = "b\<lparr>cb_data := (cb_data b)[tail b := c], cb_size := cb_size b + 1\<rparr>"
    have run: "buf_put b (tail b) c = Some (?b, Suc (tail b) mod ?n)"
      using True I(1-5) t wrap_Suc [OF t] by (simp add: buf_put_def word_less_unat)
    have "cb_contents ?b = cb_contents b @ [c]"
    proof -
      have "(cb_data b)[tail b := c] ! ((top b + i) mod ?n) = cb_data b ! ((top b + i) mod ?n)"
        if "i < unat (cb_size b)" for i
        using far [OF that] True by (metis less_imp_diff_less nth_list_update_neq)
      then show ?thesis using I(1-5) t by (simp add: cb_contents_def up I(6) [symmetric])
    qed
    moreover have "cb_inv (?b\<lparr>tail := Suc (tail b) mod ?n\<rparr>)"
      using I True by (simp add: cb_inv_def up word_le_unat mod_Suc_eq)
    ultimately show ?thesis using run True by simp
  next
    case False
    then have full: "unat (cb_size b) = ?n" and tt: "tail b = top b" using I by auto
    let ?b = "b\<lparr>cb_data := (cb_data b)[tail b := c], top := Suc (top b) mod ?n\<rparr>"
    have run: "buf_put b (tail b) c = Some (?b, Suc (tail b) mod ?n)"
      using False I(1-5) t wrap_Suc [OF t] tt by (simp add: buf_put_def word_less_unat)
    have "cb_contents ?b ! i = (tl (cb_contents b) @ [c]) ! i" if "i < ?n" for i
    proof (cases "Suc i < ?n")
      case True
      moreover from this have "i < ?n - Suc 0" by simp
      ultimately show ?thesis using that I full far [of "Suc i"]
        by (simp add: cb_contents_def mod_shift nth_append nth_tl)
    next
      case False
      then have "Suc i = ?n" using that by simp
      then have "(top b + Suc i) mod ?n = top b" using I(5) by simp
      moreover have "\<not> i < ?n - Suc 0" using False by simp
      ultimately show ?thesis using that I full tt False
        by (simp add: cb_contents_def mod_shift nth_append nth_tl)
    qed
    then have "cb_contents ?b = tl (cb_contents b) @ [c]"
      using I full by (intro nth_equalityI) auto
    moreover have "tl (cb_contents b) @ [c] = last_bytes ?n (cb_contents b @ [c])"
      using full I by (simp add: last_bytes_def drop_Suc)
    moreover have "cb_inv (?b\<lparr>tail := Suc (tail b) mod ?n\<rparr>)"
      using I full tt by (simp add: cb_inv_def word_le_unat)
    ultimately show ?thesis using run by simp
  qed
qed

lemma buf_push_loop_ok:
  "cb_inv (b\<lparr>tail := p\<rparr>) \<Longrightarrow> i + k \<le> length src \<Longrightarrow>
   \<exists>b' p'. buf_push_loop b p src i k = Some (b', p') \<and> cb_inv (b'\<lparr>tail := p'\<rparr>) \<and>
     totalsize b' = totalsize b \<and>
     cb_contents b' = last_bytes (unat (totalsize b)) (cb_contents b @ take k (drop i src))"
proof (induction k arbitrary: b p i)
  case 0
  have "length (cb_contents b) \<le> unat (totalsize b)"
    using 0(1) by (simp add: cb_inv_def word_le_unat)
  then show ?case using 0 by simp
next
  case (Suc k)
  have put: "buf_put (b\<lparr>tail := p\<rparr>) q c = (case buf_put b q c of None \<Rightarrow> None
      | Some (b', p') \<Rightarrow> Some (b'\<lparr>tail := p\<rparr>, p'))" for q c
    by (simp add: buf_put_def wr_def Let_def)
  obtain b1 p1 where b1: "buf_put b p (src ! i) = Some (b1, p1)" "cb_inv (b1\<lparr>tail := p1\<rparr>)"
      "totalsize b1 = totalsize b"
      "cb_contents b1 = last_bytes (unat (totalsize b)) (cb_contents b @ [src ! i])"
    using buf_put_ok [OF Suc.prems(1), of "src ! i"]
    by (auto simp: put cb_contents_def split: option.splits)
  have src: "take (Suc k) (drop i src) = src ! i # take k (drop (Suc i) src)"
    using Suc.prems(2) by (simp add: Cons_nth_drop_Suc [symmetric])
  obtain b2 p2 where "buf_push_loop b1 p1 src (Suc i) k = Some (b2, p2)" "cb_inv (b2\<lparr>tail := p2\<rparr>)"
      "totalsize b2 = totalsize b"
      "cb_contents b2 = last_bytes (unat (totalsize b)) (cb_contents b1 @ take k (drop (Suc i) src))"
    using Suc.IH [OF b1(2), of "Suc i"] Suc.prems(2) b1(3) by auto
  then show ?case
    using b1 src Suc.prems(2) by (simp add: last_bytes_append)
qed

lemma buf_push_ok:
  assumes "cb_inv b" and "unat len \<le> length src"
  shows "\<exists>b'. buf_push b src len = Some (len, b') \<and> cb_inv b' \<and> totalsize b' = totalsize b \<and>
     cb_contents b' = last_bytes (unat (totalsize b)) (cb_contents b @ take (unat len) src)"
  using buf_push_loop_ok [where b = b and p = "tail b" and i = 0 and k = "unat len" and src = src] assms
  by (auto simp: buf_push_def cb_contents_def)

lemma buf_pop_ok:
  assumes "cb_inv b"
  shows "\<exists>b'. buf_pop b len = Some (min len (cb_size b), take (unat len) (cb_contents b), b') \<and>
     cb_inv b' \<and> totalsize b' = totalsize b \<and> cb_contents b' = drop (unat len) (cb_contents b)"
proof -
  define l where "l = min len (cb_size b)"
  have l: "(if cb_size b < len then cb_size b else len) = l" "l \<le> cb_size b" by (auto simp: l_def)
  let ?n = "unat (totalsize b)"
  have I: "0 < ?n" "length (cb_data b) = ?n" "cb_end b = ?n" "cb_size b \<le> totalsize b" "top b < ?n"
      "tail b = (top b + unat (cb_size b)) mod ?n"
    using assms by (auto simp: cb_inv_def)
  have ul: "unat l = min (unat len) (unat (cb_size b))" by (auto simp: l_def min_def word_le_unat)
  have us: "unat (cb_size b - l) = unat (cb_size b) - unat l" using l(2) by (simp add: unat_sub)
  let ?b = "b\<lparr>top := (top b + unat l) mod ?n, cb_size := cb_size b - l\<rparr>"
  have "buf_pop b len = Some (l, map (\<lambda>i. cb_data b ! ((top b + i) mod ?n)) [0..<unat l], ?b)"
    using buf_pop_loop_ok [of "top b" b "unat l"] I l by (simp add: buf_pop_def)
  moreover have "map (\<lambda>i. cb_data b ! ((top b + i) mod ?n)) [0..<unat l] = take (unat len) (cb_contents b)"
    using I ul by (auto simp: cb_contents_def intro!: nth_equalityI)
  moreover have "cb_inv ?b"
  proof -
    have "top b + unat l + unat (cb_size b - l) = top b + unat (cb_size b)" using us ul by simp
    then have "tail b = ((top b + unat l) mod ?n + unat (cb_size b - l)) mod ?n"
      using I(6) by (simp only: mod_add_left_eq)
    then show ?thesis using I(1-5) us by (simp add: cb_inv_def word_le_unat)
  qed
  moreover have "cb_contents ?b = drop (unat len) (cb_contents b)"
    using I us ul by (auto simp: cb_contents_def mod_add_left_eq mod_add_right_eq ac_simps intro!: nth_equalityI)
  ultimately show ?thesis by (auto simp: l_def)
qed

interpretation cb: byte_fifo cb_inv "\<lambda>b. unat (totalsize b)" cb_contents
  "\<lambda>b xs. map_option snd (buf_push b xs (word_of_nat (length xs)))"
  "\<lambda>b n. map_option snd (buf_pop b (word_of_nat n))" "\<lambda>n. n < 4294967296"
proof
  fix b :: circbuf and xs :: string and n :: nat
  assume b: "cb_inv b"
  show "length (cb_contents b) \<le> unat (totalsize b)" using b by (simp add: cb_inv_def word_le_unat)
  show "\<exists>s'. map_option snd (buf_push b xs (word_of_nat (length xs))) = Some s' \<and> cb_inv s' \<and>
      unat (totalsize s') = unat (totalsize b) \<and>
      cb_contents s' = last_bytes (unat (totalsize b)) (cb_contents b @ xs)" if "length xs < 4294967296"
    using buf_push_ok [OF b, of "word_of_nat (length xs)" xs] that by (auto simp: unat_of_nat)
  show "\<exists>s'. map_option snd (buf_pop b (word_of_nat n)) = Some (take n (cb_contents b), s') \<and> cb_inv s' \<and>
      unat (totalsize s') = unat (totalsize b) \<and> cb_contents s' = drop n (cb_contents b)" if "n < 4294967296"
    using buf_pop_ok [OF b, of "word_of_nat n"] that by (auto simp: unat_of_nat)
qed

lemma buf_init_ok:
  assumes "length d = unat sz" and "0 < sz"
  shows "\<exists>b. buf_init (Some d) sz = Some (1, b) \<and> cb_inv b \<and> cb_contents b = [] \<and> totalsize b = sz"
  using assms by (simp add: buf_init_def cb_inv_def cb_contents_def word_less_unat)

section \<open>What the buffer promises\<close>

text \<open>
  On a buffer of a positive size, \<open>buf_push\<close> and \<open>buf_pop\<close> never touch memory outside the
  allocated block and keep its invariant; a push returns its length and leaves the newest bytes,
  at most \<open>totalsize\<close> of them, the oldest being overwritten; a pop returns, in order, as many of
  the oldest bytes as were asked for and are there.
\<close>

theorem circbuf_ops_correct:
  assumes "cb_inv b"
  shows "(\<forall>src len. unat len \<le> length src \<longrightarrow> (\<exists>b'. buf_push b src len = Some (len, b') \<and> cb_inv b' \<and>
        totalsize b' = totalsize b \<and>
        cb_contents b' = last_bytes (unat (totalsize b)) (cb_contents b @ take (unat len) src))) \<and>
    (\<forall>len. \<exists>b'. buf_pop b len = Some (min len (cb_size b), take (unat len) (cb_contents b), b') \<and>
        cb_inv b' \<and> totalsize b' = totalsize b \<and> cb_contents b' = drop (unat len) (cb_contents b))"
  using buf_push_ok [OF assms] buf_pop_ok [OF assms] by blast

theorem circbuf_ops_correct_witness:
  "\<exists>b b1 b2. buf_init (Some ''????'') 4 = Some (1, b) \<and> buf_push b ''abcdef'' 6 = Some (6, b1) \<and>
     cb_contents b1 = ''cdef'' \<and> buf_pop b1 3 = Some (3, ''cde'', b2) \<and> cb_contents b2 = ''f''"
proof -
  obtain b where b: "buf_init (Some ''????'') 4 = Some (1, b)" "cb_inv b" "cb_contents b = []" "totalsize b = 4"
    using buf_init_ok [of "''????''" 4] by auto
  from circbuf_ops_correct [OF b(2), THEN conjunct1, rule_format, of 6 "''abcdef''"]
  obtain b1 where b1: "buf_push b ''abcdef'' 6 = Some (6, b1)" "cb_inv b1" "cb_contents b1 = ''cdef''"
    using b(3,4) by (auto simp: last_bytes_def)
  have "cb_size b1 = 4"
    using arg_cong [OF b1(3), of length] by (simp add: word_eq_unat)
  then show ?thesis
    using circbuf_ops_correct [OF b1(2), THEN conjunct2, rule_format, of 3] b b1 by auto
qed

text \<open>
  C24: From an empty buffer, any sequence of pushes and pops in which no push overflows succeeds,
  and the bytes popped, in order, followed by what is still in the buffer, are the bytes pushed.
\<close>

theorem circbuf_run_fifo:
  assumes "length d = unat sz" and "0 < sz" and "cb.no_loss 0 (unat sz) ops"
  shows "\<exists>b ins outs b'. buf_init (Some d) sz = Some (1, b) \<and> cb.run b ops = Some (ins, outs, b') \<and>
     ins = outs @ cb_contents b' \<and> cb_inv b'"
proof -
  obtain b where b: "buf_init (Some d) sz = Some (1, b)" "cb_inv b" "cb_contents b = []" "totalsize b = sz"
    using buf_init_ok [OF assms(1,2)] by auto
  then show ?thesis using cb.run_fifo [OF b(2), of ops] assms(3) by fastforce
qed

theorem circbuf_run_fifo_witness:
  "\<exists>b ins outs b'. buf_init (Some ''???'') 3 = Some (1, b) \<and>
     cb.run b [Inl ''ab'', Inr 1, Inl ''cd'', Inr 2] = Some (ins, outs, b') \<and> ins = outs @ cb_contents b' \<and> cb_inv b'"
  by (rule circbuf_run_fifo) simp_all

end
