(* ===== verification/SRecord.thy ===== *)
theory SRecord
  imports Prelude "HOL-Library.Char_ord"
begin

text \<open>
  The Motorola S-record decoder, \<^verbatim>\<open>common/s_record.c\<close>.  The input is the character array
  with its terminating NUL; every read and every store goes through the bounds check of
  \<open>rd\<close> and \<open>wr\<close>.  The out parameters and the locals \<open>input\<close> and \<open>chksum\<close> are one state.
\<close>

section \<open>The code\<close>

text \<open>The result codes of \<^verbatim>\<open>include/s_record.h\<close>.\<close>

definition SREC_START :: int where "SREC_START = 0"
definition SREC_DATA2 :: int where "SREC_DATA2 = 1"
definition SREC_DATA3 :: int where "SREC_DATA3 = 2"
definition SREC_DATA4 :: int where "SREC_DATA4 = 3"
definition SREC_COUNT :: int where "SREC_COUNT = 5"
definition SREC_END4 :: int where "SREC_END4 = 7"
definition SREC_END3 :: int where "SREC_END3 = 8"
definition SREC_END2 :: int where "SREC_END2 = 9"
definition SREC_EMPTY :: int where "SREC_EMPTY = 10"
definition SREC_E_BADTYPE :: int where "SREC_E_BADTYPE = -1"
definition SREC_E_NOSREC :: int where "SREC_E_NOSREC = -2"
definition SREC_E_BADCHKS :: int where "SREC_E_BADCHKS = -3"

lemmas srec_codes = SREC_START_def SREC_DATA2_def SREC_DATA3_def SREC_DATA4_def SREC_COUNT_def
  SREC_END4_def SREC_END3_def SREC_END2_def SREC_EMPTY_def SREC_E_BADTYPE_def SREC_E_NOSREC_def
  SREC_E_BADCHKS_def

record srec =
  sr_input :: nat
  sr_chksum :: u8
  sr_count :: int
  sr_addr :: ulong
  sr_data :: "u8 list"

definition hex1_bin :: "char \<Rightarrow> int" where
  "hex1_bin c =
     (if CHR ''0'' \<le> c \<and> c \<le> CHR ''9'' then of_char c - of_char CHR ''0''
      else if CHR ''a'' \<le> c \<and> c \<le> CHR ''f'' then of_char c + 10 - of_char CHR ''a''
      else if CHR ''A'' \<le> c \<and> c \<le> CHR ''F'' then of_char c + 10 - of_char CHR ''A''
      else -1)"

definition hex2_bin :: "string \<Rightarrow> nat \<Rightarrow> int option" where
  "hex2_bin buf s = do {
     c \<leftarrow> rd buf s;
     let i = hex1_bin c;
     if i < 0 then Some (-1)
     else do {
       d \<leftarrow> rd buf (Suc s);
       let j = hex1_bin d;
       if j < 0 then Some (-1) else Some (push_bit 4 i + j) } }"

function srec_skip :: "string \<Rightarrow> nat \<Rightarrow> nat option" where
  "srec_skip buf p = do {
     c \<leftarrow> rd buf p;
     if c = CHR 0x00 then Some p
     else if c = CHR ''S'' then Some (Suc p)
     else srec_skip buf (Suc p) }"
  by auto
termination by (relation "measure (\<lambda>(buf, p). length buf - p)") (auto simp: rd_def split: if_splits)

declare srec_skip.simps [simp del]

text \<open>
  A statement that may return early gives the code it returns; \<open>and_then\<close> runs the rest of the
  function when it does not.
\<close>

type_synonym srec_flow = "(int option \<times> srec) option"

fun and_then :: "srec_flow \<Rightarrow> (srec \<Rightarrow> srec_flow) \<Rightarrow> srec_flow" where
  "and_then None f = None"
| "and_then (Some (Some r, st)) f = Some (Some r, st)"
| "and_then (Some (None, st)) f = f st"

text \<open>Read one byte, update with it, and advance the input; the update also adds to the checksum.\<close>

definition srec_byte :: "string \<Rightarrow> (u8 \<Rightarrow> srec \<Rightarrow> srec option) \<Rightarrow> srec \<Rightarrow> srec_flow" where
  "srec_byte buf f st = do {
     v \<leftarrow> hex2_bin buf (sr_input st);
     if v < 0 then Some (Some SREC_E_NOSREC, st)
     else do {
       st' \<leftarrow> f (word_of_int v) st;
       Some (None, st'\<lparr>sr_chksum := sr_chksum st + word_of_int v, sr_input := sr_input st + 2\<rparr>) } }"

definition addr_first :: "u8 \<Rightarrow> srec \<Rightarrow> srec option" where
  "addr_first v st = Some (st\<lparr>sr_addr := sr_addr st + ucast v\<rparr>)"

definition addr_next :: "u8 \<Rightarrow> srec \<Rightarrow> srec option" where
  "addr_next v st = Some (st\<lparr>sr_addr := push_bit 8 (sr_addr st) + ucast v\<rparr>)"

definition srec_address :: "string \<Rightarrow> char \<Rightarrow> srec \<Rightarrow> srec_flow" where
  "srec_address buf v st =
     and_then (if v = CHR ''3'' \<or> v = CHR ''7'' then srec_byte buf addr_first st else Some (None, st)) (\<lambda>st.
     and_then (if v \<in> {CHR ''3'', CHR ''7'', CHR ''2'', CHR ''8''} then srec_byte buf addr_next st
               else Some (None, st)) (\<lambda>st.
     and_then (srec_byte buf addr_next st) (srec_byte buf addr_next)))"

definition data_store :: "nat \<Rightarrow> u8 \<Rightarrow> srec \<Rightarrow> srec option" where
  "data_store i v st = do { d \<leftarrow> wr (sr_data st) i v; Some (st\<lparr>sr_data := d\<rparr>) }"

text \<open>The data loop, with \<open>k\<close> bytes left from index \<open>i\<close>.\<close>

fun srec_data :: "string \<Rightarrow> nat \<Rightarrow> nat \<Rightarrow> srec \<Rightarrow> srec_flow" where
  "srec_data buf i 0 st = Some (None, st)"
| "srec_data buf i (Suc k) st = and_then (srec_byte buf (data_store i) st) (srec_data buf (Suc i) k)"

text \<open>The record type and the number of bytes after the count that are not data.\<close>

definition srec_type :: "char \<Rightarrow> int \<Rightarrow> (int \<times> int) option" where
  "srec_type v count =
     (if v = CHR ''0'' then Some (SREC_START, count - 3)
      else if v = CHR ''1'' then Some (SREC_DATA2, count - 3)
      else if v = CHR ''2'' then Some (SREC_DATA3, count - 4)
      else if v = CHR ''3'' then Some (SREC_DATA4, count - 5)
      else if v = CHR ''5'' then Some (SREC_COUNT, 0)
      else if v = CHR ''7'' then Some (SREC_END4, count - 5)
      else if v = CHR ''8'' then Some (SREC_END3, count - 4)
      else if v = CHR ''9'' then Some (SREC_END2, count - 3)
      else None)"

definition srec_finish :: "string \<Rightarrow> int \<Rightarrow> srec \<Rightarrow> srec_flow" where
  "srec_finish buf ty st = do {
     v \<leftarrow> hex2_bin buf (sr_input st);
     Some (Some (if v < 0 then SREC_E_NOSREC
                 else if (word_of_int v :: u8) \<noteq> NOT (sr_chksum st) then SREC_E_BADCHKS
                 else ty), st) }"

text \<open>\<open>srec_decode\<close>: the result code and the out parameters, from the values they had before.\<close>

definition srec_decode :: "string \<Rightarrow> int \<Rightarrow> ulong \<Rightarrow> u8 list \<Rightarrow> (int option \<times> srec) option" where
  "srec_decode buf count0 addr0 data0 = do {
     p \<leftarrow> srec_skip buf 0;
     let st = \<lparr>sr_input = p, sr_chksum = 0, sr_count = count0, sr_addr = addr0, sr_data = data0\<rparr>;
     v \<leftarrow> rd buf p;
     if v = CHR 0x00 then Some (Some SREC_EMPTY, st)
     else do {
       count \<leftarrow> hex2_bin buf (Suc p);
       let st = st\<lparr>sr_count := count, sr_input := Suc p\<rparr>;
       if count < 0 then Some (Some SREC_E_NOSREC, st)
       else
         let st = st\<lparr>sr_chksum := word_of_int count, sr_input := p + 3\<rparr> in
         case srec_type v count of
           None \<Rightarrow> Some (Some SREC_E_BADTYPE, st)
         | Some (ty, n) \<Rightarrow>
             and_then (srec_address buf v (st\<lparr>sr_count := n, sr_addr := 0\<rparr>)) (\<lambda>st.
             and_then (srec_data buf 0 (nat n) st) (srec_finish buf ty)) } }"

section \<open>Hexadecimal digits\<close>

definition hex_digit :: "nat \<Rightarrow> char" where
  "hex_digit n = (if n < 10 then char_of (48 + n) else char_of (55 + n))"

definition hex_byte :: "u8 \<Rightarrow> string" where
  "hex_byte b = [hex_digit (unat b div 16), hex_digit (unat b mod 16)]"

lemma hex1_bin_digit: "n < 16 \<Longrightarrow> hex1_bin (hex_digit n) = int n"
  by (cases "n < 10") (simp_all add: hex1_bin_def hex_digit_def less_eq_char_def int_of_char)

lemma hex1_bin_bound: "hex1_bin c < 16" "- 1 \<le> hex1_bin c"
  by (auto simp: hex1_bin_def less_eq_char_def int_of_char)

lemma hex2_bin_bound: "hex2_bin buf s = Some v \<Longrightarrow> - 1 \<le> v \<and> v < 256"
  using hex1_bin_bound(1) [of "buf ! s"] hex1_bin_bound(1) [of "buf ! Suc s"]
  by (auto simp: hex2_bin_def Let_def rd_def push_bit_eq_mult bind_Some_iff split: if_splits)

lemma hex2_bin_byte:
  assumes "take 2 (drop s buf) = hex_byte b"
  shows "hex2_bin buf s = Some (int (unat b))"
proof -
  have l: "Suc s < length buf" using arg_cong [OF assms, of length] by (simp add: hex_byte_def)
  have "buf ! s = hex_digit (unat b div 16)" "buf ! Suc s = hex_digit (unat b mod 16)"
    using arg_cong [OF assms, of "\<lambda>x. x ! 0"] arg_cong [OF assms, of "\<lambda>x. x ! 1"] l
    by (simp_all add: hex_byte_def)
  moreover have "unat b div 16 < 16" using unat_u8_lt [of b] by simp
  moreover have "int (unat b div 16) * 16 + int (unat b mod 16) = int (unat b)"
    by presburger
  ultimately show ?thesis
    using l by (simp add: hex2_bin_def hex1_bin_digit push_bit_eq_mult del: of_nat_unat)
qed

section \<open>Reading a run of bytes\<close>

fun bytes_at :: "string \<Rightarrow> nat \<Rightarrow> u8 list \<Rightarrow> bool" where
  "bytes_at buf p [] \<longleftrightarrow> True"
| "bytes_at buf p (b # bs) \<longleftrightarrow> take 2 (drop p buf) = hex_byte b \<and> bytes_at buf (p + 2) bs"

lemma bytes_at_append: "bytes_at buf p (as @ bs) \<longleftrightarrow> bytes_at buf p as \<and> bytes_at buf (p + 2 * length as) bs"
  by (induction as arbitrary: p) auto

lemma length_hex_byte [simp]: "length (hex_byte b) = 2"
  by (simp add: hex_byte_def)

lemma bytes_at_concat: "drop p buf = concat (map hex_byte bs) @ post \<Longrightarrow> bytes_at buf p bs"
proof (induction bs arbitrary: p)
  case (Cons b bs)
  have "drop (p + 2) buf = drop 2 (drop p buf)" by (simp add: add.commute)
  also have "\<dots> = concat (map hex_byte bs) @ post" using Cons.prems by simp
  finally show ?case using Cons by simp
qed simp

lemma srec_byte_at:
  "take 2 (drop (sr_input st) buf) = hex_byte b \<Longrightarrow> f b st = Some st' \<Longrightarrow>
   srec_byte buf f st = Some (None, st'\<lparr>sr_chksum := sr_chksum st + b, sr_input := sr_input st + 2\<rparr>)"
  by (simp add: srec_byte_def hex2_bin_byte)

lemma srec_data_at:
  "bytes_at buf (sr_input st) bs \<Longrightarrow> i + length bs \<le> length (sr_data st) \<Longrightarrow>
   srec_data buf i (length bs) st = Some (None, st\<lparr>sr_chksum := sr_chksum st + sum_list bs,
     sr_input := sr_input st + 2 * length bs,
     sr_data := take i (sr_data st) @ bs @ drop (i + length bs) (sr_data st)\<rparr>)"
proof (induction bs arbitrary: i st)
  case (Cons b bs)
  let ?d = "(sr_data st)[i := b]"
  let ?st = "st\<lparr>sr_data := ?d, sr_chksum := sr_chksum st + b, sr_input := sr_input st + 2\<rparr>"
  have "srec_byte buf (data_store i) st = Some (None, ?st)"
    using Cons.prems srec_byte_at [where st = st and b = b and f = "data_store i" and st' = "st\<lparr>sr_data := ?d\<rparr>" and buf = buf]
    by (simp add: data_store_def)
  moreover have "srec_data buf (Suc i) (length bs) ?st = Some (None, ?st\<lparr>sr_chksum := sr_chksum ?st + sum_list bs,
     sr_input := sr_input ?st + 2 * length bs,
     sr_data := take (Suc i) ?d @ bs @ drop (Suc i + length bs) ?d\<rparr>)"
    using Cons.IH [of ?st "Suc i"] Cons.prems by simp
  moreover have "take (Suc i) ?d = take i (sr_data st) @ [b]"
    using Cons.prems by (simp add: take_update_last)
  ultimately show ?case by (simp add: add.assoc)
qed simp

text \<open>The address, most significant byte first, and the number of its bytes.\<close>

definition be_addr :: "u8 list \<Rightarrow> ulong" where
  "be_addr bs = foldl (\<lambda>a b. push_bit 8 a + ucast b) 0 bs"

definition srec_naddr :: "char \<Rightarrow> nat" where
  "srec_naddr v = (if v = CHR ''3'' \<or> v = CHR ''7'' then 4 else if v = CHR ''2'' \<or> v = CHR ''8'' then 3 else 2)"

lemma addr_next_at:
  "take 2 (drop (sr_input st) buf) = hex_byte b \<Longrightarrow>
   srec_byte buf addr_next st = Some (None, st\<lparr>sr_addr := push_bit 8 (sr_addr st) + ucast b,
     sr_chksum := sr_chksum st + b, sr_input := sr_input st + 2\<rparr>)"
  by (simp add: srec_byte_at addr_next_def)

lemma addr_first_at:
  "take 2 (drop (sr_input st) buf) = hex_byte b \<Longrightarrow>
   srec_byte buf addr_first st = Some (None, st\<lparr>sr_addr := sr_addr st + ucast b,
     sr_chksum := sr_chksum st + b, sr_input := sr_input st + 2\<rparr>)"
  by (simp add: srec_byte_at addr_first_def)

lemma srec_address_at:
  assumes "bytes_at buf (sr_input st) ab" and "length ab = srec_naddr v" and "sr_addr st = 0"
  shows "srec_address buf v st = Some (None, st\<lparr>sr_addr := be_addr ab,
     sr_chksum := sr_chksum st + sum_list ab, sr_input := sr_input st + 2 * length ab\<rparr>)"
proof -
  consider (4) "v = CHR ''3'' \<or> v = CHR ''7''" | (3) "v = CHR ''2'' \<or> v = CHR ''8''"
    | (2) "v \<notin> {CHR ''3'', CHR ''7'', CHR ''2'', CHR ''8''}" by auto
  then show ?thesis
  proof cases
    case 4
    then obtain a b c d where "ab = [a, b, c, d]"
      using assms(2) by (auto simp: srec_naddr_def numeral_eq_Suc length_Suc_conv)
    then show ?thesis using assms 4
      by (auto simp: srec_address_def addr_next_at addr_first_at be_addr_def algebra_simps numeral_eq_Suc)
  next
    case 3
    then obtain a b c where "ab = [a, b, c]"
      using assms(2) by (auto simp: srec_naddr_def numeral_eq_Suc length_Suc_conv)
    then show ?thesis using assms 3
      by (auto simp: srec_address_def addr_next_at be_addr_def algebra_simps numeral_eq_Suc)
  next
    case 2
    then have n: "srec_naddr v = 2" by (auto simp: srec_naddr_def)
    then obtain a b where "ab = [a, b]"
      using assms(2) by (auto simp: numeral_eq_Suc length_Suc_conv)
    then show ?thesis using assms(1,3) 2
      by (auto simp: srec_address_def addr_next_at be_addr_def algebra_simps numeral_eq_Suc)
  qed
qed

section \<open>Whole records\<close>

text \<open>A record as text: type, count, address, data, and the checksum byte \<open>ck\<close>.\<close>

definition srec_body :: "u8 list \<Rightarrow> u8 list \<Rightarrow> u8 list" where
  "srec_body ab d = word_of_nat (length ab + length d + 1) # ab @ d"

definition srec_line :: "char \<Rightarrow> u8 list \<Rightarrow> u8 list \<Rightarrow> u8 \<Rightarrow> string" where
  "srec_line v ab d ck = CHR ''S'' # v # concat (map hex_byte (srec_body ab d @ [ck]))"

lemma srec_skip_prefix:
  "CHR ''S'' \<notin> set pre \<Longrightarrow> CHR 0x00 \<notin> set pre \<Longrightarrow> drop p buf = pre @ CHR ''S'' # post \<Longrightarrow>
   srec_skip buf p = Some (p + length pre + 1)"
proof (induction pre arbitrary: p)
  case Nil
  then have "p < length buf" "buf ! p = CHR ''S''"
    by (metis drop_all list.distinct(1) not_le append_Nil, metis append_Nil drop_all leI list.distinct(1) nth_via_drop)
  then show ?case by (simp add: srec_skip.simps [of buf p])
next
  case (Cons c pre)
  then have "p < length buf" "buf ! p = c" "drop (Suc p) buf = pre @ CHR ''S'' # post"
    by (metis append_Cons drop_all leI list.distinct(1), metis append_Cons nth_via_drop,
        metis append_Cons drop_Suc list.sel(3) tl_drop)
  then show ?case using Cons by (auto simp: srec_skip.simps [of buf p])
qed

lemma srec_type_count:
  assumes "v \<in> set ''0123789''"
  shows "\<exists>ty. srec_type v n = Some (ty, n - 1 - int (srec_naddr v)) \<and> 0 \<le> ty \<and> ty = of_char v - 48"
  using assms by (auto simp: srec_type_def srec_naddr_def srec_codes)

text \<open>
  C25: Decoding.  Take any line made of text without \<^verbatim>\<open>'S'\<close>, a record of a type other than 5 with
  its address and data bytes written in hexadecimal, a checksum byte and any text.  When that byte
  is the complement of the sum of count, address and data, \<open>srec_decode\<close> returns the record type,
  and stores the number of data bytes, the address, and the data in the caller's buffer, whose
  rest is unchanged; with any other checksum byte it returns \<open>SREC_E_BADCHKS\<close>.
\<close>

theorem srec_decode_line:
  assumes "CHR ''S'' \<notin> set pre" and "CHR 0x00 \<notin> set pre" and v: "v \<in> set ''0123789''"
    and ab: "length ab = srec_naddr v" and small: "length ab + length d < 255" and fit: "length d \<le> length data0"
  shows "\<exists>st. srec_decode (pre @ srec_line v ab d ck @ post) c0 a0 data0 =
      Some (Some (if ck = NOT (sum_list (srec_body ab d)) then of_char v - 48 else SREC_E_BADCHKS), st) \<and>
    sr_count st = int (length d) \<and> sr_addr st = be_addr ab \<and> sr_data st = d @ drop (length d) data0"
proof -
  let ?buf = "pre @ srec_line v ab d ck @ post"
  let ?p = "length pre + 1"
  let ?cnt = "word_of_nat (length ab + length d + 1) :: u8"
  have dr: "drop (length pre) ?buf = [] @ CHR ''S'' # v # concat (map hex_byte (srec_body ab d @ [ck])) @ post"
    by (simp add: srec_line_def)
  have skip: "srec_skip ?buf 0 = Some ?p"
    using srec_skip_prefix [of pre 0 ?buf] assms(1,2) dr by (simp add: srec_line_def)
  have body: "drop (?p + 1) ?buf = concat (map hex_byte (srec_body ab d @ [ck])) @ post"
    by (simp add: srec_line_def)
  then have at: "bytes_at ?buf (?p + 1) (srec_body ab d @ [ck])" by (rule bytes_at_concat)
  have v0: "?buf ! ?p = v" "?p < length ?buf" "v \<noteq> CHR 0x00"
    using v by (auto simp: srec_line_def nth_append)
  have ucnt: "unat ?cnt = length ab + length d + 1" by (subst unat_of_nat) (use small in simp)
  have "hex2_bin ?buf (Suc ?p) = Some (int (unat ?cnt))"
    using at by (intro hex2_bin_byte) (simp add: srec_body_def)
  then have cnt: "hex2_bin ?buf (Suc ?p) = Some (int (length ab + length d + 1))"
    unfolding ucnt .
  have woc: "word_of_int (int (length ab + length d + 1)) = ?cnt" by simp
  obtain ty where ty: "srec_type v (int (length ab + length d + 1)) = Some (ty, int (length d))"
      "ty = of_char v - 48"
    using srec_type_count [OF v, of "int (length ab + length d + 1)"] ab by auto
  let ?st = "\<lparr>sr_input = ?p + 3, sr_chksum = ?cnt, sr_count = int (length d), sr_addr = 0, sr_data = data0\<rparr>"
  have at2: "bytes_at ?buf (?p + 3) ab" "bytes_at ?buf (?p + 3 + 2 * length ab) d"
      "bytes_at ?buf (?p + 3 + 2 * length ab + 2 * length d) [ck]"
    using at by (simp_all add: srec_body_def bytes_at_append numeral_eq_Suc)
  let ?st2 = "?st\<lparr>sr_addr := be_addr ab, sr_chksum := ?cnt + sum_list ab, sr_input := ?p + 3 + 2 * length ab\<rparr>"
  have a: "srec_address ?buf v ?st = Some (None, ?st2)"
    using srec_address_at [of ?buf ?st ab v] at2(1) ab by simp
  let ?st3 = "?st2\<lparr>sr_chksum := ?cnt + sum_list ab + sum_list d,
     sr_input := ?p + 3 + 2 * length ab + 2 * length d, sr_data := d @ drop (length d) data0\<rparr>"
  have b: "srec_data ?buf 0 (length d) ?st2 = Some (None, ?st3)"
    using srec_data_at [of ?buf ?st2 d 0] at2(2) fit by simp
  have c: "hex2_bin ?buf (?p + 3 + 2 * length ab + 2 * length d) = Some (int (unat ck))"
    using at2(3) by (intro hex2_bin_byte) simp
  have sum: "sum_list (srec_body ab d) = ?cnt + sum_list ab + sum_list d"
    by (simp only: srec_body_def sum_list.Cons sum_list_append add.assoc)
  have fin: "srec_finish ?buf ty ?st3 =
      Some (Some (if ck = NOT (sum_list (srec_body ab d)) then ty else SREC_E_BADCHKS), ?st3)"
    using c by (simp add: srec_finish_def sum)
  have "srec_decode ?buf c0 a0 data0 = and_then (srec_address ?buf v ?st) (\<lambda>st.
      and_then (srec_data ?buf 0 (length d) st) (srec_finish ?buf ty))"
    unfolding srec_decode_def skip using v0 cnt ty woc by (simp add: Let_def numeral_eq_Suc del: of_nat_add)
  also have "\<dots> = Some (Some (if ck = NOT (sum_list (srec_body ab d)) then ty else SREC_E_BADCHKS), ?st3)"
    by (simp only: a and_then.simps b fin)
  finally show ?thesis using ty(2) by (intro exI [of _ ?st3]) simp
qed

theorem srec_decode_line_witness:
  "\<exists>st. srec_decode (''x'' @ srec_line CHR ''1'' [0x12, 0x34] [0xAB] 0x0A @ [CHR 0x00]) 0 0 [0, 7] = Some (Some 1, st) \<and>
     sr_count st = 1 \<and> sr_addr st = 0x1234 \<and> sr_data st = [0xAB, 7]"
  using srec_decode_line [of "''x''" "CHR ''1''" "[0x12, 0x34]" "[0xAB]" "[0, 7]" "0x0A" "[CHR 0x00]" 0 0]
  by (simp add: srec_naddr_def srec_body_def be_addr_def)

section \<open>Any input\<close>

lemma srec_skip_stop:
  "p \<le> k \<Longrightarrow> k < length buf \<Longrightarrow> buf ! k = CHR 0x00 \<Longrightarrow>
   \<exists>q. srec_skip buf p = Some q \<and> q \<le> k \<and> p \<le> q"
proof (induction buf p rule: srec_skip.induct)
  case (1 buf p)
  show ?case
  proof (cases "buf ! p = CHR 0x00 \<or> buf ! p = CHR ''S''")
    case True
    then show ?thesis using "1.prems" by (auto simp: srec_skip.simps [of buf p] intro!: Suc_leI dest: le_neq_implies_less)
  next
    case False
    then have "Suc p \<le> k" using "1.prems" by (metis Suc_leI le_neq_implies_less)
    then show ?thesis using "1.IH" [of "buf ! p"] False "1.prems" by (fastforce simp: srec_skip.simps [of buf p])
  qed
qed

lemma hex2_bin_stop:
  assumes "s \<le> k" and "k < length buf" and "buf ! k = CHR 0x00"
  shows "\<exists>v. hex2_bin buf s = Some v \<and> v < 256 \<and> (0 \<le> v \<longrightarrow> s + 2 \<le> k)"
proof -
  have nul: "hex1_bin (CHR 0x00) < 0" by (simp add: hex1_bin_def less_eq_char_def)
  consider "s = k" | "Suc s = k" | "s + 2 \<le> k" using assms(1) by linarith
  then have "\<exists>v. hex2_bin buf s = Some v \<and> (0 \<le> v \<longrightarrow> s + 2 \<le> k)"
    by cases (use assms nul in \<open>auto simp: hex2_bin_def Let_def\<close>)
  then show ?thesis using hex2_bin_bound by blast
qed

text \<open>
  What holds throughout a call: the input pointer has not passed the NUL at \<open>k\<close>, and the data
  buffer keeps its length.  A step is safe when it returns and keeps this.
\<close>

definition srec_ok :: "nat \<Rightarrow> nat \<Rightarrow> srec \<Rightarrow> bool" where
  "srec_ok k n st \<longleftrightarrow> sr_input st \<le> k \<and> length (sr_data st) = n"

definition srec_safe :: "nat \<Rightarrow> nat \<Rightarrow> srec_flow \<Rightarrow> bool" where
  "srec_safe k n r \<longleftrightarrow> (case r of None \<Rightarrow> False | Some (_, st) \<Rightarrow> srec_ok k n st)"

lemma and_then_safe:
  "srec_safe k n r \<Longrightarrow> (\<And>st. srec_ok k n st \<Longrightarrow> srec_safe k n (f st)) \<Longrightarrow> srec_safe k n (and_then r f)"
  by (cases "(r, f)" rule: and_then.cases) (auto simp: srec_safe_def)

lemma and_then_returns: "(\<And>st1 st2. f st1 \<noteq> Some (None, st2)) \<Longrightarrow> and_then r f \<noteq> Some (None, st)"
  by (cases "(r, f)" rule: and_then.cases) auto

lemma srec_byte_safe:
  assumes "k < length buf" and "buf ! k = CHR 0x00" and st: "srec_ok k n st"
    and f: "\<And>v. \<exists>st'. f v st = Some st' \<and> sr_input st' = sr_input st \<and> length (sr_data st') = n"
  shows "srec_safe k n (srec_byte buf f st)"
proof -
  obtain v where v: "hex2_bin buf (sr_input st) = Some v" "0 \<le> v \<longrightarrow> sr_input st + 2 \<le> k"
    using hex2_bin_stop [of "sr_input st" k buf] assms by (auto simp: srec_ok_def)
  obtain st' where "f (word_of_int v) st = Some st'" "length (sr_data st') = n" using f by blast
  then show ?thesis using v st by (auto simp: srec_byte_def srec_safe_def srec_ok_def)
qed

lemma addr_byte_safe:
  "k < length buf \<Longrightarrow> buf ! k = CHR 0x00 \<Longrightarrow> srec_ok k n st \<Longrightarrow> f = addr_first \<or> f = addr_next \<Longrightarrow>
   srec_safe k n (srec_byte buf f st)"
  by (rule srec_byte_safe) (auto simp: addr_first_def addr_next_def srec_ok_def)

lemma srec_address_safe:
  assumes "k < length buf" and "buf ! k = CHR 0x00" and "srec_ok k n st"
  shows "srec_safe k n (srec_address buf v st)"
  unfolding srec_address_def
  by (intro and_then_safe) (use assms in \<open>auto intro!: addr_byte_safe simp: srec_safe_def [of k n "Some _"]\<close>)

lemma srec_data_safe:
  "k < length buf \<Longrightarrow> buf ! k = CHR 0x00 \<Longrightarrow> srec_ok k n st \<Longrightarrow> i + j \<le> n \<Longrightarrow> srec_safe k n (srec_data buf i j st)"
proof (induction j arbitrary: i st)
  case (Suc j)
  show ?case unfolding srec_data.simps
    by (intro and_then_safe srec_byte_safe Suc.IH) (use Suc.prems in \<open>auto simp: data_store_def srec_ok_def\<close>)
qed (simp add: srec_safe_def)

text \<open>
  C26: On any NUL-terminated line, and with an output buffer of 255 bytes (\<open>SREC_MAXBINLEN\<close>),
  \<open>srec_decode\<close> returns a code, reads no character after the terminator and writes no byte
  outside the buffer.
\<close>

theorem srec_decode_memory_safe:
  assumes "CHR 0x00 \<in> set buf" and "255 \<le> length data0"
  shows "\<exists>r st. srec_decode buf c0 a0 data0 = Some (Some r, st) \<and> length (sr_data st) = length data0"
proof -
  obtain k where k: "k < length buf" "buf ! k = CHR 0x00" using assms(1) by (auto simp: in_set_conv_nth)
  let ?n = "length data0"
  obtain p where p: "srec_skip buf 0 = Some p" "p \<le> k" using srec_skip_stop [of 0 k buf] k by auto
  show ?thesis
  proof (cases "buf ! p = CHR 0x00")
    case True
    then show ?thesis using p k by (simp add: srec_decode_def)
  next
    case False
    then have "Suc p \<le> k" using p k by (metis Suc_leI le_neq_implies_less)
    then obtain cnt where cnt: "hex2_bin buf (Suc p) = Some cnt" "cnt < 256" "0 \<le> cnt \<longrightarrow> Suc p + 2 \<le> k"
      using hex2_bin_stop k by blast
    show ?thesis
    proof (cases "cnt < 0 \<or> srec_type (buf ! p) cnt = None")
      case True
      then show ?thesis using False p k cnt by (auto simp: srec_decode_def Let_def)
    next
      case go: False
      then obtain ty m where ty: "srec_type (buf ! p) cnt = Some (ty, m)" by auto
      then have m: "m < 255" using cnt(2) by (auto simp: srec_type_def split: if_splits)
      let ?st = "\<lparr>sr_input = p + 3, sr_chksum = word_of_int cnt, sr_count = m, sr_addr = 0, sr_data = data0\<rparr>"
      let ?run = "and_then (srec_address buf (buf ! p) ?st) (\<lambda>st.
          and_then (srec_data buf 0 (nat m) st) (srec_finish buf ty))"
      have fin: "srec_safe k ?n (srec_finish buf ty st)" if "srec_ok k ?n st" for st
        using hex2_bin_stop [of "sr_input st" k buf] that k by (auto simp: srec_safe_def srec_finish_def srec_ok_def)
      have "srec_safe k ?n ?run"
        by (intro and_then_safe srec_address_safe srec_data_safe fin)
          (use k m cnt go assms(2) in \<open>auto simp: srec_ok_def\<close>)
      moreover have "srec_decode buf c0 a0 data0 = ?run"
        using False go p k cnt ty by (simp add: srec_decode_def Let_def)
      moreover have "?run \<noteq> Some (None, st)" for st
        by (intro and_then_returns) (simp add: srec_finish_def bind_Some_iff)
      ultimately show ?thesis
        by (cases ?run; cases "fst (the ?run)") (auto simp: srec_safe_def srec_ok_def, metis)
    qed
  qed
qed

theorem srec_decode_memory_safe_witness:
  "\<exists>r st. srec_decode (''S1FF'' @ [CHR 0x00]) 0 0 (replicate 255 0) = Some (Some r, st) \<and> length (sr_data st) = 255"
  using srec_decode_memory_safe [of "''S1FF'' @ [CHR 0x00]" "replicate 255 0" 0 0] by auto

end
