(* ===== verification/Crc.thy ===== *)
theory Crc
  imports CrcTable
begin

text \<open>
  The cyclic redundancy checks: \<^verbatim>\<open>lib_generic/crc32.c\<close> (images, the environment, JFFS2), its
  two copies \<^verbatim>\<open>infotm/strategy/burn/sparse_crc32.c\<close> (sparse images) and
  \<^verbatim>\<open>infotm/drivers/secure/crc32.c\<close> (the software engine behind the hash module), and
  \<^verbatim>\<open>lib_generic/crc16.c\<close>.  The reference is the shift register of the comment above
  \<open>make_crc_table\<close>, one bit at a time.
\<close>

section \<open>The loops\<close>

text \<open>The macro \<open>DO1\<close>, over one of the tables; \<open>DO8\<close> is eight of them.\<close>

definition crc_DO1 :: "u32 list \<Rightarrow> u32 \<Rightarrow> u8 \<Rightarrow> u32 option" where
  "crc_DO1 tab crc b = do {
     t \<leftarrow> rd tab (unat ((crc XOR ucast b) AND 0xff));
     Some (t XOR drop_bit 8 crc) }"

fun crc_DOn :: "u32 list \<Rightarrow> u32 \<Rightarrow> u8 list \<Rightarrow> nat \<Rightarrow> nat \<Rightarrow> u32 option" where
  "crc_DOn tab crc buf p 0 = Some crc"
| "crc_DOn tab crc buf p (Suc n) = do {
     b \<leftarrow> rd buf p;
     crc' \<leftarrow> crc_DO1 tab crc b;
     crc_DOn tab crc' buf (Suc p) n }"

text \<open>The two loops of \<open>crc32\<close>: eight bytes at a time, then the last \<open>len\<close> one by one.\<close>

fun crc_loop :: "u32 list \<Rightarrow> u32 \<Rightarrow> u8 list \<Rightarrow> nat \<Rightarrow> nat \<Rightarrow> u32 option" where
  "crc_loop tab crc buf p len =
     (if 8 \<le> len
      then do { crc' \<leftarrow> crc_DOn tab crc buf p 8; crc_loop tab crc' buf (p + 8) (len - 8) }
      else crc_DOn tab crc buf p len)"

declare crc_loop.simps [simp del]

definition crc32 :: "u32 \<Rightarrow> u8 list \<Rightarrow> u32 \<Rightarrow> u32 option" where
  "crc32 crc buf len = do {
     crc' \<leftarrow> crc_loop crc_table (crc XOR 0xffffffff) buf 0 (unat len);
     Some (crc' XOR 0xffffffff) }"

definition crc32_no_comp :: "u32 \<Rightarrow> u8 list \<Rightarrow> u32 \<Rightarrow> u32 option" where
  "crc32_no_comp crc buf len = crc_loop crc_table crc buf 0 (unat len)"

text \<open>
  \<open>crc32_wd\<close>, with a watchdog: pieces of \<open>chunk_sz\<close> bytes.  A chunk size of 0 makes no progress:
  the loop does not end.  Every call of the repository passes a positive constant.
\<close>

partial_function (option) crc32_wd_loop :: "u32 \<Rightarrow> u8 list \<Rightarrow> u32 \<Rightarrow> u32 option" where [code]:
  "crc32_wd_loop crc buf chunk_sz =
     (if buf = [] then Some crc
      else
        let chunk = min (length buf) (unat chunk_sz) in
        do {
          crc' \<leftarrow> crc32 crc buf (word_of_nat chunk);
          crc32_wd_loop crc' (drop chunk buf) chunk_sz })"

definition crc32_wd :: "bool \<Rightarrow> u32 \<Rightarrow> u8 list \<Rightarrow> u32 \<Rightarrow> u32 \<Rightarrow> u32 option" where
  "crc32_wd watchdog crc buf len chunk_sz =
     (if watchdog
      then if unat len \<le> length buf then crc32_wd_loop crc (take (unat len) buf) chunk_sz else None
      else crc32 crc buf len)"

definition sparse_crc32 :: "u32 \<Rightarrow> u8 list \<Rightarrow> nat \<Rightarrow> u32 option" where
  "sparse_crc32 crc_in buf sz = do {
     crc \<leftarrow> crc_DOn crc32_tab (crc_in XOR NOT 0) buf 0 sz;
     Some (crc XOR NOT 0) }"

text \<open>The software engine of the hash module: the state is the global \<open>g_crc\<close>.\<close>

definition crc32_init :: "u32 \<Rightarrow> u32" where
  "crc32_init len = 0 XOR 0xffffffff"

definition crc32_data :: "u32 \<Rightarrow> u8 list \<Rightarrow> u32 \<Rightarrow> u32 option" where
  "crc32_data g_crc buf len = crc_loop secure_crc_table g_crc buf 0 (unat len)"

definition crc32_value :: "u32 \<Rightarrow> u32" where
  "crc32_value g_crc = g_crc XOR 0xffffffff"

fun cyg_crc16_loop :: "u16 \<Rightarrow> u8 list \<Rightarrow> nat \<Rightarrow> nat \<Rightarrow> u16 option" where
  "cyg_crc16_loop cksum buf p 0 = Some cksum"
| "cyg_crc16_loop cksum buf p (Suc n) = do {
     b \<leftarrow> rd buf p;
     t \<leftarrow> rd crc16_tab (unat ((drop_bit 8 cksum XOR ucast b) AND 0xff));
     cyg_crc16_loop (t XOR push_bit 8 cksum) buf (Suc p) n }"

definition cyg_crc16 :: "u8 list \<Rightarrow> nat \<Rightarrow> u16 option" where
  "cyg_crc16 buf len = cyg_crc16_loop 0 buf 0 len"

section \<open>The shift register\<close>

text \<open>One byte into the register: the reference for the macro \<open>DO1\<close>.\<close>

definition crc_step :: "u32 \<Rightarrow> u8 \<Rightarrow> u32" where
  "crc_step crc b = (crc_shift ^^ 8) (crc XOR ucast b)"

lemma crc_shift_xor: "crc_shift (a XOR b) = crc_shift a XOR crc_shift b"
  by (simp add: crc_shift_bit bit_xor_iff) (auto intro!: bit_eqI simp: bit_simps)

lemma crc_shift_pow_xor: "(crc_shift ^^ n) (a XOR b) = (crc_shift ^^ n) a XOR (crc_shift ^^ n) b"
  by (induction n) (simp_all add: crc_shift_xor)

text \<open>While only zeros are shifted out, the register is just shifted.\<close>

lemma crc_shift_pow_high: "(\<And>i. i < n \<Longrightarrow> \<not> bit c i) \<Longrightarrow> (crc_shift ^^ n) c = drop_bit n c"
proof (induction n)
  case (Suc n)
  then have "(crc_shift ^^ n) c = drop_bit n c" "\<not> bit (drop_bit n c) 0"
    by (auto simp: bit_drop_bit_eq)
  then have "(crc_shift ^^ Suc n) c = crc_shift (drop_bit n c)" by simp
  also have "\<dots> = drop_bit 1 (drop_bit n c)" using \<open>\<not> bit (drop_bit n c) 0\<close> by (subst crc_shift_bit) simp
  finally show ?case by simp
qed simp

lemma crc_DO1_step: "tab = crc_table \<Longrightarrow> crc_DO1 tab crc b = Some (crc_step crc b)"
proof -
  assume tab: "tab = crc_table"
  let ?x = "crc XOR ucast b"
  let ?i = "unat (?x AND 0xff)"
  have ff: "(0xff :: u32) = mask 8" by (simp add: mask_eq_exp_minus_1)
  have lt: "?i < 256"
  proof -
    have "?x AND 0xff = take_bit 8 ?x" by (simp add: take_bit_eq_mask mask_eq_exp_minus_1)
    then have "?i = take_bit 8 (unat ?x)" by (simp only: unsigned_take_bit_eq)
    then show ?thesis by (simp add: take_bit_eq_mod)
  qed
  have "crc_table ! ?i = (crc_shift ^^ 8) (?x AND 0xff)"
    using lt by (simp add: crc_table_made make_crc_table_def)
  moreover have "drop_bit 8 crc = (crc_shift ^^ 8) (?x AND NOT 0xff)"
  proof -
    have "\<not> bit (?x AND NOT 0xff) i" if "i < 8" for i
      using that by (simp add: ff bit_simps)
    then have "(crc_shift ^^ 8) (?x AND NOT 0xff) = drop_bit 8 (?x AND NOT 0xff)"
      by (rule crc_shift_pow_high)
    also have "\<dots> = drop_bit 8 crc"
      by (rule bit_word_eqI) (auto simp: ff bit_simps dest: bit_imp_le_length)
    finally show ?thesis by simp
  qed
  moreover have "(?x AND 0xff) XOR (?x AND NOT 0xff) = ?x"
    by (rule bit_word_eqI) (auto simp: bit_simps)
  ultimately show ?thesis
    using lt tab by (simp add: crc_DO1_def crc_step_def flip: crc_shift_pow_xor)
qed

lemma crc_DOn_step:
  "tab = crc_table \<Longrightarrow> p + n \<le> length buf \<Longrightarrow> crc_DOn tab crc buf p n = Some (foldl crc_step crc (take n (drop p buf)))"
proof (induction n arbitrary: crc p)
  case (Suc n)
  then have "take (Suc n) (drop p buf) = buf ! p # take n (drop (Suc p) buf)"
    by (simp add: Cons_nth_drop_Suc [symmetric])
  then show ?case using Suc by (simp add: crc_DO1_step)
qed simp

lemma crc_loop_step:
  "tab = crc_table \<Longrightarrow> p + n \<le> length buf \<Longrightarrow> crc_loop tab crc buf p n = Some (foldl crc_step crc (take n (drop p buf)))"
proof (induction tab crc buf p n rule: crc_loop.induct)
  case (1 tab crc buf p len)
  show ?case
  proof (cases "8 \<le> len")
    case True
    have split: "take len (drop p buf) = take 8 (drop p buf) @ take (len - 8) (drop (p + 8) buf)"
      using True by (metis add.commute drop_drop le_add_diff_inverse take_add)
    show ?thesis
      using "1.IH" [OF True, of "foldl crc_step crc (take 8 (drop p buf))"] "1.prems" True
      by (subst crc_loop.simps) (simp add: crc_DOn_step split)
  next
    case False
    then show ?thesis using "1.prems" by (subst crc_loop.simps) (simp add: crc_DOn_step)
  qed
qed

section \<open>The register loses nothing\<close>

text \<open>
  The top bit of the shifted register tells what was shifted out, so a step can be undone: two
  messages of the same length that differ in one byte have different sums.
\<close>

lemma xor_cancel: "(a XOR c = b XOR c) = (a = b)" "(c XOR a = c XOR b) = (a = b)" for a b c :: "'a::len word"
  by (metis bit.xor_left_self xor.commute)+

lemma crc_shift_inj: "crc_shift a = crc_shift b \<Longrightarrow> a = b"
proof -
  assume eq: "crc_shift a = crc_shift b"
  have top: "bit (crc_shift c) 31 = bit c 0" for c
    using bit_imp_le_length [of c 32] by (auto simp: crc_shift_bit bit_simps bit_numeral_rec)
  have b0: "bit a 0 = bit b 0" using top [of a] top [of b] eq by simp
  then have d: "drop_bit 1 a = drop_bit 1 b"
    using eq by (cases "bit a 0") (simp_all add: crc_shift_bit xor_cancel)
  show ?thesis
  proof (rule bit_word_eqI)
    fix n show "bit a n = bit b n"
    proof (cases n)
      case (Suc k)
      then show ?thesis using arg_cong [OF d, of "\<lambda>x. bit x k"] by (simp add: bit_drop_bit_eq)
    qed (use b0 in simp)
  qed
qed

lemma crc_shift_pow_inj: "(crc_shift ^^ n) a = (crc_shift ^^ n) b \<Longrightarrow> a = b"
  by (induction n) (auto dest: crc_shift_inj)

lemma crc_step_inj: "crc_step a x = crc_step b y \<longleftrightarrow> a XOR ucast x = b XOR ucast y"
  by (auto simp: crc_step_def dest: crc_shift_pow_inj)

lemma ucast_u8_inj: "((ucast x :: u32) = ucast y) = (x = y)" for x y :: u8
proof
  assume "(ucast x :: u32) = ucast y"
  then have "unat (ucast x :: u32) = unat (ucast y :: u32)" by simp
  then show "x = y"
    using unat_u8_lt [of x] unat_u8_lt [of y] by (simp add: unsigned_ucast_eq take_bit_eq_mod word_unat_eq_iff)
qed simp

lemma crc_bytes_inj_state: "foldl crc_step a bs = foldl crc_step b bs \<longleftrightarrow> a = b"
  by (induction bs arbitrary: a b) (simp_all add: crc_step_inj xor_cancel)

lemma crc_bytes_one_change:
  "x \<noteq> y \<Longrightarrow> foldl crc_step c (as @ x # bs) \<noteq> foldl crc_step c (as @ y # bs)"
  by (simp add: crc_bytes_inj_state crc_step_inj xor_cancel ucast_u8_inj)

section \<open>What the checks promise\<close>

definition crc_ref :: "u32 \<Rightarrow> u8 list \<Rightarrow> u32" where
  "crc_ref crc bs = foldl crc_step (crc XOR 0xffffffff) bs XOR 0xffffffff"

lemma crc32_ref: "unat len \<le> length buf \<Longrightarrow> crc32 crc buf len = Some (crc_ref crc (take (unat len) buf))"
  by (simp add: crc32_def crc_loop_step crc_ref_def)

lemma crc_ref_append: "crc_ref (crc_ref crc as) bs = crc_ref crc (as @ bs)"
  by (simp add: crc_ref_def xor.assoc)

lemma crc32_wd_loop_ref:
  "0 < unat sz \<Longrightarrow> length buf < 4294967296 \<Longrightarrow> crc32_wd_loop crc buf sz = Some (crc_ref crc buf)"
proof (induction "length buf" arbitrary: crc buf rule: less_induct)
  case less
  show ?case
  proof (cases "buf = []")
    case True
    then show ?thesis by (subst crc32_wd_loop.simps) (simp add: crc_ref_def xor.assoc)
  next
    case False
    let ?k = "min (length buf) (unat sz)"
    have k: "unat (word_of_nat ?k :: u32) = ?k"
      by (subst unat_of_nat) (use less.prems in simp)
    have "crc32 crc buf (word_of_nat ?k) = Some (crc_ref crc (take ?k buf))"
      using k by (simp add: crc32_ref)
    moreover have "crc32_wd_loop (crc_ref crc (take ?k buf)) (drop ?k buf) sz =
        Some (crc_ref (crc_ref crc (take ?k buf)) (drop ?k buf))"
      using False less.prems by (intro less.hyps) auto
    ultimately show ?thesis
      using False by (subst crc32_wd_loop.simps) (simp only: Let_def if_False bind.bind_lunit crc_ref_append append_take_drop_id)
  qed
qed

text \<open>
  C12: \<open>crc32\<close>, its watchdog variant with any positive chunk size, \<open>sparse_crc32\<close> and the software
  hash engine (\<open>crc32_init\<close>, \<open>crc32_data\<close>, \<open>crc32_value\<close>) never read outside the table or the
  buffer, and all compute the same function: the bitwise shift register of the polynomial.
\<close>

theorem crc32_implementations_agree:
  assumes "unat len \<le> length buf"
  shows "crc32 crc buf len = Some (crc_ref crc (take (unat len) buf)) \<and>
    (0 < chunk \<longrightarrow> crc32_wd wd crc buf len chunk = crc32 crc buf len) \<and>
    sparse_crc32 crc buf (unat len) = crc32 crc buf len \<and>
    map_option crc32_value (crc32_data (crc32_init n) buf len) = crc32 0 buf len"
proof (intro conjI impI)
  show 1: "crc32 crc buf len = Some (crc_ref crc (take (unat len) buf))" for crc
    by (rule crc32_ref [OF assms])
  show "crc32_wd wd crc buf len chunk = crc32 crc buf len" if "0 < chunk"
  proof -
    have "crc32_wd_loop crc (take (unat len) buf) chunk = Some (crc_ref crc (take (unat len) buf))"
      by (rule crc32_wd_loop_ref) (use that unat_word_lt [of len] in \<open>simp_all add: word_less_nat_alt\<close>)
    then show ?thesis using assms 1 by (simp add: crc32_wd_def)
  qed
  show "sparse_crc32 crc buf (unat len) = crc32 crc buf len"
  proof -
    have "(NOT 0 :: u32) = 0xffffffff" by simp
    then show ?thesis
      using assms 1 by (simp only: sparse_crc32_def crc_tables_equal) (simp add: crc_DOn_step crc_ref_def)
  qed
  show "map_option crc32_value (crc32_data (crc32_init n) buf len) = crc32 0 buf len"
    using assms 1 by (simp add: crc32_data_def crc_tables_equal crc_loop_step crc_ref_def crc32_init_def crc32_value_def)
qed

theorem crc32_implementations_agree_witness:
  "crc32 0 [0x31, 0x32] 2 = Some (crc_ref 0 [0x31, 0x32]) \<and>
   crc32_wd True 0 [0x31, 0x32] 2 1 = Some (crc_ref 0 [0x31, 0x32])"
  using crc32_implementations_agree [of 2 "[0x31, 0x32]" 0 1 True 0] by simp

text \<open>
  C27: The sum of a message can be taken in pieces, each call starting from the result of the one
  before; and two messages of the same length that differ in exactly one byte have different sums.
\<close>

theorem crc32_streaming_and_detection:
  assumes "length (as @ x # bs) < 2 ^ 32"
  shows "do { c \<leftarrow> crc32 crc as (word_of_nat (length as)); crc32 c (x # bs) (word_of_nat (length (x # bs))) } =
      crc32 crc (as @ x # bs) (word_of_nat (length (as @ x # bs))) \<and>
    (x \<noteq> y \<longrightarrow> crc32 crc (as @ x # bs) (word_of_nat (length (as @ x # bs))) \<noteq>
               crc32 crc (as @ y # bs) (word_of_nat (length (as @ y # bs))))"
proof -
  have u: "unat (word_of_nat (length zs) :: u32) = length zs" if "length zs \<le> length (as @ x # bs)" for zs :: "u8 list"
    by (subst unat_of_nat) (use assms that in simp)
  have all: "crc32 c zs (word_of_nat (length zs)) = Some (crc_ref c zs)"
    if "length zs \<le> length (as @ x # bs)" for c zs
    using u [OF that] crc32_ref [of "word_of_nat (length zs)" zs c] by simp
  have "crc32 crc as (word_of_nat (length as)) = Some (crc_ref crc as)"
    "crc32 (crc_ref crc as) (x # bs) (word_of_nat (length (x # bs))) = Some (crc_ref (crc_ref crc as) (x # bs))"
    "crc32 crc (as @ x # bs) (word_of_nat (length (as @ x # bs))) = Some (crc_ref crc (as @ x # bs))"
    "crc32 crc (as @ y # bs) (word_of_nat (length (as @ y # bs))) = Some (crc_ref crc (as @ y # bs))"
    by (rule all; simp)+
  then show ?thesis
    using crc_bytes_one_change [of x y "crc XOR 0xffffffff" as bs]
    by (simp only: bind.bind_lunit crc_ref_append option.inject) (simp add: crc_ref_def xor_cancel)
qed

theorem crc32_streaming_and_detection_witness:
  "crc32 0 [1, 2, 3] 3 \<noteq> crc32 0 [1, 9, 3] 3"
  using crc32_streaming_and_detection [of "[1]" 2 "[3]" 0 9] by simp

end
