(* ===== verification/BlockHash.thy ===== *)
theory BlockHash
  imports Prelude
begin

text \<open>
  What the three hash functions of \<^verbatim>\<open>lib_generic\<close> (SHA-256, SHA-1, MD5) share: a message is cut
  into blocks of 64 bytes, each block is folded into the state, and the bytes that do not fill a
  block wait in a buffer.  The interface \<open>stream_hash\<close> states what a client may rely on: a
  context represents the message fed to it so far, however it was cut.
\<close>

section \<open>Bytes and words\<close>

text \<open>The macros \<open>GET_UINT32_BE\<close> and \<open>PUT_UINT32_BE\<close>.\<close>

definition get_uint32_be :: "u8 list \<Rightarrow> nat \<Rightarrow> u32" where
  "get_uint32_be b i = push_bit 24 (ucast (b ! i)) OR push_bit 16 (ucast (b ! (i + 1))) OR
     push_bit 8 (ucast (b ! (i + 2))) OR ucast (b ! (i + 3))"

definition put_uint32_be :: "u32 \<Rightarrow> u8 list" where
  "put_uint32_be n = [ucast (drop_bit 24 n), ucast (drop_bit 16 n), ucast (drop_bit 8 n), ucast n]"

lemma length_put_uint32_be [simp]: "length (put_uint32_be n) = 4"
  by (simp add: put_uint32_be_def)

text \<open>The same as numbers, as the standards read the bytes of a block: big end first, and little end first.\<close>

definition be_word :: "u8 list \<Rightarrow> nat \<Rightarrow> u32" where
  "be_word b i = word_of_nat (((unat (b ! i) * 256 + unat (b ! (i + 1))) * 256 + unat (b ! (i + 2))) * 256 + unat (b ! (i + 3)))"

definition le_word :: "u8 list \<Rightarrow> nat \<Rightarrow> u32" where
  "le_word b i = word_of_nat (((unat (b ! (i + 3)) * 256 + unat (b ! (i + 2))) * 256 + unat (b ! (i + 1))) * 256 + unat (b ! i))"

lemma or_bytes:
  "push_bit 24 (ucast a) OR push_bit 16 (ucast b) OR push_bit 8 (ucast c) OR ucast d =
    (word_of_nat (((unat (a :: u8) * 256 + unat (b :: u8)) * 256 + unat (c :: u8)) * 256 + unat (d :: u8)) :: u32)"
proof -
  let ?a = "push_bit 24 (ucast a) :: u32" and ?b = "push_bit 16 (ucast b) :: u32" and ?c = "push_bit 8 (ucast c) :: u32" and ?d = "ucast d :: u32"
  have w: "(word_of_nat (unat x) :: u32) = ucast x" for x :: u8 by simp
  have "?c AND ?d = 0" "?b AND (?c OR ?d) = 0" "?a AND (?b OR ?c OR ?d) = 0"
    by (rule bit_word_eqI, auto simp: bit_simps dest: bit_imp_le_length)+
  then have "?a OR ?b OR ?c OR ?d = ?a + (?b + (?c + ?d))" by (simp add: disjunctive_add_eq_or)
  then show ?thesis by (simp add: push_bit_eq_mult w algebra_simps)
qed

lemma get_uint32_be_word: "get_uint32_be b i = be_word b i"
  by (simp only: get_uint32_be_def be_word_def or_bytes)

text \<open>
  The constants of the SHA functions are bits of roots: \<open>root_bits k n i r\<close> adds to \<open>r\<close> the \<open>i\<close> low bits of the
  \<open>k\<close>-th root of \<open>n\<close>, rounded down.
\<close>

fun root_bits :: "nat \<Rightarrow> nat \<Rightarrow> nat \<Rightarrow> nat \<Rightarrow> nat" where
  "root_bits k n 0 r = r"
| "root_bits k n (Suc i) r = root_bits k n i (if (r + 2 ^ i) ^ k \<le> n then r + 2 ^ i else r)"

lemma root_bits_eq:
  assumes "r ^ k \<le> n" and "n < (r + 1) ^ k" and "a \<le> r" and "r < a + 2 ^ i"
  shows "root_bits k n i a = r"
  using assms(3,4)
proof (induction i arbitrary: a)
  case (Suc i)
  have "x ^ k \<le> n \<longleftrightarrow> x \<le> r" for x
    using assms(1,2) power_mono [of x r k] power_mono [of "r + 1" x k] by (cases "x \<le> r") (simp_all add: not_le)
  then show ?case using Suc by simp
qed simp

text \<open>A rotation written with two shifts.\<close>

lemma rotl_shifts: "0 < n \<Longrightarrow> n < 32 \<Longrightarrow> push_bit n x OR drop_bit (32 - n) x = word_rotl n x" for x :: u32
proof (rule bit_word_eqI)
  fix m assume n: "0 < n" "n < 32" and m: "m < LENGTH(32)"
  have m: "m < 32" using m by simp
  have "bit (word_rotl n x) m = bit x ((m + (32 - n)) mod 32)"
    using m n by (simp add: bit_word_rotl_iff)
  also have "(m + (32 - n)) mod 32 = (if m < n then m + (32 - n) else m - n)"
    using n m by (auto simp: le_mod_geq)
  finally have rot: "bit (word_rotl n x) m = bit x (if m < n then m + (32 - n) else m - n)" .
  have "bit (push_bit n x OR drop_bit (32 - n) x) m = (n \<le> m \<and> bit x (m - n) \<or> bit x (32 - n + m))"
    using m by (simp add: bit_or_iff bit_push_bit_iff bit_drop_bit_eq)
  then show "bit (push_bit n x OR drop_bit (32 - n) x) m = bit (word_rotl n x) m"
    unfolding rot using n by (auto simp: add.commute dest: bit_imp_le_length)
qed

text \<open>\<open>memcpy\<close> of \<open>n\<close> bytes of \<open>src\<close> into the array \<open>dst\<close> at \<open>at\<close>, checked against both sizes.\<close>

definition copy_in :: "u8 list \<Rightarrow> nat \<Rightarrow> u8 list \<Rightarrow> nat \<Rightarrow> u8 list option" where
  "copy_in dst at src n =
     (if at + n \<le> length dst \<and> n \<le> length src
      then Some (take at dst @ take n src @ drop (at + n) dst) else None)"

lemma copy_in_Some [simp]:
  "at + n \<le> length dst \<Longrightarrow> n \<le> length src \<Longrightarrow>
   copy_in dst at src n = Some (take at dst @ take n src @ drop (at + n) dst)"
  by (simp add: copy_in_def)

section \<open>Blocks\<close>

text \<open>The state after all full blocks of a message, and the bytes left over.\<close>

fun blocks :: "('s \<Rightarrow> u8 list \<Rightarrow> 's) \<Rightarrow> 's \<Rightarrow> u8 list \<Rightarrow> 's \<times> u8 list" where
  "blocks f s bs = (if 64 \<le> length bs then blocks f (f s (take 64 bs)) (drop 64 bs) else (s, bs))"

declare blocks.simps [simp del]

lemma blocks_short: "length bs < 64 \<Longrightarrow> blocks f s bs = (s, bs)"
  by (simp add: blocks.simps)

lemma blocks_long: "64 \<le> length bs \<Longrightarrow> blocks f s bs = blocks f (f s (take 64 bs)) (drop 64 bs)"
  by (simp add: blocks.simps)

lemma blocks_append:
  "blocks f s (as @ bs) = (case blocks f s as of (s', rest) \<Rightarrow> blocks f s' (rest @ bs))"
proof (induction f s as rule: blocks.induct)
  case (1 f s as)
  show ?case
  proof (cases "64 \<le> length as")
    case True
    then show ?thesis using 1 by (simp add: blocks_long)
  qed (simp add: blocks_short)
qed

lemma blocks_rest: "length (snd (blocks f s bs)) = length bs mod 64"
proof (induction f s bs rule: blocks.induct)
  case (1 f s bs)
  show ?case
  proof (cases "64 \<le> length bs")
    case True
    then have "length bs mod 64 = (length bs - 64) mod 64" by (rule le_mod_geq)
    then show ?thesis using 1 True by (simp add: blocks_long)
  qed (simp add: blocks_short)
qed

lemma blocks_exact: "length bs = 64 \<Longrightarrow> blocks f s (bs @ cs) = blocks f (f s bs) cs"
  by (simp add: blocks_long)

lemma blocks_cong:
  "(\<And>s b. ok s \<Longrightarrow> f s b = g s b \<and> ok (f s b)) \<Longrightarrow> ok s \<Longrightarrow> blocks f s m = blocks g s m"
proof (induction f s m rule: blocks.induct)
  case (1 f s bs)
  show ?case
  proof (cases "64 \<le> length bs")
    case True
    have "f s (take 64 bs) = g s (take 64 bs)" "ok (f s (take 64 bs))" using "1.prems" by blast+
    then show ?thesis using "1.IH" [OF True "1.prems"(1)] True by (simp only: blocks_long)
  qed (simp add: blocks_short)
qed

lemma length_blocks:
  "(\<And>s b. length s = n \<Longrightarrow> length (f s b) = n) \<Longrightarrow> length s = n \<Longrightarrow> length (fst (blocks f s m)) = n"
proof (induction f s m rule: blocks.induct)
  case (1 f s bs)
  show ?case
  proof (cases "64 \<le> length bs")
    case True
    have "length (f s (take 64 bs)) = n" using "1.prems" by blast
    then show ?thesis using "1.IH" [OF True "1.prems"(1)] True by (simp only: blocks_long)
  qed (use "1.prems" in \<open>simp add: blocks_short\<close>)
qed

section \<open>The interface\<close>

fun feed :: "('c \<Rightarrow> u8 list \<Rightarrow> 'c option) \<Rightarrow> 'c \<Rightarrow> u8 list list \<Rightarrow> 'c option" where
  "feed update c [] = Some c"
| "feed update c (x # xs) = do { c' \<leftarrow> update c x; feed update c' xs }"

text \<open>A message cut into pieces of \<open>sz\<close> bytes, as the watchdog variants feed it.\<close>

function chunks :: "nat \<Rightarrow> u8 list \<Rightarrow> u8 list list" where
  "chunks sz m = (if m = [] \<or> sz = 0 then [] else take sz m # chunks sz (drop sz m))"
  by auto
termination by (relation "measure (\<lambda>(sz, m). length m)") auto

declare chunks.simps [simp del]

lemma concat_chunks: "0 < sz \<Longrightarrow> concat (chunks sz m) = m"
  by (induction sz m rule: chunks.induct) (subst chunks.simps, auto)

lemma chunks_size: "x \<in> set (chunks sz m) \<Longrightarrow> length x \<le> sz \<and> length x \<le> length m"
proof (induction sz m rule: chunks.induct)
  case (1 sz m)
  then show ?case by (cases "m = [] \<or> sz = 0") (auto simp: chunks.simps [of sz m])
qed

locale stream_hash =
  fixes rep :: "'c \<Rightarrow> u8 list \<Rightarrow> bool"
    and start :: 'c
    and update :: "'c \<Rightarrow> u8 list \<Rightarrow> 'c option"
    and finish :: "'c \<Rightarrow> u8 list option"
    and digest :: "u8 list \<Rightarrow> u8 list"
    and limit :: nat
  assumes start_law: "rep start []"
    and update_law: "rep c m \<Longrightarrow> length x < limit \<Longrightarrow> \<exists>c'. update c x = Some c' \<and> rep c' (m @ x)"
    and finish_law: "rep c m \<Longrightarrow> finish c = Some (digest m)"
begin

lemma feed_rep:
  "rep c m \<Longrightarrow> \<forall>x\<in>set xs. length x < limit \<Longrightarrow> \<exists>c'. feed update c xs = Some c' \<and> rep c' (m @ concat xs)"
proof (induction xs arbitrary: c m)
  case (Cons x xs)
  then obtain c1 where "update c x = Some c1" "rep c1 (m @ x)" using update_law by fastforce
  then show ?case using Cons.IH [of c1 "m @ x"] Cons.prems by simp
qed simp

text \<open>The digest of a message fed in any pieces is the digest of the whole.\<close>

lemma feed_digest:
  "\<forall>x\<in>set xs. length x < limit \<Longrightarrow>
   do { c \<leftarrow> feed update start xs; finish c } = Some (digest (concat xs))"
  using feed_rep [OF start_law, of xs] finish_law by auto

lemma once_digest: "length m < limit \<Longrightarrow> do { c \<leftarrow> update start m; finish c } = Some (digest m)"
  using update_law [OF start_law, of m] finish_law by auto

lemma chunked_digest:
  "0 < sz \<Longrightarrow> length m < limit \<Longrightarrow>
   do { c \<leftarrow> feed update start (chunks sz m); finish c } = Some (digest m)"
  using feed_digest [of "chunks sz m"] chunks_size [of _ sz m] by (fastforce simp: concat_chunks)

end

section \<open>The counter and the padding of the SHA functions\<close>

text \<open>
  \<open>sha1_context\<close> and \<open>sha256_context\<close>: the count of bytes in two words, the state words and the
  buffer.
\<close>

record sha_context =
  total0 :: u32
  total1 :: u32
  sha_state :: "u32 list"
  sha_buffer :: "u8 list"

text \<open>
  Buffering, with the block function as argument: the loop over full blocks, and the body of
  the update functions for a length that is not zero.
\<close>

fun sha_loop :: "(u32 list \<Rightarrow> u8 list \<Rightarrow> u32 list) \<Rightarrow> u32 list \<Rightarrow> u8 list \<Rightarrow> nat \<Rightarrow>
    (u32 list \<times> u8 list \<times> nat) option" where
  "sha_loop process st input n =
     (if 64 \<le> n
      then if 64 \<le> length input
        then sha_loop process (process st (take 64 input)) (drop 64 input) (n - 64)
        else None
      else Some (st, input, n))"

declare sha_loop.simps [simp del]

definition sha_update_body :: "(u32 list \<Rightarrow> u8 list \<Rightarrow> u32 list) \<Rightarrow> sha_context \<Rightarrow> u8 list \<Rightarrow> u32 \<Rightarrow> sha_context option" where
  "sha_update_body process ctx input len =
     (let left = unat (total0 ctx AND 0x3F);
          fill = 64 - left;
          t0 = total0 ctx + len;
          t1 = (if t0 < len then total1 ctx + 1 else total1 ctx) in
      do {
        (st, buf, input, n, left) \<leftarrow>
          (if left \<noteq> 0 \<and> fill \<le> unat len
           then do {
             buf \<leftarrow> copy_in (sha_buffer ctx) left input fill;
             Some (process (sha_state ctx) buf, buf, drop fill input, unat len - fill, 0) }
           else Some (sha_state ctx, sha_buffer ctx, input, unat len, left));
        (st, input, n) \<leftarrow> sha_loop process st input n;
        buf \<leftarrow> (if n \<noteq> 0 then copy_in buf left input n else Some buf);
        Some \<lparr>total0 = t0, total1 = t1, sha_state = st, sha_buffer = buf\<rparr> })"

definition sha_padding :: "u8 list" where
  "sha_padding = 0x80 # replicate 63 0"

text \<open>The message length in bits, as the eight bytes that end the padding.\<close>

definition sha_msglen :: "sha_context \<Rightarrow> u8 list" where
  "sha_msglen ctx =
     (let high = drop_bit 29 (total0 ctx) OR push_bit 3 (total1 ctx);
          low = push_bit 3 (total0 ctx) in
      put_uint32_be high @ put_uint32_be low)"

definition sha_padn :: "sha_context \<Rightarrow> u32" where
  "sha_padn ctx = (let last = total0 ctx AND 0x3F in if last < 56 then 56 - last else 120 - last)"

section \<open>The message a context represents\<close>

definition sha_rep :: "(u32 list \<Rightarrow> u8 list \<Rightarrow> u32 list) \<Rightarrow> u32 list \<Rightarrow> sha_context \<Rightarrow> u8 list \<Rightarrow> bool" where
  "sha_rep process iv ctx m \<longleftrightarrow>
     (unat (total0 ctx) + 4294967296 * unat (total1 ctx)) mod 18446744073709551616
       = length m mod 18446744073709551616 \<and>
     length (sha_buffer ctx) = 64 \<and>
     blocks process iv m = (sha_state ctx, take (length m mod 64) (sha_buffer ctx))"

lemma sha_loop_ok:
  "n \<le> length input \<Longrightarrow> \<exists>st' input' n'. sha_loop process st input n = Some (st', input', n') \<and>
     n' < 64 \<and> n' \<le> length input' \<and> blocks process st (take n input) = (st', take n' input')"
proof (induction process st input n rule: sha_loop.induct)
  case (1 process st input n)
  show ?case
  proof (cases "64 \<le> n")
    case True
    then have "blocks process st (take n input)
        = blocks process (process st (take 64 input)) (take (n - 64) (drop 64 input))"
      using "1.prems" by (simp add: blocks_long drop_take min_def)
    then show ?thesis using 1 True by (simp add: sha_loop.simps [of process st input n])
  qed (use "1.prems" in \<open>simp add: sha_loop.simps [of process st input n] blocks_short\<close>)
qed

lemma sha_left: "(unat t0 + 4294967296 * b) mod 18446744073709551616 = k mod 18446744073709551616 \<Longrightarrow>
    unat (t0 AND 0x3F) = k mod 64" for t0 :: u32
proof -
  assume eq: "(unat t0 + 4294967296 * b) mod 18446744073709551616 = k mod 18446744073709551616"
  have "t0 AND 0x3F = take_bit 6 t0" by (simp add: take_bit_eq_mask mask_eq_exp_minus_1)
  then have "unat (t0 AND 0x3F) = unat t0 mod 64" by (simp only: unsigned_take_bit_eq) (simp add: take_bit_eq_mod)
  also have "\<dots> = (unat t0 + 4294967296 * b) mod 64"
    using mod_mult_self2 [of "unat t0" 64 "67108864 * b"] by simp
  also have "\<dots> = k mod 64"
    using arg_cong [OF eq, of "\<lambda>x. x mod 64"] by (simp add: mod_mod_cancel)
  finally show ?thesis .
qed

lemma high_mod: "(a + 4294967296 * (x mod 4294967296)) mod 18446744073709551616 =
    (a + 4294967296 * x) mod (18446744073709551616 :: nat)"
proof -
  have "4294967296 * (x mod 4294967296) = (4294967296 * x) mod 18446744073709551616"
    using mult_mod_right [of 4294967296 x 4294967296] by simp
  then show ?thesis by (simp add: mod_add_right_eq)
qed

lemma sha_count:
  fixes t0 t1 len :: u32
  assumes "(unat t0 + 4294967296 * unat t1) mod 18446744073709551616 = k mod 18446744073709551616"
  shows "(unat (t0 + len) + 4294967296 * unat (if t0 + len < len then t1 + 1 else t1)) mod 18446744073709551616
     = (k + unat len) mod 18446744073709551616"
proof -
  have s: "unat (t0 + len) = (unat t0 + unat len) mod 4294967296" by (simp add: unat_word_ariths)
  have lt: "unat t0 < 4294967296" "unat len < 4294967296" by (rule unat_word_lt)+
  have c: "(t0 + len < len) = (4294967296 \<le> unat t0 + unat len)"
  proof (cases "4294967296 \<le> unat t0 + unat len")
    case True
    then have "unat (t0 + len) = unat t0 + unat len - 4294967296"
      using lt unfolding s by (subst le_mod_geq) auto
    then show ?thesis using True lt by (simp add: word_less_nat_alt)
  next
    case False
    then show ?thesis unfolding word_less_nat_alt s by simp
  qed
  show ?thesis
  proof (cases "t0 + len < len")
    case True
    have "unat (t1 + 1) = (unat t1 + 1) mod 4294967296" by (simp add: unat_word_ariths)
    moreover have "unat (t0 + len) = unat t0 + unat len - 4294967296"
      using True lt c unfolding s by (subst le_mod_geq) auto
    ultimately have "unat (t0 + len) + 4294967296 * unat (if t0 + len < len then t1 + 1 else t1)
        = (unat t0 + unat len - 4294967296) + 4294967296 * ((unat t1 + 1) mod 4294967296)"
      using True by simp
    moreover have "(unat t0 + unat len - 4294967296) + 4294967296 * (unat t1 + 1)
        = (unat t0 + 4294967296 * unat t1) + unat len"
      using True c by simp
    ultimately show ?thesis by (simp only: high_mod mod_add_cong [OF assms refl])
  next
    case False
    then have "unat (t0 + len) + 4294967296 * unat (if t0 + len < len then t1 + 1 else t1)
        = (unat t0 + 4294967296 * unat t1) + unat len"
      using c by (simp add: s)
    then show ?thesis by (simp only: mod_add_cong [OF assms refl])
  qed
qed

lemma sha_repI:
  "(unat t0 + 4294967296 * unat t1) mod 18446744073709551616 = length m mod 18446744073709551616 \<Longrightarrow>
   blocks process iv m = (st, rest) \<Longrightarrow> length buf = 64 \<Longrightarrow> rest = take (length m mod 64) buf \<Longrightarrow>
   sha_rep process iv \<lparr>total0 = t0, total1 = t1, sha_state = st, sha_buffer = buf\<rparr> m"
  by (simp add: sha_rep_def)

lemma sha_update_body_ok:
  assumes rep: "sha_rep process iv ctx m" and len: "unat len \<le> length input"
  shows "\<exists>ctx'. sha_update_body process ctx input len = Some ctx' \<and>
     sha_rep process iv ctx' (m @ take (unat len) input)"
proof -
  let ?left = "length m mod 64"
  let ?buf = "sha_buffer ctx"
  have count: "(unat (total0 ctx) + 4294967296 * unat (total1 ctx)) mod 18446744073709551616
      = length m mod 18446744073709551616"
    and buf: "length ?buf = 64" and bl: "blocks process iv m = (sha_state ctx, take ?left ?buf)"
    using rep by (simp_all add: sha_rep_def)
  have left: "unat (total0 ctx AND 0x3F) = ?left" by (rule sha_left [OF count])
  have lt: "?left < 64" by simp
  let ?t0 = "total0 ctx + len"
  let ?t1 = "if ?t0 < len then total1 ctx + 1 else total1 ctx"
  have count': "(unat ?t0 + 4294967296 * unat ?t1) mod 18446744073709551616
      = length (m @ take (unat len) input) mod 18446744073709551616"
    using sha_count [OF count, of len] len by simp
  define new where "new = take (unat len) input"
  have step: "blocks process iv (m @ new) = blocks process (sha_state ctx) (take ?left ?buf @ new)"
    using blocks_append [of process iv m new] bl by simp
  show ?thesis
  proof (cases "?left \<noteq> 0 \<and> 64 - ?left \<le> unat len")
    case True
    let ?fill = "64 - ?left"
    let ?b = "take ?left ?buf @ take ?fill input"
    have fill: "copy_in ?buf ?left input ?fill = Some ?b"
      using True buf lt len by simp
    have lb: "length ?b = 64" using True buf lt len by simp
    have "unat len - ?fill \<le> length (drop ?fill input)" using len by simp
    from sha_loop_ok [OF this, of process "process (sha_state ctx) ?b"]
    obtain st input' n where run: "sha_loop process (process (sha_state ctx) ?b) (drop ?fill input) (unat len - ?fill)
        = Some (st, input', n)" "n < 64" "n \<le> length input'"
        "blocks process (process (sha_state ctx) ?b) (take (unat len - ?fill) (drop ?fill input)) = (st, take n input')"
      by blast
    have new: "take ?left ?buf @ new = ?b @ take (unat len - ?fill) (drop ?fill input)"
    proof -
      have "?fill + (unat len - ?fill) = unat len" using True by (simp only: le_add_diff_inverse)
      then have "new = take ?fill input @ take (unat len - ?fill) (drop ?fill input)"
        unfolding new_def by (metis take_add)
      then show ?thesis by (simp only: append_assoc)
    qed
    have bl': "blocks process iv (m @ new) = (st, take n input')"
      unfolding step new blocks_exact [OF lb] by (rule run(4))
    have n: "n = length (m @ new) mod 64"
      using arg_cong [OF bl', of "\<lambda>x. length (snd x)"] run(3) by (simp add: blocks_rest)
    have "sha_update_body process ctx input len =
        Some \<lparr>total0 = ?t0, total1 = ?t1, sha_state = st, sha_buffer = take n input' @ drop n ?b\<rparr>"
      unfolding sha_update_body_def left Let_def using True fill run lb by simp
    moreover have "length (take n input' @ drop n ?b) = 64"
    proof -
      have "length (drop n ?b) = 64 - n" using lb by (metis length_drop)
      then show ?thesis using run(2,3) by (subst length_append) simp
    qed
    moreover have "take n input' = take (length (m @ new) mod 64) (take n input' @ drop n ?b)"
      unfolding n [symmetric] using run(3) by simp
    ultimately show ?thesis using sha_repI count' bl' unfolding new_def by metis
  next
    case False
    obtain st input' n where run: "sha_loop process (sha_state ctx) input (unat len) = Some (st, input', n)"
        "n < 64" "n \<le> length input'" "blocks process (sha_state ctx) new = (st, take n input')"
      using sha_loop_ok [OF len, of process "sha_state ctx"] unfolding new_def by auto
    let ?b = "take ?left ?buf @ take n input' @ drop (?left + n) ?buf"
    have fits: "?left + n < 64 \<and> blocks process iv (m @ new) = (st, take ?left ?buf @ take n input')"
    proof (cases "?left = 0")
      case True
      then show ?thesis using run step by simp
    next
      case l: False
      then have "length (take ?left ?buf @ new) < 64" "length new < 64"
        using False len buf by (auto simp: new_def)
      moreover from this run(4) have "st = sha_state ctx" "take n input' = new" by (simp_all add: blocks_short)
      ultimately show ?thesis using step run(3) buf lt by (auto simp: blocks_short)
    qed
    then have n: "?left + n = length (m @ new) mod 64"
      using run(3) buf blocks_rest [of process iv "m @ new"] by simp
    have "sha_update_body process ctx input len =
        Some \<lparr>total0 = ?t0, total1 = ?t1, sha_state = st, sha_buffer = ?b\<rparr>"
      unfolding sha_update_body_def left Let_def using False run fits buf by auto
    moreover have "length ?b = 64" using run(3) fits buf by simp
    moreover have "take (?left + n) ?b = take ?left ?buf @ take n input'" using run(3) buf lt by simp
    ultimately show ?thesis using sha_repI count' fits n unfolding new_def by metis
  qed
qed

section \<open>Padding\<close>

text \<open>
  The padded message: a byte 0x80, zeros up to 56 modulo 64, and the length in bits as a
  big-endian 64-bit number.
\<close>

definition sha_pad :: "u8 list \<Rightarrow> u8 list" where
  "sha_pad m =
     (let r = length m mod 64 in
      m @ 0x80 # replicate (if r < 56 then 55 - r else 119 - r) 0 @
      put_uint32_be (word_of_nat (8 * length m div 4294967296)) @ put_uint32_be (word_of_nat (8 * length m)))"

lemma length_sha_pad: "length (sha_pad m) mod 64 = 0"
proof -
  define r where "r = length m mod 64"
  have "r < 64" by (simp add: r_def)
  have "length (sha_pad m) = length m + (if r < 56 then 64 - r else 128 - r)"
    using \<open>r < 64\<close> by (simp add: sha_pad_def Let_def r_def [symmetric])
  then have "length (sha_pad m) mod 64 = (r + (if r < 56 then 64 - r else 128 - r)) mod 64"
    by (metis mod_add_left_eq r_def)
  then show ?thesis using \<open>r < 64\<close> by (auto split: if_splits)
qed

lemma sha_padn_bytes:
  assumes "unat (total0 ctx AND 0x3F) = length m mod 64"
  shows "take (unat (sha_padn ctx)) sha_padding =
      0x80 # replicate (if length m mod 64 < 56 then 55 - length m mod 64 else 119 - length m mod 64) 0"
    and "unat (sha_padn ctx) \<le> length sha_padding"
proof -
  define l where "l = total0 ctx AND 0x3F"
  have l: "unat l = length m mod 64" using assms by (simp add: l_def)
  have "l < 56 \<longleftrightarrow> unat l < 56" by (simp add: word_less_nat_alt)
  moreover have "unat (56 - l) = 56 - unat l" if "unat l < 56"
    using that by (subst unat_sub) (simp_all add: word_le_nat_alt)
  moreover have "unat (120 - l) = 120 - unat l" if "unat l < 64"
    using that by (subst unat_sub) (simp_all add: word_le_nat_alt)
  ultimately have n: "unat (sha_padn ctx) = (if unat l < 56 then 56 - unat l else 120 - unat l)"
    using l by (simp add: sha_padn_def Let_def flip: l_def)
  have lt: "unat l < 64" using l by simp
  show "unat (sha_padn ctx) \<le> length sha_padding" unfolding n sha_padding_def using lt by auto
  show "take (unat (sha_padn ctx)) sha_padding =
      0x80 # replicate (if length m mod 64 < 56 then 55 - length m mod 64 else 119 - length m mod 64) 0"
    unfolding n l [symmetric] sha_padding_def using lt by (auto simp: take_Cons')
qed

lemma word_of_nat_cong_u32: "a mod 4294967296 = b mod 4294967296 \<Longrightarrow> (word_of_nat a :: u32) = word_of_nat b"
  by (simp add: word_unat_eq_iff unat_of_nat)

lemma div_mod_nat: "0 < m \<Longrightarrow> x div m mod n = x mod (m * n) div m" for m :: nat
  by (simp add: mod_mult2_eq)

lemma unat_push_bit_3: "unat (push_bit 3 w) = 8 * unat w mod 4294967296" for w :: u32
  by (simp add: push_bit_eq_mult unat_word_ariths mult.commute)

lemma sha_msglen_bits:
  assumes "(unat (total0 ctx) + 4294967296 * unat (total1 ctx)) mod 18446744073709551616
     = k mod 18446744073709551616"
  shows "sha_msglen ctx = put_uint32_be (word_of_nat (8 * k div 4294967296)) @ put_uint32_be (word_of_nat (8 * k))"
proof -
  let ?a = "unat (total0 ctx)" and ?b = "unat (total1 ctx)"
  have "?a mod 4294967296 = k mod 4294967296"
    using arg_cong [OF assms, of "\<lambda>x. x mod 4294967296"] by (simp add: mod_mod_cancel)
  then have mod32: "8 * k mod 4294967296 = 8 * ?a mod 4294967296"
    by (intro mod_mult_cong) (rule refl, rule sym)
  have low: "push_bit 3 (total0 ctx) = word_of_nat (8 * k)"
  proof -
    have "push_bit 3 (total0 ctx) = word_of_nat (8 * ?a)" by (simp add: push_bit_eq_mult)
    also have "\<dots> = word_of_nat (8 * k)" by (rule word_of_nat_cong_u32) (rule mod32 [symmetric])
    finally show ?thesis .
  qed
  have disj: "drop_bit 29 (total0 ctx) AND push_bit 3 (total1 ctx) = 0"
    by (rule bit_word_eqI) (auto simp: bit_simps dest: bit_imp_le_length)
  have "drop_bit 29 (total0 ctx) OR push_bit 3 (total1 ctx) = drop_bit 29 (total0 ctx) + push_bit 3 (total1 ctx)"
    using disj by (simp add: disjunctive_add_eq_or)
  moreover have "unat (drop_bit 29 (total0 ctx) + push_bit 3 (total1 ctx)) =
      (?a div 536870912 + 8 * ?b) mod 4294967296"
    by (simp add: unat_word_ariths unat_drop_bit_eq drop_bit_eq_div unat_push_bit_3 mod_add_right_eq mod_add_left_eq)
  moreover have "(?a div 536870912 + 8 * ?b) mod 4294967296 = 8 * k div 4294967296 mod 4294967296"
  proof -
    have "8 * k div 4294967296 mod 4294967296 = k div 536870912 mod 4294967296"
      using div_mult_mult1 [of 8 k 536870912] by simp
    also have "\<dots> = (k mod 18446744073709551616 mod 2305843009213693952) div 536870912"
      by (simp add: div_mod_nat mod_mod_cancel)
    also have "\<dots> = ((?a + 4294967296 * ?b) mod 2305843009213693952) div 536870912"
      by (simp only: assms [symmetric]) (simp add: mod_mod_cancel)
    also have "\<dots> = (?a + 4294967296 * ?b) div 536870912 mod 4294967296" by (simp add: div_mod_nat)
    also have "(?a + 4294967296 * ?b) div 536870912 = ?a div 536870912 + 8 * ?b"
      using div_mult_self2 [of 536870912 ?a "8 * ?b"] by (simp add: add.commute)
    finally show ?thesis ..
  qed
  ultimately have "drop_bit 29 (total0 ctx) OR push_bit 3 (total1 ctx) = word_of_nat (8 * k div 4294967296)"
    by (simp add: word_unat_eq_iff unat_of_nat)
  then show ?thesis using low by (simp add: sha_msglen_def)
qed

text \<open>The tail of \<open>sha1_finish\<close> and \<open>sha256_finish\<close>: pad through the update function, read the state.\<close>

definition sha_finish_body :: "(sha_context \<Rightarrow> u8 list \<Rightarrow> u32 \<Rightarrow> sha_context option) \<Rightarrow> sha_context \<Rightarrow> u32 list option" where
  "sha_finish_body update ctx = do {
     let msglen = sha_msglen ctx;
     let padn = sha_padn ctx;
     ctx \<leftarrow> update ctx sha_padding padn;
     ctx \<leftarrow> update ctx msglen 8;
     Some (sha_state ctx) }"

lemma sha_finish_body_ok:
  assumes rep: "sha_rep process iv ctx m"
    and update: "\<And>c x len. len \<noteq> 0 \<Longrightarrow> len < 128 \<Longrightarrow> update c x len = sha_update_body process c x len"
  shows "sha_finish_body update ctx = Some (fst (blocks process iv (sha_pad m)))"
proof -
  have count: "(unat (total0 ctx) + 4294967296 * unat (total1 ctx)) mod 18446744073709551616
      = length m mod 18446744073709551616"
    using rep by (simp add: sha_rep_def)
  note left = sha_left [OF count]
  let ?p = "take (unat (sha_padn ctx)) sha_padding"
  have "?p \<noteq> []" using sha_padn_bytes(1) [OF left] by simp
  then have n: "unat (sha_padn ctx) \<noteq> 0" "unat (sha_padn ctx) < 128"
    using sha_padn_bytes(2) [OF left] by (auto simp: sha_padding_def)
  then have "sha_padn ctx \<noteq> 0" "sha_padn ctx < 128" by (auto simp: word_less_nat_alt)
  then obtain c1 where c1: "update ctx sha_padding (sha_padn ctx) = Some c1" "sha_rep process iv c1 (m @ ?p)"
    using sha_update_body_ok [OF rep sha_padn_bytes(2) [OF left]] update by metis
  obtain c2 where c2: "update c1 (sha_msglen ctx) 8 = Some c2" "sha_rep process iv c2 ((m @ ?p) @ sha_msglen ctx)"
    using sha_update_body_ok [OF c1(2), of 8 "sha_msglen ctx"] update [of 8 c1 "sha_msglen ctx"]
    by (auto simp: sha_msglen_def)
  have "(m @ ?p) @ sha_msglen ctx = sha_pad m"
    using sha_padn_bytes(1) [OF left] sha_msglen_bits [OF count] by (simp add: sha_pad_def Let_def)
  then have "blocks process iv (sha_pad m) = (sha_state c2, [])"
    using c2(2) length_sha_pad [of m] by (simp add: sha_rep_def)
  then show ?thesis using c1(1) c2(1) by (simp add: sha_finish_body_def)
qed

section \<open>The watchdog loops\<close>

text \<open>
  The loop of \<open>sha1_csum_wd\<close> and \<open>md5_wd\<close>: updates of at most \<open>chunk_sz\<close> bytes.  A chunk size of
  0 makes no progress, and the loop does not end.
\<close>

partial_function (option) wd_loop :: "('c \<Rightarrow> u8 list \<Rightarrow> 'c option) \<Rightarrow> 'c \<Rightarrow> u8 list \<Rightarrow> u32 \<Rightarrow> 'c option" where [code]:
  "wd_loop update c input chunk_sz =
     (if input = [] then Some c
      else
        let chunk = min (length input) (unat chunk_sz) in
        do {
          c' \<leftarrow> update c (take chunk input);
          wd_loop update c' (drop chunk input) chunk_sz })"

lemma wd_loop_feed: "0 < sz \<Longrightarrow> wd_loop update c input sz = feed update c (chunks (unat sz) input)"
proof (induction "length input" arbitrary: c input rule: less_induct)
  case less
  show ?case
  proof (cases "input = []")
    case True
    then show ?thesis by (subst wd_loop.simps) (simp add: chunks.simps)
  next
    case False
    have pos: "0 < unat sz" using less.prems by (simp add: word_less_nat_alt)
    let ?k = "min (length input) (unat sz)"
    have td: "take ?k input = take (unat sz) input" "drop ?k input = drop (unat sz) input"
      by (simp_all add: min_def)
    have "wd_loop update c' (drop (unat sz) input) sz = feed update c' (chunks (unat sz) (drop (unat sz) input))" for c'
      using False pos less.prems by (intro less.hyps) auto
    then show ?thesis using False pos
      by (subst wd_loop.simps, subst chunks.simps) (simp add: td Let_def)
  qed
qed

end
