(* ===== verification/Sha256.thy ===== *)
theory Sha256
  imports BlockHash
begin

text \<open>
  SHA-256, \<^verbatim>\<open>lib_generic/sha256.c\<close>.  The unrolled rounds of \<open>sha256_process\<close> work in place on
  eight registers whose roles rotate from line to line; they are proved equal to the rounds of
  FIPS 180 on a tuple, and the update and finish functions to the padded message.
\<close>

section \<open>The code\<close>

text \<open>The macros of \<open>sha256_process\<close>.\<close>

definition SHR :: "u32 \<Rightarrow> nat \<Rightarrow> u32" where
  "SHR x n = drop_bit n (x AND 0xFFFFFFFF)"

definition ROTR :: "u32 \<Rightarrow> nat \<Rightarrow> u32" where
  "ROTR x n = SHR x n OR push_bit (32 - n) x"

definition sha256_S0 :: "u32 \<Rightarrow> u32" where "sha256_S0 x = ROTR x 7 XOR ROTR x 18 XOR SHR x 3"
definition sha256_S1 :: "u32 \<Rightarrow> u32" where "sha256_S1 x = ROTR x 17 XOR ROTR x 19 XOR SHR x 10"
definition sha256_S2 :: "u32 \<Rightarrow> u32" where "sha256_S2 x = ROTR x 2 XOR ROTR x 13 XOR ROTR x 22"
definition sha256_S3 :: "u32 \<Rightarrow> u32" where "sha256_S3 x = ROTR x 6 XOR ROTR x 11 XOR ROTR x 25"
definition sha256_F0 :: "u32 \<Rightarrow> u32 \<Rightarrow> u32 \<Rightarrow> u32" where "sha256_F0 x y z = (x AND y) OR (z AND (x OR y))"
definition sha256_F1 :: "u32 \<Rightarrow> u32 \<Rightarrow> u32 \<Rightarrow> u32" where "sha256_F1 x y z = z XOR (x AND (y XOR z))"

definition sha256_K :: "u32 list" where
  "sha256_K = [
     0x428A2F98, 0x71374491, 0xB5C0FBCF, 0xE9B5DBA5, 0x3956C25B, 0x59F111F1, 0x923F82A4, 0xAB1C5ED5,
     0xD807AA98, 0x12835B01, 0x243185BE, 0x550C7DC3, 0x72BE5D74, 0x80DEB1FE, 0x9BDC06A7, 0xC19BF174,
     0xE49B69C1, 0xEFBE4786, 0x0FC19DC6, 0x240CA1CC, 0x2DE92C6F, 0x4A7484AA, 0x5CB0A9DC, 0x76F988DA,
     0x983E5152, 0xA831C66D, 0xB00327C8, 0xBF597FC7, 0xC6E00BF3, 0xD5A79147, 0x06CA6351, 0x14292967,
     0x27B70A85, 0x2E1B2138, 0x4D2C6DFC, 0x53380D13, 0x650A7354, 0x766A0ABB, 0x81C2C92E, 0x92722C85,
     0xA2BFE8A1, 0xA81A664B, 0xC24B8B70, 0xC76C51A3, 0xD192E819, 0xD6990624, 0xF40E3585, 0x106AA070,
     0x19A4C116, 0x1E376C08, 0x2748774C, 0x34B0BCB5, 0x391C0CB3, 0x4ED8AA4A, 0x5B9CCA4F, 0x682E6FF3,
     0x748F82EE, 0x78A5636F, 0x84C87814, 0x8CC70208, 0x90BEFFFA, 0xA4506CEB, 0xBEF9A3F7, 0xC67178F2]"

text \<open>
  The macro \<open>R(t)\<close>, which sets \<open>W[t]\<close> and gives its value; \<open>W\<close> is the part of the array set so
  far.
\<close>

definition sha256_R :: "u32 list \<Rightarrow> nat \<Rightarrow> u32" where
  "sha256_R W t = sha256_S1 (W ! (t - 2)) + W ! (t - 7) + sha256_S0 (W ! (t - 15)) + W ! (t - 16)"

text \<open>
  The register that has role \<open>j\<close> (0 for \<open>a\<close>, 7 for \<open>h\<close>) in line \<open>t\<close>: line 1 is
  \<open>P(H, A, B, C, D, E, F, G, ...)\<close>, and every eighth line is as line 0.
\<close>

definition sha256_reg :: "nat \<Rightarrow> nat \<Rightarrow> nat" where
  "sha256_reg t j = (j + (8 - t mod 8)) mod 8"

text \<open>Line \<open>t\<close>: the macro \<open>P\<close> on the registers \<open>v\<close> (\<open>A\<close> to \<open>H\<close>) with \<open>W[t]\<close> or \<open>R(t)\<close>.\<close>

definition sha256_P :: "nat \<Rightarrow> u32 list \<times> u32 list \<Rightarrow> u32 list \<times> u32 list" where
  "sha256_P t = (\<lambda>(v, W).
     let W = (if t < 16 then W else W @ [sha256_R W t]);
         x = W ! t;
         r = sha256_reg t;
         temp1 = v ! r 7 + sha256_S3 (v ! r 4) + sha256_F1 (v ! r 4) (v ! r 5) (v ! r 6) + sha256_K ! t + x;
         temp2 = sha256_S2 (v ! r 0) + sha256_F0 (v ! r 0) (v ! r 1) (v ! r 2) in
     (v[r 3 := v ! r 3 + temp1, r 7 := temp1 + temp2], W))"

text \<open>\<open>sha256_process\<close>: the new state words from the old ones and a block of 64 bytes.\<close>

definition sha256_process :: "u32 list \<Rightarrow> u8 list \<Rightarrow> u32 list" where
  "sha256_process st data =
     (let W = map (\<lambda>i. get_uint32_be data (4 * i)) [0..<16];
          (v, W) = fold sha256_P [0..<64] (st, W) in
      map2 (+) st v)"

definition sha256_starts :: "u8 list \<Rightarrow> sha_context" where
  "sha256_starts buf = \<lparr>total0 = 0, total1 = 0,
     sha_state = [0x6A09E667, 0xBB67AE85, 0x3C6EF372, 0xA54FF53A, 0x510E527F, 0x9B05688C, 0x1F83D9AB, 0x5BE0CD19],
     sha_buffer = buf\<rparr>"

definition sha256_update :: "sha_context \<Rightarrow> u8 list \<Rightarrow> u32 \<Rightarrow> sha_context option" where
  "sha256_update ctx input len =
     (if len = 0 then Some ctx else sha_update_body sha256_process ctx input len)"

definition sha256_finish :: "sha_context \<Rightarrow> u8 list option" where
  "sha256_finish ctx = do {
     st \<leftarrow> sha_finish_body sha256_update ctx;
     Some (concat (map put_uint32_be st)) }"

section \<open>The rounds of FIPS 180\<close>

definition Ch :: "u32 \<Rightarrow> u32 \<Rightarrow> u32 \<Rightarrow> u32" where "Ch x y z = (x AND y) XOR (NOT x AND z)"
definition Maj :: "u32 \<Rightarrow> u32 \<Rightarrow> u32 \<Rightarrow> u32" where "Maj x y z = (x AND y) XOR (x AND z) XOR (y AND z)"
definition Sigma0 :: "u32 \<Rightarrow> u32" where "Sigma0 x = word_rotr 2 x XOR word_rotr 13 x XOR word_rotr 22 x"
definition Sigma1 :: "u32 \<Rightarrow> u32" where "Sigma1 x = word_rotr 6 x XOR word_rotr 11 x XOR word_rotr 25 x"
definition sigma0 :: "u32 \<Rightarrow> u32" where "sigma0 x = word_rotr 7 x XOR word_rotr 18 x XOR drop_bit 3 x"
definition sigma1 :: "u32 \<Rightarrow> u32" where "sigma1 x = word_rotr 17 x XOR word_rotr 19 x XOR drop_bit 10 x"

type_synonym regs8 = "u32 \<times> u32 \<times> u32 \<times> u32 \<times> u32 \<times> u32 \<times> u32 \<times> u32"

text \<open>
  The constants of the standard: the first 32 bits of the fractional parts of the cube roots of the first
  64 primes.
\<close>

definition first_primes :: "nat list" where
  "first_primes = [2, 3, 5, 7, 11, 13, 17, 19, 23, 29, 31, 37, 41, 43, 47, 53, 59, 61, 67, 71, 73, 79, 83, 89, 97, 101, 103, 107, 109, 113,
    127, 131, 137, 139, 149, 151, 157, 163, 167, 173, 179, 181, 191, 193, 197, 199, 211, 223, 227, 229, 233, 239, 241, 251, 257, 263,
    269, 271, 277, 281, 283, 293, 307, 311]"

definition fips_K :: "nat \<Rightarrow> u32" where
  "fips_K t = word_of_nat (root_bits 3 (first_primes ! t * 2 ^ 96) 35 0)"

text \<open>The message schedule and one round on the tuple \<open>(a, ..., h)\<close>.\<close>

fun fips_W :: "u8 list \<Rightarrow> nat \<Rightarrow> u32" where
  "fips_W data t =
     (if t < 16 then be_word data (4 * t)
      else sigma1 (fips_W data (t - 2)) + fips_W data (t - 7) + sigma0 (fips_W data (t - 15)) + fips_W data (t - 16))"

declare fips_W.simps [simp del]

definition fips_round :: "u8 list \<Rightarrow> nat \<Rightarrow> regs8 \<Rightarrow> regs8" where
  "fips_round data t = (\<lambda>(a, b, c, d, e, f, g, h).
     let T1 = h + Sigma1 e + Ch e f g + fips_K t + fips_W data t;
         T2 = Sigma0 a + Maj a b c in
     (T1 + T2, a, b, c, d + T1, e, f, g))"

fun list8 :: "regs8 \<Rightarrow> u32 list" where
  "list8 (a, b, c, d, e, f, g, h) = [a, b, c, d, e, f, g, h]"

definition tup8 :: "(nat \<Rightarrow> u32) \<Rightarrow> regs8" where
  "tup8 f = (f 0, f 1, f 2, f 3, f 4, f 5, f 6, f 7)"

definition fips_compress :: "u32 list \<Rightarrow> u8 list \<Rightarrow> u32 list" where
  "fips_compress H data = map2 (+) H (list8 (fold (fips_round data) [0..<64] (tup8 (\<lambda>i. H ! i))))"

section \<open>The unrolled rounds are those rounds\<close>

text \<open>The table of the code against the roots of the primes.\<close>

lemma primes_roots:
  "list_all2 (\<lambda>p K. let r = (if p < 8 then 1 else if p < 27 then 2 else if p < 64 then 3 else if p < 125 then 4 else if p < 216 then 5 else 6) * 2 ^ 32 + unat K in
     r ^ 3 \<le> p * 2 ^ 96 \<and> p * 2 ^ 96 < (r + 1) ^ 3) first_primes sha256_K"
  by (simp add: first_primes_def sha256_K_def Let_def)

lemma fips_K_code: "t < 64 \<Longrightarrow> sha256_K ! t = fips_K t"
proof -
  assume t: "t < 64"
  let ?p = "first_primes ! t" and ?K = "sha256_K ! t"
  let ?q = "if ?p < 8 then 1 else if ?p < 27 then 2 else if ?p < 64 then 3 else if ?p < 125 then 4 else if ?p < 216 then 5 else 6 :: nat"
  have "length first_primes = 64" by (simp add: first_primes_def)
  then have r: "(?q * 2 ^ 32 + unat ?K) ^ 3 \<le> ?p * 2 ^ 96" "?p * 2 ^ 96 < (?q * 2 ^ 32 + unat ?K + 1) ^ 3"
    using list_all2_nthD [OF primes_roots, of t] t by (simp_all only: Let_def)
  have "?q * 2 ^ 32 + unat ?K < 0 + 2 ^ 35" using unat_word_lt [of ?K] by (auto split: if_splits)
  then have "root_bits 3 (?p * 2 ^ 96) 35 0 = ?q * 2 ^ 32 + unat ?K" by (intro root_bits_eq r) simp_all
  moreover have "(word_of_nat (2 ^ 32) :: u32) = 0" by simp
  ultimately show ?thesis unfolding fips_K_def by (simp only: of_nat_add of_nat_mult) simp
qed


lemma and_all_ones: "x AND 0xFFFFFFFF = x" for x :: u32
proof -
  have "(0xFFFFFFFF :: u32) = - 1" by simp
  then show ?thesis by (simp only: and.right_neutral)
qed

lemma ROTR_rotr: "0 < n \<Longrightarrow> n < 32 \<Longrightarrow> ROTR x n = word_rotr n x"
proof (rule bit_word_eqI)
  fix m assume n: "0 < n" "n < 32" and m: "m < LENGTH(32)"
  have "(m + n) mod 32 = (if m + n < 32 then m + n else m + n - 32)" using n m by (auto simp: le_mod_geq)
  then show "bit (ROTR x n) m = bit (word_rotr n x) m"
    using n m by (auto simp: ROTR_def SHR_def and_all_ones bit_simps bit_word_rotr_iff add.commute dest: bit_imp_le_length)
qed

lemma sha256_functions:
  "sha256_F0 x y z = Maj x y z" "sha256_F1 x y z = Ch x y z"
  "sha256_S0 x = sigma0 x" "sha256_S1 x = sigma1 x" "sha256_S2 x = Sigma0 x" "sha256_S3 x = Sigma1 x"
proof -
  show "sha256_F0 x y z = Maj x y z" unfolding sha256_F0_def Maj_def
    by (rule bit_word_eqI) (auto simp: bit_simps)
  show "sha256_F1 x y z = Ch x y z" unfolding sha256_F1_def Ch_def
    by (rule bit_word_eqI) (auto simp: bit_simps)
  show "sha256_S0 x = sigma0 x" "sha256_S1 x = sigma1 x" "sha256_S2 x = Sigma0 x" "sha256_S3 x = Sigma1 x"
    by (simp_all add: sha256_S0_def sigma0_def sha256_S1_def sigma1_def sha256_S2_def Sigma0_def
        sha256_S3_def Sigma1_def ROTR_rotr SHR_def and_all_ones)
qed

text \<open>The array \<open>W\<close> before line \<open>t\<close>, and the registers in their roles.\<close>

definition sha256_W_ok :: "u8 list \<Rightarrow> nat \<Rightarrow> u32 list \<Rightarrow> bool" where
  "sha256_W_ok data t W \<longleftrightarrow> length W = max 16 t \<and> (\<forall>i<length W. W ! i = fips_W data i)"

lemma sha256_W_next:
  assumes "sha256_W_ok data t W"
  shows "sha256_W_ok data (Suc t) (if t < 16 then W else W @ [sha256_R W t])"
    and "(if t < 16 then W else W @ [sha256_R W t]) ! t = fips_W data t"
proof -
  have R: "sha256_R W t = fips_W data t" if "\<not> t < 16"
    using assms that
    by (subst fips_W.simps) (simp add: sha256_R_def sha256_W_ok_def sha256_functions max_def)
  then show "sha256_W_ok data (Suc t) (if t < 16 then W else W @ [sha256_R W t])"
    using assms by (auto simp: sha256_W_ok_def nth_append max_def less_Suc_eq)
  show "(if t < 16 then W else W @ [sha256_R W t]) ! t = fips_W data t"
    using assms R by (auto simp: sha256_W_ok_def nth_append max_def)
qed

definition sha256_view :: "nat \<Rightarrow> u32 list \<Rightarrow> regs8" where
  "sha256_view t v = tup8 (\<lambda>j. v ! sha256_reg t j)"

lemma mod8_cases: "t mod 8 = (0::nat) \<or> t mod 8 = 1 \<or> t mod 8 = 2 \<or> t mod 8 = 3 \<or> t mod 8 = 4 \<or>
    t mod 8 = 5 \<or> t mod 8 = 6 \<or> t mod 8 = 7"
  by presburger

lemma sha256_P_round:
  assumes "length v = 8" and W: "sha256_W_ok data t W" and t: "t < 64" and P: "sha256_P t (v, W) = (v', W')"
  shows "length v' = 8 \<and> sha256_W_ok data (Suc t) W' \<and> sha256_view (Suc t) v' = fips_round data t (sha256_view t v)"
proof -
  obtain A B C D E F G H where v: "v = [A, B, C, D, E, F, G, H]"
    using assms(1) by (auto simp: numeral_eq_Suc length_Suc_conv)
  have W': "W' = (if t < 16 then W else W @ [sha256_R W t])" and x: "W' ! t = fips_W data t"
    using P sha256_W_next(2) [OF W] by (auto simp: sha256_P_def Let_def)
  have v': "v' = fst (sha256_P t (v, W))" using P by simp
  have "sha256_view (Suc t) (fst (sha256_P t (v, W))) = fips_round data t (sha256_view t v)"
    using mod8_cases [of t] x unfolding W'
    by (elim disjE) (simp_all add: sha256_P_def Let_def v sha256_view_def tup8_def sha256_reg_def
      fips_round_def sha256_functions mod_Suc fips_K_code [OF t])
  moreover have "length v' = 8" using P assms(1) by (auto simp: sha256_P_def Let_def)
  ultimately show ?thesis using v' W' sha256_W_next(1) [OF W] by simp
qed

lemma sha256_rounds:
  "length st = 8 \<Longrightarrow> t \<le> 64 \<Longrightarrow> (case fold sha256_P [0..<t] (st, map (\<lambda>i. get_uint32_be data (4 * i)) [0..<16]) of
     (v, W) \<Rightarrow> length v = 8 \<and> sha256_W_ok data t W \<and>
       sha256_view t v = fold (fips_round data) [0..<t] (sha256_view 0 st))"
proof (induction t)
  case 0
  then show ?case by (simp add: sha256_W_ok_def fips_W.simps get_uint32_be_word)
next
  case (Suc t)
  then show ?case using sha256_P_round [of _ data t] by (auto split: prod.splits) 
qed

lemma sha256_process_fips: "length st = 8 \<Longrightarrow> sha256_process st data = fips_compress st data"
proof -
  assume st: "length st = 8"
  obtain v W where f: "fold sha256_P [0..<64] (st, map (\<lambda>i. get_uint32_be data (4 * i)) [0..<16]) = (v, W)"
    by (rule prod.exhaust)
  from sha256_rounds [OF st order.refl, of data] have v: "length v = 8"
      "sha256_view 64 v = fold (fips_round data) [0..<64] (sha256_view 0 st)"
    unfolding f prod.case by blast+
  obtain A B C D E F G H where "v = [A, B, C, D, E, F, G, H]"
    using v(1) by (auto simp: numeral_eq_Suc length_Suc_conv)
  then have "list8 (sha256_view 64 v) = v" by (simp add: sha256_view_def tup8_def sha256_reg_def)
  moreover have "sha256_view 0 st = tup8 (\<lambda>i. st ! i)"
    by (simp add: sha256_view_def tup8_def sha256_reg_def)
  ultimately show ?thesis
    using v(2) f by (simp only: sha256_process_def fips_compress_def Let_def prod.case)
qed

section \<open>The hash of a message\<close>

definition sha256_iv :: "u32 list" where
  "sha256_iv = [0x6A09E667, 0xBB67AE85, 0x3C6EF372, 0xA54FF53A, 0x510E527F, 0x9B05688C, 0x1F83D9AB, 0x5BE0CD19]"

definition sha256_spec :: "u8 list \<Rightarrow> u8 list" where
  "sha256_spec m = concat (map put_uint32_be (fst (blocks fips_compress sha256_iv (sha_pad m))))"

lemma length_list8 [simp]: "length (list8 r) = 8"
  by (cases r rule: list8.cases) simp

lemma length_fips_compress: "length st = 8 \<Longrightarrow> length (fips_compress st b) = 8"
  by (simp only: fips_compress_def length_map length_zip length_list8)

lemma length_sha256_iv: "length sha256_iv = 8"
  by (simp add: sha256_iv_def)

lemma sha256_blocks: "blocks sha256_process sha256_iv m = blocks fips_compress sha256_iv m"
  by (rule blocks_cong [where ok = "\<lambda>s. length s = 8"])
    (simp_all only: sha256_process_fips length_fips_compress length_sha256_iv)

abbreviation sha256_rep :: "sha_context \<Rightarrow> u8 list \<Rightarrow> bool" where
  "sha256_rep \<equiv> sha_rep sha256_process sha256_iv"

lemma sha256_starts_rep: "length buf = 64 \<Longrightarrow> sha256_rep (sha256_starts buf) []"
  by (simp add: sha_rep_def sha256_starts_def blocks_short sha256_iv_def)

lemma sha256_update_rep:
  "sha256_rep ctx m \<Longrightarrow> unat len \<le> length input \<Longrightarrow>
   \<exists>ctx'. sha256_update ctx input len = Some ctx' \<and> sha256_rep ctx' (m @ take (unat len) input)"
  using sha_update_body_ok [of sha256_process sha256_iv ctx m len input] by (simp add: sha256_update_def)

lemma sha256_finish_rep: "sha256_rep ctx m \<Longrightarrow> sha256_finish ctx = Some (sha256_spec m)"
  using sha_finish_body_ok [of sha256_process sha256_iv ctx m sha256_update]
  by (simp add: sha256_finish_def sha256_update_def sha256_spec_def sha256_blocks)

interpretation sha256: stream_hash sha256_rep "sha256_starts (replicate 64 0)"
  "\<lambda>c x. sha256_update c x (word_of_nat (length x))" sha256_finish sha256_spec 4294967296
proof
  show "sha256_rep (sha256_starts (replicate 64 0)) []" by (simp add: sha256_starts_rep)
  fix c m x
  assume rep: "sha256_rep c m"
  show "\<exists>c'. sha256_update c x (word_of_nat (length x)) = Some c' \<and> sha256_rep c' (m @ x)" if "length x < 4294967296"
    using sha256_update_rep [OF rep, of "word_of_nat (length x)" x] that by (simp add: unat_of_nat)
  show "sha256_finish c = Some (sha256_spec m)" by (rule sha256_finish_rep [OF rep])
qed

text \<open>
  C28: The in-place unrolled block function of \<open>sha256_process\<close> is the compression function of
  FIPS 180, on every state of eight words and every block.
\<close>

theorem sha256_process_is_fips:
  assumes "length st = 8"
  shows "sha256_process st data = fips_compress st data"
  by (rule sha256_process_fips [OF assms])

theorem sha256_process_is_fips_witness:
  "sha256_process sha256_iv [] = fips_compress sha256_iv []"
  by (rule sha256_process_is_fips) (simp add: sha256_iv_def)

text \<open>
  C13: SHA-256 of a message fed by any sequence of updates of less than 4 GiB each: no call reads
  or writes outside its buffers, and the digest is that of the concatenated message, padded as
  FIPS 180 says, whatever the pieces and whatever the buffer held before.
\<close>

theorem sha256_stream_correct:
  assumes "length buf = 64" and "\<forall>x\<in>set xs. length x < 4294967296"
  shows "do { c \<leftarrow> feed (\<lambda>c x. sha256_update c x (word_of_nat (length x))) (sha256_starts buf) xs;
              sha256_finish c } = Some (sha256_spec (concat xs))"
  using sha256.feed_rep [OF sha256_starts_rep [OF assms(1)] assms(2)] sha256_finish_rep by auto

theorem sha256_stream_correct_witness:
  "do { c \<leftarrow> feed (\<lambda>c x. sha256_update c x (word_of_nat (length x))) (sha256_starts (replicate 64 7)) [[0x61], [0x62, 0x63]];
        sha256_finish c } = Some (sha256_spec [0x61, 0x62, 0x63])"
  using sha256_stream_correct [of "replicate 64 7" "[[0x61], [0x62, 0x63]]"] by simp

end
