(* ===== verification/Sha1.thy ===== *)
theory Sha1
  imports BlockHash
begin

text \<open>
  SHA-1 and HMAC-SHA-1, \<^verbatim>\<open>lib_generic/sha1.c\<close>.  As for SHA-256, the unrolled rounds rotate
  the roles of five registers; here the message schedule also lives in a circular array of
  sixteen words.
\<close>

section \<open>The code\<close>

definition sha1_S :: "u32 \<Rightarrow> nat \<Rightarrow> u32" where
  "sha1_S x n = push_bit n x OR drop_bit (32 - n) (x AND 0xFFFFFFFF)"

text \<open>The four definitions of the macros \<open>F\<close> and \<open>K\<close>, by the line they are used in.\<close>

definition sha1_F :: "nat \<Rightarrow> u32 \<Rightarrow> u32 \<Rightarrow> u32 \<Rightarrow> u32" where
  "sha1_F t x y z =
     (if t < 20 then z XOR (x AND (y XOR z))
      else if t < 40 then x XOR y XOR z
      else if t < 60 then (x AND y) OR (z AND (x OR y))
      else x XOR y XOR z)"

definition sha1_K :: "nat \<Rightarrow> u32" where
  "sha1_K t = (if t < 20 then 0x5A827999 else if t < 40 then 0x6ED9EBA1 else if t < 60 then 0x8F1BBCDC else 0xCA62C1D6)"

text \<open>The macro \<open>R(t)\<close>: the value it stores in \<open>W[t & 0x0F]\<close>.\<close>

definition sha1_R :: "u32 list \<Rightarrow> nat \<Rightarrow> u32" where
  "sha1_R W t =
     sha1_S (W ! ((t - 3) mod 16) XOR W ! ((t - 8) mod 16) XOR W ! ((t - 14) mod 16) XOR W ! (t mod 16)) 1"

definition sha1_reg :: "nat \<Rightarrow> nat \<Rightarrow> nat" where
  "sha1_reg t j = (j + (5 - t mod 5)) mod 5"

text \<open>Line \<open>t\<close>: the macro \<open>P\<close> on the registers \<open>A\<close> to \<open>E\<close> with \<open>W[t]\<close> or \<open>R(t)\<close>.\<close>

definition sha1_P :: "nat \<Rightarrow> u32 list \<times> u32 list \<Rightarrow> u32 list \<times> u32 list" where
  "sha1_P t = (\<lambda>(v, W).
     let W = (if t < 16 then W else W[t mod 16 := sha1_R W t]);
         x = W ! (t mod 16);
         r = sha1_reg t;
         e = v ! r 4 + sha1_S (v ! r 0) 5 + sha1_F t (v ! r 1) (v ! r 2) (v ! r 3) + sha1_K t + x in
     (v[r 4 := e, r 1 := sha1_S (v ! r 1) 30], W))"

definition sha1_process :: "u32 list \<Rightarrow> u8 list \<Rightarrow> u32 list" where
  "sha1_process st data =
     (let W = map (\<lambda>i. get_uint32_be data (4 * i)) [0..<16];
          (v, W) = fold sha1_P [0..<80] (st, W) in
      map2 (+) st v)"

definition sha1_starts :: "u8 list \<Rightarrow> sha_context" where
  "sha1_starts buf = \<lparr>total0 = 0, total1 = 0,
     sha_state = [0x67452301, 0xEFCDAB89, 0x98BADCFE, 0x10325476, 0xC3D2E1F0], sha_buffer = buf\<rparr>"

text \<open>The length is an \<^verbatim>\<open>int\<close>; nothing happens when it is not positive.\<close>

definition sha1_update :: "sha_context \<Rightarrow> u8 list \<Rightarrow> int \<Rightarrow> sha_context option" where
  "sha1_update ctx input ilen =
     (if ilen \<le> 0 then Some ctx else sha_update_body sha1_process ctx input (word_of_int ilen))"

definition sha1_finish :: "sha_context \<Rightarrow> u8 list option" where
  "sha1_finish ctx = do {
     st \<leftarrow> sha_finish_body (\<lambda>c x n. sha1_update c x (sint n)) ctx;
     Some (concat (map put_uint32_be st)) }"

text \<open>\<open>buf\<close> is the uninitialised buffer of the context on the stack.\<close>

definition sha1_csum :: "u8 list \<Rightarrow> u8 list \<Rightarrow> int \<Rightarrow> u8 list option" where
  "sha1_csum buf input ilen = do {
     ctx \<leftarrow> sha1_update (sha1_starts buf) input ilen;
     sha1_finish ctx }"

definition sha1_csum_wd :: "bool \<Rightarrow> u8 list \<Rightarrow> u8 list \<Rightarrow> int \<Rightarrow> u32 \<Rightarrow> u8 list option" where
  "sha1_csum_wd watchdog buf input ilen chunk_sz = do {
     ctx \<leftarrow> (if watchdog
       then if nat ilen \<le> length input
         then wd_loop (\<lambda>c x. sha1_update c x (int (length x))) (sha1_starts buf) (take (nat ilen) input) chunk_sz
         else None
       else sha1_update (sha1_starts buf) input ilen);
     sha1_finish ctx }"

text \<open>The key loop of \<open>sha1_hmac\<close>: key bytes from the 65th on are not used.\<close>

fun hmac_pad :: "u8 list \<Rightarrow> u8 list \<Rightarrow> nat \<Rightarrow> nat \<Rightarrow> u8 list option" where
  "hmac_pad k key i 0 = Some k"
| "hmac_pad k key i (Suc n) =
     (if 64 \<le> i then Some k
      else do { b \<leftarrow> rd key i; x \<leftarrow> rd k i; k' \<leftarrow> wr k i (x XOR b); hmac_pad k' key (Suc i) n })"

definition sha1_hmac :: "u8 list \<Rightarrow> u8 list \<Rightarrow> int \<Rightarrow> u8 list \<Rightarrow> int \<Rightarrow> u8 list option" where
  "sha1_hmac buf key keylen input ilen = do {
     k_ipad \<leftarrow> hmac_pad (replicate 64 0x36) key 0 (nat keylen);
     k_opad \<leftarrow> hmac_pad (replicate 64 0x5C) key 0 (nat keylen);
     ctx \<leftarrow> sha1_update (sha1_starts buf) k_ipad 64;
     ctx \<leftarrow> sha1_update ctx input ilen;
     tmpbuf \<leftarrow> sha1_finish ctx;
     ctx \<leftarrow> sha1_update (sha1_starts (sha_buffer ctx)) k_opad 64;
     ctx \<leftarrow> sha1_update ctx tmpbuf 20;
     sha1_finish ctx }"

section \<open>The rounds of FIPS 180\<close>

type_synonym regs5 = "u32 \<times> u32 \<times> u32 \<times> u32 \<times> u32"

definition fips1_f :: "nat \<Rightarrow> u32 \<Rightarrow> u32 \<Rightarrow> u32 \<Rightarrow> u32" where
  "fips1_f t x y z =
     (if t < 20 then (x AND y) XOR (NOT x AND z)
      else if 40 \<le> t \<and> t < 60 then (x AND y) XOR (x AND z) XOR (y AND z)
      else x XOR y XOR z)"

fun fips1_W :: "u8 list \<Rightarrow> nat \<Rightarrow> u32" where
  "fips1_W data t =
     (if t < 16 then be_word data (4 * t)
      else word_rotl 1 (fips1_W data (t - 3) XOR fips1_W data (t - 8) XOR fips1_W data (t - 14) XOR fips1_W data (t - 16)))"

declare fips1_W.simps [simp del]

text \<open>The constants of the standard are the roots of 2, 3, 5 and 10, times \<open>2 ^ 30\<close>.\<close>

definition fips1_K :: "nat \<Rightarrow> u32" where
  "fips1_K t = word_of_nat (root_bits 2 ((if t < 20 then 2 else if t < 40 then 3 else if t < 60 then 5 else 10) * 2 ^ 60) 32 0)"

definition fips1_round :: "u8 list \<Rightarrow> nat \<Rightarrow> regs5 \<Rightarrow> regs5" where
  "fips1_round data t = (\<lambda>(a, b, c, d, e).
     (word_rotl 5 a + fips1_f t b c d + e + fips1_K t + fips1_W data t, a, word_rotl 30 b, c, d))"

fun list5 :: "regs5 \<Rightarrow> u32 list" where
  "list5 (a, b, c, d, e) = [a, b, c, d, e]"

definition tup5 :: "(nat \<Rightarrow> u32) \<Rightarrow> regs5" where
  "tup5 f = (f 0, f 1, f 2, f 3, f 4)"

definition fips1_compress :: "u32 list \<Rightarrow> u8 list \<Rightarrow> u32 list" where
  "fips1_compress H data = map2 (+) H (list5 (fold (fips1_round data) [0..<80] (tup5 (\<lambda>i. H ! i))))"

section \<open>The unrolled rounds are those rounds\<close>

lemma sha1_S_rotl: "0 < n \<Longrightarrow> n < 32 \<Longrightarrow> sha1_S x n = word_rotl n x"
proof -
  assume n: "0 < n" "n < 32"
  have "(0xFFFFFFFF :: u32) = - 1" by simp
  then show ?thesis unfolding sha1_S_def by (simp only: and.right_neutral rotl_shifts [OF n])
qed

lemma sha1_F_f: "sha1_F t x y z = fips1_f t x y z"
proof -
  have "z XOR (x AND (y XOR z)) = (x AND y) XOR (NOT x AND z)"
    by (rule bit_word_eqI) (auto simp: bit_simps)
  moreover have "(x AND y) OR (z AND (x OR y)) = (x AND y) XOR (x AND z) XOR (y AND z)"
    by (rule bit_word_eqI) (auto simp: bit_simps)
  ultimately show ?thesis by (simp add: sha1_F_def fips1_f_def)
qed

text \<open>The circular array before line \<open>t\<close> holds the last sixteen words of the schedule.\<close>

definition sha1_W_ok :: "u8 list \<Rightarrow> nat \<Rightarrow> u32 list \<Rightarrow> bool" where
  "sha1_W_ok data t W \<longleftrightarrow> length W = 16 \<and>
     (\<forall>i. i < max 16 t \<longrightarrow> max 16 t \<le> i + 16 \<longrightarrow> W ! (i mod 16) = fips1_W data i)"

lemma sha1_W_next:
  assumes W: "sha1_W_ok data t W"
  shows "sha1_W_ok data (Suc t) (if t < 16 then W else W[t mod 16 := sha1_R W t])"
    and "(if t < 16 then W else W[t mod 16 := sha1_R W t]) ! (t mod 16) = fips1_W data t"
proof -
  have at: "W ! (i mod 16) = fips1_W data i" if "i < max 16 t" "max 16 t \<le> i + 16" for i
    using W that by (auto simp: sha1_W_ok_def)
  have len: "length W = 16" using W by (simp add: sha1_W_ok_def)
  have R: "sha1_R W t = fips1_W data t" if t: "16 \<le> t"
  proof -
    have "t mod 16 = (t - 16) mod 16" using t by (simp add: le_mod_geq)
    then show ?thesis
      using t at [of "t - 3"] at [of "t - 8"] at [of "t - 14"] at [of "t - 16"]
      by (subst fips1_W.simps) (simp add: sha1_R_def sha1_S_rotl max_def)
  qed
  show "sha1_W_ok data (Suc t) (if t < 16 then W else W[t mod 16 := sha1_R W t])"
  proof (cases "t < 16")
    case True
    then show ?thesis using at len by (auto simp: sha1_W_ok_def max_def)
  next
    case False
    have "W[t mod 16 := sha1_R W t] ! (i mod 16) = fips1_W data i" if "i < Suc t" "Suc t \<le> i + 16" for i
    proof (cases "i = t")
      case True
      then show ?thesis using R False len by simp
    next
      case ne: False
      have "i mod 16 \<noteq> t mod 16"
      proof
        assume "i mod 16 = t mod 16"
        then have "t mod 16 = i mod 16" ..
        then have "16 dvd t - i" using that by (simp only: mod_eq_dvd_iff_nat less_Suc_eq_le)
        then show False using that ne by (auto dest!: dvd_imp_le)
      qed
      then show ?thesis using at [of i] that ne False by (simp add: max_def)
    qed
    then show ?thesis using False len by (auto simp: sha1_W_ok_def max_def)
  qed
  show "(if t < 16 then W else W[t mod 16 := sha1_R W t]) ! (t mod 16) = fips1_W data t"
    using R at [of t] len by (auto simp: max_def)
qed

definition sha1_view :: "nat \<Rightarrow> u32 list \<Rightarrow> regs5" where
  "sha1_view t v = tup5 (\<lambda>j. v ! sha1_reg t j)"

lemma mod5_cases: "t mod 5 = (0::nat) \<or> t mod 5 = 1 \<or> t mod 5 = 2 \<or> t mod 5 = 3 \<or> t mod 5 = 4"
  by presburger

lemma sha1_K_code: "sha1_K t = fips1_K t"
proof -
  have "root_bits 2 (2 * 2 ^ 60) 32 0 = 0x5A827999" by (rule root_bits_eq) simp_all
  moreover have "root_bits 2 (3 * 2 ^ 60) 32 0 = 0x6ED9EBA1" by (rule root_bits_eq) simp_all
  moreover have "root_bits 2 (5 * 2 ^ 60) 32 0 = 0x8F1BBCDC" by (rule root_bits_eq) simp_all
  moreover have "root_bits 2 (10 * 2 ^ 60) 32 0 = 0xCA62C1D6" by (rule root_bits_eq) simp_all
  ultimately show ?thesis by (simp only: fips1_K_def sha1_K_def if_distrib) simp
qed

lemma sha1_P_round:
  assumes "length v = 5" and W: "sha1_W_ok data t W" and P: "sha1_P t (v, W) = (v', W')"
  shows "length v' = 5 \<and> sha1_W_ok data (Suc t) W' \<and> sha1_view (Suc t) v' = fips1_round data t (sha1_view t v)"
proof -
  obtain A B C D E where v: "v = [A, B, C, D, E]"
    using assms(1) by (auto simp: numeral_eq_Suc length_Suc_conv)
  have W': "W' = (if t < 16 then W else W[t mod 16 := sha1_R W t])"
    and x: "W' ! (t mod 16) = fips1_W data t"
    using P sha1_W_next(2) [OF W] by (auto simp: sha1_P_def Let_def)
  have v': "v' = fst (sha1_P t (v, W))" using P by simp
  have "sha1_view (Suc t) (fst (sha1_P t (v, W))) = fips1_round data t (sha1_view t v)"
    using mod5_cases [of t] x unfolding W'
    by (elim disjE) (simp_all add: sha1_P_def Let_def v sha1_view_def tup5_def sha1_reg_def
      fips1_round_def sha1_F_f sha1_K_code sha1_S_rotl mod_Suc ac_simps)
  moreover have "length v' = 5" using P assms(1) by (auto simp: sha1_P_def Let_def)
  ultimately show ?thesis using v' W' sha1_W_next(1) [OF W] by simp
qed

lemma sha1_rounds:
  "length st = 5 \<Longrightarrow> (case fold sha1_P [0..<t] (st, map (\<lambda>i. get_uint32_be data (4 * i)) [0..<16]) of
     (v, W) \<Rightarrow> length v = 5 \<and> sha1_W_ok data t W \<and>
       sha1_view t v = fold (fips1_round data) [0..<t] (sha1_view 0 st))"
proof (induction t)
  case 0
  then show ?case by (simp add: sha1_W_ok_def fips1_W.simps get_uint32_be_word)
next
  case (Suc t)
  then show ?case using sha1_P_round [of _ data t] by (auto split: prod.splits)
qed

lemma length_list5 [simp]: "length (list5 r) = 5"
  by (cases r rule: list5.cases) simp

lemma sha1_process_fips: "length st = 5 \<Longrightarrow> sha1_process st data = fips1_compress st data"
proof -
  assume st: "length st = 5"
  obtain v W where f: "fold sha1_P [0..<80] (st, map (\<lambda>i. get_uint32_be data (4 * i)) [0..<16]) = (v, W)"
    by (rule prod.exhaust)
  from sha1_rounds [OF st, of data 80] have v: "length v = 5"
      "sha1_view 80 v = fold (fips1_round data) [0..<80] (sha1_view 0 st)"
    unfolding f prod.case by blast+
  obtain A B C D E where "v = [A, B, C, D, E]"
    using v(1) by (auto simp: numeral_eq_Suc length_Suc_conv)
  then have "list5 (sha1_view 80 v) = v" by (simp add: sha1_view_def tup5_def sha1_reg_def)
  moreover have "sha1_view 0 st = tup5 (\<lambda>i. st ! i)"
    by (simp add: sha1_view_def tup5_def sha1_reg_def)
  ultimately show ?thesis
    using v(2) f by (simp only: sha1_process_def fips1_compress_def Let_def prod.case)
qed

section \<open>The hash of a message\<close>

definition sha1_iv :: "u32 list" where
  "sha1_iv = [0x67452301, 0xEFCDAB89, 0x98BADCFE, 0x10325476, 0xC3D2E1F0]"

definition sha1_spec :: "u8 list \<Rightarrow> u8 list" where
  "sha1_spec m = concat (map put_uint32_be (fst (blocks fips1_compress sha1_iv (sha_pad m))))"

lemma length_fips1_compress: "length st = 5 \<Longrightarrow> length (fips1_compress st b) = 5"
  by (simp only: fips1_compress_def length_map length_zip length_list5)

lemma length_sha1_iv: "length sha1_iv = 5"
  by (simp add: sha1_iv_def)

lemma sha1_blocks: "blocks sha1_process sha1_iv m = blocks fips1_compress sha1_iv m"
  by (rule blocks_cong [where ok = "\<lambda>s. length s = 5"])
    (simp_all only: sha1_process_fips length_fips1_compress length_sha1_iv)

lemma length_sha1_spec: "length (sha1_spec m) = 20"
proof -
  have "length (fst (blocks fips1_compress sha1_iv (sha_pad m))) = 5"
    by (rule length_blocks) (simp_all only: length_fips1_compress length_sha1_iv)
  then show ?thesis by (simp add: sha1_spec_def length_concat o_def sum_list_triv)
qed

abbreviation sha1_rep :: "sha_context \<Rightarrow> u8 list \<Rightarrow> bool" where
  "sha1_rep \<equiv> sha_rep sha1_process sha1_iv"

lemma sha1_starts_rep: "length buf = 64 \<Longrightarrow> sha1_rep (sha1_starts buf) []"
  by (simp add: sha_rep_def sha1_starts_def blocks_short sha1_iv_def)

lemma sha1_update_rep:
  assumes "sha1_rep ctx m" and "ilen < 2147483648" and "nat ilen \<le> length input"
  shows "\<exists>ctx'. sha1_update ctx input ilen = Some ctx' \<and> sha1_rep ctx' (m @ take (nat ilen) input)"
proof (cases "ilen \<le> 0")
  case False
  have "unat (word_of_int ilen :: u32) = nat ilen"
    using False assms(2) by (simp add: unat_eq_nat_uint uint_word_of_int_eq take_bit_eq_mod)
  then show ?thesis
    using False assms(3) sha_update_body_ok [OF assms(1), of "word_of_int ilen" input] by (simp add: sha1_update_def)
qed (use assms(1) in \<open>simp add: sha1_update_def\<close>)

lemma sint_small: "n < 128 \<Longrightarrow> sint n = uint n" for n :: u32
proof -
  assume "n < 128"
  then have u: "uint n < 128" by (simp add: word_less_def)
  have p: "0 \<le> uint n" by simp
  from p have "- (2 ^ 31) \<le> uint n" by (rule order_trans [rotated]) simp
  moreover from u have "uint n < 2 ^ 31" by (rule order_less_trans) simp
  ultimately have "signed_take_bit 31 (uint n) = uint n" by (rule signed_take_bit_int_eq_self)
  then show ?thesis by (simp add: sint_uint)
qed

lemma sha1_finish_rep: "sha1_rep ctx m \<Longrightarrow> sha1_finish ctx = Some (sha1_spec m)"
proof -
  assume rep: "sha1_rep ctx m"
  have "sha_finish_body (\<lambda>c x n. sha1_update c x (sint n)) ctx = Some (fst (blocks sha1_process sha1_iv (sha_pad m)))"
  proof (rule sha_finish_body_ok [OF rep])
    fix c x and n :: u32
    assume n: "n \<noteq> 0" "n < 128"
    have "uint n \<noteq> 0" using n(1) by (simp add: uint_0_iff)
    then have "0 < sint n" using sint_small [OF n(2)] uint_ge_0 [of n] by linarith
    moreover have "word_of_int (sint n) = n" by simp
    ultimately show "sha1_update c x (sint n) = sha_update_body sha1_process c x n"
      by (simp add: sha1_update_def)
  qed
  then show ?thesis by (simp add: sha1_finish_def sha1_spec_def sha1_blocks)
qed

interpretation sha1: stream_hash sha1_rep "sha1_starts (replicate 64 0)"
  "\<lambda>c x. sha1_update c x (int (length x))" sha1_finish sha1_spec 2147483648
proof
  show "sha1_rep (sha1_starts (replicate 64 0)) []" by (simp add: sha1_starts_rep)
  fix c m x
  assume rep: "sha1_rep c m"
  show "\<exists>c'. sha1_update c x (int (length x)) = Some c' \<and> sha1_rep c' (m @ x)" if "length x < 2147483648"
    using sha1_update_rep [OF rep, of "int (length x)" x] that by simp
  show "sha1_finish c = Some (sha1_spec m)" by (rule sha1_finish_rep [OF rep])
qed

text \<open>
  On a message of less than 2 GiB, \<open>sha1_csum\<close> and its watchdog variant with any positive chunk
  size return the SHA-1 digest of FIPS 180 (the unrolled, in-place rounds over the circular
  schedule being the rounds of the standard), and no access leaves a buffer.
\<close>

theorem sha1_csum_correct:
  assumes "length buf = 64" and "nat ilen \<le> length input" and "ilen < 2147483648" and "0 < chunk_sz"
  shows "sha1_csum buf input ilen = Some (sha1_spec (take (nat ilen) input)) \<and>
    sha1_csum_wd wd buf input ilen chunk_sz = sha1_csum buf input ilen"
proof -
  let ?m = "take (nat ilen) input"
  obtain c where c: "sha1_update (sha1_starts buf) input ilen = Some c" "sha1_rep c ?m"
    using sha1_update_rep [OF sha1_starts_rep [OF assms(1)] assms(3,2)] by auto
  have small: "length ?m < 2147483648" using assms(3) by simp
  then have "\<forall>x\<in>set (chunks (unat chunk_sz) ?m). length x < 2147483648"
    using chunks_size [of _ "unat chunk_sz" ?m] by fastforce
  from sha1.feed_rep [OF sha1_starts_rep [OF assms(1)] this]
  obtain c' where c': "feed (\<lambda>c x. sha1_update c x (int (length x))) (sha1_starts buf) (chunks (unat chunk_sz) ?m) = Some c'"
      "sha1_rep c' ?m"
    using assms(4) by (auto simp: concat_chunks word_less_nat_alt)
  show ?thesis
    using c c' assms by (simp add: sha1_csum_def sha1_csum_wd_def wd_loop_feed sha1_finish_rep)
qed

theorem sha1_csum_correct_witness:
  "sha1_csum (replicate 64 9) [0x61, 0x62, 0x63, 0x64] 3 = Some (sha1_spec [0x61, 0x62, 0x63])"
  using sha1_csum_correct [of "replicate 64 9" 3 "[0x61, 0x62, 0x63, 0x64]" 1 False] by simp

section \<open>HMAC\<close>

lemma hmac_pad_ok:
  "i + n \<le> length key \<Longrightarrow> length k = 64 \<Longrightarrow> i \<le> 64 \<Longrightarrow>
   hmac_pad k key i n = Some (take i k @ map2 (XOR) (drop i (take 64 k)) (take n (drop i key)) @ drop (i + n) k)"
proof (induction n arbitrary: i k)
  case (Suc n)
  show ?case
  proof (cases "64 \<le> i")
    case True
    then show ?thesis using Suc.prems by simp
  next
    case False
    let ?k = "k[i := k ! i XOR key ! i]"
    have "drop i k = k ! i # drop (Suc i) k" "take (Suc n) (drop i key) = key ! i # take n (drop (Suc i) key)"
      using False Suc.prems by (simp_all add: Cons_nth_drop_Suc [symmetric])
    moreover have "take (Suc i) ?k = take i k @ [k ! i XOR key ! i]"
      using False Suc.prems by (simp add: take_update_last)
    ultimately show ?thesis using False Suc.prems Suc.IH [of "Suc i" ?k] by simp
  qed
qed simp

text \<open>The key block: the key, cut to 64 bytes, over a filled block.\<close>

definition hmac_block :: "u8 \<Rightarrow> u8 list \<Rightarrow> u8 list" where
  "hmac_block b key = map (\<lambda>x. b XOR x) (take 64 key) @ replicate (64 - length key) b"

lemma hmac_pad_block: "hmac_pad (replicate 64 b) key 0 (length key) = Some (hmac_block b key)"
proof -
  have "map2 (XOR) (replicate 64 b) key = map (\<lambda>x. b XOR x) (take 64 key)"
    by (rule nth_equalityI) simp_all
  then show ?thesis using hmac_pad_ok [of 0 "length key" key "replicate 64 b"] by (simp add: hmac_block_def)
qed

text \<open>
  \<open>sha1_hmac\<close> returns the HMAC construction over SHA-1 for the first 64 bytes of the key: for a
  key of at most 64 bytes this is HMAC-SHA-1.
\<close>

theorem sha1_hmac_correct:
  assumes "length buf = 64" and "length input < 2147483648"
  shows "sha1_hmac buf key (int (length key)) input (int (length input)) =
    Some (sha1_spec (hmac_block 0x5C key @ sha1_spec (hmac_block 0x36 key @ input)))"
proof -
  have l: "length (hmac_block b key) = 64" for b by (simp add: hmac_block_def)
  obtain c1 where c1: "sha1_update (sha1_starts buf) (hmac_block 0x36 key) 64 = Some c1" "sha1_rep c1 (hmac_block 0x36 key)"
    using sha1_update_rep [OF sha1_starts_rep [OF assms(1)], of 64 "hmac_block 0x36 key"] l by auto
  obtain c2 where c2: "sha1_update c1 input (int (length input)) = Some c2" "sha1_rep c2 (hmac_block 0x36 key @ input)"
    using sha1_update_rep [OF c1(2), of "int (length input)" input] assms(2) by auto
  let ?tmp = "sha1_spec (hmac_block 0x36 key @ input)"
  have buf: "length (sha_buffer c2) = 64" using c2(2) by (simp add: sha_rep_def)
  obtain c3 where c3: "sha1_update (sha1_starts (sha_buffer c2)) (hmac_block 0x5C key) 64 = Some c3" "sha1_rep c3 (hmac_block 0x5C key)"
    using sha1_update_rep [OF sha1_starts_rep [OF buf], of 64 "hmac_block 0x5C key"] l by auto
  obtain c4 where c4: "sha1_update c3 ?tmp 20 = Some c4" "sha1_rep c4 (hmac_block 0x5C key @ ?tmp)"
    using sha1_update_rep [OF c3(2), of 20 ?tmp] by (auto simp: length_sha1_spec)
  show ?thesis
    by (simp add: sha1_hmac_def hmac_pad_block c1(1) c2(1) c3(1) c4(1) sha1_finish_rep [OF c2(2)] sha1_finish_rep [OF c4(2)])
qed

theorem sha1_hmac_correct_witness:
  "sha1_hmac (replicate 64 0) [1, 2] 2 [3] 1 =
     Some (sha1_spec (hmac_block 0x5C [1, 2] @ sha1_spec (hmac_block 0x36 [1, 2] @ [3])))"
  using sha1_hmac_correct [of "replicate 64 0" "[3]" "[1, 2]"] by simp

text \<open>A longer key is cut, not hashed first: two keys with the same first 64 bytes are the same key.\<close>

lemma sha1_hmac_long_keys_collide:
  assumes "length buf = 64" and "length input < 2147483648" and "take 64 k1 = take 64 k2"
    and "64 \<le> length k1" and "64 \<le> length k2"
  shows "sha1_hmac buf k1 (int (length k1)) input (int (length input)) =
     sha1_hmac buf k2 (int (length k2)) input (int (length input))"
  using assms by (simp add: sha1_hmac_correct hmac_block_def)

end
