(* ===== verification/Md5.thy ===== *)
theory Md5
  imports BlockHash
begin

text \<open>
  MD5, \<^verbatim>\<open>lib_generic/md5.c\<close>.  The target is little-endian: a store of a 32-bit word writes its
  least significant byte first, and \<open>byteReverse\<close> leaves its buffer as it is, which is proved and
  not assumed.
\<close>

section \<open>The code\<close>

text \<open>\<open>struct MD5Context\<close>.\<close>

record MD5Context =
  md5_buf :: "u32 list"
  md5_bits0 :: u32
  md5_bits1 :: u32
  md5_in :: "u8 list"

text \<open>A 32-bit word in memory on the target.\<close>

definition store_le :: "u32 \<Rightarrow> u8 list" where
  "store_le w = [ucast w, ucast (drop_bit 8 w), ucast (drop_bit 16 w), ucast (drop_bit 24 w)]"

definition load_le :: "u8 list \<Rightarrow> nat \<Rightarrow> u32" where
  "load_le b i = push_bit 24 (ucast (b ! (i + 3))) OR push_bit 16 (ucast (b ! (i + 2))) OR
     push_bit 8 (ucast (b ! (i + 1))) OR ucast (b ! i)"

text \<open>The value \<open>t\<close> computed by \<open>byteReverse\<close>.\<close>

definition word_of_bytes :: "u8 \<Rightarrow> u8 \<Rightarrow> u8 \<Rightarrow> u8 \<Rightarrow> u32" where
  "word_of_bytes b3 b2 b1 b0 =
     push_bit 16 (push_bit 8 (ucast b3) OR ucast b2) OR (push_bit 8 (ucast b1) OR ucast b0)"

text \<open>
  \<open>byteReverse\<close> on the bytes from \<open>p\<close> on.  The loop tests after the body, so a count of 0 would
  run through the whole address space: it leaves every buffer.
\<close>

fun byteReverse :: "u8 list \<Rightarrow> nat \<Rightarrow> nat \<Rightarrow> u8 list option" where
  "byteReverse buf p 0 = None"
| "byteReverse buf p (Suc longs) = do {
     b3 \<leftarrow> rd buf (p + 3); b2 \<leftarrow> rd buf (p + 2); b1 \<leftarrow> rd buf (p + 1); b0 \<leftarrow> rd buf p;
     buf' \<leftarrow> copy_in buf p (store_le (word_of_bytes b3 b2 b1 b0)) 4;
     if longs = 0 then Some buf' else byteReverse buf' (p + 4) longs }"

text \<open>The macros \<open>F1\<close> to \<open>F4\<close>, and \<open>MD5STEP\<close> on the registers \<open>a\<close> to \<open>d\<close>, \<open>w\<close> being register \<open>r\<close>.\<close>

definition F1 :: "u32 \<Rightarrow> u32 \<Rightarrow> u32 \<Rightarrow> u32" where "F1 x y z = z XOR (x AND (y XOR z))"
definition F2 :: "u32 \<Rightarrow> u32 \<Rightarrow> u32 \<Rightarrow> u32" where "F2 x y z = F1 z x y"
definition F3 :: "u32 \<Rightarrow> u32 \<Rightarrow> u32 \<Rightarrow> u32" where "F3 x y z = x XOR y XOR z"
definition F4 :: "u32 \<Rightarrow> u32 \<Rightarrow> u32 \<Rightarrow> u32" where "F4 x y z = y XOR (x OR NOT z)"

definition MD5STEP :: "(u32 \<Rightarrow> u32 \<Rightarrow> u32 \<Rightarrow> u32) \<Rightarrow> nat \<Rightarrow> u32 \<Rightarrow> nat \<Rightarrow> u32 list \<Rightarrow> u32 list" where
  "MD5STEP f r data s v =
     (let x = v ! ((r + 1) mod 4); y = v ! ((r + 2) mod 4); z = v ! ((r + 3) mod 4);
          w = v ! r + (f x y z + data);
          w = push_bit s w OR drop_bit (32 - s) w in
      v[r := w + x])"

text \<open>The 64 lines of \<open>MD5Transform\<close>: function, register \<open>w\<close>, index into \<open>in\<close>, constant, shift.\<close>

definition md5_steps :: "((u32 \<Rightarrow> u32 \<Rightarrow> u32 \<Rightarrow> u32) \<times> nat \<times> nat \<times> u32 \<times> nat) list" where
  "md5_steps = [
     (F1, 0, 0, 0xd76aa478, 7), (F1, 3, 1, 0xe8c7b756, 12), (F1, 2, 2, 0x242070db, 17), (F1, 1, 3, 0xc1bdceee, 22),
     (F1, 0, 4, 0xf57c0faf, 7), (F1, 3, 5, 0x4787c62a, 12), (F1, 2, 6, 0xa8304613, 17), (F1, 1, 7, 0xfd469501, 22),
     (F1, 0, 8, 0x698098d8, 7), (F1, 3, 9, 0x8b44f7af, 12), (F1, 2, 10, 0xffff5bb1, 17), (F1, 1, 11, 0x895cd7be, 22),
     (F1, 0, 12, 0x6b901122, 7), (F1, 3, 13, 0xfd987193, 12), (F1, 2, 14, 0xa679438e, 17), (F1, 1, 15, 0x49b40821, 22),
     (F2, 0, 1, 0xf61e2562, 5), (F2, 3, 6, 0xc040b340, 9), (F2, 2, 11, 0x265e5a51, 14), (F2, 1, 0, 0xe9b6c7aa, 20),
     (F2, 0, 5, 0xd62f105d, 5), (F2, 3, 10, 0x02441453, 9), (F2, 2, 15, 0xd8a1e681, 14), (F2, 1, 4, 0xe7d3fbc8, 20),
     (F2, 0, 9, 0x21e1cde6, 5), (F2, 3, 14, 0xc33707d6, 9), (F2, 2, 3, 0xf4d50d87, 14), (F2, 1, 8, 0x455a14ed, 20),
     (F2, 0, 13, 0xa9e3e905, 5), (F2, 3, 2, 0xfcefa3f8, 9), (F2, 2, 7, 0x676f02d9, 14), (F2, 1, 12, 0x8d2a4c8a, 20),
     (F3, 0, 5, 0xfffa3942, 4), (F3, 3, 8, 0x8771f681, 11), (F3, 2, 11, 0x6d9d6122, 16), (F3, 1, 14, 0xfde5380c, 23),
     (F3, 0, 1, 0xa4beea44, 4), (F3, 3, 4, 0x4bdecfa9, 11), (F3, 2, 7, 0xf6bb4b60, 16), (F3, 1, 10, 0xbebfbc70, 23),
     (F3, 0, 13, 0x289b7ec6, 4), (F3, 3, 0, 0xeaa127fa, 11), (F3, 2, 3, 0xd4ef3085, 16), (F3, 1, 6, 0x04881d05, 23),
     (F3, 0, 9, 0xd9d4d039, 4), (F3, 3, 12, 0xe6db99e5, 11), (F3, 2, 15, 0x1fa27cf8, 16), (F3, 1, 2, 0xc4ac5665, 23),
     (F4, 0, 0, 0xf4292244, 6), (F4, 3, 7, 0x432aff97, 10), (F4, 2, 14, 0xab9423a7, 15), (F4, 1, 5, 0xfc93a039, 21),
     (F4, 0, 12, 0x655b59c3, 6), (F4, 3, 3, 0x8f0ccc92, 10), (F4, 2, 10, 0xffeff47d, 15), (F4, 1, 1, 0x85845dd1, 21),
     (F4, 0, 8, 0x6fa87e4f, 6), (F4, 3, 15, 0xfe2ce6e0, 10), (F4, 2, 6, 0xa3014314, 15), (F4, 1, 13, 0x4e0811a1, 21),
     (F4, 0, 4, 0xf7537e82, 6), (F4, 3, 11, 0xbd3af235, 10), (F4, 2, 2, 0x2ad7d2bb, 15), (F4, 1, 9, 0xeb86d391, 21)]"

text \<open>\<open>in\<close> is the input buffer read as sixteen words.\<close>

definition MD5Transform :: "u32 list \<Rightarrow> u8 list \<Rightarrow> u32 list" where
  "MD5Transform buf b =
     (let win = map (\<lambda>i. load_le b (4 * i)) [0..<16];
          v = fold (\<lambda>(f, r, k, c, s). MD5STEP f r (win ! k + c) s) md5_steps buf in
      map2 (+) buf v)"

definition MD5Init :: "u8 list \<Rightarrow> MD5Context" where
  "MD5Init garbage = \<lparr>md5_buf = [0x67452301, 0xefcdab89, 0x98badcfe, 0x10325476],
     md5_bits0 = 0, md5_bits1 = 0, md5_in = garbage\<rparr>"

text \<open>The loop over 64-byte chunks.\<close>

fun md5_loop :: "u32 list \<Rightarrow> u8 list \<Rightarrow> u8 list \<Rightarrow> nat \<Rightarrow> (u32 list \<times> u8 list \<times> u8 list \<times> nat) option" where
  "md5_loop st b input len =
     (if 64 \<le> len
      then do {
        b \<leftarrow> copy_in b 0 input 64;
        b \<leftarrow> byteReverse b 0 16;
        md5_loop (MD5Transform st b) b (drop 64 input) (len - 64) }
      else Some (st, b, input, len))"

declare md5_loop.simps [simp del]

definition MD5Update :: "MD5Context \<Rightarrow> u8 list \<Rightarrow> u32 \<Rightarrow> MD5Context option" where
  "MD5Update ctx input len =
     (let t = md5_bits0 ctx;
          b0 = t + push_bit 3 len;
          b1 = (if b0 < t then md5_bits1 ctx + 1 else md5_bits1 ctx) + drop_bit 29 len;
          t = unat (drop_bit 3 t AND 0x3f) in
      if t \<noteq> 0 \<and> unat len < 64 - t
      then do {
        b \<leftarrow> copy_in (md5_in ctx) t input (unat len);
        Some \<lparr>md5_buf = md5_buf ctx, md5_bits0 = b0, md5_bits1 = b1, md5_in = b\<rparr> }
      else do {
        (st, b, input, len) \<leftarrow>
          (if t \<noteq> 0
           then do {
             b \<leftarrow> copy_in (md5_in ctx) t input (64 - t);
             b \<leftarrow> byteReverse b 0 16;
             Some (MD5Transform (md5_buf ctx) b, b, drop (64 - t) input, unat len - (64 - t)) }
           else Some (md5_buf ctx, md5_in ctx, input, unat len));
        (st, b, input, len) \<leftarrow> md5_loop st b input len;
        b \<leftarrow> copy_in b 0 input len;
        Some \<lparr>md5_buf = st, md5_bits0 = b0, md5_bits1 = b1, md5_in = b\<rparr> })"

text \<open>\<open>memset\<close> to zero inside the buffer, and \<open>MD5Final\<close>: the digest and the wiped context.\<close>

definition zero_in :: "u8 list \<Rightarrow> nat \<Rightarrow> nat \<Rightarrow> u8 list option" where
  "zero_in b p n = copy_in b p (replicate n 0) n"

definition MD5Final :: "MD5Context \<Rightarrow> (u8 list \<times> MD5Context) option" where
  "MD5Final ctx =
     (let count = unat (drop_bit 3 (md5_bits0 ctx) AND 0x3F) in do {
        b \<leftarrow> copy_in (md5_in ctx) count [0x80] 1;
        let p = count + 1;
        let count = 64 - 1 - count;
        (st, b) \<leftarrow>
          (if count < 8
           then do {
             b \<leftarrow> zero_in b p count;
             b \<leftarrow> byteReverse b 0 16;
             let st = MD5Transform (md5_buf ctx) b;
             b \<leftarrow> zero_in b 0 56;
             Some (st, b) }
           else do { b \<leftarrow> zero_in b p (count - 8); Some (md5_buf ctx, b) });
        b \<leftarrow> byteReverse b 0 14;
        b \<leftarrow> copy_in b (4 * 14) (store_le (md5_bits0 ctx)) 4;
        b \<leftarrow> copy_in b (4 * 15) (store_le (md5_bits1 ctx)) 4;
        let st = MD5Transform st b;
        digest \<leftarrow> byteReverse (concat (map store_le st)) 0 4;
        Some (digest, \<lparr>md5_buf = replicate 4 0, md5_bits0 = 0, md5_bits1 = 0, md5_in = replicate 64 0\<rparr>) })"

text \<open>\<open>garbage\<close> is the uninitialised buffer of the context on the stack.\<close>

definition md5 :: "u8 list \<Rightarrow> u8 list \<Rightarrow> int \<Rightarrow> u8 list option" where
  "md5 garbage input len = do {
     ctx \<leftarrow> MD5Update (MD5Init garbage) input (word_of_int len);
     (digest, _) \<leftarrow> MD5Final ctx;
     Some digest }"

definition md5_wd :: "bool \<Rightarrow> u8 list \<Rightarrow> u8 list \<Rightarrow> int \<Rightarrow> u32 \<Rightarrow> u8 list option" where
  "md5_wd watchdog garbage input len chunk_sz = do {
     ctx \<leftarrow> (if watchdog
       then if nat len \<le> length input
         then wd_loop (\<lambda>c x. MD5Update c x (word_of_nat (length x))) (MD5Init garbage) (take (nat len) input) chunk_sz
         else None
       else MD5Update (MD5Init garbage) input (word_of_int len));
     (digest, _) \<leftarrow> MD5Final ctx;
     Some digest }"

section \<open>The rounds of RFC 1321\<close>

definition rfc_f :: "nat \<Rightarrow> u32 \<Rightarrow> u32 \<Rightarrow> u32 \<Rightarrow> u32" where
  "rfc_f t x y z =
     (if t < 16 then (x AND y) OR (NOT x AND z)
      else if t < 32 then (x AND z) OR (y AND NOT z)
      else if t < 48 then x XOR y XOR z
      else y XOR (x OR NOT z))"

definition rfc_k :: "nat \<Rightarrow> nat" where
  "rfc_k t = (if t < 16 then t else if t < 32 then 1 + 5 * t else if t < 48 then 5 + 3 * t else 7 * t) mod 16"

definition rfc_s :: "nat \<Rightarrow> nat" where
  "rfc_s t =
     (if t < 16 then [7, 12, 17, 22] else if t < 32 then [5, 9, 14, 20]
      else if t < 48 then [4, 11, 16, 23] else [6, 10, 15, 21]) ! (t mod 4)"

text \<open>
  The table \<open>T\<close> of the RFC: \<open>2 ^ 32\<close> times the absolute value of the sine of \<open>t + 1\<close>, rounded down, in decimal.
\<close>

definition rfc_T :: "nat \<Rightarrow> u32" where
  "rfc_T t = [
     3614090360, 3905402710, 606105819, 3250441966, 4118548399, 1200080426, 2821735955, 4249261313, 1770035416, 2336552879,
     4294925233, 2304563134, 1804603682, 4254626195, 2792965006, 1236535329, 4129170786, 3225465664, 643717713, 3921069994,
     3593408605, 38016083, 3634488961, 3889429448, 568446438, 3275163606, 4107603335, 1163531501, 2850285829, 4243563512,
     1735328473, 2368359562, 4294588738, 2272392833, 1839030562, 4259657740, 2763975236, 1272893353, 4139469664, 3200236656,
     681279174, 3936430074, 3572445317, 76029189, 3654602809, 3873151461, 530742520, 3299628645, 4096336452, 1126891415,
     2878612391, 4237533241, 1700485571, 2399980690, 4293915773, 2240044497, 1873313359, 4264355552, 2734768916, 1309151649,
     4149444226, 3174756917, 718787259, 3951481745] ! t"

type_synonym regs4 = "u32 \<times> u32 \<times> u32 \<times> u32"

definition rfc_round :: "u8 list \<Rightarrow> nat \<Rightarrow> regs4 \<Rightarrow> regs4" where
  "rfc_round b t = (\<lambda>(a, b', c, d).
     (d, b' + word_rotl (rfc_s t) (a + rfc_f t b' c d + le_word b (4 * rfc_k t) + rfc_T t), b', c))"

fun list4 :: "regs4 \<Rightarrow> u32 list" where
  "list4 (a, b, c, d) = [a, b, c, d]"

definition tup4 :: "(nat \<Rightarrow> u32) \<Rightarrow> regs4" where
  "tup4 f = (f 0, f 1, f 2, f 3)"

definition rfc_compress :: "u32 list \<Rightarrow> u8 list \<Rightarrow> u32 list" where
  "rfc_compress st b = map2 (+) st (list4 (fold (rfc_round b) [0..<64] (tup4 (\<lambda>i. st ! i))))"

section \<open>The unrolled lines are those rounds\<close>

definition code_f :: "nat \<Rightarrow> u32 \<Rightarrow> u32 \<Rightarrow> u32 \<Rightarrow> u32" where
  "code_f t = (if t < 16 then F1 else if t < 32 then F2 else if t < 48 then F3 else F4)"

definition md5_reg :: "nat \<Rightarrow> nat \<Rightarrow> nat" where
  "md5_reg t j = (j + (4 - t mod 4)) mod 4"

lemma code_f_rfc: "code_f t x y z = rfc_f t x y z"
proof -
  have "F1 x y z = (x AND y) OR (NOT x AND z)" "F2 x y z = (x AND z) OR (y AND NOT z)"
    unfolding F1_def F2_def by (rule bit_word_eqI, auto simp: bit_simps)+
  then show ?thesis by (simp add: code_f_def rfc_f_def F3_def F4_def)
qed

lemma upt64: "[0..<64] = [0, 1, 2, 3, 4, 5, 6, 7, 8, 9, 10, 11, 12, 13, 14, 15, 16, 17, 18, 19, 20, 21, 22, 23, 24, 25, 26, 27, 28, 29, 30, 31, 32, 33, 34, 35, 36, 37, 38, 39, 40, 41, 42, 43, 44, 45, 46, 47, 48, 49, 50, 51, 52, 53, 54, 55, 56, 57, 58, 59, 60, 61, 62, 63 :: nat]"
  by (simp add: upt_rec)

lemma md5_steps_rounds:
  "md5_steps = map (\<lambda>t. (code_f t, md5_reg t 0, rfc_k t, rfc_T t, rfc_s t)) [0..<64]"
  by (simp add: md5_steps_def upt64 code_f_def md5_reg_def rfc_k_def rfc_s_def rfc_T_def)

lemma load_le_word: "load_le b i = le_word b i"
  by (simp only: load_le_def le_word_def or_bytes)

lemma length4: "length v = 4 \<Longrightarrow> \<exists>A B C D. v = [A, B, C, D]"
  by (auto simp: numeral_eq_Suc length_Suc_conv)

definition md5_view :: "nat \<Rightarrow> u32 list \<Rightarrow> regs4" where
  "md5_view t v = tup4 (\<lambda>j. v ! md5_reg t j)"

lemma mod4_cases: "t mod 4 = (0::nat) \<or> t mod 4 = 1 \<or> t mod 4 = 2 \<or> t mod 4 = 3"
  by presburger

lemma rfc_s_range: "0 < rfc_s t \<and> rfc_s t < 32"
  using mod4_cases [of t] by (auto simp: rfc_s_def)

lemma MD5STEP_round:
  assumes "length v = 4"
  shows "length (MD5STEP (code_f t) (md5_reg t 0) (load_le b (4 * rfc_k t) + rfc_T t) (rfc_s t) v) = 4 \<and>
    md5_view (Suc t) (MD5STEP (code_f t) (md5_reg t 0) (load_le b (4 * rfc_k t) + rfc_T t) (rfc_s t) v)
      = rfc_round b t (md5_view t v)"
proof -
  obtain A B C D where v: "v = [A, B, C, D]"
    using assms(1) by (auto simp: numeral_eq_Suc length_Suc_conv)
  have rot: "push_bit (rfc_s t) x OR drop_bit (32 - rfc_s t) x = word_rotl (rfc_s t) x" for x :: u32
    using rfc_s_range [of t] by (intro rotl_shifts) auto
  show ?thesis
    using mod4_cases [of t]
    by (elim disjE) (simp_all add: MD5STEP_def Let_def v md5_view_def tup4_def md5_reg_def rfc_round_def
      code_f_rfc load_le_word rot mod_Suc ac_simps)
qed

lemma md5_rounds:
  "length st = 4 \<Longrightarrow>
   (let v = fold (\<lambda>t. MD5STEP (code_f t) (md5_reg t 0) (load_le b (4 * rfc_k t) + rfc_T t) (rfc_s t)) [0..<n] st in
    length v = 4 \<and> md5_view n v = fold (rfc_round b) [0..<n] (md5_view 0 st))"
proof (induction n)
  case (Suc n)
  then show ?case using MD5STEP_round [of _ n b] by (simp add: Let_def)
qed (simp add: Let_def)

lemma md5_transform_rfc:
  assumes "length st = 4"
  shows "MD5Transform st b = rfc_compress st b"
proof -
  let ?step = "\<lambda>t. MD5STEP (code_f t) (md5_reg t 0) (load_le b (4 * rfc_k t) + rfc_T t) (rfc_s t)"
  let ?v = "fold ?step [0..<64] st"
  have "rfc_k t < 16" for t by (simp add: rfc_k_def)
  then have win: "map (\<lambda>i. load_le b (4 * i)) [0..<16] ! rfc_k t = load_le b (4 * rfc_k t)" for t
    by simp
  have tr: "MD5Transform st b = map2 (+) st ?v"
    unfolding MD5Transform_def Let_def md5_steps_rounds fold_map comp_def prod.case win ..
  have v: "length ?v = 4" "md5_view 64 ?v = fold (rfc_round b) [0..<64] (md5_view 0 st)"
    using md5_rounds [OF assms, of b 64] unfolding Let_def by blast+
  obtain A B C D where ABCD: "?v = [A, B, C, D]"
    using length4 [OF v(1)] by blast
  then have "list4 (md5_view 64 ?v) = ?v" unfolding ABCD by (simp add: md5_view_def tup4_def md5_reg_def)
  moreover have "md5_view 0 st = tup4 (\<lambda>i. st ! i)" by (simp add: md5_view_def tup4_def md5_reg_def)
  ultimately show ?thesis using v(2) unfolding tr rfc_compress_def by (simp only:)
qed

section \<open>Byte order\<close>

lemma store_le_load:
  "store_le (word_of_bytes b3 b2 b1 b0) = [b0, b1, b2, b3]"
  unfolding store_le_def word_of_bytes_def list.inject
  by (intro conjI; (rule bit_word_eqI)?) (auto simp: bit_simps dest: bit_imp_le_length)

lemma length_store_le [simp]: "length (store_le w) = 4"
  by (simp add: store_le_def)

lemma byteReverse_id: "0 < n \<Longrightarrow> p + 4 * n \<le> length buf \<Longrightarrow> byteReverse buf p n = Some buf"
proof (induction n arbitrary: p)
  case (Suc longs)
  have "drop p buf = buf ! p # buf ! (p + 1) # buf ! (p + 2) # buf ! (p + 3) # drop (p + 4) buf"
    using Suc.prems by (simp add: Cons_nth_drop_Suc numeral_eq_Suc)
  then have "buf = take p buf @ [buf ! p, buf ! (p + 1), buf ! (p + 2), buf ! (p + 3)] @ drop (p + 4) buf"
    by (metis append_Cons append_Nil append_take_drop_id)
  then have same: "copy_in buf p [buf ! p, buf ! (p + 1), buf ! (p + 2), buf ! (p + 3)] 4 = Some buf"
    using Suc.prems by simp
  show ?case
    using Suc.IH [of "p + 4"] Suc.prems same by (cases "longs = 0") (simp_all add: store_le_load Let_def)
qed simp

section \<open>The message a context represents\<close>

definition md5_iv :: "u32 list" where
  "md5_iv = [0x67452301, 0xefcdab89, 0x98badcfe, 0x10325476]"

definition md5_rep :: "MD5Context \<Rightarrow> u8 list \<Rightarrow> bool" where
  "md5_rep ctx m \<longleftrightarrow>
     (unat (md5_bits0 ctx) + 4294967296 * unat (md5_bits1 ctx)) mod 18446744073709551616
       = 8 * length m mod 18446744073709551616 \<and>
     length (md5_in ctx) = 64 \<and>
     blocks MD5Transform md5_iv m = (md5_buf ctx, take (length m mod 64) (md5_in ctx))"

text \<open>The padding of RFC 1321: as for the SHA functions, with a little-endian length.\<close>

definition md5_pad :: "u8 list \<Rightarrow> u8 list" where
  "md5_pad m =
     (let r = length m mod 64 in
      m @ 0x80 # replicate (if r < 56 then 55 - r else 119 - r) 0 @
      store_le (word_of_nat (8 * length m)) @ store_le (word_of_nat (8 * length m div 4294967296)))"

definition md5_spec :: "u8 list \<Rightarrow> u8 list" where
  "md5_spec m = concat (map store_le (fst (blocks rfc_compress md5_iv (md5_pad m))))"

lemma md5_bits_of:
  fixes b0 b1 :: u32
  assumes "(unat b0 + 4294967296 * unat b1) mod 18446744073709551616 = k mod 18446744073709551616"
  shows "b0 = word_of_nat k \<and> b1 = word_of_nat (k div 4294967296)"
proof -
  have lt: "unat b0 < 4294967296" "unat b1 < 4294967296" by (rule unat_word_lt)+
  then have "unat b0 + 4294967296 * unat b1 < 18446744073709551616" by linarith
  then have eq: "unat b0 + 4294967296 * unat b1 = k mod 18446744073709551616" using assms by simp
  have "unat b0 = (unat b0 + 4294967296 * unat b1) mod 4294967296" using lt by simp
  also have "\<dots> = k mod 4294967296" unfolding eq by (simp add: mod_mod_cancel)
  finally have 0: "unat b0 = k mod 4294967296" .
  have "unat b1 = (unat b0 + 4294967296 * unat b1) div 4294967296" using lt by simp
  also have "\<dots> = k div 4294967296 mod 4294967296" unfolding eq by (simp add: div_mod_nat)
  finally have 1: "unat b1 = k div 4294967296 mod 4294967296" .
  show ?thesis using 0 1 by (simp add: word_unat_eq_iff unat_of_nat)
qed

lemma unat_drop_bit_div: "unat (drop_bit n w) = unat w div 2 ^ n" for w :: u32
  using unat_drop_bit_eq [of n w] by (simp only: drop_bit_eq_div [where ?'a = nat])

lemma md5_left:
  fixes b0 b1 :: u32
  assumes "(unat b0 + 4294967296 * unat b1) mod 18446744073709551616 = 8 * k mod 18446744073709551616"
  shows "unat (drop_bit 3 b0 AND 0x3f) = k mod 64"
proof -
  have "drop_bit 3 b0 AND 0x3f = take_bit 6 (drop_bit 3 b0)" by (simp add: take_bit_eq_mask mask_eq_exp_minus_1)
  then have "unat (drop_bit 3 b0 AND 0x3f) = take_bit 6 (unat (drop_bit 3 b0))" by (simp only: unsigned_take_bit_eq)
  also have "\<dots> = unat b0 div 8 mod 64" by (simp add: unat_drop_bit_div take_bit_eq_mod)
  also have "unat b0 = 8 * k mod 4294967296"
    unfolding conjunct1 [OF md5_bits_of [OF assms]] unat_of_nat by simp
  also have "8 * k mod 4294967296 div 8 mod 64 = k mod 64"
  proof -
    have "8 * k mod 4294967296 = 8 * (k mod 536870912)" using mult_mod_right [of 8 k 536870912] by simp
    then show ?thesis by (simp only: nonzero_mult_div_cancel_left) (simp add: mod_mod_cancel)
  qed
  finally show ?thesis .
qed

lemma md5_count:
  fixes b0 b1 len :: u32
  assumes "(unat b0 + 4294967296 * unat b1) mod 18446744073709551616 = 8 * k mod 18446744073709551616"
  shows "(unat (b0 + push_bit 3 len) +
      4294967296 * unat ((if b0 + push_bit 3 len < b0 then b1 + 1 else b1) + drop_bit 29 len)) mod 18446744073709551616
     = 8 * (k + unat len) mod 18446744073709551616"
proof -
  let ?x = "push_bit 3 len"
  let ?c = "if b0 + ?x < b0 then b1 + 1 else b1"
  let ?h = "unat len div 536870912"
  have c: "(unat (b0 + ?x) + 4294967296 * unat ?c) mod 18446744073709551616 =
      ((unat ?x + 4294967296 * unat b1) + unat b0) mod 18446744073709551616"
    using sha_count [OF refl, where ?t0.0 = ?x and ?t1.0 = b1 and len = b0] by (simp add: add.commute)
  have "unat (?c + drop_bit 29 len) = (unat ?c + ?h) mod 4294967296"
    using unat_word_ariths(1) [of ?c "drop_bit 29 len"] by (simp only: unat_drop_bit_div) simp
  then have "(unat (b0 + ?x) + 4294967296 * unat (?c + drop_bit 29 len)) mod 18446744073709551616
      = ((unat (b0 + ?x) + 4294967296 * unat ?c) + 4294967296 * ?h) mod 18446744073709551616"
    by (simp only: high_mod) (simp only: add_mult_distrib2 add.assoc)
  also have "\<dots> = (((unat ?x + 4294967296 * unat b1) + unat b0) + 4294967296 * ?h) mod 18446744073709551616"
    by (rule mod_add_cong [OF c refl])
  also have "((unat ?x + 4294967296 * unat b1) + unat b0) + 4294967296 * ?h
      = (unat b0 + 4294967296 * unat b1) + (unat ?x + 4294967296 * ?h)" by (simp only: ac_simps)
  also have "unat ?x + 4294967296 * ?h = 8 * unat len"
  proof -
    have "8 * unat len div 4294967296 = ?h" using div_mult_mult1 [of 8 "unat len" 536870912] by simp
    then show ?thesis using mod_mult_div_eq [of "8 * unat len" 4294967296] by (simp only: unat_push_bit_3)
  qed
  finally show ?thesis using mod_add_cong [OF assms refl, of "8 * unat len"] by (simp only: distrib_left)
qed

lemma md5_loop_ok:
  "n \<le> length input \<Longrightarrow> length b = 64 \<Longrightarrow> \<exists>st' b' input' n'. md5_loop st b input n = Some (st', b', input', n') \<and>
     n' < 64 \<and> n' \<le> length input' \<and> length b' = 64 \<and> blocks MD5Transform st (take n input) = (st', take n' input')"
proof (induction "n" arbitrary: st b input rule: less_induct)
  case (less n)
  show ?case
  proof (cases "64 \<le> n")
    case True
    let ?b = "take 64 input"
    have b: "copy_in b 0 input 64 = Some ?b" "byteReverse ?b 0 16 = Some ?b" "length ?b = 64"
      using True less.prems by (auto intro!: byteReverse_id)
    then have "blocks MD5Transform st (take n input) = blocks MD5Transform (MD5Transform st ?b) (take (n - 64) (drop 64 input))"
      using True less.prems by (simp add: blocks_long drop_take min_def)
    then show ?thesis
      using less.IH [of "n - 64" "drop 64 input" ?b "MD5Transform st ?b"] less.prems True b
      by (simp add: md5_loop.simps [of st b input n])
  qed (use less.prems in \<open>simp add: md5_loop.simps [of st b input n] blocks_short\<close>)
qed

lemma md5_repI:
  "(unat b0 + 4294967296 * unat b1) mod 18446744073709551616 = 8 * length m mod 18446744073709551616 \<Longrightarrow>
   blocks MD5Transform md5_iv m = (st, rest) \<Longrightarrow> length b = 64 \<Longrightarrow> rest = take (length m mod 64) b \<Longrightarrow>
   md5_rep \<lparr>md5_buf = st, md5_bits0 = b0, md5_bits1 = b1, md5_in = b\<rparr> m"
  by (simp add: md5_rep_def)

lemma md5_update_rep:
  assumes rep: "md5_rep ctx m" and len: "unat len \<le> length input"
  shows "\<exists>ctx'. MD5Update ctx input len = Some ctx' \<and> md5_rep ctx' (m @ take (unat len) input)"
proof -
  let ?t = "length m mod 64"
  let ?b = "md5_in ctx"
  have count: "(unat (md5_bits0 ctx) + 4294967296 * unat (md5_bits1 ctx)) mod 18446744073709551616
      = 8 * length m mod 18446744073709551616"
    and b: "length ?b = 64" and bl: "blocks MD5Transform md5_iv m = (md5_buf ctx, take ?t ?b)"
    using rep by (simp_all add: md5_rep_def)
  have left: "unat (drop_bit 3 (md5_bits0 ctx) AND 0x3f) = ?t" by (rule md5_left [OF count])
  define new where "new = take (unat len) input"
  let ?lo = "md5_bits0 ctx + push_bit 3 len"
  let ?hi = "(if ?lo < md5_bits0 ctx then md5_bits1 ctx + 1 else md5_bits1 ctx) + drop_bit 29 len"
  have count': "(unat ?lo + 4294967296 * unat ?hi) mod 18446744073709551616
      = 8 * length (m @ new) mod 18446744073709551616"
    using md5_count [OF count, of len] len by (simp add: new_def)
  have step: "blocks MD5Transform md5_iv (m @ new) = blocks MD5Transform (md5_buf ctx) (take ?t ?b @ new)"
    using blocks_append [of MD5Transform md5_iv m new] bl by simp
  have lt: "?t < 64" by simp
  show ?thesis
  proof (cases "?t \<noteq> 0 \<and> unat len < 64 - ?t")
    case True
    let ?b' = "take ?t ?b @ take (unat len) input @ drop (?t + unat len) ?b"
    have short: "length (take ?t ?b @ new) = ?t + unat len" "?t + unat len < 64"
      using True b len by (auto simp: new_def)
    then have bl': "blocks MD5Transform md5_iv (m @ new) = (md5_buf ctx, take ?t ?b @ new)"
      unfolding step by (intro blocks_short) simp
    then have n: "length (m @ new) mod 64 = ?t + unat len"
      using blocks_rest [of MD5Transform md5_iv "m @ new"] short by simp
    have lb: "length ?b' = 64" using short b len by simp
    have "MD5Update ctx input len =
        Some \<lparr>md5_buf = md5_buf ctx, md5_bits0 = ?lo, md5_bits1 = ?hi, md5_in = ?b'\<rparr>"
      unfolding MD5Update_def left Let_def using True short b len by simp
    moreover have "take ?t ?b @ new = take (length (m @ new) mod 64) ?b'"
      unfolding n using b len lt by (simp add: new_def)
    ultimately show ?thesis using md5_repI [OF count' bl' lb] unfolding new_def by blast
  next
    case False
    let ?f = "64 - ?t"
    obtain st b1 in1 n1 where pre:
        "(if ?t \<noteq> 0 then do { b \<leftarrow> copy_in ?b ?t input ?f; b \<leftarrow> byteReverse b 0 16;
            Some (MD5Transform (md5_buf ctx) b, b, drop ?f input, unat len - ?f) }
          else Some (md5_buf ctx, ?b, input, unat len)) = Some (st, b1, in1, n1)"
        "length b1 = 64" "n1 \<le> length in1"
        "blocks MD5Transform (md5_buf ctx) (take ?t ?b @ new) = blocks MD5Transform st (take n1 in1)"
    proof (cases "?t = 0")
      case True
      then show thesis using that [of "md5_buf ctx" ?b input "unat len"] b len by (simp add: new_def)
    next
      case t: False
      let ?x = "take ?t ?b @ take ?f input"
      have lx: "length ?x = 64" using t False b len by simp
      then have x: "copy_in ?b ?t input ?f = Some ?x" "byteReverse ?x 0 16 = Some ?x"
        using t False b len by (simp, intro byteReverse_id) simp_all
      have "new = take ?f input @ take (unat len - ?f) (drop ?f input)"
        using False t len by (metis le_add_diff_inverse new_def not_less take_add)
      then have new: "take ?t ?b @ new = ?x @ take (unat len - ?f) (drop ?f input)" by (simp only: append_assoc)
      have le: "unat len - ?f \<le> length (drop ?f input)" using len by simp
      have bl: "blocks MD5Transform (md5_buf ctx) (take ?t ?b @ new) =
          blocks MD5Transform (MD5Transform (md5_buf ctx) ?x) (take (unat len - ?f) (drop ?f input))"
        unfolding new by (rule blocks_exact [OF lx])
      show thesis by (rule that [OF _ lx le bl]) (use t x in simp)
    qed
    from md5_loop_ok [OF pre(3,2), of st]
    obtain st' b' in' n' where run: "md5_loop st b1 in1 n1 = Some (st', b', in', n')" "n' < 64" "n' \<le> length in'"
        "length b' = 64" "blocks MD5Transform st (take n1 in1) = (st', take n' in')" by blast
    have bl': "blocks MD5Transform md5_iv (m @ new) = (st', take n' in')"
      unfolding step pre(4) by (rule run(5))
    then have n: "length (m @ new) mod 64 = n'"
      using blocks_rest [of MD5Transform md5_iv "m @ new"] run(3) by simp
    let ?b' = "take n' in' @ drop n' b'"
    have lb: "length ?b' = 64" using run by simp
    have "MD5Update ctx input len =
        Some \<lparr>md5_buf = st', md5_bits0 = ?lo, md5_bits1 = ?hi, md5_in = ?b'\<rparr>"
      unfolding MD5Update_def left Let_def if_not_P [OF False] pre(1) Option.bind.bind_lunit prod.case run(1)
      using run by simp
    moreover have "take n' in' = take (length (m @ new) mod 64) ?b'" unfolding n using run by simp
    ultimately show ?thesis using md5_repI [OF count' bl' lb] unfolding new_def by blast
  qed
qed

lemma length_md5_pad: "length (md5_pad m) mod 64 = 0"
proof -
  define r where "r = length m mod 64"
  have "r < 64" by (simp add: r_def)
  have "length (md5_pad m) = length m + (if r < 56 then 64 - r else 128 - r)"
    using \<open>r < 64\<close> by (simp add: md5_pad_def Let_def r_def [symmetric])
  then have "length (md5_pad m) mod 64 = (r + (if r < 56 then 64 - r else 128 - r)) mod 64"
    by (metis mod_add_left_eq r_def)
  then show ?thesis using \<open>r < 64\<close> by (auto split: if_splits)
qed

text \<open>Writing a run of bytes behind the first \<open>p\<close> bytes of the buffer.\<close>

lemma copy_in_run:
  "take p b = pre \<Longrightarrow> length pre = p \<Longrightarrow> p + n \<le> length b \<Longrightarrow> length xs = n \<Longrightarrow>
   \<exists>b'. copy_in b p xs n = Some b' \<and> length b' = length b \<and> take (p + n) b' = pre @ xs"
  by auto

lemma length_list4 [simp]: "length (list4 r) = 4"
  by (cases r rule: list4.cases) simp

lemma length_rfc_compress: "length st = 4 \<Longrightarrow> length (rfc_compress st b) = 4"
  by (simp only: rfc_compress_def length_map length_zip length_list4)

lemma length_md5_iv: "length md5_iv = 4"
  by (simp add: md5_iv_def)

lemma length_md5_transform: "length st = 4 \<Longrightarrow> length (MD5Transform st b) = 4"
  by (simp only: md5_transform_rfc length_rfc_compress)

text \<open>The end of \<open>MD5Final\<close>: bit counts, last block, digest.\<close>

definition md5_close :: "u32 list \<Rightarrow> u8 list \<Rightarrow> u32 \<Rightarrow> u32 \<Rightarrow> u8 list option" where
  "md5_close st b lo hi = do {
     b \<leftarrow> byteReverse b 0 14;
     b \<leftarrow> copy_in b (4 * 14) (store_le lo) 4;
     b \<leftarrow> copy_in b (4 * 15) (store_le hi) 4;
     let st = MD5Transform st b;
     byteReverse (concat (map store_le st)) 0 4 }"

lemma md5_close_ok:
  "length b = 64 \<Longrightarrow> length st = 4 \<Longrightarrow>
   md5_close st b lo hi = Some (concat (map store_le (MD5Transform st (take 56 b @ store_le lo @ store_le hi))))"
  by (simp add: md5_close_def byteReverse_id length_concat o_def sum_list_triv length_md5_transform)

lemma MD5Final_alt:
  "MD5Final ctx =
     (let count = unat (drop_bit 3 (md5_bits0 ctx) AND 0x3F) in do {
        b \<leftarrow> copy_in (md5_in ctx) count [0x80] 1;
        (st, b) \<leftarrow>
          (if 64 - 1 - count < 8
           then do {
             b \<leftarrow> zero_in b (count + 1) (64 - 1 - count);
             b \<leftarrow> byteReverse b 0 16;
             let st = MD5Transform (md5_buf ctx) b;
             b \<leftarrow> zero_in b 0 56;
             Some (st, b) }
           else do { b \<leftarrow> zero_in b (count + 1) (64 - 1 - count - 8); Some (md5_buf ctx, b) });
        digest \<leftarrow> md5_close st b (md5_bits0 ctx) (md5_bits1 ctx);
        Some (digest, \<lparr>md5_buf = replicate 4 0, md5_bits0 = 0, md5_bits1 = 0, md5_in = replicate 64 0\<rparr>) })"
  unfolding MD5Final_def md5_close_def Let_def bind_assoc ..

lemma md5_final_rep:
  assumes rep: "md5_rep ctx m"
  shows "MD5Final ctx = Some (concat (map store_le (fst (blocks MD5Transform md5_iv (md5_pad m)))),
     \<lparr>md5_buf = replicate 4 0, md5_bits0 = 0, md5_bits1 = 0, md5_in = replicate 64 0\<rparr>)"
proof -
  let ?r = "length m mod 64"
  let ?b = "md5_in ctx"
  let ?n = "8 * length m"
  have count: "(unat (md5_bits0 ctx) + 4294967296 * unat (md5_bits1 ctx)) mod 18446744073709551616
      = ?n mod 18446744073709551616"
    and b: "length ?b = 64" and bl: "blocks MD5Transform md5_iv m = (md5_buf ctx, take ?r ?b)"
    using rep by (simp_all add: md5_rep_def)
  have left: "unat (drop_bit 3 (md5_bits0 ctx) AND 0x3F) = ?r" by (rule md5_left [OF count])
  let ?bits = "store_le (word_of_nat ?n) @ store_le (word_of_nat (?n div 4294967296))"
  have bits: "store_le (md5_bits0 ctx) @ store_le (md5_bits1 ctx) = ?bits"
    using md5_bits_of [OF count] by simp
  have st: "length (md5_buf ctx) = 4"
    using length_blocks [of 4 MD5Transform md5_iv m] bl length_md5_transform length_md5_iv by simp
  have lt: "?r < 64" by simp
  obtain b1 where b1: "copy_in ?b ?r [0x80] 1 = Some b1" "length b1 = 64" "take (?r + 1) b1 = take ?r ?b @ [0x80]"
    using copy_in_run [of ?r ?b "take ?r ?b" 1 "[0x80]"] b lt by auto
  define zs where "zs n = (replicate n 0 :: u8 list)" for n
  have pad: "blocks MD5Transform md5_iv (md5_pad m) =
      blocks MD5Transform (md5_buf ctx) (take ?r ?b @ 0x80 # zs (if ?r < 56 then 55 - ?r else 119 - ?r) @ ?bits)"
    unfolding md5_pad_def Let_def blocks_append [of _ _ m] bl zs_def by simp
  show ?thesis
  proof (cases "?r < 56")
    case True
    let ?z = "64 - 1 - ?r - 8"
    let ?B = "take ?r ?b @ 0x80 # zs (55 - ?r) @ ?bits"
    obtain b2 where b2: "zero_in b1 (?r + 1) ?z = Some b2" "length b2 = 64"
        "take (?r + 1 + ?z) b2 = (take ?r ?b @ [0x80]) @ zs ?z"
      using copy_in_run [OF b1(3), of ?z "replicate ?z 0"] b b1 True by (auto simp: zero_in_def zs_def)
    have "?r + 1 + ?z = 56" "?z = 55 - ?r" using True by linarith+
    then have "take 56 b2 @ ?bits = ?B" using b2(3) by simp
    then have close: "md5_close (md5_buf ctx) b2 (md5_bits0 ctx) (md5_bits1 ctx) =
        Some (concat (map store_le (MD5Transform (md5_buf ctx) ?B)))"
      using md5_close_ok [OF b2(2) st, of "md5_bits0 ctx" "md5_bits1 ctx"] unfolding bits by simp
    have "length ?B = 64" using True b by (simp add: zs_def)
    then have "blocks MD5Transform md5_iv (md5_pad m) = (MD5Transform (md5_buf ctx) ?B, [])"
      unfolding pad using True blocks_exact [of ?B MD5Transform "md5_buf ctx" "[]"] by (simp add: blocks_short)
    moreover have "\<not> 64 - 1 - ?r < 8" using True by linarith
    ultimately show ?thesis
      unfolding MD5Final_alt left Let_def using b1(1) b2(1) close by simp
  next
    case False
    let ?z = "64 - 1 - ?r"
    let ?B = "take ?r ?b @ 0x80 # zs ?z"
    let ?C = "zs 56 @ ?bits"
    obtain b2 where b2: "zero_in b1 (?r + 1) ?z = Some b2" "length b2 = 64"
        "take (?r + 1 + ?z) b2 = (take ?r ?b @ [0x80]) @ zs ?z"
      using copy_in_run [OF b1(3), of ?z "replicate ?z 0"] b b1 lt by (auto simp: zero_in_def zs_def)
    have "?r + 1 + ?z = 64" using lt by linarith
    then have b2B: "b2 = ?B" using b2(2,3) by simp
    have b2r: "byteReverse b2 0 16 = Some b2" using b2(2) by (simp add: byteReverse_id)
    obtain b3 where b3: "zero_in b2 0 56 = Some b3" "length b3 = 64" "take 56 b3 = zs 56"
      using copy_in_run [of 0 b2 "[]" 56 "replicate 56 0"] b2(2) by (auto simp: zero_in_def zs_def)
    have st': "length (MD5Transform (md5_buf ctx) b2) = 4" by (rule length_md5_transform [OF st])
    have close: "md5_close (MD5Transform (md5_buf ctx) b2) b3 (md5_bits0 ctx) (md5_bits1 ctx) =
        Some (concat (map store_le (MD5Transform (MD5Transform (md5_buf ctx) ?B) ?C)))"
      using md5_close_ok [OF b3(2) st', of "md5_bits0 ctx" "md5_bits1 ctx"] unfolding bits b3(3) b2B .
    have lB: "length ?B = 64" using b2(2) b2B by simp
    have lC: "length ?C = 64" by (simp add: zs_def)
    have "119 - ?r = ?z + 56" using lt by linarith
    then have "zs (119 - ?r) = zs ?z @ zs 56" unfolding zs_def by (simp only: replicate_add)
    then have "blocks MD5Transform md5_iv (md5_pad m) = blocks MD5Transform (md5_buf ctx) (?B @ ?C)"
      unfolding pad using False by simp
    also have "\<dots> = (MD5Transform (MD5Transform (md5_buf ctx) ?B) ?C, [])"
      unfolding blocks_exact [OF lB] using blocks_exact [OF lC, of MD5Transform _ "[]"] by (simp add: blocks_short)
    finally have "blocks MD5Transform md5_iv (md5_pad m) = (MD5Transform (MD5Transform (md5_buf ctx) ?B) ?C, [])" .
    moreover have "64 - 1 - ?r < 8" using False lt by linarith
    ultimately show ?thesis
      unfolding MD5Final_alt left Let_def using b1(1) b2(1) b2r b3(1) close by simp
  qed
qed

section \<open>The digest\<close>

lemma md5_blocks: "blocks MD5Transform md5_iv m = blocks rfc_compress md5_iv m"
  by (rule blocks_cong [where ok = "\<lambda>s. length s = 4"])
    (simp_all only: md5_transform_rfc length_rfc_compress length_md5_iv)

lemma MD5Init_rep: "length garbage = 64 \<Longrightarrow> md5_rep (MD5Init garbage) []"
  by (simp add: md5_rep_def MD5Init_def blocks_short md5_iv_def)

definition md5_digest :: "MD5Context \<Rightarrow> u8 list option" where
  "md5_digest ctx = map_option fst (MD5Final ctx)"

lemma md5_digest_rep: "md5_rep ctx m \<Longrightarrow> md5_digest ctx = Some (md5_spec m)"
  by (simp add: md5_digest_def md5_final_rep md5_spec_def md5_blocks)

interpretation md5: stream_hash md5_rep "MD5Init (replicate 64 0)"
  "\<lambda>c x. MD5Update c x (word_of_nat (length x))" md5_digest md5_spec 4294967296
proof
  show "md5_rep (MD5Init (replicate 64 0)) []" by (simp add: MD5Init_rep)
  fix c m x
  assume rep: "md5_rep c m"
  show "\<exists>c'. MD5Update c x (word_of_nat (length x)) = Some c' \<and> md5_rep c' (m @ x)" if "length x < 4294967296"
    using md5_update_rep [OF rep, of "word_of_nat (length x)" x] that by (simp add: unat_of_nat)
  show "md5_digest c = Some (md5_spec m)" by (rule md5_digest_rep [OF rep])
qed

text \<open>
  The 64 in-place lines of \<open>MD5Transform\<close>, with its optimised \<open>F1\<close> and \<open>F2\<close>, are the four
  rounds of RFC 1321 on every state of four words and every block.
\<close>

theorem md5_transform_is_rfc:
  assumes "length st = 4"
  shows "MD5Transform st b = rfc_compress st b"
  by (rule md5_transform_rfc [OF assms])

theorem md5_transform_is_rfc_witness:
  "MD5Transform [1, 2, 3, 4] [] = rfc_compress [1, 2, 3, 4] []"
  by (rule md5_transform_is_rfc) simp

text \<open>
  C29: On a message of less than 2 GiB, \<open>md5\<close> and its watchdog variant with any positive chunk size
  return the MD5 digest of RFC 1321, whatever the context on the stack held, and no access leaves a
  buffer.
\<close>

theorem md5_correct:
  assumes "length garbage = 64" and "0 \<le> len" and "nat len \<le> length input" and "len < 2147483648" and "0 < chunk_sz"
  shows "md5 garbage input len = Some (md5_spec (take (nat len) input)) \<and>
    md5_wd wd garbage input len chunk_sz = md5 garbage input len"
proof -
  let ?m = "take (nat len) input"
  note digest = md5_digest_rep [unfolded md5_digest_def]
  have n: "unat (word_of_int len :: u32) = nat len"
    using assms(2,4) by (simp add: unat_eq_nat_uint uint_word_of_int_eq take_bit_eq_mod)
  obtain c where c: "MD5Update (MD5Init garbage) input (word_of_int len) = Some c" "md5_rep c ?m"
    using md5_update_rep [OF MD5Init_rep [OF assms(1)], of "word_of_int len" input] n assms(3) by auto
  have "length ?m < 4294967296" using assms(4) by simp
  then have "\<forall>x\<in>set (chunks (unat chunk_sz) ?m). length x < 4294967296"
    using chunks_size [of _ "unat chunk_sz" ?m] by fastforce
  from md5.feed_rep [OF MD5Init_rep [OF assms(1)] this]
  obtain c' where c': "feed (\<lambda>c x. MD5Update c x (word_of_nat (length x))) (MD5Init garbage) (chunks (unat chunk_sz) ?m) = Some c'"
      "md5_rep c' ?m"
    using assms(5) by (auto simp: concat_chunks word_less_nat_alt)
  obtain x y where "MD5Final c = Some (md5_spec ?m, x)" "MD5Final c' = Some (md5_spec ?m, y)"
    using digest [OF c(2)] digest [OF c'(2)] by auto
  then show ?thesis
    using c c' assms by (simp add: md5_def md5_wd_def wd_loop_feed)
qed

theorem md5_correct_witness:
  "md5 (replicate 64 9) [0x61, 0x62, 0x63, 0x64] 3 = Some (md5_spec [0x61, 0x62, 0x63])"
  using md5_correct [of "replicate 64 9" 3 "[0x61, 0x62, 0x63, 0x64]" 1 False] by simp

end
