(* ===== verification/Ctype.thy ===== *)
theory Ctype
  imports Prelude "HOL-Library.Char_ord"
begin

text \<open>
  Character classes: the table of \<^verbatim>\<open>lib_generic/ctype.c\<close> and the macros of
  \<^verbatim>\<open>include/linux/ctype.h\<close>, with the classes they decide.
\<close>

section \<open>The table and the macros\<close>

abbreviation cU :: u8 where "cU \<equiv> 0x01"
abbreviation cL :: u8 where "cL \<equiv> 0x02"
abbreviation cD :: u8 where "cD \<equiv> 0x04"
abbreviation cC :: u8 where "cC \<equiv> 0x08"
abbreviation cP :: u8 where "cP \<equiv> 0x10"
abbreviation cS :: u8 where "cS \<equiv> 0x20"
abbreviation cX :: u8 where "cX \<equiv> 0x40"
abbreviation cSP :: u8 where "cSP \<equiv> 0x80"

definition ctype :: "u8 list" where
  "ctype = [
     cC, cC, cC, cC, cC, cC, cC, cC,
     cC, cC OR cS, cC OR cS, cC OR cS, cC OR cS, cC OR cS, cC, cC,
     cC, cC, cC, cC, cC, cC, cC, cC,
     cC, cC, cC, cC, cC, cC, cC, cC,
     cS OR cSP, cP, cP, cP, cP, cP, cP, cP,
     cP, cP, cP, cP, cP, cP, cP, cP,
     cD, cD, cD, cD, cD, cD, cD, cD,
     cD, cD, cP, cP, cP, cP, cP, cP,
     cP, cU OR cX, cU OR cX, cU OR cX, cU OR cX, cU OR cX, cU OR cX, cU,
     cU, cU, cU, cU, cU, cU, cU, cU,
     cU, cU, cU, cU, cU, cU, cU, cU,
     cU, cU, cU, cP, cP, cP, cP, cP,
     cP, cL OR cX, cL OR cX, cL OR cX, cL OR cX, cL OR cX, cL OR cX, cL,
     cL, cL, cL, cL, cL, cL, cL, cL,
     cL, cL, cL, cL, cL, cL, cL, cL,
     cL, cL, cL, cP, cP, cP, cP, cC,
     0, 0, 0, 0, 0, 0, 0, 0, 0, 0, 0, 0, 0, 0, 0, 0,
     0, 0, 0, 0, 0, 0, 0, 0, 0, 0, 0, 0, 0, 0, 0, 0,
     cS OR cSP, cP, cP, cP, cP, cP, cP, cP, cP, cP, cP, cP, cP, cP, cP, cP,
     cP, cP, cP, cP, cP, cP, cP, cP, cP, cP, cP, cP, cP, cP, cP, cP,
     cU, cU, cU, cU, cU, cU, cU, cU, cU, cU, cU, cU, cU, cU, cU, cU,
     cU, cU, cU, cU, cU, cU, cU, cP, cU, cU, cU, cU, cU, cU, cU, cL,
     cL, cL, cL, cL, cL, cL, cL, cL, cL, cL, cL, cL, cL, cL, cL, cL,
     cL, cL, cL, cL, cL, cL, cL, cP, cL, cL, cL, cL, cL, cL, cL, cL]"

definition ismask :: "char \<Rightarrow> u8" where
  "ismask c = ctype ! of_char c"

definition isalnum :: "char \<Rightarrow> bool" where "isalnum c \<longleftrightarrow> ismask c AND (cU OR cL OR cD) \<noteq> 0"
definition isalpha :: "char \<Rightarrow> bool" where "isalpha c \<longleftrightarrow> ismask c AND (cU OR cL) \<noteq> 0"
definition iscntrl :: "char \<Rightarrow> bool" where "iscntrl c \<longleftrightarrow> ismask c AND cC \<noteq> 0"
definition isdigit :: "char \<Rightarrow> bool" where "isdigit c \<longleftrightarrow> ismask c AND cD \<noteq> 0"
definition isgraph :: "char \<Rightarrow> bool" where "isgraph c \<longleftrightarrow> ismask c AND (cP OR cU OR cL OR cD) \<noteq> 0"
definition islower :: "char \<Rightarrow> bool" where "islower c \<longleftrightarrow> ismask c AND cL \<noteq> 0"
definition isprint :: "char \<Rightarrow> bool" where "isprint c \<longleftrightarrow> ismask c AND (cP OR cU OR cL OR cD OR cSP) \<noteq> 0"
definition ispunct :: "char \<Rightarrow> bool" where "ispunct c \<longleftrightarrow> ismask c AND cP \<noteq> 0"
definition isspace :: "char \<Rightarrow> bool" where "isspace c \<longleftrightarrow> ismask c AND cS \<noteq> 0"
definition isupper :: "char \<Rightarrow> bool" where "isupper c \<longleftrightarrow> ismask c AND cU \<noteq> 0"
definition isxdigit :: "char \<Rightarrow> bool" where "isxdigit c \<longleftrightarrow> ismask c AND (cD OR cX) \<noteq> 0"
definition isascii :: "char \<Rightarrow> bool" where "isascii c \<longleftrightarrow> (of_char c :: u8) \<le> 0x7f"
definition toascii :: "char \<Rightarrow> u8" where "toascii c = of_char c AND 0x7f"

text \<open>An \<^verbatim>\<open>unsigned char\<close> stored back into a character.\<close>

definition char_of_u8 :: "u8 \<Rightarrow> char" where
  "char_of_u8 w = char_of (unat w)"

definition tolower :: "char \<Rightarrow> char" where
  "tolower c = (if isupper c then char_of_u8 (of_char c - (0x41 - 0x61)) else c)"

definition toupper :: "char \<Rightarrow> char" where
  "toupper c = (if islower c then char_of_u8 (of_char c - (0x61 - 0x41)) else c)"

section \<open>The classes\<close>

lemma length_ctype: "length ctype = 256"
  by (simp add: ctype_def)

text \<open>The classes by ranges.\<close>

definition char_class :: "nat \<Rightarrow> u8" where
  "char_class n =
     (if n \<le> 8 then cC else if n \<le> 13 then cC OR cS else if n \<le> 31 then cC else if n = 32 then cS OR cSP
      else if n \<le> 47 then cP else if n \<le> 57 then cD else if n \<le> 64 then cP else if n \<le> 70 then cU OR cX
      else if n \<le> 90 then cU else if n \<le> 96 then cP else if n \<le> 102 then cL OR cX else if n \<le> 122 then cL
      else if n \<le> 126 then cP else if n = 127 then cC else if n \<le> 159 then 0 else if n = 160 then cS OR cSP
      else if n \<le> 191 then cP else if n = 215 then cP else if n \<le> 222 then cU else if n = 247 then cP else cL)"

lemma upt256: "[0..<256] = [0, 1, 2, 3, 4, 5, 6, 7, 8, 9, 10, 11, 12, 13, 14, 15, 16, 17, 18, 19, 20, 21, 22, 23, 24, 25, 26, 27, 28, 29, 30, 31, 32, 33, 34, 35, 36, 37, 38, 39, 40, 41, 42, 43, 44, 45, 46, 47, 48, 49, 50, 51, 52, 53, 54, 55, 56, 57, 58, 59, 60, 61, 62, 63, 64, 65, 66, 67, 68, 69, 70, 71, 72, 73, 74, 75, 76, 77, 78, 79, 80, 81, 82, 83, 84, 85, 86, 87, 88, 89, 90, 91, 92, 93, 94, 95, 96, 97, 98, 99, 100, 101, 102, 103, 104, 105, 106, 107, 108, 109, 110, 111, 112, 113, 114, 115, 116, 117, 118, 119, 120, 121, 122, 123, 124, 125, 126, 127, 128, 129, 130, 131, 132, 133, 134, 135, 136, 137, 138, 139, 140, 141, 142, 143, 144, 145, 146, 147, 148, 149, 150, 151, 152, 153, 154, 155, 156, 157, 158, 159, 160, 161, 162, 163, 164, 165, 166, 167, 168, 169, 170, 171, 172, 173, 174, 175, 176, 177, 178, 179, 180, 181, 182, 183, 184, 185, 186, 187, 188, 189, 190, 191, 192, 193, 194, 195, 196, 197, 198, 199, 200, 201, 202, 203, 204, 205, 206, 207, 208, 209, 210, 211, 212, 213, 214, 215, 216, 217, 218, 219, 220, 221, 222, 223, 224, 225, 226, 227, 228, 229, 230, 231, 232, 233, 234, 235, 236, 237, 238, 239, 240, 241, 242, 243, 244, 245, 246, 247, 248, 249, 250, 251, 252, 253, 254, 255 :: nat]"
  by (simp add: upt_rec)

lemma ctype_classes: "ctype = map char_class [0..<256]"
  unfolding upt256 ctype_def list.map list.inject by (simp add: char_class_def)

lemma of_char_256: "(of_char c :: nat) < 256"
  using unat_u8_lt [of "of_char c"] by simp

lemma ismask_class: "ismask c = char_class (of_char c)"
  using of_char_256 [of c] by (simp add: ismask_def ctype_classes)

lemmas class_defs = ismask_class char_class_def isdigit_def isxdigit_def islower_def isupper_def isalpha_def
  isalnum_def isspace_def

lemma isdigit_iff: "isdigit c = (48 \<le> (of_char c :: nat) \<and> (of_char c :: nat) \<le> 57)"
  by (simp add: class_defs)

lemma isxdigit_iff: "isxdigit c =
    (let n = (of_char c :: nat) in 48 \<le> n \<and> n \<le> 57 \<or> 65 \<le> n \<and> n \<le> 70 \<or> 97 \<le> n \<and> n \<le> 102)"
  by (simp add: class_defs Let_def)

lemma toupper_code:
  "islower c \<Longrightarrow> (of_char (toupper c) :: nat) = of_char c - 32"
proof -
  assume l: "islower c"
  then have "32 \<le> (of_char c :: nat)" by (simp add: class_defs split: if_splits)
  then have "unat ((of_char c :: u8) - 32) = of_char c - 32" by (subst unat_sub) (simp_all add: word_le_nat_alt)
  moreover have "(0x61 - 0x41 :: u8) = 32" by simp
  ultimately show ?thesis
    using l of_char_256 [of c] unfolding toupper_def char_of_u8_def
    by (simp only: of_char_of if_True) (rule mod_less, linarith)
qed

lemma tolower_code:
  "isupper c \<Longrightarrow> of_char c < (128 :: nat) \<Longrightarrow> (of_char (tolower c) :: nat) = of_char c + 32"
proof -
  assume u: "isupper c" and a: "of_char c < (128 :: nat)"
  have "(of_char c :: u8) - (0x41 - 0x61) = of_char c + 32" by simp
  moreover have "unat ((of_char c :: u8) + 32) = of_char c + 32"
    using a by (subst unat_add_nowrap) (simp_all add: nowrap_def)
  ultimately show ?thesis
    using u a unfolding tolower_def char_of_u8_def by (simp only: of_char_of if_True) simp
qed

text \<open>
  On ASCII the table decides the usual classes; \<open>toupper\<close> maps the small letters to capitals,
  \<open>tolower\<close> maps them back, and other characters stay.
\<close>

theorem ctype_ascii:
  fixes c :: char
  defines "n \<equiv> (of_char c :: nat)"
  assumes "n < 128"
  shows "isdigit c = (48 \<le> n \<and> n \<le> 57) \<and>
    isxdigit c = (48 \<le> n \<and> n \<le> 57 \<or> 65 \<le> n \<and> n \<le> 70 \<or> 97 \<le> n \<and> n \<le> 102) \<and>
    isupper c = (65 \<le> n \<and> n \<le> 90) \<and> islower c = (97 \<le> n \<and> n \<le> 122) \<and>
    isalpha c = (isupper c \<or> islower c) \<and> isalnum c = (isalpha c \<or> isdigit c) \<and>
    isspace c = (n = 32 \<or> 9 \<le> n \<and> n \<le> 13) \<and>
    (if islower c then isupper (toupper c) \<and> of_char (toupper c) + 32 = n \<and> tolower (toupper c) = c
     else toupper c = c)"
proof -
  have up: "isupper (toupper c) \<and> of_char (toupper c) + 32 = n \<and> tolower (toupper c) = c" if l: "islower c"
  proof -
    have range: "97 \<le> n" "n \<le> 122" using l assms(2) by (simp_all add: class_defs n_def [symmetric] split: if_splits)
    define k where "k = n - 32"
    have k: "65 \<le> k" "k \<le> 90" "n = k + 32" using range unfolding k_def by linarith+
    have t: "(of_char (toupper c) :: nat) = k" using toupper_code [OF l] by (simp add: n_def k_def)
    then have u: "isupper (toupper c)" using k by (simp add: class_defs)
    have "(of_char (tolower (toupper c)) :: nat) = of_char c"
      using tolower_code [OF u] t k by (simp add: n_def)
    then show ?thesis using u t k by simp
  qed
  have "toupper c = c" if "\<not> islower c" using that by (simp add: toupper_def)
  then show ?thesis
    using up assms(2) by (simp add: class_defs n_def [symmetric])
qed

theorem ctype_ascii_witness:
  "of_char (toupper (CHR ''q'')) + 32 = (of_char (CHR ''q'') :: nat)"
  using ctype_ascii [of "CHR ''q''"] by (simp add: class_defs)

text \<open>Beyond ASCII, \<open>islower\<close> holds of two Latin-1 letters that have no capital 32 places below.\<close>

lemma toupper_latin1:
  "(of_char (toupper (char_of (223 :: nat))) :: nat) = 191 \<and> ispunct (char_of (191 :: nat)) \<and>
   (of_char (toupper (char_of (255 :: nat))) :: nat) = 223"
proof -
  have "islower (char_of (223 :: nat))" "islower (char_of (255 :: nat))" "ispunct (char_of (191 :: nat))"
    by (simp_all add: class_defs ispunct_def)
  then show ?thesis by (simp add: toupper_code)
qed

end
