(* ===== verification/Strtoul.thy ===== *)
theory Strtoul
  imports Ctype
begin

text \<open>
  The number readers of \<^verbatim>\<open>lib_generic/vsprintf.c\<close>.  A pointer into a string is the list of the
  characters from it on; the terminating NUL is part of the list, and reading at the end of the list
  is reading outside the string.  The position left in \<open>*endp\<close> is the second component of the result.
\<close>

section \<open>The code\<close>

fun peek :: "string \<Rightarrow> char option" where
  "peek [] = None"
| "peek (c # cs) = Some c"

text \<open>The value of a hexadecimal digit, as an \<^verbatim>\<open>int\<close> expression converted to the type of \<open>value\<close>.\<close>

definition digit_value :: "char \<Rightarrow> 'a::len word" where
  "digit_value c =
     (if isdigit c then word_of_nat (of_char c) - word_of_nat (of_char (CHR ''0''))
      else word_of_nat (of_char (if islower c then toupper c else c)) - word_of_nat (of_char (CHR ''A'')) + 10)"

text \<open>The prefix that selects the base: \<open>0x\<close> before a digit, or \<open>0\<close> when no base is given.\<close>

definition strto_base :: "string \<Rightarrow> u32 \<Rightarrow> (string \<times> u32) option" where
  "strto_base cp base = do {
     c \<leftarrow> peek cp;
     (cp, base) \<leftarrow>
       (if c = CHR ''0''
        then do {
          let cp = tl cp;
          x \<leftarrow> peek cp;
          (cp, base) \<leftarrow>
            (if x = CHR ''x''
             then do { d \<leftarrow> peek (tl cp); Some (if isxdigit d then (tl cp, 16) else (cp, base)) }
             else Some (cp, base));
          Some (cp, if base = 0 then 8 else base) }
        else Some (cp, base));
     Some (cp, if base = 0 then 10 else base) }"

fun strto_loop :: "u32 \<Rightarrow> 'a::len word \<Rightarrow> string \<Rightarrow> ('a word \<times> string) option" where
  "strto_loop base r [] = None"
| "strto_loop base r (c # cs) =
     (if isxdigit c \<and> digit_value c < (ucast base :: 'a word)
      then strto_loop base (r * ucast base + digit_value c) cs
      else Some (r, c # cs))"

definition simple_strtoul :: "string \<Rightarrow> u32 \<Rightarrow> (ulong \<times> string) option" where
  "simple_strtoul cp base = do { (cp, base) \<leftarrow> strto_base cp base; strto_loop base 0 cp }"

definition simple_strtoull :: "string \<Rightarrow> u32 \<Rightarrow> (u64 \<times> string) option" where
  "simple_strtoull cp base = do { (cp, base) \<leftarrow> strto_base cp base; strto_loop base 0 cp }"

definition simple_strtol :: "string \<Rightarrow> u32 \<Rightarrow> (ulong \<times> string) option" where
  "simple_strtol cp base = do {
     c \<leftarrow> peek cp;
     if c = CHR ''-''
     then do { (r, e) \<leftarrow> simple_strtoul (tl cp) base; Some (- r, e) }
     else simple_strtoul cp base }"

text \<open>A number with a size suffix; the cases of the \<^verbatim>\<open>switch\<close> fall through.\<close>

definition ustrtoul :: "string \<Rightarrow> u32 \<Rightarrow> (ulong \<times> string) option" where
  "ustrtoul cp base = do {
     (result, e) \<leftarrow> simple_strtoul cp base;
     c \<leftarrow> peek e;
     let result = (if c = CHR ''G'' then result * 1024 else result);
     let result = (if c \<in> {CHR ''G'', CHR ''M''} then result * 1024 else result);
     if c \<in> {CHR ''G'', CHR ''M'', CHR ''K'', CHR ''k''}
     then do {
       let result = result * 1024;
       i \<leftarrow> peek (tl e);
       if i = CHR ''i''
       then do { b \<leftarrow> peek (tl (tl e)); Some (result, if b = CHR ''B'' then drop 3 e else drop 2 e) }
       else Some (result, e) }
     else Some (result, e) }"

text \<open>\<open>skip_atoi\<close>, with its own test for digits; the \<^verbatim>\<open>int\<close> is not expected to overflow.\<close>

definition is_digit :: "char \<Rightarrow> bool" where
  "is_digit c \<longleftrightarrow> of_char (CHR ''0'') \<le> (of_char c :: nat) \<and> (of_char c :: nat) \<le> of_char (CHR ''9'')"

fun skip_atoi :: "int \<Rightarrow> string \<Rightarrow> (int \<times> string) option" where
  "skip_atoi i [] = None"
| "skip_atoi i (c # cs) =
     (if is_digit c then skip_atoi (i * 10 + int (of_char c) - int (of_char (CHR ''0''))) cs else Some (i, c # cs))"

section \<open>Values of digit strings\<close>

definition hexval :: "char \<Rightarrow> nat" where
  "hexval c = (let n = of_char c in if n \<le> 57 then n - 48 else if n \<le> 70 then n - 55 else n - 87)"

definition digits_of :: "nat \<Rightarrow> string \<Rightarrow> bool" where
  "digits_of b ds \<longleftrightarrow> (\<forall>c\<in>set ds. isxdigit c \<and> hexval c < b)"

definition num_of :: "nat \<Rightarrow> string \<Rightarrow> nat" where
  "num_of b ds = foldl (\<lambda>r c. r * b + hexval c) 0 ds"

definition stops :: "nat \<Rightarrow> char \<Rightarrow> bool" where
  "stops b c \<longleftrightarrow> \<not> (isxdigit c \<and> hexval c < b)"

lemma hexval_lt: "isxdigit c \<Longrightarrow> hexval c < 16"
  by (auto simp: isxdigit_iff hexval_def Let_def)

lemma digit_value_hexval: "isxdigit c \<Longrightarrow> digit_value c = (word_of_nat (hexval c) :: 'a::len word)"
proof -
  assume x: "isxdigit c"
  let ?n = "of_char c :: nat"
  from x consider "48 \<le> ?n" "?n \<le> 57" | "65 \<le> ?n" "?n \<le> 70" | "97 \<le> ?n" "?n \<le> 102"
    by (auto simp: isxdigit_iff Let_def)
  then show ?thesis
  proof cases
    case 1
    then show ?thesis by (simp add: digit_value_def isdigit_iff hexval_def of_nat_diff)
  next
    case 2
    then have "\<not> islower c" by (simp add: class_defs)
    then show ?thesis using 2 by (simp add: digit_value_def isdigit_iff hexval_def of_nat_diff)
  next
    case 3
    then have l: "islower c" by (simp add: class_defs)
    then show ?thesis using 3 toupper_code [OF l] by (simp add: digit_value_def isdigit_iff hexval_def of_nat_diff)
  qed
qed

lemma digit_lt:
  assumes "32 \<le> LENGTH('a::len)" and "isxdigit c"
  shows "(digit_value c < (ucast (base :: u32) :: 'a word)) = (hexval c < unat base)"
proof -
  have p: "(2 :: nat) ^ 32 \<le> 2 ^ LENGTH('a)" by (rule power_increasing [OF assms(1)]) simp
  have "hexval c < 2 ^ LENGTH('a)" using hexval_lt [OF assms(2)] p by simp
  then have "unat (word_of_nat (hexval c) :: 'a word) = hexval c" by (simp only: unat_of_nat) (rule mod_less)
  moreover have "unat (ucast base :: 'a word) = unat base"
  proof -
    have "unat base < 2 ^ LENGTH('a)" using unat_word_lt [of base] p by simp
    then show ?thesis by (simp add: unsigned_ucast_eq take_bit_nat_eq_self)
  qed
  ultimately show ?thesis by (simp add: digit_value_hexval [OF assms(2)] word_less_nat_alt)
qed

lemma strto_loop_digits:
  assumes "32 \<le> LENGTH('a::len)" and "stops (unat base) c"
  shows "digits_of (unat base) ds \<Longrightarrow>
    strto_loop base (word_of_nat r :: 'a word) (ds @ c # rest) =
      Some (word_of_nat (foldl (\<lambda>r c. r * unat base + hexval c) r ds), c # rest)"
proof (induction ds arbitrary: r)
  case Nil
  then show ?case using assms digit_lt [OF assms(1), of c base] by (auto simp: stops_def)
next
  case (Cons d ds)
  have d: "isxdigit d" "hexval d < unat base" using Cons.prems by (simp_all add: digits_of_def)
  have "(ucast base :: 'a word) = word_of_nat (unat base)" by simp
  then have "(word_of_nat r :: 'a word) * ucast base + digit_value d = word_of_nat (r * unat base + hexval d)"
    by (simp only: digit_value_hexval [OF d(1)] of_nat_add of_nat_mult)
  then have step: "strto_loop base (word_of_nat r :: 'a word) ((d # ds) @ c # rest) =
      strto_loop base (word_of_nat (r * unat base + hexval d)) (ds @ c # rest)"
    using d digit_lt [OF assms(1) d(1), of base] by (simp only: append_Cons strto_loop.simps if_True simp_thms)
  have ds: "digits_of (unat base) ds" using Cons.prems by (simp add: digits_of_def)
  show ?case unfolding step Cons.IH [OF ds] foldl_Cons ..
qed

text \<open>What the prefix of a number means: the digits that follow it and the base they are read in.\<close>

definition number_base :: "string \<Rightarrow> u32 \<Rightarrow> char \<Rightarrow> u32 \<Rightarrow> bool" where
  "number_base pre base d b \<longleftrightarrow>
     pre = [] \<and> d \<noteq> CHR ''0'' \<and> b = (if base = 0 then 10 else base) \<or>
     pre = ''0'' \<and> d \<noteq> CHR ''x'' \<and> b = (if base = 0 then 8 else base) \<or>
     pre = ''0x'' \<and> isxdigit d \<and> b = 16"

lemma strto_base_ok: "number_base pre base d b \<Longrightarrow> strto_base (pre @ d # ds) base = Some (d # ds, b)"
  by (auto simp: number_base_def strto_base_def)

lemma strtoul_num:
  assumes "digits_of (unat b) ds" and "stops (unat b) c" and "number_base pre base (hd (ds @ [c])) b"
  shows "simple_strtoul (pre @ ds @ c # rest) base = Some (word_of_nat (num_of (unat b) ds), c # rest)"
    and "simple_strtoull (pre @ ds @ c # rest) base = Some (word_of_nat (num_of (unat b) ds), c # rest)"
proof -
  obtain d t where dt: "ds @ c # rest = d # t" "hd (ds @ [c]) = d" by (cases ds) auto
  have pre: "strto_base (pre @ ds @ c # rest) base = Some (ds @ c # rest, b)"
    using strto_base_ok [OF assms(3)] dt by simp
  have "strto_loop b (0 :: ulong) (ds @ c # rest) = Some (word_of_nat (num_of (unat b) ds), c # rest)"
    using strto_loop_digits [OF _ assms(2,1), where ?'a = 32, of 0 rest] by (simp add: num_of_def)
  then show "simple_strtoul (pre @ ds @ c # rest) base = Some (word_of_nat (num_of (unat b) ds), c # rest)"
    using pre by (simp add: simple_strtoul_def)
  have "strto_loop b (0 :: u64) (ds @ c # rest) = Some (word_of_nat (num_of (unat b) ds), c # rest)"
    using strto_loop_digits [OF _ assms(2,1), where ?'a = 64, of 0 rest] by (simp add: num_of_def)
  then show "simple_strtoull (pre @ ds @ c # rest) base = Some (word_of_nat (num_of (unat b) ds), c # rest)"
    using pre by (simp add: simple_strtoull_def)
qed

text \<open>
  A number is read in the base its prefix selects: \<open>0x\<close> before a hexadecimal digit gives 16,
  a leading \<open>0\<close> gives 8 when no base was asked for, and 10 is the default.  All digits of that base
  are consumed, \<open>*endp\<close> is the first character that is none, and the value is that of the digits,
  modulo \<open>2 ^ 32\<close> or \<open>2 ^ 64\<close>; a minus sign negates it.  The call stays inside the string.
\<close>

theorem strtoul_correct:
  assumes "digits_of (unat b) ds" and "stops (unat b) c" and "number_base pre base (hd (ds @ [c])) b"
  shows "simple_strtoul (pre @ ds @ c # rest) base = Some (word_of_nat (num_of (unat b) ds), c # rest) \<and>
    simple_strtoull (pre @ ds @ c # rest) base = Some (word_of_nat (num_of (unat b) ds), c # rest) \<and>
    simple_strtol (CHR ''-'' # pre @ ds @ c # rest) base = Some (- word_of_nat (num_of (unat b) ds), c # rest)"
  using strtoul_num [OF assms, of rest] by (simp add: simple_strtol_def)

theorem strtoul_correct_witness:
  "simple_strtoul ''0x1fg'' 0 = Some (31, ''g'')"
  using strtoul_correct [of 16 "''1f''" "CHR ''g''" "''0x''" 0 "[]"]
  by (simp add: digits_of_def stops_def number_base_def isxdigit_iff hexval_def num_of_def)

text \<open>
  When no digit follows the \<open>x\<close>, the number is the \<open>0\<close> before it.
\<close>

lemma strtoul_0x: "simple_strtoul (''0xg'' @ [CHR 0x00]) 0 = Some (0, ''xg'' @ [CHR 0x00])"
  by (simp add: simple_strtoul_def strto_base_def isxdigit_iff)

definition suffix_factor :: "char \<Rightarrow> nat" where
  "suffix_factor c = (if c = CHR ''G'' then 1024 ^ 3 else if c = CHR ''M'' then 1024 ^ 2
     else if c = CHR ''K'' \<or> c = CHR ''k'' then 1024 else 1)"

text \<open>
  \<open>ustrtoul\<close> multiplies the number by 1024, 1024 squared or cubed for \<open>K\<close> (or \<open>k\<close>), \<open>M\<close>, \<open>G\<close>,
  modulo \<open>2 ^ 32\<close>; \<open>KiB\<close> and \<open>Ki\<close> leave \<open>*endp\<close> behind the suffix, a bare \<open>K\<close> leaves it on the
  suffix, and any other character leaves value and position as \<open>simple_strtoul\<close> gives them.
\<close>

theorem ustrtoul_correct:
  assumes "digits_of (unat b) ds" and "stops (unat b) c" and "number_base pre base (hd (ds @ [c])) b"
  shows "ustrtoul (pre @ ds @ c # x # y # rest) base =
    Some (word_of_nat (num_of (unat b) ds * suffix_factor c),
      if suffix_factor c \<noteq> 1 \<and> x = CHR ''i'' then if y = CHR ''B'' then rest else y # rest else c # x # y # rest)"
  unfolding ustrtoul_def strtoul_num(1) [OF assms] by (simp add: suffix_factor_def Let_def)

theorem ustrtoul_correct_witness:
  "ustrtoul (''64KiB'' @ [CHR 0x00]) 10 = Some (65536, [CHR 0x00])"
  using ustrtoul_correct [of 10 "''64''" "CHR ''K''" "[]" 10 "CHR ''i''" "CHR ''B''" "[CHR 0x00]"]
  by (simp add: digits_of_def stops_def number_base_def isxdigit_iff hexval_def num_of_def suffix_factor_def)

text \<open>The result is an \<^verbatim>\<open>int\<close> modulo \<open>2 ^ 32\<close>: four gibibytes are read as 0.\<close>

lemma ustrtoul_4G: "ustrtoul (''4G'' @ [CHR 0x00, CHR 0x00]) 10 = Some (0, ''G'' @ [CHR 0x00, CHR 0x00])"
  by (simp add: ustrtoul_def simple_strtoul_def strto_base_def isxdigit_iff isdigit_iff digit_value_def)

section \<open>Numbers in strings\<close>

text \<open>What stands behind the NUL does not matter.\<close>

lemma peek_append: "peek (s @ CHR 0x00 # r) = Some (hd (s @ [CHR 0x00]))"
  by (cases s) auto

lemma strto_loop_nul:
  "\<exists>y t. strto_loop b x (v @ CHR 0x00 # r) = Some (y, t @ CHR 0x00 # r) \<and> strto_loop b x (v @ [CHR 0x00]) = Some (y, t @ [CHR 0x00])"
proof (induction v arbitrary: x)
  case Nil
  have "\<not> isxdigit CHR 0x00" by (simp add: isxdigit_iff)
  then show ?case by (intro exI [of _ x] exI [of _ "[]"]) simp
next
  case (Cons c v)
  then show ?case by (cases "isxdigit c \<and> digit_value c < ucast b") auto
qed

lemma strto_base_nul:
  "\<exists>v' b'. strto_base (v @ CHR 0x00 # r) b = Some (v' @ CHR 0x00 # r, b') \<and> strto_base (v @ [CHR 0x00]) b = Some (v' @ [CHR 0x00], b')"
proof -
  have x: "\<not> isxdigit CHR 0x00" by (simp add: isxdigit_iff)
  consider "v = []" | "\<exists>c u. v = c # u \<and> c \<noteq> CHR ''0''" | "v = ''0''" |
    "\<exists>d u. v = CHR ''0'' # d # u \<and> d \<noteq> CHR ''x''" | "v = ''0x''" | "\<exists>d u. v = CHR ''0'' # CHR ''x'' # d # u"
    by (metis list.exhaust)
  then show ?thesis
  proof cases
    case 6
    then obtain d u where "v = CHR ''0'' # CHR ''x'' # d # u" by blast
    then show ?thesis by (cases "isxdigit d") (auto simp: strto_base_def intro: exI [of _ "d # u"] exI [of _ "CHR ''x'' # d # u"])
  next
    case 5
    then show ?thesis using x by (auto simp: strto_base_def intro: exI [of _ "''x''"])
  qed (auto simp: strto_base_def intro: exI [of _ "[]"])
qed

lemma simple_strtoul_nul: "\<exists>y t. simple_strtoul (v @ CHR 0x00 # r) b = Some (y, t @ CHR 0x00 # r)"
proof -
  obtain v' b' where v: "strto_base (v @ CHR 0x00 # r) b = Some (v' @ CHR 0x00 # r, b')"
    using strto_base_nul by blast
  then show ?thesis using strto_loop_nul [of b' 0 v' r] by (auto simp: simple_strtoul_def)
qed

text \<open>
  The number at the start of a string: the digits there, or the hexadecimal ones behind \<open>0x\<close>, which is
  accepted whatever the base.
\<close>

definition digit_prefix :: "nat \<Rightarrow> string \<Rightarrow> string" where
  "digit_prefix b s = takeWhile (\<lambda>c. isxdigit c \<and> hexval c < b) s"

definition numeral_of :: "nat \<Rightarrow> string \<Rightarrow> nat" where
  "numeral_of b s =
     (if take 2 s = ''0x'' \<and> digit_prefix 16 (drop 2 s) \<noteq> [] then num_of 16 (digit_prefix 16 (drop 2 s))
      else num_of b (digit_prefix b s))"

text \<open>With a sign, in 32 bits.\<close>

definition number_of :: "string \<Rightarrow> int" where
  "number_of v =
     (if take 1 v = ''-'' then sint (- word_of_nat (numeral_of 10 (tl v)) :: u32)
      else sint (word_of_nat (numeral_of 10 v) :: u32))"

lemma strto_loop_prefix:
  assumes "32 \<le> LENGTH('a::len)"
  shows "\<exists>t. strto_loop b (0 :: 'a word) (s @ CHR 0x00 # r) = Some (word_of_nat (num_of (unat b) (digit_prefix (unat b) s)), t)"
proof -
  let ?P = "\<lambda>c. isxdigit c \<and> hexval c < unat b"
  obtain c t where c: "dropWhile ?P s @ CHR 0x00 # r = c # t" "stops (unat b) c"
  proof (cases "dropWhile ?P s")
    case Nil
    have "stops (unat b) CHR 0x00" by (simp add: stops_def isxdigit_iff)
    then show ?thesis using that Nil by simp
  next
    case (Cons c u)
    then have "\<not> ?P c" using hd_dropWhile [of ?P s] by simp
    then show ?thesis using that [of c "u @ CHR 0x00 # r"] Cons by (simp add: stops_def)
  qed
  have "s @ CHR 0x00 # r = digit_prefix (unat b) s @ c # t"
    using c(1) by (simp add: digit_prefix_def) (metis append.assoc takeWhile_dropWhile_id)
  moreover have "digits_of (unat b) (digit_prefix (unat b) s)"
    by (auto simp: digits_of_def digit_prefix_def dest: set_takeWhileD)
  ultimately show ?thesis using strto_loop_digits [OF assms c(2), of "digit_prefix (unat b) s" 0 t] by (simp add: num_of_def)
qed

lemma num_of_zero: "num_of b (CHR ''0'' # ds) = num_of b ds"
  by (simp add: num_of_def hexval_def)

lemma simple_strtoul_numeral:
  assumes "b \<noteq> 0"
  shows "\<exists>t. simple_strtoul (s @ CHR 0x00 # r) b = Some (word_of_nat (numeral_of (unat b) s), t)"
proof -
  let ?n = "\<lambda>b s. word_of_nat (num_of (unat (b :: u32)) (digit_prefix (unat b) s)) :: u32"
  have x: "\<not> isxdigit CHR 0x00" "0 < unat b" using assms by (simp_all add: isxdigit_iff unat_gt_0)
  have z: "digit_prefix (unat b) (CHR ''0'' # u) = CHR ''0'' # digit_prefix (unat b) u" for u
    using x(2) by (simp add: digit_prefix_def isxdigit_iff hexval_def)
  have nx: "digit_prefix n (CHR ''x'' # u) = []" for n u by (simp add: digit_prefix_def isxdigit_iff)
  have d16: "digit_prefix 16 u = [] \<longleftrightarrow> \<not> isxdigit (hd (u @ [CHR 0x00]))" for u
    using hexval_lt [of "hd u"] x(1) by (cases u) (auto simp: digit_prefix_def)
  have l: "\<exists>t. strto_loop b (0 :: u32) (s @ CHR 0x00 # r) = Some (?n b s, t)" for b s
    by (rule strto_loop_prefix) simp
  consider "hd (s @ [CHR 0x00]) \<noteq> CHR ''0''" | u where "s = CHR ''0'' # u" "hd (u @ [CHR 0x00]) \<noteq> CHR ''x''"
    | u where "s = ''0x'' @ u"
  proof (cases s)
    case Nil then show ?thesis using that(1) by simp
  next
    case (Cons c u)
    then show ?thesis using that by (cases u) auto
  qed
  then show ?thesis
  proof cases
    case 1
    then have "take 2 s \<noteq> ''0x''" by (cases s) auto
    then show ?thesis using 1 l [of b s] peek_append [of s r] assms by (simp add: simple_strtoul_def strto_base_def numeral_of_def)
  next
    case 2
    then have "take 2 s \<noteq> ''0x''" by (cases u) auto
    then show ?thesis using 2 l [of b u] peek_append [of u r] assms
      by (simp add: simple_strtoul_def strto_base_def numeral_of_def z num_of_zero)
  next
    case 3
    show ?thesis
    proof (cases "isxdigit (hd (u @ [CHR 0x00]))")
      case True
      then show ?thesis using 3 l [of 16 u] peek_append [of u r] d16 [of u]
        by (simp add: simple_strtoul_def strto_base_def numeral_of_def)
    next
      case False
      then show ?thesis using 3 l [of b "CHR ''x'' # u"] peek_append [of u r] d16 [of u] assms
        by (simp add: simple_strtoul_def strto_base_def numeral_of_def z num_of_zero nx)
    qed
  qed
qed

lemma simple_strtol_number: "\<exists>x t. simple_strtol (v @ CHR 0x00 # r) 10 = Some (x, t) \<and> sint x = number_of v"
proof (cases "\<exists>u. v = CHR ''-'' # u")
  case True
  then obtain u where u: "v = CHR ''-'' # u" by blast
  show ?thesis using simple_strtoul_numeral [of 10 u r] u by (auto simp: simple_strtol_def number_of_def)
next
  case False
  then have "hd (v @ [CHR 0x00]) \<noteq> CHR ''-''" by (cases v) auto
  moreover have "number_of v = sint (word_of_nat (numeral_of 10 v) :: u32)"
    using False by (cases v) (auto simp: number_of_def)
  ultimately show ?thesis using simple_strtoul_numeral [of 10 v r] peek_append [of v r] by (auto simp: simple_strtol_def)
qed

end
