(* ===== verification/Div64.thy ===== *)
theory Div64
  imports Prelude
begin

text \<open>
  Division of a 64-bit number by a 32-bit one on a machine that has no such instruction:
  \<^verbatim>\<open>lib_generic/div64.c\<close> and the macro \<open>do_div\<close> of \<^verbatim>\<open>include/div64.h\<close>.
\<close>

section \<open>The code\<close>

text \<open>The loop that doubles \<open>b\<close> while it is positive as a signed number and below \<open>rem\<close>.\<close>

function div64_grow :: "u64 \<Rightarrow> u64 \<Rightarrow> u64 \<Rightarrow> u64 \<times> u64" where
  "div64_grow rem b d = (if 0 < sint b \<and> b < rem then div64_grow rem (b + b) (d + d) else (b, d))"
  by auto

lemma sint_u64_pos: "(0 < sint b) = (0 < unat b \<and> unat b < 9223372036854775808)" for b :: u64
proof
  assume pos: "0 < sint b"
  have lt: "sint b < 9223372036854775808" using sint_lt [of b] by simp
  have "take_bit 64 (sint b) = sint b" using pos lt by (intro take_bit_int_eq_self) simp_all
  then have "uint b = sint b" using uint_sint [of b] by simp
  then show "0 < unat b \<and> unat b < 9223372036854775808"
    using pos lt unfolding unat_eq_nat_uint by linarith
next
  assume u: "0 < unat b \<and> unat b < 9223372036854775808"
  then have p: "0 < uint b" "uint b < 9223372036854775808" unfolding uint_nat by linarith+
  have "- (2 ^ 63) \<le> uint b" by (rule order_trans [of _ 0]) simp_all
  moreover have "uint b < 2 ^ 63" using p(2) by simp
  ultimately have "signed_take_bit 63 (uint b) = uint b" by (intro signed_take_bit_int_eq_self)
  then show "0 < sint b" using p(1) by (simp add: sint_uint)
qed

lemma unat_double: "unat b < 9223372036854775808 \<Longrightarrow> unat (b + b) = 2 * unat b" for b :: u64
  by (simp add: unat_word_ariths)

termination div64_grow
proof (relation "measure (\<lambda>(rem, b, d). 18446744073709551616 - unat b)", goal_cases)
  case (2 rem b d)
  then have b: "0 < unat b" "unat b < 9223372036854775808" by (simp_all only: sint_u64_pos)
  have "18446744073709551616 - unat (b + b) < 18446744073709551616 - unat b"
    unfolding unat_double [OF b(2)] using b by linarith
  then show ?case by (simp only: in_measure prod.case)
qed simp

declare div64_grow.simps [simp del]

text \<open>The loop that subtracts; it tests after its body.\<close>

function div64_shrink :: "u64 \<Rightarrow> u64 \<Rightarrow> u64 \<Rightarrow> u64 \<Rightarrow> u64 \<times> u64" where
  "div64_shrink rem b d res =
     (let (rem', res') = (if b \<le> rem then (rem - b, res + d) else (rem, res));
          b' = drop_bit 1 b; d' = drop_bit 1 d in
      if d' \<noteq> 0 then div64_shrink rem' b' d' res' else (rem', res'))"
  by auto

lemma unat_drop_1: "unat (drop_bit (Suc 0) d) = unat d div 2" for d :: u64
  using unat_drop_bit_eq [of 1 d] by (simp only: drop_bit_eq_div [where ?'a = nat]) simp

termination div64_shrink
proof (relation "measure (\<lambda>(rem, b, d, res). unat d)", goal_cases)
  case (2 rem b d res x rem' res' b' d')
  then have "unat (drop_bit (Suc 0) d) \<noteq> 0" by (simp add: unat_eq_zero)
  then show ?case using 2 by (simp add: unat_drop_1)
qed simp

declare div64_shrink.simps [simp del]

text \<open>\<open>__div64_32\<close>: the quotient left in \<open>*n\<close> and the remainder returned; \<open>base = 0\<close> divides by zero.\<close>

definition div64_32 :: "u64 \<Rightarrow> u32 \<Rightarrow> (u64 \<times> u32) option" where
  "div64_32 n base =
     (let high = (ucast (drop_bit 32 n) :: u32) in do {
        (res, rem) \<leftarrow>
          (if base \<le> high
           then if base = 0 then None
             else let high = high div base in Some (push_bit 32 (ucast high), n - push_bit 32 (ucast (high * base)))
           else Some (0, n));
        let (b, d) = div64_grow rem (ucast base) 1;
        let (rem, res) = div64_shrink rem b d res;
        Some (res, ucast rem) })"

definition do_div :: "u64 \<Rightarrow> u32 \<Rightarrow> (u64 \<times> u32) option" where
  "do_div n base =
     (if drop_bit 32 n = 0
      then if base = 0 then None else Some (ucast ((ucast n :: u32) div base), (ucast n :: u32) mod base)
      else div64_32 n base)"

definition lldiv :: "u64 \<Rightarrow> u32 \<Rightarrow> u64 option" where
  "lldiv dividend divisor = map_option fst (do_div dividend divisor)"

lemma unat_u64_lt: "unat (a :: u64) < 18446744073709551616"
  using unsigned_less [of a] by simp

section \<open>The loops\<close>

lemma div64_grow_ok:
  "unat b = base * unat d \<Longrightarrow> 0 < base \<Longrightarrow> unat d = 2 ^ k \<Longrightarrow>
   \<exists>b' d' j. div64_grow rem b d = (b', d') \<and> unat d' = 2 ^ j \<and> unat b' = base * unat d' \<and> unat rem < 2 * unat b'"
proof (induction rem b d arbitrary: k rule: div64_grow.induct)
  case (1 rem b d)
  have bpos: "0 < unat b" using "1.prems" by simp
  show ?case
  proof (cases "0 < sint b \<and> b < rem")
    case True
    then have b: "unat b < 9223372036854775808" by (simp add: sint_u64_pos)
    moreover have "unat d \<le> base * unat d" using "1.prems"(2) by simp
    ultimately have "unat d < 9223372036854775808" using "1.prems"(1) by linarith
    then have dd: "unat (d + d) = 2 ^ Suc k" using "1.prems"(3) by (simp only: unat_double power_Suc)
    have bb: "unat (b + b) = base * unat (d + d)" using "1.prems" by (simp only: unat_double [OF b] dd power_Suc ac_simps)
    show ?thesis using "1.IH" [OF True bb "1.prems"(2) dd] True by (subst div64_grow.simps) simp
  next
    case False
    then have "unat rem < 2 * unat b"
      using bpos unat_u64_lt [of rem] by (auto simp: sint_u64_pos word_less_nat_alt)
    then show ?thesis using "1.prems" False by (subst div64_grow.simps) auto
  qed
qed

lemma div64_shrink_ok:
  "unat b = base * unat d \<Longrightarrow> 0 < base \<Longrightarrow> unat d = 2 ^ k \<Longrightarrow> unat rem < 2 * unat b \<Longrightarrow>
   base * unat res + unat rem = n \<Longrightarrow> n < 18446744073709551616 \<Longrightarrow>
   \<exists>rem' res'. div64_shrink rem b d res = (rem', res') \<and> unat res' = n div base \<and> unat rem' = n mod base"
proof (induction rem b d res arbitrary: k rule: div64_shrink.induct)
  case (1 rem b d res)
  define rem' where "rem' = (if b \<le> rem then rem - b else rem)"
  define res' where "res' = (if b \<le> rem then res + d else res)"
  have unfold: "div64_shrink rem b d res =
      (if drop_bit 1 d \<noteq> 0 then div64_shrink rem' (drop_bit 1 b) (drop_bit 1 d) res' else (rem', res'))"
    by (subst div64_shrink.simps) (simp add: rem'_def res'_def Let_def)
  have rem: "unat rem' < unat b" "base * unat res' + unat rem' = n"
  proof -
    show "unat rem' < unat b"
      using "1.prems"(4) by (auto simp: rem'_def unat_sub word_le_nat_alt)
    show "base * unat res' + unat rem' = n"
    proof (cases "b \<le> rem")
      case True
      then have sub: "unat (rem - b) = unat rem - unat b" "unat b \<le> unat rem"
        by (simp_all add: unat_sub word_le_nat_alt)
      have le: "base * (unat res + unat d) \<le> n"
        using "1.prems"(1,5) sub(2) by (simp add: distrib_left)
      have "unat res + unat d \<le> base * (unat res + unat d)" using "1.prems"(2) by simp
      then have "unat res + unat d < 18446744073709551616" using le "1.prems"(6) by linarith
      then have "unat (res + d) = unat res + unat d" by (simp add: unat_word_ariths)
      then show ?thesis using True sub "1.prems"(1,5) by (simp add: rem'_def res'_def distrib_left)
    qed (use "1.prems" in \<open>simp add: rem'_def res'_def\<close>)
  qed
  show ?case
  proof (cases k)
    case 0
    then have "unat (drop_bit (Suc 0) d) = 0" using "1.prems"(3) unfolding unat_drop_1 by simp
    then have "drop_bit 1 d = 0" unfolding One_nat_def by (simp only: unat_eq_zero)
    moreover have "unat rem' < base" using rem(1) "1.prems"(1,3) 0 by simp
    then have "unat res' = n div base \<and> unat rem' = n mod base"
      using rem(2) by (metis add.commute div_mult_self2 less_nat_zero_code mod_less mod_mult_self2 div_less add_0)
    ultimately show ?thesis unfolding unfold by simp
  next
    case (Suc j)
    have d: "unat (drop_bit 1 d) = 2 ^ j" "unat (drop_bit 1 b) = base * 2 ^ j"
      using "1.prems"(1,3) Suc by (simp_all add: unat_drop_1 del: drop_bit_Suc)
    then have nz: "drop_bit 1 d \<noteq> 0" by (metis power_not_zero unat_0 zero_neq_numeral)
    have lt: "unat rem' < 2 * unat (drop_bit 1 b)" using rem(1) d(2) "1.prems"(1,3) Suc by simp
    have "\<exists>rem'' res''. div64_shrink rem' (drop_bit 1 b) (drop_bit 1 d) res' = (rem'', res'') \<and>
        unat res'' = n div base \<and> unat rem'' = n mod base"
      using "1.IH" [of "(rem', res')" rem' res' "drop_bit 1 b" "drop_bit 1 d" j] nz d lt rem(2) "1.prems"(2,6)
      by (auto simp: rem'_def res'_def)
    then show ?thesis unfolding unfold using nz by simp
  qed
qed

section \<open>Division\<close>

lemma unat_high: "unat (ucast (drop_bit 32 n) :: u32) = unat n div 4294967296" for n :: u64
proof -
  have "unat n div 4294967296 < 4294967296" using unat_u64_lt [of n] by (simp add: less_mult_imp_div_less)
  then show ?thesis
    using unat_drop_bit_eq [of 32 n]
    by (simp add: drop_bit_eq_div [where ?'a = nat] unsigned_ucast_eq take_bit_eq_mod)
qed

lemma unat_ucast_u64: "unat (ucast x :: u64) = unat x" for x :: u32
  using unat_word_lt [of x] by (simp add: unsigned_ucast_eq take_bit_eq_mod)

lemma unat_push_32: "unat (push_bit 32 (ucast x) :: u64) = 4294967296 * unat x" for x :: u32
proof -
  have "4294967296 * unat x < 18446744073709551616" using unat_word_lt [of x] by linarith
  then show ?thesis by (simp add: push_bit_eq_mult unat_word_ariths unat_ucast_u64 mult.commute)
qed

lemma div64_32_ok:
  assumes "base \<noteq> 0"
  shows "div64_32 n base = Some (word_of_nat (unat n div unat base), word_of_nat (unat n mod unat base))"
proof -
  let ?B = "unat base"
  let ?high = "ucast (drop_bit 32 n) :: u32"
  have B: "0 < ?B" using assms by (simp add: unat_gt_0)
  obtain res rem where start: "(if base \<le> ?high
           then if base = 0 then None
             else let high = ?high div base in Some (push_bit 32 (ucast high), n - push_bit 32 (ucast (high * base)))
           else Some (0, n)) = Some (res :: u64, rem)" "?B * unat res + unat rem = unat n"
  proof (cases "base \<le> ?high")
    case True
    let ?q = "?high div base"
    have q: "unat ?q = unat n div 4294967296 div ?B" by (simp add: unat_div unat_high)
    have le: "unat ?q * ?B \<le> unat n div 4294967296" unfolding q by simp
    moreover have "unat n div 4294967296 < 4294967296" using unat_word_lt [of ?high] by (simp only: unat_high)
    ultimately have qb: "unat (?q * base) = unat ?q * ?B" by (simp add: unat_word_ariths)
    have le': "4294967296 * (unat ?q * ?B) \<le> unat n" using le by (simp add: less_eq_div_iff_mult_less_eq mult.commute)
    then have rem: "unat (n - push_bit 32 (ucast (?q * base))) = unat n - 4294967296 * (unat ?q * ?B)"
      by (subst unat_sub) (simp_all only: word_le_nat_alt unat_push_32 qb)
    have res: "?B * unat (push_bit 32 (ucast ?q) :: u64) = 4294967296 * (unat ?q * ?B)"
      by (simp only: unat_push_32 ac_simps)
    have sum: "?B * unat (push_bit 32 (ucast ?q) :: u64) + unat (n - push_bit 32 (ucast (?q * base))) = unat n"
      unfolding rem res using le' by (rule le_add_diff_inverse)
    show thesis by (rule that [OF _ sum]) (use True assms in \<open>simp add: Let_def\<close>)
  next
    case False
    then show thesis using that [of 0 n] by simp
  qed
  obtain b d j where grow: "div64_grow rem (ucast base) 1 = (b, d)" "unat d = 2 ^ j" "unat b = ?B * unat d"
      "unat rem < 2 * unat b"
    using div64_grow_ok [of "ucast base" ?B 1 0 rem] B by (auto simp: unat_ucast_u64)
  from div64_shrink_ok [OF grow(3) B grow(2,4) start(2) unat_u64_lt]
  obtain rem' res' where "div64_shrink rem b d res = (rem', res')" "unat res' = unat n div ?B" "unat rem' = unat n mod ?B"
    by blast
  moreover from this have "res' = word_of_nat (unat n div ?B)" "(ucast rem' :: u32) = word_of_nat (unat n mod ?B)"
    by (metis of_nat_unat ucast_id, metis of_nat_unat)
  ultimately show ?thesis
    unfolding div64_32_def Let_def start(1) [unfolded Let_def] Option.bind.bind_lunit prod.case grow(1) by simp
qed

lemma do_div_ok:
  assumes "base \<noteq> 0"
  shows "do_div n base = Some (word_of_nat (unat n div unat base), word_of_nat (unat n mod unat base))"
proof (cases "drop_bit 32 n = 0")
  case True
  then have "unat (drop_bit 32 n) = 0" by simp
  then have small: "unat n < 4294967296"
    using unat_drop_bit_eq [of 32 n] by (simp add: drop_bit_eq_div [where ?'a = nat] div_eq_0_iff)
  then have u: "unat (ucast n :: u32) = unat n" by (simp add: unsigned_ucast_eq take_bit_eq_mod)
  have "unat n div unat base < 4294967296" "unat n mod unat base < 4294967296"
    using small by (meson le_less_trans div_le_dividend, meson le_less_trans mod_less_eq_dividend)
  then have "(ucast n :: u32) div base = word_of_nat (unat n div unat base)"
      "(ucast n :: u32) mod base = word_of_nat (unat n mod unat base)"
      "unat (word_of_nat (unat n div unat base) :: u32) = unat n div unat base"
    using u by (simp_all add: word_unat_eq_iff unat_div unat_mod unat_of_nat)
  moreover from this(3) have "ucast (word_of_nat (unat n div unat base) :: u32) = (word_of_nat (unat n div unat base) :: u64)"
    by (metis of_nat_unat)
  ultimately show ?thesis using True assms by (simp add: do_div_def)
next
  case False
  then show ?thesis using div64_32_ok [OF assms] by (simp add: do_div_def)
qed

text \<open>
  C30: \<open>do_div\<close> leaves the quotient in its first argument and returns the remainder, for every
  dividend and every divisor but 0, and \<open>__div64_32\<close> alone does so too: its shift-and-subtract
  loops end, nothing in them overflows, and \<open>lldiv\<close> returns the quotient.
\<close>

theorem do_div_correct:
  assumes "base \<noteq> 0"
  shows "do_div n base = Some (word_of_nat (unat n div unat base), word_of_nat (unat n mod unat base)) \<and>
    div64_32 n base = do_div n base \<and> lldiv n base = Some (n div ucast base)"
proof -
  have "unat (n div ucast base) = unat n div unat base"
    by (simp only: unat_div unat_ucast_u64)
  then have "word_of_nat (unat n div unat base) = n div ucast base"
    by (metis of_nat_unat ucast_id)
  then show ?thesis using div64_32_ok [OF assms, of n] do_div_ok [OF assms, of n] by (simp only: lldiv_def option.map fst_conv simp_thms)
qed

theorem do_div_correct_witness:
  "do_div 123456789012 100000 = Some (1234567, 89012)"
  using do_div_correct [of 100000 123456789012] by simp

end
