(* ===== verification/Vsprintf.thy ===== *)
theory Vsprintf
  imports Strtoul Div64 CString
begin

text \<open>
  Formatted output, \<^verbatim>\<open>lib_generic/vsprintf.c\<close> with \<open>CONFIG_SYS_64BIT_VSPRINTF\<close> (the setting of
  \<^verbatim>\<open>include/configs/imapx800.h\<close>, \<open>NUM_TYPE\<close> is 64 bits wide).  A routine that writes through
  \<open>buf\<close> returns the characters it writes; the buffer must not overlap the arguments.  The local
  array \<open>tmp\<close> is checked against its 66 elements.  The variable arguments are the 32-bit words of
  the \<open>va_list\<close>, and strings are read from the memory of \<open>CString\<close>.
\<close>

section \<open>Decimal digits\<close>

definition hex_asc :: string where
  "hex_asc = ''0123456789abcdef''"

definition pack_hex_byte :: "u8 \<Rightarrow> string" where
  "pack_hex_byte b = [hex_asc ! unat (drop_bit 4 (b AND 0xf0)), hex_asc ! unat (b AND 0x0f)]"

text \<open>The store \<open>*buf++ = d + '0'\<close>.\<close>

definition dchar :: "u32 \<Rightarrow> char" where
  "dchar d = char_of (unat (d + 0x30))"

definition put_dec_trunc :: "u32 \<Rightarrow> string" where
  "put_dec_trunc q =
     (let d1 = drop_bit 4 q AND 0xf; d2 = drop_bit 8 q AND 0xf; d3 = drop_bit 12 q;
          d0 = 6 * (d3 + d2 + d1) + (q AND 0xf);
          q = drop_bit 11 (d0 * 0xcd);
          d0 = d0 - 10 * q;
          d1 = q + 9 * d3 + 5 * d2 + d1 in
      dchar d0 #
      (if d1 \<noteq> 0
       then
         let q = drop_bit 11 (d1 * 0xcd);
             d1 = d1 - 10 * q;
             d2 = q + 2 * d2 in
         dchar d1 #
         (if d2 \<noteq> 0 \<or> d3 \<noteq> 0
          then
            let q = drop_bit 7 (d2 * 0xd);
                d2 = d2 - 10 * q;
                d3 = q + 4 * d3 in
            dchar d2 #
            (if d3 \<noteq> 0
             then
               let q = drop_bit 11 (d3 * 0xcd);
                   d3 = d3 - 10 * q in
               dchar d3 # (if q \<noteq> 0 then [dchar q] else [])
             else [])
          else [])
       else []))"

definition put_dec_full :: "u32 \<Rightarrow> string" where
  "put_dec_full q =
     (let d1 = drop_bit 4 q AND 0xf; d2 = drop_bit 8 q AND 0xf; d3 = drop_bit 12 q;
          d0 = 6 * (d3 + d2 + d1) + (q AND 0xf);
          q = drop_bit 11 (d0 * 0xcd);
          c0 = dchar (d0 - 10 * q);
          d1 = q + 9 * d3 + 5 * d2 + d1;
          q = drop_bit 11 (d1 * 0xcd);
          c1 = dchar (d1 - 10 * q);
          d2 = q + 2 * d2;
          q = drop_bit 7 (d2 * 0xd);
          c2 = dchar (d2 - 10 * q);
          d3 = q + 4 * d3;
          q = drop_bit 11 (d3 * 0xcd);
          c3 = dchar (d3 - 10 * q) in
      [c0, c1, c2, c3, dchar q])"

partial_function (option) put_dec :: "u64 \<Rightarrow> string option" where [code]:
  "put_dec num =
     (if num < 100000 then Some (put_dec_trunc (ucast num))
      else do {
        (num', rem) \<leftarrow> do_div num 100000;
        s \<leftarrow> put_dec num';
        Some (put_dec_full rem @ s) })"

section \<open>Numbers and strings\<close>

text \<open>The bits of \<open>type\<close> and \<open>flags\<close>.\<close>

record flags =
  ZEROPAD :: bool
  SIGN :: bool
  PLUS :: bool
  SPACE :: bool
  LEFT :: bool
  SMALL :: bool
  SPECIAL :: bool

definition no_flags :: flags where
  "no_flags = \<lparr>ZEROPAD = False, SIGN = False, PLUS = False, SPACE = False, LEFT = False, SMALL = False, SPECIAL = False\<rparr>"

text \<open>\<open>c | locase\<close> with \<open>locase\<close> 0 or 0x20.\<close>

definition or_char :: "char \<Rightarrow> u8 \<Rightarrow> char" where
  "or_char c l = char_of_u8 (of_char c OR l)"

definition digit_char :: "u8 \<Rightarrow> nat \<Rightarrow> char" where
  "digit_char locase d = or_char (''0123456789ABCDEF'' ! d) locase"

definition push_tmp :: "string \<Rightarrow> char \<Rightarrow> string option" where
  "push_tmp tmp c = (if length tmp < 66 then Some (tmp @ [c]) else None)"

partial_function (option) number_pow2 :: "nat \<Rightarrow> u8 \<Rightarrow> u64 \<Rightarrow> string \<Rightarrow> string option" where [code]:
  "number_pow2 base locase num tmp = do {
     tmp \<leftarrow> push_tmp tmp (digit_char locase (unat ((ucast num :: u8) AND (word_of_nat base - 1))));
     let num = drop_bit (if base = 16 then 4 else 3) num;
     if num \<noteq> 0 then number_pow2 base locase num tmp else Some tmp }"

text \<open>\<open>while (--sz >= 0) *buf++ = c;\<close> and \<open>while (i <= --precision) *buf++ = '0';\<close>\<close>

function pad_loop :: "char \<Rightarrow> int \<Rightarrow> string \<times> int" where
  "pad_loop c sz =
     (let sz = sz - 1 in
      if 0 \<le> sz then (case pad_loop c sz of (s, sz) \<Rightarrow> (c # s, sz)) else ([], sz))"
  by auto
termination by (relation "measure (\<lambda>(c, sz). nat sz)") auto

function zero_loop :: "int \<Rightarrow> int \<Rightarrow> string" where
  "zero_loop i precision =
     (let precision = precision - 1 in
      if i \<le> precision then CHR ''0'' # zero_loop i precision else [])"
  by auto
termination by (relation "measure (\<lambda>(i, precision). nat (precision - i))") auto

declare pad_loop.simps [simp del] zero_loop.simps [simp del]

definition number :: "u64 \<Rightarrow> nat \<Rightarrow> int \<Rightarrow> int \<Rightarrow> flags \<Rightarrow> string option" where
  "number num base sz precision type =
     (let need_pfx = SPECIAL type \<and> base \<noteq> 10;
          locase = (if SMALL type then 0x20 else 0);
          type = (if LEFT type then type\<lparr>ZEROPAD := False\<rparr> else type);
          (sign, num, sz) =
            (if SIGN type
             then if sint num < 0 then (''-'', - num, sz - 1)
               else if PLUS type then (''+'', num, sz - 1)
               else if SPACE type then ('' '', num, sz - 1)
               else ([], num, sz)
             else ([], num, sz));
          sz = (if need_pfx then sz - 1 - (if base = 16 then 1 else 0) else sz) in do {
        tmp \<leftarrow>
          (if num = 0 then push_tmp [] CHR ''0''
           else if base \<noteq> 10 then number_pow2 base locase num []
           else do { s \<leftarrow> put_dec num; if length s \<le> 66 then Some s else None });
        let i = int (length tmp);
        let precision = (if i > precision then i else precision);
        let sz = sz - precision;
        let (lead, sz) = (if \<not> (ZEROPAD type \<or> LEFT type) then pad_loop CHR '' '' sz else ([], sz));
        let pfx = (if need_pfx then CHR ''0'' # (if base = 16 then [or_char CHR ''X'' locase] else []) else []);
        let (fill, sz) =
          (if \<not> LEFT type then pad_loop (if ZEROPAD type then CHR ''0'' else CHR '' '') sz else ([], sz));
        let zeros = zero_loop i precision;
        let (trail, sz) = pad_loop CHR '' '' sz;
        Some (lead @ sign @ pfx @ fill @ zeros @ rev tmp @ trail) })"

text \<open>\<open>while (len < field_width--) *buf++ = ' ';\<close>\<close>

function width_loop :: "int \<Rightarrow> int \<Rightarrow> string \<times> int" where
  "width_loop len field_width =
     (if len < field_width
      then case width_loop len (field_width - 1) of (s, w) \<Rightarrow> (CHR '' '' # s, w)
      else ([], field_width - 1))"
  by auto
termination by (relation "measure (\<lambda>(len, w). nat (w - len))") auto

declare width_loop.simps [simp del]

text \<open>A local array of characters, as a memory that starts at 0.\<close>

definition arr :: "string \<Rightarrow> mem" where
  "arr s = (\<lambda>i. if i < length s then s ! i else NUL)"

text \<open>\<open>string\<close>; \<open>precision\<close> becomes a \<^verbatim>\<open>size_t\<close>.\<close>

definition string_out :: "mem \<Rightarrow> ptr option \<Rightarrow> int \<Rightarrow> int \<Rightarrow> flags \<Rightarrow> string" where
  "string_out m s field_width precision fl =
     (let (m, s) = (case s of None \<Rightarrow> (arr ''<NULL>'', 0) | Some p \<Rightarrow> (m, p));
          len = strnlen m s (unat (word_of_int precision :: u32));
          (lead, field_width) = (if \<not> LEFT fl then width_loop (int len) field_width else ([], field_width));
          (trail, field_width) = width_loop (int len) field_width in
      lead @ map (\<lambda>i. m (s + i)) [0..<len] @ trail)"

section \<open>Pointers\<close>

text \<open>Byte \<open>i\<close> of an address in memory.\<close>

definition addr_byte :: "mem \<Rightarrow> ptr \<Rightarrow> nat \<Rightarrow> u8" where
  "addr_byte m p i = of_char (m (p + i))"

definition mac_address_string :: "mem \<Rightarrow> ptr \<Rightarrow> int \<Rightarrow> int \<Rightarrow> flags \<Rightarrow> string" where
  "mac_address_string m a field_width precision fl =
     (let mac_addr = concat (map (\<lambda>i. pack_hex_byte (addr_byte m a i) @
            (if \<not> SPECIAL fl \<and> i \<noteq> 5 then '':'' else [])) [0..<6]) in
      string_out (arr mac_addr) (Some 0) field_width precision (fl\<lparr>SPECIAL := False\<rparr>))"

definition ip6_addr_string :: "mem \<Rightarrow> ptr \<Rightarrow> int \<Rightarrow> int \<Rightarrow> flags \<Rightarrow> string" where
  "ip6_addr_string m a field_width precision fl =
     (let ip6_addr = concat (map (\<lambda>i. pack_hex_byte (addr_byte m a (2 * i)) @
            pack_hex_byte (addr_byte m a (2 * i + 1)) @
            (if \<not> SPECIAL fl \<and> i \<noteq> 7 then '':'' else [])) [0..<8]) in
      string_out (arr ip6_addr) (Some 0) field_width precision (fl\<lparr>SPECIAL := False\<rparr>))"

text \<open>The digits of one quad go through \<open>temp[3]\<close>.\<close>

definition ip4_quad :: "u8 \<Rightarrow> string option" where
  "ip4_quad b = (let temp = put_dec_trunc (ucast b) in if length temp \<le> 3 then Some (rev temp) else None)"

definition ip4_addr_string :: "mem \<Rightarrow> ptr \<Rightarrow> int \<Rightarrow> int \<Rightarrow> flags \<Rightarrow> string option" where
  "ip4_addr_string m a field_width precision fl = do {
     q0 \<leftarrow> ip4_quad (addr_byte m a 0);
     q1 \<leftarrow> ip4_quad (addr_byte m a 1);
     q2 \<leftarrow> ip4_quad (addr_byte m a 2);
     q3 \<leftarrow> ip4_quad (addr_byte m a 3);
     let ip4_addr = q0 @ ''.'' @ q1 @ ''.'' @ q2 @ ''.'' @ q3;
     Some (string_out (arr ip4_addr) (Some 0) field_width precision (fl\<lparr>SPECIAL := False\<rparr>)) }"

text \<open>\<open>pointer\<close>; \<open>net\<close> says whether \<open>CONFIG_CMD_NET\<close> is set (it is not for imapx800).\<close>

definition pointer_plain :: "u32 \<Rightarrow> int \<Rightarrow> int \<Rightarrow> flags \<Rightarrow> string option" where
  "pointer_plain p field_width precision fl =
     (let fl = fl\<lparr>SMALL := True\<rparr>;
          (field_width, fl) = (if field_width = - 1 then (2 * 4, fl\<lparr>ZEROPAD := True\<rparr>) else (field_width, fl)) in
      number (ucast p) 16 field_width precision fl)"

definition pointer :: "bool \<Rightarrow> mem \<Rightarrow> string \<Rightarrow> u32 \<Rightarrow> int \<Rightarrow> int \<Rightarrow> flags \<Rightarrow> string option" where
  "pointer net m fmt p field_width precision fl =
     (if p = 0 then Some (string_out (arr ''(null)'') (Some 0) field_width precision fl)
      else if \<not> net then pointer_plain p field_width precision fl
      else do {
        c \<leftarrow> peek fmt;
        if c \<in> {CHR ''m'', CHR ''M''}
        then Some (mac_address_string m (unat p) field_width precision (if c = CHR ''m'' then fl\<lparr>SPECIAL := True\<rparr> else fl))
        else if c \<in> {CHR ''i'', CHR ''I''}
        then do {
          let fl = (if c = CHR ''i'' then fl\<lparr>SPECIAL := True\<rparr> else fl);
          d \<leftarrow> peek (tl fmt);
          if d = CHR ''6'' then Some (ip6_addr_string m (unat p) field_width precision fl)
          else if d = CHR ''4'' then ip4_addr_string m (unat p) field_width precision fl
          else pointer_plain p field_width precision (fl\<lparr>SPECIAL := False\<rparr>) }
        else pointer_plain p field_width precision fl })"

section \<open>The format\<close>

fun flags_loop :: "flags \<Rightarrow> string \<Rightarrow> (flags \<times> string) option" where
  "flags_loop fl [] = None"
| "flags_loop fl (c # fmt) =
     (if c = CHR ''-'' then flags_loop (fl\<lparr>LEFT := True\<rparr>) fmt
      else if c = CHR ''+'' then flags_loop (fl\<lparr>PLUS := True\<rparr>) fmt
      else if c = CHR '' '' then flags_loop (fl\<lparr>SPACE := True\<rparr>) fmt
      else if c = CHR ''#'' then flags_loop (fl\<lparr>SPECIAL := True\<rparr>) fmt
      else if c = CHR ''0'' then flags_loop (fl\<lparr>ZEROPAD := True\<rparr>) fmt
      else Some (fl, c # fmt))"

text \<open>
  \<open>va_arg\<close>: word \<open>k\<close> of the argument list.  Field width and precision, each a number, a star or
  nothing; the qualifier, where \<open>ll\<close> counts as \<open>L\<close>.
\<close>

definition get_width :: "u32 list \<Rightarrow> nat \<Rightarrow> flags \<Rightarrow> string \<Rightarrow> (int \<times> flags \<times> nat \<times> string) option" where
  "get_width args k fl fmt = do {
     c \<leftarrow> peek fmt;
     if is_digit c then do { (w, fmt) \<leftarrow> skip_atoi 0 fmt; Some (w, fl, k, fmt) }
     else if c = CHR ''*''
     then do {
       a \<leftarrow> rd args k;
       Some (if sint a < 0 then (- sint a, fl\<lparr>LEFT := True\<rparr>, k + 1, tl fmt) else (sint a, fl, k + 1, tl fmt)) }
     else Some (- 1, fl, k, fmt) }"

definition get_precision :: "u32 list \<Rightarrow> nat \<Rightarrow> string \<Rightarrow> (int \<times> nat \<times> string) option" where
  "get_precision args k fmt = do {
     c \<leftarrow> peek fmt;
     if c = CHR ''.''
     then do {
       let fmt = tl fmt;
       c \<leftarrow> peek fmt;
       (p, k, fmt) \<leftarrow>
         (if is_digit c then do { (p, fmt) \<leftarrow> skip_atoi 0 fmt; Some (p, k, fmt) }
          else if c = CHR ''*'' then do { a \<leftarrow> rd args k; Some (sint a, k + 1, tl fmt) }
          else Some (- 1, k, fmt));
       Some (if p < 0 then 0 else p, k, fmt) }
     else Some (- 1, k, fmt) }"

definition get_qualifier :: "string \<Rightarrow> (char option \<times> string) option" where
  "get_qualifier fmt = do {
     c \<leftarrow> peek fmt;
     if c \<in> set ''hlLZzt''
     then do {
       d \<leftarrow> peek (tl fmt);
       Some (if c = CHR ''l'' \<and> d = CHR ''l'' then (Some CHR ''L'', tl (tl fmt)) else (Some c, tl fmt)) }
     else Some (None, fmt) }"

text \<open>
  The number to print.  For \<open>L\<close> a padding word is skipped when the argument is at an offset from the
  first argument that is a multiple of eight.
\<close>

definition get_num :: "u32 list \<Rightarrow> nat \<Rightarrow> char option \<Rightarrow> flags \<Rightarrow> (u64 \<times> nat) option" where
  "get_num args k qualifier fl =
     (if qualifier = Some CHR ''L''
      then do {
        k \<leftarrow> (if (4 * k) mod 8 = 0 then do { _ \<leftarrow> rd args k; Some (k + 1) } else Some k);
        tmp \<leftarrow> rd args k;
        num \<leftarrow> rd args (k + 1);
        Some (push_bit 32 (ucast num) OR ucast tmp, k + 2) }
      else do {
        a \<leftarrow> rd args k;
        Some
          (if qualifier = Some CHR ''l'' then if SIGN fl then scast a else ucast a
           else if qualifier \<in> {Some CHR ''Z'', Some CHR ''z''} then ucast a
           else if qualifier = Some CHR ''t'' then scast a
           else if qualifier = Some CHR ''h'' then if SIGN fl then scast (ucast a :: u16) else ucast (ucast a :: u16)
           else if SIGN fl then scast a else ucast a, k + 1) })"

text \<open>\<open>while (--field_width > 0) *str++ = ' ';\<close>, the skipped letters behind \<open>%p\<close>, the store of \<open>%n\<close>.\<close>

function char_pad :: "int \<Rightarrow> string \<times> int" where
  "char_pad w = (let w = w - 1 in if 0 < w then (case char_pad w of (s, w) \<Rightarrow> (CHR '' '' # s, w)) else ([], w))"
  by auto
termination by (relation "measure nat") auto

declare char_pad.simps [simp del]

fun skip_alnum :: "string \<Rightarrow> string option" where
  "skip_alnum [] = None"
| "skip_alnum (c # fmt) = (if isalnum c then skip_alnum fmt else Some (c # fmt))"

definition store_u32 :: "mem \<Rightarrow> ptr \<Rightarrow> u32 \<Rightarrow> mem" where
  "store_u32 m p w = m(p := char_of (unat w), p + 1 := char_of (unat (drop_bit 8 w)),
     p + 2 := char_of (unat (drop_bit 16 w)), p + 3 := char_of (unat (drop_bit 24 w)))"

text \<open>
  One conversion, \<open>fmt\<close> standing behind the \<open>%\<close> and \<open>n\<close> characters being written: the characters it
  writes, the memory, the next argument and the format behind it.
\<close>

definition vsprintf_conv :: "bool \<Rightarrow> u32 list \<Rightarrow> mem \<Rightarrow> nat \<Rightarrow> nat \<Rightarrow> string \<Rightarrow> (string \<times> mem \<times> nat \<times> string) option" where
  "vsprintf_conv net args m n k fmt = do {
     (fl, fmt) \<leftarrow> flags_loop no_flags fmt;
     (field_width, fl, k, fmt) \<leftarrow> get_width args k fl fmt;
     (precision, k, fmt) \<leftarrow> get_precision args k fmt;
     (qualifier, fmt) \<leftarrow> get_qualifier fmt;
     c \<leftarrow> peek fmt;
     if c = CHR ''c''
     then do {
       let (lead, field_width) = (if \<not> LEFT fl then char_pad field_width else ([], field_width));
       a \<leftarrow> rd args k;
       Some (lead @ char_of (unat a) # fst (char_pad field_width), m, k + 1, tl fmt) }
     else if c = CHR ''s''
     then do {
       a \<leftarrow> rd args k;
       Some (string_out m (if a = 0 then None else Some (unat a)) field_width precision fl, m, k + 1, tl fmt) }
     else if c = CHR ''p''
     then do {
       a \<leftarrow> rd args k;
       s \<leftarrow> pointer net m (tl fmt) a field_width precision fl;
       fmt \<leftarrow> skip_alnum (tl fmt);
       Some (s, m, k + 1, fmt) }
     else if c = CHR ''n''
     then do { a \<leftarrow> rd args k; Some ([], store_u32 m (unat a) (word_of_nat n), k + 1, tl fmt) }
     else if c = CHR ''%'' then Some (''%'', m, k, tl fmt)
     else if c \<in> set ''oxXdiu''
     then do {
       let fl = (if c = CHR ''x'' then fl\<lparr>SMALL := True\<rparr>
                 else if c \<in> {CHR ''d'', CHR ''i''} then fl\<lparr>SIGN := True\<rparr> else fl);
       let base = (if c = CHR ''o'' then 8 else if c \<in> {CHR ''x'', CHR ''X''} then 16 else 10);
       (num, k) \<leftarrow> get_num args k qualifier fl;
       s \<leftarrow> number num base field_width precision fl;
       Some (s, m, k, tl fmt) }
     else if c \<noteq> NUL then Some ([CHR ''%'', c], m, k, tl fmt)
     else Some (''%'', m, k, fmt) }"

partial_function (option) vsprintf_loop ::
    "bool \<Rightarrow> u32 list \<Rightarrow> mem \<Rightarrow> nat \<Rightarrow> string \<Rightarrow> string \<Rightarrow> (string \<times> mem) option" where [code]:
  "vsprintf_loop net args m k out fmt = do {
     c \<leftarrow> peek fmt;
     if c = NUL then Some (out, m)
     else if c \<noteq> CHR ''%'' then vsprintf_loop net args m k (out @ [c]) (tl fmt)
     else do {
       (s, m, k, fmt) \<leftarrow> vsprintf_conv net args m (length out) k (tl fmt);
       vsprintf_loop net args m k (out @ s) fmt } }"

text \<open>The characters written (the NUL behind them and the length returned follow) and the memory.\<close>

definition vsprintf :: "bool \<Rightarrow> mem \<Rightarrow> string \<Rightarrow> u32 list \<Rightarrow> (string \<times> mem) option" where
  "vsprintf net m fmt args = vsprintf_loop net args m 0 [] fmt"

section \<open>Digits of a number\<close>

text \<open>The digits in base \<open>b\<close>, the least significant first, and their characters.\<close>

function digs :: "nat \<Rightarrow> nat \<Rightarrow> nat list" where
  "digs b n = (if n < b \<or> b < 2 then [n] else n mod b # digs b (n div b))"
  by auto
termination by (relation "measure snd") auto

declare digs.simps [simp del]

lemma digs_small: "n < b \<Longrightarrow> digs b n = [n]"
  by (simp add: digs.simps)

lemma digs_big: "b \<le> n \<Longrightarrow> 2 \<le> b \<Longrightarrow> digs b n = n mod b # digs b (n div b)"
  by (simp add: digs.simps)

lemma digs_bound: "2 \<le> b \<Longrightarrow> d \<in> set (digs b n) \<Longrightarrow> d < b"
proof (induction b n rule: digs.induct)
  case (1 b n)
  then show ?case by (cases "n < b") (auto simp: digs_small digs_big)
qed

definition dchr :: "nat \<Rightarrow> char" where
  "dchr d = char_of (48 + d)"

lemma digit_char_dec: "d < 10 \<Longrightarrow> locase \<in> {0, 0x20} \<Longrightarrow> digit_char locase d = dchr d"
proof -
  assume d: "d < 10" and l: "locase \<in> {0, 0x20}"
  from d have "d \<in> {0, 1, 2, 3, 4, 5, 6, 7, 8, 9}" by auto
  then show ?thesis using l by (auto simp: digit_char_def or_char_def char_of_u8_def dchr_def)
qed

section \<open>The decimal conversion without division\<close>

text \<open>Arithmetic on quotient and remainder, with both as plain numbers.\<close>

lemma mul_div10: "x < 1020 \<Longrightarrow> x * 205 div 2048 = x div (10 :: nat)"
proof -
  assume x: "x < 1020"
  define k r where "k = x div 10" and "r = x mod 10"
  have kr: "x = 10 * k + r" "r \<le> 9" by (simp_all add: k_def r_def less_Suc_eq_le [symmetric])
  have "x * 205 = 2050 * k + 205 * r" unfolding kr(1) by (simp add: distrib_right)
  moreover have "k \<le> 101" using x unfolding kr(1) by simp
  ultimately have "2048 * k \<le> x * 205" "x * 205 < 2048 * Suc k" using kr(2) by simp_all
  then have "x * 205 div 2048 = k" by (intro div_nat_eqI) (simp_all add: mult.commute)
  then show ?thesis by (simp add: k_def)
qed

lemma mul_div10_short: "x < 64 \<Longrightarrow> x * 13 div 128 = x div (10 :: nat)"
proof -
  assume x: "x < 64"
  define k r where "k = x div 10" and "r = x mod 10"
  have kr: "x = 10 * k + r" "r \<le> 9" by (simp_all add: k_def r_def less_Suc_eq_le [symmetric])
  have m: "x * 13 = 130 * k + 13 * r" unfolding kr(1) by (simp add: distrib_right)
  have "k \<le> 5 \<or> k = 6 \<and> r \<le> 3" using x unfolding kr(1) by linarith
  then have "128 * k \<le> x * 13" "x * 13 < 128 * Suc k" using kr(2) m by auto
  then have "x * 13 div 128 = k" by (intro div_nat_eqI) (simp_all add: mult.commute)
  then show ?thesis by (simp add: k_def)
qed

lemma add10: "(x + 10 * y) mod 10 = x mod 10" "(x + 10 * y) div 10 = x div 10 + (y :: nat)"
  by simp_all

lemma sum0_le: "D \<le> 24 \<Longrightarrow> C \<le> 15 \<Longrightarrow> B \<le> 15 \<Longrightarrow> A \<le> 15 \<Longrightarrow> 6 * (D + C + B) + A < (340 :: nat)"
  by presburger

lemma sum0_split: "n = A + 16 * B + 256 * C + 4096 * D \<Longrightarrow> n = 6 * (D + C + B) + A + 10 * (B + 25 * C + 409 * (D :: nat))"
  by presburger

lemma drop_bit_of_nat: "x < 4294967296 \<Longrightarrow> drop_bit k (word_of_nat x :: u32) = word_of_nat (x div 2 ^ k)"
proof -
  assume x: "x < 4294967296"
  have "unat (drop_bit k (word_of_nat x :: u32)) = x div 2 ^ k"
    using unat_drop_bit_eq [of k "word_of_nat x :: u32"] x
    by (simp add: drop_bit_eq_div [where ?'a = nat] unat_of_nat)
  then show ?thesis by (metis of_nat_unat ucast_id)
qed

lemma w_div10: "x < 1020 \<Longrightarrow> drop_bit 11 (word_of_nat x * 0xcd :: u32) = word_of_nat (x div 10)"
  using drop_bit_of_nat [of "x * 205" 11] mul_div10 [of x] by simp

lemma w_div10_short: "x < 64 \<Longrightarrow> drop_bit 7 (word_of_nat x * 0xd :: u32) = word_of_nat (x div 10)"
  using drop_bit_of_nat [of "x * 13" 7] mul_div10_short [of x] by simp

lemma w_mod10: "word_of_nat x - 10 * word_of_nat (x div 10) = (word_of_nat (x mod 10) :: u32)"
proof -
  have "(word_of_nat x :: u32) = word_of_nat (10 * (x div 10) + x mod 10)" by simp
  also have "\<dots> = 10 * word_of_nat (x div 10) + word_of_nat (x mod 10)" by (simp only: of_nat_add of_nat_mult of_nat_numeral)
  finally show ?thesis by simp
qed

lemma w_nonzero: "x < 4294967296 \<Longrightarrow> ((word_of_nat x :: u32) = 0) = (x = 0)"
  by (simp add: word_unat_eq_iff unat_of_nat)

lemma dchar_digit: "d < 10 \<Longrightarrow> dchar (word_of_nat d) = dchr d"
proof -
  assume d: "d < 10"
  then have "unat (word_of_nat d + 0x30 :: u32) = d + 48" by (simp add: unat_word_ariths unat_of_nat)
  then show ?thesis by (simp add: dchar_def dchr_def add.commute)
qed

text \<open>The sums the code makes of the four nibbles of a number below 100000.\<close>

definition sum0 :: "nat \<Rightarrow> nat" where
  "sum0 n = 6 * (n div 4096 + n div 256 mod 16 + n div 16 mod 16) + n mod 16"

definition sum1 :: "nat \<Rightarrow> nat" where
  "sum1 n = sum0 n div 10 + 9 * (n div 4096) + 5 * (n div 256 mod 16) + n div 16 mod 16"

definition sum2 :: "nat \<Rightarrow> nat" where
  "sum2 n = sum1 n div 10 + 2 * (n div 256 mod 16)"

definition sum3 :: "nat \<Rightarrow> nat" where
  "sum3 n = sum2 n div 10 + 4 * (n div 4096)"

lemma nibbles: "n = n mod 16 + 16 * (n div 16 mod 16) + 256 * (n div 256 mod 16) + 4096 * (n div 4096)" for n :: nat
proof -
  have "n = n mod 16 + 16 * (n div 16)" by simp
  moreover have "n div 16 = n div 16 mod 16 + 16 * (n div 256)"
    using mod_mult_div_eq [of "n div 16" 16] by (simp add: div_mult2_eq [symmetric])
  moreover have "n div 256 = n div 256 mod 16 + 16 * (n div 4096)"
    using mod_mult_div_eq [of "n div 256" 16] by (simp add: div_mult2_eq [symmetric])
  ultimately show ?thesis by linarith
qed

lemma sum_bounds:
  assumes "n < 100000"
  shows "sum0 n < 340" "sum1 n < 360" "sum2 n < 64" "sum3 n < 104"
proof -
  have b: "n div 4096 \<le> 24" "n div 256 mod 16 \<le> 15" "n div 16 mod 16 \<le> 15" "n mod 16 \<le> 15" using assms by auto
  show 0: "sum0 n < 340" using b unfolding sum0_def by (intro sum0_le)
  then have "sum0 n div 10 \<le> 33" by simp
  then have 1: "sum1 n \<le> 33 + 9 * 24 + 5 * 15 + 15" using b unfolding sum1_def by linarith
  then show "sum1 n < 360" by simp
  have "sum1 n div 10 \<le> 33" using 1 by simp
  then have 2: "sum2 n \<le> 33 + 2 * 15" using b unfolding sum2_def by linarith
  then show "sum2 n < 64" by simp
  have "sum2 n div 10 \<le> 6" using 2 by simp
  then show "sum3 n < 104" using b unfolding sum3_def by linarith
qed

text \<open>They carry the decimal digits.\<close>

lemma sum_digits:
  "sum0 n mod 10 = n mod 10"
  "n div 10 = sum1 n + 20 * (n div 256 mod 16) + 400 * (n div 4096)"
  "sum1 n mod 10 = n div 10 mod 10"
  "n div 100 = sum2 n + 40 * (n div 4096)"
  "sum2 n mod 10 = n div 100 mod 10"
  "n div 1000 = sum3 n"
proof -
  let ?B = "n div 16 mod 16" and ?C = "n div 256 mod 16" and ?D = "n div 4096"
  have n0: "n = sum0 n + 10 * (?B + 25 * ?C + 409 * ?D)"
    unfolding sum0_def by (rule sum0_split) (rule nibbles)
  show "sum0 n mod 10 = n mod 10" by (subst (2) n0) (rule mod_mult_self2 [symmetric])
  have "n div 10 = sum0 n div 10 + (?B + 25 * ?C + 409 * ?D)"
    using arg_cong [OF n0, of "\<lambda>x. x div 10"] by (simp only: div_mult_self2 add.commute)
  then show n1: "n div 10 = sum1 n + 20 * ?C + 400 * ?D" unfolding sum1_def by linarith
  have n1': "n div 10 = sum1 n + 10 * (2 * ?C + 40 * ?D)" using n1 by simp
  show "sum1 n mod 10 = n div 10 mod 10" unfolding n1' by (simp only: add10)
  have "n div 100 = n div 10 div 10" by (simp add: div_mult2_eq [symmetric])
  also have "\<dots> = sum1 n div 10 + (2 * ?C + 40 * ?D)" unfolding n1' by (simp only: add10)
  finally show n2: "n div 100 = sum2 n + 40 * ?D" unfolding sum2_def by simp
  have n2': "n div 100 = sum2 n + 10 * (4 * ?D)" using n2 by simp
  show "sum2 n mod 10 = n div 100 mod 10" unfolding n2' by (simp only: add10)
  have "n div 1000 = n div 100 div 10" by (simp add: div_mult2_eq [symmetric])
  also have "\<dots> = sum2 n div 10 + 4 * ?D" unfolding n2' by (simp only: add10)
  finally show "n div 1000 = sum3 n" unfolding sum3_def .
qed

text \<open>The words of the code are these numbers.\<close>

lemma and_15: "x < 4294967296 \<Longrightarrow> (word_of_nat x AND 0xf :: u32) = word_of_nat (x mod 16)"
proof -
  have "(word_of_nat x AND 0xf :: u32) = take_bit 4 (word_of_nat x)" by (simp add: take_bit_eq_mask mask_eq_exp_minus_1)
  also have "\<dots> = word_of_nat (take_bit 4 x)" by (simp add: take_bit_of_nat)
  finally show ?thesis by (simp add: take_bit_eq_mod)
qed

lemma nibble_words:
  assumes "n < 100000"
  shows "drop_bit 4 (word_of_nat n) AND 0xf = (word_of_nat (n div 16 mod 16) :: u32)"
    "drop_bit 8 (word_of_nat n) AND 0xf = (word_of_nat (n div 256 mod 16) :: u32)"
    "drop_bit 12 (word_of_nat n) = (word_of_nat (n div 4096) :: u32)"
    "(word_of_nat n AND 0xf :: u32) = word_of_nat (n mod 16)"
proof -
  have n: "n < 4294967296" "n div 16 < 4294967296" "n div 256 < 4294967296"
    using assms by (auto intro: le_less_trans [OF div_le_dividend])
  show "drop_bit 4 (word_of_nat n) AND 0xf = (word_of_nat (n div 16 mod 16) :: u32)"
    using drop_bit_of_nat [OF n(1), of 4] and_15 [OF n(2)] by simp
  show "drop_bit 8 (word_of_nat n) AND 0xf = (word_of_nat (n div 256 mod 16) :: u32)"
    using drop_bit_of_nat [OF n(1), of 8] and_15 [OF n(3)] by simp
  show "drop_bit 12 (word_of_nat n) = (word_of_nat (n div 4096) :: u32)"
    using drop_bit_of_nat [OF n(1), of 12] by simp
  show "(word_of_nat n AND 0xf :: u32) = word_of_nat (n mod 16)" by (rule and_15 [OF n(1)])
qed

lemma put_dec_sums:
  assumes n: "n < 100000"
  shows "put_dec_trunc (word_of_nat n) = dchr (n mod 10) #
      (if sum1 n \<noteq> 0
       then dchr (n div 10 mod 10) #
         (if sum2 n \<noteq> 0 \<or> n div 4096 \<noteq> 0
          then dchr (n div 100 mod 10) #
            (if sum3 n \<noteq> 0
             then dchr (sum3 n mod 10) # (if sum3 n div 10 \<noteq> 0 then [dchr (sum3 n div 10)] else [])
             else [])
          else [])
       else [])"
    and "put_dec_full (word_of_nat n) =
      [dchr (n mod 10), dchr (n div 10 mod 10), dchr (n div 100 mod 10), dchr (sum3 n mod 10), dchr (sum3 n div 10)]"
proof -
  note b = sum_bounds [OF n]
  have s: "6 * (word_of_nat (n div 4096) + word_of_nat (n div 256 mod 16) + word_of_nat (n div 16 mod 16)) +
      word_of_nat (n mod 16) = (word_of_nat (sum0 n) :: u32)"
    "word_of_nat (sum0 n div 10) + 9 * word_of_nat (n div 4096) + 5 * word_of_nat (n div 256 mod 16) +
      word_of_nat (n div 16 mod 16) = (word_of_nat (sum1 n) :: u32)"
    "word_of_nat (sum1 n div 10) + 2 * word_of_nat (n div 256 mod 16) = (word_of_nat (sum2 n) :: u32)"
    "word_of_nat (sum2 n div 10) + 4 * word_of_nat (n div 4096) = (word_of_nat (sum3 n) :: u32)"
    unfolding sum0_def sum1_def sum2_def sum3_def by (simp_all only: of_nat_add of_nat_mult of_nat_numeral)
  have d: "drop_bit 11 (word_of_nat (sum0 n) * 0xcd :: u32) = word_of_nat (sum0 n div 10)"
    "drop_bit 11 (word_of_nat (sum1 n) * 0xcd :: u32) = word_of_nat (sum1 n div 10)"
    "drop_bit 7 (word_of_nat (sum2 n) * 0xd :: u32) = word_of_nat (sum2 n div 10)"
    "drop_bit 11 (word_of_nat (sum3 n) * 0xcd :: u32) = word_of_nat (sum3 n div 10)"
    using b by (simp_all only: w_div10 w_div10_short)
  have lt: "sum1 n < 4294967296" "sum2 n < 4294967296" "sum3 n < 4294967296" "n div 4096 < 4294967296"
      "sum3 n div 10 < 4294967296"
    using b n by (auto intro: le_less_trans [OF div_le_dividend])
  have "sum3 n div 10 < 11" using b(4) by simp
  have c: "dchar (word_of_nat (sum0 n mod 10)) = dchr (n mod 10)" "dchar (word_of_nat (sum1 n mod 10)) = dchr (n div 10 mod 10)"
    "dchar (word_of_nat (sum2 n mod 10)) = dchr (n div 100 mod 10)" "dchar (word_of_nat (sum3 n mod 10)) = dchr (sum3 n mod 10)"
    by (simp_all add: dchar_digit sum_digits)
  have c3: "dchar (word_of_nat (sum3 n div 10)) = dchr (sum3 n div 10)"
    using n sum_digits(6) [of n] by (intro dchar_digit) auto
  show "put_dec_trunc (word_of_nat n) = dchr (n mod 10) #
      (if sum1 n \<noteq> 0
       then dchr (n div 10 mod 10) #
         (if sum2 n \<noteq> 0 \<or> n div 4096 \<noteq> 0
          then dchr (n div 100 mod 10) #
            (if sum3 n \<noteq> 0
             then dchr (sum3 n mod 10) # (if sum3 n div 10 \<noteq> 0 then [dchr (sum3 n div 10)] else [])
             else [])
          else [])
       else [])"
    unfolding put_dec_trunc_def Let_def nibble_words [OF n] s d w_mod10 c c3 lt [THEN w_nonzero] ..
  show "put_dec_full (word_of_nat n) =
      [dchr (n mod 10), dchr (n div 10 mod 10), dchr (n div 100 mod 10), dchr (sum3 n mod 10), dchr (sum3 n div 10)]"
    unfolding put_dec_full_def Let_def nibble_words [OF n] s d w_mod10 c c3 ..
qed

lemma digs_step: "n < 10 \<Longrightarrow> digs 10 n = [n]" "10 \<le> n \<Longrightarrow> digs 10 n = n mod 10 # digs 10 (n div 10)"
  by (simp_all add: digs_small digs_big)

lemma put_dec_trunc_digits: "n < 100000 \<Longrightarrow> put_dec_trunc (word_of_nat n) = map dchr (digs 10 n)"
proof -
  assume n: "n < 100000"
  have q: "n div 10 div 10 = n div 100" "n div 100 div 10 = n div 1000" by (simp_all add: div_mult2_eq [symmetric])
  have z1: "(sum1 n = 0) = (n div 10 = 0)"
    using sum_digits(2) [of n] unfolding sum1_def by auto
  have z2: "(sum2 n = 0 \<and> n div 4096 = 0) = (n div 100 = 0)" using sum_digits(4) [of n] by auto
  note z3 = sum_digits(6) [of n, symmetric]
  consider "n < 10" | "10 \<le> n" "n < 100" | "100 \<le> n" "n < 1000" | "1000 \<le> n" "n < 10000" | "10000 \<le> n" by linarith
  then show ?thesis
  proof cases
    case 1
    then show ?thesis using put_dec_sums(1) [OF n] z1 by (simp add: digs_step)
  next
    case 2
    then have "n div 100 = 0" "n div 10 \<noteq> 0" "n div 10 < 10" by auto
    then show ?thesis using put_dec_sums(1) [OF n] z1 z2 2 by (simp add: digs_step)
  next
    case 3
    then have "n div 1000 = 0" "n div 100 \<noteq> 0" "n div 100 < 10" "n div 10 \<noteq> 0" "10 \<le> n div 10" by auto
    then show ?thesis using put_dec_sums(1) [OF n] z1 z2 3 q by (auto simp: digs_step z3)
  next
    case 4
    then have "n div 1000 \<noteq> 0" "n div 1000 < 10" "n div 100 \<noteq> 0" "10 \<le> n div 100" "10 \<le> n div 10" "n div 10 \<noteq> 0" by auto
    then show ?thesis using put_dec_sums(1) [OF n] z1 z2 4 q by (auto simp: digs_step z3)
  next
    case 5
    then have "n div 1000 \<noteq> 0" "10 \<le> n div 1000" "n div 1000 div 10 < 10" "n div 100 \<noteq> 0" "10 \<le> n div 100"
      "10 \<le> n div 10" "n div 10 \<noteq> 0" "n div 1000 div 10 \<noteq> 0" using n by auto
    then show ?thesis using put_dec_sums(1) [OF n] z1 z2 5 q by (auto simp: digs_step z3)
  qed
qed

lemma put_dec_full_digits:
  "n < 100000 \<Longrightarrow> 0 < k \<Longrightarrow> put_dec_full (word_of_nat n) @ map dchr (digs 10 k) = map dchr (digs 10 (n + 100000 * k))"
proof -
  assume n: "n < 100000" and k: "0 < k"
  let ?m = "n + 100000 * k"
  have q: "?m div 10 = n div 10 + 10000 * k" "?m div 100 = n div 100 + 1000 * k" "?m div 1000 = n div 1000 + 100 * k"
      "?m div 10000 = n div 10000 + 10 * k" "?m div 100000 = k"
    using n by auto
  have d: "?m div 10 div 10 = ?m div 100" "?m div 100 div 10 = ?m div 1000" "?m div 1000 div 10 = ?m div 10000"
      "?m div 10000 div 10 = ?m div 100000"
    by (simp_all only: div_mult2_eq [symmetric]) simp_all
  have "digs 10 ?m = [?m mod 10, ?m div 10 mod 10, ?m div 100 mod 10, ?m div 1000 mod 10, ?m div 10000 mod 10] @ digs 10 k"
  proof -
    have g: "10 \<le> ?m" "10 \<le> ?m div 10" "10 \<le> ?m div 100" "10 \<le> ?m div 1000" "10 \<le> ?m div 10000"
      using k unfolding q by auto
    show ?thesis
      by (subst digs_step(2) [OF g(1)], subst digs_step(2) [OF g(2)], unfold d, subst digs_step(2) [OF g(3)], unfold d,
          subst digs_step(2) [OF g(4)], unfold d, subst digs_step(2) [OF g(5)], unfold d q(5)) simp
  qed
  moreover have "?m mod 10 = n mod 10" "?m div 10 mod 10 = n div 10 mod 10" "?m div 100 mod 10 = n div 100 mod 10"
      "?m div 1000 mod 10 = sum3 n mod 10" "?m div 10000 mod 10 = sum3 n div 10"
  proof -
    show "?m mod 10 = n mod 10" using mod_mult_self2 [of n 10 "10000 * k"] by simp
    show "?m div 10 mod 10 = n div 10 mod 10" unfolding q using mod_mult_self2 [of "n div 10" 10 "1000 * k"] by simp
    show "?m div 100 mod 10 = n div 100 mod 10" unfolding q using mod_mult_self2 [of "n div 100" 10 "100 * k"] by simp
    show "?m div 1000 mod 10 = sum3 n mod 10"
      unfolding q sum_digits(6) [symmetric] using mod_mult_self2 [of "n div 1000" 10 "10 * k"] by simp
    have "n div 10000 = sum3 n div 10" unfolding sum_digits(6) [symmetric] by (simp add: div_mult2_eq [symmetric])
    moreover have "sum3 n div 10 < 10" using n unfolding sum_digits(6) [symmetric] by auto
    ultimately show "?m div 10000 mod 10 = sum3 n div 10" unfolding q by simp
  qed
  ultimately show ?thesis using put_dec_sums(2) [OF n] by simp
qed

lemma put_dec_digits: "put_dec num = Some (map dchr (digs 10 (unat num)))"
proof (induction "unat num" arbitrary: num rule: less_induct)
  case less
  show ?case
  proof (cases "num < 100000")
    case True
    then have n: "unat num < 100000" by (simp add: word_less_nat_alt)
    have "(ucast num :: u32) = word_of_nat (unat num)" by (metis of_nat_unat)
    then show ?thesis using True put_dec_trunc_digits [OF n] by (subst put_dec.simps) simp
  next
    case False
    then have n: "100000 \<le> unat num" by (simp add: word_less_nat_alt not_less)
    let ?q = "word_of_nat (unat num div 100000) :: u64"
    have div: "do_div num 100000 = Some (?q, word_of_nat (unat num mod 100000))"
      using do_div_ok [of 100000 num] by simp
    have "unat num div 100000 < 18446744073709551616" using unat_u64_lt [of num] by linarith
    then have q: "unat ?q = unat num div 100000" by (simp add: unat_of_nat)
    have "unat ?q < unat num" unfolding q using n by (intro div_less_dividend) auto
    then have "put_dec ?q = Some (map dchr (digs 10 (unat num div 100000)))" using less q by metis
    moreover have "0 < unat num div 100000" using n by (simp add: div_greater_zero_iff)
    then have "put_dec_full (word_of_nat (unat num mod 100000)) @ map dchr (digs 10 (unat num div 100000)) =
        map dchr (digs 10 (unat num))"
      using put_dec_full_digits [of "unat num mod 100000" "unat num div 100000"] by simp
    ultimately show ?thesis using False div by (subst put_dec.simps) simp
  qed
qed

section \<open>The layout of a number\<close>

lemma length_digs: "2 \<le> b \<Longrightarrow> 0 < k \<Longrightarrow> n < b ^ k \<Longrightarrow> length (digs b n) \<le> k"
proof (induction k arbitrary: n)
  case (Suc k)
  show ?case
  proof (cases "n < b")
    case True
    then show ?thesis by (simp add: digs_small)
  next
    case False
    then have "k \<noteq> 0" using Suc.prems by (cases k) auto
    moreover have "n div b < b ^ k" using Suc.prems by (simp add: less_mult_imp_div_less mult.commute)
    ultimately have "length (digs b (n div b)) \<le> k" using Suc by simp
    then show ?thesis using False Suc.prems by (simp add: digs_big)
  qed
qed simp

lemma length_digs_u64: "base \<in> {8, 10, 16} \<Longrightarrow> length (digs base (unat (num :: u64))) \<le> 22"
proof (rule length_digs)
  assume b: "base \<in> {8, 10, 16}"
  then show "2 \<le> base" by auto
  have "unat num < 8 ^ 22" by (rule less_trans [OF unat_u64_lt]) simp
  also have "(8 :: nat) ^ 22 \<le> base ^ 22" using b by (intro power_mono) auto
  finally show "unat num < base ^ 22" .
qed simp

lemma low_digit:
  assumes "base \<in> {8, 16}"
  shows "unat ((ucast (num :: u64) :: u8) AND (word_of_nat base - 1)) = unat num mod base"
    and "unat (drop_bit (if base = 16 then 4 else 3) num) = unat num div base"
proof -
  have u: "unat (ucast num :: u8) = unat num mod 256" by (simp add: unsigned_ucast_eq take_bit_eq_mod)
  have t: "unat ((ucast num :: u8) AND mask k) = unat num mod 256 mod 2 ^ k" for k
    by (simp only: take_bit_eq_mask [symmetric] unsigned_take_bit_eq u) (simp add: take_bit_eq_mod)
  have "(7 :: u8) = mask 3" "(15 :: u8) = mask 4" by (simp_all add: mask_eq_exp_minus_1)
  then show "unat ((ucast num :: u8) AND (word_of_nat base - 1)) = unat num mod base"
    using assms t [of 3] t [of 4] by (auto simp: mod_mod_cancel)
  show "unat (drop_bit (if base = 16 then 4 else 3) num) = unat num div base"
    using assms unat_drop_bit_eq [of 3 num] unat_drop_bit_eq [of 4 num]
    by (auto simp: drop_bit_eq_div [where ?'a = nat])
qed

lemma number_pow2_digits:
  "base \<in> {8, 16} \<Longrightarrow> length tmp + length (digs base (unat num)) \<le> 66 \<Longrightarrow>
   number_pow2 base locase num tmp = Some (tmp @ map (digit_char locase) (digs base (unat num)))"
proof (induction "unat num" arbitrary: num tmp rule: less_induct)
  case less
  let ?num = "drop_bit (if base = 16 then 4 else 3) num"
  let ?tmp = "tmp @ [digit_char locase (unat num mod base)]"
  note low = low_digit [OF less.prems(1), of num]
  have "digs base (unat num) \<noteq> []" by (subst digs.simps) simp
  then have push: "push_tmp tmp (digit_char locase (unat num mod base)) = Some ?tmp"
    using less.prems(2) by (cases "digs base (unat num)") (simp_all add: push_tmp_def)
  have b: "2 \<le> base" using less.prems(1) by auto
  show ?case
  proof (cases "unat num < base")
    case True
    then have "?num = 0" using low(2) by (simp only: div_less unat_eq_zero)
    then show ?thesis using True push low(1) by (subst number_pow2.simps) (simp add: digs_small Let_def)
  next
    case False
    then have nz: "?num \<noteq> 0"
    proof -
      have "unat ?num \<noteq> 0" using False b unfolding low(2) by (simp add: div_eq_0_iff)
      then show ?thesis by (simp only: unat_eq_zero not_False_eq_True)
    qed
    have digs: "digs base (unat num) = unat num mod base # digs base (unat ?num)"
      using False b unfolding low(2) by (simp add: digs_big)
    have "unat ?num < unat num" unfolding low(2) using False b by (intro div_less_dividend) auto
    then have "number_pow2 base locase ?num ?tmp = Some (?tmp @ map (digit_char locase) (digs base (unat ?num)))"
      using less.prems digs by (intro less.hyps) auto
    then show ?thesis using nz push low(1) digs by (subst number_pow2.simps) (simp add: Let_def)
  qed
qed

lemma pad_loop_eq: "pad_loop c w = (replicate (nat w) c, if 0 < w then - 1 else w - 1)"
proof (induction c w rule: pad_loop.induct)
  case (1 c w)
  show ?case
  proof (cases "0 \<le> w - 1")
    case True
    then have "nat w = Suc (nat (w - 1))" by linarith
    then show ?thesis using 1 True by (subst pad_loop.simps) (auto simp: Let_def)
  qed (simp add: pad_loop.simps [of c w])
qed

lemma zero_loop_eq: "zero_loop i p = replicate (nat (p - i)) CHR ''0''"
proof (induction i p rule: zero_loop.induct)
  case (1 i p)
  show ?case
  proof (cases "i \<le> p - 1")
    case True
    then have "nat (p - i) = Suc (nat (p - 1 - i))" by linarith
    then show ?thesis using 1 True by (subst zero_loop.simps) (simp add: Let_def)
  qed (simp add: zero_loop.simps [of i p])
qed

text \<open>What a number looks like: sign, prefix, at least \<open>precision\<close> digits, filled up to the width.\<close>

definition number_sign :: "u64 \<Rightarrow> flags \<Rightarrow> string" where
  "number_sign num fl =
     (if \<not> SIGN fl then [] else if sint num < 0 then ''-'' else if PLUS fl then ''+'' else if SPACE fl then '' '' else [])"

definition number_magnitude :: "u64 \<Rightarrow> flags \<Rightarrow> nat" where
  "number_magnitude num fl = (if SIGN fl \<and> sint num < 0 then 18446744073709551616 - unat num else unat num)"

definition number_digits :: "u64 \<Rightarrow> nat \<Rightarrow> flags \<Rightarrow> string" where
  "number_digits num base fl =
     rev (map (digit_char (if SMALL fl then 0x20 else 0)) (digs base (number_magnitude num fl)))"

definition number_prefix :: "nat \<Rightarrow> flags \<Rightarrow> string" where
  "number_prefix base fl =
     (if \<not> SPECIAL fl \<or> base = 10 then [] else if base = 16 then if SMALL fl then ''0x'' else ''0X'' else ''0'')"

definition number_text :: "u64 \<Rightarrow> nat \<Rightarrow> int \<Rightarrow> int \<Rightarrow> flags \<Rightarrow> string" where
  "number_text num base width precision fl =
     (let head = number_sign num fl @ number_prefix base fl;
          digits = number_digits num base fl;
          body = replicate (nat precision - length digits) CHR ''0'' @ digits;
          fill = nat (width - int (length head + length body)) in
      if LEFT fl then head @ body @ replicate fill CHR '' ''
      else if ZEROPAD fl then head @ replicate fill CHR ''0'' @ body
      else replicate fill CHR '' '' @ head @ body)"

lemma unat_neg: "sint num < 0 \<Longrightarrow> unat (- num) = 18446744073709551616 - unat num \<and> num \<noteq> 0" for num :: u64
proof -
  assume "sint num < 0"
  then have nz: "num \<noteq> 0" by auto
  let ?n = "18446744073709551616 - unat num"
  have "word_of_nat (?n + unat num) = (0 :: u64)"
    using unat_u64_lt [of num] by (subst le_add_diff_inverse2) simp_all
  then have "word_of_nat ?n + num = 0" by (simp only: of_nat_add of_nat_unat ucast_id)
  then have "- num = word_of_nat ?n" by (simp only: eq_neg_iff_add_eq_0 [symmetric])
  moreover have "0 < unat num" using nz by (simp add: unat_gt_0)
  ultimately show ?thesis using nz by (simp add: unat_of_nat)
qed

lemma number_tmp:
  assumes "base \<in> {8, 10, 16}" and "locase \<in> {0, 0x20}"
  shows "(if num = 0 then push_tmp [] CHR ''0''
      else if base \<noteq> 10 then number_pow2 base locase num []
      else do { s \<leftarrow> put_dec num; if length s \<le> 66 then Some s else None }) =
    Some (map (digit_char locase) (digs base (unat num)))"
proof -
  note len = length_digs_u64 [OF assms(1), of num]
  have dec: "map dchr (digs 10 n) = map (digit_char locase) (digs 10 n)" for n
    using digs_bound [of 10] digit_char_dec [OF _ assms(2)] by simp
  show ?thesis
  proof (cases "num = 0")
    case True
    have "digs base 0 = [0]" using assms(1) by (auto simp: digs_small)
    moreover have "digit_char locase 0 = CHR ''0''" using digit_char_dec [of 0 locase] assms(2) by (simp add: dchr_def char_of_eq_iff)
    ultimately show ?thesis using True by (simp add: push_tmp_def)
  next
    case False
    then show ?thesis
      using assms(1) len number_pow2_digits [of base "[]" num locase] put_dec_digits [of num] dec by auto
  qed
qed

lemma number_layout:
  assumes "base \<in> {8, 10, 16}"
  shows "number num base width precision fl = Some (number_text num base width precision fl)"
proof -
  define l :: u8 where "l = (if SMALL fl then 0x20 else 0)"
  define n where "n = (if SIGN fl \<and> sint num < 0 then - num else num)"
  have l: "l \<in> {0, 0x20}" by (simp add: l_def)
  have n: "unat n = number_magnitude num fl"
    using unat_neg [of num] by (simp add: n_def number_magnitude_def)
  note tmp = number_tmp [OF assms l, of n]
  let ?d = "map (digit_char l) (digs base (unat n))"
  have d: "number_digits num base fl = rev ?d" by (simp add: number_digits_def n l_def)
  let ?sg = "number_sign num fl" and ?px = "number_prefix base fl"
  have sg: "(if SIGN fl then if sint num < 0 then (''-'', - num, width - 1)
        else if PLUS fl then (''+'', num, width - 1)
        else if SPACE fl then ('' '', num, width - 1) else ([], num, width)
      else ([], num, width)) = (?sg, n, width - int (length ?sg))"
    by (simp add: number_sign_def n_def)
  have px: "(if SPECIAL fl \<and> base \<noteq> 10 then w - 1 - (if base = 16 then 1 else 0) else w) = w - int (length ?px)" for w :: int
    by (simp add: number_prefix_def)
  have px2: "(if SPECIAL fl \<and> base \<noteq> 10 then CHR ''0'' # (if base = 16 then [or_char CHR ''X'' l] else []) else []) = ?px"
    by (simp add: number_prefix_def l_def or_char_def char_of_u8_def char_of_eq_iff)
  define i where "i = int (length ?d)"
  define p where "p = (if i > precision then i else precision)"
  define w where "w = width - int (length ?sg) - int (length ?px) - p"
  let ?body = "replicate (nat precision - length ?d) CHR ''0'' @ rev ?d"
  have "int (length ?body) = p" unfolding p_def i_def by auto
  then have w: "w = width - int (length (?sg @ ?px) + length ?body)" by (simp add: w_def)
  have z: "nat (p - i) = nat precision - length ?d" unfolding p_def i_def by auto
  have ty: "SIGN (if LEFT fl then fl\<lparr>ZEROPAD := False\<rparr> else fl) = SIGN fl"
    "PLUS (if LEFT fl then fl\<lparr>ZEROPAD := False\<rparr> else fl) = PLUS fl"
    "SPACE (if LEFT fl then fl\<lparr>ZEROPAD := False\<rparr> else fl) = SPACE fl"
    "LEFT (if LEFT fl then fl\<lparr>ZEROPAD := False\<rparr> else fl) = LEFT fl"
    "ZEROPAD (if LEFT fl then fl\<lparr>ZEROPAD := False\<rparr> else fl) = (ZEROPAD fl \<and> \<not> LEFT fl)"
    by simp_all
  have "number num base width precision fl =
      (let (lead, x) = (if \<not> (ZEROPAD fl \<and> \<not> LEFT fl \<or> LEFT fl) then pad_loop CHR '' '' w else ([], w));
           (fill, y) = (if \<not> LEFT fl then pad_loop (if ZEROPAD fl \<and> \<not> LEFT fl then CHR ''0'' else CHR '' '') x else ([], x));
           (trail, z) = pad_loop CHR '' '' y in
       Some (lead @ ?sg @ ?px @ fill @ replicate (nat precision - length ?d) CHR ''0'' @ rev ?d @ trail))"
    unfolding number_def Let_def ty l_def [symmetric] sg prod.case px px2 tmp Option.bind.bind_lunit
      i_def [symmetric] p_def [symmetric] w_def [symmetric] zero_loop_eq z ..
  also have "\<dots> = Some (number_text num base width precision fl)"
    unfolding number_text_def d length_rev w [symmetric] Let_def by (auto simp: pad_loop_eq)
  finally show ?thesis .
qed

text \<open>
  In base 8, 10 and 16 \<open>number\<close> writes the layout of \<open>number_text\<close> for every value, field width,
  precision and set of flags: sign, prefix, the digits of the magnitude with zeros up to the
  precision, filled with spaces or zeros up to the width, on the side the flags say.  Its 66-byte
  array is never exceeded.
\<close>

theorem number_correct:
  assumes "base \<in> {8, 10, 16}"
  shows "number num base width precision fl = Some (number_text num base width precision fl)"
  by (rule number_layout [OF assms])

theorem number_correct_witness:
  "number 48879 16 7 (- 1) (no_flags\<lparr>SPECIAL := True, SMALL := True\<rparr>) = Some '' 0xbeef''"
  using number_correct [of 16 48879 7 "- 1" "no_flags\<lparr>SPECIAL := True, SMALL := True\<rparr>"]
  by (simp add: number_text_def number_sign_def number_prefix_def number_digits_def number_magnitude_def no_flags_def
      digs.simps digit_char_def or_char_def char_of_u8_def char_of_eq_iff)

section \<open>Reading a printed number\<close>

lemma digit_char_hex:
  assumes "d < 16" and "l \<in> {0, 0x20}"
  shows "isxdigit (digit_char l d) \<and> hexval (digit_char l d) = d"
proof -
  have "d = 0 \<or> d = 1 \<or> d = 2 \<or> d = 3 \<or> d = 4 \<or> d = 5 \<or> d = 6 \<or> d = 7 \<or> d = 8 \<or> d = 9 \<or>
      d = 10 \<or> d = 11 \<or> d = 12 \<or> d = 13 \<or> d = 14 \<or> d = 15"
    using assms(1) by presburger
  then show ?thesis using assms(2)
    by (elim disjE) (auto simp: digit_char_def or_char_def char_of_u8_def isxdigit_iff hexval_def)
qed

lemma num_of_snoc: "num_of b (ds @ [c]) = num_of b ds * b + hexval c"
  by (simp add: num_of_def)

lemma digs_read:
  "base \<in> {8, 10, 16} \<Longrightarrow> l \<in> {0, 0x20} \<Longrightarrow>
   digits_of base (rev (map (digit_char l) (digs base n))) \<and>
   num_of base (rev (map (digit_char l) (digs base n))) = n"
proof (induction base n rule: digs.induct)
  case (1 b n)
  have b: "2 \<le> b" "b \<le> 16" using "1.prems" by auto
  have digit: "isxdigit (digit_char l d) \<and> hexval (digit_char l d) = d" if "d < b" for d
    using that b digit_char_hex [OF _ "1.prems"(2)] by simp
  show ?case
  proof (cases "n < b")
    case True
    then show ?thesis using digit [of n] by (simp add: digs_small digits_of_def num_of_def)
  next
    case False
    have "n mod b < b" using b by simp
    then show ?thesis
      using 1 False b digit [of "n mod b"] by (simp add: digs_big digits_of_def num_of_snoc)
  qed
qed

lemma digs_leading: "2 \<le> b \<Longrightarrow> 0 < n \<Longrightarrow> last (digs b n) \<noteq> 0"
proof (induction b n rule: digs.induct)
  case (1 b n)
  show ?case
  proof (cases "n < b")
    case False
    then have "0 < n div b" using "1.prems" by (simp add: div_greater_zero_iff)
    moreover have "digs b (n div b) \<noteq> []" by (subst digs.simps) simp
    ultimately show ?thesis using 1 False by (simp add: digs_big)
  qed (use "1.prems" in \<open>simp add: digs_small\<close>)
qed

lemma number_text_plain: "number_text num base (- 1) (- 1) fl = number_sign num fl @ number_prefix base fl @ number_digits num base fl"
  by (simp add: number_text_def Let_def)

lemma number_read:
  assumes "base \<in> {8, 10, 16}" and "number_sign num fl = []" and "SPECIAL fl \<Longrightarrow> base = 16 \<Longrightarrow> SMALL fl"
    and "number num base (- 1) (- 1) fl = Some s"
  shows "simple_strtoull (s @ NUL # rest) (if SPECIAL fl then 0 else word_of_nat base) = Some (num, NUL # rest)"
proof -
  define l :: u8 where "l = (if SMALL fl then 0x20 else 0)"
  have l: "l \<in> {0, 0x20}" by (simp add: l_def)
  let ?ds = "rev (map (digit_char l) (digs base (unat num)))"
  let ?B = "if SPECIAL fl then 0 else word_of_nat base :: u32"
  have mag: "number_magnitude num fl = unat num"
    using assms(2) by (auto simp: number_sign_def number_magnitude_def split: if_splits)
  have base: "unat (word_of_nat base :: u32) = base" using assms(1) by auto
  have s: "s = number_prefix base fl @ ?ds"
    using assms(2,4) mag number_layout [OF assms(1), of num "- 1" "- 1" fl]
    by (cases "LEFT fl"; cases "ZEROPAD fl") (simp_all add: number_text_def number_digits_def l_def Let_def)
  have ds: "digits_of base ?ds" "num_of base ?ds = unat num" using digs_read [OF assms(1) l, of "unat num"] by blast+
  have stop: "stops b NUL" for b by (simp add: stops_def isxdigit_iff)
  show ?thesis
  proof (cases "num = 0")
    case True
    then have d: "?ds = ''0''" "num_of b [] = 0" for b
      using assms(1) digit_char_dec [of 0 l] l by (auto simp: digs_small dchr_def num_of_def char_of_eq_iff)
    have z: "digits_of b []" "digits_of 8 ''0''" "digits_of 16 ''0''" "num_of b ''0'' = 0" for b
      by (simp_all add: digits_of_def isxdigit_iff hexval_def num_of_def)
    consider "\<not> SPECIAL fl" | "SPECIAL fl" "base = 8" | "SPECIAL fl" "base = 10" | "SPECIAL fl" "base = 16"
      using assms(1) by blast
    then show ?thesis
    proof cases
      case 1
      then have "number_base ''0'' ?B NUL ?B" using assms(1) by (auto simp: number_base_def)
      then show ?thesis
        using strtoul_num(2) [of ?B "[]" NUL "''0''" ?B rest] True d z stop s 1 by (simp add: number_prefix_def)
    next
      case 2
      then have "number_base ''0'' 0 CHR ''0'' 8" by (simp add: number_base_def)
      then show ?thesis
        using strtoul_num(2) [of 8 "''0''" NUL "''0''" 0 rest] True d z stop s 2 by (simp add: number_prefix_def)
    next
      case 3
      then have "number_base ''0'' 0 NUL 8" by (simp add: number_base_def)
      then show ?thesis
        using strtoul_num(2) [of 8 "[]" NUL "''0''" 0 rest] True d z stop s 3 by (simp add: number_prefix_def)
    next
      case 4
      then have "number_base ''0x'' 0 CHR ''0'' 16" by (simp add: number_base_def isxdigit_iff)
      then show ?thesis
        using strtoul_num(2) [of 16 "''0''" NUL "''0x''" 0 rest] True d z stop s 4 assms(3) by (simp add: number_prefix_def)
    qed
  next
    case False
    then have pos: "0 < unat num" by (simp add: unat_gt_0)
    have b: "2 \<le> base" using assms(1) by auto
    let ?d = "last (digs base (unat num))"
    have ne: "digs base (unat num) \<noteq> []" by (subst digs.simps) simp
    have hd: "hd ?ds = digit_char l ?d" using ne by (simp add: hd_rev last_map)
    have "?d < base" using digs_bound [OF b] ne last_in_set by blast
    then have "?d < 16" using assms(1) by auto
    then have hx: "isxdigit (hd ?ds)" "hexval (hd ?ds) \<noteq> 0" "hd (?ds @ [NUL]) = hd ?ds"
      using digit_char_hex [OF _ l, of ?d] digs_leading [OF b pos] hd ne by auto
    then have not: "hd ?ds \<noteq> CHR ''0''" "hd ?ds \<noteq> CHR ''x''" by (auto simp: hexval_def isxdigit_iff)
    let ?b = "if SPECIAL fl \<and> base = 10 then 10 else word_of_nat base :: u32"
    have nb: "number_base (number_prefix base fl) ?B (hd (?ds @ [NUL])) ?b"
      using assms(1,3) not hx by (auto simp: number_base_def number_prefix_def)
    have "unat ?b = base" using base by auto
    then show ?thesis
      using strtoul_num(2) [OF _ _ nb, of rest] ds stop s by simp
  qed
qed

text \<open>A sign, or the \<open>0X\<close> of large letters, is not read.\<close>

lemma number_unread:
  assumes "base \<in> {8, 10, 16}" and "number num base (- 1) (- 1) fl = Some s"
  shows "number_sign num fl \<noteq> [] \<Longrightarrow> simple_strtoull (s @ NUL # rest) b = Some (0, s @ NUL # rest)"
    and "number_sign num fl = [] \<Longrightarrow> SPECIAL fl \<Longrightarrow> base = 16 \<Longrightarrow> \<not> SMALL fl \<Longrightarrow> simple_strtoull (s @ NUL # rest) 0 = Some (0, tl s @ NUL # rest)"
proof -
  have s: "s = number_sign num fl @ number_prefix base fl @ number_digits num base fl"
    using number_layout [OF assms(1), of num "- 1" "- 1" fl] assms(2) by (simp add: number_text_plain)
  show "simple_strtoull (s @ NUL # rest) b = Some (0, s @ NUL # rest)" if "number_sign num fl \<noteq> []"
  proof -
    have "number_sign num fl \<in> {''-'', ''+'', '' ''}" using that by (simp add: number_sign_def split: if_splits)
    then show ?thesis by (auto simp: s simple_strtoull_def strto_base_def isxdigit_iff)
  qed
  show "simple_strtoull (s @ NUL # rest) 0 = Some (0, tl s @ NUL # rest)"
    if "number_sign num fl = []" "SPECIAL fl" "base = 16" "\<not> SMALL fl"
    using that by (simp add: s number_prefix_def simple_strtoull_def strto_base_def isxdigit_iff)
qed

text \<open>
  C31: What \<open>number\<close> prints in base 8, 10 or 16 without field width and precision is read back by \<open>simple_strtoull\<close> when it has no
  sign in front of it and no \<open>0X\<close>: in the base it was printed in, or, after the prefix of \<open>#\<close>, with the base left to the
  reader.  Of a number with a sign (a negative one, or the \<open>+\<close> and the blank that flags ask for) nothing is
  read, and of one with \<open>0X\<close>, which \<open>#\<close> prints with large letters, only the \<open>0\<close>.
\<close>

theorem number_roundtrip:
  assumes "base \<in> {8, 10, 16}" and "number num base (- 1) (- 1) fl = Some s"
  shows "simple_strtoull (s @ NUL # rest) (if SPECIAL fl then 0 else word_of_nat base) =
    Some (if number_sign num fl \<noteq> [] then (0, s @ NUL # rest)
      else if SPECIAL fl \<and> base = 16 \<and> \<not> SMALL fl then (0, tl s @ NUL # rest)
      else (num, NUL # rest))"
  using number_read [OF assms(1) _ _ assms(2), of rest] number_unread [OF assms, of rest] by auto

theorem number_roundtrip_witness:
  "simple_strtoull (''0xbeef'' @ [NUL]) 0 = Some (48879, [NUL])"
proof -
  let ?fl = "no_flags\<lparr>SPECIAL := True, SMALL := True\<rparr>"
  have "number 48879 16 (- 1) (- 1) ?fl = Some ''0xbeef''"
    by (subst number_layout)
      (simp_all add: number_text_def number_sign_def number_prefix_def number_digits_def number_magnitude_def no_flags_def
        digs.simps digit_char_def or_char_def char_of_u8_def char_of_eq_iff)
  then show ?thesis
    using number_roundtrip [of 16 48879 ?fl "''0xbeef''" "[]"] by (simp add: no_flags_def number_sign_def)
qed

text \<open>The prefix that \<open>%#X\<close> prints is not read: the value of \<open>0X1F\<close> is that of its first digit.\<close>

lemma strtoul_0X: "simple_strtoul (''0X1F'' @ [NUL]) 0 = Some (0, ''X1F'' @ [NUL])"
  by (simp add: simple_strtoul_def strto_base_def isxdigit_iff)

text \<open>
  The decimal conversion by nibbles and multiplications writes the digits of every number, the
  least significant first: \<open>put_dec_trunc\<close> without leading zeros and \<open>put_dec_full\<close> exactly five of
  them below 100000, and \<open>put_dec\<close>, which ends, for all of 64 bits.
\<close>

theorem put_dec_correct:
  assumes "n < 100000" and "0 < k"
  shows "put_dec_trunc (word_of_nat n) = map dchr (digs 10 n) \<and>
    put_dec_full (word_of_nat n) @ map dchr (digs 10 k) = map dchr (digs 10 (n + 100000 * k)) \<and>
    put_dec num = Some (map dchr (digs 10 (unat num)))"
  using put_dec_trunc_digits [OF assms(1)] put_dec_full_digits [OF assms] put_dec_digits by blast

theorem put_dec_correct_witness:
  "put_dec_trunc 90210 = [CHR ''0'', CHR ''1'', CHR ''2'', CHR ''0'', CHR ''9'']"
  using put_dec_correct [of 90210 1 0] by (simp add: digs.simps dchr_def char_of_eq_iff)

end
