(* ===== verification/Format.thy ===== *)
theory Format
  imports Vsprintf
begin

text \<open>
  What \<open>vsprintf\<close> writes for a whole format: formats as lists of pieces, their concrete syntax, the
  layout of every conversion, and the proof that the parser of \<open>Vsprintf\<close> reads the syntax back.
\<close>

section \<open>Formats\<close>

text \<open>
  A format as a list of pieces: plain text, and conversions with flag characters, a width, a
  precision and a letter; its concrete syntax; and the values that conversions print.
\<close>

datatype piece = Text string | Conv string "nat option" "nat option" char

datatype val = Num u32 | Str string

definition decimal :: "nat \<Rightarrow> string" where
  "decimal n = rev (map dchr (digs 10 n))"

fun piece_syntax :: "piece \<Rightarrow> string" where
  "piece_syntax (Text s) = s"
| "piece_syntax (Conv fs w p c) =
     ''%'' @ fs @ (case w of None \<Rightarrow> [] | Some n \<Rightarrow> decimal n) @
     (case p of None \<Rightarrow> [] | Some n \<Rightarrow> ''.'' @ decimal n) @ [c]"

definition opt_int :: "nat option \<Rightarrow> int" where
  "opt_int w = (case w of None \<Rightarrow> - 1 | Some n \<Rightarrow> int n)"

fun piece_ok :: "piece \<Rightarrow> bool" where
  "piece_ok (Text s) = (NUL \<notin> set s \<and> CHR ''%'' \<notin> set s)"
| "piece_ok (Conv fs w p c) = (set fs \<subseteq> set ''-+ #0'' \<and> w \<noteq> Some 0 \<and> c \<in> set ''diuoxXcs'' \<and>
     opt_int w < 2147483648 \<and> opt_int p < 2147483648)"

definition flags_of :: "string \<Rightarrow> flags" where
  "flags_of fs = \<lparr>ZEROPAD = CHR ''0'' \<in> set fs, SIGN = False, PLUS = CHR ''+'' \<in> set fs, SPACE = CHR '' '' \<in> set fs,
     LEFT = CHR ''-'' \<in> set fs, SMALL = False, SPECIAL = CHR ''#'' \<in> set fs\<rparr>"

definition fill_text :: "bool \<Rightarrow> int \<Rightarrow> string \<Rightarrow> string" where
  "fill_text left w s =
     (let fill = replicate (nat (w - int (length s))) CHR '' '' in if left then s @ fill else fill @ s)"

definition string_text :: "string \<Rightarrow> nat option \<Rightarrow> string" where
  "string_text s p = (case p of None \<Rightarrow> s | Some n \<Rightarrow> take n s)"

fun conv_text :: "flags \<Rightarrow> nat option \<Rightarrow> nat option \<Rightarrow> char \<Rightarrow> val \<Rightarrow> string" where
  "conv_text fl w p c (Num a) =
     (if c \<in> {CHR ''d'', CHR ''i''} then number_text (scast a) 10 (opt_int w) (opt_int p) (fl\<lparr>SIGN := True\<rparr>)
      else if c = CHR ''u'' then number_text (ucast a) 10 (opt_int w) (opt_int p) fl
      else if c = CHR ''o'' then number_text (ucast a) 8 (opt_int w) (opt_int p) fl
      else if c = CHR ''x'' then number_text (ucast a) 16 (opt_int w) (opt_int p) (fl\<lparr>SMALL := True\<rparr>)
      else if c = CHR ''X'' then number_text (ucast a) 16 (opt_int w) (opt_int p) fl
      else fill_text (LEFT fl) (opt_int w) [char_of (unat a)])"
| "conv_text fl w p c (Str s) = fill_text (LEFT fl) (opt_int w) (string_text s p)"

text \<open>The argument word of a value: the number itself, or the address of the string.\<close>

fun val_word :: "mem \<Rightarrow> char \<Rightarrow> val \<Rightarrow> u32 \<Rightarrow> bool" where
  "val_word m c (Num a) w = (c \<noteq> CHR ''s'' \<and> w = a)"
| "val_word m c (Str s) w = (c = CHR ''s'' \<and> w \<noteq> 0 \<and> cstr m (unat w) s \<and> length s < 4294967295)"

fun format_text :: "piece list \<Rightarrow> val list \<Rightarrow> string" where
  "format_text [] vs = []"
| "format_text (Text s # ps) vs = s @ format_text ps vs"
| "format_text (Conv fs w p c # ps) (v # vs) = conv_text (flags_of fs) w p c v @ format_text ps vs"
| "format_text (Conv fs w p c # ps) [] = []"

fun format_args :: "mem \<Rightarrow> piece list \<Rightarrow> val list \<Rightarrow> u32 list \<Rightarrow> bool" where
  "format_args m [] vs args = True"
| "format_args m (Text s # ps) vs args = format_args m ps vs args"
| "format_args m (Conv fs w p c # ps) (v # vs) (a # args) = (val_word m c v a \<and> format_args m ps vs args)"
| "format_args m (Conv fs w p c # ps) vs args = False"

lemma is_digit_dchr: "d < 10 \<Longrightarrow> is_digit (dchr d) \<and> int (of_char (dchr d)) = 48 + int d"
  by (simp add: is_digit_def dchr_def)

lemma skip_atoi_digits:
  "\<forall>c\<in>set ds. is_digit c \<Longrightarrow> \<not> is_digit c \<Longrightarrow>
   skip_atoi i (ds @ c # rest) = Some (foldl (\<lambda>i c. i * 10 + int (of_char c) - int (of_char (CHR ''0''))) i ds, c # rest)"
  by (induction ds arbitrary: i) simp_all

lemma decimal_digits: "\<forall>c\<in>set (decimal n). is_digit c"
  using digs_bound [of 10 _ n] is_digit_dchr by (auto simp: decimal_def)

lemma decimal_value:
  "foldl (\<lambda>i c. i * 10 + int (of_char c) - int (of_char (CHR ''0''))) 0 (decimal n) = int n"
proof (induction "10 :: nat" n rule: digs.induct)
  case (1 n)
  show ?case
  proof (cases "n < 10")
    case True
    then show ?thesis using is_digit_dchr [of n] by (simp add: decimal_def digs_small)
  next
    case False
    have "decimal n = decimal (n div 10) @ [dchr (n mod 10)]" using False by (simp add: decimal_def digs_big)
    moreover have "foldl (\<lambda>i c. i * 10 + int (of_char c) - int (of_char (CHR ''0''))) 0 (decimal (n div 10)) = int (n div 10)"
      using 1 False by simp
    moreover have "int n = int (n div 10) * 10 + int (n mod 10)"
      by (metis div_mult_mod_eq of_nat_add of_nat_mult of_nat_numeral)
    ultimately show ?thesis using is_digit_dchr [of "n mod 10"] by simp
  qed
qed

lemma skip_atoi_decimal: "\<not> is_digit c \<Longrightarrow> skip_atoi 0 (decimal n @ c # rest) = Some (int n, c # rest)"
  using skip_atoi_digits [OF decimal_digits] decimal_value by simp

lemma decimal_hd: "0 < n \<Longrightarrow> is_digit (hd (decimal n)) \<and> hd (decimal n) \<noteq> CHR ''0'' \<and> decimal n \<noteq> []"
proof -
  assume n: "0 < n"
  have ne: "digs 10 n \<noteq> []" by (subst digs.simps) simp
  let ?d = "last (digs 10 n)"
  have hd: "hd (decimal n) = dchr ?d" using ne by (simp add: decimal_def hd_rev last_map)
  have "?d < 10" using digs_bound [of 10] ne last_in_set by fastforce
  moreover have "?d \<noteq> 0" by (rule digs_leading) (use n in simp_all)
  ultimately show ?thesis
    using is_digit_dchr [of ?d] ne hd by (auto simp: decimal_def)
qed

lemma flags_loop_ok:
  "set fs \<subseteq> set ''-+ #0'' \<Longrightarrow> c \<notin> set ''-+ #0'' \<Longrightarrow>
   flags_loop fl (fs @ c # rest) = Some (fl\<lparr>LEFT := LEFT fl \<or> CHR ''-'' \<in> set fs, PLUS := PLUS fl \<or> CHR ''+'' \<in> set fs,
     SPACE := SPACE fl \<or> CHR '' '' \<in> set fs, SPECIAL := SPECIAL fl \<or> CHR ''#'' \<in> set fs,
     ZEROPAD := ZEROPAD fl \<or> CHR ''0'' \<in> set fs\<rparr>, c # rest)"
  by (induction fs arbitrary: fl) auto

lemma get_width_ok:
  "w \<noteq> Some 0 \<Longrightarrow> \<not> is_digit d \<Longrightarrow> d \<noteq> CHR ''*'' \<Longrightarrow>
   get_width args k fl ((case w of None \<Rightarrow> [] | Some n \<Rightarrow> decimal n) @ d # rest) = Some (opt_int w, fl, k, d # rest)"
proof (cases w)
  case (Some n)
  assume "w \<noteq> Some 0" "\<not> is_digit d"
  then have n: "0 < n" using Some by simp
  obtain x xs where x: "decimal n = x # xs" "is_digit x" using decimal_hd [OF n] by (cases "decimal n") auto
  then show ?thesis using Some skip_atoi_decimal [OF \<open>\<not> is_digit d\<close>, of n rest] by (simp add: get_width_def opt_int_def)
qed (simp add: get_width_def opt_int_def)

lemma get_precision_ok:
  assumes "\<not> is_digit c" and "c \<noteq> CHR ''.''"
  shows "get_precision args k ((case p of None \<Rightarrow> [] | Some n \<Rightarrow> ''.'' @ decimal n) @ c # rest) = Some (opt_int p, k, c # rest)"
proof (cases p)
  case (Some n)
  have "decimal n \<noteq> []" using digs.simps [of 10 n] by (simp add: decimal_def)
  then obtain x xs where x: "decimal n = x # xs" "is_digit x"
    using decimal_digits [of n] by (cases "decimal n") auto
  then show ?thesis using Some skip_atoi_decimal [OF assms(1), of n rest] by (simp add: get_precision_def opt_int_def)
qed (use assms in \<open>simp add: get_precision_def opt_int_def\<close>)

lemma width_loop_eq: "width_loop len w = (replicate (nat (w - len)) CHR '' '', min len w - 1)"
proof (induction len w rule: width_loop.induct)
  case (1 len w)
  show ?case
  proof (cases "len < w")
    case True
    then have "nat (w - len) = Suc (nat (w - 1 - len))" by linarith
    then show ?thesis using 1 True by (subst width_loop.simps) simp
  qed (simp add: width_loop.simps [of len w])
qed

lemma char_pad_eq: "char_pad w = (replicate (nat (w - 1)) CHR '' '', if 1 < w then 0 else w - 1)"
proof (induction w rule: char_pad.induct)
  case (1 w)
  show ?case
  proof (cases "0 < w - 1")
    case True
    then have "nat (w - 1) = Suc (nat (w - 1 - 1))" by linarith
    then show ?thesis using 1 True by (subst char_pad.simps) (auto simp: Let_def)
  qed (simp add: char_pad.simps [of w])
qed

lemma string_out_text:
  assumes "cstr m q s" and "length s < 4294967295" and "opt_int p < 2147483648"
  shows "string_out m (Some q) w (opt_int p) fl = fill_text (LEFT fl) w (string_text s p)"
proof -
  let ?n = "unat (word_of_int (opt_int p) :: u32)"
  have n: "take ?n s = string_text s p"
  proof (cases p)
    case None
    have w: "word_of_int (- 1) = (4294967295 :: u32)" by simp
    have "?n = 4294967295" unfolding None opt_int_def option.case w by simp
    then show ?thesis using None assms(2) by (simp add: string_text_def)
  next
    case (Some k)
    then have "?n = k" using assms(3) by (simp add: opt_int_def unat_of_nat)
    then show ?thesis using Some by (simp add: string_text_def)
  qed
  have len: "strnlen m q ?n = length (string_text s p)"
    using strnlen_loop_cstr [OF assms(1), of ?n] n by (simp add: strnlen_def) (metis length_take min.commute)
  have chars: "map (\<lambda>i. m (q + i)) [0..<length (string_text s p)] = string_text s p"
    using cstr_nth [OF assms(1)] by (intro nth_equalityI) (auto simp: n [symmetric])
  show ?thesis
    unfolding string_out_def option.case prod.case Let_def len chars
    by (simp add: width_loop_eq fill_text_def Let_def)
qed

lemma vsprintf_loop_text:
  "NUL \<notin> set s \<Longrightarrow> CHR ''%'' \<notin> set s \<Longrightarrow>
   vsprintf_loop net args m k out (s @ rest) = vsprintf_loop net args m k (out @ s) rest"
  by (induction s arbitrary: out) (simp, subst vsprintf_loop.simps, auto)

lemma vsprintf_conv_ok:
  assumes "piece_ok (Conv fs w p c)" and "k < length args" and "val_word m c v (args ! k)"
  shows "vsprintf_conv net args m n k (tl (piece_syntax (Conv fs w p c)) @ rest) =
    Some (conv_text (flags_of fs) w p c v, m, k + 1, rest)"
proof -
  let ?P = "case p of None \<Rightarrow> [] | Some n \<Rightarrow> ''.'' @ decimal n"
  let ?W = "case w of None \<Rightarrow> [] | Some n \<Rightarrow> decimal n"
  have c: "c \<in> set ''diuoxXcs''" using assms(1) by simp
  then have cc: "\<not> is_digit c" "c \<noteq> CHR ''.''" "c \<noteq> CHR ''*''" "c \<notin> set ''-+ #0''" "c \<notin> set ''hlLZzt''"
    by (auto simp: is_digit_def)
  obtain d r where dr: "?P @ c # rest = d # r" "\<not> is_digit d" "d \<noteq> CHR ''*''" "d \<notin> set ''-+ #0''"
    using cc by (cases p) (auto simp: is_digit_def)
  obtain e q where eq: "?W @ d # r = e # q" "e \<notin> set ''-+ #0''"
  proof (cases w)
    case (Some x)
    then have "0 < x" using assms(1) by auto
    then obtain y ys where "decimal x = y # ys" "is_digit y" "y \<noteq> CHR ''0''"
      using decimal_hd [of x] by (cases "decimal x") auto
    moreover have "\<forall>z\<in>set ''-+ #''. \<not> is_digit z" by (simp add: is_digit_def)
    ultimately show ?thesis using that [of y "ys @ d # r"] Some by auto
  qed (use dr that in auto)
  have fl: "flags_loop no_flags (fs @ e # q) = Some (flags_of fs, e # q)"
    using flags_loop_ok [of fs e no_flags q] assms(1) eq(2) by (simp add: flags_of_def no_flags_def)
  have wd: "get_width args k (flags_of fs) (e # q) = Some (opt_int w, flags_of fs, k, d # r)"
    using get_width_ok [of w d args k "flags_of fs" r] assms(1) dr eq(1) by simp
  have pr: "get_precision args k (d # r) = Some (opt_int p, k, c # rest)"
    using get_precision_ok [OF cc(1,2), of args k p rest] dr(1) by simp
  have ql: "get_qualifier (c # rest) = Some (None, c # rest)" using cc(5) by (simp add: get_qualifier_def)
  have syn: "tl (piece_syntax (Conv fs w p c)) @ rest = fs @ e # q" using dr(1) eq(1) by simp
  note parse = syn fl wd pr ql
  show ?thesis
  proof (cases v)
    case (Str s)
    then have s: "c = CHR ''s''" "args ! k \<noteq> 0" "cstr m (unat (args ! k)) s" "length s < 4294967295"
      using assms(3) by auto
    have "opt_int p < 2147483648" using assms(1) by simp
    from string_out_text [OF s(3,4) this]
    show ?thesis unfolding vsprintf_conv_def parse Option.bind.bind_lunit prod.case using assms(2) s(1,2) Str by simp
  next
    case (Num a)
    then have a: "args ! k = a" "c \<noteq> CHR ''s''" using assms(3) by auto
    then have "c \<in> set ''diuoxXc''" using c by auto
    then show ?thesis
      unfolding vsprintf_conv_def parse Option.bind.bind_lunit prod.case using assms(2) Num a
      by (auto simp: get_num_def number_layout flags_of_def char_pad_eq fill_text_def Let_def)
  qed
qed

lemma vsprintf_loop_pieces:
  "list_all piece_ok ps \<Longrightarrow> format_args m ps vs (drop k args) \<Longrightarrow>
   vsprintf_loop net args m k out (concat (map piece_syntax ps) @ [NUL]) = Some (out @ format_text ps vs, m)"
proof (induction ps arbitrary: vs k out)
  case Nil
  then show ?case by (subst vsprintf_loop.simps) simp
next
  case (Cons x ps)
  show ?case
  proof (cases x)
    case (Text s)
    then show ?thesis using Cons by (simp add: vsprintf_loop_text)
  next
    case (Conv fs w p c)
    have "drop k args \<noteq> []" using Cons.prems(2) Conv by (cases vs) auto
    then have k: "k < length args" by simp
    have "drop k args = args ! k # drop (k + 1) args" using k by (simp add: Cons_nth_drop_Suc)
    then obtain v vs' where v: "vs = v # vs'" "k < length args" "val_word m c v (args ! k)" "format_args m ps vs' (drop (k + 1) args)"
      using Cons.prems(2) Conv k by (cases vs) auto
    let ?rest = "concat (map piece_syntax ps) @ [NUL]"
    have conv: "vsprintf_conv net args m (length out) k (tl (piece_syntax x) @ ?rest) =
        Some (conv_text (flags_of fs) w p c v, m, k + 1, ?rest)"
      using vsprintf_conv_ok [OF _ v(2,3)] Cons.prems(1) Conv by simp
    have "vsprintf_loop net args m k out (concat (map piece_syntax (x # ps)) @ [NUL]) =
        vsprintf_loop net args m (k + 1) (out @ conv_text (flags_of fs) w p c v) ?rest"
      using conv Conv by (subst vsprintf_loop.simps) simp
    then show ?thesis using Cons.IH [OF _ v(4)] Cons.prems(1) v(1) Conv by simp
  qed
qed

text \<open>
  C15: A format made of text without \<open>%\<close> and of conversions \<open>d i u o x X c s\<close> with any flags, width and
  precision is taken apart as it was written: \<open>vsprintf\<close> writes the text and, for each conversion,
  its argument in the layout the conversion asks for, consumes one argument word per conversion and
  changes no memory.
\<close>

theorem vsprintf_correct:
  assumes "list_all piece_ok ps" and "format_args m ps vs args"
  shows "vsprintf net m (concat (map piece_syntax ps) @ [NUL]) args = Some (format_text ps vs, m)"
  using vsprintf_loop_pieces [OF assms(1), of m vs 0 args net "[]"] assms(2) by (simp add: vsprintf_def)

theorem vsprintf_correct_witness:
  "vsprintf False (arr []) (''id=%2u'' @ [NUL]) [7] = Some (''id= 7'', arr [])"
proof -
  have "piece_syntax (Conv [] (Some 2) None CHR ''u'') = ''%2u''"
    by (simp add: decimal_def digs_small dchr_def char_of_eq_iff)
  moreover have "number_text 7 10 2 (- 1) (flags_of []) = '' 7''"
    by (simp add: number_text_def number_sign_def number_prefix_def number_digits_def number_magnitude_def flags_of_def
        digs_small digit_char_def or_char_def char_of_u8_def char_of_eq_iff Let_def)
  ultimately show ?thesis
    using vsprintf_correct [of "[Text ''id='', Conv [] (Some 2) None CHR ''u'']" "arr []" "[Num 7]" "[7]" False]
    by (simp add: opt_int_def)
qed

text \<open>
  A 64-bit argument: the offset from the first argument decides whether a padding word is skipped.
  That is right for \<open>printf\<close>, whose arguments start four bytes behind a multiple of eight; those of
  \<open>sprintf\<close> start on one, and there the words \<open>hi\<close> and \<open>x\<close> are printed instead of \<open>lo\<close> and \<open>hi\<close>.
\<close>

lemma get_num_first_long_long:
  "get_num [lo, hi, x] 0 (Some CHR ''L'') fl = Some (push_bit 32 (ucast x) OR ucast hi, 3)"
  by (simp add: get_num_def numeral_3_eq_3)

end
