(* ===== verification/Env.thy ===== *)
theory Env
  imports Vsprintf Crc
begin

text \<open>
  The environment: \<^verbatim>\<open>common/env_common.c\<close> and \<^verbatim>\<open>common/cmd_nvedit.c\<close>, with the storage of
  \<^verbatim>\<open>common/env_nowhere.c\<close> (\<open>CONFIG_ENV_IS_NOWHERE\<close>, the setting of \<^verbatim>\<open>include/configs/imapx800.h\<close>).
  The data are an array of characters, read and written with bounds; a string argument is the list
  of its characters, its NUL implied.
\<close>

section \<open>State\<close>

text \<open>
  \<open>gd->env_addr\<close> points to the default environment or into the allocated copy.  \<open>env_size\<close> is
  \<open>ENV_SIZE\<close>, four less than \<open>CONFIG_ENV_SIZE\<close>.  The fields at the end are what \<open>setenv\<close> changes
  elsewhere; \<open>con_in\<close> are the characters still to be read from the console.
\<close>

datatype env_ref = In_default | In_ram

record env =
  env_size :: nat
  default_environment :: string
  env_ptr_data :: string
  env_ptr_crc :: u32
  env_addr :: env_ref
  env_valid :: bool
  env_relocated :: bool
  env_id :: int
  gd_baudrate :: int
  bi_ip_addr :: u32
  load_addr :: u32
  con_in :: string

section \<open>The environment array\<close>

definition env_target :: "env \<Rightarrow> string" where
  "env_target e = (case env_addr e of In_default \<Rightarrow> default_environment e | In_ram \<Rightarrow> env_ptr_data e)"

definition env_crc_update :: "env \<Rightarrow> env option" where
  "env_crc_update e = do {
     c \<leftarrow> crc32 0 (map of_char (env_ptr_data e)) (word_of_nat (env_size e));
     Some (e\<lparr>env_ptr_crc := c\<rparr>) }"

definition env_get_char_spec :: "env \<Rightarrow> nat \<Rightarrow> char option" where
  "env_get_char_spec e index = rd (env_target e) index"

definition env_get_char_init :: "env \<Rightarrow> nat \<Rightarrow> char option" where
  "env_get_char_init e index =
     (if env_valid e then env_get_char_spec e index else rd (default_environment e) index)"

definition env_get_char_memory :: "env \<Rightarrow> nat \<Rightarrow> char option" where
  "env_get_char_memory e index =
     (if env_valid e then rd (env_target e) index else rd (default_environment e) index)"

definition env_get_char :: "env \<Rightarrow> nat \<Rightarrow> char option" where
  "env_get_char e index = (if env_relocated e then env_get_char_memory e index else env_get_char_init e index)"

text \<open>\<open>env_get_addr\<close>: the array it points into; the index is added by the caller.\<close>

definition env_get_addr :: "env \<Rightarrow> env_ref" where
  "env_get_addr e = (if env_valid e then env_addr e else In_default)"

definition env_init :: "env \<Rightarrow> env" where
  "env_init e = e\<lparr>env_addr := In_default, env_valid := False\<rparr>"

definition set_default_env :: "env \<Rightarrow> env option" where
  "set_default_env e =
     (if length (default_environment e) > env_size e then Some e
      else do {
        let data = default_environment e @ replicate (env_size e - length (default_environment e)) NUL;
        e \<leftarrow> env_crc_update (e\<lparr>env_ptr_data := data\<rparr>);
        Some (e\<lparr>env_valid := True\<rparr>) })"

text \<open>\<open>malloc\<close> gives memory with any contents, or none (the result is not checked: \<open>None\<close>).\<close>

definition env_relocate :: "string option \<Rightarrow> env \<Rightarrow> env option" where
  "env_relocate mem e = do {
     garbage \<leftarrow> mem;
     if length garbage = env_size e
     then do {
       let e = e\<lparr>env_ptr_data := garbage\<rparr>;
       e \<leftarrow> (if \<not> env_valid e then set_default_env e else Some e);
       Some (e\<lparr>env_addr := In_ram\<rparr>) }
     else None }"

section \<open>Looking up\<close>

text \<open>\<open>envmatch\<close>: the index of the value, or -1 (\<open>None\<close> inside the option of memory safety).\<close>

fun envmatch :: "env \<Rightarrow> string \<Rightarrow> nat \<Rightarrow> nat option option" where
  "envmatch e [] i2 = None"
| "envmatch e (c # s1) i2 = do {
     d \<leftarrow> env_get_char e i2;
     if c = d
     then if c = CHR ''='' then Some (Some (i2 + 1)) else envmatch e s1 (i2 + 1)
     else Some (if c = NUL \<and> d = CHR ''='' then Some (i2 + 1) else None) }"

text \<open>The inner loop of \<open>getenv\<close> and \<open>getenv_r\<close>: the end of the entry, or -1 past \<open>CONFIG_ENV_SIZE\<close>.\<close>

partial_function (option) env_entry_end :: "env \<Rightarrow> nat \<Rightarrow> nat option option" where [code]:
  "env_entry_end e nxt = do {
     c \<leftarrow> env_get_char e nxt;
     if c \<noteq> NUL then if env_size e + 4 \<le> nxt then Some None else env_entry_end e (nxt + 1)
     else Some (Some nxt) }"

partial_function (option) getenv_loop :: "env \<Rightarrow> string \<Rightarrow> nat \<Rightarrow> nat option option" where [code]:
  "getenv_loop e name i = do {
     c \<leftarrow> env_get_char e i;
     if c \<noteq> NUL
     then do {
       r \<leftarrow> env_entry_end e i;
       (case r of
          None \<Rightarrow> Some None
        | Some nxt \<Rightarrow> do {
            v \<leftarrow> envmatch e (name @ [NUL]) i;
            (case v of None \<Rightarrow> getenv_loop e name (nxt + 1) | Some val \<Rightarrow> Some (Some val)) }) }
     else Some None }"

text \<open>The address returned, as the array and the index in it.\<close>

definition getenv :: "env \<Rightarrow> string \<Rightarrow> (env_ref \<times> nat) option option" where
  "getenv e name = do {
     r \<leftarrow> getenv_loop e name 0;
     Some (map_option (\<lambda>val. (env_get_addr e, val)) r) }"

text \<open>The copying loop of \<open>getenv_r\<close>, \<open>pos\<close> being the position of \<open>buf\<close>.\<close>

partial_function (option) getenv_r_copy :: "env \<Rightarrow> nat \<Rightarrow> nat \<Rightarrow> nat \<Rightarrow> string \<Rightarrow> nat \<Rightarrow> (nat \<times> string \<times> nat) option" where [code]:
  "getenv_r_copy e val len n buf pos =
     (if n < len
      then do {
        c \<leftarrow> env_get_char e val;
        buf \<leftarrow> wr buf pos c;
        if c \<noteq> NUL then getenv_r_copy e (val + 1) len (n + 1) buf (pos + 1) else Some (n + 1, buf, pos + 1) }
      else Some (n + 1, buf, pos))"

definition getenv_r :: "env \<Rightarrow> string \<Rightarrow> string \<Rightarrow> nat \<Rightarrow> (int \<times> string) option" where
  "getenv_r e name buf len = do {
     r \<leftarrow> getenv_loop e name 0;
     (case r of
        None \<Rightarrow> Some (- 1, buf)
      | Some val \<Rightarrow> do {
          (n, buf, pos) \<leftarrow> getenv_r_copy e val len 0 buf 0;
          buf \<leftarrow> (if len = n then wr buf pos NUL else Some buf);
          Some (int n, buf) }) }"

section \<open>Printing\<close>

text \<open>\<open>puts\<close> of a character array.\<close>

definition puts_text :: "string \<Rightarrow> string" where
  "puts_text buf = takeWhile (\<lambda>c. c \<noteq> NUL) buf"

text \<open>
  The loop of \<open>printenv\<close> over one entry, through its buffer of 17 characters, and over the entries.
  \<open>out\<close> is the text printed; \<open>ctrlc n\<close> tells whether the user has typed Control C after \<open>n\<close> entries.
\<close>

partial_function (option) printenv_entry ::
    "env \<Rightarrow> nat \<Rightarrow> nat \<Rightarrow> nat \<Rightarrow> string \<Rightarrow> string \<Rightarrow> (nat \<times> nat \<times> string \<times> string) option" where [code]:
  "printenv_entry e state i j buf out = do {
     c \<leftarrow> env_get_char e i;
     buf \<leftarrow> wr buf j c;
     let (j, out) = (if j + 1 = 16 then (0, if state \<le> 1 then out @ puts_text buf else out) else (j + 1, out));
     if c \<noteq> NUL then printenv_entry e state (i + 1) j buf out else Some (i + 1, j, buf, out) }"

partial_function (option) printenv_loop ::
    "env \<Rightarrow> string \<Rightarrow> (nat \<Rightarrow> bool) \<Rightarrow> nat \<Rightarrow> nat \<Rightarrow> nat \<Rightarrow> string \<Rightarrow> string \<Rightarrow> (int \<times> string) option" where [code]:
  "printenv_loop e name ctrlc n state i buf out =
     (if state = 0 then Some (0, out)
      else do {
        c \<leftarrow> env_get_char e i;
        if c = NUL then Some (int i, out)
        else do {
          state \<leftarrow> (if state = 2
            then do { v \<leftarrow> envmatch e (name @ [NUL]) i; Some (if v = None then 2 else 0) }
            else Some state);
          (i, j, buf, out) \<leftarrow> printenv_entry e state i 0 buf out;
          let out = (if state \<le> 1 then out @ (if j \<noteq> 0 then puts_text buf else []) @ [CHR 0x0A] else out);
          if ctrlc n then Some (- 1, out) else printenv_loop e name ctrlc (n + 1) state i buf out } })"

text \<open>\<open>garbage\<close> are the sixteen uninitialised characters of \<open>buf\<close>.\<close>

definition printenv :: "string \<Rightarrow> (nat \<Rightarrow> bool) \<Rightarrow> env \<Rightarrow> string \<Rightarrow> nat \<Rightarrow> (int \<times> string) option" where
  "printenv garbage ctrlc e name state = printenv_loop e name ctrlc 0 state 0 (garbage @ [NUL]) []"

fun printenv_args :: "string \<Rightarrow> (nat \<Rightarrow> bool) \<Rightarrow> env \<Rightarrow> string list \<Rightarrow> int \<Rightarrow> string \<Rightarrow> (int \<times> string) option" where
  "printenv_args garbage ctrlc e [] rcode out = Some (rcode, out)"
| "printenv_args garbage ctrlc e (name # names) rcode out = do {
     (r, s) \<leftarrow> printenv garbage ctrlc e name 2;
     if r \<noteq> 0
     then printenv_args garbage ctrlc e names (rcode + 1)
       (out @ s @ ''## Error: '' @ [CHR 0x22] @ name @ [CHR 0x22] @ '' not defined'' @ [CHR 0x0A])
     else printenv_args garbage ctrlc e names rcode (out @ s) }"

definition do_printenv :: "string \<Rightarrow> (nat \<Rightarrow> bool) \<Rightarrow> env \<Rightarrow> string list \<Rightarrow> (int \<times> string) option" where
  "do_printenv garbage ctrlc e argv =
     (if length argv = 1
      then do {
        (rcode, out) \<leftarrow> printenv garbage ctrlc e [] 1;
        if rcode < 0 then Some (1, out)
        else do {
          (s, _) \<leftarrow> vsprintf False (arr []) ([CHR 0x0A] @ ''Environment size: %d/%ld bytes'' @ [CHR 0x0A, NUL])
            [word_of_int rcode, word_of_nat (env_size e)];
          Some (0, out @ s) } }
      else printenv_args garbage ctrlc e (tl argv) 0 [])"

section \<open>Setting\<close>

text \<open>The array that \<open>env_data\<close> points to, changed.\<close>

definition env_store :: "env \<Rightarrow> string \<Rightarrow> env" where
  "env_store e d =
     (case env_get_addr e of In_default \<Rightarrow> e\<lparr>default_environment := d\<rparr> | In_ram \<Rightarrow> e\<lparr>env_ptr_data := d\<rparr>)"

definition env_array :: "env \<Rightarrow> string" where
  "env_array e = (case env_get_addr e of In_default \<Rightarrow> default_environment e | In_ram \<Rightarrow> env_ptr_data e)"

text \<open>\<open>for (nxt=env; *nxt; ++nxt) ;\<close>\<close>

partial_function (option) nul_at :: "string \<Rightarrow> nat \<Rightarrow> nat option" where [code]:
  "nul_at d nxt = do { c \<leftarrow> rd d nxt; if c \<noteq> NUL then nul_at d (nxt + 1) else Some nxt }"

text \<open>The search for an entry of the name: its first index and its end.\<close>

partial_function (option) env_search :: "env \<Rightarrow> string \<Rightarrow> nat \<Rightarrow> (nat \<times> nat) option option" where [code]:
  "env_search e name env = do {
     c \<leftarrow> rd (env_array e) env;
     if c \<noteq> NUL
     then do {
       nxt \<leftarrow> nul_at (env_array e) env;
       v \<leftarrow> envmatch e (name @ [NUL]) env;
       if v \<noteq> None then Some (Some (env, nxt)) else env_search e name (nxt + 1) }
     else Some None }"

partial_function (option) del_loop :: "string \<Rightarrow> nat \<Rightarrow> nat \<Rightarrow> (string \<times> nat) option" where [code]:
  "del_loop d env nxt = do {
     c \<leftarrow> rd d nxt;
     d \<leftarrow> wr d env c;
     let nxt = nxt + 1;
     c' \<leftarrow> (if c = NUL then rd d nxt else Some c);
     if c = NUL \<and> c' = NUL then Some (d, env) else del_loop d (env + 1) nxt }"

text \<open>Deleting the entry from \<open>env\<close> to its end \<open>nxt\<close>.\<close>

definition env_delete :: "string \<Rightarrow> nat \<Rightarrow> nat \<Rightarrow> string option" where
  "env_delete d env nxt = do {
     let nxt = nxt + 1;
     c \<leftarrow> rd d nxt;
     (d, env) \<leftarrow>
       (if c = NUL
        then if 0 < env then Some (d, env - 1) else do { d \<leftarrow> wr d env NUL; Some (d, env) }
        else del_loop d env nxt);
     wr d (env + 1) NUL }"

partial_function (option) tail_loop :: "string \<Rightarrow> nat \<Rightarrow> nat option" where [code]:
  "tail_loop d env = do {
     c \<leftarrow> rd d env;
     if c \<noteq> NUL then tail_loop d (env + 1)
     else do { c' \<leftarrow> rd d (env + 1); if c' \<noteq> NUL then tail_loop d (env + 1) else Some env } }"

fun copy_str :: "string \<Rightarrow> nat \<Rightarrow> string \<Rightarrow> (string \<times> nat) option" where
  "copy_str d env [] = do { d \<leftarrow> wr d env NUL; Some (d, env) }"
| "copy_str d env (c # s) = do { d \<leftarrow> wr d env c; copy_str d (env + 1) s }"

fun copy_args :: "string \<Rightarrow> nat \<Rightarrow> char \<Rightarrow> string list \<Rightarrow> (string \<times> nat) option" where
  "copy_args d env sep [] = Some (d, env)"
| "copy_args d env sep (val # vals) = do {
     d \<leftarrow> wr d env sep;
     (d, env) \<leftarrow> copy_str d (env + 1) val;
     copy_args d env CHR '' '' vals }"

text \<open>Appending: the new array, or \<open>Inl\<close> when the definition does not fit.\<close>

definition env_append :: "nat \<Rightarrow> string \<Rightarrow> string \<Rightarrow> string list \<Rightarrow> (unit + string) option" where
  "env_append sz d name vals = do {
     env \<leftarrow> tail_loop d 0;
     let env = (if 0 < env then env + 1 else env);
     let len = length name + 2 + sum_list (map (\<lambda>v. length v + 1) vals);
     if int len > int sz - int env then Some (Inl ())
     else do {
       (d, env) \<leftarrow> copy_str d env name;
       (d, env) \<leftarrow> copy_args d env CHR ''='' vals;
       d \<leftarrow> wr d (env + 1) NUL;
       Some (Inr d) } }"

text \<open>\<open>CONFIG_SYS_BAUDRATE_TABLE\<close> of imapx800, and the wait for a carriage return.\<close>

definition baudrate_table :: "u32 list" where
  "baudrate_table = [9600, 19200, 38400, 57600, 115200]"

fun wait_cr :: "string \<Rightarrow> string option" where
  "wait_cr [] = None"
| "wait_cr (c # cs) = (if c = CHR 0x0D then Some cs else wait_cr cs)"

definition htonl :: "u32 \<Rightarrow> u32" where
  "htonl w = push_bit 24 w OR push_bit 8 (w AND 0xFF00) OR (drop_bit 8 w AND 0xFF00) OR drop_bit 24 w"

fun ip_loop :: "nat \<Rightarrow> string \<Rightarrow> u32 \<Rightarrow> u32 option" where
  "ip_loop 0 s addr = Some addr"
| "ip_loop (Suc n) s addr = do {
     (val, e) \<leftarrow> simple_strtoul s 10;
     c \<leftarrow> peek e;
     ip_loop n (if c \<noteq> NUL then tl e else e) (push_bit 8 addr OR (val AND 0xFF)) }"

text \<open>Argument \<open>i\<close>: \<open>None\<close> when it is \<open>NULL\<close> or not there, and is used as a string.\<close>

definition arg :: "string option list \<Rightarrow> nat \<Rightarrow> string option" where
  "arg argv i = do { a \<leftarrow> rd argv i; a }"

text \<open>The checks and side effects before an old definition is deleted: \<open>Inl\<close> an early return.\<close>

definition setenv_old ::
    "bool \<Rightarrow> bool \<Rightarrow> (nat \<Rightarrow> string \<Rightarrow> bool) \<Rightarrow> u32 \<Rightarrow> string option list \<Rightarrow> string \<Rightarrow> env \<Rightarrow> (int \<times> env + env) option" where
  "setenv_old overwrite has_uid console_assign flag argv name e =
     (if \<not> overwrite \<and> (name = ''serial#'' \<and> \<not> (has_uid \<and> flag = 0xdeaf4add) \<or> name = ''ethaddr'')
      then Some (Inl (1, e))
      else do {
        let console = (if name = ''stdin'' then Some 0 else if name = ''stdout'' then Some 1
          else if name = ''stderr'' then Some 2 else None);
        refused \<leftarrow> (case console of
            None \<Rightarrow> Some False
          | Some f \<Rightarrow> if length argv < 3 then Some True else do { a \<leftarrow> arg argv 2; Some (\<not> console_assign f a) });
        if refused then Some (Inl (1, e))
        else if name = ''baudrate''
        then do {
          a \<leftarrow> arg argv 2;
          (baudrate, _) \<leftarrow> simple_strtoul (a @ [NUL]) 10;
          if baudrate \<notin> set baudrate_table then Some (Inl (1, e))
          else do {
            rest \<leftarrow> wait_cr (con_in e);
            Some (Inr (e\<lparr>gd_baudrate := sint baudrate, con_in := rest\<rparr>)) } }
        else Some (Inr e) })"

text \<open>What follows from the new value of two variables.\<close>

definition setenv_effects :: "string option list \<Rightarrow> string \<Rightarrow> env \<Rightarrow> env option" where
  "setenv_effects argv name e =
     (if name = ''ipaddr''
      then do { s \<leftarrow> arg argv 2; addr \<leftarrow> ip_loop 4 (s @ [NUL]) 0; Some (e\<lparr>bi_ip_addr := htonl addr\<rparr>) }
      else if name = ''loadaddr''
      then do { s \<leftarrow> arg argv 2; (v, _) \<leftarrow> simple_strtoul (s @ [NUL]) 16; Some (e\<lparr>load_addr := v\<rparr>) }
      else Some e)"

text \<open>\<open>_do_setenv\<close>: the return value and the environment.\<close>

definition do_setenv_body ::
    "bool \<Rightarrow> bool \<Rightarrow> (nat \<Rightarrow> string \<Rightarrow> bool) \<Rightarrow> u32 \<Rightarrow> string option list \<Rightarrow> env \<Rightarrow> (int \<times> env) option" where
  "do_setenv_body overwrite has_uid console_assign flag argv e = do {
     name \<leftarrow> arg argv 1;
     if CHR ''='' \<in> set name then Some (1, e)
     else do {
       let e = e\<lparr>env_id := env_id e + 1\<rparr>;
       old \<leftarrow> env_search e name 0;
       r \<leftarrow> (case old of
           None \<Rightarrow> Some (Inr e)
         | Some (env, nxt) \<Rightarrow> do {
             r \<leftarrow> setenv_old overwrite has_uid console_assign flag argv name e;
             (case r of
                Inl x \<Rightarrow> Some (Inl x)
              | Inr e \<Rightarrow> do { d \<leftarrow> env_delete (env_array e) env nxt; Some (Inr (env_store e d)) }) });
       (case r of
          Inl x \<Rightarrow> Some x
        | Inr e \<Rightarrow>
            if length argv < 3 \<or> argv ! 2 = None
            then do { e \<leftarrow> env_crc_update e; Some (0, e) }
            else do {
              let vals = map the (drop 2 argv);
              if None \<in> set (drop 2 argv) then None
              else do {
                a \<leftarrow> env_append (env_size e) (env_array e) name vals;
                (case a of
                   Inl _ \<Rightarrow> Some (1, e)
                 | Inr d \<Rightarrow> do {
                     e \<leftarrow> env_crc_update (env_store e d);
                     e \<leftarrow> setenv_effects argv name e;
                     Some (0, e) }) } }) } }"

definition setenv ::
    "bool \<Rightarrow> bool \<Rightarrow> (nat \<Rightarrow> string \<Rightarrow> bool) \<Rightarrow> string \<Rightarrow> string option \<Rightarrow> env \<Rightarrow> (int \<times> env) option" where
  "setenv overwrite has_uid console_assign varname varvalue e =
     do_setenv_body overwrite has_uid console_assign 0
       (case varvalue of None \<Rightarrow> [Some ''setenv'', Some varname] | Some v \<Rightarrow> [Some ''setenv'', Some varname, Some v]) e"

definition forceenv ::
    "bool \<Rightarrow> bool \<Rightarrow> (nat \<Rightarrow> string \<Rightarrow> bool) \<Rightarrow> string \<Rightarrow> string option \<Rightarrow> env \<Rightarrow> (int \<times> env) option" where
  "forceenv overwrite has_uid console_assign varname varvalue e =
     do_setenv_body overwrite has_uid console_assign 0xdeaf4add [Some ''forceenv'', Some varname, varvalue] e"

definition do_setenv ::
    "bool \<Rightarrow> bool \<Rightarrow> (nat \<Rightarrow> string \<Rightarrow> bool) \<Rightarrow> u32 \<Rightarrow> string list \<Rightarrow> env \<Rightarrow> (int \<times> env) option" where
  "do_setenv overwrite has_uid console_assign flag argv e =
     (if length argv < 2 then Some (1, e)
      else do_setenv_body overwrite has_uid console_assign flag (map Some argv) e)"

section \<open>Asking for a value\<close>

text \<open>
  The text and the size \<open>askenv\<close> takes from its arguments.  \<open>message\<close> has 256 bytes
  (\<open>CONFIG_SYS_CBSIZE\<close> of imapx800) and is not checked for room.
\<close>

fun askenv_text :: "string list \<Rightarrow> string \<Rightarrow> string" where
  "askenv_text [] message = message"
| "askenv_text (a # as) message = askenv_text as (message @ (if message \<noteq> [] then '' '' else []) @ a)"

definition askenv_args :: "string list \<Rightarrow> (string \<times> int) option" where
  "askenv_args argv = do {
     let argc = length argv;
     let message = (if argc \<le> 3 then ''Please enter '' @ [CHR 0x27] @ argv ! 1 @ [CHR 0x27] @ '':''
       else askenv_text (take (argc - 3) (drop 2 argv)) []);
     if length message < 256
     then if argc = 2 then Some (message, 255)
       else do { (size, _) \<leftarrow> simple_strtoul (last argv @ [NUL]) 10; Some (message, sint size) }
     else None }"

text \<open>
  \<open>readline\<close> prints the prompt, fills \<open>console_buffer\<close> and returns a length or a negative number: it is
  an argument, giving both.
\<close>

definition do_askenv ::
    "bool \<Rightarrow> bool \<Rightarrow> (nat \<Rightarrow> string \<Rightarrow> bool) \<Rightarrow> u32 \<Rightarrow> (string \<Rightarrow> int \<times> string) \<Rightarrow> string list \<Rightarrow> env \<Rightarrow> (int \<times> env) option" where
  "do_askenv overwrite has_uid console_assign flag readline argv e =
     (if length argv < 2 then Some (1, e)
      else do {
        (message, size) \<leftarrow> askenv_args argv;
        let size = (if 256 \<le> size then 255 else size);
        if size \<le> 0 then Some (1, e)
        else do {
          let (len, console_buffer) = readline message;
          console_buffer \<leftarrow> (if size < len then wr console_buffer (nat size) NUL else Some console_buffer);
          c \<leftarrow> rd console_buffer 0;
          do_setenv_body overwrite has_uid console_assign flag
            (Some (argv ! 0) # Some (argv ! 1) #
              (if c \<noteq> NUL then [Some (takeWhile (\<lambda>c. c \<noteq> NUL) console_buffer)] else [])) e } })"

section \<open>Entries in an array\<close>

text \<open>
  The contents of an environment: the entries \<open>name=value\<close> in order, each ended by NUL, and a further
  NUL (two when there is no entry).
\<close>

definition entry :: "string \<times> string \<Rightarrow> string" where
  "entry nv = fst nv @ CHR ''='' # snd nv @ [NUL]"

definition env_entries :: "(string \<times> string) list \<Rightarrow> string" where
  "env_entries es = concat (map entry es)"

definition env_name :: "string \<Rightarrow> bool" where
  "env_name n \<longleftrightarrow> NUL \<notin> set n \<and> CHR ''='' \<notin> set n"

definition entries_ok :: "(string \<times> string) list \<Rightarrow> bool" where
  "entries_ok es \<longleftrightarrow> (\<forall>(n, v)\<in>set es. env_name n \<and> NUL \<notin> set v) \<and> distinct (map fst es)"

definition env_array_ok :: "string \<Rightarrow> (string \<times> string) list \<Rightarrow> bool" where
  "env_array_ok d es \<longleftrightarrow>
     entries_ok es \<and> (\<exists>rest. d = env_entries es @ NUL # rest \<and> (es = [] \<longrightarrow> rest \<noteq> [] \<and> hd rest = NUL))"

lemma env_entries_simps [simp]:
  "env_entries [] = []" "env_entries (nv # es) = entry nv @ env_entries es"
  "env_entries (es @ fs) = env_entries es @ env_entries fs"
  by (simp_all add: env_entries_def)

lemma rd_at: "length pre = i \<Longrightarrow> rd (pre @ c # post) i = Some c"
  by (auto simp: rd_def)

lemma wr_at: "length pre = i \<Longrightarrow> wr (pre @ c # post) i x = Some (pre @ x # post)"
  by (auto simp: wr_def)

text \<open>No two NUL next to each other, and none at the end.\<close>

fun single_nul :: "string \<Rightarrow> bool" where
  "single_nul [] = True"
| "single_nul (c # s) = ((c = NUL \<longrightarrow> s \<noteq> [] \<and> hd s \<noteq> NUL) \<and> single_nul s)"

lemma single_nul_text: "NUL \<notin> set t \<Longrightarrow> single_nul t"
  by (induction t) auto

lemma single_nul_join: "NUL \<notin> set t \<Longrightarrow> s \<noteq> [] \<Longrightarrow> hd s \<noteq> NUL \<Longrightarrow> single_nul s \<Longrightarrow> single_nul (t @ NUL # s)"
  by (induction t) auto

lemma entries_single_nul:
  "entries_ok es \<Longrightarrow> es \<noteq> [] \<Longrightarrow> \<exists>s. env_entries es = s @ [NUL] \<and> single_nul s \<and> s \<noteq> [] \<and> hd s \<noteq> NUL"
proof (induction es)
  case (Cons nv es)
  obtain n v where nv: "nv = (n, v)" by (cases nv)
  let ?t = "n @ CHR ''='' # v"
  have t: "NUL \<notin> set ?t" "?t \<noteq> []" "hd ?t \<noteq> NUL"
    using Cons.prems by (cases n; auto simp: nv entries_ok_def env_name_def)+
  have e: "entry nv = ?t @ [NUL]" by (simp add: entry_def nv)
  show ?case
  proof (cases "es = []")
    case True
    then show ?thesis using t e single_nul_text [OF t(1)] by (intro exI [of _ ?t]) simp
  next
    case False
    have "entries_ok es" using Cons.prems by (auto simp: entries_ok_def)
    then obtain s where s: "env_entries es = s @ [NUL]" "single_nul s" "s \<noteq> []" "hd s \<noteq> NUL"
      using Cons.IH False by blast
    have "single_nul (?t @ NUL # s)" by (rule single_nul_join) (use t s in simp_all)
    then show ?thesis using s e t by (intro exI [of _ "?t @ NUL # s"]) (auto simp: hd_append)
  qed
qed simp

section \<open>The loops on arrays\<close>

lemma nul_at_text: "NUL \<notin> set s \<Longrightarrow> nul_at (pre @ s @ NUL # post) (length pre) = Some (length pre + length s)"
proof (induction s arbitrary: pre)
  case Nil
  then show ?case by (subst nul_at.simps) (simp add: rd_at)
next
  case (Cons c s)
  have c: "c \<noteq> NUL" using Cons.prems by auto
  have "nul_at (pre @ (c # s) @ NUL # post) (length pre) = nul_at ((pre @ [c]) @ s @ NUL # post) (length (pre @ [c]))"
    using c by (subst nul_at.simps) (simp add: rd_at)
  then show ?case using Cons.IH [of "pre @ [c]"] Cons.prems by simp
qed

lemma del_loop_text:
  "single_nul s \<Longrightarrow> gap \<noteq> [] \<Longrightarrow>
   \<exists>junk. del_loop (pre @ gap @ s @ NUL # NUL # post) (length pre) (length pre + length gap) =
     Some (pre @ s @ NUL # junk, length pre + length s) \<and> length junk = length gap + 1 + length post"
proof (induction s arbitrary: pre gap)
  case Nil
  obtain g gap' where g: "gap = g # gap'" using Nil by (cases gap) auto
  have 1: "rd (pre @ gap @ NUL # NUL # post) (length pre + length gap) = Some NUL"
    using rd_at [of "pre @ gap" "length pre + length gap" NUL "NUL # post"] by simp
  have 2: "rd (pre @ NUL # gap' @ NUL # NUL # post) (length pre + length gap + 1) = Some NUL"
    using rd_at [of "pre @ NUL # gap' @ [NUL]" "length pre + length gap + 1" NUL post] by (simp add: g)
  show ?case using 1 2 by (subst del_loop.simps) (simp add: wr_at g)
next
  case (Cons c s)
  obtain g gap' where g: "gap = g # gap'" using Cons.prems by (cases gap) auto
  have 1: "rd (pre @ gap @ (c # s) @ NUL # NUL # post) (length pre + length gap) = Some c"
    using rd_at [of "pre @ gap" "length pre + length gap" c "s @ NUL # NUL # post"] by simp
  have 2: "rd (pre @ c # gap' @ c # s @ NUL # NUL # post) (length pre + length gap + 1) = Some (hd s)" if "c = NUL"
    using rd_at [of "pre @ c # gap' @ [c]" "length pre + length gap + 1" "hd s" "tl s @ NUL # NUL # post"] that Cons.prems
    by (cases s) (simp_all add: g)
  have "del_loop (pre @ gap @ (c # s) @ NUL # NUL # post) (length pre) (length pre + length gap) =
      del_loop ((pre @ [c]) @ (gap' @ [c]) @ s @ NUL # NUL # post) (length (pre @ [c])) (length (pre @ [c]) + length (gap' @ [c]))"
    using 1 2 Cons.prems by (subst del_loop.simps) (auto simp: wr_at g)
  moreover obtain junk where "del_loop ((pre @ [c]) @ (gap' @ [c]) @ s @ NUL # NUL # post) (length (pre @ [c]))
      (length (pre @ [c]) + length (gap' @ [c])) = Some ((pre @ [c]) @ s @ NUL # junk, length (pre @ [c]) + length s) \<and>
      length junk = length (gap' @ [c]) + 1 + length post"
    using Cons.IH [of "gap' @ [c]" "pre @ [c]"] Cons.prems by auto
  ultimately show ?case by (intro exI [of _ junk]) (simp add: g)
qed

lemma tail_loop_text:
  "single_nul s \<Longrightarrow> tail_loop (pre @ s @ NUL # NUL # post) (length pre) = Some (length pre + length s)"
proof (induction s arbitrary: pre)
  case Nil
  then show ?case using rd_at [of "pre @ [NUL]" "length pre + 1" NUL post] by (subst tail_loop.simps) (simp add: rd_at)
next
  case (Cons c s)
  have "rd (pre @ c # s @ NUL # NUL # post) (length pre + 1) = Some (hd s)" if "c = NUL"
    using rd_at [of "pre @ [c]" "length pre + 1" "hd s" "tl s @ NUL # NUL # post"] that Cons.prems
    by (cases s) simp_all
  then have "tail_loop (pre @ (c # s) @ NUL # NUL # post) (length pre) = tail_loop ((pre @ [c]) @ s @ NUL # NUL # post) (length (pre @ [c]))"
    using Cons.prems by (subst tail_loop.simps) (simp add: rd_at)
  then show ?case using Cons.IH [of "pre @ [c]"] Cons.prems by simp
qed

lemma copy_str_text:
  "length s < length junk \<Longrightarrow>
   copy_str (pre @ junk) (length pre) s = Some (pre @ s @ NUL # drop (Suc (length s)) junk, length pre + length s)"
proof (induction s arbitrary: pre junk)
  case Nil
  then show ?case by (cases junk) (simp_all add: wr_at)
next
  case (Cons c s)
  obtain g junk' where g: "junk = g # junk'" using Cons.prems by (cases junk) auto
  show ?case using Cons.IH [of junk' "pre @ [c]"] Cons.prems by (simp add: g wr_at)
qed

text \<open>The values after the name, each behind its separator.\<close>

fun args_text :: "char \<Rightarrow> string list \<Rightarrow> string" where
  "args_text sep [] = []"
| "args_text sep (val # vals) = sep # val @ args_text CHR '' '' vals"

lemma length_args_text: "length (args_text sep vals) = sum_list (map (\<lambda>v. length v + 1) vals)"
  by (induction vals arbitrary: sep) simp_all

lemma copy_args_text:
  "length (args_text sep vals) \<le> length junk \<Longrightarrow>
   copy_args (pre @ NUL # junk) (length pre) sep vals =
     Some (pre @ args_text sep vals @ NUL # drop (length (args_text sep vals)) junk, length pre + length (args_text sep vals))"
proof (induction vals arbitrary: pre sep junk)
  case (Cons val vals)
  have "copy_str ((pre @ [sep]) @ junk) (length (pre @ [sep])) val =
      Some ((pre @ [sep]) @ val @ NUL # drop (Suc (length val)) junk, length (pre @ [sep]) + length val)"
    by (rule copy_str_text) (use Cons.prems in simp)
  then show ?case
    using Cons.IH [of "CHR '' ''" "drop (Suc (length val)) junk" "pre @ sep # val"] Cons.prems by (simp add: wr_at add.commute)
qed simp

section \<open>Looking up an entry\<close>

lemma env_get_char_rd: "env_get_char e i = rd (env_array e) i"
  by (simp add: env_get_char_def env_get_char_memory_def env_get_char_init_def env_get_char_spec_def
      env_target_def env_array_def env_get_addr_def split: env_ref.split)

lemma envmatch_entry:
  "env_name name \<Longrightarrow> env_name n \<Longrightarrow> env_array e = pre @ entry (n, v) @ post \<Longrightarrow>
   envmatch e (name @ [NUL]) (length pre) = Some (if name = n then Some (length pre + length n + 1) else None)"
proof (induction name arbitrary: n pre)
  case Nil
  then show ?case
    by (cases n) (auto simp: env_get_char_rd rd_at entry_def env_name_def)
next
  case (Cons c name)
  have c: "c \<noteq> NUL" "c \<noteq> CHR ''=''" "env_name name" using Cons.prems by (auto simp: env_name_def)
  show ?case
  proof (cases n)
    case Nil
    then show ?thesis using Cons.prems c by (auto simp: env_get_char_rd rd_at entry_def)
  next
    case (Cons a as)
    note n = this
    have "env_get_char e (length pre) = Some a" using Cons.prems by (simp add: env_get_char_rd rd_at entry_def n)
    moreover have "envmatch e (name @ [NUL]) (length (pre @ [a])) =
        Some (if name = as then Some (length (pre @ [a]) + length as + 1) else None)"
      by (rule Cons.IH) (use Cons.prems c in \<open>simp_all add: entry_def env_name_def n\<close>)
    ultimately show ?thesis using c by (simp add: n)
  qed
qed

lemma env_entry_end_text:
  "NUL \<notin> set s \<Longrightarrow> env_array e = pre @ s @ NUL # post \<Longrightarrow> length (env_array e) \<le> env_size e + 4 \<Longrightarrow>
   env_entry_end e (length pre) = Some (Some (length pre + length s))"
proof (induction s arbitrary: pre)
  case Nil
  then show ?case by (subst env_entry_end.simps) (simp add: env_get_char_rd rd_at)
next
  case (Cons c s)
  have c: "c \<noteq> NUL" using Cons.prems by auto
  have "length pre < env_size e + 4" using Cons.prems by simp
  then have "env_entry_end e (length pre) = env_entry_end e (length (pre @ [c]))"
    using c Cons.prems(2) by (subst env_entry_end.simps) (simp add: env_get_char_rd rd_at)
  then show ?case using Cons.IH [of "pre @ [c]"] Cons.prems by simp
qed

text \<open>The string that starts at an index.\<close>

definition string_at :: "string \<Rightarrow> nat \<Rightarrow> string" where
  "string_at d i = takeWhile (\<lambda>c. c \<noteq> NUL) (drop i d)"

lemma string_at_text: "NUL \<notin> set s \<Longrightarrow> length pre = i \<Longrightarrow> string_at (pre @ s @ NUL # post) i = s"
  by (auto simp: string_at_def takeWhile_tail)

lemma entries_ok_Cons:
  "entries_ok ((n, v) # es) = (env_name n \<and> NUL \<notin> set v \<and> n \<notin> fst ` set es \<and> entries_ok es)"
  by (auto simp: entries_ok_def)

lemma getenv_loop_entries:
  assumes "env_name name" and "length (env_array e) \<le> env_size e + 4"
  shows "entries_ok es \<Longrightarrow> env_array e = pre @ env_entries es @ NUL # post \<Longrightarrow>
    (case map_of es name of
       None \<Rightarrow> getenv_loop e name (length pre) = Some None
     | Some v \<Rightarrow> \<exists>a b. env_array e = a @ v @ NUL # b \<and> getenv_loop e name (length pre) = Some (Some (length a)))"
proof (induction es arbitrary: pre)
  case Nil
  then show ?case by (simp add: env_get_char_rd rd_at getenv_loop.simps [of _ _ "length pre"])
next
  case (Cons nv es)
  obtain n v where nv: "nv = (n, v)" by (cases nv)
  have ok: "env_name n" "NUL \<notin> set v" "entries_ok es" using Cons.prems by (auto simp: nv entries_ok_Cons)
  let ?t = "n @ CHR ''='' # v"
  have arr: "env_array e = pre @ ?t @ NUL # env_entries es @ NUL # post"
    using Cons.prems by (simp add: nv entry_def)
  have "env_entry_end e (length pre) = Some (Some (length pre + length ?t))"
    by (rule env_entry_end_text [OF _ arr assms(2)]) (use ok in \<open>auto simp: env_name_def\<close>)
  moreover have "envmatch e (name @ [NUL]) (length pre) = Some (if name = n then Some (length pre + length n + 1) else None)"
    by (rule envmatch_entry [OF assms(1) ok(1)]) (use arr in \<open>simp add: entry_def\<close>)
  moreover have "env_get_char e (length pre) = Some (hd ?t)" "hd ?t \<noteq> NUL"
    using arr ok(1) by (cases n; auto simp: env_get_char_rd rd_at env_name_def)+
  ultimately have step: "getenv_loop e name (length pre) =
      (if name = n then Some (Some (length pre + length n + 1)) else getenv_loop e name (length pre + length ?t + 1))"
    by (simp add: getenv_loop.simps [of _ _ "length pre"])
  show ?case
  proof (cases "name = n")
    case True
    have "env_array e = (pre @ n @ [CHR ''='']) @ v @ NUL # env_entries es @ NUL # post" using arr by simp
    moreover have "getenv_loop e name (length pre) = Some (Some (length (pre @ n @ [CHR ''=''])))"
      using step True by simp
    ultimately show ?thesis using True unfolding nv map_of.simps fst_conv snd_conv fun_upd_def
      by (simp only: if_True option.case refl) blast
  next
    case False
    then show ?thesis
      using Cons.IH [of "pre @ entry nv"] Cons.prems(2) ok step by (simp add: nv entry_def add.assoc split: option.splits)
  qed
qed

text \<open>An array in which \<open>getenv\<close> finds the entries.\<close>

definition env_holds :: "env \<Rightarrow> (string \<times> string) list \<Rightarrow> bool" where
  "env_holds e es \<longleftrightarrow> env_array_ok (env_array e) es \<and> length (env_array e) \<le> env_size e + 4"

lemma getenv_loop_found:
  assumes "env_holds e es" and "env_name name"
  shows "(case map_of es name of
       None \<Rightarrow> getenv_loop e name 0 = Some None
     | Some v \<Rightarrow> \<exists>a b. env_array e = a @ v @ NUL # b \<and> getenv_loop e name 0 = Some (Some (length a)))"
proof -
  obtain rest where "env_array e = [] @ env_entries es @ NUL # rest" "entries_ok es" "length (env_array e) \<le> env_size e + 4"
    using assms(1) by (auto simp: env_holds_def env_array_ok_def)
  from getenv_loop_entries [OF assms(2) this(3,2,1)] show ?thesis by (simp only: list.size)
qed

lemma entries_ok_value: "entries_ok es \<Longrightarrow> map_of es name = Some v \<Longrightarrow> NUL \<notin> set v"
  by (auto simp: entries_ok_def dest!: map_of_SomeD)

text \<open>The lookup as a function: the string \<open>getenv\<close> returns a pointer to.\<close>

definition env_lookup :: "env \<Rightarrow> string \<Rightarrow> string option option" where
  "env_lookup e name = map_option (map_option (\<lambda>(r, i). string_at (env_array e) i)) (getenv e name)"

lemma env_lookup_entries:
  assumes "env_holds e es" and "env_name name"
  shows "env_lookup e name = Some (map_of es name)"
proof (cases "map_of es name")
  case None
  then show ?thesis using getenv_loop_found [OF assms] by (simp add: env_lookup_def getenv_def)
next
  case (Some v)
  then obtain a b where ab: "env_array e = a @ v @ NUL # b" "getenv_loop e name 0 = Some (Some (length a))"
    using getenv_loop_found [OF assms] by auto
  have "entries_ok es" using assms(1) by (simp add: env_holds_def env_array_ok_def)
  then have "NUL \<notin> set v" using entries_ok_value Some by blast
  then show ?thesis using ab Some by (simp add: env_lookup_def getenv_def string_at_text)
qed

section \<open>Deleting and appending\<close>

lemma env_search_skip:
  assumes "env_name name"
  shows "entries_ok xs \<Longrightarrow> name \<notin> fst ` set xs \<Longrightarrow> env_array e = pre @ env_entries xs @ post \<Longrightarrow>
    env_search e name (length pre) = env_search e name (length (pre @ env_entries xs))"
proof (induction xs arbitrary: pre)
  case (Cons nv xs)
  obtain n v where nv: "nv = (n, v)" by (cases nv)
  have ok: "env_name n" "NUL \<notin> set v" "entries_ok xs" "name \<noteq> n" "name \<notin> fst ` set xs"
    using Cons.prems by (auto simp: nv entries_ok_Cons)
  let ?t = "n @ CHR ''='' # v"
  have arr: "env_array e = pre @ ?t @ NUL # env_entries xs @ post"
    using Cons.prems by (simp add: nv entry_def)
  have "nul_at (env_array e) (length pre) = Some (length pre + length ?t)"
    unfolding arr by (rule nul_at_text) (use ok in \<open>auto simp: env_name_def\<close>)
  moreover have "envmatch e (name @ [NUL]) (length pre) = Some None"
    using envmatch_entry [OF assms ok(1), of e pre v "env_entries xs @ post"] arr ok(4) by (simp add: entry_def)
  moreover have "rd (env_array e) (length pre) = Some (hd ?t)" "hd ?t \<noteq> NUL"
    using arr ok(1) by (cases n; auto simp: rd_at env_name_def)+
  ultimately have "env_search e name (length pre) = env_search e name (length (pre @ entry nv))"
    by (simp add: env_search.simps [of _ _ "length pre"] nv entry_def)
  then show ?case using Cons.IH [of "pre @ entry nv"] Cons.prems ok by simp
qed simp

lemma env_search_absent:
  assumes "env_name name" and "env_array_ok (env_array e) es" and "name \<notin> fst ` set es"
  shows "env_search e name 0 = Some None"
proof -
  obtain rest where d: "env_array e = [] @ env_entries es @ NUL # rest" and ok: "entries_ok es"
    using assms(2) by (auto simp: env_array_ok_def)
  have "env_search e name (length (env_entries es)) = Some None"
    using d by (simp add: env_search.simps [of _ _ "length (env_entries es)"] rd_at)
  then show ?thesis using env_search_skip [OF assms(1) ok assms(3) d] by simp
qed

lemma env_search_present:
  assumes "env_name name" and "env_array_ok (env_array e) (xs @ (name, v) # ys)"
  shows "env_search e name 0 =
    Some (Some (length (env_entries xs), length (env_entries xs) + length (entry (name, v)) - 1))"
proof -
  obtain rest where d: "env_array e = [] @ env_entries xs @ entry (name, v) @ env_entries ys @ NUL # rest"
      and ok: "entries_ok (xs @ (name, v) # ys)"
    using assms(2) by (auto simp: env_array_ok_def)
  have ok': "entries_ok xs" "name \<notin> fst ` set xs" "NUL \<notin> set v" using ok by (auto simp: entries_ok_def)
  let ?t = "name @ CHR ''='' # v" and ?i = "length (env_entries xs)"
  have arr: "env_array e = env_entries xs @ ?t @ NUL # env_entries ys @ NUL # rest" using d by (simp add: entry_def)
  have "nul_at (env_array e) ?i = Some (?i + length ?t)"
    unfolding arr by (rule nul_at_text) (use ok' assms(1) in \<open>auto simp: env_name_def\<close>)
  moreover have "envmatch e (name @ [NUL]) ?i = Some (Some (?i + length name + 1))"
    using envmatch_entry [OF assms(1) assms(1), of e "env_entries xs" v] d by simp
  moreover have "rd (env_array e) ?i = Some (hd ?t)" "hd ?t \<noteq> NUL"
    using arr assms(1) by (cases name; auto simp: rd_at env_name_def)+
  ultimately have "env_search e name ?i = Some (Some (?i, ?i + length (entry (name, v)) - 1))"
    by (simp add: env_search.simps [of _ _ "?i"] entry_def)
  then show ?thesis using env_search_skip [OF assms(1) ok'(1,2) d] by simp
qed

lemma entry_cons: "\<exists>a b s. entry nv = a # b # s"
proof -
  have "Suc (Suc 0) \<le> length (entry nv)" by (simp add: entry_def)
  then show ?thesis by (auto simp: Suc_le_length_iff)
qed

lemma env_delete_entry:
  assumes ok: "env_array_ok d (xs @ nv # ys)"
  shows "\<exists>d'. env_delete d (length (env_entries xs)) (length (env_entries xs) + length (entry nv) - 1) = Some d' \<and>
    env_array_ok d' (xs @ ys) \<and> length d' = length d"
proof -
  obtain rest where d: "d = env_entries xs @ entry nv @ env_entries ys @ NUL # rest"
      and eok: "entries_ok (xs @ nv # ys)"
    using ok by (auto simp: env_array_ok_def)
  have xy: "entries_ok (xs @ ys)" "entries_ok xs" "entries_ok ys" using eok by (auto simp: entries_ok_def)
  obtain a b s where e: "entry nv = a # b # s" using entry_cons by blast
  let ?i = "length (env_entries xs)"
  have nxt: "?i + length (entry nv) - 1 + 1 = ?i + length (entry nv)" by (simp add: e)
  show ?thesis
  proof (cases "ys = []")
    case True
    have r: "rd d (?i + length (entry nv)) = Some NUL"
      using rd_at [of "env_entries xs @ entry nv" "?i + length (entry nv)" NUL rest] by (simp add: d True)
    show ?thesis
    proof (cases "xs = []")
      case True
      then show ?thesis
        using r \<open>ys = []\<close> xy by (simp add: env_delete_def nxt d e wr_def env_array_ok_def entries_ok_def)
    next
      case False
      then obtain t where t: "env_entries xs = t @ [NUL]" using entries_single_nul xy by blast
      have "env_delete d ?i (?i + length (entry nv) - 1) = Some (env_entries xs @ NUL # b # s @ NUL # rest)"
        using r wr_at [of "env_entries xs" ?i a "b # s @ NUL # rest" NUL]
        by (simp add: env_delete_def nxt d e True t)
      then show ?thesis using xy True False by (auto simp: env_array_ok_def d e)
    qed
  next
    case False
    then obtain t where t: "env_entries ys = t @ [NUL]" "single_nul t" "t \<noteq> []" "hd t \<noteq> NUL"
      using entries_single_nul xy by blast
    obtain c t' where c: "t = c # t'" "c \<noteq> NUL" using t by (cases t) auto
    have r: "rd d (?i + length (entry nv)) = Some c"
      using rd_at [of "env_entries xs @ entry nv" "?i + length (entry nv)" c "t' @ NUL # NUL # rest"] by (simp add: d t c)
    obtain junk where j: "del_loop d ?i (?i + length (entry nv)) = Some (env_entries xs @ t @ NUL # junk, ?i + length t)"
        "length junk = length (entry nv) + 1 + length rest"
      using del_loop_text [of t "entry nv" "env_entries xs" rest] t e by (auto simp: d)
    obtain g junk' where g: "junk = g # junk'" using j(2) by (cases junk) auto
    have "env_delete d ?i (?i + length (entry nv) - 1) = Some (env_entries xs @ t @ NUL # NUL # junk')"
      using c(2) wr_at [of "env_entries xs @ t @ [NUL]" "?i + length t + 1" g junk' NUL]
      unfolding env_delete_def Let_def nxt r bind.bind_lunit j(1) g by simp
    then show ?thesis using xy j(2) by (auto simp: env_array_ok_def d t g False)
  qed
qed

text \<open>The value that the arguments make: the strings joined by spaces.\<close>

definition args_value :: "string list \<Rightarrow> string" where
  "args_value vals = tl (args_text CHR ''='' vals)"

lemma args_value_single [simp]: "args_value [v] = v"
  by (simp add: args_value_def)

lemma entry_args: "vals \<noteq> [] \<Longrightarrow> entry (name, args_value vals) = name @ args_text CHR ''='' vals @ [NUL]"
  by (cases vals) (simp_all add: entry_def args_value_def)

lemma args_value_nul: "\<forall>v\<in>set vals. NUL \<notin> set v \<Longrightarrow> NUL \<notin> set (args_value vals)"
proof -
  assume v: "\<forall>v\<in>set vals. NUL \<notin> set v"
  have "sep \<noteq> NUL \<Longrightarrow> NUL \<notin> set (args_text sep vals)" for sep
    using v by (induction vals arbitrary: sep) auto
  then have "NUL \<notin> set (args_text CHR ''='' vals)" by simp
  then show ?thesis unfolding args_value_def by (cases "args_text CHR ''='' vals") auto
qed

definition env_fits :: "nat \<Rightarrow> (string \<times> string) list \<Rightarrow> bool" where
  "env_fits sz es \<longleftrightarrow> length (env_entries es) + 1 \<le> sz"

lemma env_append_entry:
  assumes ok: "env_array_ok d es" and sz: "length d = sz" and new: "env_name name" "name \<notin> fst ` set es"
    and vals: "vals \<noteq> []" "\<forall>v\<in>set vals. NUL \<notin> set v"
  shows "if env_fits sz (es @ [(name, args_value vals)])
    then \<exists>d'. env_append sz d name vals = Some (Inr d') \<and> env_array_ok d' (es @ [(name, args_value vals)]) \<and> length d' = sz
    else env_append sz d name vals = Some (Inl ())"
proof -
  obtain rest where d: "d = env_entries es @ NUL # rest" "es = [] \<Longrightarrow> rest \<noteq> [] \<and> hd rest = NUL" and eok: "entries_ok es"
    using ok by (auto simp: env_array_ok_def)
  let ?i = "length (env_entries es)" and ?a = "args_text CHR ''='' vals"
  have tail: "\<exists>k. tail_loop d 0 = Some k \<and> (if 0 < k then k + 1 else k) = ?i"
  proof (cases "es = []")
    case True
    then obtain rest' where "d = NUL # NUL # rest'" using d by (cases rest) auto
    then show ?thesis using tail_loop_text [of "[]" "[]" rest'] True by simp
  next
    case False
    then obtain t where t: "env_entries es = t @ [NUL]" "single_nul t" "t \<noteq> []" using entries_single_nul eok by blast
    then show ?thesis using tail_loop_text [of t "[]" rest] d by simp
  qed
  have len: "length name + 2 + sum_list (map (\<lambda>v. length v + 1) vals) = length (entry (name, args_value vals)) + 1"
    by (simp only: entry_args [OF vals(1)] length_append length_args_text) simp
  have app: "env_append sz d name vals =
      (if int (length (entry (name, args_value vals)) + 1) > int sz - int ?i then Some (Inl ())
       else do {
         (d, env) \<leftarrow> copy_str d ?i name;
         (d, env) \<leftarrow> copy_args d env CHR ''='' vals;
         d \<leftarrow> wr d (env + 1) NUL;
         Some (Inr d) })"
    using tail by (auto simp only: env_append_def Let_def bind.bind_lunit len)
  show ?thesis
  proof (cases "env_fits sz (es @ [(name, args_value vals)])")
    case False
    then show ?thesis using app by (simp add: env_fits_def)
  next
    case True
    let ?junk = "drop (Suc (length name)) (NUL # rest)"
    have fit: "length name + length ?a + 2 \<le> length (NUL # rest)"
      using True sz by (simp add: env_fits_def d entry_args [OF vals(1)])
    then have 1: "copy_str d ?i name = Some ((env_entries es @ name) @ NUL # ?junk, length (env_entries es @ name))"
      using copy_str_text [of name "NUL # rest" "env_entries es"] by (simp add: d)
    have 2: "copy_args ((env_entries es @ name) @ NUL # ?junk) (length (env_entries es @ name)) CHR ''='' vals =
        Some ((env_entries es @ name) @ ?a @ NUL # drop (length ?a) ?junk, length (env_entries es @ name) + length ?a)"
      by (rule copy_args_text) (use fit in simp)
    obtain g junk where g: "drop (length ?a) ?junk = g # junk" using fit by (cases "drop (length ?a) ?junk") auto
    let ?d = "env_entries (es @ [(name, args_value vals)]) @ NUL # junk"
    have 3: "wr ((env_entries es @ name) @ ?a @ NUL # g # junk) (length (env_entries es @ name) + length ?a + 1) NUL = Some ?d"
      using wr_at [of "env_entries es @ name @ ?a @ [NUL]" _ g junk NUL]
      by (simp add: entry_args [OF vals(1)] add.assoc)
    have "env_append sz d name vals = Some (Inr ?d)"
    proof -
      have "\<not> int (length (entry (name, args_value vals)) + 1) > int sz - int ?i" using True by (simp add: env_fits_def)
      then show ?thesis using app unfolding 1 bind.bind_lunit prod.case 2 g 3 by (simp only: if_False)
    qed
    moreover have "env_array_ok ?d (es @ [(name, args_value vals)])"
      using eok new args_value_nul [OF vals(2)] by (auto simp: env_array_ok_def entries_ok_def)
    moreover have "length ?d = sz"
    proof -
      have "Suc (length junk) = length ?junk - length ?a" using g by (metis length_Cons length_drop)
      then show ?thesis using fit sz by (simp add: d entry_args [OF vals(1)])
    qed
    ultimately show ?thesis using True by auto
  qed
qed

section \<open>Setting a variable\<close>

text \<open>
  The environment after relocation holds the entries \<open>es\<close>; its checksum is that of its data.
\<close>

definition env_ok :: "env \<Rightarrow> (string \<times> string) list \<Rightarrow> bool" where
  "env_ok e es \<longleftrightarrow> env_valid e \<and> env_addr e = In_ram \<and> length (env_ptr_data e) = env_size e \<and>
     env_size e < 4294967296 \<and> env_array_ok (env_ptr_data e) es"

definition env_crc_ok :: "env \<Rightarrow> bool" where
  "env_crc_ok e \<longleftrightarrow> env_ptr_crc e = crc_ref 0 (map of_char (env_ptr_data e))"

lemma env_ok_array: "env_ok e es \<Longrightarrow> env_array e = env_ptr_data e"
  by (simp add: env_ok_def env_array_def env_get_addr_def)

lemma env_ok_store: "env_ok e es \<Longrightarrow> env_store e d = e\<lparr>env_ptr_data := d\<rparr>"
  by (simp add: env_ok_def env_store_def env_get_addr_def)

lemma env_ok_holds: "env_ok e es \<Longrightarrow> env_holds e es"
  using env_ok_array [of e es] by (simp add: env_holds_def env_ok_def)

lemma env_crc_update_ok:
  assumes "length (env_ptr_data e) = env_size e" and "env_size e < 4294967296"
  shows "env_crc_update e = Some (e\<lparr>env_ptr_crc := crc_ref 0 (map of_char (env_ptr_data e))\<rparr>)"
proof -
  have u: "unat (word_of_nat (env_size e) :: u32) = env_size e" using assms(2) by (simp add: unat_of_nat)
  show ?thesis using assms by (simp add: env_crc_update_def crc32_ref u)
qed

text \<open>The entries without those of a name, and with a new last one.\<close>

definition without :: "string \<Rightarrow> (string \<times> string) list \<Rightarrow> (string \<times> string) list" where
  "without name es = filter (\<lambda>nv. fst nv \<noteq> name) es"

lemma without_absent: "name \<notin> fst ` set es \<Longrightarrow> without name es = es"
  unfolding without_def by (induction es) auto

lemma without_present: "entries_ok (xs @ (name, v) # ys) \<Longrightarrow> without name (xs @ (name, v) # ys) = xs @ ys"
  using without_absent [of name xs] without_absent [of name ys] by (auto simp: entries_ok_def without_def)

lemma map_of_without: "map_of (without name es) = (map_of es)(name := None)"
  unfolding without_def by (induction es) auto

lemma map_of_set: "map_of (without name es @ [(name, v)]) = (map_of es)(name \<mapsto> v)"
  by (rule ext) (simp add: map_add_def map_of_without split: option.split)

lemma absent_without: "name \<notin> fst ` set (without name es)"
  by (auto simp: without_def)

text \<open>Names with no check before the old definition goes and no effect outside the environment.\<close>

definition plain_name :: "bool \<Rightarrow> string \<Rightarrow> bool" where
  "plain_name overwrite name \<longleftrightarrow> env_name name \<and>
     name \<notin> {''stdin'', ''stdout'', ''stderr'', ''baudrate'', ''ipaddr'', ''loadaddr''} \<and>
     (overwrite \<or> name \<notin> {''serial#'', ''ethaddr''})"

text \<open>The search and the deletion together.\<close>

lemma env_remove:
  assumes ok: "env_ok e es" and name: "env_name name"
  shows "\<exists>d. env_ok (e\<lparr>env_ptr_data := d\<rparr>) (without name es) \<and>
    (case env_search e name 0 of
       None \<Rightarrow> False
     | Some None \<Rightarrow> d = env_ptr_data e \<and> name \<notin> fst ` set es
     | Some (Some (env, nxt)) \<Rightarrow> env_delete (env_ptr_data e) env nxt = Some d)"
proof (cases "name \<in> fst ` set es")
  case False
  then show ?thesis
    using env_search_absent [OF name, of e es] ok without_absent [OF False] env_ok_array [OF ok]
    by (auto simp: env_ok_def)
next
  case True
  then obtain v where "(name, v) \<in> set es" by auto
  then obtain xs ys where es: "es = xs @ (name, v) # ys" by (auto dest: split_list)
  have d: "env_array_ok (env_ptr_data e) (xs @ (name, v) # ys)" using ok es by (simp add: env_ok_def)
  have w: "without name es = xs @ ys" using without_present d es by (simp add: env_array_ok_def)
  obtain d' where "env_delete (env_ptr_data e) (length (env_entries xs)) (length (env_entries xs) + length (entry (name, v)) - 1) = Some d'"
      "env_array_ok d' (xs @ ys)" "length d' = length (env_ptr_data e)"
    using env_delete_entry [OF d] by auto
  then show ?thesis
    using env_search_present [OF name, of e xs v ys] d ok env_ok_array [OF ok] by (auto simp: env_ok_def w)
qed

lemma strings_neq: "''serial#'' \<noteq> ''ethaddr''" "''stdin'' \<noteq> ''stdout''" by simp_all

lemma setenv_old_plain:
  "plain_name overwrite name \<Longrightarrow> setenv_old overwrite has_uid ca flag argv name e = Some (Inr e)"
  by (auto simp: setenv_old_def plain_name_def)

lemma setenv_effects_plain: "plain_name overwrite name \<Longrightarrow> setenv_effects argv name e = Some e"
  by (auto simp: setenv_effects_def plain_name_def)

text \<open>
  \<open>_do_setenv\<close> on a name, given what the checks and the effects do: \<open>f\<close> is the effect of the new value, and
  the checks change nothing but the baud rate and the console.
\<close>

lemma do_setenv_body_gen:
  assumes ok: "env_ok e es" and name: "env_name name" and vals: "\<forall>v\<in>set vals. NUL \<notin> set v"
    and old: "name \<in> fst ` set es \<Longrightarrow> setenv_old overwrite has_uid ca flag (Some cmd # Some name # map Some vals) name (e\<lparr>env_id := env_id e + 1\<rparr>) =
      Some (Inr (e\<lparr>env_id := env_id e + 1, gd_baudrate := b, con_in := cs\<rparr>))"
    and new: "name \<notin> fst ` set es \<Longrightarrow> b = gd_baudrate e \<and> cs = con_in e"
    and eff: "\<And>e'. vals \<noteq> [] \<Longrightarrow> bi_ip_addr e' = bi_ip_addr e \<Longrightarrow> load_addr e' = load_addr e \<Longrightarrow>
      setenv_effects (Some cmd # Some name # map Some vals) name e' = Some (e'\<lparr>bi_ip_addr := i, load_addr := a\<rparr>)"
  shows "\<exists>d c. let r = do_setenv_body overwrite has_uid ca flag (Some cmd # Some name # map Some vals) e;
      e' = e\<lparr>env_id := env_id e + 1, env_ptr_data := d, env_ptr_crc := c, gd_baudrate := b, con_in := cs\<rparr>;
      es' = without name es @ [(name, args_value vals)] in
    if vals = [] then r = Some (0, e') \<and> env_ok e' (without name es) \<and> env_crc_ok e'
    else if env_fits (env_size e) es'
    then r = Some (0, e'\<lparr>bi_ip_addr := i, load_addr := a\<rparr>) \<and> env_ok e' es' \<and> env_crc_ok e'
    else r = Some (1, e') \<and> env_ok e' (without name es) \<and> c = env_ptr_crc e"
proof -
  let ?argv = "Some cmd # Some name # map Some vals" and ?e = "e\<lparr>env_id := env_id e + 1\<rparr>"
  let ?g = "\<lambda>e. e\<lparr>gd_baudrate := b, con_in := cs\<rparr>"
  have en: "env_name name" "CHR ''='' \<notin> set name" using name by (simp_all add: env_name_def)
  have ok1: "env_ok ?e es" using ok by (simp add: env_ok_def)
  then have ok2: "env_ok (?g ?e) es" by (simp add: env_ok_def)
  obtain d where d: "env_ok (?e\<lparr>env_ptr_data := d\<rparr>) (without name es)"
      and s: "case env_search ?e name 0 of
       None \<Rightarrow> False
     | Some None \<Rightarrow> d = env_ptr_data ?e \<and> name \<notin> fst ` set es
     | Some (Some (env, nxt)) \<Rightarrow> env_delete (env_ptr_data ?e) env nxt = Some d"
    using env_remove [OF ok1 en(1)] by auto
  let ?e1 = "?g (?e\<lparr>env_ptr_data := d\<rparr>)"
  have found: "name \<in> fst ` set es" if "env_search ?e name 0 = Some (Some x)" for x
    using env_search_absent [OF en(1), of ?e es] ok1 env_ok_array [OF ok1] that by (auto simp: env_ok_def)
  have "\<exists>old. env_search ?e name 0 = Some old \<and> (case old of
           None \<Rightarrow> Some (Inr ?e)
         | Some (env, nxt) \<Rightarrow> do {
             r \<leftarrow> setenv_old overwrite has_uid ca flag ?argv name ?e;
             (case r of
                Inl x \<Rightarrow> Some (Inl x)
              | Inr e \<Rightarrow> do { d \<leftarrow> env_delete (env_array e) env nxt; Some (Inr (env_store e d)) }) }) =
        Some (Inr ?e1 :: int \<times> env + env)"
  proof (cases "env_search ?e name 0")
    case None
    then show ?thesis using s by simp
  next
    case (Some old)
    show ?thesis
    proof (cases old)
      case None
      then have "b = gd_baudrate e" "cs = con_in e" "d = env_ptr_data e" using s Some new by simp_all
      then show ?thesis using None Some by simp
    next
      case (Some x)
      then show ?thesis
        using s \<open>env_search ?e name 0 = Some old\<close> found [of x] old env_ok_array [OF ok2] env_ok_store [OF ok2] by (cases x) auto
    qed
  qed
  then obtain old where old: "env_search ?e name 0 = Some old" "(case old of
           None \<Rightarrow> Some (Inr ?e)
         | Some (env, nxt) \<Rightarrow> do {
             r \<leftarrow> setenv_old overwrite has_uid ca flag ?argv name ?e;
             (case r of
                Inl x \<Rightarrow> Some (Inl x)
              | Inr e \<Rightarrow> do { d \<leftarrow> env_delete (env_array e) env nxt; Some (Inr (env_store e d)) }) }) =
        Some (Inr ?e1 :: int \<times> env + env)" by blast
  have d1: "env_ok ?e1 (without name es)" using d by (simp add: env_ok_def)
  let ?es' = "without name es @ [(name, args_value vals)]"
  have body: "do_setenv_body overwrite has_uid ca flag ?argv e =
      (if vals = [] then do { e \<leftarrow> env_crc_update ?e1; Some (0, e) }
       else do {
         a \<leftarrow> env_append (env_size ?e1) (env_array ?e1) name vals;
         (case a of
            Inl _ \<Rightarrow> Some (1, ?e1)
          | Inr d \<Rightarrow> do {
              e \<leftarrow> env_crc_update (env_store ?e1 d);
              e \<leftarrow> setenv_effects ?argv name e;
              Some (0, e) }) })"
  proof -
    have a1: "arg ?argv 1 = Some name" by (simp add: arg_def)
    have a2: "(length ?argv < 3 \<or> ?argv ! 2 = None) = (vals = [])" by (cases vals) simp_all
    have a3: "map the (drop 2 ?argv) = vals" "None \<notin> set (drop 2 ?argv)" by (simp_all add: comp_def)
    show ?thesis
      unfolding do_setenv_body_def a1 bind.bind_lunit Let_def old sum.case a2 a3(1)
      using en(2) a3(2) by (simp only: if_False)
  qed
  have crc: "env_ok (?g (?e\<lparr>env_ptr_data := d'\<rparr>)) fs \<Longrightarrow>
      env_crc_update (?g (?e\<lparr>env_ptr_data := d'\<rparr>)) =
        Some (?g (e\<lparr>env_id := env_id e + 1, env_ptr_data := d', env_ptr_crc := crc_ref 0 (map of_char d')\<rparr>)) \<and>
      env_ok (?g (e\<lparr>env_id := env_id e + 1, env_ptr_data := d', env_ptr_crc := crc_ref 0 (map of_char d')\<rparr>)) fs" for d' fs
    by (subst env_crc_update_ok) (simp_all add: env_ok_def)
  have arr: "env_array ?e1 = d" "env_store ?e1 d' = ?g (?e\<lparr>env_ptr_data := d'\<rparr>)" for d'
    using env_ok_array [OF d1] env_ok_store [OF d1] by simp_all
  show ?thesis
  proof (cases "vals = []")
    case True
    show ?thesis
      by (rule exI [of _ d], rule exI [of _ "crc_ref 0 (map of_char d)"])
        (use crc [of d "without name es"] d1 in \<open>simp add: Let_def body [unfolded True list.map] True env_crc_ok_def\<close>)
  next
    case False
    have ap: "if env_fits (env_size e) ?es'
        then \<exists>d'. env_append (env_size e) d name vals = Some (Inr d') \<and> env_array_ok d' ?es' \<and> length d' = env_size e
        else env_append (env_size e) d name vals = Some (Inl ())"
      by (rule env_append_entry) (use d en False vals absent_without in \<open>simp_all add: env_ok_def\<close>)
    show ?thesis
    proof (cases "env_fits (env_size e) ?es'")
      case True
      then obtain d' where d': "env_append (env_size e) d name vals = Some (Inr d')" "env_array_ok d' ?es'" "length d' = env_size e"
        using ap by auto
      have "env_ok (?g (?e\<lparr>env_ptr_data := d'\<rparr>)) ?es'" using d1 d' by (simp add: env_ok_def)
      from crc [OF this] show ?thesis
        by (intro exI [of _ d'] exI [of _ "crc_ref 0 (map of_char d')"])
          (use False True in \<open>simp add: Let_def body arr d' eff [OF False] env_crc_ok_def\<close>)
    next
      case nofit: False
      then show ?thesis
        by (intro exI [of _ d] exI [of _ "env_ptr_crc e"]) (use False d1 ap in \<open>simp add: Let_def body arr env_ok_def\<close>)
    qed
  qed
qed

text \<open>
  \<open>_do_setenv\<close> on a plain name: the old definition is gone; the new one is there when it fits, and the
  checksum is that of the data unless it did not fit.
\<close>

lemma do_setenv_body_ok:
  assumes ok: "env_ok e es" and name: "plain_name overwrite name" and vals: "\<forall>v\<in>set vals. NUL \<notin> set v"
  shows "\<exists>d c. let r = do_setenv_body overwrite has_uid ca flag (Some cmd # Some name # map Some vals) e;
      e' = e\<lparr>env_id := env_id e + 1, env_ptr_data := d, env_ptr_crc := c\<rparr>;
      es' = without name es @ [(name, args_value vals)] in
    if vals = [] then r = Some (0, e') \<and> env_ok e' (without name es) \<and> env_crc_ok e'
    else if env_fits (env_size e) es' then r = Some (0, e') \<and> env_ok e' es' \<and> env_crc_ok e'
    else r = Some (1, e') \<and> env_ok e' (without name es) \<and> c = env_ptr_crc e"
proof -
  have "env_name name" using name by (simp add: plain_name_def)
  from do_setenv_body_gen [OF ok this vals, where b = "gd_baudrate e" and cs = "con_in e" and i = "bi_ip_addr e" and a = "load_addr e",
      of overwrite has_uid ca flag cmd]
  obtain d c where "let r = do_setenv_body overwrite has_uid ca flag (Some cmd # Some name # map Some vals) e;
      e' = e\<lparr>env_id := env_id e + 1, env_ptr_data := d, env_ptr_crc := c, gd_baudrate := gd_baudrate e, con_in := con_in e\<rparr>;
      es' = without name es @ [(name, args_value vals)] in
    if vals = [] then r = Some (0, e') \<and> env_ok e' (without name es) \<and> env_crc_ok e'
    else if env_fits (env_size e) es'
    then r = Some (0, e'\<lparr>bi_ip_addr := bi_ip_addr e, load_addr := load_addr e\<rparr>) \<and> env_ok e' es' \<and> env_crc_ok e'
    else r = Some (1, e') \<and> env_ok e' (without name es) \<and> c = env_ptr_crc e"
    by (auto simp: setenv_old_plain [OF name] setenv_effects_plain [OF name])
  then show ?thesis by (intro exI [of _ d] exI [of _ c]) (cases "vals = []", auto simp: Let_def split: if_splits)
qed

text \<open>
  The names that \<open>_do_setenv\<close> treats specially.  When they are defined, \<open>ethaddr\<close> and \<open>serial#\<close> are kept unless
  the configuration allows to overwrite them, the console is only given to a device, and the baud rate
  must be one of the table.
\<close>

definition setenv_refused :: "bool \<Rightarrow> bool \<Rightarrow> (nat \<Rightarrow> string \<Rightarrow> bool) \<Rightarrow> u32 \<Rightarrow> string \<Rightarrow> string list \<Rightarrow> bool" where
  "setenv_refused overwrite has_uid ca flag name vals \<longleftrightarrow>
     \<not> overwrite \<and> (name = ''ethaddr'' \<or> name = ''serial#'' \<and> \<not> (has_uid \<and> flag = 0xdeaf4add)) \<or>
     (\<exists>f. (name, f) \<in> {(''stdin'', 0), (''stdout'', 1), (''stderr'', 2)} \<and> (vals = [] \<or> \<not> ca f (hd vals))) \<or>
     name = ''baudrate'' \<and> vals \<noteq> [] \<and> word_of_nat (numeral_of 10 (hd vals)) \<notin> {9600, 19200, 38400, 57600, 115200 :: u32}"

text \<open>A new baud rate needs a value, and a carriage return from the console.\<close>

definition baud_waits :: "string \<Rightarrow> string list \<Rightarrow> string \<Rightarrow> bool" where
  "baud_waits name vals cs \<longleftrightarrow> name = ''baudrate'' \<and> (vals = [] \<or> CHR 0x0D \<notin> set cs)"

lemma wait_cr_eq: "wait_cr cs = (if CHR 0x0D \<in> set cs then Some (tl (dropWhile (\<lambda>c. c \<noteq> CHR 0x0D) cs)) else None)"
  by (induction cs) auto

lemma arg_second: "arg (Some cmd # Some name # map Some vals) 2 = (if vals = [] then None else Some (hd vals))"
  by (cases vals) (simp_all add: arg_def rd_def)

lemma setenv_old_cases:
  "setenv_old overwrite has_uid ca flag (Some cmd # Some name # map Some vals) name e =
    (if setenv_refused overwrite has_uid ca flag name vals then Some (Inl (1, e))
     else if baud_waits name vals (con_in e) then None
     else Some (Inr (if name = ''baudrate''
       then e\<lparr>gd_baudrate := sint (word_of_nat (numeral_of 10 (hd vals)) :: u32), con_in := tl (dropWhile (\<lambda>c. c \<noteq> CHR 0x0D) (con_in e))\<rparr>
       else e)))"
proof (cases "name = ''baudrate''")
  case True
  obtain t where "simple_strtoul (hd vals @ [NUL]) 10 = Some (word_of_nat (numeral_of 10 (hd vals)), t)"
    using simple_strtoul_numeral [of 10 "hd vals" "[]"] by auto
  then show ?thesis
    using True by (auto simp: setenv_old_def setenv_refused_def baud_waits_def arg_second wait_cr_eq baudrate_table_def)
next
  case b: False
  have l: "length (Some cmd # Some name # map Some vals) < 3 \<longleftrightarrow> vals = []" by (cases vals) simp_all
  consider "name = ''stdin''" | "name = ''stdout''" | "name = ''stderr''" | "name \<notin> {''stdin'', ''stdout'', ''stderr''}" by blast
  then show ?thesis
    unfolding setenv_old_def arg_second l Let_def setenv_refused_def baud_waits_def
    by cases (use b in simp_all)
qed

lemma ip_loop_some: "\<exists>i. ip_loop n (s @ [NUL]) a = Some i"
proof (induction n arbitrary: s a)
  case (Suc n)
  obtain y t where y: "simple_strtoul (s @ [NUL]) 10 = Some (y, t @ [NUL])" using simple_strtoul_nul [of s "[]" 10] by auto
  show ?case
  proof (cases t)
    case Nil
    then show ?thesis using y Suc.IH [of "[]"] by simp
  next
    case (Cons c u)
    then show ?thesis using y Suc.IH [of u] Suc.IH [of t] by (cases "c = NUL") simp_all
  qed
qed simp

lemma setenv_effects_value:
  "\<exists>i. (name \<noteq> ''ipaddr'' \<longrightarrow> i = bi_ip_addr e) \<and>
    (\<forall>e'. vals \<noteq> [] \<longrightarrow> bi_ip_addr e' = bi_ip_addr e \<longrightarrow> load_addr e' = load_addr e \<longrightarrow>
      setenv_effects (Some cmd # Some name # map Some vals) name e' =
        Some (e'\<lparr>bi_ip_addr := i, load_addr := (if name = ''loadaddr'' then word_of_nat (numeral_of 16 (hd vals)) else load_addr e)\<rparr>))"
proof (cases "name = ''ipaddr''")
  case True
  obtain i where "ip_loop 4 (hd vals @ [NUL]) 0 = Some i" using ip_loop_some by blast
  then show ?thesis using True by (intro exI [of _ "htonl i"]) (simp add: setenv_effects_def arg_second)
next
  case False
  obtain t where "simple_strtoul (hd vals @ [NUL]) 16 = Some (word_of_nat (numeral_of 16 (hd vals)), t)"
    using simple_strtoul_numeral [of 16 "hd vals" "[]"] by auto
  then show ?thesis using False by (intro exI [of _ "bi_ip_addr e"]) (auto simp: setenv_effects_def arg_second)
qed

lemma do_setenv_body_full:
  assumes ok: "env_ok e es" and name: "env_name name" and vals: "\<forall>v\<in>set vals. NUL \<notin> set v"
    and "name \<in> fst ` set es \<Longrightarrow> \<not> setenv_refused overwrite has_uid ca flag name vals \<and> \<not> baud_waits name vals (con_in e)"
  shows "\<exists>d c i. let r = do_setenv_body overwrite has_uid ca flag (Some cmd # Some name # map Some vals) e;
      baud = (name = ''baudrate'' \<and> name \<in> fst ` set es);
      e' = e\<lparr>env_id := env_id e + 1, env_ptr_data := d, env_ptr_crc := c,
        gd_baudrate := if baud then sint (word_of_nat (numeral_of 10 (hd vals)) :: u32) else gd_baudrate e,
        con_in := if baud then tl (dropWhile (\<lambda>c. c \<noteq> CHR 0x0D) (con_in e)) else con_in e\<rparr>;
      es' = without name es @ [(name, args_value vals)] in
    if vals = [] then r = Some (0, e') \<and> env_ok e' (without name es) \<and> env_crc_ok e'
    else if env_fits (env_size e) es'
    then r = Some (0, e'\<lparr>bi_ip_addr := i, load_addr := if name = ''loadaddr'' then word_of_nat (numeral_of 16 (hd vals)) else load_addr e\<rparr>) \<and>
      (name \<noteq> ''ipaddr'' \<longrightarrow> i = bi_ip_addr e) \<and> env_ok e' es' \<and> env_crc_ok e'
    else r = Some (1, e') \<and> env_ok e' (without name es) \<and> c = env_ptr_crc e"
proof -
  let ?argv = "Some cmd # Some name # map Some vals" and ?baud = "name = ''baudrate'' \<and> name \<in> fst ` set es"
  obtain i where i: "name \<noteq> ''ipaddr'' \<Longrightarrow> i = bi_ip_addr e" "\<And>e'. vals \<noteq> [] \<Longrightarrow> bi_ip_addr e' = bi_ip_addr e \<Longrightarrow> load_addr e' = load_addr e \<Longrightarrow>
      setenv_effects ?argv name e' =
        Some (e'\<lparr>bi_ip_addr := i, load_addr := (if name = ''loadaddr'' then word_of_nat (numeral_of 16 (hd vals)) else load_addr e)\<rparr>)"
    using setenv_effects_value [of name e vals cmd] by blast
  have old: "setenv_old overwrite has_uid ca flag ?argv name (e\<lparr>env_id := env_id e + 1\<rparr>) =
      Some (Inr (e\<lparr>env_id := env_id e + 1,
        gd_baudrate := if ?baud then sint (word_of_nat (numeral_of 10 (hd vals)) :: u32) else gd_baudrate e,
        con_in := if ?baud then tl (dropWhile (\<lambda>c. c \<noteq> CHR 0x0D) (con_in e)) else con_in e\<rparr>))"
    if "name \<in> fst ` set es"
    using assms(4) [OF that] that by (simp add: setenv_old_cases)
  have new: "(if ?baud then sint (word_of_nat (numeral_of 10 (hd vals)) :: u32) else gd_baudrate e) = gd_baudrate e \<and>
      (if ?baud then tl (dropWhile (\<lambda>c. c \<noteq> CHR 0x0D) (con_in e)) else con_in e) = con_in e"
    if "name \<notin> fst ` set es" using that by simp
  obtain d c where dc: "let r = do_setenv_body overwrite has_uid ca flag ?argv e;
      e' = e\<lparr>env_id := env_id e + 1, env_ptr_data := d, env_ptr_crc := c,
        gd_baudrate := if ?baud then sint (word_of_nat (numeral_of 10 (hd vals)) :: u32) else gd_baudrate e,
        con_in := if ?baud then tl (dropWhile (\<lambda>c. c \<noteq> CHR 0x0D) (con_in e)) else con_in e\<rparr>;
      es' = without name es @ [(name, args_value vals)] in
    if vals = [] then r = Some (0, e') \<and> env_ok e' (without name es) \<and> env_crc_ok e'
    else if env_fits (env_size e) es'
    then r = Some (0, e'\<lparr>bi_ip_addr := i, load_addr := if name = ''loadaddr'' then word_of_nat (numeral_of 16 (hd vals)) else load_addr e\<rparr>) \<and>
      env_ok e' es' \<and> env_crc_ok e'
    else r = Some (1, e') \<and> env_ok e' (without name es) \<and> c = env_ptr_crc e"
    using do_setenv_body_gen [OF ok name vals old new i(2)] by blast
  show ?thesis
    by (rule exI [of _ d], rule exI [of _ c], rule exI [of _ i]) (use dc i(1) in \<open>unfold Let_def, presburger\<close>)
qed

text \<open>What is refused, and what never returns: a missing value is read at address 0.\<close>

lemma do_setenv_body_stops:
  assumes ok: "env_ok e es" and name: "env_name name" and "name \<in> fst ` set es"
  shows "setenv_refused overwrite has_uid ca flag name vals \<Longrightarrow>
      do_setenv_body overwrite has_uid ca flag (Some cmd # Some name # map Some vals) e = Some (1, e\<lparr>env_id := env_id e + 1\<rparr>)"
    and "\<not> setenv_refused overwrite has_uid ca flag name vals \<Longrightarrow> baud_waits name vals (con_in e) \<Longrightarrow>
      do_setenv_body overwrite has_uid ca flag (Some cmd # Some name # map Some vals) e = None"
proof -
  let ?argv = "Some cmd # Some name # map Some vals" and ?e = "e\<lparr>env_id := env_id e + 1\<rparr>"
  have ok1: "env_ok ?e es" using ok by (simp add: env_ok_def)
  obtain v where "(name, v) \<in> set es" using assms(3) by auto
  then obtain xs ys where "es = xs @ (name, v) # ys" by (auto dest: split_list)
  then obtain x where x: "env_search ?e name 0 = Some (Some x)"
    using env_search_present [OF name, of ?e xs v ys] ok1 env_ok_array [OF ok1] by (auto simp: env_ok_def)
  have a: "arg ?argv 1 = Some name" "CHR ''='' \<notin> set name" using name by (simp_all add: arg_def env_name_def)
  show "setenv_refused overwrite has_uid ca flag name vals \<Longrightarrow>
      do_setenv_body overwrite has_uid ca flag ?argv e = Some (1, ?e)"
    unfolding do_setenv_body_def a(1) bind.bind_lunit Let_def x using a(2) by (cases x) (simp add: setenv_old_cases)
  show "\<not> setenv_refused overwrite has_uid ca flag name vals \<Longrightarrow> baud_waits name vals (con_in e) \<Longrightarrow>
      do_setenv_body overwrite has_uid ca flag ?argv e = None"
    unfolding do_setenv_body_def a(1) bind.bind_lunit Let_def x using a(2) by (cases x) (simp add: setenv_old_cases)
qed

text \<open>The names that are never refused.\<close>

definition free_name :: "bool \<Rightarrow> string \<Rightarrow> bool" where
  "free_name overwrite name \<longleftrightarrow> env_name name \<and> name \<notin> {''stdin'', ''stdout'', ''stderr'', ''baudrate''} \<and>
     (overwrite \<or> name \<notin> {''serial#'', ''ethaddr''})"

lemma free_name_accepted:
  "free_name overwrite name \<Longrightarrow> env_name name \<and> \<not> setenv_refused overwrite has_uid ca flag name vals \<and> \<not> baud_waits name vals cs"
  by (auto simp: free_name_def setenv_refused_def baud_waits_def)

lemma setenv_free:
  assumes "env_ok e es" and "env_crc_ok e" and "free_name overwrite name" and "NUL \<notin> set v"
  shows "env_fits (env_size e) (without name es @ [(name, v)]) \<Longrightarrow>
    \<exists>e'. setenv overwrite has_uid ca name (Some v) e = Some (0, e') \<and> env_ok e' (without name es @ [(name, v)]) \<and>
      env_crc_ok e' \<and> env_size e' = env_size e"
proof -
  have v: "\<forall>w\<in>set [v]. NUL \<notin> set w" using assms(4) by simp
  have n: "env_name name" "\<not> setenv_refused overwrite has_uid ca 0 name [v]" "\<not> baud_waits name [v] (con_in e)"
    using free_name_accepted [OF assms(3)] by blast+
  have crc: "env_crc_ok (e\<lparr>bi_ip_addr := i\<rparr>) = env_crc_ok e" "env_ok (e\<lparr>bi_ip_addr := i\<rparr>) fs = env_ok e fs"
    "env_crc_ok (e\<lparr>load_addr := a\<rparr>) = env_crc_ok e" "env_ok (e\<lparr>load_addr := a\<rparr>) fs = env_ok e fs" for e i a fs
    by (simp_all add: env_crc_ok_def env_ok_def)
  assume "env_fits (env_size e) (without name es @ [(name, v)])"
  then show ?thesis
    using do_setenv_body_full [OF assms(1) n(1) v, of overwrite has_uid ca 0 "''setenv''"] n(2,3)
    by (auto simp: setenv_def Let_def crc)
qed

text \<open>
  \<open>askenv name\<close>: what was typed becomes the value, an empty line deletes the variable.
\<close>

lemma do_askenv_ok:
  assumes "env_ok e es" and "plain_name overwrite name" and "length name < 200" and "NUL \<notin> set line" and "length line < 255"
    and r: "readline (''Please enter '' @ [CHR 0x27] @ name @ [CHR 0x27] @ '':'') = (int (length line), line @ NUL # rest)"
    and fits: "env_fits (env_size e) (without name es @ [(name, line)])"
  shows "\<exists>e'. do_askenv overwrite has_uid ca flag readline [cmd, name] e = Some (0, e') \<and>
    env_ok e' (if line = [] then without name es else without name es @ [(name, line)]) \<and> env_crc_ok e'"
proof -
  let ?vals = "if line = [] then [] else [line]"
  have a: "askenv_args [cmd, name] = Some (''Please enter '' @ [CHR 0x27] @ name @ [CHR 0x27] @ '':'', 255)"
    using assms(3) by (simp add: askenv_args_def)
  have h: "rd (line @ NUL # rest) 0 = Some (if line = [] then NUL else hd line)" "takeWhile (\<lambda>c. c \<noteq> NUL) (line @ NUL # rest) = line"
    using string_at_text [OF assms(4), of "[]" 0 rest] by (cases line; simp add: rd_def string_at_def)+
  have n: "line \<noteq> [] \<longrightarrow> hd line \<noteq> NUL" using assms(4) by (cases line) auto
  have "do_askenv overwrite has_uid ca flag readline [cmd, name] e =
      do_setenv_body overwrite has_uid ca flag (Some cmd # Some name # map Some ?vals) e"
    using r h n assms(5) by (simp add: do_askenv_def a)
  moreover have "\<forall>v\<in>set ?vals. NUL \<notin> set v" using assms(4) by simp
  ultimately show ?thesis
    using do_setenv_body_ok [OF assms(1,2), of ?vals has_uid ca flag cmd] fits by (cases "line = []") (auto simp: Let_def)
qed

text \<open>\<open>setenv baudrate\<close> without a value reads the number at \<open>NULL\<close>.\<close>

lemma setenv_baudrate_delete:
  assumes ok: "env_ok e es" and "''baudrate'' \<in> fst ` set es"
  shows "do_setenv overwrite has_uid ca flag [cmd, ''baudrate''] e = None"
proof -
  let ?e = "e\<lparr>env_id := env_id e + 1\<rparr>"
  have ok1: "env_ok ?e es" using ok by (simp add: env_ok_def)
  have n: "env_name ''baudrate''" by (simp add: env_name_def)
  obtain v where "(''baudrate'', v) \<in> set es" using assms(2) by auto
  then obtain xs ys where es: "es = xs @ (''baudrate'', v) # ys" by (auto dest: split_list)
  have "env_array_ok (env_array ?e) (xs @ (''baudrate'', v) # ys)" using ok1 env_ok_array [OF ok1] es by (simp add: env_ok_def)
  note s = env_search_present [OF n this]
  have a: "arg [Some cmd, Some ''baudrate''] 1 = Some ''baudrate''" "arg [Some cmd, Some ''baudrate''] 2 = None"
    by (simp_all add: arg_def rd_def)
  have "setenv_old overwrite has_uid ca flag [Some cmd, Some ''baudrate''] ''baudrate'' ?e = None"
    by (simp add: setenv_old_def a(2))
  then show ?thesis
    unfolding do_setenv_def do_setenv_body_def Let_def list.map a bind.bind_lunit s by simp
qed

section \<open>Copying a value out\<close>

lemma getenv_r_copy_text:
  "NUL \<notin> set s \<Longrightarrow> env_array e = pre @ s @ NUL # post \<Longrightarrow> length out + length old = len \<Longrightarrow>
   getenv_r_copy e (length pre) len (length out) (out @ old) (length out) =
     (if length s < length old
      then Some (length out + length s + 1, out @ s @ NUL # drop (Suc (length s)) old, length out + length s + 1)
      else Some (len + 1, out @ take (length old) s, len))"
proof (induction s arbitrary: pre out old)
  case Nil
  then show ?case
    by (cases old; subst getenv_r_copy.simps) (simp_all add: env_get_char_rd rd_at wr_at)
next
  case (Cons c s)
  show ?case
  proof (cases old)
    case Nil
    then show ?thesis using Cons.prems by (subst getenv_r_copy.simps) simp
  next
    case (Cons x old')
    have "getenv_r_copy e (length pre) len (length out) (out @ old) (length out) =
        getenv_r_copy e (length (pre @ [c])) len (length (out @ [c])) ((out @ [c]) @ old') (length (out @ [c]))"
      using Cons.prems Cons by (subst getenv_r_copy.simps) (auto simp: env_get_char_rd rd_at wr_at)
    then show ?thesis
      using Cons.IH [of "pre @ [c]" "out @ [c]" old'] Cons.prems by (simp add: Cons)
  qed
qed

text \<open>
  What \<open>getenv_r\<close> does with a buffer of the length it is told: when the value and its NUL just fit, it
  writes a NUL behind the buffer; a longer value is cut without a NUL.
\<close>

lemma getenv_r_entries:
  assumes "env_holds e es" and "env_name name"
  shows "getenv_r e name buf (length buf) =
    (case map_of es name of
       None \<Rightarrow> Some (- 1, buf)
     | Some v \<Rightarrow>
         if length v + 1 < length buf then Some (int (length v + 1), v @ NUL # drop (length v + 1) buf)
         else if length v + 1 = length buf then None
         else Some (int (length buf) + 1, take (length buf) v))"
proof (cases "map_of es name")
  case None
  then show ?thesis using getenv_loop_found [OF assms] by (simp add: getenv_r_def)
next
  case (Some v)
  then obtain a b where ab: "env_array e = a @ v @ NUL # b" "getenv_loop e name 0 = Some (Some (length a))"
    using getenv_loop_found [OF assms] by auto
  have v: "NUL \<notin> set v" using assms(1) entries_ok_value Some by (auto simp: env_holds_def env_array_ok_def)
  have c: "getenv_r_copy e (length a) (length buf) 0 buf 0 =
      (if length v < length buf then Some (length v + 1, v @ NUL # drop (Suc (length v)) buf, length v + 1)
       else Some (length buf + 1, take (length buf) v, length buf))"
    using getenv_r_copy_text [OF v ab(1), of "[]" buf "length buf"] by simp
  show ?thesis
    using Some by (auto simp: getenv_r_def ab(2) c wr_def)
qed

section \<open>Printing the entries\<close>

definition env_line :: "string \<times> string \<Rightarrow> string" where
  "env_line nv = fst nv @ CHR ''='' # snd nv @ [CHR 0x0A]"

definition buf_ok :: "string \<Rightarrow> bool" where
  "buf_ok buf \<longleftrightarrow> length buf = 17 \<and> buf ! 16 = NUL"

lemma puts_text_full: "buf_ok buf \<Longrightarrow> take 16 buf = s \<Longrightarrow> NUL \<notin> set s \<Longrightarrow> puts_text buf = s"
proof -
  assume b: "buf_ok buf" "take 16 buf = s" "NUL \<notin> set s"
  have "buf = take 16 buf @ drop 16 buf" by simp
  moreover have "drop 16 buf = [NUL]" using b(1) by (simp add: buf_ok_def list_eq_iff_nth_eq)
  ultimately show ?thesis using b(2,3) by (metis puts_text_def takeWhile_tail takeWhile.simps(1) string_at_def string_at_text append_Nil drop0 list.size(3))
qed

lemma puts_text_stop: "take n buf = s \<Longrightarrow> NUL \<notin> set s \<Longrightarrow> n < length buf \<Longrightarrow> buf ! n = NUL \<Longrightarrow> puts_text buf = s"
  using string_at_text [of s "[]" 0 "drop (Suc n) buf"] id_take_nth_drop [of n buf]
  by (simp add: string_at_def puts_text_def)

lemma printenv_entry_text:
  "NUL \<notin> set s \<Longrightarrow> env_array e = pre @ s @ NUL # post \<Longrightarrow> buf_ok buf \<Longrightarrow> j < 16 \<Longrightarrow> NUL \<notin> set (take j buf) \<Longrightarrow>
   \<exists>j' buf' out'. printenv_entry e state (length pre) j buf out = Some (length pre + length s + 1, j', buf', out') \<and>
     buf_ok buf' \<and>
     (if state \<le> 1 then out' @ (if j' \<noteq> 0 then puts_text buf' else []) = out @ take j buf @ s else out' = out)"
proof (induction s arbitrary: pre j buf out)
  case Nil
  have b: "buf_ok (buf[j := NUL])" and p: "puts_text (buf[j := NUL]) = take j buf"
    using Nil puts_text_stop [of j "buf[j := NUL]" "take j buf"] by (auto simp: buf_ok_def)
  show ?case
    using Nil b p by (subst printenv_entry.simps) (auto simp: env_get_char_rd rd_at buf_ok_def)
next
  case (Cons c s)
  have c: "c \<noteq> NUL" "NUL \<notin> set s" using Cons.prems by auto
  let ?b = "buf[j := c]"
  have b: "buf_ok ?b" "j < length buf" using Cons.prems by (auto simp: buf_ok_def)
  have t: "take (Suc j) ?b = take j buf @ [c]" by (rule take_update_last [OF b(2)])
  show ?case
  proof (cases "j + 1 = 16")
    case True
    have f: "puts_text ?b = take j buf @ [c]"
      by (rule puts_text_full [OF b(1)]) (use t True c Cons.prems in auto)
    have "printenv_entry e state (length pre) j buf out =
        printenv_entry e state (length (pre @ [c])) 0 ?b (if state \<le> 1 then out @ take j buf @ [c] else out)"
      using Cons.prems(2) c b True f by (subst printenv_entry.simps) (simp add: env_get_char_rd rd_at)
    then show ?thesis
      using Cons.IH [of "pre @ [c]" ?b 0 "if state \<le> 1 then out @ take j buf @ [c] else out"] Cons.prems(2) c b by (cases "state \<le> 1") simp_all
  next
    case False
    have "printenv_entry e state (length pre) j buf out = printenv_entry e state (length (pre @ [c])) (Suc j) ?b out"
      using Cons.prems(2) c b False by (subst printenv_entry.simps) (simp add: env_get_char_rd rd_at)
    then show ?thesis
      using Cons.IH [of "pre @ [c]" ?b "Suc j" out] Cons.prems c b t False
      by (cases "state \<le> 1") simp_all
  qed
qed

text \<open>One turn of the loop of \<open>printenv\<close>: the state after the match, and the line when it is to be printed.\<close>

lemma printenv_loop_entry:
  assumes nv: "env_name n" "NUL \<notin> set v" and arr: "env_array e = pre @ entry (n, v) @ post" and buf: "buf_ok buf"
    and state: "state = 1 \<or> state = 2 \<and> env_name name"
  shows "\<exists>buf'. buf_ok buf' \<and> printenv_loop e name (\<lambda>_. False) k state (length pre) buf out =
    (if state = 2 \<and> name \<noteq> n then printenv_loop e name (\<lambda>_. False) (k + 1) 2 (length (pre @ entry (n, v))) buf' out
     else printenv_loop e name (\<lambda>_. False) (k + 1) (if state = 2 then 0 else 1) (length (pre @ entry (n, v))) buf' (out @ env_line (n, v)))"
proof -
  let ?t = "n @ CHR ''='' # v"
  have arr': "env_array e = pre @ ?t @ NUL # post" using arr by (simp add: entry_def)
  have c: "env_get_char e (length pre) = Some (hd ?t)" "hd ?t \<noteq> NUL"
    using arr' nv(1) by (cases n; auto simp: env_get_char_rd rd_at env_name_def)+
  define st where "st = (if state = 2 then if name = n then 0 else 2 else 1 :: nat)"
  have st: "(if state = 2 then do { v \<leftarrow> envmatch e (name @ [NUL]) (length pre); Some (if v = None then 2 else 0) } else Some state) = Some st"
    using envmatch_entry [OF _ nv(1) arr, of name] state by (auto simp: st_def)
  have t: "NUL \<notin> set ?t" using nv by (auto simp: env_name_def)
  have "\<exists>j buf' out'. printenv_entry e st (length pre) 0 buf out = Some (length pre + length ?t + 1, j, buf', out') \<and>
      buf_ok buf' \<and> (if st \<le> 1 then out' @ (if j \<noteq> 0 then puts_text buf' else []) = out @ ?t else out' = out)"
    using printenv_entry_text [OF t arr' buf, of 0 st out] by (cases "st \<le> 1") simp_all
  then obtain j buf' out' where p: "printenv_entry e st (length pre) 0 buf out = Some (length pre + length ?t + 1, j, buf', out')"
      "buf_ok buf'" "if st \<le> 1 then out' @ (if j \<noteq> 0 then puts_text buf' else []) = out @ ?t else out' = out"
    by blast
  have len: "length pre + length ?t + 1 = length (pre @ entry (n, v))" by (simp add: entry_def)
  have "printenv_loop e name (\<lambda>_. False) k state (length pre) buf out =
      printenv_loop e name (\<lambda>_. False) (k + 1) st (length (pre @ entry (n, v))) buf'
        (if st \<le> 1 then out' @ (if j \<noteq> 0 then puts_text buf' else []) @ [CHR 0x0A] else out')"
    apply (subst printenv_loop.simps)
    unfolding c(1) bind.bind_lunit st p(1) prod.case len Let_def
    using c(2) state by auto
  moreover have "(if st \<le> 1 then out' @ (if j \<noteq> 0 then puts_text buf' else []) @ [CHR 0x0A] else out') =
      (if st \<le> 1 then out @ env_line (n, v) else out)"
    using p(3) by (cases "st \<le> 1") (simp_all add: env_line_def flip: append_assoc)
  ultimately show ?thesis using p(2) state by (intro exI [of _ buf']) (auto simp: st_def)
qed

lemma printenv_all:
  "entries_ok es \<Longrightarrow> env_array e = pre @ env_entries es @ NUL # post \<Longrightarrow> buf_ok buf \<Longrightarrow>
   printenv_loop e name (\<lambda>_. False) k 1 (length pre) buf out =
     Some (int (length (pre @ env_entries es)), out @ concat (map env_line es))"
proof (induction es arbitrary: pre buf out k)
  case Nil
  then show ?case by (subst printenv_loop.simps) (simp add: env_get_char_rd rd_at)
next
  case (Cons nv es)
  obtain n v where nv: "nv = (n, v)" by (cases nv)
  have ok: "env_name n" "NUL \<notin> set v" "entries_ok es" using Cons.prems by (auto simp: nv entries_ok_Cons)
  have arr: "env_array e = pre @ entry (n, v) @ env_entries es @ NUL # post" using Cons.prems by (simp add: nv)
  obtain buf' where "buf_ok buf'" "printenv_loop e name (\<lambda>_. False) k 1 (length pre) buf out =
      printenv_loop e name (\<lambda>_. False) (k + 1) 1 (length (pre @ entry (n, v))) buf' (out @ env_line (n, v))"
    using printenv_loop_entry [OF ok(1,2) arr Cons.prems(3), of 1 name k out] by auto
  then show ?case using Cons.IH [of "pre @ entry (n, v)" buf' "k + 1" "out @ env_line (n, v)"] ok arr by (simp add: nv)
qed

lemma printenv_one:
  assumes name: "env_name name"
  shows "entries_ok es \<Longrightarrow> env_array e = pre @ env_entries es @ NUL # post \<Longrightarrow> buf_ok buf \<Longrightarrow>
   printenv_loop e name (\<lambda>_. False) k 2 (length pre) buf out =
     Some (case map_of es name of None \<Rightarrow> (int (length (pre @ env_entries es)), out) | Some v \<Rightarrow> (0, out @ env_line (name, v)))"
proof (induction es arbitrary: pre buf k)
  case Nil
  then show ?case by (subst printenv_loop.simps) (simp add: env_get_char_rd rd_at)
next
  case (Cons nv es)
  obtain n v where nv: "nv = (n, v)" by (cases nv)
  have ok: "env_name n" "NUL \<notin> set v" "entries_ok es" using Cons.prems by (auto simp: nv entries_ok_Cons)
  have arr: "env_array e = pre @ entry (n, v) @ env_entries es @ NUL # post" using Cons.prems by (simp add: nv)
  obtain buf' where b: "buf_ok buf'" "printenv_loop e name (\<lambda>_. False) k 2 (length pre) buf out =
    (if name \<noteq> n then printenv_loop e name (\<lambda>_. False) (k + 1) 2 (length (pre @ entry (n, v))) buf' out
     else printenv_loop e name (\<lambda>_. False) (k + 1) 0 (length (pre @ entry (n, v))) buf' (out @ env_line (n, v)))"
    using printenv_loop_entry [OF ok(1,2) arr Cons.prems(3), of 2 name k out] name by auto
  show ?case
  proof (cases "name = n")
    case True
    then show ?thesis using b(2) by (simp add: nv printenv_loop.simps [of _ _ _ _ 0])
  next
    case False
    then show ?thesis
      using b Cons.IH [of "pre @ entry (n, v)" buf' "k + 1"] ok arr by (simp add: nv split: option.split)
  qed
qed

section \<open>From the default environment to the copy in RAM\<close>

lemma env_array_ok_pad:
  assumes "env_array_ok d es"
  shows "env_array_ok (d @ pad) es"
proof -
  obtain rest where "d = env_entries es @ NUL # rest" "es = [] \<Longrightarrow> rest \<noteq> [] \<and> hd rest = NUL" "entries_ok es"
    using assms by (auto simp: env_array_ok_def)
  then show ?thesis by (auto simp: env_array_ok_def intro!: exI [of _ "rest @ pad"])
qed

lemma env_relocate_ok:
  assumes "env_array_ok (default_environment e) es" and "length (default_environment e) \<le> env_size e"
    and "env_size e < 4294967296" and "length garbage = env_size e"
  shows "env_holds (env_init e) es \<and>
    (\<exists>e'. env_relocate (Some garbage) (env_init e) = Some e' \<and> env_ok e' es \<and> env_crc_ok e' \<and> env_size e' = env_size e)"
proof -
  let ?data = "default_environment e @ replicate (env_size e - length (default_environment e)) NUL"
  let ?e = "env_init e\<lparr>env_ptr_data := ?data\<rparr>"
  have c: "env_crc_update ?e = Some (?e\<lparr>env_ptr_crc := crc_ref 0 (map of_char ?data)\<rparr>)"
    using assms(2,3) by (subst env_crc_update_ok) (simp_all add: env_init_def)
  have "env_relocate (Some garbage) (env_init e) =
      Some (?e\<lparr>env_ptr_crc := crc_ref 0 (map of_char ?data), env_valid := True, env_addr := In_ram\<rparr>)"
    using assms(2,4) c by (simp add: env_relocate_def set_default_env_def Let_def) (simp add: env_init_def)
  moreover have "env_holds (env_init e) es"
    using assms(1,2) by (simp add: env_holds_def env_array_def env_get_addr_def env_init_def)
  ultimately show ?thesis
    using env_array_ok_pad [OF assms(1)] assms(2,3) by (simp add: env_ok_def env_crc_ok_def env_init_def)
qed

section \<open>Variables that are set once\<close>

lemma do_setenv_body_once:
  assumes ok: "env_ok e es" and name: "name = ''ethaddr'' \<or> name = ''serial#'' \<and> \<not> (has_uid \<and> flag = 0xdeaf4add)"
    and "name \<in> fst ` set es"
  shows "do_setenv_body False has_uid ca flag (Some cmd # Some name # vals) e = Some (1, e\<lparr>env_id := env_id e + 1\<rparr>)"
proof -
  let ?e = "e\<lparr>env_id := env_id e + 1\<rparr>"
  have ok1: "env_ok ?e es" using ok by (simp add: env_ok_def)
  have n: "env_name name" "CHR ''='' \<notin> set name" using name by (auto simp: env_name_def)
  obtain v where "(name, v) \<in> set es" using assms(3) by auto
  then obtain xs ys where es: "es = xs @ (name, v) # ys" by (auto dest: split_list)
  have "env_array_ok (env_array ?e) (xs @ (name, v) # ys)" using ok1 env_ok_array [OF ok1] es by (simp add: env_ok_def)
  note s = env_search_present [OF n(1) this]
  have a: "arg (Some cmd # Some name # vals) 1 = Some name" by (simp add: arg_def)
  have "setenv_old False has_uid ca flag (Some cmd # Some name # vals) name ?e = Some (Inl (1, ?e))"
    unfolding setenv_old_def using name by (intro if_P) blast
  then show ?thesis
    using n(2) unfolding do_setenv_body_def a Let_def bind.bind_lunit s by simp
qed

section \<open>A store of keys and values\<close>

text \<open>
  The interface of the environment: \<open>holds s es\<close> says that the state \<open>s\<close> holds the bindings \<open>es\<close>, which
  take \<open>cost\<close> each of the \<open>room\<close> of the state.
\<close>

locale key_store =
  fixes holds :: "'s \<Rightarrow> (string \<times> string) list \<Rightarrow> bool"
    and get :: "'s \<Rightarrow> string \<Rightarrow> string option option"
    and put :: "string \<Rightarrow> string \<Rightarrow> 's \<Rightarrow> (int \<times> 's) option"
    and key :: "string \<Rightarrow> bool"
    and val :: "string \<Rightarrow> bool"
    and room :: "'s \<Rightarrow> nat"
    and cost :: "string \<times> string \<Rightarrow> nat"
  assumes get_holds: "holds s es \<Longrightarrow> key k \<Longrightarrow> get s k = Some (map_of es k)"
    and put_holds: "holds s es \<Longrightarrow> key k \<Longrightarrow> val v \<Longrightarrow>
      sum_list (map cost (without k es @ [(k, v)])) \<le> room s \<Longrightarrow>
      \<exists>s'. put k v s = Some (0, s') \<and> holds s' (without k es @ [(k, v)]) \<and> room s' = room s"
begin

fun put_all :: "(string \<times> string) list \<Rightarrow> 's \<Rightarrow> 's option" where
  "put_all [] s = Some s"
| "put_all ((k, v) # kvs) s = do { (r, s) \<leftarrow> put k v s; if r = 0 then put_all kvs s else None }"

lemma cost_without: "sum_list (map cost (without k es)) \<le> sum_list (map cost es)"
  unfolding without_def by (induction es) auto

lemma put_all_holds:
  "holds s es \<Longrightarrow> \<forall>(k, v)\<in>set kvs. key k \<and> val v \<Longrightarrow>
   sum_list (map cost es) + sum_list (map cost kvs) \<le> room s \<Longrightarrow>
   \<exists>s' es'. put_all kvs s = Some s' \<and> holds s' es' \<and> map_of es' = map_of es ++ map_of (rev kvs) \<and>
     (\<forall>k. key k \<longrightarrow> get s' k = Some ((map_of es ++ map_of (rev kvs)) k))"
proof (induction kvs arbitrary: s es)
  case Nil
  then show ?case using get_holds by auto
next
  case (Cons kv kvs)
  obtain k v where kv: "kv = (k, v)" by (cases kv)
  let ?es = "without k es @ [(k, v)]"
  have k: "key k" "val v" using Cons.prems(2) by (auto simp: kv)
  have "sum_list (map cost ?es) + sum_list (map cost kvs) \<le> room s"
    using Cons.prems(3) cost_without [of k es] by (simp add: kv)
  then obtain s1 where s1: "put k v s = Some (0, s1)" "holds s1 ?es" "room s1 = room s"
      "sum_list (map cost ?es) + sum_list (map cost kvs) \<le> room s1"
    using put_holds [OF Cons.prems(1) k] by auto
  have m: "map_of ?es ++ map_of (rev kvs) = map_of es ++ map_of (rev (kv # kvs))"
    unfolding map_of_set by (simp add: kv map_add_assoc [symmetric])
  have "\<exists>s' es'. put_all kvs s1 = Some s' \<and> holds s' es' \<and> map_of es' = map_of ?es ++ map_of (rev kvs) \<and>
     (\<forall>k. key k \<longrightarrow> get s' k = Some ((map_of ?es ++ map_of (rev kvs)) k))"
    by (rule Cons.IH [OF s1(2) _ s1(4)]) (use Cons.prems(2) in auto)
  then show ?case unfolding m by (simp add: kv s1(1))
qed

end

interpretation env: key_store "\<lambda>e es. env_ok e es \<and> env_crc_ok e" env_lookup
    "\<lambda>k v. setenv overwrite has_uid ca k (Some v)" "free_name overwrite" "\<lambda>v. NUL \<notin> set v"
    "\<lambda>e. env_size e - 1" "\<lambda>nv. length (entry nv)" for overwrite has_uid ca
proof (unfold_locales, goal_cases)
  case (1 s es k)
  then show ?case using env_lookup_entries env_ok_holds by (auto simp: free_name_def)
next
  case (2 s es k v)
  then have "env_fits (env_size s) (without k es @ [(k, v)])"
    by (simp add: env_fits_def env_entries_def length_concat comp_def entry_def)
  then show ?case using setenv_free [of s es overwrite k v has_uid ca] 2 by auto
qed

section \<open>Properties\<close>

text \<open>An environment with two variables and five free bytes, for the examples.\<close>

definition demo_env :: env where
  "demo_env = \<lparr>env_size = 14, default_environment = ''a=1'' @ [NUL] @ ''b=2'' @ [NUL, NUL],
     env_ptr_data = ''a=1'' @ [NUL] @ ''b=2'' @ [NUL, NUL, NUL, NUL, NUL, NUL, NUL],
     env_ptr_crc = crc_ref 0 (map of_char (''a=1'' @ [NUL] @ ''b=2'' @ [NUL, NUL, NUL, NUL, NUL, NUL, NUL])),
     env_addr = In_ram, env_valid = True, env_relocated = True, env_id = 1, gd_baudrate = 115200,
     bi_ip_addr = 0, load_addr = 0, con_in = []\<rparr>"

lemma demo_array: "env_array_ok (''a=1'' @ [NUL] @ ''b=2'' @ NUL # NUL # rest) [(''a'', ''1''), (''b'', ''2'')]"
  by (auto simp: env_array_ok_def entries_ok_def env_name_def entry_def)

lemma demo_ok: "env_ok demo_env [(''a'', ''1''), (''b'', ''2'')]" "env_crc_ok demo_env"
    "env_holds demo_env [(''a'', ''1''), (''b'', ''2'')]"
proof -
  show 1: "env_ok demo_env [(''a'', ''1''), (''b'', ''2'')]"
    using demo_array [of "[NUL, NUL, NUL, NUL, NUL]"] by (simp add: env_ok_def demo_env_def)
  show "env_crc_ok demo_env" by (simp add: env_crc_ok_def demo_env_def)
  show "env_holds demo_env [(''a'', ''1''), (''b'', ''2'')]" by (rule env_ok_holds [OF 1])
qed

text \<open>
  C32: \<open>setenv name v1 v2 ...\<close> for every name.  A defined name of \<open>setenv_refused\<close> gives 1 and nothing changes;
  for a defined \<open>baudrate\<close> without a value a null pointer is read, and without a carriage return on the console
  the code waits for ever (\<open>None\<close>).  Otherwise the definition of the name is removed and \<open>name=v1 v2 ...\<close> appended behind the other entries, all in
  place and inside the array; the checksum is that of the new data.  With no value the definition is just
  removed.  When the new definition does not fit, 1 is returned, the old definition is gone and the checksum is
  left as it was.  Only \<open>baudrate\<close>, \<open>ipaddr\<close> and \<open>loadaddr\<close> change something else: the
  rate, the board's address (which is not spelled out here) and the load address.
\<close>

theorem setenv_correct:
  assumes "env_ok e es" and "env_name name" and "\<forall>v\<in>set vals. NUL \<notin> set v"
  shows "let r = do_setenv overwrite has_uid ca flag (cmd # name # vals) e in
    if name \<in> fst ` set es \<and> setenv_refused overwrite has_uid ca flag name vals
    then r = Some (1, e\<lparr>env_id := env_id e + 1\<rparr>)
    else if name \<in> fst ` set es \<and> baud_waits name vals (con_in e) then r = None
    else \<exists>d c i. let baud = (name = ''baudrate'' \<and> name \<in> fst ` set es);
      e' = e\<lparr>env_id := env_id e + 1, env_ptr_data := d, env_ptr_crc := c,
        gd_baudrate := if baud then sint (word_of_nat (numeral_of 10 (hd vals)) :: u32) else gd_baudrate e,
        con_in := if baud then tl (dropWhile (\<lambda>c. c \<noteq> CHR 0x0D) (con_in e)) else con_in e\<rparr>;
      es' = without name es @ [(name, args_value vals)] in
      if vals = [] then r = Some (0, e') \<and> env_ok e' (without name es) \<and> env_crc_ok e'
      else if env_fits (env_size e) es'
      then r = Some (0, e'\<lparr>bi_ip_addr := i, load_addr := if name = ''loadaddr'' then word_of_nat (numeral_of 16 (hd vals)) else load_addr e\<rparr>) \<and>
        (name \<noteq> ''ipaddr'' \<longrightarrow> i = bi_ip_addr e) \<and> env_ok e' es' \<and> env_crc_ok e'
      else r = Some (1, e') \<and> env_ok e' (without name es) \<and> c = env_ptr_crc e"
proof -
  let ?r = "do_setenv overwrite has_uid ca flag (cmd # name # vals) e"
  have r: "?r = do_setenv_body overwrite has_uid ca flag (Some cmd # Some name # map Some vals) e" by (simp add: do_setenv_def)
  show ?thesis
  proof (cases "name \<in> fst ` set es \<and> (setenv_refused overwrite has_uid ca flag name vals \<or> baud_waits name vals (con_in e))")
    case True
    then show ?thesis
      unfolding r using do_setenv_body_stops [OF assms(1,2), of overwrite has_uid ca flag vals cmd] by (auto simp: Let_def)
  next
    case False
    then have "name \<in> fst ` set es \<Longrightarrow> \<not> setenv_refused overwrite has_uid ca flag name vals \<and> \<not> baud_waits name vals (con_in e)" by blast
    note full = do_setenv_body_full [OF assms this, of cmd]
    show ?thesis
      unfolding r Let_def using False full [unfolded Let_def] by presburger
  qed
qed

theorem setenv_correct_witness:
  "\<exists>e'. do_setenv True False (\<lambda>_ _. True) 0 [''setenv'', ''a'', ''x'', ''yz''] demo_env = Some (0, e') \<and>
    env_ok e' [(''b'', ''2''), (''a'', ''x yz'')] \<and> env_crc_ok e'"
proof -
  have "env_name ''a''" by (simp add: env_name_def)
  moreover have "env_fits (env_size demo_env) (without ''a'' [(''a'', ''1''), (''b'', ''2'')] @ [(''a'', args_value [''x'', ''yz''])])"
    by (simp add: env_fits_def without_def args_value_def entry_def demo_env_def)
  moreover have "args_value [''x'', ''yz''] = ''x yz''" "without ''a'' [(''a'', ''1''), (''b'', ''2'')] = [(''b'', ''2'')]"
    by (simp_all add: args_value_def without_def)
  moreover have "\<not> setenv_refused True False (\<lambda>_ _. True) 0 ''a'' [''x'', ''yz'']" "\<not> baud_waits ''a'' [''x'', ''yz''] cs" for cs
    by (simp_all add: setenv_refused_def baud_waits_def)
  ultimately show ?thesis
    using setenv_correct [OF demo_ok(1), of "''a''" "[''x'', ''yz'']" True False "\<lambda>_ _. True" 0 "''setenv''"]
    by (auto simp: Let_def)
qed

text \<open>
  \<open>getenv\<close> returns a pointer to the value of the first entry with the name, and \<open>NULL\<close> exactly
  when there is none.  \<open>printenv\<close> prints the line of a name, or all lines in order, through its
  16-byte buffer, and returns 0, or the length of the entries when the name is not there.
\<close>

theorem getenv_correct:
  assumes "env_holds e es" and "env_name name" and "length garbage = 16"
  shows "map_option (map_option (\<lambda>(r, i). string_at (env_array e) i)) (getenv e name) = Some (map_of es name) \<and>
    printenv garbage (\<lambda>_. False) e name 2 =
      Some (case map_of es name of None \<Rightarrow> (int (length (env_entries es)), []) | Some v \<Rightarrow> (0, env_line (name, v))) \<and>
    printenv garbage (\<lambda>_. False) e name 1 = Some (int (length (env_entries es)), concat (map env_line es))"
proof -
  obtain rest where arr: "env_array e = [] @ env_entries es @ NUL # rest" and ok: "entries_ok es"
    using assms(1) by (auto simp: env_holds_def env_array_ok_def)
  have b: "buf_ok (garbage @ [NUL])" using assms(3) by (simp add: buf_ok_def nth_append)
  show ?thesis
    using env_lookup_entries [OF assms(1,2)] printenv_all [OF ok arr b, of name 0 "[]"]
      printenv_one [OF assms(2) ok arr b, of 0 "[]"]
    by (simp add: env_lookup_def printenv_def split: option.split)
qed

theorem getenv_correct_witness:
  "printenv (replicate 16 CHR ''?'') (\<lambda>_. False) demo_env ''b'' 2 = Some (0, ''b=2'' @ [CHR 0x0A]) \<and>
   map_option (map_option (\<lambda>(r, i). string_at (env_array demo_env) i)) (getenv demo_env ''b'') = Some (Some ''2'')"
  using getenv_correct [OF demo_ok(3), of "''b''" "replicate 16 CHR ''?''"] by (simp add: env_name_def env_line_def)

text \<open>
  \<open>getenv_r\<close> with the true length of its buffer copies a value that is at least two bytes shorter
  with its NUL and returns their length.  When value and NUL just fill the buffer it writes a NUL
  behind the end; a longer value is cut without a NUL, and the length plus one is returned.
\<close>

theorem getenv_r_bounds:
  assumes "env_holds e es" and "env_name name"
  shows "getenv_r e name buf (length buf) =
    (case map_of es name of
       None \<Rightarrow> Some (- 1, buf)
     | Some v \<Rightarrow>
         if length v + 1 < length buf then Some (int (length v + 1), v @ NUL # drop (length v + 1) buf)
         else if length v + 1 = length buf then None
         else Some (int (length buf) + 1, take (length buf) v))"
  by (rule getenv_r_entries [OF assms])

theorem getenv_r_bounds_witness:
  "getenv_r demo_env ''b'' ''xyz'' 3 = Some (2, [CHR ''2'', NUL, CHR ''z'']) \<and> getenv_r demo_env ''b'' ''xy'' 2 = None"
  using getenv_r_bounds [OF demo_ok(3), of "''b''" "''xyz''"] getenv_r_bounds [OF demo_ok(3), of "''b''" "''xy''"]
  by (simp add: env_name_def numeral_2_eq_2 numeral_3_eq_3)

text \<open>
  C33: Before relocation the variables are those of the default environment, and \<open>env_relocate\<close> makes a
  copy in RAM that holds the same variables, has the configured size and carries its checksum.
\<close>

theorem env_boot:
  assumes "env_array_ok (default_environment e) es" and "length (default_environment e) \<le> env_size e"
    and "env_size e < 4294967296" and "length garbage = env_size e"
  shows "env_holds (env_init e) es \<and>
    (\<exists>e'. env_relocate (Some garbage) (env_init e) = Some e' \<and> env_ok e' es \<and> env_crc_ok e' \<and> env_size e' = env_size e)"
  by (rule env_relocate_ok [OF assms])

theorem env_boot_witness:
  "\<exists>e'. env_relocate (Some ''??????????????'') (env_init demo_env) = Some e' \<and> env_ok e' [(''a'', ''1''), (''b'', ''2'')]"
  using env_boot [of demo_env "[(''a'', ''1''), (''b'', ''2'')]" "''??????????????''"] demo_array [of "[]"]
  by (auto simp: demo_env_def)

text \<open>A sequence of calls of \<open>setenv\<close>, each of which must succeed.\<close>

fun setenv_all ::
    "bool \<Rightarrow> bool \<Rightarrow> (nat \<Rightarrow> string \<Rightarrow> bool) \<Rightarrow> (string \<times> string) list \<Rightarrow> env \<Rightarrow> env option" where
  "setenv_all overwrite has_uid ca [] e = Some e"
| "setenv_all overwrite has_uid ca ((name, v) # nvs) e = do {
     (r, e) \<leftarrow> setenv overwrite has_uid ca name (Some v) e;
     if r = 0 then setenv_all overwrite has_uid ca nvs e else None }"

lemma setenv_all_put:
  "setenv_all overwrite has_uid ca nvs e = key_store.put_all (\<lambda>k v. setenv overwrite has_uid ca k (Some v)) nvs e"
proof (induction nvs arbitrary: e)
  case Nil
  show ?case by (simp add: env.put_all.simps)
next
  case (Cons nv nvs)
  obtain n v where "nv = (n, v)" by (cases nv)
  then show ?case
    by (cases "setenv overwrite has_uid ca n (Some v) e") (auto simp: env.put_all.simps Cons.IH)
qed

text \<open>
  C4: After any sequence of calls of \<open>setenv\<close>, each with one value, whose definitions all fit beside the present
  ones, every call has succeeded and \<open>getenv\<close> gives for every name the value set last, or the old one.  The names that are set
  are those that the code never refuses (\<open>free_name\<close>): not the three of the console nor \<open>baudrate\<close>, and
  \<open>serial#\<close> and \<open>ethaddr\<close> only when they may be overwritten.
\<close>

theorem setenv_sequence:
  assumes "env_ok e es" and "env_crc_ok e" and "\<forall>(n, v)\<in>set nvs. free_name overwrite n \<and> NUL \<notin> set v"
    and "length (env_entries es) + length (env_entries nvs) < env_size e"
  shows "\<exists>e' es'. setenv_all overwrite has_uid ca nvs e = Some e' \<and> env_ok e' es' \<and> env_crc_ok e' \<and>
    (\<forall>n. env_name n \<longrightarrow> env_lookup e' n = Some ((map_of es ++ map_of (rev nvs)) n))"
proof -
  have l: "sum_list (map (\<lambda>nv. length (entry nv)) fs) = length (env_entries fs)" for fs
    by (simp add: env_entries_def length_concat comp_def)
  have "sum_list (map (\<lambda>nv. length (entry nv)) es) + sum_list (map (\<lambda>nv. length (entry nv)) nvs) \<le> env_size e - 1"
    using assms(4) unfolding l by simp
  from env.put_all_holds [OF conjI [OF assms(1,2)] assms(3) this, of has_uid ca]
  obtain e' es' where e': "setenv_all overwrite has_uid ca nvs e = Some e'" "env_ok e' es'" "env_crc_ok e'"
      "map_of es' = map_of es ++ map_of (rev nvs)"
    unfolding setenv_all_put by blast
  moreover have "env_lookup e' n = Some (map_of es' n)" if "env_name n" for n
    by (rule env_lookup_entries [OF env_ok_holds [OF e'(2)] that])
  ultimately show ?thesis by auto
qed

theorem setenv_sequence_witness:
  "\<exists>e'. setenv_all True False (\<lambda>_ _. True) [(''c'', ''7'')] demo_env = Some e' \<and>
    env_lookup e' ''c'' = Some (Some ''7'') \<and> env_lookup e' ''a'' = Some (Some ''1'')"
proof -
  have p: "free_name True ''c''" "env_name ''c''" "env_name ''a''" by (simp_all add: free_name_def env_name_def)
  have "length (env_entries [(''a'', ''1''), (''b'', ''2'')]) + length (env_entries [(''c'', ''7'')]) < env_size demo_env"
    by (simp add: entry_def demo_env_def)
  from setenv_sequence [OF demo_ok(1,2) _ this, of True False "\<lambda>_ _. True"] p show ?thesis by fastforce
qed

text \<open>
  Without \<open>CONFIG_ENV_OVERWRITE\<close>, a defined \<open>ethaddr\<close>, and a defined \<open>serial#\<close> unless the call is
  \<open>forceenv\<close> of a board with an identifier, is neither changed nor deleted: the call returns 1.
\<close>

theorem setenv_once:
  assumes "env_ok e es" and "name = ''ethaddr'' \<or> name = ''serial#'' \<and> \<not> (has_uid \<and> flag = 0xdeaf4add)"
    and "name \<in> fst ` set es"
  shows "do_setenv False has_uid ca flag (cmd # name # vals) e = Some (1, e\<lparr>env_id := env_id e + 1\<rparr>)"
  using do_setenv_body_once [OF assms, of ca cmd "map Some vals"] by (simp add: do_setenv_def)

text \<open>A variable \<open>ethaddr\<close> in an environment of its own.\<close>

theorem setenv_once_witness:
  "do_setenv False True (\<lambda>_ _. True) 0xdeaf4add [''setenv'', ''ethaddr''] (demo_env\<lparr>env_ptr_data := ''ethaddr=00'' @ [NUL, NUL, NUL, NUL]\<rparr>) =
     Some (1, demo_env\<lparr>env_ptr_data := ''ethaddr=00'' @ [NUL, NUL, NUL, NUL], env_id := 2\<rparr>)"
proof -
  have "env_array_ok (''ethaddr=00'' @ [NUL, NUL, NUL, NUL]) [(''ethaddr'', ''00'')]"
    by (auto simp: env_array_ok_def entries_ok_def env_name_def entry_def)
  then have "env_ok (demo_env\<lparr>env_ptr_data := ''ethaddr=00'' @ [NUL, NUL, NUL, NUL]\<rparr>) [(''ethaddr'', ''00'')]"
    by (simp add: env_ok_def demo_env_def)
  from setenv_once [OF this, where name = "''ethaddr''" and has_uid = True and flag = "0xdeaf4add" and
      ca = "\<lambda>_ _. True" and cmd = "''setenv''" and vals = "[]"] show ?thesis
    by (simp add: demo_env_def)
qed

end
