(* ===== verification/CmdLine.thy ===== *)
theory CmdLine
  imports Env
begin

text \<open>
  The command line: \<^verbatim>\<open>common/main.c\<close> (\<open>parse_line\<close>, \<open>process_macros\<close>, \<open>run_command\<close>, \<open>do_run\<close>, the simple
  parser) and \<open>find_cmd_tbl\<close> of \<^verbatim>\<open>common/command.c\<close>.  \<open>CONFIG_SYS_CBSIZE\<close> is 256 and
  \<open>CONFIG_SYS_MAXARGS\<close> is 16, as in \<^verbatim>\<open>include/configs/imapx800.h\<close>.  The commands of the table
  themselves are an argument of the model.
\<close>

section \<open>Splitting a line into arguments\<close>

definition blank :: "char \<Rightarrow> bool" where
  "blank c \<longleftrightarrow> c = CHR '' '' \<or> c = CHR 0x09"

partial_function (option) skip_blank :: "string \<Rightarrow> nat \<Rightarrow> nat option" where [code]:
  "skip_blank line i = do { c \<leftarrow> rd line i; if blank c then skip_blank line (i + 1) else Some i }"

partial_function (option) skip_word :: "string \<Rightarrow> nat \<Rightarrow> nat option" where [code]:
  "skip_word line i = do { c \<leftarrow> rd line i; if c \<noteq> NUL \<and> \<not> blank c then skip_word line (i + 1) else Some i }"

text \<open>
  \<open>argv\<close> is an array of pointers into the line, \<open>None\<close> being \<open>NULL\<close>.  The result: the number of
  arguments, the array, and the line with its NULs.
\<close>

partial_function (option) parse_loop ::
    "string \<Rightarrow> nat option list \<Rightarrow> nat \<Rightarrow> nat \<Rightarrow> (nat \<times> nat option list \<times> string) option" where [code]:
  "parse_loop line argv nargs i =
     (if nargs < 16
      then do {
        i \<leftarrow> skip_blank line i;
        c \<leftarrow> rd line i;
        if c = NUL
        then do { argv \<leftarrow> wr argv nargs None; Some (nargs, argv, line) }
        else do {
          argv \<leftarrow> wr argv nargs (Some i);
          i \<leftarrow> skip_word line i;
          c \<leftarrow> rd line i;
          if c = NUL
          then do { argv \<leftarrow> wr argv (nargs + 1) None; Some (nargs + 1, argv, line) }
          else do { line \<leftarrow> wr line i NUL; parse_loop line argv (nargs + 1) (i + 1) } } }
      else Some (nargs, argv, line))"

definition parse_line :: "string \<Rightarrow> nat option list \<Rightarrow> (nat \<times> nat option list \<times> string) option" where
  "parse_line line argv = parse_loop line argv 0 0"

section \<open>Macros\<close>

text \<open>A character written to the output, of which \<open>outputcnt\<close> bytes are left.\<close>

definition put_out :: "string \<Rightarrow> char \<Rightarrow> string option" where
  "put_out out c = (if length out < 256 then Some (out @ [c]) else None)"

text \<open>\<open>while ((*envval) && outputcnt)\<close>: the value at index \<open>i\<close> of the environment array.\<close>

partial_function (option) copy_value :: "string \<Rightarrow> nat \<Rightarrow> string \<Rightarrow> string option" where [code]:
  "copy_value d i out = do {
     c \<leftarrow> rd d i;
     if c \<noteq> NUL \<and> length out < 256 then do { out \<leftarrow> put_out out c; copy_value d (i + 1) out } else Some out }"

text \<open>
  The \<open>switch\<close>: the state after character \<open>c\<close>, with \<open>input\<close> the characters behind it.  The states are
  0 (waiting for \<open>$\<close>), 1 (for an opening bracket), 2 (for a closing one) and 3 (for a quote);
  \<open>varname_start\<close> is the input behind the opening bracket.
\<close>

definition macro_char ::
    "env \<Rightarrow> char \<Rightarrow> char \<Rightarrow> string \<Rightarrow> nat \<Rightarrow> string \<Rightarrow> string \<Rightarrow> (nat \<times> string \<times> string) option" where
  "macro_char e c prev input state varname_start out =
     (if state = 0
      then if c = CHR 0x27 \<and> prev \<noteq> CHR 0x5C then Some (3, varname_start, out)
        else if c = CHR ''$'' \<and> prev \<noteq> CHR 0x5C then Some (1, varname_start, out)
        else do { out \<leftarrow> put_out out c; Some (0, varname_start, out) }
      else if state = 1
      then if c = CHR ''('' \<or> c = CHR ''{'' then Some (2, input, out)
        else do {
          out \<leftarrow> put_out out CHR ''$'';
          out \<leftarrow> (if length out < 256 then put_out out c else Some out);
          Some (0, varname_start, out) }
      else if state = 2
      then if c = CHR '')'' \<or> c = CHR ''}''
        then do {
          let envcnt = length varname_start - length input - 1;
          if envcnt < 256
          then do {
            val \<leftarrow> getenv e (take envcnt varname_start);
            out \<leftarrow> (case val of None \<Rightarrow> Some out | Some (_, i) \<Rightarrow> copy_value (env_array e) i out);
            Some (0, varname_start, out) }
          else None }
        else Some (2, varname_start, out)
      else if c = CHR 0x27 \<and> prev \<noteq> CHR 0x5C then Some (0, varname_start, out)
        else do { out \<leftarrow> put_out out c; Some (3, varname_start, out) })"

fun macro_loop :: "env \<Rightarrow> string \<Rightarrow> char \<Rightarrow> nat \<Rightarrow> string \<Rightarrow> string \<Rightarrow> string option" where
  "macro_loop e [] prev state varname_start out = Some out"
| "macro_loop e (c # input) prev state varname_start out =
     (if length out < 256
      then
        if state \<noteq> 3 \<and> c = CHR 0x5C \<and> prev \<noteq> CHR 0x5C
        then (case input of
            [] \<Rightarrow> Some out
          | d # input' \<Rightarrow> do {
              (state, varname_start, out) \<leftarrow> macro_char e d c input' state varname_start out;
              macro_loop e input' d state varname_start out })
        else do {
          (state, varname_start, out) \<leftarrow> macro_char e c prev input state varname_start out;
          macro_loop e input c state varname_start out }
      else Some out)"

text \<open>The output as a string with its NUL; when it is full, the NUL replaces the last character.\<close>

definition process_macros :: "env \<Rightarrow> string \<Rightarrow> string option" where
  "process_macros e input = do {
     out \<leftarrow> macro_loop e input NUL 0 [] [];
     Some (if length out < 256 then out @ [NUL] else butlast out @ [NUL]) }"

section \<open>The command table\<close>

record cmd_tbl =
  cmd_name :: string
  maxargs :: nat
  repeatable :: bool
  is_bootd :: bool

text \<open>\<open>len\<close>: the name up to its first dot.\<close>

definition cmd_len :: "string \<Rightarrow> nat" where
  "cmd_len cmd = length (takeWhile (\<lambda>c. c \<noteq> CHR ''.'') cmd)"

fun find_cmd_loop :: "string \<Rightarrow> nat \<Rightarrow> cmd_tbl list \<Rightarrow> cmd_tbl option \<Rightarrow> nat \<Rightarrow> cmd_tbl option" where
  "find_cmd_loop cmd len [] temp n_found = (if n_found = 1 then temp else None)"
| "find_cmd_loop cmd len (c # cs) temp n_found =
     (if take len cmd = take len (cmd_name c)
      then if len = length (cmd_name c) then Some c else find_cmd_loop cmd len cs (Some c) (n_found + 1)
      else find_cmd_loop cmd len cs temp n_found)"

definition find_cmd_tbl :: "string \<Rightarrow> cmd_tbl list \<Rightarrow> cmd_tbl option" where
  "find_cmd_tbl cmd table = find_cmd_loop cmd (cmd_len cmd) table None 0"

section \<open>Running commands\<close>

text \<open>
  The end of the command that starts at \<open>str\<close>: the first separator outside quotes, or the NUL.  The
  character before a quote is read even when the quote is the first character of the buffer.
\<close>

partial_function (option) find_sep :: "string \<Rightarrow> nat \<Rightarrow> nat \<Rightarrow> bool \<Rightarrow> nat option" where [code]:
  "find_sep buf str sep inquotes = do {
     c \<leftarrow> rd buf sep;
     if c = NUL then Some sep
     else do {
       inquotes \<leftarrow> (if c = CHR 0x27
         then if sep = 0 then None else do { p \<leftarrow> rd buf (sep - 1); Some (if p \<noteq> CHR 0x5C then \<not> inquotes else inquotes) }
         else Some inquotes);
       stop \<leftarrow> (if \<not> inquotes \<and> c = CHR '';'' \<and> sep \<noteq> str
         then do { p \<leftarrow> rd buf (sep - 1); Some (p \<noteq> CHR 0x5C) }
         else Some False);
       if stop then Some sep else find_sep buf str (sep + 1) inquotes } }"

text \<open>The strings that the pointers of an array point to.\<close>

definition argv_strings :: "string \<Rightarrow> nat option list \<Rightarrow> nat \<Rightarrow> string list" where
  "argv_strings line argv n = map (\<lambda>p. case p of None \<Rightarrow> [] | Some i \<Rightarrow> string_at line i) (take n argv)"

text \<open>
  One command: \<open>Inl\<close> when nothing was executed (and \<open>rc\<close> becomes -1), otherwise the flag, the result,
  whether it is repeatable, whether Control C was typed, and the environment.  \<open>exec\<close> stands for the
  functions of the table; \<open>argv0\<close> is what \<open>argv\<close> held before.
\<close>

definition run_token ::
    "(cmd_tbl \<Rightarrow> bool \<Rightarrow> string list \<Rightarrow> env \<Rightarrow> (int \<times> bool \<times> env) option) \<Rightarrow> cmd_tbl list \<Rightarrow> nat option list \<Rightarrow>
     bool \<Rightarrow> string \<Rightarrow> env \<Rightarrow> (unit + bool \<times> int \<times> bool \<times> bool \<times> env) option" where
  "run_token exec table argv0 flag token e = do {
     finaltoken \<leftarrow> process_macros e token;
     (argc, argv, line) \<leftarrow> parse_line finaltoken argv0;
     if argc = 0 then Some (Inl ())
     else (case find_cmd_tbl (hd (argv_strings line argv argc)) table of
         None \<Rightarrow> Some (Inl ())
       | Some cmdtp \<Rightarrow>
           if argc > maxargs cmdtp then Some (Inl ())
           else if is_bootd cmdtp \<and> flag then Some (Inl ())
           else do {
             let flag = (flag \<or> is_bootd cmdtp);
             (r, ctrlc, e) \<leftarrow> exec cmdtp flag (argv_strings line argv argc) e;
             Some (Inr (flag, r, repeatable cmdtp, ctrlc, e)) }) }"

partial_function (option) run_loop ::
    "(cmd_tbl \<Rightarrow> bool \<Rightarrow> string list \<Rightarrow> env \<Rightarrow> (int \<times> bool \<times> env) option) \<Rightarrow> cmd_tbl list \<Rightarrow> nat option list \<Rightarrow>
     string \<Rightarrow> nat \<Rightarrow> bool \<Rightarrow> int \<Rightarrow> bool \<Rightarrow> env \<Rightarrow> (int \<times> env) option" where [code]:
  "run_loop exec table argv0 buf str flag rc repeat e = do {
     c \<leftarrow> rd buf str;
     if c = NUL then Some (if rc \<noteq> 0 then rc else if repeat then 1 else 0, e)
     else do {
       sep \<leftarrow> find_sep buf str str False;
       c \<leftarrow> rd buf sep;
       let token = str;
       (buf, str) \<leftarrow> (if c \<noteq> NUL then do { buf \<leftarrow> wr buf sep NUL; Some (buf, sep + 1) } else Some (buf, sep));
       t \<leftarrow> run_token exec table argv0 flag (string_at buf token) e;
       (case t of
          Inl _ \<Rightarrow> run_loop exec table argv0 buf str flag (- 1) repeat e
        | Inr (flag, r, rep, ctrlc, e) \<Rightarrow>
            let rc = (if r \<noteq> 0 then - 1 else rc); repeat = (repeat \<and> rep) in
            if ctrlc then Some (- 1, e) else run_loop exec table argv0 buf str flag rc repeat e) } }"

text \<open>\<open>flag\<close> stands for \<open>flag & CMD_FLAG_BOOTD\<close>; \<open>rest\<close> is what \<open>cmdbuf\<close> holds behind the command.\<close>

definition run_command ::
    "(cmd_tbl \<Rightarrow> bool \<Rightarrow> string list \<Rightarrow> env \<Rightarrow> (int \<times> bool \<times> env) option) \<Rightarrow> cmd_tbl list \<Rightarrow> nat option list \<Rightarrow>
     string \<Rightarrow> string option \<Rightarrow> bool \<Rightarrow> env \<Rightarrow> (int \<times> env) option" where
  "run_command exec table argv0 rest cmd flag e =
     (case cmd of
        None \<Rightarrow> Some (- 1, e)
      | Some cmd \<Rightarrow>
          if cmd = [] \<or> 256 \<le> length cmd then Some (- 1, e)
          else run_loop exec table argv0 (cmd @ NUL # rest) 0 flag 0 True e)"

text \<open>\<open>do_run\<close>, with the simple parser.\<close>

fun do_run_loop ::
    "(cmd_tbl \<Rightarrow> bool \<Rightarrow> string list \<Rightarrow> env \<Rightarrow> (int \<times> bool \<times> env) option) \<Rightarrow> cmd_tbl list \<Rightarrow> nat option list \<Rightarrow>
     string \<Rightarrow> string list \<Rightarrow> bool \<Rightarrow> env \<Rightarrow> (int \<times> env) option" where
  "do_run_loop exec table argv0 rest [] flag e = Some (0, e)"
| "do_run_loop exec table argv0 rest (name # names) flag e = do {
     val \<leftarrow> getenv e name;
     (case val of
        None \<Rightarrow> Some (1, e)
      | Some (_, i) \<Rightarrow> do {
          (r, e) \<leftarrow> run_command exec table argv0 rest (Some (string_at (env_array e) i)) flag e;
          if r = - 1 then Some (1, e) else do_run_loop exec table argv0 rest names flag e }) }"

definition do_run ::
    "(cmd_tbl \<Rightarrow> bool \<Rightarrow> string list \<Rightarrow> env \<Rightarrow> (int \<times> bool \<times> env) option) \<Rightarrow> cmd_tbl list \<Rightarrow> nat option list \<Rightarrow>
     string \<Rightarrow> string list \<Rightarrow> bool \<Rightarrow> env \<Rightarrow> (int \<times> env) option" where
  "do_run exec table argv0 rest argv flag e =
     (if length argv < 2 then Some (1, e) else do_run_loop exec table argv0 rest (tl argv) flag e)"

section \<open>What the parser finds\<close>

text \<open>The words of a line.\<close>

function words :: "string \<Rightarrow> string list" where
  "words s = (let t = dropWhile blank s in
     if t = [] then [] else takeWhile (\<lambda>c. \<not> blank c) t # words (dropWhile (\<lambda>c. \<not> blank c) t))"
  by auto
termination
proof (relation "measure length", goal_cases)
  case (2 s t)
  then obtain x xs where x: "t = x # xs" by (metis list.exhaust)
  have "\<not> blank x" using 2 x hd_dropWhile [of blank s] by (metis list.sel(1))
  then have "length (dropWhile (\<lambda>c. \<not> blank c) t) < length t"
    using length_dropWhile_le [of "\<lambda>c. \<not> blank c" xs] by (simp add: x)
  moreover have "length t \<le> length s" using 2 by (simp add: length_dropWhile_le)
  ultimately show ?case by simp
qed simp

declare words.simps [simp del]

lemma skip_blank_text:
  "NUL \<notin> set s \<Longrightarrow> skip_blank (pre @ s @ NUL # rest) (length pre) =
    Some (length pre + length (takeWhile blank s))"
proof (induction s arbitrary: pre)
  case Nil
  then show ?case by (subst skip_blank.simps) (simp add: rd_at blank_def)
next
  case (Cons c s)
  have "skip_blank (pre @ (c # s) @ NUL # rest) (length pre) =
      (if blank c then skip_blank ((pre @ [c]) @ s @ NUL # rest) (length (pre @ [c])) else Some (length pre))"
    by (subst skip_blank.simps) (simp add: rd_at)
  then show ?case using Cons.IH [of "pre @ [c]"] Cons.prems by simp
qed

lemma skip_word_text:
  "NUL \<notin> set s \<Longrightarrow> skip_word (pre @ s @ NUL # rest) (length pre) =
    Some (length pre + length (takeWhile (\<lambda>c. \<not> blank c) s))"
proof (induction s arbitrary: pre)
  case Nil
  then show ?case by (subst skip_word.simps) (simp add: rd_at)
next
  case (Cons c s)
  have c: "c \<noteq> NUL" using Cons.prems by auto
  have "skip_word (pre @ (c # s) @ NUL # rest) (length pre) =
      (if blank c then Some (length pre) else skip_word ((pre @ [c]) @ s @ NUL # rest) (length (pre @ [c])))"
    using c by (subst skip_word.simps) (simp add: rd_at)
  then show ?case using Cons.IH [of "pre @ [c]"] Cons.prems by simp
qed

text \<open>The arguments that the array gives from index \<open>n\<close> on.\<close>

lemma string_at_prefix:
  "NUL \<notin> set w \<Longrightarrow> take (length pre + length w + 1) line = pre @ w @ [NUL] \<Longrightarrow> string_at line (length pre) = w"
  using string_at_text [of w pre "length pre" "drop (length pre + length w + 1) line"]
  by (metis append_Cons append_Nil append_assoc append_take_drop_id)

lemma takeWhile_split: "s = takeWhile P s @ dropWhile P s" by simp

text \<open>
  The loop at the position behind \<open>pre\<close>: it adds the next words, at most sixteen in all, as pointers to
  strings in the line, changes no earlier part of line and array, and ends the array with \<open>NULL\<close> unless
  it is full.
\<close>

lemma parse_loop_words:
  "NUL \<notin> set s \<Longrightarrow> length argv = 17 \<Longrightarrow> nargs \<le> 16 \<Longrightarrow>
   \<exists>argv' line'. parse_loop (pre @ s @ NUL # rest) argv nargs (length pre) =
       Some (nargs + min (16 - nargs) (length (words s)), argv', line') \<and>
     length argv' = 17 \<and> take nargs argv' = take nargs argv \<and> take (length pre) line' = pre \<and>
     map (\<lambda>p. case p of None \<Rightarrow> [] | Some i \<Rightarrow> string_at line' i)
       (drop nargs (take (nargs + min (16 - nargs) (length (words s))) argv')) = take (16 - nargs) (words s) \<and>
     (nargs + length (words s) < 16 \<longrightarrow> argv' ! (nargs + length (words s)) = None)"
proof (induction "length s" arbitrary: s pre nargs argv rule: less_induct)
  case less
  note prems = less.prems
  show ?case
  proof (cases "nargs < 16")
    case False
    then show ?thesis using prems by (subst parse_loop.simps) simp
  next
    case n16: True
    let ?b = "takeWhile blank s" and ?t = "dropWhile blank s"
    let ?w = "takeWhile (\<lambda>c. \<not> blank c) ?t" and ?u = "dropWhile (\<lambda>c. \<not> blank c) ?t"
    have nul: "NUL \<notin> set ?t" "NUL \<notin> set ?w" "NUL \<notin> set ?u"
      using prems(1) by (meson set_dropWhileD set_takeWhileD)+
    have line: "pre @ s @ NUL # rest = (pre @ ?b) @ ?t @ NUL # rest" by simp
    have sb: "skip_blank (pre @ s @ NUL # rest) (length pre) = Some (length (pre @ ?b))"
      using skip_blank_text [OF prems(1)] by simp
    show ?thesis
    proof (cases "?t = []")
      case True
      have "rd (pre @ s @ NUL # rest) (length (pre @ ?b)) = Some NUL"
        unfolding line True using rd_at [of "pre @ ?b" _ NUL rest] by simp
      moreover have "words s = []" using True by (subst words.simps) (simp add: Let_def)
      ultimately show ?thesis
        using prems n16 by (subst parse_loop.simps) (simp add: sb)
    next
      case False
      let ?c = "hd ?t"
      have c: "rd (pre @ s @ NUL # rest) (length (pre @ ?b)) = Some ?c" "?c \<noteq> NUL" "\<not> blank ?c"
      proof -
        obtain x xs where x: "?t = x # xs" using False by (cases ?t) auto
        show "rd (pre @ s @ NUL # rest) (length (pre @ ?b)) = Some ?c"
          unfolding line x using rd_at [of "pre @ ?b" _ x "xs @ NUL # rest"] by simp
        show "?c \<noteq> NUL" using nul(1) False hd_in_set by metis
        show "\<not> blank ?c" by (rule hd_dropWhile [OF False])
      qed
      have sw: "skip_word (pre @ s @ NUL # rest) (length (pre @ ?b)) = Some (length (pre @ ?b @ ?w))"
        unfolding line using skip_word_text [OF nul(1), of "pre @ ?b" rest] by simp
      have line2: "pre @ s @ NUL # rest = (pre @ ?b @ ?w) @ ?u @ NUL # rest"
        by (metis line append_assoc takeWhile_dropWhile_id)
      have w: "words s = ?w # words ?u" using False by (subst words.simps) (simp add: Let_def)
      let ?argv = "argv[nargs := Some (length (pre @ ?b))]"
      have step: "parse_loop (pre @ s @ NUL # rest) argv nargs (length pre) = do {
          c \<leftarrow> rd (pre @ s @ NUL # rest) (length (pre @ ?b @ ?w));
          if c = NUL
          then do { argv \<leftarrow> wr ?argv (nargs + 1) None; Some (nargs + 1, argv, pre @ s @ NUL # rest) }
          else do { line \<leftarrow> wr (pre @ s @ NUL # rest) (length (pre @ ?b @ ?w)) NUL;
            parse_loop line ?argv (nargs + 1) (length (pre @ ?b @ ?w) + 1) } }"
      proof -
        have "wr argv nargs (Some (length (pre @ ?b))) = Some ?argv" using n16 prems(2) by simp
        then show ?thesis
          using n16 c(2) by (subst parse_loop.simps) (simp only: if_True if_False sb c(1) sw bind.bind_lunit simp_thms)
      qed
      show ?thesis
      proof (cases "?u = []")
        case True
        have r: "rd (pre @ s @ NUL # rest) (length (pre @ ?b @ ?w)) = Some NUL"
          unfolding line2 True using rd_at [of "pre @ ?b @ ?w" _ NUL rest] by simp
        have wu: "words s = [?w]" using w True by (simp add: words.simps [of "[]"])
        have at: "string_at (pre @ s @ NUL # rest) (length (pre @ ?b)) = ?w"
          by (rule string_at_prefix [OF nul(2)]) (simp add: line2 True)
        have "parse_loop (pre @ s @ NUL # rest) argv nargs (length pre) =
            Some (nargs + 1, ?argv[nargs + 1 := None], pre @ s @ NUL # rest)"
          unfolding step r using prems(2) n16 by simp
        moreover have "min (16 - nargs) (length (words s)) = 1" "take (16 - nargs) (words s) = [?w]"
          using n16 by (auto simp: wu take_Cons')
        moreover have "drop nargs (take (nargs + 1) (?argv[nargs + 1 := None])) = [Some (length (pre @ ?b))]"
          using prems(2) n16 by (simp add: take_Suc_conv_app_nth)
        ultimately show ?thesis using prems(2) at by (simp add: wu)
      next
        case u: False
        obtain x us where x: "?u = x # us" using u by (cases ?u) auto
        have xb: "blank x" "x \<noteq> NUL" using hd_dropWhile [OF u] nul(3) x by auto
        have r: "rd (pre @ s @ NUL # rest) (length (pre @ ?b @ ?w)) = Some x"
          unfolding line2 x using rd_at [of "pre @ ?b @ ?w" _ x "us @ NUL # rest"] by simp
        let ?pre = "pre @ ?b @ ?w @ [NUL]"
        have wr: "wr (pre @ s @ NUL # rest) (length (pre @ ?b @ ?w)) NUL = Some (?pre @ us @ NUL # rest)"
          unfolding line2 x using wr_at [of "pre @ ?b @ ?w" _ x "us @ NUL # rest" NUL] by simp
        have wus: "words s = ?w # words us" using w xb unfolding x by (simp add: words.simps [of "x # us"] words.simps [of us])
        have us: "length us < length s"
        proof -
          have "s = ?b @ ?w @ x # us" by (metis takeWhile_dropWhile_id x)
          then have "length s = length ?b + length ?w + Suc (length us)" by (metis length_append length_Cons add.assoc)
          then show ?thesis by simp
        qed
        have "NUL \<notin> set us" using nul(3) x by simp
        then obtain argv' line' where ih: "parse_loop (?pre @ us @ NUL # rest) ?argv (nargs + 1) (length ?pre) =
            Some (nargs + 1 + min (16 - (nargs + 1)) (length (words us)), argv', line')"
            "length argv' = 17" "take (nargs + 1) argv' = take (nargs + 1) ?argv" "take (length ?pre) line' = ?pre"
            "map (\<lambda>p. case p of None \<Rightarrow> [] | Some i \<Rightarrow> string_at line' i)
              (drop (nargs + 1) (take (nargs + 1 + min (16 - (nargs + 1)) (length (words us))) argv')) = take (16 - (nargs + 1)) (words us)"
            "nargs + 1 + length (words us) < 16 \<Longrightarrow> argv' ! (nargs + 1 + length (words us)) = None"
          using less.hyps [OF us, of ?argv "nargs + 1" ?pre] prems(2) n16 by auto
        have num: "nargs + 1 + min (16 - (nargs + 1)) (length (words us)) = nargs + min (16 - nargs) (length (words s))"
          unfolding wus list.size using n16 by arith
        have at: "string_at line' (length (pre @ ?b)) = ?w"
          by (rule string_at_prefix [OF nul(2)]) (use ih(4) in \<open>simp add: add.assoc\<close>)
        have nth: "argv' ! nargs = Some (length (pre @ ?b))" "take nargs argv' = take nargs argv"
          using arg_cong [OF ih(3), of "\<lambda>xs. xs ! nargs"] arg_cong [OF ih(3), of "take nargs"] prems(2) n16 by simp_all
        have pre: "take (length pre) line' = pre" using arg_cong [OF ih(4), of "take (length pre)"] by simp
        have tl: "drop nargs (take k argv') = Some (length (pre @ ?b)) # drop (nargs + 1) (take k argv')" if "nargs < k" for k
          using Cons_nth_drop_Suc [of nargs "take k argv'"] that ih(2) n16 nth(1) by simp
        have "parse_loop (pre @ s @ NUL # rest) argv nargs (length pre) = Some (nargs + min (16 - nargs) (length (words s)), argv', line')"
          using ih(1) xb(2) unfolding step r bind.bind_lunit wr num by simp
        moreover have "map (\<lambda>p. case p of None \<Rightarrow> [] | Some i \<Rightarrow> string_at line' i)
            (drop nargs (take (nargs + min (16 - nargs) (length (words s))) argv')) = take (16 - nargs) (words s)"
          using ih(5) n16 unfolding num by (subst tl) (simp_all add: at [simplified] wus take_Cons')
        moreover have "nargs + length (words s) < 16 \<longrightarrow> argv' ! (nargs + length (words s)) = None"
          using ih(6) by (simp add: wus)
        ultimately show ?thesis using ih(2) nth(2) pre by blast
      qed
    qed
  qed
qed

lemma parse_line_words:
  assumes "NUL \<notin> set s" and "length argv = 17"
  shows "\<exists>argv' line'. parse_line (s @ NUL # rest) argv = Some (min 16 (length (words s)), argv', line') \<and>
    argv_strings line' argv' (min 16 (length (words s))) = take 16 (words s) \<and>
    (length (words s) < 16 \<longrightarrow> argv' ! length (words s) = None)"
  using parse_loop_words [OF assms, of 0 "[]" rest] by (auto simp: parse_line_def argv_strings_def)

section \<open>Macros in a line\<close>

text \<open>
  A line as pieces: plain text, a character behind a backslash, text in quotes, a variable in brackets;
  what they look like, and what is left of them.
\<close>

datatype macro = Plain string | Escaped char | Quoted string | Variable char string char

fun macro_syntax :: "macro \<Rightarrow> string" where
  "macro_syntax (Plain s) = s"
| "macro_syntax (Escaped c) = [CHR 0x5C, c]"
| "macro_syntax (Quoted s) = CHR 0x27 # s @ [CHR 0x27]"
| "macro_syntax (Variable l n r) = CHR ''$'' # l # n @ [r]"

fun macro_ok :: "macro \<Rightarrow> bool" where
  "macro_ok (Plain s) = (set s \<inter> {NUL, CHR 0x5C, CHR 0x27, CHR ''$'', CHR '';''} = {})"
| "macro_ok (Escaped c) = (c \<notin> {NUL, CHR 0x5C})"
| "macro_ok (Quoted s) = (set s \<inter> {NUL, CHR 0x5C, CHR 0x27} = {})"
| "macro_ok (Variable l n r) = (l \<in> {CHR ''('', CHR ''{''} \<and> r \<in> {CHR '')'', CHR ''}''} \<and> env_name n \<and> length n < 256 \<and>
     set n \<inter> {CHR 0x5C, CHR 0x27, CHR '')'', CHR ''}'', CHR '';''} = {})"

definition lookup_text :: "env \<Rightarrow> string \<Rightarrow> string" where
  "lookup_text e n = (case env_lookup e n of Some (Some v) \<Rightarrow> v | _ \<Rightarrow> [])"

fun macro_text :: "env \<Rightarrow> macro \<Rightarrow> string" where
  "macro_text e (Plain s) = s"
| "macro_text e (Escaped c) = [c]"
| "macro_text e (Quoted s) = s"
| "macro_text e (Variable l n r) = lookup_text e n"

abbreviation cut :: "string \<Rightarrow> string" where "cut s \<equiv> take 256 s"

lemma macro_loop_full: "256 \<le> length acc \<Longrightarrow> macro_loop e input prev st vs (cut acc) = Some (cut acc)"
  by (cases input) simp_all

lemma cut_full: "256 \<le> length acc \<Longrightarrow> cut (acc @ s) = cut acc"
  by simp

lemma macro_plain:
  "set s \<inter> {CHR 0x5C, CHR 0x27, CHR ''$''} = {} \<Longrightarrow> prev \<noteq> CHR 0x5C \<Longrightarrow>
   \<exists>p. p \<noteq> CHR 0x5C \<and> macro_loop e (s @ rest) prev 0 vs (cut acc) = macro_loop e rest p 0 vs (cut (acc @ s))"
proof (induction s arbitrary: prev acc)
  case Nil
  then show ?case by auto
next
  case (Cons c s)
  have c: "c \<noteq> CHR 0x5C" "c \<noteq> CHR 0x27" "c \<noteq> CHR ''$''" "set s \<inter> {CHR 0x5C, CHR 0x27, CHR ''$''} = {}"
    using Cons.prems(1) by auto
  show ?case
  proof (cases "length acc < 256")
    case True
    have "macro_loop e ((c # s) @ rest) prev 0 vs (cut acc) = macro_loop e (s @ rest) c 0 vs (cut (acc @ [c]))"
      using True c by (simp add: macro_char_def put_out_def)
    then show ?thesis using Cons.IH [OF c(4,1), of "acc @ [c]"] by simp
  next
    case False
    then show ?thesis using Cons.prems(2) macro_loop_full [of acc] cut_full [of acc "c # s"] by (intro exI [of _ prev]) simp
  qed
qed

lemma macro_quoted:
  "set s \<inter> {CHR 0x5C, CHR 0x27} = {} \<Longrightarrow> prev \<noteq> CHR 0x5C \<Longrightarrow>
   macro_loop e (s @ CHR 0x27 # rest) prev 3 vs (cut acc) = macro_loop e rest CHR 0x27 0 vs (cut (acc @ s))"
proof (induction s arbitrary: prev acc)
  case Nil
  then show ?case
    using macro_loop_full [of acc e _ _ _ vs] by (cases "length acc < 256") (simp_all add: macro_char_def)
next
  case (Cons c s)
  have c: "c \<noteq> CHR 0x5C" "c \<noteq> CHR 0x27" "set s \<inter> {CHR 0x5C, CHR 0x27} = {}" using Cons.prems(1) by auto
  show ?case
  proof (cases "length acc < 256")
    case True
    have "macro_loop e ((c # s) @ CHR 0x27 # rest) prev 3 vs (cut acc) = macro_loop e (s @ CHR 0x27 # rest) c 3 vs (cut (acc @ [c]))"
      using True c by (simp add: macro_char_def put_out_def)
    then show ?thesis using Cons.IH [OF c(3,1), of "acc @ [c]"] by simp
  next
    case False
    then show ?thesis using macro_loop_full [of acc] cut_full [of acc "c # s"] by simp
  qed
qed

lemma copy_value_cut:
  "NUL \<notin> set v \<Longrightarrow> d = a @ v @ NUL # b \<Longrightarrow> copy_value d (length a) (cut acc) = Some (cut (acc @ v))"
proof (induction v arbitrary: a acc)
  case Nil
  then show ?case by (subst copy_value.simps) (simp add: rd_at)
next
  case (Cons c v)
  have c: "c \<noteq> NUL" using Cons.prems by auto
  show ?case
  proof (cases "length acc < 256")
    case True
    have "copy_value d (length a) (cut acc) = copy_value d (length (a @ [c])) (cut (acc @ [c]))"
      using Cons.prems(2) c True by (subst copy_value.simps) (simp add: rd_at put_out_def)
    then show ?thesis using Cons.IH [of "a @ [c]" "acc @ [c]"] Cons.prems by simp
  next
    case False
    then show ?thesis using Cons.prems(2) by (subst copy_value.simps) (simp add: rd_at)
  qed
qed

definition env_readable :: "env \<Rightarrow> bool" where
  "env_readable e \<longleftrightarrow> (\<exists>es. env_holds e es)"

lemma getenv_copy:
  assumes "env_readable e" and "env_name n"
  shows "do { val \<leftarrow> getenv e n; (case val of None \<Rightarrow> Some (cut acc) | Some (_, i) \<Rightarrow> copy_value (env_array e) i (cut acc)) } =
    Some (cut (acc @ lookup_text e n))"
proof -
  obtain es where h: "env_holds e es" using assms(1) by (auto simp: env_readable_def)
  show ?thesis
  proof (cases "map_of es n")
    case None
    then show ?thesis
      using getenv_loop_found [OF h assms(2)] env_lookup_entries [OF h assms(2)] by (simp add: getenv_def lookup_text_def)
  next
    case (Some v)
    then obtain a b where ab: "env_array e = a @ v @ NUL # b" "getenv_loop e n 0 = Some (Some (length a))"
      using getenv_loop_found [OF h assms(2)] by auto
    have "NUL \<notin> set v" using h entries_ok_value Some by (auto simp: env_holds_def env_array_ok_def)
    then show ?thesis
      using copy_value_cut [OF _ ab(1)] ab(2) env_lookup_entries [OF h assms(2)] Some by (simp add: getenv_def lookup_text_def)
  qed
qed

lemma macro_name:
  assumes "env_readable e" and "env_name n" and "length n < 256" and "r \<in> {CHR '')'', CHR ''}''}" and "length acc < 256"
  shows "set n2 \<inter> {CHR 0x5C, CHR '')'', CHR ''}''} = {} \<Longrightarrow> n = n1 @ n2 \<Longrightarrow> prev \<noteq> CHR 0x5C \<Longrightarrow>
   macro_loop e (n2 @ r # rest) prev 2 (n @ r # rest) (cut acc) =
     macro_loop e rest r 0 (n @ r # rest) (cut (acc @ lookup_text e n))"
proof (induction n2 arbitrary: n1 prev)
  case Nil
  have r: "r \<noteq> CHR 0x5C" "r = CHR '')'' \<or> r = CHR ''}''" using assms(4) by auto
  have "macro_char e r prev rest 2 (n @ r # rest) (cut acc) = Some (0, n @ r # rest, cut (acc @ lookup_text e n))"
    using r assms(3) getenv_copy [OF assms(1,2), of acc]
    by (auto simp: macro_char_def Let_def bind_eq_Some_conv split: option.splits)
  then show ?case using assms(5) r by simp
next
  case (Cons c n2)
  have c: "c \<noteq> CHR 0x5C" "c \<noteq> CHR '')''" "c \<noteq> CHR ''}''" "set n2 \<inter> {CHR 0x5C, CHR '')'', CHR ''}''} = {}"
    using Cons.prems(1) by auto
  have "macro_loop e ((c # n2) @ r # rest) prev 2 (n @ r # rest) (cut acc) = macro_loop e (n2 @ r # rest) c 2 (n @ r # rest) (cut acc)"
    using assms(5) c by (simp add: macro_char_def)
  then show ?case using Cons.IH [of "n1 @ [c]" c] Cons.prems(2) c by simp
qed

lemma macro_piece:
  assumes e: "env_readable e" and ok: "macro_ok m" and prev: "prev \<noteq> CHR 0x5C"
  shows "\<exists>p vs'. p \<noteq> CHR 0x5C \<and> macro_loop e (macro_syntax m @ rest) prev 0 vs (cut acc) =
    macro_loop e rest p 0 vs' (cut (acc @ macro_text e m))"
proof (cases "length acc < 256")
  case False
  then show ?thesis using prev macro_loop_full [of acc] cut_full [of acc "macro_text e m"] by (intro exI [of _ prev]) simp
next
  case room: True
  show ?thesis
  proof (cases m)
    case (Plain s)
    have "set s \<inter> {CHR 0x5C, CHR 0x27, CHR ''$''} = {}" using ok by (auto simp: Plain)
    from macro_plain [OF this prev, of e rest vs acc] show ?thesis
      unfolding Plain macro_syntax.simps macro_text.simps by (elim exE) (rule exI, rule exI)
  next
    case (Escaped c)
    then show ?thesis
      using ok prev room by (intro exI [of _ c] exI [of _ vs]) (simp add: macro_char_def put_out_def)
  next
    case (Quoted s)
    have "set s \<inter> {CHR 0x5C, CHR 0x27} = {}" using ok by (auto simp: Quoted)
    from macro_quoted [OF this, of "CHR 0x27" e rest vs acc] show ?thesis
      using prev room by (intro exI [of _ "CHR 0x27"] exI [of _ vs]) (simp add: Quoted macro_char_def)
  next
    case (Variable l n r)
    have n: "env_name n" "length n < 256" "r \<in> {CHR '')'', CHR ''}''}" "set n \<inter> {CHR 0x5C, CHR '')'', CHR ''}''} = {}"
        "l = CHR ''('' \<or> l = CHR ''{''" "r \<noteq> CHR 0x5C"
      using ok by (auto simp: Variable)
    have "macro_loop e (macro_syntax m @ rest) prev 0 vs (cut acc) = macro_loop e (n @ r # rest) l 2 (n @ r # rest) (cut acc)"
      using room n(5) prev by (auto simp: Variable macro_char_def)
    moreover have "l \<noteq> CHR 0x5C" using n(5) by auto
    ultimately show ?thesis
      using macro_name [OF e n(1,2,3) room n(4), of "[]" l] n(6) by (intro exI [of _ r] exI [of _ "n @ r # rest"]) (simp add: Variable)
  qed
qed

lemma macro_loop_pieces:
  assumes "env_readable e"
  shows "list_all macro_ok ms \<Longrightarrow> prev \<noteq> CHR 0x5C \<Longrightarrow>
   macro_loop e (concat (map macro_syntax ms)) prev 0 vs (cut acc) = Some (cut (acc @ concat (map (macro_text e) ms)))"
proof (induction ms arbitrary: prev vs acc)
  case (Cons m ms)
  obtain p vs' where "p \<noteq> CHR 0x5C" "macro_loop e (macro_syntax m @ concat (map macro_syntax ms)) prev 0 vs (cut acc) =
      macro_loop e (concat (map macro_syntax ms)) p 0 vs' (cut (acc @ macro_text e m))"
    using macro_piece [OF assms, of m prev "concat (map macro_syntax ms)" vs acc] Cons.prems by auto
  then show ?case using Cons.IH [of p vs' "acc @ macro_text e m"] Cons.prems by simp
qed simp

lemma process_macros_pieces:
  assumes "env_readable e" and "list_all macro_ok ms"
  shows "process_macros e (concat (map macro_syntax ms)) = Some (take 255 (concat (map (macro_text e) ms)) @ [NUL])"
proof -
  let ?x = "concat (map (macro_text e) ms)"
  have "macro_loop e (concat (map macro_syntax ms)) NUL 0 [] [] = Some (cut ?x)"
    using macro_loop_pieces [OF assms, of NUL "[]" "[]"] by simp
  moreover have "butlast (cut ?x) = take 255 ?x" if "256 \<le> length ?x"
    using that by (simp add: butlast_conv_take min_def)
  ultimately show ?thesis by (auto simp: process_macros_def)
qed

section \<open>Looking up a command\<close>

text \<open>The first entry with exactly the name, or else the only entry whose name begins with it.\<close>

definition the_command :: "string \<Rightarrow> cmd_tbl list \<Rightarrow> cmd_tbl option" where
  "the_command p table =
     (case find (\<lambda>c. cmd_name c = p) table of
        Some c \<Rightarrow> Some c
      | None \<Rightarrow> (case filter (\<lambda>c. take (length p) (cmd_name c) = p) table of [c] \<Rightarrow> Some c | _ \<Rightarrow> None))"

lemma find_cmd_loop_count:
  "find_cmd_loop cmd (length p) table temp k =
    (case find (\<lambda>c. cmd_name c = take (length p) cmd \<and> length p = length (cmd_name c)) table of
       Some c \<Rightarrow> Some c
     | None \<Rightarrow> (let ms = filter (\<lambda>c. take (length p) (cmd_name c) = take (length p) cmd) table in
         if k + length ms = 1 then if ms = [] then temp else Some (last ms) else None))"
  by (induction table arbitrary: temp k) (auto simp: Let_def split: option.split)

lemma find_cmd_tbl_spec: "find_cmd_tbl cmd table = the_command (takeWhile (\<lambda>c. c \<noteq> CHR ''.'') cmd) table"
proof -
  let ?p = "takeWhile (\<lambda>c. c \<noteq> CHR ''.'') cmd"
  have p: "take (length ?p) cmd = ?p" by (metis takeWhile_eq_take)
  let ?ms = "filter (\<lambda>c. take (length ?p) (cmd_name c) = ?p) table"
  have "(if length ?ms = 1 then if ?ms = [] then None else Some (last ?ms) else None) = (case ?ms of [c] \<Rightarrow> Some c | _ \<Rightarrow> None)"
    by (auto split: list.split)
  moreover have "find (\<lambda>c. cmd_name c = ?p \<and> length ?p = length (cmd_name c)) table = find (\<lambda>c. cmd_name c = ?p) table"
    by (rule find_cong) auto
  ultimately show ?thesis
    unfolding find_cmd_tbl_def cmd_len_def find_cmd_loop_count p the_command_def Let_def by (simp only: add_0)
qed

section \<open>Commands in a line\<close>

lemma find_sep_char:
  assumes "c \<notin> {NUL, CHR 0x27}" and "q \<or> c \<noteq> CHR '';''" and "buf = pre @ c # post"
  shows "find_sep buf str (length pre) q = find_sep buf str (length (pre @ [c])) q"
  using assms by (subst find_sep.simps) (auto simp: rd_at)

lemma find_sep_chars:
  "set s \<inter> {NUL, CHR 0x27} = {} \<Longrightarrow> q \<or> CHR '';'' \<notin> set s \<Longrightarrow> buf = pre @ s @ post \<Longrightarrow>
   find_sep buf str (length pre) q = find_sep buf str (length (pre @ s)) q"
proof (induction s arbitrary: pre)
  case (Cons c s)
  have "find_sep buf str (length pre) q = find_sep buf str (length (pre @ [c])) q"
    by (rule find_sep_char) (use Cons.prems in auto)
  also have "\<dots> = find_sep buf str (length ((pre @ [c]) @ s)) q"
    by (rule Cons.IH) (use Cons.prems in auto)
  finally show ?case by simp
qed simp

lemma find_sep_quote:
  assumes "buf = (pre @ [p]) @ CHR 0x27 # post"
  shows "find_sep buf str (length (pre @ [p])) q =
    find_sep buf str (length (pre @ [p, CHR 0x27])) (if p \<noteq> CHR 0x5C then \<not> q else q)"
proof -
  have "rd buf (length (pre @ [p])) = Some CHR 0x27" "rd buf (length (pre @ [p]) - 1) = Some p"
    using rd_at [of "pre @ [p]" _ "CHR 0x27" post] rd_at [of pre _ p "CHR 0x27 # post"] by (simp_all add: assms)
  then show ?thesis by (subst find_sep.simps) simp
qed

lemma find_sep_stop:
  assumes buf: "buf = (u @ [y]) @ z # post" and y: "y \<noteq> CHR 0x5C" and z: "z = NUL \<or> z = CHR '';''"
    and str: "str \<noteq> length (u @ [y])"
  shows "find_sep buf str (length (u @ [y])) False = Some (length (u @ [y]))"
proof -
  have r: "rd buf (length (u @ [y])) = Some z" "rd buf (length (u @ [y]) - 1) = Some y"
    using rd_at [of "u @ [y]" _ z post] rd_at [of u _ y "z # post"] by (simp_all add: buf)
  show ?thesis
    using z
  proof
    assume "z = NUL"
    then show ?thesis using r(1) by (subst find_sep.simps) simp
  next
    assume "z = CHR '';''"
    then show ?thesis using r y str by (subst find_sep.simps) simp
  qed
qed

text \<open>A piece is passed over; the last character of what was passed is no backslash.\<close>

lemma find_sep_piece:
  assumes ok: "macro_ok m" and buf: "buf = pre @ macro_syntax m @ post"
    and pre: "pre \<noteq> [] \<Longrightarrow> last pre \<noteq> CHR 0x5C" "(\<exists>s. m = Quoted s) \<Longrightarrow> pre \<noteq> []" and str: "str \<le> length pre"
  shows "find_sep buf str (length pre) False = find_sep buf str (length (pre @ macro_syntax m)) False"
    and "pre @ macro_syntax m \<noteq> [] \<Longrightarrow> last (pre @ macro_syntax m) \<noteq> CHR 0x5C"
proof -
  show "find_sep buf str (length pre) False = find_sep buf str (length (pre @ macro_syntax m)) False"
  proof (cases m)
    case (Plain s)
    have "set s \<inter> {NUL, CHR 0x27} = {}" "False \<or> CHR '';'' \<notin> set s" using ok by (auto simp: Plain)
    from find_sep_chars [OF this, of buf pre post] show ?thesis using buf by (simp add: Plain)
  next
    case (Variable l n r)
    have "set (macro_syntax m) \<inter> {NUL, CHR 0x27} = {}" "False \<or> CHR '';'' \<notin> set (macro_syntax m)"
      using ok by (auto simp: Variable env_name_def)
    from find_sep_chars [OF this, of buf pre post] show ?thesis using buf by simp
  next
    case (Escaped c)
    have c: "c \<noteq> NUL" using ok by (simp add: Escaped)
    have 1: "find_sep buf str (length pre) False = find_sep buf str (length (pre @ [CHR 0x5C])) False"
      by (rule find_sep_char) (use buf in \<open>simp_all add: Escaped\<close>)
    have r: "rd buf (length (pre @ [CHR 0x5C])) = Some c" "rd buf (length (pre @ [CHR 0x5C]) - 1) = Some CHR 0x5C"
      using rd_at [of "pre @ [CHR 0x5C]" _ c post] rd_at [of pre _ "CHR 0x5C" "c # post"] by (simp_all add: buf Escaped)
    have "find_sep buf str (length (pre @ [CHR 0x5C])) False = find_sep buf str (length (pre @ [CHR 0x5C, c])) False"
      using r c by (subst find_sep.simps) auto
    then show ?thesis using 1 by (simp add: Escaped)
  next
    case (Quoted s)
    obtain pre' p where p: "pre = pre' @ [p]" "p \<noteq> CHR 0x5C" using pre Quoted by (cases pre rule: rev_cases) auto
    have s: "set s \<inter> {NUL, CHR 0x27} = {}" "True \<or> CHR '';'' \<notin> set s" "CHR 0x5C \<notin> set s" using ok by (auto simp: Quoted)
    have "find_sep buf str (length (pre' @ [p])) False = find_sep buf str (length (pre' @ [p, CHR 0x27])) True"
      using find_sep_quote [of buf pre' p "s @ CHR 0x27 # post" str False] p buf by (simp add: Quoted)
    also have "\<dots> = find_sep buf str (length ((pre' @ [p, CHR 0x27]) @ s)) True"
      by (rule find_sep_chars [OF s(1,2), of _ _ "CHR 0x27 # post"]) (use buf p in \<open>simp add: Quoted\<close>)
    also have "\<dots> = find_sep buf str (length (pre @ macro_syntax m)) False"
    proof -
      obtain t z where t: "(pre' @ [p, CHR 0x27]) @ s = t @ [z]" by (cases "(pre' @ [p, CHR 0x27]) @ s" rule: rev_cases) auto
      have z: "z \<noteq> CHR 0x5C" using t s(3) by (cases s rule: rev_cases) auto
      have "buf = (t @ [z]) @ CHR 0x27 # post" using buf p by (simp add: Quoted flip: t)
      from find_sep_quote [OF this, of str True] z
      have "find_sep buf str (length (t @ [z])) True = find_sep buf str (length (t @ [z, CHR 0x27])) False" by simp
      moreover have "length (t @ [z, CHR 0x27]) = length (pre @ macro_syntax m)"
        using arg_cong [OF t, of length] p(1) by (simp add: Quoted)
      ultimately show ?thesis unfolding t by simp
    qed
    finally show ?thesis using p by simp
  qed
  show "last (pre @ macro_syntax m) \<noteq> CHR 0x5C" if "pre @ macro_syntax m \<noteq> []"
    using ok that pre(1) by (cases m) (auto simp: last_append dest: last_in_set)
qed

lemma find_sep_pieces:
  "list_all macro_ok ms \<Longrightarrow> buf = pre @ concat (map macro_syntax ms) @ post \<Longrightarrow> (pre \<noteq> [] \<Longrightarrow> last pre \<noteq> CHR 0x5C) \<Longrightarrow>
   (pre = [] \<Longrightarrow> ms \<noteq> [] \<and> macro_syntax (hd ms) \<noteq> [] \<and> (\<nexists>s. hd ms = Quoted s)) \<Longrightarrow> str \<le> length pre \<Longrightarrow>
   find_sep buf str (length pre) False = find_sep buf str (length (pre @ concat (map macro_syntax ms))) False \<and>
   last (pre @ concat (map macro_syntax ms)) \<noteq> CHR 0x5C"
proof (induction ms arbitrary: pre)
  case Nil
  then show ?case by auto
next
  case (Cons m ms)
  have m: "macro_ok m" "buf = pre @ macro_syntax m @ concat (map macro_syntax ms) @ post" "(\<exists>s. m = Quoted s) \<Longrightarrow> pre \<noteq> []"
    using Cons.prems by auto
  have ne: "pre @ macro_syntax m \<noteq> []" using Cons.prems(4) by auto
  have p: "find_sep buf str (length pre) False = find_sep buf str (length (pre @ macro_syntax m)) False"
      "last (pre @ macro_syntax m) \<noteq> CHR 0x5C"
    using find_sep_piece [OF m(1,2) _ _ Cons.prems(5)] Cons.prems(3) m(3) ne by blast+
  have "find_sep buf str (length (pre @ macro_syntax m)) False =
      find_sep buf str (length ((pre @ macro_syntax m) @ concat (map macro_syntax ms))) False \<and>
      last ((pre @ macro_syntax m) @ concat (map macro_syntax ms)) \<noteq> CHR 0x5C"
    by (rule Cons.IH) (use Cons.prems p(2) m ne in auto)
  then show ?case using p(1) by simp
qed

text \<open>
  A line of commands, each a non-empty list of pieces, and what is to be done: each is expanded in the
  environment of its turn, split into words, looked up and executed, in order.
\<close>

fun line_syntax :: "macro list list \<Rightarrow> string" where
  "line_syntax [] = []"
| "line_syntax [ms] = concat (map macro_syntax ms)"
| "line_syntax (ms # mss) = concat (map macro_syntax ms) @ CHR '';'' # line_syntax mss"

fun run_commands ::
    "(cmd_tbl \<Rightarrow> bool \<Rightarrow> string list \<Rightarrow> env \<Rightarrow> (int \<times> bool \<times> env) option) \<Rightarrow> cmd_tbl list \<Rightarrow> bool \<Rightarrow> int \<Rightarrow> bool \<Rightarrow>
     macro list list \<Rightarrow> env \<Rightarrow> (int \<times> env) option" where
  "run_commands exec table flag rc repeat [] e = Some (if rc \<noteq> 0 then rc else if repeat then 1 else 0, e)"
| "run_commands exec table flag rc repeat (ms # mss) e =
     (let args = take 16 (words (take 255 (concat (map (macro_text e) ms)))) in
      if args = [] then run_commands exec table flag (- 1) repeat mss e
      else (case the_command (takeWhile (\<lambda>c. c \<noteq> CHR ''.'') (hd args)) table of
          None \<Rightarrow> run_commands exec table flag (- 1) repeat mss e
        | Some c \<Rightarrow>
            if length args > maxargs c \<or> is_bootd c \<and> flag then run_commands exec table flag (- 1) repeat mss e
            else do {
              (r, stop, e) \<leftarrow> exec c (flag \<or> is_bootd c) args e;
              if stop then Some (- 1, e)
              else run_commands exec table (flag \<or> is_bootd c) (if r \<noteq> 0 then - 1 else rc) (repeat \<and> repeatable c) mss e }))"

definition commands_ok :: "macro list list \<Rightarrow> bool" where
  "commands_ok mss \<longleftrightarrow> (\<forall>ms\<in>set mss. list_all macro_ok ms \<and> ms \<noteq> [] \<and> macro_syntax (hd ms) \<noteq> [])"

lemma macro_syntax_nul: "macro_ok m \<Longrightarrow> NUL \<notin> set (macro_syntax m)"
  by (cases m) (auto simp: env_name_def)

lemma pieces_nul: "list_all macro_ok ms \<Longrightarrow> NUL \<notin> set (concat (map macro_syntax ms))"
  using macro_syntax_nul by (fastforce simp: list_all_iff)

lemma text_nul:
  assumes "env_readable e" and "list_all macro_ok ms"
  shows "NUL \<notin> set (concat (map (macro_text e) ms))"
proof -
  obtain es where h: "env_holds e es" using assms(1) by (auto simp: env_readable_def)
  have "NUL \<notin> set (lookup_text e n)" if "env_name n" for n
    using env_lookup_entries [OF h that] entries_ok_value [of es n] h
    by (auto simp: lookup_text_def env_holds_def env_array_ok_def split: option.split)
  then have "NUL \<notin> set (macro_text e m)" if "macro_ok m" for m
    using that by (cases m) auto
  then show ?thesis using assms(2) by (fastforce simp: list_all_iff)
qed

lemma run_token_pieces:
  assumes e: "env_readable e" and ok: "list_all macro_ok ms" and argv: "length argv0 = 17"
  shows "run_token exec table argv0 flag (concat (map macro_syntax ms)) e =
    (let args = take 16 (words (take 255 (concat (map (macro_text e) ms)))) in
      if args = [] then Some (Inl ())
      else (case the_command (takeWhile (\<lambda>c. c \<noteq> CHR ''.'') (hd args)) table of
          None \<Rightarrow> Some (Inl ())
        | Some c \<Rightarrow>
            if length args > maxargs c \<or> is_bootd c \<and> flag then Some (Inl ())
            else do {
              (r, stop, e) \<leftarrow> exec c (flag \<or> is_bootd c) args e;
              Some (Inr (flag \<or> is_bootd c, r, repeatable c, stop, e)) }))"
proof -
  let ?x = "take 255 (concat (map (macro_text e) ms))"
  let ?n = "min 16 (length (words ?x))"
  have "NUL \<notin> set ?x" using text_nul [OF e ok] in_set_takeD by metis
  then obtain argv line where p: "parse_line (?x @ [NUL]) argv0 = Some (?n, argv, line)"
      "argv_strings line argv ?n = take 16 (words ?x)"
    using parse_line_words [OF _ argv, of ?x "[]"] by auto
  have n: "(?n = 0) = (take 16 (words ?x) = [])" "length (take 16 (words ?x)) = ?n" by (cases "words ?x"; simp)+
  show ?thesis
    unfolding run_token_def process_macros_pieces [OF e ok] bind.bind_lunit p(1) prod.case p(2) n(1) find_cmd_tbl_spec Let_def n(2)
    by (auto split: option.split)
qed

lemma line_syntax_nul: "commands_ok mss \<Longrightarrow> NUL \<notin> set (line_syntax mss)"
  by (induction mss rule: line_syntax.induct) (use pieces_nul in \<open>auto simp: commands_ok_def\<close>)

text \<open>
  \<open>exec\<close> must leave an environment that can be read.
\<close>

definition exec_ok :: "(cmd_tbl \<Rightarrow> bool \<Rightarrow> string list \<Rightarrow> env \<Rightarrow> (int \<times> bool \<times> env) option) \<Rightarrow> bool" where
  "exec_ok exec \<longleftrightarrow> (\<forall>c f args e r stop e'. env_readable e \<longrightarrow> exec c f args e = Some (r, stop, e') \<longrightarrow> env_readable e')"

lemma run_loop_step:
  assumes argv: "length argv0 = 17" and exec: "exec_ok exec" and e: "env_readable e"
    and ok: "list_all macro_ok ms" "ms \<noteq> []" "macro_syntax (hd ms) \<noteq> []"
    and pre: "pre = [] \<Longrightarrow> \<nexists>s. hd ms = Quoted s" "pre \<noteq> [] \<Longrightarrow> last pre \<noteq> CHR 0x5C"
    and t: "t = concat (map macro_syntax ms)" and z: "z = NUL \<or> z = CHR '';''"
    and tail: "\<And>flag rc repeat e. env_readable e \<Longrightarrow>
      run_loop exec table argv0 (pre @ t @ NUL # post) (if z = NUL then length (pre @ t) else length (pre @ t) + 1) flag rc repeat e =
      run_commands exec table flag rc repeat mss e"
  shows "run_loop exec table argv0 (pre @ t @ z # post) (length pre) flag rc repeat e =
    run_commands exec table flag rc repeat (ms # mss) e"
proof -
  let ?buf = "pre @ t @ z # post"
  have nul: "NUL \<notin> set t" using pieces_nul [OF ok(1)] by (simp add: t)
  have ne: "t \<noteq> []" using ok(2,3) by (cases ms) (simp_all add: t)
  have hd: "rd ?buf (length pre) = Some (hd t)" "hd t \<noteq> NUL"
    using ne nul rd_at [of pre _ "hd t" "tl t @ z # post"] by (cases t; auto)+
  have f: "find_sep ?buf (length pre) (length pre) False = find_sep ?buf (length pre) (length (pre @ t)) False \<and>
      last (pre @ t) \<noteq> CHR 0x5C"
    unfolding t by (rule find_sep_pieces [OF ok(1), of _ pre "z # post"]) (use ok pre in auto)
  obtain u y where u: "pre @ t = u @ [y]" "y \<noteq> CHR 0x5C" using f ne by (cases "pre @ t" rule: rev_cases) auto
  have r: "rd ?buf (length (pre @ t)) = Some z" using rd_at [of "pre @ t" _ z post] by simp
  have sep: "find_sep ?buf (length pre) (length pre) False = Some (length (pre @ t))"
  proof -
    have "?buf = (u @ [y]) @ z # post" using u(1) by (metis append_assoc)
    moreover have "length pre \<noteq> length (u @ [y])" using ne unfolding u(1) [symmetric] by simp
    ultimately have "find_sep ?buf (length pre) (length (u @ [y])) False = Some (length (u @ [y]))"
      by (rule find_sep_stop [OF _ u(2) z])
    then show ?thesis using f unfolding u(1) [symmetric] by (simp only:)
  qed
  have w: "wr ?buf (length (pre @ t)) NUL = Some (pre @ t @ NUL # post)" using wr_at [of "pre @ t" _ z post NUL] by simp
  have tok: "string_at (pre @ t @ NUL # post) (length pre) = t" by (rule string_at_text [OF nul refl])
  let ?str = "if z = NUL then length (pre @ t) else length (pre @ t) + 1"
  have buf: "(if z \<noteq> NUL then do { buf \<leftarrow> wr ?buf (length (pre @ t)) NUL; Some (buf, length (pre @ t) + 1) }
      else Some (?buf, length (pre @ t))) = Some (pre @ t @ NUL # post, ?str)"
    using w by auto
  have "run_loop exec table argv0 ?buf (length pre) flag rc repeat e = do {
       x \<leftarrow> run_token exec table argv0 flag t e;
       (case x of
          Inl _ \<Rightarrow> run_commands exec table flag (- 1) repeat mss e
        | Inr (flag, r, rep, ctrlc, e) \<Rightarrow>
            let rc = (if r \<noteq> 0 then - 1 else rc); repeat = (repeat \<and> rep) in
            if ctrlc then Some (- 1, e)
            else run_loop exec table argv0 (pre @ t @ NUL # post) ?str flag rc repeat e) }"
    using hd(2) e tail by (subst run_loop.simps) (simp only: hd(1) sep r buf tok Let_def bind.bind_lunit prod.case if_False)
  also have "\<dots> = run_commands exec table flag rc repeat (ms # mss) e"
  proof -
    define args where "args = take 16 (words (take 255 (concat (map (macro_text e) ms))))"
    note token = run_token_pieces [OF e ok(1) argv, of exec table flag, folded t args_def, unfolded Let_def]
    note spec = run_commands.simps(2) [of exec table flag rc repeat ms mss e, folded args_def, unfolded Let_def]
    show ?thesis
    proof (cases "args = []")
      case True
      then show ?thesis unfolding token spec by simp
    next
      case False
      show ?thesis
      proof (cases "the_command (takeWhile (\<lambda>c. c \<noteq> CHR ''.'') (hd args)) table")
        case None
        then show ?thesis unfolding token spec using False by simp
      next
        case cmd: (Some c)
        show ?thesis
        proof (cases "length args > maxargs c \<or> is_bootd c \<and> flag")
          case True
          then show ?thesis unfolding token spec using False cmd by simp
        next
          case run: False
          show ?thesis
          proof (cases "exec c (flag \<or> is_bootd c) args e")
            case None
            then show ?thesis unfolding token spec if_not_P [OF False] cmd option.case if_not_P [OF run] by simp
          next
            case (Some x)
            obtain r stop e' where x: "x = (r, stop, e')" by (cases x)
            have "env_readable e'" using exec e Some unfolding x exec_ok_def by blast
            note tl = tail [OF this]
            show ?thesis
              unfolding token spec if_not_P [OF False] cmd option.case if_not_P [OF run] Some x bind.bind_lunit prod.case
              by (simp only: sum.case prod.case Let_def tl)
          qed
        qed
      qed
    qed
  qed
  finally show ?thesis .
qed


lemma run_loop_commands:
  assumes argv: "length argv0 = 17" and exec: "exec_ok exec"
  shows "env_readable e \<Longrightarrow> commands_ok mss \<Longrightarrow> (pre = [] \<Longrightarrow> mss \<noteq> [] \<and> (\<nexists>s. hd (hd mss) = Quoted s)) \<Longrightarrow>
    (pre \<noteq> [] \<Longrightarrow> last pre \<noteq> CHR 0x5C) \<Longrightarrow>
    run_loop exec table argv0 (pre @ line_syntax mss @ NUL # rest) (length pre) flag rc repeat e =
      run_commands exec table flag rc repeat mss e"
proof (induction mss arbitrary: pre flag rc repeat e rule: line_syntax.induct)
  case 1
  then show ?case by (subst run_loop.simps) (simp add: rd_at)
next
  case (2 ms)
  have ms: "list_all macro_ok ms" "ms \<noteq> []" "macro_syntax (hd ms) \<noteq> []" using 2 by (simp_all add: commands_ok_def)
  let ?t = "concat (map macro_syntax ms)"
  have "run_loop exec table argv0 (pre @ ?t @ NUL # rest) (length pre) flag rc repeat e =
      run_commands exec table flag rc repeat [ms] e"
  proof (rule run_loop_step [OF argv exec 2(1) ms _ _ refl])
    show "run_loop exec table argv0 (pre @ ?t @ NUL # rest) (if NUL = NUL then length (pre @ ?t) else length (pre @ ?t) + 1) flag rc repeat e =
        run_commands exec table flag rc repeat [] e" for flag rc repeat e
      using rd_at [of "pre @ ?t" _ NUL rest] by (subst run_loop.simps) simp
  qed (use 2 in auto)
  then show ?case by simp
next
  case (3 ms ms' mss)
  have ms: "list_all macro_ok ms" "ms \<noteq> []" "macro_syntax (hd ms) \<noteq> []" using 3 by (simp_all add: commands_ok_def)
  let ?t = "concat (map macro_syntax ms)" and ?p = "line_syntax (ms' # mss) @ NUL # rest"
  have "run_loop exec table argv0 (pre @ ?t @ CHR '';'' # ?p) (length pre) flag rc repeat e =
      run_commands exec table flag rc repeat (ms # ms' # mss) e"
  proof (rule run_loop_step [OF argv exec 3(2) ms _ _ refl])
    show "run_loop exec table argv0 (pre @ ?t @ NUL # ?p) (if CHR '';'' = NUL then length (pre @ ?t) else length (pre @ ?t) + 1) flag rc repeat e =
        run_commands exec table flag rc repeat (ms' # mss) e" if "env_readable e" for flag rc repeat e
      using "3.IH" [OF that, of "pre @ ?t @ [NUL]" flag rc repeat] 3(3) by (simp add: commands_ok_def)
  qed (use 3 in auto)
  then show ?case by simp
qed

lemma run_command_pieces:
  assumes "env_readable e" and "commands_ok mss" and "mss \<noteq> []" and "\<nexists>s. hd (hd mss) = Quoted s"
    and "length (line_syntax mss) < 256" and "length argv0 = 17" and "exec_ok exec"
  shows "run_command exec table argv0 rest (Some (line_syntax mss)) flag e = run_commands exec table flag 0 True mss e"
proof -
  have "line_syntax mss \<noteq> []"
    using assms(2,3) by (cases mss rule: line_syntax.cases) (auto simp: commands_ok_def neq_Nil_conv)
  then show ?thesis
    using run_loop_commands [OF assms(6,7,1,2), of "[]" table rest flag 0 True] assms(3,4,5) by (simp add: run_command_def)
qed

section \<open>Running variables\<close>

lemma getenv_lookup:
  assumes "env_lookup e name = Some (Some v)"
  shows "\<exists>r i. getenv e name = Some (Some (r, i)) \<and> string_at (env_array e) i = v"
  using assms by (auto simp: env_lookup_def)

lemma do_run_pieces:
  assumes "env_lookup e name = Some (Some (line_syntax mss))" and "env_readable e" and "commands_ok mss" and "mss \<noteq> []"
    and "\<nexists>s. hd (hd mss) = Quoted s" and "length (line_syntax mss) < 256" and "length argv0 = 17" and "exec_ok exec"
  shows "do_run exec table argv0 rest [cmd, name] flag e =
    map_option (\<lambda>(r, e'). (if r = - 1 then 1 else 0, e')) (run_commands exec table flag 0 True mss e)"
proof -
  obtain r i where g: "getenv e name = Some (Some (r, i))" "string_at (env_array e) i = line_syntax mss"
    using getenv_lookup [OF assms(1)] by blast
  show ?thesis
    by (cases "run_commands exec table flag 0 True mss e")
      (auto simp: do_run_def g run_command_pieces [OF assms(2-8)])
qed

section \<open>Where the parser goes astray\<close>

text \<open>A quote at the start of a command line: the character before the buffer is read.\<close>

lemma run_command_first_quote:
  assumes "length s < 255"
  shows "run_command exec table argv0 rest (Some (CHR 0x27 # s)) flag e = None"
  using assms by (simp add: run_command_def run_loop.simps [of _ _ _ _ 0] find_sep.simps [of _ 0 0])

text \<open>A \<open>$\<close> at the end is lost, and a backslash that is itself escaped still protects a \<open>$\<close> behind it.\<close>

lemma process_macros_dollar: "process_macros e ''5$'' = Some (''5'' @ [NUL])"
  by (simp add: process_macros_def macro_char_def put_out_def)

lemma process_macros_backslash:
  "process_macros e ([CHR 0x5C, CHR 0x5C] @ ''${a}'') = Some ([CHR 0x5C] @ ''${a}'' @ [NUL])"
  by (simp add: process_macros_def macro_char_def put_out_def)

section \<open>Properties\<close>

text \<open>
  \<open>parse_line\<close> returns the number of words of the line, sixteen at most; \<open>argv\<close> points to these
  words, each ended in place by a NUL, and ends with \<open>NULL\<close> when there are fewer than sixteen.
\<close>

theorem parse_line_correct:
  assumes "NUL \<notin> set s" and "length argv = 17"
  shows "\<exists>argv' line'. parse_line (s @ NUL # rest) argv = Some (min 16 (length (words s)), argv', line') \<and>
    argv_strings line' argv' (min 16 (length (words s))) = take 16 (words s) \<and>
    (length (words s) < 16 \<longrightarrow> argv' ! length (words s) = None)"
  by (rule parse_line_words [OF assms])

theorem parse_line_correct_witness:
  "\<exists>argv' line'. parse_line ('' cp.b  1 '' @ [NUL]) (replicate 17 (Some 3)) = Some (2, argv', line') \<and>
    argv_strings line' argv' 2 = [''cp.b'', ''1''] \<and> argv' ! 2 = None"
proof -
  have w: "words '' cp.b  1 '' = [''cp.b'', ''1'']" by (simp add: words.simps blank_def Let_def)
  show ?thesis
    using parse_line_correct [of "'' cp.b  1 ''" "replicate 17 (Some 3)" "[]"] unfolding w by (simp add: numeral_2_eq_2)
qed

text \<open>
  A line written from plain text, escaped characters, text in quotes and variables in brackets is
  expanded piece by piece: one level of backslashes and the quotes go, variables are replaced by their
  values (nothing when undefined), and the result is cut at 255 characters.  No access leaves a buffer.
\<close>

theorem process_macros_correct:
  assumes "env_readable e" and "list_all macro_ok ms"
  shows "process_macros e (concat (map macro_syntax ms)) = Some (take 255 (concat (map (macro_text e) ms)) @ [NUL])"
  by (rule process_macros_pieces [OF assms])

theorem process_macros_correct_witness:
  "process_macros demo_env (''echo ${a}'' @ CHR 0x27 # '';$'' @ [CHR 0x27]) = Some (''echo 1;$'' @ [NUL])"
proof -
  have "env_readable demo_env" using demo_ok(3) by (auto simp: env_readable_def)
  moreover have "lookup_text demo_env ''a'' = ''1''"
    using env_lookup_entries [OF demo_ok(3), of "''a''"] by (simp add: lookup_text_def env_name_def)
  ultimately show ?thesis
    using process_macros_correct [of demo_env "[Plain ''echo '', Variable CHR ''{'' ''a'' CHR ''}'', Quoted '';$'']"]
    by (simp add: env_name_def)
qed

text \<open>
  C5: \<open>run_command\<close> on a line of commands between semicolons expands each command in the environment
  its predecessors left, splits it, looks it up (a full match, or a unique abbreviation, up to a dot)
  and runs it with its arguments, in order; unknown commands and those with too many arguments are
  skipped and make the result -1, Control C stops the line, a second \<open>bootd\<close> is refused, and otherwise
  the result tells whether all commands are repeatable.  \<open>run name\<close> does this for a variable.
\<close>

theorem run_command_correct:
  assumes "env_readable e" and "commands_ok mss" and "mss \<noteq> []" and "\<nexists>s. hd (hd mss) = Quoted s"
    and "length (line_syntax mss) < 256" and "length argv0 = 17" and "exec_ok exec"
  shows "run_command exec table argv0 rest (Some (line_syntax mss)) flag e = run_commands exec table flag 0 True mss e \<and>
    (env_lookup e name = Some (Some (line_syntax mss)) \<longrightarrow>
      do_run exec table argv0 rest [cmd, name] flag e =
        map_option (\<lambda>(r, e'). (if r = - 1 then 1 else 0, e')) (run_commands exec table flag 0 True mss e))"
  using run_command_pieces [OF assms] do_run_pieces [OF _ assms] by blast

theorem run_command_correct_witness:
  "run_command (\<lambda>c f args e. Some (if args = [''go'', ''1''] then 0 else 7, False, e))
     [\<lparr>cmd_name = ''go'', maxargs = 2, repeatable = True, is_bootd = False\<rparr>] (replicate 17 None) [] (Some ''go ${a};go x y'') False demo_env =
   Some (- 1, demo_env)"
proof -
  have "env_readable demo_env" using demo_ok(3) by (auto simp: env_readable_def)
  moreover have l: "lookup_text demo_env ''a'' = ''1''"
    using env_lookup_entries [OF demo_ok(3), of "''a''"] by (simp add: lookup_text_def env_name_def)
  moreover have "words ''go 1'' = [''go'', ''1'']" "words ''go x y'' = [''go'', ''x'', ''y'']"
    by (simp_all add: words.simps blank_def Let_def)
  moreover have "exec_ok (\<lambda>c f args e. Some (if args = [''go'', ''1''] then 0 else 7, False, e))" by (simp add: exec_ok_def)
  ultimately show ?thesis
    using run_command_correct [of demo_env "[[Plain ''go '', Variable CHR ''{'' ''a'' CHR ''}''], [Plain ''go x y'']]" "replicate 17 None"
      "\<lambda>c f args e. Some (if args = [''go'', ''1''] then 0 else 7, False, e)"
      "[\<lparr>cmd_name = ''go'', maxargs = 2, repeatable = True, is_bootd = False\<rparr>]" "[]" False]
    by (simp add: commands_ok_def env_name_def the_command_def)
qed

end
