(* ===== verification/LineEdit.thy ===== *)
theory LineEdit
  imports CmdLine
begin

text \<open>
  Reading a line from the console: \<^verbatim>\<open>common/main.c\<close>, the history ring, the editor \<open>cread_line\<close>
  (\<open>CONFIG_CMDLINE_EDITING\<close>, as in \<^verbatim>\<open>include/configs/imapx800.h\<close>) and the plain reader that is used
  before relocation.  The characters typed are a list; the characters sent to the terminal are
  collected in a list.  Time-outs and name completion are compiled out.
\<close>

section \<open>History\<close>

text \<open>
  \<open>hist_list[i]\<close> is \<open>hist_lines[i]\<close> once \<open>hist_init\<close> has run: the pointers are left out.  \<open>HIST_MAX\<close> is 20
  and \<open>HIST_SIZE\<close> is 256.
\<close>

record history =
  hist_max :: nat
  hist_add_idx :: nat
  hist_cur :: int
  hist_num :: u32
  hist_lines :: "string list"

definition hist_init :: "history \<Rightarrow> history" where
  "hist_init h = \<lparr>hist_max = 0, hist_add_idx = 0, hist_cur = - 1, hist_num = 0,
     hist_lines = map (\<lambda>l. l[0 := NUL]) (hist_lines h)\<rparr>"

definition cread_add_to_hist :: "string \<Rightarrow> history \<Rightarrow> history option" where
  "cread_add_to_hist line h = do {
     old \<leftarrow> rd (hist_lines h) (hist_add_idx h);
     if length line < length old
     then do {
       ls \<leftarrow> wr (hist_lines h) (hist_add_idx h) (line @ NUL # drop (length line + 1) old);
       let add = (if 20 \<le> hist_add_idx h + 1 then 0 else hist_add_idx h + 1);
       Some \<lparr>hist_max = (if add > hist_max h then add else hist_max h), hist_add_idx = add, hist_cur = hist_cur h,
         hist_num = hist_num h + 1, hist_lines = ls\<rparr> }
     else None }"

definition hist_line :: "history \<Rightarrow> string option" where
  "hist_line h = do { l \<leftarrow> rd (hist_lines h) (nat (hist_cur h)); Some (string_at l 0) }"

text \<open>The line returned, \<open>None\<close> being \<open>NULL\<close>.\<close>

definition hist_prev :: "history \<Rightarrow> (string option \<times> history) option" where
  "hist_prev h =
     (if hist_cur h < 0 then Some (None, h)
      else do {
        let old_cur = hist_cur h;
        let cur = hist_cur h - 1;
        let cur = (if cur < 0 then int (hist_max h) else cur);
        if cur = int (hist_add_idx h) then Some (None, h\<lparr>hist_cur := old_cur\<rparr>)
        else do { l \<leftarrow> hist_line (h\<lparr>hist_cur := cur\<rparr>); Some (Some l, h\<lparr>hist_cur := cur\<rparr>) } })"

definition hist_next :: "history \<Rightarrow> (string option \<times> history) option" where
  "hist_next h =
     (if hist_cur h < 0 then Some (None, h)
      else if hist_cur h = int (hist_add_idx h) then Some (None, h)
      else do {
        let cur = hist_cur h + 1;
        let cur = (if cur > int (hist_max h) then 0 else cur);
        if cur = int (hist_add_idx h) then Some (Some [], h\<lparr>hist_cur := cur\<rparr>)
        else do { l \<leftarrow> hist_line (h\<lparr>hist_cur := cur\<rparr>); Some (Some l, h\<lparr>hist_cur := cur\<rparr>) } })"

section \<open>The editor\<close>

text \<open>
  The local variables of \<open>cread_line\<close>, with the buffer of 256 bytes and the characters sent to the
  terminal.  \<open>num\<close> is the position of the cursor, \<open>eol_num\<close> the length of the line.
\<close>

record cread =
  cbuf :: string
  cnum :: nat
  eol_num :: nat
  ins_mode :: bool
  esc_len :: nat
  esc_save :: string
  tty :: string

abbreviation BS :: char where "BS \<equiv> CHR 0x08"

definition putch :: "char \<Rightarrow> cread \<Rightarrow> cread" where
  "putch c e = e\<lparr>tty := tty e @ [c]\<rparr>"

definition backspaces :: "nat \<Rightarrow> cread \<Rightarrow> cread" where
  "backspaces n e = e\<lparr>tty := tty e @ replicate n BS\<rparr>"

text \<open>\<open>putnstr (buf + i, n)\<close>: \<open>printf ("%.*s")\<close> stops at a NUL.\<close>

definition putnstr :: "nat \<Rightarrow> nat \<Rightarrow> cread \<Rightarrow> cread option" where
  "putnstr i n e = (if i + n \<le> length (cbuf e)
     then Some (e\<lparr>tty := tty e @ takeWhile (\<lambda>c. c \<noteq> NUL) (take n (drop i (cbuf e)))\<rparr>) else None)"

text \<open>\<open>memmove (&buf[dst], &buf[src], n)\<close> and \<open>buf[i] = c\<close>.\<close>

definition buf_move :: "nat \<Rightarrow> nat \<Rightarrow> nat \<Rightarrow> cread \<Rightarrow> cread option" where
  "buf_move dst src n e = (let b = cbuf e in
     if dst + n \<le> length b \<and> src + n \<le> length b
     then Some (e\<lparr>cbuf := take dst b @ take n (drop src b) @ drop (dst + n) b\<rparr>) else None)"

definition buf_set :: "nat \<Rightarrow> char \<Rightarrow> cread \<Rightarrow> cread option" where
  "buf_set i c e = do { b \<leftarrow> wr (cbuf e) i c; Some (e\<lparr>cbuf := b\<rparr>) }"

definition beginning_of_line :: "cread \<Rightarrow> cread" where
  "beginning_of_line e = backspaces (cnum e) e\<lparr>cnum := 0\<rparr>"

definition erase_to_eol :: "cread \<Rightarrow> cread" where
  "erase_to_eol e =
     (if cnum e < eol_num e
      then backspaces (eol_num e - cnum e) (e\<lparr>tty := tty e @ replicate (eol_num e - cnum e) CHR '' ''\<rparr>)\<lparr>eol_num := cnum e\<rparr>
      else e)"

definition refresh_to_eol :: "cread \<Rightarrow> cread option" where
  "refresh_to_eol e =
     (if cnum e < eol_num e
      then do { e' \<leftarrow> putnstr (cnum e) (eol_num e - cnum e) e; Some (e'\<lparr>cnum := eol_num e\<rparr>) }
      else Some e)"

text \<open>\<open>len\<close> is 256: the line may grow to 256 characters.\<close>

definition cread_add_char :: "char \<Rightarrow> cread \<Rightarrow> cread option" where
  "cread_add_char c e =
     (if (ins_mode e \<or> cnum e = eol_num e) \<and> eol_num e > 255 then Some (putch CHR 0x07 e)
      else do {
        let e = (if ins_mode e \<or> cnum e = eol_num e then e\<lparr>eol_num := eol_num e + 1\<rparr> else e);
        if ins_mode e
        then do {
          let wlen = eol_num e - cnum e;
          e \<leftarrow> (if wlen > 1 then buf_move (cnum e + 1) (cnum e) (wlen - 1) e else Some e);
          e \<leftarrow> buf_set (cnum e) c e;
          e \<leftarrow> putnstr (cnum e) wlen e;
          Some (backspaces (wlen - 1) (e\<lparr>cnum := cnum e + 1\<rparr>)) }
        else do {
          e \<leftarrow> buf_set (cnum e) c e;
          e \<leftarrow> putnstr (cnum e) 1 e;
          Some (e\<lparr>cnum := cnum e + 1\<rparr>) } })"

fun cread_add_str :: "string \<Rightarrow> cread \<Rightarrow> cread option" where
  "cread_add_str [] e = Some e"
| "cread_add_str (c # s) e = do { e \<leftarrow> cread_add_char c e; cread_add_str s e }"

text \<open>\<open>strcpy (buf, hline)\<close>.\<close>

definition cread_hist :: "string \<Rightarrow> cread \<Rightarrow> cread option" where
  "cread_hist hline e = do {
     let e = erase_to_eol (beginning_of_line e);
     if length hline < length (cbuf e)
     then refresh_to_eol (e\<lparr>cbuf := hline @ NUL # drop (length hline + 1) (cbuf e), eol_num := length hline\<rparr>)
     else None }"

text \<open>
  The \<open>switch\<close> on a character: whether it was Control C, the editor and the history.
\<close>

definition cread_switch :: "char \<Rightarrow> cread \<Rightarrow> history \<Rightarrow> (bool \<times> cread \<times> history) option" where
  "cread_switch c e h =
     (if c = CHR 0x1B
      then if esc_len e = 0 then do { s \<leftarrow> wr (esc_save e) 0 c; Some (False, e\<lparr>esc_save := s, esc_len := 1\<rparr>, h) }
        else Some (False, e\<lparr>esc_len := 0\<rparr>, h)
      else if c = CHR 0x01 then Some (False, beginning_of_line e, h)
      else if c = CHR 0x03 then do { e \<leftarrow> buf_set 0 NUL e; Some (True, e, h) }
      else if c = CHR 0x06
      then if cnum e < eol_num e
        then do { d \<leftarrow> rd (cbuf e) (cnum e); Some (False, putch d e\<lparr>cnum := cnum e + 1\<rparr>, h) }
        else Some (False, e, h)
      else if c = CHR 0x02
      then Some (False, if cnum e \<noteq> 0 then putch BS e\<lparr>cnum := cnum e - 1\<rparr> else e, h)
      else if c = CHR 0x04
      then if cnum e < eol_num e
        then do {
          let wlen = eol_num e - cnum e - 1;
          e \<leftarrow> (if wlen \<noteq> 0 then do { e \<leftarrow> buf_move (cnum e) (cnum e + 1) wlen e; putnstr (cnum e) wlen e } else Some e);
          Some (False, backspaces (wlen + 1) (putch CHR '' '' e)\<lparr>eol_num := eol_num e - 1\<rparr>, h) }
        else Some (False, e, h)
      else if c = CHR 0x0B then Some (False, erase_to_eol e, h)
      else if c = CHR 0x05 then do { e \<leftarrow> refresh_to_eol e; Some (False, e, h) }
      else if c = CHR 0x0F then Some (False, e\<lparr>ins_mode := \<not> ins_mode e\<rparr>, h)
      else if c = CHR 0x18 \<or> c = CHR 0x15 then Some (False, erase_to_eol (beginning_of_line e), h)
      else if c = CHR 0xFF \<or> c = CHR 0x7F \<or> c = CHR 0x08
      then if cnum e \<noteq> 0
        then do {
          let wlen = eol_num e - cnum e;
          let e = e\<lparr>cnum := cnum e - 1\<rparr>;
          e \<leftarrow> buf_move (cnum e) (cnum e + 1) wlen e;
          e \<leftarrow> putnstr (cnum e) wlen (putch BS e);
          Some (False, backspaces (wlen + 1) (putch CHR '' '' e)\<lparr>eol_num := eol_num e - 1\<rparr>, h) }
        else Some (False, e, h)
      else if c = CHR 0x10 \<or> c = CHR 0x0E
      then do {
        let e = e\<lparr>esc_len := 0\<rparr>;
        (hline, h) \<leftarrow> (if c = CHR 0x10 then hist_prev h else hist_next h);
        (case hline of
           None \<Rightarrow> Some (False, putch CHR 0x07 e, h)
         | Some l \<Rightarrow> do { e \<leftarrow> cread_hist l e; Some (False, e, h) }) }
      else do { e \<leftarrow> cread_add_char c e; Some (False, e, h) })"

text \<open>The control character an arrow key stands for.\<close>

definition arrow_key :: "char \<Rightarrow> char option" where
  "arrow_key c =
     (if c = CHR ''D'' then Some CHR 0x02 else if c = CHR ''C'' then Some CHR 0x06
      else if c = CHR ''H'' then Some CHR 0x01 else if c = CHR ''A'' then Some CHR 0x10
      else if c = CHR ''B'' then Some CHR 0x0E else None)"

text \<open>One character that is no end of line: the escape sequences, and the \<open>switch\<close>.\<close>

definition cread_char :: "char \<Rightarrow> cread \<Rightarrow> history \<Rightarrow> (bool \<times> cread \<times> history) option" where
  "cread_char c e h =
     (if esc_len e = 0 then cread_switch c e h
      else if esc_len e = 1
      then if c = CHR ''[''
        then do { s \<leftarrow> wr (esc_save e) 1 c; Some (False, e\<lparr>esc_save := s, esc_len := 2\<rparr>, h) }
        else do { e \<leftarrow> cread_add_str (take (esc_len e) (esc_save e)) e; Some (False, e\<lparr>esc_len := 0\<rparr>, h) }
      else (case arrow_key c of
          Some k \<Rightarrow> cread_switch k (e\<lparr>esc_len := 0\<rparr>) h
        | None \<Rightarrow> do {
            s \<leftarrow> wr (esc_save e) (esc_len e) c;
            e \<leftarrow> cread_add_str (take (esc_len e + 1) s) (e\<lparr>esc_save := s, esc_len := esc_len e + 1\<rparr>);
            Some (False, e\<lparr>esc_len := 0\<rparr>, h) }))"

text \<open>
  The loop: the result, the length of the line (\<open>*len\<close>), the editor, the history and the characters not
  read yet; \<open>None\<close> also when the input ends first.
\<close>

fun cread_loop :: "string \<Rightarrow> cread \<Rightarrow> history \<Rightarrow> (int \<times> cread \<times> history \<times> string) option" where
  "cread_loop [] e h = None"
| "cread_loop (c # input) e h =
     (if c = CHR 0x0A \<or> c = CHR 0x0D
      then do {
        let e = putch CHR 0x0A e;
        e \<leftarrow> buf_set (eol_num e) NUL e;
        b0 \<leftarrow> rd (cbuf e) 0;
        h \<leftarrow> (if b0 \<noteq> NUL \<and> b0 \<noteq> CHR ''!'' then cread_add_to_hist (string_at (cbuf e) 0) h else Some h);
        Some (0, e, h\<lparr>hist_cur := int (hist_add_idx h)\<rparr>, input) }
      else do {
        (brk, e, h) \<leftarrow> cread_char c e h;
        if brk then Some (- 1, e, h, input) else cread_loop input e h })"

definition cread_line :: "string \<Rightarrow> string \<Rightarrow> string \<Rightarrow> history \<Rightarrow> (int \<times> cread \<times> history \<times> string) option" where
  "cread_line garbage buf input h = cread_loop input
     \<lparr>cbuf = buf, cnum = 0, eol_num = 0, ins_mode = True, esc_len = 0, esc_save = garbage, tty = []\<rparr> h"

section \<open>The plain reader\<close>

text \<open>
  The variables of \<open>readline_into_buffer\<close> without editing: \<open>p\<close> as an index, \<open>n\<close>, the output column, and
  the characters sent to the terminal.  \<open>plen\<close> is the length of the prompt.
\<close>

record plain =
  pbuf :: string
  pp :: nat
  pn :: nat
  pcol :: nat
  ptty :: string

abbreviation TAB :: char where "TAB \<equiv> CHR 0x09"

abbreviation erase_seq :: string where "erase_seq \<equiv> [BS, CHR '' '', BS]"

text \<open>Typing a character on the terminal: tabs are expanded to the next multiple of eight columns.\<close>

definition type_char :: "char \<Rightarrow> nat \<times> string \<Rightarrow> nat \<times> string" where
  "type_char c ct = (case ct of (col, out) \<Rightarrow>
     if c = TAB then (col + (8 - col mod 8), out @ replicate (8 - col mod 8) CHR '' '') else (col + 1, out @ [c]))"

text \<open>\<open>while (col > plen) { puts (erase_seq); --col; }\<close>\<close>

definition erase_line :: "nat \<Rightarrow> plain \<Rightarrow> plain" where
  "erase_line plen s = (if pcol s > plen
     then s\<lparr>ptty := ptty s @ concat (replicate (pcol s - plen) erase_seq), pcol := plen\<rparr> else s)"

definition delete_char :: "nat \<Rightarrow> plain \<Rightarrow> plain option" where
  "delete_char plen s =
     (if pn s = 0 then Some s
      else if pp s = 0 then None
      else do {
        let s = s\<lparr>pp := pp s - 1\<rparr>;
        c \<leftarrow> rd (pbuf s) (pp s);
        let s = (if c = TAB
          then let s = erase_line plen s; (col, out) = fold type_char (take (pp s) (pbuf s)) (pcol s, ptty s) in
            s\<lparr>pcol := col, ptty := out\<rparr>
          else s\<lparr>ptty := ptty s @ erase_seq, pcol := pcol s - 1\<rparr>);
        Some (s\<lparr>pn := pn s - 1\<rparr>) })"

text \<open>Control W: one character, then on to the one that is a space.\<close>

partial_function (option) delete_word :: "nat \<Rightarrow> plain \<Rightarrow> plain option" where [code]:
  "delete_word plen s = do {
     s \<leftarrow> delete_char plen s;
     c \<leftarrow> (if pn s > 0 then rd (pbuf s) (pp s) else Some CHR '' '');
     if pn s > 0 \<and> c \<noteq> CHR '' '' then delete_word plen s else Some s }"

definition plain_key :: "nat \<Rightarrow> char \<Rightarrow> plain \<Rightarrow> plain option" where
  "plain_key plen c s =
     (if c = NUL then Some s
      else if c = CHR 0x15 then Some ((erase_line plen s)\<lparr>pp := 0, pn := 0\<rparr>)
      else if c = CHR 0x17 then delete_word plen s
      else if c = CHR 0x08 \<or> c = CHR 0x7F then delete_char plen s
      else if pn s < 254
      then do {
        let (col, out) = type_char c (pcol s, ptty s);
        b \<leftarrow> wr (pbuf s) (pp s) c;
        Some (s\<lparr>pbuf := b, pp := pp s + 1, pn := pn s + 1, pcol := col, ptty := out\<rparr>) }
      else Some (s\<lparr>ptty := ptty s @ [CHR 0x07]\<rparr>))"

text \<open>The result, the buffer and the rest of the input; \<open>None\<close> also when the input ends.\<close>

fun plain_loop :: "nat \<Rightarrow> string \<Rightarrow> plain \<Rightarrow> (int \<times> string \<times> string) option" where
  "plain_loop plen [] s = None"
| "plain_loop plen (c # input) s =
     (if c = CHR 0x0D \<or> c = CHR 0x0A then do { b \<leftarrow> wr (pbuf s) (pp s) NUL; Some (int (pp s), b, input) }
      else if c = CHR 0x03 then do { b \<leftarrow> wr (pbuf s) 0 NUL; Some (- 1, b, input) }
      else do { s \<leftarrow> plain_key plen c s; plain_loop plen input s })"

text \<open>
  \<open>readline_into_buffer\<close>: the editor after relocation, with the history set up on its first call
  (\<open>initted\<close>), and the plain reader before.  The result, the buffer, \<open>initted\<close>, the history, the rest of
  the input.
\<close>

definition readline_into_buffer ::
    "string \<Rightarrow> bool \<Rightarrow> string \<Rightarrow> string \<Rightarrow> string \<Rightarrow> bool \<Rightarrow> history \<Rightarrow> (int \<times> string \<times> bool \<times> history \<times> string) option" where
  "readline_into_buffer garbage reloc prompt buffer input initted h =
     (if reloc
      then do {
        let h = (if initted then h else hist_init h);
        (rc, e, h, rest) \<leftarrow> cread_line garbage buffer input h;
        Some (if rc < 0 then rc else int (eol_num e), cbuf e, True, h, rest) }
      else do {
        (n, b, rest) \<leftarrow> plain_loop (length prompt) input
          \<lparr>pbuf = buffer, pp = 0, pn = 0, pcol = length prompt, ptty = prompt\<rparr>;
        Some (n, b, initted, h, rest) })"

section \<open>The history as a list\<close>

text \<open>
  The ring \<open>h\<close> after the lines \<open>ls\<close>, the newest first, with the user \<open>p\<close> lines back (\<open>None\<close> before the
  first line has been read).
\<close>

definition hist_ok :: "history \<Rightarrow> string list \<Rightarrow> nat option \<Rightarrow> bool" where
  "hist_ok h ls p \<longleftrightarrow> length (hist_lines h) = 20 \<and> (\<forall>l\<in>set (hist_lines h). length l = 256) \<and>
     hist_add_idx h = length ls mod 20 \<and> hist_max h = min (length ls) 19 \<and>
     (\<forall>k<min (length ls) 20. string_at (hist_lines h ! ((length ls - 1 - k) mod 20)) 0 = ls ! k) \<and>
     (\<forall>l\<in>set ls. NUL \<notin> set l \<and> length l < 256) \<and>
     (case p of None \<Rightarrow> hist_cur h = - 1
      | Some p \<Rightarrow> p \<le> min (length ls) 19 \<and> hist_cur h = int ((length ls - p) mod 20))"

text \<open>One line back, one line forward: the line, if there is one, and the new position.\<close>

definition hist_back :: "string list \<Rightarrow> nat option \<Rightarrow> string option \<times> nat option" where
  "hist_back ls p = (case p of None \<Rightarrow> (None, None)
     | Some p \<Rightarrow> if p < min (length ls) 19 then (Some (ls ! p), Some (p + 1)) else (None, Some p))"

definition hist_forth :: "string list \<Rightarrow> nat option \<Rightarrow> string option \<times> nat option" where
  "hist_forth ls p = (case p of None \<Rightarrow> (None, None)
     | Some p \<Rightarrow> if p = 0 then (None, Some 0) else (Some (if p = 1 then [] else ls ! (p - 2)), Some (p - 1)))"

lemma mod20_pred: "0 < n \<Longrightarrow> (n - 1) mod 20 = (if n mod 20 = 0 then 19 else n mod 20 - 1)" for n :: nat
  by (cases n) (simp_all add: mod_Suc)

lemma mod20_neq: "0 < k \<Longrightarrow> k < 20 \<Longrightarrow> k \<le> n \<Longrightarrow> (n - k) mod 20 \<noteq> n mod 20" for n k :: nat
  using mod_eq_dvd_iff_nat [of "n - k" n 20] dvd_imp_le [of 20 k] by auto

lemma mod20_zero: "n mod 20 = 0 \<Longrightarrow> 0 < n \<Longrightarrow> 20 \<le> n" for n :: nat
  using dvd_imp_le [of 20 n] by auto

lemma hist_prev_ok:
  assumes ok: "hist_ok h ls p"
  shows "\<exists>h'. hist_prev h = Some (fst (hist_back ls p), h') \<and> hist_ok h' ls (snd (hist_back ls p))"
proof (cases p)
  case None
  then show ?thesis using ok by (simp add: hist_prev_def hist_back_def hist_ok_def)
next
  case (Some q)
  let ?n = "length ls"
  have h: "q \<le> min ?n 19" "hist_cur h = int ((?n - q) mod 20)" "hist_max h = min ?n 19" "hist_add_idx h = ?n mod 20"
      "length (hist_lines h) = 20"
    using ok by (simp_all add: hist_ok_def Some)
  show ?thesis
  proof (cases "q < min ?n 19")
    case True
    define i where "i = (?n - 1 - q) mod 20"
    have pred: "i = (if (?n - q) mod 20 = 0 then 19 else (?n - q) mod 20 - 1)"
      unfolding i_def using mod20_pred [of "?n - q"] True by simp
    have zero: "(?n - q) mod 20 = 0 \<Longrightarrow> min ?n 19 = 19" using mod20_zero [of "?n - q"] True by simp
    have cur: "(if hist_cur h - 1 < 0 then int (hist_max h) else hist_cur h - 1) = int i"
      unfolding h(2,3) pred using zero by auto
    have "i \<noteq> hist_add_idx h" unfolding i_def h(4) using mod20_neq [of "Suc q" ?n] True by simp
    moreover have "i < 20" by (simp add: i_def)
    moreover have "string_at (hist_lines h ! i) 0 = ls ! q" using ok True by (simp add: hist_ok_def i_def)
    ultimately have "hist_prev h = Some (Some (ls ! q), h\<lparr>hist_cur := int i\<rparr>)"
      using h(2,5) unfolding hist_prev_def Let_def cur by (simp add: hist_line_def)
    then show ?thesis using ok True by (simp add: Some hist_back_def hist_ok_def i_def)
  next
    case False
    have "(if hist_cur h - 1 < 0 then int (hist_max h) else hist_cur h - 1) = int (hist_add_idx h)"
    proof (cases "?n < 20")
      case True
      then show ?thesis unfolding h(2,3,4) using False h(1) by simp
    next
      case big: False
      have "(?n - 19 - 1) mod 20 = ?n mod 20" using big by (simp add: le_mod_geq)
      then show ?thesis
        unfolding h(2,3,4) using mod20_pred [of "?n - 19"] big False h(1) by (cases "(?n - 19) mod 20 = 0") auto
    qed
    moreover have "\<not> hist_cur h < 0" unfolding h(2) by simp
    ultimately have "hist_prev h = Some (None, h)" unfolding hist_prev_def Let_def by simp
    then show ?thesis using ok False by (simp add: Some hist_back_def)
  qed
qed

lemma hist_next_ok:
  assumes ok: "hist_ok h ls p"
  shows "\<exists>h'. hist_next h = Some (fst (hist_forth ls p), h') \<and> hist_ok h' ls (snd (hist_forth ls p))"
proof (cases p)
  case None
  then show ?thesis using ok by (simp add: hist_next_def hist_forth_def hist_ok_def)
next
  case (Some q)
  let ?n = "length ls"
  have h: "q \<le> min ?n 19" "hist_cur h = int ((?n - q) mod 20)" "hist_max h = min ?n 19" "hist_add_idx h = ?n mod 20"
      "length (hist_lines h) = 20"
    using ok by (simp_all add: hist_ok_def Some)
  show ?thesis
  proof (cases "q = 0")
    case True
    then show ?thesis using ok h by (simp add: Some hist_next_def hist_forth_def)
  next
    case False
    have ne: "(?n - q) mod 20 \<noteq> ?n mod 20" using mod20_neq [of q ?n] h(1) False by simp
    define i where "i = (?n - (q - 1)) mod 20"
    have cur: "(if hist_cur h + 1 > int (hist_max h) then 0 else hist_cur h + 1) = int i"
    proof (cases "?n < 20")
      case True
      then show ?thesis unfolding h(2,3) i_def using h(1) False by simp
    next
      case big: False
      have "?n - (q - 1) = Suc (?n - q)" using h(1) False by linarith
      moreover have "(?n - q) mod 20 < 20" by simp
      ultimately show ?thesis unfolding h(2,3) i_def using big by (auto simp: mod_Suc simp del: mod_less_divisor)
    qed
    have i: "i < 20" by (simp add: i_def)
    have nxt: "hist_next h = (if i = ?n mod 20 then Some (Some [], h\<lparr>hist_cur := int i\<rparr>)
        else do { l \<leftarrow> hist_line (h\<lparr>hist_cur := int i\<rparr>); Some (Some l, h\<lparr>hist_cur := int i\<rparr>) })"
      using ne unfolding hist_next_def Let_def cur by (simp add: h(2,4) del: of_nat_mod)
    have "q - 1 < 20" "q - 1 \<le> ?n" using h(1) by linarith+
    then have eq: "(i = ?n mod 20) = (q = 1)"
      using mod20_neq [of "q - 1" ?n] False unfolding i_def by (cases "q = 1") simp_all
    have line: "string_at (hist_lines h ! i) 0 = ls ! (q - 2)" if "q \<noteq> 1"
    proof -
      have "?n - 1 - (q - 2) = ?n - (q - 1)" using that False by simp
      moreover have "q - 2 < min ?n 20" using h(1) that False by linarith
      ultimately show ?thesis using ok unfolding hist_ok_def i_def by metis
    qed
    have "hist_next h = Some (Some (if q = 1 then [] else ls ! (q - 2)), h\<lparr>hist_cur := int i\<rparr>)"
      unfolding nxt eq using line i h(5) by (simp add: hist_line_def)
    moreover have "q - 1 \<le> min ?n 19" using h(1) by linarith
    ultimately show ?thesis using ok False by (simp add: Some hist_forth_def hist_ok_def i_def)
  qed
qed

lemma hist_add_ok:
  assumes ok: "hist_ok h ls p" and line: "NUL \<notin> set line" "length line < 256"
  shows "\<exists>h'. cread_add_to_hist line h = Some h' \<and> hist_ok (h'\<lparr>hist_cur := int (hist_add_idx h')\<rparr>) (line # ls) (Some 0)"
proof -
  let ?n = "length ls" and ?i = "length ls mod 20"
  have h: "length (hist_lines h) = 20" "hist_add_idx h = ?i" "hist_max h = min ?n 19" "\<forall>l\<in>set (hist_lines h). length l = 256"
    using ok by (simp_all add: hist_ok_def)
  have i: "?i < 20" by simp
  have old: "length (hist_lines h ! ?i) = 256" using h(1,4) i nth_mem by metis
  let ?l = "line @ NUL # drop (length line + 1) (hist_lines h ! ?i)"
  let ?ls = "(hist_lines h)[?i := ?l]"
  define add where "add = (if 20 \<le> ?i + 1 then 0 else ?i + 1)"
  have a: "add = length (line # ls) mod 20" unfolding add_def using i by (simp add: mod_Suc del: mod_less_divisor)
  define mx where "mx = (if add > min ?n 19 then add else min ?n 19)"
  have m: "mx = min (length (line # ls)) 19"
  proof (cases "?n < 19")
    case True
    then show ?thesis unfolding mx_def a by simp
  next
    case False
    have "Suc ?n mod 20 < 20" by simp
    then show ?thesis unfolding mx_def a using False by (auto simp del: mod_less_divisor)
  qed
  have slots: "string_at (?ls ! ((length (line # ls) - 1 - k) mod 20)) 0 = (line # ls) ! k" if k: "k < min (length (line # ls)) 20" for k
  proof (cases k)
    case 0
    then show ?thesis using string_at_text [OF line(1), of "[]" 0] h(1) i by simp
  next
    case (Suc j)
    have "(?n - Suc j) mod 20 \<noteq> ?i" using mod20_neq [of "Suc j" ?n] k Suc by simp
    then show ?thesis using ok k Suc by (simp add: hist_ok_def)
  qed
  let ?h = "\<lparr>hist_max = mx, hist_add_idx = add, hist_cur = hist_cur h, hist_num = hist_num h + 1, hist_lines = ?ls\<rparr>"
  have "\<forall>l\<in>set ?ls. length l = 256"
    using set_update_subset_insert [of "hist_lines h" ?i ?l] h(4) old line(2) by auto
  moreover have "\<forall>l\<in>set (line # ls). NUL \<notin> set l \<and> length l < 256" using ok line by (simp add: hist_ok_def)
  moreover have "int add = int ((length (line # ls) - 0) mod 20)" unfolding a by simp
  ultimately have "hist_ok (?h\<lparr>hist_cur := int (hist_add_idx ?h)\<rparr>) (line # ls) (Some 0)"
    unfolding hist_ok_def history.simps option.case length_list_update
    using h(1) a m slots by (intro conjI allI impI le0) assumption+
  moreover have "cread_add_to_hist line h = Some ?h"
    using h(1) i old line(2) unfolding cread_add_to_hist_def h(2,3) add_def mx_def by (simp add: Let_def)
  ultimately show ?thesis by blast
qed

lemma hist_init_ok:
  assumes "length (hist_lines h) = 20" and "\<forall>l\<in>set (hist_lines h). length l = 256"
  shows "hist_ok (hist_init h) [] None"
  using assms by (simp add: hist_ok_def hist_init_def)

section \<open>The line as text before and behind the cursor\<close>

text \<open>
  What the editor is about: the text before and behind the cursor, insert or overwrite, how much of an
  escape sequence has been read, and the position in the history.
\<close>

record aline =
  before :: string
  behind :: string
  amode :: bool
  aesc :: nat
  apos :: "nat option"

definition line_text :: "aline \<Rightarrow> string" where
  "line_text a = before a @ behind a"

definition a_add :: "char \<Rightarrow> aline \<Rightarrow> aline" where
  "a_add c a =
     (if amode a \<or> behind a = []
      then if length (line_text a) < 256 then a\<lparr>before := before a @ [c]\<rparr> else a
      else a\<lparr>before := before a @ [c], behind := tl (behind a)\<rparr>)"

definition a_hist :: "string option \<times> nat option \<Rightarrow> aline \<Rightarrow> aline" where
  "a_hist r a = (case fst r of None \<Rightarrow> a\<lparr>apos := snd r\<rparr> | Some l \<Rightarrow> a\<lparr>before := l, behind := [], apos := snd r\<rparr>)"

definition a_switch :: "char \<Rightarrow> string list \<Rightarrow> aline \<Rightarrow> aline" where
  "a_switch c ls a =
     (if c = CHR 0x1B then a\<lparr>aesc := 1\<rparr>
      else if c = CHR 0x01 then a\<lparr>before := [], behind := line_text a\<rparr>
      else if c = CHR 0x06
      then (case behind a of [] \<Rightarrow> a | x # xs \<Rightarrow> a\<lparr>before := before a @ [x], behind := xs\<rparr>)
      else if c = CHR 0x02
      then if before a = [] then a else a\<lparr>before := butlast (before a), behind := last (before a) # behind a\<rparr>
      else if c = CHR 0x04 then a\<lparr>behind := tl (behind a)\<rparr>
      else if c = CHR 0x0B then a\<lparr>behind := []\<rparr>
      else if c = CHR 0x05 then a\<lparr>before := line_text a, behind := []\<rparr>
      else if c = CHR 0x0F then a\<lparr>amode := \<not> amode a\<rparr>
      else if c = CHR 0x18 \<or> c = CHR 0x15 then a\<lparr>before := [], behind := []\<rparr>
      else if c = CHR 0xFF \<or> c = CHR 0x7F \<or> c = CHR 0x08 then a\<lparr>before := butlast (before a)\<rparr>
      else if c = CHR 0x10 then a_hist (hist_back ls (apos a)) a
      else if c = CHR 0x0E then a_hist (hist_forth ls (apos a)) a
      else a_add c a)"

definition a_char :: "char \<Rightarrow> string list \<Rightarrow> aline \<Rightarrow> aline" where
  "a_char c ls a =
     (if aesc a = 0 then a_switch c ls a
      else if aesc a = 1 then if c = CHR ''['' then a\<lparr>aesc := 2\<rparr> else a_add CHR 0x1B a\<lparr>aesc := 0\<rparr>
      else (case arrow_key c of
          Some k \<Rightarrow> a_switch k ls (a\<lparr>aesc := 0\<rparr>)
        | None \<Rightarrow> a_add c (a_add CHR ''['' (a_add CHR 0x1B a))\<lparr>aesc := 0\<rparr>))"

text \<open>
  The whole line: the result, the text, the history, and what is left of the input.
\<close>

fun a_loop :: "string \<Rightarrow> string list \<Rightarrow> aline \<Rightarrow> (int \<times> string \<times> string list \<times> string) option" where
  "a_loop [] ls a = None"
| "a_loop (c # input) ls a =
     (if c = CHR 0x0A \<or> c = CHR 0x0D
      then let t = line_text a in
        if length t < 256 then Some (0, t, if t \<noteq> [] \<and> hd t \<noteq> CHR ''!'' then t # ls else ls, input) else None
      else if c = CHR 0x03 \<and> aesc a = 0 then Some (- 1, [], ls, input)
      else a_loop input ls (a_char c ls a))"

definition ed_ok :: "cread \<Rightarrow> aline \<Rightarrow> bool" where
  "ed_ok e a \<longleftrightarrow> (\<exists>junk. cbuf e = before a @ behind a @ junk) \<and> length (cbuf e) = 256 \<and>
     cnum e = length (before a) \<and> eol_num e = length (line_text a) \<and> ins_mode e = amode a \<and> esc_len e = aesc a \<and>
     length (esc_save e) = 8 \<and> aesc a \<le> 3 \<and> (1 \<le> aesc a \<longrightarrow> esc_save e ! 0 = CHR 0x1B) \<and>
     (aesc a = 2 \<longrightarrow> esc_save e ! 1 = CHR ''['') \<and> NUL \<notin> set (line_text a)"

lemma ed_ok_tty [simp]:
  "ed_ok (e\<lparr>tty := t\<rparr>) a = ed_ok e a" "ed_ok (putch c e) a = ed_ok e a" "ed_ok (backspaces n e) a = ed_ok e a"
  by (simp_all add: ed_ok_def putch_def backspaces_def)

lemma tty_fields [simp]:
  "cbuf (putch c e) = cbuf e" "cnum (putch c e) = cnum e" "eol_num (putch c e) = eol_num e"
  "cbuf (backspaces n e) = cbuf e" "cnum (backspaces n e) = cnum e" "eol_num (backspaces n e) = eol_num e"
  by (simp_all add: putch_def backspaces_def)

lemma ed_okE:
  assumes "ed_ok e a"
  obtains junk where "cbuf e = before a @ behind a @ junk" "length (before a) + length (behind a) + length junk = 256"
    "cnum e = length (before a)" "eol_num e = length (before a) + length (behind a)"
  using assms by (auto simp: ed_ok_def line_text_def)

lemma ed_okI:
  assumes "ed_ok e a" and "cbuf e' = before a' @ behind a' @ junk" and "length (cbuf e') = 256"
    and "cnum e' = length (before a')" and "eol_num e' = length (before a') + length (behind a')"
    and "ins_mode e' = ins_mode e" "amode a' = amode a" and "esc_len e' = esc_len e" "aesc a' = aesc a" and "esc_save e' = esc_save e"
    and "set (line_text a') \<subseteq> insert c (set (line_text a))" and "c \<noteq> NUL"
  shows "ed_ok e' a'"
  using assms by (auto simp: ed_ok_def line_text_def)

lemma putnstr_ok: "i + n \<le> length (cbuf e) \<Longrightarrow> \<exists>t. putnstr i n e = Some (e\<lparr>tty := t\<rparr>)"
  unfolding putnstr_def by (simp only: if_True) blast

lemma cread_add_char_ok:
  assumes ok: "ed_ok e a" and c: "c \<noteq> NUL"
  shows "\<exists>e'. cread_add_char c e = Some e' \<and> ed_ok e' (a_add c a)"
proof -
  obtain junk where b: "cbuf e = before a @ behind a @ junk" "length (before a) + length (behind a) + length junk = 256"
      "cnum e = length (before a)" "eol_num e = length (before a) + length (behind a)"
    by (rule ed_okE [OF ok])
  have m: "ins_mode e = amode a" using ok by (simp add: ed_ok_def)
  show ?thesis
  proof (cases "(amode a \<or> behind a = []) \<and> 255 < length (line_text a)")
    case True
    then show ?thesis using ok m b by (auto simp: cread_add_char_def a_add_def line_text_def)
  next
    case room: False
    show ?thesis
    proof (cases "amode a")
      case True
      then obtain j js where j: "junk = j # js" using room b(2) by (cases junk) (auto simp: line_text_def)
      let ?e = "e\<lparr>eol_num := eol_num e + 1\<rparr>" and ?w = "length (behind a) + 1"
      obtain d where d: "(if ?w > 1 then buf_move (cnum e + 1) (cnum e) (?w - 1) ?e else Some ?e) =
          Some (?e\<lparr>cbuf := before a @ d # behind a @ js\<rparr>)"
      proof (cases "behind a")
        case Nil
        then show ?thesis using that [of j] b(1) j by simp
      next
        case (Cons x xs)
        then show ?thesis using that [of x] b j by (simp add: buf_move_def Let_def)
      qed
      have s: "buf_set (cnum e) c (?e\<lparr>cbuf := before a @ d # behind a @ js\<rparr>) = Some (?e\<lparr>cbuf := before a @ c # behind a @ js\<rparr>)"
        using b(3) by (simp add: buf_set_def wr_at)
      obtain t where t: "putnstr (cnum e) ?w (?e\<lparr>cbuf := before a @ c # behind a @ js\<rparr>) =
          Some (?e\<lparr>cbuf := before a @ c # behind a @ js, tty := t\<rparr>)"
        using putnstr_ok [of "cnum e" ?w "?e\<lparr>cbuf := before a @ c # behind a @ js\<rparr>"] b(3) by auto
      let ?r = "backspaces (?w - 1) (?e\<lparr>cbuf := before a @ c # behind a @ js, tty := t, cnum := cnum e + 1\<rparr>)"
      have "cread_add_char c e = Some ?r"
      proof -
        have full: "(255 < eol_num e) = False" using room True b(4) by (simp add: line_text_def)
        have w: "eol_num e + 1 - cnum e = ?w" using b(3,4) by simp
        have u: "cnum ?e = cnum e" "eol_num ?e = eol_num e + 1" "ins_mode ?e = ins_mode e" "cnum (?e\<lparr>cbuf := x\<rparr>) = cnum e"
            "cnum (?e\<lparr>cbuf := x, tty := t\<rparr>) = cnum e" for x t by simp_all
        show ?thesis
          unfolding cread_add_char_def Let_def
          by (simp only: u m True full simp_thms if_True if_False w d s t bind.bind_lunit)
      qed
      moreover have "ed_ok ?r (a_add c a)"
        by (rule ed_okI [OF ok, of _ _ js c]) (use True room b j c in \<open>auto simp: a_add_def line_text_def backspaces_def\<close>)
      ultimately show ?thesis by blast
    next
      case False
      let ?e = "if behind a = [] then e\<lparr>eol_num := eol_num e + 1\<rparr> else e"
      obtain j js where j: "behind a @ junk = j # js" using room b(2) False by (cases "behind a @ junk") (auto simp: line_text_def)
      have s: "buf_set (cnum e) c ?e = Some (?e\<lparr>cbuf := before a @ c # js\<rparr>)"
        using b(1,3) j by (simp add: buf_set_def wr_at)
      obtain t where t: "putnstr (cnum e) 1 (?e\<lparr>cbuf := before a @ c # js\<rparr>) = Some (?e\<lparr>cbuf := before a @ c # js, tty := t\<rparr>)"
        using putnstr_ok [of "cnum e" 1 "?e\<lparr>cbuf := before a @ c # js\<rparr>"] b(3) by auto
      let ?r = "?e\<lparr>cbuf := before a @ c # js, tty := t, cnum := cnum e + 1\<rparr>"
      have eq: "(cnum e = eol_num e) = (behind a = [])" using b(3,4) by simp
      have "cread_add_char c e = Some ?r"
        using room False m s t unfolding cread_add_char_def Let_def eq by (auto simp: b(4) line_text_def split: if_splits)
      moreover have "ed_ok ?r (a_add c a)"
      proof (rule ed_okI [OF ok, of _ _ "if behind a = [] then js else junk" c])
        show "cbuf ?r = before (a_add c a) @ behind (a_add c a) @ (if behind a = [] then js else junk)"
          using j False room by (cases "behind a") (auto simp: a_add_def line_text_def)
        show "length (cbuf ?r) = 256" 
        proof -
          have "length (behind a) + length junk = Suc (length js)" using arg_cong [OF j, of length] by simp
          then show ?thesis using b(2) by simp
        qed
        show "set (line_text (a_add c a)) \<subseteq> insert c (set (line_text a))"
          by (cases "behind a") (auto simp: a_add_def line_text_def)
      qed (use False room b c in \<open>auto simp: a_add_def line_text_def\<close>)
      ultimately show ?thesis by blast
    qed
  qed
qed

lemma beginning_of_line_ok: "ed_ok e a \<Longrightarrow> ed_ok (beginning_of_line e) (a\<lparr>before := [], behind := line_text a\<rparr>)"
  by (auto simp: beginning_of_line_def backspaces_def ed_ok_def line_text_def)

lemma erase_to_eol_ok: "ed_ok e a \<Longrightarrow> ed_ok (erase_to_eol e) (a\<lparr>behind := []\<rparr>)"
  by (auto simp: erase_to_eol_def backspaces_def ed_ok_def line_text_def)

lemma refresh_to_eol_ok:
  assumes ok: "ed_ok e a"
  shows "\<exists>e'. refresh_to_eol e = Some e' \<and> ed_ok e' (a\<lparr>before := line_text a, behind := []\<rparr>)"
proof -
  obtain junk where b: "cbuf e = before a @ behind a @ junk" "length (before a) + length (behind a) + length junk = 256"
      "cnum e = length (before a)" "eol_num e = length (before a) + length (behind a)"
    by (rule ed_okE [OF ok])
  show ?thesis
  proof (cases "behind a = []")
    case True
    have "a\<lparr>before := line_text a, behind := []\<rparr> = a" using True by (simp add: line_text_def)
    then show ?thesis using ok b True by (simp add: refresh_to_eol_def)
  next
    case False
    obtain t where "putnstr (cnum e) (eol_num e - cnum e) e = Some (e\<lparr>tty := t\<rparr>)"
      using putnstr_ok [of "cnum e" "eol_num e - cnum e" e] b by auto
    then show ?thesis
      using ok False b(3,4) by (auto simp: refresh_to_eol_def ed_ok_def line_text_def)
  qed
qed

lemma cread_hist_ok:
  assumes ok: "ed_ok e a" and l: "length l < 256" "NUL \<notin> set l"
  shows "\<exists>e'. cread_hist l e = Some e' \<and> ed_ok e' (a\<lparr>before := l, behind := []\<rparr>)"
proof -
  let ?e = "erase_to_eol (beginning_of_line e)"
  have 1: "ed_ok ?e (a\<lparr>before := [], behind := []\<rparr>)"
    using erase_to_eol_ok [OF beginning_of_line_ok [OF ok]] by simp
  let ?e1 = "?e\<lparr>cbuf := l @ NUL # drop (length l + 1) (cbuf ?e), eol_num := length l\<rparr>"
  have len: "length (cbuf ?e) = 256" using 1 by (simp add: ed_ok_def)
  have "ed_ok ?e1 (a\<lparr>before := [], behind := l\<rparr>)" using 1 l by (auto simp: ed_ok_def line_text_def)
  from refresh_to_eol_ok [OF this] show ?thesis
    using l(1) len by (simp add: cread_hist_def Let_def line_text_def)
qed

lemma delete_ok:
  assumes ok: "ed_ok e a" and x: "behind a = x # xs"
  shows "\<exists>e'. (do {
      e \<leftarrow> (if length xs \<noteq> 0 then do { e \<leftarrow> buf_move (cnum e) (cnum e + 1) (length xs) e; putnstr (cnum e) (length xs) e } else Some e);
      Some (backspaces (length xs + 1) (putch CHR '' '' e)\<lparr>eol_num := eol_num e - 1\<rparr>) }) = Some e' \<and>
    ed_ok e' (a\<lparr>behind := xs\<rparr>)"
proof -
  obtain junk where b: "cbuf e = before a @ behind a @ junk" "length (before a) + length (behind a) + length junk = 256"
      "cnum e = length (before a)" "eol_num e = length (before a) + length (behind a)"
    by (rule ed_okE [OF ok])
  show ?thesis
  proof (cases "xs = []")
    case True
    then show ?thesis using ok x b(3,4) by (auto simp: ed_ok_def line_text_def putch_def backspaces_def)
  next
    case False
    let ?b = "before a @ xs @ drop (length (before a) + length xs) (cbuf e)"
    have "buf_move (cnum e) (cnum e + 1) (length xs) e = Some (e\<lparr>cbuf := ?b\<rparr>)"
      using b x by (simp add: buf_move_def Let_def)
    moreover obtain t where "putnstr (cnum e) (length xs) (e\<lparr>cbuf := ?b\<rparr>) = Some (e\<lparr>cbuf := ?b, tty := t\<rparr>)"
      using putnstr_ok [of "cnum e" "length xs" "e\<lparr>cbuf := ?b\<rparr>"] b(3) by auto
    moreover have "ed_ok (e\<lparr>cbuf := ?b, eol_num := eol_num e - 1\<rparr>) (a\<lparr>behind := xs\<rparr>)"
      by (rule ed_okI [OF ok, of _ _ "drop (length (before a) + length xs) (cbuf e)" "CHR ''x''"])
        (use b x in \<open>auto simp: line_text_def\<close>)
    ultimately show ?thesis using False by (simp add: putch_def backspaces_def) (simp add: ed_ok_def)
  qed
qed

lemma backspace_ok:
  assumes ok: "ed_ok e a" and x: "before a = ys @ [y]"
  shows "\<exists>e'. (do {
      let e1 = e\<lparr>cnum := cnum e - 1\<rparr>;
      e2 \<leftarrow> buf_move (cnum e1) (cnum e1 + 1) (length (behind a)) e1;
      e3 \<leftarrow> putnstr (cnum e2) (length (behind a)) (putch BS e2);
      Some (backspaces (length (behind a) + 1) (putch CHR '' '' e3)\<lparr>eol_num := eol_num e3 - 1\<rparr>) }) = Some e' \<and>
    ed_ok e' (a\<lparr>before := ys\<rparr>)"
proof -
  obtain junk where b: "cbuf e = before a @ behind a @ junk" "length (before a) + length (behind a) + length junk = 256"
      "cnum e = length (before a)" "eol_num e = length (before a) + length (behind a)"
    by (rule ed_okE [OF ok])
  let ?d = "drop (length ys + length (behind a)) (cbuf e)"
  let ?b = "ys @ behind a @ ?d" and ?e1 = "e\<lparr>cnum := cnum e - 1\<rparr>"
  have n: "cnum ?e1 = length ys" using b(3) x by simp
  have m: "buf_move (length ys) (length ys + 1) (length (behind a)) ?e1 = Some (?e1\<lparr>cbuf := ?b\<rparr>)"
    using b x by (simp add: buf_move_def Let_def)
  obtain t where p: "putnstr (length ys) (length (behind a)) (putch BS (?e1\<lparr>cbuf := ?b\<rparr>)) = Some (?e1\<lparr>cbuf := ?b, tty := t\<rparr>)"
    using putnstr_ok [of "length ys" "length (behind a)" "putch BS (?e1\<lparr>cbuf := ?b\<rparr>)"] by (auto simp: putch_def)
  have "ed_ok (e\<lparr>cnum := length ys, cbuf := ?b, eol_num := eol_num e - 1\<rparr>) (a\<lparr>before := ys\<rparr>)"
    by (rule ed_okI [OF ok, of _ _ ?d "CHR ''x''"]) (use b x in \<open>auto simp: line_text_def\<close>)
  then show ?thesis using n m p by (simp add: Let_def putch_def backspaces_def) (simp add: ed_ok_def)
qed

lemma hist_lines_text:
  assumes "hist_ok h ls p"
  shows "fst (hist_back ls p) = Some l \<Longrightarrow> length l < 256 \<and> NUL \<notin> set l"
    and "fst (hist_forth ls p) = Some l \<Longrightarrow> length l < 256 \<and> NUL \<notin> set l"
proof -
  have ls: "length (ls ! i) < 256 \<and> NUL \<notin> set (ls ! i)" if "i < length ls" for i
    using assms that by (simp add: hist_ok_def)
  show "length l < 256 \<and> NUL \<notin> set l" if "fst (hist_back ls p) = Some l"
    using that ls by (auto simp: hist_back_def split: option.splits if_splits)
  have p: "q \<le> length ls" if "p = Some q" for q using assms that by (simp add: hist_ok_def)
  show "length l < 256 \<and> NUL \<notin> set l" if f: "fst (hist_forth ls p) = Some l"
  proof (cases p)
    case None
    then show ?thesis using f by (simp add: hist_forth_def)
  next
    case (Some q)
    have "q - 2 < length ls" if "q \<noteq> 0" "q \<noteq> 1" using p [OF Some] that by linarith
    then show ?thesis using f ls [of "q - 2"] Some by (auto simp: hist_forth_def split: if_splits)
  qed
qed

lemma a_hist_ok:
  assumes ok: "ed_ok e a" and r: "\<And>l. fst r = Some l \<Longrightarrow> length l < 256 \<and> NUL \<notin> set l"
  shows "\<exists>e'. (case fst r of None \<Rightarrow> Some (False, putch CHR 0x07 e, h)
       | Some l \<Rightarrow> do { e \<leftarrow> cread_hist l e; Some (False, e, h) }) = Some (False, e', h) \<and> ed_ok e' (a_hist r a)"
proof (cases "fst r")
  case None
  then show ?thesis using ok by (simp add: a_hist_def ed_ok_def putch_def line_text_def)
next
  case (Some l)
  then show ?thesis
    using cread_hist_ok [OF ok, of l] r [OF Some] by (auto simp: a_hist_def ed_ok_def line_text_def)
qed

lemma cread_hist_switch:
  assumes ok: "ed_ok e a" and h: "hist_ok h ls (apos a)" and esc: "aesc a = 0" and c: "c = CHR 0x10 \<or> c = CHR 0x0E"
  shows "\<exists>e' h'. cread_switch c e h = Some (False, e', h') \<and> ed_ok e' (a_switch c ls a) \<and> hist_ok h' ls (apos (a_switch c ls a))"
proof -
  have e: "e\<lparr>esc_len := 0\<rparr> = e" using ok esc by (simp add: ed_ok_def)
  have pos: "apos (a_hist r a) = snd r" for r by (simp add: a_hist_def split: option.split)
  show ?thesis
    using c
  proof
    assume c: "c = CHR 0x10"
    obtain h' where "hist_prev h = Some (fst (hist_back ls (apos a)), h')" "hist_ok h' ls (snd (hist_back ls (apos a)))"
      using hist_prev_ok [OF h] by blast
    then show ?thesis
      using a_hist_ok [OF ok hist_lines_text(1) [OF h], where h = h' and r = "hist_back ls (apos a)"] pos by (simp add: cread_switch_def a_switch_def c e) blast
  next
    assume c: "c = CHR 0x0E"
    obtain h' where "hist_next h = Some (fst (hist_forth ls (apos a)), h')" "hist_ok h' ls (snd (hist_forth ls (apos a)))"
      using hist_next_ok [OF h] by blast
    then show ?thesis
      using a_hist_ok [OF ok hist_lines_text(2) [OF h], where h = h' and r = "hist_forth ls (apos a)"] pos by (simp add: cread_switch_def a_switch_def c e) blast
  qed
qed

lemma cread_switch_ok:
  assumes ok: "ed_ok e a" and esc: "aesc a = 0" and h: "hist_ok h ls (apos a)" and c: "c \<noteq> NUL" "c \<noteq> CHR 0x03"
  shows "\<exists>e' h'. cread_switch c e h = Some (False, e', h') \<and> ed_ok e' (a_switch c ls a) \<and> hist_ok h' ls (apos (a_switch c ls a))"
proof -
  obtain junk where b: "cbuf e = before a @ behind a @ junk" "length (before a) + length (behind a) + length junk = 256"
      "cnum e = length (before a)" "eol_num e = length (before a) + length (behind a)"
    by (rule ed_okE [OF ok])
  have e0: "esc_len e = 0" using ok esc by (simp add: ed_ok_def)
  have pos: "apos (a_add c a) = apos a" by (simp add: a_add_def)
  consider "c = CHR 0x1B" | "c = CHR 0x01" | "c = CHR 0x06" | "c = CHR 0x02" | "c = CHR 0x04" | "c = CHR 0x0B" | "c = CHR 0x05"
    | "c = CHR 0x0F" | "c = CHR 0x18 \<or> c = CHR 0x15" | "c = CHR 0xFF \<or> c = CHR 0x7F \<or> c = CHR 0x08" | "c = CHR 0x10" | "c = CHR 0x0E"
    | "c \<notin> {CHR 0x1B, CHR 0x01, CHR 0x06, CHR 0x02, CHR 0x04, CHR 0x0B, CHR 0x05, CHR 0x0F, CHR 0x18, CHR 0x15, CHR 0xFF,
        CHR 0x7F, CHR 0x08, CHR 0x10, CHR 0x0E}"
    by auto
  then show ?thesis
  proof cases
    case 1
    then show ?thesis using ok h e0 by (auto simp: cread_switch_def a_switch_def ed_ok_def line_text_def)
  next
    case 2
    then show ?thesis using beginning_of_line_ok [OF ok] h by (simp add: cread_switch_def a_switch_def)
  next
    case 3
    then show ?thesis
      using ok h b by (cases "behind a") (auto simp: cread_switch_def a_switch_def ed_ok_def line_text_def putch_def rd_def nth_append)
  next
    case 4
    then show ?thesis
      using ok h b by (cases "before a" rule: rev_cases) (auto simp: cread_switch_def a_switch_def ed_ok_def line_text_def putch_def)
  next
    case 5
    show ?thesis
    proof (cases "behind a")
      case Nil
      then show ?thesis using 5 ok h b by (auto simp: cread_switch_def a_switch_def ed_ok_def line_text_def)
    next
      case (Cons x xs)
      have w: "eol_num e - cnum e - 1 = length xs" "cnum e < eol_num e" using b(3,4) Cons by simp_all
      from delete_ok [OF ok Cons] show ?thesis
        using 5 h Cons w(2) unfolding cread_switch_def a_switch_def Let_def w(1) by (auto simp: bind_eq_Some_conv split: if_splits)
    qed
  next
    case 6
    then show ?thesis using erase_to_eol_ok [OF ok] h by (simp add: cread_switch_def a_switch_def)
  next
    case 7
    then show ?thesis using refresh_to_eol_ok [OF ok] h by (auto simp: cread_switch_def a_switch_def)
  next
    case 8
    then show ?thesis using ok h by (auto simp: cread_switch_def a_switch_def ed_ok_def line_text_def)
  next
    case 9
    then have "cread_switch c e h = Some (False, erase_to_eol (beginning_of_line e), h)"
        "a_switch c ls a = a\<lparr>before := [], behind := []\<rparr>"
      by (elim disjE; simp add: cread_switch_def a_switch_def)+
    then show ?thesis using erase_to_eol_ok [OF beginning_of_line_ok [OF ok]] h by simp
  next
    case 10
    then have sw: "cread_switch c e h = (if cnum e \<noteq> 0
        then do {
          let wlen = eol_num e - cnum e;
          let e = e\<lparr>cnum := cnum e - 1\<rparr>;
          e \<leftarrow> buf_move (cnum e) (cnum e + 1) wlen e;
          e \<leftarrow> putnstr (cnum e) wlen (putch BS e);
          Some (False, backspaces (wlen + 1) (putch CHR '' '' e)\<lparr>eol_num := eol_num e - 1\<rparr>, h) }
        else Some (False, e, h))" "a_switch c ls a = a\<lparr>before := butlast (before a)\<rparr>"
      by (elim disjE; simp add: cread_switch_def a_switch_def)+
    show ?thesis
    proof (cases "before a" rule: rev_cases)
      case Nil
      then show ?thesis using ok h b(3) unfolding sw by (auto simp: ed_ok_def line_text_def)
    next
      case (snoc ys y)
      have w: "eol_num e - cnum e = length (behind a)" "cnum e \<noteq> 0" using b(3,4) snoc by simp_all
      from backspace_ok [OF ok snoc] show ?thesis
        using h w(2) snoc unfolding sw Let_def w(1) by (auto simp: bind_eq_Some_conv)
    qed
  next
    case 11
    show ?thesis by (rule cread_hist_switch [OF ok h esc disjI1 [OF 11]])
  next
    case 12
    show ?thesis by (rule cread_hist_switch [OF ok h esc disjI2 [OF 12]])
  next
    case 13
    then show ?thesis
      using cread_add_char_ok [OF ok c(1)] h c(2) pos by (auto simp: cread_switch_def a_switch_def)
  qed
qed

lemma cread_add_str_ok: "ed_ok e a \<Longrightarrow> NUL \<notin> set s \<Longrightarrow> \<exists>e'. cread_add_str s e = Some e' \<and> ed_ok e' (fold a_add s a)"
proof (induction s arbitrary: e a)
  case (Cons c s)
  have "c \<noteq> NUL" using Cons.prems by auto
  then obtain e1 where "cread_add_char c e = Some e1" "ed_ok e1 (a_add c a)" using cread_add_char_ok Cons.prems by blast
  then show ?case using Cons.IH [of e1 "a_add c a"] Cons.prems by simp
qed simp

lemma ed_ok_esc: "ed_ok e a \<Longrightarrow> ed_ok (e\<lparr>esc_len := 0\<rparr>) (a\<lparr>aesc := 0\<rparr>)"
  by (auto simp: ed_ok_def line_text_def)

lemma a_add_fields [simp]: "apos (a_add c a) = apos a" "a_add c (a\<lparr>aesc := k\<rparr>) = (a_add c a)\<lparr>aesc := k\<rparr>"
  by (simp_all add: a_add_def line_text_def)

lemma arrow_key_control: "arrow_key c = Some k \<Longrightarrow> k \<noteq> NUL \<and> k \<noteq> CHR 0x03"
  by (auto simp: arrow_key_def split: if_splits)

lemma cread_char_ok:
  assumes ok: "ed_ok e a" and h: "hist_ok h ls (apos a)" and c: "c \<noteq> NUL" "c \<noteq> CHR 0x03 \<or> aesc a \<noteq> 0"
    and a2: "aesc a \<le> 2"
  shows "\<exists>e' h'. cread_char c e h = Some (False, e', h') \<and> ed_ok e' (a_char c ls a) \<and> hist_ok h' ls (apos (a_char c ls a))"
proof -
  have esc: "esc_len e = aesc a" "length (esc_save e) = 8" using ok by (simp_all add: ed_ok_def)
  consider "aesc a = 0" | "aesc a = 1" | "aesc a = 2" using a2 by linarith
  then show ?thesis
  proof cases
    case 1
    then show ?thesis using cread_switch_ok [OF ok 1 h c(1)] c(2) esc(1) by (simp add: cread_char_def a_char_def)
  next
    case 2
    show ?thesis
    proof (cases "c = CHR ''[''")
      case True
      then show ?thesis
        using ok h 2 esc by (auto simp: cread_char_def a_char_def ed_ok_def line_text_def)
    next
      case False
      have t: "take (esc_len e) (esc_save e) = [CHR 0x1B]"
        using ok 2 esc by (cases "esc_save e") (auto simp: ed_ok_def)
      obtain e' where "cread_add_str [CHR 0x1B] e = Some e'" "ed_ok e' (fold a_add [CHR 0x1B] a)"
        using cread_add_str_ok [OF ok, of "[CHR 0x1B]"] by auto
      then show ?thesis
        using 2 False h esc(1) ed_ok_esc [of e' "a_add CHR 0x1B a"] unfolding cread_char_def a_char_def t by simp
    qed
  next
    case 3
    show ?thesis
    proof (cases "arrow_key c")
      case (Some k)
      have "hist_ok h ls (apos (a\<lparr>aesc := 0\<rparr>))" using h by simp
      from cread_switch_ok [OF ed_ok_esc [OF ok] _ this] arrow_key_control [OF Some] show ?thesis
        using 3 esc(1) Some by (simp add: cread_char_def a_char_def)
    next
      case None
      obtain x y z xs where s: "esc_save e = x # y # z # xs" using esc(2) by (auto simp: numeral_eq_Suc length_Suc_conv)
      have xy: "x = CHR 0x1B" "y = CHR ''[''" using ok 3 by (auto simp: ed_ok_def s)
      let ?e = "e\<lparr>esc_save := x # y # c # xs, esc_len := esc_len e + 1\<rparr>"
      have ok3: "ed_ok ?e (a\<lparr>aesc := 3\<rparr>)" using ok 3 xy by (auto simp: ed_ok_def s line_text_def)
      have "NUL \<notin> set [CHR 0x1B, CHR ''['', c]" using c(1) by simp
      then obtain e' where e': "cread_add_str [CHR 0x1B, CHR ''['', c] ?e = Some e'"
          "ed_ok e' (fold a_add [CHR 0x1B, CHR ''['', c] (a\<lparr>aesc := 3\<rparr>))"
        using cread_add_str_ok [OF ok3] by blast
      have w: "wr (esc_save e) (esc_len e) c = Some (x # y # c # xs)" "take (esc_len e + 1) (x # y # c # xs) = [CHR 0x1B, CHR ''['', c]"
        using 3 esc(1) by (simp_all add: s wr_def xy numeral_2_eq_2)
      have "cread_char c e h = Some (False, e'\<lparr>esc_len := 0\<rparr>, h)"
        using 3 esc(1) None e'(1) unfolding cread_char_def w(1) bind.bind_lunit w(2) by simp
      moreover have "a_char c ls a = (fold a_add [CHR 0x1B, CHR ''['', c] (a\<lparr>aesc := 3\<rparr>))\<lparr>aesc := 0\<rparr>"
        using 3 None by (simp add: a_char_def)
      ultimately show ?thesis using ed_ok_esc [OF e'(2)] h by simp
    qed
  qed
qed

lemma a_add_esc [simp]: "aesc (a_add c a) = aesc a"
  by (simp add: a_add_def)

lemma a_switch_esc: "aesc a = 0 \<Longrightarrow> aesc (a_switch c ls a) \<le> 2"
  by (simp add: a_switch_def a_hist_def split: option.split list.split)

lemma a_char_esc: "aesc a \<le> 2 \<Longrightarrow> aesc (a_char c ls a) \<le> 2"
  using a_switch_esc [of a c ls] a_switch_esc [of "a\<lparr>aesc := 0\<rparr>" _ ls]
  by (auto simp: a_char_def split: option.split intro: le_trans)

text \<open>The loop, on input without NUL.\<close>

lemma cread_loop_ok:
  "ed_ok e a \<Longrightarrow> aesc a \<le> 2 \<Longrightarrow> hist_ok h ls (apos a) \<Longrightarrow> NUL \<notin> set input \<Longrightarrow>
   (case a_loop input ls a of
      None \<Rightarrow> cread_loop input e h = None
    | Some (rc, t, ls', rest) \<Rightarrow> \<exists>e' h' p. cread_loop input e h = Some (rc, e', h', rest) \<and> hist_ok h' ls' p \<and>
        string_at (cbuf e') 0 = t \<and> length (cbuf e') = 256 \<and> (rc = 0 \<longrightarrow> eol_num e' = length t \<and> p = Some 0))"
proof (induction input arbitrary: e a h)
  case (Cons c input)
  have c: "c \<noteq> NUL" "NUL \<notin> set input" using Cons.prems(4) by auto
  obtain junk where b: "cbuf e = before a @ behind a @ junk" "length (before a) + length (behind a) + length junk = 256"
      "cnum e = length (before a)" "eol_num e = length (before a) + length (behind a)"
    by (rule ed_okE [OF Cons.prems(1)])
  have nul: "NUL \<notin> set (line_text a)" using Cons.prems(1) by (simp add: ed_ok_def)
  have b': "cbuf e = line_text a @ junk" "eol_num e = length (line_text a)" "length (line_text a) + length junk = 256"
    using b by (simp_all add: line_text_def)
  consider "c = CHR 0x0A \<or> c = CHR 0x0D" | "c = CHR 0x03" "aesc a = 0"
    | "\<not> (c = CHR 0x0A \<or> c = CHR 0x0D)" "c \<noteq> CHR 0x03 \<or> aesc a \<noteq> 0" by auto
  then show ?case
  proof cases
    case 1
    show ?thesis
    proof (cases junk)
      case Nil
      then show ?thesis
        using 1 b' by (simp add: buf_set_def wr_def Let_def)
    next
      case (Cons j js)
      let ?t = "line_text a" and ?e = "putch CHR 0x0A e\<lparr>cbuf := line_text a @ NUL # js\<rparr>"
      have set: "buf_set (eol_num (putch CHR 0x0A e)) NUL (putch CHR 0x0A e) = Some ?e"
        using b' Cons by (simp add: buf_set_def wr_at)
      have str: "string_at (?t @ NUL # js) 0 = ?t" using string_at_text [OF nul, of "[]" 0 js] by simp
      have r0: "rd (?t @ NUL # js) 0 = Some (if ?t = [] then NUL else hd ?t)" by (cases ?t) simp_all
      have hd: "?t \<noteq> [] \<Longrightarrow> hd ?t \<noteq> NUL" using nul by (cases ?t) auto
      have len: "length ?t < 256" "length (?t @ NUL # js) = 256" using b'(3) Cons by simp_all
      define keep where "keep \<longleftrightarrow> ?t \<noteq> [] \<and> hd ?t \<noteq> CHR ''!''"
      obtain h' where h': "(if keep then cread_add_to_hist ?t h else Some h) = Some h'"
          "hist_ok (h'\<lparr>hist_cur := int (hist_add_idx h')\<rparr>) (if keep then ?t # ls else ls) (Some 0)"
      proof (cases keep)
        case True
        then show ?thesis using that hist_add_ok [OF Cons.prems(3) nul len(1)] by auto
      next
        case False
        have "hist_ok (h\<lparr>hist_cur := int (hist_add_idx h)\<rparr>) ls (Some 0)" using Cons.prems(3) by (simp add: hist_ok_def)
        then show ?thesis using that [of h] False by simp
      qed
      have k: "((if ?t = [] then NUL else hd ?t) \<noteq> NUL \<and> (if ?t = [] then NUL else hd ?t) \<noteq> CHR ''!'') = keep"
        using hd by (auto simp: keep_def)
      have "cread_loop (c # input) e h = Some (0, ?e, h'\<lparr>hist_cur := int (hist_add_idx h')\<rparr>, input)"
        using 1 h'(1) unfolding cread_loop.simps Let_def set bind.bind_lunit
        by (simp only: cread.simps cread.select_convs r0 str k bind.bind_lunit if_True) (cases keep; simp add: r0 str k)
      moreover have "a_loop (c # input) ls a = Some (0, ?t, if keep then ?t # ls else ls, input)"
        using 1 len(1) by (simp add: Let_def keep_def)
      ultimately show ?thesis using h'(2) str len(2) b'(2) by auto
    qed
  next
    case 2
    have "length (cbuf e) = 256" using Cons.prems(1) by (simp add: ed_ok_def)
    then obtain d ds where d: "cbuf e = d # ds" and len: "length (d # ds) = 256"
      by (metis length_0_conv list.exhaust zero_neq_numeral)
    have "cread_char c e h = Some (True, e\<lparr>cbuf := NUL # ds\<rparr>, h)"
      using 2 Cons.prems(1) by (simp add: cread_char_def ed_ok_def cread_switch_def buf_set_def d wr_def)
    then show ?thesis using 2 Cons.prems(3) len by (auto simp: string_at_def)
  next
    case 3
    obtain e' h' where s: "cread_char c e h = Some (False, e', h')" "ed_ok e' (a_char c ls a)" "hist_ok h' ls (apos (a_char c ls a))"
      using cread_char_ok [OF Cons.prems(1,3) c(1) 3(2) Cons.prems(2)] by blast
    have "cread_loop (c # input) e h = cread_loop input e' h'" "a_loop (c # input) ls a = a_loop input ls (a_char c ls a)"
      using 3 s(1) by auto
    then show ?thesis using Cons.IH [OF s(2) a_char_esc [OF Cons.prems(2)] s(3) c(2)] by (simp only:)
  qed
qed simp

section \<open>The plain reader as a list\<close>

function del_word :: "string \<Rightarrow> string" where
  "del_word t = (if butlast t \<noteq> [] \<and> last t \<noteq> CHR '' '' then del_word (butlast t) else butlast t)"
  by auto
termination
proof (relation "measure length", goal_cases)
  case (2 t)
  then have "t \<noteq> []" by auto
  then show ?case by simp
qed simp

declare del_word.simps [simp del]

definition p_key :: "char \<Rightarrow> string \<Rightarrow> string" where
  "p_key c t = (if c = NUL then t else if c = CHR 0x15 then [] else if c = CHR 0x17 then del_word t
     else if c = CHR 0x08 \<or> c = CHR 0x7F then butlast t else if length t < 254 then t @ [c] else t)"

fun p_loop :: "string \<Rightarrow> string \<Rightarrow> (int \<times> string \<times> string) option" where
  "p_loop [] t = None"
| "p_loop (c # input) t =
     (if c = CHR 0x0D \<or> c = CHR 0x0A then Some (int (length t), t, input)
      else if c = CHR 0x03 then Some (- 1, [], input)
      else p_loop input (p_key c t))"

definition plain_ok :: "plain \<Rightarrow> string \<Rightarrow> bool" where
  "plain_ok s t \<longleftrightarrow> (\<exists>junk. pbuf s = t @ junk) \<and> length (pbuf s) = 256 \<and> pp s = length t \<and> pn s = length t \<and>
     length t \<le> 254 \<and> NUL \<notin> set t"

lemma plain_ok_tty [simp]:
  "plain_ok (s\<lparr>ptty := x\<rparr>) t = plain_ok s t" "plain_ok (s\<lparr>pcol := n\<rparr>) t = plain_ok s t"
  "plain_ok (s\<lparr>ptty := x, pcol := n\<rparr>) t = plain_ok s t" "plain_ok (s\<lparr>pcol := n, ptty := x\<rparr>) t = plain_ok s t"
  by (simp_all add: plain_ok_def)

lemma plain_ok_erase [simp]: "plain_ok (erase_line plen s) t = plain_ok s t"
  by (simp add: erase_line_def)

lemma delete_char_ok:
  assumes "plain_ok s t"
  shows "\<exists>s'. delete_char plen s = Some s' \<and> plain_ok s' (butlast t) \<and> (t \<noteq> [] \<longrightarrow> rd (pbuf s') (pp s') = Some (last t))"
proof (cases t rule: rev_cases)
  case Nil
  then show ?thesis using assms by (simp add: delete_char_def plain_ok_def)
next
  case (snoc u c)
  obtain junk where b: "pbuf s = u @ c # junk" "length (pbuf s) = 256" "pp s = length u + 1" "pn s = length u + 1"
    using assms by (auto simp: plain_ok_def snoc)
  have r: "rd (u @ c # junk) (length u) = Some c" by (simp add: rd_at)
  have "\<exists>col out. delete_char plen s = Some (s\<lparr>pp := length u, pcol := col, ptty := out, pn := length u\<rparr>)"
  proof (cases "c = TAB")
    case True
    obtain col out where "fold type_char u (pcol (erase_line plen (s\<lparr>pp := length u\<rparr>)), ptty (erase_line plen (s\<lparr>pp := length u\<rparr>))) = (col, out)"
      by fastforce
    then show ?thesis
      using b r True by (intro exI [of _ col] exI [of _ out]) (auto simp: delete_char_def Let_def erase_line_def split: if_splits)
  next
    case False
    then show ?thesis
      using b r by (intro exI [of _ "pcol s - 1"] exI [of _ "ptty s @ erase_seq"]) (simp add: delete_char_def Let_def)
  qed
  then show ?thesis using assms b r by (auto simp: plain_ok_def snoc)
qed

lemma delete_word_ok: "plain_ok s t \<Longrightarrow> \<exists>s'. delete_word plen s = Some s' \<and> plain_ok s' (del_word t)"
proof (induction t arbitrary: s rule: del_word.induct)
  case (1 t)
  obtain s1 where s1: "delete_char plen s = Some s1" "plain_ok s1 (butlast t)" "t \<noteq> [] \<Longrightarrow> rd (pbuf s1) (pp s1) = Some (last t)"
    using delete_char_ok [OF 1(2)] by blast
  have n: "pn s1 = length (butlast t)" using s1(2) by (simp add: plain_ok_def)
  show ?case
  proof (cases "butlast t = []")
    case True
    then show ?thesis using s1 n by (subst delete_word.simps, subst del_word.simps) simp
  next
    case False
    have "t \<noteq> []" using False by auto
    moreover have "0 < length (butlast t)" using False by blast
    ultimately have r: "rd (pbuf s1) (pp s1) = Some (last t)" "0 < pn s1" using s1(3) n by simp_all
    show ?thesis
    proof (cases "last t = CHR '' ''")
      case True
      then show ?thesis using s1(1,2) r by (subst delete_word.simps, subst del_word.simps) simp
    next
      case False
      then show ?thesis
        using s1(1) r 1(1) [OF conjI [OF \<open>butlast t \<noteq> []\<close> False] s1(2)] \<open>butlast t \<noteq> []\<close>
        by (subst delete_word.simps, subst del_word.simps) simp
    qed
  qed
qed

lemma plain_key_ok:
  assumes ok: "plain_ok s t"
  shows "\<exists>s'. plain_key plen c s = Some s' \<and> plain_ok s' (p_key c t)"
proof -
  consider "c = NUL" | "c = CHR 0x15" | "c = CHR 0x17" | "c = CHR 0x08 \<or> c = CHR 0x7F" | "c \<notin> {NUL, CHR 0x15, CHR 0x17, CHR 0x08, CHR 0x7F}"
    by auto
  then show ?thesis
  proof cases
    case 1
    then show ?thesis using ok by (simp add: plain_key_def p_key_def)
  next
    case 2
    then show ?thesis using ok by (simp add: plain_key_def p_key_def plain_ok_def erase_line_def)
  next
    case 3
    then show ?thesis using delete_word_ok [OF ok] by (simp add: plain_key_def p_key_def)
  next
    case 4
    have "plain_key plen c s = delete_char plen s" "p_key c t = butlast t"
      using 4 by (elim disjE; simp add: plain_key_def p_key_def)+
    then show ?thesis using delete_char_ok [OF ok] by auto
  next
    case 5
    obtain col out where tc: "type_char c (pcol s, ptty s) = (col, out)" by fastforce
    show ?thesis
    proof (cases "length t < 254")
      case True
      obtain j js where j: "pbuf s = t @ j # js"
      proof -
        obtain junk where "pbuf s = t @ junk" "length (pbuf s) = 256" using ok by (auto simp: plain_ok_def)
        then show ?thesis using that True by (cases junk) auto
      qed
      have "plain_key plen c s = Some (s\<lparr>pbuf := t @ c # js, pp := pp s + 1, pn := pn s + 1, pcol := col, ptty := out\<rparr>)"
        using ok 5 True tc by (simp add: plain_key_def plain_ok_def j wr_at)
      then show ?thesis using ok 5 True by (auto simp: p_key_def plain_ok_def j)
    next
      case False
      then show ?thesis using ok 5 by (simp add: plain_key_def p_key_def plain_ok_def)
    qed
  qed
qed

lemma plain_loop_ok:
  "plain_ok s t \<Longrightarrow>
   (case p_loop input t of
      None \<Rightarrow> plain_loop plen input s = None
    | Some (rc, u, rest) \<Rightarrow> \<exists>b. plain_loop plen input s = Some (rc, b, rest) \<and> string_at b 0 = u \<and> length b = 256)"
proof (induction input arbitrary: s t)
  case (Cons c input)
  obtain junk where b: "pbuf s = t @ junk" "length (pbuf s) = 256" "pp s = length t" "length t \<le> 254" "NUL \<notin> set t"
    using Cons.prems by (auto simp: plain_ok_def)
  consider "c = CHR 0x0D \<or> c = CHR 0x0A" | "c = CHR 0x03" | "\<not> (c = CHR 0x0D \<or> c = CHR 0x0A)" "c \<noteq> CHR 0x03" by auto
  then show ?case
  proof cases
    case 1
    obtain j js where j: "junk = j # js" using b by (cases junk) auto
    have w: "wr (pbuf s) (pp s) NUL = Some (t @ NUL # js)" using b(1,3) j by (simp add: wr_at)
    have "string_at (t @ NUL # js) 0 = t" using string_at_text [OF b(5), of "[]" 0 js] by simp
    then show ?thesis using 1 w b(1,2,3) j by simp
  next
    case 2
    then show ?thesis using b(2) by (cases "pbuf s") (auto simp: wr_def string_at_def)
  next
    case 3
    obtain s' where s': "plain_key plen c s = Some s'" "plain_ok s' (p_key c t)" using plain_key_ok [OF Cons.prems] by blast
    have "plain_loop plen (c # input) s = plain_loop plen input s'" "p_loop (c # input) t = p_loop input (p_key c t)"
      using 3 s'(1) by auto
    then show ?thesis using Cons.IH [OF s'(2)] by (simp only:)
  qed
qed simp

section \<open>A line that does not fit\<close>

definition plain_char :: "char \<Rightarrow> bool" where
  "plain_char c \<longleftrightarrow> c \<notin> {NUL, CHR 0x0A, CHR 0x0D, CHR 0x03, CHR 0x1B, CHR 0x01, CHR 0x06, CHR 0x02, CHR 0x04, CHR 0x0B, CHR 0x05,
     CHR 0x0F, CHR 0x18, CHR 0x15, CHR 0xFF, CHR 0x7F, CHR 0x08, CHR 0x10, CHR 0x0E}"

lemma a_loop_plain:
  "\<forall>c\<in>set s. plain_char c \<Longrightarrow> amode a \<Longrightarrow> aesc a = 0 \<Longrightarrow> length (line_text a) + length s \<le> 256 \<Longrightarrow>
   a_loop (s @ rest) ls a = a_loop rest ls (a\<lparr>before := before a @ s\<rparr>)"
proof (induction s arbitrary: a)
  case (Cons c s)
  have c: "plain_char c" using Cons.prems(1) by simp
  have k: "a_char c ls a = a\<lparr>before := before a @ [c]\<rparr>"
    using c Cons.prems(2,3,4) by (simp add: a_char_def a_switch_def a_add_def plain_char_def)
  have "a_loop ((c # s) @ rest) ls a = a_loop (s @ rest) ls (a\<lparr>before := before a @ [c]\<rparr>)"
    using c Cons.prems(3) by (simp add: k plain_char_def)
  also have "\<dots> = a_loop rest ls (a\<lparr>before := before a @ c # s\<rparr>)"
    using Cons.IH [of "a\<lparr>before := before a @ [c]\<rparr>"] Cons.prems by (simp add: line_text_def)
  finally show ?case .
qed simp

definition start_line :: "nat option \<Rightarrow> aline" where
  "start_line p = \<lparr>before = [], behind = [], amode = True, aesc = 0, apos = p\<rparr>"

lemma cread_line_ok:
  assumes "hist_ok h ls p" and "length buffer = 256" and "length garbage = 8" and "NUL \<notin> set input"
  shows "(case a_loop input ls (start_line p) of
      None \<Rightarrow> cread_line garbage buffer input h = None
    | Some (rc, t, ls', rest) \<Rightarrow> \<exists>e' h' p. cread_line garbage buffer input h = Some (rc, e', h', rest) \<and> hist_ok h' ls' p \<and>
        string_at (cbuf e') 0 = t \<and> length (cbuf e') = 256 \<and> (rc = 0 \<longrightarrow> eol_num e' = length t \<and> p = Some 0))"
  unfolding cread_line_def
  by (rule cread_loop_ok) (use assms in \<open>simp_all add: ed_ok_def start_line_def line_text_def\<close>)

text \<open>After 256 characters, the NUL of the line is written behind the buffer.\<close>

lemma cread_line_full:
  assumes "hist_ok h ls p" and "length buffer = 256" and "length garbage = 8" and "length s = 256" and "\<forall>c\<in>set s. plain_char c"
    and "NUL \<notin> set rest"
  shows "cread_line garbage buffer (s @ CHR 0x0D # rest) h = None"
proof -
  have "NUL \<notin> set (s @ CHR 0x0D # rest)" using assms(5,6) by (auto simp: plain_char_def)
  moreover have "a_loop (s @ CHR 0x0D # rest) ls (start_line p) = None"
    using a_loop_plain [OF assms(5), of "start_line p" "CHR 0x0D # rest" ls] assms(4) by (simp add: start_line_def line_text_def Let_def)
  ultimately show ?thesis using cread_line_ok [OF assms(1-3)] by fastforce
qed

lemma a_loop_rc: "a_loop input ls a = Some (rc, t, ls', rest) \<Longrightarrow> rc < 0 \<or> rc = 0"
  by (induction input arbitrary: a) (auto simp: Let_def split: if_splits)

section \<open>Properties\<close>

text \<open>
  The ring of twenty lines is a list of the lines entered, the newest first: \<open>hist_prev\<close> goes back
  through the last nineteen of them and then returns \<open>NULL\<close>, \<open>hist_next\<close> comes forward to an empty
  line, and \<open>cread_add_to_hist\<close> puts a line in front.
\<close>

theorem history_correct:
  assumes "hist_ok h ls p"
  shows "(\<exists>h'. hist_prev h = Some (fst (hist_back ls p), h') \<and> hist_ok h' ls (snd (hist_back ls p))) \<and>
    (\<exists>h'. hist_next h = Some (fst (hist_forth ls p), h') \<and> hist_ok h' ls (snd (hist_forth ls p))) \<and>
    (NUL \<notin> set line \<and> length line < 256 \<longrightarrow>
      (\<exists>h'. cread_add_to_hist line h = Some h' \<and> hist_ok (h'\<lparr>hist_cur := int (hist_add_idx h')\<rparr>) (line # ls) (Some 0)))"
  using hist_prev_ok [OF assms] hist_next_ok [OF assms] hist_add_ok [OF assms] by blast

definition demo_history :: history where
  "demo_history = hist_init \<lparr>hist_max = 7, hist_add_idx = 7, hist_cur = 7, hist_num = 7,
     hist_lines = replicate 20 (replicate 256 CHR ''?'')\<rparr>"

lemma demo_history_ok: "hist_ok demo_history [] None"
  unfolding demo_history_def by (rule hist_init_ok) simp_all

theorem history_correct_witness:
  "\<exists>h h'. cread_add_to_hist ''ls'' demo_history = Some h \<and> hist_prev (h\<lparr>hist_cur := int (hist_add_idx h)\<rparr>) = Some (Some ''ls'', h')"
proof -
  obtain h where "cread_add_to_hist ''ls'' demo_history = Some h" "hist_ok (h\<lparr>hist_cur := int (hist_add_idx h)\<rparr>) [''ls''] (Some 0)"
    using history_correct [OF demo_history_ok, of "''ls''"] by auto
  then show ?thesis
    using history_correct [of "h\<lparr>hist_cur := int (hist_add_idx h)\<rparr>" "[''ls'']" "Some 0" "[]"] by (auto simp: hist_back_def)
qed

text \<open>
  C14: Reading a line.  After relocation the buffer, cursor and escape sequences of \<open>cread_line\<close> do what
  the keys say to a text with a cursor: the line returned is that text with its NUL, its length is
  returned and the line joins the history; a text of 256 characters has no room for the NUL
  (\<open>None\<close>).  Before relocation the plain reader returns what is left of at most 254 characters typed
  after erasing characters, words and the line.  All accesses stay inside the buffers.
\<close>

theorem readline_correct:
  assumes "hist_ok h ls p" and "length buffer = 256" and "length garbage = 8" and "NUL \<notin> set input"
  shows "(case a_loop input ls (start_line p) of
      None \<Rightarrow> readline_into_buffer garbage True prompt buffer input True h = None
    | Some (rc, t, ls', rest) \<Rightarrow> \<exists>b h' p. readline_into_buffer garbage True prompt buffer input True h =
          Some (if rc < 0 then rc else int (length t), b, True, h', rest) \<and> (rc < 0 \<or> rc = 0) \<and> string_at b 0 = t \<and> hist_ok h' ls' p) \<and>
    (case p_loop input [] of
      None \<Rightarrow> readline_into_buffer garbage False prompt buffer input i h = None
    | Some (n, t, rest) \<Rightarrow> \<exists>b. readline_into_buffer garbage False prompt buffer input i h = Some (n, b, i, h, rest) \<and> string_at b 0 = t)"
proof
  show "case a_loop input ls (start_line p) of
      None \<Rightarrow> readline_into_buffer garbage True prompt buffer input True h = None
    | Some (rc, t, ls', rest) \<Rightarrow> \<exists>b h' p. readline_into_buffer garbage True prompt buffer input True h =
          Some (if rc < 0 then rc else int (length t), b, True, h', rest) \<and> (rc < 0 \<or> rc = 0) \<and> string_at b 0 = t \<and> hist_ok h' ls' p"
    using cread_line_ok [OF assms] a_loop_rc [of input ls "start_line p"]
    by (cases "a_loop input ls (start_line p)") (fastforce simp: readline_into_buffer_def)+
  have "plain_ok \<lparr>pbuf = buffer, pp = 0, pn = 0, pcol = length prompt, ptty = prompt\<rparr> []"
    using assms(2) by (simp add: plain_ok_def)
  from plain_loop_ok [OF this, where input = input and plen = "length prompt"]
  show "case p_loop input [] of
      None \<Rightarrow> readline_into_buffer garbage False prompt buffer input i h = None
    | Some (n, t, rest) \<Rightarrow> \<exists>b. readline_into_buffer garbage False prompt buffer input i h = Some (n, b, i, h, rest) \<and> string_at b 0 = t"
    by (cases "p_loop input []") (force simp: readline_into_buffer_def)+
qed

theorem readline_correct_witness:
  "\<exists>b h'. readline_into_buffer (replicate 8 CHR ''?'') True ''> '' (replicate 256 CHR ''?'')
     [CHR ''a'', CHR ''b'', CHR 0x1B, CHR ''['', CHR ''D'', CHR ''x'', CHR 0x0D] True demo_history = Some (3, b, True, h', []) \<and>
     string_at b 0 = ''axb''"
proof -
  have "a_loop [CHR ''a'', CHR ''b'', CHR 0x1B, CHR ''['', CHR ''D'', CHR ''x'', CHR 0x0D] [] (start_line None) =
      Some (0, ''axb'', [''axb''], [])"
    by (simp add: start_line_def a_char_def a_switch_def a_add_def arrow_key_def line_text_def Let_def)
  then show ?thesis
    using readline_correct [OF demo_history_ok, of "replicate 256 CHR ''?''" "replicate 8 CHR ''?''"
      "[CHR ''a'', CHR ''b'', CHR 0x1B, CHR ''['', CHR ''D'', CHR ''x'', CHR 0x0D]" "''> ''" True] by auto
qed

end
