(* ===== verification/HushVars.thy ===== *)
theory HushVars
  imports CmdLine Format
begin

text \<open>
  The variables of the \<^verbatim>\<open>hush\<close> shell (\<^verbatim>\<open>common/hush.c\<close>, \<open>__U_BOOT__\<close>): the list \<open>top_vars\<close> of local
  variables beside the environment, look-up, assignment, and the replacement of variables in words.
  A variable is marked in a word by \<open>SPECIAL_VAR_SYMBOL\<close> before and behind its name.  Memory
  never runs out; a string on the heap is a list of characters.
\<close>

section \<open>The state of the shell\<close>

record variables =
  vname :: string
  vvalue :: string
  flg_export :: int
  flg_read_only :: bool

text \<open>
  The globals of the shell, the environment, and the console as far as Control C goes
  (\<^verbatim>\<open>common/console.c\<close>): the character each call of \<open>ctrlc\<close> finds, if there is one.
\<close>

record shell =
  sh_env :: env
  top_vars :: "variables list"
  last_return_code :: u32
  flag_repeat :: bool
  do_repeat :: bool
  polls :: "char option list"
  ctrlc_disabled :: bool
  ctrlc_was_pressed :: bool

definition ctrlc :: "shell \<Rightarrow> bool \<times> shell" where
  "ctrlc sh =
     (if ctrlc_disabled sh then (False, sh)
      else (case polls sh of
          [] \<Rightarrow> (False, sh)
        | c # ps \<Rightarrow> if c = Some CHR 0x03 then (True, sh\<lparr>polls := ps, ctrlc_was_pressed := True\<rparr>) else (False, sh\<lparr>polls := ps\<rparr>)))"

definition disable_ctrlc :: "bool \<Rightarrow> shell \<Rightarrow> bool \<times> shell" where
  "disable_ctrlc disable sh = (ctrlc_disabled sh, sh\<lparr>ctrlc_disabled := disable\<rparr>)"

definition had_ctrlc :: "shell \<Rightarrow> bool" where "had_ctrlc sh = ctrlc_was_pressed sh"

definition clear_ctrlc :: "shell \<Rightarrow> shell" where "clear_ctrlc sh = sh\<lparr>ctrlc_was_pressed := False\<rparr>"

abbreviation SPECIAL_VAR_SYMBOL :: char where "SPECIAL_VAR_SYMBOL \<equiv> CHR 0x03"

abbreviation LF :: char where "LF \<equiv> CHR 0x0A"

definition u_boot_hush_start :: "shell \<Rightarrow> shell" where
  "u_boot_hush_start sh =
     (if top_vars sh = []
      then sh\<lparr>top_vars := [\<lparr>vname = ''HUSH_VERSION'', vvalue = ''0.01'', flg_export = 0, flg_read_only = True\<rparr>]\<rparr>
      else sh)"

section \<open>Variables\<close>

definition get_dollar_var :: "shell \<Rightarrow> char \<Rightarrow> string option option" where
  "get_dollar_var sh ch =
     (if ch = CHR ''?''
      then do { (buf, _) \<leftarrow> vsprintf False (arr []) (''%u'' @ [NUL]) [last_return_code sh]; Some (Some buf) }
      else Some None)"

fun var_find :: "string \<Rightarrow> variables list \<Rightarrow> variables option" where
  "var_find s [] = None"
| "var_find s (cur # vs) = (if vname cur = s then Some cur else var_find s vs)"

definition get_local_var :: "shell \<Rightarrow> string \<Rightarrow> string option option" where
  "get_local_var sh s =
     (case s of
        CHR ''$'' # t \<Rightarrow> get_dollar_var sh (case t of [] \<Rightarrow> NUL | c # _ \<Rightarrow> c)
      | _ \<Rightarrow> Some (map_option vvalue (var_find s (top_vars sh))))"

definition lookup_param :: "shell \<Rightarrow> string \<Rightarrow> string option option" where
  "lookup_param sh src = do {
     p \<leftarrow> env_lookup (sh_env sh) src;
     (case p of None \<Rightarrow> get_local_var sh src | Some v \<Rightarrow> Some (Some v)) }"

fun var_update :: "string \<Rightarrow> (variables \<Rightarrow> variables) \<Rightarrow> variables list \<Rightarrow> variables list" where
  "var_update s f [] = []"
| "var_update s f (cur # vs) = (if vname cur = s then f cur # vs else cur # var_update s f vs)"

text \<open>
  \<open>set_local_var\<close> on \<open>s\<close>, which is \<open>NAME=VALUE\<close>: without an equals sign the null pointer is written
  through.  The environment is asked for the whole of \<open>s\<close>; \<open>envmatch\<close> stops at the sign.
\<close>

definition set_local_var :: "string \<Rightarrow> int \<Rightarrow> shell \<Rightarrow> (int \<times> shell) option" where
  "set_local_var s flg_exp sh =
     (if s = [] \<or> \<not> isalpha (hd s) then Some (- 1, sh)
      else do {
        g \<leftarrow> getenv (sh_env sh) s;
        if g \<noteq> None then Some (- 1, sh)
        else if CHR ''='' \<notin> set s then None
        else do {
          let name = takeWhile (\<lambda>c. c \<noteq> CHR ''='') s;
          let val = tl (dropWhile (\<lambda>c. c \<noteq> CHR ''='') s);
          (case var_find name (top_vars sh) of
             Some cur \<Rightarrow>
               if vvalue cur = val
               then if flg_exp > 0 \<and> flg_export cur = 0
                 then Some (0, sh\<lparr>top_vars := var_update name (\<lambda>cur. cur\<lparr>flg_export := flg_exp\<rparr>) (top_vars sh)\<rparr>)
                 else Some (1, sh)
               else if flg_read_only cur then Some (- 1, sh)
               else Some (0, sh\<lparr>top_vars := var_update name (\<lambda>cur. cur\<lparr>
                   flg_export := (if flg_exp > 0 \<or> flg_export cur > 1 then 1 else flg_export cur), vvalue := val\<rparr>) (top_vars sh)\<rparr>)
           | None \<Rightarrow>
               if top_vars sh = [] then None
               else Some (0, sh\<lparr>top_vars := top_vars sh @
                   [\<lparr>vname = name, vvalue = val, flg_export = flg_exp, flg_read_only = False\<rparr>]\<rparr>)) } })"

fun var_remove :: "string \<Rightarrow> variables list \<Rightarrow> variables list" where
  "var_remove s [] = []"
| "var_remove s (cur # vs) = (if vname cur = s then vs else cur # var_remove s vs)"

text \<open>\<open>next->next\<close> is read from the first variable on: the first variable itself is never found.\<close>

definition unset_local_var :: "string \<Rightarrow> shell \<Rightarrow> shell option" where
  "unset_local_var name sh =
     (case var_find name (top_vars sh) of
        None \<Rightarrow> Some sh
      | Some cur \<Rightarrow>
          if flg_read_only cur then Some sh
          else if vname (hd (top_vars sh)) = name then None
          else Some (sh\<lparr>top_vars := var_remove name (top_vars sh)\<rparr>))"

definition is_assignment :: "string \<Rightarrow> bool" where
  "is_assignment s = (case s of
     [] \<Rightarrow> False
   | c # t \<Rightarrow> isalpha c \<and> (case dropWhile (\<lambda>c. isalnum c \<or> c = CHR ''_'') t of d # _ \<Rightarrow> d = CHR ''='' | [] \<Rightarrow> False))"

section \<open>Words with variables\<close>

text \<open>The loop: \<open>done\<close>, what has been written, and the rest of the word.\<close>

partial_function (option) insert_loop :: "shell \<Rightarrow> string \<Rightarrow> string \<Rightarrow> bool \<Rightarrow> (bool \<times> string \<times> string) option" where [code]:
  "insert_loop sh inp res_str fin =
     (if SPECIAL_VAR_SYMBOL \<in> set inp
      then do {
        let res_str = res_str @ takeWhile (\<lambda>c. c \<noteq> SPECIAL_VAR_SYMBOL) inp;
        let inp = tl (dropWhile (\<lambda>c. c \<noteq> SPECIAL_VAR_SYMBOL) inp);
        if SPECIAL_VAR_SYMBOL \<in> set inp
        then do {
          p1 \<leftarrow> lookup_param sh (takeWhile (\<lambda>c. c \<noteq> SPECIAL_VAR_SYMBOL) inp);
          insert_loop sh (tl (dropWhile (\<lambda>c. c \<noteq> SPECIAL_VAR_SYMBOL) inp))
            (res_str @ (case p1 of None \<Rightarrow> [] | Some v \<Rightarrow> v)) True }
        else None }
      else Some (fin, res_str, inp))"

text \<open>Whether the result is a new string, and the string.\<close>

definition insert_var_value :: "shell \<Rightarrow> string \<Rightarrow> (bool \<times> string) option" where
  "insert_var_value sh inp = do {
     (fin, res_str, rest) \<leftarrow> insert_loop sh inp [] False;
     Some (if fin then (True, map (\<lambda>c. if c = LF then CHR '' '' else c) (res_str @ rest)) else (False, inp)) }"

function blank_words :: "string \<Rightarrow> string list" where
  "blank_words p1 = (case p1 of
     [] \<Rightarrow> []
   | c # p2 \<Rightarrow> if c = CHR '' '' then blank_words p2
       else takeWhile (\<lambda>c. c \<noteq> CHR '' '') p1 # blank_words (dropWhile (\<lambda>c. c \<noteq> CHR '' '') p1))"
  by pat_completeness auto
termination
  by (relation "measure length") (auto simp: le_imp_less_Suc length_dropWhile_le)

declare blank_words.simps [simp del]

fun make_list_in :: "shell \<Rightarrow> string list \<Rightarrow> string \<Rightarrow> string list option" where
  "make_list_in sh [] name = Some []"
| "make_list_in sh (i # inp) name = do {
     (_, p3) \<leftarrow> insert_var_value sh i;
     rest \<leftarrow> make_list_in sh inp name;
     Some (map (\<lambda>w. name @ CHR ''='' # w) (blank_words p3) @ rest) }"

fun insert_all :: "shell \<Rightarrow> string list \<Rightarrow> string list option" where
  "insert_all sh [] = Some []"
| "insert_all sh (i # inp) = do { (_, p) \<leftarrow> insert_var_value sh i; ps \<leftarrow> insert_all sh inp; Some (p # ps) }"

fun join_blank :: "string list \<Rightarrow> string" where
  "join_blank [] = []"
| "join_blank [p] = p"
| "join_blank (p # ps) = p @ CHR '' '' # join_blank ps"

text \<open>On no words at all, \<open>strlen\<close> reads the null pointer.\<close>

definition make_string :: "shell \<Rightarrow> string list \<Rightarrow> string option" where
  "make_string sh inp = (if inp = [] then None else do { ps \<leftarrow> insert_all sh inp; Some (join_blank ps @ [LF]) })"

section \<open>Printing\<close>

definition var_line :: "variables \<Rightarrow> string" where
  "var_line cur = vname cur @ CHR ''='' # vvalue cur @ [LF]"

definition abort_line :: string where
  "abort_line = [LF] @ '' ** Abort'' @ [LF]"

text \<open>All variables: the return value, the output, the state.\<close>

fun showvar_all :: "variables list \<Rightarrow> string \<Rightarrow> shell \<Rightarrow> int \<times> string \<times> shell" where
  "showvar_all [] out sh = (0, out, sh)"
| "showvar_all (cur # vs) out sh =
     (let out = out @ var_line cur; (c, sh) = ctrlc sh in
      if c then (1, out @ abort_line, sh) else showvar_all vs out sh)"

text \<open>One name: whether Control C was pressed, whether the name was found, the output, the state.\<close>

fun showvar_name :: "string \<Rightarrow> variables list \<Rightarrow> bool \<Rightarrow> string \<Rightarrow> shell \<Rightarrow> bool \<times> bool \<times> string \<times> shell" where
  "showvar_name name [] found out sh = (False, found, out, sh)"
| "showvar_name name (cur # vs) found out sh =
     (let hit = vname cur = name; out = (if hit then out @ var_line cur else out); (c, sh) = ctrlc sh in
      if c then (True, found, out @ abort_line, sh) else showvar_name name vs (found \<or> hit) out sh)"

fun showvar_names :: "string list \<Rightarrow> int \<Rightarrow> string \<Rightarrow> shell \<Rightarrow> int \<times> string \<times> shell" where
  "showvar_names [] rcode out sh = (rcode, out, sh)"
| "showvar_names (name # names) rcode out sh =
     (let (c, found, out, sh) = showvar_name name (top_vars sh) False out sh in
      if c then (1, out, sh)
      else if found then showvar_names names rcode out sh
      else showvar_names names (rcode + 1)
        (out @ ''## Error: '' @ [CHR 0x22] @ name @ [CHR 0x22] @ '' not defined'' @ [LF]) sh)"

definition do_showvar :: "string list \<Rightarrow> shell \<Rightarrow> int \<times> string \<times> shell" where
  "do_showvar argv sh =
     (if length argv = 1 then showvar_all (top_vars sh) [] sh else showvar_names (tl argv) 0 [] sh)"

section \<open>Characters of names\<close>

lemma isalpha_isalnum: "isalpha c \<Longrightarrow> isalnum c"
proof -
  assume c: "isalpha c"
  have "ismask c AND 7 \<noteq> 0"
  proof
    assume "ismask c AND 7 = 0"
    then have "(ismask c AND 7) AND 3 = 0" by simp
    then have "ismask c AND 3 = 0" by (simp add: and.assoc)
    then show False using c by (simp add: isalpha_def)
  qed
  then show ?thesis by (simp add: isalnum_def)
qed

lemma char_facts:
  "\<not> isalnum NUL" "\<not> isalnum CHR ''=''" "\<not> isalnum CHR ''$''" "\<not> isalnum CHR ''?''" "\<not> isalnum SPECIAL_VAR_SYMBOL" "\<not> isalnum CHR '' ''" "\<not> isalnum LF"
  "\<not> isalnum CHR '';''" "\<not> isalnum CHR ''&''" "\<not> isalnum CHR ''|''" "\<not> isalnum CHR ''#''" "\<not> isalnum CHR 0x5C" "\<not> isalnum CHR 0x27"
  "\<not> isalnum CHR 0x22" "\<not> isalnum CHR 0x09" "\<not> isalnum CHR ''{''" "\<not> isalnum CHR ''}''" "\<not> isalnum CHR ''_''"
  by (simp_all add: isalnum_def ismask_def ctype_def)

lemma alpha_facts:
  "\<not> isalpha NUL" "\<not> isalpha CHR ''=''" "\<not> isalpha CHR ''$''" "\<not> isalpha CHR ''?''" "\<not> isalpha SPECIAL_VAR_SYMBOL"
  "\<not> isalpha CHR ''{''" "\<not> isalpha LF" "\<not> isalpha CHR '' ''"
  using isalpha_isalnum char_facts by blast+

section \<open>The environment asked for an assignment\<close>

lemma envmatch_assign:
  "CHR ''='' \<notin> set n \<Longrightarrow> NUL \<notin> set n \<Longrightarrow> envmatch e (n @ [NUL]) i = Some r \<Longrightarrow> envmatch e (n @ CHR ''='' # v) i = Some r"
proof (induction n arbitrary: i)
  case Nil
  then show ?case by (auto simp: bind_Some_iff split: if_splits)
next
  case (Cons c n)
  then show ?case by (auto simp: bind_Some_iff split: if_splits)
qed

lemma getenv_loop_assign:
  assumes n: "CHR ''='' \<notin> set n" "NUL \<notin> set n" and g: "getenv_loop e n i = Some r"
  shows "getenv_loop e (n @ CHR ''='' # v) i = Some r"
proof -
  have "e' = e \<longrightarrow> m = n \<longrightarrow> getenv_loop e (n @ CHR ''='' # v) i = Some r" if "getenv_loop e' m i = Some r" for e' m i r
    using that
  proof (rule getenv_loop.raw_induct [rotated])
    fix f e' m i r
    assume IH: "\<And>e' m i r. f e' m i = Some r \<Longrightarrow> e' = e \<longrightarrow> m = n \<longrightarrow> getenv_loop e (n @ CHR ''='' # v) i = Some r"
    assume "do {
         c \<leftarrow> env_get_char e' i;
         if c \<noteq> NUL
         then do {
           r \<leftarrow> env_entry_end e' i;
           (case r of None \<Rightarrow> Some None
            | Some nxt \<Rightarrow> do {
                v \<leftarrow> envmatch e' (m @ [NUL]) i;
                (case v of None \<Rightarrow> f e' m (nxt + 1) | Some val \<Rightarrow> Some (Some val)) }) }
         else Some None } = Some r"
    then obtain c where c: "env_get_char e' i = Some c" and body: "(if c \<noteq> NUL
         then do {
           r \<leftarrow> env_entry_end e' i;
           (case r of None \<Rightarrow> Some None
            | Some nxt \<Rightarrow> do {
                v \<leftarrow> envmatch e' (m @ [NUL]) i;
                (case v of None \<Rightarrow> f e' m (nxt + 1) | Some val \<Rightarrow> Some (Some val)) }) }
         else Some None) = Some r" by (auto simp only: bind_Some_iff)
    show "e' = e \<longrightarrow> m = n \<longrightarrow> getenv_loop e (n @ CHR ''='' # v) i = Some r"
    proof (intro impI)
      assume eq: "e' = e" "m = n"
      note unfold = getenv_loop.simps [of e "n @ CHR ''='' # v" i] c [unfolded eq] bind.bind_lunit
      show "getenv_loop e (n @ CHR ''='' # v) i = Some r"
      proof (cases "c = NUL")
        case True
        then show ?thesis using body by (simp add: unfold)
      next
        case False
        then obtain q where q: "env_entry_end e i = Some q" and body: "(case q of None \<Rightarrow> Some None
            | Some nxt \<Rightarrow> do {
                v \<leftarrow> envmatch e (n @ [NUL]) i;
                (case v of None \<Rightarrow> f e n (Suc nxt) | Some val \<Rightarrow> Some (Some val)) }) = Some r"
          using body by (cases "env_entry_end e i") (auto simp: eq)
        show ?thesis
        proof (cases q)
          case None
          then show ?thesis using body False q by (simp add: unfold)
        next
          case (Some nxt)
          then obtain w where w: "envmatch e (n @ [NUL]) i = Some w"
              and body: "(case w of None \<Rightarrow> f e n (Suc nxt) | Some val \<Rightarrow> Some (Some val)) = Some r"
            using body by (cases "envmatch e (n @ [NUL]) i") auto
          have "getenv_loop e (n @ CHR ''='' # v) i =
              (case w of None \<Rightarrow> getenv_loop e (n @ CHR ''='' # v) (Suc nxt) | Some val \<Rightarrow> Some (Some val))"
            unfolding unfold q Some append_assoc append_Cons envmatch_assign [OF n w] using False by (simp only: if_True option.case bind.bind_lunit simp_thms Suc_eq_plus1)
          then show ?thesis using body IH [of e n "Suc nxt" r] by (cases w) auto
        qed
      qed
    qed
  qed
  then show ?thesis using g by blast
qed

lemma getenv_assign:
  assumes "env_readable e" and "env_name n"
  shows "getenv e (n @ CHR ''='' # v) = getenv e n"
proof -
  obtain es where "env_holds e es" using assms(1) by (auto simp: env_readable_def)
  from getenv_loop_found [OF this assms(2)] obtain r where r: "getenv_loop e n 0 = Some r" by (auto split: option.splits)
  moreover have "getenv_loop e (n @ CHR ''='' # v) 0 = Some r"
    using getenv_loop_assign [OF _ _ r] assms(2) by (simp add: env_name_def)
  ultimately show ?thesis by (simp add: getenv_def)
qed

lemma env_lookup_readable:
  assumes "env_readable e" and "env_name n"
  obtains p where "env_lookup e n = Some p" "getenv e n = Some None \<longleftrightarrow> p = None" "getenv e n \<noteq> None"
  using assms env_lookup_entries [OF _ assms(2)] by (fastforce simp: env_readable_def env_lookup_def)

section \<open>What a variable stands for\<close>

definition local_vars :: "shell \<Rightarrow> (string \<times> string) list" where
  "local_vars sh = map (\<lambda>v. (vname v, vvalue v)) (top_vars sh)"

lemma var_find_value: "map_option vvalue (var_find s vs) = map_of (map (\<lambda>v. (vname v, vvalue v)) vs) s"
  by (induction vs) auto

lemma var_find_Some: "var_find s vs = Some v \<Longrightarrow> v \<in> set vs \<and> vname v = s"
  by (induction vs) (auto split: if_splits)

lemma var_find_None: "var_find s vs = None \<Longrightarrow> map_of (map (\<lambda>v. (vname v, vvalue v)) vs) s = None"
  using var_find_value [of s vs] by simp

lemma var_update_values:
  assumes "\<And>v. vname (f v) = vname v"
  shows "var_find s vs = Some v \<Longrightarrow>
    map_of (map (\<lambda>v. (vname v, vvalue v)) (var_update s f vs)) = (map_of (map (\<lambda>v. (vname v, vvalue v)) vs))(s \<mapsto> vvalue (f v))"
  using assms by (induction vs) (auto split: if_splits)

text \<open>An unset variable is empty; the environment comes first.\<close>

definition shell_value :: "shell \<Rightarrow> string \<Rightarrow> string" where
  "shell_value sh n = (case env_lookup (sh_env sh) n of
     Some (Some v) \<Rightarrow> v
   | _ \<Rightarrow> if n = ''$?'' then decimal (unat (last_return_code sh))
       else (case map_of (local_vars sh) n of None \<Rightarrow> [] | Some v \<Rightarrow> v))"

definition var_name :: "string \<Rightarrow> bool" where
  "var_name n \<longleftrightarrow> env_name n \<and> SPECIAL_VAR_SYMBOL \<notin> set n \<and> (n = ''$?'' \<or> n = [] \<or> hd n \<noteq> CHR ''$'')"

lemma get_dollar_status: "get_dollar_var sh CHR ''?'' = Some (Some (decimal (unat (last_return_code sh))))"
proof -
  let ?p = "[Conv [] None None CHR ''u'']"
  have "vsprintf False (arr []) (concat (map piece_syntax ?p) @ [NUL]) [last_return_code sh] =
      Some ([] @ format_text ?p [Num (last_return_code sh)], arr [])"
    unfolding vsprintf_def by (rule vsprintf_loop_pieces) (simp_all add: opt_int_def)
  moreover have "format_text ?p [Num (last_return_code sh)] = decimal (unat (last_return_code sh))"
  proof -
    have "map (digit_char 0) (digs 10 n) = map dchr (digs 10 n)" for n
      by (rule map_cong) (auto simp: digit_char_dec digs_bound)
    moreover have "unat (ucast (last_return_code sh) :: u64) = unat (last_return_code sh)"
      using unat_word_lt [of "last_return_code sh"] by (simp add: unsigned_ucast_eq take_bit_nat_eq_self_iff)
    ultimately show ?thesis
      by (simp add: number_text_def number_sign_def number_prefix_def number_digits_def number_magnitude_def flags_of_def opt_int_def
          decimal_def Let_def)
  qed
  ultimately show ?thesis by (simp add: get_dollar_var_def)
qed

lemma get_local_var_name:
  "n = [] \<or> hd n \<noteq> CHR ''$'' \<Longrightarrow> get_local_var sh n = Some (map_of (local_vars sh) n)"
  by (cases n) (auto simp: get_local_var_def local_vars_def var_find_value split: char.splits bool.splits)

lemma lookup_param_value:
  assumes "env_readable (sh_env sh)" and "var_name n"
  obtains p where "lookup_param sh n = Some p" "(case p of None \<Rightarrow> [] | Some v \<Rightarrow> v) = shell_value sh n"
proof -
  obtain q where q: "env_lookup (sh_env sh) n = Some q"
    using env_lookup_readable [OF assms(1)] assms(2) by (auto simp: var_name_def)
  show ?thesis
  proof (cases "q = None \<and> n = ''$?''")
    case True
    then have "get_local_var sh n = Some (Some (decimal (unat (last_return_code sh))))"
      by (simp add: get_local_var_def get_dollar_status)
    then show ?thesis using True q by (intro that) (auto simp: lookup_param_def shell_value_def)
  next
    case False
    then have "q \<noteq> None \<or> get_local_var sh n = Some (map_of (local_vars sh) n)"
      using assms(2) get_local_var_name [of n sh] by (auto simp: var_name_def)
    then show ?thesis using False q
      by (intro that [of "case q of None \<Rightarrow> map_of (local_vars sh) n | Some v \<Rightarrow> Some v"])
        (auto simp: lookup_param_def shell_value_def split: option.splits)
  qed
qed

section \<open>Words made of parts\<close>

datatype wpart = Lit string | Ref string

fun part_text :: "wpart \<Rightarrow> string" where
  "part_text (Lit s) = s"
| "part_text (Ref n) = SPECIAL_VAR_SYMBOL # n @ [SPECIAL_VAR_SYMBOL]"

fun part_ok :: "wpart \<Rightarrow> bool" where
  "part_ok (Lit s) = (SPECIAL_VAR_SYMBOL \<notin> set s)"
| "part_ok (Ref n) = var_name n"

fun part_value :: "shell \<Rightarrow> wpart \<Rightarrow> string" where
  "part_value sh (Lit s) = s"
| "part_value sh (Ref n) = shell_value sh n"

fun is_ref :: "wpart \<Rightarrow> bool" where
  "is_ref (Lit s) = False"
| "is_ref (Ref n) = True"

type_synonym sword = "wpart list"

definition word_text :: "sword \<Rightarrow> string" where
  "word_text w = concat (map part_text w)"

definition has_ref :: "sword \<Rightarrow> bool" where
  "has_ref w \<longleftrightarrow> (\<exists>p\<in>set w. is_ref p)"

text \<open>The value of a word; line ends turn into blanks only in a word with a variable.\<close>

definition word_value :: "shell \<Rightarrow> sword \<Rightarrow> string" where
  "word_value sh w = (let s = concat (map (part_value sh) w) in
     if has_ref w then map (\<lambda>c. if c = LF then CHR '' '' else c) s else s)"

lemma insert_loop_parts:
  assumes e: "env_readable (sh_env sh)"
  shows "SPECIAL_VAR_SYMBOL \<notin> set pre \<Longrightarrow> list_all part_ok w \<Longrightarrow>
    \<exists>r t. insert_loop sh (pre @ word_text w) res f = Some (f \<or> has_ref w, r, t) \<and> r @ t = res @ pre @ concat (map (part_value sh) w)"
proof (induction w arbitrary: pre res f)
  case Nil
  then show ?case by (subst insert_loop.simps) (simp add: word_text_def has_ref_def)
next
  case (Cons p w)
  show ?case
  proof (cases p)
    case (Lit s)
    then show ?thesis using Cons.IH [of "pre @ s" res f] Cons.prems by (simp add: word_text_def has_ref_def)
  next
    case (Ref n)
    have n: "var_name n" "SPECIAL_VAR_SYMBOL \<notin> set n" using Cons.prems(2) by (simp_all add: Ref var_name_def)
    obtain q where q: "lookup_param sh n = Some q" "(case q of None \<Rightarrow> [] | Some v \<Rightarrow> v) = shell_value sh n"
      using lookup_param_value [OF e n(1)] .
    let ?rest = "word_text w"
    have t: "takeWhile (\<lambda>c. c \<noteq> SPECIAL_VAR_SYMBOL) (s @ SPECIAL_VAR_SYMBOL # u) = s"
        "dropWhile (\<lambda>c. c \<noteq> SPECIAL_VAR_SYMBOL) (s @ SPECIAL_VAR_SYMBOL # u) = SPECIAL_VAR_SYMBOL # u"
      if "SPECIAL_VAR_SYMBOL \<notin> set s" for s u
      using that by (simp_all add: takeWhile_tail dropWhile_append3 dropWhile_append2) (auto simp: takeWhile_tail dropWhile_append)
    have "word_text (p # w) = SPECIAL_VAR_SYMBOL # n @ SPECIAL_VAR_SYMBOL # ?rest" by (simp add: Ref word_text_def)
    then have "insert_loop sh (pre @ word_text (p # w)) res f = insert_loop sh ([] @ ?rest) (res @ pre @ shell_value sh n) True"
      by (subst insert_loop.simps) (simp add: t [OF Cons.prems(1)] t [OF n(2)] q Let_def)
    then show ?thesis using Cons.IH [of "[]" "res @ pre @ shell_value sh n" True] Cons.prems(2) by (simp add: Ref has_ref_def)
  qed
qed

lemma insert_var_value_word:
  assumes "env_readable (sh_env sh)" and "list_all part_ok w"
  shows "insert_var_value sh (word_text w) = Some (has_ref w, word_value sh w)"
proof -
  obtain r t where rt: "insert_loop sh ([] @ word_text w) [] False = Some (False \<or> has_ref w, r, t)"
      "r @ t = [] @ [] @ concat (map (part_value sh) w)"
    using insert_loop_parts [OF assms(1) _ assms(2), of "[]" "[]" False] by auto
  have "\<not> has_ref w \<Longrightarrow> word_text w = concat (map (part_value sh) w)"
    unfolding word_text_def has_ref_def by (rule arg_cong [where f = concat]) (auto elim!: is_ref.elims intro!: map_cong simp: Ball_def)
  then show ?thesis using rt by (auto simp: insert_var_value_def word_value_def Let_def map_append [symmetric] simp del: map_append)
qed

lemma make_list_in_words:
  assumes "env_readable (sh_env sh)" and "list_all (list_all part_ok) ws"
  shows "make_list_in sh (map word_text ws) name = Some (map (\<lambda>v. name @ CHR ''='' # v) (concat (map (\<lambda>w. blank_words (word_value sh w)) ws)))"
  using assms(2)
proof (induction ws)
  case (Cons w ws)
  then show ?case using insert_var_value_word [OF assms(1), of w] by (simp add: map_concat comp_def del: blank_words.simps)
qed simp

lemma insert_all_words:
  assumes "env_readable (sh_env sh)"
  shows "list_all (list_all part_ok) ws \<Longrightarrow> insert_all sh (map word_text ws) = Some (map (word_value sh) ws)"
  by (induction ws) (simp_all add: insert_var_value_word [OF assms])

lemma make_string_words:
  assumes "env_readable (sh_env sh)" and "list_all (list_all part_ok) ws" and "ws \<noteq> []"
  shows "make_string sh (map word_text ws) = Some (join_blank (map (word_value sh) ws) @ [LF])"
  using insert_all_words [OF assms(1,2)] assms(3) by (simp add: make_string_def)

lemma blank_words_step:
  "p \<noteq> [] \<Longrightarrow> hd p \<noteq> CHR '' '' \<Longrightarrow>
   blank_words p = takeWhile (\<lambda>c. c \<noteq> CHR '' '') p # blank_words (dropWhile (\<lambda>c. c \<noteq> CHR '' '') p)"
proof (cases p)
  case (Cons c q)
  then show "hd p \<noteq> CHR '' '' \<Longrightarrow> ?thesis" by (simp add: blank_words.simps [of "c # q"])
qed simp

lemma blank_words_join:
  "\<forall>w\<in>set ws. w \<noteq> [] \<and> CHR '' '' \<notin> set w \<Longrightarrow> blank_words (join_blank ws) = ws"
proof (induction ws rule: join_blank.induct)
  case (2 p)
  then have t: "takeWhile (\<lambda>c. c \<noteq> CHR '' '') p = p" "dropWhile (\<lambda>c. c \<noteq> CHR '' '') p = []"
    by (auto simp: takeWhile_eq_all_conv dropWhile_eq_Nil_conv)
  have "p \<noteq> []" "hd p \<noteq> CHR '' ''" using 2 by (auto simp: neq_Nil_conv)
  from blank_words_step [OF this] show ?case unfolding t by (simp add: blank_words.simps [of "[]"])
next
  case (3 p q ps)
  let ?r = "join_blank (q # ps)"
  have p: "p \<noteq> []" "CHR '' '' \<notin> set p" using "3.prems" by simp_all
  have t: "takeWhile (\<lambda>c. c \<noteq> CHR '' '') (p @ CHR '' '' # ?r) = p" "dropWhile (\<lambda>c. c \<noteq> CHR '' '') (p @ CHR '' '' # ?r) = CHR '' '' # ?r"
    using p(2) by (auto simp: takeWhile_tail dropWhile_append)
  have "p @ CHR '' '' # ?r \<noteq> []" "hd (p @ CHR '' '' # ?r) \<noteq> CHR '' ''" using p by (auto simp: neq_Nil_conv)
  from blank_words_step [OF this] have "blank_words (p @ CHR '' '' # ?r) = p # blank_words (CHR '' '' # ?r)" unfolding t .
  also have "blank_words (CHR '' '' # ?r) = blank_words ?r" by (subst blank_words.simps) simp
  finally show ?case using "3.IH" "3.prems" by simp
qed (simp add: blank_words.simps)

section \<open>Assignments\<close>

definition shell_name :: "string \<Rightarrow> bool" where
  "shell_name n \<longleftrightarrow> n \<noteq> [] \<and> isalpha (hd n) \<and> env_name n"

lemma shell_name_hd: "shell_name n \<Longrightarrow> hd n \<noteq> CHR ''$''"
  using alpha_facts(3) by (auto simp: shell_name_def)

text \<open>Whether an assignment is refused: the environment has the name, or the variable is read-only.\<close>

definition refused :: "shell \<Rightarrow> string \<Rightarrow> string \<Rightarrow> bool" where
  "refused sh n v \<longleftrightarrow> env_lookup (sh_env sh) n \<noteq> Some None \<or>
     (case var_find n (top_vars sh) of None \<Rightarrow> False | Some cur \<Rightarrow> flg_read_only cur \<and> vvalue cur \<noteq> v)"

lemma assign_split:
  assumes "env_name n"
  shows "takeWhile (\<lambda>c. c \<noteq> CHR ''='') (n @ CHR ''='' # v) = n" "tl (dropWhile (\<lambda>c. c \<noteq> CHR ''='') (n @ CHR ''='' # v)) = v"
  using assms by (auto simp: env_name_def takeWhile_tail dropWhile_append)

lemma set_local_var_ok:
  assumes e: "env_readable (sh_env sh)" and n: "shell_name n" and top: "top_vars sh \<noteq> []"
  shows "\<exists>r sh'. set_local_var (n @ CHR ''='' # v) 0 sh = Some (r, sh') \<and> (r = - 1 \<or> r = 0 \<or> r = 1) \<and> (r < 0 \<longleftrightarrow> refused sh n v) \<and>
    sh' = sh\<lparr>top_vars := top_vars sh'\<rparr> \<and> top_vars sh' \<noteq> [] \<and> (\<forall>w\<in>set (top_vars sh'). flg_read_only w \<longrightarrow> (\<exists>u\<in>set (top_vars sh). flg_read_only u \<and> vname u = vname w)) \<and>
    map_of (local_vars sh') = (if r < 0 then map_of (local_vars sh) else (map_of (local_vars sh))(n \<mapsto> v))"
proof -
  have en: "env_name n" and al: "isalpha (hd (n @ CHR ''='' # v))" using n by (simp_all add: shell_name_def)
  obtain p where p: "env_lookup (sh_env sh) n = Some p" "getenv (sh_env sh) n = Some None \<longleftrightarrow> p = None" "getenv (sh_env sh) n \<noteq> None"
    using env_lookup_readable [OF e en] .
  have g: "getenv (sh_env sh) (n @ CHR ''='' # v) = getenv (sh_env sh) n" by (rule getenv_assign [OF e en])
  note split = assign_split [OF en]
  show ?thesis
  proof (cases "p = None")
    case False
    then have "set_local_var (n @ CHR ''='' # v) 0 sh = Some (- 1, sh)" "refused sh n v"
      using p al by (auto simp: set_local_var_def g refused_def)
    then show ?thesis using top by (intro exI [of _ "- 1"] exI [of _ sh]) auto
  next
    case True
    then have g0: "getenv (sh_env sh) (n @ CHR ''='' # v) = Some None" using p(2) g by simp
    show ?thesis
    proof (cases "var_find n (top_vars sh)")
      case None
      let ?s = "sh\<lparr>top_vars := top_vars sh @ [\<lparr>vname = n, vvalue = v, flg_export = 0, flg_read_only = False\<rparr>]\<rparr>"
      have s: "set_local_var (n @ CHR ''='' # v) 0 sh = Some (0, ?s)"
        using al top None by (simp add: set_local_var_def g0 split)
      have "map_of (local_vars ?s) = (map_of (local_vars sh))(n \<mapsto> v)"
        using var_find_None [OF None] by (auto simp: local_vars_def map_add_def fun_eq_iff split: option.splits)
      then show ?thesis using s True p(1) None by (auto simp: refused_def)
    next
      case (Some cur)
      note cur = Some var_find_Some [OF Some]
      have val: "map_of (local_vars sh) n = Some (vvalue cur)"
        using var_find_value [of n "top_vars sh"] by (simp add: local_vars_def Some)
      let ?f = "\<lambda>cur. cur\<lparr>flg_export := (if flg_export cur > 1 then 1 else flg_export cur), vvalue := v\<rparr>"
      let ?s = "sh\<lparr>top_vars := var_update n ?f (top_vars sh)\<rparr>"
      have "set_local_var (n @ CHR ''='' # v) 0 sh =
          Some (if vvalue cur = v then (1, sh) else if flg_read_only cur then (- 1, sh) else (0, ?s))"
        using al Some by (simp add: set_local_var_def g0 split Let_def)
      moreover have "map_of (local_vars ?s) = (map_of (local_vars sh))(n \<mapsto> v)"
        using var_update_values [of ?f, OF _ Some] by (simp add: local_vars_def)
      moreover have "top_vars ?s \<noteq> []" using top by (cases "top_vars sh") auto
      moreover have "w \<in> set (var_update n ?f vs) \<Longrightarrow> \<exists>u\<in>set vs. (flg_read_only u \<longleftrightarrow> flg_read_only w) \<and> vname u = vname w" for w vs
        by (induction vs) (auto split: if_splits)
      ultimately show ?thesis using True p(1) val Some top by (auto simp: refused_def fun_upd_idem)
    qed
  qed
qed

text \<open>The variables of a set of names as a store of keys.\<close>

definition vars_hold :: "string set \<Rightarrow> shell \<Rightarrow> (string \<times> string) list \<Rightarrow> bool" where
  "vars_hold K sh es \<longleftrightarrow> env_readable (sh_env sh) \<and> top_vars sh \<noteq> [] \<and> (\<forall>k\<in>K. env_lookup (sh_env sh) k = Some None) \<and>
     (\<forall>w\<in>set (top_vars sh). flg_read_only w \<longrightarrow> vname w \<notin> K) \<and> (\<forall>k\<in>K. map_of (local_vars sh) k = map_of es k)"

definition assign_var :: "string \<Rightarrow> string \<Rightarrow> shell \<Rightarrow> (int \<times> shell) option" where
  "assign_var k v sh = map_option (\<lambda>(r, sh). (if r < 0 then r else 0, sh)) (set_local_var (k @ CHR ''='' # v) 0 sh)"

interpretation hv: key_store "vars_hold K" get_local_var assign_var "\<lambda>k. k \<in> K \<and> shell_name k" "\<lambda>v. True" "\<lambda>_. 0" "\<lambda>_. 0" for K
proof (unfold_locales, goal_cases)
  case (1 s es k)
  then show ?case using get_local_var_name [of k s] shell_name_hd by (auto simp: vars_hold_def)
next
  case (2 s es k v)
  have k: "k \<in> K" "shell_name k" and e: "env_readable (sh_env s)" "top_vars s \<noteq> []" using 2 by (auto simp: vars_hold_def)
  have "\<not> refused s k v"
    using 2 var_find_Some [of k "top_vars s"] by (fastforce simp: refused_def vars_hold_def split: option.splits)
  with set_local_var_ok [OF e(1) k(2) e(2), of v] obtain r s' where
      s': "set_local_var (k @ CHR ''='' # v) 0 s = Some (r, s')" "\<not> r < 0" "s' = s\<lparr>top_vars := top_vars s'\<rparr>" "top_vars s' \<noteq> []"
      and ro: "\<forall>w\<in>set (top_vars s'). flg_read_only w \<longrightarrow> (\<exists>u\<in>set (top_vars s). flg_read_only u \<and> vname u = vname w)"
      and m: "map_of (local_vars s') = (map_of (local_vars s))(k \<mapsto> v)"
    by (metis (no_types, lifting))
  have env: "sh_env s' = sh_env s" by (subst s'(3)) simp
  have "\<forall>w\<in>set (top_vars s'). flg_read_only w \<longrightarrow> vname w \<notin> K" using ro 2(1) by (fastforce simp: vars_hold_def)
  then have "vars_hold K s' (without k es @ [(k, v)])"
    using 2(1) s'(4) unfolding vars_hold_def map_of_set m env by simp
  then show ?case using s'(1,2) by (auto simp: assign_var_def)
qed

fun assign_vars :: "(string \<times> string) list \<Rightarrow> shell \<Rightarrow> shell option" where
  "assign_vars [] sh = Some sh"
| "assign_vars ((n, v) # nvs) sh = do { (r, sh) \<leftarrow> set_local_var (n @ CHR ''='' # v) 0 sh; if r < 0 then None else assign_vars nvs sh }"

lemma assign_vars_put: "assign_vars nvs sh = hv.put_all nvs sh"
proof (induction nvs arbitrary: sh)
  case Nil
  then show ?case by (simp add: hv.put_all.simps)
next
  case (Cons nv nvs)
  obtain n v where "nv = (n, v)" by (cases nv)
  then show ?case
    by (cases "set_local_var (n @ CHR ''='' # v) 0 sh") (auto simp: hv.put_all.simps assign_var_def [of n v sh] Cons.IH)
qed

section \<open>Properties\<close>

text \<open>
  Words with variables.  In a word made of text and marked names, every name is replaced by the value
  from the environment, or else of the local variable, or else nothing; \<open>$?\<close> is the last return code in
  decimal.  \<open>make_list_in\<close> cuts the values of the words at blanks and makes one assignment of each
  piece, and \<open>make_string\<close> joins the values to a line.
\<close>

theorem insert_var_value_correct:
  assumes "env_readable (sh_env sh)" and "list_all (list_all part_ok) (w # ws)"
  shows "insert_var_value sh (word_text w) = Some (has_ref w, word_value sh w) \<and>
    make_list_in sh (map word_text (w # ws)) name =
      Some (map (\<lambda>v. name @ CHR ''='' # v) (concat (map (\<lambda>w. blank_words (word_value sh w)) (w # ws)))) \<and>
    make_string sh (map word_text (w # ws)) = Some (join_blank (map (word_value sh) (w # ws)) @ [LF])"
  using insert_var_value_word [OF assms(1), of w] make_list_in_words [OF assms] make_string_words [OF assms] assms(2) by simp

definition demo_shell :: shell where
  "demo_shell = u_boot_hush_start \<lparr>sh_env = demo_env, top_vars = [], last_return_code = 7, flag_repeat = False, do_repeat = False,
     polls = [], ctrlc_disabled = False, ctrlc_was_pressed = False\<rparr>"

lemma demo_shell_env: "sh_env demo_shell = demo_env" "env_readable (sh_env demo_shell)"
  using env_ok_holds [OF demo_ok(1)] by (auto simp: demo_shell_def u_boot_hush_start_def env_readable_def)

lemma demo_shell_vars: "top_vars demo_shell = [\<lparr>vname = ''HUSH_VERSION'', vvalue = ''0.01'', flg_export = 0, flg_read_only = True\<rparr>]"
  by (simp add: demo_shell_def u_boot_hush_start_def)

lemma demo_shell_lookup: "env_name n \<Longrightarrow> env_lookup (sh_env demo_shell) n = Some (map_of [(''a'', ''1''), (''b'', ''2'')] n)"
  using env_lookup_entries [OF env_ok_holds [OF demo_ok(1)]] by (simp add: demo_shell_env)

theorem insert_var_value_correct_witness:
  "insert_var_value demo_shell (''x='' @ [CHR 0x03] @ ''a'' @ [CHR 0x03] @ ''/'' @ [CHR 0x03] @ ''$?'' @ [CHR 0x03]) = Some (True, ''x=1/7'')"
proof -
  let ?w = "[Lit ''x='', Ref ''a'', Lit ''/'', Ref ''$?'']"
  have v: "env_name ''a''" "env_name ''$?''" by (simp_all add: env_name_def)
  have "shell_value demo_shell ''a'' = ''1''" "shell_value demo_shell ''$?'' = ''7''"
    using demo_shell_lookup [OF v(1)] demo_shell_lookup [OF v(2)]
    by (simp_all add: shell_value_def demo_shell_def u_boot_hush_start_def decimal_def digs_small dchr_def char_of_eq_iff)
  then have "word_value demo_shell ?w = ''x=1/7''" by (simp add: word_value_def Let_def)
  moreover have "list_all (list_all part_ok) [?w]" using v by (simp add: var_name_def)
  ultimately show ?thesis
    using insert_var_value_correct [OF demo_shell_env(2), of ?w "[]" "[]"] by (simp add: word_text_def has_ref_def)
qed

text \<open>
  An assignment \<open>NAME=VALUE\<close> fails with -1 and changes nothing exactly when the environment has the
  name or the variable is read-only with another value; otherwise the variable has the value and
  no other variable, and nothing else of the shell, has changed.
\<close>

theorem set_local_var_correct:
  assumes "env_readable (sh_env sh)" and "shell_name n" and "top_vars sh \<noteq> []"
  shows "\<exists>r sh'. set_local_var (n @ CHR ''='' # v) 0 sh = Some (r, sh') \<and> (r = - 1 \<or> r = 0 \<or> r = 1) \<and> (r < 0 \<longleftrightarrow> refused sh n v) \<and>
    sh' = sh\<lparr>top_vars := top_vars sh'\<rparr> \<and>
    map_of (local_vars sh') = (if r < 0 then map_of (local_vars sh) else (map_of (local_vars sh))(n \<mapsto> v))"
  using set_local_var_ok [OF assms, of v] by blast

theorem set_local_var_correct_witness:
  "\<exists>sh'. set_local_var ''a=3'' 0 demo_shell = Some (- 1, sh') \<and> map_of (local_vars sh') ''a'' = None"
proof -
  have n: "shell_name ''a''" by (simp add: shell_name_def env_name_def isalpha_def ismask_def ctype_def)
  have "refused demo_shell ''a'' ''3''" using demo_shell_lookup [of "''a''"] n by (simp add: refused_def shell_name_def)
  moreover have "top_vars demo_shell \<noteq> []" by (simp add: demo_shell_vars)
  ultimately show ?thesis
    using set_local_var_correct [OF demo_shell_env(2) n, of "''3''"] by (auto simp: local_vars_def demo_shell_vars)
qed

text \<open>
  After any sequence of assignments to names that neither the environment nor a read-only variable
  has, all have succeeded and \<open>get_local_var\<close> gives for each such name the value assigned last.
\<close>

theorem assign_sequence:
  assumes "vars_hold K sh es" and "\<forall>(n, v)\<in>set nvs. n \<in> K \<and> shell_name n"
  shows "\<exists>sh'. assign_vars nvs sh = Some sh' \<and>
    (\<forall>n\<in>K. shell_name n \<longrightarrow> get_local_var sh' n = Some ((map_of es ++ map_of (rev nvs)) n))"
proof -
  have "sum_list (map (\<lambda>_. 0 :: nat) xs) = 0" for xs :: "(string \<times> string) list" by (induction xs) auto
  then show ?thesis
    using hv.put_all_holds [OF assms(1), of nvs] assms(2) unfolding assign_vars_put by fastforce
qed

theorem assign_sequence_witness:
  "\<exists>sh'. assign_vars [(''x'', ''1''), (''x'', ''2'')] demo_shell = Some sh' \<and> get_local_var sh' ''x'' = Some (Some ''2'')"
proof -
  have n: "shell_name ''x''" by (simp add: shell_name_def env_name_def isalpha_def ismask_def ctype_def)
  have "vars_hold {''x''} demo_shell []"
    using demo_shell_lookup [of "''x''"] n demo_shell_env by (simp add: vars_hold_def demo_shell_vars local_vars_def shell_name_def)
  from assign_sequence [OF this, of "[(''x'', ''1''), (''x'', ''2'')]"] n show ?thesis by auto
qed

end
