(* ===== verification/HushParse.thy ===== *)
theory HushParse
  imports HushVars
begin

text \<open>
  The parser of the \<^verbatim>\<open>hush\<close> shell (\<^verbatim>\<open>common/hush.c\<close>, \<open>__U_BOOT__\<close>): from a string to lists of pipes, and
  the proof that it reads a syntax of simple commands, \<open>&&\<close> and \<open>||\<close>, \<open>if\<close>, \<open>while\<close>, \<open>until\<close> and
  \<open>for\<close>.  The input is a string (\<open>setup_string_in_str\<close>); memory never runs out.
\<close>

section \<open>Parsed commands\<close>

datatype pipe_style = PIPE_NONE | PIPE_SEQ | PIPE_AND | PIPE_OR | PIPE_BG

datatype reserved_style = RES_NONE | RES_IF | RES_THEN | RES_ELIF | RES_ELSE | RES_FI | RES_FOR | RES_WHILE
  | RES_UNTIL | RES_DO | RES_DONE | RES_XXXX | RES_IN | RES_SNTX

text \<open>
  \<open>argv\<close> and \<open>group\<close> are empty for the null pointer; \<open>argc\<close> is the length of \<open>argv\<close>, \<open>num_progs\<close> that
  of \<open>progs\<close>.  A list of pipes is linked by \<open>next\<close>.
\<close>

datatype child_prog = Child (argv: "string list") (group: "pipe list") (sp: int)
and pipe = Pipe (progs: "child_prog list") (followup: pipe_style) (r_mode: reserved_style)

abbreviation null_child :: child_prog where "null_child \<equiv> Child [] [] 0"

fun add_arg :: "string \<Rightarrow> child_prog \<Rightarrow> child_prog" where
  "add_arg s (Child a g n) = Child (a @ [s]) g n"

fun set_group :: "pipe list \<Rightarrow> child_prog \<Rightarrow> child_prog" where
  "set_group g (Child a g' n) = Child a g n"

fun add_sp :: "child_prog \<Rightarrow> child_prog" where
  "add_sp (Child a g n) = Child a g (n + 1)"

section \<open>Words under construction\<close>

text \<open>\<open>data\<close> is \<open>None\<close> for the null pointer; \<open>length\<close> is the length of \<open>data\<close>.\<close>

record o_string =
  odata :: "string option"
  quote :: bool
  nonnull :: bool

definition o_text :: "o_string \<Rightarrow> string" where
  "o_text o1 = (case odata o1 of None \<Rightarrow> [] | Some s \<Rightarrow> s)"

definition b_addchr :: "char \<Rightarrow> o_string \<Rightarrow> o_string" where
  "b_addchr ch o1 = o1\<lparr>odata := Some (o_text o1 @ [ch])\<rparr>"

definition b_reset :: "o_string \<Rightarrow> o_string" where
  "b_reset o1 = o1\<lparr>odata := map_option (\<lambda>_. []) (odata o1), nonnull := False\<rparr>"

definition b_free :: "o_string \<Rightarrow> o_string" where
  "b_free o1 = (b_reset o1)\<lparr>odata := None\<rparr>"

text \<open>\<open>strchr ("*?[\\", ch)\<close>, which finds the NUL too.\<close>

definition glob_char :: "char \<Rightarrow> bool" where
  "glob_char ch \<longleftrightarrow> ch \<in> {CHR ''*'', CHR ''?'', CHR ''['', CHR 0x5C, NUL}"

definition b_addqchr :: "char \<Rightarrow> bool \<Rightarrow> o_string \<Rightarrow> o_string" where
  "b_addqchr ch q o1 = (if q \<and> glob_char ch
     then b_addchr ch (b_addchr CHR 0x5C o1) else b_addchr ch o1)"

section \<open>The state of the parser\<close>

text \<open>
  A \<open>p_context\<close>: the child under construction, the pipes from \<open>list_head\<close> that are closed, the children
  of the last pipe, \<open>w\<close>, and the bits of \<open>old_flag\<close> as a set, \<open>RES_NONE\<close> for \<open>FLAG_END\<close> and \<open>RES_XXXX\<close>
  for \<open>FLAG_START\<close>.  The field \<open>stack\<close> links the contexts to a list.
\<close>

record p_context =
  ctx_child :: child_prog
  ctx_list :: "pipe list"
  ctx_progs :: "child_prog list"
  ctx_w :: reserved_style
  old_flag :: "reserved_style set"

text \<open>\<open>input\<close> is the rest of the string, \<open>None\<close> behind its NUL.\<close>

record parser =
  dest :: o_string
  ctx :: p_context
  stack :: "p_context list"
  input :: "string option"

definition initialize_context :: p_context where
  "initialize_context = \<lparr>ctx_child = null_child, ctx_list = [], ctx_progs = [], ctx_w = RES_NONE, old_flag = {}\<rparr>"

definition done_command :: "p_context \<Rightarrow> p_context" where
  "done_command c =
     (if group (ctx_child c) = [] \<and> argv (ctx_child c) = [] then c
      else c\<lparr>ctx_progs := ctx_progs c @ [ctx_child c], ctx_child := null_child\<rparr>)"

definition done_pipe :: "pipe_style \<Rightarrow> p_context \<Rightarrow> p_context" where
  "done_pipe style c = (let c = done_command c in
     c\<lparr>ctx_list := ctx_list c @ [Pipe (ctx_progs c) style (ctx_w c)], ctx_progs := [], ctx_child := null_child\<rparr>)"

text \<open>The list from \<open>list_head\<close>, with the pipe that is not closed yet.\<close>

definition list_head :: "p_context \<Rightarrow> pipe list" where
  "list_head c = ctx_list c @ [Pipe (ctx_progs c) PIPE_NONE RES_NONE]"

section \<open>Reserved words\<close>

definition reserved_list :: "(string \<times> reserved_style \<times> reserved_style set) list" where
  "reserved_list = [
     (''if'', RES_IF, {RES_THEN, RES_XXXX}),
     (''then'', RES_THEN, {RES_ELIF, RES_ELSE, RES_FI}),
     (''elif'', RES_ELIF, {RES_THEN}),
     (''else'', RES_ELSE, {RES_FI}),
     (''fi'', RES_FI, {RES_NONE}),
     (''for'', RES_FOR, {RES_IN, RES_XXXX}),
     (''while'', RES_WHILE, {RES_DO, RES_XXXX}),
     (''until'', RES_UNTIL, {RES_DO, RES_XXXX}),
     (''in'', RES_IN, {RES_DO}),
     (''do'', RES_DO, {RES_DONE}),
     (''done'', RES_DONE, {RES_NONE})]"

text \<open>Whether the word is reserved; \<open>strcmp\<close> reads the data of the word.\<close>

definition reserved_word :: "parser \<Rightarrow> (bool \<times> parser) option" where
  "reserved_word p = do {
     data \<leftarrow> odata (dest p);
     (case map_of reserved_list data of
        None \<Rightarrow> Some (False, p)
      | Some (code, flag) \<Rightarrow>
          let w = ctx_w (ctx p); err = p\<lparr>dest := b_reset (dest p), ctx := ctx p\<lparr>ctx_w := RES_SNTX\<rparr>\<rparr> in
          if RES_XXXX \<in> flag \<and> (w = RES_IN \<or> w = RES_FOR) then Some (True, err)
          else if RES_XXXX \<notin> flag \<and> (w = RES_NONE \<or> code \<notin> old_flag (ctx p)) then Some (True, err)
          else do {
            let p = (if RES_XXXX \<in> flag then p\<lparr>stack := ctx p # stack p, ctx := initialize_context\<rparr> else p);
            let c = ctx p\<lparr>ctx_w := code, old_flag := flag\<rparr>;
            p \<leftarrow> (if RES_NONE \<in> flag
              then (case stack p of
                  [] \<Rightarrow> None
                | old # st \<Rightarrow> Some (p\<lparr>ctx := old\<lparr>ctx_child := set_group (list_head (done_pipe PIPE_SEQ c)) (ctx_child old)\<rparr>, stack := st\<rparr>))
              else Some (p\<lparr>ctx := c\<rparr>));
            Some (True, p\<lparr>dest := b_reset (dest p)\<rparr>) }) }"

section \<open>The end of a word\<close>

text \<open>Removing backslashes: one at the end makes the loop run past the NUL.\<close>

fun unescape :: "string \<Rightarrow> string option" where
  "unescape [] = Some []"
| "unescape (c # s) =
     (if c = CHR 0x5C
      then (case s of [] \<Rightarrow> None | d # t \<Rightarrow> map_option (Cons d) (unescape t))
      else map_option (Cons c) (unescape s))"

abbreviation FLAG_EXIT_FROM_LOOP :: u32 where "FLAG_EXIT_FROM_LOOP \<equiv> 1"
abbreviation FLAG_PARSE_SEMICOLON :: u32 where "FLAG_PARSE_SEMICOLON \<equiv> 2"
abbreviation FLAG_REPARSING :: u32 where "FLAG_REPARSING \<equiv> 4"

text \<open>
  Whether there was a syntax error.  The call of \<open>done_word\<close> on the emptied word of a \<open>for\<close> does nothing.
\<close>

definition done_word :: "u32 \<Rightarrow> parser \<Rightarrow> (bool \<times> parser) option" where
  "done_word flag p =
     (if o_text (dest p) = [] \<and> \<not> nonnull (dest p) then Some (False, p)
      else if group (ctx_child (ctx p)) \<noteq> [] then Some (True, p)
      else do {
        (found, p) \<leftarrow> (if argv (ctx_child (ctx p)) = [] \<and> flag AND FLAG_PARSE_SEMICOLON \<noteq> 0 then reserved_word p else Some (False, p));
        if found then Some (ctx_w (ctx p) = RES_SNTX, p)
        else do {
          str \<leftarrow> unescape (o_text (dest p));
          let c = ctx p\<lparr>ctx_child := add_arg str (ctx_child (ctx p))\<rparr>;
          Some (False, p\<lparr>dest := b_reset (dest p), ctx := (if ctx_w c = RES_FOR then done_pipe PIPE_SEQ c else c)\<rparr>) } })"

section \<open>Reading characters\<close>

definition static_get :: "parser \<Rightarrow> (char option \<times> parser) option" where
  "static_get p = (case input p of
     None \<Rightarrow> None
   | Some [] \<Rightarrow> Some (None, p\<lparr>input := None\<rparr>)
   | Some (c # s) \<Rightarrow> Some (Some c, p\<lparr>input := Some s\<rparr>))"

definition static_peek :: "parser \<Rightarrow> char option" where
  "static_peek p = (case input p of None \<Rightarrow> None | Some [] \<Rightarrow> Some NUL | Some (c # s) \<Rightarrow> Some c)"

definition add_dest :: "char \<Rightarrow> parser \<Rightarrow> parser" where
  "add_dest c p = p\<lparr>dest := b_addchr c (dest p)\<rparr>"

definition add_qdest :: "char \<Rightarrow> parser \<Rightarrow> parser" where
  "add_qdest c p = p\<lparr>dest := b_addqchr c (quote (dest p)) (dest p)\<rparr>"

definition count_sp :: "parser \<Rightarrow> parser" where
  "count_sp p = p\<lparr>ctx := ctx p\<lparr>ctx_child := add_sp (ctx_child (ctx p))\<rparr>\<rparr>"

text \<open>Reading up to a closing character: whether it was found before the end.\<close>

partial_function (option) read_until :: "char \<Rightarrow> parser \<Rightarrow> (bool \<times> parser) option" where [code]:
  "read_until close p = do {
     (ch, p) \<leftarrow> static_get p;
     (case ch of
        None \<Rightarrow> Some (False, p)
      | Some c \<Rightarrow> if c = close then Some (True, p) else read_until close (add_dest c p)) }"

partial_function (option) read_name :: "parser \<Rightarrow> parser option" where [code]:
  "read_name p = do {
     ch \<leftarrow> static_peek p;
     if isalnum ch \<or> ch = CHR ''_''
     then do { (_, p) \<leftarrow> static_get p; read_name (add_dest ch p) }
     else Some p }"

definition handle_dollar :: "parser \<Rightarrow> (bool \<times> parser) option" where
  "handle_dollar p = do {
     ch \<leftarrow> static_peek p;
     if isalpha ch
     then do {
       p \<leftarrow> read_name (count_sp (add_dest SPECIAL_VAR_SYMBOL p));
       Some (False, add_dest SPECIAL_VAR_SYMBOL p) }
     else if ch = CHR ''?''
     then do {
       let p = add_dest SPECIAL_VAR_SYMBOL (add_dest CHR ''?'' (add_dest CHR ''$'' (add_dest SPECIAL_VAR_SYMBOL (count_sp p))));
       (_, p) \<leftarrow> static_get p;
       Some (False, p) }
     else if ch = CHR ''{''
     then do {
       (_, p) \<leftarrow> static_get (count_sp (add_dest SPECIAL_VAR_SYMBOL p));
       (closed, p) \<leftarrow> read_until CHR ''}'' p;
       if closed then Some (False, add_dest SPECIAL_VAR_SYMBOL p) else Some (True, p) }
     else Some (False, add_qdest CHR ''$'' p) }"

text \<open>A comment, up to the line end: behind the NUL there is nothing to read.\<close>

partial_function (option) skip_comment :: "parser \<Rightarrow> parser option" where [code]:
  "skip_comment p = do {
     ch \<leftarrow> static_peek p;
     if ch \<noteq> LF then do { (_, p) \<leftarrow> static_get p; skip_comment p } else Some p }"

section \<open>The loop\<close>

definition on_ctx :: "(p_context \<Rightarrow> p_context) \<Rightarrow> parser \<Rightarrow> parser" where
  "on_ctx f p = p\<lparr>ctx := f (ctx p)\<rparr>"

text \<open>\<open>&&\<close> and \<open>||\<close>, the first of the two characters having been read.\<close>

definition parse_pair :: "u32 \<Rightarrow> char \<Rightarrow> char \<Rightarrow> pipe_style \<Rightarrow> parser \<Rightarrow> (int option \<times> parser) option" where
  "parse_pair flag c following style p = do {
     (_, p) \<leftarrow> done_word flag p;
     if following = c
     then do { (_, p) \<leftarrow> static_get p; Some (None, on_ctx (done_pipe style) p) }
     else Some (Some 1, p) }"

text \<open>
  A character that does not flow through: the value returned by \<open>parse_stream\<close>, if it returns.  At the
  end of the string \<open>b_getch\<close> gives \<open>EOF\<close>, stored as the character 255.
\<close>

definition parse_special :: "u32 \<Rightarrow> char \<Rightarrow> char \<Rightarrow> parser \<Rightarrow> (int option \<times> parser) option" where
  "parse_special flag ch following p =
     (if ch = CHR ''#''
      then if o_text (dest p) = [] \<and> \<not> quote (dest p)
        then do { p \<leftarrow> skip_comment p; Some (None, p) }
        else Some (None, add_qdest ch p)
      else if ch = CHR 0x5C
      then do {
        (c, p) \<leftarrow> static_get (add_qdest CHR 0x5C p);
        Some (None, add_qdest (case c of None \<Rightarrow> CHR 0xFF | Some c \<Rightarrow> c) p) }
      else if ch = CHR ''$''
      then do { (err, p) \<leftarrow> handle_dollar p; Some (if err then Some 1 else None, p) }
      else if ch = CHR 0x27
      then do {
        (closed, p) \<leftarrow> read_until CHR 0x27 (p\<lparr>dest := dest p\<lparr>nonnull := True\<rparr>\<rparr>);
        Some (if closed then None else Some 1, p) }
      else if ch = CHR 0x22
      then Some (None, p\<lparr>dest := dest p\<lparr>nonnull := True, quote := \<not> quote (dest p)\<rparr>\<rparr>)
      else if ch = CHR '';''
      then do { (_, p) \<leftarrow> done_word flag p; Some (None, on_ctx (done_pipe PIPE_SEQ) p) }
      else if ch = CHR ''&'' then parse_pair flag CHR ''&'' following PIPE_AND p
      else if ch = CHR ''|'' then parse_pair flag CHR ''|'' following PIPE_OR p
      else Some (Some 1, p))"

text \<open>One character, the line end being \<open>end_trigger\<close> and \<open>cmap\<close> the table \<open>map\<close>.\<close>

definition parse_char :: "u32 \<Rightarrow> (char \<Rightarrow> nat) \<Rightarrow> char \<Rightarrow> parser \<Rightarrow> (int option \<times> parser) option" where
  "parse_char flag cmap ch p = do {
     let m = cmap ch;
     following \<leftarrow> (if ch = LF then Some NUL else static_peek p);
     if m = 0 \<or> (m = 1 \<or> m = 2) \<and> quote (dest p) then Some (None, add_qdest ch p)
     else do {
       (err, p) \<leftarrow> (if m = 2
         then do {
           (err, p) \<leftarrow> done_word flag p;
           Some (err, if \<not> err \<and> ch = LF then on_ctx (done_pipe PIPE_SEQ) p else p) }
         else Some (False, p));
       if err then Some (Some 1, p)
       else if ch = LF \<and> \<not> quote (dest p) \<and> ctx_w (ctx p) = RES_NONE then Some (Some 0, p)
       else if m \<noteq> 2 then parse_special flag ch following p
       else Some (None, p) } }"

partial_function (option) parse_stream :: "u32 \<Rightarrow> (char \<Rightarrow> nat) \<Rightarrow> parser \<Rightarrow> (int \<times> parser) option" where [code]:
  "parse_stream flag cmap p = do {
     (ch, p) \<leftarrow> static_get p;
     (case ch of
        None \<Rightarrow> Some (- 1, p)
      | Some c \<Rightarrow> do {
          (rc, p) \<leftarrow> parse_char flag cmap c p;
          (case rc of Some r \<Rightarrow> Some (r, p) | None \<Rightarrow> parse_stream flag cmap p) }) }"

section \<open>The table of characters\<close>

definition mapset :: "string \<Rightarrow> nat \<Rightarrow> (char \<Rightarrow> nat) \<Rightarrow> char \<Rightarrow> nat" where
  "mapset s code cmap c = (if c \<in> set s then code else cmap c)"

definition update_ifs_map :: "shell \<Rightarrow> (char \<Rightarrow> nat) option" where
  "update_ifs_map sh = do {
     v \<leftarrow> env_lookup (sh_env sh) ''IFS'';
     let ifs = (case v of None \<Rightarrow> [CHR '' '', CHR 0x09, LF] | Some s \<Rightarrow> s);
     Some (mapset ifs 2 (mapset '';&|#'' 1 (mapset [CHR 0x5C, CHR ''$'', CHR 0x27, CHR 0x22] 3 (\<lambda>_. 0)))) }"

section \<open>A syntax of commands\<close>

text \<open>
  Words: text, a character behind a backslash, text in single quotes, text and variables in double
  quotes, variables with or without braces (\<open>$?\<close> always without).
\<close>

datatype dpart = DText string | DRef bool string

datatype spart = SText string | SEsc char | SQuote string | SDouble "dpart list" | SRef bool string

definition name_char :: "char \<Rightarrow> bool" where
  "name_char c \<longleftrightarrow> isalnum c \<or> c = CHR ''_''"

definition print_ref :: "bool \<Rightarrow> string \<Rightarrow> string" where
  "print_ref braces n = (if n = ''$?'' then n else if braces then ''${'' @ n @ ''}'' else CHR ''$'' # n)"

fun print_dpart :: "dpart \<Rightarrow> string" where
  "print_dpart (DText s) = s"
| "print_dpart (DRef b n) = print_ref b n"

fun print_spart :: "spart \<Rightarrow> string" where
  "print_spart (SText s) = s"
| "print_spart (SEsc c) = [CHR 0x5C, c]"
| "print_spart (SQuote s) = CHR 0x27 # s @ [CHR 0x27]"
| "print_spart (SDouble ds) = CHR 0x22 # concat (map print_dpart ds) @ [CHR 0x22]"
| "print_spart (SRef b n) = print_ref b n"

definition print_word :: "spart list \<Rightarrow> string" where
  "print_word w = concat (map print_spart w)"

text \<open>A name without braces ends before the next character.\<close>

definition ref_ok :: "bool \<Rightarrow> string \<Rightarrow> string \<Rightarrow> bool" where
  "ref_ok braces n rest \<longleftrightarrow> n = ''$?'' \<or>
     (if braces then var_name n \<and> CHR ''}'' \<notin> set n \<and> CHR 0x5C \<notin> set n
      else n \<noteq> [] \<and> isalpha (hd n) \<and> list_all name_char n \<and> (rest = [] \<or> \<not> name_char (hd rest)))"

definition no_mark :: "string \<Rightarrow> bool" where
  "no_mark s \<longleftrightarrow> NUL \<notin> set s \<and> SPECIAL_VAR_SYMBOL \<notin> set s"

fun dparts_ok :: "dpart list \<Rightarrow> bool" where
  "dparts_ok [] = True"
| "dparts_ok (DText s # ds) = (no_mark s \<and> set s \<inter> {CHR 0x5C, CHR ''$'', CHR 0x27, CHR 0x22} = {} \<and> dparts_ok ds)"
| "dparts_ok (DRef b n # ds) = (ref_ok b n (concat (map print_dpart ds)) \<and> dparts_ok ds)"

definition plain_text :: "string \<Rightarrow> bool" where
  "plain_text s \<longleftrightarrow> no_mark s \<and> set s \<inter> {CHR '' '', CHR 0x09, LF, CHR '';'', CHR ''&'', CHR ''|'', CHR ''#'',
     CHR 0x5C, CHR ''$'', CHR 0x27, CHR 0x22} = {}"

fun sparts_ok :: "spart list \<Rightarrow> bool" where
  "sparts_ok [] = True"
| "sparts_ok (SText s # w) = (plain_text s \<and> sparts_ok w)"
| "sparts_ok (SEsc c # w) = (no_mark [c] \<and> sparts_ok w)"
| "sparts_ok (SQuote s # w) = (no_mark s \<and> CHR 0x27 \<notin> set s \<and> CHR 0x5C \<notin> set s \<and> sparts_ok w)"
| "sparts_ok (SDouble ds # w) = (dparts_ok ds \<and> sparts_ok w)"
| "sparts_ok (SRef b n # w) = (ref_ok b n (print_word w) \<and> sparts_ok w)"

text \<open>The word as its arguments see it, with marked variables.\<close>

fun dpart_word :: "dpart \<Rightarrow> wpart" where
  "dpart_word (DText s) = Lit s"
| "dpart_word (DRef b n) = Ref n"

fun spart_word :: "spart \<Rightarrow> sword" where
  "spart_word (SText s) = [Lit s]"
| "spart_word (SEsc c) = [Lit [c]]"
| "spart_word (SQuote s) = [Lit s]"
| "spart_word (SDouble ds) = map dpart_word ds"
| "spart_word (SRef b n) = [Ref n]"

definition sword_of :: "spart list \<Rightarrow> sword" where
  "sword_of w = concat (map spart_word w)"

text \<open>The data of the word before its backslashes are removed.\<close>

definition qescape :: "string \<Rightarrow> string" where
  "qescape s = concat (map (\<lambda>c. if glob_char c then [CHR 0x5C, c] else [c]) s)"

fun dpart_data :: "dpart \<Rightarrow> string" where
  "dpart_data (DText s) = qescape s"
| "dpart_data (DRef b n) = part_text (Ref n)"

fun spart_data :: "spart \<Rightarrow> string" where
  "spart_data (SText s) = s"
| "spart_data (SEsc c) = [CHR 0x5C, c]"
| "spart_data (SQuote s) = s"
| "spart_data (SDouble ds) = concat (map dpart_data ds)"
| "spart_data (SRef b n) = part_text (Ref n)"

definition word_data :: "spart list \<Rightarrow> string" where
  "word_data w = concat (map spart_data w)"

fun is_quoted :: "spart \<Rightarrow> bool" where
  "is_quoted (SQuote s) = True"
| "is_quoted (SDouble ds) = True"
| "is_quoted p = False"

definition count_refs :: "sword \<Rightarrow> nat" where
  "count_refs w = length (filter is_ref w)"

text \<open>A word that is not ignored.\<close>

definition sword_ok :: "spart list \<Rightarrow> bool" where
  "sword_ok w \<longleftrightarrow> sparts_ok w \<and> (word_data w \<noteq> [] \<or> (\<exists>p\<in>set w. is_quoted p))"

section \<open>Reading a word\<close>

definition ext :: "string option \<Rightarrow> string \<Rightarrow> string option" where
  "ext d s = (if s = [] then d else Some ((case d of None \<Rightarrow> [] | Some t \<Rightarrow> t) @ s))"

lemma ext_Nil [simp]: "ext d [] = d"
  by (simp add: ext_def)

lemma ext_append: "ext d (s @ t) = ext (ext d s) t"
  by (auto simp: ext_def)

lemma ext_Cons: "ext d (c # s) = ext (ext d [c]) s"
  using ext_append [of d "[c]" s] by simp

abbreviation pst :: "string option \<Rightarrow> bool \<Rightarrow> bool \<Rightarrow> p_context \<Rightarrow> p_context list \<Rightarrow> string \<Rightarrow> parser" where
  "pst d q nn c stk i \<equiv> \<lparr>dest = \<lparr>odata = d, quote = q, nonnull = nn\<rparr>, ctx = c, stack = stk, input = Some i\<rparr>"

lemma add_dest_pst: "add_dest ch (pst d q nn c stk i) = pst (ext d [ch]) q nn c stk i"
  by (simp add: add_dest_def b_addchr_def o_text_def ext_def)

lemma add_qdest_pst:
  "add_qdest ch (pst d q nn c stk i) =
     pst (ext d (if q \<and> glob_char ch then [CHR 0x5C, ch] else [ch])) q nn c stk i"
  by (simp add: add_qdest_def b_addqchr_def b_addchr_def o_text_def ext_def)

lemma static_get_pst: "static_get (pst d q nn c stk (ch # i)) = Some (Some ch, pst d q nn c stk i)"
  by (simp add: static_get_def)

lemma static_peek_pst:
  "static_peek (pst d q nn c stk i) = Some (if i = [] then NUL else hd i)"
  by (cases i) (simp_all add: static_peek_def)

lemmas pst_simps = add_dest_pst add_qdest_pst static_get_pst static_peek_pst

definition bump :: "nat \<Rightarrow> p_context \<Rightarrow> p_context" where
  "bump n c = c\<lparr>ctx_child := (case ctx_child c of Child a g k \<Rightarrow> Child a g (k + int n))\<rparr>"

lemma bump_0 [simp]: "bump 0 c = c"
  by (simp add: bump_def split: child_prog.split)

lemma bump_bump [simp]: "bump m (bump n c) = bump (n + m) c"
  by (simp add: bump_def split: child_prog.split)

lemma count_sp_pst: "count_sp (pst d q nn c stk i) = pst d q nn (bump 1 c) stk i"
  by (cases "ctx_child c") (simp add: count_sp_def bump_def)

lemma read_name_pst:
  "list_all name_char n \<Longrightarrow> i = [] \<or> \<not> name_char (hd i) \<Longrightarrow>
   read_name (pst d q nn c stk (n @ i)) = Some (pst (ext d n) q nn c stk i)"
proof (induction n arbitrary: d)
  case Nil
  then show ?case using char_facts(1) by (subst read_name.simps) (auto simp: pst_simps name_char_def)
next
  case (Cons ch n)
  have "read_name (pst d q nn c stk ((ch # n) @ i)) = read_name (pst (ext d [ch]) q nn c stk (n @ i))"
    using Cons.prems(1) by (subst read_name.simps) (simp add: pst_simps name_char_def)
  then show ?case using Cons by (simp add: ext_Cons [of d ch n])
qed

lemma read_until_pst:
  "close \<notin> set s \<Longrightarrow> read_until close (pst d q nn c stk (s @ close # i)) = Some (True, pst (ext d s) q nn c stk i)"
proof (induction s arbitrary: d)
  case Nil
  show ?case by (subst read_until.simps) (simp add: pst_simps)
next
  case (Cons ch s)
  have "read_until close (pst d q nn c stk ((ch # s) @ close # i)) = read_until close (pst (ext d [ch]) q nn c stk (s @ close # i))"
    using Cons.prems by (subst read_until.simps) (auto simp: pst_simps)
  then show ?case using Cons by (simp add: ext_Cons [of d ch s])
qed

lemma handle_dollar_pst:
  assumes "ref_ok b n i"
  shows "handle_dollar (pst d q nn c stk (tl (print_ref b n) @ i)) = Some (False, pst (ext d (part_text (Ref n))) q nn (bump 1 c) stk i)"
proof -
  consider "n = ''$?''" | "n \<noteq> ''$?''" "b" "CHR ''}'' \<notin> set n"
    | "n \<noteq> ''$?''" "\<not> b" "n \<noteq> []" "isalpha (hd n)" "list_all name_char n" "i = [] \<or> \<not> name_char (hd i)"
    using assms by (auto simp: ref_ok_def split: if_splits)
  then show ?thesis
  proof cases
    case 1
    then show ?thesis by (simp add: handle_dollar_def print_ref_def pst_simps count_sp_pst alpha_facts ext_def)
  next
    case 2
    then show ?thesis
      by (simp add: handle_dollar_def print_ref_def pst_simps count_sp_pst alpha_facts read_until_pst) (simp add: ext_def)
  next
    case 3
    then show ?thesis
      by (simp add: handle_dollar_def print_ref_def pst_simps count_sp_pst read_name_pst) (simp add: ext_def)
  qed
qed

text \<open>The table when \<open>IFS\<close> is not set.\<close>

definition default_map :: "char \<Rightarrow> nat" where
  "default_map = mapset [CHR '' '', CHR 0x09, LF] 2 (mapset '';&|#'' 1 (mapset [CHR 0x5C, CHR ''$'', CHR 0x27, CHR 0x22] 3 (\<lambda>_. 0)))"

lemma update_ifs_map_default: "env_lookup (sh_env sh) ''IFS'' = Some None \<Longrightarrow> update_ifs_map sh = Some default_map"
  by (simp add: update_ifs_map_def default_map_def)

lemma default_map_simps [simp]:
  "default_map CHR '' '' = 2" "default_map LF = 2" "default_map CHR '';'' = 1" "default_map CHR ''&'' = 1" "default_map CHR ''|'' = 1"
  "default_map CHR ''#'' = 1" "default_map CHR 0x5C = 3" "default_map CHR ''$'' = 3" "default_map CHR 0x27 = 3" "default_map CHR 0x22 = 3"
  by (simp_all add: default_map_def mapset_def)

lemma default_map_plain: "plain_text s \<Longrightarrow> ch \<in> set s \<Longrightarrow> default_map ch = 0"
  by (auto simp: plain_text_def default_map_def mapset_def)

lemma default_map_quoted: "ch \<notin> {CHR 0x5C, CHR ''$'', CHR 0x27, CHR 0x22} \<Longrightarrow> default_map ch \<le> 2"
  by (auto simp: default_map_def mapset_def)

lemma stream_step:
  "parse_stream fl cmap (pst d q nn c stk (ch # i)) = do {
     (rc, p) \<leftarrow> parse_char fl cmap ch (pst d q nn c stk i);
     (case rc of Some r \<Rightarrow> Some (r, p) | None \<Rightarrow> parse_stream fl cmap p) }"
  by (subst parse_stream.simps) (simp add: pst_simps)

lemma stream_flow:
  "cmap ch = 0 \<or> (cmap ch = 1 \<or> cmap ch = 2) \<and> q \<Longrightarrow>
   parse_stream fl cmap (pst d q nn c stk (ch # i)) =
     parse_stream fl cmap (pst (ext d (if q \<and> glob_char ch then [CHR 0x5C, ch] else [ch])) q nn c stk i)"
  unfolding stream_step by (auto simp: parse_char_def pst_simps Let_def)

lemma stream_special:
  "\<not> (cmap ch = 0 \<or> (cmap ch = 1 \<or> cmap ch = 2) \<and> q) \<Longrightarrow> cmap ch \<noteq> 2 \<Longrightarrow> ch \<noteq> LF \<Longrightarrow>
   parse_stream fl cmap (pst d q nn c stk (ch # i)) = do {
     (rc, p) \<leftarrow> parse_special fl ch (if i = [] then NUL else hd i) (pst d q nn c stk i);
     (case rc of Some r \<Rightarrow> Some (r, p) | None \<Rightarrow> parse_stream fl cmap p) }"
  unfolding stream_step by (simp add: parse_char_def pst_simps Let_def del: One_nat_def de_Morgan_disj de_Morgan_conj)

lemma stream_text:
  "\<forall>ch\<in>set s. cmap ch = 0 \<Longrightarrow>
   parse_stream fl cmap (pst d False nn c stk (s @ i)) = parse_stream fl cmap (pst (ext d s) False nn c stk i)"
proof (induction s arbitrary: d)
  case (Cons ch s)
  then show ?case by (simp add: stream_flow ext_Cons [of d ch s])
qed simp

lemma stream_qtext:
  "\<forall>ch\<in>set s. cmap ch \<le> 2 \<and> ch \<noteq> CHR 0x5C \<and> ch \<noteq> NUL \<Longrightarrow>
   parse_stream fl cmap (pst d True nn c stk (s @ i)) = parse_stream fl cmap (pst (ext d (qescape s)) True nn c stk i)"
proof (induction s arbitrary: d)
  case Nil
  then show ?case by (simp add: qescape_def)
next
  case (Cons ch s)
  have "cmap ch \<le> 2" using Cons.prems by simp
  then have "cmap ch = 0 \<or> (cmap ch = 1 \<or> cmap ch = 2) \<and> True" by arith
  from stream_flow [where cmap = cmap, OF this, of fl d nn c stk "s @ i"]
  have "parse_stream fl cmap (pst d True nn c stk ((ch # s) @ i)) =
      parse_stream fl cmap (pst (ext d (if glob_char ch then [CHR 0x5C, ch] else [ch])) True nn c stk (s @ i))"
    by (simp only: append_Cons simp_thms)
  also have "\<dots> = parse_stream fl cmap (pst (ext (ext d (if glob_char ch then [CHR 0x5C, ch] else [ch])) (qescape s)) True nn c stk i)"
    using Cons.prems by (intro Cons.IH) simp
  finally show ?case by (simp add: ext_append [symmetric] qescape_def)
qed

lemma stream_ref:
  "ref_ok b n i \<Longrightarrow>
   parse_stream fl default_map (pst d q nn c stk (print_ref b n @ i)) =
     parse_stream fl default_map (pst (ext d (part_text (Ref n))) q nn (bump 1 c) stk i)"
proof -
  assume ok: "ref_ok b n i"
  have "print_ref b n = CHR ''$'' # tl (print_ref b n)" by (simp add: print_ref_def)
  then have "parse_stream fl default_map (pst d q nn c stk (print_ref b n @ i)) =
      parse_stream fl default_map (pst d q nn c stk (CHR ''$'' # tl (print_ref b n) @ i))" by (metis append_Cons)
  then show ?thesis using handle_dollar_pst [OF ok, of d q nn c stk] by (simp add: stream_special parse_special_def)
qed

lemma ref_ok_rest: "ref_ok b n rest \<Longrightarrow> i \<noteq> [] \<Longrightarrow> \<not> name_char (hd i) \<Longrightarrow> ref_ok b n (rest @ i)"
  by (cases rest) (auto simp: ref_ok_def)

lemma stream_dparts:
  "dparts_ok ds \<Longrightarrow> i \<noteq> [] \<Longrightarrow> \<not> name_char (hd i) \<Longrightarrow>
   parse_stream fl default_map (pst d True nn c stk (concat (map print_dpart ds) @ i)) =
     parse_stream fl default_map (pst (ext d (concat (map dpart_data ds))) True nn (bump (count_refs (map dpart_word ds)) c) stk i)"
proof (induction ds arbitrary: d c rule: dparts_ok.induct)
  case 1
  then show ?case by (simp add: count_refs_def)
next
  case (2 s ds)
  have "\<forall>ch\<in>set s. default_map ch \<le> 2 \<and> ch \<noteq> CHR 0x5C \<and> ch \<noteq> NUL"
  proof
    fix ch assume "ch \<in> set s"
    then have "ch \<notin> {CHR 0x5C, CHR ''$'', CHR 0x27, CHR 0x22}" "ch \<noteq> NUL" using 2(2) unfolding dparts_ok.simps no_mark_def by blast+
    then show "default_map ch \<le> 2 \<and> ch \<noteq> CHR 0x5C \<and> ch \<noteq> NUL" using default_map_quoted [of ch] by simp
  qed
  from stream_qtext [OF this] show ?case using 2 by (simp add: ext_append count_refs_def)
next
  case (3 b n ds)
  have "ref_ok b n (concat (map print_dpart ds) @ i)"
    using "3.prems" by (simp add: ref_ok_rest)
  from stream_ref [OF this] show ?case using 3 by (simp add: ext_append count_refs_def del: part_text.simps)
qed

lemma quote_not_name: "\<not> name_char CHR 0x22" "\<not> name_char CHR '' ''" "\<not> name_char CHR '';''" "\<not> name_char CHR ''&''"
    "\<not> name_char CHR ''|''" "\<not> name_char LF"
  by (simp_all add: name_char_def char_facts)

lemmas word_defs = print_word_def word_data_def sword_of_def count_refs_def

lemma stream_word:
  "sparts_ok w \<Longrightarrow> i \<noteq> [] \<Longrightarrow> \<not> name_char (hd i) \<Longrightarrow>
   parse_stream fl default_map (pst d False nn c stk (print_word w @ i)) =
     parse_stream fl default_map (pst (ext d (word_data w)) False (nn \<or> (\<exists>p\<in>set w. is_quoted p)) (bump (count_refs (sword_of w)) c) stk i)"
proof (induction w arbitrary: d c nn rule: sparts_ok.induct)
  case 1
  then show ?case by (simp add: word_defs)
next
  case (2 s w)
  have "\<forall>ch\<in>set s. default_map ch = 0" using 2(2) default_map_plain [of s] by simp
  from stream_text [OF this] show ?case using 2 by (simp add: word_defs ext_append)
next
  case (3 ch w)
  have "parse_stream fl default_map (pst d False nn c stk (print_word (SEsc ch # w) @ i)) =
      parse_stream fl default_map (pst (ext (ext d [CHR 0x5C]) [ch]) False nn c stk (print_word w @ i))"
    by (simp add: word_defs stream_special parse_special_def pst_simps)
  then show ?case using 3 by (simp add: word_defs ext_append [symmetric])
next
  case (4 s w)
  have "CHR 0x27 \<notin> set s" using 4(2) by simp
  from read_until_pst [OF this] show ?case using 4
    by (simp add: word_defs stream_special parse_special_def pst_simps ext_append)
next
  case (5 ds w)
  have "parse_stream fl default_map (pst d False nn c stk (print_word (SDouble ds # w) @ i)) =
      parse_stream fl default_map (pst d True True c stk (concat (map print_dpart ds) @ CHR 0x22 # print_word w @ i))"
    by (simp add: print_word_def stream_special parse_special_def)
  also have "\<dots> = parse_stream fl default_map
      (pst (ext d (concat (map dpart_data ds))) True True (bump (count_refs (map dpart_word ds)) c) stk (CHR 0x22 # print_word w @ i))"
    using 5(2) by (intro stream_dparts) (simp_all add: quote_not_name)
  also have "\<dots> = parse_stream fl default_map
      (pst (ext d (concat (map dpart_data ds))) False True (bump (count_refs (map dpart_word ds)) c) stk (print_word w @ i))"
    by (simp add: stream_special parse_special_def)
  finally show ?case using 5 by (simp add: word_data_def sword_of_def count_refs_def ext_append)
next
  case (6 b n w)
  have "ref_ok b n (print_word w @ i)"
    using "6.prems" by (simp add: ref_ok_rest)
  from stream_ref [OF this] show ?case
    using 6 by (simp add: word_defs ext_append del: part_text.simps)
qed

section \<open>The end of a word\<close>

lemma unescape_append: "unescape s = Some s' \<Longrightarrow> unescape (s @ t) = map_option ((@) s') (unescape t)"
proof (induction s arbitrary: s' rule: unescape.induct)
  case 1
  then show ?case by (simp add: option.map_id0 [unfolded id_def])
next
  case (2 c s)
  show ?case
  proof (cases "c = CHR 0x5C")
    case True
    then obtain d u where s: "s = d # u" using "2.prems" by (cases s) auto
    then obtain u' where "unescape u = Some u'" "s' = d # u'" using "2.prems" True by auto
    then show ?thesis using "2.IH"(1) [OF True s] True s by (simp add: option.map_comp comp_def)
  next
    case False
    then obtain u' where "unescape s = Some u'" "s' = c # u'" using "2.prems" by auto
    then show ?thesis using "2.IH"(2) [OF False] False by (simp add: option.map_comp comp_def)
  qed
qed

lemma unescape_plain: "CHR 0x5C \<notin> set s \<Longrightarrow> unescape s = Some s"
  by (induction s) auto

lemma unescape_concat:
  "list_all2 (\<lambda>s t. unescape s = Some t) ss ts \<Longrightarrow> unescape (concat ss) = Some (concat ts)"
  by (induction rule: list_all2_induct) (simp_all add: unescape_append)

lemma unescape_qescape: "CHR 0x5C \<notin> set s \<Longrightarrow> unescape (qescape s) = Some s"
  by (induction s) (auto simp: qescape_def)

lemma ref_ok_name:
  assumes "ref_ok b n i"
  shows "var_name n" "CHR 0x5C \<notin> set n"
proof -
  have "name_char ch \<Longrightarrow> ch \<notin> {NUL, CHR ''='', SPECIAL_VAR_SYMBOL, CHR ''$'', CHR 0x5C}" for ch
    using char_facts by (auto simp: name_char_def)
  then have "list_all name_char n \<Longrightarrow> n \<noteq> [] \<Longrightarrow> var_name n \<and> CHR 0x5C \<notin> set n"
    by (cases n) (auto simp: var_name_def env_name_def list_all_iff)
  then show "var_name n" "CHR 0x5C \<notin> set n" using assms by (auto simp: ref_ok_def var_name_def env_name_def split: if_splits)
qed

lemma dparts_unescape:
  "dparts_ok ds \<Longrightarrow> unescape (concat (map dpart_data ds)) = Some (word_text (map dpart_word ds)) \<and> list_all part_ok (map dpart_word ds)"
proof (induction ds rule: dparts_ok.induct)
  case (2 s ds)
  have "unescape (qescape s) = Some s" using 2(2) by (intro unescape_qescape) auto
  then show ?case using 2 by (auto simp: unescape_append word_text_def no_mark_def)
next
  case (3 b n ds)
  have "unescape (part_text (Ref n)) = Some (part_text (Ref n))" using ref_ok_name [of b n] 3(2) by (intro unescape_plain) auto
  then show ?case using 3 ref_ok_name [of b n] by (auto simp: unescape_append word_text_def simp del: part_text.simps)
qed (simp add: word_text_def)

lemma word_unescape:
  "sparts_ok w \<Longrightarrow> unescape (word_data w) = Some (word_text (sword_of w)) \<and> list_all part_ok (sword_of w)"
proof (induction w rule: sparts_ok.induct)
  case (2 s w)
  have "unescape s = Some s" using 2(2) by (intro unescape_plain) (auto simp: plain_text_def)
  then show ?case using 2 by (auto simp: unescape_append word_text_def word_data_def sword_of_def plain_text_def no_mark_def)
next
  case (3 ch w)
  have "unescape [CHR 0x5C, ch] = Some [ch]" by simp
  from unescape_append [OF this] show ?case using 3 by (auto simp: word_text_def word_data_def sword_of_def no_mark_def)
next
  case (4 s w)
  have "unescape s = Some s" using 4(2) by (intro unescape_plain) auto
  then show ?case using 4 by (auto simp: unescape_append word_text_def word_data_def sword_of_def no_mark_def)
next
  case (5 ds w)
  then show ?case using dparts_unescape [of ds] by (auto simp: unescape_append word_text_def word_data_def sword_of_def)
next
  case (6 b n w)
  have "unescape (part_text (Ref n)) = Some (part_text (Ref n))" using ref_ok_name [of b n] 6(2) by (intro unescape_plain) auto
  then show ?case using 6 ref_ok_name [of b n]
    by (auto simp: unescape_append word_text_def word_data_def sword_of_def simp del: part_text.simps)
qed (simp add: word_text_def word_data_def sword_of_def)

definition clean :: "string option \<Rightarrow> bool" where
  "clean d \<longleftrightarrow> d = None \<or> d = Some []"

lemma o_text_ext: "clean d \<Longrightarrow> o_text \<lparr>odata = ext d s, quote = q, nonnull = nn\<rparr> = s"
  by (auto simp: clean_def ext_def o_text_def)

lemma done_word_clean: "clean d \<Longrightarrow> done_word fl (pst d False False c stk j) = Some (False, pst d False False c stk j)"
  by (auto simp: done_word_def clean_def o_text_def)

text \<open>What \<open>done_word\<close> makes of the word read so far, whatever follows.\<close>

definition word_end :: "u32 \<Rightarrow> string option \<Rightarrow> bool \<Rightarrow> p_context \<Rightarrow> p_context list \<Rightarrow> p_context \<Rightarrow> p_context list \<Rightarrow> bool" where
  "word_end fl d nn c stk c' stk' \<longleftrightarrow>
     (\<exists>d'. clean d' \<and> (\<forall>j. done_word fl (pst d False nn c stk j) = Some (False, pst d' False False c' stk' j)))"

lemma word_end_arg:
  assumes "sword_ok w" and "clean d" and c: "ctx_child c = Child a [] k" "ctx_w c \<noteq> RES_FOR"
    and "a \<noteq> [] \<or> fl AND 2 = 0 \<or> word_data w \<noteq> [] \<and> map_of reserved_list (word_data w) = None"
  shows "word_end fl (ext d (word_data w)) (\<exists>p\<in>set w. is_quoted p) c stk (c\<lparr>ctx_child := Child (a @ [word_text (sword_of w)]) [] k\<rparr>) stk"
proof -
  have u: "unescape (word_data w) = Some (word_text (sword_of w))" using word_unescape assms(1) by (simp add: sword_ok_def)
  let ?d = "map_option (\<lambda>_. []) (ext d (word_data w))"
  have "clean ?d" by (cases "ext d (word_data w)") (simp_all add: clean_def)
  moreover have "done_word fl (pst (ext d (word_data w)) False (\<exists>p\<in>set w. is_quoted p) c stk j) =
      Some (False, pst ?d False False (c\<lparr>ctx_child := Child (a @ [word_text (sword_of w)]) [] k\<rparr>) stk j)" for j
  proof -
    have ne: "\<not> (word_data w = [] \<and> \<not> (\<exists>p\<in>set w. is_quoted p))" using assms(1) by (auto simp: sword_ok_def)
    have "a = [] \<and> fl AND 2 \<noteq> 0 \<Longrightarrow> reserved_word (pst (ext d (word_data w)) False (\<exists>p\<in>set w. is_quoted p) c stk j) =
        Some (False, pst (ext d (word_data w)) False (\<exists>p\<in>set w. is_quoted p) c stk j)"
      using assms(2,5) by (auto simp: reserved_word_def ext_def clean_def)
    then show ?thesis
      using ne c by (simp add: done_word_def o_text_ext [OF assms(2)] u b_reset_def del: de_Morgan_conj)
  qed
  ultimately show ?thesis unfolding word_end_def by blast
qed

section \<open>Commands\<close>

datatype stmt = Simple "spart list list" | Comp secs | For string "spart list list" items
and items = INil | ICons stmt pipe_style items
and secs = SNil | SCons reserved_style items secs

text \<open>
  \<open>Comp\<close> is an \<open>if\<close>, a \<open>while\<close> or an \<open>until\<close>: its sections, each with the word that opens it.  The word
  that closes it follows from the last section.
\<close>

definition res_word :: "reserved_style \<Rightarrow> string" where
  "res_word m = (case m of RES_IF \<Rightarrow> ''if'' | RES_THEN \<Rightarrow> ''then'' | RES_ELIF \<Rightarrow> ''elif'' | RES_ELSE \<Rightarrow> ''else'' | RES_FI \<Rightarrow> ''fi''
     | RES_FOR \<Rightarrow> ''for'' | RES_WHILE \<Rightarrow> ''while'' | RES_UNTIL \<Rightarrow> ''until'' | RES_IN \<Rightarrow> ''in'' | RES_DO \<Rightarrow> ''do'' | RES_DONE \<Rightarrow> ''done''
     | _ \<Rightarrow> [])"

definition res_flag :: "reserved_style \<Rightarrow> reserved_style set" where
  "res_flag m = (case map_of reserved_list (res_word m) of None \<Rightarrow> {} | Some (_, f) \<Rightarrow> f)"

definition end_mode :: "reserved_style \<Rightarrow> reserved_style" where
  "end_mode m = (if m = RES_DO then RES_DONE else RES_FI)"

definition sep :: "pipe_style \<Rightarrow> string" where
  "sep st = (case st of PIPE_AND \<Rightarrow> ''&&'' | PIPE_OR \<Rightarrow> ''||'' | _ \<Rightarrow> '';'')"

fun print_stmt :: "stmt \<Rightarrow> string" and print_items :: "items \<Rightarrow> string" and print_secs :: "secs \<Rightarrow> string" where
  "print_stmt (Simple ws) = join_blank (map print_word ws)"
| "print_stmt (Comp ss) = print_secs ss"
| "print_stmt (For x ws its) = ''for '' @ x @ '' in'' @ concat (map (\<lambda>w. CHR '' '' # print_word w) ws) @ ''; do '' @ print_items its @ ''done''"
| "print_items INil = []"
| "print_items (ICons s st its) = print_stmt s @ sep st @ CHR '' '' # print_items its"
| "print_secs SNil = []"
| "print_secs (SCons m its ss) = res_word m @ CHR '' '' # print_items its @ (if ss = SNil then res_word (end_mode m) else print_secs ss)"

text \<open>What the parser makes of them.\<close>

fun simple_child :: "spart list list \<Rightarrow> child_prog" where
  "simple_child ws = Child (map (\<lambda>w. word_text (sword_of w)) ws) [] (int (\<Sum>w\<leftarrow>ws. count_refs (sword_of w)))"

fun pipes_stmt :: "stmt \<Rightarrow> child_prog" and pipes_items :: "reserved_style \<Rightarrow> items \<Rightarrow> pipe list" and pipes_secs :: "secs \<Rightarrow> pipe list" where
  "pipes_stmt (Simple ws) = simple_child ws"
| "pipes_stmt (Comp ss) = Child [] (pipes_secs ss) 0"
| "pipes_stmt (For x ws its) = Child []
     (Pipe [Child [x] [] 0] PIPE_SEQ RES_FOR # Pipe (if ws = [] then [] else [simple_child ws]) PIPE_SEQ RES_IN #
      pipes_items RES_DO its @ [Pipe [] PIPE_SEQ RES_DONE, Pipe [] PIPE_NONE RES_NONE]) 0"
| "pipes_items m INil = []"
| "pipes_items m (ICons s st its) = Pipe [pipes_stmt s] st m # pipes_items m its"
| "pipes_secs SNil = []"
| "pipes_secs (SCons m its ss) = pipes_items m its @
     (if ss = SNil then [Pipe [] PIPE_SEQ (end_mode m), Pipe [] PIPE_NONE RES_NONE] else pipes_secs ss)"

text \<open>Commands with the words in their places.\<close>

definition first_ok :: "spart list \<Rightarrow> bool" where
  "first_ok w \<longleftrightarrow> word_data w \<noteq> [] \<and> map_of reserved_list (word_data w) = None"

definition for_name :: "string \<Rightarrow> bool" where
  "for_name x \<longleftrightarrow> plain_text x \<and> shell_name x \<and> map_of reserved_list x = None"

fun secs_mode :: "secs \<Rightarrow> reserved_style option" where
  "secs_mode SNil = None"
| "secs_mode (SCons m its ss) = Some m"

fun last_seq :: "items \<Rightarrow> bool" where
  "last_seq INil = False"
| "last_seq (ICons s st INil) = (st = PIPE_SEQ)"
| "last_seq (ICons s st its) = last_seq its"

fun stmt_ok :: "stmt \<Rightarrow> bool" and items_ok :: "items \<Rightarrow> bool" and secs_ok :: "secs \<Rightarrow> bool" where
  "stmt_ok (Simple ws) = (ws \<noteq> [] \<and> list_all sword_ok ws \<and> first_ok (hd ws))"
| "stmt_ok (Comp ss) = (secs_ok ss \<and> secs_mode ss \<in> {Some RES_IF, Some RES_WHILE, Some RES_UNTIL})"
| "stmt_ok (For x ws its) = (for_name x \<and> list_all sword_ok ws \<and> (ws \<noteq> [] \<longrightarrow> first_ok (hd ws)) \<and> items_ok its \<and> last_seq its)"
| "items_ok INil = True"
| "items_ok (ICons s st its) = (stmt_ok s \<and> st \<in> {PIPE_SEQ, PIPE_AND, PIPE_OR} \<and> items_ok its)"
| "secs_ok SNil = True"
| "secs_ok (SCons m its ss) = (m \<in> {RES_IF, RES_THEN, RES_ELIF, RES_ELSE, RES_WHILE, RES_UNTIL, RES_DO} \<and> items_ok its \<and> last_seq its \<and>
     (case secs_mode ss of None \<Rightarrow> end_mode m \<in> res_flag m | Some m' \<Rightarrow> m' \<in> res_flag m \<and> m' \<noteq> RES_XXXX) \<and> secs_ok ss)"

section \<open>Reading words up to their end\<close>

lemma bump_child: "ctx_child c = Child a g k \<Longrightarrow> bump n c = c\<lparr>ctx_child := Child a g (k + int n)\<rparr>"
  by (simp add: bump_def)

lemma stream_blank_end:
  assumes "word_end fl d nn c stk c' stk'" and "cmap CHR '' '' = 2"
  shows "\<exists>d'. clean d' \<and> parse_stream fl cmap (pst d False nn c stk (CHR '' '' # i)) = parse_stream fl cmap (pst d' False False c' stk' i)"
proof -
  obtain d' where d': "clean d'" "\<And>j. done_word fl (pst d False nn c stk j) = Some (False, pst d' False False c' stk' j)"
    using assms(1) by (auto simp: word_end_def)
  then show ?thesis using assms(2) unfolding stream_step by (intro exI [of _ d']) (simp add: parse_char_def pst_simps)
qed

lemma stream_sep_end:
  assumes "word_end fl d nn c stk c' stk'" and "st \<in> {PIPE_SEQ, PIPE_AND, PIPE_OR}"
  shows "\<exists>d'. clean d' \<and> parse_stream fl default_map (pst d False nn c stk (sep st @ i)) = parse_stream fl default_map (pst d' False False (done_pipe st c') stk' i)"
proof -
  obtain d' where d': "clean d'" "\<And>j. done_word fl (pst d False nn c stk j) = Some (False, pst d' False False c' stk' j)"
    using assms(1) by (auto simp: word_end_def)
  have "parse_stream fl default_map (pst d False nn c stk (sep st @ i)) = parse_stream fl default_map (pst d' False False (done_pipe st c') stk' i)"
    using assms(2) by (auto simp: sep_def stream_special parse_special_def parse_pair_def d'(2) on_ctx_def pst_simps)
  then show ?thesis using d'(1) by blast
qed

lemma stream_blank:
  "clean d \<Longrightarrow> cmap CHR '' '' = 2 \<Longrightarrow> parse_stream fl cmap (pst d False False c stk (CHR '' '' # i)) = parse_stream fl cmap (pst d False False c stk i)"
  unfolding stream_step by (simp add: parse_char_def pst_simps done_word_clean)

lemma bind_upd: "(\<exists>d. clean d \<and> P d) \<Longrightarrow> (\<And>d. clean d \<Longrightarrow> P d \<Longrightarrow> Q) \<Longrightarrow> Q" by blast

lemma sum_refs_int: "int (\<Sum>w\<leftarrow>ws. f w) = (\<Sum>w\<leftarrow>ws. int (f w))"
  by (induction ws) auto

text \<open>Words with blanks between them, up to the end of the last.\<close>

lemma stream_args:
  assumes "list_all sword_ok ws" and "ws \<noteq> []" and "clean d" and "ctx_child c = Child a [] k" and "ctx_w c \<noteq> RES_FOR"
    and "a \<noteq> [] \<or> first_ok (hd ws)" and "i \<noteq> []" and "\<not> name_char (hd i)"
  shows "\<exists>d' nn c'. parse_stream fl default_map (pst d False False c stk (join_blank (map print_word ws) @ i)) =
      parse_stream fl default_map (pst d' False nn c' stk i) \<and>
    word_end fl d' nn c' stk (c\<lparr>ctx_child := Child (a @ map (\<lambda>w. word_text (sword_of w)) ws) []
      (k + int (\<Sum>w\<leftarrow>ws. count_refs (sword_of w)))\<rparr>) stk"
  using assms
proof (induction ws arbitrary: d c a k rule: induct_list012)
  case (2 w)
  let ?c = "bump (count_refs (sword_of w)) c"
  have "parse_stream fl default_map (pst d False False c stk (print_word w @ i)) =
      parse_stream fl default_map (pst (ext d (word_data w)) False (\<exists>p\<in>set w. is_quoted p) ?c stk i)"
    using 2 stream_word [of w i fl d False c stk] by (simp add: sword_ok_def)
  moreover have "word_end fl (ext d (word_data w)) (\<exists>p\<in>set w. is_quoted p) ?c stk
      (?c\<lparr>ctx_child := Child (a @ [word_text (sword_of w)]) [] (k + int (count_refs (sword_of w)))\<rparr>) stk"
    using 2 by (intro word_end_arg) (auto simp: bump_child first_ok_def)
  ultimately show ?case using 2(4) by (auto simp: bump_child)
next
  case (3 w v ws)
  let ?c = "bump (count_refs (sword_of w)) c" and ?a = "a @ [word_text (sword_of w)]" and ?k = "k + int (count_refs (sword_of w))"
  let ?r = "join_blank (map print_word (v # ws)) @ i"
  have "parse_stream fl default_map (pst d False False c stk (print_word w @ CHR '' '' # ?r)) =
      parse_stream fl default_map (pst (ext d (word_data w)) False (\<exists>p\<in>set w. is_quoted p) ?c stk (CHR '' '' # ?r))"
    using "3.prems"(1) stream_word [of w "CHR '' '' # ?r" fl d False c stk] by (simp add: sword_ok_def quote_not_name)
  moreover have "word_end fl (ext d (word_data w)) (\<exists>p\<in>set w. is_quoted p) ?c stk (?c\<lparr>ctx_child := Child ?a [] ?k\<rparr>) stk"
    using "3.prems" by (intro word_end_arg) (auto simp: bump_child first_ok_def)
  ultimately obtain d1 where d1: "clean d1" "parse_stream fl default_map (pst d False False c stk (print_word w @ CHR '' '' # ?r)) =
      parse_stream fl default_map (pst d1 False False (c\<lparr>ctx_child := Child ?a [] ?k\<rparr>) stk ?r)"
    using stream_blank_end [of fl _ _ ?c stk _ stk default_map ?r] "3.prems"(4) by (fastforce simp: bump_child)
  have "\<exists>d' nn c'. parse_stream fl default_map (pst d1 False False (c\<lparr>ctx_child := Child ?a [] ?k\<rparr>) stk ?r) =
      parse_stream fl default_map (pst d' False nn c' stk i) \<and>
    word_end fl d' nn c' stk (c\<lparr>ctx_child := Child ?a [] ?k\<rparr>\<lparr>ctx_child := Child (?a @ map (\<lambda>w. word_text (sword_of w)) (v # ws)) []
      (?k + int (\<Sum>w\<leftarrow>v # ws. count_refs (sword_of w)))\<rparr>) stk"
    by (rule "3.IH"(2)) (use "3.prems" d1(1) in simp_all)
  then show ?case using d1(2) by (simp add: add.assoc)
qed simp

section \<open>Reading commands\<close>

definition res_modes :: "reserved_style set" where
  "res_modes = {RES_IF, RES_THEN, RES_ELIF, RES_ELSE, RES_FI, RES_FOR, RES_WHILE, RES_UNTIL, RES_IN, RES_DO, RES_DONE}"

lemma res_word_reserved: "m \<in> res_modes \<Longrightarrow> map_of reserved_list (res_word m) = Some (m, res_flag m)"
  by (auto simp: res_modes_def res_flag_def res_word_def reserved_list_def)

lemma res_word_ne: "m \<in> res_modes \<Longrightarrow> res_word m \<noteq> []"
  by (auto simp: res_modes_def res_word_def)

lemma res_word_plain: "m \<in> res_modes \<Longrightarrow> plain_text (res_word m)"
  unfolding res_modes_def by (elim insertE emptyE; simp add: res_word_def plain_text_def no_mark_def)

lemma stream_res_word:
  "m \<in> res_modes \<Longrightarrow>
   parse_stream fl default_map (pst d False nn c stk (res_word m @ i)) = parse_stream fl default_map (pst (ext d (res_word m)) False nn c stk i)"
  by (rule stream_text) (use res_word_plain [of m] default_map_plain [of "res_word m"] in blast)

lemma res_flags [simp]:
  "res_flag RES_IF = {RES_THEN, RES_XXXX}" "res_flag RES_THEN = {RES_ELIF, RES_ELSE, RES_FI}" "res_flag RES_ELIF = {RES_THEN}"
  "res_flag RES_ELSE = {RES_FI}" "res_flag RES_FI = {RES_NONE}" "res_flag RES_FOR = {RES_IN, RES_XXXX}"
  "res_flag RES_WHILE = {RES_DO, RES_XXXX}" "res_flag RES_UNTIL = {RES_DO, RES_XXXX}" "res_flag RES_IN = {RES_DO}"
  "res_flag RES_DO = {RES_DONE}" "res_flag RES_DONE = {RES_NONE}"
  by (simp_all add: res_flag_def res_word_def reserved_list_def)

lemma word_end_reserved:
  assumes "m \<in> res_modes" and "clean d" and "argv (ctx_child c) = []" "group (ctx_child c) = []" and "fl AND 2 \<noteq> 0"
    and "\<And>j. reserved_word (pst (ext d (res_word m)) False False c stk j) = Some (True, pst (Some []) False False c' stk' j)" and "ctx_w c' \<noteq> RES_SNTX"
  shows "word_end fl (ext d (res_word m)) False c stk c' stk'"
  unfolding word_end_def using assms res_word_ne [OF assms(1)]
  by (intro exI [of _ "Some []"]) (simp add: clean_def [of "Some []"] done_word_def o_text_ext)

lemma ext_clean: "clean d \<Longrightarrow> s \<noteq> [] \<Longrightarrow> ext d s = Some s"
  by (auto simp: clean_def ext_def)

lemmas reserved_simps = reserved_word_def res_word_reserved ext_clean res_word_ne b_reset_def Let_def

lemma word_end_start:
  assumes "m \<in> res_modes" and "clean d" and "ctx_child c = null_child" and "fl AND 2 \<noteq> 0" and "RES_XXXX \<in> res_flag m" and "ctx_w c \<notin> {RES_FOR, RES_IN}"
  shows "word_end fl (ext d (res_word m)) False c stk (initialize_context\<lparr>ctx_w := m, old_flag := res_flag m\<rparr>) (c # stk)"
  by (rule word_end_reserved) (use assms in \<open>auto simp: reserved_simps res_modes_def\<close>)

lemma word_end_next:
  assumes "m \<in> res_modes" and "clean d" and "ctx_child c = null_child" and "fl AND 2 \<noteq> 0" and "RES_XXXX \<notin> res_flag m" and "RES_NONE \<notin> res_flag m"
    and "m \<in> old_flag c" and "ctx_w c \<noteq> RES_NONE"
  shows "word_end fl (ext d (res_word m)) False c stk (c\<lparr>ctx_w := m, old_flag := res_flag m\<rparr>) stk"
  by (rule word_end_reserved) (use assms in \<open>auto simp: reserved_simps res_modes_def\<close>)

lemma word_end_close:
  assumes "m \<in> {RES_FI, RES_DONE}" and "clean d" and "ctx_child c = null_child" "ctx_progs c = []" and "fl AND 2 \<noteq> 0"
    and "m \<in> old_flag c" and "ctx_w c \<noteq> RES_NONE" and "ctx_child old = null_child" and "ctx_w old \<noteq> RES_SNTX"
  shows "word_end fl (ext d (res_word m)) False c (old # stk)
    (old\<lparr>ctx_child := Child [] (ctx_list c @ [Pipe [] PIPE_SEQ m, Pipe [] PIPE_NONE RES_NONE]) 0\<rparr>) stk"
  by (rule word_end_reserved)
    (use assms in \<open>auto simp: reserved_simps res_modes_def list_head_def done_pipe_def done_command_def\<close>)

text \<open>A reserved word with a blank behind it.\<close>

lemma stream_res_blank:
  assumes "m \<in> res_modes" and "word_end fl (ext d (res_word m)) False c stk c' stk'"
  obtains d' where "clean d'"
    "parse_stream fl default_map (pst d False False c stk (res_word m @ CHR '' '' # i)) = parse_stream fl default_map (pst d' False False c' stk' i)"
  using stream_blank_end [OF assms(2), of default_map i] stream_res_word [OF assms(1), of fl d False c stk "CHR '' '' # i"] by auto

definition reads_stmt :: "u32 \<Rightarrow> stmt \<Rightarrow> bool" where
  "reads_stmt fl s \<longleftrightarrow> (\<forall>c stk d i. stmt_ok s \<longrightarrow> clean d \<longrightarrow> ctx_child c = null_child \<longrightarrow> ctx_w c \<notin> {RES_FOR, RES_IN, RES_SNTX} \<longrightarrow>
     i \<noteq> [] \<longrightarrow> \<not> name_char (hd i) \<longrightarrow>
     (\<exists>d' nn c' stk'. parse_stream fl default_map (pst d False False c stk (print_stmt s @ i)) =
        parse_stream fl default_map (pst d' False nn c' stk' i) \<and> word_end fl d' nn c' stk' (c\<lparr>ctx_child := pipes_stmt s\<rparr>) stk))"

definition reads_items :: "u32 \<Rightarrow> items \<Rightarrow> bool" where
  "reads_items fl its \<longleftrightarrow> (\<forall>c stk d i. items_ok its \<longrightarrow> clean d \<longrightarrow> ctx_child c = null_child \<longrightarrow> ctx_progs c = [] \<longrightarrow>
     ctx_w c \<notin> {RES_FOR, RES_IN, RES_SNTX} \<longrightarrow>
     (\<exists>d'. clean d' \<and> parse_stream fl default_map (pst d False False c stk (print_items its @ i)) =
        parse_stream fl default_map (pst d' False False (c\<lparr>ctx_list := ctx_list c @ pipes_items (ctx_w c) its\<rparr>) stk i)))"

text \<open>Sections, the first word and its blank having been read.\<close>

fun reads_secs :: "u32 \<Rightarrow> secs \<Rightarrow> bool" where
  "reads_secs fl SNil = True"
| "reads_secs fl (SCons m its ss) \<longleftrightarrow> (\<forall>c old stk d i. secs_ok (SCons m its ss) \<longrightarrow> clean d \<longrightarrow> ctx_child c = null_child \<longrightarrow> ctx_progs c = [] \<longrightarrow>
     ctx_w c = m \<longrightarrow> old_flag c = res_flag m \<longrightarrow> ctx_child old = null_child \<longrightarrow> ctx_w old \<noteq> RES_SNTX \<longrightarrow> i \<noteq> [] \<longrightarrow> \<not> name_char (hd i) \<longrightarrow>
     (\<exists>d' c' stk'. parse_stream fl default_map (pst d False False c (old # stk)
          (print_items its @ (if ss = SNil then res_word (end_mode m) else print_secs ss) @ i)) =
        parse_stream fl default_map (pst d' False False c' stk' i) \<and>
        word_end fl d' False c' stk' (old\<lparr>ctx_child := Child [] (ctx_list c @ pipes_secs (SCons m its ss)) 0\<rparr>) stk))"

lemma child_null: "ctx_child c = null_child \<Longrightarrow> c\<lparr>ctx_child := null_child\<rparr> = c"
  by simp

lemma simple_child_ne: "ws \<noteq> [] \<Longrightarrow> argv (simple_child ws) \<noteq> []"
  by simp

lemma pipes_secs_ne: "ss \<noteq> SNil \<Longrightarrow> pipes_secs ss \<noteq> []"
  by (induction ss rule: secs.induct [where ?P1.0 = "\<lambda>_. True" and ?P2.0 = "\<lambda>_. True"]) auto

lemma pipes_stmt_ne: "stmt_ok s \<Longrightarrow> \<not> (group (pipes_stmt s) = [] \<and> argv (pipes_stmt s) = [])"
proof (cases s)
  case (Comp ss)
  then show "stmt_ok s \<Longrightarrow> ?thesis" using pipes_secs_ne [of ss] by (cases "ss = SNil") auto
qed auto

lemma done_pipe_stmt:
  "ctx_child c = null_child \<Longrightarrow> ctx_progs c = [] \<Longrightarrow> \<not> (group ch = [] \<and> argv ch = []) \<Longrightarrow>
   done_pipe st (c\<lparr>ctx_child := ch\<rparr>) = c\<lparr>ctx_list := ctx_list c @ [Pipe [ch] st (ctx_w c)]\<rparr>"
  by (auto simp: done_pipe_def done_command_def)

lemma reads_Simple: "fl AND 2 \<noteq> 0 \<Longrightarrow> reads_stmt fl (Simple ws)"
  unfolding reads_stmt_def
proof (intro allI impI)
  fix c :: p_context and stk d i
  assume "stmt_ok (Simple ws)" "clean d" "ctx_child c = null_child" "ctx_w c \<notin> {RES_FOR, RES_IN, RES_SNTX}" "i \<noteq> []" "\<not> name_char (hd i)"
  then have "list_all sword_ok ws" "ws \<noteq> []" "clean d" "ctx_child c = Child [] [] 0" "ctx_w c \<noteq> RES_FOR" "([] :: string list) \<noteq> [] \<or> first_ok (hd ws)"
    "i \<noteq> []" "\<not> name_char (hd i)" by auto
  from stream_args [OF this, of fl stk]
  show "\<exists>d' nn c' stk'. parse_stream fl default_map (pst d False False c stk (print_stmt (Simple ws) @ i)) =
      parse_stream fl default_map (pst d' False nn c' stk' i) \<and> word_end fl d' nn c' stk' (c\<lparr>ctx_child := pipes_stmt (Simple ws)\<rparr>) stk"
    by simp blast
qed

lemma reads_ICons:
  assumes "reads_stmt fl s" and "reads_items fl its"
  shows "reads_items fl (ICons s st its)"
  unfolding reads_items_def
proof (intro allI impI)
  fix c :: p_context and stk d i
  assume ok: "items_ok (ICons s st its)" and d: "clean d" and c: "ctx_child c = null_child" "ctx_progs c = []" "ctx_w c \<notin> {RES_FOR, RES_IN, RES_SNTX}"
  let ?i = "CHR '' '' # print_items its @ i"
  have st: "st \<in> {PIPE_SEQ, PIPE_AND, PIPE_OR}" "stmt_ok s" "items_ok its" using ok by simp_all
  then have "sep st @ ?i \<noteq> []" "\<not> name_char (hd (sep st @ ?i))" by (auto simp: sep_def quote_not_name)
  then obtain d1 nn c1 stk1 where 1: "parse_stream fl default_map (pst d False False c stk (print_stmt s @ sep st @ ?i)) =
      parse_stream fl default_map (pst d1 False nn c1 stk1 (sep st @ ?i))" "word_end fl d1 nn c1 stk1 (c\<lparr>ctx_child := pipes_stmt s\<rparr>) stk"
    using assms(1) [unfolded reads_stmt_def, rule_format, OF st(2) d c(1,3), of "sep st @ ?i" stk] by blast
  let ?c = "c\<lparr>ctx_list := ctx_list c @ [Pipe [pipes_stmt s] st (ctx_w c)]\<rparr>"
  obtain d2 where 2: "clean d2" "parse_stream fl default_map (pst d1 False nn c1 stk1 (sep st @ ?i)) =
      parse_stream fl default_map (pst d2 False False ?c stk ?i)"
    using stream_sep_end [OF 1(2) st(1), of ?i] unfolding done_pipe_stmt [OF c(1,2) pipes_stmt_ne [OF st(2)]] by blast
  obtain d3 where 3: "clean d3" "parse_stream fl default_map (pst d2 False False ?c stk (print_items its @ i)) =
      parse_stream fl default_map (pst d3 False False (?c\<lparr>ctx_list := ctx_list ?c @ pipes_items (ctx_w ?c) its\<rparr>) stk i)"
    using assms(2) [unfolded reads_items_def, rule_format, OF st(3) 2(1), of ?c stk i] c by auto
  show "\<exists>d'. clean d' \<and> parse_stream fl default_map (pst d False False c stk (print_items (ICons s st its) @ i)) =
      parse_stream fl default_map (pst d' False False (c\<lparr>ctx_list := ctx_list c @ pipes_items (ctx_w c) (ICons s st its)\<rparr>) stk i)"
    using 1(1) 2 3 stream_blank [OF 2(1)] by (intro exI [of _ d3]) simp
qed

lemma secs_modes: "secs_ok (SCons m its ss) \<Longrightarrow> m \<in> res_modes \<and> m \<notin> {RES_FOR, RES_IN, RES_SNTX, RES_NONE}"
  by (auto simp: res_modes_def)

lemma next_modes: "m' \<in> res_flag m \<Longrightarrow> m' \<noteq> RES_XXXX \<Longrightarrow> secs_ok (SCons m its ss) \<Longrightarrow> m' \<in> {RES_THEN, RES_ELIF, RES_ELSE, RES_FI, RES_DO, RES_DONE}"
  by auto

lemma reads_SCons:
  assumes fl: "fl AND 2 \<noteq> 0" and its: "reads_items fl its" and ss: "reads_secs fl ss"
  shows "reads_secs fl (SCons m its ss)"
  unfolding reads_secs.simps
proof (intro allI impI)
  fix c old :: p_context and stk d i
  assume ok: "secs_ok (SCons m its ss)" and d: "clean d" and c: "ctx_child c = null_child" "ctx_progs c = []" "ctx_w c = m" "old_flag c = res_flag m"
    and old: "ctx_child old = null_child" "ctx_w old \<noteq> RES_SNTX" and i: "i \<noteq> []" "\<not> name_char (hd i)"
  let ?t = "(if ss = SNil then res_word (end_mode m) else print_secs ss) @ i"
  let ?c = "c\<lparr>ctx_list := ctx_list c @ pipes_items m its\<rparr>"
  have iok: "items_ok its" and m: "m \<in> res_modes" "m \<notin> {RES_FOR, RES_IN, RES_SNTX, RES_NONE}" using ok secs_modes by auto
  obtain d1 where d1: "clean d1" "parse_stream fl default_map (pst d False False c (old # stk) (print_items its @ ?t)) =
      parse_stream fl default_map (pst d1 False False ?c (old # stk) ?t)"
    using its [unfolded reads_items_def, rule_format, OF iok d c(1,2), of "old # stk" ?t] m c(3) by auto
  have "\<exists>d' c' stk'. parse_stream fl default_map (pst d1 False False ?c (old # stk) ?t) =
        parse_stream fl default_map (pst d' False False c' stk' i) \<and>
        word_end fl d' False c' stk' (old\<lparr>ctx_child := Child [] (ctx_list c @ pipes_secs (SCons m its ss)) 0\<rparr>) stk"
  proof (cases ss)
    case SNil
    let ?e = "end_mode m"
    have e: "?e \<in> {RES_FI, RES_DONE}" "?e \<in> res_flag m" using ok SNil by (auto simp: end_mode_def)
    then have "?e \<in> res_modes" by (auto simp: res_modes_def)
    from stream_res_word [OF this, of fl d1 False ?c "old # stk" i]
    have "parse_stream fl default_map (pst d1 False False ?c (old # stk) ?t) =
        parse_stream fl default_map (pst (ext d1 (res_word ?e)) False False ?c (old # stk) i)" by (simp add: SNil)
    moreover have "word_end fl (ext d1 (res_word ?e)) False ?c (old # stk)
        (old\<lparr>ctx_child := Child [] (ctx_list ?c @ [Pipe [] PIPE_SEQ ?e, Pipe [] PIPE_NONE RES_NONE]) 0\<rparr>) stk"
      by (rule word_end_close) (use e d1(1) c fl old m(2) in auto)
    ultimately show ?thesis using SNil by auto
  next
    case (SCons m' its' ss')
    have m': "m' \<in> res_flag m" "m' \<noteq> RES_XXXX" "secs_ok (SCons m' its' ss')" using ok SCons by auto
    have modes: "m' \<in> res_modes" "RES_XXXX \<notin> res_flag m'" "RES_NONE \<notin> res_flag m'"
      using next_modes [OF m'(1,2) ok] secs_modes [OF m'(3)] m'(3) by auto
    let ?c' = "?c\<lparr>ctx_w := m', old_flag := res_flag m'\<rparr>"
    have "word_end fl (ext d1 (res_word m')) False ?c (old # stk) ?c' (old # stk)"
      by (rule word_end_next) (use modes m'(1) d1(1) c fl m(2) in auto)
    from stream_res_blank [OF modes(1) this]
    obtain d2 where d2: "clean d2" "parse_stream fl default_map (pst d1 False False ?c (old # stk) (res_word m' @ CHR '' '' #
          print_items its' @ (if ss' = SNil then res_word (end_mode m') else print_secs ss') @ i)) =
        parse_stream fl default_map (pst d2 False False ?c' (old # stk)
          (print_items its' @ (if ss' = SNil then res_word (end_mode m') else print_secs ss') @ i))" by blast
    have "ctx_child ?c' = null_child" "ctx_progs ?c' = []" "ctx_w ?c' = m'" "old_flag ?c' = res_flag m'" using c by simp_all
    from ss [unfolded SCons reads_secs.simps, rule_format, OF m'(3) d2(1) this old i, of stk]
    show ?thesis using d2(2) SCons by auto
  qed
  then show "\<exists>d' c' stk'. parse_stream fl default_map (pst d False False c (old # stk)
          (print_items its @ (if ss = SNil then res_word (end_mode m) else print_secs ss) @ i)) =
        parse_stream fl default_map (pst d' False False c' stk' i) \<and>
        word_end fl d' False c' stk' (old\<lparr>ctx_child := Child [] (ctx_list c @ pipes_secs (SCons m its ss)) 0\<rparr>) stk"
    unfolding d1(2) .
qed

lemma reads_Comp:
  assumes fl: "fl AND 2 \<noteq> 0" and ss: "reads_secs fl ss"
  shows "reads_stmt fl (Comp ss)"
  unfolding reads_stmt_def
proof (intro allI impI)
  fix c :: p_context and stk d i
  assume ok: "stmt_ok (Comp ss)" and d: "clean d" and c: "ctx_child c = null_child" "ctx_w c \<notin> {RES_FOR, RES_IN, RES_SNTX}"
    and i: "i \<noteq> []" "\<not> name_char (hd i)"
  obtain m its ss' where s: "ss = SCons m its ss'" using ok by (cases ss) auto
  let ?t = "print_items its @ (if ss' = SNil then res_word (end_mode m) else print_secs ss') @ i"
  let ?c = "initialize_context\<lparr>ctx_w := m, old_flag := res_flag m\<rparr>"
  have sok: "secs_ok (SCons m its ss')" and m: "m \<in> res_modes" "RES_XXXX \<in> res_flag m" using ok by (auto simp: s res_modes_def)
  have "word_end fl (ext d (res_word m)) False c stk ?c (c # stk)"
    by (rule word_end_start) (use m d c fl in auto)
  from stream_res_blank [OF m(1) this]
  obtain d1 where d1: "clean d1" "parse_stream fl default_map (pst d False False c stk (res_word m @ CHR '' '' # ?t)) =
      parse_stream fl default_map (pst d1 False False ?c (c # stk) ?t)" by blast
  have "ctx_child ?c = null_child" "ctx_progs ?c = []" "ctx_w ?c = m" "old_flag ?c = res_flag m" "ctx_w c \<noteq> RES_SNTX"
    using c by (simp_all add: initialize_context_def)
  from ss [unfolded s reads_secs.simps, rule_format, OF sok d1(1) this(1,2,3,4) c(1) this(5) i, of stk]
  show "\<exists>d' nn c' stk'. parse_stream fl default_map (pst d False False c stk (print_stmt (Comp ss) @ i)) =
      parse_stream fl default_map (pst d' False nn c' stk' i) \<and> word_end fl d' nn c' stk' (c\<lparr>ctx_child := pipes_stmt (Comp ss)\<rparr>) stk"
    using d1(2) by (auto simp: s initialize_context_def) blast+
qed

text \<open>The head of a \<open>for\<close>: its name, and \<open>in\<close> with the words.\<close>

lemma stream_for_name:
  assumes x: "for_name x" and d: "clean d" and c: "ctx_child c = null_child" "ctx_progs c = []" "ctx_w c = RES_FOR"
  obtains d' where "clean d'" "parse_stream fl default_map (pst d False False c stk (x @ CHR '' '' # i)) =
    parse_stream fl default_map (pst d' False False (c\<lparr>ctx_list := ctx_list c @ [Pipe [Child [x] [] 0] PIPE_SEQ RES_FOR]\<rparr>) stk i)"
proof -
  have xp: "plain_text x" "x \<noteq> []" "map_of reserved_list x = None" using x by (auto simp: for_name_def shell_name_def)
  have "CHR 0x5C \<notin> set x" using xp(1) by (auto simp: plain_text_def)
  from unescape_plain [OF this] have u: "unescape x = Some x" .
  have "parse_stream fl default_map (pst d False False c stk (x @ CHR '' '' # i)) =
      parse_stream fl default_map (pst (Some x) False False c stk (CHR '' '' # i))"
    using stream_text [of x default_map] default_map_plain [OF xp(1)] ext_clean [OF d xp(2)] by simp
  moreover have "word_end fl (Some x) False c stk (c\<lparr>ctx_list := ctx_list c @ [Pipe [Child [x] [] 0] PIPE_SEQ RES_FOR]\<rparr>) stk"
    unfolding word_end_def using xp c
    by (intro exI [of _ "Some []"])
      (simp add: clean_def done_word_def o_text_def reserved_word_def b_reset_def u done_pipe_def done_command_def Let_def)
  ultimately show ?thesis using stream_blank_end [of fl "Some x" False c stk _ stk default_map i] that by auto
qed

lemma stream_for_words:
  assumes ws: "list_all sword_ok ws" "ws \<noteq> [] \<longrightarrow> first_ok (hd ws)" and d: "clean d" and fl: "fl AND 2 \<noteq> 0"
    and c: "ctx_child c = null_child" "ctx_progs c = []" "ctx_w c = RES_FOR" "old_flag c = res_flag RES_FOR"
  obtains d' where "clean d'" "parse_stream fl default_map (pst d False False c stk (''in'' @ concat (map (\<lambda>w. CHR '' '' # print_word w) ws) @ CHR '';'' # i)) =
    parse_stream fl default_map (pst d' False False (c\<lparr>ctx_w := RES_IN, old_flag := res_flag RES_IN,
      ctx_list := ctx_list c @ [Pipe (if ws = [] then [] else [simple_child ws]) PIPE_SEQ RES_IN]\<rparr>) stk i)"
proof -
  let ?c = "c\<lparr>ctx_w := RES_IN, old_flag := res_flag RES_IN\<rparr>"
  have "word_end fl (ext d (res_word RES_IN)) False c stk ?c stk"
    by (rule word_end_next) (use c fl d in \<open>auto simp: res_modes_def\<close>)
  then have e: "word_end fl (ext d ''in'') False c stk ?c stk" by (simp add: res_word_def)
  have r: "parse_stream fl default_map (pst d False False c stk (''in'' @ j)) = parse_stream fl default_map (pst (ext d ''in'') False False c stk j)" for j
    using stream_res_word [of RES_IN fl d False c stk j] by (simp add: res_word_def res_modes_def)
  show ?thesis
  proof (cases ws)
    case Nil
    have p: "done_pipe PIPE_SEQ ?c = ?c\<lparr>ctx_list := ctx_list c @ [Pipe [] PIPE_SEQ RES_IN]\<rparr>"
      using c by (simp add: done_pipe_def done_command_def)
    show ?thesis
      using r [of "CHR '';'' # i"] stream_sep_end [OF e, of PIPE_SEQ i] that p by (auto simp: Nil sep_def)
  next
    case (Cons w vs)
    have j: "concat (map (\<lambda>w. CHR '' '' # print_word w) ws) = CHR '' '' # join_blank (map print_word ws)" if "ws \<noteq> []" for ws
      using that by (induction ws rule: induct_list012) auto
    obtain d1 where d1: "clean d1" "parse_stream fl default_map (pst (ext d ''in'') False False c stk (CHR '' '' # join_blank (map print_word ws) @ CHR '';'' # i)) =
        parse_stream fl default_map (pst d1 False False ?c stk (join_blank (map print_word ws) @ CHR '';'' # i))"
      using stream_blank_end [OF e, of default_map] by fastforce
    have "ws \<noteq> []" "([] :: string list) \<noteq> [] \<or> first_ok (hd ws)" "ctx_child ?c = Child [] [] 0" "ctx_w ?c \<noteq> RES_FOR"
        "CHR '';'' # i \<noteq> []" "\<not> name_char (hd (CHR '';'' # i))" using Cons ws c by (auto simp: quote_not_name)
    from stream_args [OF ws(1) this(1) d1(1) this(3,4,2,5,6), of fl stk]
    obtain d2 nn c2 where 2: "parse_stream fl default_map (pst d1 False False ?c stk (join_blank (map print_word ws) @ CHR '';'' # i)) =
        parse_stream fl default_map (pst d2 False nn c2 stk (CHR '';'' # i))" "word_end fl d2 nn c2 stk (?c\<lparr>ctx_child := simple_child ws\<rparr>) stk"
      by auto
    have p: "done_pipe PIPE_SEQ (?c\<lparr>ctx_child := simple_child ws\<rparr>) = ?c\<lparr>ctx_list := ctx_list ?c @ [Pipe [simple_child ws] PIPE_SEQ (ctx_w ?c)]\<rparr>"
      by (rule done_pipe_stmt) (use c Cons in auto)
    obtain d3 where d3: "clean d3" "parse_stream fl default_map (pst d2 False nn c2 stk (sep PIPE_SEQ @ i)) =
        parse_stream fl default_map (pst d3 False False (done_pipe PIPE_SEQ (?c\<lparr>ctx_child := simple_child ws\<rparr>)) stk i)"
      using stream_sep_end [OF 2(2), of PIPE_SEQ i] by auto
    have s: "sep PIPE_SEQ @ i = CHR '';'' # i" by (simp add: sep_def)
    have "''in'' @ concat (map (\<lambda>w. CHR '' '' # print_word w) ws) @ CHR '';'' # i = ''in'' @ CHR '' '' # join_blank (map print_word ws) @ CHR '';'' # i"
      using j [of ws] Cons by simp
    then have "parse_stream fl default_map (pst d False False c stk (''in'' @ concat (map (\<lambda>w. CHR '' '' # print_word w) ws) @ CHR '';'' # i)) =
        parse_stream fl default_map (pst d3 False False (done_pipe PIPE_SEQ (?c\<lparr>ctx_child := simple_child ws\<rparr>)) stk i)"
      by (simp only: r d1(2) 2(1) d3(2) [unfolded s])
    moreover have "done_pipe PIPE_SEQ (?c\<lparr>ctx_child := simple_child ws\<rparr>) = c\<lparr>ctx_w := RES_IN, old_flag := res_flag RES_IN,
      ctx_list := ctx_list c @ [Pipe (if ws = [] then [] else [simple_child ws]) PIPE_SEQ RES_IN]\<rparr>"
      unfolding p using Cons by simp
    ultimately show ?thesis using that [OF d3(1)] by simp
  qed
qed

lemma reads_For:
  assumes fl: "fl AND 2 \<noteq> 0" and its: "reads_items fl its"
  shows "reads_stmt fl (For x ws its)"
  unfolding reads_stmt_def
proof (intro allI impI)
  fix c :: p_context and stk d i
  assume ok: "stmt_ok (For x ws its)" and d: "clean d" and c: "ctx_child c = null_child" "ctx_w c \<notin> {RES_FOR, RES_IN, RES_SNTX}"
    and i: "i \<noteq> []" "\<not> name_char (hd i)"
  have x: "for_name x" and ws: "list_all sword_ok ws" "ws \<noteq> [] \<longrightarrow> first_ok (hd ws)" and iok: "items_ok its" using ok by auto
  let ?W = "concat (map (\<lambda>w. CHR '' '' # print_word w) ws)"
  let ?t3 = "''done'' @ i" let ?t2 = "print_items its @ ?t3" let ?t1 = "''do'' @ CHR '' '' # ?t2"
  let ?t0 = "''in'' @ ?W @ CHR '';'' # CHR '' '' # ?t1"
  let ?c0 = "initialize_context\<lparr>ctx_w := RES_FOR, old_flag := res_flag RES_FOR\<rparr>"
  let ?c1 = "?c0\<lparr>ctx_list := [Pipe [Child [x] [] 0] PIPE_SEQ RES_FOR]\<rparr>"
  let ?c2 = "?c1\<lparr>ctx_w := RES_IN, old_flag := res_flag RES_IN,
      ctx_list := ctx_list ?c1 @ [Pipe (if ws = [] then [] else [simple_child ws]) PIPE_SEQ RES_IN]\<rparr>"
  let ?c3 = "?c2\<lparr>ctx_w := RES_DO, old_flag := res_flag RES_DO\<rparr>"
  note eqs = initialize_context_def
  have w: "res_word RES_FOR = ''for''" "res_word RES_DO = ''do''" "res_word RES_DONE = ''done''" by (simp_all add: res_word_def)
  have "word_end fl (ext d (res_word RES_FOR)) False c stk ?c0 (c # stk)"
    by (rule word_end_start) (use d c fl in \<open>auto simp: res_modes_def\<close>)
  then obtain d0 where d0: "clean d0" "parse_stream fl default_map (pst d False False c stk (''for'' @ CHR '' '' # x @ CHR '' '' # ?t0)) =
      parse_stream fl default_map (pst d0 False False ?c0 (c # stk) (x @ CHR '' '' # ?t0))"
    using stream_res_blank [of RES_FOR fl d c stk ?c0 "c # stk" "x @ CHR '' '' # ?t0"] unfolding w by (auto simp: res_modes_def)
  obtain d1 where d1: "clean d1" "parse_stream fl default_map (pst d0 False False ?c0 (c # stk) (x @ CHR '' '' # ?t0)) =
      parse_stream fl default_map (pst d1 False False ?c1 (c # stk) ?t0)"
    using stream_for_name [OF x d0(1), of ?c0 fl "c # stk" ?t0] by (auto simp: eqs)
  obtain d2 where d2: "clean d2" "parse_stream fl default_map (pst d1 False False ?c1 (c # stk) ?t0) =
      parse_stream fl default_map (pst d2 False False ?c2 (c # stk) (CHR '' '' # ?t1))"
    using stream_for_words [OF ws d1(1) fl, of ?c1 "c # stk" "CHR '' '' # ?t1"] by (auto simp: eqs)
  have d2': "parse_stream fl default_map (pst d2 False False ?c2 (c # stk) (CHR '' '' # ?t1)) =
      parse_stream fl default_map (pst d2 False False ?c2 (c # stk) ?t1)"
    by (rule stream_blank [OF d2(1)]) simp
  have "word_end fl (ext d2 (res_word RES_DO)) False ?c2 (c # stk) ?c3 (c # stk)"
    by (rule word_end_next) (use d2(1) fl in \<open>auto simp: res_modes_def eqs\<close>)
  then obtain d3 where d3: "clean d3" "parse_stream fl default_map (pst d2 False False ?c2 (c # stk) ?t1) =
      parse_stream fl default_map (pst d3 False False ?c3 (c # stk) ?t2)"
    using stream_res_blank [of RES_DO fl d2 ?c2 "c # stk" ?c3 "c # stk" ?t2] unfolding w by (auto simp: res_modes_def)
  let ?c4 = "?c3\<lparr>ctx_list := ctx_list ?c3 @ pipes_items RES_DO its\<rparr>"
  obtain d4 where d4: "clean d4" "parse_stream fl default_map (pst d3 False False ?c3 (c # stk) ?t2) =
      parse_stream fl default_map (pst d4 False False ?c4 (c # stk) ?t3)"
    using its [unfolded reads_items_def, rule_format, OF iok d3(1), of ?c3 "c # stk" ?t3] by (auto simp: eqs)
  have "parse_stream fl default_map (pst d4 False False ?c4 (c # stk) ?t3) =
      parse_stream fl default_map (pst (ext d4 ''done'') False False ?c4 (c # stk) i)"
    using stream_res_word [of RES_DONE fl d4 False ?c4 "c # stk" i] unfolding w by (simp add: res_modes_def)
  moreover have "word_end fl (ext d4 ''done'') False ?c4 (c # stk)
      (c\<lparr>ctx_child := Child [] (ctx_list ?c4 @ [Pipe [] PIPE_SEQ RES_DONE, Pipe [] PIPE_NONE RES_NONE]) 0\<rparr>) stk"
    unfolding w(3) [symmetric] by (rule word_end_close) (use d4(1) c fl in \<open>auto simp: eqs\<close>)
  moreover have "parse_stream fl default_map (pst d False False c stk (print_stmt (For x ws its) @ i)) =
      parse_stream fl default_map (pst d4 False False ?c4 (c # stk) ?t3)"
    using d0(2) d1(2) d2(2) d2' d3(2) d4(2) by simp
  ultimately show "\<exists>d' nn c' stk'. parse_stream fl default_map (pst d False False c stk (print_stmt (For x ws its) @ i)) =
      parse_stream fl default_map (pst d' False nn c' stk' i) \<and> word_end fl d' nn c' stk' (c\<lparr>ctx_child := pipes_stmt (For x ws its)\<rparr>) stk"
    by (intro exI [of _ "ext d4 ''done''"] exI [of _ False] exI [of _ ?c4] exI [of _ "c # stk"]) (simp add: eqs)
qed

lemma reads_all: "fl AND 2 \<noteq> 0 \<Longrightarrow> reads_stmt fl s \<and> reads_items fl its \<and> reads_secs fl ss"
proof -
  assume fl: "fl AND 2 \<noteq> 0"
  have s: "reads_stmt fl s" for s
    by (rule stmt.induct [where ?P1.0 = "reads_stmt fl" and ?P2.0 = "reads_items fl" and ?P3.0 = "reads_secs fl"])
      (use reads_Simple [OF fl] reads_Comp [OF fl] reads_For [OF fl] reads_ICons reads_SCons [OF fl] in
        \<open>blast | auto simp: reads_items_def\<close>)+
  have i: "reads_items fl its" for its
  proof (induction its rule: items.induct [where ?P1.0 = "\<lambda>_. True" and ?P3.0 = "\<lambda>_. True"])
    case (ICons s' st its)
    then show ?case using reads_ICons s by blast
  qed (auto simp: reads_items_def)
  have "reads_secs fl ss"
  proof (induction ss rule: secs.induct [where ?P1.0 = "\<lambda>_. True" and ?P2.0 = "\<lambda>_. True"])
    case (SCons m its ss)
    then show ?case using reads_SCons [OF fl i] by blast
  qed auto
  then show ?thesis using s i by blast
qed

section \<open>Reading a line\<close>

text \<open>A line: the last command ends with the line.\<close>

fun print_line :: "items \<Rightarrow> string" where
  "print_line INil = [LF]"
| "print_line (ICons s st INil) = print_stmt s @ [LF]"
| "print_line (ICons s st its) = print_stmt s @ sep st @ CHR '' '' # print_line its"

lemma stream_line_end:
  assumes "word_end fl d nn c stk c' stk'" and "ctx_w c' = RES_NONE"
  shows "\<exists>d'. clean d' \<and> parse_stream fl default_map (pst d False nn c stk (LF # i)) = Some (0, pst d' False False (done_pipe PIPE_SEQ c') stk' i)"
proof -
  obtain d' where d': "clean d'" "\<And>j. done_word fl (pst d False nn c stk j) = Some (False, pst d' False False c' stk' j)"
    using assms(1) by (auto simp: word_end_def)
  have "ctx_w (done_pipe PIPE_SEQ c') = RES_NONE" using assms(2) by (simp add: done_pipe_def done_command_def Let_def)
  then show ?thesis using d' unfolding stream_step by (intro exI [of _ d']) (simp add: parse_char_def on_ctx_def)
qed

lemma stream_line:
  assumes "fl AND 2 \<noteq> 0"
  shows "items_ok its \<Longrightarrow> last_seq its \<Longrightarrow> clean d \<Longrightarrow> ctx_child c = null_child \<Longrightarrow> ctx_progs c = [] \<Longrightarrow> ctx_w c = RES_NONE \<Longrightarrow>
    \<exists>d'. clean d' \<and> parse_stream fl default_map (pst d False False c [] (print_line its @ i)) =
      Some (0, pst d' False False (c\<lparr>ctx_list := ctx_list c @ pipes_items RES_NONE its\<rparr>) [] i)"
proof (induction its arbitrary: c d rule: print_line.induct)
  case (2 s st)
  have ok: "stmt_ok s" "st = PIPE_SEQ" using "2.prems" by simp_all
  have r: "reads_stmt fl s" using reads_all [OF assms] by blast
  have w: "ctx_w c \<notin> {RES_FOR, RES_IN, RES_SNTX}" "LF # i \<noteq> []" "\<not> name_char (hd (LF # i))" using "2.prems"(6) by (simp_all add: quote_not_name)
  obtain d1 nn c1 stk1 where 1: "parse_stream fl default_map (pst d False False c [] (print_stmt s @ LF # i)) =
      parse_stream fl default_map (pst d1 False nn c1 stk1 (LF # i))" "word_end fl d1 nn c1 stk1 (c\<lparr>ctx_child := pipes_stmt s\<rparr>) []"
    using r [unfolded reads_stmt_def, rule_format, OF ok(1) "2.prems"(3,4) w] by blast
  obtain d2 where "clean d2" "parse_stream fl default_map (pst d1 False nn c1 stk1 (LF # i)) =
      Some (0, pst d2 False False (c\<lparr>ctx_list := ctx_list c @ [Pipe [pipes_stmt s] PIPE_SEQ (ctx_w c)]\<rparr>) [] i)"
    using stream_line_end [OF 1(2), of i] "2.prems"(6) unfolding done_pipe_stmt [OF "2.prems"(4,5) pipes_stmt_ne [OF ok(1)]] by auto
  then show ?case using 1(1) ok(2) "2.prems"(6) by auto
next
  case (3 s st s' st' its)
  let ?its = "ICons s' st' its"
  let ?i = "print_line ?its @ i" let ?j = "sep st @ CHR '' '' # ?i"
  have ok: "stmt_ok s" "st \<in> {PIPE_SEQ, PIPE_AND, PIPE_OR}" "items_ok ?its" "last_seq ?its" using "3.prems"(1,2) by simp_all
  have r: "reads_stmt fl s" using reads_all [OF assms] by blast
  have w: "ctx_w c \<notin> {RES_FOR, RES_IN, RES_SNTX}" using "3.prems"(6) by simp
  have j: "?j \<noteq> []" "\<not> name_char (hd ?j)" using ok(2) by (auto simp: sep_def quote_not_name)
  obtain d1 nn c1 stk1 where 1: "parse_stream fl default_map (pst d False False c [] (print_stmt s @ ?j)) =
      parse_stream fl default_map (pst d1 False nn c1 stk1 ?j)" "word_end fl d1 nn c1 stk1 (c\<lparr>ctx_child := pipes_stmt s\<rparr>) []"
    using r [unfolded reads_stmt_def, rule_format, OF ok(1) "3.prems"(3,4) w j] by blast
  let ?c = "c\<lparr>ctx_list := ctx_list c @ [Pipe [pipes_stmt s] st RES_NONE]\<rparr>"
  obtain d2 where 2: "clean d2" "parse_stream fl default_map (pst d1 False nn c1 stk1 ?j) = parse_stream fl default_map (pst d2 False False ?c [] (CHR '' '' # ?i))"
    using stream_sep_end [OF 1(2) ok(2), of "CHR '' '' # ?i"] "3.prems"(6) unfolding done_pipe_stmt [OF "3.prems"(4,5) pipes_stmt_ne [OF ok(1)]] by auto
  have "\<exists>d'. clean d' \<and> parse_stream fl default_map (pst d2 False False ?c [] ?i) =
      Some (0, pst d' False False (?c\<lparr>ctx_list := ctx_list ?c @ pipes_items RES_NONE ?its\<rparr>) [] i)"
    using "3.prems" 2(1) ok by (intro "3.IH") simp_all
  then show ?case using 1(1) 2(2) stream_blank [OF 2(1)] by simp
qed simp

section \<open>Errors\<close>

lemma read_until_end:
  "close \<notin> set s \<Longrightarrow> read_until close (pst d q nn c stk s) = Some (False, pst (ext d s) q nn c stk []\<lparr>input := None\<rparr>)"
proof (induction s arbitrary: d)
  case Nil
  show ?case by (subst read_until.simps) (simp add: static_get_def)
next
  case (Cons ch s)
  have "read_until close (pst d q nn c stk (ch # s)) = read_until close (pst (ext d [ch]) q nn c stk s)"
    using Cons.prems by (subst read_until.simps) (auto simp: pst_simps)
  then show ?case using Cons by (simp add: ext_Cons [of d ch s])
qed

lemma open_quote:
  "CHR 0x27 \<notin> set s \<Longrightarrow> \<exists>p. parse_stream fl default_map (pst d q nn c stk (CHR 0x27 # s)) = Some (1, p) \<and> input p = None"
  by (simp add: stream_special parse_special_def read_until_end)

lemma open_brace:
  "CHR ''}'' \<notin> set s \<Longrightarrow> \<exists>p. parse_stream fl default_map (pst d q nn c stk (''${'' @ s)) = Some (1, p) \<and> input p = None"
  by (simp add: stream_special parse_special_def handle_dollar_def pst_simps alpha_facts count_sp_pst read_until_end)

lemma single_pair:
  "ch = CHR ''&'' \<or> ch = CHR ''|'' \<Longrightarrow> clean d \<Longrightarrow> hd s \<noteq> ch \<Longrightarrow>
   parse_stream fl default_map (pst d False False c stk (ch # s)) = Some (1, pst d False False c stk s)"
  by (auto simp: stream_special parse_special_def parse_pair_def done_word_clean)

text \<open>A line that begins with an empty string: the word has no data, and \<open>strcmp\<close> reads the null pointer.\<close>

lemma empty_string_null:
  assumes "ctx_child c = null_child" and "fl AND 2 \<noteq> 0"
  shows "parse_stream fl default_map (pst None False False c stk ([CHR 0x22, CHR 0x22, LF] @ i)) = None"
proof -
  have "parse_stream fl default_map (pst None False False c stk ([CHR 0x22, CHR 0x22, LF] @ i)) =
      parse_stream fl default_map (pst None False True c stk (LF # i))"
    by (simp add: stream_special parse_special_def)
  also have "\<dots> = None"
    unfolding stream_step using assms by (simp add: parse_char_def done_word_def o_text_def reserved_word_def)
  finally show ?thesis .
qed

text \<open>An apostrophe between double quotes opens a single quote.\<close>

lemma apostrophe_in_quotes:
  "\<exists>p. parse_stream fl default_map (pst d False nn c stk (CHR 0x22 # ''it'' @ CHR 0x27 # ''s'' @ [CHR 0x22, LF])) = Some (1, p)"
proof -
  let ?r = "CHR 0x27 # ''s'' @ [CHR 0x22, LF]"
  have t: "\<forall>ch\<in>set ''it''. default_map ch \<le> 2 \<and> ch \<noteq> CHR 0x5C \<and> ch \<noteq> NUL" by (simp add: default_map_def mapset_def)
  have "parse_stream fl default_map (pst d False nn c stk (CHR 0x22 # ''it'' @ ?r)) =
      parse_stream fl default_map (pst d True True c stk (''it'' @ ?r))"
    by (simp add: stream_special parse_special_def)
  then show ?thesis
    using stream_qtext [OF t, of fl d True c stk ?r] open_quote [of "''s'' @ [CHR 0x22, LF]" fl "ext d (qescape ''it'')" True True c stk] by auto
qed

text \<open>A single-quoted word that ends in a backslash: removing the backslashes runs past the end of the word.\<close>

lemma quoted_backslash_overrun:
  assumes "clean d" and "ctx_child c = Child (a # as) [] k"
  shows "parse_stream fl default_map (pst d False False c stk ([CHR 0x27, CHR ''a'', CHR 0x5C, CHR 0x27, LF] @ i)) = None"
proof -
  have "parse_stream fl default_map (pst d False False c stk ([CHR 0x27, CHR ''a'', CHR 0x5C, CHR 0x27, LF] @ i)) =
      parse_stream fl default_map (pst (ext d [CHR ''a'', CHR 0x5C]) False True c stk (LF # i))"
    using read_until_pst [of "CHR 0x27" "[CHR ''a'', CHR 0x5C]" d False True c stk "LF # i"] by (simp add: stream_special parse_special_def)
  also have "\<dots> = None"
    unfolding stream_step using assms by (simp add: parse_char_def done_word_def o_text_ext)
  finally show ?thesis .
qed

section \<open>Properties\<close>

text \<open>
  C2: A line written in the syntax above, with any nesting of \<open>if\<close>, \<open>while\<close>, \<open>until\<close> and \<open>for\<close>, is read as
  the pipes that stand for it: each command with its words, quotes and backslashes removed and
  variables marked and counted, its separator, and the mode of its section; a compound command is a
  child with a group.  The parser returns 0 behind the line, with an empty stack and no open word.
\<close>

theorem parse_stream_correct:
  assumes "fl AND FLAG_PARSE_SEMICOLON \<noteq> 0" and "items_ok its" and "last_seq its"
  shows "\<exists>d. clean d \<and> parse_stream fl default_map
      \<lparr>dest = \<lparr>odata = None, quote = False, nonnull = False\<rparr>, ctx = initialize_context, stack = [], input = Some (print_line its @ rest)\<rparr> =
    Some (0, \<lparr>dest = \<lparr>odata = d, quote = False, nonnull = False\<rparr>,
      ctx = initialize_context\<lparr>ctx_list := pipes_items RES_NONE its\<rparr>, stack = [], input = Some rest\<rparr>)"
proof -
  have "clean None" "ctx_child initialize_context = null_child" "ctx_progs initialize_context = []" "ctx_w initialize_context = RES_NONE"
    by (simp_all add: clean_def initialize_context_def)
  from stream_line [OF assms this, of rest] show ?thesis by (simp add: initialize_context_def)
qed

text \<open>\<open>if a; then b $x; fi\<close>\<close>

theorem parse_stream_correct_witness:
  "\<exists>p. parse_stream 3 default_map
      \<lparr>dest = \<lparr>odata = None, quote = False, nonnull = False\<rparr>, ctx = initialize_context, stack = [], input = Some (''if a; then b $x; fi'' @ [LF])\<rparr> =
    Some (0, p) \<and> ctx_list (ctx p) = [Pipe [Child [] [Pipe [Child [''a''] [] 0] PIPE_SEQ RES_IF,
       Pipe [Child [''b'', [CHR 0x03, CHR ''x'', CHR 0x03]] [] 1] PIPE_SEQ RES_THEN,
       Pipe [] PIPE_SEQ RES_FI, Pipe [] PIPE_NONE RES_NONE] 0] PIPE_SEQ RES_NONE]"
proof -
  let ?a = "Simple [[SText ''a'']]" and ?b = "Simple [[SText ''b''], [SRef False ''x'']]"
  let ?its = "ICons (Comp (SCons RES_IF (ICons ?a PIPE_SEQ INil) (SCons RES_THEN (ICons ?b PIPE_SEQ INil) SNil))) PIPE_SEQ INil"
  have x: "isalnum CHR ''x''" "isalpha CHR ''x''" by (simp_all add: isalnum_def isalpha_def ismask_def ctype_def)
  have ok: "items_ok ?its"
    by (simp add: sword_ok_def plain_text_def no_mark_def word_data_def first_ok_def reserved_list_def ref_ok_def name_char_def x print_word_def end_mode_def)
  have t: "print_line ?its @ [] = ''if a; then b $x; fi'' @ [LF]"
    by (simp add: print_word_def print_ref_def res_word_def end_mode_def sep_def)
  have "pipes_items RES_NONE ?its = [Pipe [Child [] [Pipe [Child [''a''] [] 0] PIPE_SEQ RES_IF,
       Pipe [Child [''b'', [CHR 0x03, CHR ''x'', CHR 0x03]] [] 1] PIPE_SEQ RES_THEN,
       Pipe [] PIPE_SEQ RES_FI, Pipe [] PIPE_NONE RES_NONE] 0] PIPE_SEQ RES_NONE]"
    by (simp add: sword_of_def word_text_def count_refs_def end_mode_def)
  then show ?thesis using parse_stream_correct [of 3 ?its "[]"] ok unfolding t by fastforce
qed

text \<open>
  C34: Errors.  A single quote or a brace that is not closed makes the parser return 1 with the input
  used up past its end; a single \<open>&\<close> or \<open>|\<close> between words makes it return 1; the end of the input makes
  it return -1.
\<close>

theorem parse_stream_errors:
  "(CHR 0x27 \<notin> set s \<longrightarrow> (\<exists>p. parse_stream fl default_map (pst d q nn c stk (CHR 0x27 # s)) = Some (1, p) \<and> input p = None)) \<and>
   (CHR ''}'' \<notin> set s \<longrightarrow> (\<exists>p. parse_stream fl default_map (pst d q nn c stk (''${'' @ s)) = Some (1, p) \<and> input p = None)) \<and>
   (ch \<in> {CHR ''&'', CHR ''|''} \<and> clean d \<and> hd s \<noteq> ch \<longrightarrow>
      parse_stream fl default_map (pst d False False c stk (ch # s)) = Some (1, pst d False False c stk s)) \<and>
   parse_stream fl default_map (pst d q nn c stk []) = Some (- 1, pst d q nn c stk []\<lparr>input := None\<rparr>)"
  using open_quote [of s fl d q nn c stk] open_brace [of s fl d q nn c stk] single_pair [of ch d s fl c stk]
  by (auto simp: parse_stream.simps [of fl default_map "pst d q nn c stk []"] static_get_def)

theorem parse_stream_errors_witness:
  "\<exists>p. parse_stream 3 default_map (pst (Some ''x'') False False initialize_context [] (CHR 0x27 # ''abc'' @ [LF])) = Some (1, p) \<and> input p = None"
  using parse_stream_errors [of "''abc'' @ [LF]" 3 "Some ''x''" False False initialize_context "[]" NUL] by simp

end
