(* ===== verification/HushExec.thy ===== *)
theory HushExec
  imports HushParse
begin

text \<open>
  The \<^verbatim>\<open>hush\<close> shell (\<^verbatim>\<open>common/hush.c\<close>, \<open>__U_BOOT__\<close>): running lists of pipes, and the loop that parses and
  runs a string.  The commands of the table are an argument, \<open>exec\<close>: they are called with the flags,
  \<open>argc\<close>, the array \<open>argv\<close> with its null pointer, and the state of the shell.  What is printed is left
  out.  The functions that call each other are tied together by one recursion, through the loop of
  \<open>run_list_real\<close>; it is shown to be monotone, so that the equations of the code hold without a bound
  on the depth.  \<open>None\<close> is an access through a null pointer or outside an object, or a run that does not end.
\<close>

section \<open>The loop over a string\<close>

definition null_o_string :: o_string where
  "null_o_string = \<lparr>odata = None, quote = False, nonnull = False\<rparr>"

text \<open>
  \<open>parse_stream_outer\<close>, \<open>rl\<close> being \<open>run_list\<close>: one round, with \<open>temp\<close>, the input and \<open>code\<close>, and whether
  there is another.  After a syntax error \<open>inp->p\<close> is the null pointer.
\<close>

definition outer_parse :: "u32 \<Rightarrow> o_string \<Rightarrow> string option \<Rightarrow> shell \<Rightarrow> (int \<times> parser) option" where
  "outer_parse flag temp inp sh = do {
     cmap \<leftarrow> update_ifs_map sh;
     parse_stream flag
       (if flag AND FLAG_PARSE_SEMICOLON = 0 \<or> flag AND FLAG_REPARSING \<noteq> 0 then mapset '';$&|'' 0 cmap else cmap)
       \<lparr>dest = temp, ctx = initialize_context, stack = [], input = inp\<rparr> }"

definition outer_step ::
    "(pipe list \<Rightarrow> shell \<Rightarrow> (int \<times> shell) option) \<Rightarrow> u32 \<Rightarrow> o_string \<Rightarrow> string option \<Rightarrow> int \<Rightarrow> shell \<Rightarrow>
     (bool \<times> o_string \<times> string option \<times> int \<times> shell) option" where
  "outer_step rl flag temp inp code sh = do {
     (rcode, p) \<leftarrow> outer_parse flag temp inp sh;
     let more = (rcode \<noteq> - 1 \<and> flag AND FLAG_EXIT_FROM_LOOP = 0);
     if rcode = 1 \<or> old_flag (ctx p) \<noteq> {}
     then Some (more, b_free (dest p\<lparr>nonnull := False, quote := False\<rparr>), None, code, sh\<lparr>flag_repeat := False\<rparr>)
     else do {
       (_, p) \<leftarrow> done_word flag p;
       (code, sh) \<leftarrow> rl (list_head (done_pipe PIPE_SEQ (ctx p))) sh;
       Some (if code = - 2 then (False, b_free (dest p), input p, 0, sh)
         else (more, b_free (dest p), input p, code, if code = - 1 then sh\<lparr>flag_repeat := False\<rparr> else sh)) } }"

partial_function (option) parse_stream_outer ::
    "(pipe list \<Rightarrow> shell \<Rightarrow> (int \<times> shell) option) \<Rightarrow> u32 \<Rightarrow> o_string \<Rightarrow> string option \<Rightarrow> int \<Rightarrow> shell \<Rightarrow> (int \<times> shell) option" where [code]:
  "parse_stream_outer rl flag temp inp code sh = do {
     (more, temp, inp, code, sh) \<leftarrow> outer_step rl flag temp inp code sh;
     if more then parse_stream_outer rl flag temp inp code sh else Some (if code \<noteq> 0 then 1 else 0, sh) }"

definition parse_string_outer ::
    "(pipe list \<Rightarrow> shell \<Rightarrow> (int \<times> shell) option) \<Rightarrow> string \<Rightarrow> u32 \<Rightarrow> shell \<Rightarrow> (int \<times> shell) option" where
  "parse_string_outer rl s flag sh =
     (if s = [] then Some (1, sh)
      else let t = (if LF \<notin> set s \<or> tl (dropWhile (\<lambda>c. c \<noteq> LF) s) \<noteq> [] then s @ [LF] else s) in
        parse_stream_outer rl flag null_o_string (Some t) 0 sh)"

section \<open>Running a pipe\<close>

abbreviation CMD_FLAG_REPEAT :: u32 where "CMD_FLAG_REPEAT \<equiv> 1"
abbreviation CMD_FLAG_BOOTD :: u32 where "CMD_FLAG_BOOTD \<equiv> 2"

type_synonym executor = "cmd_tbl \<Rightarrow> u32 \<Rightarrow> nat \<Rightarrow> string option list \<Rightarrow> shell \<Rightarrow> (int \<times> shell) option"

text \<open>The assignments in front of a command, with \<open>child->sp\<close>.\<close>

fun prefix_assignments :: "string list \<Rightarrow> int \<Rightarrow> shell \<Rightarrow> (int \<times> shell) option" where
  "prefix_assignments [] n sh = Some (n, sh)"
| "prefix_assignments (a # as) n sh = do {
     (new, p) \<leftarrow> insert_var_value sh a;
     (_, sh) \<leftarrow> set_local_var p 0 sh;
     prefix_assignments as (if new then n - 1 else n) sh }"

text \<open>
  Calling a command: \<open>child->argv\<close> is moved by \<open>i\<close> and \<open>&child->argv[i]\<close> is passed.
\<close>

definition call_command :: "executor \<Rightarrow> cmd_tbl list \<Rightarrow> string list \<Rightarrow> nat \<Rightarrow> shell \<Rightarrow> (int \<times> shell) option" where
  "call_command exec table args i sh =
     (if CHR '';'' \<in> set (args ! i) then Some (- 1, sh)
      else (case find_cmd_tbl (args ! i) table of
          None \<Rightarrow> Some (- 1, sh)
        | Some cmdtp \<Rightarrow>
            let flag = (if do_repeat sh then CMD_FLAG_REPEAT else 0) OR (if is_bootd cmdtp then CMD_FLAG_BOOTD else 0) in
            if length args - i > maxargs cmdtp then Some (- 1, sh)
            else do {
              (rcode, sh) \<leftarrow> exec cmdtp flag (length args - i) (drop i (drop i (map Some args @ [None]))) sh;
              Some (rcode, if repeatable cmdtp then sh else sh\<lparr>flag_repeat := False\<rparr>) }))"

text \<open>A child with arguments: the return code, the child with its \<open>sp\<close>, the state; \<open>pso\<close> is \<open>parse_string_outer\<close>.\<close>

definition run_child ::
    "(string \<Rightarrow> u32 \<Rightarrow> shell \<Rightarrow> (int \<times> shell) option) \<Rightarrow> executor \<Rightarrow> cmd_tbl list \<Rightarrow> string list \<Rightarrow> int \<Rightarrow> shell \<Rightarrow>
     (int \<times> int \<times> shell) option" where
  "run_child pso exec table args n sh =
     (let i = length (takeWhile is_assignment args) in
      if i \<noteq> 0 \<and> i = length args
      then do { (_, sh) \<leftarrow> prefix_assignments args n sh; Some (0, n, sh) }
      else do {
        (n, sh) \<leftarrow> prefix_assignments (take i args) n sh;
        if n \<noteq> 0
        then do {
          str \<leftarrow> make_string sh (drop i args);
          (_, sh) \<leftarrow> pso str (FLAG_EXIT_FROM_LOOP OR FLAG_REPARSING) sh;
          Some (sint (last_return_code sh), n, sh) }
        else do { (rcode, sh) \<leftarrow> call_command exec table args i sh; Some (rcode, n, sh) } })"

text \<open>\<open>rlr\<close> is \<open>run_list_real\<close>; the pipe is returned with its changes.\<close>

definition run_pipe_real ::
    "(pipe list \<Rightarrow> shell \<Rightarrow> (int \<times> pipe list \<times> shell) option) \<Rightarrow> (string \<Rightarrow> u32 \<Rightarrow> shell \<Rightarrow> (int \<times> shell) option) \<Rightarrow> executor \<Rightarrow>
     cmd_tbl list \<Rightarrow> pipe \<Rightarrow> shell \<Rightarrow> (int \<times> pipe \<times> shell) option" where
  "run_pipe_real rlr pso exec table pi sh =
     (case progs pi of
        [Child args g n] \<Rightarrow>
          if g \<noteq> []
          then do { (rcode, g, sh) \<leftarrow> rlr g sh; Some (rcode, Pipe [Child args g n] (followup pi) (r_mode pi), sh) }
          else if args \<noteq> []
          then do { (rcode, n, sh) \<leftarrow> run_child pso exec table args n sh; Some (rcode, Pipe [Child args g n] (followup pi) (r_mode pi), sh) }
          else Some (- 1, pi, sh)
      | _ \<Rightarrow> Some (- 1, pi, sh))"

section \<open>Running a list\<close>

text \<open>
  The locals of \<open>run_list_real\<close>; a pointer to a pipe is an index into the list, and past its end for the
  null pointer.  \<open>list\<close> is what is left of the values of a \<open>for\<close>, \<open>None\<close> for the null pointer.
\<close>

record lstate =
  pipes :: "pipe list"
  cur_pi :: nat
  rpipe :: "nat option"
  flag_rep :: bool
  l_rcode :: int
  flag_skip :: bool
  flag_restore :: bool
  if_code :: int
  next_if_code :: int
  skip_more :: reserved_style
  for_list :: "string list option"
  save_name :: string

definition pipe_argv :: "pipe \<Rightarrow> string list" where
  "pipe_argv p = (case progs p of [] \<Rightarrow> [] | ch # _ \<Rightarrow> argv ch)"

definition set_argv0 :: "string \<Rightarrow> pipe \<Rightarrow> pipe" where
  "set_argv0 v p = (case progs p of
     Child (a # as) g n # ps \<Rightarrow> Pipe (Child (v # as) g n # ps) (followup p) (r_mode p)
   | _ \<Rightarrow> p)"

definition for_syntax_error :: "pipe list \<Rightarrow> bool" where
  "for_syntax_error ps \<longleftrightarrow> (\<exists>i\<in>set [0..<length ps].
     (r_mode (ps ! i) = RES_IN \<or> r_mode (ps ! i) = RES_FOR) \<and> i + 1 = length ps \<or>
     r_mode (ps ! i) = RES_IN \<and> r_mode (ps ! (i + 1)) = RES_IN \<and> pipe_argv (ps ! (i + 1)) \<noteq> [] \<or>
     r_mode (ps ! i) = RES_FOR \<and> r_mode (ps ! (i + 1)) \<noteq> RES_IN)"

datatype verdict = Return int | Break | Continue | Run

text \<open>The head of a \<open>for\<close> loop: whether its body runs, the state.\<close>

definition for_step :: "pipe \<Rightarrow> lstate \<Rightarrow> shell \<Rightarrow> (bool \<times> lstate) option" where
  "for_step p l sh = do {
     nxt \<leftarrow> rd (pipes l) (cur_pi l + 1);
     if for_list l = None \<and> pipe_argv nxt = [] then Some (False, l)
     else do {
       l \<leftarrow> (if for_list l = None
         then do {
           here \<leftarrow> rd (pipe_argv p) 0;
           vs \<leftarrow> make_list_in sh (pipe_argv nxt) here;
           Some (l\<lparr>for_list := Some vs, save_name := here, flag_rep := True\<rparr>) }
         else Some l);
       (case for_list l of
          Some (v # vs) \<Rightarrow> Some (True, l\<lparr>pipes := (pipes l)[cur_pi l := set_argv0 v p], for_list := Some vs\<rparr>)
        | _ \<Rightarrow> Some (False, l\<lparr>pipes := (pipes l)[cur_pi l := set_argv0 (save_name l) p], for_list := None, flag_rep := False\<rparr>)) } }"

text \<open>The body of the loop up to \<open>run_pipe_real\<close>: after the check for Control C, and with it.\<close>

definition list_check :: "pipe \<Rightarrow> lstate \<Rightarrow> shell \<Rightarrow> (verdict \<times> lstate) option" where
  "list_check p l sh =
     (let rmode = r_mode p in
      if rmode = skip_more l \<and> flag_skip l
      then Some (Continue, if followup p = PIPE_SEQ then l\<lparr>flag_skip := False\<rparr> else l)
      else do {
        let l = l\<lparr>flag_skip := True, skip_more := RES_XXXX, if_code := (if rmode = RES_THEN \<or> rmode = RES_ELSE then next_if_code l else if_code l)\<rparr>;
        if rmode = RES_THEN \<and> if_code l \<noteq> 0 \<or> rmode = RES_ELSE \<and> if_code l = 0 then Some (Continue, l)
        else if rmode = RES_ELIF \<and> if_code l = 0 then Some (Break, l)
        else do {
          (body, l) \<leftarrow> (if rmode = RES_FOR \<and> progs p \<noteq> [] then for_step p l sh else Some (True, l));
          if \<not> body \<or> rmode = RES_IN \<or> rmode = RES_DO \<and> \<not> flag_rep l then Some (Continue, l)
          else do {
            let l = (if rmode = RES_DONE then if flag_rep l then l\<lparr>flag_restore := True\<rparr> else l\<lparr>rpipe := None\<rparr> else l);
            Some (if progs p = [] then Continue else Run, l) } } })"

definition list_pre :: "lstate \<Rightarrow> shell \<Rightarrow> (verdict \<times> lstate \<times> shell) option" where
  "list_pre l sh =
     (let p = pipes l ! cur_pi l; loop = (r_mode p = RES_WHILE \<or> r_mode p = RES_UNTIL \<or> r_mode p = RES_FOR);
          sh = (if loop then snd (ctrlc sh) else sh) in
      if loop \<and> had_ctrlc sh then Some (Return 1, l, sh)
      else do {
        let l = (if loop then if rpipe l = None then l\<lparr>flag_restore := False, flag_rep := False, rpipe := Some (cur_pi l)\<rparr>
                 else l\<lparr>flag_restore := False\<rparr> else l);
        (v, l) \<leftarrow> list_check p l sh;
        Some (v, l, sh) })"

text \<open>The body behind it, for a return code that is not below -1.\<close>

definition list_post :: "int \<Rightarrow> lstate \<Rightarrow> lstate" where
  "list_post rcode l =
     (let p = pipes l ! cur_pi l; rmode = r_mode p in
      l\<lparr>l_rcode := rcode,
        next_if_code := (if rmode = RES_IF \<or> rmode = RES_ELIF then rcode else next_if_code l),
        flag_rep := (if rmode = RES_WHILE then rcode = 0 else if rmode = RES_UNTIL then rcode \<noteq> 0 else flag_rep l),
        skip_more := (if rcode = 0 \<and> followup p = PIPE_OR \<or> rcode \<noteq> 0 \<and> followup p = PIPE_AND then rmode else skip_more l)\<rparr>)"

definition list_next :: "lstate \<Rightarrow> lstate" where
  "list_next l = l\<lparr>cur_pi := (if flag_restore l then (case rpipe l of None \<Rightarrow> length (pipes l) | Some i \<Rightarrow> i) else cur_pi l + 1)\<rparr>"

definition list_start :: "pipe list \<Rightarrow> lstate" where
  "list_start ps = \<lparr>pipes = ps, cur_pi = 0, rpipe = None, flag_rep = False, l_rcode = 0, flag_skip = True, flag_restore = False,
     if_code = 0, next_if_code = 0, skip_more = RES_XXXX, for_list = None, save_name = []\<rparr>"

definition return_code :: "int \<Rightarrow> shell \<Rightarrow> shell" where
  "return_code rcode sh = sh\<lparr>last_return_code := (if rcode < - 1 then word_of_int (- rcode - 2) else if rcode = 0 then 0 else 1)\<rparr>"

section \<open>The recursion\<close>

text \<open>
  \<open>run_list_real\<close>, \<open>run_pipe_real\<close> and \<open>parse_string_outer\<close> call each other.  The recursion goes through the
  loop of \<open>run_list_real\<close>; the other functions are monotone in the function they are given.
\<close>

definition below :: "('a \<Rightarrow> 'b \<Rightarrow> 'c option) \<Rightarrow> ('a \<Rightarrow> 'b \<Rightarrow> 'c option) \<Rightarrow> bool" where
  "below f g \<longleftrightarrow> (\<forall>x y r. f x y = Some r \<longrightarrow> g x y = Some r)"

lemma belowD: "below f g \<Longrightarrow> f x y = Some r \<Longrightarrow> g x y = Some r"
  by (simp add: below_def)

lemma outer_step_below:
  assumes b: "below rl rl'" and s: "outer_step rl flag temp inp code sh = Some r"
  shows "outer_step rl' flag temp inp code sh = Some r"
proof -
  obtain rcode p where p: "outer_parse flag temp inp sh = Some (rcode, p)" using s by (auto simp: outer_step_def bind_eq_Some_conv)
  show ?thesis
  proof (cases "rcode = 1 \<or> old_flag (ctx p) \<noteq> {}")
    case True
    then show ?thesis using s by (simp add: outer_step_def p Let_def)
  next
    case False
    then obtain e q where q: "done_word flag p = Some (e, q)" using s by (auto simp: outer_step_def p Let_def bind_eq_Some_conv)
    obtain x where x: "rl (list_head (done_pipe PIPE_SEQ (ctx q))) sh = Some x"
      using s False by (auto simp: outer_step_def p q Let_def bind_eq_Some_conv)
    show ?thesis using s False by (simp add: outer_step_def p q Let_def x belowD [OF b x])
  qed
qed

lemma parse_stream_outer_below:
  assumes b: "below rl rl'" and run: "parse_stream_outer rl flag temp inp code sh = Some r"
  shows "parse_stream_outer rl' flag temp inp code sh = Some r"
proof -
  have "f = rl \<longrightarrow> parse_stream_outer rl' flag temp inp code sh = Some r"
    if "parse_stream_outer f flag temp inp code sh = Some r" for f flag temp inp code sh r
    using that
  proof (rule parse_stream_outer.raw_induct [rotated])
    fix F f flag temp inp code sh r
    assume IH: "\<And>f flag temp inp code sh r. F f flag temp inp code sh = Some r \<Longrightarrow>
        f = rl \<longrightarrow> parse_stream_outer rl' flag temp inp code sh = Some r"
    assume body: "do {
      (more, temp, inp, code, sh) \<leftarrow> outer_step f flag temp inp code sh;
      if more then F f flag temp inp code sh else Some (if code \<noteq> 0 then 1 else 0, sh) } = Some r"
    show "f = rl \<longrightarrow> parse_stream_outer rl' flag temp inp code sh = Some r"
    proof
      assume f: "f = rl"
      obtain more t i c s where x: "outer_step rl flag temp inp code sh = Some (more, t, i, c, s)"
        using body unfolding f bind_eq_Some_conv by (metis prod_cases5)
      note step = parse_stream_outer.simps [of rl' flag temp inp code sh] outer_step_below [OF b x] bind.bind_lunit prod.case
      show "parse_stream_outer rl' flag temp inp code sh = Some r"
        using body IH [of f flag t i c s r] f x unfolding step by (cases more) simp_all
    qed
  qed
  then show ?thesis using run by blast
qed

lemma parse_string_outer_below: "below rl rl' \<Longrightarrow> parse_string_outer rl s flag sh = Some r \<Longrightarrow> parse_string_outer rl' s flag sh = Some r"
  unfolding parse_string_outer_def Let_def by (cases "s = []") (simp_all add: parse_stream_outer_below)

lemma run_child_below:
  assumes b: "\<And>s flag sh r. pso s flag sh = Some r \<Longrightarrow> pso' s flag sh = Some r" and run: "run_child pso exec table args n sh = Some r"
  shows "run_child pso' exec table args n sh = Some r"
proof -
  define i where "i = length (takeWhile is_assignment args)"
  show ?thesis
  proof (cases "i \<noteq> 0 \<and> i = length args")
    case True
    have r: "run_child pso exec table args n sh = do { (_, sh) \<leftarrow> prefix_assignments args n sh; Some (0, n, sh) }" for pso
      unfolding run_child_def Let_def i_def [symmetric] by (rule if_P [OF True])
    show ?thesis using run unfolding r .
  next
    case False
    have r: "run_child pso exec table args n sh = do {
        (n, sh) \<leftarrow> prefix_assignments (take i args) n sh;
        if n \<noteq> 0
        then do {
          str \<leftarrow> make_string sh (drop i args);
          (_, sh) \<leftarrow> pso str (FLAG_EXIT_FROM_LOOP OR FLAG_REPARSING) sh;
          Some (sint (last_return_code sh), n, sh) }
        else do { (rcode, sh) \<leftarrow> call_command exec table args i sh; Some (rcode, n, sh) } }" for pso
      using False by (auto simp: run_child_def Let_def i_def [symmetric])
    obtain n1 sh1 where 1: "prefix_assignments (take i args) n sh = Some (n1, sh1)" using run unfolding r by (auto simp: bind_eq_Some_conv)
    show ?thesis
    proof (cases "n1 = 0")
      case True
      then show ?thesis using run unfolding r 1 by simp
    next
      case nz: False
      obtain str where 2: "make_string sh1 (drop i args) = Some str" using run nz unfolding r 1 by (auto simp: bind_eq_Some_conv)
      obtain x where 3: "pso str (FLAG_EXIT_FROM_LOOP OR FLAG_REPARSING) sh1 = Some x" using run nz unfolding r 1 by (auto simp: 2 bind_eq_Some_conv)
      show ?thesis using run nz b [OF 3] unfolding r 1 by (simp add: 2 3 [simplified])
    qed
  qed
qed

lemma run_pipe_real_below:
  assumes "below rlr rlr'" and "\<And>s flag sh r. pso s flag sh = Some r \<Longrightarrow> pso' s flag sh = Some r"
    and run: "run_pipe_real rlr pso exec table pi sh = Some r"
  shows "run_pipe_real rlr' pso' exec table pi sh = Some r"
proof (cases "\<exists>args g n. progs pi = [Child args g n]")
  case True
  then obtain args g n where p: "progs pi = [Child args g n]" by blast
  show ?thesis
  proof (cases "g = []")
    case False
    then obtain x where x: "rlr g sh = Some x" using run by (auto simp: run_pipe_real_def p bind_eq_Some_conv)
    then show ?thesis using run False by (simp add: run_pipe_real_def p belowD [OF assms(1) x])
  next
    case g: True
    show ?thesis
    proof (cases "args = []")
      case False
      then obtain x where x: "run_child pso exec table args n sh = Some x" using run g by (auto simp: run_pipe_real_def p bind_eq_Some_conv)
      from run_child_below [OF assms(2) x] show ?thesis using run False g x by (simp add: run_pipe_real_def p)
    qed (use run g in \<open>simp add: run_pipe_real_def p\<close>)
  qed
next
  case False
  then show ?thesis using run by (auto simp: run_pipe_real_def split: list.splits child_prog.splits)
qed

text \<open>
  \<open>run_list_real\<close> on top of its loop \<open>f\<close>, \<open>run_list\<close>, which frees the pipes, and a pipe whose parts run
  with them.
\<close>

definition run_list_real_with :: "(lstate \<Rightarrow> shell \<Rightarrow> (int \<times> pipe list \<times> shell) option) \<Rightarrow> pipe list \<Rightarrow> shell \<Rightarrow> (int \<times> pipe list \<times> shell) option" where
  "run_list_real_with f ps sh = (if for_syntax_error ps then Some (1, ps, sh\<lparr>flag_repeat := False\<rparr>) else f (list_start ps) sh)"

definition run_list_with :: "(lstate \<Rightarrow> shell \<Rightarrow> (int \<times> pipe list \<times> shell) option) \<Rightarrow> pipe list \<Rightarrow> shell \<Rightarrow> (int \<times> shell) option" where
  "run_list_with f ps sh = do { (rcode, _, sh) \<leftarrow> run_list_real_with f ps sh; Some (rcode, sh) }"

definition run_pipe_with :: "executor \<Rightarrow> cmd_tbl list \<Rightarrow> (lstate \<Rightarrow> shell \<Rightarrow> (int \<times> pipe list \<times> shell) option) \<Rightarrow> pipe \<Rightarrow> shell \<Rightarrow>
    (int \<times> pipe \<times> shell) option" where
  "run_pipe_with exec table f = run_pipe_real (run_list_real_with f) (parse_string_outer (run_list_with f)) exec table"

lemma run_pipe_with_below:
  assumes "below f g" and "run_pipe_with exec table f p sh = Some r"
  shows "run_pipe_with exec table g p sh = Some r"
proof -
  have r: "below (run_list_real_with f) (run_list_real_with g)"
    using assms(1) by (auto simp: below_def run_list_real_with_def)
  then have l: "below (run_list_with f) (run_list_with g)"
    by (fastforce simp: below_def run_list_with_def bind_eq_Some_conv)
  show ?thesis
    unfolding run_pipe_with_def
  proof (rule run_pipe_real_below [OF r])
    show "parse_string_outer (run_list_with g) s flag sh = Some r"
      if "parse_string_outer (run_list_with f) s flag sh = Some r" for s flag sh r
      using parse_string_outer_below [OF l that] .
    show "run_pipe_real (run_list_real_with f) (parse_string_outer (run_list_with f)) exec table p sh = Some r"
      using assms(2) by (simp add: run_pipe_with_def)
  qed
qed

lemma run_pipe_with_mono [partial_function_mono]:
  assumes "\<And>l sh. mono_option (\<lambda>f. B l sh f)"
  shows "mono_option (\<lambda>f. run_pipe_with exec table (\<lambda>l sh. B l sh f) p sh)"
proof (rule monotoneI)
  fix f g :: "'a \<Rightarrow> 'b option"
  assume "fun_ord option_ord f g"
  then have le: "option_ord (B l sh f) (B l sh g)" for l sh
    using assms [of l sh] by (simp add: monotone_def)
  have b: "below (\<lambda>l sh. B l sh f) (\<lambda>l sh. B l sh g)"
    unfolding below_def
  proof (intro allI impI)
    fix x y r assume "B x y f = Some r"
    then show "B x y g = Some r" using le [of x y] by (simp add: flat_ord_def)
  qed
  show "option_ord (run_pipe_with exec table (\<lambda>l sh. B l sh f) p sh) (run_pipe_with exec table (\<lambda>l sh. B l sh g) p sh)"
    by (cases "run_pipe_with exec table (\<lambda>l sh. B l sh f) p sh") (simp_all add: flat_ord_def run_pipe_with_below [OF b])
qed

text \<open>The loop of \<open>run_list_real\<close>: the return code, the pipes, the state.\<close>

partial_function (option) list_loop :: "executor \<Rightarrow> cmd_tbl list \<Rightarrow> lstate \<Rightarrow> shell \<Rightarrow> (int \<times> pipe list \<times> shell) option" where [code]:
  "list_loop exec table l sh =
     (if length (pipes l) \<le> cur_pi l then Some (l_rcode l, pipes l, sh)
      else do {
        (v, l, sh) \<leftarrow> list_pre l sh;
        (case v of
           Return r \<Rightarrow> Some (r, pipes l, sh)
         | Break \<Rightarrow> Some (l_rcode l, pipes l, sh)
         | Continue \<Rightarrow> list_loop exec table (list_next l) sh
         | Run \<Rightarrow> do {
             (rcode, pi, sh) \<leftarrow> run_pipe_with exec table (list_loop exec table) (pipes l ! cur_pi l) sh;
             let l = l\<lparr>pipes := (pipes l)[cur_pi l := pi]\<rparr>; sh = return_code rcode sh in
             if rcode < - 1 then Some (- 2, pipes l, sh) else list_loop exec table (list_next (list_post rcode l)) sh }) })"

definition run_list_real :: "executor \<Rightarrow> cmd_tbl list \<Rightarrow> pipe list \<Rightarrow> shell \<Rightarrow> (int \<times> pipe list \<times> shell) option" where
  "run_list_real exec table = run_list_real_with (list_loop exec table)"

definition run_list :: "executor \<Rightarrow> cmd_tbl list \<Rightarrow> pipe list \<Rightarrow> shell \<Rightarrow> (int \<times> shell) option" where
  "run_list exec table = run_list_with (list_loop exec table)"

definition run_pipe :: "executor \<Rightarrow> cmd_tbl list \<Rightarrow> pipe \<Rightarrow> shell \<Rightarrow> (int \<times> pipe \<times> shell) option" where
  "run_pipe exec table = run_pipe_with exec table (list_loop exec table)"

text \<open>\<open>parse_string_outer\<close> as the rest of the program calls it.\<close>

definition hush_run :: "executor \<Rightarrow> cmd_tbl list \<Rightarrow> string \<Rightarrow> u32 \<Rightarrow> shell \<Rightarrow> (int \<times> shell) option" where
  "hush_run exec table = parse_string_outer (run_list exec table)"

text \<open>The command \<open>run\<close> (\<^verbatim>\<open>common/main.c\<close>, with \<open>CONFIG_SYS_HUSH_PARSER\<close>).\<close>

fun run_vars :: "executor \<Rightarrow> cmd_tbl list \<Rightarrow> string list \<Rightarrow> shell \<Rightarrow> (int \<times> shell) option" where
  "run_vars exec table [] sh = Some (0, sh)"
| "run_vars exec table (name # names) sh = do {
     arg \<leftarrow> env_lookup (sh_env sh) name;
     (case arg of
        None \<Rightarrow> Some (1, sh)
      | Some s \<Rightarrow> do {
          (rcode, sh) \<leftarrow> hush_run exec table s (FLAG_PARSE_SEMICOLON OR FLAG_EXIT_FROM_LOOP) sh;
          if rcode \<noteq> 0 then Some (1, sh) else run_vars exec table names sh }) }"

definition hush_do_run :: "executor \<Rightarrow> cmd_tbl list \<Rightarrow> string list \<Rightarrow> shell \<Rightarrow> (int \<times> shell) option" where
  "hush_do_run exec table args sh = (if length args < 2 then Some (1, sh) else run_vars exec table (tl args) sh)"

end
