(* ===== verification/HushRun.thy ===== *)
theory HushRun
  imports HushExec
begin

text \<open>
  What the lists of pipes of the \<^verbatim>\<open>hush\<close> shell do: a semantics on the syntax of commands that the parser
  reads, and the proof that \<open>run_list_real\<close> (\<^verbatim>\<open>common/hush.c\<close>) follows it; loops that get nearer to their
  end do end.
\<close>

section \<open>What commands do\<close>

text \<open>
  A semantics on the syntax of commands.  \<open>Code r\<close> is the return code of the last command,
  \<open>Exit\<close> the end of the script.  Runs that Control C stops at the head of a loop have no derivation.
\<close>

datatype outcome = Code int | Exit

fun code_of :: "outcome \<Rightarrow> int" where
  "code_of (Code r) = r"
| "code_of Exit = - 2"

definition head_modes :: "reserved_style set" where "head_modes = {RES_WHILE, RES_UNTIL, RES_FOR}"

definition poll :: "reserved_style \<Rightarrow> shell \<Rightarrow> shell option" where
  "poll m sh = (if m \<in> head_modes then let sh = snd (ctrlc sh) in if had_ctrlc sh then None else Some sh else Some sh)"

text \<open>Behind a failing \<open>&&\<close> or a succeeding \<open>||\<close>, everything up to the next semicolon is left out.\<close>

fun skip_items :: "reserved_style \<Rightarrow> items \<Rightarrow> shell \<Rightarrow> (items \<times> shell) option" where
  "skip_items m INil sh = Some (INil, sh)"
| "skip_items m (ICons s st its) sh = do {
     sh \<leftarrow> poll m sh;
     if st = PIPE_SEQ then Some (its, sh) else skip_items m its sh }"

definition chain_stops :: "int \<Rightarrow> pipe_style \<Rightarrow> bool" where
  "chain_stops rc st \<longleftrightarrow> rc = 0 \<and> st = PIPE_OR \<or> rc \<noteq> 0 \<and> st = PIPE_AND"

definition after_item :: "reserved_style \<Rightarrow> int \<Rightarrow> pipe_style \<Rightarrow> items \<Rightarrow> shell \<Rightarrow> (items \<times> shell) option" where
  "after_item m rc st its sh = (if chain_stops rc st then skip_items m its sh else Some (its, sh))"

definition simple_run :: "executor \<Rightarrow> cmd_tbl list \<Rightarrow> spart list list \<Rightarrow> shell \<Rightarrow> (int \<times> shell) option" where
  "simple_run exec table ws sh = do {
     (rc, _, sh) \<leftarrow> run_child (hush_run exec table) exec table (argv (simple_child ws)) (sp (simple_child ws)) sh;
     Some (rc, sh) }"

definition assign_word :: "string \<Rightarrow> shell \<Rightarrow> shell option" where
  "assign_word s sh = do { (_, p) \<leftarrow> insert_var_value sh s; (_, sh) \<leftarrow> set_local_var p 0 sh; Some sh }"

inductive stmt_runs :: "executor \<Rightarrow> cmd_tbl list \<Rightarrow> stmt \<Rightarrow> shell \<Rightarrow> int \<Rightarrow> shell \<Rightarrow> bool"
  and items_run :: "executor \<Rightarrow> cmd_tbl list \<Rightarrow> reserved_style \<Rightarrow> items \<Rightarrow> int \<Rightarrow> shell \<Rightarrow> outcome \<Rightarrow> shell \<Rightarrow> bool"
  and if_runs :: "executor \<Rightarrow> cmd_tbl list \<Rightarrow> secs \<Rightarrow> int \<Rightarrow> shell \<Rightarrow> outcome \<Rightarrow> shell \<Rightarrow> bool"
  and loop_runs :: "executor \<Rightarrow> cmd_tbl list \<Rightarrow> reserved_style \<Rightarrow> items \<Rightarrow> items \<Rightarrow> int \<Rightarrow> shell \<Rightarrow> outcome \<Rightarrow> shell \<Rightarrow> bool"
  and for_runs :: "executor \<Rightarrow> cmd_tbl list \<Rightarrow> string list \<Rightarrow> items \<Rightarrow> int \<Rightarrow> shell \<Rightarrow> outcome \<Rightarrow> shell \<Rightarrow> bool"
  for exec table where
  simple: "simple_run exec table ws sh = Some (rc, sh') \<Longrightarrow> stmt_runs exec table (Simple ws) sh rc sh'"
| if_exit: "items_run exec table RES_IF its 0 sh Exit sh' \<Longrightarrow> stmt_runs exec table (Comp (SCons RES_IF its ss)) sh (- 2) sh'"
| if_code: "items_run exec table RES_IF its 0 sh (Code r) sh1 \<Longrightarrow> if_runs exec table ss r sh1 out sh' \<Longrightarrow>
    stmt_runs exec table (Comp (SCons RES_IF its ss)) sh (code_of out) sh'"
| loop: "m = RES_WHILE \<or> m = RES_UNTIL \<Longrightarrow> loop_runs exec table m its body 0 sh out sh' \<Longrightarrow>
    stmt_runs exec table (Comp (SCons m its (SCons RES_DO body SNil))) sh (code_of out) sh'"
| for_none: "poll RES_FOR sh = Some sh' \<Longrightarrow> stmt_runs exec table (For x [] its) sh 0 sh'"
| for_some: "ws \<noteq> [] \<Longrightarrow> poll RES_FOR sh = Some sh1 \<Longrightarrow> make_list_in sh1 (argv (simple_child ws)) x = Some vs \<Longrightarrow>
    for_runs exec table vs its 0 sh1 out sh' \<Longrightarrow> stmt_runs exec table (For x ws its) sh (code_of out) sh'"
| nil: "items_run exec table m INil r sh (Code r) sh"
| cons_exit: "poll m sh = Some sh1 \<Longrightarrow> stmt_runs exec table s sh1 rc sh2 \<Longrightarrow> rc < - 1 \<Longrightarrow>
    items_run exec table m (ICons s st its) r sh Exit (return_code rc sh2)"
| cons: "poll m sh = Some sh1 \<Longrightarrow> stmt_runs exec table s sh1 rc sh2 \<Longrightarrow> - 1 \<le> rc \<Longrightarrow>
    after_item m rc st its (return_code rc sh2) = Some (its', sh3) \<Longrightarrow> items_run exec table m its' rc sh3 out sh' \<Longrightarrow>
    items_run exec table m (ICons s st its) r sh out sh'"
| then_run: "items_run exec table RES_THEN its 0 sh out sh' \<Longrightarrow> if_runs exec table (SCons RES_THEN its ss) 0 sh out sh'"
| then_end: "r \<noteq> 0 \<Longrightarrow> if_runs exec table (SCons RES_THEN its SNil) r sh (Code r) sh"
| then_else: "r \<noteq> 0 \<Longrightarrow> items_run exec table RES_ELSE its' r sh out sh' \<Longrightarrow>
    if_runs exec table (SCons RES_THEN its (SCons RES_ELSE its' SNil)) r sh out sh'"
| then_elif_exit: "r \<noteq> 0 \<Longrightarrow> items_run exec table RES_ELIF its' r sh Exit sh' \<Longrightarrow>
    if_runs exec table (SCons RES_THEN its (SCons RES_ELIF its' ss)) r sh Exit sh'"
| then_elif: "r \<noteq> 0 \<Longrightarrow> items_run exec table RES_ELIF its' r sh (Code r1) sh1 \<Longrightarrow> if_runs exec table ss r1 sh1 out sh' \<Longrightarrow>
    if_runs exec table (SCons RES_THEN its (SCons RES_ELIF its' ss)) r sh out sh'"
| head_exit: "items_run exec table m its r sh Exit sh' \<Longrightarrow> loop_runs exec table m its body r sh Exit sh'"
| head_stop: "items_run exec table m its r sh (Code r1) sh' \<Longrightarrow> r1 = 0 \<longleftrightarrow> m = RES_UNTIL \<Longrightarrow>
    loop_runs exec table m its body r sh (Code r1) sh'"
| body_exit: "items_run exec table m its r sh (Code r1) sh1 \<Longrightarrow> r1 = 0 \<longleftrightarrow> m = RES_WHILE \<Longrightarrow>
    items_run exec table RES_DO body r1 sh1 Exit sh' \<Longrightarrow> loop_runs exec table m its body r sh Exit sh'"
| body_code: "items_run exec table m its r sh (Code r1) sh1 \<Longrightarrow> r1 = 0 \<longleftrightarrow> m = RES_WHILE \<Longrightarrow>
    items_run exec table RES_DO body r1 sh1 (Code r2) sh2 \<Longrightarrow> loop_runs exec table m its body r2 sh2 out sh' \<Longrightarrow>
    loop_runs exec table m its body r sh out sh'"
| for_end: "for_runs exec table [] its r sh (Code r) sh"
| for_exit: "assign_word v sh = Some sh1 \<Longrightarrow> items_run exec table RES_DO its 0 (return_code 0 sh1) Exit sh' \<Longrightarrow>
    for_runs exec table (v # vs) its r sh Exit sh'"
| for_next: "assign_word v sh = Some sh1 \<Longrightarrow> items_run exec table RES_DO its 0 (return_code 0 sh1) (Code r1) sh2 \<Longrightarrow>
    poll RES_FOR sh2 = Some sh3 \<Longrightarrow> for_runs exec table vs its r1 sh3 out sh' \<Longrightarrow>
    for_runs exec table (v # vs) its r sh out sh'"

text \<open>
  Simple commands that leave \<open>child->sp\<close> as it is: only assignments, or no variable in the assignments in
  front of the command.  The variable of a \<open>for\<close> has a name that can be assigned to.
\<close>

definition words_fixed :: "spart list list \<Rightarrow> bool" where
  "words_fixed ws \<longleftrightarrow> (let as = takeWhile (\<lambda>w. is_assignment (word_text (sword_of w))) ws in
     as = ws \<or> list_all (\<lambda>w. SPECIAL_VAR_SYMBOL \<notin> set (word_text (sword_of w))) as)"

fun stmt_fixed :: "stmt \<Rightarrow> bool" and items_fixed :: "items \<Rightarrow> bool" and secs_fixed :: "secs \<Rightarrow> bool" where
  "stmt_fixed (Simple ws) = words_fixed ws"
| "stmt_fixed (Comp ss) = secs_fixed ss"
| "stmt_fixed (For x ws its) = (list_all name_char x \<and> items_fixed its)"
| "items_fixed INil = True"
| "items_fixed (ICons s st its) = (stmt_fixed s \<and> items_fixed its)"
| "secs_fixed SNil = True"
| "secs_fixed (SCons m its ss) = (items_fixed its \<and> secs_fixed ss)"

section \<open>Steps of the loop\<close>

text \<open>The pipes from index \<open>k\<close> on begin with \<open>xs\<close>.\<close>

definition part :: "pipe list \<Rightarrow> nat \<Rightarrow> pipe list \<Rightarrow> bool" where
  "part ps k xs \<longleftrightarrow> k + length xs \<le> length ps \<and> (\<forall>i<length xs. ps ! (k + i) = xs ! i)"

lemma part_Cons: "part ps k (x # xs) \<longleftrightarrow> k < length ps \<and> ps ! k = x \<and> part ps (k + 1) xs"
  by (auto simp: part_def All_less_Suc2)

lemma part_append: "part ps k (xs @ ys) \<longleftrightarrow> part ps k xs \<and> part ps (k + length xs) ys"
proof
  assume l: "part ps k (xs @ ys)"
  have "ps ! (k + length xs + i) = ys ! i" if "i < length ys" for i
    using l that unfolding part_def by (metis add.assoc length_append nat_add_left_cancel_less nth_append_length_plus)
  then show "part ps k xs \<and> part ps (k + length xs) ys" using l by (auto simp: part_def nth_append)
next
  assume r: "part ps k xs \<and> part ps (k + length xs) ys"
  have "ps ! (k + i) = (xs @ ys) ! i" if "i < length (xs @ ys)" for i
  proof (cases "i < length xs")
    case False
    then have "ps ! (k + length xs + (i - length xs)) = ys ! (i - length xs)" using r that unfolding part_def by (intro r [THEN conjunct2, unfolded part_def, THEN conjunct2, rule_format]) auto
    then show ?thesis using False by (simp add: nth_append)
  qed (use r in \<open>auto simp: part_def nth_append\<close>)
  then show "part ps k (xs @ ys)" using r by (auto simp: part_def)
qed

lemma part_Nil [simp]: "part ps k [] \<longleftrightarrow> k \<le> length ps"
  by (simp add: part_def)

lemma part_all: "part ps 0 ps" by (simp add: part_def)

text \<open>Nothing is left out and no loop is restarted.\<close>

definition fresh :: "lstate \<Rightarrow> bool" where
  "fresh l \<longleftrightarrow> flag_skip l \<and> skip_more l = RES_XXXX \<and> \<not> flag_restore l \<and> (\<forall>p\<in>set (pipes l). r_mode p \<noteq> RES_XXXX)"

definition item_modes :: "reserved_style set" where
  "item_modes = {RES_NONE, RES_IF, RES_THEN, RES_ELIF, RES_ELSE, RES_WHILE, RES_UNTIL, RES_DO}"

definition active :: "reserved_style \<Rightarrow> lstate \<Rightarrow> bool" where
  "active m l \<longleftrightarrow> (m = RES_THEN \<longrightarrow> next_if_code l = 0) \<and> (m = RES_ELSE \<longrightarrow> next_if_code l \<noteq> 0) \<and>
     (m = RES_ELIF \<longrightarrow> if_code l \<noteq> 0) \<and> (m = RES_DO \<longrightarrow> flag_rep l)"

text \<open>The state behind \<open>n\<close> commands of a section that ended with \<open>r\<close>.\<close>

definition moved :: "reserved_style \<Rightarrow> nat \<Rightarrow> int \<Rightarrow> lstate \<Rightarrow> lstate" where
  "moved m n r l = l\<lparr>cur_pi := cur_pi l + n, l_rcode := r,
     rpipe := (if m = RES_WHILE \<or> m = RES_UNTIL then Some (case rpipe l of None \<Rightarrow> cur_pi l | Some k \<Rightarrow> k) else rpipe l),
     flag_rep := (if m = RES_WHILE then r = 0 else if m = RES_UNTIL then r \<noteq> 0 else flag_rep l),
     if_code := (if m = RES_THEN \<or> m = RES_ELSE then next_if_code l else if_code l),
     next_if_code := (if m = RES_IF \<or> m = RES_ELIF then r else next_if_code l)\<rparr>"

lemma moved_moved: "moved m n' r' (moved m n r l) = moved m (n + n') r' l"
  by (cases "rpipe l") (auto simp: moved_def)

lemma moved_facts:
  "fresh (moved m n r l) = fresh l" "m \<in> item_modes \<Longrightarrow> active m l \<Longrightarrow> active m (moved m n r l)" "pipes (moved m n r l) = pipes l"
  "cur_pi (moved m n r l) = cur_pi l + n" "l_rcode (moved m n r l) = r" "for_list (moved m n r l) = for_list l"
  "save_name (moved m n r l) = save_name l"
  by (auto simp: moved_def fresh_def active_def item_modes_def)

lemma poll_head: "poll m sh = Some sh1 \<Longrightarrow> m = RES_WHILE \<or> m = RES_UNTIL \<or> m = RES_FOR \<Longrightarrow> snd (ctrlc sh) = sh1 \<and> \<not> had_ctrlc sh1"
  by (auto simp: poll_def head_modes_def Let_def split: if_splits)

lemma poll_other: "poll m sh = Some sh1 \<Longrightarrow> \<not> (m = RES_WHILE \<or> m = RES_UNTIL \<or> m = RES_FOR) \<Longrightarrow> sh1 = sh"
  by (auto simp: poll_def head_modes_def Let_def split: if_splits)

text \<open>The state behind the head of the loop body.\<close>

definition opened :: "reserved_style \<Rightarrow> lstate \<Rightarrow> lstate" where
  "opened m l = (if m \<in> head_modes
     then if rpipe l = None then l\<lparr>flag_restore := False, flag_rep := False, rpipe := Some (cur_pi l)\<rparr> else l\<lparr>flag_restore := False\<rparr>
     else l)"

lemma list_pre_poll:
  assumes "poll (r_mode (pipes l ! cur_pi l)) sh = Some sh1"
  shows "list_pre l sh = do {
    (v, l) \<leftarrow> list_check (pipes l ! cur_pi l) (opened (r_mode (pipes l ! cur_pi l)) l) sh1; Some (v, l, sh1) }"
proof (cases "r_mode (pipes l ! cur_pi l) \<in> head_modes")
  case True
  then have h: "r_mode (pipes l ! cur_pi l) = RES_WHILE \<or> r_mode (pipes l ! cur_pi l) = RES_UNTIL \<or> r_mode (pipes l ! cur_pi l) = RES_FOR"
    by (simp add: head_modes_def)
  show ?thesis using h poll_head [OF assms h] True by (simp add: list_pre_def Let_def opened_def)
next
  case False
  then have h: "\<not> (r_mode (pipes l ! cur_pi l) = RES_WHILE \<or> r_mode (pipes l ! cur_pi l) = RES_UNTIL \<or> r_mode (pipes l ! cur_pi l) = RES_FOR)"
    by (simp add: head_modes_def)
  show ?thesis using h poll_other [OF assms h] False by (simp add: list_pre_def Let_def opened_def)
qed

lemma check_run:
  assumes "skip_more l = RES_XXXX" and "active m l" and "m \<in> item_modes"
  shows "list_check (Pipe [ch] st m) l sh =
    Some (Run, l\<lparr>flag_skip := True, skip_more := RES_XXXX, if_code := (if m = RES_THEN \<or> m = RES_ELSE then next_if_code l else if_code l)\<rparr>)"
  using assms(3,1,2) unfolding item_modes_def by (elim insertE emptyE) (simp_all add: list_check_def Let_def active_def)

lemma fresh_same: "fresh l \<Longrightarrow> l\<lparr>flag_skip := True, skip_more := RES_XXXX\<rparr> = l"
  by (cases l) (simp add: fresh_def)

lemma list_step:
  assumes "cur_pi l < length (pipes l)" and "list_pre l sh = Some (v, l', sh')"
  shows "list_loop exec table l sh = (case v of
           Return r \<Rightarrow> Some (r, pipes l', sh')
         | Break \<Rightarrow> Some (l_rcode l', pipes l', sh')
         | Continue \<Rightarrow> list_loop exec table (list_next l') sh'
         | Run \<Rightarrow> do {
             (rcode, pi, sh) \<leftarrow> run_pipe exec table (pipes l' ! cur_pi l') sh';
             let l = l'\<lparr>pipes := (pipes l')[cur_pi l' := pi]\<rparr>; sh = return_code rcode sh in
             if rcode < - 1 then Some (- 2, pipes l, sh) else list_loop exec table (list_next (list_post rcode l)) sh })"
  using assms(1) by (subst list_loop.simps) (simp add: assms(2) run_pipe_def cong: verdict.case_cong)

lemma list_end: "length (pipes l) \<le> cur_pi l \<Longrightarrow> list_loop exec table l sh = Some (l_rcode l, pipes l, sh)"
  by (subst list_loop.simps) simp

lemma opened_facts [simp]:
  "pipes (opened m l) = pipes l" "cur_pi (opened m l) = cur_pi l" "skip_more (opened m l) = skip_more l" "flag_skip (opened m l) = flag_skip l"
  "l_rcode (opened m l) = l_rcode l" "next_if_code (opened m l) = next_if_code l" "if_code (opened m l) = if_code l"
  "for_list (opened m l) = for_list l" "save_name (opened m l) = save_name l"
  by (simp_all add: opened_def)

lemma opened_active: "m \<in> item_modes \<Longrightarrow> active m l \<Longrightarrow> active m (opened m l)"
  by (auto simp: active_def opened_def head_modes_def)

text \<open>A command that runs.\<close>

lemma same_pipes: "l\<lparr>pipes := (pipes l)[cur_pi l := pipes l ! cur_pi l]\<rparr> = l"
  by (cases l) simp

lemma run_state:
  assumes "fresh l" and "m \<in> item_modes" and "pipes l ! cur_pi l = Pipe [ch] st m"
  shows "list_next (list_post rc ((opened m l)\<lparr>flag_skip := True, skip_more := RES_XXXX,
      if_code := (if m = RES_THEN \<or> m = RES_ELSE then next_if_code l else if_code l)\<rparr>)) =
    (moved m 1 rc l)\<lparr>skip_more := if chain_stops rc st then m else RES_XXXX\<rparr>"
proof -
  have f: "flag_skip l" "\<not> flag_restore l" using assms(1) by (simp_all add: fresh_def)
  have r: "flag_restore (opened m l) = False" using f by (simp add: opened_def)
  show ?thesis
    by (rule lstate.equality) (use assms(2) f in \<open>simp_all add: list_next_def list_post_def moved_def r assms(3) chain_stops_def Let_def\<close>;
      auto simp: opened_def head_modes_def item_modes_def)+
qed

lemma run_step:
  assumes l: "fresh l" "active m l" "m \<in> item_modes" and p: "cur_pi l < length (pipes l)" "pipes l ! cur_pi l = Pipe [ch] st m"
    and poll: "poll m sh = Some sh1" and run: "run_pipe exec table (Pipe [ch] st m) sh1 = Some (rc, pi, sh2)"
  shows "rc < - 1 \<Longrightarrow> \<exists>ps. list_loop exec table l sh = Some (- 2, ps, return_code rc sh2)"
    and "- 1 \<le> rc \<Longrightarrow> pi = Pipe [ch] st m \<Longrightarrow>
      list_loop exec table l sh = list_loop exec table ((moved m 1 rc l)\<lparr>skip_more := if chain_stops rc st then m else RES_XXXX\<rparr>) (return_code rc sh2)"
proof -
  let ?l = "(opened m l)\<lparr>flag_skip := True, skip_more := RES_XXXX,
      if_code := (if m = RES_THEN \<or> m = RES_ELSE then next_if_code l else if_code l)\<rparr>"
  have "list_check (Pipe [ch] st m) (opened m l) sh1 = Some (Run, ?l)"
    using check_run [OF _ opened_active [OF l(3,2)] l(3)] l(1) by (simp add: fresh_def)
  then have "list_pre l sh = Some (Run, ?l, sh1)" using list_pre_poll [of l sh sh1] poll p(2) by simp
  note s = list_step [OF p(1) this, of exec table]
  have upd: "?l\<lparr>pipes := (pipes l)[cur_pi l := Pipe [ch] st m]\<rparr> = ?l" using p(2) same_pipes [of ?l] by simp
  show "rc < - 1 \<Longrightarrow> \<exists>ps. list_loop exec table l sh = Some (- 2, ps, return_code rc sh2)"
    using s by (simp add: p(2) run)
  show "- 1 \<le> rc \<Longrightarrow> pi = Pipe [ch] st m \<Longrightarrow>
      list_loop exec table l sh = list_loop exec table ((moved m 1 rc l)\<lparr>skip_more := if chain_stops rc st then m else RES_XXXX\<rparr>) (return_code rc sh2)"
    using s unfolding run_state [OF l(1,3) p(2), symmetric] by (simp add: p(2) run upd)
qed

text \<open>A command that is left out.\<close>

lemma skip_step:
  assumes "flag_skip l" "skip_more l = m" "\<not> flag_restore l" and r: "m \<in> head_modes \<Longrightarrow> rpipe l \<noteq> None"
    and p: "cur_pi l < length (pipes l)" "pipes l ! cur_pi l = Pipe [ch] st m" and poll: "poll m sh = Some sh1"
  shows "list_loop exec table l sh = list_loop exec table (l\<lparr>cur_pi := cur_pi l + 1, flag_skip := st \<noteq> PIPE_SEQ\<rparr>) sh1"
proof -
  have o1: "opened m l = l" using r assms(3) by (cases l) (auto simp: opened_def)
  have "list_pre l sh = Some (Continue, if st = PIPE_SEQ then l\<lparr>flag_skip := False\<rparr> else l, sh1)"
    using list_pre_poll [of l sh sh1] poll p(2) assms(1,2) by (simp add: o1 list_check_def)
  note s = list_step [OF p(1) this, of exec table]
  have "list_next (if st = PIPE_SEQ then l\<lparr>flag_skip := False\<rparr> else l) = l\<lparr>cur_pi := cur_pi l + 1, flag_skip := st \<noteq> PIPE_SEQ\<rparr>"
    using assms(1,3) by (cases l) (simp add: list_next_def)
  then show ?thesis using s by simp
qed

text \<open>Behind the semicolon nothing is left out any more.\<close>

lemma list_check_settled:
  assumes "\<not> flag_skip l" "r_mode p \<noteq> RES_XXXX"
  shows "list_check p l sh = list_check p (l\<lparr>flag_skip := True, skip_more := RES_XXXX\<rparr>) sh"
proof -
  let ?l = "l\<lparr>flag_skip := True, skip_more := RES_XXXX\<rparr>"
  have "\<not> (r_mode p = skip_more l \<and> flag_skip l)" "\<not> (r_mode p = skip_more ?l \<and> flag_skip ?l)" using assms by simp_all
  then show ?thesis unfolding list_check_def Let_def by (simp only: if_False) simp
qed

lemma opened_settled: "opened m (l\<lparr>flag_skip := True, skip_more := RES_XXXX\<rparr>) = (opened m l)\<lparr>flag_skip := True, skip_more := RES_XXXX\<rparr>"
  by (cases l) (simp add: opened_def)

lemma settle:
  assumes "\<not> flag_skip l" "\<forall>p\<in>set (pipes l). r_mode p \<noteq> RES_XXXX"
  shows "list_loop exec table l sh = list_loop exec table (l\<lparr>flag_skip := True, skip_more := RES_XXXX\<rparr>) sh"
proof (cases "length (pipes l) \<le> cur_pi l")
  case True
  then show ?thesis by (simp add: list_end)
next
  case False
  let ?l = "l\<lparr>flag_skip := True, skip_more := RES_XXXX\<rparr>"
  let ?p = "pipes l ! cur_pi l"
  have m: "r_mode ?p \<noteq> RES_XXXX" using assms(2) False by simp
  have c: "list_check ?p l' sh' = list_check ?p (l'\<lparr>flag_skip := True, skip_more := RES_XXXX\<rparr>) sh'" if "\<not> flag_skip l'" for l' sh'
    by (rule list_check_settled [OF that m])
  show ?thesis
  proof (cases "poll (r_mode ?p) sh")
    case (Some sh1)
    have "list_pre l sh = list_pre ?l sh"
      using list_pre_poll [of l sh sh1] list_pre_poll [of ?l sh sh1] Some c [of "opened (r_mode ?p) l" sh1] assms(1)
      by (simp add: opened_settled)
    then show ?thesis using False by (simp add: list_loop.simps [of exec table l] list_loop.simps [of exec table ?l])
  next
    case None
    then have "list_pre l sh = Some (Return 1, l, snd (ctrlc sh))" "list_pre ?l sh = Some (Return 1, ?l, snd (ctrlc sh))"
      by (auto simp: poll_def head_modes_def list_pre_def Let_def split: if_splits)
    then show ?thesis using False by (simp add: list_loop.simps [of exec table l] list_loop.simps [of exec table ?l])
  qed
qed

section \<open>Sections\<close>

fun len :: "items \<Rightarrow> nat" where
  "len INil = 0"
| "len (ICons s st its) = len its + 1"

lemma len_items: "length (pipes_items m its) = len its"
  by (induction its rule: len.induct) simp_all

lemma len_0: "len its = 0 \<longleftrightarrow> its = INil" by (cases its) simp_all

definition rest_ok :: "items \<Rightarrow> bool" where
  "rest_ok its \<longleftrightarrow> items_ok its \<and> items_fixed its \<and> (its = INil \<or> last_seq its)"

lemma rest_ok_Cons: "rest_ok (ICons s st its) \<longleftrightarrow> stmt_ok s \<and> stmt_fixed s \<and> st \<in> {PIPE_SEQ, PIPE_AND, PIPE_OR} \<and>
    (its = INil \<longrightarrow> st = PIPE_SEQ) \<and> rest_ok its"
  by (cases its) (auto simp: rest_ok_def)

lemma skip_items_loop:
  assumes "skip_items m its sh = Some (its', sh1)" and "last_seq its" and "rest_ok its"
    and "flag_skip l" "skip_more l = m" "\<not> flag_restore l" and "m \<in> head_modes \<Longrightarrow> rpipe l \<noteq> None"
    and "part (pipes l) (cur_pi l) (pipes_items m its)"
  shows "\<exists>n. list_loop exec table l sh = list_loop exec table (l\<lparr>cur_pi := cur_pi l + n, flag_skip := False\<rparr>) sh1 \<and>
    part (pipes l) (cur_pi l + n) (pipes_items m its') \<and> n + len its' = len its \<and> rest_ok its'"
  using assms
proof (induction m its sh arbitrary: l rule: skip_items.induct)
  case (2 m s st its sh)
  have p: "cur_pi l < length (pipes l)" "pipes l ! cur_pi l = Pipe [pipes_stmt s] st m" "part (pipes l) (cur_pi l + 1) (pipes_items m its)"
    using "2.prems"(8) by (simp_all add: part_Cons)
  have ok: "st = PIPE_SEQ \<or> last_seq its" "rest_ok its" using "2.prems"(2,3) by (cases its; simp add: rest_ok_Cons)+
  obtain sh2 where poll: "poll m sh = Some sh2" using "2.prems"(1) by (auto simp: bind_eq_Some_conv)
  note step = skip_step [OF "2.prems"(4-7) p(1,2) poll, of exec table]
  show ?case
  proof (cases "st = PIPE_SEQ")
    case True
    then have "its' = its" "sh1 = sh2" using "2.prems"(1) poll by simp_all
    then show ?thesis using step p(3) ok(2) True by (intro exI [of _ 1]) simp
  next
    case False
    let ?l = "l\<lparr>cur_pi := cur_pi l + 1, flag_skip := True\<rparr>"
    have "skip_items m its sh2 = Some (its', sh1)" using "2.prems"(1) poll False by simp
    from "2.IH" [OF poll False this _ ok(2), of ?l] obtain n where
      "list_loop exec table ?l sh2 = list_loop exec table (?l\<lparr>cur_pi := cur_pi ?l + n, flag_skip := False\<rparr>) sh1 \<and>
       part (pipes ?l) (cur_pi ?l + n) (pipes_items m its') \<and> n + len its' = len its \<and> rest_ok its'"
      using "2.prems"(5-7) p(3) ok(1) False by auto
    then show ?thesis using step False by (intro exI [of _ "n + 1"]) simp
  qed
qed simp

lemma after_item_loop:
  assumes a: "after_item m rc st its sh = Some (its', sh1)" and ok: "rest_ok (ICons s st its)" and l: "fresh l" "m \<in> item_modes"
    and p: "part (pipes l) (cur_pi l + 1) (pipes_items m its)"
  shows "\<exists>n. list_loop exec table ((moved m 1 rc l)\<lparr>skip_more := if chain_stops rc st then m else RES_XXXX\<rparr>) sh =
      list_loop exec table (moved m (1 + n) rc l) sh1 \<and>
    part (pipes l) (cur_pi l + 1 + n) (pipes_items m its') \<and> n + len its' = len its \<and> rest_ok its'"
proof (cases "chain_stops rc st")
  case False
  then have "its' = its" "sh1 = sh" using a by (simp_all add: after_item_def)
  moreover have "(moved m 1 rc l)\<lparr>skip_more := RES_XXXX\<rparr> = moved m 1 rc l"
    using l(1) by (cases l) (simp add: moved_def fresh_def)
  ultimately show ?thesis using False p ok by (intro exI [of _ 0]) (simp add: rest_ok_Cons)
next
  case True
  let ?l = "(moved m 1 rc l)\<lparr>skip_more := m\<rparr>"
  have s: "skip_items m its sh = Some (its', sh1)" using a True by (simp add: after_item_def)
  have ls: "last_seq its" "rest_ok its" using True ok by (cases its; auto simp: rest_ok_Cons chain_stops_def rest_ok_def)+
  have f: "flag_skip ?l" "skip_more ?l = m" "\<not> flag_restore ?l" using l(1) by (simp_all add: moved_def fresh_def)
  have r: "m \<in> head_modes \<Longrightarrow> rpipe ?l \<noteq> None" using l(2) by (auto simp: moved_def head_modes_def item_modes_def)
  obtain n where n: "list_loop exec table ?l sh = list_loop exec table (?l\<lparr>cur_pi := cur_pi ?l + n, flag_skip := False\<rparr>) sh1"
      "part (pipes l) (cur_pi l + 1 + n) (pipes_items m its')" "n + len its' = len its" "rest_ok its'"
    using skip_items_loop [OF s ls f r, of exec table] p by (auto simp: moved_facts)
  let ?l1 = "?l\<lparr>cur_pi := cur_pi ?l + n, flag_skip := False\<rparr>"
  have "list_loop exec table ?l1 sh1 = list_loop exec table (?l1\<lparr>flag_skip := True, skip_more := RES_XXXX\<rparr>) sh1"
    by (rule settle) (use l(1) in \<open>simp_all add: moved_facts fresh_def\<close>)
  moreover have "?l1\<lparr>flag_skip := True, skip_more := RES_XXXX\<rparr> = moved m (1 + n) rc l"
    using l(1) by (cases l) (simp add: moved_def fresh_def)
  ultimately show ?thesis using n True by (intro exI [of _ n]) simp
qed

text \<open>A section that is not entered.\<close>

definition passed :: "reserved_style \<Rightarrow> lstate \<Rightarrow> bool" where
  "passed m l \<longleftrightarrow> m = RES_THEN \<and> next_if_code l \<noteq> 0 \<or> m = RES_ELSE \<and> next_if_code l = 0 \<or> m = RES_DO \<and> \<not> flag_rep l"

lemma pass_step:
  assumes l: "fresh l" "passed m l" and p: "cur_pi l < length (pipes l)" "pipes l ! cur_pi l = Pipe ps st m"
  shows "list_loop exec table l sh = list_loop exec table (l\<lparr>cur_pi := cur_pi l + 1, if_code := (if m = RES_DO then if_code l else next_if_code l)\<rparr>) sh"
proof -
  have m: "m \<notin> head_modes" "m \<noteq> RES_XXXX" "m \<noteq> RES_FOR" using l(2) by (auto simp: passed_def head_modes_def)
  let ?l = "l\<lparr>flag_skip := True, skip_more := RES_XXXX, if_code := (if m = RES_DO then if_code l else next_if_code l)\<rparr>"
  have "list_check (Pipe ps st m) l sh = Some (Continue, ?l)"
    using l(2) m(2) l(1) unfolding passed_def by (elim disjE conjE) (simp_all add: list_check_def Let_def fresh_def)
  then have "list_pre l sh = Some (Continue, ?l, sh)"
    using list_pre_poll [of l sh sh] p(2) m(1) by (simp add: poll_def opened_def)
  from list_step [OF p(1) this, of exec table] show ?thesis
    using l(1) by (cases l) (simp add: list_next_def fresh_def)
qed

lemma pass_section:
  "fresh l \<Longrightarrow> passed m l \<Longrightarrow> part (pipes l) (cur_pi l) (pipes_items m its) \<Longrightarrow>
   list_loop exec table l sh = list_loop exec table
     (l\<lparr>cur_pi := cur_pi l + len its, if_code := (if m = RES_DO \<or> its = INil then if_code l else next_if_code l)\<rparr>) sh"
proof (induction its arbitrary: l rule: len.induct)
  case (2 s st its)
  have p: "cur_pi l < length (pipes l)" "pipes l ! cur_pi l = Pipe [pipes_stmt s] st m" "part (pipes l) (cur_pi l + 1) (pipes_items m its)"
    using "2.prems"(3) by (simp_all add: part_Cons)
  let ?l = "l\<lparr>cur_pi := cur_pi l + 1, if_code := (if m = RES_DO then if_code l else next_if_code l)\<rparr>"
  have "fresh ?l" "passed m ?l" using "2.prems" by (simp_all add: fresh_def passed_def)
  then have "list_loop exec table ?l sh = list_loop exec table
      (?l\<lparr>cur_pi := cur_pi ?l + len its, if_code := (if m = RES_DO \<or> its = INil then if_code ?l else next_if_code ?l)\<rparr>) sh"
    by (rule "2.IH") (use p(3) in simp)
  moreover have "?l\<lparr>cur_pi := cur_pi ?l + len its, if_code := (if m = RES_DO \<or> its = INil then if_code ?l else next_if_code ?l)\<rparr> =
      l\<lparr>cur_pi := cur_pi l + len (ICons s st its), if_code := (if m = RES_DO \<or> ICons s st its = INil then if_code l else next_if_code l)\<rparr>"
    by simp
  ultimately show ?case unfolding pass_step [OF "2.prems"(1,2) p(1,2)] by (rule trans [OF _ arg_cong [where f = "\<lambda>l. list_loop exec table l sh"]])
qed simp_all

text \<open>Pipes without a command: \<open>fi\<close> and the last one.\<close>

lemma empty_step:
  assumes l: "fresh l" and m: "m = RES_FI \<or> m = RES_NONE" and p: "cur_pi l < length (pipes l)" "pipes l ! cur_pi l = Pipe [] st m"
  shows "list_loop exec table l sh = list_loop exec table (l\<lparr>cur_pi := cur_pi l + 1\<rparr>) sh"
proof -
  let ?l = "l\<lparr>flag_skip := True, skip_more := RES_XXXX\<rparr>"
  have "list_check (Pipe [] st m) l sh = Some (Continue, ?l)"
    using l m by (elim disjE) (simp_all add: list_check_def Let_def fresh_def)
  then have "list_pre l sh = Some (Continue, ?l, sh)"
    using list_pre_poll [of l sh sh] p(2) m by (auto simp: poll_def opened_def head_modes_def)
  from list_step [OF p(1) this, of exec table] show ?thesis
    using l by (cases l) (simp add: list_next_def fresh_def)
qed

lemma finish:
  assumes "fresh l" and "part (pipes l) (cur_pi l) [Pipe [] PIPE_NONE RES_NONE]" and "length (pipes l) = cur_pi l + 1"
  shows "list_loop exec table l sh = Some (l_rcode l, pipes l, sh)"
  using empty_step [OF assms(1), of RES_NONE PIPE_NONE exec table sh] assms(2,3) by (simp add: part_Cons list_end)

lemma finish_fi:
  assumes l: "fresh l" and "part (pipes l) (cur_pi l) [Pipe [] PIPE_SEQ RES_FI, Pipe [] PIPE_NONE RES_NONE]" and "length (pipes l) = cur_pi l + 2"
  shows "list_loop exec table l sh = Some (l_rcode l, pipes l, sh)"
proof -
  have "list_loop exec table l sh = list_loop exec table (l\<lparr>cur_pi := cur_pi l + 1\<rparr>) sh"
    using empty_step [OF l, of RES_FI PIPE_SEQ exec table sh] assms(2) by (simp add: part_Cons)
  also have "\<dots> = Some (l_rcode l, pipes l, sh)"
    using finish [of "l\<lparr>cur_pi := cur_pi l + 1\<rparr>" exec table sh] assms by (simp add: part_Cons fresh_def)
  finally show ?thesis .
qed

section \<open>The semantics and the loop\<close>

lemma prefix_same:
  "\<forall>a\<in>set as. SPECIAL_VAR_SYMBOL \<notin> set a \<Longrightarrow> prefix_assignments as n sh = Some (n', sh') \<Longrightarrow> n' = n"
proof (induction as arbitrary: n sh)
  case (Cons a as)
  have "insert_var_value sh a = Some (False, a)" for sh using Cons.prems(1) by (simp add: insert_var_value_def insert_loop.simps)
  then show ?case using Cons by (auto simp: bind_eq_Some_conv)
qed simp

lemma argv_simple: "argv (simple_child ws) = map (\<lambda>w. word_text (sword_of w)) ws" by simp

lemma run_child_same:
  assumes "words_fixed ws" and run: "run_child pso exec table (argv (simple_child ws)) n sh = Some (rc, n', sh')"
  shows "n' = n"
proof -
  let ?args = "argv (simple_child ws)" and ?as = "takeWhile (\<lambda>w. is_assignment (word_text (sword_of w))) ws"
  have t: "takeWhile is_assignment ?args = map (\<lambda>w. word_text (sword_of w)) ?as" by (simp add: takeWhile_map comp_def)
  define i where "i = length (takeWhile is_assignment ?args)"
  have ti: "take i ?args = map (\<lambda>w. word_text (sword_of w)) ?as" unfolding i_def using t by (metis takeWhile_eq_take)
  show ?thesis
  proof (cases "i \<noteq> 0 \<and> i = length ?args")
    case True
    have "run_child pso exec table ?args n sh = do { (_, sh) \<leftarrow> prefix_assignments ?args n sh; Some (0, n, sh) }"
      unfolding run_child_def Let_def i_def [symmetric] by (rule if_P [OF True])
    then show ?thesis using run by (auto simp: bind_eq_Some_conv)
  next
    case False
    obtain n1 sh1 where 1: "prefix_assignments (take i ?args) n sh = Some (n1, sh1)" and r: "n' = n1"
      using run False unfolding run_child_def Let_def i_def [symmetric] if_not_P [OF False]
      by (auto simp: bind_eq_Some_conv split: if_splits)
    have "\<forall>a\<in>set (take i ?args). SPECIAL_VAR_SYMBOL \<notin> set a"
    proof (cases "?as = ws")
      case True
      then have "i = length ?args" unfolding i_def t by (metis argv_simple length_map)
      then have "i = 0" using False by simp
      then show ?thesis by simp
    next
      case nt: False
      then show ?thesis using assms(1) unfolding ti by (auto simp: words_fixed_def Let_def list_all_iff)
    qed
    from prefix_same [OF this 1] show ?thesis using r by simp
  qed
qed

lemma run_pipe_simple:
  assumes "words_fixed ws" "ws \<noteq> []" and "simple_run exec table ws sh = Some (rc, sh')"
  shows "run_pipe exec table (Pipe [simple_child ws] st m) sh = Some (rc, Pipe [simple_child ws] st m, sh')"
proof -
  obtain n where r: "run_child (hush_run exec table) exec table (argv (simple_child ws)) (sp (simple_child ws)) sh = Some (rc, n, sh')"
    using assms(3) by (auto simp: simple_run_def bind_eq_Some_conv)
  from run_child_same [OF assms(1) r] show ?thesis
    using r assms(2) by (simp add: run_pipe_def run_pipe_with_def run_pipe_real_def hush_run_def run_list_def)
qed

lemma run_pipe_group:
  assumes "g \<noteq> []"
  shows "run_pipe exec table (Pipe [Child a g n] st m) sh = do { (rc, g, sh) \<leftarrow> run_list_real exec table g sh; Some (rc, Pipe [Child a g n] st m, sh) }"
  using assms by (simp add: run_pipe_def run_pipe_with_def run_pipe_real_def run_list_real_def)

text \<open>What the proof shows of each derivation.\<close>

definition pipe_runs :: "executor \<Rightarrow> cmd_tbl list \<Rightarrow> stmt \<Rightarrow> shell \<Rightarrow> int \<Rightarrow> shell \<Rightarrow> bool" where
  "pipe_runs exec table s sh rc sh' \<longleftrightarrow> (\<forall>st m. \<exists>p. run_pipe exec table (Pipe [pipes_stmt s] st m) sh = Some (rc, p, sh') \<and>
     (- 1 \<le> rc \<longrightarrow> p = Pipe [pipes_stmt s] st m))"

definition list_done :: "executor \<Rightarrow> cmd_tbl list \<Rightarrow> lstate \<Rightarrow> shell \<Rightarrow> pipe list \<Rightarrow> outcome \<Rightarrow> shell \<Rightarrow> bool" where
  "list_done exec table l sh ps out sh' \<longleftrightarrow> (case out of
     Code r \<Rightarrow> list_loop exec table l sh = Some (r, ps, sh')
   | Exit \<Rightarrow> \<exists>ps. list_loop exec table l sh = Some (- 2, ps, sh'))"

definition items_done :: "executor \<Rightarrow> cmd_tbl list \<Rightarrow> reserved_style \<Rightarrow> items \<Rightarrow> lstate \<Rightarrow> shell \<Rightarrow> outcome \<Rightarrow> shell \<Rightarrow> bool" where
  "items_done exec table m its l sh out sh' \<longleftrightarrow> (case out of
     Code r \<Rightarrow> list_loop exec table l sh = list_loop exec table (if its = INil then l else moved m (len its) r l) sh'
   | Exit \<Rightarrow> \<exists>ps. list_loop exec table l sh = Some (- 2, ps, sh'))"

definition items_sim :: "executor \<Rightarrow> cmd_tbl list \<Rightarrow> reserved_style \<Rightarrow> items \<Rightarrow> int \<Rightarrow> shell \<Rightarrow> outcome \<Rightarrow> shell \<Rightarrow> bool" where
  "items_sim exec table m its r sh out sh' \<longleftrightarrow> (its = INil \<longrightarrow> out = Code r \<and> sh' = sh) \<and> (\<forall>l. m \<in> item_modes \<longrightarrow> rest_ok its \<longrightarrow> fresh l \<longrightarrow> active m l \<longrightarrow> l_rcode l = r \<longrightarrow>
     part (pipes l) (cur_pi l) (pipes_items m its) \<longrightarrow> items_done exec table m its l sh out sh')"

lemma items_simD:
  "items_sim exec table m its r sh out sh' \<Longrightarrow> m \<in> item_modes \<Longrightarrow> rest_ok its \<Longrightarrow> fresh l \<Longrightarrow> active m l \<Longrightarrow> l_rcode l = r \<Longrightarrow>
   part (pipes l) (cur_pi l) (pipes_items m its) \<Longrightarrow> items_done exec table m its l sh out sh'"
  by (simp add: items_sim_def)

lemma sim_nil: "items_sim exec table m INil r sh (Code r) sh"
  by (simp add: items_sim_def items_done_def)

lemma sim_cons_exit:
  assumes "poll m sh = Some sh1" and "stmt_ok s \<Longrightarrow> stmt_fixed s \<Longrightarrow> pipe_runs exec table s sh1 rc sh2" and "rc < - 1"
  shows "items_sim exec table m (ICons s st its) r sh Exit (return_code rc sh2)"
  unfolding items_sim_def
proof (intro conjI allI impI)
  fix l assume l: "m \<in> item_modes" "rest_ok (ICons s st its)" "fresh l" "active m l" and
    p: "part (pipes l) (cur_pi l) (pipes_items m (ICons s st its))"
  obtain q where q: "run_pipe exec table (Pipe [pipes_stmt s] st m) sh1 = Some (rc, q, sh2)"
    using assms(2) l(2) unfolding rest_ok_Cons pipe_runs_def by blast
  show "items_done exec table m (ICons s st its) l sh Exit (return_code rc sh2)"
    using run_step(1) [OF l(3,4,1) _ _ assms(1) q assms(3)] p by (simp add: items_done_def part_Cons)
qed simp_all

lemma sim_cons:
  assumes "poll m sh = Some sh1" and "stmt_ok s \<Longrightarrow> stmt_fixed s \<Longrightarrow> pipe_runs exec table s sh1 rc sh2" and "- 1 \<le> rc"
    and a: "after_item m rc st its (return_code rc sh2) = Some (its', sh3)" and IH: "items_sim exec table m its' rc sh3 out sh'"
  shows "items_sim exec table m (ICons s st its) r sh out sh'"
  unfolding items_sim_def
proof (intro conjI allI impI)
  fix l assume l: "m \<in> item_modes" "rest_ok (ICons s st its)" "fresh l" "active m l" and
    p: "part (pipes l) (cur_pi l) (pipes_items m (ICons s st its))"
  obtain q where q: "run_pipe exec table (Pipe [pipes_stmt s] st m) sh1 = Some (rc, q, sh2)" "q = Pipe [pipes_stmt s] st m"
    using assms(2,3) l(2) unfolding rest_ok_Cons pipe_runs_def by blast
  have p': "cur_pi l < length (pipes l)" "pipes l ! cur_pi l = Pipe [pipes_stmt s] st m" "part (pipes l) (cur_pi l + 1) (pipes_items m its)"
    using p by (simp_all add: part_Cons)
  obtain n where n: "list_loop exec table ((moved m 1 rc l)\<lparr>skip_more := if chain_stops rc st then m else RES_XXXX\<rparr>) (return_code rc sh2) =
      list_loop exec table (moved m (1 + n) rc l) sh3"
      "part (pipes l) (cur_pi l + 1 + n) (pipes_items m its')" "n + len its' = len its" "rest_ok its'"
    using after_item_loop [OF a l(2,3,1) p'(3), of exec table] by blast
  have s: "list_loop exec table l sh = list_loop exec table (moved m (1 + n) rc l) sh3"
    using run_step(2) [OF l(3,4,1) p'(1,2) assms(1) q(1) assms(3) q(2)] n(1) by simp
  have "items_done exec table m its' (moved m (1 + n) rc l) sh3 out sh'"
    by (rule items_simD [OF IH l(1) n(4)]) (use l n(2) in \<open>simp_all add: moved_facts\<close>)
  moreover have "its' = INil \<Longrightarrow> n = len its" using n(3) by simp
  moreover have "its' = INil \<Longrightarrow> out = Code rc \<and> sh' = sh3" using IH by (simp add: items_sim_def)
  moreover have "moved m (len its') r' (moved m (1 + n) rc l) = moved m (len (ICons s st its)) r' l" for r'
    using n(3) by (simp add: moved_moved add.commute add.left_commute)
  moreover have "n = len its \<Longrightarrow> moved m (1 + n) rc l = moved m (len (ICons s st its)) rc l" by (simp add: add.commute)
  ultimately show "items_done exec table m (ICons s st its) l sh out sh'"
    unfolding items_done_def s by (cases "its' = INil"; cases out) (simp_all del: len.simps)
qed simp_all

text \<open>\<open>if\<close>.\<close>

definition if_sim :: "executor \<Rightarrow> cmd_tbl list \<Rightarrow> secs \<Rightarrow> int \<Rightarrow> shell \<Rightarrow> outcome \<Rightarrow> shell \<Rightarrow> bool" where
  "if_sim exec table ss r sh out sh' \<longleftrightarrow> (\<forall>l. secs_ok ss \<longrightarrow> secs_fixed ss \<longrightarrow> fresh l \<longrightarrow> l_rcode l = r \<longrightarrow> next_if_code l = r \<longrightarrow>
     part (pipes l) (cur_pi l) (pipes_secs ss) \<longrightarrow> length (pipes l) = cur_pi l + length (pipes_secs ss) \<longrightarrow>
     list_done exec table l sh (pipes l) out sh')"

lemma if_simD:
  "if_sim exec table ss r sh out sh' \<Longrightarrow> secs_ok ss \<Longrightarrow> secs_fixed ss \<Longrightarrow> fresh l \<Longrightarrow> l_rcode l = r \<Longrightarrow> next_if_code l = r \<Longrightarrow>
   part (pipes l) (cur_pi l) (pipes_secs ss) \<Longrightarrow> length (pipes l) = cur_pi l + length (pipes_secs ss) \<Longrightarrow>
   list_done exec table l sh (pipes l) out sh'"
  by (simp add: if_sim_def)

lemma secs_rest: "secs_ok (SCons m its ss) \<Longrightarrow> secs_fixed (SCons m its ss) \<Longrightarrow> rest_ok its \<and> its \<noteq> INil \<and> secs_ok ss \<and> secs_fixed ss"
  by (cases its) (simp_all add: rest_ok_def)

lemma res_flag_mode:
  assumes "secs_ok (SCons m its (SCons m' its' ss))"
  shows "m' \<in> res_flag m"
  using assms by simp

lemma else_last: "secs_ok (SCons RES_ELSE its ss) \<Longrightarrow> ss = SNil"
  by (cases ss) (auto simp: end_mode_def)

lemma then_next: "secs_ok (SCons RES_THEN its ss) \<Longrightarrow>
    ss = SNil \<or> (\<exists>its'. ss = SCons RES_ELSE its' SNil) \<or> (\<exists>its' ss'. ss = SCons RES_ELIF its' ss' \<and> ss' \<noteq> SNil)"
proof (cases ss)
  case (SCons m its' ss')
  assume ok: "secs_ok (SCons RES_THEN its ss)"
  then have "m = RES_ELIF \<or> m = RES_ELSE" using SCons by auto
  then show ?thesis
  proof
    assume m: "m = RES_ELSE"
    then have "ss' = SNil" using ok else_last [of its' ss'] by (simp add: SCons)
    then show ?thesis using SCons m by simp
  next
    assume m: "m = RES_ELIF"
    then have "ss' \<noteq> SNil" using ok by (auto simp: SCons end_mode_def)
    then show ?thesis using SCons m by simp
  qed
qed simp

lemma break_step:
  assumes l: "fresh l" "if_code l = 0" and p: "cur_pi l < length (pipes l)" "pipes l ! cur_pi l = Pipe ps st RES_ELIF"
  shows "list_loop exec table l sh = Some (l_rcode l, pipes l, sh)"
proof -
  let ?l = "l\<lparr>flag_skip := True, skip_more := RES_XXXX\<rparr>"
  have "list_check (Pipe ps st RES_ELIF) l sh = Some (Break, ?l)"
    using l by (simp add: list_check_def Let_def fresh_def)
  then have "list_pre l sh = Some (Break, ?l, sh)"
    using list_pre_poll [of l sh sh] p(2) by (auto simp: poll_def opened_def head_modes_def)
  from list_step [OF p(1) this, of exec table] show ?thesis by simp
qed

lemma items_first: "its \<noteq> INil \<Longrightarrow> part ps k (pipes_items m its) \<Longrightarrow> \<exists>q st. k < length ps \<and> ps ! k = Pipe q st m"
  by (cases its) (auto simp: part_Cons)

lemma list_done_step:
  "list_loop exec table l sh = list_loop exec table l' sh1 \<Longrightarrow> list_done exec table l' sh1 ps out sh' \<Longrightarrow> list_done exec table l sh ps out sh'"
  by (cases out) (simp_all add: list_done_def)

lemma sim_section_last:
  assumes s: "items_done exec table m its l sh out sh'" and "its \<noteq> INil" and l: "fresh l" and m: "end_mode m = RES_FI"
    and p: "part (pipes l) (cur_pi l) (pipes_secs (SCons m its SNil))" "length (pipes l) = cur_pi l + length (pipes_secs (SCons m its SNil))"
  shows "list_done exec table l sh (pipes l) out sh'"
proof (cases out)
  case (Code r)
  let ?l = "moved m (len its) r l"
  have "list_loop exec table l sh = list_loop exec table ?l sh'" using s assms(2) by (simp add: items_done_def Code)
  moreover have "list_loop exec table ?l sh' = Some (l_rcode ?l, pipes ?l, sh')"
    by (rule finish_fi) (use l p m in \<open>simp_all add: moved_facts part_append len_items\<close>)
  ultimately show ?thesis by (simp add: list_done_def Code moved_facts)
qed (use s in \<open>simp add: items_done_def list_done_def\<close>)

lemma sim_then_run:
  assumes s: "items_sim exec table RES_THEN its 0 sh out sh'"
  shows "if_sim exec table (SCons RES_THEN its ss) 0 sh out sh'"
  unfolding if_sim_def
proof (intro allI impI)
  fix l assume ok: "secs_ok (SCons RES_THEN its ss)" "secs_fixed (SCons RES_THEN its ss)" and l: "fresh l" "l_rcode l = 0" "next_if_code l = 0"
    and p: "part (pipes l) (cur_pi l) (pipes_secs (SCons RES_THEN its ss))" "length (pipes l) = cur_pi l + length (pipes_secs (SCons RES_THEN its ss))"
  note o = secs_rest [OF ok]
  have d: "items_done exec table RES_THEN its l sh out sh'"
    using items_simD [OF s] o l p(1) by (simp add: item_modes_def active_def part_append)
  show "list_done exec table l sh (pipes l) out sh'"
  proof (cases "ss = SNil")
    case True
    show ?thesis by (rule sim_section_last [OF d _ l(1)]) (use o p True in \<open>simp_all add: end_mode_def\<close>)
  next
    case False
    show ?thesis
    proof (cases out)
      case (Code r)
      let ?l = "moved RES_THEN (len its) r l"
      have f: "fresh ?l" "pipes ?l = pipes l" "cur_pi ?l = cur_pi l + len its" "l_rcode ?l = r" "next_if_code ?l = 0" "if_code ?l = 0"
        using l by (simp_all add: moved_facts) (simp_all add: moved_def)
      have 1: "list_loop exec table l sh = list_loop exec table ?l sh'" using d o by (simp add: items_done_def Code)
      have p2: "part (pipes l) (cur_pi l + len its) (pipes_secs ss)" "length (pipes l) = cur_pi l + len its + length (pipes_secs ss)"
        using p False by (simp_all add: part_append len_items)
      have "list_loop exec table ?l sh' = Some (r, pipes l, sh')"
      proof (cases "\<exists>its'. ss = SCons RES_ELSE its' SNil")
        case True
        then obtain its' where ss: "ss = SCons RES_ELSE its' SNil" by blast
        let ?l1 = "?l\<lparr>cur_pi := cur_pi ?l + len its', if_code := (if RES_ELSE = RES_DO \<or> its' = INil then if_code ?l else next_if_code ?l)\<rparr>"
        have "list_loop exec table ?l sh' = list_loop exec table ?l1 sh'"
          by (rule pass_section [OF f(1)]) (use p2 in \<open>simp_all add: passed_def f ss part_append\<close>)
        also have "\<dots> = Some (l_rcode ?l1, pipes ?l1, sh')"
          by (rule finish_fi) (use p2 l(1) in \<open>simp_all add: f ss part_append len_items end_mode_def moved_def fresh_def\<close>)
        finally show ?thesis by (simp add: f)
      next
        case no_else: False
        then obtain its' ss' where ss: "ss = SCons RES_ELIF its' ss'" using then_next [OF ok(1)] False by blast
        have "its' \<noteq> INil" using o secs_rest [of RES_ELIF its' ss'] by (simp add: ss)
        then obtain q st where q: "cur_pi l + len its < length (pipes l)" "pipes l ! (cur_pi l + len its) = Pipe q st RES_ELIF"
          using items_first p2(1) unfolding ss pipes_secs.simps part_append by blast
        show ?thesis using break_step [OF f(1,6), of q st exec table sh'] q by (simp add: f)
      qed
      then show ?thesis using 1 by (simp add: list_done_def Code)
    qed (use d in \<open>simp add: items_done_def list_done_def\<close>)
  qed
qed

text \<open>A \<open>then\<close> that is passed over.\<close>

lemma pass_then:
  assumes ok: "secs_ok (SCons RES_THEN its ss)" "secs_fixed (SCons RES_THEN its ss)" and l: "fresh l" "next_if_code l \<noteq> 0"
    and p: "part (pipes l) (cur_pi l) (pipes_secs (SCons RES_THEN its ss))" "length (pipes l) = cur_pi l + length (pipes_secs (SCons RES_THEN its ss))"
  obtains l' where "list_loop exec table l sh = list_loop exec table l' sh" "fresh l'" "l_rcode l' = l_rcode l" "next_if_code l' = next_if_code l"
    "if_code l' \<noteq> 0" "pipes l' = pipes l"
    "part (pipes l') (cur_pi l') (if ss = SNil then [Pipe [] PIPE_SEQ RES_FI, Pipe [] PIPE_NONE RES_NONE] else pipes_secs ss)"
    "length (pipes l') = cur_pi l' + length (if ss = SNil then [Pipe [] PIPE_SEQ RES_FI, Pipe [] PIPE_NONE RES_NONE] else pipes_secs ss)"
proof
  let ?l = "l\<lparr>cur_pi := cur_pi l + len its, if_code := (if RES_THEN = RES_DO \<or> its = INil then if_code l else next_if_code l)\<rparr>"
  show "list_loop exec table l sh = list_loop exec table ?l sh"
    by (rule pass_section [OF l(1)]) (use l p in \<open>simp_all add: passed_def part_append\<close>)
qed (use l p secs_rest [OF ok] in \<open>simp_all add: fresh_def part_append len_items end_mode_def split: if_splits\<close>)

lemma sim_then_end:
  assumes "r \<noteq> 0"
  shows "if_sim exec table (SCons RES_THEN its SNil) r sh (Code r) sh"
  unfolding if_sim_def
proof (intro allI impI)
  fix l assume ok: "secs_ok (SCons RES_THEN its SNil)" "secs_fixed (SCons RES_THEN its SNil)" and l: "fresh l" "l_rcode l = r" "next_if_code l = r"
    and p: "part (pipes l) (cur_pi l) (pipes_secs (SCons RES_THEN its SNil))" "length (pipes l) = cur_pi l + length (pipes_secs (SCons RES_THEN its SNil))"
  obtain l' where l': "list_loop exec table l sh = list_loop exec table l' sh" "fresh l'" "l_rcode l' = r" "pipes l' = pipes l"
      "part (pipes l') (cur_pi l') [Pipe [] PIPE_SEQ RES_FI, Pipe [] PIPE_NONE RES_NONE]" "length (pipes l') = cur_pi l' + 2"
    using pass_then [OF ok l(1) _ p, of exec table sh] assms l by (auto simp: numeral_2_eq_2)
  show "list_done exec table l sh (pipes l) (Code r) sh"
    using finish_fi [OF l'(2,5,6), of exec table sh] l' by (simp add: list_done_def)
qed

lemma sim_then_else:
  assumes "r \<noteq> 0" and s: "items_sim exec table RES_ELSE its' r sh out sh'"
  shows "if_sim exec table (SCons RES_THEN its (SCons RES_ELSE its' SNil)) r sh out sh'"
  unfolding if_sim_def
proof (intro allI impI)
  let ?ss = "SCons RES_ELSE its' SNil"
  fix l assume ok: "secs_ok (SCons RES_THEN its ?ss)" "secs_fixed (SCons RES_THEN its ?ss)" and l: "fresh l" "l_rcode l = r" "next_if_code l = r"
    and p: "part (pipes l) (cur_pi l) (pipes_secs (SCons RES_THEN its ?ss))" "length (pipes l) = cur_pi l + length (pipes_secs (SCons RES_THEN its ?ss))"
  obtain l' where l': "list_loop exec table l sh = list_loop exec table l' sh" "fresh l'" "l_rcode l' = r" "next_if_code l' = r" "pipes l' = pipes l"
      "part (pipes l') (cur_pi l') (pipes_secs ?ss)" "length (pipes l') = cur_pi l' + length (pipes_secs ?ss)"
    using pass_then [OF ok l(1) _ p, of exec table sh] assms(1) l by (auto simp del: pipes_secs.simps)
  have o: "rest_ok its'" "its' \<noteq> INil" using secs_rest [of RES_ELSE its' SNil] secs_rest [OF ok] by simp_all
  have "items_done exec table RES_ELSE its' l' sh out sh'"
    using items_simD [OF s _ o(1) l'(2)] l' assms(1) by (simp add: item_modes_def active_def part_append)
  from sim_section_last [OF this o(2) l'(2) _ l'(6,7)] show "list_done exec table l sh (pipes l) out sh'"
    using list_done_step [OF l'(1)] l'(5) by (simp add: end_mode_def)
qed

lemma sim_then_elif:
  assumes "r \<noteq> 0" and s: "items_sim exec table RES_ELIF its' r sh out1 sh1"
    and n: "\<And>r1. out1 = Code r1 \<Longrightarrow> if_sim exec table ss r1 sh1 out sh'" and e: "out1 = Exit \<Longrightarrow> out = Exit \<and> sh' = sh1"
  shows "if_sim exec table (SCons RES_THEN its (SCons RES_ELIF its' ss)) r sh out sh'"
  unfolding if_sim_def
proof (intro allI impI)
  let ?ss = "SCons RES_ELIF its' ss"
  fix l assume ok: "secs_ok (SCons RES_THEN its ?ss)" "secs_fixed (SCons RES_THEN its ?ss)" and l: "fresh l" "l_rcode l = r" "next_if_code l = r"
    and p: "part (pipes l) (cur_pi l) (pipes_secs (SCons RES_THEN its ?ss))" "length (pipes l) = cur_pi l + length (pipes_secs (SCons RES_THEN its ?ss))"
  obtain l' where l': "list_loop exec table l sh = list_loop exec table l' sh" "fresh l'" "l_rcode l' = r" "if_code l' \<noteq> 0" "pipes l' = pipes l"
      "part (pipes l') (cur_pi l') (pipes_secs ?ss)" "length (pipes l') = cur_pi l' + length (pipes_secs ?ss)"
    using pass_then [OF ok l(1) _ p, of exec table sh] assms(1) l by (auto simp del: pipes_secs.simps)
  have o: "rest_ok its'" "its' \<noteq> INil" "secs_ok ss" "secs_fixed ss" using secs_rest [of RES_ELIF its' ss] secs_rest [OF ok] by simp_all
  have ss: "ss \<noteq> SNil" using then_next [OF ok(1)] by auto
  have d: "items_done exec table RES_ELIF its' l' sh out1 sh1"
    using items_simD [OF s _ o(1) l'(2)] l' assms(1) by (simp add: item_modes_def active_def part_append)
  show "list_done exec table l sh (pipes l) out sh'"
  proof (cases out1)
    case (Code r1)
    let ?l = "moved RES_ELIF (len its') r1 l'"
    have 1: "list_loop exec table l' sh = list_loop exec table ?l sh1" using d o(2) by (simp add: items_done_def Code)
    have "next_if_code ?l = r1" by (simp add: moved_def)
    then have "list_done exec table ?l sh1 (pipes ?l) out sh'"
      by (intro if_simD [OF n [OF Code] o(3,4)]) (use l' ss in \<open>simp_all add: moved_facts part_append len_items\<close>)
    then show ?thesis using list_done_step [OF l'(1)] list_done_step [OF 1] l'(5) by (simp add: moved_facts)
  qed (use d e l'(1) in \<open>simp add: items_done_def list_done_def\<close>)
qed

text \<open>\<open>while\<close> and \<open>until\<close>.\<close>

lemma done_again:
  assumes l: "fresh l" "flag_rep l" "rpipe l = Some k" and p: "cur_pi l < length (pipes l)" "pipes l ! cur_pi l = Pipe [] st RES_DONE"
  shows "list_loop exec table l sh = list_loop exec table (l\<lparr>cur_pi := k, flag_restore := True\<rparr>) sh"
proof -
  let ?l = "l\<lparr>flag_skip := True, skip_more := RES_XXXX, flag_restore := True\<rparr>"
  have "list_check (Pipe [] st RES_DONE) l sh = Some (Continue, ?l)"
    using l by (simp add: list_check_def Let_def fresh_def)
  then have "list_pre l sh = Some (Continue, ?l, sh)"
    using list_pre_poll [of l sh sh] p(2) by (auto simp: poll_def opened_def head_modes_def)
  from list_step [OF p(1) this, of exec table] show ?thesis
    using l by (cases l) (simp add: list_next_def fresh_def)
qed

lemma done_last:
  assumes l: "fresh l" "\<not> flag_rep l" and p: "part (pipes l) (cur_pi l) [Pipe [] PIPE_SEQ RES_DONE, Pipe [] PIPE_NONE RES_NONE]"
    "length (pipes l) = cur_pi l + 2"
  shows "list_loop exec table l sh = Some (l_rcode l, pipes l, sh)"
proof -
  let ?l = "l\<lparr>flag_skip := True, skip_more := RES_XXXX, rpipe := None\<rparr>"
  have q: "cur_pi l < length (pipes l)" "pipes l ! cur_pi l = Pipe [] PIPE_SEQ RES_DONE" using p(1) by (simp_all add: part_Cons)
  have "list_check (Pipe [] PIPE_SEQ RES_DONE) l sh = Some (Continue, ?l)"
    using l by (simp add: list_check_def Let_def fresh_def)
  then have "list_pre l sh = Some (Continue, ?l, sh)"
    using list_pre_poll [of l sh sh] q(2) by (auto simp: poll_def opened_def head_modes_def)
  from list_step [OF q(1) this, of exec table] have "list_loop exec table l sh = list_loop exec table (l\<lparr>cur_pi := cur_pi l + 1, rpipe := None\<rparr>) sh"
    using l by (cases l) (simp add: list_next_def fresh_def)
  also have "\<dots> = Some (l_rcode l, pipes l, sh)"
    using finish [of "l\<lparr>cur_pi := cur_pi l + 1, rpipe := None\<rparr>" exec table sh] l p by (simp add: part_Cons fresh_def)
  finally show ?thesis .
qed

lemma restart:
  assumes "cur_pi l < length (pipes l)" and m: "r_mode (pipes l ! cur_pi l) \<in> head_modes" and "rpipe l \<noteq> None"
  shows "list_loop exec table (l\<lparr>flag_restore := True\<rparr>) sh = list_loop exec table (l\<lparr>flag_restore := False\<rparr>) sh"
proof -
  let ?t = "l\<lparr>flag_restore := True\<rparr>" and ?f = "l\<lparr>flag_restore := False\<rparr>"
  show ?thesis
  proof (cases "poll (r_mode (pipes l ! cur_pi l)) sh")
    case (Some sh1)
    have "list_pre ?t sh = list_pre ?f sh"
      using list_pre_poll [of ?t sh sh1] list_pre_poll [of ?f sh sh1] Some m assms(3) by (auto simp: opened_def)
    then show ?thesis using assms(1) by (simp add: list_loop.simps [of exec table ?t] list_loop.simps [of exec table ?f])
  next
    case None
    then have "list_pre ?t sh = Some (Return 1, ?t, snd (ctrlc sh))" "list_pre ?f sh = Some (Return 1, ?f, snd (ctrlc sh))"
      using m by (auto simp: poll_def head_modes_def list_pre_def Let_def split: if_splits)
    then show ?thesis using assms(1) by (simp add: list_loop.simps [of exec table ?t] list_loop.simps [of exec table ?f])
  qed
qed

definition loop_sim :: "executor \<Rightarrow> cmd_tbl list \<Rightarrow> reserved_style \<Rightarrow> items \<Rightarrow> items \<Rightarrow> int \<Rightarrow> shell \<Rightarrow> outcome \<Rightarrow> shell \<Rightarrow> bool" where
  "loop_sim exec table m its body r sh out sh' \<longleftrightarrow> (\<forall>l. m = RES_WHILE \<or> m = RES_UNTIL \<longrightarrow> rest_ok its \<longrightarrow> its \<noteq> INil \<longrightarrow>
     rest_ok body \<longrightarrow> body \<noteq> INil \<longrightarrow> fresh l \<longrightarrow> l_rcode l = r \<longrightarrow> cur_pi l = 0 \<longrightarrow>
     pipes l = pipes_items m its @ pipes_items RES_DO body @ [Pipe [] PIPE_SEQ RES_DONE, Pipe [] PIPE_NONE RES_NONE] \<longrightarrow>
     rpipe l = None \<or> rpipe l = Some 0 \<longrightarrow> list_done exec table l sh (pipes l) out sh')"

lemma loop_simD:
  "loop_sim exec table m its body r sh out sh' \<Longrightarrow> m = RES_WHILE \<or> m = RES_UNTIL \<Longrightarrow> rest_ok its \<Longrightarrow> its \<noteq> INil \<Longrightarrow>
     rest_ok body \<Longrightarrow> body \<noteq> INil \<Longrightarrow> fresh l \<Longrightarrow> l_rcode l = r \<Longrightarrow> cur_pi l = 0 \<Longrightarrow>
     pipes l = pipes_items m its @ pipes_items RES_DO body @ [Pipe [] PIPE_SEQ RES_DONE, Pipe [] PIPE_NONE RES_NONE] \<Longrightarrow>
     rpipe l = None \<or> rpipe l = Some 0 \<Longrightarrow> list_done exec table l sh (pipes l) out sh'"
  unfolding loop_sim_def by blast

lemma items_first_mode: "its \<noteq> INil \<Longrightarrow> \<exists>q st ps. pipes_items m its = Pipe q st m # ps"
  by (cases its) auto

lemma sim_head:
  assumes s: "items_sim exec table m its r sh out1 sh1"
    and stop: "\<And>r1. m = RES_WHILE \<or> m = RES_UNTIL \<Longrightarrow> out1 = Code r1 \<Longrightarrow> (r1 = 0 \<longleftrightarrow> m = RES_UNTIL) \<Longrightarrow> out = Code r1 \<and> sh' = sh1"
    and body: "\<And>r1. m = RES_WHILE \<or> m = RES_UNTIL \<Longrightarrow> out1 = Code r1 \<Longrightarrow> \<not> (r1 = 0 \<longleftrightarrow> m = RES_UNTIL) \<Longrightarrow> \<exists>out2 sh2. items_sim exec table RES_DO body r1 sh1 out2 sh2 \<and>
      (case out2 of Code r2 \<Rightarrow> loop_sim exec table m its body r2 sh2 out sh' | Exit \<Rightarrow> out = Exit \<and> sh' = sh2)"
    and exit: "out1 = Exit \<Longrightarrow> out = Exit \<and> sh' = sh1"
  shows "loop_sim exec table m its body r sh out sh'"
  unfolding loop_sim_def
proof (intro allI impI)
  let ?tail = "[Pipe [] PIPE_SEQ RES_DONE, Pipe [] PIPE_NONE RES_NONE]"
  fix l assume m: "m = RES_WHILE \<or> m = RES_UNTIL" and o: "rest_ok its" "its \<noteq> INil" "rest_ok body" "body \<noteq> INil"
    and l: "fresh l" "l_rcode l = r" "cur_pi l = 0" and p: "pipes l = pipes_items m its @ pipes_items RES_DO body @ ?tail"
    and rp: "rpipe l = None \<or> rpipe l = Some 0"
  have part: "part (pipes l) 0 (pipes_items m its)" "part (pipes l) (len its) (pipes_items RES_DO body)" "part (pipes l) (len its + len body) ?tail"
    "length (pipes l) = len its + len body + 2"
    using part_all [of "pipes l"] unfolding p part_append by (simp_all add: len_items)
  have hm: "m \<in> head_modes" using m by (auto simp: head_modes_def)
  have im: "m \<in> item_modes" "active m l" using m by (auto simp: item_modes_def active_def)
  have d: "items_done exec table m its l sh out1 sh1"
    by (rule items_simD [OF s im(1) o(1) l(1) im(2) l(2)]) (use part(1) l(3) in simp)
  show "list_done exec table l sh (pipes l) out sh'"
  proof (cases out1)
    case Exit
    then show ?thesis using d exit by (simp add: items_done_def list_done_def)
  next
    case (Code r1)
    let ?l = "moved m (len its) r1 l"
    have 1: "list_loop exec table l sh = list_loop exec table ?l sh1" using d o(2) by (simp add: items_done_def Code)
    have f: "fresh ?l" "pipes ?l = pipes l" "cur_pi ?l = len its" "l_rcode ?l = r1" "rpipe ?l = Some 0" "flag_rep ?l \<longleftrightarrow> \<not> (r1 = 0 \<longleftrightarrow> m = RES_UNTIL)"
      using l m rp by (auto simp: moved_facts moved_def fresh_def)
    show ?thesis
    proof (cases "r1 = 0 \<longleftrightarrow> m = RES_UNTIL")
      case True
      let ?l1 = "?l\<lparr>cur_pi := cur_pi ?l + len body, if_code := (if RES_DO = RES_DO \<or> body = INil then if_code ?l else next_if_code ?l)\<rparr>"
      have "list_loop exec table ?l sh1 = list_loop exec table ?l1 sh1"
        by (rule pass_section [OF f(1)]) (use f True part in \<open>simp_all add: passed_def\<close>)
      also have "\<dots> = Some (l_rcode ?l1, pipes ?l1, sh1)"
        by (rule done_last) (use f True part in \<open>simp_all add: fresh_def\<close>)
      finally show ?thesis using 1 stop [OF m Code True] f by (simp add: list_done_def)
    next
      case False
      obtain out2 sh2 where b: "items_sim exec table RES_DO body r1 sh1 out2 sh2"
          "case out2 of Code r2 \<Rightarrow> loop_sim exec table m its body r2 sh2 out sh' | Exit \<Rightarrow> out = Exit \<and> sh' = sh2"
        using body [OF m Code False] by blast
      have d2: "items_done exec table RES_DO body ?l sh1 out2 sh2"
        by (rule items_simD [OF b(1) _ o(3) f(1) _ f(4)]) (use f False part in \<open>simp_all add: item_modes_def active_def\<close>)
      show ?thesis
      proof (cases out2)
        case Exit
        then show ?thesis using d2 b(2) 1 by (simp add: items_done_def list_done_def)
      next
        case c2: (Code r2)
        let ?l2 = "moved RES_DO (len body) r2 ?l"
        have f2: "fresh ?l2" "pipes ?l2 = pipes l" "cur_pi ?l2 = len its + len body" "l_rcode ?l2 = r2" "rpipe ?l2 = Some 0" "flag_rep ?l2"
          using f False by (simp_all add: moved_facts) (simp_all add: moved_def)
        let ?l3 = "?l2\<lparr>cur_pi := 0, flag_restore := False\<rparr>"
        obtain q st ps where q: "pipes l = Pipe q st m # ps" using items_first_mode [OF o(2), of m] p by auto
        have 2: "list_loop exec table ?l sh1 = list_loop exec table ?l2 sh2" using d2 o(4) by (simp add: items_done_def c2)
        also have "\<dots> = list_loop exec table (?l2\<lparr>cur_pi := 0, flag_restore := True\<rparr>) sh2"
          by (rule done_again [OF f2(1,6,5)]) (use f2 part in \<open>simp_all add: part_Cons\<close>)
        also have "\<dots> = list_loop exec table ?l3 sh2"
          using restart [of "?l2\<lparr>cur_pi := 0\<rparr>" exec table sh2] hm f2 q by simp
        finally have 3: "list_loop exec table l sh = list_loop exec table ?l3 sh2" using 1 by simp
        have "list_done exec table ?l3 sh2 (pipes ?l3) out sh'"
          by (rule loop_simD [OF _ m o]) (use b(2) c2 f2 p in \<open>simp_all add: fresh_def\<close>)
        then show ?thesis using list_done_step [OF 3] f2(2) by simp
      qed
    qed
  qed
qed

text \<open>\<open>for\<close>.\<close>

definition for_pipes :: "string \<Rightarrow> child_prog list \<Rightarrow> items \<Rightarrow> pipe list" where
  "for_pipes z ins its = Pipe [Child [z] [] 0] PIPE_SEQ RES_FOR # Pipe ins PIPE_SEQ RES_IN #
     pipes_items RES_DO its @ [Pipe [] PIPE_SEQ RES_DONE, Pipe [] PIPE_NONE RES_NONE]"

lemma for_pipes_parts:
  "for_pipes z ins its ! 0 = Pipe [Child [z] [] 0] PIPE_SEQ RES_FOR" "for_pipes z ins its ! Suc 0 = Pipe ins PIPE_SEQ RES_IN"
  "length (for_pipes z ins its) = len its + 4" "part (for_pipes z ins its) 2 (pipes_items RES_DO its)"
  "part (for_pipes z ins its) (len its + 2) [Pipe [] PIPE_SEQ RES_DONE, Pipe [] PIPE_NONE RES_NONE]"
  "(for_pipes z ins its)[0 := Pipe [Child [v] [] 0] PIPE_SEQ RES_FOR] = for_pipes v ins its"
proof -
  have "part (for_pipes z ins its) 2 (pipes_items RES_DO its) \<and> part (for_pipes z ins its) (2 + len its) [Pipe [] PIPE_SEQ RES_DONE, Pipe [] PIPE_NONE RES_NONE]"
    using part_all [of "for_pipes z ins its"] unfolding for_pipes_def by (simp only: part_Cons part_append len_items add_0 one_add_one simp_thms)
  then show "part (for_pipes z ins its) 2 (pipes_items RES_DO its)"
    "part (for_pipes z ins its) (len its + 2) [Pipe [] PIPE_SEQ RES_DONE, Pipe [] PIPE_NONE RES_NONE]" by (simp_all add: add.commute)
qed (simp_all add: for_pipes_def len_items)

lemma in_step:
  assumes l: "fresh l" and p: "cur_pi l < length (pipes l)" "pipes l ! cur_pi l = Pipe ps st RES_IN"
  shows "list_loop exec table l sh = list_loop exec table (l\<lparr>cur_pi := cur_pi l + 1\<rparr>) sh"
proof -
  let ?l = "l\<lparr>flag_skip := True, skip_more := RES_XXXX\<rparr>"
  have "list_check (Pipe ps st RES_IN) l sh = Some (Continue, ?l)"
    using l by (simp add: list_check_def Let_def fresh_def)
  then have "list_pre l sh = Some (Continue, ?l, sh)"
    using list_pre_poll [of l sh sh] p(2) by (auto simp: poll_def opened_def head_modes_def)
  from list_step [OF p(1) this, of exec table] show ?thesis
    using l by (cases l) (simp add: list_next_def fresh_def)
qed

text \<open>The end of a \<open>for\<close> behind its head, without another round.\<close>

lemma for_tail:
  assumes l: "fresh l" "\<not> flag_rep l" "cur_pi l = 1" "pipes l = for_pipes z ins its"
  shows "list_loop exec table l sh = Some (l_rcode l, pipes l, sh)"
proof -
  let ?l = "l\<lparr>cur_pi := 2\<rparr>"
  have f: "fresh ?l" "passed RES_DO ?l" using l by (simp_all add: fresh_def passed_def)
  let ?l1 = "?l\<lparr>cur_pi := cur_pi ?l + len its, if_code := (if RES_DO = RES_DO \<or> its = INil then if_code ?l else next_if_code ?l)\<rparr>"
  have "list_loop exec table l sh = list_loop exec table ?l sh"
    using in_step [OF l(1), of ins PIPE_SEQ exec table sh] l(3,4) by (simp add: for_pipes_parts numeral_2_eq_2)
  also have "\<dots> = list_loop exec table ?l1 sh"
    by (rule pass_section [OF f]) (use l for_pipes_parts in simp)
  also have "\<dots> = Some (l_rcode ?l1, pipes ?l1, sh)"
    by (rule done_last) (use l for_pipes_parts(3,5) [of z ins its] in \<open>simp_all add: fresh_def add.commute\<close>)
  finally show ?thesis by simp
qed

text \<open>The head of a \<open>for\<close> with its values: the last value has been taken, or there is another.\<close>

lemma for_head_end:
  assumes l: "fresh l" "cur_pi l = 0" "pipes l = for_pipes z ins its" "for_list l = Some []" "rpipe l = Some 0" and poll: "poll RES_FOR sh0 = Some sh"
  shows "list_loop exec table l sh0 = Some (l_rcode l, for_pipes (save_name l) ins its, sh)"
proof -
  let ?l = "l\<lparr>flag_skip := True, skip_more := RES_XXXX, pipes := for_pipes (save_name l) ins its, for_list := None, flag_rep := False\<rparr>"
  have p: "pipes l ! cur_pi l = Pipe [Child [z] [] 0] PIPE_SEQ RES_FOR" "cur_pi l < length (pipes l)" using l by (simp_all add: for_pipes_parts)
  have o1: "opened RES_FOR l = l" using l(1,5) by (cases l) (simp add: opened_def fresh_def)
  have "list_check (Pipe [Child [z] [] 0] PIPE_SEQ RES_FOR) l sh = Some (Continue, ?l)"
    using l for_pipes_parts [of z ins its] by (simp add: list_check_def Let_def fresh_def for_step_def rd_def set_argv0_def)
  then have "list_pre l sh0 = Some (Continue, ?l, sh)"
    using list_pre_poll [of l sh0 sh] poll p(1) by (simp add: o1)
  from list_step [OF p(2) this, of exec table] have "list_loop exec table l sh0 = list_loop exec table (list_next ?l) sh" by simp
  also have "\<dots> = Some (l_rcode (list_next ?l), pipes (list_next ?l), sh)"
    by (rule for_tail) (use l in \<open>simp_all add: list_next_def fresh_def for_pipes_def\<close>)
  finally show ?thesis by (simp add: list_next_def)
qed

lemma run_for_value:
  assumes "is_assignment v" and "assign_word v sh = Some sh1"
  shows "run_pipe exec table (Pipe [Child [v] [] 0] st m) sh = Some (0, Pipe [Child [v] [] 0] st m, sh1)"
proof -
  obtain new p rc where "insert_var_value sh v = Some (new, p)" "set_local_var p 0 sh = Some (rc, sh1)"
    using assms(2) by (auto simp: assign_word_def bind_eq_Some_conv)
  then show ?thesis
    using assms(1) by (simp add: run_pipe_def run_pipe_with_def run_pipe_real_def run_child_def)
qed

lemma for_head_next:
  assumes l: "fresh l" "cur_pi l = 0" "pipes l = for_pipes z ins its" "for_list l = Some (v # vs)" "rpipe l = Some 0" and poll: "poll RES_FOR sh0 = Some sh"
    and v: "is_assignment v" "assign_word v sh = Some sh1"
  shows "list_loop exec table l sh0 =
    list_loop exec table (l\<lparr>pipes := for_pipes v ins its, for_list := Some vs, l_rcode := 0, cur_pi := 2\<rparr>) (return_code 0 sh1)"
proof -
  let ?l = "l\<lparr>flag_skip := True, skip_more := RES_XXXX, pipes := for_pipes v ins its, for_list := Some vs\<rparr>"
  let ?l1 = "l\<lparr>cur_pi := 1, pipes := for_pipes v ins its, for_list := Some vs, l_rcode := 0\<rparr>"
  have p: "pipes l ! cur_pi l = Pipe [Child [z] [] 0] PIPE_SEQ RES_FOR" "cur_pi l < length (pipes l)" using l by (simp_all add: for_pipes_parts)
  have o1: "opened RES_FOR l = l" using l(1,5) by (cases l) (simp add: opened_def fresh_def)
  have "list_check (Pipe [Child [z] [] 0] PIPE_SEQ RES_FOR) l sh = Some (Run, ?l)"
    using l for_pipes_parts [of z ins its] by (simp add: list_check_def Let_def fresh_def for_step_def rd_def set_argv0_def)
  then have "list_pre l sh0 = Some (Run, ?l, sh)"
    using list_pre_poll [of l sh0 sh] poll p(1) by (simp add: o1)
  moreover have "run_pipe exec table (pipes ?l ! cur_pi ?l) sh = Some (0, pipes ?l ! cur_pi ?l, sh1)"
    using run_for_value [OF v] l(2) by (simp add: for_pipes_parts)
  moreover have "list_next (list_post 0 (?l\<lparr>pipes := (pipes ?l)[cur_pi ?l := pipes ?l ! cur_pi ?l]\<rparr>)) = ?l1"
    unfolding same_pipes using l for_pipes_parts(1) [of v ins its] by (cases l) (simp add: list_next_def list_post_def fresh_def)
  ultimately have "list_loop exec table l sh0 = list_loop exec table ?l1 (return_code 0 sh1)"
    using list_step [OF p(2), of sh0 Run ?l sh exec table] by simp
  also have "list_loop exec table ?l1 (return_code 0 sh1) = list_loop exec table (?l1\<lparr>cur_pi := 2\<rparr>) (return_code 0 sh1)"
    using in_step [of ?l1 ins PIPE_SEQ exec table "return_code 0 sh1"] l(1,3) by (simp add: for_pipes_parts numeral_2_eq_2 fresh_def for_pipes_def)
  finally show ?thesis by simp
qed

definition for_sim :: "executor \<Rightarrow> cmd_tbl list \<Rightarrow> string list \<Rightarrow> items \<Rightarrow> int \<Rightarrow> shell \<Rightarrow> outcome \<Rightarrow> shell \<Rightarrow> bool" where
  "for_sim exec table vs its r sh out sh' \<longleftrightarrow> (\<forall>l sh0 z ins. rest_ok its \<longrightarrow> its \<noteq> INil \<longrightarrow> list_all is_assignment vs \<longrightarrow> fresh l \<longrightarrow> l_rcode l = r \<longrightarrow>
     cur_pi l = 0 \<longrightarrow> pipes l = for_pipes z ins its \<longrightarrow> for_list l = Some vs \<longrightarrow> rpipe l = Some 0 \<longrightarrow> flag_rep l \<longrightarrow> poll RES_FOR sh0 = Some sh \<longrightarrow>
     list_done exec table l sh0 (for_pipes (save_name l) ins its) out sh')"

lemma for_simD:
  "for_sim exec table vs its r sh out sh' \<Longrightarrow> rest_ok its \<Longrightarrow> its \<noteq> INil \<Longrightarrow> list_all is_assignment vs \<Longrightarrow> fresh l \<Longrightarrow> l_rcode l = r \<Longrightarrow>
     cur_pi l = 0 \<Longrightarrow> pipes l = for_pipes z ins its \<Longrightarrow> for_list l = Some vs \<Longrightarrow> rpipe l = Some 0 \<Longrightarrow> flag_rep l \<Longrightarrow> poll RES_FOR sh0 = Some sh \<Longrightarrow>
     list_done exec table l sh0 (for_pipes (save_name l) ins its) out sh'"
  unfolding for_sim_def by blast

lemma sim_for_end: "for_sim exec table [] its r sh (Code r) sh"
  unfolding for_sim_def
proof (intro allI impI)
  fix l sh0 z ins assume l: "fresh l" "l_rcode l = r" "cur_pi l = 0" "pipes l = for_pipes z ins its" "for_list l = Some []" "rpipe l = Some 0"
    and poll: "poll RES_FOR sh0 = Some sh"
  show "list_done exec table l sh0 (for_pipes (save_name l) ins its) (Code r) sh"
    using for_head_end [OF l(1,3-6) poll, of exec table] l(2) by (simp add: list_done_def)
qed

lemma for_pipes_fresh: "\<forall>p\<in>set (pipes l). r_mode p \<noteq> RES_XXXX \<Longrightarrow> pipes l = for_pipes z ins its \<Longrightarrow> \<forall>p\<in>set (for_pipes v ins its). r_mode p \<noteq> RES_XXXX"
  by (auto simp: for_pipes_def)

lemma sim_for_next:
  assumes v: "assign_word v sh = Some sh1" and s: "items_sim exec table RES_DO its 0 (return_code 0 sh1) out1 sh2"
    and exit: "out1 = Exit \<Longrightarrow> out = Exit \<and> sh' = sh2"
    and code: "\<And>r1. out1 = Code r1 \<Longrightarrow> \<exists>sh3. poll RES_FOR sh2 = Some sh3 \<and> for_sim exec table vs its r1 sh3 out sh'"
  shows "for_sim exec table (v # vs) its r sh out sh'"
  unfolding for_sim_def
proof (intro allI impI)
  fix l sh0 z ins assume o: "rest_ok its" "its \<noteq> INil" "list_all is_assignment (v # vs)" and l: "fresh l" "cur_pi l = 0"
    "pipes l = for_pipes z ins its" "for_list l = Some (v # vs)" "rpipe l = Some 0" "flag_rep l" and poll: "poll RES_FOR sh0 = Some sh"
  let ?l = "l\<lparr>pipes := for_pipes v ins its, for_list := Some vs, l_rcode := 0, cur_pi := 2\<rparr>"
  have v': "is_assignment v" using o(3) by simp
  have 1: "list_loop exec table l sh0 = list_loop exec table ?l (return_code 0 sh1)"
    by (rule for_head_next [OF l(1-5) poll v' v])
  have f: "fresh ?l" using l(1) for_pipes_fresh [OF _ l(3), of v] by (simp add: fresh_def)
  have d: "items_done exec table RES_DO its ?l (return_code 0 sh1) out1 sh2"
    by (rule items_simD [OF s _ o(1) f]) (use l for_pipes_parts(4) in \<open>simp_all add: item_modes_def active_def\<close>)
  show "list_done exec table l sh0 (for_pipes (save_name l) ins its) out sh'"
  proof (cases out1)
    case Exit
    then show ?thesis using d exit 1 by (simp add: items_done_def list_done_def)
  next
    case (Code r1)
    obtain sh3 where n: "poll RES_FOR sh2 = Some sh3" "for_sim exec table vs its r1 sh3 out sh'" using code [OF Code] by blast
    let ?l2 = "moved RES_DO (len its) r1 ?l"
    let ?l3 = "?l2\<lparr>cur_pi := 0, flag_restore := False\<rparr>"
    have f2: "fresh ?l2" "pipes ?l2 = for_pipes v ins its" "cur_pi ?l2 = len its + 2" "l_rcode ?l2 = r1" "rpipe ?l2 = Some 0" "flag_rep ?l2"
        "for_list ?l2 = Some vs" "save_name ?l2 = save_name l"
      using f l by (simp_all add: moved_facts) (simp_all add: moved_def)
    have "list_loop exec table ?l (return_code 0 sh1) = list_loop exec table ?l2 sh2" using d o(2) by (simp add: items_done_def Code)
    also have "\<dots> = list_loop exec table (?l2\<lparr>cur_pi := 0, flag_restore := True\<rparr>) sh2"
      by (rule done_again [OF f2(1,6,5)]) (use f2 for_pipes_parts(3,5) [of v ins its] in \<open>simp_all add: part_Cons\<close>)
    also have "\<dots> = list_loop exec table ?l3 sh2"
      using restart [of "?l2\<lparr>cur_pi := 0\<rparr>" exec table sh2] f2 by (simp add: head_modes_def for_pipes_def)
    finally have 2: "list_loop exec table l sh0 = list_loop exec table ?l3 sh2" using 1 by simp
    have "list_done exec table ?l3 sh2 (for_pipes (save_name ?l3) ins its) out sh'"
      by (rule for_simD [OF n(2) o(1,2) _ _ _ _ _ _ _ _ n(1), of _ v]) (use o(3) f2 in \<open>simp_all add: fresh_def\<close>)
    then show ?thesis using list_done_step [OF 2] f2(8) by simp
  qed
qed

text \<open>The first time at the head of a \<open>for\<close>.\<close>

lemma list_loop_pre:
  "list_pre l sh = list_pre l' sh \<Longrightarrow> cur_pi l < length (pipes l) \<Longrightarrow> cur_pi l' < length (pipes l') \<Longrightarrow>
   list_loop exec table l sh = list_loop exec table l' sh"
  by (simp add: list_loop.simps [of exec table l] list_loop.simps [of exec table l'])

lemma for_first:
  assumes l: "fresh l" "cur_pi l = 0" "pipes l = for_pipes x ins its" "for_list l = None" "rpipe l = None" and poll: "poll RES_FOR sh0 = Some sh"
    and ins: "pipe_argv (Pipe ins PIPE_SEQ RES_IN) \<noteq> []" "make_list_in sh (pipe_argv (Pipe ins PIPE_SEQ RES_IN)) x = Some vs"
  shows "list_loop exec table l sh0 =
    list_loop exec table (l\<lparr>flag_restore := False, flag_rep := True, rpipe := Some 0, for_list := Some vs, save_name := x\<rparr>) sh0"
proof (rule list_loop_pre)
  let ?l = "l\<lparr>flag_restore := False, flag_rep := True, rpipe := Some 0, for_list := Some vs, save_name := x\<rparr>"
  have p: "pipes l ! cur_pi l = Pipe [Child [x] [] 0] PIPE_SEQ RES_FOR" "cur_pi l < length (pipes l)" using l by (simp_all add: for_pipes_parts)
  have o1: "opened RES_FOR ?l = ?l" "opened RES_FOR l = l\<lparr>flag_restore := False, flag_rep := False, rpipe := Some 0\<rparr>"
    using l(2,5) by (simp_all add: opened_def head_modes_def)
  have "list_check (Pipe [Child [x] [] 0] PIPE_SEQ RES_FOR) (opened RES_FOR l) sh = list_check (Pipe [Child [x] [] 0] PIPE_SEQ RES_FOR) ?l sh"
    using l ins for_pipes_parts [of x ins its]
    by (cases vs) (simp_all add: o1 list_check_def Let_def fresh_def for_step_def rd_def pipe_argv_def)
  then show "list_pre l sh0 = list_pre ?l sh0"
    using list_pre_poll [of l sh0 sh] list_pre_poll [of ?l sh0 sh] poll p(1) l(2) by (simp add: o1(1))
qed (use l in \<open>simp_all add: for_pipes_parts\<close>)

lemma for_none_loop:
  assumes l: "fresh l" "cur_pi l = 0" "pipes l = for_pipes x [] its" "for_list l = None" "rpipe l = None" and poll: "poll RES_FOR sh0 = Some sh"
  shows "list_loop exec table l sh0 = Some (l_rcode l, pipes l, sh)"
proof -
  let ?l = "l\<lparr>flag_restore := False, flag_rep := False, rpipe := Some 0, flag_skip := True, skip_more := RES_XXXX\<rparr>"
  have p: "pipes l ! cur_pi l = Pipe [Child [x] [] 0] PIPE_SEQ RES_FOR" "cur_pi l < length (pipes l)" using l by (simp_all add: for_pipes_parts)
  have o1: "opened RES_FOR l = l\<lparr>flag_restore := False, flag_rep := False, rpipe := Some 0\<rparr>"
    using l(2,5) by (simp_all add: opened_def head_modes_def)
  have "list_check (Pipe [Child [x] [] 0] PIPE_SEQ RES_FOR) (opened RES_FOR l) sh = Some (Continue, ?l)"
    using l for_pipes_parts [of x "[]" its] by (simp add: o1 list_check_def Let_def fresh_def for_step_def rd_def pipe_argv_def)
  then have "list_pre l sh0 = Some (Continue, ?l, sh)"
    using list_pre_poll [of l sh0 sh] poll p(1) by simp
  from list_step [OF p(2) this, of exec table] have "list_loop exec table l sh0 = list_loop exec table (list_next ?l) sh" by simp
  also have "\<dots> = Some (l_rcode (list_next ?l), pipes (list_next ?l), sh)"
    by (rule for_tail [where z = x and ins = "[]"]) (use l in \<open>simp_all add: list_next_def fresh_def\<close>)
  finally show ?thesis by (simp add: list_next_def)
qed

text \<open>Lists of pipes that start.\<close>

lemma start_facts [simp]:
  "pipes (list_start ps) = ps" "cur_pi (list_start ps) = 0" "rpipe (list_start ps) = None" "l_rcode (list_start ps) = 0"
  "next_if_code (list_start ps) = 0" "for_list (list_start ps) = None" "flag_rep (list_start ps) = False"
  by (simp_all add: list_start_def)

lemma fresh_start: "\<forall>p\<in>set ps. r_mode p \<noteq> RES_XXXX \<Longrightarrow> fresh (list_start ps)"
  by (simp add: fresh_def list_start_def)

lemma mode_items: "p \<in> set (pipes_items m its) \<Longrightarrow> r_mode p = m"
  by (induction its rule: len.induct) auto

fun secs_len :: "secs \<Rightarrow> nat" where
  "secs_len SNil = 0"
| "secs_len (SCons m its ss) = secs_len ss + 1"

lemma mode_secs: "secs_ok ss \<Longrightarrow> p \<in> set (pipes_secs ss) \<Longrightarrow> r_mode p \<noteq> RES_FOR \<and> r_mode p \<noteq> RES_IN \<and> r_mode p \<noteq> RES_XXXX"
proof (induction ss rule: secs_len.induct)
  case (2 m its ss)
  have m: "m \<noteq> RES_FOR \<and> m \<noteq> RES_IN \<and> m \<noteq> RES_XXXX" "secs_ok ss" using "2.prems"(1) by auto
  have "r_mode p = m \<or> r_mode p = end_mode m \<or> r_mode p = RES_NONE \<or> p \<in> set (pipes_secs ss)"
    using "2.prems"(2) mode_items [of p m its] by (auto split: if_splits)
  then show ?case using m "2.IH" by (auto simp: end_mode_def split: if_splits)
qed simp

lemma no_syntax_error: "\<forall>p\<in>set ps. r_mode p \<noteq> RES_FOR \<and> r_mode p \<noteq> RES_IN \<Longrightarrow> \<not> for_syntax_error ps"
  by (auto simp: for_syntax_error_def)

lemma for_pipes_syntax: "\<not> for_syntax_error (for_pipes x ins its)"
proof -
  have m: "r_mode (for_pipes x ins its ! i) \<noteq> RES_FOR \<and> r_mode (for_pipes x ins its ! i) \<noteq> RES_IN" if i: "2 \<le> i" "i < length (for_pipes x ins its)" for i
  proof -
    have "for_pipes x ins its ! i \<in> set (drop 2 (for_pipes x ins its))"
      using i nth_mem [of "i - 2" "drop 2 (for_pipes x ins its)"] by (simp add: numeral_2_eq_2 Suc_diff_Suc less_eq_Suc_le)
    then have "for_pipes x ins its ! i \<in> set (pipes_items RES_DO its) \<or> r_mode (for_pipes x ins its ! i) \<in> {RES_DONE, RES_NONE}"
      by (auto simp: for_pipes_def)
    then show ?thesis using mode_items by fastforce
  qed
  have two: "r_mode (for_pipes x ins its ! 2) \<noteq> RES_IN" using m [of 2] by (simp add: for_pipes_parts)
  have "False" if e: "for_syntax_error (for_pipes x ins its)"
  proof -
    obtain i where i: "i < length (for_pipes x ins its)" and c: "(r_mode (for_pipes x ins its ! i) = RES_IN \<or> r_mode (for_pipes x ins its ! i) = RES_FOR) \<and> i + 1 = length (for_pipes x ins its) \<or>
     r_mode (for_pipes x ins its ! i) = RES_IN \<and> r_mode (for_pipes x ins its ! (i + 1)) = RES_IN \<and> pipe_argv (for_pipes x ins its ! (i + 1)) \<noteq> [] \<or>
     r_mode (for_pipes x ins its ! i) = RES_FOR \<and> r_mode (for_pipes x ins its ! (i + 1)) \<noteq> RES_IN"
      using e unfolding for_syntax_error_def set_upt Bex_def atLeastLessThan_iff by blast
    consider "i = 0" | "i = 1" | "2 \<le> i" by linarith
    then show False
      using c m [OF _ i] two by cases (simp_all add: for_pipes_parts numeral_2_eq_2)
  qed
  then show ?thesis by blast
qed

lemma pipe_runs_group:
  assumes ne: "g \<noteq> []" and s: "\<not> for_syntax_error g" and g: "pipes_stmt s = Child [] g n" and d: "list_done exec table (list_start g) sh g out sh'"
  shows "pipe_runs exec table s sh (code_of out) sh'"
  unfolding pipe_runs_def
proof (intro allI)
  fix st m
  obtain g' where g': "run_list_real exec table g sh = Some (code_of out, g', sh')" "out \<noteq> Exit \<Longrightarrow> g' = g"
    using d s by (cases out) (auto simp: list_done_def run_list_real_def run_list_real_with_def)
  show "\<exists>p. run_pipe exec table (Pipe [pipes_stmt s] st m) sh = Some (code_of out, p, sh') \<and> (- 1 \<le> code_of out \<longrightarrow> p = Pipe [pipes_stmt s] st m)"
    using g' unfolding g run_pipe_group [OF ne] by (cases out) simp_all
qed

lemma sim_if:
  assumes s: "items_sim exec table RES_IF its 0 sh out1 sh1"
    and n: "\<And>r1. out1 = Code r1 \<Longrightarrow> if_sim exec table ss r1 sh1 out sh'" and e: "out1 = Exit \<Longrightarrow> out = Exit \<and> sh' = sh1"
    and ok: "stmt_ok (Comp (SCons RES_IF its ss))" "stmt_fixed (Comp (SCons RES_IF its ss))"
  shows "pipe_runs exec table (Comp (SCons RES_IF its ss)) sh (code_of out) sh'"
proof -
  let ?ss = "SCons RES_IF its ss" and ?l = "list_start (pipes_secs (SCons RES_IF its ss))"
  have o: "rest_ok its" "its \<noteq> INil" "secs_ok ss" "secs_fixed ss" "secs_ok ?ss" using secs_rest [of RES_IF its ss] ok by simp_all
  have ss: "ss \<noteq> SNil" using ok(1) by (auto simp: end_mode_def)
  have f: "fresh ?l" by (rule fresh_start) (use mode_secs [OF o(5)] in blast)
  have p: "part (pipes ?l) 0 (pipes_items RES_IF its)" "part (pipes ?l) (len its) (pipes_secs ss)" "length (pipes ?l) = len its + length (pipes_secs ss)"
    using part_all [of "pipes_secs ?ss"] ss by (simp_all add: part_append len_items)
  have d: "items_done exec table RES_IF its ?l sh out1 sh1"
    by (rule items_simD [OF s _ o(1) f]) (use p(1) in \<open>simp_all add: item_modes_def active_def\<close>)
  have "list_done exec table ?l sh (pipes ?l) out sh'"
  proof (cases out1)
    case (Code r1)
    let ?l2 = "moved RES_IF (len its) r1 ?l"
    have 1: "list_loop exec table ?l sh = list_loop exec table ?l2 sh1" using d o(2) by (simp add: items_done_def Code)
    have "next_if_code ?l2 = r1" by (simp add: moved_def)
    then have "list_done exec table ?l2 sh1 (pipes ?l2) out sh'"
      by (intro if_simD [OF n [OF Code] o(3,4)]) (use f p in \<open>simp_all add: moved_facts\<close>)
    then show ?thesis using list_done_step [OF 1] by (simp add: moved_facts)
  qed (use d e in \<open>simp add: items_done_def list_done_def\<close>)
  moreover have "\<not> for_syntax_error (pipes_secs ?ss)" by (rule no_syntax_error) (use mode_secs [OF o(5)] in blast)
  moreover have "pipes_secs ?ss \<noteq> []" using items_first_mode [OF o(2), of RES_IF] by auto
  ultimately show ?thesis by (intro pipe_runs_group [of "pipes_secs ?ss" _ 0]) simp_all
qed

lemma sim_loop:
  assumes m: "m = RES_WHILE \<or> m = RES_UNTIL" and s: "loop_sim exec table m its body 0 sh out sh'"
    and ok: "stmt_ok (Comp (SCons m its (SCons RES_DO body SNil)))" "stmt_fixed (Comp (SCons m its (SCons RES_DO body SNil)))"
  shows "pipe_runs exec table (Comp (SCons m its (SCons RES_DO body SNil))) sh (code_of out) sh'"
proof -
  let ?ss = "SCons m its (SCons RES_DO body SNil)"
  have o: "rest_ok its" "its \<noteq> INil" "rest_ok body" "body \<noteq> INil" "secs_ok ?ss"
    using secs_rest [of m its "SCons RES_DO body SNil"] secs_rest [of RES_DO body SNil] ok by simp_all
  have p: "pipes_secs ?ss = pipes_items m its @ pipes_items RES_DO body @ [Pipe [] PIPE_SEQ RES_DONE, Pipe [] PIPE_NONE RES_NONE]"
    by (simp add: end_mode_def)
  have f: "fresh (list_start (pipes_secs ?ss))" by (rule fresh_start) (use mode_secs [OF o(5)] in blast)
  have "list_done exec table (list_start (pipes_secs ?ss)) sh (pipes (list_start (pipes_secs ?ss))) out sh'"
    by (rule loop_simD [OF s m o(1-4) f]) (use p in simp_all)
  moreover have "\<not> for_syntax_error (pipes_secs ?ss)" by (rule no_syntax_error) (use mode_secs [OF o(5)] in blast)
  moreover have "pipes_secs ?ss \<noteq> []" unfolding p by simp
  ultimately show ?thesis by (intro pipe_runs_group [of "pipes_secs ?ss" _ 0]) simp_all
qed

lemma pipes_for: "pipes_stmt (For x ws its) = Child [] (for_pipes x (if ws = [] then [] else [simple_child ws]) its) 0"
  by (simp add: for_pipes_def)

lemma for_value_assignment:
  assumes "shell_name x" and "list_all name_char x"
  shows "is_assignment (x @ CHR ''='' # w)"
proof -
  obtain c t where x: "x = c # t" "isalpha c" using assms(1) by (cases x) (auto simp: shell_name_def)
  have t: "\<forall>d\<in>set t. isalnum d \<or> d = CHR ''_''" using assms(2) by (simp add: x list_all_iff name_char_def)
  have "\<not> isalnum CHR ''=''" by (simp add: isalnum_def ismask_def ctype_def)
  then have "dropWhile (\<lambda>c. isalnum c \<or> c = CHR ''_'') (t @ CHR ''='' # w) = CHR ''='' # w"
    using t by (subst dropWhile_append2) auto
  then show ?thesis using x by (simp add: is_assignment_def)
qed

lemma for_values_assignments:
  assumes "shell_name x" and "list_all name_char x"
  shows "make_list_in sh ws x = Some vs \<Longrightarrow> list_all is_assignment vs"
proof (induction ws arbitrary: vs)
  case (Cons w ws)
  then obtain n p rest where "insert_var_value sh w = Some (n, p)" "make_list_in sh ws x = Some rest"
      "vs = map (\<lambda>w. x @ CHR ''='' # w) (blank_words p) @ rest"
    by (auto simp: bind_eq_Some_conv)
  then show ?case using Cons.IH for_value_assignment [OF assms] by (auto simp: list_all_iff)
qed simp

lemma pipe_argv_one: "pipe_argv (Pipe [ch] st m) = argv ch"
  by (simp add: pipe_argv_def)

lemma sim_for:
  assumes poll: "poll RES_FOR sh = Some sh1" and ws: "ws \<noteq> []" and vs: "make_list_in sh1 (argv (simple_child ws)) x = Some vs"
    and s: "for_sim exec table vs its 0 sh1 out sh'" and ok: "stmt_ok (For x ws its)" "stmt_fixed (For x ws its)"
  shows "pipe_runs exec table (For x ws its) sh (code_of out) sh'"
proof -
  let ?ps = "for_pipes x [simple_child ws] its"
  let ?l = "(list_start ?ps)\<lparr>flag_restore := False, flag_rep := True, rpipe := Some 0, for_list := Some vs, save_name := x\<rparr>"
  have o: "rest_ok its" "its \<noteq> INil" "shell_name x" "list_all name_char x"
    using ok by (cases its; simp add: rest_ok_def for_name_def)+
  have v: "list_all is_assignment vs" by (rule for_values_assignments [OF o(3,4) vs])
  have m: "\<forall>p\<in>set ?ps. r_mode p \<noteq> RES_XXXX" using mode_items by (fastforce simp: for_pipes_def)
  have f: "fresh (list_start ?ps)" "fresh ?l" using fresh_start [OF m] by (simp_all add: fresh_def)
  have 1: "list_loop exec table (list_start ?ps) sh = list_loop exec table ?l sh"
  proof (rule for_first [OF f(1) _ _ _ _ poll])
    show "pipes (list_start ?ps) = ?ps" by simp
    show "pipe_argv (Pipe [simple_child ws] PIPE_SEQ RES_IN) \<noteq> []" unfolding pipe_argv_one using ws by simp
    show "make_list_in sh1 (pipe_argv (Pipe [simple_child ws] PIPE_SEQ RES_IN)) x = Some vs" unfolding pipe_argv_one using vs .
  qed simp_all
  have "list_done exec table ?l sh (for_pipes (save_name ?l) [simple_child ws] its) out sh'"
    by (rule for_simD [OF s o(1,2) v f(2) _ _ _ _ _ _ poll]) simp_all
  then have "list_done exec table (list_start ?ps) sh ?ps out sh'" using list_done_step [OF 1] by simp
  then show ?thesis using ws pipes_for [of x ws its]
    by (intro pipe_runs_group [OF _ for_pipes_syntax, where n = 0]) (simp_all add: for_pipes_def)
qed

lemma sim_for_none:
  assumes poll: "poll RES_FOR sh = Some sh'"
  shows "pipe_runs exec table (For x [] its) sh 0 sh'"
proof -
  have m: "\<forall>p\<in>set (for_pipes x [] its). r_mode p \<noteq> RES_XXXX" using mode_items by (fastforce simp: for_pipes_def)
  have "list_loop exec table (list_start (for_pipes x [] its)) sh = Some (0, for_pipes x [] its, sh')"
    using for_none_loop [OF fresh_start [OF m] _ _ _ _ poll, where exec = exec and table = table] by simp
  then have "list_done exec table (list_start (for_pipes x [] its)) sh (for_pipes x [] its) (Code 0) sh'" by (simp add: list_done_def)
  then have "pipe_runs exec table (For x [] its) sh (code_of (Code 0)) sh'" using pipes_for [of x "[]" its]
    by (intro pipe_runs_group [OF _ for_pipes_syntax, where n = 0]) (simp_all add: for_pipes_def)
  then show ?thesis by simp
qed

lemma runs_sim:
  "stmt_runs exec table s sh rc sh' \<Longrightarrow> stmt_ok s \<longrightarrow> stmt_fixed s \<longrightarrow> pipe_runs exec table s sh rc sh'"
  "items_run exec table m its r sh out sh' \<Longrightarrow> items_sim exec table m its r sh out sh'"
  "if_runs exec table ss r sh out sh' \<Longrightarrow> if_sim exec table ss r sh out sh'"
  "loop_runs exec table m its body r sh out sh' \<Longrightarrow> loop_sim exec table m its body r sh out sh'"
  "for_runs exec table vs its r sh out sh' \<Longrightarrow> for_sim exec table vs its r sh out sh'"
proof (induction rule: stmt_runs_items_run_if_runs_loop_runs_for_runs.inducts)
  case (simple ws sh rc sh')
  then show ?case using run_pipe_simple [of ws exec table sh rc sh'] by (simp add: pipe_runs_def)
next
  case (if_exit its sh sh' ss)
  then show ?case using sim_if [of exec table its sh Exit sh' ss Exit sh'] by simp
next
  case (if_code its sh r sh1 ss out sh')
  then show ?case using sim_if [of exec table its sh "Code r" sh1 ss out sh'] by simp
next
  case (loop m its body sh out sh')
  then show ?case using sim_loop by blast
next
  case (for_none sh sh' x its)
  then show ?case using sim_for_none by blast
next
  case (for_some ws sh sh1 x vs its out sh')
  then show ?case using sim_for by blast
next
  case (nil m r sh)
  show ?case by (rule sim_nil)
next
  case (cons_exit m sh sh1 s rc sh2 st its r)
  then show ?case by (intro sim_cons_exit) simp_all
next
  case (cons m sh sh1 s rc sh2 st its its' sh3 out sh' r)
  then show ?case by (intro sim_cons [of m sh sh1 s exec table rc sh2 st its its' sh3 out sh']) simp_all
next
  case (then_run its sh out sh' ss)
  then show ?case by (intro sim_then_run)
next
  case (then_end r its sh)
  then show ?case by (rule sim_then_end)
next
  case (then_else r its' sh out sh' its)
  then show ?case by (intro sim_then_else)
next
  case (then_elif_exit r its' sh sh' its ss)
  then show ?case by (intro sim_then_elif [where ?out1.0 = Exit and ?sh1.0 = sh']) simp_all
next
  case (then_elif r its' sh r1 sh1 ss out sh' its)
  then show ?case by (intro sim_then_elif [where ?out1.0 = "Code r1" and ?sh1.0 = sh1]) simp_all
next
  case (head_exit m its r sh sh' body)
  then show ?case by (intro sim_head [where ?out1.0 = Exit and ?sh1.0 = sh']) simp_all
next
  case (head_stop m its r sh r1 sh' body)
  then show ?case by (intro sim_head [where ?out1.0 = "Code r1" and ?sh1.0 = sh']) simp_all
next
  case (body_exit m its r sh r1 sh1 body sh')
  then show ?case by (intro sim_head [where ?out1.0 = "Code r1" and ?sh1.0 = sh1]) (auto intro!: exI [of _ Exit] exI [of _ sh'])
next
  case (body_code m its r sh r1 sh1 body r2 sh2 out sh')
  then show ?case by (intro sim_head [where ?out1.0 = "Code r1" and ?sh1.0 = sh1]) (auto intro!: exI [of _ "Code r2"] exI [of _ sh2])
next
  case (for_end its r sh)
  show ?case by (rule sim_for_end)
next
  case (for_exit v sh sh1 its sh' vs r)
  then show ?case by (intro sim_for_next [where ?out1.0 = Exit and ?sh2.0 = sh' and ?sh1.0 = sh1]) simp_all
next
  case (for_next v sh sh1 its r1 sh2 sh3 vs out sh' r)
  then show ?case by (intro sim_for_next [where ?out1.0 = "Code r1" and ?sh2.0 = sh2 and ?sh1.0 = sh1]) simp_all
qed

section \<open>Simple commands\<close>

lemma no_ref_count: "\<not> has_ref w \<Longrightarrow> count_refs w = 0"
  by (simp add: has_ref_def count_refs_def)

text \<open>A command without variables and without an assignment in front of it is looked up and called.\<close>

lemma simple_run_plain:
  assumes "list_all (\<lambda>w. \<not> has_ref (sword_of w)) ws" and "ws \<noteq> []" and a: "\<not> is_assignment (word_text (sword_of (hd ws)))"
  shows "simple_run exec table ws sh = call_command exec table (map (\<lambda>w. word_text (sword_of w)) ws) 0 sh"
proof -
  have "(\<Sum>w\<leftarrow>ws. count_refs (sword_of w)) = 0" using assms(1) by (induction ws) (simp_all add: no_ref_count)
  moreover have "takeWhile is_assignment (map (\<lambda>w. word_text (sword_of w)) ws) = []" using assms(2) a by (cases ws) auto
  ultimately show ?thesis
    by (cases "call_command exec table (map (\<lambda>w. word_text (sword_of w)) ws) 0 sh") (auto simp: simple_run_def run_child_def)
qed

lemma call_command_found:
  assumes "CHR '';'' \<notin> set (hd args)" and "args \<noteq> []" and "find_cmd_tbl (hd args) table = Some c" and "length args \<le> maxargs c"
  shows "call_command exec table args 0 sh = do {
    (rc, sh) \<leftarrow> exec c ((if do_repeat sh then CMD_FLAG_REPEAT else 0) OR (if is_bootd c then CMD_FLAG_BOOTD else 0)) (length args)
      (map Some args @ [None]) sh;
    Some (rc, if repeatable c then sh else sh\<lparr>flag_repeat := False\<rparr>) }"
  using assms by (simp add: call_command_def hd_conv_nth)

section \<open>The end of loops\<close>

lemma loop_runs_ex:
  assumes m: "m = RES_WHILE \<or> m = RES_UNTIL"
    and step: "\<And>r sh. Q sh \<Longrightarrow> \<exists>out sh1. items_run exec table m its r sh out sh1 \<and>
      (\<forall>r1. out = Code r1 \<and> (r1 = 0 \<longleftrightarrow> m = RES_WHILE) \<longrightarrow>
        (\<exists>out2 sh2. items_run exec table RES_DO body r1 sh1 out2 sh2 \<and> (out2 \<noteq> Exit \<longrightarrow> Q sh2 \<and> M sh2 < (M sh :: nat))))"
  shows "Q sh \<Longrightarrow> \<exists>out sh'. loop_runs exec table m its body r sh out sh'"
proof (induction "M sh" arbitrary: r sh rule: less_induct)
  case less
  obtain out sh1 where 1: "items_run exec table m its r sh out sh1"
      "\<forall>r1. out = Code r1 \<and> (r1 = 0 \<longleftrightarrow> m = RES_WHILE) \<longrightarrow>
        (\<exists>out2 sh2. items_run exec table RES_DO body r1 sh1 out2 sh2 \<and> (out2 \<noteq> Exit \<longrightarrow> Q sh2 \<and> M sh2 < M sh))"
    using step [OF less.prems] by blast
  show ?case
  proof (cases out)
    case Exit
    then show ?thesis using 1(1) head_exit by blast
  next
    case (Code r1)
    show ?thesis
    proof (cases "r1 = 0 \<longleftrightarrow> m = RES_WHILE")
      case False
      then have "r1 = 0 \<longleftrightarrow> m = RES_UNTIL" using m by auto
      then show ?thesis using 1(1) head_stop unfolding Code by blast
    next
      case True
      then obtain out2 sh2 where 2: "items_run exec table RES_DO body r1 sh1 out2 sh2" "out2 \<noteq> Exit \<longrightarrow> Q sh2 \<and> M sh2 < M sh"
        using 1(2) Code by blast
      show ?thesis
      proof (cases out2)
        case Exit
        then show ?thesis using body_exit [OF 1(1) [unfolded Code] True] 2(1) by blast
      next
        case c2: (Code r2)
        then obtain out3 sh3 where "loop_runs exec table m its body r2 sh2 out3 sh3" using less.hyps 2(2) by blast
        then show ?thesis using body_code [OF 1(1) [unfolded Code] True 2(1) [unfolded c2]] by blast
      qed
    qed
  qed
qed

section \<open>Properties\<close>

text \<open>
  C1: Running a command does what the semantics says: for simple commands, \<open>if\<close> with any number of
  \<open>elif\<close>, \<open>while\<close>, \<open>until\<close> and \<open>for\<close>, nested to any depth, \<open>run_pipe_real\<close> on the pipes that stand for
  the command returns its code and its state, and leaves the pipes as they were, so that a loop can run
  them again; \<open>exit\<close> ends all of them.  The command is one that can be written down (\<open>stmt_ok\<close>), and it has no
  variable in assignments that stand before a command, nor a \<open>for\<close> variable that is no name (\<open>stmt_fixed\<close>):
  the code counts \<open>child->sp\<close> down there and does not restore it for the next round.
\<close>

theorem run_pipe_correct:
  assumes "stmt_ok s" and "stmt_fixed s" and "stmt_runs exec table s sh rc sh'"
  shows "\<exists>p. run_pipe exec table (Pipe [pipes_stmt s] st m) sh = Some (rc, p, sh') \<and> (- 1 \<le> rc \<longrightarrow> p = Pipe [pipes_stmt s] st m)"
  using runs_sim(1) [OF assms(3)] assms(1,2) by (simp add: pipe_runs_def)

text \<open>Two commands on a counter: \<open>more\<close> says whether there is something left, \<open>next\<close> takes one away.\<close>

definition count_exec :: executor where
  "count_exec c flag argc args sh = (if cmd_name c = ''next'' then Some (0, sh\<lparr>polls := tl (polls sh)\<rparr>) else Some (if polls sh = [] then 1 else 0, sh))"

definition count_table :: "cmd_tbl list" where
  "count_table = [\<lparr>cmd_name = ''next'', maxargs = 1, repeatable = True, is_bootd = False\<rparr>,
     \<lparr>cmd_name = ''more'', maxargs = 1, repeatable = True, is_bootd = False\<rparr>]"

abbreviation "cmd_more \<equiv> Simple [[SText ''more'']]"
abbreviation "cmd_next \<equiv> Simple [[SText ''next'']]"

lemma count_words: "\<not> is_assignment ''more''" "\<not> is_assignment ''next''"
  by (simp_all add: is_assignment_def isalpha_def isalnum_def ismask_def ctype_def)

lemma run_more: "stmt_runs count_exec count_table cmd_more sh (if polls sh = [] then 1 else 0) sh"
proof (rule simple)
  have "simple_run count_exec count_table [[SText ''more'']] sh = call_command count_exec count_table [''more''] 0 sh"
    using simple_run_plain [of "[[SText ''more'']]"] count_words(1) by (simp add: sword_of_def word_text_def has_ref_def)
  also have "\<dots> = Some (if polls sh = [] then 1 else 0, sh)"
    by (simp add: call_command_found count_table_def find_cmd_tbl_def cmd_len_def count_exec_def)
  finally show "simple_run count_exec count_table [[SText ''more'']] sh = Some (if polls sh = [] then 1 else 0, sh)" .
qed

lemma run_next: "stmt_runs count_exec count_table cmd_next sh 0 (sh\<lparr>polls := tl (polls sh)\<rparr>)"
proof (rule simple)
  have "simple_run count_exec count_table [[SText ''next'']] sh = call_command count_exec count_table [''next''] 0 sh"
    using simple_run_plain [of "[[SText ''next'']]"] count_words(2) by (simp add: sword_of_def word_text_def has_ref_def)
  also have "\<dots> = Some (0, sh\<lparr>polls := tl (polls sh)\<rparr>)"
    by (simp add: call_command_found count_table_def find_cmd_tbl_def cmd_len_def count_exec_def)
  finally show "simple_run count_exec count_table [[SText ''next'']] sh = Some (0, sh\<lparr>polls := tl (polls sh)\<rparr>)" .
qed

lemma run_one:
  assumes "stmt_runs exec table s sh rc sh1" and "- 1 \<le> rc" and "poll m sh = Some sh"
  shows "items_run exec table m (ICons s PIPE_SEQ INil) r sh (Code rc) (return_code rc sh1)"
  by (rule cons [OF assms(3,1,2) _ nil]) (simp add: after_item_def chain_stops_def)

lemma count_ok: "sword_ok [SText ''more'']" "sword_ok [SText ''next'']" "first_ok [SText ''more'']" "first_ok [SText ''next'']"
  by (simp_all add: sword_ok_def first_ok_def plain_text_def no_mark_def word_data_def reserved_list_def)

abbreviation "count_if \<equiv> Comp (SCons RES_IF (ICons cmd_more PIPE_SEQ INil) (SCons RES_THEN (ICons cmd_next PIPE_SEQ INil) SNil))"

lemma count_if_ok: "stmt_ok count_if" "stmt_fixed count_if"
  using count_ok by (simp_all add: end_mode_def words_fixed_def sword_of_def word_text_def count_words)

text \<open>\<open>if more; then next; fi\<close> with one left and with none.\<close>

theorem run_pipe_correct_witness:
  "(\<exists>p. run_pipe count_exec count_table (Pipe [pipes_stmt count_if] PIPE_SEQ RES_NONE) (demo_shell\<lparr>polls := [None]\<rparr>) =
     Some (0, p, demo_shell\<lparr>polls := [], last_return_code := 0\<rparr>)) \<and>
   (\<exists>p. run_pipe count_exec count_table (Pipe [pipes_stmt count_if] PIPE_SEQ RES_NONE) (demo_shell\<lparr>polls := []\<rparr>) =
     Some (1, p, demo_shell\<lparr>polls := [], last_return_code := 1\<rparr>))"
proof -
  have p: "poll RES_IF sh = Some sh" "poll RES_THEN sh = Some sh" for sh by (simp_all add: poll_def head_modes_def)
  have m: "items_run count_exec count_table RES_IF (ICons cmd_more PIPE_SEQ INil) 0 sh (Code (if polls sh = [] then 1 else 0))
      (return_code (if polls sh = [] then 1 else 0) sh)" for sh
    by (rule run_one [OF run_more _ p(1)]) simp
  let ?a = "demo_shell\<lparr>polls := [None]\<rparr>" and ?b = "demo_shell\<lparr>polls := []\<rparr>"
  have "if_runs count_exec count_table (SCons RES_THEN (ICons cmd_next PIPE_SEQ INil) SNil) 0 (return_code 0 ?a) (Code 0)
      (return_code 0 ((return_code 0 ?a)\<lparr>polls := tl (polls (return_code 0 ?a))\<rparr>))"
    by (rule then_run, rule run_one [OF run_next _ p(2)]) simp
  from if_code [OF _ this] have "stmt_runs count_exec count_table count_if ?a 0 (demo_shell\<lparr>polls := [], last_return_code := 0\<rparr>)"
    using m [of ?a] by (simp add: return_code_def)
  moreover have "stmt_runs count_exec count_table count_if ?b 1 (demo_shell\<lparr>polls := [], last_return_code := 1\<rparr>)"
    using if_code [OF m [of ?b] then_end] by (simp add: return_code_def)
  ultimately show ?thesis
    using run_pipe_correct [OF count_if_ok, of count_exec count_table ?a 0 _ PIPE_SEQ RES_NONE]
      run_pipe_correct [OF count_if_ok, of count_exec count_table ?b 1 _ PIPE_SEQ RES_NONE] by blast
qed

text \<open>
  C17: Loops end: when the condition always returns, and each round of the body either leaves with \<open>exit\<close>
  or makes a measure smaller, the code comes out of a \<open>while\<close> or \<open>until\<close> with a result.  As for the
  semantics, the loop has no variable in assignments that stand before a command (\<open>stmt_fixed\<close>).
\<close>

theorem loop_terminates:
  assumes "m = RES_WHILE \<or> m = RES_UNTIL" and "stmt_ok (Comp (SCons m its (SCons RES_DO body SNil)))"
    and "stmt_fixed (Comp (SCons m its (SCons RES_DO body SNil)))"
    and "\<And>r sh. Q sh \<Longrightarrow> \<exists>out sh1. items_run exec table m its r sh out sh1 \<and>
      (\<forall>r1. out = Code r1 \<and> (r1 = 0 \<longleftrightarrow> m = RES_WHILE) \<longrightarrow>
        (\<exists>out2 sh2. items_run exec table RES_DO body r1 sh1 out2 sh2 \<and> (out2 \<noteq> Exit \<longrightarrow> Q sh2 \<and> M sh2 < (M sh :: nat))))"
    and "Q sh"
  shows "\<exists>rc p sh'. run_pipe exec table (Pipe [pipes_stmt (Comp (SCons m its (SCons RES_DO body SNil)))] st md) sh = Some (rc, p, sh')"
proof -
  obtain out sh' where "loop_runs exec table m its body 0 sh out sh'"
    using loop_runs_ex [of m Q exec table its body M, OF assms(1,4,5)] by blast
  from loop [OF assms(1) this] runs_sim(1) assms(2,3) show ?thesis unfolding pipe_runs_def by blast
qed

text \<open>\<open>while more; do next; done\<close>\<close>

theorem loop_terminates_witness:
  "\<exists>rc p sh'. run_pipe count_exec count_table (Pipe [pipes_stmt (Comp (SCons RES_WHILE (ICons cmd_more PIPE_SEQ INil)
     (SCons RES_DO (ICons cmd_next PIPE_SEQ INil) SNil)))] PIPE_SEQ RES_NONE) (demo_shell\<lparr>polls := [None, None, None], ctrlc_disabled := True, ctrlc_was_pressed := False\<rparr>) = Some (rc, p, sh')"
proof (rule loop_terminates [where Q = "\<lambda>sh :: shell. ctrlc_disabled sh \<and> \<not> had_ctrlc sh" and M = "\<lambda>sh :: shell. length (polls sh)"])
  let ?m = "ICons cmd_more PIPE_SEQ INil" and ?n = "ICons cmd_next PIPE_SEQ INil"
  show "stmt_ok (Comp (SCons RES_WHILE ?m (SCons RES_DO ?n SNil)))" "stmt_fixed (Comp (SCons RES_WHILE ?m (SCons RES_DO ?n SNil)))"
    using count_ok by (simp_all add: end_mode_def words_fixed_def sword_of_def word_text_def count_words)
  fix r :: int and sh :: shell
  let ?c = "if polls sh = [] then 1 else 0 :: int" let ?s1 = "return_code ?c sh" let ?s2 = "return_code 0 (?s1\<lparr>polls := tl (polls ?s1)\<rparr>)"
  assume q: "ctrlc_disabled sh \<and> \<not> had_ctrlc sh"
  have 1: "items_run count_exec count_table RES_WHILE ?m r sh (Code ?c) ?s1"
    by (rule run_one [OF run_more]) (use q in \<open>simp_all add: poll_def ctrlc_def\<close>)
  have 2: "items_run count_exec count_table RES_DO ?n r1 ?s1 (Code 0) ?s2" for r1
    by (rule run_one [OF run_next]) (simp_all add: poll_def head_modes_def)
  have 3: "polls sh \<noteq> [] \<Longrightarrow> (ctrlc_disabled ?s2 \<and> \<not> had_ctrlc ?s2) \<and> length (polls ?s2) < length (polls sh)"
    using q by (simp add: return_code_def had_ctrlc_def)
  show "\<exists>out sh1. items_run count_exec count_table RES_WHILE ?m r sh out sh1 \<and>
      (\<forall>r1. out = Code r1 \<and> (r1 = 0 \<longleftrightarrow> RES_WHILE = RES_WHILE) \<longrightarrow>
        (\<exists>out2 sh2. items_run count_exec count_table RES_DO ?n r1 sh1 out2 sh2 \<and>
          (out2 \<noteq> Exit \<longrightarrow> (ctrlc_disabled sh2 \<and> \<not> had_ctrlc sh2) \<and> length (polls sh2) < length (polls sh))))"
    using 1 2 3 by (intro exI [of _ "Code ?c"] exI [of _ ?s1] conjI allI impI exI [of _ "Code 0"] exI [of _ ?s2]) (auto split: if_splits)
qed (simp_all add: had_ctrlc_def)

end
