(* ===== verification/HushWf.thy ===== *)
theory HushWf
  imports HushParse
begin

text \<open>
  What the parser of the \<^verbatim>\<open>hush\<close> shell (\<^verbatim>\<open>common/hush.c\<close>) makes of any text, right or wrong: the shape of the
  pipes it hands over, and its stack of contexts.
\<close>

section \<open>The invariant\<close>

text \<open>A child has words or a group, not both; a pipe has at most one child, which is not empty.\<close>

fun wf_child :: "child_prog \<Rightarrow> bool" and wf_pipe :: "pipe \<Rightarrow> bool" where
  "wf_child (Child a g n) = ((a = [] \<or> g = []) \<and> (\<forall>p\<in>set g. wf_pipe p))"
| "wf_pipe (Pipe ps st m) = (length ps \<le> 1 \<and> (\<forall>c\<in>set ps. wf_child c \<and> (argv c \<noteq> [] \<or> group c \<noteq> [])))"

definition wf_ctx :: "p_context \<Rightarrow> bool" where
  "wf_ctx c \<longleftrightarrow> wf_child (ctx_child c) \<and> (\<forall>p\<in>set (ctx_list c). wf_pipe p) \<and> ctx_progs c = []"

text \<open>The contexts on the stack wait for a group; the one at the bottom is inside no compound command.\<close>

definition wf_parser :: "parser \<Rightarrow> bool" where
  "wf_parser p \<longleftrightarrow> wf_ctx (ctx p) \<and> (\<forall>c\<in>set (stack p). wf_ctx c \<and> argv (ctx_child c) = []) \<and> old_flag (last (ctx p # stack p)) = {}"

lemma wf_initial: "wf_ctx initialize_context"
  by (simp add: wf_ctx_def initialize_context_def)

lemma done_pipe_wf:
  assumes "wf_ctx c"
  shows "wf_ctx (done_pipe st c)" and "old_flag (done_pipe st c) = old_flag c"
  using assms by (cases "ctx_child c") (auto simp: wf_ctx_def done_pipe_def done_command_def Let_def)

lemma list_head_wf: "wf_ctx c \<Longrightarrow> p \<in> set (list_head c) \<Longrightarrow> wf_pipe p"
  by (auto simp: list_head_def wf_ctx_def)

text \<open>What keeps the contexts.\<close>

definition same_ctx :: "parser \<Rightarrow> parser \<Rightarrow> bool" where
  "same_ctx p p' \<longleftrightarrow> stack p' = stack p \<and> (\<exists>k. ctx p' = ctx p\<lparr>ctx_child := Child (argv (ctx_child (ctx p))) (group (ctx_child (ctx p))) k\<rparr>)"

lemma same_ctx_refl: "ctx p' = ctx p \<Longrightarrow> stack p' = stack p \<Longrightarrow> same_ctx p p'"
  unfolding same_ctx_def by (cases "ctx p"; cases "ctx_child (ctx p)") auto

lemma same_ctx_trans: "same_ctx p q \<Longrightarrow> same_ctx q r \<Longrightarrow> same_ctx p r"
  by (auto simp: same_ctx_def)

lemma same_ctx_wf: "same_ctx p p' \<Longrightarrow> wf_parser p \<Longrightarrow> wf_parser p'"
  by (cases "ctx_child (ctx p)"; cases "stack p") (auto simp: same_ctx_def wf_parser_def wf_ctx_def)

lemma add_dest_same: "same_ctx p (add_dest c p)" "same_ctx p (add_qdest c p)"
  by (rule same_ctx_refl; simp add: add_dest_def add_qdest_def)+

lemma count_sp_same: "same_ctx p (count_sp p)"
  by (cases "ctx_child (ctx p)") (auto simp: same_ctx_def count_sp_def)

lemma static_get_same: "static_get p = Some (c, p') \<Longrightarrow> same_ctx p p'"
  by (rule same_ctx_refl; auto simp: static_get_def split: option.splits list.splits)


lemma read_until_same: "read_until close p = Some x \<Longrightarrow> same_ctx p (snd x)"
proof (erule read_until.raw_induct [where P = "\<lambda>close p x. same_ctx p (snd x)", rotated])
  fix f close p and x :: "bool \<times> parser"
  assume IH: "\<And>close p x. f close p = Some x \<Longrightarrow> same_ctx p (snd x)"
    and body: "do {
     (ch, p) \<leftarrow> static_get p;
     (case ch of
        None \<Rightarrow> Some (False, p)
      | Some c \<Rightarrow> if c = close then Some (True, p) else f close (add_dest c p)) } = Some x"
  from body obtain ch q where g: "static_get p = Some (ch, q)" by (auto simp: bind_eq_Some_conv)
  note s = static_get_same [OF g]
  show "same_ctx p (snd x)"
  proof (cases ch)
    case None
    then show ?thesis using body g s by auto
  next
    case (Some c)
    show ?thesis
    proof (cases "c = close")
      case True
      then show ?thesis using body g s Some by auto
    next
      case False
      then have "f close (add_dest c q) = Some x" using body g Some by simp
      from IH [OF this] show ?thesis using s add_dest_same(1) same_ctx_trans by blast
    qed
  qed
qed

lemma read_name_same: "read_name p = Some x \<Longrightarrow> same_ctx p x"
proof (erule read_name.raw_induct [where P = same_ctx, rotated])
  fix f p x
  assume IH: "\<And>p x. f p = Some x \<Longrightarrow> same_ctx p x"
    and body: "do {
     ch \<leftarrow> static_peek p;
     if isalnum ch \<or> ch = CHR ''_''
     then do { (_, p) \<leftarrow> static_get p; f (add_dest ch p) }
     else Some p } = Some x"
  from body obtain ch where c: "static_peek p = Some ch" by (auto simp: bind_eq_Some_conv)
  show "same_ctx p x"
  proof (cases "isalnum ch \<or> ch = CHR ''_''")
    case True
    then obtain k q where g: "static_get p = Some (k, q)" "f (add_dest ch q) = Some x" using body c by (auto simp: bind_eq_Some_conv)
    then show ?thesis using IH [OF g(2)] static_get_same [OF g(1)] add_dest_same(1) same_ctx_trans by blast
  next
    case False
    then show ?thesis using body c by (auto intro: same_ctx_refl)
  qed
qed

lemma skip_comment_same: "skip_comment p = Some x \<Longrightarrow> same_ctx p x"
proof (erule skip_comment.raw_induct [where P = same_ctx, rotated])
  fix f p x
  assume IH: "\<And>p x. f p = Some x \<Longrightarrow> same_ctx p x"
    and body: "do {
     ch \<leftarrow> static_peek p;
     if ch \<noteq> LF then do { (_, p) \<leftarrow> static_get p; f p } else Some p } = Some x"
  from body obtain ch where c: "static_peek p = Some ch" by (auto simp: bind_eq_Some_conv)
  show "same_ctx p x"
  proof (cases "ch = LF")
    case True
    then show ?thesis using body c by (auto intro: same_ctx_refl)
  next
    case False
    then obtain k q where g: "static_get p = Some (k, q)" "f q = Some x" using body c by (auto simp: bind_eq_Some_conv)
    then show ?thesis using IH [OF g(2)] static_get_same [OF g(1)] same_ctx_trans by blast
  qed
qed

lemma handle_dollar_same: "handle_dollar p = Some (b, p') \<Longrightarrow> same_ctx p p'"
proof -
  assume h: "handle_dollar p = Some (b, p')"
  obtain ch where c: "static_peek p = Some ch" using h by (auto simp: handle_dollar_def bind_eq_Some_conv)
  note t = same_ctx_trans and a = add_dest_same and n = count_sp_same
  show ?thesis
  proof (cases "isalpha ch")
    case True
    then obtain q where q: "read_name (count_sp (add_dest SPECIAL_VAR_SYMBOL p)) = Some q" "p' = add_dest SPECIAL_VAR_SYMBOL q"
      using h c by (auto simp: handle_dollar_def bind_eq_Some_conv)
    show ?thesis unfolding q(2) by (rule t [OF a(1) t [OF n t [OF read_name_same [OF q(1)] a(1)]]])
  next
    case na: False
    consider (query) "ch = CHR ''?''" | (brace) "ch = CHR ''{''" | (other) "ch \<noteq> CHR ''?''" "ch \<noteq> CHR ''{''" by blast
    then show ?thesis
    proof cases
      case query
      let ?q = "add_dest SPECIAL_VAR_SYMBOL (add_dest CHR ''?'' (add_dest CHR ''$'' (add_dest SPECIAL_VAR_SYMBOL (count_sp p))))"
      have e: "do { (_, p) \<leftarrow> static_get ?q; Some (False, p) } = Some (b, p')"
        using h na unfolding handle_dollar_def c query by simp
      obtain k where "static_get ?q = Some (k, p')" using e by (cases "static_get ?q") auto
      from static_get_same [OF this] show ?thesis
        by (rule t [OF n t [OF a(1) t [OF a(1) t [OF a(1) t [OF a(1)]]]]])
    next
      case brace
      let ?q = "count_sp (add_dest SPECIAL_VAR_SYMBOL p)"
      have e: "do {
          (_, p) \<leftarrow> static_get ?q;
          (closed, p) \<leftarrow> read_until CHR ''}'' p;
          if closed then Some (False, add_dest SPECIAL_VAR_SYMBOL p) else Some (True, p) } = Some (b, p')"
        using h na unfolding handle_dollar_def c brace by simp
      obtain k q1 where g1: "static_get ?q = Some (k, q1)" using e by (cases "static_get ?q") auto
      obtain closed q2 where g2: "read_until CHR ''}'' q1 = Some (closed, q2)" using e g1 by (cases "read_until CHR ''}'' q1") auto
      note g = g1 g2
      have g3: "p' = (if closed then add_dest SPECIAL_VAR_SYMBOL q2 else q2)" using e g by (cases closed) auto
      have "same_ctx p q2" using t [OF a(1) t [OF n t [OF static_get_same [OF g(1)] read_until_same [OF g(2)]]]] by simp
      then show ?thesis unfolding g3 using t [OF _ a(1)] by simp
    next
      case other
      then have "p' = add_qdest CHR ''$'' p" using h c na by (simp add: handle_dollar_def)
      then show ?thesis using a(2) by simp
    qed
  qed
qed

section \<open>The steps of the parser\<close>

lemma wf_dest: "wf_parser (p\<lparr>dest := d\<rparr>) = wf_parser p"
  by (simp add: wf_parser_def)

lemma on_done_pipe_wf: "wf_parser p \<Longrightarrow> wf_parser (on_ctx (done_pipe st) p)"
  using done_pipe_wf by (cases "stack p") (auto simp: wf_parser_def on_ctx_def)

lemma reserved_no_start: "map_of reserved_list w = Some (code, flag) \<Longrightarrow> flag \<noteq> {}"
  by (auto simp: reserved_list_def split: if_splits)

text \<open>A reserved word where a command may start: the contexts stay in order, and the stack is not popped empty.\<close>

lemma reserved_word_wf:
  assumes wf: "wf_parser p" and a: "argv (ctx_child (ctx p)) = []" "group (ctx_child (ctx p)) = []" and d: "odata (dest p) = Some w"
  shows "\<exists>b p'. reserved_word p = Some (b, p') \<and> wf_parser p' \<and> (\<not> b \<longrightarrow> p' = p)"
proof (cases "map_of reserved_list w")
  case None
  then show ?thesis using d wf by (intro exI [of _ False] exI [of _ p]) (simp add: reserved_word_def)
next
  case (Some cf)
  obtain code flag where cf: "cf = (code, flag)" by (cases cf)
  note m = Some [unfolded cf]
  let ?w = "ctx_w (ctx p)" and ?err = "p\<lparr>dest := b_reset (dest p), ctx := ctx p\<lparr>ctx_w := RES_SNTX\<rparr>\<rparr>"
  have err: "wf_parser ?err" using wf by (cases "stack p") (simp_all add: wf_parser_def wf_ctx_def)
  show ?thesis
  proof (cases "RES_XXXX \<in> flag")
    case start: True
    have ne: "RES_NONE \<notin> flag" using m start by (auto simp: reserved_list_def split: if_splits)
    show ?thesis
    proof (cases "?w = RES_IN \<or> ?w = RES_FOR")
      case True
      then show ?thesis using m d start err by (intro exI [of _ True] exI [of _ ?err]) (simp add: reserved_word_def)
    next
      case False
      let ?p = "p\<lparr>stack := ctx p # stack p, ctx := initialize_context\<lparr>ctx_w := code, old_flag := flag\<rparr>, dest := b_reset (dest p)\<rparr>"
      have "wf_parser ?p" using wf a wf_initial by (simp add: wf_parser_def wf_ctx_def)
      moreover have "reserved_word p = Some (True, ?p)" using m d start False ne by (auto simp: reserved_word_def Let_def)
      ultimately show ?thesis by blast
    qed
  next
    case nstart: False
    show ?thesis
    proof (cases "?w = RES_NONE \<or> code \<notin> old_flag (ctx p)")
      case True
      then show ?thesis using m d nstart err by (intro exI [of _ True] exI [of _ ?err]) (simp add: reserved_word_def Let_def)
    next
      case False
      let ?c = "ctx p\<lparr>ctx_w := code, old_flag := flag\<rparr>"
      obtain old st where st: "stack p = old # st" using wf False by (cases "stack p") (auto simp: wf_parser_def)
      have c: "wf_ctx ?c" using wf by (simp add: wf_parser_def wf_ctx_def)
      show ?thesis
      proof (cases "RES_NONE \<in> flag")
        case True
        let ?g = "list_head (done_pipe PIPE_SEQ ?c)"
        let ?p = "p\<lparr>ctx := old\<lparr>ctx_child := set_group ?g (ctx_child old)\<rparr>, stack := st, dest := b_reset (dest p)\<rparr>"
        have g: "\<forall>q\<in>set ?g. wf_pipe q" using list_head_wf [OF done_pipe_wf(1) [OF c]] by blast
        have "wf_parser ?p"
          using wf st g by (cases "ctx_child old"; cases st) (auto simp: wf_parser_def wf_ctx_def)
        moreover have "reserved_word p = Some (True, ?p)" using m d nstart False True st by (simp add: reserved_word_def Let_def)
        ultimately show ?thesis by blast
      next
        case nend: False
        let ?p = "p\<lparr>ctx := ?c, dest := b_reset (dest p)\<rparr>"
        have "wf_parser ?p" using wf st c by (simp add: wf_parser_def)
        moreover have "reserved_word p = Some (True, ?p)" using m d nstart False nend by (simp add: reserved_word_def Let_def)
        ultimately show ?thesis by blast
      qed
    qed
  qed
qed

lemma add_arg_wf: "wf_child ch \<Longrightarrow> group ch = [] \<Longrightarrow> wf_child (add_arg s ch) \<and> group (add_arg s ch) = [] \<and> argv (add_arg s ch) \<noteq> []"
  by (cases ch) simp

lemma done_word_wf:
  assumes wf: "wf_parser p" and r: "done_word flag p = Some (e, p')"
  shows "wf_parser p'"
proof (cases "o_text (dest p) = [] \<and> \<not> nonnull (dest p) \<or> group (ctx_child (ctx p)) \<noteq> []")
  case True
  then show ?thesis using r wf by (auto simp: done_word_def split: if_splits)
next
  case False
  define found where "found = (if argv (ctx_child (ctx p)) = [] \<and> flag AND FLAG_PARSE_SEMICOLON \<noteq> 0 then reserved_word p else Some (False, p))"
  have r2: "do {
        (found, p) \<leftarrow> found;
        if found then Some (ctx_w (ctx p) = RES_SNTX, p)
        else do {
          str \<leftarrow> unescape (o_text (dest p));
          let c = ctx p\<lparr>ctx_child := add_arg str (ctx_child (ctx p))\<rparr>;
          Some (False, p\<lparr>dest := b_reset (dest p), ctx := (if ctx_w c = RES_FOR then done_pipe PIPE_SEQ c else c)\<rparr>) } } = Some (e, p')"
    using r False unfolding done_word_def found_def by (auto split: if_splits)
  then obtain b q where q: "found = Some (b, q)" by (cases found) auto
  have fq: "wf_parser q \<and> (\<not> b \<longrightarrow> q = p)"
  proof (cases "argv (ctx_child (ctx p)) = [] \<and> flag AND FLAG_PARSE_SEMICOLON \<noteq> 0")
    case True
    then have rw: "reserved_word p = Some (b, q)" using q by (simp add: found_def)
    then obtain w where "odata (dest p) = Some w" by (auto simp: reserved_word_def bind_eq_Some_conv)
    then show ?thesis using reserved_word_wf [OF wf, of w] True False rw by auto
  qed (use q wf in \<open>auto simp: found_def\<close>)
  show ?thesis
  proof (cases b)
    case True
    then show ?thesis using r2 q fq by simp
  next
    case nb: False
    obtain str where str: "unescape (o_text (dest q)) = Some str" using r2 q nb by (cases "unescape (o_text (dest q))") auto
    let ?c = "ctx q\<lparr>ctx_child := add_arg str (ctx_child (ctx q))\<rparr>"
    have p': "p' = q\<lparr>dest := b_reset (dest q), ctx := (if ctx_w ?c = RES_FOR then done_pipe PIPE_SEQ ?c else ?c)\<rparr>"
      using r2 q nb str by (simp add: Let_def)
    have qp: "q = p" "group (ctx_child (ctx p)) = []" using fq nb False by simp_all
    have c: "wf_ctx ?c" using fq add_arg_wf qp by (simp add: wf_parser_def wf_ctx_def)
    have "old_flag (if ctx_w ?c = RES_FOR then done_pipe PIPE_SEQ ?c else ?c) = old_flag (ctx q)" using done_pipe_wf(2) [OF c] by simp
    then show ?thesis unfolding p' using fq c done_pipe_wf(1) [OF c] by (cases "stack q") (auto simp: wf_parser_def)
  qed
qed

lemma parse_pair_wf:
  assumes wf: "wf_parser p" and r: "parse_pair flag c following style p = Some (rc, p')"
  shows "wf_parser p'"
proof -
  obtain e q where q: "done_word flag p = Some (e, q)" using r by (cases "done_word flag p") (auto simp: parse_pair_def)
  note w = done_word_wf [OF wf q]
  show ?thesis
  proof (cases "following = c")
    case True
    obtain k q2 where g: "static_get q = Some (k, q2)" using r q True by (cases "static_get q") (auto simp: parse_pair_def)
    have "p' = on_ctx (done_pipe style) q2" using r q True g by (simp add: parse_pair_def)
    then show ?thesis using on_done_pipe_wf same_ctx_wf [OF static_get_same [OF g] w] by simp
  qed (use r q w in \<open>simp add: parse_pair_def\<close>)
qed

lemma parse_special_wf:
  assumes wf: "wf_parser p" and r: "parse_special flag ch following p = Some (rc, p')"
  shows "wf_parser p'"
proof -
  have s: "same_ctx q q' \<Longrightarrow> wf_parser q \<Longrightarrow> wf_parser q'" for q q' by (rule same_ctx_wf)
  note qd = s [OF add_dest_same(2)]
  consider (hash) "ch = CHR ''#''" | (bs) "ch = CHR 0x5C" | (dollar) "ch = CHR ''$''" | (sq) "ch = CHR 0x27" | (dq) "ch = CHR 0x22"
    | (semi) "ch = CHR '';''" | (amp) "ch = CHR ''&''" | (bar) "ch = CHR ''|''"
    | (other) "ch \<notin> {CHR ''#'', CHR 0x5C, CHR ''$'', CHR 0x27, CHR 0x22, CHR '';'', CHR ''&'', CHR ''|''}" by blast
  then show ?thesis
  proof cases
    case hash
    show ?thesis
    proof (cases "o_text (dest p) = [] \<and> \<not> quote (dest p)")
      case True
      then have "skip_comment p = Some p'" using r hash by (cases "skip_comment p") (auto simp: parse_special_def)
      then show ?thesis using s [OF skip_comment_same wf] by simp
    next
      case False
      then have "p' = add_qdest ch p" using r hash by (auto simp: parse_special_def)
      then show ?thesis using qd [OF wf] by simp
    qed
  next
    case bs
    obtain k q where g: "static_get (add_qdest CHR 0x5C p) = Some (k, q)" using r bs by (cases "static_get (add_qdest CHR 0x5C p)") (auto simp: parse_special_def)
    then have "p' = add_qdest (case k of None \<Rightarrow> CHR 0xFF | Some c \<Rightarrow> c) q" using r bs by (simp add: parse_special_def)
    then show ?thesis using qd [OF s [OF static_get_same [OF g] qd [OF wf]]] by simp
  next
    case dollar
    then obtain e where "handle_dollar p = Some (e, p')" using r by (cases "handle_dollar p") (auto simp: parse_special_def)
    then show ?thesis using s [OF handle_dollar_same wf] by blast
  next
    case sq
    let ?q = "p\<lparr>dest := dest p\<lparr>nonnull := True\<rparr>\<rparr>"
    obtain b where "read_until CHR 0x27 ?q = Some (b, p')" using r sq by (cases "read_until CHR 0x27 ?q") (auto simp: parse_special_def)
    from s [OF read_until_same [OF this]] show ?thesis using wf by (simp add: wf_dest)
  next
    case dq
    then have "p' = p\<lparr>dest := dest p\<lparr>nonnull := True, quote := \<not> quote (dest p)\<rparr>\<rparr>" using r by (simp add: parse_special_def)
    then show ?thesis using wf by (simp add: wf_dest)
  next
    case semi
    obtain e q where q: "done_word flag p = Some (e, q)" using r semi by (cases "done_word flag p") (auto simp: parse_special_def)
    then have "p' = on_ctx (done_pipe PIPE_SEQ) q" using r semi by (simp add: parse_special_def)
    then show ?thesis using on_done_pipe_wf [OF done_word_wf [OF wf q]] by simp
  next
    case amp
    then have "parse_pair flag CHR ''&'' following PIPE_AND p = Some (rc, p')" using r by (simp add: parse_special_def)
    then show ?thesis by (rule parse_pair_wf [OF wf])
  next
    case bar
    then have "parse_pair flag CHR ''|'' following PIPE_OR p = Some (rc, p')" using r by (simp add: parse_special_def)
    then show ?thesis by (rule parse_pair_wf [OF wf])
  next
    case other
    then have "p' = p" using r by (simp add: parse_special_def)
    then show ?thesis using wf by simp
  qed
qed

lemma parse_char_wf:
  assumes wf: "wf_parser p" and r: "parse_char flag cmap ch p = Some (rc, p')"
  shows "wf_parser p'"
proof -
  obtain following where f: "(if ch = LF then Some NUL else static_peek p) = Some following"
    using r by (cases "if ch = LF then Some NUL else static_peek p") (auto simp: parse_char_def)
  show ?thesis
  proof (cases "cmap ch = 0 \<or> (cmap ch = 1 \<or> cmap ch = 2) \<and> quote (dest p)")
    case True
    then have "p' = add_qdest ch p" using r f unfolding parse_char_def Let_def by (cases "ch = LF") (simp_all only: bind.bind_lunit if_True simp_thms prod.inject option.inject)
    then show ?thesis using same_ctx_wf [OF add_dest_same(2) wf] by simp
  next
    case False
    define step where "step = (if cmap ch = 2
         then do {
           (err, p) \<leftarrow> done_word flag p;
           Some (err, if \<not> err \<and> ch = LF then on_ctx (done_pipe PIPE_SEQ) p else p) }
         else Some (False, p))"
    have r2: "do {
       (err, p) \<leftarrow> step;
       if err then Some (Some 1, p)
       else if ch = LF \<and> \<not> quote (dest p) \<and> ctx_w (ctx p) = RES_NONE then Some (Some 0, p)
       else if cmap ch \<noteq> 2 then parse_special flag ch following p
       else Some (None, p) } = Some (rc, p')"
      using r unfolding parse_char_def Let_def f step_def if_not_P [OF False] by simp
    obtain err q where q: "step = Some (err, q)" using r2 by (cases step) auto
    have wq: "wf_parser q"
    proof (cases "cmap ch = 2")
      case True
      obtain e q1 where d: "done_word flag p = Some (e, q1)" using q True by (cases "done_word flag p") (auto simp: step_def)
      have "q = (if \<not> e \<and> ch = LF then on_ctx (done_pipe PIPE_SEQ) q1 else q1)" using q d True by (auto simp: step_def)
      then show ?thesis using done_word_wf [OF wf d] on_done_pipe_wf by simp
    qed (use q wf in \<open>simp add: step_def\<close>)
    show ?thesis
    proof (cases "err \<or> ch = LF \<and> \<not> quote (dest q) \<and> ctx_w (ctx q) = RES_NONE \<or> cmap ch = 2")
      case True
      then have "p' = q" using r2 q by (auto split: if_splits)
      then show ?thesis using wq by simp
    next
      case nsp: False
      then have "parse_special flag ch following q = Some (rc, p')" using r2 q by (auto split: if_splits)
      then show ?thesis by (rule parse_special_wf [OF wq])
    qed
  qed
qed

lemma parse_stream_wf: "parse_stream flag cmap p = Some x \<Longrightarrow> wf_parser p \<longrightarrow> wf_parser (snd x)"
proof (erule parse_stream.raw_induct [where P = "\<lambda>flag cmap p x. wf_parser p \<longrightarrow> wf_parser (snd x)", rotated])
  fix f flag cmap p and x :: "int \<times> parser"
  assume IH: "\<And>flag cmap p x. f flag cmap p = Some x \<Longrightarrow> wf_parser p \<longrightarrow> wf_parser (snd x)"
    and body: "do {
     (ch, p) \<leftarrow> static_get p;
     (case ch of
        None \<Rightarrow> Some (- 1, p)
      | Some c \<Rightarrow> do {
          (rc, p) \<leftarrow> parse_char flag cmap c p;
          (case rc of Some r \<Rightarrow> Some (r, p) | None \<Rightarrow> f flag cmap p) }) } = Some x"
  obtain ch q where g: "static_get p = Some (ch, q)" using body by (cases "static_get p") auto
  note s = same_ctx_wf [OF static_get_same [OF g]]
  show "wf_parser p \<longrightarrow> wf_parser (snd x)"
  proof (cases ch)
    case None
    then show ?thesis using body g s by auto
  next
    case (Some c)
    obtain rc q1 where c: "parse_char flag cmap c q = Some (rc, q1)" using body g Some by (cases "parse_char flag cmap c q") auto
    show ?thesis
    proof (cases rc)
      case None
      then have "f flag cmap q1 = Some x" using body g Some c by simp
      from IH [OF this] show ?thesis using s parse_char_wf [OF _ c] by blast
    next
      case r: (Some r)
      then have "x = (r, q1)" using body g Some c by simp
      then show ?thesis using s parse_char_wf [OF _ c] by simp
    qed
  qed
qed

section \<open>Properties\<close>

text \<open>
  C16: Whatever the text, the flags and the table of characters: when \<open>parse_stream\<close> returns, with
  success or with an error, every pipe in the list that is closed then has at most one child, and every
  child either words or a group of such pipes, so that \<open>run_pipe_real\<close> never meets a pipe of several
  programs or a child that is both; and the stack of contexts is in order.
\<close>

theorem parsed_pipes_wf:
  assumes "wf_parser p" and "parse_stream flag cmap p = Some (rc, p')" and "done_word flag p' = Some (e, q)"
  shows "wf_parser p' \<and> wf_parser q \<and> (\<forall>x\<in>set (list_head (done_pipe style (ctx q))). wf_pipe x)"
proof -
  have p': "wf_parser p'" using parse_stream_wf [OF assms(2)] assms(1) by simp
  have q: "wf_parser q" by (rule done_word_wf [OF p' assms(3)])
  then have "wf_ctx (ctx q)" by (simp add: wf_parser_def)
  from list_head_wf [OF done_pipe_wf(1) [OF this]] show ?thesis using p' q by blast
qed

lemma wf_start: "wf_parser (pst d q nn initialize_context [] i)"
  using wf_initial by (simp add: wf_parser_def) (simp add: initialize_context_def)

text \<open>A quote that is not closed: the parser stops with an error, and its state is in order.\<close>

theorem parsed_pipes_wf_witness:
  "\<exists>p'. parse_stream 3 default_map (pst (Some ''x'') False False initialize_context [] (CHR 0x27 # ''abc'' @ [LF])) = Some (1, p') \<and> wf_parser p'"
proof -
  let ?p = "pst (Some ''x'') False False initialize_context [] (CHR 0x27 # ''abc'' @ [LF])"
  have "read_until CHR 0x27 (pst (Some ''x'') False True initialize_context [] (''abc'' @ [LF])) =
      Some (False, pst (ext (Some ''x'') (''abc'' @ [LF])) False True initialize_context [] []\<lparr>input := None\<rparr>)"
    by (rule read_until_end) simp
  then have p: "parse_stream 3 default_map ?p = Some (1, pst (ext (Some ''x'') (''abc'' @ [LF])) False True initialize_context [] []\<lparr>input := None\<rparr>)"
    by (simp add: stream_special parse_special_def)
  have d: "\<exists>e q. done_word 3 (pst (ext (Some ''x'') (''abc'' @ [LF])) False True initialize_context [] []\<lparr>input := None\<rparr>) = Some (e, q)"
    by (auto simp: done_word_def ext_def o_text_def initialize_context_def reserved_word_def reserved_list_def)
  then obtain e q where "done_word 3 (pst (ext (Some ''x'') (''abc'' @ [LF])) False True initialize_context [] []\<lparr>input := None\<rparr>) = Some (e, q)" by blast
  from parsed_pipes_wf [OF wf_start p this] show ?thesis using p by blast
qed

text \<open>
  In such a state, a reserved word that may end a compound command finds a context on the stack:
  \<open>reserved_word\<close> only goes wrong when the word under construction has no data at all.
\<close>

theorem reserved_word_safe:
  assumes "wf_parser p" and "argv (ctx_child (ctx p)) = []" and "group (ctx_child (ctx p)) = []"
  shows "reserved_word p = None \<longleftrightarrow> odata (dest p) = None"
proof (cases "odata (dest p)")
  case (Some w)
  from reserved_word_wf [OF assms Some] show ?thesis using Some by auto
qed (simp add: reserved_word_def)

text \<open>\<open>done\<close> outside a loop\<close>

theorem reserved_word_safe_witness:
  "reserved_word (pst (Some ''done'') False False initialize_context [] [LF]) \<noteq> None"
  using reserved_word_safe [OF wf_start, of "Some ''done''" False False "[LF]"] by (simp add: initialize_context_def)

end
