(* ===== verification/HushScript.thy ===== *)
theory HushScript
  imports HushRun
begin

text \<open>
  Lines, scripts and the expansion of variables in the \<^verbatim>\<open>hush\<close> shell (\<^verbatim>\<open>common/hush.c\<close>): from the string
  handed to \<open>parse_string_outer\<close> to what the commands do.
\<close>

section \<open>Lines and scripts\<close>

abbreviation end_pipes :: "pipe list" where "end_pipes \<equiv> [Pipe [] PIPE_SEQ RES_NONE, Pipe [] PIPE_NONE RES_NONE]"

lemma finish_list:
  assumes l: "fresh l" and "part (pipes l) (cur_pi l) end_pipes" and "length (pipes l) = cur_pi l + 2"
  shows "list_loop exec table l sh = Some (l_rcode l, pipes l, sh)"
proof -
  have "list_loop exec table l sh = list_loop exec table (l\<lparr>cur_pi := cur_pi l + 1\<rparr>) sh"
    using empty_step [OF l, of RES_NONE PIPE_SEQ exec table sh] assms(2) by (simp add: part_Cons)
  also have "\<dots> = Some (l_rcode l, pipes l, sh)"
    using finish [of "l\<lparr>cur_pi := cur_pi l + 1\<rparr>" exec table sh] assms by (simp add: part_Cons fresh_def)
  finally show ?thesis .
qed

text \<open>A list of commands, as a line gives it.\<close>

lemma run_list_items:
  assumes run: "items_run exec table RES_NONE its 0 sh out sh'" and ok: "rest_ok its"
  shows "run_list exec table (pipes_items RES_NONE its @ end_pipes) sh = Some (code_of out, sh')"
proof -
  let ?ps = "pipes_items RES_NONE its @ end_pipes" let ?l = "list_start ?ps"
  have m: "\<forall>p\<in>set ?ps. r_mode p = RES_NONE" using mode_items by auto
  have f: "fresh ?l" by (rule fresh_start) (use m in auto)
  have p: "part ?ps 0 (pipes_items RES_NONE its)" "part ?ps (len its) end_pipes" "length ?ps = len its + 2"
    using part_all [of ?ps] unfolding part_append by (simp_all add: len_items)
  have d: "items_done exec table RES_NONE its ?l sh out sh'"
    by (rule items_simD [OF runs_sim(2) [OF run] _ ok f]) (use p(1) in \<open>simp_all add: item_modes_def active_def\<close>)
  have nil: "its = INil \<Longrightarrow> out = Code 0" using runs_sim(2) [OF run] by (simp add: items_sim_def)
  have "list_done exec table ?l sh ?ps out sh'"
  proof (cases out)
    case (Code r)
    let ?l2 = "if its = INil then ?l else moved RES_NONE (len its) r ?l"
    have "list_loop exec table ?l sh = list_loop exec table ?l2 sh'" using d by (simp add: items_done_def Code)
    also have "\<dots> = Some (l_rcode ?l2, pipes ?l2, sh')"
      by (rule finish_list) (use f p in \<open>cases "its = INil"; simp add: moved_facts\<close>)+
    finally show ?thesis using nil Code by (cases "its = INil") (simp_all add: list_done_def moved_facts)
  qed (use d in \<open>simp add: items_done_def list_done_def\<close>)
  moreover have "\<not> for_syntax_error ?ps" by (rule no_syntax_error) (use m in auto)
  ultimately show ?thesis
    by (cases out) (auto simp: list_done_def run_list_def run_list_with_def run_list_real_with_def)
qed

definition no_ifs :: "shell \<Rightarrow> bool" where
  "no_ifs sh \<longleftrightarrow> env_lookup (sh_env sh) ''IFS'' = Some None"

lemma outer_parse_line:
  assumes fl: "fl AND 2 \<noteq> 0" "fl AND 4 = 0" and "rest_ok its" and "no_ifs sh"
  obtains d where "clean d" "outer_parse fl null_o_string (Some (print_line its @ rest)) sh =
    Some (0, pst d False False (initialize_context\<lparr>ctx_list := pipes_items RES_NONE its @ (if its = INil then [Pipe [] PIPE_SEQ RES_NONE] else [])\<rparr>) [] rest)"
proof -
  have m: "update_ifs_map sh = Some default_map" using update_ifs_map_default assms(4) by (simp add: no_ifs_def)
  show ?thesis
  proof (cases "its = INil")
    case True
    have "clean None" by (simp add: clean_def)
    moreover have "parse_stream fl default_map (pst None False False initialize_context [] (LF # rest)) =
        Some (0, pst None False False (initialize_context\<lparr>ctx_list := [Pipe [] PIPE_SEQ RES_NONE]\<rparr>) [] rest)"
      unfolding stream_step
      by (simp add: parse_char_def done_word_clean clean_def on_ctx_def done_pipe_def done_command_def initialize_context_def)
    ultimately show ?thesis using True fl m by (intro that [of None]) (simp_all add: outer_parse_def null_o_string_def)
  next
    case False
    then have ok: "items_ok its" "last_seq its" using assms(3) by (auto simp: rest_ok_def)
    have i: "clean None" "ctx_child initialize_context = null_child" "ctx_progs initialize_context = []" "ctx_w initialize_context = RES_NONE"
        "ctx_list initialize_context = []"
      by (simp_all add: clean_def initialize_context_def)
    obtain d where "clean d" "parse_stream fl default_map (pst None False False initialize_context [] (print_line its @ rest)) =
        Some (0, pst d False False (initialize_context\<lparr>ctx_list := pipes_items RES_NONE its\<rparr>) [] rest)"
      using stream_line [OF fl(1) ok i(1-4), of rest] i(5) by auto
    then show ?thesis using False fl m by (intro that [of d]) (simp_all add: outer_parse_def null_o_string_def)
  qed
qed

text \<open>What \<open>parse_stream_outer\<close> makes of a return code.\<close>

definition settled :: "outcome \<Rightarrow> shell \<Rightarrow> shell" where
  "settled out sh = (if out = Code (- 1) then sh\<lparr>flag_repeat := False\<rparr> else sh)"

lemma b_free_clean: "clean d \<Longrightarrow> b_free \<lparr>odata = d, quote = False, nonnull = False\<rparr> = null_o_string"
  by (simp add: b_free_def b_reset_def null_o_string_def)

lemma list_head_line:
  "list_head (done_pipe PIPE_SEQ (initialize_context\<lparr>ctx_list := ps\<rparr>)) = ps @ end_pipes"
  by (simp add: list_head_def done_pipe_def done_command_def initialize_context_def)

lemma run_list_empties:
  "run_list exec table (Pipe [] PIPE_SEQ RES_NONE # end_pipes) sh = Some (0, sh)"
proof -
  let ?ps = "Pipe [] PIPE_SEQ RES_NONE # end_pipes"
  have f: "fresh (list_start ?ps)" by (rule fresh_start) simp
  have 1: "list_loop exec table (list_start ?ps) sh = list_loop exec table ((list_start ?ps)\<lparr>cur_pi := 1\<rparr>) sh"
    using empty_step [OF f, of RES_NONE PIPE_SEQ exec table sh] by simp
  have 2: "list_loop exec table ((list_start ?ps)\<lparr>cur_pi := 1\<rparr>) sh = Some (0, ?ps, sh)"
    using finish_list [of "(list_start ?ps)\<lparr>cur_pi := 1\<rparr>" exec table sh] f by (simp add: part_Cons fresh_def)
  have "\<not> for_syntax_error ?ps" by (rule no_syntax_error) simp
  then show ?thesis using 1 2 by (simp add: run_list_def run_list_with_def run_list_real_with_def)
qed

lemma items_run_ge:
  "stmt_runs exec table s sh rc sh' \<Longrightarrow> True"
  "items_run exec table m its r sh out sh' \<Longrightarrow> - 1 \<le> r \<longrightarrow> (\<forall>r1. out = Code r1 \<longrightarrow> - 1 \<le> r1)"
  "if_runs exec table ss r sh out sh' \<Longrightarrow> True"
  "loop_runs exec table m its body r sh out sh' \<Longrightarrow> True"
  "for_runs exec table vs its r sh out sh' \<Longrightarrow> True"
  by (induction rule: stmt_runs_items_run_if_runs_loop_runs_for_runs.inducts) simp_all

lemma outer_step_line:
  assumes fl: "fl AND 2 \<noteq> 0" "fl AND 4 = 0" and ok: "rest_ok its" "no_ifs sh"
    and run: "items_run exec table RES_NONE its 0 sh out sh'"
  shows "outer_step (run_list exec table) fl null_o_string (Some (print_line its @ rest)) code sh =
    Some (out \<noteq> Exit \<and> fl AND 1 = 0, null_o_string, Some rest, case out of Code r \<Rightarrow> r | Exit \<Rightarrow> 0, settled out sh')"
proof -
  let ?ps = "pipes_items RES_NONE its @ (if its = INil then [Pipe [] PIPE_SEQ RES_NONE] else [])"
  let ?p = "\<lambda>d. pst d False False (initialize_context\<lparr>ctx_list := ?ps\<rparr>) [] rest"
  obtain d where d: "clean d" "outer_parse fl null_o_string (Some (print_line its @ rest)) sh = Some (0, ?p d)"
    using outer_parse_line [OF fl ok, of rest] by blast
  have w: "done_word fl (?p d) = Some (False, ?p d)" by (rule done_word_clean [OF d(1)])
  have r: "run_list exec table (?ps @ end_pipes) sh = Some (code_of out, sh')"
  proof (cases "its = INil")
    case True
    then have "out = Code 0" "sh' = sh" using runs_sim(2) [OF run] by (simp_all add: items_sim_def)
    then show ?thesis using True run_list_empties by simp
  qed (use run_list_items [OF run ok(1)] in simp)
  have o: "old_flag (initialize_context\<lparr>ctx_list := ?ps\<rparr>) = {}" by (simp add: initialize_context_def)
  have "r1 \<noteq> - 2" if "out = Code r1" for r1 using items_run_ge(2) [OF run] that by simp
  then show ?thesis
    using d(2) r o by (cases out) (auto simp: outer_step_def w list_head_line b_free_clean [OF d(1)] settled_def Let_def)
qed

lemma outer_step_end:
  assumes "fl AND 2 \<noteq> 0" "fl AND 4 = 0" and "no_ifs sh"
  shows "outer_step (run_list exec table) fl null_o_string (Some []) code sh = Some (False, null_o_string, None, 0, sh)"
proof -
  have m: "update_ifs_map sh = Some default_map" using update_ifs_map_default assms(3) by (simp add: no_ifs_def)
  have p: "outer_parse fl null_o_string (Some []) sh = Some (- 1, pst None False False initialize_context [] []\<lparr>input := None\<rparr>)"
    using m assms(1,2) by (simp add: outer_parse_def null_o_string_def parse_stream.simps static_get_def)
  have i: "initialize_context = initialize_context\<lparr>ctx_list := []\<rparr>" by (simp add: initialize_context_def)
  have r: "run_list exec table end_pipes sh = Some (0, sh)"
    using run_list_items [where its = INil and out = "Code 0"] nil [of exec table RES_NONE 0 sh] by (simp add: rest_ok_def)
  have l: "list_head (done_pipe PIPE_SEQ initialize_context) = end_pipes" using list_head_line [of "[]"] i by simp
  have o: "old_flag initialize_context = {}" by (simp add: initialize_context_def)
  show ?thesis
    by (simp add: outer_step_def p o Let_def done_word_def o_text_def l r b_free_clean clean_def)
qed

text \<open>Scripts: their lines, one after the other, up to an \<open>exit\<close>.\<close>

inductive script_runs :: "executor \<Rightarrow> cmd_tbl list \<Rightarrow> items list \<Rightarrow> shell \<Rightarrow> bool \<Rightarrow> shell \<Rightarrow> bool" for exec table where
  script_end: "script_runs exec table [] sh False sh"
| script_exit: "no_ifs sh \<Longrightarrow> items_run exec table RES_NONE its 0 sh Exit sh' \<Longrightarrow> script_runs exec table (its # itss) sh True sh'"
| script_line: "no_ifs sh \<Longrightarrow> items_run exec table RES_NONE its 0 sh (Code r) sh1 \<Longrightarrow> script_runs exec table itss (settled (Code r) sh1) left sh' \<Longrightarrow>
    script_runs exec table (its # itss) sh left sh'"

lemma outer_script:
  assumes "script_runs exec table itss sh left sh'" and "list_all rest_ok itss" and "\<not> left \<longrightarrow> no_ifs sh'"
  shows "left \<Longrightarrow> parse_stream_outer (run_list exec table) 2 null_o_string (Some (concat (map print_line itss) @ rest)) code sh = Some (0, sh')"
    and "\<not> left \<Longrightarrow> \<exists>code'. parse_stream_outer (run_list exec table) 2 null_o_string (Some (concat (map print_line itss) @ rest)) code sh =
      parse_stream_outer (run_list exec table) 2 null_o_string (Some rest) code' sh'"
  using assms
proof (induction arbitrary: code rule: script_runs.inducts)
  case (script_exit sh its sh' itss)
  {
    case 1
    then show ?case
      using outer_step_line [OF _ _ _ script_exit.hyps, of 2 "concat (map print_line itss) @ rest" code]
      by (subst parse_stream_outer.simps) (simp add: settled_def)
  next
    case 2
    then show ?case by simp
  }
next
  case (script_line sh its r sh1 itss left sh')
  have s: "parse_stream_outer (run_list exec table) 2 null_o_string (Some (print_line its @ concat (map print_line itss) @ rest)) code sh =
      parse_stream_outer (run_list exec table) 2 null_o_string (Some (concat (map print_line itss) @ rest)) r (settled (Code r) sh1)"
    if "rest_ok its" for code
    using outer_step_line [OF _ _ that script_line.hyps(1,2), of 2 "concat (map print_line itss) @ rest" code]
    by (subst parse_stream_outer.simps) simp
  {
    case 1
    then show ?case using s script_line.IH(1) by simp
  next
    case 2
    then show ?case using s script_line.IH(2) by simp
  }
qed auto

lemma script_end_loop:
  assumes "no_ifs sh" and "rest = [] \<or> rest = [LF]"
  shows "parse_stream_outer (run_list exec table) 2 null_o_string (Some rest) code sh = Some (0, sh)"
proof -
  have e: "parse_stream_outer (run_list exec table) 2 null_o_string (Some []) code sh = Some (0, sh)" for code
    using outer_step_end [OF _ _ assms(1), of 2 exec table code] by (subst parse_stream_outer.simps) simp
  have "parse_stream_outer (run_list exec table) 2 null_o_string (Some [LF]) code sh = Some (0, sh)"
    using outer_step_line [OF _ _ _ assms(1) nil [of exec table RES_NONE 0 sh], of 2 "[]" code] e
    by (subst parse_stream_outer.simps) (simp add: rest_ok_def settled_def)
  then show ?thesis using assms(2) e by blast
qed

section \<open>Expansion of variables\<close>

definition reparse_map :: "char \<Rightarrow> nat" where "reparse_map = mapset '';$&|'' 0 default_map"

text \<open>Values that are taken as they are when they are read again: they are only split at blanks.\<close>

definition plain_value :: "string \<Rightarrow> bool" where
  "plain_value s \<longleftrightarrow> (\<forall>c\<in>set s. (reparse_map c = 0 \<or> c = CHR '' '') \<and> c \<noteq> SPECIAL_VAR_SYMBOL)"

lemma reparse_simps [simp]: "reparse_map CHR '' '' = 2" "reparse_map LF = 2" "reparse_map CHR 0x5C = 3"
  by (simp_all add: reparse_map_def mapset_def)

lemma word_end_raw:
  assumes "w \<noteq> []" "CHR 0x5C \<notin> set w" "clean d" "ctx_child c = Child a [] k" "ctx_w c \<noteq> RES_FOR" "fl AND 2 = 0"
  shows "word_end fl (ext d w) False c stk (c\<lparr>ctx_child := Child (a @ [w]) [] k\<rparr>) stk"
  unfolding word_end_def
proof (intro exI [of _ "Some []"] conjI allI)
  show "done_word fl (pst (ext d w) False False c stk j) = Some (False, pst (Some []) False False (c\<lparr>ctx_child := Child (a @ [w]) [] k\<rparr>) stk j)" for j
    using assms by (simp add: done_word_def o_text_def ext_clean unescape_plain b_reset_def Let_def)
qed (simp add: clean_def)

lemma reparse_words:
  "\<forall>c\<in>set s. reparse_map c = 0 \<or> c = CHR '' '' \<Longrightarrow> clean d \<Longrightarrow> ctx_child c = Child a [] k \<Longrightarrow> ctx_w c = RES_NONE \<Longrightarrow> fl AND 2 = 0 \<Longrightarrow>
   \<exists>d'. clean d' \<and> parse_stream fl reparse_map (pst d False False c stk (s @ LF # j)) =
     Some (0, pst d' False False (done_pipe PIPE_SEQ (c\<lparr>ctx_child := Child (a @ blank_words s) [] k\<rparr>)) stk j)"
proof (induction s arbitrary: d c a rule: blank_words.induct)
  case (1 p1)
  show ?case
  proof (cases p1)
    case Nil
    have "ctx_w (done_pipe PIPE_SEQ c) = RES_NONE" using "1.prems"(4) by (simp add: done_pipe_def done_command_def Let_def)
    moreover have "c\<lparr>ctx_child := Child a [] k\<rparr> = c" using "1.prems"(3) by (cases c) simp
    ultimately show ?thesis
      unfolding Nil append_Nil stream_step using "1.prems"(2)
      by (intro exI [of _ d]) (simp add: parse_char_def done_word_clean on_ctx_def blank_words.simps [of "[]"])
  next
    case (Cons b p2)
    show ?thesis
    proof (cases "b = CHR '' ''")
      case True
      have "\<exists>d'. clean d' \<and> parse_stream fl reparse_map (pst d False False c stk (p2 @ LF # j)) =
          Some (0, pst d' False False (done_pipe PIPE_SEQ (c\<lparr>ctx_child := Child (a @ blank_words p2) [] k\<rparr>)) stk j)"
        by (rule "1.IH"(1) [OF Cons True]) (use "1.prems" Cons in auto)
      moreover have "blank_words p1 = blank_words p2" using Cons True by (subst blank_words.simps) simp
      ultimately show ?thesis using stream_blank [OF "1.prems"(2), of reparse_map fl c stk "p2 @ LF # j"] unfolding Cons True by simp
    next
      case False
      define w where "w = takeWhile (\<lambda>c. c \<noteq> CHR '' '') p1"
      define r where "r = dropWhile (\<lambda>c. c \<noteq> CHR '' '') p1"
      have p1: "p1 = w @ r" by (simp add: w_def r_def)
      have w: "w \<noteq> []" "\<forall>c\<in>set w. reparse_map c = 0" "CHR 0x5C \<notin> set w"
      proof -
        show "w \<noteq> []" using False by (simp add: w_def Cons)
        show 0: "\<forall>c\<in>set w. reparse_map c = 0" using "1.prems"(1) unfolding w_def by (metis set_takeWhileD)
        show "CHR 0x5C \<notin> set w" using 0 reparse_simps(3) by fastforce
      qed
      have bw: "blank_words p1 = w # blank_words r"
        using blank_words_step [of p1] False unfolding w_def r_def by (simp add: Cons)
      let ?c = "c\<lparr>ctx_child := Child (a @ [w]) [] k\<rparr>"
      have 1: "parse_stream fl reparse_map (pst d False False c stk (p1 @ LF # j)) = parse_stream fl reparse_map (pst (ext d w) False False c stk (r @ LF # j))"
        using stream_text [OF w(2), of fl d False c stk "r @ LF # j"] by (simp add: p1)
      have e: "word_end fl (ext d w) False c stk ?c stk"
        by (rule word_end_raw [OF w(1,3)]) (use "1.prems" in simp_all)
      have IH: "\<exists>d'. clean d' \<and> parse_stream fl reparse_map (pst d1 False False ?c stk (r @ LF # j)) =
          Some (0, pst d' False False (done_pipe PIPE_SEQ (?c\<lparr>ctx_child := Child ((a @ [w]) @ blank_words r) [] k\<rparr>)) stk j)" if "clean d1" for d1
        unfolding r_def
      proof (rule "1.IH"(2) [OF Cons False])
        show "\<forall>c\<in>set (dropWhile (\<lambda>c. c \<noteq> CHR '' '') p1). reparse_map c = 0 \<or> c = CHR '' ''"
          using "1.prems"(1) set_dropWhileD by fast
      qed (use that "1.prems" in simp_all)
      show ?thesis
      proof (cases r)
        case Nil
        have "ctx_w ?c = RES_NONE" using "1.prems"(4) by simp
        then have "ctx_w (done_pipe PIPE_SEQ ?c) = RES_NONE" by (simp add: done_pipe_def done_command_def Let_def)
        moreover obtain d' where d': "clean d'" "\<And>j. done_word fl (pst (ext d w) False False c stk j) = Some (False, pst d' False False ?c stk j)"
          using e by (auto simp: word_end_def)
        ultimately have "parse_stream fl reparse_map (pst (ext d w) False False c stk (LF # j)) = Some (0, pst d' False False (done_pipe PIPE_SEQ ?c) stk j)"
          unfolding stream_step by (simp add: parse_char_def on_ctx_def)
        then show ?thesis using 1 d'(1) bw Nil by (intro exI [of _ d']) (simp add: blank_words.simps [of "[]"])
      next
        case r: (Cons b' r')
        have b': "b' = CHR '' ''" using hd_dropWhile [of "\<lambda>c. c \<noteq> CHR '' ''" p1] r unfolding r_def by simp
        obtain d1 where d1: "clean d1" "parse_stream fl reparse_map (pst (ext d w) False False c stk (CHR '' '' # r' @ LF # j)) =
            parse_stream fl reparse_map (pst d1 False False ?c stk (r' @ LF # j))"
          using stream_blank_end [OF e, of reparse_map "r' @ LF # j"] by auto
        have "parse_stream fl reparse_map (pst d1 False False ?c stk (r @ LF # j)) = parse_stream fl reparse_map (pst d1 False False ?c stk (r' @ LF # j))"
          using stream_blank [OF d1(1), of reparse_map fl ?c stk "r' @ LF # j"] by (simp add: r b')
        then show ?thesis using 1 d1(2) IH [OF d1(1)] bw by (simp add: r b')
      qed
    qed
  qed
qed

lemma blank_words_append: "blank_words (p @ CHR '' '' # r) = blank_words p @ blank_words r"
proof (induction p rule: blank_words.induct)
  case (1 p1)
  have blank: "blank_words (CHR '' '' # q) = blank_words q" for q by (subst blank_words.simps) simp
  show ?case
  proof (cases p1)
    case Nil
    then show ?thesis using blank by (simp add: blank_words.simps [of "[]"])
  next
    case (Cons b p2)
    show ?thesis
    proof (cases "b = CHR '' ''")
      case True
      then show ?thesis using "1.IH"(1) [OF Cons True] blank by (simp add: Cons)
    next
      case False
      let ?P = "\<lambda>c. c \<noteq> CHR '' ''"
      have s1: "blank_words p1 = takeWhile ?P p1 # blank_words (dropWhile ?P p1)"
        using False by (intro blank_words_step) (simp_all add: Cons)
      have s2: "blank_words (p1 @ CHR '' '' # r) = takeWhile ?P (p1 @ CHR '' '' # r) # blank_words (dropWhile ?P (p1 @ CHR '' '' # r))"
        using False by (intro blank_words_step) (simp_all add: Cons)
      have t: "takeWhile ?P (p1 @ CHR '' '' # r) = takeWhile ?P p1" by (auto simp: takeWhile_append takeWhile_eq_all_conv [THEN iffD2])
      have d: "dropWhile ?P (p1 @ CHR '' '' # r) = dropWhile ?P p1 @ CHR '' '' # r"
        by (auto simp: dropWhile_append)
      show ?thesis unfolding s2 t d "1.IH"(2) [OF Cons False] s1 by (rule append_Cons [symmetric])
    qed
  qed
qed

lemma blank_words_join_all: "vs \<noteq> [] \<Longrightarrow> blank_words (join_blank vs) = concat (map blank_words vs)"
  by (induction vs rule: join_blank.induct) (simp_all add: blank_words_append)

lemma set_blank_words: "w \<in> set (blank_words s) \<Longrightarrow> set w \<subseteq> set s"
proof (induction s rule: blank_words.induct)
  case (1 p1)
  show ?case
  proof (cases p1)
    case Nil
    then show ?thesis using "1.prems" by (simp add: blank_words.simps [of "[]"])
  next
    case (Cons b p2)
    show ?thesis
    proof (cases "b = CHR '' ''")
      case True
      have e: "blank_words p1 = blank_words p2" by (subst blank_words.simps) (simp add: Cons True)
      have "set w \<subseteq> set p2" by (rule "1.IH"(1) [OF Cons True]) (use "1.prems" e in simp)
      then show ?thesis by (auto simp: Cons)
    next
      case False
      have e: "blank_words p1 = takeWhile (\<lambda>c. c \<noteq> CHR '' '') p1 # blank_words (dropWhile (\<lambda>c. c \<noteq> CHR '' '') p1)"
        using False by (intro blank_words_step) (simp_all add: Cons)
      show ?thesis
      proof (cases "w = takeWhile (\<lambda>c. c \<noteq> CHR '' '') p1")
        case True
        then show ?thesis using set_takeWhileD by fast
      next
        case w: False
        have "set w \<subseteq> set (dropWhile (\<lambda>c. c \<noteq> CHR '' '') p1)"
          by (rule "1.IH"(2) [OF Cons False]) (use "1.prems" e w in simp)
        then show ?thesis using set_dropWhileD by fast
      qed
    qed
  qed
qed

text \<open>Arguments without variables, as a command that has been read again has them.\<close>

definition run_words :: "executor \<Rightarrow> cmd_tbl list \<Rightarrow> string list \<Rightarrow> shell \<Rightarrow> (int \<times> shell) option" where
  "run_words exec table args sh = do { (rc, _, sh) \<leftarrow> run_child (hush_run exec table) exec table args 0 sh; Some (rc, sh) }"

lemma run_child_raw:
  assumes "\<forall>a\<in>set args. SPECIAL_VAR_SYMBOL \<notin> set a" and run: "run_child pso exec table args n sh = Some (rc, n', sh')"
  shows "n' = n"
proof -
  define i where "i = length (takeWhile is_assignment args)"
  show ?thesis
  proof (cases "i \<noteq> 0 \<and> i = length args")
    case True
    have e: "run_child pso exec table args n sh = do { (_, sh) \<leftarrow> prefix_assignments args n sh; Some (0, n, sh) }"
      unfolding run_child_def Let_def i_def [symmetric] by (rule if_P [OF True])
    show ?thesis using run unfolding e by (auto simp: bind_eq_Some_conv)
  next
    case False
    obtain n1 sh1 where 1: "prefix_assignments (take i args) n sh = Some (n1, sh1)" and r: "n' = n1"
      using run False unfolding run_child_def Let_def i_def [symmetric] if_not_P [OF False]
      by (auto simp: bind_eq_Some_conv split: if_splits)
    have "\<forall>a\<in>set (take i args). SPECIAL_VAR_SYMBOL \<notin> set a" using assms(1) in_set_takeD by fast
    from prefix_same [OF this 1] show ?thesis using r by simp
  qed
qed

text \<open>The state after a command that has been read again.\<close>

definition reread_state :: "int \<Rightarrow> shell \<Rightarrow> shell" where
  "reread_state rc sh = (let sh = return_code rc sh in if rc = - 1 then sh\<lparr>flag_repeat := False\<rparr> else sh)"

lemma run_list_words:
  assumes "args \<noteq> []" and raw: "\<forall>a\<in>set args. SPECIAL_VAR_SYMBOL \<notin> set a" and run: "run_words exec table args sh = Some (rc, sh')"
  shows "run_list exec table (Pipe [Child args [] 0] PIPE_SEQ RES_NONE # end_pipes) sh =
    Some (if rc < - 1 then - 2 else rc, return_code rc sh')"
proof -
  let ?p = "Pipe [Child args [] 0] PIPE_SEQ RES_NONE" let ?l = "list_start (?p # end_pipes)"
  obtain n where n: "run_child (hush_run exec table) exec table args 0 sh = Some (rc, n, sh')" using run by (auto simp: run_words_def bind_eq_Some_conv)
  have r: "run_pipe exec table ?p sh = Some (rc, ?p, sh')"
    using n run_child_raw [OF raw n] assms(1) by (simp add: run_pipe_def run_pipe_with_def run_pipe_real_def hush_run_def run_list_def)
  have f: "fresh ?l" by (rule fresh_start) simp
  have p: "poll RES_NONE sh = Some sh" by (simp add: poll_def head_modes_def)
  have a: "active RES_NONE ?l" "RES_NONE \<in> item_modes" by (simp_all add: active_def item_modes_def)
  have s: "\<not> for_syntax_error (?p # end_pipes)" by (rule no_syntax_error) simp
  have u: "run_list exec table (?p # end_pipes) sh = do { (rcode, _, sh) \<leftarrow> list_loop exec table ?l sh; Some (rcode, sh) }"
    using s by (simp add: run_list_def run_list_with_def run_list_real_with_def)
  show ?thesis
  proof (cases "rc < - 1")
    case True
    then show ?thesis using run_step(1) [OF f a _ _ p r] u by fastforce
  next
    case False
    let ?l2 = "moved RES_NONE 1 rc ?l"
    have 1: "list_loop exec table ?l sh = list_loop exec table (?l2\<lparr>skip_more := RES_XXXX\<rparr>) (return_code rc sh')"
      using run_step(2) [OF f a _ _ p r] False by (simp add: chain_stops_def)
    have e: "?l2\<lparr>skip_more := RES_XXXX\<rparr> = ?l2" by (simp add: moved_def list_start_def)
    have 2: "list_loop exec table ?l2 (return_code rc sh') = Some (l_rcode ?l2, pipes ?l2, return_code rc sh')"
      by (rule finish_list) (use f in \<open>simp_all add: moved_facts part_Cons\<close>)
    have "list_loop exec table ?l sh = Some (rc, ?p # end_pipes, return_code rc sh')"
      using 1 2 unfolding e by (simp add: moved_facts)
    then show ?thesis using u False by simp
  qed
qed

lemma hush_reread:
  assumes v: "vs \<noteq> []" "list_all plain_value vs" and i: "no_ifs sh"
  defines "args \<equiv> concat (map blank_words vs)"
  assumes run: "args \<noteq> [] \<Longrightarrow> run_words exec table args sh = Some (rc, sh')"
  shows "\<exists>r. hush_run exec table (join_blank vs @ [LF]) (FLAG_EXIT_FROM_LOOP OR FLAG_REPARSING) sh =
    Some (r, if args = [] then sh else reread_state rc sh')"
proof -
  let ?s = "join_blank vs" and ?fl = "5 :: u32"
  have sv: "set (join_blank vs) \<subseteq> insert CHR '' '' (\<Union>(set ` set vs))" for vs
    by (induction vs rule: join_blank.induct) auto
  have pv: "plain_value ?s" using v(2) sv [of vs] reparse_simps(1) unfolding plain_value_def list_all_iff by fastforce
  have b: "blank_words ?s = args" using blank_words_join_all [OF v(1)] by (simp add: args_def)
  have raw: "\<forall>a\<in>set args. SPECIAL_VAR_SYMBOL \<notin> set a"
    using set_blank_words [of _ ?s] pv unfolding b plain_value_def by blast
  have lf: "LF \<notin> set ?s"
  proof
    assume "LF \<in> set ?s"
    then have "reparse_map LF = 0 \<or> LF = CHR '' ''" using pv unfolding plain_value_def by blast
    then show False by simp
  qed
  have tl: "tl (dropWhile (\<lambda>c. c \<noteq> LF) (?s @ [LF])) = []" using lf by (subst dropWhile_append2) auto
  let ?c = "initialize_context\<lparr>ctx_list := [Pipe (if args = [] then [] else [Child args [] 0]) PIPE_SEQ RES_NONE]\<rparr>"
  have m: "update_ifs_map sh = Some default_map" using update_ifs_map_default i by (simp add: no_ifs_def)
  obtain d where d: "clean d" "outer_parse ?fl null_o_string (Some (?s @ [LF])) sh = Some (0, pst d False False ?c [] [])"
  proof -
    have "clean None" "ctx_child initialize_context = Child [] [] 0" "ctx_w initialize_context = RES_NONE" "?fl AND 2 = 0"
      by (simp_all add: clean_def initialize_context_def)
    moreover have "\<forall>c\<in>set ?s. reparse_map c = 0 \<or> c = CHR '' ''" using pv unfolding plain_value_def by blast
    ultimately obtain d where "clean d" "parse_stream ?fl reparse_map (pst None False False initialize_context [] (?s @ LF # [])) =
        Some (0, pst d False False (done_pipe PIPE_SEQ (initialize_context\<lparr>ctx_child := Child ([] @ blank_words ?s) [] 0\<rparr>)) [] [])"
      using reparse_words [of ?s None initialize_context "[]" 0 ?fl "[]" "[]"] by blast
    moreover have "done_pipe PIPE_SEQ (initialize_context\<lparr>ctx_child := Child ([] @ blank_words ?s) [] 0\<rparr>) = ?c"
      by (simp add: b done_pipe_def done_command_def initialize_context_def)
    ultimately show ?thesis using m by (intro that [of d]) (simp_all add: outer_parse_def null_o_string_def reparse_map_def)
  qed
  have w: "done_word ?fl (pst d False False ?c [] []) = Some (False, pst d False False ?c [] [])" by (rule done_word_clean [OF d(1)])
  have o: "old_flag ?c = {}" by (simp add: initialize_context_def)
  have fl: "FLAG_EXIT_FROM_LOOP OR FLAG_REPARSING = ?fl" by simp
  have h: "hush_run exec table (?s @ [LF]) ?fl sh = parse_stream_outer (run_list exec table) ?fl null_o_string (Some (?s @ [LF])) 0 sh"
    using tl by (simp add: hush_run_def parse_string_outer_def)
  show ?thesis
  proof (cases "args = []")
    case True
    have "run_list exec table (Pipe [] PIPE_SEQ RES_NONE # end_pipes) sh = Some (0, sh)" by (rule run_list_empties)
    then have "outer_step (run_list exec table) ?fl null_o_string (Some (?s @ [LF])) 0 sh = Some (False, null_o_string, Some [], 0, sh)"
      using d o w True by (simp add: outer_step_def list_head_line b_free_clean Let_def)
    then show ?thesis unfolding fl h using True by (subst parse_stream_outer.simps) simp
  next
    case False
    note r = run_list_words [OF False raw run [OF False]]
    have "outer_step (run_list exec table) ?fl null_o_string (Some (?s @ [LF])) 0 sh =
        Some (False, null_o_string, Some [], if rc < - 1 then 0 else rc, reread_state rc sh')"
      using d o w False r by (auto simp: outer_step_def list_head_line b_free_clean Let_def reread_state_def)
    then show ?thesis unfolding fl h using False by (subst parse_stream_outer.simps) simp
  qed
qed

section \<open>Observations\<close>

text \<open>Behind assignments, a command is called with an array from which one more word has been cut, and with the old count.\<close>

lemma prefix_assignment_argv:
  assumes "CHR '';'' \<notin> set c" and "find_cmd_tbl c table = Some cmdtp" and "length xs + 1 \<le> maxargs cmdtp"
  shows "call_command exec table (a # c # xs) 1 sh = do {
    (rc, sh) \<leftarrow> exec cmdtp ((if do_repeat sh then CMD_FLAG_REPEAT else 0) OR (if is_bootd cmdtp then CMD_FLAG_BOOTD else 0))
      (length (c # xs)) (map Some xs @ [None]) sh;
    Some (rc, if repeatable cmdtp then sh else sh\<lparr>flag_repeat := False\<rparr>) }"
  using assms by (simp add: call_command_def)

text \<open>An assignment with a variable in front of a command counts down \<open>child->sp\<close>, which the next round of a loop finds changed.\<close>

lemma prefix_assignment_count:
  "insert_var_value sh a = Some (True, p) \<Longrightarrow> set_local_var p 0 sh = Some (e, sh') \<Longrightarrow> prefix_assignments [a] n sh = Some (n - 1, sh')"
  by simp

text \<open>The code given to \<open>exit\<close> inside a compound command is lost.\<close>

lemma exit_code_lost:
  assumes "stmt_runs exec table s sh (- 2) sh'" and "poll m sh0 = Some sh"
  shows "items_run exec table m (ICons s st its) r sh0 Exit (sh'\<lparr>last_return_code := 0\<rparr>)"
  using cons_exit [OF assms(2,1)] by (simp add: return_code_def)

text \<open>\<open>a && b || c\<close>: when \<open>a\<close> fails, \<open>c\<close> is left out too.\<close>

lemma and_or_skipped:
  assumes "stmt_runs exec table a sh rc sh'" and "rc \<noteq> 0" "- 1 \<le> rc"
  shows "items_run exec table RES_NONE (ICons a PIPE_AND (ICons b PIPE_OR (ICons c PIPE_SEQ INil))) 0 sh (Code rc) (return_code rc sh')"
proof (rule cons [OF _ assms(1,3) _ nil])
  show "poll RES_NONE sh = Some sh" by (simp add: poll_def head_modes_def)
  show "after_item RES_NONE rc PIPE_AND (ICons b PIPE_OR (ICons c PIPE_SEQ INil)) (return_code rc sh') = Some (INil, return_code rc sh')"
    using assms(2) by (simp add: after_item_def chain_stops_def poll_def head_modes_def)
qed

text \<open>A syntax error in a script: \<open>inp->p\<close> is the null pointer, and the next line is read through it.\<close>

lemma syntax_error_null:
  assumes "outer_parse flag temp inp sh = Some (1, p)" and "flag AND FLAG_EXIT_FROM_LOOP = 0"
  shows "parse_stream_outer rl flag temp inp code sh = None"
proof -
  have "outer_step rl flag temp inp code sh = Some (True, b_free (dest p\<lparr>nonnull := False, quote := False\<rparr>), None, code, sh\<lparr>flag_repeat := False\<rparr>)"
    using assms by (simp add: outer_step_def)
  moreover have "parse_stream_outer rl flag t None code sh1 = None" for t sh1
  proof -
    have "outer_parse flag t None sh1 = None"
      by (cases "update_ifs_map sh1") (simp_all add: outer_parse_def parse_stream.simps static_get_def)
    then show ?thesis by (subst parse_stream_outer.simps) (simp add: outer_step_def)
  qed
  ultimately show ?thesis by (subst parse_stream_outer.simps) simp
qed

text \<open>Otherwise a syntax error returns 0.\<close>

lemma syntax_error_zero:
  assumes "outer_parse flag temp inp sh = Some (1, p)" and "flag AND FLAG_EXIT_FROM_LOOP \<noteq> 0"
  shows "parse_stream_outer rl flag temp inp 0 sh = Some (0, sh\<lparr>flag_repeat := False\<rparr>)"
  using assms by (subst parse_stream_outer.simps) (simp add: outer_step_def)

section \<open>Properties\<close>

definition status :: "outcome \<Rightarrow> int" where
  "status out = (if out = Code 0 \<or> out = Exit then 0 else 1)"

text \<open>
  C3: A line handed to \<open>parse_string_outer\<close> with \<open>FLAG_PARSE_SEMICOLON | FLAG_EXIT_FROM_LOOP\<close>, as \<open>run\<close> does,
  is parsed and run with the effect its syntax has in the semantics; the result is 0 when the last
  command returned 0 or the line left with \<open>exit\<close>, else 1.
\<close>

theorem hush_line:
  assumes "rest_ok its" and "no_ifs sh" and "items_run exec table RES_NONE its 0 sh out sh'"
    and s: "print_line its = s @ [LF]" "LF \<notin> set s" "s \<noteq> []"
  shows "hush_run exec table s (FLAG_PARSE_SEMICOLON OR FLAG_EXIT_FROM_LOOP) sh = Some (status out, settled out sh')"
proof -
  have "hush_run exec table s 3 sh = parse_stream_outer (run_list exec table) 3 null_o_string (Some (s @ [LF])) 0 sh"
    using s(2,3) by (simp add: hush_run_def parse_string_outer_def)
  also have "\<dots> = Some (status out, settled out sh')"
    using outer_step_line [OF _ _ assms(1-3), of 3 "[]" 0] s(1)
    by (subst parse_stream_outer.simps) (cases out; simp add: status_def)
  finally show ?thesis by simp
qed

lemma count_line:
  "print_line (ICons cmd_next PIPE_AND (ICons cmd_more PIPE_SEQ INil)) = ''next&& more'' @ [LF]"
  "rest_ok (ICons cmd_next PIPE_AND (ICons cmd_more PIPE_SEQ INil))"
  using count_ok by (simp_all add: print_word_def sep_def rest_ok_def words_fixed_def sword_of_def word_text_def count_words)

lemma demo_no_ifs: "no_ifs (demo_shell\<lparr>polls := ps\<rparr>)"
proof -
  have "env_name ''IFS''" by (simp add: env_name_def)
  then show ?thesis using demo_shell_lookup [of "''IFS''"] by (simp add: no_ifs_def)
qed

lemma count_line_runs:
  "items_run count_exec count_table RES_NONE (ICons cmd_next PIPE_AND (ICons cmd_more PIPE_SEQ INil)) 0 (demo_shell\<lparr>polls := [None]\<rparr>)
    (Code 1) (demo_shell\<lparr>polls := [], last_return_code := 1\<rparr>)"
proof -
  have p: "poll RES_NONE sh = Some sh" for sh by (simp add: poll_def head_modes_def)
  let ?s = "demo_shell\<lparr>polls := [], last_return_code := 0\<rparr>"
  have "items_run count_exec count_table RES_NONE (ICons cmd_more PIPE_SEQ INil) 0 ?s (Code 1) (return_code 1 ?s)"
    using run_one [OF run_more [of ?s] _ p, of 0] by simp
  then show ?thesis
    using cons [where sh = "demo_shell\<lparr>polls := [None]\<rparr>" and st = PIPE_AND and its = "ICons cmd_more PIPE_SEQ INil", OF p run_next]
    by (simp add: after_item_def chain_stops_def return_code_def)
qed

text \<open>\<open>next&& more\<close> with one left\<close>

theorem hush_line_witness:
  "hush_run count_exec count_table ''next&& more'' (FLAG_PARSE_SEMICOLON OR FLAG_EXIT_FROM_LOOP) (demo_shell\<lparr>polls := [None]\<rparr>) =
    Some (1, demo_shell\<lparr>polls := [], last_return_code := 1\<rparr>)"
  using hush_line [OF count_line(2) demo_no_ifs count_line_runs count_line(1)] by (simp add: status_def settled_def)

text \<open>
  A script, as \<open>source\<close> hands it to \<open>parse_string_outer\<close> with \<open>FLAG_PARSE_SEMICOLON\<close> alone: its lines
  run one after the other, each in the state the one before has left, up to an \<open>exit\<close> or the end of the
  text, and the run ends.  The result is always 0, whatever the commands returned.
\<close>

theorem hush_script:
  assumes "itss \<noteq> []" and "list_all rest_ok itss" and "script_runs exec table itss sh left sh'" and "\<not> left \<longrightarrow> no_ifs sh'"
  shows "hush_run exec table (concat (map print_line itss)) FLAG_PARSE_SEMICOLON sh = Some (0, sh')"
proof -
  let ?s = "concat (map print_line itss)"
  have lf: "print_line its \<noteq> [] \<and> LF \<in> set (print_line its)" for its by (induction its rule: print_line.induct) auto
  obtain its itss' where i: "itss = its # itss'" using assms(1) by (cases itss) auto
  have s: "?s \<noteq> []" "LF \<in> set ?s" using lf [of its] by (simp_all add: i)
  obtain rest where rest: "rest = [] \<or> rest = [LF]"
      "hush_run exec table ?s 2 sh = parse_stream_outer (run_list exec table) 2 null_o_string (Some (?s @ rest)) 0 sh"
  proof (cases "tl (dropWhile (\<lambda>c. c \<noteq> LF) ?s) = []")
    case True
    have "hush_run exec table ?s 2 sh = parse_stream_outer (run_list exec table) 2 null_o_string (Some (?s @ [])) 0 sh"
      unfolding hush_run_def parse_string_outer_def Let_def using s True by (simp only: if_False simp_thms append_Nil2)
    then show ?thesis by (rule that [of "[]", rotated]) simp
  next
    case False
    have "hush_run exec table ?s 2 sh = parse_stream_outer (run_list exec table) 2 null_o_string (Some (?s @ [LF])) 0 sh"
      unfolding hush_run_def parse_string_outer_def Let_def using s False by (simp only: if_False if_True simp_thms)
    then show ?thesis by (rule that [of "[LF]", rotated]) simp
  qed
  show ?thesis
  proof (cases left)
    case True
    then show ?thesis using outer_script(1) [OF assms(3,2), of rest 0] rest(2) by simp
  next
    case False
    then show ?thesis
      using outer_script(2) [OF assms(3,2), of rest 0] rest assms(4) script_end_loop [OF _ rest(1), of sh' exec table] by auto
  qed
qed

text \<open>Two lines; the second fails.\<close>

theorem hush_script_witness:
  "hush_run count_exec count_table (''next&& more'' @ [LF] @ ''next&& more'' @ [LF]) FLAG_PARSE_SEMICOLON (demo_shell\<lparr>polls := [None, None]\<rparr>) =
    Some (0, demo_shell\<lparr>polls := [], last_return_code := 1\<rparr>)"
proof -
  let ?its = "ICons cmd_next PIPE_AND (ICons cmd_more PIPE_SEQ INil)"
  have p: "poll RES_NONE sh = Some sh" for sh by (simp add: poll_def head_modes_def)
  have line: "items_run count_exec count_table RES_NONE ?its 0 sh (Code (if tl (polls sh) = [] then 1 else 0))
      (return_code (if tl (polls sh) = [] then 1 else 0) (sh\<lparr>polls := tl (polls sh), last_return_code := 0\<rparr>))" for sh
  proof -
    let ?s = "sh\<lparr>polls := tl (polls sh), last_return_code := 0\<rparr>"
    have "items_run count_exec count_table RES_NONE (ICons cmd_more PIPE_SEQ INil) 0 ?s (Code (if polls ?s = [] then 1 else 0))
        (return_code (if polls ?s = [] then 1 else 0) ?s)"
      by (rule run_one [OF run_more _ p]) simp
    then show ?thesis
      using cons [where sh = sh and st = PIPE_AND and its = "ICons cmd_more PIPE_SEQ INil", OF p run_next] by (simp add: after_item_def chain_stops_def return_code_def)
  qed
  let ?a = "demo_shell\<lparr>polls := [None, None]\<rparr>" and ?b = "demo_shell\<lparr>polls := [None], last_return_code := 0\<rparr>"
    and ?c = "demo_shell\<lparr>polls := [], last_return_code := 1\<rparr>"
  have n: "no_ifs ?a" "no_ifs ?b" "no_ifs ?c" using demo_no_ifs by (simp_all add: no_ifs_def)
  have 2: "script_runs count_exec count_table [?its] ?b False ?c"
    using script_line [OF n(2) line [of ?b], of "[]" False] script_end by (simp add: settled_def return_code_def)
  have "script_runs count_exec count_table [?its, ?its] ?a False ?c"
    using script_line [OF n(1) line [of ?a], of "[?its]" False] 2 by (simp add: settled_def return_code_def)
  then have h: "hush_run count_exec count_table (concat (map print_line [?its, ?its])) FLAG_PARSE_SEMICOLON ?a = Some (0, ?c)"
    using hush_script [of "[?its, ?its]" count_exec count_table ?a False ?c] n(3) count_line(2) by (simp del: print_line.simps)
  have t: "concat (map print_line [?its, ?its]) = ''next&& more'' @ [LF] @ ''next&& more'' @ [LF]"
    unfolding list.map concat.simps count_line(1) by simp
  show ?thesis using h unfolding t .
qed

lemma sum_refs_zero: "(\<Sum>w\<leftarrow>ws. count_refs (sword_of w)) = 0 \<longleftrightarrow> list_all (\<lambda>w. \<not> has_ref (sword_of w)) ws"
  by (induction ws) (auto simp: count_refs_def has_ref_def filter_empty_conv)

lemma reread_status: "- (2 ^ 31) \<le> rc \<Longrightarrow> 0 \<le> sint (last_return_code (reread_state rc sh))"
proof -
  assume r: "- (2 ^ 31) \<le> rc"
  have s: "sint (word_of_int k :: u32) = k" if "0 \<le> k" "k < 2 ^ 31" for k
    using that by (simp add: sint_sbintrunc' signed_take_bit_int_eq_self_iff)
  have "last_return_code (reread_state rc sh) = word_of_int (if rc < - 1 then - rc - 2 else if rc = 0 then 0 else 1)"
    by (simp add: reread_state_def return_code_def Let_def)
  then show ?thesis using s [of "- rc - 2"] s [of 0] s [of 1] r by auto
qed

text \<open>
  C10: A command with variables whose first word is no assignment.  Its words are replaced by their values,
  joined with blanks and given to the shell as a line of its own, whatever the values hold (quotes and
  separators in a value are read again as shell syntax); the result is the status that this leaves.  For plain
  values, without quote, backslash, \<open>#\<close>, tab or any other character special to the shell but the blank
  (\<open>plain_value\<close>), and without \<open>IFS\<close>, that line is spelled out: a value is split at its blanks and an empty
  one vanishes; the command made of these words is run, and the status it leaves is never negative: an
  \<open>exit\<close> with a variable among its words ends nothing.  Without any word left nothing runs and the status
  stays.
\<close>

theorem expand_correct:
  assumes "env_readable (sh_env sh)" and "list_all sword_ok ws" and "ws \<noteq> []"
    and "\<exists>w\<in>set ws. has_ref (sword_of w)" and "\<not> is_assignment (word_text (sword_of (hd ws)))"
    and "vs = map (\<lambda>w. word_value sh (sword_of w)) ws"
  shows "simple_run exec table ws sh =
      map_option (\<lambda>(_, sh'). (sint (last_return_code sh'), sh'))
        (hush_run exec table (join_blank vs @ [LF]) (FLAG_EXIT_FROM_LOOP OR FLAG_REPARSING) sh) \<and>
    (no_ifs sh \<and> list_all plain_value vs \<and>
      (concat (map blank_words vs) \<noteq> [] \<longrightarrow> run_words exec table (concat (map blank_words vs)) sh = Some (rc, sh1)) \<longrightarrow>
      (let sh' = (if concat (map blank_words vs) = [] then sh else reread_state rc sh1) in
        simple_run exec table ws sh = Some (sint (last_return_code sh'), sh') \<and>
        (concat (map blank_words vs) \<noteq> [] \<and> - (2 ^ 31) \<le> rc \<longrightarrow> 0 \<le> sint (last_return_code sh'))))"
proof -
  let ?t = "\<lambda>w. word_text (sword_of w)" and ?n = "\<Sum>w\<leftarrow>ws. count_refs (sword_of w)"
  have p: "list_all (list_all part_ok) (map sword_of ws)"
    using assms(2) word_unescape by (auto simp: list_all_iff sword_ok_def)
  have str: "make_string sh (map ?t ws) = Some (join_blank vs @ [LF])"
    using make_string_words [OF assms(1) p] assms(3,6) by (simp add: comp_def)
  have n: "?n \<noteq> 0" using assms(4) by (auto simp only: sum_refs_zero list_all_iff)
  have "takeWhile is_assignment (map ?t ws) = []" using assms(3,5) by (cases ws) auto
  then have run: "simple_run exec table ws sh = map_option (\<lambda>(_, sh'). (sint (last_return_code sh'), sh'))
      (hush_run exec table (join_blank vs @ [LF]) (FLAG_EXIT_FROM_LOOP OR FLAG_REPARSING) sh)"
    using n str by (cases "hush_run exec table (join_blank vs @ [LF]) (FLAG_EXIT_FROM_LOOP OR FLAG_REPARSING) sh")
      (auto simp: simple_run_def run_child_def)
  have "let sh' = (if concat (map blank_words vs) = [] then sh else reread_state rc sh1) in
      simple_run exec table ws sh = Some (sint (last_return_code sh'), sh') \<and>
      (concat (map blank_words vs) \<noteq> [] \<and> - (2 ^ 31) \<le> rc \<longrightarrow> 0 \<le> sint (last_return_code sh'))"
    if "no_ifs sh" "list_all plain_value vs"
      "concat (map blank_words vs) \<noteq> [] \<longrightarrow> run_words exec table (concat (map blank_words vs)) sh = Some (rc, sh1)"
  proof -
    have "vs \<noteq> []" using assms(3,6) by simp
    from hush_reread [OF this that(2,1) mp [OF that(3)]]
    obtain r where "hush_run exec table (join_blank vs @ [LF]) (FLAG_EXIT_FROM_LOOP OR FLAG_REPARSING) sh =
        Some (r, if concat (map blank_words vs) = [] then sh else reread_state rc sh1)" by blast
    then show ?thesis using run reread_status [of rc sh1] by (simp add: Let_def)
  qed
  then show ?thesis using run by blast
qed

text \<open>\<open>$c\<close> with the value \<open>next\<close>.\<close>

theorem expand_correct_witness:
  "\<exists>sh. shell_value sh ''c'' = ''next'' \<and> polls sh = [None] \<and>
     simple_run count_exec count_table [[SRef False ''c'']] sh = Some (0, sh\<lparr>polls := [], last_return_code := 0\<rparr>)"
proof -
  let ?sh = "demo_shell\<lparr>top_vars := [\<lparr>vname = ''c'', vvalue = ''next'', flg_export = 0, flg_read_only = False\<rparr>], polls := [None]\<rparr>"
  have env: "env_readable (sh_env ?sh)" "no_ifs ?sh" using demo_shell_env demo_no_ifs by (simp_all add: no_ifs_def)
  have v: "shell_value ?sh ''c'' = ''next''"
    using demo_shell_lookup [of "''c''"] by (simp add: shell_value_def env_name_def local_vars_def)
  have c: "isalnum CHR ''c''" "isalpha CHR ''c''" by (simp_all add: isalnum_def isalpha_def ismask_def ctype_def)
  have w: "word_value ?sh (sword_of [SRef False ''c'']) = ''next''"
    using v by (simp add: word_value_def sword_of_def has_ref_def)
  have b: "blank_words ''next'' = [''next'']" by (simp add: blank_words.simps [of "''next''"] blank_words.simps [of "[]"])
  have p: "plain_value ''next''" by (simp add: plain_value_def reparse_map_def default_map_def mapset_def)
  have r: "run_words count_exec count_table [''next''] ?sh = Some (0, ?sh\<lparr>polls := []\<rparr>)"
    using count_words(2) by (simp add: run_words_def run_child_def call_command_found count_table_def find_cmd_tbl_def cmd_len_def count_exec_def)
  have "sword_ok [SRef False ''c'']"
    using c by (simp add: sword_ok_def ref_ok_def name_char_def print_word_def word_data_def)
  moreover have "\<not> is_assignment (word_text (sword_of [SRef False ''c'']))"
    by (simp add: sword_of_def word_text_def is_assignment_def isalpha_def ismask_def ctype_def)
  ultimately have "simple_run count_exec count_table [[SRef False ''c'']] ?sh =
      Some (sint (last_return_code (reread_state 0 (?sh\<lparr>polls := []\<rparr>))), reread_state 0 (?sh\<lparr>polls := []\<rparr>))"
    using expand_correct [of ?sh "[[SRef False ''c'']]" "[''next'']" count_exec count_table 0 "?sh\<lparr>polls := []\<rparr>", THEN conjunct2] env w b p r
    by (simp add: sword_of_def has_ref_def Let_def)
  moreover have "reread_state 0 (?sh\<lparr>polls := []\<rparr>) = ?sh\<lparr>polls := [], last_return_code := 0\<rparr>"
    by (simp add: reread_state_def return_code_def)
  ultimately have "simple_run count_exec count_table [[SRef False ''c'']] ?sh = Some (0, ?sh\<lparr>polls := [], last_return_code := 0\<rparr>)"
    by simp
  then show ?thesis using v by (intro exI [of _ ?sh]) simp
qed

text \<open>The command \<open>run\<close>: the lines its variables hold, up to the first that fails or is not there.\<close>

inductive vars_run :: "executor \<Rightarrow> cmd_tbl list \<Rightarrow> string list \<Rightarrow> shell \<Rightarrow> int \<Rightarrow> shell \<Rightarrow> bool" for exec table where
  vars_end: "vars_run exec table [] sh 0 sh"
| vars_none: "env_lookup (sh_env sh) n = Some None \<Longrightarrow> vars_run exec table (n # ns) sh 1 sh"
| vars_fail: "env_lookup (sh_env sh) n = Some (Some s) \<Longrightarrow> print_line its = s @ [LF] \<Longrightarrow> LF \<notin> set s \<Longrightarrow> s \<noteq> [] \<Longrightarrow> rest_ok its \<Longrightarrow> no_ifs sh \<Longrightarrow>
    items_run exec table RES_NONE its 0 sh out sh1 \<Longrightarrow> status out \<noteq> 0 \<Longrightarrow> vars_run exec table (n # ns) sh 1 (settled out sh1)"
| vars_next: "env_lookup (sh_env sh) n = Some (Some s) \<Longrightarrow> print_line its = s @ [LF] \<Longrightarrow> LF \<notin> set s \<Longrightarrow> s \<noteq> [] \<Longrightarrow> rest_ok its \<Longrightarrow> no_ifs sh \<Longrightarrow>
    items_run exec table RES_NONE its 0 sh out sh1 \<Longrightarrow> status out = 0 \<Longrightarrow> vars_run exec table ns (settled out sh1) r sh' \<Longrightarrow>
    vars_run exec table (n # ns) sh r sh'"

lemma run_vars_runs: "vars_run exec table ns sh r sh' \<Longrightarrow> run_vars exec table ns sh = Some (r, sh')"
proof (induction rule: vars_run.induct)
  case (vars_fail sh n s its out sh1 ns)
  then show ?case using hush_line [OF vars_fail.hyps(5-7,2-4)] by simp
next
  case (vars_next sh n s its out sh1 ns r sh')
  then show ?case using hush_line [OF vars_next.hyps(5-7,2-4)] by simp
qed simp_all

text \<open>
  \<open>run\<close> with the names of variables: each line is fetched from the environment as the lines before
  have left it and run as above; the first that fails, or that is not there, ends the command with 1.
\<close>

theorem do_run_correct:
  assumes "vars_run exec table names sh r sh'" and "names \<noteq> []"
  shows "hush_do_run exec table (''run'' # names) sh = Some (r, sh')"
  using run_vars_runs [OF assms(1)] assms(2) by (simp add: hush_do_run_def Suc_le_eq)

text \<open>\<open>a\<close> holds the name of a command that is not there.\<close>

theorem do_run_correct_witness:
  "hush_do_run count_exec count_table [''run'', ''a'', ''b''] demo_shell = Some (1, demo_shell\<lparr>last_return_code := 1, flag_repeat := False\<rparr>)"
proof -
  let ?its = "ICons (Simple [[SText ''1'']]) PIPE_SEQ INil"
  have w: "\<not> is_assignment ''1''" by (simp add: is_assignment_def isalpha_def ismask_def ctype_def)
  have "simple_run count_exec count_table [[SText ''1'']] demo_shell = call_command count_exec count_table [''1''] 0 demo_shell"
    using simple_run_plain [of "[[SText ''1'']]"] w by (simp add: sword_of_def word_text_def has_ref_def)
  also have "\<dots> = Some (- 1, demo_shell)"
    by (simp add: call_command_def count_table_def find_cmd_tbl_def cmd_len_def)
  finally have s: "stmt_runs count_exec count_table (Simple [[SText ''1'']]) demo_shell (- 1) demo_shell" by (rule simple)
  have ok: "rest_ok ?its"
    using w by (simp add: rest_ok_def sword_ok_def first_ok_def plain_text_def no_mark_def word_data_def reserved_list_def words_fixed_def sword_of_def word_text_def)
  have l: "print_line ?its = ''1'' @ [LF]" by (simp add: print_word_def)
  have n: "no_ifs demo_shell" using demo_shell_lookup [of "''IFS''"] by (simp add: no_ifs_def env_name_def)
  have e: "env_lookup (sh_env demo_shell) ''a'' = Some (Some ''1'')" using demo_shell_lookup [of "''a''"] by (simp add: env_name_def)
  have r: "items_run count_exec count_table RES_NONE ?its 0 demo_shell (Code (- 1)) (return_code (- 1) demo_shell)"
    by (rule run_one [OF s]) (simp_all add: poll_def head_modes_def)
  have "vars_run count_exec count_table [''a'', ''b''] demo_shell 1 (settled (Code (- 1)) (return_code (- 1) demo_shell))"
    by (rule vars_fail [OF e l _ _ ok n r]) (simp_all add: status_def)
  from do_run_correct [OF this] show ?thesis by (simp add: settled_def return_code_def)
qed

end
