(* ===== verification/Items.thy ===== *)
theory Items
  imports Format
begin

text \<open>
  The configuration items, \<^verbatim>\<open>infotm/strategy/items/items.c\<close>: a text of lines \<open>key value\<close>, read by
  \<open>item_init\<close> into an array of keys and values.  The text and the two 64-byte arrays of an item are lists of characters with checked accesses; a pointer into the text is an index, and
  \<^verbatim>\<open>NULL\<close>, which the parser uses for lines that are too long, is \<open>None\<close> inside the option of the
  access check: to dereference it is an error like an access outside an array.
\<close>

section \<open>String routines on arrays\<close>

text \<open>
  \<open>strncmp\<close>, \<open>strnlen\<close> and \<open>strncpy\<close> of \<^verbatim>\<open>lib_generic/string.c\<close> on arrays whose bounds are checked.
  They agree with the routines of \<open>CString\<close> on every memory that holds the arrays.
\<close>

fun strncmp_at :: "string \<Rightarrow> nat \<Rightarrow> string \<Rightarrow> nat \<Rightarrow> nat \<Rightarrow> int option" where
  "strncmp_at a i b j 0 = Some 0"
| "strncmp_at a i b j (Suc count) = do {
     x \<leftarrow> rd a i;
     y \<leftarrow> rd b j;
     if schar_diff x y \<noteq> 0 \<or> x = NUL then Some (schar_diff x y)
     else strncmp_at a (Suc i) b (Suc j) count }"

fun strnlen_at :: "string \<Rightarrow> nat \<Rightarrow> nat \<Rightarrow> nat option" where
  "strnlen_at s i 0 = Some 0"
| "strnlen_at s i (Suc count) = do {
     c \<leftarrow> rd s i;
     if c \<noteq> NUL then map_option Suc (strnlen_at s (Suc i) count) else Some 0 }"

fun strncpy_at :: "string \<Rightarrow> nat \<Rightarrow> string \<Rightarrow> nat \<Rightarrow> nat \<Rightarrow> string option" where
  "strncpy_at dest d src s 0 = Some dest"
| "strncpy_at dest d src s (Suc count) = do {
     c \<leftarrow> rd src s;
     dest \<leftarrow> wr dest d c;
     if c \<noteq> NUL then strncpy_at dest (Suc d) src (Suc s) count else Some dest }"

section \<open>The parser\<close>

definition PARSE_LIMIT :: nat where "PARSE_LIMIT = 256"
definition ITEM_MAX_LEN :: nat where "ITEM_MAX_LEN = 64"
definition ITEM_MAX_COUNT :: nat where "ITEM_MAX_COUNT = 200"
definition ITEM_MAX_COUNT_PRELOADER :: nat where "ITEM_MAX_COUNT_PRELOADER = 64"
definition ITEMS_EINT :: int where "ITEMS_EINT = 9999"
definition EFAULT :: int where "EFAULT = 14"

definition LINEF0 :: char where "LINEF0 = CHR 10"
definition LINEF1 :: char where "LINEF1 = CHR 13"

definition is_white :: "char \<Rightarrow> bool" where
  "is_white c \<longleftrightarrow> c = CHR '' '' \<or> c = CHR 9"

definition is_linef :: "char \<Rightarrow> bool" where
  "is_linef c \<longleftrightarrow> c = LINEF0 \<or> c = LINEF1"

record imap_item =
  item_key :: string
  item_text :: string

text \<open>The loop of the three functions that skip: while \<open>P\<close> holds, and at most \<open>PARSE_LIMIT\<close> characters.\<close>

function skip_for :: "(char \<Rightarrow> bool) \<Rightarrow> string \<Rightarrow> nat \<Rightarrow> nat \<Rightarrow> (nat \<times> nat) option" where
  "skip_for P xs s c =
     (case rd xs s of None \<Rightarrow> None
      | Some ch \<Rightarrow> if P ch \<and> c < PARSE_LIMIT then skip_for P xs (s + 1) (c + 1) else Some (s, c))"
  by auto
termination by (relation "measure (\<lambda>(P, xs, s, c). PARSE_LIMIT - c)") (auto simp: PARSE_LIMIT_def)

declare skip_for.simps [simp del]

definition skip_white :: "string \<Rightarrow> nat \<Rightarrow> nat option option" where
  "skip_white xs s = do {
     (s, c) \<leftarrow> skip_for is_white xs s 0;
     Some (if c = PARSE_LIMIT then None else Some s) }"

definition skip_linef :: "string \<Rightarrow> nat \<Rightarrow> nat option option" where
  "skip_linef xs s = do {
     (s, c) \<leftarrow> skip_for is_linef xs s 0;
     Some (if c = PARSE_LIMIT then None else Some s) }"

definition skip_line :: "string \<Rightarrow> nat \<Rightarrow> nat option option" where
  "skip_line xs s = do {
     (s, c) \<leftarrow> skip_for (\<lambda>ch. \<not> is_linef ch) xs s 0;
     if c = PARSE_LIMIT then Some None else skip_linef xs s }"

text \<open>\<open>__copy\<close>: one word of at most \<open>PARSE_LIMIT\<close> characters, with a NUL behind it.\<close>

function copy_loop :: "string \<Rightarrow> nat \<Rightarrow> string \<Rightarrow> nat \<Rightarrow> (string \<times> nat) option" where
  "copy_loop buf c src s =
     (case rd src s of None \<Rightarrow> None
      | Some ch \<Rightarrow>
          if \<not> is_white ch \<and> \<not> is_linef ch \<and> c < PARSE_LIMIT
          then (case wr buf c ch of None \<Rightarrow> None | Some buf \<Rightarrow> copy_loop buf (c + 1) src (s + 1))
          else (case wr buf c NUL of None \<Rightarrow> None | Some buf \<Rightarrow> Some (buf, s)))"
  by auto
termination by (relation "measure (\<lambda>(buf, c, src, s). PARSE_LIMIT - c)") (auto simp: PARSE_LIMIT_def)

declare copy_loop.simps [simp del]

definition copy_word :: "string \<Rightarrow> string \<Rightarrow> nat \<Rightarrow> (string \<times> nat) option" where
  "copy_word buf src s = copy_loop buf 0 src s"

text \<open>
  \<open>_parse_line\<close>: the item with what was copied into it, and the start of the next line or \<^verbatim>\<open>NULL\<close>.
  A bind \<open>p \<leftarrow> s\<close> of a pointer that may be \<^verbatim>\<open>NULL\<close> dereferences it.
\<close>

definition item_parse_line :: "imap_item \<Rightarrow> string \<Rightarrow> nat \<Rightarrow> (imap_item \<times> nat option) option" where
  "item_parse_line t xs s = do {
     s \<leftarrow> skip_white xs s;
     s \<leftarrow> (case s of None \<Rightarrow> Some None | Some s \<Rightarrow> skip_linef xs s);
     p \<leftarrow> s;
     ch \<leftarrow> rd xs p;
     if ch \<noteq> CHR ''#''
     then do {
       r \<leftarrow> strncmp_at xs p (''items.end'' @ [NUL]) 0 9;
       if r = 0 then Some (t, None)
       else do {
         (key, p) \<leftarrow> copy_word (item_key t) xs p;
         let t = t\<lparr>item_key := key\<rparr>;
         s \<leftarrow> skip_white xs p;
         p \<leftarrow> s;
         ch \<leftarrow> rd xs p;
         if is_linef ch
         then do { s \<leftarrow> skip_line xs p; Some (t, s) }
         else do {
           s \<leftarrow> skip_linef xs p;
           p \<leftarrow> s;
           (text, p) \<leftarrow> copy_word (item_text t) xs p;
           s \<leftarrow> skip_line xs p;
           Some (t\<lparr>item_text := text\<rparr>, s) } } }
     else do { s \<leftarrow> skip_line xs p; Some (t, s) } }"

text \<open>Every line that is read to its end moves the position on: this is why \<open>item_init\<close> ends.\<close>

lemma skip_for_ge: "skip_for P xs s c = Some (s', c') \<Longrightarrow> c \<le> PARSE_LIMIT \<Longrightarrow>
    s \<le> s' \<and> c' = c + (s' - s) \<and> c' \<le> PARSE_LIMIT \<and> s' < length xs \<and> (c' < PARSE_LIMIT \<longrightarrow> \<not> P (xs ! s'))"
proof (induction P xs s c rule: skip_for.induct)
  case (1 P xs s c)
  show ?case
  proof (cases "rd xs s")
    case None
    then show ?thesis using "1.prems" by (simp add: skip_for.simps [of P xs s])
  next
    case (Some ch)
    then have ch: "s < length xs" "xs ! s = ch" by (simp_all add: rd_eq_Some)
    show ?thesis
    proof (cases "P ch \<and> c < PARSE_LIMIT")
      case True
      then show ?thesis using "1.IH" [OF Some True] "1.prems" Some by (simp add: skip_for.simps [of P xs s]) linarith
    next
      case False
      then show ?thesis using "1.prems" ch by (auto simp: skip_for.simps [of P xs s])
    qed
  qed
qed

lemma skip_linef_ge: "skip_linef xs s = Some (Some s') \<Longrightarrow> s \<le> s' \<and> s' < length xs \<and> \<not> is_linef (xs ! s')"
  by (auto simp: skip_linef_def bind_eq_Some_conv split: if_splits prod.splits dest!: skip_for_ge)

lemma skip_white_ge: "skip_white xs s = Some (Some s') \<Longrightarrow> s \<le> s' \<and> s' < length xs \<and> \<not> is_white (xs ! s')"
  by (auto simp: skip_white_def bind_eq_Some_conv split: if_splits prod.splits dest!: skip_for_ge)

lemma skip_line_gt:
  assumes "skip_line xs s = Some (Some s')"
  shows "s < s' \<and> s' < length xs \<and> \<not> is_linef (xs ! s')"
proof -
  obtain q c where f: "skip_for (\<lambda>ch. \<not> is_linef ch) xs s 0 = Some (q, c)" and c: "c \<noteq> PARSE_LIMIT"
    and l: "skip_linef xs q = Some (Some s')"
    using assms by (auto simp: skip_line_def bind_eq_Some_conv split: if_splits)
  have q: "s \<le> q" "q < length xs" "is_linef (xs ! q)" using skip_for_ge [OF f] c by auto
  have "q \<noteq> s'" using skip_linef_ge [OF l] q(3) by auto
  then show ?thesis using skip_linef_ge [OF l] q(1) by linarith
qed

lemma copy_loop_ge: "copy_loop buf c src s = Some (buf', s') \<Longrightarrow> s \<le> s'"
proof (induction buf c src s rule: copy_loop.induct)
  case (1 buf c src s)
  show ?case using "1.prems" "1.IH"
    by (subst (asm) copy_loop.simps) (force split: option.splits if_splits)
qed

lemma item_parse_line_progress:
  assumes "item_parse_line t xs s = Some (t', Some s')"
  shows "s < s'"
proof -
  obtain w where w: "skip_white xs s = Some w" using assms by (auto simp: item_parse_line_def bind_eq_Some_conv)
  obtain p where p: "(case w of None \<Rightarrow> Some None | Some s \<Rightarrow> skip_linef xs s) = Some (Some p)"
    using assms w by (auto simp: item_parse_line_def bind_eq_Some_conv)
  then obtain w' where w': "w = Some w'" "skip_linef xs w' = Some (Some p)" by (cases w) auto
  have sp: "s \<le> p" using skip_white_ge [of xs s w'] skip_linef_ge [of xs w' p] w w' by simp
  have "p < s'"
  proof (cases "rd xs p = Some CHR ''#''")
    case True
    then show ?thesis using assms w w' skip_line_gt [of xs p s'] by (auto simp: item_parse_line_def bind_eq_Some_conv)
  next
    case False
    then show ?thesis using assms w w'
      by (auto simp: item_parse_line_def bind_eq_Some_conv copy_word_def Let_def
          split: if_splits prod.splits dest!: copy_loop_ge skip_white_ge skip_linef_ge skip_line_gt)
  qed
  then show ?thesis using sp by simp
qed

section \<open>\<open>item_init\<close>\<close>

text \<open>
  The array \<open>items\<close> has as many cells as its configuration says: \<open>ITEM_MAX_COUNT\<close>, or
  \<open>ITEM_MAX_COUNT_PRELOADER\<close> in the first loader.  The text starts at index 0; \<open>len\<close> is what the caller
  says its length is.
\<close>

definition empty_item :: imap_item where
  "empty_item = \<lparr>item_key = replicate ITEM_MAX_LEN NUL, item_text = replicate ITEM_MAX_LEN NUL\<rparr>"

definition clear_item :: "imap_item \<Rightarrow> imap_item option" where
  "clear_item t = do {
     k \<leftarrow> wr (item_key t) 0 NUL;
     v \<leftarrow> wr (item_text t) 0 NUL;
     Some (t\<lparr>item_key := k, item_text := v\<rparr>) }"

definition item_step :: "imap_item list \<Rightarrow> string \<Rightarrow> nat \<Rightarrow> nat \<Rightarrow> (imap_item list \<times> nat option \<times> bool) option" where
  "item_step items xs i s = do {
     t \<leftarrow> rd items i;
     t \<leftarrow> clear_item t;
     (t, s) \<leftarrow> item_parse_line t xs s;
     k \<leftarrow> rd (item_key t) 0;
     Some (items[i := t], s, k \<noteq> NUL) }"

lemma item_step_progress: "item_step items xs i s = Some (items', Some s', b) \<Longrightarrow> s < s'"
  by (auto simp: item_step_def bind_eq_Some_conv dest!: item_parse_line_progress)

function item_loop :: "string \<Rightarrow> nat \<Rightarrow> imap_item list \<Rightarrow> nat \<Rightarrow> nat \<Rightarrow> (imap_item list \<times> nat) option" where
  "item_loop xs len items i s =
     (if i < length items \<and> s < len
      then (case item_step items xs i s of
              None \<Rightarrow> None
            | Some (items, None, _) \<Rightarrow> Some (items, i)
            | Some (items, Some s, found) \<Rightarrow> item_loop xs len items (if found then i + 1 else i) s)
      else Some (items, i))"
  by auto
termination
  by (relation "measure (\<lambda>(xs, len, items, i, s). len - s)") (auto dest!: item_step_progress)

declare item_loop.simps [simp del]

definition item_init :: "nat \<Rightarrow> string \<Rightarrow> nat \<Rightarrow> (imap_item list \<times> nat) option" where
  "item_init count xs len = item_loop xs len (replicate count empty_item) 0 0"

section \<open>Arrays that hold strings\<close>

definition array_holds :: "string \<Rightarrow> string \<Rightarrow> bool" where
  "array_holds a s \<longleftrightarrow> length a = ITEM_MAX_LEN \<and> NUL \<notin> set s \<and> (\<exists>r. a = s @ NUL # r)"

definition cz :: "string \<Rightarrow> string" where
  "cz s = takeWhile (\<lambda>c. c \<noteq> NUL) s"

lemma cz_simps [simp]: "cz [] = []" "cz (c # s) = (if c = NUL then [] else c # cz s)"
  by (simp_all add: cz_def)

lemma cz_append: "NUL \<notin> set s \<Longrightarrow> cz (s @ NUL # r) = s"
  by (induction s) auto

lemma holds_cz: "array_holds a s \<Longrightarrow> cz a = s \<and> NUL \<in> set a \<and> length s < ITEM_MAX_LEN"
  by (auto simp: array_holds_def cz_append)

lemma rd_drop: "drop s xs = c # r \<Longrightarrow> rd xs s = Some c \<and> drop (Suc s) xs = r"
  by (metis Cons_nth_drop_Suc drop_all list.distinct(1) list.inject not_le rd_Some)

lemma drop_append_off: "drop s xs = w @ r \<Longrightarrow> drop (s + length w) xs = r"
  by (metis add.commute append_eq_conv_conj drop_drop)

lemma strncmp_at_cz:
  "NUL \<in> set (drop i a) \<Longrightarrow> NUL \<in> set (drop j b) \<Longrightarrow>
    \<exists>r. strncmp_at a i b j n = Some r \<and> (r = 0 \<longleftrightarrow> take n (cz (drop i a)) = take n (cz (drop j b)))"
proof (induction n arbitrary: i j)
  case (Suc n)
  obtain x u where x: "drop i a = x # u" using Suc.prems by (cases "drop i a") auto
  obtain y v where y: "drop j b = y # v" using Suc.prems by (cases "drop j b") auto
  have xi: "rd a i = Some x" "drop (Suc i) a = u" and yj: "rd b j = Some y" "drop (Suc j) b = v"
    using rd_drop [OF x] rd_drop [OF y] by blast+
  show ?case
  proof (cases "x = y \<and> x \<noteq> NUL")
    case True
    then have yn: "x = y" "y \<noteq> NUL" by blast+
    have "NUL \<in> set (drop (Suc i) a)" "NUL \<in> set (drop (Suc j) b)"
      using Suc.prems yn unfolding x y xi yj by auto
    note Suc.IH [OF this]
    moreover have "strncmp_at a i b j (Suc n) = strncmp_at a (Suc i) b (Suc j) n" using xi yj yn by simp
    ultimately show ?thesis using yn unfolding x y xi yj by simp
  next
    case False
    then have r: "strncmp_at a i b j (Suc n) = Some (schar_diff x y)"
      by (cases "x = NUL") (simp_all add: xi(1) yj(1))
    have "(x = y) \<longleftrightarrow> take (Suc n) (cz (x # u)) = take (Suc n) (cz (y # v))"
      using False by (cases "x = NUL"; cases "y = NUL") simp_all
    then show ?thesis unfolding r x y by simp
  qed
qed simp

lemma strncmp_at_diff:
  "drop i a = p @ c # ra \<Longrightarrow> drop j b = p @ d # rb \<Longrightarrow> c \<noteq> d \<Longrightarrow> NUL \<notin> set p \<Longrightarrow> length p < n \<Longrightarrow>
    \<exists>r. strncmp_at a i b j n = Some r \<and> r \<noteq> 0"
proof (induction p arbitrary: i j n)
  case Nil
  then show ?case using rd_drop [of i a c] rd_drop [of j b d] by (cases n) auto
next
  case (Cons e p)
  then obtain m where n: "n = Suc m" by (cases n) auto
  have "drop i a = e # (p @ c # ra)" "drop j b = e # (p @ d # rb)" using Cons.prems by simp_all
  note rd_drop [OF this(1)] rd_drop [OF this(2)]
  then show ?case using Cons.IH [of "Suc i" "Suc j" m] Cons.prems n by auto
qed

lemma strncmp_at_same:
  "drop i a = p @ ra \<Longrightarrow> drop j b = p @ rb \<Longrightarrow> NUL \<notin> set p \<Longrightarrow> strncmp_at a i b j (length p) = Some 0"
proof (induction p arbitrary: i j)
  case (Cons e p)
  have "drop i a = e # (p @ ra)" "drop j b = e # (p @ rb)" using Cons.prems by simp_all
  note rd_drop [OF this(1)] rd_drop [OF this(2)]
  then show ?case using Cons.IH [of "Suc i" "Suc j"] Cons.prems by simp
qed simp

lemma strnlen_at_cz: "NUL \<in> set (drop i a) \<Longrightarrow> strnlen_at a i n = Some (min n (length (cz (drop i a))))"
proof (induction n arbitrary: i)
  case (Suc n)
  obtain x u where x: "drop i a = x # u" using Suc.prems by (cases "drop i a") auto
  show ?case using Suc.IH [of "Suc i"] Suc.prems rd_drop [OF x] x by auto
qed simp

lemma strncpy_at_copy:
  "drop s src = v @ NUL # r \<Longrightarrow> NUL \<notin> set v \<Longrightarrow> length v < n \<Longrightarrow> d + length v < length dest \<Longrightarrow>
    strncpy_at dest d src s n = Some (take d dest @ v @ NUL # drop (Suc (d + length v)) dest)"
proof (induction v arbitrary: dest d s n)
  case Nil
  then obtain m where "n = Suc m" by (cases n) auto
  then show ?case using Nil rd_drop [of s src NUL] by (simp add: upd_conv_take_nth_drop)
next
  case (Cons e v)
  then obtain m where n: "n = Suc m" by (cases n) auto
  have "drop s src = e # (v @ NUL # r)" using Cons.prems by simp
  note e = rd_drop [OF this]
  then show ?case using Cons.IH [of "Suc s" m "Suc d" "dest[d := e]"] Cons.prems n
    by (auto simp: take_update_last)
qed

text \<open>The routines on arrays are those of \<open>CString\<close> on a memory that holds the arrays.\<close>

definition array_at :: "mem \<Rightarrow> ptr \<Rightarrow> string \<Rightarrow> bool" where
  "array_at m p a \<longleftrightarrow> (\<forall>i<length a. m (p + i) = a ! i)"

lemma array_rd: "array_at m p a \<Longrightarrow> rd a i = Some c \<Longrightarrow> m (p + i) = c"
  by (auto simp: array_at_def rd_eq_Some)

lemma strncmp_at_CString:
  "array_at m p a \<Longrightarrow> array_at m q b \<Longrightarrow> strncmp_at a i b j n = Some r \<Longrightarrow> strncmp_loop m (p + i) (q + j) n 0 = r"
proof (induction n arbitrary: i j)
  case (Suc n)
  obtain x y where x: "rd a i = Some x" and y: "rd b j = Some y"
    using Suc.prems(3) by (auto simp: bind_eq_Some_conv)
  show ?case
    using Suc.IH [of "Suc i" "Suc j"] Suc.prems(3) x y array_rd [OF Suc.prems(1) x] array_rd [OF Suc.prems(2) y]
      Suc.prems(1,2) by (auto simp: Let_def split: if_splits)
qed simp

lemma strnlen_at_CString:
  "array_at m p a \<Longrightarrow> strnlen_at a i n = Some r \<Longrightarrow> strnlen_loop m (p + i) n = p + i + r"
proof (induction n arbitrary: i r)
  case (Suc n)
  obtain x where x: "rd a i = Some x" using Suc.prems(2) by (auto simp: bind_eq_Some_conv)
  show ?case
    using Suc.IH [of "Suc i"] Suc.prems(2) x array_rd [OF Suc.prems(1) x] Suc.prems(1) by (auto split: if_splits)
qed simp

lemma strncpy_at_CString:
  "array_at m p dest \<Longrightarrow> array_at m q src \<Longrightarrow> p + length dest \<le> q \<or> q + length src \<le> p \<Longrightarrow>
    strncpy_at dest d src s n = Some dest' \<Longrightarrow>
    array_at (strncpy_loop m (p + d) (q + s) n) p dest' \<and> length dest' = length dest"
proof (induction n arbitrary: m dest d s)
  case (Suc n)
  obtain c dest1 where c: "rd src s = Some c" and w: "wr dest d c = Some dest1"
    using Suc.prems(4) by (auto simp: bind_eq_Some_conv)
  have d1: "d < length dest" "dest1 = dest[d := c]" using w by (simp_all add: wr_eq_Some)
  have s: "s < length src" using c by (simp add: rd_eq_Some)
  let ?m = "m(p + d := c)"
  have a1: "array_at ?m p dest1" using Suc.prems(1) d1 by (auto simp: array_at_def nth_list_update)
  have a2: "array_at ?m q src" using Suc.prems(2,3) d1(1) by (auto simp: array_at_def)
  show ?case
  proof (cases "c = NUL")
    case True
    then show ?thesis using Suc.prems(4) c w a1 d1 array_rd [OF Suc.prems(2) c] by (auto simp: fun_upd_def)
  next
    case False
    then have "strncpy_at dest1 (Suc d) src (Suc s) n = Some dest'" using Suc.prems(4) c w by simp
    moreover have "p + length dest1 \<le> q \<or> q + length src \<le> p" using Suc.prems(3) d1 by simp
    ultimately have "array_at (strncpy_loop ?m (p + Suc d) (q + Suc s) n) p dest' \<and> length dest' = length dest1"
      using Suc.IH [OF a1 a2] by blast
    then show ?thesis using d1 False array_rd [OF Suc.prems(2) c] by (simp add: Let_def)
  qed
qed (simp add: array_at_def)

section \<open>The syntax of a configuration\<close>

text \<open>
  A line is a comment, a key alone, or a key and a value with anything behind it; it is followed by a
  nonempty run of line feeds and carriage returns.
\<close>

datatype conf_line = Comment string string | Flag string string string | Entry string string string string string

fun conf_line_text :: "conf_line \<Rightarrow> string" where
  "conf_line_text (Comment w s) = w @ ''#'' @ s"
| "conf_line_text (Flag w k b) = w @ k @ b"
| "conf_line_text (Entry w k g v r) = w @ k @ g @ v @ r"

fun line_entry :: "conf_line \<Rightarrow> (string \<times> string) list" where
  "line_entry (Comment w s) = []"
| "line_entry (Flag w k b) = [(k, [])]"
| "line_entry (Entry w k g v r) = [(k, v)]"

definition blanks :: "string \<Rightarrow> bool" where
  "blanks w \<longleftrightarrow> list_all is_white w \<and> length w < PARSE_LIMIT"

definition in_line :: "string \<Rightarrow> bool" where
  "in_line s \<longleftrightarrow> list_all (\<lambda>c. \<not> is_linef c) s \<and> length s < PARSE_LIMIT"

definition line_end :: "string \<Rightarrow> bool" where
  "line_end e \<longleftrightarrow> e \<noteq> [] \<and> list_all is_linef e \<and> length e < PARSE_LIMIT"

definition conf_word :: "string \<Rightarrow> bool" where
  "conf_word k \<longleftrightarrow> list_all (\<lambda>c. \<not> is_white c \<and> \<not> is_linef c) k \<and> NUL \<notin> set k \<and> k \<noteq> [] \<and> length k < ITEM_MAX_LEN"

definition conf_key :: "string \<Rightarrow> bool" where
  "conf_key k \<longleftrightarrow> conf_word k \<and> hd k \<noteq> CHR ''#'' \<and> \<not> prefix ''items.end'' k"

fun line_ok :: "conf_line \<Rightarrow> bool" where
  "line_ok (Comment w s) = (blanks w \<and> in_line (''#'' @ s))"
| "line_ok (Flag w k b) = (blanks w \<and> conf_key k \<and> blanks b)"
| "line_ok (Entry w k g v r) = (blanks w \<and> conf_key k \<and> blanks g \<and> g \<noteq> [] \<and> conf_word v \<and>
     in_line r \<and> (r = [] \<or> is_white (hd r)))"

definition conf_text :: "(conf_line \<times> string) list \<Rightarrow> string" where
  "conf_text ls = concat (map (\<lambda>(l, e). conf_line_text l @ e) ls)"

definition conf_entries :: "(conf_line \<times> string) list \<Rightarrow> (string \<times> string) list" where
  "conf_entries ls = concat (map (line_entry \<circ> fst) ls)"

definition conf_ok :: "(conf_line \<times> string) list \<Rightarrow> bool" where
  "conf_ok ls \<longleftrightarrow> list_all (\<lambda>(l, e). line_ok l \<and> line_end e) ls"

section \<open>Reading a line\<close>

definition linef_free_start :: "string \<Rightarrow> bool" where
  "linef_free_start r \<longleftrightarrow> (\<exists>c u. r = c # u \<and> \<not> is_linef c)"

lemma white_linef: "is_white c \<Longrightarrow> \<not> is_linef c"
  by (auto simp: is_white_def is_linef_def LINEF0_def LINEF1_def)

lemma skip_for_run:
  "drop s xs = w @ c # r \<Longrightarrow> list_all P w \<Longrightarrow> \<not> P c \<Longrightarrow> k + length w \<le> PARSE_LIMIT \<Longrightarrow>
    skip_for P xs s k = Some (s + length w, k + length w)"
proof (induction w arbitrary: s k)
  case Nil
  then show ?case using rd_drop [of s xs c r] by (simp add: skip_for.simps [of P xs s])
next
  case (Cons d w)
  have d: "rd xs s = Some d" "drop (Suc s) xs = w @ c # r" using rd_drop [of s xs d "w @ c # r"] Cons.prems(1) by simp_all
  have "skip_for P xs (Suc s) (Suc k) = Some (Suc s + length w, Suc k + length w)"
    by (rule Cons.IH [OF d(2)]) (use Cons.prems in auto)
  then show ?case using d(1) Cons.prems by (simp add: skip_for.simps [of P xs s])
qed

lemma skip_white_run:
  "drop s xs = w @ c # r \<Longrightarrow> blanks w \<Longrightarrow> \<not> is_white c \<Longrightarrow> skip_white xs s = Some (Some (s + length w))"
  using skip_for_run [of s xs w c r is_white 0] by (simp add: skip_white_def blanks_def)

lemma skip_linef_none: "drop s xs = c # r \<Longrightarrow> \<not> is_linef c \<Longrightarrow> skip_linef xs s = Some (Some s)"
  using skip_for_run [of s xs "[]" c r is_linef 0] by (simp add: skip_linef_def PARSE_LIMIT_def)

lemma skip_line_run:
  assumes "drop s xs = w @ e @ r" and "in_line w" and "line_end e" and "linef_free_start r"
  shows "skip_line xs s = Some (Some (s + length w + length e))"
proof -
  obtain l e' where e: "e = l # e'" "is_linef l" using assms(3) by (cases e) (auto simp: line_end_def)
  obtain c u where r: "r = c # u" "\<not> is_linef c" using assms(4) by (auto simp: linef_free_start_def)
  have "skip_for (\<lambda>ch. \<not> is_linef ch) xs s 0 = Some (s + length w, length w)"
    using skip_for_run [of s xs w l "e' @ r" "\<lambda>ch. \<not> is_linef ch" 0] assms e by (simp add: in_line_def)
  moreover have "drop (s + length w) xs = e @ c # u" using drop_append_off [OF assms(1)] r by simp
  then have "skip_for is_linef xs (s + length w) 0 = Some (s + length w + length e, length e)"
    using skip_for_run [of "s + length w" xs e c u is_linef 0] assms(3) r by (simp add: line_end_def)
  ultimately show ?thesis using assms(2,3) by (simp add: skip_line_def skip_linef_def in_line_def line_end_def)
qed

lemma copy_loop_run:
  "drop s xs = w @ c # r \<Longrightarrow> list_all (\<lambda>c. \<not> is_white c \<and> \<not> is_linef c) w \<Longrightarrow> is_white c \<or> is_linef c \<Longrightarrow>
    k + length w \<le> PARSE_LIMIT \<Longrightarrow> k + length w < length buf \<Longrightarrow>
    copy_loop buf k xs s = Some (take k buf @ w @ NUL # drop (Suc (k + length w)) buf, s + length w)"
proof (induction w arbitrary: s k buf)
  case Nil
  then show ?case using rd_drop [of s xs c r] by (auto simp: copy_loop.simps [of buf k] upd_conv_take_nth_drop)
next
  case (Cons d w)
  have d: "rd xs s = Some d" "drop (Suc s) xs = w @ c # r" using rd_drop [of s xs d "w @ c # r"] Cons.prems(1) by simp_all
  have "copy_loop (buf[k := d]) (Suc k) xs (Suc s) =
      Some (take (Suc k) (buf[k := d]) @ w @ NUL # drop (Suc (Suc k + length w)) (buf[k := d]), Suc s + length w)"
    by (rule Cons.IH [OF d(2)]) (use Cons.prems in auto)
  then show ?case using d(1) Cons.prems by (simp add: copy_loop.simps [of buf k] take_update_last)
qed

lemma copy_word_holds:
  assumes "drop s xs = w @ c # r" and "conf_word w" and "is_white c \<or> is_linef c" and "length buf = ITEM_MAX_LEN"
  shows "\<exists>buf'. copy_word buf xs s = Some (buf', s + length w) \<and> array_holds buf' w"
proof -
  have w: "length w < ITEM_MAX_LEN" "NUL \<notin> set w" using assms(2) by (auto simp: conf_word_def)
  have "copy_loop buf 0 xs s = Some (take 0 buf @ w @ NUL # drop (Suc (0 + length w)) buf, s + length w)"
    by (rule copy_loop_run [OF assms(1) _ assms(3)])
      (use assms w in \<open>auto simp: conf_word_def PARSE_LIMIT_def ITEM_MAX_LEN_def\<close>)
  moreover have "array_holds (w @ NUL # drop (Suc (length w)) buf) w" using w assms(4) by (simp add: array_holds_def)
  ultimately show ?thesis by (simp add: copy_word_def)
qed

text \<open>A word that does not start with \<open>items.end\<close> is told apart from it before the word ends.\<close>

lemma prefix_apart:
  "\<not> prefix ys xs \<Longrightarrow> c \<notin> set ys \<Longrightarrow> \<exists>p a ra b rb. xs @ c # r = p @ a # ra \<and> ys = p @ b # rb \<and> a \<noteq> b"
proof (induction ys arbitrary: xs)
  case (Cons y ys)
  show ?case
  proof (cases xs)
    case Nil
    then show ?thesis using Cons.prems by (intro exI [of _ "[]"]) auto
  next
    case (Cons x xs')
    show ?thesis
    proof (cases "x = y")
      case True
      then obtain p a ra b rb where "xs' @ c # r = p @ a # ra" "ys = p @ b # rb" "a \<noteq> b"
        using Cons.IH [of xs'] Cons.prems Cons by auto
      then show ?thesis using Cons True by (intro exI [of _ "y # p"]) auto
    next
      case False
      then show ?thesis using Cons by (intro exI [of _ "[]"]) auto
    qed
  qed
qed simp

lemma not_items_end:
  assumes "drop s xs = k @ c # r" and "conf_key k" and "is_white c \<or> is_linef c"
  shows "\<exists>n. strncmp_at xs s (''items.end'' @ [NUL]) 0 9 = Some n \<and> n \<noteq> 0"
proof -
  have "c \<notin> set ''items.end''" using assms(3) by (auto simp: is_white_def is_linef_def LINEF0_def LINEF1_def)
  then obtain p a ra b rb where p: "k @ c # r = p @ a # ra" "''items.end'' = p @ b # rb" "a \<noteq> b"
    using prefix_apart [of "''items.end''" k c r] assms(2) by (auto simp: conf_key_def)
  have l: "length p < 9" using arg_cong [OF p(2), of length] by simp
  have "set p \<subseteq> set ''items.end''" unfolding p(2) by auto
  moreover have "NUL \<notin> set ''items.end''" by simp
  ultimately have n: "NUL \<notin> set p" by blast
  have d: "drop 0 (''items.end'' @ [NUL]) = p @ b # (rb @ [NUL])" unfolding p(2) by simp
  have "drop s xs = p @ a # ra" using assms(1) p(1) by simp
  then show ?thesis by (rule strncmp_at_diff [OF _ d p(3) n l])
qed

definition item_holds :: "imap_item \<Rightarrow> string \<times> string \<Rightarrow> bool" where
  "item_holds t kv \<longleftrightarrow> array_holds (item_key t) (fst kv) \<and> array_holds (item_text t) (snd kv) \<and> fst kv \<noteq> []"

definition item_free :: "imap_item \<Rightarrow> bool" where
  "item_free t \<longleftrightarrow> array_holds (item_key t) [] \<and> length (item_text t) = ITEM_MAX_LEN"

text \<open>What every line starts with: blanks, and then a character that is neither blank nor line feed.\<close>

lemma line_start:
  assumes "drop s xs = w @ c # r" and "blanks w" and "\<not> is_white c" and "\<not> is_linef c"
  shows "skip_white xs s = Some (Some (s + length w))" and "skip_linef xs (s + length w) = Some (Some (s + length w))"
    and "rd xs (s + length w) = Some c" and "drop (s + length w) xs = c # r"
  using skip_white_run [OF assms(1-3)] drop_append_off [OF assms(1)] rd_drop [of "s + length w" xs c r]
    skip_linef_none [of "s + length w" xs c r] assms(4) by simp_all

lemma conf_word_hd: "conf_word k \<Longrightarrow> \<exists>c k'. k = c # k' \<and> \<not> is_white c \<and> \<not> is_linef c"
  by (cases k) (auto simp: conf_word_def)

lemma parse_comment:
  assumes "drop s xs = w @ ''#'' @ t @ e @ r" and "blanks w" and "in_line (''#'' @ t)" and "line_end e"
    and "linef_free_start r"
  shows "item_parse_line it xs s = Some (it, Some (s + length w + Suc (length t) + length e))"
proof -
  note st = line_start [of s xs w "CHR ''#''" "t @ e @ r"]
  have "skip_line xs (s + length w) = Some (Some (s + length w + length (''#'' @ t) + length e))"
    by (rule skip_line_run [OF _ assms(3-5)]) (use st(4) assms in \<open>simp add: is_white_def is_linef_def LINEF0_def LINEF1_def\<close>)
  then show ?thesis
    using st assms(1,2) by (simp add: item_parse_line_def is_white_def is_linef_def LINEF0_def LINEF1_def)
qed

text \<open>A line with a key, up to the character behind the blanks that follow the key.\<close>

lemma parse_key:
  assumes "drop s xs = w @ k @ b @ c # r" and "blanks w" and "conf_key k" and "blanks b"
    and "b = [] \<Longrightarrow> is_linef c" and "\<not> is_white c" and "length (item_key it) = ITEM_MAX_LEN"
  shows "\<exists>key. array_holds key k \<and> drop (s + length w + length k + length b) xs = c # r \<and>
    item_parse_line it xs s =
      (let p = s + length w + length k + length b in
       if is_linef c then do { s \<leftarrow> skip_line xs p; Some (it\<lparr>item_key := key\<rparr>, s) }
       else do {
         (text, p) \<leftarrow> copy_word (item_text it) xs p;
         s \<leftarrow> skip_line xs p;
         Some (it\<lparr>item_key := key, item_text := text\<rparr>, s) })"
proof -
  let ?p = "s + length w" let ?q = "?p + length k" let ?x = "?q + length b"
  obtain a k' where k: "k = a # k'" "\<not> is_white a" "\<not> is_linef a" "a \<noteq> CHR ''#''"
    using assms(3) conf_word_hd [of k] by (auto simp: conf_key_def)
  obtain d u where d: "b @ c # r = d # u" "is_white d \<or> is_linef d"
    using assms(4,5) by (cases b) (auto simp: blanks_def)
  have s0: "drop s xs = w @ a # (k' @ b @ c # r)" using assms(1) k by simp
  note st = line_start [OF s0 assms(2) k(2,3)]
  have p: "drop ?p xs = k @ d # u" using st(4) k(1) d(1) by simp
  obtain key where key: "copy_word (item_key it) xs ?p = Some (key, ?q)" "array_holds key k"
    using copy_word_holds [OF p _ d(2) assms(7)] assms(3) by (auto simp: conf_key_def)
  obtain n where n: "strncmp_at xs ?p (''items.end'' @ [NUL]) 0 9 = Some n" "n \<noteq> 0"
    using not_items_end [OF p assms(3) d(2)] by blast
  have q: "drop ?q xs = b @ c # r" using drop_append_off [OF p] d(1) by simp
  then have sw: "skip_white xs ?q = Some (Some ?x)" by (rule skip_white_run [OF _ assms(4,6)])
  have x: "drop ?x xs = c # r" by (rule drop_append_off [OF q])
  have "rd xs ?x = Some c" "\<not> is_linef c \<Longrightarrow> skip_linef xs ?x = Some (Some ?x)"
    using rd_drop [OF x] skip_linef_none [OF x] by simp_all
  then show ?thesis using st key n sw x k(4)
    by (intro exI [of _ key]) (simp add: item_parse_line_def Let_def del: strncmp_at.simps append.simps)
qed

lemma parse_flag:
  assumes "drop s xs = w @ k @ b @ e @ r" and "line_ok (Flag w k b)" and "line_end e"
    and "linef_free_start r" and "item_free it" and "array_holds (item_text it) []"
  shows "\<exists>it'. item_parse_line it xs s = Some (it', Some (s + length w + length k + length b + length e)) \<and> item_holds it' (k, [])"
proof -
  obtain l e' where e: "e = l # e'" "is_linef l" using assms(3) by (cases e) (auto simp: line_end_def)
  have d: "drop s xs = w @ k @ b @ l # (e' @ r)" using assms(1) e by simp
  have "\<not> is_white l" using white_linef e(2) by blast
  then obtain key where key: "array_holds key k" "drop (s + length w + length k + length b) xs = l # (e' @ r)"
    "item_parse_line it xs s = do { s \<leftarrow> skip_line xs (s + length w + length k + length b); Some (it\<lparr>item_key := key\<rparr>, s) }"
    using parse_key [OF d] assms e(2) by (auto simp: item_free_def array_holds_def Let_def)
  have "skip_line xs (s + length w + length k + length b) = Some (Some (s + length w + length k + length b + length e))"
    using skip_line_run [of "s + length w + length k + length b" xs "[]" e r] key(2) e assms(3,4)
    by (simp add: in_line_def PARSE_LIMIT_def)
  moreover have "k \<noteq> []" using assms(2) by (auto simp: conf_key_def conf_word_def)
  ultimately show ?thesis using key assms(6) by (simp add: item_holds_def)
qed

lemma parse_entry:
  assumes "drop s xs = w @ k @ g @ v @ r @ e @ z" and "line_ok (Entry w k g v r)" and "line_end e"
    and "linef_free_start z" and "item_free it"
  shows "\<exists>it'. item_parse_line it xs s =
      Some (it', Some (s + length w + length k + length g + length v + length r + length e)) \<and> item_holds it' (k, v)"
proof -
  obtain c v' where v: "v = c # v'" "\<not> is_white c" "\<not> is_linef c" using assms(2) conf_word_hd [of v] by auto
  let ?x = "s + length w + length k + length g"
  have d: "drop s xs = w @ k @ g @ c # (v' @ r @ e @ z)" using assms(1) v by simp
  obtain key where key: "array_holds key k" "drop ?x xs = v @ r @ e @ z"
    "item_parse_line it xs s = do {
         (text, p) \<leftarrow> copy_word (item_text it) xs ?x;
         s \<leftarrow> skip_line xs p;
         Some (it\<lparr>item_key := key, item_text := text\<rparr>, s) }"
    using parse_key [OF d] assms v by (auto simp: item_free_def array_holds_def Let_def)
  obtain a u where a: "r @ e @ z = a # u" "is_white a \<or> is_linef a"
    using assms(2,3) by (cases r; cases e) (auto simp: line_end_def)
  obtain t where t: "copy_word (item_text it) xs ?x = Some (t, ?x + length v)" "array_holds t v"
    using copy_word_holds [of ?x xs v a u "item_text it"] key(2) a assms(2,5) by (auto simp: item_free_def)
  have "skip_line xs (?x + length v) = Some (Some (?x + length v + length r + length e))"
    by (rule skip_line_run [OF drop_append_off [OF key(2)] _ assms(3,4)]) (use assms(2) in simp)
  moreover have "k \<noteq> []" using assms(2) by (auto simp: conf_key_def conf_word_def)
  ultimately show ?thesis using key t by (simp add: item_holds_def)
qed

lemma parse_conf_line:
  assumes "drop s xs = conf_line_text l @ e @ r" and "line_ok l" and "line_end e" and "linef_free_start r"
    and "item_free it" and "array_holds (item_text it) []"
  shows "\<exists>it'. item_parse_line it xs s = Some (it', Some (s + length (conf_line_text l @ e))) \<and>
    (case line_entry l of [] \<Rightarrow> item_free it' | kv # _ \<Rightarrow> item_holds it' kv)"
proof (cases l)
  case (Comment w t)
  then show ?thesis using parse_comment [of s xs w t e r it] assms by (simp add: algebra_simps)
next
  case (Flag w k b)
  then show ?thesis using parse_flag [of s xs w k b e r it] assms by (simp add: algebra_simps)
next
  case (Entry w k g v t)
  then show ?thesis using parse_entry [of s xs w k g v t e r it] assms by (simp add: algebra_simps)
qed

section \<open>The array of items\<close>

definition items_hold :: "imap_item list \<Rightarrow> (string \<times> string) list \<Rightarrow> bool" where
  "items_hold items es \<longleftrightarrow>
     (\<exists>cells rest. items = cells @ rest \<and> list_all2 item_holds cells es \<and> list_all item_free rest)"

lemma clear_item_free:
  assumes "item_free t"
  shows "\<exists>t'. clear_item t = Some t' \<and> item_free t' \<and> array_holds (item_text t') []"
proof -
  have l: "length (item_key t) = ITEM_MAX_LEN" "length (item_text t) = ITEM_MAX_LEN" "0 < ITEM_MAX_LEN"
    using assms by (auto simp: item_free_def array_holds_def ITEM_MAX_LEN_def)
  have "array_holds (a[0 := NUL]) []" if "length a = ITEM_MAX_LEN" for a
    using that l(3) by (cases a) (auto simp: array_holds_def)
  then show ?thesis using l by (simp add: clear_item_def item_free_def)
qed

lemma array_holds_first: "array_holds a s \<Longrightarrow> rd a 0 = Some (hd (s @ [NUL])) \<and> (hd (s @ [NUL]) = NUL \<longleftrightarrow> s = [])"
  by (cases s) (auto simp: array_holds_def)

lemma white_start: "blanks u \<Longrightarrow> \<not> is_linef c \<Longrightarrow> linef_free_start (u @ c # v)"
  using white_linef by (cases u) (auto simp: linef_free_start_def blanks_def)

lemma conf_start:
  assumes "conf_ok ls" and "linef_free_start z"
  shows "linef_free_start (conf_text ls @ z)"
proof (cases ls)
  case Nil
  then show ?thesis using assms(2) by (simp add: conf_text_def)
next
  case (Cons le ls')
  obtain l e where le: "le = (l, e)" by (cases le)
  have "line_ok l" using assms(1) Cons le by (simp add: conf_ok_def)
  moreover have "\<not> is_linef CHR ''#''" by (simp add: is_linef_def LINEF0_def LINEF1_def)
  ultimately have "\<exists>u c v. conf_line_text l = u @ c # v \<and> blanks u \<and> \<not> is_linef c"
    using conf_word_hd by (cases l) (fastforce simp: conf_key_def)+
  then obtain u c v where "conf_line_text l = u @ c # v" "blanks u" "\<not> is_linef c" by blast
  then show ?thesis using white_start [of u c] Cons le by (simp add: conf_text_def)
qed

lemma item_step_line:
  assumes "drop s xs = conf_line_text l @ e @ r" and "line_ok l" and "line_end e" and "linef_free_start r"
    and "items = cells @ t # rest" and "item_free t"
  shows "\<exists>t'. item_step items xs (length cells) s =
      Some (cells @ t' # rest, Some (s + length (conf_line_text l @ e)), line_entry l \<noteq> []) \<and>
    (case line_entry l of [] \<Rightarrow> item_free t' | kv # _ \<Rightarrow> item_holds t' kv)"
proof -
  obtain t0 where t0: "clear_item t = Some t0" "item_free t0" "array_holds (item_text t0) []"
    using clear_item_free [OF assms(6)] by blast
  obtain t' where t': "item_parse_line t0 xs s = Some (t', Some (s + length (conf_line_text l @ e)))"
    "case line_entry l of [] \<Rightarrow> item_free t' | kv # _ \<Rightarrow> item_holds t' kv"
    using parse_conf_line [OF assms(1-4) t0(2,3)] by blast
  have "\<exists>k. rd (item_key t') 0 = Some k \<and> (k \<noteq> NUL) = (line_entry l \<noteq> [])"
    using t'(2) array_holds_first [of "item_key t'"]
    by (cases "line_entry l") (auto simp: item_free_def item_holds_def)
  then show ?thesis using t0(1) t' assms(5) by (auto simp: item_step_def)
qed

lemma item_step_end:
  assumes "drop s xs = w @ ''items.end'' @ r" and "blanks w" and "items = cells @ t # rest" and "item_free t"
  shows "\<exists>t'. item_step items xs (length cells) s = Some (cells @ t' # rest, None, False) \<and> item_free t'"
proof -
  obtain t0 where t0: "clear_item t = Some t0" "item_free t0" using clear_item_free [OF assms(4)] by blast
  have d: "drop s xs = w @ CHR ''i'' # (''tems.end'' @ r)" using assms(1) by simp
  have c: "\<not> is_white CHR ''i''" "\<not> is_linef CHR ''i''" by (simp_all add: is_white_def is_linef_def LINEF0_def LINEF1_def)
  note st = line_start [OF d assms(2) c]
  have "strncmp_at xs (s + length w) (''items.end'' @ [NUL]) 0 (length ''items.end'') = Some 0"
    by (rule strncmp_at_same [of _ _ _ r _ _ "[NUL]"]) (use st(4) in simp_all)
  moreover have "length ''items.end'' = 9" by simp
  ultimately have "strncmp_at xs (s + length w) (''items.end'' @ [NUL]) 0 9 = Some 0" by metis
  then have "item_parse_line t0 xs s = Some (t0, None)"
    using st by (simp add: item_parse_line_def del: strncmp_at.simps append.simps)
  then show ?thesis using t0 assms(3) array_holds_first [of "item_key t0" "[]"] by (auto simp: item_step_def item_free_def)
qed

text \<open>The loop over the lines of a configuration, up to the text \<open>z\<close> behind them.\<close>

lemma item_loop_conf:
  assumes "linef_free_start z"
  shows "conf_ok ls \<Longrightarrow> drop s xs = conf_text ls @ z \<Longrightarrow> s + length (conf_text ls) < len \<Longrightarrow>
    list_all2 item_holds cells es \<Longrightarrow> list_all item_free rest \<Longrightarrow> length (conf_entries ls) \<le> length rest \<Longrightarrow>
    \<exists>cells' rest'. item_loop xs len (cells @ rest) (length cells) s =
        item_loop xs len (cells' @ rest') (length cells') (s + length (conf_text ls)) \<and>
      list_all2 item_holds cells' (es @ conf_entries ls) \<and> list_all item_free rest' \<and>
      length cells' + length rest' = length cells + length rest"
proof (induction ls arbitrary: s cells es rest)
  case Nil
  then show ?case by (intro exI [of _ cells] exI [of _ rest]) (simp add: conf_text_def conf_entries_def)
next
  case (Cons le ls)
  obtain l e where le: "le = (l, e)" by (cases le)
  have ok: "line_ok l" "line_end e" "conf_ok ls" using Cons.prems(1) le by (simp_all add: conf_ok_def)
  let ?r = "conf_text ls @ z" and ?s = "s + length (conf_line_text l @ e)"
  have d: "drop s xs = conf_line_text l @ e @ ?r" using Cons.prems(2) le by (simp add: conf_text_def)
  have d': "drop ?s xs = ?r" using drop_append_off [of s xs "conf_line_text l @ e"] d by simp
  have ct: "length (conf_text (le # ls)) = length (conf_line_text l @ e) + length (conf_text ls)" using le by (simp add: conf_text_def)
  have s: "?s + length (conf_text ls) < len" using Cons.prems(3) ct by simp
  have ce: "conf_entries (le # ls) = line_entry l @ conf_entries ls" using le by (simp add: conf_entries_def)
  show ?case
  proof (cases rest)
    case Nil
    then show ?thesis using Cons.prems
      by (intro exI [of _ cells] exI [of _ "[]"]) (simp add: item_loop.simps [of xs len cells])
  next
    case R: (Cons t rest')
    obtain t' where t': "item_step (cells @ rest) xs (length cells) s = Some (cells @ t' # rest', Some ?s, line_entry l \<noteq> [])"
      "case line_entry l of [] \<Rightarrow> item_free t' | kv # _ \<Rightarrow> item_holds t' kv"
      using item_step_line [OF d ok(1,2) conf_start [OF ok(3) assms], of "cells @ rest" cells t rest'] Cons.prems R by auto
    have step: "item_loop xs len (cells @ rest) (length cells) s =
        item_loop xs len (cells @ t' # rest') (if line_entry l \<noteq> [] then length cells + 1 else length cells) ?s"
      using t'(1) R s by (subst item_loop.simps) simp
    have st: "s + length (conf_text (le # ls)) = ?s + length (conf_text ls)" using ct by simp
    show ?thesis
    proof (cases "line_entry l")
      case Nil
      then show ?thesis
        using Cons.IH [OF ok(3) d' s, of cells es "t' # rest'"] Cons.prems t'(2) ce R unfolding step st by simp
    next
      case (Cons kv kvs)
      then have kvs: "kvs = []" by (cases l) auto
      have "list_all2 item_holds (cells @ [t']) (es @ [kv])"
        using Cons.prems(4) t'(2) Cons by (simp add: list_all2_appendI)
      from Cons.IH [OF ok(3) d' s this, of rest'] show ?thesis
        using Cons.prems ce R Cons kvs unfolding step st by simp
    qed
  qed
qed

lemma item_init_lines:
  assumes "linef_free_start z" and "conf_ok ls" and "length (conf_text ls) < len" and "length (conf_entries ls) \<le> count"
  shows "\<exists>cells rest. item_init count (conf_text ls @ z) len =
      item_loop (conf_text ls @ z) len (cells @ rest) (length cells) (length (conf_text ls)) \<and>
    list_all2 item_holds cells (conf_entries ls) \<and> list_all item_free rest \<and> length cells + length rest = count"
proof -
  have "item_free empty_item" by (auto simp: item_free_def empty_item_def array_holds_def ITEM_MAX_LEN_def numeral_eq_Suc)
  then show ?thesis
    using item_loop_conf [OF assms(1,2), of 0 "conf_text ls @ z" len "[]" "[]" "replicate count empty_item"] assms
    by (auto simp: item_init_def list_all_length)
qed

lemma item_init_conf:
  assumes "conf_ok ls" and "blanks w" and "length (conf_text ls) < len" and "length (conf_entries ls) \<le> count"
  shows "\<exists>items. item_init count (conf_text ls @ w @ ''items.end'' @ tail) len = Some (items, length (conf_entries ls)) \<and>
    length items = count \<and> items_hold items (conf_entries ls)"
proof -
  let ?z = "w @ ''items.end'' @ tail"
  have z: "linef_free_start ?z" using white_start [OF assms(2), of "CHR ''i''" "''tems.end'' @ tail"]
    by (simp add: is_linef_def LINEF0_def LINEF1_def)
  obtain cells rest where c: "item_init count (conf_text ls @ ?z) len =
      item_loop (conf_text ls @ ?z) len (cells @ rest) (length cells) (length (conf_text ls))"
    "list_all2 item_holds cells (conf_entries ls)" "list_all item_free rest" "length cells + length rest = count"
    using item_init_lines [OF z assms(1,3,4)] by blast
  have l: "length cells = length (conf_entries ls)" using c(2) by (rule list_all2_lengthD)
  show ?thesis
  proof (cases rest)
    case Nil
    have "items_hold cells (conf_entries ls)" unfolding items_hold_def by (rule exI [of _ cells]) (use c in simp)
    then show ?thesis using c Nil l by (simp add: item_loop.simps [of _ len cells])
  next
    case (Cons t rest')
    obtain t' where t': "item_step (cells @ rest) (conf_text ls @ ?z) (length cells) (length (conf_text ls)) =
        Some (cells @ t' # rest', None, False)" "item_free t'"
      using item_step_end [of "length (conf_text ls)" "conf_text ls @ ?z" w tail "cells @ rest" cells t rest'] assms(2) Cons c(3)
      by auto
    then have "item_loop (conf_text ls @ ?z) len (cells @ rest) (length cells) (length (conf_text ls)) =
        Some (cells @ t' # rest', length cells)"
      using Cons assms(3) by (subst item_loop.simps) simp
    moreover have "items_hold (cells @ t' # rest') (conf_entries ls)"
      unfolding items_hold_def by (rule exI [of _ cells], rule exI [of _ "t' # rest'"]) (use c t' Cons in simp)
    ultimately show ?thesis using c Cons l by simp
  qed
qed

section \<open>What holds after \<open>item_init\<close> whatever the text\<close>

definition item_wf :: "imap_item \<Rightarrow> bool" where
  "item_wf t \<longleftrightarrow> length (item_key t) = ITEM_MAX_LEN \<and> NUL \<in> set (item_key t) \<and>
     length (item_text t) = ITEM_MAX_LEN \<and> NUL \<in> set (item_text t)"

lemma copy_loop_wf: "copy_loop buf c src s = Some (buf', s') \<Longrightarrow> length buf' = length buf \<and> NUL \<in> set buf'"
proof (induction buf c src s rule: copy_loop.induct)
  case (1 buf c src s)
  show ?case using "1.prems" "1.IH"
    by (subst (asm) copy_loop.simps)
      (force simp: wr_eq_Some set_update_memI split: option.splits if_splits)
qed

lemma first_in_set: "a \<noteq> [] \<Longrightarrow> x \<in> set (a[0 := x])"
  by (cases a) auto

lemma clear_item_wf: "clear_item t = Some t' \<Longrightarrow> item_wf t \<Longrightarrow> item_wf t'"
  by (auto simp: clear_item_def bind_eq_Some_conv wr_eq_Some item_wf_def first_in_set)

lemma item_parse_line_wf: "item_parse_line t xs s = Some (t', r) \<Longrightarrow> item_wf t \<Longrightarrow> item_wf t'"
  by (auto simp: item_parse_line_def bind_eq_Some_conv copy_word_def Let_def item_wf_def
      split: if_splits option.splits prod.splits dest!: copy_loop_wf)

definition table_wf :: "nat \<Rightarrow> imap_item list \<Rightarrow> nat \<Rightarrow> bool" where
  "table_wf count items n \<longleftrightarrow> length items = count \<and> n \<le> count \<and> list_all item_wf items \<and>
     (\<forall>i<n. item_key (items ! i) ! 0 \<noteq> NUL) \<and> (\<forall>i. n < i \<and> i < count \<longrightarrow> items ! i = empty_item)"

lemma item_step_wf:
  assumes "item_step items xs i s = Some (items', r, found)" and "table_wf count items i"
  shows "table_wf count items' i \<and> (found \<longrightarrow> i < count \<and> item_key (items' ! i) ! 0 \<noteq> NUL)"
proof -
  obtain t t0 t' where t: "rd items i = Some t" "clear_item t = Some t0" "item_parse_line t0 xs s = Some (t', r)"
    "items' = items[i := t']" "\<exists>k. rd (item_key t') 0 = Some k \<and> found = (k \<noteq> NUL)"
    using assms(1) by (auto simp: item_step_def bind_eq_Some_conv)
  have i: "i < length items" "items ! i = t" using t(1) by (simp_all add: rd_eq_Some)
  then have "item_wf t'"
    using clear_item_wf [OF t(2)] item_parse_line_wf [OF t(3)] assms(2) by (auto simp: table_wf_def list_all_length)
  then show ?thesis using i t(4,5) assms(2) by (auto simp: table_wf_def list_all_length nth_list_update rd_eq_Some)
qed

lemma item_loop_wf:
  "table_wf count items i \<Longrightarrow> item_loop xs len items i s = Some (items', n) \<Longrightarrow> table_wf count items' n"
proof (induction xs len items i s rule: item_loop.induct)
  case (1 xs len items i s)
  show ?case
  proof (cases "i < length items \<and> s < len")
    case True
    obtain items1 r found where st: "item_step items xs i s = Some (items1, r, found)"
      using True "1.prems"(2) by (subst (asm) item_loop.simps) (auto split: option.splits)
    note wf = item_step_wf [OF st "1.prems"(1)]
    show ?thesis
    proof (cases r)
      case None
      then show ?thesis using True st wf "1.prems"(2) by (simp add: item_loop.simps [of xs len items])
    next
      case (Some s1)
      let ?i = "if found then i + 1 else i"
      have "table_wf count items1 ?i" using wf by (auto simp: table_wf_def less_Suc_eq)
      moreover have "item_loop xs len items1 ?i s1 = Some (items', n)"
        using True st Some "1.prems"(2) by (simp add: item_loop.simps [of xs len items])
      ultimately show ?thesis using "1.IH" [OF True st refl refl Some] by simp
    qed
  next
    case False
    then show ?thesis using "1.prems" by (subst (asm) item_loop.simps) auto
  qed
qed

lemma empty_table_wf: "table_wf count (replicate count empty_item) 0"
  by (simp add: table_wf_def list_all_length item_wf_def empty_item_def ITEM_MAX_LEN_def)

section \<open>Where the parser gives up\<close>

lemma skip_for_limit:
  "drop s xs = w @ c # r \<Longrightarrow> list_all P w \<Longrightarrow> k + length w = PARSE_LIMIT \<Longrightarrow> skip_for P xs s k = Some (s + length w, PARSE_LIMIT)"
proof (induction w arbitrary: s k)
  case Nil
  then show ?case using rd_drop [of s xs c r] by (simp add: skip_for.simps [of P xs s])
next
  case (Cons d w)
  have d: "rd xs s = Some d" "drop (Suc s) xs = w @ c # r" using rd_drop [of s xs d "w @ c # r"] Cons.prems(1) by simp_all
  have "skip_for P xs (Suc s) (Suc k) = Some (Suc s + length w, PARSE_LIMIT)"
    by (rule Cons.IH [OF d(2)]) (use Cons.prems in auto)
  then show ?case using d(1) Cons.prems by (simp add: skip_for.simps [of P xs s])
qed

lemma skip_for_long:
  assumes "drop s xs = w @ r" and "list_all P w" and "PARSE_LIMIT < length w"
  shows "skip_for P xs s 0 = Some (s + PARSE_LIMIT, PARSE_LIMIT)"
proof -
  let ?w = "take PARSE_LIMIT w"
  have "w = ?w @ w ! PARSE_LIMIT # drop (Suc PARSE_LIMIT) w" using assms(3) by (rule id_take_nth_drop)
  then have "drop s xs = ?w @ w ! PARSE_LIMIT # (drop (Suc PARSE_LIMIT) w @ r)" using assms(1) by (metis append.assoc append_Cons)
  moreover have "list_all P ?w" using assms(2) by (auto simp: list_all_iff dest: in_set_takeD)
  ultimately show ?thesis using skip_for_limit [of s xs ?w] assms(3) by simp
qed

lemma copy_loop_overflow:
  "drop s xs = w @ c # r \<Longrightarrow> list_all (\<lambda>c. \<not> is_white c \<and> \<not> is_linef c) w \<Longrightarrow> length buf < PARSE_LIMIT \<Longrightarrow>
    k \<le> length buf \<Longrightarrow> length buf \<le> k + length w \<Longrightarrow> copy_loop buf k xs s = None"
proof (induction w arbitrary: s k buf)
  case Nil
  then show ?case using rd_drop [of s xs c r] by (simp add: copy_loop.simps [of buf k] wr_def)
next
  case (Cons d w)
  have d: "rd xs s = Some d" "drop (Suc s) xs = w @ c # r" using rd_drop [of s xs d "w @ c # r"] Cons.prems(1) by simp_all
  show ?case
  proof (cases "k < length buf")
    case True
    then have "copy_loop (buf[k := d]) (Suc k) xs (Suc s) = None" using Cons.prems by (intro Cons.IH [OF d(2)]) auto
    then show ?thesis using d(1) Cons.prems True by (simp add: copy_loop.simps [of buf k])
  next
    case False
    then show ?thesis using d(1) Cons.prems by (simp add: copy_loop.simps [of buf "length buf"] wr_def)
  qed
qed

text \<open>A comment of more than 256 characters: \<open>skip_line\<close> gives \<^verbatim>\<open>NULL\<close>, and the file ends there.\<close>

lemma parse_long_comment:
  assumes "drop s xs = ''#'' @ u @ r" and "list_all (\<lambda>c. \<not> is_linef c) u" and "PARSE_LIMIT \<le> length u"
  shows "item_parse_line t xs s = Some (t, None)"
proof -
  have "drop s xs = [] @ CHR ''#'' # (u @ r)" using assms(1) by simp
  note st = line_start [OF this]
  have "skip_for (\<lambda>ch. \<not> is_linef ch) xs s 0 = Some (s + PARSE_LIMIT, PARSE_LIMIT)"
    by (rule skip_for_long [of _ _ "''#'' @ u" r]) (use assms in \<open>simp_all add: is_linef_def LINEF0_def LINEF1_def\<close>)
  then have "skip_line xs s = Some None" by (simp add: skip_line_def)
  then show ?thesis using st
    by (simp add: item_parse_line_def blanks_def PARSE_LIMIT_def is_white_def is_linef_def LINEF0_def LINEF1_def)
qed

text \<open>More than 256 blanks at the start of a line: the result \<^verbatim>\<open>NULL\<close> of \<open>skip_white\<close> is dereferenced.\<close>

lemma parse_long_blanks:
  assumes "drop s xs = u @ r" and "list_all is_white u" and "PARSE_LIMIT < length u"
  shows "item_parse_line t xs s = None"
  using skip_for_long [OF assms] by (simp add: item_parse_line_def skip_white_def)

text \<open>A word that fills the array of an item: \<open>__copy\<close> goes on behind its end.\<close>

lemma parse_long_key:
  assumes "drop s xs = k @ c # r" and "list_all (\<lambda>c. \<not> is_white c \<and> \<not> is_linef c) k" and "ITEM_MAX_LEN \<le> length k"
    and "k ! 0 \<noteq> CHR ''#''" and "\<not> prefix ''items.end'' k" and "length (item_key t) = ITEM_MAX_LEN"
  shows "item_parse_line t xs s = None"
proof -
  obtain a k' where k: "k = a # k'" using assms(3) by (cases k) (auto simp: ITEM_MAX_LEN_def)
  have "drop s xs = [] @ a # (k' @ c # r)" using assms(1) k by simp
  note st = line_start [OF this]
  have a: "\<not> is_white a" "\<not> is_linef a" "a \<noteq> CHR ''#''" "blanks []" using assms(2,4) k by (simp_all add: blanks_def PARSE_LIMIT_def)
  have "copy_loop (item_key t) 0 xs s = None"
    by (rule copy_loop_overflow [OF assms(1,2)]) (use assms in \<open>simp_all add: PARSE_LIMIT_def ITEM_MAX_LEN_def\<close>)
  moreover have "\<exists>n. strncmp_at xs s (''items.end'' @ [NUL]) 0 9 = Some n \<and> n \<noteq> 0"
  proof -
    have "\<not> prefix k ''items.end''"
      using assms(3) by (auto dest!: prefix_length_le simp: ITEM_MAX_LEN_def)
    then have "k \<parallel> ''items.end''" using assms(5) by (auto simp: parallel_def)
    then obtain p b bs e es where p: "k = p @ b # bs" "''items.end'' = p @ e # es" "b \<noteq> e"
      using parallel_decomp by blast
    have l: "length p < 9" using arg_cong [OF p(2), of length] by simp
    have "set p \<subseteq> set ''items.end''" unfolding p(2) by auto
    moreover have "NUL \<notin> set ''items.end''" by simp
    ultimately have n: "NUL \<notin> set p" by blast
    have d: "drop 0 (''items.end'' @ [NUL]) = p @ e # (es @ [NUL])" unfolding p(2) by simp
    have "drop s xs = p @ b # (bs @ c # r)" using assms(1) p(1) by simp
    then show ?thesis by (rule strncmp_at_diff [OF _ d p(3) n l])
  qed
  ultimately show ?thesis using st a
    by (auto simp: item_parse_line_def copy_word_def simp del: strncmp_at.simps append.simps)
qed

lemma item_step_fails:
  assumes "item_free t" and "\<And>t. item_free t \<Longrightarrow> item_parse_line t xs s = None"
  shows "item_step (cells @ t # rest) xs (length cells) s = None"
  using clear_item_free [OF assms(1)] assms(2) by (auto simp: item_step_def)

lemma item_step_stops:
  assumes "item_free t" and "\<And>t. item_free t \<Longrightarrow> item_parse_line t xs s = Some (t, None)"
  shows "\<exists>t'. item_step (cells @ t # rest) xs (length cells) s = Some (cells @ t' # rest, None, False) \<and> item_free t'"
proof -
  obtain t0 where t0: "clear_item t = Some t0" "item_free t0" using clear_item_free [OF assms(1)] by blast
  then show ?thesis using assms(2) [OF t0(2)] array_holds_first [of "item_key t0" "[]"]
    by (auto simp: item_step_def item_free_def)
qed

lemma item_init_stops:
  assumes "linef_free_start z" and "conf_ok ls" and "length (conf_text ls) < len" and "length (conf_entries ls) < count"
    and "\<And>t. item_free t \<Longrightarrow> item_parse_line t (conf_text ls @ z) (length (conf_text ls)) = Some (t, None)"
  shows "\<exists>items. item_init count (conf_text ls @ z) len = Some (items, length (conf_entries ls)) \<and>
    items_hold items (conf_entries ls)"
proof -
  obtain cells rest where c: "item_init count (conf_text ls @ z) len =
      item_loop (conf_text ls @ z) len (cells @ rest) (length cells) (length (conf_text ls))"
    "list_all2 item_holds cells (conf_entries ls)" "list_all item_free rest" "length cells + length rest = count"
    using item_init_lines [OF assms(1-3) less_imp_le [OF assms(4)]] by blast
  have l: "length cells = length (conf_entries ls)" using c(2) by (rule list_all2_lengthD)
  then obtain t rest' where r: "rest = t # rest'" using c(4) assms(4) by (cases rest) auto
  then obtain t' where t': "item_step (cells @ rest) (conf_text ls @ z) (length cells) (length (conf_text ls)) =
      Some (cells @ t' # rest', None, False)" "item_free t'"
    using item_step_stops [OF _ assms(5), of t cells rest'] c(3) by auto
  have "items_hold (cells @ t' # rest') (conf_entries ls)"
    unfolding items_hold_def by (rule exI [of _ cells], rule exI [of _ "t' # rest'"]) (use c t' r in simp)
  then show ?thesis using c(1) t'(1) r l assms(3) by (subst c(1), subst item_loop.simps) simp
qed

lemma item_init_fails:
  assumes "linef_free_start z" and "conf_ok ls" and "length (conf_text ls) < len" and "length (conf_entries ls) < count"
    and "\<And>t. item_free t \<Longrightarrow> item_parse_line t (conf_text ls @ z) (length (conf_text ls)) = None"
  shows "item_init count (conf_text ls @ z) len = None"
proof -
  obtain cells rest where c: "item_init count (conf_text ls @ z) len =
      item_loop (conf_text ls @ z) len (cells @ rest) (length cells) (length (conf_text ls))"
    "list_all2 item_holds cells (conf_entries ls)" "list_all item_free rest" "length cells + length rest = count"
    using item_init_lines [OF assms(1-3) less_imp_le [OF assms(4)]] by blast
  have l: "length cells = length (conf_entries ls)" using c(2) by (rule list_all2_lengthD)
  then obtain t rest' where r: "rest = t # rest'" using c(4) assms(4) by (cases rest) auto
  then have "item_step (cells @ rest) (conf_text ls @ z) (length cells) (length (conf_text ls)) = None"
    using item_step_fails [OF _ assms(5), of t cells rest'] c(3) by auto
  then show ?thesis using r assms(3) by (subst c(1), subst item_loop.simps) simp
qed

text \<open>
  After a line of blanks the blanks in front of the next key are not skipped: the line is lost, and so
  is an \<open>items.end\<close>.
\<close>

lemma indented_line_lost:
  "map_option snd (item_init 2 ('' '' @ [CHR 10] @ '' a b'' @ [CHR 10] @ ''items.end'') 15) = Some 0"
  by (simp add: item_init_def item_loop.simps [of _ _ _ 0] item_step_def clear_item_def empty_item_def ITEM_MAX_LEN_def
      item_parse_line_def skip_white_def skip_linef_def skip_line_def copy_word_def skip_for.simps copy_loop.simps
      is_white_def is_linef_def LINEF0_def LINEF1_def PARSE_LIMIT_def Let_def numeral_eq_Suc rd_def wr_def schar_diff_def)

section \<open>Properties\<close>

text \<open>
  C7: A configuration text, comments, keys, values and \<open>items.end\<close> with blanks and empty lines between
  them, is read as the list of its keys and values: \<open>item_init\<close> returns their number, fills the array
  with them and leaves the other cells without a key, within the arrays of the items and of the text.
\<close>

theorem item_init_correct:
  assumes "conf_ok ls" and "blanks w" and "length (conf_text ls) < len" and "length (conf_entries ls) \<le> count"
  shows "\<exists>items. item_init count (conf_text ls @ w @ ''items.end'' @ tail) len = Some (items, length (conf_entries ls)) \<and>
    length items = count \<and> items_hold items (conf_entries ls)"
  by (rule item_init_conf [OF assms])

definition demo_conf :: "(conf_line \<times> string) list" where
  "demo_conf = [(Comment [] '' board'', [CHR 10]), (Entry [] ''board.name'' '' '' ''imapx.800'' '' # v2'', [CHR 13, CHR 10, CHR 10]),
     (Flag '' '' ''factory'' [], [CHR 10]), (Entry [] ''key'' [CHR 9] ''pads.-12'' [], [CHR 10])]"

lemma demo_conf_ok: "conf_ok demo_conf" "blanks []"
  by (simp_all add: demo_conf_def conf_ok_def blanks_def in_line_def line_end_def conf_key_def conf_word_def
      is_white_def is_linef_def LINEF0_def LINEF1_def PARSE_LIMIT_def ITEM_MAX_LEN_def)

lemma demo_conf_text: "length (conf_text demo_conf) = 58"
    "conf_entries demo_conf = [(''board.name'', ''imapx.800''), (''factory'', []), (''key'', ''pads.-12'')]"
  by (simp_all add: demo_conf_def conf_text_def conf_entries_def)

theorem item_init_correct_witness:
  "\<exists>items. item_init ITEM_MAX_COUNT (conf_text demo_conf @ ''items.end'') 16384 = Some (items, 3) \<and>
    items_hold items [(''board.name'', ''imapx.800''), (''factory'', []), (''key'', ''pads.-12'')]"
  using item_init_correct [OF demo_conf_ok, of 16384 ITEM_MAX_COUNT "[]"]
  by (auto simp: demo_conf_text ITEM_MAX_COUNT_def)

text \<open>
  Whatever the text, an \<open>item_init\<close> that returns leaves every array of the items with its 64 bytes
  and a NUL among them, has filled as many cells as it says, and has not touched the cells behind the
  one it stopped in.
\<close>

theorem item_init_wf:
  assumes "item_init count xs len = Some (items, n)"
  shows "table_wf count items n"
  using item_loop_wf [OF empty_table_wf] assms by (simp add: item_init_def)

theorem item_init_wf_witness:
  "\<exists>items. item_init ITEM_MAX_COUNT (conf_text demo_conf @ [] @ ''items.end'' @ []) 16384 = Some (items, 3) \<and>
    table_wf ITEM_MAX_COUNT items 3"
proof -
  obtain items where "item_init ITEM_MAX_COUNT (conf_text demo_conf @ [] @ ''items.end'' @ []) 16384 = Some (items, 3)"
    using item_init_conf [OF demo_conf_ok, of 16384 ITEM_MAX_COUNT "[]"] by (auto simp: demo_conf_text ITEM_MAX_COUNT_def)
  then show ?thesis using item_init_wf by blast
qed

text \<open>
  C35: Behind the lines of a configuration, a comment of more than 256 characters ends the reading: the
  call succeeds with the items so far, whatever stands behind it.  A key of 64 characters or more
  writes outside the item, and more than 256 blanks make the parser follow \<^verbatim>\<open>NULL\<close>.
\<close>

theorem item_init_errors:
  assumes "conf_ok ls" and "length (conf_text ls) < len" and "length (conf_entries ls) < count"
  shows "(list_all (\<lambda>c. \<not> is_linef c) u \<and> PARSE_LIMIT \<le> length u \<longrightarrow>
      (\<exists>items. item_init count (conf_text ls @ ''#'' @ u @ r) len = Some (items, length (conf_entries ls)) \<and>
        items_hold items (conf_entries ls))) \<and>
    (list_all (\<lambda>c. \<not> is_white c \<and> \<not> is_linef c) k \<and> ITEM_MAX_LEN \<le> length k \<and> hd k \<noteq> CHR ''#'' \<and>
      \<not> prefix ''items.end'' k \<longrightarrow> item_init count (conf_text ls @ k @ c # r) len = None) \<and>
    (list_all is_white w \<and> PARSE_LIMIT < length w \<longrightarrow> item_init count (conf_text ls @ w @ r) len = None)"
proof (intro conjI)
  show "list_all (\<lambda>c. \<not> is_linef c) u \<and> PARSE_LIMIT \<le> length u \<longrightarrow>
      (\<exists>items. item_init count (conf_text ls @ ''#'' @ u @ r) len = Some (items, length (conf_entries ls)) \<and>
        items_hold items (conf_entries ls))"
  proof
    assume u: "list_all (\<lambda>c. \<not> is_linef c) u \<and> PARSE_LIMIT \<le> length u"
    have "linef_free_start (''#'' @ u @ r)" by (simp add: linef_free_start_def is_linef_def LINEF0_def LINEF1_def)
    then show "\<exists>items. item_init count (conf_text ls @ ''#'' @ u @ r) len = Some (items, length (conf_entries ls)) \<and>
        items_hold items (conf_entries ls)"
      by (rule item_init_stops [OF _ assms]) (rule parse_long_comment [of _ _ u r], use u in simp_all)
  qed
  show "list_all (\<lambda>c. \<not> is_white c \<and> \<not> is_linef c) k \<and> ITEM_MAX_LEN \<le> length k \<and> hd k \<noteq> CHR ''#'' \<and>
      \<not> prefix ''items.end'' k \<longrightarrow> item_init count (conf_text ls @ k @ c # r) len = None"
  proof
    assume k: "list_all (\<lambda>c. \<not> is_white c \<and> \<not> is_linef c) k \<and> ITEM_MAX_LEN \<le> length k \<and> hd k \<noteq> CHR ''#'' \<and>
      \<not> prefix ''items.end'' k"
    then obtain a k' where a: "k = a # k'" by (cases k) (auto simp: ITEM_MAX_LEN_def)
    then have "linef_free_start (k @ c # r)" using k by (simp add: linef_free_start_def)
    then show "item_init count (conf_text ls @ k @ c # r) len = None"
      by (rule item_init_fails [OF _ assms])
        (rule parse_long_key [of _ _ k c r], use k a in \<open>auto simp: item_free_def array_holds_def\<close>)
  qed
  show "list_all is_white w \<and> PARSE_LIMIT < length w \<longrightarrow> item_init count (conf_text ls @ w @ r) len = None"
  proof
    assume w: "list_all is_white w \<and> PARSE_LIMIT < length w"
    then obtain a w' where a: "w = a # w'" by (cases w) (auto simp: PARSE_LIMIT_def)
    then have "linef_free_start (w @ r)" using w white_linef by (simp add: linef_free_start_def)
    then show "item_init count (conf_text ls @ w @ r) len = None"
      by (rule item_init_fails [OF _ assms]) (rule parse_long_blanks [of _ _ w r], use w in simp_all)
  qed
qed

theorem item_init_errors_witness:
  "\<exists>items. item_init 4 (conf_text demo_conf @ ''#'' @ replicate 256 CHR ''-'' @ [CHR 10] @ ''board.disk 1'') 16384 =
      Some (items, 3) \<and> items_hold items (conf_entries demo_conf)"
proof -
  have l: "length (conf_text demo_conf) < 16384" "length (conf_entries demo_conf) < 4" "length (conf_entries demo_conf) = 3"
    by (simp_all add: demo_conf_text)
  have "list_all (\<lambda>c. \<not> is_linef c) (replicate 256 CHR ''-'') \<and> PARSE_LIMIT \<le> length (replicate 256 CHR ''-'')"
    by (simp add: list_all_iff is_linef_def LINEF0_def LINEF1_def PARSE_LIMIT_def)
  with item_init_errors [OF demo_conf_ok(1) l(1,2), THEN conjunct1, of "replicate 256 CHR ''-''" "[CHR 10] @ ''board.disk 1''"]
  show ?thesis unfolding l(3) by blast
qed

end
