(* ===== verification/ItemQuery.thy ===== *)
theory ItemQuery
  imports Items
begin

text \<open>
  The questions other parts of the loader ask of the configuration items,
  \<^verbatim>\<open>infotm/strategy/items/items.c\<close>: is there a key, what stands in a section of its value (sections
  are separated by dots), as text, as a number, compared with a text, and the list of all items.
\<close>

section \<open>Questions to the items\<close>

text \<open>
  A string argument is a list with its NUL.  The loops over \<open>items\<close> end at the first empty key; the
  bound of the array is not tested, so that an array in which every cell is taken is left at its end.
\<close>

fun item_find :: "(imap_item \<Rightarrow> 'a option option) \<Rightarrow> 'a \<Rightarrow> imap_item list \<Rightarrow> 'a option" where
  "item_find f none [] = None"
| "item_find f none (t # ts) = do {
     k \<leftarrow> rd (item_key t) 0;
     if k = NUL then Some none
     else do { r \<leftarrow> f t; case r of Some x \<Rightarrow> Some x | None \<Rightarrow> item_find f none ts } }"

definition item_exist :: "imap_item list \<Rightarrow> string \<Rightarrow> int option" where
  "item_exist items key =
     item_find (\<lambda>t. do { n \<leftarrow> strnlen_at key 0 ITEM_MAX_LEN;
                         r \<leftarrow> strncmp_at (item_key t) 0 key 0 n;
                         Some (if r = 0 then Some 1 else None) }) 0 items"

text \<open>\<open>__string_sec\<close>: where section \<open>sec\<close> starts.\<close>

function string_sec_loop :: "string \<Rightarrow> int \<Rightarrow> nat \<Rightarrow> int \<Rightarrow> nat option option" where
  "string_sec_loop str sec p c =
     (case rd str p of None \<Rightarrow> None
      | Some ch \<Rightarrow>
          if ch \<noteq> NUL \<and> c \<le> sec
          then let (c, p) = (if ch = CHR ''.'' then (c + 1, p + 1) else (c, p)) in
            if c = sec then Some (Some p) else string_sec_loop str sec (p + 1) c
          else Some None)"
  by auto
termination
  by (relation "measure (\<lambda>(str, sec, p, c). length str - p)") (auto simp: rd_eq_Some split: if_splits)

declare string_sec_loop.simps [simp del]

definition string_sec :: "string \<Rightarrow> int \<Rightarrow> nat option option" where
  "string_sec str sec = string_sec_loop str sec 0 0"

definition item_string :: "imap_item list \<Rightarrow> string \<Rightarrow> string \<Rightarrow> int \<Rightarrow> (int \<times> string) option" where
  "item_string items buf key section =
     item_find (\<lambda>t. do {
       r \<leftarrow> strncmp_at (item_key t) 0 key 0 ITEM_MAX_LEN;
       if r = 0
       then do {
         s \<leftarrow> string_sec (item_text t) section;
         case s of None \<Rightarrow> Some None
         | Some s \<Rightarrow> do { buf \<leftarrow> strncpy_at buf 0 (item_text t) s ITEM_MAX_LEN; Some (Some (0, buf)) } }
       else Some None }) (- EFAULT, buf) items"

definition item_string_item :: "imap_item list \<Rightarrow> string \<Rightarrow> string \<Rightarrow> int \<Rightarrow> (int \<times> string) option" where
  "item_string_item items buf str section =
     item_find (\<lambda>t. do {
       r \<leftarrow> strncmp_at (item_text t) 0 str 0 ITEM_MAX_LEN;
       if r = 0
       then do {
         s \<leftarrow> string_sec (item_key t) section;
         case s of None \<Rightarrow> Some None
         | Some s \<Rightarrow> do { buf \<leftarrow> strncpy_at buf 0 (item_key t) s ITEM_MAX_LEN; Some (Some (0, buf)) } }
       else Some None }) (- EFAULT, buf) items"

text \<open>The local \<open>buf\<close> of the next two functions is an argument: it is not initialised.\<close>

definition item_integer :: "imap_item list \<Rightarrow> string \<Rightarrow> string \<Rightarrow> int \<Rightarrow> int option" where
  "item_integer items buf key section = do {
     (ret, buf) \<leftarrow> item_string items buf key section;
     if ret \<noteq> 0 then Some (- ITEMS_EINT)
     else do { (v, _) \<leftarrow> simple_strtol buf 10; Some (sint v) } }"

definition item_equal :: "imap_item list \<Rightarrow> string \<Rightarrow> string \<Rightarrow> string \<Rightarrow> int \<Rightarrow> int option" where
  "item_equal items buf key value section = do {
     (ret, buf) \<leftarrow> item_string items buf key section;
     if ret \<noteq> 0 then Some 0
     else do {
       n \<leftarrow> strnlen_at value 0 ITEM_MAX_LEN;
       r \<leftarrow> strncmp_at buf 0 value 0 n;
       Some (if r = 0 then 1 else 0) } }"

text \<open>\<open>item_list\<close>: the text printed, for the keys that start with \<open>pre\<close> (\<^verbatim>\<open>subset\<close>).  The items stand in memory from \<open>base\<close> on, 128 bytes each.\<close>

definition items_mem :: "ptr \<Rightarrow> imap_item list \<Rightarrow> mem" where
  "items_mem base items =
     (\<lambda>a. concat (map (\<lambda>t. item_key t @ item_text t) items) ! (a - base))"

definition item_line :: "bool \<Rightarrow> mem \<Rightarrow> ptr \<Rightarrow> nat \<Rightarrow> string option" where
  "item_line net m base i = do {
     let t = base + i * (2 * ITEM_MAX_LEN);
     (out, m) \<leftarrow> vsprintf net m (''%3d: %-24s  %s'' @ [CHR 10, NUL])
       [word_of_nat i, word_of_nat t, word_of_nat (t + ITEM_MAX_LEN)];
     Some out }"

fun item_list_loop :: "bool \<Rightarrow> mem \<Rightarrow> ptr \<Rightarrow> string option \<Rightarrow> nat \<Rightarrow> imap_item list \<Rightarrow> string option" where
  "item_list_loop net m base pre i [] = None"
| "item_list_loop net m base pre i (t # ts) = do {
     k \<leftarrow> rd (item_key t) 0;
     if k = NUL then Some []
     else do {
       show \<leftarrow> (case pre of
           None \<Rightarrow> Some True
         | Some sub \<Rightarrow> do {
             n \<leftarrow> strnlen_at sub 0 ITEM_MAX_LEN;
             r \<leftarrow> strncmp_at (item_key t) 0 sub 0 n;
             Some (r = 0) });
       line \<leftarrow> (if show then item_line net m base i else Some []);
       out \<leftarrow> item_list_loop net m base pre (Suc i) ts;
       Some (line @ out) } }"

definition item_list :: "bool \<Rightarrow> ptr \<Rightarrow> imap_item list \<Rightarrow> string option \<Rightarrow> string option" where
  "item_list net base items pre = item_list_loop net (items_mem base items) base pre 0 items"

section \<open>Sections of a value\<close>

text \<open>A value is its sections with dots between them.\<close>

fun dotted :: "string list \<Rightarrow> string" where
  "dotted [] = []"
| "dotted [f] = f"
| "dotted (f # g # fs) = f @ CHR ''.'' # dotted (g # fs)"

definition sections_ok :: "string list \<Rightarrow> bool" where
  "sections_ok fs \<longleftrightarrow> list_all (\<lambda>f. f \<noteq> [] \<and> CHR ''.'' \<notin> set f \<and> NUL \<notin> set f) fs"

lemma dotted_Cons: "fs \<noteq> [] \<Longrightarrow> dotted (f # fs) = f @ CHR ''.'' # dotted fs"
  by (cases fs) auto

text \<open>Inside a section before the one asked for: \<open>u\<close> is what is left of it.\<close>

lemma string_sec_rest:
  "drop p a = u @ (if fs = [] then [] else CHR ''.'' # dotted fs) @ NUL # r \<Longrightarrow> CHR ''.'' \<notin> set u \<Longrightarrow> NUL \<notin> set u \<Longrightarrow>
    sections_ok fs \<Longrightarrow> c < sec \<Longrightarrow>
    \<exists>q. string_sec_loop a sec p c = Some q \<and>
      (case q of None \<Rightarrow> int (length fs) < sec - c
       | Some q \<Rightarrow> sec - c \<le> int (length fs) \<and> drop q a = dotted (drop (nat (sec - c) - 1) fs) @ NUL # r)"
proof (induction fs arbitrary: p c u)
  case Nil
  then show ?case
  proof (induction u arbitrary: p)
    case Nil
    then show ?case using rd_drop [of p a NUL r] by (simp add: string_sec_loop.simps [of a sec p])
  next
    case (Cons x u)
    have x: "rd a p = Some x" "drop (Suc p) a = u @ NUL # r" using rd_drop [of p a x] Cons.prems(1) by simp_all
    then have "string_sec_loop a sec p c = string_sec_loop a sec (Suc p) c"
      using Cons.prems by (subst string_sec_loop.simps) auto
    then show ?case using Cons.IH [of "Suc p"] Cons.prems x(2) by simp
  qed
next
  case (Cons f fs)
  note outer = Cons.IH
  have sk: "sections_ok fs" "f \<noteq> []" "CHR ''.'' \<notin> set f" "NUL \<notin> set f" using Cons.prems(4) by (simp_all add: sections_ok_def)
  show ?case using Cons.prems(1-3)
  proof (induction u arbitrary: p)
    case (Cons x u)
    have x: "rd a p = Some x" "drop (Suc p) a = u @ CHR ''.'' # dotted (f # fs) @ NUL # r"
      using rd_drop [of p a x] Cons.prems(1) by simp_all
    then have "string_sec_loop a sec p c = string_sec_loop a sec (Suc p) c"
      using Cons.prems \<open>c < sec\<close> by (subst string_sec_loop.simps) auto
    then show ?case using Cons.IH [of "Suc p"] Cons.prems x(2) by simp
  next
    case Nil
    obtain y f' where f: "f = y # f'" using sk(2) by (cases f) auto
    let ?t = "(if fs = [] then [] else CHR ''.'' # dotted fs) @ NUL # r"
    have d: "drop p a = CHR ''.'' # f @ ?t" using Nil.prems(1) by (cases fs) simp_all
    have d1: "rd a p = Some CHR ''.''" "drop (Suc p) a = f @ ?t" using rd_drop [OF d] by simp_all
    then have d2: "drop (Suc (Suc p)) a = f' @ ?t" using rd_drop [of "Suc p" a y "f' @ ?t"] f by simp
    have e: "dotted (f # fs) @ NUL # r = f @ ?t" by (cases fs) simp_all
    show ?case
    proof (cases "c + 1 = sec")
      case True
      then have "string_sec_loop a sec p c = Some (Some (Suc p))"
        using d1(1) by (subst string_sec_loop.simps) simp
      then show ?thesis using True d1(2) e by auto
    next
      case False
      then have "string_sec_loop a sec p c = string_sec_loop a sec (Suc (Suc p)) (c + 1)"
        using d1(1) \<open>c < sec\<close> by (subst string_sec_loop.simps) simp
      moreover obtain q where q: "string_sec_loop a sec (Suc (Suc p)) (c + 1) = Some q"
        "case q of None \<Rightarrow> int (length fs) < sec - (c + 1)
         | Some q \<Rightarrow> sec - (c + 1) \<le> int (length fs) \<and> drop q a = dotted (drop (nat (sec - (c + 1)) - 1) fs) @ NUL # r"
        using outer [OF d2, of "c + 1"] sk f False \<open>c < sec\<close> by auto
      moreover have "drop (nat (sec - c) - 1) (f # fs) = drop (nat (sec - (c + 1)) - 1) fs"
      proof -
        have "nat (sec - c) - 1 = Suc (nat (sec - (c + 1)) - 1)" using False \<open>c < sec\<close> by linarith
        then show ?thesis by (simp only: drop_Suc_Cons)
      qed
      ultimately show ?thesis by (auto split: option.splits)
    qed
  qed
qed

lemma string_sec_dotted:
  assumes "array_holds a (dotted fs)" and "sections_ok fs"
  shows "\<exists>q. string_sec a sec = Some q \<and>
    (case q of None \<Rightarrow> sec < 0 \<or> int (length fs) \<le> sec
     | Some q \<Rightarrow> 0 \<le> sec \<and> sec < int (length fs) \<and> (\<exists>r. drop q a = dotted (drop (nat sec) fs) @ NUL # r))"
proof -
  obtain r where r: "a = dotted fs @ NUL # r" using assms(1) by (auto simp: array_holds_def)
  show ?thesis
  proof (cases fs)
    case Nil
    then show ?thesis using r by (simp add: string_sec_def string_sec_loop.simps [of "NUL # r" sec]) linarith
  next
    case (Cons f fs')
    have sk: "sections_ok fs'" "f \<noteq> []" "CHR ''.'' \<notin> set f" "NUL \<notin> set f" using assms(2) Cons by (simp_all add: sections_ok_def)
    obtain y f' where f: "f = y # f'" using sk(2) by (cases f) auto
    let ?t = "(if fs' = [] then [] else CHR ''.'' # dotted fs') @ NUL # r"
    have d: "drop 0 a = y # (f' @ ?t)" using r Cons f by (cases fs') simp_all
    have y: "rd a 0 = Some y" "drop (Suc 0) a = f' @ ?t" using rd_drop [OF d] by blast+
    consider "sec < 0" | "sec = 0" | "0 < sec" by linarith
    then show ?thesis
    proof cases
      case 1
      then show ?thesis using y(1) by (simp add: string_sec_def string_sec_loop.simps [of a sec])
    next
      case 2
      then have "string_sec a sec = Some (Some 0)"
        using y(1) sk f by (auto simp: string_sec_def string_sec_loop.simps [of a 0])
      then show ?thesis using 2 r Cons by auto
    next
      case 3
      then have "string_sec a sec = string_sec_loop a sec (Suc 0) 0"
        using y(1) sk f unfolding string_sec_def by (subst string_sec_loop.simps) auto
      moreover have "drop (nat sec) fs = drop (nat sec - 1) fs'" using 3 Cons by (simp add: drop_Cons')
      ultimately show ?thesis using string_sec_rest [OF y(2), of 0 sec] sk f 3 Cons by (auto split: option.splits)
    qed
  qed
qed

section \<open>Looking items up\<close>

text \<open>A configuration: keys with the sections of their values, in the order of the text.\<close>

type_synonym config = "(string \<times> string list) list"

definition conf_get :: "config \<Rightarrow> string \<Rightarrow> int \<Rightarrow> string option" where
  "conf_get cfg k sec = map_option (\<lambda>(_, fs). dotted (drop (nat sec) fs))
     (find (\<lambda>(k', fs). k' = k \<and> 0 \<le> sec \<and> sec < int (length fs)) cfg)"

definition items_config :: "imap_item list \<Rightarrow> config \<Rightarrow> bool" where
  "items_config items cfg \<longleftrightarrow> items_hold items (map (apsnd dotted) cfg) \<and> length cfg < length items \<and>
     list_all (sections_ok \<circ> snd) cfg"

fun first_some :: "('b \<Rightarrow> 'a option) \<Rightarrow> 'a \<Rightarrow> 'b list \<Rightarrow> 'a" where
  "first_some g none [] = none"
| "first_some g none (e # es) = (case g e of Some x \<Rightarrow> x | None \<Rightarrow> first_some g none es)"

lemma item_find_first:
  assumes "list_all item_free rest" and "rest \<noteq> []"
  shows "list_all2 (\<lambda>t e. item_holds t (h e)) cells es \<Longrightarrow>
    (\<And>t e. item_holds t (h e) \<Longrightarrow> e \<in> set es \<Longrightarrow> f t = Some (g e)) \<Longrightarrow>
    item_find f none (cells @ rest) = Some (first_some g none es)"
proof (induction cells es rule: list_all2_induct)
  case Nil
  obtain t ts where "rest = t # ts" "item_free t" using assms by (cases rest) auto
  then show ?case using array_holds_first [of "item_key t" "[]"] by (simp add: item_free_def)
next
  case (Cons t cells e es)
  have "\<exists>k. rd (item_key t) 0 = Some k \<and> k \<noteq> NUL"
    using Cons.hyps(1) array_holds_first [of "item_key t" "fst (h e)"] by (auto simp: item_holds_def)
  moreover have "f t = Some (g e)" using Cons.prems Cons.hyps(1) by simp
  moreover have "item_find f none (cells @ rest) = Some (first_some g none es)"
    using Cons.prems by (intro Cons.IH) auto
  ultimately show ?case by (auto split: option.splits)
qed

lemma items_hold_find:
  assumes "items_hold items (map h es)" and "length es < length items"
    and "\<And>t e. item_holds t (h e) \<Longrightarrow> e \<in> set es \<Longrightarrow> f t = Some (g e)"
  shows "item_find f none items = Some (first_some g none es)"
proof -
  obtain cells rest where i: "items = cells @ rest" "list_all2 item_holds cells (map h es)" "list_all item_free rest"
    using assms(1) by (auto simp: items_hold_def)
  then have c: "list_all2 (\<lambda>t e. item_holds t (h e)) cells es" by (simp add: list.rel_map)
  have "rest \<noteq> []" using list_all2_lengthD [OF c] assms(2) i(1) by auto
  then show ?thesis unfolding i(1) by (rule item_find_first [OF i(3) _ c]) (use assms(3) in blast)
qed

lemma items_config_find:
  assumes "items_config items cfg"
    and "\<And>t e. item_holds t (apsnd dotted e) \<Longrightarrow> e \<in> set cfg \<Longrightarrow> sections_ok (snd e) \<Longrightarrow> f t = Some (g e)"
  shows "item_find f none items = Some (first_some g none cfg)"
  using assms by (intro items_hold_find [where h = "apsnd dotted"]) (auto simp: items_config_def list_all_iff)

lemma key_compare:
  assumes "array_holds a k" and "NUL \<notin> set key"
  shows "\<exists>r. strncmp_at a 0 (key @ [NUL]) 0 ITEM_MAX_LEN = Some r \<and> (r = 0 \<longleftrightarrow> k = key)"
proof -
  have "cz (key @ [NUL]) = key" using cz_append [OF assms(2), of "[]"] by simp
  moreover have "take ITEM_MAX_LEN k = k" using holds_cz [OF assms(1)] by simp
  moreover have "take ITEM_MAX_LEN key = k \<longleftrightarrow> key = k" if "length k < ITEM_MAX_LEN" using that by auto
  ultimately show ?thesis
    using strncmp_at_cz [of 0 a 0 "key @ [NUL]" ITEM_MAX_LEN] holds_cz [OF assms(1)] by auto
qed

lemma prefix_compare:
  assumes "array_holds a s" and "NUL \<notin> set v"
  shows "\<exists>n r. strnlen_at (v @ [NUL]) 0 ITEM_MAX_LEN = Some n \<and> strncmp_at a 0 (v @ [NUL]) 0 n = Some r \<and>
    (r = 0 \<longleftrightarrow> prefix v s)"
proof -
  let ?n = "min ITEM_MAX_LEN (length v)"
  have v: "cz (v @ [NUL]) = v" using cz_append [OF assms(2), of "[]"] by simp
  have s: "cz a = s" "NUL \<in> set a" "length s < ITEM_MAX_LEN" using holds_cz [OF assms(1)] by auto
  have "strnlen_at (v @ [NUL]) 0 ITEM_MAX_LEN = Some ?n" using strnlen_at_cz [of 0 "v @ [NUL]"] v by simp
  moreover obtain r where "strncmp_at a 0 (v @ [NUL]) 0 ?n = Some r" "r = 0 \<longleftrightarrow> take ?n s = take ?n v"
    using strncmp_at_cz [of 0 a 0 "v @ [NUL]" ?n] s v by auto
  moreover have "take ?n s = take ?n v \<longleftrightarrow> prefix v s"
  proof (cases "length v < ITEM_MAX_LEN")
    case True
    then have "?n = length v" by simp
    moreover have "take (length v) s = v \<longleftrightarrow> prefix v s" by (metis append_eq_conv_conj append_take_drop_id prefix_def)
    ultimately show ?thesis by simp
  next
    case False
    then have "?n = ITEM_MAX_LEN" "\<not> prefix v s" using s(3) by (auto dest: prefix_length_le)
    moreover have "length (take ITEM_MAX_LEN s) \<noteq> length (take ITEM_MAX_LEN v)" using False s(3) by simp
    ultimately show ?thesis by metis
  qed
  ultimately show ?thesis by blast
qed

lemma dotted_suffix: "\<exists>u. dotted fs = u @ dotted (drop n fs)"
proof (induction n arbitrary: fs)
  case (Suc n)
  show ?case
  proof (cases fs)
    case (Cons f gs)
    then obtain u where "dotted gs = u @ dotted (drop n gs)" using Suc by blast
    then show ?thesis using Cons by (cases gs) (auto intro: exI [of _ "f @ CHR ''.'' # u"])
  qed simp
qed simp

lemma length_dotted_drop: "length (dotted (drop n fs)) \<le> length (dotted fs)"
  using dotted_suffix [of fs n] by (metis le_add2 length_append)

lemma config_value:
  assumes "items_config items cfg" and "(k, fs) \<in> set cfg"
  shows "NUL \<notin> set (dotted fs) \<and> length (dotted fs) < ITEM_MAX_LEN"
proof -
  obtain cells rest where i: "list_all2 item_holds cells (map (apsnd dotted) cfg)"
    using assms(1) by (auto simp: items_config_def items_hold_def)
  then have "\<exists>t. item_holds t (k, dotted fs)"
    using assms(2) by (fastforce simp: list_all2_conv_all_nth in_set_conv_nth)
  then show ?thesis using holds_cz by (auto simp: item_holds_def array_holds_def)
qed

lemma section_copy:
  assumes "array_holds a (dotted fs)" and "sections_ok fs" and "length (dotted fs) < length buf"
  shows "do { s \<leftarrow> string_sec a sec;
              case s of None \<Rightarrow> Some None
              | Some s \<Rightarrow> do { buf \<leftarrow> strncpy_at buf 0 a s ITEM_MAX_LEN; Some (Some ((0::int), buf)) } } =
    Some (if 0 \<le> sec \<and> sec < int (length fs)
          then Some (0, (let v = dotted (drop (nat sec) fs) in v @ NUL # drop (Suc (length v)) buf)) else None)"
proof -
  obtain q where q: "string_sec a sec = Some q"
    "case q of None \<Rightarrow> sec < 0 \<or> int (length fs) \<le> sec
     | Some q \<Rightarrow> 0 \<le> sec \<and> sec < int (length fs) \<and> (\<exists>r. drop q a = dotted (drop (nat sec) fs) @ NUL # r)"
    using string_sec_dotted [OF assms(1,2), of sec] by blast
  show ?thesis
  proof (cases q)
    case None
    then show ?thesis using q by auto
  next
    case (Some p)
    let ?v = "dotted (drop (nat sec) fs)"
    obtain r where r: "drop p a = ?v @ NUL # r" "0 \<le> sec" "sec < int (length fs)" using q(2) Some by auto
    have "length ?v < length a" using arg_cong [OF r(1), of length] by simp
    then have l: "length ?v < ITEM_MAX_LEN" using assms(1) by (simp add: array_holds_def)
    have b: "length ?v < length buf" using length_dotted_drop [of "nat sec" fs] assms(3) by linarith
    have "NUL \<notin> set (dotted gs)" if "sections_ok gs" for gs
      using that by (induction gs rule: dotted.induct) (auto simp: sections_ok_def)
    moreover have "sections_ok (drop (nat sec) fs)" using assms(2) by (auto simp: sections_ok_def list_all_iff dest: in_set_dropD)
    ultimately have "NUL \<notin> set ?v" by blast
    then have "strncpy_at buf 0 a p ITEM_MAX_LEN = Some (take 0 buf @ ?v @ NUL # drop (Suc (0 + length ?v)) buf)"
      by (intro strncpy_at_copy [OF r(1)]) (use l b in auto)
    then show ?thesis using q(1) Some r by (simp add: Let_def)
  qed
qed

definition copied_to :: "string \<Rightarrow> string \<Rightarrow> string" where
  "copied_to buf v = v @ NUL # drop (Suc (length v)) buf"

lemma first_some_find:
  "first_some (\<lambda>e. if P e then Some (h e) else None) none es = (case find P es of None \<Rightarrow> none | Some e \<Rightarrow> h e)"
  by (induction es) auto

lemma item_string_get_fits:
  assumes "items_config items cfg" and "NUL \<notin> set k" and "\<And>fs. (k, fs) \<in> set cfg \<Longrightarrow> length (dotted fs) < length buf"
  shows "item_string items buf (k @ [NUL]) sec =
    Some (case conf_get cfg k sec of None \<Rightarrow> (- EFAULT, buf) | Some v \<Rightarrow> (0, copied_to buf v))"
proof -
  let ?P = "\<lambda>(k', fs). k' = k \<and> 0 \<le> sec \<and> sec < int (length fs)"
  let ?h = "\<lambda>(k', fs). ((0 :: int), copied_to buf (dotted (drop (nat sec) fs)))"
  have "item_string items buf (k @ [NUL]) sec =
      Some (first_some (\<lambda>e. if ?P e then Some (?h e) else None) (- EFAULT, buf) cfg)"
    unfolding item_string_def
  proof (rule items_config_find [OF assms(1)])
    fix t and e :: "string \<times> string list"
    assume t: "item_holds t (apsnd dotted e)" and m: "e \<in> set cfg" and s: "sections_ok (snd e)"
    obtain k' fs where e: "e = (k', fs)" by (cases e)
    obtain r where r: "strncmp_at (item_key t) 0 (k @ [NUL]) 0 ITEM_MAX_LEN = Some r" "r = 0 \<longleftrightarrow> k' = k"
      using key_compare [of "item_key t" k' k] t e assms(2) by (auto simp: item_holds_def)
    show "do {
       r \<leftarrow> strncmp_at (item_key t) 0 (k @ [NUL]) 0 ITEM_MAX_LEN;
       if r = 0
       then do {
         s \<leftarrow> string_sec (item_text t) sec;
         case s of None \<Rightarrow> Some None
         | Some s \<Rightarrow> do { buf \<leftarrow> strncpy_at buf 0 (item_text t) s ITEM_MAX_LEN; Some (Some (0, buf)) } }
       else Some None } = Some (if ?P e then Some (?h e) else None)"
    proof (cases "k' = k")
      case True
      then have "length (dotted fs) < length buf" using assms(3) m e by simp
      then show ?thesis using section_copy [of "item_text t" fs buf sec] t e s r True
        by (simp add: item_holds_def copied_to_def Let_def)
    next
      case False
      then show ?thesis using e r by simp
    qed
  qed
  then show ?thesis unfolding first_some_find conf_get_def by (auto split: option.splits)
qed

lemma item_string_get:
  assumes "items_config items cfg" and "NUL \<notin> set k" and "ITEM_MAX_LEN \<le> length buf"
  shows "item_string items buf (k @ [NUL]) sec =
    Some (case conf_get cfg k sec of None \<Rightarrow> (- EFAULT, buf) | Some v \<Rightarrow> (0, copied_to buf v))"
  using item_string_get_fits [OF assms(1,2)] config_value [OF assms(1)] assms(3) by (meson le_trans not_less)

lemma item_exist_iff:
  assumes "items_hold items es" and "length es < length items" and "NUL \<notin> set k"
  shows "item_exist items (k @ [NUL]) = Some (if \<exists>e\<in>set es. prefix k (fst e) then 1 else 0)"
proof -
  have "item_exist items (k @ [NUL]) = Some (first_some (\<lambda>e. if prefix k (fst e) then Some 1 else None) 0 es)"
    unfolding item_exist_def
  proof (rule items_hold_find [where h = id])
    fix t and e :: "string \<times> string"
    assume "item_holds t (id e)"
    then have "array_holds (item_key t) (fst e)" by (simp add: item_holds_def)
    from prefix_compare [OF this assms(3)]
    show "do { n \<leftarrow> strnlen_at (k @ [NUL]) 0 ITEM_MAX_LEN; r \<leftarrow> strncmp_at (item_key t) 0 (k @ [NUL]) 0 n;
          Some (if r = 0 then Some (1::int) else None) } = Some (if prefix k (fst e) then Some 1 else None)"
      by auto
  qed (use assms in simp_all)
  moreover have "find (\<lambda>e. prefix k (fst e)) es = None \<longleftrightarrow> \<not> (\<exists>e\<in>set es. prefix k (fst e))"
    by (auto simp: find_None_iff)
  ultimately show ?thesis
    unfolding first_some_find [where h = "\<lambda>e. 1"] by (cases "find (\<lambda>e. prefix k (fst e)) es") auto
qed

lemma copied_holds:
  assumes "NUL \<notin> set v" and "length v < ITEM_MAX_LEN" and "length buf = ITEM_MAX_LEN"
  shows "array_holds (copied_to buf v) v"
  using assms by (simp add: array_holds_def copied_to_def)

lemma conf_get_value:
  assumes "items_config items cfg" and "conf_get cfg k sec = Some v"
  shows "NUL \<notin> set v \<and> length v < ITEM_MAX_LEN"
proof -
  obtain k' fs where f: "find (\<lambda>(k', fs). k' = k \<and> 0 \<le> sec \<and> sec < int (length fs)) cfg = Some (k', fs)"
    "v = dotted (drop (nat sec) fs)" using assms(2) by (auto simp: conf_get_def)
  then have fs: "(k, fs) \<in> set cfg" "v = dotted (drop (nat sec) fs)"
    by (auto simp: find_Some_iff in_set_conv_nth)
  then obtain u where "dotted fs = u @ v" using dotted_suffix by blast
  then show ?thesis using config_value [OF assms(1) fs(1)] by auto
qed

lemma item_equal_get:
  assumes "items_config items cfg" and "NUL \<notin> set k" and "NUL \<notin> set x" and "length buf = ITEM_MAX_LEN"
  shows "item_equal items buf (k @ [NUL]) (x @ [NUL]) sec =
    Some (case conf_get cfg k sec of None \<Rightarrow> 0 | Some v \<Rightarrow> if prefix x v then 1 else 0)"
proof (cases "conf_get cfg k sec")
  case None
  then show ?thesis using item_string_get [OF assms(1,2), of buf sec] assms(4) by (simp add: item_equal_def EFAULT_def)
next
  case (Some v)
  have "array_holds (copied_to buf v) v" using copied_holds conf_get_value [OF assms(1) Some] assms(4) by blast
  from prefix_compare [OF this assms(3)] show ?thesis
    using item_string_get [OF assms(1,2), of buf sec] assms(4) Some by (auto simp: item_equal_def)
qed

lemma decimal_num: "digits_of 10 (decimal n) \<and> num_of 10 (decimal n) = n"
proof -
  have "rev (map (digit_char 0) (digs 10 n)) = decimal n"
    using digs_bound [of 10 _ n] digit_char_dec [of _ 0] by (auto simp: decimal_def)
  then show ?thesis using digs_read [of 10 0 n] by simp
qed

lemma read_decimal:
  assumes "c = CHR ''.'' \<or> c = NUL"
  shows "simple_strtoul (decimal n @ c # rest) 10 = Some (word_of_nat n, c # rest)"
proof -
  have s: "stops (unat (10 :: u32)) c" using assms by (auto simp: stops_def isxdigit_iff)
  show ?thesis
  proof (cases "n = 0")
    case True
    have "number_base ''0'' 10 (hd ([] @ [c])) 10" using assms by (auto simp: number_base_def)
    moreover have "decimal n = ''0''" using True by (simp add: decimal_def digs_small dchr_def char_of_eq_iff)
    ultimately show ?thesis using strtoul_num(1) [of 10 "[]" c "''0''" 10 rest] s True
      by (simp add: digits_of_def num_of_def)
  next
    case False
    then have "number_base [] 10 (hd (decimal n @ [c])) 10" using decimal_hd [of n] by (simp add: number_base_def hd_append)
    from strtoul_num(1) [OF _ s this, of rest] show ?thesis using decimal_num [of n] by simp
  qed
qed

lemma decimal_no_minus: "\<exists>d ds. decimal n = d # ds \<and> d \<noteq> CHR ''-''"
proof -
  have "decimal n \<noteq> []" by (subst decimal_def, subst digs.simps) simp
  then obtain d ds where d: "decimal n = d # ds" by (cases "decimal n") auto
  then have "is_digit d" using decimal_digits [of n] by simp
  then show ?thesis using d by (auto simp: is_digit_def)
qed

lemma sint_of_nat: "n < 2 ^ 31 \<Longrightarrow> sint (word_of_nat n :: ulong) = int n"
  by (simp add: signed_of_nat signed_take_bit_int_eq_self)

lemma sint_neg_nat: "n \<le> 2 ^ 31 \<Longrightarrow> sint (- word_of_nat n :: ulong) = - int n"
proof -
  assume n: "n \<le> 2 ^ 31"
  have "(- word_of_nat n :: ulong) = word_of_int (- int n)" by simp
  moreover have "signed_take_bit 31 (- int n) = - int n"
    by (rule signed_take_bit_int_eq_self) (use n in auto)
  then have "sint (word_of_int (- int n) :: ulong) = - int n" by (simp only: signed_of_int) simp
  ultimately show ?thesis by simp
qed

lemma item_integer_get:
  assumes "items_config items cfg" and "NUL \<notin> set k" and "length buf = ITEM_MAX_LEN"
    and "conf_get cfg k sec = Some v" and "v @ [NUL] = u @ c # rest" and "c = CHR ''.'' \<or> c = NUL"
  shows "u = decimal n \<Longrightarrow> n < 2 ^ 31 \<Longrightarrow> item_integer items buf (k @ [NUL]) sec = Some (int n)"
    and "u = CHR ''-'' # decimal n \<Longrightarrow> n \<le> 2 ^ 31 \<Longrightarrow> item_integer items buf (k @ [NUL]) sec = Some (- int n)"
proof -
  let ?e = "drop (Suc (length v)) buf"
  have b: "copied_to buf v = u @ c # (rest @ ?e)" using assms(5) by (metis append.assoc append_Cons append_Nil copied_to_def)
  obtain d ds where d: "decimal n = d # ds" "d \<noteq> CHR ''-''" using decimal_no_minus by blast
  note rd = read_decimal [OF assms(6), of n "rest @ ?e"]
  have i: "item_integer items buf (k @ [NUL]) sec = do { (v, _) \<leftarrow> simple_strtol (u @ c # (rest @ ?e)) 10; Some (sint v) }"
    using item_string_get [OF assms(1,2), of buf sec] assms(3,4) b by (simp add: item_integer_def)
  show "item_integer items buf (k @ [NUL]) sec = Some (int n)" if "u = decimal n" "n < 2 ^ 31"
    using i rd d that sint_of_nat by (simp add: simple_strtol_def)
  show "item_integer items buf (k @ [NUL]) sec = Some (- int n)" if "u = CHR ''-'' # decimal n" "n \<le> 2 ^ 31"
    using i rd d that sint_neg_nat by (simp add: simple_strtol_def)
qed

lemma item_string_item_get:
  assumes "items_hold items (map (apfst dotted) es)" and "length es < length items" and "list_all (sections_ok \<circ> fst) es"
    and "NUL \<notin> set v" and "ITEM_MAX_LEN \<le> length buf"
  shows "item_string_item items buf (v @ [NUL]) sec =
    Some (case find (\<lambda>(ks, v'). v' = v \<and> 0 \<le> sec \<and> sec < int (length ks)) es of
            None \<Rightarrow> (- EFAULT, buf) | Some (ks, _) \<Rightarrow> (0, copied_to buf (dotted (drop (nat sec) ks))))"
proof -
  let ?P = "\<lambda>(ks, v'). v' = v \<and> 0 \<le> sec \<and> sec < int (length ks)"
  let ?h = "\<lambda>(ks, v' :: string). ((0 :: int), copied_to buf (dotted (drop (nat sec) ks)))"
  have "item_string_item items buf (v @ [NUL]) sec =
      Some (first_some (\<lambda>e. if ?P e then Some (?h e) else None) (- EFAULT, buf) es)"
    unfolding item_string_item_def
  proof (rule items_hold_find [OF assms(1,2)])
    fix t and e :: "string list \<times> string"
    assume t: "item_holds t (apfst dotted e)" and e: "e \<in> set es"
    obtain ks v' where kv: "e = (ks, v')" by (cases e)
    have s: "sections_ok ks" using e kv assms(3) by (auto simp: list_all_iff)
    have "length (dotted ks) < length buf" using t kv holds_cz [of "item_key t" "dotted ks"] assms(5) by (auto simp: item_holds_def)
    moreover obtain r where r: "strncmp_at (item_text t) 0 (v @ [NUL]) 0 ITEM_MAX_LEN = Some r" "r = 0 \<longleftrightarrow> v' = v"
      using key_compare [of "item_text t" v' v] t kv assms(4) by (auto simp: item_holds_def)
    ultimately show "do {
       r \<leftarrow> strncmp_at (item_text t) 0 (v @ [NUL]) 0 ITEM_MAX_LEN;
       if r = 0
       then do {
         s \<leftarrow> string_sec (item_key t) sec;
         case s of None \<Rightarrow> Some None
         | Some s \<Rightarrow> do { buf \<leftarrow> strncpy_at buf 0 (item_key t) s ITEM_MAX_LEN; Some (Some (0, buf)) } }
       else Some None } = Some (if ?P e then Some (?h e) else None)"
      using section_copy [of "item_key t" ks buf sec] t kv s r
      by (simp add: item_holds_def copied_to_def Let_def)
  qed
  then show ?thesis unfolding first_some_find by (auto split: option.splits)
qed

section \<open>The list of items\<close>

lemma concat_chunk_nth:
  "\<forall>x\<in>set xs. length x = n \<Longrightarrow> i < length xs \<Longrightarrow> j < n \<Longrightarrow> concat xs ! (i * n + j) = xs ! i ! j"
proof (induction xs arbitrary: i)
  case (Cons x xs)
  then show ?case by (cases i) (simp_all add: nth_append)
qed simp

lemma items_mem_nth:
  assumes "list_all (\<lambda>t. length (item_key t) = ITEM_MAX_LEN \<and> length (item_text t) = ITEM_MAX_LEN) items"
    and "i < length items" and "j < 2 * ITEM_MAX_LEN"
  shows "items_mem base items (base + i * (2 * ITEM_MAX_LEN) + j) = (item_key (items ! i) @ item_text (items ! i)) ! j"
proof -
  let ?xs = "map (\<lambda>t. item_key t @ item_text t) items"
  have "concat ?xs ! (i * (2 * ITEM_MAX_LEN) + j) = ?xs ! i ! j"
    by (rule concat_chunk_nth) (use assms in \<open>auto simp: list_all_iff\<close>)
  then show ?thesis using assms(2) by (simp add: items_mem_def add.assoc)
qed

lemma holds_cstr:
  assumes "array_holds a s" and "\<And>j. j < ITEM_MAX_LEN \<Longrightarrow> m (p + j) = a ! j"
  shows "cstr m p s"
proof (rule cstrI)
  obtain r where a: "a = s @ NUL # r" "NUL \<notin> set s" "length a = ITEM_MAX_LEN" using assms(1) by (auto simp: array_holds_def)
  then have l: "length s < ITEM_MAX_LEN" by auto
  show "m (p + i) = s ! i" if "i < length s" for i using assms(2) [of i] that l a by (simp add: nth_append)
  show "NUL \<notin> set s" by (rule a(2))
  show "m (p + length s) = NUL" using assms(2) [OF l] a by simp
qed

text \<open>A line: the number in three columns, the key in 24, the value.\<close>

definition item_format :: "piece list" where
  "item_format = [Conv [] (Some 3) None CHR ''d'', Text '': '', Conv ''-'' (Some 24) None CHR ''s'', Text ''  '',
     Conv [] None None CHR ''s'', Text [CHR 10]]"

definition list_line :: "nat \<Rightarrow> string \<times> string \<Rightarrow> string" where
  "list_line i kv = format_text item_format [Num (word_of_nat i), Str (fst kv), Str (snd kv)]"

lemma item_format_syntax: "concat (map piece_syntax item_format) = ''%3d: %-24s  %s'' @ [CHR 10]"
  by (simp add: item_format_def decimal_def digs_small digs_big dchr_def char_of_eq_iff)

lemma unat_address: "n < 2 ^ 32 \<Longrightarrow> unat (word_of_nat n :: u32) = n"
  by (simp add: unat_of_nat)

lemma item_line_text:
  assumes "item_holds (items ! i) kv" and "i < length items"
    and "list_all (\<lambda>t. length (item_key t) = ITEM_MAX_LEN \<and> length (item_text t) = ITEM_MAX_LEN) items"
    and "0 < base" and "base + length items * 128 < 2 ^ 32"
  shows "item_line net (items_mem base items) base i = Some (list_line i kv)"
proof -
  let ?m = "items_mem base items" and ?t = "base + i * (2 * ITEM_MAX_LEN)"
  have h: "array_holds (item_key (items ! i)) (fst kv)" "array_holds (item_text (items ! i)) (snd kv)" using assms(1) by (simp_all add: item_holds_def)
  have lk: "length (item_key (items ! i)) = ITEM_MAX_LEN" using h(1) by (simp add: array_holds_def)
  have c1: "cstr ?m ?t (fst kv)"
    by (rule holds_cstr [OF h(1)]) (simp add: items_mem_nth [OF assms(3,2)] nth_append lk)
  have c2: "cstr ?m (?t + ITEM_MAX_LEN) (snd kv)"
  proof (rule holds_cstr [OF h(2)])
    fix j assume j: "j < ITEM_MAX_LEN"
    have "?m (?t + (ITEM_MAX_LEN + j)) = item_text (items ! i) ! j"
      using items_mem_nth [OF assms(3,2), of "ITEM_MAX_LEN + j" base] j by (simp add: nth_append lk)
    then show "?m (?t + ITEM_MAX_LEN + j) = item_text (items ! i) ! j" by (simp add: add.assoc)
  qed
  have lt: "?t + ITEM_MAX_LEN < 2 ^ 32" using assms(2,5) by (simp add: ITEM_MAX_LEN_def)
  have u: "unat (word_of_nat ?t :: u32) = ?t" "unat (word_of_nat (?t + ITEM_MAX_LEN) :: u32) = ?t + ITEM_MAX_LEN"
    by (rule unat_address, use lt in linarith)+
  then have nz: "(word_of_nat ?t :: u32) \<noteq> 0" "(word_of_nat (?t + ITEM_MAX_LEN) :: u32) \<noteq> 0"
    using assms(4) by (metis add_is_0 less_numeral_extra(3) unat_0)+
  have l: "length (fst kv) < ITEM_MAX_LEN" "length (snd kv) < ITEM_MAX_LEN" using h holds_cz by blast+
  have "list_all piece_ok item_format" by (simp add: item_format_def opt_int_def)
  moreover have "format_args ?m item_format [Num (word_of_nat i), Str (fst kv), Str (snd kv)]
      [word_of_nat i, word_of_nat ?t, word_of_nat (?t + ITEM_MAX_LEN)]"
    using c1 c2 u nz l by (simp add: item_format_def ITEM_MAX_LEN_def)
  ultimately have "vsprintf net ?m (concat (map piece_syntax item_format) @ [NUL])
      [word_of_nat i, word_of_nat ?t, word_of_nat (?t + ITEM_MAX_LEN)] = Some (list_line i kv, ?m)"
    unfolding list_line_def vsprintf_def by (rule vsprintf_loop_pieces [where out = "[]" and k = 0, simplified])
  then show ?thesis unfolding item_line_def item_format_syntax by (simp add: Let_def)
qed

lemma item_list_loop_text:
  assumes "list_all (\<lambda>t. length (item_key t) = ITEM_MAX_LEN \<and> length (item_text t) = ITEM_MAX_LEN) items"
    and "0 < base" and "base + length items * 128 < 2 ^ 32" and "list_all item_free rest" and "rest \<noteq> []"
    and "case pre of None \<Rightarrow> True | Some k \<Rightarrow> NUL \<notin> set k"
  shows "list_all2 item_holds cells es \<Longrightarrow> drop i items = cells @ rest \<Longrightarrow>
    item_list_loop net (items_mem base items) base (map_option (\<lambda>k. k @ [NUL]) pre) i (cells @ rest) =
      Some (concat (map (\<lambda>(n, e). if (case pre of None \<Rightarrow> True | Some k \<Rightarrow> prefix k (fst e)) then list_line n e else [])
        (enumerate i es)))"
proof (induction cells es arbitrary: i rule: list_all2_induct)
  case Nil
  obtain t ts where "rest = t # ts" "item_free t" using assms(4,5) by (cases rest) auto
  then show ?case using array_holds_first [of "item_key t" "[]"] by (simp add: item_free_def)
next
  case (Cons t cells e es)
  have i: "i < length items" "items ! i = t" "drop (Suc i) items = cells @ rest"
    using rd_drop [of i items t "cells @ rest"] Cons.prems by (simp_all add: rd_eq_Some)
  have h: "array_holds (item_key t) (fst e)" "fst e \<noteq> []" using Cons.hyps(1) by (simp_all add: item_holds_def)
  have k: "\<exists>k. rd (item_key t) 0 = Some k \<and> k \<noteq> NUL" using array_holds_first [OF h(1)] h(2) by auto
  have line: "item_line net (items_mem base items) base i = Some (list_line i e)"
    by (rule item_line_text) (use Cons.hyps(1) i assms in auto)
  show ?case
  proof (cases pre)
    case None
    then show ?thesis using k line Cons.IH [OF i(3)] by auto
  next
    case (Some p)
    then have "NUL \<notin> set p" using assms(6) by simp
    from prefix_compare [OF h(1) this] show ?thesis using k line Cons.IH [OF i(3)] Some by auto
  qed
qed

lemma item_list_text:
  assumes "items_hold items es" and "length es < length items" and "0 < base" and "base + length items * 128 < 2 ^ 32"
    and "case pre of None \<Rightarrow> True | Some k \<Rightarrow> NUL \<notin> set k"
  shows "item_list net base items (map_option (\<lambda>k. k @ [NUL]) pre) =
    Some (concat (map (\<lambda>(n, e). if (case pre of None \<Rightarrow> True | Some k \<Rightarrow> prefix k (fst e)) then list_line n e else [])
      (enumerate 0 es)))"
proof -
  obtain cells rest where i: "items = cells @ rest" "list_all2 item_holds cells es" "list_all item_free rest"
    using assms(1) by (auto simp: items_hold_def)
  have r: "rest \<noteq> []" using list_all2_lengthD [OF i(2)] assms(2) i(1) by auto
  have "list_all (\<lambda>t. length (item_key t) = ITEM_MAX_LEN \<and> length (item_text t) = ITEM_MAX_LEN) cells"
    using i(2) by (induction rule: list_all2_induct) (auto simp: item_holds_def array_holds_def)
  moreover have "list_all (\<lambda>t. length (item_key t) = ITEM_MAX_LEN \<and> length (item_text t) = ITEM_MAX_LEN) rest"
    using i(3) by (auto simp: list_all_iff item_free_def array_holds_def)
  ultimately have w: "list_all (\<lambda>t. length (item_key t) = ITEM_MAX_LEN \<and> length (item_text t) = ITEM_MAX_LEN) items"
    using i(1) by simp
  show ?thesis
    using item_list_loop_text [OF w assms(3,4) i(3) r assms(5) i(2), of 0 net] i(1) by (simp add: item_list_def)
qed

section \<open>Boundaries of the queries\<close>

text \<open>The loops over the items have no bound but the empty key: in a full array they run over its end.\<close>

lemma item_find_full:
  "list_all2 item_holds items es \<Longrightarrow> (\<And>t. t \<in> set items \<Longrightarrow> f t = Some None) \<Longrightarrow> item_find f none items = None"
proof (induction items es rule: list_all2_induct)
  case (Cons t items e es)
  have "\<exists>k. rd (item_key t) 0 = Some k \<and> k \<noteq> NUL"
    using Cons.hyps(1) array_holds_first [of "item_key t" "fst e"] by (auto simp: item_holds_def)
  then show ?case using Cons by auto
qed simp

lemma full_table_overrun:
  assumes "list_all2 item_holds items es" and "NUL \<notin> set k" and "\<forall>e\<in>set es. \<not> prefix k (fst e)"
  shows "item_exist items (k @ [NUL]) = None"
  unfolding item_exist_def
proof (rule item_find_full [OF assms(1)])
  fix t assume "t \<in> set items"
  then obtain i where "i < length items" "t = items ! i" by (auto simp: in_set_conv_nth)
  then obtain e where "e \<in> set es" "item_holds t e"
    using list_all2_nthD [OF assms(1)] list_all2_lengthD [OF assms(1)] nth_mem [of i es] by metis
  then show "do { n \<leftarrow> strnlen_at (k @ [NUL]) 0 ITEM_MAX_LEN; r \<leftarrow> strncmp_at (item_key t) 0 (k @ [NUL]) 0 n;
      Some (if r = 0 then Some (1::int) else None) } = Some None"
    using prefix_compare [of "item_key t" "fst e" k] assms(2,3) by (auto simp: item_holds_def)
qed

text \<open>
  \<open>__string_sec\<close> steps over the character behind a dot without looking at it.  Behind a final dot that
  character is the NUL, and the search goes on in what an earlier text left there; of two dots in a
  row the second is not counted.
\<close>

lemma string_sec_behind_end:
  "string_sec (''a.'' @ NUL # ''x.y'' @ [NUL]) 2 = Some (Some 5)"
  by (simp add: string_sec_def string_sec_loop.simps)

lemma string_sec_two_dots:
  "string_sec (''a..b'' @ [NUL]) 1 = Some (Some 2)" "string_sec (''a..b'' @ [NUL]) 2 = Some None"
  by (simp_all add: string_sec_def string_sec_loop.simps)

section \<open>Properties\<close>

text \<open>
  C6: Reading a text and asking for section \<open>sec\<close> of a key gives the value of the first line with that
  key whose value has such a section, from the section on to the end of the value; the buffer of the
  caller gets it with its NUL, and is left alone when the answer is \<open>-EFAULT\<close>.
\<close>

theorem item_string_correct:
  assumes "conf_ok ls" and "blanks w" and "length (conf_text ls) < len" and "length (conf_entries ls) < count"
    and "conf_entries ls = map (apsnd dotted) cfg" and "list_all (sections_ok \<circ> snd) cfg"
    and "NUL \<notin> set k" and "ITEM_MAX_LEN \<le> length buf"
  shows "\<exists>items. item_init count (conf_text ls @ w @ ''items.end'' @ tail) len = Some (items, length cfg) \<and>
    item_string items buf (k @ [NUL]) sec =
      Some (case conf_get cfg k sec of None \<Rightarrow> (- EFAULT, buf) | Some v \<Rightarrow> (0, copied_to buf v))"
proof -
  have n: "length (conf_entries ls) = length cfg" using assms(5) by simp
  obtain items where i: "item_init count (conf_text ls @ w @ ''items.end'' @ tail) len = Some (items, length cfg)"
    "length items = count" "items_hold items (conf_entries ls)"
    using item_init_conf [OF assms(1-3) less_imp_le [OF assms(4)]] n by metis
  then have "items_config items cfg" using assms(4-6) n by (simp add: items_config_def)
  from item_string_get [OF this assms(7,8)] i(1) show ?thesis by blast
qed

definition demo_cfg :: config where
  "demo_cfg = [(''board.name'', [''imapx'', ''800'']), (''factory'', []), (''key'', [''pads'', ''-12''])]"

lemma demo_cfg_ok: "conf_entries demo_conf = map (apsnd dotted) demo_cfg" "list_all (sections_ok \<circ> snd) demo_cfg"
  by (simp_all add: demo_conf_text demo_cfg_def sections_ok_def)

theorem item_string_correct_witness:
  "\<exists>items. item_init ITEM_MAX_COUNT (conf_text demo_conf @ ''items.end'') 16384 = Some (items, 3) \<and>
    item_string items (replicate 64 NUL) (''board.name'' @ [NUL]) 1 = Some (0, ''800'' @ NUL # replicate 60 NUL)"
  using item_string_correct [OF demo_conf_ok _ _ demo_cfg_ok, of 16384 ITEM_MAX_COUNT "''board.name''" "replicate 64 NUL" "[]" 1]
  by (auto simp: demo_conf_text demo_cfg_def ITEM_MAX_COUNT_def ITEM_MAX_LEN_def conf_get_def copied_to_def
      numeral_eq_Suc)

text \<open>
  On an array that holds a configuration and has a cell left, \<open>item_exist\<close> tells whether a key starts
  with its argument, \<open>item_equal\<close> whether the value starts with it from the section on, and
  \<open>item_integer\<close> gives the number that stands in the section, of either sign, or \<open>-ITEMS_EINT\<close>.
\<close>

theorem item_queries_correct:
  assumes "items_config items cfg" and "NUL \<notin> set k" and "NUL \<notin> set x" and "length buf = ITEM_MAX_LEN"
    and "c = CHR ''.'' \<or> c = NUL"
  shows "item_exist items (k @ [NUL]) = Some (if \<exists>e\<in>set cfg. prefix k (fst e) then 1 else 0) \<and>
    item_equal items buf (k @ [NUL]) (x @ [NUL]) sec =
      Some (case conf_get cfg k sec of None \<Rightarrow> 0 | Some v \<Rightarrow> if prefix x v then 1 else 0) \<and>
    (conf_get cfg k sec = None \<longrightarrow> item_integer items buf (k @ [NUL]) sec = Some (- ITEMS_EINT)) \<and>
    (\<forall>n rest. conf_get cfg k sec = Some v \<and> v @ [NUL] = decimal n @ c # rest \<and> n < 2 ^ 31 \<longrightarrow>
      item_integer items buf (k @ [NUL]) sec = Some (int n)) \<and>
    (\<forall>n rest. conf_get cfg k sec = Some v \<and> v @ [NUL] = (CHR ''-'' # decimal n) @ c # rest \<and> n \<le> 2 ^ 31 \<longrightarrow>
      item_integer items buf (k @ [NUL]) sec = Some (- int n))"
proof (intro conjI)
  have h: "items_hold items (map (apsnd dotted) cfg)" "length cfg < length items" using assms(1) by (simp_all add: items_config_def)
  then show "item_exist items (k @ [NUL]) = Some (if \<exists>e\<in>set cfg. prefix k (fst e) then 1 else 0)"
    using item_exist_iff [OF h(1) _ assms(2)] by (auto simp: fst_apsnd)
  show "item_equal items buf (k @ [NUL]) (x @ [NUL]) sec =
      Some (case conf_get cfg k sec of None \<Rightarrow> 0 | Some v \<Rightarrow> if prefix x v then 1 else 0)"
    by (rule item_equal_get [OF assms(1-4)])
  show "conf_get cfg k sec = None \<longrightarrow> item_integer items buf (k @ [NUL]) sec = Some (- ITEMS_EINT)"
    using item_string_get [OF assms(1,2), of buf sec] assms(4) by (simp add: item_integer_def EFAULT_def)
  show "\<forall>n rest. conf_get cfg k sec = Some v \<and> v @ [NUL] = decimal n @ c # rest \<and> n < 2 ^ 31 \<longrightarrow>
      item_integer items buf (k @ [NUL]) sec = Some (int n)"
    using item_integer_get(1) [OF assms(1,2,4) _ _ assms(5)] by blast
  show "\<forall>n rest. conf_get cfg k sec = Some v \<and> v @ [NUL] = (CHR ''-'' # decimal n) @ c # rest \<and> n \<le> 2 ^ 31 \<longrightarrow>
      item_integer items buf (k @ [NUL]) sec = Some (- int n)"
    using item_integer_get(2) [OF assms(1,2,4) _ _ assms(5)] by blast
qed

lemma demo_items:
  "\<exists>items. item_init ITEM_MAX_COUNT (conf_text demo_conf @ [] @ ''items.end'' @ []) 16384 = Some (items, 3) \<and>
    items_config items demo_cfg"
proof -
  obtain items where "item_init ITEM_MAX_COUNT (conf_text demo_conf @ [] @ ''items.end'' @ []) 16384 = Some (items, 3)"
    "length items = ITEM_MAX_COUNT" "items_hold items (conf_entries demo_conf)"
    using item_init_conf [OF demo_conf_ok, of 16384 ITEM_MAX_COUNT "[]"] by (auto simp: demo_conf_text ITEM_MAX_COUNT_def)
  then show ?thesis using demo_cfg_ok by (auto simp: items_config_def ITEM_MAX_COUNT_def demo_cfg_def)
qed

theorem item_queries_correct_witness:
  "\<exists>items. item_init ITEM_MAX_COUNT (conf_text demo_conf @ [] @ ''items.end'' @ []) 16384 = Some (items, 3) \<and>
    item_exist items (''board'' @ [NUL]) = Some 1 \<and>
    item_equal items (replicate 64 NUL) (''key'' @ [NUL]) (''pads'' @ [NUL]) 0 = Some 1 \<and>
    item_integer items (replicate 64 NUL) (''key'' @ [NUL]) 1 = Some (- 12)"
proof -
  obtain items where i: "item_init ITEM_MAX_COUNT (conf_text demo_conf @ [] @ ''items.end'' @ []) 16384 = Some (items, 3)"
    "items_config items demo_cfg" using demo_items by blast
  have l: "length (replicate 64 NUL) = ITEM_MAX_LEN" by (simp add: ITEM_MAX_LEN_def)
  have d: "decimal 12 = ''12''" by (simp add: decimal_def digs_small digs_big dchr_def char_of_eq_iff)
  have "item_exist items (''board'' @ [NUL]) = Some 1"
    using item_queries_correct [OF i(2) _ _ l, of "''board''" "[]" NUL 0 "[]"] by (simp add: demo_cfg_def)
  moreover have "item_equal items (replicate 64 NUL) (''key'' @ [NUL]) (''pads'' @ [NUL]) 0 = Some 1"
    using item_queries_correct [OF i(2) _ _ l, of "''key''" "''pads''" NUL 0 "[]"] by (simp add: demo_cfg_def conf_get_def)
  moreover have "item_integer items (replicate 64 NUL) (''key'' @ [NUL]) 1 = Some (- 12)"
  proof -
    have "\<forall>n rest. conf_get demo_cfg ''key'' 1 = Some ''-12'' \<and> ''-12'' @ [NUL] = (CHR ''-'' # decimal n) @ NUL # rest \<and>
        n \<le> 2 ^ 31 \<longrightarrow> item_integer items (replicate 64 NUL) (''key'' @ [NUL]) 1 = Some (- int n)"
      by (rule item_queries_correct [OF i(2) _ _ l, THEN conjunct2, THEN conjunct2, THEN conjunct2, THEN conjunct2,
            of "''key''" "[]" NUL]) simp_all
    from this [rule_format, of 12 "[]"] show ?thesis by (simp add: d demo_cfg_def conf_get_def)
  qed
  ultimately show ?thesis using i(1) by (intro exI [of _ items] conjI)
qed

text \<open>
  \<open>item_list\<close> prints one line for each item whose key starts with the argument, or for all: its
  number in three columns, the key in at least 24 and the value, in the order of the text, and it
  stops at the first cell without a key.
\<close>

theorem item_list_correct:
  assumes "items_hold items es" and "length es < length items" and "0 < base" and "base + length items * 128 < 2 ^ 32"
    and "case pre of None \<Rightarrow> True | Some k \<Rightarrow> NUL \<notin> set k"
  shows "item_list net base items (map_option (\<lambda>k. k @ [NUL]) pre) =
    Some (concat (map (\<lambda>(n, e). if (case pre of None \<Rightarrow> True | Some k \<Rightarrow> prefix k (fst e)) then list_line n e else [])
      (enumerate 0 es)))"
  by (rule item_list_text [OF assms])

theorem item_list_correct_witness:
  "\<exists>items. item_init 4 (conf_text demo_conf @ [] @ ''items.end'' @ []) 16384 = Some (items, 3) \<and>
    item_list False 4096 items (Some (''key'' @ [NUL])) = Some (list_line 2 (''key'', ''pads.-12''))"
proof -
  obtain items where i: "item_init 4 (conf_text demo_conf @ [] @ ''items.end'' @ []) 16384 = Some (items, 3)"
    "length items = 4" "items_hold items (conf_entries demo_conf)"
    using item_init_conf [OF demo_conf_ok, of 16384 4 "[]"] by (auto simp: demo_conf_text)
  have "item_list False 4096 items (map_option (\<lambda>k. k @ [NUL]) (Some ''key'')) =
      Some (concat (map (\<lambda>(n, e). if prefix ''key'' (fst e) then list_line n e else []) (enumerate 0 (conf_entries demo_conf))))"
    using item_list_correct [OF i(3), of 4096 "Some ''key''" False] i(2) by (simp add: demo_conf_text)
  then show ?thesis using i(1) by (simp add: demo_conf_text numeral_2_eq_2)
qed

end
