(* ===== verification/Storage.thy ===== *)
theory Storage
  imports ItemQuery
begin

text \<open>
  Where the images of a board go, \<^verbatim>\<open>infotm/strategy/burn/storage.c\<close>: the system disk, the offset and the
  size of a partition, from the table \<open>default_cfg\<close> and the configuration items.  Offsets and sizes are
  the \<open>loff_t\<close> values as integers: sums of at most 17 \<^verbatim>\<open>int\<close>s, shifted by 20, fit.
\<close>

section \<open>The table\<close>

record part_sz =
  part_name :: string
  part_offs :: int
  part_size :: int

definition default_cfg :: "part_sz list" where
  "default_cfg = map (\<lambda>(n, a, b). \<lparr>part_name = n, part_offs = a, part_size = b\<rparr>)
     [(''uboot0'', 2, 6), (''uboot1'', 8, 8), (''items'', 16, 8), (''logo'', 24, 8), (''ramdisk'', 32, 8),
      (''flags'', 40, 8), (''reserved'', 48, 8), (''kernel0'', 56, 16), (''kernel1'', 72, 16),
      (''recovery-rd'', 88, 24), (''system'', 0, 152), (''misc'', 0, 20), (''cache'', 0, 64),
      (''userdata'', 0, 164), (''local'', 0, 0), (''add1'', 0, 0), (''add2'', 0, 0)]"

definition DEV_NAND :: int where "DEV_NAND = 1"
definition INFO_SPARE_IMAGES :: nat where "INFO_SPARE_IMAGES = 10"
definition INFO_MAX_PARTITIONS :: nat where "INFO_MAX_PARTITIONS = 8"

definition storage_devs :: "string list" where
  "storage_devs = [''bnd'', ''nnd'', ''fnd'', ''eeprom'', ''flash'', ''hdisk'', ''mmc0'', ''mmc1'', ''mmc2'', ''udisk0'',
     ''udisk1'', ''udc'', ''eth'', ''ram'']"

fun storage_device_loop :: "string \<Rightarrow> int \<Rightarrow> string list \<Rightarrow> int option" where
  "storage_device_loop buf i [] = Some DEV_NAND"
| "storage_device_loop buf i (d # ds) = do {
     r \<leftarrow> strncmp_at (d @ [NUL]) 0 buf 0 20;
     if r = 0 then Some i else storage_device_loop buf (i + 1) ds }"

text \<open>\<open>storage_device\<close>, with its uninitialised \<^verbatim>\<open>buf[32]\<close>.\<close>

definition storage_device :: "imap_item list \<Rightarrow> string \<Rightarrow> int option" where
  "storage_device items buf = do {
     (r, buf) \<leftarrow> item_string items buf (''board.disk'' @ [NUL]) 0;
     if r < 0 then Some DEV_NAND else storage_device_loop buf 0 storage_devs }"

text \<open>\<open>item_strtoul\<close>: digits, and a unit of 1024 behind them or for a small number.\<close>

fun strtoul_digits :: "u32 \<Rightarrow> string \<Rightarrow> (u32 \<times> string) option" where
  "strtoul_digits val [] = None"
| "strtoul_digits val (c # cs) =
     (if c = NUL \<or> \<not> is_digit c then Some (val, c # cs)
      else strtoul_digits (val * 10 + (of_char c - of_char (CHR ''0''))) cs)"

definition item_strtoul :: "string \<Rightarrow> u32 option" where
  "item_strtoul info = do {
     (val, p) \<leftarrow> strtoul_digits 0 info;
     c \<leftarrow> peek p;
     Some (if c = CHR ''G'' \<or> c = CHR ''g'' then push_bit 10 val
           else if 0 < sint val \<and> sint val < 10 then push_bit 10 val else val) }"

text \<open>\<open>sprintf(s, "part.%s", name)\<close> into a buffer of \<open>n\<close> bytes.\<close>

definition part_key :: "nat \<Rightarrow> string \<Rightarrow> string option" where
  "part_key n name = do {
     (out, _) \<leftarrow> vsprintf False (\<lambda>a. arr name (a - 4)) (''part.%s'' @ [NUL]) [4];
     if length out < n then Some (out @ [NUL]) else None }"

section \<open>\<open>storage_get_new_config\<close>\<close>

text \<open>
  The state: \<open>default_cfg\<close>, \<open>sectors\<close> and \<open>partnum\<close>.  \<open>info[n-1]\<close> for an item that is missing is a read
  in front of the array.
\<close>

record storage =
  st_cfg :: "part_sz list"
  st_sectors :: "u32 list"
  st_partnum :: nat

definition new_config_step :: "imap_item list \<Rightarrow> nat \<Rightarrow> storage \<Rightarrow> (bool \<times> bool \<times> storage) option" where
  "new_config_step items i st = do {
     let index = i + INFO_SPARE_IMAGES;
     p \<leftarrow> rd (st_cfg st) index;
     part \<leftarrow> part_key 16 (part_name p);
     (r, info) \<leftarrow> item_string items (replicate 32 NUL) part 0;
     n \<leftarrow> strnlen_at info 0 (length info);
     c \<leftarrow> (if n = 0 then None else rd info (n - 1));
     info0 \<leftarrow> rd info 0;
     if c = CHR ''M'' \<or> c = CHR ''m'' \<or> (i < 4 \<and> info0 = NUL) \<or> info0 \<noteq> NUL
     then do {
       let info = (if c = CHR ''M'' \<or> c = CHR ''m'' then info[n - 1 := NUL] else info);
       size \<leftarrow> item_strtoul info;
       let cfg = (if size \<noteq> 0 then (st_cfg st)[index := p\<lparr>part_size := sint size\<rparr>] else st_cfg st);
       p \<leftarrow> rd cfg index;
       sectors \<leftarrow> wr (st_sectors st) (st_partnum st) (of_int (part_size p));
       Some (False, size = 0 \<and> 3 \<le> i \<and> i \<noteq> 4, st\<lparr>st_cfg := cfg, st_sectors := sectors, st_partnum := st_partnum st + 1\<rparr>) }
     else Some (True, True, st) }"

function new_config_loop :: "imap_item list \<Rightarrow> nat \<Rightarrow> storage \<Rightarrow> (bool \<times> storage) option" where
  "new_config_loop items i st =
     (if i < INFO_MAX_PARTITIONS
      then (case new_config_step items i st of
              None \<Rightarrow> None
            | Some (ret, stop, st) \<Rightarrow> if ret \<or> stop then Some (ret, st) else new_config_loop items (i + 1) st)
      else Some (False, st))"
  by auto
termination by (relation "measure (\<lambda>(items, i, st). INFO_MAX_PARTITIONS - i)") auto

declare new_config_loop.simps [simp del]

definition storage_get_new_config :: "imap_item list \<Rightarrow> storage \<Rightarrow> (int \<times> storage) option" where
  "storage_get_new_config items st = do {
     (ret, st) \<leftarrow> new_config_loop items 0 st;
     Some (if ret then 0 else if st_partnum st = INFO_MAX_PARTITIONS then - 1 else 0, st) }"

text \<open>
  \<open>storage_part\<close>, for MMC cards and USB disks; \<open>block_partition\<close>, which writes the partition table, is an
  argument.
\<close>

definition storage_part ::
    "imap_item list \<Rightarrow> string \<Rightarrow> (part_sz list \<Rightarrow> int) \<Rightarrow> storage \<Rightarrow> (int \<times> storage) option" where
  "storage_part items buf32 block_partition st = do {
     dev \<leftarrow> storage_device items buf32;
     if dev = DEV_NAND then Some (0, st)
     else if 6 \<le> dev \<and> dev \<le> 10
     then do {
       (_, st) \<leftarrow> storage_get_new_config items st;
       Some (block_partition (st_cfg st), st) }
     else Some (0, st) }"

section \<open>Offsets and sizes\<close>

text \<open>
  The size of a file system partition in megabytes.  The result for a missing item is \<open>-ITEMS_EINT\<close>,
  and it is compared with \<open>ITEMS_EINT\<close>.
\<close>

definition part_megs :: "imap_item list \<Rightarrow> string \<Rightarrow> string \<Rightarrow> int \<Rightarrow> int option" where
  "part_megs items buf name dflt = do {
     s \<leftarrow> part_key 32 name;
     ret \<leftarrow> item_integer items buf s 0;
     Some (if ret = ITEMS_EINT then dflt else ret) }"

fun nand_offset :: "imap_item list \<Rightarrow> string \<Rightarrow> string \<Rightarrow> part_sz list \<Rightarrow> int \<Rightarrow> int option" where
  "nand_offset items buf p [] parted = Some parted"
| "nand_offset items buf p (x # xs) parted = do {
     r \<leftarrow> strncmp_at (part_name x @ [NUL]) 0 p 0 20;
     if r = 0 then Some (parted * 2 ^ 20)
     else if part_offs x \<noteq> 0 then nand_offset items buf p xs (part_offs x + part_size x)
     else do { m \<leftarrow> part_megs items buf (part_name x) (part_size x); nand_offset items buf p xs (parted + m) } }"

text \<open>The images at the start of a block device; names are compared as whole strings.\<close>

fun spare_offset :: "string \<Rightarrow> part_sz list \<Rightarrow> int" where
  "spare_offset p [] = 0"
| "spare_offset p (x # xs) = (if part_name x = cz p then part_offs x * 2 ^ 20 else spare_offset p xs)"

text \<open>\<open>block_get_base\<close> reads the partition table of the disk: an argument.\<close>

definition storage_offset ::
    "imap_item list \<Rightarrow> string \<Rightarrow> string \<Rightarrow> (string \<Rightarrow> int) \<Rightarrow> part_sz list \<Rightarrow> string option \<Rightarrow> int option" where
  "storage_offset items buf32 buf block_get_base cfg p =
     (case p of None \<Rightarrow> Some 0
      | Some p \<Rightarrow> do {
          dev \<leftarrow> storage_device items buf32;
          if dev = DEV_NAND
          then do {
            r \<leftarrow> strncmp_at p 0 (''uboot0'' @ [NUL]) 0 10;
            if r = 0 then Some 0 else nand_offset items buf p cfg 0 }
          else if 6 \<le> dev \<and> dev \<le> 10
          then (let parted = spare_offset p (take INFO_SPARE_IMAGES cfg) in
                Some (if parted = 0 then block_get_base p else parted))
          else Some 0 })"

fun storage_size_loop :: "imap_item list \<Rightarrow> string \<Rightarrow> string \<Rightarrow> part_sz list \<Rightarrow> int option" where
  "storage_size_loop items buf p [] = Some 0"
| "storage_size_loop items buf p (x # xs) = do {
     r \<leftarrow> strncmp_at (part_name x @ [NUL]) 0 p 0 20;
     if r = 0 then map_option (\<lambda>m. m * 2 ^ 20) (part_megs items buf (cz p) (part_size x))
     else storage_size_loop items buf p xs }"

definition storage_size :: "imap_item list \<Rightarrow> string \<Rightarrow> part_sz list \<Rightarrow> string option \<Rightarrow> int option" where
  "storage_size items buf cfg p = (case p of None \<Rightarrow> Some 0 | Some p \<Rightarrow> storage_size_loop items buf p cfg)"

section \<open>Reading a number from an item\<close>

text \<open>What \<open>item_integer\<close> returns, for any configuration; the contents of its buffer do not matter.\<close>

definition conf_integer :: "config \<Rightarrow> string \<Rightarrow> int \<Rightarrow> int" where
  "conf_integer cfg k sec = (case conf_get cfg k sec of None \<Rightarrow> - ITEMS_EINT | Some v \<Rightarrow> number_of v)"

lemma item_integer_conf:
  assumes "items_config items cfg" and "NUL \<notin> set k" and "length buf = ITEM_MAX_LEN"
  shows "item_integer items buf (k @ [NUL]) sec = Some (conf_integer cfg k sec)"
proof (cases "conf_get cfg k sec")
  case None
  then show ?thesis using item_string_get [OF assms(1,2), of buf sec] assms(3)
    by (simp add: item_integer_def conf_integer_def EFAULT_def)
next
  case (Some v)
  then show ?thesis
    using item_string_get [OF assms(1,2), of buf sec] assms(3) simple_strtol_number [of v "drop (Suc (length v)) buf"]
    by (auto simp: item_integer_def conf_integer_def copied_to_def)
qed

lemma part_key_text:
  assumes "NUL \<notin> set name" and "length name + 5 < n" and "length name < 4000"
  shows "part_key n name = Some (''part.'' @ name @ [NUL])"
proof -
  let ?m = "\<lambda>a. arr name (a - 4)"
  have c: "cstr ?m 4 name" by (rule cstrI) (use assms(1) in \<open>simp_all add: arr_def\<close>)
  have "vsprintf_loop False [4] ?m 0 [] (concat (map piece_syntax [Text ''part.'', Conv [] None None CHR ''s'']) @ [NUL]) =
      Some ([] @ format_text [Text ''part.'', Conv [] None None CHR ''s''] [Str name], ?m)"
    by (rule vsprintf_loop_pieces) (use c assms(3) in \<open>simp_all add: opt_int_def\<close>)
  moreover have "flags_of [] = no_flags" by (simp add: flags_of_def no_flags_def)
  ultimately have "vsprintf False ?m (''part.%s'' @ [NUL]) [4] = Some (''part.'' @ name, ?m)"
    by (simp add: vsprintf_def fill_text_def string_text_def opt_int_def)
  then show ?thesis using assms(2) by (simp add: part_key_def)
qed

section \<open>The system disk\<close>

lemma name_compare:
  assumes "NUL \<notin> set d" and "length d < n" and "NUL \<notin> set v"
  shows "\<exists>r. strncmp_at (d @ [NUL]) 0 (v @ NUL # u) 0 n = Some r \<and> (r = 0 \<longleftrightarrow> d = v)"
proof -
  have "cz (d @ [NUL]) = d" "cz (v @ NUL # u) = v" using cz_append assms by blast+
  moreover have "take n d = d" using assms(2) by simp
  moreover have "take n v = d \<longleftrightarrow> v = d" using assms(2) by auto
  ultimately show ?thesis using strncmp_at_cz [of 0 "d @ [NUL]" 0 "v @ NUL # u" n] by auto
qed

fun index_from :: "'a \<Rightarrow> int \<Rightarrow> 'a list \<Rightarrow> int" where
  "index_from x i [] = DEV_NAND"
| "index_from x i (y # ys) = (if y = x then i else index_from x (i + 1) ys)"

lemma storage_device_loop_index:
  "list_all (\<lambda>d. NUL \<notin> set d \<and> length d < 20) ds \<Longrightarrow> NUL \<notin> set v \<Longrightarrow>
    storage_device_loop (v @ NUL # u) i ds = Some (index_from v i ds)"
proof (induction ds arbitrary: i)
  case (Cons d ds)
  then show ?case using name_compare [of d 20 v u] by auto
qed simp

lemma storage_device_conf:
  assumes "items_config items cfg" and "length buf = 32"
    and "\<And>fs. (''board.disk'', fs) \<in> set cfg \<Longrightarrow> length (dotted fs) < 32"
  shows "storage_device items buf = Some (case conf_get cfg ''board.disk'' 0 of None \<Rightarrow> DEV_NAND
    | Some v \<Rightarrow> index_from v 0 storage_devs)"
proof -
  have s: "item_string items buf (''board.disk'' @ [NUL]) 0 =
      Some (case conf_get cfg ''board.disk'' 0 of None \<Rightarrow> (- EFAULT, buf) | Some v \<Rightarrow> (0, copied_to buf v))"
    by (rule item_string_get_fits [OF assms(1)]) (use assms in auto)
  have d: "list_all (\<lambda>d. NUL \<notin> set d \<and> length d < 20) storage_devs" by (simp add: storage_devs_def)
  show ?thesis
  proof (cases "conf_get cfg ''board.disk'' 0")
    case None
    then show ?thesis using s by (simp add: storage_device_def EFAULT_def)
  next
    case (Some v)
    then have "NUL \<notin> set v" using conf_get_value [OF assms(1)] by blast
    then show ?thesis using s Some storage_device_loop_index [OF d, of v "drop (Suc (length v)) buf" 0]
      by (simp add: storage_device_def copied_to_def)
  qed
qed

text \<open>A string without its NUL does not fit.\<close>

lemma strncpy_at_full:
  "drop s src = v @ NUL # r \<Longrightarrow> NUL \<notin> set v \<Longrightarrow> length v < n \<Longrightarrow> d + length v = length dest \<Longrightarrow>
    strncpy_at dest d src s n = None"
proof (induction v arbitrary: dest d s n)
  case Nil
  then obtain m where "n = Suc m" by (cases n) auto
  then show ?case using Nil rd_drop [of s src NUL r] by (simp add: wr_def)
next
  case (Cons e v)
  then obtain m where n: "n = Suc m" by (cases n) auto
  have e: "rd src s = Some e" "drop (Suc s) src = v @ NUL # r" using rd_drop [of s src e "v @ NUL # r"] Cons.prems(1) by simp_all
  have "strncpy_at (dest[d := e]) (Suc d) src (Suc s) m = None" using Cons.prems n by (intro Cons.IH [OF e(2)]) auto
  then show ?case using e n Cons.prems by auto
qed

text \<open>A name of 32 characters or more for the disk overruns the buffer.\<close>

lemma strncpy_at_short:
  "drop s src = v @ r \<Longrightarrow> NUL \<notin> set v \<Longrightarrow> length v \<le> n \<Longrightarrow> d \<le> length dest \<Longrightarrow> length dest < d + length v \<Longrightarrow>
    strncpy_at dest d src s n = None"
proof (induction v arbitrary: dest d s n)
  case (Cons e v)
  then obtain m where n: "n = Suc m" by (cases n) auto
  have e: "rd src s = Some e" "drop (Suc s) src = v @ r" using rd_drop [of s src e "v @ r"] Cons.prems(1) by simp_all
  show ?case
  proof (cases "d < length dest")
    case True
    then have "strncpy_at (dest[d := e]) (Suc d) src (Suc s) m = None" using Cons.prems n by (intro Cons.IH [OF e(2)]) auto
    then show ?thesis using e n Cons.prems True by auto
  next
    case False
    then show ?thesis using e n by (simp add: wr_def)
  qed
qed simp

section \<open>Sizes and offsets of partitions\<close>

definition part_name_ok :: "part_sz \<Rightarrow> bool" where
  "part_name_ok x \<longleftrightarrow> NUL \<notin> set (part_name x) \<and> length (part_name x) < 12"

text \<open>The size in megabytes, as the code computes it from the configuration.\<close>

definition conf_megs :: "config \<Rightarrow> part_sz \<Rightarrow> int" where
  "conf_megs cfg x = (let m = conf_integer cfg (''part.'' @ part_name x) 0 in if m = ITEMS_EINT then part_size x else m)"

lemma part_megs_conf:
  assumes "items_config items cfg" and "length buf = ITEM_MAX_LEN" and "part_name_ok x"
  shows "part_megs items buf (part_name x) (part_size x) = Some (conf_megs cfg x)"
proof -
  have "part_key 32 (part_name x) = Some ((''part.'' @ part_name x) @ [NUL])"
    using part_key_text [of "part_name x" 32] assms(3) by (simp add: part_name_ok_def)
  moreover have "NUL \<notin> set (''part.'' @ part_name x)" using assms(3) by (simp add: part_name_ok_def)
  ultimately show ?thesis using item_integer_conf [OF assms(1) _ assms(2), of "''part.'' @ part_name x" 0]
    by (simp add: part_megs_def conf_megs_def Let_def)
qed

lemma part_compare:
  assumes "part_name_ok x" and "NUL \<notin> set p"
  shows "\<exists>r. strncmp_at (part_name x @ [NUL]) 0 (p @ [NUL]) 0 20 = Some r \<and> (r = 0 \<longleftrightarrow> part_name x = p)"
  using name_compare [of "part_name x" 20 p "[]"] assms by (auto simp: part_name_ok_def)

lemma storage_size_conf:
  assumes "items_config items cfg" and "length buf = ITEM_MAX_LEN" and "NUL \<notin> set p"
  shows "list_all part_name_ok tbl \<Longrightarrow> storage_size_loop items buf (p @ [NUL]) tbl =
    Some (case find (\<lambda>x. part_name x = p) tbl of None \<Rightarrow> 0 | Some x \<Rightarrow> conf_megs cfg x * 2 ^ 20)"
proof (induction tbl)
  case (Cons x xs)
  then have x: "part_name_ok x" by simp
  obtain r where r: "strncmp_at (part_name x @ [NUL]) 0 (p @ [NUL]) 0 20 = Some r" "r = 0 \<longleftrightarrow> part_name x = p"
    using part_compare [OF x assms(3)] by blast
  have "cz (p @ [NUL]) = p" using cz_append [OF assms(3), of "[]"] by simp
  then show ?case using r Cons part_megs_conf [OF assms(1,2) x] by (cases "part_name x = p") auto
qed simp

text \<open>The offset reached behind a part of the table.\<close>

fun parted_after :: "config \<Rightarrow> part_sz list \<Rightarrow> int \<Rightarrow> int" where
  "parted_after cfg [] parted = parted"
| "parted_after cfg (x # xs) parted =
     parted_after cfg xs (if part_offs x \<noteq> 0 then part_offs x + part_size x else parted + conf_megs cfg x)"

lemma nand_offset_conf:
  assumes "items_config items cfg" and "length buf = ITEM_MAX_LEN" and "NUL \<notin> set p"
  shows "list_all part_name_ok (pre @ x # post) \<Longrightarrow> p \<notin> part_name ` set pre \<Longrightarrow> part_name x = p \<Longrightarrow>
    nand_offset items buf (p @ [NUL]) (pre @ x # post) parted = Some (parted_after cfg pre parted * 2 ^ 20)"
proof (induction pre arbitrary: parted)
  case Nil
  then show ?case using part_compare [of x p] assms(3) by auto
next
  case (Cons y pre)
  then have y: "part_name_ok y" "part_name y \<noteq> p" by auto
  obtain r where r: "strncmp_at (part_name y @ [NUL]) 0 (p @ [NUL]) 0 20 = Some r" "r \<noteq> 0"
    using part_compare [OF y(1) assms(3)] y(2) by blast
  then show ?case using Cons part_megs_conf [OF assms(1,2) y(1)] by auto
qed

lemma storage_offset_nand:
  assumes "items_config items cfg" and "length buf = ITEM_MAX_LEN" and "storage_device items buf32 = Some DEV_NAND"
    and "list_all part_name_ok (pre @ x # post)" and "part_name x \<notin> part_name ` set pre" and "part_name x \<noteq> ''uboot0''"
  shows "storage_offset items buf32 buf base (pre @ x # post) (Some (part_name x @ [NUL])) =
    Some (parted_after cfg pre 0 * 2 ^ 20)"
proof -
  have x: "NUL \<notin> set (part_name x)" "length (part_name x) < 12" using assms(4) by (simp_all add: part_name_ok_def)
  have "NUL \<in> set (drop 0 (part_name x @ [NUL]))" "NUL \<in> set (drop 0 (''uboot0'' @ [NUL]))" by simp_all
  from strncmp_at_cz [OF this, of 10]
  obtain r where r: "strncmp_at (part_name x @ [NUL]) 0 (''uboot0'' @ [NUL]) 0 10 = Some r"
    "r = 0 \<longleftrightarrow> take 10 (part_name x) = ''uboot0''"
    using cz_append [OF x(1), of "[]"] by auto
  have "take 10 (part_name x) \<noteq> ''uboot0''"
  proof
    assume t: "take 10 (part_name x) = ''uboot0''"
    then have "length (take 10 (part_name x)) = 6" by simp
    then have "length (part_name x) = 6" by simp
    then show False using t assms(6) by simp
  qed
  then show ?thesis
    using r assms(3) nand_offset_conf [OF assms(1,2) x(1) assms(4,5), of 0]
    by (simp add: storage_offset_def del: strncmp_at.simps append.simps)
qed

section \<open>Boundaries\<close>

lemma item_find_first_fails:
  assumes "items_hold items (e # es)" and "\<And>t. item_holds t e \<Longrightarrow> f t = None"
  shows "item_find f none items = None"
proof -
  obtain t cells rest where i: "items = t # cells @ rest" "item_holds t e"
    using assms(1) by (auto simp: items_hold_def list_all2_Cons2)
  then have "\<exists>k. rd (item_key t) 0 = Some k \<and> k \<noteq> NUL"
    using array_holds_first [of "item_key t" "fst e"] by (auto simp: item_holds_def)
  then show ?thesis using assms(2) [OF i(2)] i(1) by auto
qed

lemma storage_device_overrun:
  assumes "items_hold items ((''board.disk'', v) # es)" and "32 \<le> length v" and "CHR ''.'' \<noteq> hd v" and "length buf = 32"
  shows "storage_device items buf = None"
proof -
  have "item_string items buf (''board.disk'' @ [NUL]) 0 = None"
    unfolding item_string_def
  proof (rule item_find_first_fails [OF assms(1)])
    fix t assume t: "item_holds t (''board.disk'', v)"
    then have h: "array_holds (item_key t) ''board.disk''" "array_holds (item_text t) v" by (simp_all add: item_holds_def)
    obtain r where r: "strncmp_at (item_key t) 0 (''board.disk'' @ [NUL]) 0 ITEM_MAX_LEN = Some r" "r = 0"
      using key_compare [OF h(1), of "''board.disk''"] by auto
    obtain u where u: "item_text t = v @ NUL # u" "NUL \<notin> set v" using h(2) by (auto simp: array_holds_def)
    obtain c v' where c: "v = c # v'" using assms(2) by (cases v) auto
    have sec: "string_sec (item_text t) 0 = Some (Some 0)"
      unfolding string_sec_def by (subst string_sec_loop.simps) (use u c assms(3) in auto)
    have lv: "length v < ITEM_MAX_LEN" using holds_cz [OF h(2)] by blast
    have cp: "strncpy_at buf 0 (item_text t) 0 ITEM_MAX_LEN = None"
    proof (cases "length v = 32")
      case True
      show ?thesis
        by (rule strncpy_at_full [of 0 _ v u]) (use u assms True lv in simp_all)
    next
      case False
      then show ?thesis
        by (intro strncpy_at_short [of 0 _ v "NUL # u"]) (use u assms lv in simp_all)
    qed
    show "do {
       r \<leftarrow> strncmp_at (item_key t) 0 (''board.disk'' @ [NUL]) 0 ITEM_MAX_LEN;
       if r = 0
       then do {
         s \<leftarrow> string_sec (item_text t) 0;
         case s of None \<Rightarrow> Some None
         | Some s \<Rightarrow> do { buf \<leftarrow> strncpy_at buf 0 (item_text t) s ITEM_MAX_LEN; Some (Some (0, buf)) } }
       else Some None } = None"
      unfolding r(1) using r(2) sec cp by (simp del: strncmp_at.simps append.simps)
  qed
  then show ?thesis by (simp add: storage_device_def)
qed

text \<open>
  Without an item the size is not that of the table but \<open>-9999\<close> megabytes: the negative result of
  \<open>item_integer\<close> is compared with the positive constant.  A size of 9999 is taken for a missing one.
\<close>

lemma storage_size_missing:
  "conf_get cfg (''part.'' @ part_name x) 0 = None \<Longrightarrow> conf_megs cfg x = - 9999"
  by (simp add: conf_megs_def conf_integer_def ITEMS_EINT_def)

lemma storage_size_9999:
  "conf_integer cfg (''part.'' @ part_name x) 0 = 9999 \<Longrightarrow> conf_megs cfg x = part_size x"
  by (simp add: conf_megs_def ITEMS_EINT_def)

text \<open>The disk that \<open>vs_list\<close> calls \<open>hd\<close> is known as \<open>hdisk\<close> here; an unknown name is the NAND.\<close>

lemma disk_name_hd: "index_from ''hd'' 0 storage_devs = DEV_NAND" "index_from ''hdisk'' 0 storage_devs = 5"
  by (simp_all add: storage_devs_def)

text \<open>
  \<open>storage_get_new_config\<close> looks at \<open>info[n-1]\<close> when the item is missing and \<open>n\<close> is 0, and its eighth
  round leaves the table, which has seven partitions behind the ten images.
\<close>

lemma new_config_missing:
  assumes "items_config items cfg" and "rd (st_cfg st) (i + INFO_SPARE_IMAGES) = Some x" and "part_name_ok x"
    and "conf_get cfg (''part.'' @ part_name x) 0 = None" and "length (part_name x) + 5 < 16"
    and "\<And>fs. (''part.'' @ part_name x, fs) \<in> set cfg \<Longrightarrow> length (dotted fs) < 32"
  shows "new_config_step items i st = None"
proof -
  have n: "NUL \<notin> set (''part.'' @ part_name x)" using assms(3) by (simp add: part_name_ok_def)
  have k: "part_key 16 (part_name x) = Some ((''part.'' @ part_name x) @ [NUL])"
    using part_key_text [of "part_name x" 16] assms(3,5) by (simp add: part_name_ok_def)
  have "item_string items (replicate 32 NUL) ((''part.'' @ part_name x) @ [NUL]) 0 = Some (- EFAULT, replicate 32 NUL)"
    using item_string_get_fits [OF assms(1) n, of "replicate 32 NUL" 0] assms(4,6) by simp
  moreover have "strnlen_at (replicate 32 NUL) 0 32 = Some 0" by (simp add: numeral_eq_Suc)
  ultimately show ?thesis using assms(2) k by (simp add: new_config_step_def)
qed

lemma new_config_overrun: "length (st_cfg st) = 17 \<Longrightarrow> new_config_step items 7 st = None"
  by (simp add: new_config_step_def INFO_SPARE_IMAGES_def rd_def)

section \<open>Properties\<close>

text \<open>
  From the text of the configuration to the number of the system disk: \<open>storage_device\<close> gives the
  position of the first line's \<open>board.disk\<close> in its list of names, and the NAND for a name that is not in
  the list or when there is none, provided the name is shorter than its buffer.
\<close>

theorem storage_device_correct:
  assumes "conf_ok ls" and "blanks w" and "length (conf_text ls) < len" and "length (conf_entries ls) < count"
    and "conf_entries ls = map (apsnd dotted) cfg" and "list_all (sections_ok \<circ> snd) cfg"
    and "length buf = 32" and "\<forall>fs. (''board.disk'', fs) \<in> set cfg \<longrightarrow> length (dotted fs) < 32"
  shows "\<exists>items. item_init count (conf_text ls @ w @ ''items.end'' @ tail) len = Some (items, length cfg) \<and>
    storage_device items buf = Some (case conf_get cfg ''board.disk'' 0 of None \<Rightarrow> DEV_NAND
      | Some v \<Rightarrow> index_from v 0 storage_devs)"
proof -
  have n: "length (conf_entries ls) = length cfg" using assms(5) by simp
  obtain items where i: "item_init count (conf_text ls @ w @ ''items.end'' @ tail) len = Some (items, length cfg)"
    "length items = count" "items_hold items (conf_entries ls)"
    using item_init_conf [OF assms(1-3) less_imp_le [OF assms(4)]] n by metis
  then have "items_config items cfg" using assms(4-6) n by (simp add: items_config_def)
  then show ?thesis using i(1) storage_device_conf assms(7,8) by blast
qed

definition demo_disk :: "(conf_line \<times> string) list" where
  "demo_disk = [(Entry [] ''board.disk'' '' '' ''mmc1'' [], [CHR 10]), (Entry [] ''part.system'' '' '' ''512'' [], [CHR 10]),
     (Entry [] ''part.misc'' '' '' ''20'' [], [CHR 10])]"

definition demo_disk_cfg :: config where
  "demo_disk_cfg = [(''board.disk'', [''mmc1'']), (''part.system'', [''512'']), (''part.misc'', [''20''])]"

lemma demo_disk_ok: "conf_ok demo_disk" "blanks []" "conf_entries demo_disk = map (apsnd dotted) demo_disk_cfg"
    "list_all (sections_ok \<circ> snd) demo_disk_cfg" "length (conf_text demo_disk) = 45"
  by (simp_all add: demo_disk_def demo_disk_cfg_def conf_ok_def blanks_def in_line_def line_end_def conf_key_def conf_word_def
      is_white_def is_linef_def LINEF0_def LINEF1_def PARSE_LIMIT_def ITEM_MAX_LEN_def conf_entries_def conf_text_def sections_ok_def)

theorem storage_device_correct_witness:
  "\<exists>items. item_init 4 (conf_text demo_disk @ [] @ ''items.end'' @ []) 16384 = Some (items, 3) \<and>
    storage_device items (replicate 32 NUL) = Some 7"
  using storage_device_correct [OF demo_disk_ok(1,2) _ _ demo_disk_ok(3,4), of 16384 4 "replicate 32 NUL" "[]"]
  by (simp add: demo_disk_ok(5) demo_disk_ok(3) [THEN arg_cong, of length] demo_disk_cfg_def conf_get_def storage_devs_def
      numeral_3_eq_3)

text \<open>
  C18: The offsets of the partitions of a NAND, for any table with distinct names and two entries of it that
  follow each other, neither of them \<open>uboot0\<close>, which has a place of its own.  The size of an entry is the one
  the configuration gives it (\<open>9999\<close> stands for the size of the table, and so many megabytes below zero are the
  size of an entry that the configuration does not name).  Behind an entry without an offset of its own the next
  one begins where it ends, at its offset plus its \<open>storage_size\<close>.  Behind an entry with an offset of its own, as the raw images at the start of
  the table have, the next one begins at the end that the table gives, whatever the configuration says.
\<close>

theorem storage_layout:
  assumes "items_config items cfg" and "length buf = ITEM_MAX_LEN" and "storage_device items buf32 = Some DEV_NAND"
    and "tbl = pre @ a # b # post" and "list_all part_name_ok tbl" and "distinct (map part_name tbl)"
    and "part_name a \<noteq> ''uboot0''" and "part_name b \<noteq> ''uboot0''"
  shows "\<exists>x m. storage_offset items buf32 buf base tbl (Some (part_name a @ [NUL])) = Some x \<and>
    storage_size items buf tbl (Some (part_name a @ [NUL])) = Some (m * 2 ^ 20) \<and>
    m = (case conf_get cfg (''part.'' @ part_name a) 0 of None \<Rightarrow> - 9999
      | Some v \<Rightarrow> if number_of v = 9999 then part_size a else number_of v) \<and>
    storage_offset items buf32 buf base tbl (Some (part_name b @ [NUL])) =
      Some (if part_offs a \<noteq> 0 then (part_offs a + part_size a) * 2 ^ 20 else x + m * 2 ^ 20)"
proof -
  have d: "part_name a \<notin> part_name ` set pre" "part_name b \<notin> part_name ` set (pre @ [a])" using assms(4,6) by auto
  have ok: "list_all part_name_ok (pre @ a # b # post)" "list_all part_name_ok ((pre @ [a]) @ b # post)" "part_name_ok a"
    using assms(4,5) by simp_all
  have x: "storage_offset items buf32 buf base tbl (Some (part_name a @ [NUL])) = Some (parted_after cfg pre 0 * 2 ^ 20)"
    unfolding assms(4) by (rule storage_offset_nand [OF assms(1-3) ok(1) d(1) assms(7)])
  have pa: "parted_after cfg (pre @ [a]) n = (if part_offs a \<noteq> 0 then part_offs a + part_size a
      else parted_after cfg pre n + conf_megs cfg a)" for n
    by (induction pre arbitrary: n) auto
  have y: "storage_offset items buf32 buf base tbl (Some (part_name b @ [NUL])) = Some (parted_after cfg (pre @ [a]) 0 * 2 ^ 20)"
    unfolding assms(4) using storage_offset_nand [OF assms(1-3) ok(2) d(2) assms(8), of base] by simp
  have "find (\<lambda>x. part_name x = part_name a) tbl = Some a"
    using d(1) unfolding assms(4) by (induction pre) auto
  then have "storage_size items buf tbl (Some (part_name a @ [NUL])) = Some (conf_megs cfg a * 2 ^ 20)"
    using storage_size_conf [OF assms(1,2) _ assms(5), of "part_name a"] ok(3)
    by (simp add: storage_size_def part_name_ok_def)
  moreover have "conf_megs cfg a = (case conf_get cfg (''part.'' @ part_name a) 0 of None \<Rightarrow> - 9999
      | Some v \<Rightarrow> if number_of v = 9999 then part_size a else number_of v)"
    by (auto simp: conf_megs_def conf_integer_def ITEMS_EINT_def Let_def split: option.split)
  ultimately show ?thesis using x y by (intro exI [of _ "parted_after cfg pre 0 * 2 ^ 20"] exI [of _ "conf_megs cfg a"]) (simp add: pa algebra_simps)
qed

lemma default_cfg_ok: "list_all part_name_ok default_cfg" "distinct (map part_name default_cfg)"
  by (simp_all add: default_cfg_def part_name_ok_def)

definition demo_nand :: "(conf_line \<times> string) list" where
  "demo_nand = [(Entry [] ''part.system'' '' '' ''512'' [], [CHR 10])]"

lemma demo_nand_items: "\<exists>items. items_config items [(''part.system'', [''512''])]"
proof -
  have ok: "conf_ok demo_nand" "blanks []" "length (conf_text demo_nand) < 16384"
      "conf_entries demo_nand = map (apsnd dotted) [(''part.system'', [''512''])]" "list_all (sections_ok \<circ> snd) [(''part.system'', [''512''])]"
    by (simp_all add: demo_nand_def conf_ok_def blanks_def in_line_def line_end_def conf_key_def conf_word_def
      is_white_def is_linef_def LINEF0_def LINEF1_def PARSE_LIMIT_def ITEM_MAX_LEN_def conf_entries_def conf_text_def sections_ok_def)
  then obtain items where "length items = 4" "items_hold items (conf_entries demo_nand)"
    using item_init_conf [OF ok(1-3), of 4 "[]"] by auto
  then show ?thesis using ok(4,5) by (auto simp: items_config_def)
qed

theorem storage_layout_witness:
  "\<exists>items x. storage_offset items (replicate 32 NUL) (replicate 64 NUL) (\<lambda>_. 0) default_cfg (Some (''system'' @ [NUL])) = Some x \<and>
    storage_size items (replicate 64 NUL) default_cfg (Some (''system'' @ [NUL])) = Some (512 * 2 ^ 20) \<and>
    storage_offset items (replicate 32 NUL) (replicate 64 NUL) (\<lambda>_. 0) default_cfg (Some (''misc'' @ [NUL])) = Some (x + 512 * 2 ^ 20)"
proof -
  obtain items where i: "items_config items [(''part.system'', [''512''])]" using demo_nand_items by blast
  have l: "length (replicate 64 NUL) = ITEM_MAX_LEN" by (simp add: ITEM_MAX_LEN_def)
  have d: "storage_device items (replicate 32 NUL) = Some DEV_NAND"
    using storage_device_conf [OF i, of "replicate 32 NUL"] by (simp add: conf_get_def)
  let ?a = "\<lparr>part_name = ''system'', part_offs = 0, part_size = 152\<rparr>" and ?b = "\<lparr>part_name = ''misc'', part_offs = 0, part_size = 20\<rparr>"
  have t: "default_cfg = take 10 default_cfg @ ?a # ?b # drop 12 default_cfg" by (simp add: default_cfg_def)
  have v: "conf_get [(''part.system'', [''512''])] ''part.system'' 0 = Some ''512''" by (simp add: conf_get_def)
  have n: "number_of ''512'' = 512" by code_simp
  show ?thesis
    using storage_layout [OF i l d t default_cfg_ok, of "\<lambda>_. 0"] v n by auto
qed

end
