(* ===== verification/VStorage.thy ===== *)
theory VStorage
  imports Items
begin

text \<open>
  The virtual storage layer, \<^verbatim>\<open>infotm/strategy/vstorage/vstorage.c\<close>: a table of devices, the device in
  use, and reads of ranges that need not be whole blocks, over drivers that read whole blocks.  The drivers of the hardware
  are arguments; that of the RAM disk (\<^verbatim>\<open>infotm/drivers/ramdisk/ramdisk.c\<close>) is modelled.  \<open>loff_t\<close> is a
  64-bit word, \<^verbatim>\<open>int\<close> and \<open>uint32_t\<close> are 32-bit words, signed where the code compares with 0.
\<close>

section \<open>Devices\<close>

type_synonym loff = "64 word"

text \<open>The world: the DRAM, and what the drivers of the hardware work on.\<close>

record 'h world =
  dram :: mem
  hw :: 'h

text \<open>
  A read gives the value returned, the bytes it has stored at its buffer and the world; a write gets
  the bytes from its buffer on.  A fault is \<open>None\<close>, and so is a missing member of the struct.
\<close>

type_synonym 'w read_fn = "'w \<Rightarrow> loff \<Rightarrow> u32 \<Rightarrow> u32 \<Rightarrow> (u32 \<times> string \<times> 'w) option"
type_synonym 'w write_fn = "'w \<Rightarrow> string \<Rightarrow> loff \<Rightarrow> u32 \<Rightarrow> u32 \<Rightarrow> (u32 \<times> 'w) option"

record 'w vstorage =
  vs_name :: string
  vs_flag :: u32
  vs_op_align :: "('w \<Rightarrow> u32) option"
  vs_op_read :: "'w read_fn option"
  vs_op_write :: "'w write_fn option"
  vs_op_reset :: "('w \<Rightarrow> u32 \<times> 'w) option"
  vs_op_erase :: "('w \<Rightarrow> loff \<Rightarrow> u32 \<Rightarrow> u32 \<times> 'w) option"
  vs_op_scrub :: "('w \<Rightarrow> loff \<Rightarrow> u32 \<Rightarrow> u32 \<times> 'w) option"
  vs_op_isbad :: "('w \<Rightarrow> loff \<Rightarrow> u32 \<times> 'w) option"
  vs_op_special :: "('w \<Rightarrow> u32 \<times> 'w) option"
  vs_op_capacity :: "('w \<Rightarrow> loff) option"

text \<open>The functions of a driver.\<close>

record 'w driver =
  d_align :: "'w \<Rightarrow> u32"
  d_read :: "'w read_fn"
  d_write :: "'w write_fn"
  d_reset :: "'w \<Rightarrow> u32 \<times> 'w"
  d_erase :: "'w \<Rightarrow> loff \<Rightarrow> u32 \<Rightarrow> u32 \<times> 'w"
  d_scrub :: "'w \<Rightarrow> loff \<Rightarrow> u32 \<Rightarrow> u32 \<times> 'w"
  d_isbad :: "'w \<Rightarrow> loff \<Rightarrow> u32 \<times> 'w"
  d_capacity :: "'w \<Rightarrow> loff"

definition DEVICE_BOOTABLE :: u32 where "DEVICE_BOOTABLE = 1"
definition DEVICE_BURNSRC :: u32 where "DEVICE_BURNSRC = 2"
definition DEVICE_BURNDST :: u32 where "DEVICE_BURNDST = 4"
definition DEVICE_BOOT0 :: u32 where "DEVICE_BOOT0 = 8"
definition DEVICE_ERASABLE :: u32 where "DEVICE_ERASABLE = 16"
definition DEVICE_ID :: "u32 \<Rightarrow> u32" where "DEVICE_ID x = push_bit 24 (x AND 0xff)"

definition DEV_CURRENT :: int where "DEV_CURRENT = 14"
definition DEV_NONE :: int where "DEV_NONE = 15"

section \<open>The RAM disk\<close>

definition IUS_DEFAULT_LOCATION :: u32 where "IUS_DEFAULT_LOCATION = 0x1000000"
definition DRAM_BASE_PA :: u32 where "DRAM_BASE_PA = 0x80000000"

definition ram_addr :: "loff \<Rightarrow> u32" where
  "ram_addr offs = ucast (offs AND 0xffffffff) + DRAM_BASE_PA - IUS_DEFAULT_LOCATION"

text \<open>\<open>memcpy\<close> takes a negative length for a large one: an access outside the 32-bit address space.\<close>

definition ram_vs_read :: "('h world) read_fn" where
  "ram_vs_read w offs len extra =
     (if sint offs < uint IUS_DEFAULT_LOCATION then Some (0, [], w)
      else if 2 ^ 32 < unat (ram_addr offs) + unat len then None
      else Some (len, map (\<lambda>i. dram w (unat (ram_addr offs) + i)) [0..<unat len], w))"

definition ram_vs_write :: "('h world) write_fn" where
  "ram_vs_write w buf offs len extra =
     (if sint offs < uint IUS_DEFAULT_LOCATION then Some (0, w)
      else if 2 ^ 32 < unat (ram_addr offs) + unat len \<or> length buf < unat len then None
      else Some (len, w\<lparr>dram := (\<lambda>a. if unat (ram_addr offs) \<le> a \<and> a < unat (ram_addr offs) + unat len
                               then buf ! (a - unat (ram_addr offs)) else dram w a)\<rparr>))"

definition ram_vs_align :: "'h world \<Rightarrow> u32" where "ram_vs_align w = 0x200"
definition ram_vs_reset :: "'h world \<Rightarrow> u32 \<times> 'h world" where "ram_vs_reset w = (0, w)"

section \<open>The table\<close>

definition vs_none :: "string \<Rightarrow> u32 \<Rightarrow> 'w vstorage" where
  "vs_none n fl = \<lparr>vs_name = n, vs_flag = fl, vs_op_align = None, vs_op_read = None, vs_op_write = None, vs_op_reset = None,
     vs_op_erase = None, vs_op_scrub = None, vs_op_isbad = None, vs_op_special = None, vs_op_capacity = None\<rparr>"

definition vs_plain :: "string \<Rightarrow> u32 \<Rightarrow> 'w driver \<Rightarrow> 'w vstorage" where
  "vs_plain n fl d = (vs_none n fl)\<lparr>vs_op_align := Some (d_align d), vs_op_read := Some (d_read d),
     vs_op_write := Some (d_write d), vs_op_reset := Some (d_reset d)\<rparr>"

text \<open>\<open>vs_list\<close>, without \<open>CONFIG_ENABLE_UDISK\<close>.\<close>

definition vs_list :: "(string \<Rightarrow> ('h world) driver) \<Rightarrow> ('h world) vstorage list" where
  "vs_list drv =
    [(vs_plain ''bnd'' (DEVICE_BOOTABLE OR DEVICE_BURNDST OR DEVICE_BOOT0 OR DEVICE_ID 0 OR DEVICE_ERASABLE) (drv ''bnd''))
       \<lparr>vs_op_erase := Some (d_erase (drv ''bnd'')), vs_op_isbad := Some (d_isbad (drv ''bnd''))\<rparr>,
     (vs_plain ''nnd'' (DEVICE_BURNDST OR DEVICE_ID 1 OR DEVICE_ERASABLE) (drv ''nnd''))
       \<lparr>vs_op_erase := Some (d_erase (drv ''nnd'')), vs_op_scrub := Some (d_scrub (drv ''nnd'')), vs_op_isbad := Some (d_isbad (drv ''nnd''))\<rparr>,
     (vs_plain ''fnd'' (DEVICE_BURNDST OR DEVICE_ID 1 OR DEVICE_ERASABLE) (drv ''fnd''))
       \<lparr>vs_op_erase := Some (d_erase (drv ''fnd'')), vs_op_isbad := Some (d_isbad (drv ''fnd''))\<rparr>,
     vs_plain ''eeprom'' (DEVICE_BOOTABLE OR DEVICE_BURNDST OR DEVICE_BOOT0 OR DEVICE_ID 3) (drv ''eeprom''),
     (vs_plain ''flash'' (DEVICE_BOOTABLE OR DEVICE_BURNDST OR DEVICE_BOOT0 OR DEVICE_ID 4 OR DEVICE_ERASABLE) (drv ''flash''))
       \<lparr>vs_op_erase := Some (d_erase (drv ''flash''))\<rparr>,
     vs_plain ''hd'' (DEVICE_BOOTABLE OR DEVICE_BURNDST OR DEVICE_ID 5) (drv ''hd''),
     (vs_plain ''mmc0'' (DEVICE_BOOTABLE OR DEVICE_BURNDST OR DEVICE_BURNSRC OR DEVICE_ID 6) (drv ''mmc0''))
       \<lparr>vs_op_capacity := Some (d_capacity (drv ''mmc0''))\<rparr>,
     (vs_plain ''mmc1'' (DEVICE_BOOTABLE OR DEVICE_BURNDST OR DEVICE_BURNSRC OR DEVICE_ID 7) (drv ''mmc1''))
       \<lparr>vs_op_capacity := Some (d_capacity (drv ''mmc1''))\<rparr>,
     (vs_plain ''mmc2'' (DEVICE_BOOTABLE OR DEVICE_BURNDST OR DEVICE_BURNSRC OR DEVICE_ID 8) (drv ''mmc2''))
       \<lparr>vs_op_capacity := Some (d_capacity (drv ''mmc2''))\<rparr>,
     vs_none ''udisk0'' 0,
     vs_none ''udisk1'' 0,
     (vs_none ''udc'' (DEVICE_ID 11))\<lparr>vs_op_reset := Some (d_reset (drv ''udc'')), vs_op_align := Some (d_align (drv ''udc''))\<rparr>,
     (vs_none ''eth'' (DEVICE_ID 12))\<lparr>vs_op_reset := Some (d_reset (drv ''eth'')), vs_op_align := Some (d_align (drv ''eth''))\<rparr>,
     (vs_none ''ram'' (DEVICE_ID 13))\<lparr>vs_op_read := Some ram_vs_read, vs_op_write := Some ram_vs_write,
       vs_op_reset := Some ram_vs_reset, vs_op_align := Some ram_vs_align\<rparr>]"

text \<open>\<open>vs_current\<close> points into the table.\<close>

record 'h vstate =
  vs_current :: "nat option"
  vs_world :: "'h world"

type_synonym 'h drivers = "string \<Rightarrow> ('h world) driver"

definition cur :: "'h drivers \<Rightarrow> 'h vstate \<Rightarrow> ('h world) vstorage option" where
  "cur drv s = map_option (\<lambda>i. vs_list drv ! i) (vs_current s)"

definition id_valid :: "int \<Rightarrow> bool" where
  "id_valid dev \<longleftrightarrow> 0 \<le> dev \<and> dev < 14"

definition dev_of :: "'h drivers \<Rightarrow> 'h vstate \<Rightarrow> int \<Rightarrow> ('h world) vstorage option" where
  "dev_of drv s dev = (if id_valid dev then Some (vs_list drv ! nat dev) else if dev = DEV_CURRENT then cur drv s else None)"

text \<open>Names of at most seven characters: \<open>strncmp\<close> over 16 compares them to their end.\<close>

definition name_is :: "string \<Rightarrow> string \<Rightarrow> bool option" where
  "name_is a b = map_option (\<lambda>r. r = 0) (strncmp_at (a @ [NUL]) 0 (b @ [NUL]) 0 16)"

definition vs_is_device :: "'h drivers \<Rightarrow> 'h vstate \<Rightarrow> int \<Rightarrow> string \<Rightarrow> bool option" where
  "vs_is_device drv s dev name = (case dev_of drv s dev of None \<Rightarrow> Some False | Some p \<Rightarrow> name_is name (vs_name p))"

definition vs_is_assigned :: "'h vstate \<Rightarrow> bool" where
  "vs_is_assigned s \<longleftrightarrow> vs_current s \<noteq> None"

datatype vs_options = VS_OPT_ALIGN | VS_OPT_READ | VS_OPT_WRITE | VS_OPT_RESET | VS_OPT_ERASE | VS_OPT_SCRUB

definition vs_is_opt_available :: "'h drivers \<Rightarrow> 'h vstate \<Rightarrow> int \<Rightarrow> vs_options \<Rightarrow> bool" where
  "vs_is_opt_available drv s dev opt =
     (case (if id_valid dev then Some (vs_list drv ! nat dev) else cur drv s) of
        None \<Rightarrow> False
      | Some p \<Rightarrow> (case opt of VS_OPT_ALIGN \<Rightarrow> vs_op_align p \<noteq> None | VS_OPT_READ \<Rightarrow> vs_op_read p \<noteq> None
          | VS_OPT_WRITE \<Rightarrow> vs_op_write p \<noteq> None | VS_OPT_RESET \<Rightarrow> vs_op_reset p \<noteq> None
          | VS_OPT_ERASE \<Rightarrow> vs_op_erase p \<noteq> None | VS_OPT_SCRUB \<Rightarrow> vs_op_scrub p \<noteq> None))"

section \<open>Operations on the device in use\<close>

text \<open>The pattern of most operations: \<open>-2\<close> without a device, \<open>-3\<close> when the device has no such function.\<close>

definition vs_call ::
    "'h drivers \<Rightarrow> (('h world) vstorage \<Rightarrow> 'f option) \<Rightarrow> ('f \<Rightarrow> 'h world \<Rightarrow> (u32 \<times> 'h world) option) \<Rightarrow> 'h vstate \<Rightarrow>
     (u32 \<times> 'h vstate) option" where
  "vs_call drv op run s =
     (case cur drv s of
        None \<Rightarrow> Some (- 2, s)
      | Some p \<Rightarrow> (case op p of
          None \<Rightarrow> Some (- 3, s)
        | Some f \<Rightarrow> map_option (\<lambda>(r, w). (r, s\<lparr>vs_world := w\<rparr>)) (run f (vs_world s))))"

definition vs_reset :: "'h drivers \<Rightarrow> 'h vstate \<Rightarrow> (u32 \<times> 'h vstate) option" where
  "vs_reset drv = vs_call drv vs_op_reset (\<lambda>f w. Some (f w))"

definition vs_erase :: "'h drivers \<Rightarrow> loff \<Rightarrow> u32 \<Rightarrow> 'h vstate \<Rightarrow> (u32 \<times> 'h vstate) option" where
  "vs_erase drv start len = vs_call drv vs_op_erase (\<lambda>f w. Some (f w start len))"

definition vs_isbad :: "'h drivers \<Rightarrow> loff \<Rightarrow> 'h vstate \<Rightarrow> (u32 \<times> 'h vstate) option" where
  "vs_isbad drv start = vs_call drv vs_op_isbad (\<lambda>f w. Some (f w start))"

definition vs_scrub :: "'h drivers \<Rightarrow> loff \<Rightarrow> u32 \<Rightarrow> 'h vstate \<Rightarrow> (u32 \<times> 'h vstate) option" where
  "vs_scrub drv start len = vs_call drv vs_op_scrub (\<lambda>f w. Some (f w start len))"

definition vs_special :: "'h drivers \<Rightarrow> 'h vstate \<Rightarrow> (u32 \<times> 'h vstate) option" where
  "vs_special drv = vs_call drv vs_op_special (\<lambda>f w. Some (f w))"

definition vs_write :: "'h drivers \<Rightarrow> string \<Rightarrow> loff \<Rightarrow> u32 \<Rightarrow> u32 \<Rightarrow> 'h vstate \<Rightarrow> (u32 \<times> 'h vstate) option" where
  "vs_write drv buf start n extra s =
     (if n = 0 then Some (0, s) else vs_call drv vs_op_write (\<lambda>f w. f w buf start n extra) s)"

definition vs_align :: "'h drivers \<Rightarrow> 'h vstate \<Rightarrow> int \<Rightarrow> u32" where
  "vs_align drv s dev =
     (case dev_of drv s dev of
        None \<Rightarrow> 0
      | Some p \<Rightarrow> (case vs_op_align p of None \<Rightarrow> 0 | Some f \<Rightarrow> f (vs_world s)))"

definition vs_capacity :: "'h drivers \<Rightarrow> 'h vstate \<Rightarrow> int \<Rightarrow> loff" where
  "vs_capacity drv s dev =
     (case dev_of drv s dev of
        None \<Rightarrow> 0
      | Some p \<Rightarrow> (case vs_op_capacity p of None \<Rightarrow> 0 | Some f \<Rightarrow> f (vs_world s)))"

section \<open>Choosing a device\<close>

fun name_index :: "(string \<Rightarrow> bool option) \<Rightarrow> nat \<Rightarrow> string list \<Rightarrow> nat option option" where
  "name_index same i [] = Some None"
| "name_index same i (n # ns) = do { b \<leftarrow> same n; if b then Some (Some i) else name_index same (i + 1) ns }"

definition vs_assign_by_name :: "'h drivers \<Rightarrow> string \<Rightarrow> bool \<Rightarrow> 'h vstate \<Rightarrow> (u32 \<times> 'h vstate) option" where
  "vs_assign_by_name drv name reset s = do {
     let s = s\<lparr>vs_current := None\<rparr>;
     r \<leftarrow> name_index (\<lambda>n. name_is n name) 0 (map vs_name (vs_list drv));
     case r of
       Some i \<Rightarrow> (let s = s\<lparr>vs_current := Some i\<rparr> in if reset then vs_reset drv s else Some (0, s))
     | None \<Rightarrow> Some (- 1, s) }"

definition vs_assign_by_id :: "'h drivers \<Rightarrow> int \<Rightarrow> bool \<Rightarrow> 'h vstate \<Rightarrow> (u32 \<times> 'h vstate) option" where
  "vs_assign_by_id drv dev reset s =
     (let s = s\<lparr>vs_current := None\<rparr> in
      if id_valid dev
      then (let s = s\<lparr>vs_current := Some (nat dev)\<rparr> in if reset then vs_reset drv s else Some (0, s))
      else Some (- 1, s))"

definition vs_device_id :: "'h drivers \<Rightarrow> string \<Rightarrow> int option" where
  "vs_device_id drv name = do {
     r \<leftarrow> name_index (\<lambda>n. name_is name n) 0 (map vs_name (vs_list drv));
     Some (case r of Some i \<Rightarrow> int i | None \<Rightarrow> DEV_NONE) }"

definition vs_flagged :: "'h drivers \<Rightarrow> u32 \<Rightarrow> int \<Rightarrow> bool" where
  "vs_flagged drv fl dev \<longleftrightarrow> id_valid dev \<and> vs_flag (vs_list drv ! nat dev) AND fl \<noteq> 0"

definition vs_device_bootable :: "'h drivers \<Rightarrow> int \<Rightarrow> bool" where "vs_device_bootable drv = vs_flagged drv DEVICE_BOOTABLE"
definition vs_device_burnsrc :: "'h drivers \<Rightarrow> int \<Rightarrow> bool" where "vs_device_burnsrc drv = vs_flagged drv DEVICE_BURNSRC"
definition vs_device_burndst :: "'h drivers \<Rightarrow> int \<Rightarrow> bool" where "vs_device_burndst drv = vs_flagged drv DEVICE_BURNDST"
definition vs_device_boot0 :: "'h drivers \<Rightarrow> int \<Rightarrow> bool" where "vs_device_boot0 drv = vs_flagged drv DEVICE_BOOT0"
definition vs_device_erasable :: "'h drivers \<Rightarrow> int \<Rightarrow> bool" where "vs_device_erasable drv = vs_flagged drv DEVICE_ERASABLE"

definition vs_device_name :: "'h drivers \<Rightarrow> int \<Rightarrow> string option" where
  "vs_device_name drv dev = (if id_valid dev then Some (vs_name (vs_list drv ! nat dev)) else None)"

definition vs_device_count :: "'h drivers \<Rightarrow> nat" where
  "vs_device_count drv = length (vs_list drv)"

section \<open>Reading a range\<close>

text \<open>What a driver stores at position \<open>i\<close> of a buffer.\<close>

definition store_at :: "string \<Rightarrow> int \<Rightarrow> string \<Rightarrow> string option" where
  "store_at buf i bs =
     (if 0 \<le> i \<and> nat i + length bs \<le> length buf then Some (take (nat i) buf @ bs @ drop (nat i + length bs) buf) else None)"

definition read_at :: "('h world) read_fn \<Rightarrow> 'h vstate \<Rightarrow> string \<Rightarrow> int \<Rightarrow> loff \<Rightarrow> u32 \<Rightarrow> u32 \<Rightarrow> (u32 \<times> string \<times> 'h vstate) option" where
  "read_at f s buf i start len extra = do {
     (ret, bs, w) \<leftarrow> f (vs_world s) start len extra;
     buf \<leftarrow> store_at buf i bs;
     Some (ret, buf, s\<lparr>vs_world := w\<rparr>) }"

text \<open>
  The three parts of \<open>vs_read\<close>: the end of a block that the range starts inside, whole blocks, and the
  start of a last block; the first and the last go through \<open>tmp\<close>.  \<open>pos\<close> is how far \<open>buf\<close> has moved and
  \<open>read\<close> the sum of the results.  A negative result goes to \<open>__read_end__\<close> (\<open>Inl\<close>).
\<close>

definition read_first ::
    "('h world) read_fn \<Rightarrow> u32 \<Rightarrow> u32 \<Rightarrow> u32 \<Rightarrow> loff \<Rightarrow> u32 \<Rightarrow> string \<Rightarrow> string \<Rightarrow> 'h vstate \<Rightarrow>
     ((u32 \<times> string \<times> 'h vstate) + (loff \<times> u32 \<times> u32 \<times> string \<times> string \<times> 'h vstate)) option" where
  "read_first f align prelen extra start len tmp buf s =
     (if prelen = 0 then Some (Inr (start, len, 0, tmp, buf, s))
      else do {
        (ret, tmp, s) \<leftarrow> read_at f s tmp 0 (start AND ucast (NOT (align - 1))) align extra;
        if sint ret < 0 then Some (Inl (ret, buf, s))
        else if length tmp < unat (align - prelen) + unat prelen then None
        else do {
          buf \<leftarrow> store_at buf 0 (take (unat prelen) (drop (unat (align - prelen)) tmp));
          Some (Inr (start + ucast prelen, len - prelen, ret, tmp, buf, s)) } })"

definition read_middle ::
    "('h world) read_fn \<Rightarrow> u32 \<Rightarrow> int \<Rightarrow> loff \<Rightarrow> u32 \<Rightarrow> u32 \<Rightarrow> string \<Rightarrow> 'h vstate \<Rightarrow>
     ((u32 \<times> string \<times> 'h vstate) + (int \<times> loff \<times> u32 \<times> string \<times> 'h vstate)) option" where
  "read_middle f extra pos start len read buf s =
     (if len = 0 then Some (Inr (pos, start, read, buf, s))
      else do {
        (ret, buf, s) \<leftarrow> read_at f s buf pos start len extra;
        Some (if sint ret < 0 then Inl (ret, buf, s)
              else Inr (pos + sint len, start + scast len, read + ret, buf, s)) })"

definition read_last ::
    "('h world) read_fn \<Rightarrow> u32 \<Rightarrow> u32 \<Rightarrow> u32 \<Rightarrow> int \<Rightarrow> loff \<Rightarrow> u32 \<Rightarrow> string \<Rightarrow> string \<Rightarrow> 'h vstate \<Rightarrow>
     (u32 \<times> string \<times> 'h vstate) option" where
  "read_last f align postlen extra pos start read tmp buf s =
     (if postlen = 0 then Some (read, buf, s)
      else do {
        (ret, tmp, s) \<leftarrow> read_at f s tmp 0 start align extra;
        if sint ret < 0 then Some (ret, buf, s)
        else if length tmp < unat postlen then None
        else do { buf \<leftarrow> store_at buf pos (take (unat postlen) tmp); Some (read + ret, buf, s) } })"

definition read_parts ::
    "('h world) read_fn \<Rightarrow> u32 \<Rightarrow> u32 \<Rightarrow> u32 \<Rightarrow> u32 \<Rightarrow> loff \<Rightarrow> u32 \<Rightarrow> string \<Rightarrow> string \<Rightarrow> 'h vstate \<Rightarrow>
     (u32 \<times> string \<times> 'h vstate) option" where
  "read_parts f align prelen postlen extra start len tmp buf s = do {
     r \<leftarrow> read_first f align prelen extra start len tmp buf s;
     case r of
       Inl e \<Rightarrow> Some e
     | Inr (start, len, read, tmp, buf, s) \<Rightarrow> do {
         r \<leftarrow> read_middle f extra (uint prelen) start (len - postlen) read buf s;
         case r of
           Inl e \<Rightarrow> Some e
         | Inr (pos, start, read, buf, s) \<Rightarrow> read_last f align postlen extra pos start read tmp buf s } }"

text \<open>\<open>malloc\<close> gives a block with any contents; without one, \<open>panic\<close> does not return.\<close>

definition vs_read ::
    "'h drivers \<Rightarrow> (u32 \<Rightarrow> string option) \<Rightarrow> string \<Rightarrow> loff \<Rightarrow> u32 \<Rightarrow> u32 \<Rightarrow> 'h vstate \<Rightarrow> (u32 \<times> string \<times> 'h vstate) option" where
  "vs_read drv malloc buf start len extra s =
     (case cur drv s of
        None \<Rightarrow> Some (- 2, buf, s)
      | Some p \<Rightarrow> (case vs_op_read p of
          None \<Rightarrow> Some (- 3, buf, s)
        | Some f \<Rightarrow>
            if len = 0 then Some (0, buf, s)
            else do {
              fnd \<leftarrow> strncmp_at (vs_name p @ [NUL]) 0 (''fnd'' @ [NUL]) 0 3;
              if fnd = 0 then read_at f s buf 0 start len extra
              else do {
                let align = vs_align drv s DEV_CURRENT;
                nnd \<leftarrow> strncmp_at (vs_name p @ [NUL]) 0 (''nnd'' @ [NUL]) 0 3;
                let len = (if nnd = 0 then (len + (align - 1)) AND NOT (align - 1) else len);
                let prelen = ucast start AND (align - 1);
                let prelen = (if prelen \<noteq> 0 then align - prelen else 0);
                let postlen = (len - prelen) AND (align - 1);
                tmp \<leftarrow> (if prelen \<noteq> 0 \<or> postlen \<noteq> 0 then malloc align else Some []);
                read_parts f align prelen postlen extra start len tmp buf s } }))"


section \<open>Block arithmetic\<close>

text \<open>The distance to the next start of a block.\<close>

definition to_block :: "nat \<Rightarrow> nat \<Rightarrow> nat" where
  "to_block b x = (if x mod b = 0 then 0 else b - x mod b)"

lemma unat_and_mask: "unat ((x :: 'a::len word) AND (2 ^ k - 1)) = unat x mod 2 ^ k"
proof -
  have "x AND (2 ^ k - 1) = take_bit k x" by (simp add: take_bit_eq_mask mask_eq_exp_minus_1)
  then show ?thesis by (simp add: unsigned_take_bit_eq take_bit_nat_def)
qed

lemma ucast_and_mask: "ucast (x :: loff) AND (2 ^ k - 1) = (ucast (x AND (2 ^ k - 1)) :: u32)" if "k < 31"
proof -
  have "ucast x AND (2 ^ k - 1) = (take_bit k (ucast x) :: u32)" by (simp add: take_bit_eq_mask mask_eq_exp_minus_1)
  also have "\<dots> = ucast (take_bit k x)"
    using that by (intro bit_word_eqI) (auto simp: bit_take_bit_iff bit_ucast_iff)
  finally show ?thesis by (simp add: take_bit_eq_mask mask_eq_exp_minus_1)
qed

text \<open>Clearing the low bits of a start below 4 GB.\<close>

lemma start_down:
  fixes x :: loff
  assumes "k < 31" and "unat x < 2 ^ 32"
  shows "unat (x AND ucast (NOT ((2 ^ k - 1) :: u32))) = unat x - unat x mod 2 ^ k"
proof -
  have b: "n < 32" if "bit x n" for n
  proof -
    have "x = take_bit 32 x"
      using assms(2) by (metis take_bit_nat_eq_self unsigned_take_bit_eq word_unat_eq_iff)
    then show ?thesis using that by (metis bit_take_bit_iff)
  qed
  have e: "(2 ^ k - 1 :: u32) = mask k" by (simp add: mask_eq_exp_minus_1)
  have "(x AND NOT (mask k)) AND take_bit k x = 0"
    by (rule bit_word_eqI) (auto simp: bit_and_iff bit_not_iff bit_mask_iff bit_take_bit_iff)
  then have "(x AND NOT (mask k)) + take_bit k x = (x AND NOT (mask k)) OR take_bit k x" by (rule disjunctive_add_eq_or)
  also have "\<dots> = x"
    by (rule bit_word_eqI) (auto simp: bit_and_iff bit_or_iff bit_not_iff bit_mask_iff bit_take_bit_iff)
  finally have "x AND NOT (mask k) = x - take_bit k x" by (simp add: eq_diff_eq)
  moreover have "x AND ucast (NOT (mask k :: u32)) = x AND NOT (mask k)"
    using b by (intro bit_word_eqI) (auto simp: bit_and_iff bit_not_iff bit_ucast_iff bit_mask_iff)
  ultimately have "x AND ucast (NOT ((2 ^ k - 1) :: u32)) = x - take_bit k x" using e by simp
  moreover have "unat (take_bit k x) = unat x mod 2 ^ k" by (simp add: unsigned_take_bit_eq take_bit_nat_def)
  moreover have "take_bit k x \<le> x" by (simp add: word_le_nat_alt unsigned_take_bit_eq take_bit_nat_def)
  ultimately show ?thesis by (simp add: unat_sub)
qed

section \<open>Devices of blocks\<close>

text \<open>
  The contract of a driver: reads of whole blocks between \<open>lo\<close> and \<open>cap\<close> give the bytes of the disk,
  return their number and leave the disk as it is.
\<close>

text \<open>The names that \<open>vs_read\<close> treats apart.\<close>

lemma name_not_raw:
  assumes "NUL \<notin> set v" and "take 3 v \<noteq> t" and "t = ''fnd'' \<or> t = ''nnd''"
  shows "\<exists>r. strncmp_at (v @ [NUL]) 0 (t @ [NUL]) 0 3 = Some r \<and> r \<noteq> 0"
proof -
  have "cz (v @ [NUL]) = v" "cz (t @ [NUL]) = t" using cz_append assms(1,3) by auto
  then show ?thesis using strncmp_at_cz [of 0 "v @ [NUL]" 0 "t @ [NUL]" 3] assms(2,3) by auto
qed

lemma read_first_overrun:
  assumes "read_at f s tmp 0 (start AND ucast (NOT (align - 1))) align extra = Some (ret, tmp', s')" and "0 \<le> sint ret"
    and "p \<noteq> 0" and "length buf < unat p"
  shows "read_first f align p extra start n tmp buf s = None"
  using assms by (auto simp: read_first_def store_at_def not_less)

locale block_device =
  fixes read :: "('h world) read_fn" and align :: u32 and disk :: "'h world \<Rightarrow> nat \<Rightarrow> char" and lo cap :: nat
  assumes align_pow2: "\<exists>k < 31. align = 2 ^ k"
    and lo_block: "unat align dvd lo" and cap_block: "unat align dvd cap" and cap_loff: "cap < 2 ^ 63"
    and read_blocks: "lo \<le> unat off \<Longrightarrow> unat off + unat n \<le> cap \<Longrightarrow> 0 < sint n \<Longrightarrow> unat align dvd unat off \<Longrightarrow> unat align dvd unat n \<Longrightarrow>
      \<exists>w'. read w off n extra = Some (n, map (disk w) [unat off ..< unat off + unat n], w') \<and> disk w' = disk w"
begin

definition bsz :: nat where "bsz = unat align"

lemma bsz_pow2: "\<exists>k < 31. bsz = 2 ^ k \<and> align = 2 ^ k"
  using align_pow2 by (auto simp: bsz_def unat_pow2_u32)

lemma bsz_pos: "0 < bsz" "bsz < 2 ^ 31"
proof -
  obtain k where "k < 31" "bsz = 2 ^ k" using bsz_pow2 by blast
  then show "0 < bsz" "bsz < 2 ^ 31" using power_strict_increasing [of k 31 "2 :: nat"] by simp_all
qed

lemma read_at_blocks:
  assumes "lo \<le> unat off" and "unat off + unat n \<le> cap" and "0 < sint n" and "bsz dvd unat off" and "bsz dvd unat n"
    and "0 \<le> i" and "nat i + unat n \<le> length buf"
  shows "\<exists>w'. read_at read s buf i off n extra =
      Some (n, take (nat i) buf @ map (disk (vs_world s)) [unat off ..< unat off + unat n] @ drop (nat i + unat n) buf, s\<lparr>vs_world := w'\<rparr>) \<and>
    disk w' = disk (vs_world s)"
  using read_blocks [OF assms(1-3), of "vs_world s" extra] assms(4-7) by (auto simp: read_at_def store_at_def bsz_def)

lemma down_ge_lo: "lo \<le> x \<Longrightarrow> lo \<le> x - x mod bsz"
proof -
  assume "lo \<le> x"
  moreover obtain q where "lo = bsz * q" using lo_block by (auto simp: bsz_def)
  ultimately show ?thesis using bsz_pos(1)
    by (metis div_le_mono minus_mod_eq_mult_div mult_le_mono2 nonzero_mult_div_cancel_left not_gr_zero)
qed

lemma up_le_cap: "x \<le> cap \<Longrightarrow> x mod bsz \<noteq> 0 \<Longrightarrow> x - x mod bsz + bsz \<le> cap"
proof -
  assume x: "x \<le> cap" "x mod bsz \<noteq> 0"
  obtain q where q: "cap = bsz * q" using cap_block by (auto simp: bsz_def)
  then have "x \<noteq> bsz * q" using x(2) by auto
  then have "x < bsz * q" using x(1) q by simp
  then have "x div bsz < q" using bsz_pos(1) by (simp add: div_less_iff_less_mult mult.commute)
  then have "bsz * Suc (x div bsz) \<le> bsz * q" by (intro mult_le_mono2) simp
  then show ?thesis using q by (simp add: minus_mod_eq_mult_div)
qed

text \<open>The three parts of a read of \<open>L\<close> bytes from \<open>S\<close>, over the lengths as numbers.\<close>

lemma to_block_bsz: "(x + to_block bsz x) mod bsz = 0" "to_block bsz x < bsz" "to_block bsz x \<noteq> 0 \<Longrightarrow> x - x mod bsz + bsz = x + to_block bsz x"
proof -
  have m: "x mod bsz < bsz" "x mod bsz \<le> x" using bsz_pos(1) by simp_all
  show c: "x - x mod bsz + bsz = x + to_block bsz x" if "to_block bsz x \<noteq> 0" using that m by (auto simp: to_block_def split: if_splits)
  show "to_block bsz x < bsz" using bsz_pos(1) by (simp add: to_block_def)
  show "(x + to_block bsz x) mod bsz = 0"
  proof (cases "to_block bsz x = 0")
    case True
    then show ?thesis using m(1) by (auto simp: to_block_def split: if_splits)
  next
    case False
    have "bsz dvd x - x mod bsz + bsz" by (intro dvd_add dvd_minus_mod dvd_refl)
    then show ?thesis using c [OF False] by (simp only: dvd_eq_mod_eq_0)
  qed
qed

text \<open>The block that a start lies inside.\<close>

lemma read_at_first:
  assumes x: "lo \<le> unat x" "unat x \<le> cap" "unat x < 2 ^ 32" "unat x mod bsz \<noteq> 0" and t: "length tmp = bsz"
  shows "\<exists>w'. read_at read s tmp 0 (x AND ucast (NOT (align - 1))) align extra =
      Some (align, map (disk (vs_world s)) [unat x - unat x mod bsz ..< unat x - unat x mod bsz + bsz], s\<lparr>vs_world := w'\<rparr>) \<and>
    disk w' = disk (vs_world s)"
proof -
  obtain k where k: "k < 31" "bsz = 2 ^ k" "align = 2 ^ k" using bsz_pow2 by blast
  define o1 where "o1 = x AND ucast (NOT (align - 1))"
  have o1: "unat o1 = unat x - unat x mod bsz" using start_down [OF k(1), of x, folded k(3), folded k(2)] x(3) by (simp add: o1_def)
  have na: "unat align = bsz" by (simp add: bsz_def)
  have "0 < sint align" using bsz_pos na by (simp add: sint_u32_pos)
  moreover have "bsz dvd unat o1" using o1 by simp
  ultimately show ?thesis
    using read_at_blocks [of o1 align 0 tmp s extra] down_ge_lo [OF x(1)] up_le_cap [OF x(2,4)] o1 t na
    by (auto simp: o1_def [symmetric])
qed

lemma read_first_blocks:
  assumes p: "unat p = to_block bsz (unat x)" "unat p \<le> unat n" and n: "0 < sint n" and x: "lo \<le> unat x" "unat x + unat n \<le> cap"
    and t: "p \<noteq> 0 \<Longrightarrow> unat x < 2 ^ 32 \<and> length tmp = bsz" and b: "unat n \<le> length buf"
  shows "\<exists>x' tmp' w'. read_first read align p extra x n tmp buf s = Some (Inr (x', n - p, if p = 0 then 0 else align, tmp',
        map (disk (vs_world s)) [unat x ..< unat x + unat p] @ drop (unat p) buf, s\<lparr>vs_world := w'\<rparr>)) \<and>
      unat x' = unat x + unat p \<and> length tmp' = length tmp \<and> disk w' = disk (vs_world s)"
proof (cases "p = 0")
  case True
  then show ?thesis by (auto simp: read_first_def intro: exI [of _ "vs_world s"])
next
  case False
  let ?m = "unat x mod bsz" and ?d = "disk (vs_world s)"
  have p0: "to_block bsz (unat x) \<noteq> 0" using False p(1) by (metis unat_eq_zero)
  have pm: "unat p = bsz - ?m" "?m \<noteq> 0" using p0 p(1) by (simp_all add: to_block_def split: if_splits)
  have ml: "?m < bsz" "?m \<le> unat x" using bsz_pos(1) by simp_all
  define o1 where "o1 = x AND ucast (NOT (align - 1))"
  have na: "unat align = bsz" by (simp add: bsz_def)
  have pa: "0 < sint align" using bsz_pos na by (simp add: sint_u32_pos)
  have e: "unat x - ?m + bsz = unat x + unat p" using to_block_bsz(3) [OF p0] p(1) by simp
  let ?t = "map ?d [unat x - ?m ..< unat x - ?m + bsz]"
  obtain w' where rt: "read_at read s tmp 0 o1 align extra = Some (align, ?t, s\<lparr>vs_world := w'\<rparr>)" "disk w' = ?d"
    using read_at_first [OF x(1) _ _ pm(2), of tmp s extra] x(2) t False by (auto simp: o1_def)
  have ap: "unat (align - p) = ?m"
    using pm na ml by (subst unat_sub) (auto simp: word_le_nat_alt)
  have "drop ?m ?t = map ?d [unat x ..< unat x + unat p]"
    using ml e by (simp add: drop_map)
  then have "store_at buf 0 (take (unat p) (drop ?m ?t)) = Some (map ?d [unat x ..< unat x + unat p] @ drop (unat p) buf)"
    using p(2) b by (simp add: store_at_def)
  moreover have "\<not> sint align < 0" using pa by simp
  moreover have "?m + unat p \<le> length ?t" using pm na ml by simp
  moreover have "unat (x + ucast p) = unat x + unat p"
  proof -
    have "unat (ucast p :: loff) = unat p"
      using unat_word_lt [of p] by (simp add: unsigned_ucast_eq take_bit_nat_eq_self_iff)
    then show ?thesis using x(2) p(2) cap_loff by (simp add: unat_word_ariths)
  qed
  moreover have "bsz = length tmp" using t [OF False] by simp
  ultimately show ?thesis using False rt ap
    by (auto simp: read_first_def o1_def [symmetric] intro: exI [of _ w'])
qed

lemma read_middle_blocks:
  assumes n: "unat n < 2147483648" "bsz dvd unat n" and x: "lo \<le> unat x" "unat x + unat n \<le> cap" "bsz dvd unat x"
    and b: "length pre = nat pos" "0 \<le> pos" "unat n \<le> length buf"
  shows "\<exists>x' w'. read_middle read extra pos x n ret (pre @ buf) s = Some (Inr (pos + int (unat n), x', ret + n,
        pre @ map (disk (vs_world s)) [unat x ..< unat x + unat n] @ drop (unat n) buf, s\<lparr>vs_world := w'\<rparr>)) \<and>
      unat x' = unat x + unat n \<and> disk w' = disk (vs_world s)"
proof (cases "n = 0")
  case True
  then show ?thesis by (auto simp: read_middle_def intro: exI [of _ "vs_world s"])
next
  case False
  have p: "0 < sint n" using False n(1) by (auto simp: sint_u32_pos unat_gt_0)
  have si: "sint n = int (unat n)" using n(1) by (rule sint_u32_unat)
  obtain w' where r: "read_at read s (pre @ buf) pos x n extra = Some (n, take (nat pos) (pre @ buf) @
      map (disk (vs_world s)) [unat x ..< unat x + unat n] @ drop (nat pos + unat n) (pre @ buf), s\<lparr>vs_world := w'\<rparr>)"
      "disk w' = disk (vs_world s)"
    using read_at_blocks [OF x(1,2) p x(3) n(2) b(2), of "pre @ buf" s extra] b by auto
  have "unat (scast n :: loff) = unat n"
  proof -
    have "(scast n :: loff) = of_nat (unat n)" by (simp add: scast_eq si)
    then show ?thesis using n(1) by (simp add: unsigned_of_nat unsigned_ucast_eq take_bit_nat_eq_self_iff)
  qed
  then have "unat (x + scast n) = unat x + unat n" using x(2) cap_loff by (simp add: unat_word_ariths)
  then show ?thesis using False r p b si by (auto simp: read_middle_def intro: exI [of _ w'])
qed

lemma read_last_blocks:
  assumes q: "unat q < bsz" and x: "lo \<le> unat x" "unat x + unat q \<le> cap" "bsz dvd unat x"
    and b: "length pre = nat pos" "0 \<le> pos" "unat q \<le> length buf" and t: "q \<noteq> 0 \<Longrightarrow> length tmp = bsz"
  shows "\<exists>w'. read_last read align q extra pos x ret tmp (pre @ buf) s = Some (ret + (if q = 0 then 0 else align),
        pre @ map (disk (vs_world s)) [unat x ..< unat x + unat q] @ drop (unat q) buf, s\<lparr>vs_world := w'\<rparr>) \<and>
      disk w' = disk (vs_world s)"
proof (cases "q = 0")
  case True
  then show ?thesis by (auto simp: read_last_def intro: exI [of _ "vs_world s"])
next
  case False
  have na: "unat align = bsz" by (simp add: bsz_def)
  have p: "0 < sint align" using bsz_pos na by (simp add: sint_u32_pos)
  have m: "(unat x + unat q) mod bsz = unat q" using x(3) q by (metis mod_add_left_eq dvd_eq_mod_eq_0 add_0 mod_less)
  then have "unat x + bsz \<le> cap" using up_le_cap [OF x(2)] False by (simp add: unat_eq_zero)
  then obtain w' where r: "read_at read s tmp 0 x align extra = Some (align, take (nat 0) tmp @
      map (disk (vs_world s)) [unat x ..< unat x + unat align] @ drop (nat 0 + unat align) tmp, s\<lparr>vs_world := w'\<rparr>)"
      "disk w' = disk (vs_world s)"
    using read_at_blocks [of x align 0 tmp s extra] x p t False na by auto
  let ?t = "map (disk (vs_world s)) [unat x ..< unat x + unat align]"
  have "take (unat q) ?t = map (disk (vs_world s)) [unat x ..< unat x + unat q]" using q na by (simp add: take_map)
  then have "store_at (pre @ buf) pos (take (unat q) ?t) =
      Some (pre @ map (disk (vs_world s)) [unat x ..< unat x + unat q] @ drop (unat q) buf)"
    using b by (simp add: store_at_def)
  moreover have "\<not> sint align < 0" using p by simp
  moreover have "unat q \<le> length ?t" using q na by simp
  moreover have "read_at read s tmp 0 x align extra = Some (align, ?t, s\<lparr>vs_world := w'\<rparr>)"
    using r(1) t [OF False] na by simp
  ultimately show ?thesis using False r(2) by (auto simp: read_last_def intro: exI [of _ w'])
qed

lemma mask_block: "unat (n AND (align - 1)) = unat n mod bsz"
proof -
  obtain k where "bsz = 2 ^ k" "align = 2 ^ k" using bsz_pow2 by blast
  then show ?thesis using unat_and_mask [of n k] by metis
qed

lemma mask_start: "unat (ucast x AND (align - 1)) = unat x mod bsz" for x :: loff
proof -
  obtain k where k: "k < 31" "bsz = 2 ^ k" "align = 2 ^ k" using bsz_pow2 by blast
  have "unat x mod 2 ^ k < 2 ^ k" by simp
  also have "(2 :: nat) ^ k < 2 ^ 32" using k(1) by (intro power_strict_increasing) simp_all
  finally have lt: "unat (x AND (2 ^ k - 1)) < 2 ^ 32" using unat_and_mask [of x k] by simp
  then have "unat (ucast (x AND (2 ^ k - 1)) :: u32) = unat (x AND (2 ^ k - 1))"
    by (simp add: unsigned_ucast_eq take_bit_nat_eq_self_iff)
  then show ?thesis using ucast_and_mask [OF k(1), of x] unat_and_mask [of x k] k(2,3) by metis
qed

lemma rounded_length:
  assumes "b = (y - to_block bsz x) mod bsz" and "to_block bsz x \<le> y"
  shows "(if to_block bsz x = 0 then 0 else bsz) + (y - to_block bsz x - b) + (if b = 0 then 0 else bsz) =
    x + y + to_block bsz (x + y) - (x - x mod bsz)"
proof -
  have "(x + y) mod bsz = (x + to_block bsz x + (y - to_block bsz x)) mod bsz" using assms(2) by simp
  also have "\<dots> = b" using to_block_bsz(1) [of x] assms(1) by (metis mod_add_left_eq add_0)
  finally have e: "to_block bsz (x + y) = (if b = 0 then 0 else bsz - b)" by (simp add: to_block_def)
  have "b \<le> y - to_block bsz x" "b < bsz" using assms(1) bsz_pos(1) by simp_all
  moreover define m where "m = x mod bsz"
  moreover have "m \<le> x" "m < bsz" using bsz_pos(1) by (simp_all add: m_def)
  ultimately show ?thesis
    using assms(2) unfolding e unfolding to_block_def m_def [symmetric] by (auto simp del: m_def split: if_splits)
qed

lemma prelen_to_block:
  "unat (let p = ucast x AND (align - 1) in if p \<noteq> 0 then align - p else 0) = to_block bsz (unat x)" for x :: loff
proof (cases "ucast x AND (align - 1) = 0")
  case True
  then show ?thesis using mask_start [of x] by (simp add: to_block_def)
next
  case False
  have "unat align = bsz" "unat x mod bsz < bsz" using bsz_pos(1) by (simp_all add: bsz_def)
  moreover have "unat x mod bsz \<noteq> 0" using False mask_start [of x] by (metis unat_eq_zero)
  ultimately show ?thesis using False mask_start [of x]
    by (simp add: to_block_def) (subst unat_sub, simp_all add: word_le_nat_alt)
qed

text \<open>A read that ends inside the block it starts inside fills that block into the buffer.\<close>

lemma vs_read_overrun:
  assumes dev: "cur drv s = Some d" "vs_op_read d = Some read" "vs_align drv s DEV_CURRENT = align"
    and nm: "NUL \<notin> set (vs_name d)" "take 3 (vs_name d) \<noteq> ''fnd''" "take 3 (vs_name d) \<noteq> ''nnd''"
    and n: "0 < sint n" and x: "lo \<le> unat x" "unat x \<le> cap" "unat x < 2 ^ 32"
    and b: "length buf < to_block bsz (unat x)" and m: "\<exists>t. malloc align = Some t \<and> length t = bsz"
  shows "vs_read drv malloc buf x n extra s = None"
proof -
  obtain r1 r2 where r: "strncmp_at (vs_name d @ [NUL]) 0 (''fnd'' @ [NUL]) 0 3 = Some r1" "r1 \<noteq> 0"
      "strncmp_at (vs_name d @ [NUL]) 0 (''nnd'' @ [NUL]) 0 3 = Some r2" "r2 \<noteq> 0"
    using name_not_raw [OF nm(1), of "''fnd''"] name_not_raw [OF nm(1), of "''nnd''"] nm(2,3) by blast
  define p where "p = (let p = ucast x AND (align - 1) in if p \<noteq> 0 then align - p else 0)"
  have pu: "unat p = to_block bsz (unat x)" unfolding p_def by (rule prelen_to_block)
  then have p0: "p \<noteq> 0" "unat x mod bsz \<noteq> 0" using b by (auto simp: to_block_def split: if_splits)
  obtain tmp where t: "malloc align = Some tmp" "length tmp = bsz" using m by blast
  have na: "0 \<le> sint align" using bsz_pos by (intro less_imp_le) (simp add: sint_u32_pos bsz_def)
  obtain w' where "read_at read s tmp 0 (x AND ucast (NOT (align - 1))) align extra =
      Some (align, map (disk (vs_world s)) [unat x - unat x mod bsz ..< unat x - unat x mod bsz + bsz], s\<lparr>vs_world := w'\<rparr>)"
    using read_at_first [OF x p0(2) t(2), of s extra] by blast
  then have o: "read_first read align p extra x n tmp buf s = None"
    by (rule read_first_overrun [OF _ na p0(1)]) (use b pu in simp)
  have nz: "n \<noteq> 0" using n by auto
  show ?thesis using o r nz dev t(1) p0(1) unfolding p_def
    by (simp add: vs_read_def Let_def read_parts_def del: append.simps)
qed

lemma vs_read_disk:
  assumes dev: "cur drv s = Some d" "vs_op_read d = Some read" "vs_align drv s DEV_CURRENT = align"
    and nm: "NUL \<notin> set (vs_name d)" "take 3 (vs_name d) \<noteq> ''fnd''" "take 3 (vs_name d) \<noteq> ''nnd''"
    and n: "0 < sint n" "to_block bsz (unat x) \<le> unat n" and x: "lo \<le> unat x" "unat x + unat n \<le> cap"
    and up: "unat x mod bsz \<noteq> 0 \<Longrightarrow> unat x < 2 ^ 32"
    and b: "unat n \<le> length buf" and m: "\<exists>t. malloc align = Some t \<and> length t = bsz"
  shows "\<exists>w'. vs_read drv malloc buf x n extra s = Some (of_nat (unat x + unat n + to_block bsz (unat x + unat n) - (unat x - unat x mod bsz)),
        map (disk (vs_world s)) [unat x ..< unat x + unat n] @ drop (unat n) buf, s\<lparr>vs_world := w'\<rparr>) \<and>
      disk w' = disk (vs_world s)"
proof -
  let ?d = "disk (vs_world s)" and ?x = "unat x" and ?n = "unat n"
  have ltb: "?x mod bsz < bsz" using bsz_pos(1) by simp
  have na: "unat align = bsz" by (simp add: bsz_def)
  obtain r1 r2 where r: "strncmp_at (vs_name d @ [NUL]) 0 (''fnd'' @ [NUL]) 0 3 = Some r1" "r1 \<noteq> 0"
      "strncmp_at (vs_name d @ [NUL]) 0 (''nnd'' @ [NUL]) 0 3 = Some r2" "r2 \<noteq> 0"
    using name_not_raw [OF nm(1), of "''fnd''"] name_not_raw [OF nm(1), of "''nnd''"] nm(2,3) by blast
  define p where "p = (let p = ucast x AND (align - 1) in if p \<noteq> 0 then align - p else 0)"
  have pu: "unat p = to_block bsz ?x" unfolding p_def by (rule prelen_to_block)
  define q where "q = (n - p) AND (align - 1)"
  have np: "unat (n - p) = ?n - unat p" using pu n(2) by (subst unat_sub) (simp_all add: word_le_nat_alt)
  have qu: "unat q = (?n - unat p) mod bsz" by (simp add: q_def mask_block np)
  have pn: "unat p \<le> ?n" using pu n(2) by simp
  have ql: "unat q < bsz" "unat q \<le> ?n - unat p" using qu bsz_pos(1) by simp_all
  obtain tmp where t: "(if p \<noteq> 0 \<or> q \<noteq> 0 then malloc align else Some []) = Some tmp" "p \<noteq> 0 \<or> q \<noteq> 0 \<Longrightarrow> length tmp = bsz"
    using m by (cases "p \<noteq> 0 \<or> q \<noteq> 0") auto
  have pm: "unat x < 2 ^ 32 \<and> length tmp = bsz" if "p \<noteq> 0"
  proof -
    have "to_block bsz ?x \<noteq> 0" using that pu by (metis unat_eq_zero)
    then have "?x mod bsz \<noteq> 0" by (simp add: to_block_def split: if_splits)
    then show ?thesis using that up t(2) by simp
  qed
  obtain x1 tmp1 w1 where f: "read_first read align p extra x n tmp buf s = Some (Inr (x1, n - p, if p = 0 then 0 else align, tmp1,
        map ?d [?x ..< ?x + unat p] @ drop (unat p) buf, s\<lparr>vs_world := w1\<rparr>))"
      "unat x1 = ?x + unat p" "length tmp1 = length tmp" "disk w1 = ?d"
    using read_first_blocks [OF pu pn n(1) x pm b] by blast
  define k where "k = n - p - q"
  have ku: "unat k = ?n - unat p - unat q" using np ql(2) unfolding k_def by (subst unat_sub) (simp_all add: word_le_nat_alt)
  have kd: "bsz dvd unat k" unfolding ku qu by (rule dvd_minus_mod)
  have kl: "unat k < 2147483648" using ku n(1) unfolding sint_u32_pos by linarith
  have x1d: "bsz dvd unat x1" using f(2) pu to_block_bsz(1) [of ?x] by (simp add: dvd_eq_mod_eq_0)
  have pos: "length (map ?d [?x ..< ?x + unat p]) = nat (uint p)" "0 \<le> uint p" by simp_all
  have ws: "vs_world (s\<lparr>vs_world := w\<rparr>) = w" "s\<lparr>vs_world := w, vs_world := w'\<rparr> = s\<lparr>vs_world := w'\<rparr>" for w w' by simp_all
  have c1: "lo \<le> unat x1" "unat x1 + unat k \<le> cap" using f(2) ku x pn ql(2) by linarith+
  have c2: "unat k \<le> length (drop (unat p) buf)" using ku b by simp
  obtain x2 w2 where g: "read_middle read extra (uint p) x1 k (if p = 0 then 0 else align)
        (map ?d [?x ..< ?x + unat p] @ drop (unat p) buf) (s\<lparr>vs_world := w1\<rparr>) =
      Some (Inr (uint p + int (unat k), x2, (if p = 0 then 0 else align) + k,
        map ?d [?x ..< ?x + unat p] @ map ?d [unat x1 ..< unat x1 + unat k] @ drop (unat k) (drop (unat p) buf), s\<lparr>vs_world := w2\<rparr>))"
      "unat x2 = unat x1 + unat k" "disk w2 = ?d"
    using read_middle_blocks [OF kl kd c1 x1d pos c2, of extra "if p = 0 then 0 else align" "s\<lparr>vs_world := w1\<rparr>"]
    unfolding ws f(4) append_assoc by blast
  let ?pre = "map ?d [?x ..< ?x + unat p] @ map ?d [unat x1 ..< unat x1 + unat k]"
  have x2d: "bsz dvd unat x2" using g(2) x1d kd by simp
  have pos2: "length ?pre = nat (uint p + int (unat k))" "0 \<le> uint p + int (unat k)" by (simp_all add: nat_add_distrib)
  have t2: "q \<noteq> 0 \<Longrightarrow> length tmp1 = bsz" using t(2) f(3) by simp
  have r2b: "unat x2 + unat q = ?x + ?n" using g(2) f(2) ku ql(2) pn by simp
  have c3: "lo \<le> unat x2" "unat x2 + unat q \<le> cap" using c1(1) g(2) x(2) r2b by linarith+
  have c4: "unat q \<le> length (drop (unat k) (drop (unat p) buf))" using ku ql(2) pn b by simp
  obtain w3 where h: "read_last read align q extra (uint p + int (unat k)) x2 ((if p = 0 then 0 else align) + k) tmp1
        (?pre @ drop (unat k) (drop (unat p) buf)) (s\<lparr>vs_world := w2\<rparr>) =
      Some ((if p = 0 then 0 else align) + k + (if q = 0 then 0 else align),
        ?pre @ map ?d [unat x2 ..< unat x2 + unat q] @ drop (unat q) (drop (unat k) (drop (unat p) buf)), s\<lparr>vs_world := w3\<rparr>)"
      "disk w3 = ?d"
    using read_last_blocks [OF ql(1) c3 x2d pos2 c4, where tmp = tmp1 and extra = extra and s = "s\<lparr>vs_world := w2\<rparr>"
        and ret = "(if p = 0 then 0 else align) + k", OF t2]
    unfolding ws g(3) append_assoc by blast
  have bytes: "?pre @ map ?d [unat x2 ..< unat x2 + unat q] @ drop (unat q) (drop (unat k) (drop (unat p) buf)) =
      map ?d [?x ..< ?x + ?n] @ drop ?n buf"
  proof -
    have le: "?x \<le> unat x1" "unat x1 \<le> unat x2" using f(2) g(2) by simp_all
    have "[?x ..< ?x + ?n] = [?x ..< unat x2] @ [unat x2 ..< unat x2 + unat q]"
      unfolding r2b [symmetric] by (rule upt_add_eq_append) (use le in linarith)
    also have "[?x ..< unat x2] = [?x ..< unat x1] @ [unat x1 ..< unat x2]"
      unfolding g(2) by (rule upt_add_eq_append) (rule le(1))
    finally have "[?x ..< ?x + ?n] = [?x ..< unat x1] @ [unat x1 ..< unat x2] @ [unat x2 ..< unat x2 + unat q]" by simp
    moreover have "unat q + (unat k + unat p) = ?n" using ku ql(2) pn by simp
    ultimately show ?thesis using f(2) g(2) by simp
  qed
  have total: "(if p = 0 then 0 else align) + k + (if q = 0 then 0 else align) =
      of_nat (?x + ?n + to_block bsz (?x + ?n) - (?x - ?x mod bsz))"
  proof -
    have whole: "of_nat (unat w) = w" for w :: u32 by simp
    have nz: "p = 0 \<longleftrightarrow> to_block bsz ?x = 0" "q = 0 \<longleftrightarrow> unat q = 0" unfolding pu [symmetric] by (simp_all add: unat_eq_zero)
    have z: "(if p = 0 then 0 else align) = of_nat (if to_block bsz ?x = 0 then 0 else bsz)"
        "(if q = 0 then 0 else align) = of_nat (if unat q = 0 then 0 else bsz)"
      unfolding nz using whole [of align] na by simp_all
    have zk: "k = of_nat (?n - to_block bsz ?x - unat q)" using whole [of k] unfolding ku pu by simp
    have "unat q = (?n - to_block bsz ?x) mod bsz" using qu pu by simp
    then have sum: "(if to_block bsz ?x = 0 then 0 else bsz) + (?n - to_block bsz ?x - unat q) + (if unat q = 0 then 0 else bsz) =
        ?x + ?n + to_block bsz (?x + ?n) - (?x - ?x mod bsz)" using n(2) by (rule rounded_length)
    show ?thesis unfolding z zk of_nat_add [symmetric] by (rule arg_cong [OF sum])
  qed
  have nz: "n \<noteq> 0" using n(1) by auto
  have "vs_read drv malloc buf x n extra s =
      (if p \<noteq> 0 \<or> q \<noteq> 0 then malloc align else Some []) \<bind> (\<lambda>tmp. read_parts read align p q extra x n tmp buf s)"
    unfolding p_def q_def by (simp add: vs_read_def dev r nz Let_def del: append.simps)
  also have "\<dots> = read_parts read align p q extra x n tmp buf s" unfolding t(1) by simp
  also have "\<dots> = read_last read align q extra (uint p + int (unat k)) x2 ((if p = 0 then 0 else align) + k) tmp1
        (?pre @ drop (unat k) (drop (unat p) buf)) (s\<lparr>vs_world := w2\<rparr>)"
    using g(1) unfolding read_parts_def f(1) k_def [symmetric] by (simp add: k_def [symmetric] del: drop_drop)
  finally have "vs_read drv malloc buf x n extra s = read_last read align q extra (uint p + int (unat k)) x2 ((if p = 0 then 0 else align) + k) tmp1
        (?pre @ drop (unat k) (drop (unat p) buf)) (s\<lparr>vs_world := w2\<rparr>)" .
  then show ?thesis using h unfolding bytes total by (intro exI [of _ w3]) simp
qed

end


text \<open>The RAM disk is such a device: its disk is the DRAM from the place of the images on.\<close>

lemma ram_addr_inside:
  assumes "0x1000000 \<le> unat x" and "unat x < 0x81000000"
  shows "unat (ram_addr x) = unat x + 0x7F000000"
proof -
  have a: "unat (x AND 0xffffffff) = unat x"
    using unat_and_mask [of x 32] assms(2) by simp
  then have "unat (ucast (x AND 0xffffffff) :: u32) = unat x"
    using assms(2) by (simp add: unsigned_ucast_eq take_bit_nat_eq_self_iff)
  then have "unat (ucast (x AND 0xffffffff) + 0x7F000000 :: u32) = unat x + 0x7F000000"
    using assms(2) by (simp add: unat_word_ariths)
  moreover have "ram_addr x = ucast (x AND 0xffffffff) + 0x7F000000"
    by (simp add: ram_addr_def DRAM_BASE_PA_def IUS_DEFAULT_LOCATION_def)
  ultimately show ?thesis by simp
qed

interpretation ram: block_device ram_vs_read "0x200" "\<lambda>w a. dram w (a + 0x7F000000)" "0x1000000" "0x81000000"
proof unfold_locales
  show "\<exists>k<31. (0x200 :: u32) = 2 ^ k" by (intro exI [of _ 9]) simp
next
  fix off :: loff and n :: u32 and w :: "'h world" and extra
  assume x: "0x1000000 \<le> unat off" "unat off + unat n \<le> 0x81000000" and n: "0 < sint n"
  have n0: "0 < unat n" using n by (simp add: sint_u32_pos)
  have lt: "unat off < 0x81000000" using x(2) n0 by linarith
  have a: "unat (ram_addr off) = unat off + 0x7F000000" by (rule ram_addr_inside [OF x(1) lt])
  have "\<not> sint off < uint IUS_DEFAULT_LOCATION"
  proof -
    have u: "uint off = int (unat off)" by (rule uint_nat)
    have "uint off < 0x81000000" unfolding u using lt by linarith
    then have "uint off < 2 ^ 63" by simp
    moreover have "- (2 ^ 63) \<le> uint off" by (rule order_trans [of _ 0]) simp_all
    ultimately have "signed_take_bit 63 (uint off) = uint off" by (intro signed_take_bit_int_eq_self)
    then have "sint off = int (unat off)" unfolding u [symmetric] by (simp add: sint_uint)
    then have "0x1000000 \<le> sint off" using x(1) by linarith
    then show ?thesis by (simp add: IUS_DEFAULT_LOCATION_def)
  qed
  moreover have "map (\<lambda>i. dram w (unat (ram_addr off) + i)) [0..<unat n] =
      map (\<lambda>a. dram w (a + 0x7F000000)) [unat off ..< unat off + unat n]"
    unfolding a by (intro nth_equalityI) (simp_all add: ac_simps)
  ultimately show "\<exists>w'. ram_vs_read w off n extra = Some (n, map (\<lambda>a. dram w (a + 0x7F000000)) [unat off ..< unat off + unat n], w') \<and>
      (\<lambda>a. dram w' (a + 0x7F000000)) = (\<lambda>a. dram w (a + 0x7F000000))"
    using x(2) a by (auto simp: ram_vs_read_def)
qed simp_all

section \<open>The devices\<close>

definition vs_names :: "string list" where
  "vs_names = [''bnd'', ''nnd'', ''fnd'', ''eeprom'', ''flash'', ''hd'', ''mmc0'', ''mmc1'', ''mmc2'', ''udisk0'', ''udisk1'',
     ''udc'', ''eth'', ''ram'']"

lemma vs_list_names: "map vs_name (vs_list drv) = vs_names"
  by (simp add: vs_list_def vs_names_def vs_plain_def vs_none_def)

lemma vs_list_length: "length (vs_list drv) = 14"
  by (simp add: vs_list_def)

lemma vs_names_ok: "list_all (\<lambda>n. NUL \<notin> set n \<and> length n < 16) vs_names" "distinct vs_names" "length vs_names = 14"
  by (simp_all add: vs_names_def)

lemma vs_name_nth: "i < 14 \<Longrightarrow> vs_name (vs_list drv ! i) = vs_names ! i"
  using vs_list_names [of drv] by (metis nth_map vs_list_length)

lemma vs_names_nth: "i < 14 \<Longrightarrow> NUL \<notin> set (vs_names ! i)" "i < 14 \<Longrightarrow> length (vs_names ! i) < 16"
  using vs_names_ok by (auto simp: list_all_length)

lemma vs_names_direct:
  assumes "i < 14" and "i \<noteq> 1" and "i \<noteq> 2"
  shows "take 3 (vs_names ! i) \<noteq> ''fnd''" "take 3 (vs_names ! i) \<noteq> ''nnd''"
proof -
  have "list_all (\<lambda>i. i = 1 \<or> i = 2 \<or> take 3 (vs_names ! i) \<noteq> ''fnd'' \<and> take 3 (vs_names ! i) \<noteq> ''nnd'') [0..<14]"
    by (simp add: vs_names_def upt_rec numeral_eq_Suc)
  then show "take 3 (vs_names ! i) \<noteq> ''fnd''" "take 3 (vs_names ! i) \<noteq> ''nnd''" using assms by (auto simp: list_all_length)
qed

lemma name_is_eq:
  assumes "NUL \<notin> set a" and "NUL \<notin> set b" and "length a < 16"
  shows "name_is a b = Some (a = b)" "name_is b a = Some (a = b)"
proof -
  have c: "cz (a @ [NUL]) = a" "cz (b @ [NUL]) = b" using cz_append assms by auto
  have t: "take 16 a = take 16 b \<longleftrightarrow> a = b"
  proof
    assume e: "take 16 a = take 16 b"
    then have "length (take 16 b) < 16" using assms(3) by (metis take_all less_imp_le)
    then show "a = b" using e assms(3) by (simp add: min_def split: if_splits)
  qed simp
  show "name_is a b = Some (a = b)" "name_is b a = Some (a = b)"
    using strncmp_at_cz [of 0 "a @ [NUL]" 0 "b @ [NUL]" 16] strncmp_at_cz [of 0 "b @ [NUL]" 0 "a @ [NUL]" 16] c t
    by (auto simp: name_is_def)
qed

lemma name_index_find:
  assumes "distinct ns" and "i < length ns" and "\<forall>n \<in> set ns. same n = Some (n = ns ! i)"
  shows "name_index same j ns = Some (Some (j + i))"
  using assms
proof (induction ns arbitrary: i j)
  case (Cons n ns)
  show ?case
  proof (cases i)
    case 0
    then show ?thesis using Cons.prems by simp
  next
    case (Suc k)
    then show ?thesis using Cons.prems Cons.IH [of k "j + 1"] by auto
  qed
qed simp

lemma name_index_none: "\<forall>n \<in> set ns. same n = Some False \<Longrightarrow> name_index same j ns = Some None"
  by (induction ns arbitrary: j) auto


lemma vs_assign_by_id_ok: "id_valid dev \<Longrightarrow> vs_assign_by_id drv dev False s = Some (0, s\<lparr>vs_current := Some (nat dev)\<rparr>)"
  by (simp add: vs_assign_by_id_def)

lemma vs_names_found:
  assumes "i < 14"
  shows "name_index (\<lambda>n. name_is n (vs_names ! i)) 0 vs_names = Some (Some i)"
    "name_index (\<lambda>n. name_is (vs_names ! i) n) 0 vs_names = Some (Some i)"
proof -
  have "\<forall>n \<in> set vs_names. name_is n (vs_names ! i) = Some (n = vs_names ! i) \<and> name_is (vs_names ! i) n = Some (n = vs_names ! i)"
    using vs_names_ok(1) vs_names_nth [OF assms] by (auto simp: list_all_iff name_is_eq)
  then show "name_index (\<lambda>n. name_is n (vs_names ! i)) 0 vs_names = Some (Some i)"
    "name_index (\<lambda>n. name_is (vs_names ! i) n) 0 vs_names = Some (Some i)"
    using name_index_find [OF vs_names_ok(2), of i _ 0] assms vs_names_ok(3) by auto
qed

lemma vs_names_missing:
  assumes "NUL \<notin> set name" and "name \<notin> set vs_names"
  shows "name_index (\<lambda>n. name_is n name) 0 vs_names = Some None" "name_index (\<lambda>n. name_is name n) 0 vs_names = Some None"
  using vs_names_ok(1) assms by (auto simp: list_all_iff name_is_eq intro!: name_index_none)

text \<open>
  Where \<open>vs_read\<close> goes wrong: an unaligned start with fewer bytes wanted than the block has left fills the
  block into the caller's buffer (\<open>vs_read_overrun\<close> above), and the mask of the first block is a 32-bit number
  that clears the upper half of the offset.
\<close>

lemma high_start_lost: "(0x100000200 + 1 :: loff) AND ucast (NOT ((0x200 - 1) :: u32)) = 0x200"
  by simp

text \<open>The flags of the table give the plain NAND and the one without check codes the same number.\<close>

lemma fnd_flag: "drop_bit 24 (vs_flag (vs_list drv ! 2)) = 1" "drop_bit 24 (vs_flag (vs_list drv ! 1)) = 1"
  by (simp_all add: vs_list_def vs_plain_def vs_none_def DEVICE_BURNDST_def DEVICE_ID_def DEVICE_ERASABLE_def)

section \<open>Properties\<close>

text \<open>
  C9: Reading a device of whole blocks (\<open>block_device\<close>): after \<open>vs_assign_by_id\<close> of any device but
  \<open>nnd\<close> and \<open>fnd\<close> (1 and 2, which \<open>vs_read\<close> treats apart), \<open>vs_read\<close> of a positive number \<open>n\<close> of
  bytes inside the device, into a buffer of at least \<open>n\<close>, puts those bytes of the disk at the start of the
  buffer, leaves the buffer behind them as it was, and returns the number of bytes of all the blocks it has
  read.  This is so for a start on a block boundary, and for a start inside a block, below 4 GB, when the range
  reaches the end of that block.  When it ends before, the code copies up to the end of the block all the same:
  with a buffer that does not reach that far it is a write outside the buffer, \<open>None\<close>.  An unaligned start of
  4 GB or more is not covered (the code reads the wrong block there, \<open>high_start_lost\<close>), nor is a \<open>malloc\<close> that
  has no block to give (\<open>panic\<close>).
\<close>

theorem vs_read_correct:
  assumes "block_device read align disk lo cap"
    and "id_valid dev" and "dev \<noteq> 1" and "dev \<noteq> 2"
    and "vs_op_read (vs_list drv ! nat dev) = Some read"
    and "vs_op_align (vs_list drv ! nat dev) = Some al" and "al (vs_world s) = align"
    and "0 < sint n" and "lo \<le> unat x" and "unat x + unat n \<le> cap"
    and "unat x mod unat align \<noteq> 0 \<longrightarrow> unat x < 2 ^ 32"
    and "unat n \<le> length buf" and "\<exists>t. malloc align = Some t \<and> length t = unat align"
  shows "\<exists>s1. vs_assign_by_id drv dev False s = Some (0, s1) \<and>
    (if to_block (unat align) (unat x) \<le> unat n
     then \<exists>w'. vs_read drv malloc buf x n extra s1 =
        Some (of_nat (unat x + unat n + to_block (unat align) (unat x + unat n) - (unat x - unat x mod unat align)),
          map (disk (vs_world s)) [unat x ..< unat x + unat n] @ drop (unat n) buf, s1\<lparr>vs_world := w'\<rparr>) \<and>
        disk w' = disk (vs_world s)
     else length buf < to_block (unat align) (unat x) \<longrightarrow> vs_read drv malloc buf x n extra s1 = None)"
proof -
  let ?s = "s\<lparr>vs_current := Some (nat dev)\<rparr>" and ?d = "vs_list drv ! nat dev"
  have i: "nat dev < 14" "nat dev \<noteq> 1" "nat dev \<noteq> 2" using assms(2-4) by (auto simp: id_valid_def)
  have c: "cur drv ?s = Some ?d" by (simp add: cur_def)
  have a: "vs_align drv ?s DEV_CURRENT = align"
    using assms(6,7) c by (simp add: vs_align_def dev_of_def DEV_CURRENT_def id_valid_def)
  have nm: "NUL \<notin> set (vs_name ?d)" "take 3 (vs_name ?d) \<noteq> ''fnd''" "take 3 (vs_name ?d) \<noteq> ''nnd''"
    using vs_names_nth(1) [OF i(1)] vs_names_direct [OF i] by (simp_all add: vs_name_nth i(1))
  note bs = block_device.bsz_def [OF assms(1)]
  note rd = block_device.vs_read_disk [OF assms(1) c assms(5) a nm assms(8), unfolded bs]
  note ov = block_device.vs_read_overrun [OF assms(1) c assms(5) a nm assms(8,9), unfolded bs]
  have "\<exists>w'. vs_read drv malloc buf x n extra ?s =
      Some (of_nat (unat x + unat n + to_block (unat align) (unat x + unat n) - (unat x - unat x mod unat align)),
        map (disk (vs_world ?s)) [unat x ..< unat x + unat n] @ drop (unat n) buf, ?s\<lparr>vs_world := w'\<rparr>) \<and>
      disk w' = disk (vs_world ?s)" if "to_block (unat align) (unat x) \<le> unat n"
    by (rule rd) (use that assms(9-13) in blast)+
  moreover have "vs_read drv malloc buf x n extra ?s = None"
    if "\<not> to_block (unat align) (unat x) \<le> unat n" "length buf < to_block (unat align) (unat x)"
  proof (rule ov)
    show "unat x < 2 ^ 32" using that(1) assms(11) by (auto simp: to_block_def split: if_splits)
  qed (use that assms(10,13) in auto)
  ultimately show ?thesis using vs_assign_by_id_ok [OF assms(2), of drv s] by auto
qed

theorem vs_read_correct_witness:
  "\<forall>drv w. \<exists>s1 s2 w'. vs_assign_by_id drv 13 False \<lparr>vs_current = None, vs_world = w\<rparr> = Some (0, s1) \<and>
    vs_read drv (\<lambda>n. Some (replicate (unat n) NUL)) (replicate 1000 NUL) 0x1000010 1000 0 s1 =
      Some (1024, map (\<lambda>a. dram w (a + 0x7F000000)) [0x1000010 ..< 0x10003F8], s1\<lparr>vs_world := w'\<rparr>) \<and>
    vs_assign_by_id drv 13 False \<lparr>vs_current = None, vs_world = w\<rparr> = Some (0, s2) \<and>
    vs_read drv (\<lambda>n. Some (replicate (unat n) NUL)) (replicate 100 NUL) 0x1000010 100 0 s2 = None"
proof (intro allI)
  fix drv :: "'h drivers" and w :: "'h world"
  let ?s = "\<lparr>vs_current = None, vs_world = w\<rparr>"
  have o: "vs_op_read (vs_list drv ! nat 13) = Some ram_vs_read" "vs_op_align (vs_list drv ! nat 13) = Some ram_vs_align"
    by (simp_all add: vs_list_def vs_none_def)
  have 1: "\<exists>s1 w'. vs_assign_by_id drv 13 False ?s = Some (0, s1) \<and>
    vs_read drv (\<lambda>n. Some (replicate (unat n) NUL)) (replicate 1000 NUL) 0x1000010 1000 0 s1 =
      Some (1024, map (\<lambda>a. dram w (a + 0x7F000000)) [0x1000010 ..< 0x10003F8], s1\<lparr>vs_world := w'\<rparr>)"
    using vs_read_correct [OF ram.block_device_axioms _ _ _ o, of ?s 1000 "0x1000010" "replicate 1000 NUL"
        "\<lambda>n. Some (replicate (unat n) NUL)" 0]
    by (auto simp: id_valid_def ram_vs_align_def sint_u32_pos to_block_def)
  have 2: "\<exists>s2. vs_assign_by_id drv 13 False ?s = Some (0, s2) \<and>
    vs_read drv (\<lambda>n. Some (replicate (unat n) NUL)) (replicate 100 NUL) 0x1000010 100 0 s2 = None"
    using vs_read_correct [OF ram.block_device_axioms _ _ _ o, of ?s 100 "0x1000010" "replicate 100 NUL"
        "\<lambda>n. Some (replicate (unat n) NUL)" 0]
    by (auto simp: id_valid_def ram_vs_align_def sint_u32_pos to_block_def)
  show "\<exists>s1 s2 w'. vs_assign_by_id drv 13 False ?s = Some (0, s1) \<and>
    vs_read drv (\<lambda>n. Some (replicate (unat n) NUL)) (replicate 1000 NUL) 0x1000010 1000 0 s1 =
      Some (1024, map (\<lambda>a. dram w (a + 0x7F000000)) [0x1000010 ..< 0x10003F8], s1\<lparr>vs_world := w'\<rparr>) \<and>
    vs_assign_by_id drv 13 False ?s = Some (0, s2) \<and>
    vs_read drv (\<lambda>n. Some (replicate (unat n) NUL)) (replicate 100 NUL) 0x1000010 100 0 s2 = None"
    using 1 2 by blast
qed

text \<open>
  The table of devices: a number and its name choose the same device, the number of its name is the
  number, and every other name is \<open>DEV_NONE\<close> and leaves no device; without a device every operation that
  has something to do is \<open>-2\<close>, and \<open>-3\<close> on a device that has no such function.
\<close>

theorem vs_devices_correct:
  assumes "NUL \<notin> set name" and "name \<notin> set vs_names"
  shows "(\<forall>dev. id_valid dev \<longrightarrow> (\<exists>n. vs_device_name drv dev = Some n \<and> vs_device_id drv n = Some dev \<and>
      vs_assign_by_name drv n reset s = vs_assign_by_id drv dev reset s)) \<and>
    vs_device_id drv name = Some DEV_NONE \<and> vs_assign_by_name drv name reset s = Some (- 1, s\<lparr>vs_current := None\<rparr>) \<and>
    (\<forall>t. vs_current t = None \<longrightarrow> vs_reset drv t = Some (- 2, t) \<and> vs_erase drv x n t = Some (- 2, t) \<and>
      (n \<noteq> 0 \<longrightarrow> vs_write drv buf x n extra t = Some (- 2, t)) \<and> vs_read drv malloc buf x n extra t = Some (- 2, buf, t)) \<and>
    (\<forall>t. vs_current t = Some 11 \<longrightarrow> vs_erase drv x n t = Some (- 3, t) \<and>
      (n \<noteq> 0 \<longrightarrow> vs_write drv buf x n extra t = Some (- 3, t)) \<and> vs_read drv malloc buf x n extra t = Some (- 3, buf, t))"
proof (intro conjI)
  show "\<forall>dev. id_valid dev \<longrightarrow> (\<exists>n. vs_device_name drv dev = Some n \<and> vs_device_id drv n = Some dev \<and>
      vs_assign_by_name drv n reset s = vs_assign_by_id drv dev reset s)"
  proof (intro allI impI)
    fix dev
    assume v: "id_valid dev"
    then have i: "nat dev < 14" "int (nat dev) = dev" by (auto simp: id_valid_def)
    show "\<exists>n. vs_device_name drv dev = Some n \<and> vs_device_id drv n = Some dev \<and>
        vs_assign_by_name drv n reset s = vs_assign_by_id drv dev reset s"
      using vs_names_found [OF i(1)] v i
      by (intro exI [of _ "vs_names ! nat dev"])
        (simp add: vs_device_name_def vs_device_id_def vs_assign_by_name_def vs_assign_by_id_def vs_list_names vs_name_nth Let_def)
  qed
  show "vs_device_id drv name = Some DEV_NONE" "vs_assign_by_name drv name reset s = Some (- 1, s\<lparr>vs_current := None\<rparr>)"
    using vs_names_missing [OF assms] by (simp_all add: vs_device_id_def vs_assign_by_name_def vs_list_names)
  show "\<forall>t. vs_current t = None \<longrightarrow> vs_reset drv t = Some (- 2, t) \<and> vs_erase drv x n t = Some (- 2, t) \<and>
      (n \<noteq> 0 \<longrightarrow> vs_write drv buf x n extra t = Some (- 2, t)) \<and> vs_read drv malloc buf x n extra t = Some (- 2, buf, t)"
    by (simp add: vs_reset_def vs_erase_def vs_write_def vs_read_def vs_call_def cur_def)
  show "\<forall>t. vs_current t = Some 11 \<longrightarrow> vs_erase drv x n t = Some (- 3, t) \<and>
      (n \<noteq> 0 \<longrightarrow> vs_write drv buf x n extra t = Some (- 3, t)) \<and> vs_read drv malloc buf x n extra t = Some (- 3, buf, t)"
    by (simp add: vs_erase_def vs_write_def vs_read_def vs_call_def cur_def vs_list_def vs_none_def)
qed

theorem vs_devices_correct_witness:
  "\<forall>drv s. vs_device_id drv ''hdisk'' = Some 15 \<and> vs_device_id drv ''mmc1'' = Some 7"
proof (intro allI)
  fix drv :: "'h drivers" and s :: "'h vstate"
  have n: "NUL \<notin> set ''hdisk''" "''hdisk'' \<notin> set vs_names" by (simp_all add: vs_names_def)
  note d = vs_devices_correct [OF n, of drv False s 0 0 "[]" 0 "\<lambda>_. None"]
  have v: "id_valid 7" "vs_device_name drv 7 = Some ''mmc1''"
    by (simp_all add: id_valid_def vs_device_name_def vs_name_nth vs_names_def)
  then show "vs_device_id drv ''hdisk'' = Some 15 \<and> vs_device_id drv ''mmc1'' = Some 7"
    using d by (auto simp: DEV_NONE_def)
qed

end
