(* ===== verification/MemSize.thy ===== *)
theory MemSize
  imports Prelude
begin

text \<open>
  How much RAM there is, \<^verbatim>\<open>common/memsize.c\<close>: \<open>get_ram_size\<close> writes patterns at the powers of two and looks
  which of them are still there.  \<^verbatim>\<open>long\<close> is a 32-bit word; an address is the number of longs from the base.
\<close>

section \<open>The code\<close>

text \<open>
  The bus is an argument: \<open>dec\<close> gives the cell behind an address, or none, and then a read gives \<open>open_bus\<close>
  and a write has no effect.
\<close>

definition bus_rd :: "(nat \<Rightarrow> nat option) \<Rightarrow> (nat \<Rightarrow> u32) \<Rightarrow> (nat \<Rightarrow> u32) \<Rightarrow> nat \<Rightarrow> u32" where
  "bus_rd dec open_bus m a = (case dec a of None \<Rightarrow> open_bus a | Some c \<Rightarrow> m c)"

definition bus_wr :: "(nat \<Rightarrow> nat option) \<Rightarrow> (nat \<Rightarrow> u32) \<Rightarrow> nat \<Rightarrow> u32 \<Rightarrow> (nat \<Rightarrow> u32)" where
  "bus_wr dec m a v = (case dec a of None \<Rightarrow> m | Some c \<Rightarrow> m(c := v))"

text \<open>The first loop: save, and write the complement of the position; \<open>save\<close> has 32 elements.\<close>

partial_function (option) ram_mark ::
    "(nat \<Rightarrow> nat option) \<Rightarrow> (nat \<Rightarrow> u32) \<Rightarrow> u32 \<Rightarrow> (nat \<Rightarrow> u32) \<Rightarrow> u32 list \<Rightarrow> nat \<Rightarrow> ((nat \<Rightarrow> u32) \<times> u32 list \<times> nat) option" where
  "ram_mark dec open_bus cnt m save i =
     (if 0 < sint cnt
      then do {
        save \<leftarrow> wr save i (bus_rd dec open_bus m (unat cnt));
        ram_mark dec open_bus (signed_drop_bit 1 cnt) (bus_wr dec m (unat cnt) (NOT cnt)) save (i + 1) }
      else Some (m, save, i))"

text \<open>\<open>save[--i]\<close>.\<close>

definition unsave :: "u32 list \<Rightarrow> nat \<Rightarrow> (u32 \<times> nat) option" where
  "unsave save i = (if i = 0 then None else map_option (\<lambda>v. (v, i - 1)) (rd save (i - 1)))"

partial_function (option) ram_restore ::
    "(nat \<Rightarrow> nat option) \<Rightarrow> u32 \<Rightarrow> u32 \<Rightarrow> (nat \<Rightarrow> u32) \<Rightarrow> u32 list \<Rightarrow> nat \<Rightarrow> (nat \<Rightarrow> u32) option" where
  "ram_restore dec n cnt m save i =
     (if cnt < n
      then do {
        (v, i) \<leftarrow> unsave save i;
        ram_restore dec n (push_bit 1 cnt) (bus_wr dec m (unat cnt) v) save i }
      else Some m)"

text \<open>The last loop; \<open>Some\<close> size is an early return at the first pattern that is gone.\<close>

partial_function (option) ram_check ::
    "(nat \<Rightarrow> nat option) \<Rightarrow> (nat \<Rightarrow> u32) \<Rightarrow> u32 \<Rightarrow> u32 \<Rightarrow> (nat \<Rightarrow> u32) \<Rightarrow> u32 list \<Rightarrow> nat \<Rightarrow> (u32 option \<times> (nat \<Rightarrow> u32)) option" where
  "ram_check dec open_bus n cnt m save i =
     (if cnt < n
      then do {
        let val = bus_rd dec open_bus m (unat cnt);
        (v, i) \<leftarrow> unsave save i;
        let m = bus_wr dec m (unat cnt) v;
        if val \<noteq> NOT cnt
        then do { m \<leftarrow> ram_restore dec n (push_bit 1 cnt) m save i; Some (Some (cnt * 4), m) }
        else ram_check dec open_bus n (push_bit 1 cnt) m save i }
      else Some (None, m))"

definition get_ram_size ::
    "(nat \<Rightarrow> nat option) \<Rightarrow> (nat \<Rightarrow> u32) \<Rightarrow> u32 list \<Rightarrow> (nat \<Rightarrow> u32) \<Rightarrow> u32 \<Rightarrow> (u32 \<times> (nat \<Rightarrow> u32)) option" where
  "get_ram_size dec open_bus save m maxsize = do {
     let n = maxsize div 4;
     (m, save, i) \<leftarrow> ram_mark dec open_bus (drop_bit 1 n) m save 0;
     save \<leftarrow> wr save i (bus_rd dec open_bus m 0);
     let m = bus_wr dec m 0 0;
     if bus_rd dec open_bus m 0 \<noteq> 0
     then do {
       v \<leftarrow> rd save i;
       m \<leftarrow> ram_restore dec n 1 (bus_wr dec m 0 v) save i;
       Some (0, m) }
     else do {
       (r, m) \<leftarrow> ram_check dec open_bus n 1 m save i;
       Some (case r of Some sz \<Rightarrow> sz | None \<Rightarrow> maxsize, m) } }"


section \<open>What the loops do\<close>

lemma pow2_less_u32: "i < 32 \<Longrightarrow> j < 32 \<Longrightarrow> (2 ^ i :: u32) < 2 ^ j \<longleftrightarrow> i < j"
  by (simp add: word_less_nat_alt unat_pow2_u32)

lemma pow2_double: "push_bit 1 (2 ^ j :: u32) = 2 ^ Suc j"
  by (simp add: push_bit_eq_mult mult.commute)

lemma drop_pow2: "drop_bit 1 (2 ^ Suc j :: u32) = 2 ^ j" if "Suc j < 32"
proof -
  have "unat (drop_bit 1 (2 ^ Suc j :: u32)) = unat (2 ^ Suc j :: u32) div 2" by (simp only: unat_drop_bit_eq drop_bit_eq_div power_one_right unat_div) simp
  also have "\<dots> = unat (2 ^ j :: u32)" using that unat_pow2_u32 [of "Suc j"] unat_pow2_u32 [of j] by simp
  finally show ?thesis by (simp add: word_unat_eq_iff)
qed

lemma signed_drop_pow2: "signed_drop_bit 1 (2 ^ j :: u32) = drop_bit 1 (2 ^ j)" if "j < 31"
  by (rule bit_word_eqI) (use that in \<open>auto simp: bit_signed_drop_bit_iff bit_drop_bit_eq bit_exp_iff\<close>)

lemma pow2_pos: "j < 31 \<Longrightarrow> 0 < sint (2 ^ j :: u32)"
proof -
  assume j: "j < 31"
  have "(2 :: nat) ^ j < 2 ^ 31" using j by (intro power_strict_increasing) simp_all
  then show ?thesis using unat_pow2_u32 [of j] j by (simp add: sint_u32_pos)
qed

text \<open>The bus and the memory after the first \<open>t\<close> marks of \<open>k\<close>, and what was saved at mark \<open>t\<close>.\<close>

fun marks :: "(nat \<Rightarrow> nat option) \<Rightarrow> (nat \<Rightarrow> u32) \<Rightarrow> nat \<Rightarrow> nat \<Rightarrow> (nat \<Rightarrow> u32)" where
  "marks dec m k 0 = m"
| "marks dec m k (Suc t) = bus_wr dec (marks dec m k t) (2 ^ (k - Suc t)) (NOT (2 ^ (k - Suc t)))"

definition saved :: "(nat \<Rightarrow> nat option) \<Rightarrow> (nat \<Rightarrow> u32) \<Rightarrow> (nat \<Rightarrow> u32) \<Rightarrow> nat \<Rightarrow> nat \<Rightarrow> u32" where
  "saved dec open_bus m k t = bus_rd dec open_bus (marks dec m k t) (2 ^ (k - Suc t))"

lemma ram_mark_run:
  assumes "t \<le> k" and "k < 32" and "length save = 32"
  shows "\<exists>save'. ram_mark dec open_bus (drop_bit 1 (2 ^ (k - t))) (marks dec m k t) save t = Some (marks dec m k k, save', k) \<and>
    length save' = 32 \<and> (\<forall>u < t. save' ! u = save ! u) \<and> (\<forall>u. t \<le> u \<longrightarrow> u < k \<longrightarrow> save' ! u = saved dec open_bus m k u)"
  using assms
proof (induction "k - t" arbitrary: t save)
  case 0
  then have "t = k" by simp
  then show ?case using 0 by (subst ram_mark.simps) simp
next
  case (Suc d)
  let ?s = "save[t := saved dec open_bus m k t]"
  have kt: "k - t = Suc (k - Suc t)" "k - Suc t < 31" using Suc.hyps(2) Suc.prems by simp_all
  have c: "drop_bit 1 (2 ^ (k - t) :: u32) = 2 ^ (k - Suc t)" using kt drop_pow2 [of "k - Suc t"] by simp
  have u: "unat (2 ^ (k - Suc t) :: u32) = 2 ^ (k - Suc t)" using kt(2) by (simp add: unat_pow2_u32)
  have "ram_mark dec open_bus (drop_bit 1 (2 ^ (k - t))) (marks dec m k t) save t =
      ram_mark dec open_bus (drop_bit 1 (2 ^ (k - Suc t))) (marks dec m k (Suc t)) ?s (Suc t)"
    unfolding c using Suc.prems Suc.hyps(2)
    by (subst ram_mark.simps) (simp add: pow2_pos [OF kt(2)] u saved_def signed_drop_pow2 [OF kt(2), unfolded One_nat_def])
  moreover have "\<exists>save'. ram_mark dec open_bus (drop_bit 1 (2 ^ (k - Suc t))) (marks dec m k (Suc t)) ?s (Suc t) = Some (marks dec m k k, save', k) \<and>
      length save' = 32 \<and> (\<forall>u < Suc t. save' ! u = ?s ! u) \<and> (\<forall>u. Suc t \<le> u \<longrightarrow> u < k \<longrightarrow> save' ! u = saved dec open_bus m k u)"
    by (rule Suc.hyps(1)) (use Suc.hyps(2) Suc.prems in simp_all)
  ultimately obtain save' where s: "ram_mark dec open_bus (drop_bit 1 (2 ^ (k - t))) (marks dec m k t) save t = Some (marks dec m k k, save', k)"
      "length save' = 32" "\<forall>u < Suc t. save' ! u = ?s ! u" "\<forall>u. Suc t \<le> u \<longrightarrow> u < k \<longrightarrow> save' ! u = saved dec open_bus m k u"
    by auto
  have "save' ! t = saved dec open_bus m k t" using s(3) Suc.prems Suc.hyps(2) by simp
  then have "\<forall>u. t \<le> u \<longrightarrow> u < k \<longrightarrow> save' ! u = saved dec open_bus m k u" using s(4) by (metis Suc_leI le_neq_implies_less)
  moreover have "\<forall>u < t. save' ! u = save ! u" using s(3) by simp
  ultimately show ?case using s(1,2) by blast
qed


text \<open>
  A bus with \<open>2 ^ r\<close> cells: the addresses below are the cells, and a power of two from there on is either a
  mirror of the base or nothing, with something else than the pattern on the open bus.
\<close>

definition ram_bus :: "(nat \<Rightarrow> nat option) \<Rightarrow> (nat \<Rightarrow> u32) \<Rightarrow> nat \<Rightarrow> nat \<Rightarrow> bool" where
  "ram_bus dec open_bus r k \<longleftrightarrow> dec 0 = Some 0 \<and> (\<forall>i < r. dec (2 ^ i) = Some (2 ^ i)) \<and>
     (\<forall>i. r \<le> i \<longrightarrow> i < k \<longrightarrow> dec (2 ^ i) = Some 0 \<or> dec (2 ^ i) = None \<and> open_bus (2 ^ i) \<noteq> NOT (2 ^ i))"

lemma ram_bus_high:
  "ram_bus dec open_bus r k \<Longrightarrow> r \<le> i \<Longrightarrow> i < k \<Longrightarrow> dec (2 ^ i) = Some 0 \<or> dec (2 ^ i) = None \<and> open_bus (2 ^ i) \<noteq> NOT (2 ^ i)"
  by (simp only: ram_bus_def)

lemma ram_bus_low: "ram_bus dec open_bus r k \<Longrightarrow> i < r \<Longrightarrow> dec (2 ^ i) = Some (2 ^ i)"
  by (simp add: ram_bus_def)

text \<open>The memory \<open>m\<close> with \<open>z\<close> at the base and the patterns of the positions from \<open>j\<close> on.\<close>

definition pattern :: "(nat \<Rightarrow> u32) \<Rightarrow> nat \<Rightarrow> u32 \<Rightarrow> nat \<Rightarrow> (nat \<Rightarrow> u32)" where
  "pattern m r z j = (\<lambda>c. if \<exists>i. j \<le> i \<and> i < r \<and> c = 2 ^ i then NOT (of_nat c) else if c = 0 then z else m c)"

lemma pattern_base [simp]: "pattern m r z j 0 = z"
  by (simp add: pattern_def)

lemma pattern_high: "r \<le> j \<Longrightarrow> pattern m r z j = m(0 := z)"
  by (auto simp: pattern_def fun_eq_iff)

lemma pattern_mark: "j < r \<Longrightarrow> (pattern m r z (Suc j))(2 ^ j := NOT (2 ^ j)) = pattern m r z j"
  by (auto simp: pattern_def fun_eq_iff Suc_le_eq)

lemma pattern_unmark: "j < r \<Longrightarrow> (pattern m r z j)(2 ^ j := m (2 ^ j)) = pattern m r z (Suc j)"
  by (auto simp: pattern_def fun_eq_iff Suc_le_eq)

lemma pattern_at: "j < r \<Longrightarrow> pattern m r z j (2 ^ j) = NOT (2 ^ j)" "pattern m r z (Suc j) (2 ^ j) = m (2 ^ j)"
  by (auto simp: pattern_def)

text \<open>What is at the base after the marks from \<open>j\<close> on.\<close>

fun base_after :: "(nat \<Rightarrow> nat option) \<Rightarrow> (nat \<Rightarrow> u32) \<Rightarrow> nat \<Rightarrow> nat \<Rightarrow> u32" where
  "base_after dec m k 0 = m 0"
| "base_after dec m k (Suc t) = (if dec (2 ^ (k - Suc t)) = Some 0 then NOT (2 ^ (k - Suc t)) else base_after dec m k t)"

lemma marks_pattern:
  assumes "ram_bus dec open_bus r k" and "r \<le> k" and "t \<le> k"
  shows "marks dec m k t = pattern m r (base_after dec m k t) (k - t)"
  using assms(3)
proof (induction t)
  case 0
  then show ?case using assms(2) by (simp add: pattern_high)
next
  case (Suc t)
  have e: "k - t = Suc (k - Suc t)" using Suc.prems by simp
  have ih: "marks dec m k t = pattern m r (base_after dec m k t) (k - t)" using Suc by simp
  show ?case
  proof (cases "k - Suc t < r")
    case True
    then have "dec (2 ^ (k - Suc t)) = Some (2 ^ (k - Suc t))" using assms(1) by (simp add: ram_bus_def)
    then show ?thesis using pattern_mark [OF True, of m "base_after dec m k t"]
      unfolding marks.simps base_after.simps ih e by (simp add: bus_wr_def)
  next
    case False
    then have le: "r \<le> k - Suc t" "r \<le> k - t" "k - Suc t < k" using Suc.prems by simp_all
    consider (mirror) "dec (2 ^ (k - Suc t)) = Some 0" | (hole) "dec (2 ^ (k - Suc t)) = None"
      using ram_bus_high [OF assms(1) le(1,3)] by (elim disjE conjE) simp_all
    then show ?thesis
    proof cases
      case mirror
      show ?thesis unfolding marks.simps base_after.simps ih pattern_high [OF le(1)] pattern_high [OF le(2)]
        by (simp only: bus_wr_def mirror option.case simp_thms if_True fun_upd_upd)
    next
      case hole
      show ?thesis unfolding marks.simps base_after.simps ih pattern_high [OF le(1)] pattern_high [OF le(2)]
        by (simp only: bus_wr_def hole option.case option.distinct if_False)
    qed
  qed
qed

text \<open>What was saved at position \<open>j\<close>.\<close>

lemma saved_value:
  assumes "ram_bus dec open_bus r k" and "r \<le> k" and "j < k"
  shows "j < r \<Longrightarrow> saved dec open_bus m k (k - Suc j) = m (2 ^ j)"
    and "r \<le> j \<Longrightarrow> dec (2 ^ j) = Some 0 \<Longrightarrow> saved dec open_bus m k (k - Suc j) = base_after dec m k (k - Suc j)"
proof -
  have e: "k - Suc (k - Suc j) = j" "k - (k - Suc j) = Suc j" using assms(3) by simp_all
  have p: "marks dec m k (k - Suc j) = pattern m r (base_after dec m k (k - Suc j)) (Suc j)"
    using marks_pattern [OF assms(1,2), of "k - Suc j" m] e by simp
  show "j < r \<Longrightarrow> saved dec open_bus m k (k - Suc j) = m (2 ^ j)"
    using assms(1) by (simp add: saved_def e p bus_rd_def ram_bus_def pattern_at)
  show "r \<le> j \<Longrightarrow> dec (2 ^ j) = Some 0 \<Longrightarrow> saved dec open_bus m k (k - Suc j) = base_after dec m k (k - Suc j)"
    by (simp add: saved_def e p bus_rd_def)
qed


text \<open>The restoring loop above the end of the memory: mirrors of the base get back what was there before them.\<close>

definition base_back :: "(nat \<Rightarrow> nat option) \<Rightarrow> (nat \<Rightarrow> u32) \<Rightarrow> nat \<Rightarrow> nat \<Rightarrow> nat \<Rightarrow> u32" where
  "base_back dec m r k j = (if \<exists>i. r \<le> i \<and> i < j \<and> dec (2 ^ i) = Some 0 then base_after dec m k (k - j) else 0)"

lemma base_back_step:
  assumes "ram_bus dec open_bus r k" and "r \<le> j" and "j < k"
  shows "bus_wr dec (m(0 := base_back dec m r k j)) (2 ^ j) (saved dec open_bus m k (k - Suc j)) = m(0 := base_back dec m r k (Suc j))"
proof (cases "dec (2 ^ j) = Some 0")
  case True
  then have "saved dec open_bus m k (k - Suc j) = base_after dec m k (k - Suc j)"
    using saved_value(2) [OF assms(1) _ assms(3,2)] assms(2,3) by simp
  moreover have "base_back dec m r k (Suc j) = base_after dec m k (k - Suc j)"
    using True assms(2) by (auto simp: base_back_def)
  ultimately show ?thesis by (simp only: bus_wr_def True option.case fun_upd_upd)
next
  case False
  then have n: "dec (2 ^ j) = None" using ram_bus_high [OF assms] by (elim disjE conjE) simp_all
  have "k - j = Suc (k - Suc j)" "k - Suc (k - Suc j) = j" using assms(3) by simp_all
  then have "base_after dec m k (k - j) = base_after dec m k (k - Suc j)" using False by (simp only: base_after.simps if_False)
  moreover have "(\<exists>i. r \<le> i \<and> i < Suc j \<and> dec (2 ^ i) = Some 0) \<longleftrightarrow> (\<exists>i. r \<le> i \<and> i < j \<and> dec (2 ^ i) = Some 0)"
    using False by (metis less_Suc_eq)
  ultimately have "base_back dec m r k (Suc j) = base_back dec m r k j" by (simp only: base_back_def)
  then show ?thesis by (simp only: bus_wr_def n option.case)
qed

lemma unsave_at: "j < k \<Longrightarrow> k \<le> 31 \<Longrightarrow> length save = 32 \<Longrightarrow> unsave save (k - j) = Some (save ! (k - Suc j), k - Suc j)"
  by (simp add: unsave_def)

lemma ram_restore_run:
  assumes "ram_bus dec open_bus r k" and "r \<le> j" and "j \<le> k" and "k \<le> 31" and "length save = 32"
    and "\<forall>u < k. save ! u = saved dec open_bus m k u"
  shows "ram_restore dec (2 ^ k) (2 ^ j) (m(0 := base_back dec m r k j)) save (k - j) = Some (m(0 := base_back dec m r k k))"
  using assms(2,3)
proof (induction "k - j" arbitrary: j)
  case 0
  then have "j = k" by simp
  then show ?case by (subst ram_restore.simps) simp
next
  case (Suc d)
  have jk: "j < k" "r \<le> j" using Suc by simp_all
  have lt: "(2 ^ j :: u32) < 2 ^ k" using jk assms(4) by (simp add: pow2_less_u32)
  have u: "unat (2 ^ j :: u32) = 2 ^ j" using jk assms(4) by (simp add: unat_pow2_u32)
  have v: "save ! (k - Suc j) = saved dec open_bus m k (k - Suc j)" using assms(6) jk by simp
  have "ram_restore dec (2 ^ k) (2 ^ j) (m(0 := base_back dec m r k j)) save (k - j) =
      ram_restore dec (2 ^ k) (2 ^ Suc j) (m(0 := base_back dec m r k (Suc j))) save (k - Suc j)"
    by (subst ram_restore.simps)
      (simp only: lt if_True unsave_at [OF jk(1) assms(4,5)] bind.bind_lunit prod.case u v pow2_double base_back_step [OF assms(1) jk(2,1)])
  also have "\<dots> = Some (m(0 := base_back dec m r k k))"
    by (rule Suc.hyps(1)) (use Suc.hyps(2) jk in simp_all)
  finally show ?case .
qed

lemma ram_check_run:
  assumes "ram_bus dec open_bus r k" and "r \<le> k" and "j \<le> r" and "k \<le> 31" and "length save = 32"
    and "\<forall>u < k. save ! u = saved dec open_bus m k u"
  shows "ram_check dec open_bus (2 ^ k) (2 ^ j) (pattern m r 0 j) save (k - j) =
    Some (if r < k then Some (2 ^ r * 4) else None, m(0 := base_back dec m r k k))"
  using assms(3)
proof (induction "r - j" arbitrary: j)
  case 0
  then have j: "j = r" by simp
  have "base_back dec m r k r = 0" by (auto simp: base_back_def)
  then have p: "pattern m r 0 r = m(0 := base_back dec m r k r)" by (simp add: pattern_high)
  show ?case
  proof (cases "r < k")
    case False
    then have "r = k" using assms(2) by simp
    then show ?thesis unfolding j p by (subst ram_check.simps) simp
  next
    case True
    have lt: "(2 ^ r :: u32) < 2 ^ k" using True assms(4) by (simp add: pow2_less_u32)
    have u: "unat (2 ^ r :: u32) = 2 ^ r" using True assms(4) by (simp add: unat_pow2_u32)
    have v: "save ! (k - Suc r) = saved dec open_bus m k (k - Suc r)" using assms(6) True by simp
    have "(0 :: u32) \<noteq> NOT (2 ^ r)"
    proof
      assume "(0 :: u32) = NOT (2 ^ r)"
      then have "bit (0 :: u32) 31 \<longleftrightarrow> bit (NOT (2 ^ r :: u32)) 31" by simp
      then show False using True assms(4) by (simp add: bit_not_iff bit_exp_iff)
    qed
    then have g: "bus_rd dec open_bus (m(0 := base_back dec m r k r)) (2 ^ r) \<noteq> NOT (2 ^ r)"
      using ram_bus_high [OF assms(1) order_refl True] by (auto simp: bus_rd_def base_back_def)
    have "ram_check dec open_bus (2 ^ k) (2 ^ r) (m(0 := base_back dec m r k r)) save (k - r) =
        do { m \<leftarrow> ram_restore dec (2 ^ k) (2 ^ Suc r) (m(0 := base_back dec m r k (Suc r))) save (k - Suc r); Some (Some (2 ^ r * 4), m) }"
      using g by (subst ram_check.simps)
        (simp only: lt if_True unsave_at [OF True assms(4,5)] bind.bind_lunit prod.case u v pow2_double Let_def
          base_back_step [OF assms(1) order_refl True] not_False_eq_True simp_thms)
    also have "ram_restore dec (2 ^ k) (2 ^ Suc r) (m(0 := base_back dec m r k (Suc r))) save (k - Suc r) =
        Some (m(0 := base_back dec m r k k))"
      by (rule ram_restore_run [OF assms(1) _ _ assms(4-6)]) (use True in simp_all)
    finally show ?thesis unfolding j p by (simp only: bind.bind_lunit True if_True)
  qed
next
  case (Suc d)
  have jr: "j < r" "j < k" using Suc.hyps(2) assms(2) by simp_all
  have lt: "(2 ^ j :: u32) < 2 ^ k" using jr assms(4) by (simp add: pow2_less_u32)
  have u: "unat (2 ^ j :: u32) = 2 ^ j" using jr assms(4) by (simp add: unat_pow2_u32)
  have v: "save ! (k - Suc j) = m (2 ^ j)" using assms(6) jr saved_value(1) [OF assms(1,2) jr(2,1)] by simp
  have d: "dec (2 ^ j) = Some (2 ^ j)" by (rule ram_bus_low [OF assms(1) jr(1)])
  have g: "bus_rd dec open_bus (pattern m r 0 j) (2 ^ j) = NOT (2 ^ j)" using pattern_at(1) [OF jr(1)] by (simp add: bus_rd_def d)
  have w: "bus_wr dec (pattern m r 0 j) (2 ^ j) (m (2 ^ j)) = pattern m r 0 (Suc j)" using pattern_unmark [OF jr(1)] by (simp add: bus_wr_def d)
  have "ram_check dec open_bus (2 ^ k) (2 ^ j) (pattern m r 0 j) save (k - j) =
      ram_check dec open_bus (2 ^ k) (2 ^ Suc j) (pattern m r 0 (Suc j)) save (k - Suc j)"
    by (subst ram_check.simps)
      (simp only: lt if_True unsave_at [OF jr(2) assms(4,5)] bind.bind_lunit prod.case u v pow2_double Let_def g w simp_thms if_False)
  also have "\<dots> = Some (if r < k then Some (2 ^ r * 4) else None, m(0 := base_back dec m r k k))"
    by (rule Suc.hyps(1)) (use Suc.hyps(2) jr in simp_all)
  finally show ?case .
qed


section \<open>Properties\<close>

text \<open>
  The long at the base is not given back when the whole range is RAM, nor when nothing above the end of the
  RAM is a mirror of it: \<open>save[i]\<close> is only read when the base does not hold the 0.
\<close>

lemma base_lost:
  "base_back dec m k k k = 0"
  "(\<forall>i. r \<le> i \<longrightarrow> i < k \<longrightarrow> dec (2 ^ i) = None) \<Longrightarrow> base_back dec m r k k = 0"
  by (auto simp: base_back_def)

text \<open>
  C36: \<open>get_ram_size\<close> measures the memory: asked about \<open>4 * 2 ^ k\<close> bytes where \<open>2 ^ r\<close> longs answer, with mirrors
  of the base or nothing at the powers of two above, it returns \<open>4 * 2 ^ r\<close>, ends, stays inside \<open>save\<close>, and
  leaves every long as it was but that at the base, which is given back when a mirror of it was written and
  is 0 else.
\<close>

theorem get_ram_size_correct:
  assumes "ram_bus dec open_bus r k" and "r \<le> k" and "k \<le> 29" and "length save = 32"
  shows "get_ram_size dec open_bus save m (4 * 2 ^ k) =
    Some (4 * 2 ^ r, m(0 := if \<exists>i. r \<le> i \<and> i < k \<and> dec (2 ^ i) = Some 0 then m 0 else 0))"
proof -
  let ?M = "marks dec m k k"
  have k31: "k \<le> 31" "k < 32" using assms(3) by simp_all
  have n: "(4 * 2 ^ k :: u32) div 4 = 2 ^ k"
  proof -
    have "(2 :: nat) ^ k \<le> 2 ^ 29" using assms(3) by (intro power_increasing) simp_all
    then have "unat (4 * 2 ^ k :: u32) = 4 * 2 ^ k" using unat_pow2_u32 [OF k31(2)] by (simp add: unat_word_ariths)
    then have "unat ((4 * 2 ^ k :: u32) div 4) = unat (2 ^ k :: u32)" using unat_pow2_u32 [OF k31(2)] by (simp add: unat_div)
    then show ?thesis by (simp add: word_unat_eq_iff)
  qed
  obtain s where s: "ram_mark dec open_bus (drop_bit 1 (2 ^ k)) m save 0 = Some (?M, s, k)" "length s = 32"
      "\<forall>u < k. s ! u = saved dec open_bus m k u"
    using ram_mark_run [of 0 k save dec open_bus m] k31 assms(4) by auto
  let ?s = "s[k := bus_rd dec open_bus ?M 0]"
  have d0: "dec 0 = Some 0" using assms(1) by (simp add: ram_bus_def)
  have b: "bus_wr dec ?M 0 0 = pattern m r 0 0"
    using marks_pattern [OF assms(1,2) order_refl, of m] by (auto simp: bus_wr_def d0 pattern_def fun_eq_iff)
  have z: "bus_rd dec open_bus (pattern m r 0 0) 0 = 0" by (simp add: bus_rd_def d0)
  have "ram_check dec open_bus (2 ^ k) (2 ^ 0) (pattern m r 0 0) ?s (k - 0) =
      Some (if r < k then Some (2 ^ r * 4) else None, m(0 := base_back dec m r k k))"
    by (rule ram_check_run [OF assms(1,2) _ k31(1)]) (use s(2,3) in simp_all)
  then have c: "ram_check dec open_bus (2 ^ k) 1 (pattern m r 0 0) ?s k =
      Some (if r < k then Some (2 ^ r * 4) else None, m(0 := base_back dec m r k k))" by simp
  have w: "wr s k (bus_rd dec open_bus ?M 0) = Some ?s" using s(2) k31 by simp
  have bb: "base_back dec m r k k = (if \<exists>i. r \<le> i \<and> i < k \<and> dec (2 ^ i) = Some 0 then m 0 else 0)"
    by (simp only: base_back_def diff_self_eq_0 base_after.simps)
  have "get_ram_size dec open_bus save m (4 * 2 ^ k) =
      Some (case if r < k then Some (2 ^ r * 4) else None of Some sz \<Rightarrow> sz | None \<Rightarrow> 4 * 2 ^ k, m(0 := base_back dec m r k k))"
    unfolding get_ram_size_def Let_def n s(1) by (simp only: bind.bind_lunit prod.case w b z c simp_thms if_False)
  also have "(case if r < k then Some (2 ^ r * 4 :: u32) else None of Some sz \<Rightarrow> sz | None \<Rightarrow> 4 * 2 ^ k) = 4 * 2 ^ r"
    using assms(2) by (cases "r < k") (simp_all add: mult.commute)
  finally show ?thesis unfolding bb .
qed

text \<open>A memory of 16 longs that repeats, and one of 16 longs with nothing above that floats high.\<close>

lemma mirrored_ram_bus: "r \<le> k \<Longrightarrow> ram_bus (\<lambda>a. Some (a mod 2 ^ r)) open_bus r k"
  by (auto simp: ram_bus_def power_strict_increasing dvd_eq_mod_eq_0 [symmetric] le_imp_power_dvd)

theorem get_ram_size_correct_witness:
  "\<forall>m. get_ram_size (\<lambda>a. Some (a mod 2 ^ 4)) (\<lambda>_. 0) (replicate 32 0) m 1024 = Some (64, m)"
proof
  fix m
  have "\<exists>i. 4 \<le> i \<and> i < (8 :: nat) \<and> Some (2 ^ i mod 2 ^ 4 :: nat) = Some 0" by (intro exI [of _ 4]) simp
  then show "get_ram_size (\<lambda>a. Some (a mod 2 ^ 4)) (\<lambda>_. 0) (replicate 32 0) m 1024 = Some (64, m)"
    using get_ram_size_correct [OF mirrored_ram_bus [of 4 8 "\<lambda>_. 0"], of "replicate 32 0" m] by (simp only:) simp
qed

end
