(* ===== verification/TestCmd.thy ===== *)
theory TestCmd
  imports Storage HushExec
begin

text \<open>
  The commands \<open>test\<close> and \<open>exit\<close> of the shell, \<^verbatim>\<open>common/command.c\<close>.  Arguments are the strings without their
  NUL; the result is the return code of the command.
\<close>

section \<open>The code\<close>

text \<open>\<open>strcmp\<close> on two C strings.\<close>

fun strcmp_s :: "string \<Rightarrow> string \<Rightarrow> int option" where
  "strcmp_s (c # cs) (d # ds) =
     (let res = schar_diff c d in if res \<noteq> 0 \<or> c = NUL then Some res else strcmp_s cs ds)"
| "strcmp_s _ _ = None"

definition arg_cmp :: "string \<Rightarrow> string \<Rightarrow> int option" where
  "arg_cmp a b = strcmp_s (a @ [NUL]) (b @ [NUL])"

definition arg_is :: "string \<Rightarrow> string \<Rightarrow> bool option" where
  "arg_is a b = map_option (\<lambda>r. r = 0) (arg_cmp a b)"

definition arg_num :: "string \<Rightarrow> int option" where
  "arg_num a = map_option (sint \<circ> fst) (simple_strtol (a @ [NUL]) 10)"

text \<open>The operators with two arguments, in the order of the code; none of them is \<open>Some None\<close>.\<close>

fun test_ops :: "string \<Rightarrow> (string \<times> bool option) list \<Rightarrow> bool option option" where
  "test_ops op [] = Some None"
| "test_ops op ((n, v) # os) = do {
     b \<leftarrow> arg_is op n;
     if b then map_option Some v else test_ops op os }"

definition test_binary :: "string \<Rightarrow> string \<Rightarrow> string \<Rightarrow> bool option option" where
  "test_binary a op b =
     (let cmp = (\<lambda>p. map_option p (arg_cmp a b));
          num = (\<lambda>p. do { x \<leftarrow> arg_num a; y \<leftarrow> arg_num b; Some (p x y) })
      in test_ops op [(''='', cmp (\<lambda>r. r = 0)), (''!='', cmp (\<lambda>r. r \<noteq> 0)), (''>'', cmp (\<lambda>r. r > 0)), (''<'', cmp (\<lambda>r. r < 0)),
           (''-eq'', num (=)), (''-ne'', num (\<noteq>)), (''-lt'', num (<)), (''-le'', num (\<le>)), (''-gt'', num (>)), (''-ge'', num (\<ge>))])"

definition test_combine :: "int \<Rightarrow> int \<Rightarrow> int \<Rightarrow> int" where
  "test_combine last_cmp last_expr expr =
     (if last_cmp = 0 then of_bool (last_expr \<noteq> 0 \<or> expr \<noteq> 0)
      else if last_cmp = 1 then of_bool (last_expr \<noteq> 0 \<and> expr \<noteq> 0) else expr)"

text \<open>The loop over the arguments \<open>ap\<close>, \<open>left\<close> of them; a \<^verbatim>\<open>break\<close> leaves it with \<open>expr\<close> 1.\<close>

function test_loop :: "string list \<Rightarrow> int \<Rightarrow> int \<Rightarrow> int \<Rightarrow> int option" where
  "test_loop ap expr last_expr last_cmp =
     (case ap of
        [] \<Rightarrow> Some expr
      | a # rest \<Rightarrow> do {
          is_o \<leftarrow> arg_is a ''-o'';
          is_a \<leftarrow> arg_is a ''-a'';
          is_z \<leftarrow> arg_is a ''-z'';
          is_n \<leftarrow> arg_is a ''-n'';
          let adv = (if is_o \<or> is_a then 1 else if is_z \<or> is_n then 2 else 3);
          if length ap < adv then Some 1
          else if adv = 1 then test_loop rest expr expr (if is_o then 0 else 1)
          else if adv = 2
          then (let expr = (if is_z then of_bool (length (rest ! 0) = 0) else of_bool (length (rest ! 0) \<noteq> 0)) in
                test_loop (drop 1 rest) (test_combine last_cmp last_expr expr) last_expr (- 1))
          else do {
            e \<leftarrow> test_binary a (rest ! 0) (rest ! 1);
            case e of
              None \<Rightarrow> Some 1
            | Some b \<Rightarrow> test_loop (drop 2 rest) (test_combine last_cmp last_expr (of_bool b)) last_expr (- 1) } })"
  by auto
termination by (relation "measure (\<lambda>(ap, _). length ap)") auto

declare test_loop.simps [simp del]

definition do_test :: "string list \<Rightarrow> int option" where
  "do_test av =
     (if length av < 3 then Some 1
      else do {
        neg \<leftarrow> arg_is (av ! 1) ''!'';
        expr \<leftarrow> test_loop (drop (if neg then 2 else 1) av) (- 1) (- 1) (- 1);
        let expr = (if neg then of_bool (expr = 0) else expr);
        Some (of_bool (expr = 0)) })"

text \<open>\<open>do_exit\<close>: \<open>-r - 2\<close>, as an \<^verbatim>\<open>int\<close>.\<close>

definition do_exit :: "string list \<Rightarrow> int option" where
  "do_exit av = do {
     r \<leftarrow> (if length av > 1 then map_option fst (simple_strtoul (av ! 1 @ [NUL]) 10) else Some 0);
     Some (sint (- r - 2)) }"

section \<open>Conditions\<close>

datatype rel = Same | Differs | After | Before | Eq | Ne | Lt | Le | Gt | Ge

datatype cond = Empty string | NonEmpty string | Rel string rel string

fun rel_op :: "rel \<Rightarrow> string" where
  "rel_op Same = ''=''" | "rel_op Differs = ''!=''" | "rel_op After = ''>''" | "rel_op Before = ''<''" | "rel_op Eq = ''-eq''"
| "rel_op Ne = ''-ne''" | "rel_op Lt = ''-lt''" | "rel_op Le = ''-le''" | "rel_op Gt = ''-gt''" | "rel_op Ge = ''-ge''"

text \<open>The order of a dictionary, by the codes of the characters.\<close>

fun before :: "string \<Rightarrow> string \<Rightarrow> bool" where
  "before [] b = (b \<noteq> [])"
| "before (c # a) [] = False"
| "before (c # a) (d # b) = ((of_char c :: nat) < of_char d \<or> c = d \<and> before a b)"

fun rel_value :: "rel \<Rightarrow> string \<Rightarrow> string \<Rightarrow> bool" where
  "rel_value Same a b = (a = b)" | "rel_value Differs a b = (a \<noteq> b)" | "rel_value After a b = before b a"
| "rel_value Before a b = before a b" | "rel_value Eq a b = (number_of a = number_of b)"
| "rel_value Ne a b = (number_of a \<noteq> number_of b)" | "rel_value Lt a b = (number_of a < number_of b)"
| "rel_value Le a b = (number_of a \<le> number_of b)" | "rel_value Gt a b = (number_of a > number_of b)"
| "rel_value Ge a b = (number_of a \<ge> number_of b)"

fun cond_value :: "cond \<Rightarrow> bool" where
  "cond_value (Empty s) = (s = [])" | "cond_value (NonEmpty s) = (s \<noteq> [])" | "cond_value (Rel a r b) = rel_value r a b"

fun cond_args :: "cond \<Rightarrow> string list" where
  "cond_args (Empty s) = [''-z'', s]" | "cond_args (NonEmpty s) = [''-n'', s]" | "cond_args (Rel a r b) = [a, rel_op r, b]"

text \<open>Words of ASCII characters; the first word of a comparison is no operator.\<close>

definition word_ok :: "string \<Rightarrow> bool" where
  "word_ok s \<longleftrightarrow> list_all (\<lambda>c. c \<noteq> NUL \<and> (of_char c :: nat) < 128) s"

fun cond_ok :: "cond \<Rightarrow> bool" where
  "cond_ok (Empty s) = word_ok s" | "cond_ok (NonEmpty s) = word_ok s"
| "cond_ok (Rel a r b) = (word_ok a \<and> word_ok b \<and> a \<notin> {''-o'', ''-a'', ''-z'', ''-n''})"

text \<open>Conditions joined by \<open>-a\<close> (\<open>True\<close>) and \<open>-o\<close>, from the left, without precedence.\<close>

definition chain_args :: "cond \<Rightarrow> (bool \<times> cond) list \<Rightarrow> string list" where
  "chain_args c cs = cond_args c @ concat (map (\<lambda>(b, d). (if b then ''-a'' else ''-o'') # cond_args d) cs)"

fun chain_value :: "bool \<Rightarrow> (bool \<times> cond) list \<Rightarrow> bool" where
  "chain_value v [] = v"
| "chain_value v ((b, d) # cs) = chain_value (if b then v \<and> cond_value d else v \<or> cond_value d) cs"


section \<open>Comparing words\<close>

lemma schar_diff_ascii:
  assumes "(of_char c :: nat) < 128" and "(of_char d :: nat) < 128"
  shows "schar_diff c d = int (of_char c) - int (of_char d)"
proof -
  have "(of_char c :: u8) - of_char d = word_of_int (int (of_char c) - int (of_char d))"
    using of_nat_of_char [of c, where ?'a = u8] of_nat_of_char [of d, where ?'a = u8] by simp
  moreover have "signed_take_bit 7 (int (of_char c) - int (of_char d)) = int (of_char c) - int (of_char d)"
    by (rule signed_take_bit_int_eq_self) (use assms in auto)
  ultimately show ?thesis unfolding schar_diff_def by (simp only: sint_sbintrunc') simp
qed

lemma word_ok_simps [simp]:
  "word_ok []" "word_ok (c # s) \<longleftrightarrow> c \<noteq> NUL \<and> (of_char c :: nat) < 128 \<and> word_ok s"
  by (simp_all add: word_ok_def)

lemma word_ok_nul: "word_ok s \<Longrightarrow> NUL \<notin> set s"
  by (auto simp: word_ok_def list_all_iff)

lemma arg_cmp_words:
  "word_ok a \<Longrightarrow> word_ok b \<Longrightarrow>
    \<exists>r. arg_cmp a b = Some r \<and> (r = 0 \<longleftrightarrow> a = b) \<and> (r > 0 \<longleftrightarrow> before b a) \<and> (r < 0 \<longleftrightarrow> before a b)"
  unfolding arg_cmp_def
proof (induction a b rule: before.induct)
  case (1 b)
  have n: "(of_char NUL :: nat) = 0" by simp
  show ?case
  proof (cases b)
    case Nil
    then show ?thesis by simp
  next
    case (Cons d b')
    then have d: "d \<noteq> NUL" "(of_char d :: nat) < 128" using 1 by simp_all
    then have "0 < (of_char d :: nat)" using n by (metis gr0I of_char_eq_iff)
    then show ?thesis using Cons d schar_diff_ascii [of NUL d] by (simp add: Let_def)
  qed
next
  case (2 c a)
  have n: "(of_char NUL :: nat) = 0" by simp
  have c: "c \<noteq> NUL" "(of_char c :: nat) < 128" using 2 by simp_all
  then have "0 < (of_char c :: nat)" using n by (metis gr0I of_char_eq_iff)
  then show ?case using c schar_diff_ascii [of c NUL] by (simp add: Let_def)
next
  case (3 c a d b)
  then show ?case
  proof (cases "c = d")
    case True
    then show ?thesis using 3 by (auto simp: Let_def)
  next
    case False
    then have "(of_char c :: nat) \<noteq> of_char d" by simp
    then show ?thesis using 3 False schar_diff_ascii [of c d] by (auto simp: Let_def)
  qed
qed

lemma arg_is_words: "word_ok a \<Longrightarrow> word_ok b \<Longrightarrow> arg_is a b = Some (a = b)"
  using arg_cmp_words [of a b] by (auto simp: arg_is_def)

lemma arg_num_words: "word_ok a \<Longrightarrow> arg_num a = Some (number_of a)"
  using simple_strtol_number [of a "[]"] by (auto simp: arg_num_def)

lemma op_words [simp]:
  "word_ok ''-o''" "word_ok ''-a''" "word_ok ''-z''" "word_ok ''-n''" "word_ok ''!''" "word_ok ''=''" "word_ok ''!=''" "word_ok ''>''"
  "word_ok ''<''" "word_ok ''-eq''" "word_ok ''-ne''" "word_ok ''-lt''" "word_ok ''-le''" "word_ok ''-gt''" "word_ok ''-ge''"
  by simp_all

lemma test_binary_value:
  assumes "word_ok a" and "word_ok b"
  shows "test_binary a (rel_op r) b = Some (Some (rel_value r a b))"
proof -
  obtain x where x: "arg_cmp a b = Some x" "x = 0 \<longleftrightarrow> a = b" "x > 0 \<longleftrightarrow> before b a" "x < 0 \<longleftrightarrow> before a b"
    using arg_cmp_words [OF assms] by blast
  have n: "arg_num a = Some (number_of a)" "arg_num b = Some (number_of b)" using assms by (simp_all add: arg_num_words)
  show ?thesis by (cases r) (simp_all add: test_binary_def Let_def arg_is_words x n)
qed

section \<open>The loop\<close>

lemma test_loop_unary:
  "word_ok s \<Longrightarrow> test_loop (''-z'' # s # rest) e le lc = test_loop rest (test_combine lc le (of_bool (s = []))) le (- 1)"
  "word_ok s \<Longrightarrow> test_loop (''-n'' # s # rest) e le lc = test_loop rest (test_combine lc le (of_bool (s \<noteq> []))) le (- 1)"
  by (subst test_loop.simps, simp add: arg_is_words Let_def)+

lemma test_loop_binary:
  assumes "word_ok a" and "word_ok b" and "a \<notin> {''-o'', ''-a'', ''-z'', ''-n''}"
  shows "test_loop (a # rel_op r # b # rest) e le lc =
    test_loop rest (test_combine lc le (of_bool (rel_value r a b))) le (- 1)"
  using assms by (subst test_loop.simps) (simp add: arg_is_words Let_def test_binary_value)

lemma test_loop_cond:
  "cond_ok c \<Longrightarrow> test_loop (cond_args c @ rest) e le lc = test_loop rest (test_combine lc le (of_bool (cond_value c))) le (- 1)"
  by (cases c) (simp_all add: test_loop_unary test_loop_binary)

lemma test_loop_conn:
  "test_loop ((if b then ''-a'' else ''-o'') # rest) e le lc = test_loop rest e e (if b then 1 else 0)"
  by (subst test_loop.simps) (simp add: arg_is_words Let_def)

lemma test_loop_chain:
  "list_all (cond_ok \<circ> snd) cs \<Longrightarrow>
    test_loop (concat (map (\<lambda>(b, d). (if b then ''-a'' else ''-o'') # cond_args d) cs)) (of_bool v) le (- 1) = Some (of_bool (chain_value v cs))"
proof (induction cs arbitrary: v le)
  case Nil
  then show ?case by (simp add: test_loop.simps)
next
  case (Cons bd cs)
  obtain b d where bd: "bd = (b, d)" by fastforce
  have "test_combine (if b then 1 else 0) (of_bool v) (of_bool (cond_value d)) =
      of_bool (if b then v \<and> cond_value d else v \<or> cond_value d)"
    by (simp add: test_combine_def)
  then show ?case using Cons bd by (simp add: test_loop_conn test_loop_cond del: if_split)
qed


section \<open>Properties\<close>

text \<open>
  Arguments that are no condition count as true: an operator that is not known, words that are missing, and
  a connective with nothing behind it.
\<close>

lemma malformed_is_true:
  "do_test [''test'', ''a'', ''--'', ''b''] = Some 0" "do_test [''test'', ''a'', ''=''] = Some 0"
  "do_test [''test'', ''-a'', ''-o''] = Some 0"
  by (simp_all add: do_test_def arg_is_words test_loop.simps Let_def test_binary_def arg_cmp_def schar_diff_def)

text \<open>Words with other than ASCII characters can each be less than the other.\<close>

lemma both_before:
  "do_test [''test'', [CHR 0x81], ''<'', [CHR 0x01]] = Some 0" "do_test [''test'', [CHR 0x01], ''<'', [CHR 0x81]] = Some 0"
  by (simp_all add: do_test_def test_loop.simps Let_def test_binary_def arg_cmp_def arg_is_def schar_diff_def test_combine_def)

text \<open>
  C37: \<open>test\<close> evaluates its arguments: for conditions on words of ASCII characters, joined by \<open>-a\<close> and \<open>-o\<close>, with
  or without a leading \<open>!\<close>, the return code is 0 when the value of the whole, taken from the left without
  precedence, is true (false behind \<open>!\<close>), and 1 else.  Words are compared by their characters, numbers as
  \<open>simple_strtol\<close> reads them.
\<close>

theorem do_test_correct:
  assumes "cond_ok c" and "list_all (cond_ok \<circ> snd) cs" and "\<not> neg \<longrightarrow> hd (cond_args c) \<noteq> ''!''"
  shows "do_test (''test'' # (if neg then [''!''] else []) @ chain_args c cs) = Some (of_bool (chain_value (cond_value c) cs = neg))"
proof -
  let ?as = "(if neg then [''!''] else []) @ chain_args c cs"
  have w: "word_ok (hd (cond_args c))" using assms(1) by (cases c) simp_all
  obtain x ys where x: "cond_args c = x # ys" "ys \<noteq> []" by (cases c) auto
  have len: "\<not> length (''test'' # ?as) < 3" using x by (simp add: chain_args_def)
  have n: "arg_is ((''test'' # ?as) ! 1) ''!'' = Some neg"
    using assms(3) w x by (cases neg) (simp_all add: chain_args_def arg_is_words)
  have d: "drop (if neg then 2 else 1) (''test'' # ?as) = chain_args c cs" by simp
  have "test_loop (chain_args c cs) (- 1) (- 1) (- 1) = Some (of_bool (chain_value (cond_value c) cs))"
    using test_loop_cond [OF assms(1)] test_loop_chain [OF assms(2)] by (simp add: chain_args_def test_combine_def)
  then show ?thesis unfolding do_test_def n using len d by (simp add: Let_def n)
qed

theorem do_test_correct_witness:
  "do_test [''test'', ''!'', ''a'', ''<'', ''b'', ''-a'', ''-z'', ''x'', ''-o'', ''10'', ''-gt'', ''9''] = Some 1"
proof -
  have n: "number_of ''10'' = 10" "number_of ''9'' = 9" by code_simp+
  show ?thesis
    using do_test_correct [of "Rel ''a'' Before ''b''" "[(True, Empty ''x''), (False, Rel ''10'' Gt ''9'')]" True]
    by (simp add: chain_args_def n)
qed

text \<open>
  \<open>exit\<close> and the shell: the code that \<open>do_exit\<close> returns for a number below \<open>2 ^ 31 - 1\<close> ends the list of
  commands, and \<open>$?\<close> is then that number.
\<close>

theorem do_exit_correct:
  assumes "simple_strtoul (s @ [NUL]) 10 = Some (r, e)" and "unat r < 2147483647"
  shows "\<exists>code. do_exit [''exit'', s] = Some code \<and> code < - 1 \<and> last_return_code (return_code code sh) = r"
proof -
  have "sint (- r - 2) = - int (unat r) - 2"
  proof -
    have "- r - 2 = word_of_int (- int (unat r) - 2)" by simp
    moreover have "signed_take_bit 31 (- int n - 2) = - int n - 2" if "n < 2147483647" for n
      by (rule signed_take_bit_int_eq_self) (use that in auto)
    note this [OF assms(2)]
    ultimately show ?thesis by (simp only: sint_sbintrunc') simp
  qed
  moreover have "0 \<le> uint r" by simp
  then have "- 1 < uint r" by linarith
  ultimately show ?thesis using assms(1) by (simp add: do_exit_def return_code_def)
qed

theorem do_exit_correct_witness:
  "\<forall>sh. \<exists>code. do_exit [''exit'', ''7''] = Some code \<and> code < - 1 \<and> last_return_code (return_code code sh) = 7"
proof
  fix sh
  have "simple_strtoul (''7'' @ [NUL]) 10 = Some (7, [NUL])" by code_simp
  then show "\<exists>code. do_exit [''exit'', ''7''] = Some code \<and> code < - 1 \<and> last_return_code (return_code code sh) = 7"
    by (rule do_exit_correct) simp
qed

end
