(* ===== verification/Image.thy ===== *)
theory Image
  imports Crc BlockHash CString
begin

text \<open>
  Images with a header, \<^verbatim>\<open>common/image.c\<close> and \<^verbatim>\<open>include/image.h\<close>: the header and its checks, the parts of a
  multi-file image, the tables of names, and the ramdisk.  An image is in memory, big-endian, at any
  address; reading past the 32-bit address space is a fault.  \<open>CONFIG_CMD_ELF\<close> and \<open>CONFIG_FIT\<close> are not set.
\<close>

section \<open>The header\<close>

type_synonym bytes = "nat \<Rightarrow> u8"

definition mem_bytes :: "bytes \<Rightarrow> nat \<Rightarrow> nat \<Rightarrow> u8 list option" where
  "mem_bytes m a n = (if a + n \<le> 4294967296 then Some (map (\<lambda>i. m (a + i)) [0..<n]) else None)"

text \<open>\<open>uimage_to_cpu\<close> of a word in memory.\<close>

definition load_be32 :: "bytes \<Rightarrow> nat \<Rightarrow> u32 option" where
  "load_be32 m a = map_option (\<lambda>bs. get_uint32_be bs 0) (mem_bytes m a 4)"

definition load_u8 :: "bytes \<Rightarrow> nat \<Rightarrow> u8 option" where
  "load_u8 m a = map_option hd (mem_bytes m a 1)"

definition IH_NMLEN :: nat where "IH_NMLEN = 32"
definition IH_MAGIC :: u32 where "IH_MAGIC = 0x27051956"
definition CHUNKSZ_CRC32 :: u32 where "CHUNKSZ_CRC32 = 64 * 1024"

definition image_get_header_size :: u32 where "image_get_header_size = of_nat (32 + IH_NMLEN)"

definition image_get_magic :: "bytes \<Rightarrow> u32 \<Rightarrow> u32 option" where "image_get_magic m hdr = load_be32 m (unat hdr)"
definition image_get_hcrc :: "bytes \<Rightarrow> u32 \<Rightarrow> u32 option" where "image_get_hcrc m hdr = load_be32 m (unat hdr + 4)"
definition image_get_time :: "bytes \<Rightarrow> u32 \<Rightarrow> u32 option" where "image_get_time m hdr = load_be32 m (unat hdr + 8)"
definition image_get_size :: "bytes \<Rightarrow> u32 \<Rightarrow> u32 option" where "image_get_size m hdr = load_be32 m (unat hdr + 12)"
definition image_get_load :: "bytes \<Rightarrow> u32 \<Rightarrow> u32 option" where "image_get_load m hdr = load_be32 m (unat hdr + 16)"
definition image_get_ep :: "bytes \<Rightarrow> u32 \<Rightarrow> u32 option" where "image_get_ep m hdr = load_be32 m (unat hdr + 20)"
definition image_get_dcrc :: "bytes \<Rightarrow> u32 \<Rightarrow> u32 option" where "image_get_dcrc m hdr = load_be32 m (unat hdr + 24)"
definition image_get_os :: "bytes \<Rightarrow> u32 \<Rightarrow> u8 option" where "image_get_os m hdr = load_u8 m (unat hdr + 28)"
definition image_get_arch :: "bytes \<Rightarrow> u32 \<Rightarrow> u8 option" where "image_get_arch m hdr = load_u8 m (unat hdr + 29)"
definition image_get_type :: "bytes \<Rightarrow> u32 \<Rightarrow> u8 option" where "image_get_type m hdr = load_u8 m (unat hdr + 30)"
definition image_get_comp :: "bytes \<Rightarrow> u32 \<Rightarrow> u8 option" where "image_get_comp m hdr = load_u8 m (unat hdr + 31)"

definition image_get_data_size :: "bytes \<Rightarrow> u32 \<Rightarrow> u32 option" where "image_get_data_size = image_get_size"
definition image_get_data :: "u32 \<Rightarrow> u32" where "image_get_data hdr = hdr + image_get_header_size"

definition image_get_image_size :: "bytes \<Rightarrow> u32 \<Rightarrow> u32 option" where
  "image_get_image_size m hdr = map_option (\<lambda>s. s + image_get_header_size) (image_get_size m hdr)"

definition image_get_image_end :: "bytes \<Rightarrow> u32 \<Rightarrow> u32 option" where
  "image_get_image_end m hdr = map_option (\<lambda>s. hdr + s) (image_get_image_size m hdr)"

definition image_check_magic :: "bytes \<Rightarrow> u32 \<Rightarrow> bool option" where
  "image_check_magic m hdr = map_option (\<lambda>x. x = IH_MAGIC) (image_get_magic m hdr)"

definition image_check_type :: "bytes \<Rightarrow> u32 \<Rightarrow> u8 \<Rightarrow> bool option" where
  "image_check_type m hdr t = map_option (\<lambda>x. x = t) (image_get_type m hdr)"

definition image_check_arch :: "bytes \<Rightarrow> u32 \<Rightarrow> u8 \<Rightarrow> bool option" where
  "image_check_arch m hdr a = map_option (\<lambda>x. x = a) (image_get_arch m hdr)"

definition image_check_os :: "bytes \<Rightarrow> u32 \<Rightarrow> u8 \<Rightarrow> bool option" where
  "image_check_os m hdr os = map_option (\<lambda>x. x = os) (image_get_os m hdr)"

text \<open>\<open>image_set_hcrc\<close> on a copy of the header.\<close>

definition image_set_hcrc :: "u8 list \<Rightarrow> u32 \<Rightarrow> u8 list" where
  "image_set_hcrc header v = take 4 header @ put_uint32_be v @ drop 8 header"

definition image_check_hcrc :: "bytes \<Rightarrow> u32 \<Rightarrow> bool option" where
  "image_check_hcrc m hdr = do {
     header \<leftarrow> mem_bytes m (unat hdr) (unat image_get_header_size);
     let header = image_set_hcrc header 0;
     hcrc \<leftarrow> crc32 0 header image_get_header_size;
     c \<leftarrow> image_get_hcrc m hdr;
     Some (hcrc = c) }"

definition image_check_dcrc :: "bool \<Rightarrow> bytes \<Rightarrow> u32 \<Rightarrow> bool option" where
  "image_check_dcrc watchdog m hdr = do {
     len \<leftarrow> image_get_data_size m hdr;
     buf \<leftarrow> mem_bytes m (unat (image_get_data hdr)) (unat len);
     dcrc \<leftarrow> crc32_wd watchdog 0 buf len CHUNKSZ_CRC32;
     c \<leftarrow> image_get_dcrc m hdr;
     Some (dcrc = c) }"

section \<open>Images of several files\<close>

text \<open>The end of the table of sizes is looked for up to the end of the address space.\<close>

function image_count_loop :: "bytes \<Rightarrow> nat \<Rightarrow> u32 \<Rightarrow> u32 option" where
  "image_count_loop m a count =
     (case load_be32 m a of
        None \<Rightarrow> None
      | Some s \<Rightarrow> if s \<noteq> 0 then image_count_loop m (a + 4) (count + 1) else Some count)"
  by auto
termination
  by (relation "measure (\<lambda>(m, a, count). 4294967296 - a)") (auto simp: load_be32_def mem_bytes_def split: if_splits)

declare image_count_loop.simps [simp del]

definition image_multi_count :: "bytes \<Rightarrow> u32 \<Rightarrow> u32 option" where
  "image_multi_count m hdr = image_count_loop m (unat (image_get_data hdr)) 0"

fun image_offset_loop :: "bytes \<Rightarrow> nat \<Rightarrow> nat \<Rightarrow> u32 \<Rightarrow> u32 option" where
  "image_offset_loop m a 0 offset = Some offset"
| "image_offset_loop m a (Suc n) offset = do {
     s \<leftarrow> load_be32 m a;
     image_offset_loop m (a + 4) n (offset + ((s + 3) AND NOT 3)) }"

text \<open>\<open>*data\<close> and \<open>*len\<close>.\<close>

definition image_multi_getimg :: "bytes \<Rightarrow> u32 \<Rightarrow> u32 \<Rightarrow> (u32 \<times> u32) option" where
  "image_multi_getimg m hdr idx = do {
     count \<leftarrow> image_multi_count m hdr;
     let sz = unat (image_get_data hdr);
     let img_data = image_get_data hdr + (count + 1) * 4;
     if idx < count
     then do {
       len \<leftarrow> load_be32 m (sz + 4 * unat idx);
       offset \<leftarrow> image_offset_loop m sz (unat idx) 0;
       Some (img_data + offset, len) }
     else Some (0, 0) }"

section \<open>The ramdisk\<close>

definition IH_OS_LINUX :: u8 where "IH_OS_LINUX = 5"
definition IH_TYPE_RAMDISK :: u8 where "IH_TYPE_RAMDISK = 3"

text \<open>
  The header of a valid ramdisk, or \<open>NULL\<close> (\<open>None\<close> inside).  Messages are left out, and with them
  \<open>image_print_contents\<close>, which for an image of several files counts its table (\<open>image_multi_count\<close>) without
  regard to the size of the image.
\<close>

definition image_get_ramdisk :: "bool \<Rightarrow> bytes \<Rightarrow> u32 \<Rightarrow> u8 \<Rightarrow> bool \<Rightarrow> u32 option option" where
  "image_get_ramdisk watchdog m rd_addr arch verify = do {
     ok \<leftarrow> image_check_magic m rd_addr;
     if \<not> ok then Some None
     else do {
       ok \<leftarrow> image_check_hcrc m rd_addr;
       if \<not> ok then Some None
       else do {
         ok \<leftarrow> (if verify then image_check_dcrc watchdog m rd_addr else Some True);
         if \<not> ok then Some None
         else do {
           os \<leftarrow> image_check_os m rd_addr IH_OS_LINUX;
           ar \<leftarrow> image_check_arch m rd_addr arch;
           ty \<leftarrow> image_check_type m rd_addr IH_TYPE_RAMDISK;
           Some (if \<not> os \<or> \<not> ar \<or> \<not> ty then None else Some rd_addr) } } } }"


section \<open>What is in memory\<close>

definition holds :: "bytes \<Rightarrow> nat \<Rightarrow> u8 list \<Rightarrow> bool" where
  "holds m a bs \<longleftrightarrow> a + length bs \<le> 4294967296 \<and> (\<forall>i < length bs. m (a + i) = bs ! i)"

lemma holds_part: "holds m a (xs @ ys @ zs) \<Longrightarrow> n = a + length xs \<Longrightarrow> holds m n ys"
  unfolding holds_def by (auto simp: nth_append add.assoc dest: spec [of _ "length xs + i" for i])

lemma mem_bytes_holds: "holds m a (ys @ zs) \<Longrightarrow> n = length ys \<Longrightarrow> mem_bytes m a n = Some ys"
  by (auto simp: holds_def mem_bytes_def nth_append intro!: nth_equalityI)

lemma be32_put [simp]: "get_uint32_be (put_uint32_be v @ r) 0 = v"
proof (rule bit_word_eqI)
  fix n assume "n < LENGTH(32)"
  then have n: "n < 32" by simp
  have e: "bit (get_uint32_be (put_uint32_be v @ r) 0) n \<longleftrightarrow>
      24 \<le> n \<and> n - 24 < 8 \<and> bit v (24 + (n - 24)) \<or> 16 \<le> n \<and> n - 16 < 8 \<and> bit v (16 + (n - 16)) \<or>
      8 \<le> n \<and> n - 8 < 8 \<and> bit v (8 + (n - 8)) \<or> n < 8 \<and> bit v n"
    using n by (auto simp: get_uint32_be_def put_uint32_be_def bit_or_iff bit_push_bit_iff bit_ucast_iff bit_drop_bit_eq)
  consider "n < 8" | "8 \<le> n" "n < 16" | "16 \<le> n" "n < 24" | "24 \<le> n" using n by linarith
  then show "bit (get_uint32_be (put_uint32_be v @ r) 0) n \<longleftrightarrow> bit v n"
    unfolding e using n by cases auto
qed

lemma load_be32_holds: "holds m a (put_uint32_be v @ zs) \<Longrightarrow> load_be32 m a = Some v"
  using mem_bytes_holds [of m a "put_uint32_be v" zs 4] be32_put [of v "[]"] by (simp add: load_be32_def)

lemma load_u8_holds: "holds m a ([b] @ zs) \<Longrightarrow> load_u8 m a = Some b"
  using mem_bytes_holds [of m a "[b]" zs 1] by (simp add: load_u8_def)

record image_header =
  ih_magic :: u32
  ih_hcrc :: u32
  ih_time :: u32
  ih_size :: u32
  ih_load :: u32
  ih_ep :: u32
  ih_dcrc :: u32
  ih_os :: u8
  ih_arch :: u8
  ih_type :: u8
  ih_comp :: u8
  ih_name :: "u8 list"

definition header_bytes :: "image_header \<Rightarrow> u8 list" where
  "header_bytes h = put_uint32_be (ih_magic h) @ put_uint32_be (ih_hcrc h) @ put_uint32_be (ih_time h) @ put_uint32_be (ih_size h) @
     put_uint32_be (ih_load h) @ put_uint32_be (ih_ep h) @ put_uint32_be (ih_dcrc h) @
     [ih_os h] @ [ih_arch h] @ [ih_type h] @ [ih_comp h] @ ih_name h"

text \<open>The header of an image with data \<open>bs\<close>, as \<open>mkimage\<close> makes it.\<close>

definition sealed :: "image_header \<Rightarrow> u8 list \<Rightarrow> image_header" where
  "sealed h bs = (let h = h\<lparr>ih_magic := IH_MAGIC, ih_size := of_nat (length bs), ih_dcrc := crc_ref 0 bs\<rparr>
     in h\<lparr>ih_hcrc := crc_ref 0 (header_bytes (h\<lparr>ih_hcrc := 0\<rparr>))\<rparr>)"

lemma length_header_bytes: "length (ih_name h) = IH_NMLEN \<Longrightarrow> length (header_bytes h) = 64"
  by (simp add: header_bytes_def IH_NMLEN_def)

lemma header_size [simp]: "image_get_header_size = 64"
  by (simp add: image_get_header_size_def IH_NMLEN_def)

lemma header_fields:
  assumes "holds m (unat hdr) (header_bytes h @ rest)"
  shows "image_get_magic m hdr = Some (ih_magic h)" "image_get_hcrc m hdr = Some (ih_hcrc h)" "image_get_time m hdr = Some (ih_time h)"
    "image_get_size m hdr = Some (ih_size h)" "image_get_load m hdr = Some (ih_load h)" "image_get_ep m hdr = Some (ih_ep h)"
    "image_get_dcrc m hdr = Some (ih_dcrc h)" "image_get_os m hdr = Some (ih_os h)" "image_get_arch m hdr = Some (ih_arch h)"
    "image_get_type m hdr = Some (ih_type h)" "image_get_comp m hdr = Some (ih_comp h)"
proof -
  have w: "load_be32 m (unat hdr + length xs) = Some v" if "header_bytes h @ rest = xs @ put_uint32_be v @ zs" for xs v zs
    using holds_part [of m "unat hdr" xs "put_uint32_be v @ zs" "[]" "unat hdr + length xs"] assms that
    by (auto intro: load_be32_holds)
  have b: "load_u8 m (unat hdr + length xs) = Some v" if "header_bytes h @ rest = xs @ [v] @ zs" for xs v zs
    using holds_part [of m "unat hdr" xs "[v] @ zs" "[]" "unat hdr + length xs"] assms that
    by (auto intro!: load_u8_holds)
  let ?w = put_uint32_be
  show "image_get_magic m hdr = Some (ih_magic h)" unfolding image_get_magic_def
    using w [of "[]"] by (simp add: header_bytes_def)
  show "image_get_hcrc m hdr = Some (ih_hcrc h)" unfolding image_get_hcrc_def
    using w [of "?w (ih_magic h)"] by (simp add: header_bytes_def)
  show "image_get_time m hdr = Some (ih_time h)" unfolding image_get_time_def
    using w [of "?w (ih_magic h) @ ?w (ih_hcrc h)"] by (simp add: header_bytes_def)
  show "image_get_size m hdr = Some (ih_size h)" unfolding image_get_size_def
    using w [of "?w (ih_magic h) @ ?w (ih_hcrc h) @ ?w (ih_time h)"] by (simp add: header_bytes_def)
  show "image_get_load m hdr = Some (ih_load h)" unfolding image_get_load_def
    using w [of "?w (ih_magic h) @ ?w (ih_hcrc h) @ ?w (ih_time h) @ ?w (ih_size h)"] by (simp add: header_bytes_def)
  show "image_get_ep m hdr = Some (ih_ep h)" unfolding image_get_ep_def
    using w [of "?w (ih_magic h) @ ?w (ih_hcrc h) @ ?w (ih_time h) @ ?w (ih_size h) @ ?w (ih_load h)"] by (simp add: header_bytes_def)
  let ?p = "?w (ih_magic h) @ ?w (ih_hcrc h) @ ?w (ih_time h) @ ?w (ih_size h) @ ?w (ih_load h) @ ?w (ih_ep h)"
  show "image_get_dcrc m hdr = Some (ih_dcrc h)" unfolding image_get_dcrc_def
    using w [of ?p] by (simp add: header_bytes_def)
  show "image_get_os m hdr = Some (ih_os h)" unfolding image_get_os_def
    using b [of "?p @ ?w (ih_dcrc h)"] by (simp add: header_bytes_def)
  show "image_get_arch m hdr = Some (ih_arch h)" unfolding image_get_arch_def
    using b [of "?p @ ?w (ih_dcrc h) @ [ih_os h]"] by (simp add: header_bytes_def)
  show "image_get_type m hdr = Some (ih_type h)" unfolding image_get_type_def
    using b [of "?p @ ?w (ih_dcrc h) @ [ih_os h] @ [ih_arch h]"] by (simp add: header_bytes_def)
  show "image_get_comp m hdr = Some (ih_comp h)" unfolding image_get_comp_def
    using b [of "?p @ ?w (ih_dcrc h) @ [ih_os h] @ [ih_arch h] @ [ih_type h]"] by (simp add: header_bytes_def)
qed

lemma set_hcrc_bytes: "image_set_hcrc (header_bytes h) v = header_bytes (h\<lparr>ih_hcrc := v\<rparr>)"
  by (simp add: image_set_hcrc_def header_bytes_def)

text \<open>What the two checks compute, for any header and data.\<close>

lemma check_hcrc_value:
  assumes "holds m (unat hdr) (header_bytes h @ rest)" and "length (ih_name h) = IH_NMLEN"
  shows "image_check_hcrc m hdr = Some (crc_ref 0 (header_bytes (h\<lparr>ih_hcrc := 0\<rparr>)) = ih_hcrc h)"
proof -
  have l: "length (header_bytes h) = 64" "length (header_bytes (h\<lparr>ih_hcrc := 0\<rparr>)) = 64"
    using assms(2) by (simp_all add: length_header_bytes)
  have "mem_bytes m (unat hdr) 64 = Some (header_bytes h)" using mem_bytes_holds [OF assms(1)] l by simp
  moreover have "crc32 0 (header_bytes (h\<lparr>ih_hcrc := 0\<rparr>)) 64 = Some (crc_ref 0 (header_bytes (h\<lparr>ih_hcrc := 0\<rparr>)))"
    using crc32_ref [of 64 "header_bytes (h\<lparr>ih_hcrc := 0\<rparr>)"] l by simp
  ultimately show ?thesis using header_fields(2) [OF assms(1)] by (simp add: image_check_hcrc_def set_hcrc_bytes)
qed

lemma crc32_wd_ref: "0 < chunk \<Longrightarrow> unat len = length buf \<Longrightarrow> crc32_wd wd crc buf len chunk = Some (crc_ref crc buf)"
  using crc32_wd_loop_ref [of chunk buf crc] unat_word_lt [of len] crc32_ref [of len buf crc]
  by (simp add: crc32_wd_def word_less_nat_alt)

lemma check_dcrc_value:
  assumes "holds m (unat hdr) (header_bytes h @ bs @ rest)" and "length (ih_name h) = IH_NMLEN" and "unat (ih_size h) = length bs"
    and "unat hdr + 64 < 4294967296"
  shows "image_check_dcrc wd m hdr = Some (crc_ref 0 bs = ih_dcrc h)"
proof -
  have d: "unat (image_get_data hdr) = unat hdr + 64" using assms(4) by (simp add: image_get_data_def unat_word_ariths)
  have "holds m (unat hdr + 64) (bs @ rest)"
    using holds_part [of m "unat hdr" "header_bytes h" "bs @ rest" "[]"] assms(1) length_header_bytes [OF assms(2)] by simp
  then have "mem_bytes m (unat hdr + 64) (length bs) = Some bs" by (intro mem_bytes_holds) simp_all
  then show ?thesis
    using header_fields(4,7) [OF assms(1)] crc32_wd_ref [OF _ assms(3), of CHUNKSZ_CRC32 wd 0] assms(3)
    by (simp add: image_check_dcrc_def image_get_data_size_def d CHUNKSZ_CRC32_def)
qed


section \<open>Files of an image\<close>

definition round4 :: "nat \<Rightarrow> nat" where "round4 n = (n + 3) div 4 * 4"

definition pad4 :: "u8 list \<Rightarrow> u8 list" where
  "pad4 bs = bs @ replicate (round4 (length bs) - length bs) 0"

lemma round4_ge: "n \<le> round4 n"
  by (simp add: round4_def)

lemma length_pad4 [simp]: "length (pad4 bs) = round4 (length bs)"
  using round4_ge [of "length bs"] by (simp add: pad4_def)

text \<open>The data of an image with several files: the sizes, a 0, and the files filled up to words.\<close>

definition multi_data :: "u8 list list \<Rightarrow> u8 list" where
  "multi_data fs = concat (map (\<lambda>f. put_uint32_be (of_nat (length f))) fs) @ put_uint32_be 0 @ concat (map pad4 fs)"

definition files_ok :: "u8 list list \<Rightarrow> bool" where
  "files_ok fs \<longleftrightarrow> list_all (\<lambda>f. f \<noteq> [] \<and> length f < 4294967292) fs"

lemma length_sizes: "length (concat (map (\<lambda>f. put_uint32_be (g f)) fs)) = 4 * length fs"
  by (induction fs) simp_all

lemma count_loop_holds:
  "files_ok fs \<Longrightarrow> holds m a (concat (map (\<lambda>f. put_uint32_be (of_nat (length f))) fs) @ put_uint32_be 0 @ r) \<Longrightarrow>
    image_count_loop m a c = Some (c + of_nat (length fs))"
proof (induction fs arbitrary: a c)
  case Nil
  then have "load_be32 m a = Some 0" by (intro load_be32_holds [of m a 0 r]) simp
  then show ?case by (simp add: image_count_loop.simps)
next
  case (Cons f fs)
  let ?t = "concat (map (\<lambda>f. put_uint32_be (of_nat (length f))) fs) @ put_uint32_be 0 @ r"
  have h: "holds m a (put_uint32_be (of_nat (length f)) @ ?t)" using Cons.prems(2) by simp
  have "unat (of_nat (length f) :: u32) = length f" "length f \<noteq> 0" using Cons.prems(1) by (simp_all add: files_ok_def of_nat_u32)
  then have nz: "(of_nat (length f) :: u32) \<noteq> 0" by (metis unat_0)
  have "holds m (a + 4) ?t" using holds_part [of m a "put_uint32_be (of_nat (length f))" ?t "[]"] h by simp
  then have "image_count_loop m (a + 4) (c + 1) = Some (c + 1 + of_nat (length fs))"
    using Cons.IH Cons.prems(1) by (simp add: files_ok_def)
  then show ?case using load_be32_holds [OF h] nz by (simp add: image_count_loop.simps [of m a])
qed

lemma and_not_minus: "x AND NOT y = x - (x AND y)" for x y :: u32
proof -
  have "(x AND NOT y) + (x AND y) = (x AND NOT y) OR (x AND y)"
    by (rule disjunctive_add_eq_or) (rule bit_word_eqI, auto simp: bit_and_iff bit_not_iff)
  also have "\<dots> = x" by (rule bit_word_eqI) (auto simp: bit_and_iff bit_or_iff bit_not_iff)
  finally show ?thesis by (simp add: eq_diff_eq)
qed

lemma round4_word:
  assumes "n < 4294967292"
  shows "((of_nat n + 3) AND NOT 3 :: u32) = of_nat (round4 n)"
proof -
  let ?x = "of_nat n + 3 :: u32"
  have x: "unat ?x = n + 3" using assms by (simp add: unat_word_ariths of_nat_u32)
  have "?x AND NOT 3 = ?x - (?x AND 3)" by (rule and_not_minus)
  moreover have "?x AND 3 = of_nat ((n + 3) mod 4)"
  proof -
    have "?x AND 3 = take_bit 2 ?x" by (simp add: take_bit_eq_mask mask_eq_exp_minus_1)
    then have "unat (?x AND 3) = (n + 3) mod 4" using x by (simp add: unsigned_take_bit_eq take_bit_nat_def)
    moreover have "?x AND 3 = of_nat (unat (?x AND 3))" by simp
    ultimately show ?thesis by simp
  qed
  moreover have "?x = of_nat (n + 3)" by simp
  moreover have "of_nat (n + 3) - of_nat ((n + 3) mod 4) = (of_nat (n + 3 - (n + 3) mod 4) :: u32)" by (simp only: of_nat_diff mod_less_eq_dividend)
  moreover have "n + 3 - (n + 3) mod 4 = round4 n" by (simp add: round4_def minus_mod_eq_div_mult)
  ultimately show ?thesis by metis
qed

lemma offset_loop_holds:
  "files_ok fs \<Longrightarrow> holds m a (concat (map (\<lambda>f. put_uint32_be (of_nat (length f))) fs) @ r) \<Longrightarrow> n \<le> length fs \<Longrightarrow>
    image_offset_loop m a n off = Some (off + of_nat (length (concat (map pad4 (take n fs)))))"
proof (induction fs arbitrary: a off n)
  case Nil
  then show ?case by simp
next
  case (Cons f fs)
  let ?t = "concat (map (\<lambda>f. put_uint32_be (of_nat (length f))) fs) @ r"
  have h: "holds m a (put_uint32_be (of_nat (length f)) @ ?t)" using Cons.prems(2) by simp
  have t: "holds m (a + 4) ?t" using holds_part [of m a "put_uint32_be (of_nat (length f))" ?t "[]"] h by simp
  have ok: "files_ok fs" "length f < 4294967292" using Cons.prems(1) by (simp_all add: files_ok_def)
  show ?case
  proof (cases n)
    case 0
    then show ?thesis by simp
  next
    case (Suc k)
    then show ?thesis
      using Cons.IH [OF ok(1) t, of k "off + of_nat (round4 (length f))"] Cons.prems(3) load_be32_holds [OF h]
      by (simp add: round4_word [OF ok(2), simplified] add.assoc)
  qed
qed


lemma multi_getimg_file:
  assumes "files_ok fs" and "holds m (unat hdr + 64) (multi_data fs @ rest)" and "i < length fs"
    and "unat hdr + 64 + length (multi_data fs) < 4294967296"
  shows "\<exists>a. image_multi_getimg m hdr (of_nat i) = Some (a, of_nat (length (fs ! i))) \<and> holds m (unat a) (fs ! i)"
proof -
  let ?ss = "concat (map (\<lambda>f. put_uint32_be (of_nat (length f))) fs)" and ?n = "length fs" and ?o = "length (concat (map pad4 (take i fs)))"
  have d: "unat (image_get_data hdr) = unat hdr + 64" using assms(4) by (simp add: image_get_data_def unat_word_ariths)
  have hs: "holds m (unat hdr + 64) (?ss @ put_uint32_be 0 @ concat (map pad4 fs) @ rest)"
    using assms(2) by (simp add: multi_data_def)
  have sp: "fs = take i fs @ fs ! i # drop (Suc i) fs" using assms(3) by (rule id_take_nth_drop)
  have lm: "length (multi_data fs) = 4 * ?n + 4 + length (concat (map pad4 fs))" by (simp add: multi_data_def length_sizes)
  have ol: "?o + length (pad4 (fs ! i)) \<le> length (concat (map pad4 fs))" by (subst (3) sp) simp
  have c: "image_multi_count m hdr = Some (of_nat ?n)"
    using count_loop_holds [OF assms(1) hs, of 0] by (simp add: image_multi_count_def d)
  have nu: "unat (of_nat ?n :: u32) = ?n" "unat (of_nat i :: u32) = i" using assms(3,4) lm by (simp_all add: of_nat_u32)
  have o: "image_offset_loop m (unat hdr + 64) i 0 = Some (of_nat ?o)"
    using offset_loop_holds [OF assms(1) hs, of i 0] assms(3) by simp
  have "holds m (unat hdr + 64 + 4 * i) (put_uint32_be (of_nat (length (fs ! i))) @ [])"
  proof -
    have "?ss = concat (map (\<lambda>f. put_uint32_be (of_nat (length f))) (take i fs)) @ put_uint32_be (of_nat (length (fs ! i))) @
        concat (map (\<lambda>f. put_uint32_be (of_nat (length f))) (drop (Suc i) fs))"
      by (subst sp) simp
    then show ?thesis
      using holds_part [of m "unat hdr + 64" "concat (map (\<lambda>f. put_uint32_be (of_nat (length f))) (take i fs))"] hs assms(3)
      by (simp add: length_sizes)
  qed
  then have l: "load_be32 m (unat hdr + 64 + 4 * i) = Some (of_nat (length (fs ! i)))" by (rule load_be32_holds)
  define a where "a = image_get_data hdr + (of_nat ?n + 1) * 4 + of_nat ?o"
  have g: "image_multi_getimg m hdr (of_nat i) = Some (a, of_nat (length (fs ! i)))"
    using c o l nu assms(3) by (simp add: image_multi_getimg_def d a_def word_less_nat_alt)
  have "unat a = unat hdr + 64 + 4 * ?n + 4 + ?o"
  proof -
    have "a = of_nat (unat hdr + 64 + 4 * ?n + 4 + ?o)" by (simp add: a_def image_get_data_def algebra_simps)
    then show ?thesis using assms(4) lm ol by (simp only:) (rule of_nat_u32, linarith)
  qed
  note ua = this
  have mm: "multi_data fs @ rest = (?ss @ put_uint32_be 0 @ concat (map pad4 (take i fs))) @ fs ! i @
      replicate (round4 (length (fs ! i)) - length (fs ! i)) 0 @ concat (map pad4 (drop (Suc i) fs)) @ rest"
  proof -
    have "concat (map pad4 fs) = concat (map pad4 (take i fs)) @ pad4 (fs ! i) @ concat (map pad4 (drop (Suc i) fs))"
      by (subst sp) simp
    then show ?thesis by (simp add: multi_data_def pad4_def)
  qed
  have "holds m (unat a) (fs ! i)"
    by (rule holds_part [OF assms(2) [unfolded mm]]) (simp add: ua length_sizes)
  then show ?thesis using g by blast
qed

lemma multi_getimg_missing:
  assumes "files_ok fs" and "holds m (unat hdr + 64) (multi_data fs @ rest)" and "of_nat (length fs) \<le> idx"
    and "unat hdr + 64 < 4294967296"
  shows "image_multi_getimg m hdr idx = Some (0, 0)"
proof -
  have d: "unat (image_get_data hdr) = unat hdr + 64" using assms(4) by (simp add: image_get_data_def unat_word_ariths)
  have "image_multi_count m hdr = Some (of_nat (length fs))"
    using count_loop_holds [OF assms(1), of m "unat hdr + 64" "concat (map pad4 fs) @ rest" 0] assms(2)
    by (simp add: image_multi_count_def d multi_data_def)
  moreover have "\<not> idx < of_nat (length fs)" using assms(3) by simp
  ultimately show ?thesis by (simp add: image_multi_getimg_def Let_def)
qed

section \<open>The tables of names\<close>

type_synonym table_entry = "int \<times> string option \<times> string"

definition uimage_arch :: "table_entry list" where
  "uimage_arch = [(0, None, ''Invalid ARCH''), (1, Some ''alpha'', ''Alpha''), (2, Some ''arm'', ''ARM''), (3, Some ''x86'', ''Intel x86''),
     (4, Some ''ia64'', ''IA64''), (12, Some ''m68k'', ''M68K''), (14, Some ''microblaze'', ''MicroBlaze''), (5, Some ''mips'', ''MIPS''),
     (6, Some ''mips64'', ''MIPS 64 Bit''), (13, Some ''nios'', ''NIOS''), (15, Some ''nios2'', ''NIOS II''), (7, Some ''powerpc'', ''PowerPC''),
     (7, Some ''ppc'', ''PowerPC''), (8, Some ''s390'', ''IBM S390''), (9, Some ''sh'', ''SuperH''), (10, Some ''sparc'', ''SPARC''),
     (11, Some ''sparc64'', ''SPARC 64 Bit''), (16, Some ''blackfin'', ''Blackfin''), (17, Some ''avr32'', ''AVR32''), (- 1, Some '''', '''')]"

definition uimage_os :: "table_entry list" where
  "uimage_os = [(0, None, ''Invalid OS''), (5, Some ''linux'', ''Linux''), (2, Some ''netbsd'', ''NetBSD''), (18, Some ''rtems'', ''RTEMS''),
     (17, Some ''u-boot'', ''U-Boot''), (- 1, Some '''', '''')]"

definition uimage_type :: "table_entry list" where
  "uimage_type = [(0, None, ''Invalid Image''), (7, Some ''filesystem'', ''Filesystem Image''), (5, Some ''firmware'', ''Firmware''),
     (2, Some ''kernel'', ''Kernel Image''), (4, Some ''multi'', ''Multi-File Image''), (3, Some ''ramdisk'', ''RAMDisk Image''),
     (6, Some ''script'', ''Script''), (1, Some ''standalone'', ''Standalone Program''), (8, Some ''flat_dt'', ''Flat Device Tree''),
     (- 1, Some '''', '''')]"

definition uimage_comp :: "table_entry list" where
  "uimage_comp = [(0, Some ''none'', ''uncompressed''), (2, Some ''bzip2'', ''bzip2 compressed''), (1, Some ''gzip'', ''gzip compressed''),
     (3, Some ''lzma'', ''lzma compressed''), (- 1, Some '''', '''')]"

fun get_table_entry_name :: "table_entry list \<Rightarrow> string \<Rightarrow> int \<Rightarrow> string option" where
  "get_table_entry_name [] msg i = None"
| "get_table_entry_name ((k, s, l) # t) msg i =
     (if k \<ge> 0 then if k = i then Some l else get_table_entry_name t msg i else Some msg)"

fun get_table_entry_id :: "table_entry list \<Rightarrow> string \<Rightarrow> int option" where
  "get_table_entry_id [] name = None"
| "get_table_entry_id ((k, s, l) # t) name =
     (if k \<ge> 0 then if s = Some name then Some k else get_table_entry_id t name else Some (- 1))"

definition genimg_get_os_name :: "u8 \<Rightarrow> string option" where "genimg_get_os_name os = get_table_entry_name uimage_os ''Unknown OS'' (uint os)"
definition genimg_get_arch_name :: "u8 \<Rightarrow> string option" where
  "genimg_get_arch_name a = get_table_entry_name uimage_arch ''Unknown Architecture'' (uint a)"
definition genimg_get_type_name :: "u8 \<Rightarrow> string option" where
  "genimg_get_type_name t = get_table_entry_name uimage_type ''Unknown Image'' (uint t)"
definition genimg_get_comp_name :: "u8 \<Rightarrow> string option" where
  "genimg_get_comp_name c = get_table_entry_name uimage_comp ''Unknown Compression'' (uint c)"
definition genimg_get_os_id :: "string \<Rightarrow> int option" where "genimg_get_os_id = get_table_entry_id uimage_os"
definition genimg_get_arch_id :: "string \<Rightarrow> int option" where "genimg_get_arch_id = get_table_entry_id uimage_arch"
definition genimg_get_type_id :: "string \<Rightarrow> int option" where "genimg_get_type_id = get_table_entry_id uimage_type"
definition genimg_get_comp_id :: "string \<Rightarrow> int option" where "genimg_get_comp_id = get_table_entry_id uimage_comp"


text \<open>Every name in the tables is read as its number, and the number is shown as the long name beside it.\<close>

lemma tables_agree:
  "list_all (\<lambda>(k, s, l). case s of None \<Rightarrow> True | Some s \<Rightarrow> genimg_get_arch_id s = Some k \<and> genimg_get_arch_name (word_of_int k) = Some l) (butlast uimage_arch)"
  "list_all (\<lambda>(k, s, l). case s of None \<Rightarrow> True | Some s \<Rightarrow> genimg_get_os_id s = Some k \<and> genimg_get_os_name (word_of_int k) = Some l) (butlast uimage_os)"
  "list_all (\<lambda>(k, s, l). case s of None \<Rightarrow> True | Some s \<Rightarrow> genimg_get_type_id s = Some k \<and> genimg_get_type_name (word_of_int k) = Some l) (butlast uimage_type)"
  "list_all (\<lambda>(k, s, l). case s of None \<Rightarrow> True | Some s \<Rightarrow> genimg_get_comp_id s = Some k \<and> genimg_get_comp_name (word_of_int k) = Some l) (butlast uimage_comp)"
  by (simp_all add: uimage_arch_def uimage_os_def uimage_type_def uimage_comp_def genimg_get_arch_id_def genimg_get_arch_name_def
      genimg_get_os_id_def genimg_get_os_name_def genimg_get_type_id_def genimg_get_type_name_def genimg_get_comp_id_def genimg_get_comp_name_def)

section \<open>Properties\<close>

text \<open>
  C38: An image as \<open>mkimage\<close> makes it passes every check, gives back its fields, and as a ramdisk is taken
  when and only when its system, architecture and type are those wanted.
\<close>

theorem image_valid:
  assumes "holds m (unat hdr) (header_bytes (sealed h bs) @ bs @ rest)" and "length (ih_name h) = IH_NMLEN"
    and "length bs < 4294967296" and "unat hdr + 64 < 4294967296"
  shows "image_check_magic m hdr = Some True \<and> image_check_hcrc m hdr = Some True \<and> image_check_dcrc wd m hdr = Some True \<and>
    image_get_data_size m hdr = Some (of_nat (length bs)) \<and> image_get_load m hdr = Some (ih_load h) \<and> image_get_ep m hdr = Some (ih_ep h) \<and>
    image_get_comp m hdr = Some (ih_comp h) \<and>
    image_get_ramdisk wd m hdr arch verify =
      Some (if ih_os h = IH_OS_LINUX \<and> ih_arch h = arch \<and> ih_type h = IH_TYPE_RAMDISK then Some hdr else None)"
proof -
  let ?h = "sealed h bs"
  have f: "ih_magic ?h = IH_MAGIC" "ih_size ?h = of_nat (length bs)" "ih_dcrc ?h = crc_ref 0 bs" "ih_os ?h = ih_os h"
      "ih_arch ?h = ih_arch h" "ih_type ?h = ih_type h" "ih_comp ?h = ih_comp h" "ih_load ?h = ih_load h" "ih_ep ?h = ih_ep h"
      "length (ih_name ?h) = IH_NMLEN" "ih_hcrc ?h = crc_ref 0 (header_bytes (?h\<lparr>ih_hcrc := 0\<rparr>))"
    using assms(2) by (simp_all add: sealed_def Let_def)
  note g = header_fields [OF assms(1)]
  have m: "image_check_magic m hdr = Some True" by (simp add: image_check_magic_def g f)
  have c: "image_check_hcrc m hdr = Some True" using check_hcrc_value [OF assms(1) f(10)] f(11) by simp
  have d: "image_check_dcrc wd m hdr = Some True"
    using check_dcrc_value [OF assms(1) f(10) _ assms(4)] f(2,3) assms(3) by (simp add: of_nat_u32)
  show ?thesis
    using m c d g f by (simp add: image_get_data_size_def image_get_ramdisk_def image_check_os_def image_check_arch_def image_check_type_def)
qed

definition demo_header :: image_header where
  "demo_header = \<lparr>ih_magic = 0, ih_hcrc = 0, ih_time = 0, ih_size = 0, ih_load = 0x40008000, ih_ep = 0x40008000, ih_dcrc = 0,
     ih_os = 5, ih_arch = 2, ih_type = 3, ih_comp = 0, ih_name = replicate 32 0\<rparr>"

lemma holds_list: "length bs + a \<le> 4294967296 \<Longrightarrow> holds (\<lambda>i. (replicate a 0 @ bs @ [0]) ! min i (a + length bs)) a bs"
  by (auto simp: holds_def nth_append)

theorem image_valid_witness:
  "\<exists>m. image_check_hcrc m 4096 = Some True \<and> image_check_dcrc False m 4096 = Some True \<and>
    image_get_ramdisk True m 4096 2 True = Some (Some 4096) \<and> image_get_ramdisk True m 4096 3 True = Some None"
proof -
  let ?bs = "header_bytes (sealed demo_header [1, 2, 3]) @ [1, 2, 3] @ []"
  let ?m = "\<lambda>i. (replicate 4096 0 @ ?bs @ [0]) ! min i (4096 + length ?bs)"
  have n: "length (ih_name demo_header) = IH_NMLEN" "length (ih_name (sealed demo_header [1, 2, 3])) = IH_NMLEN"
    by (simp_all add: demo_header_def sealed_def IH_NMLEN_def Let_def)
  have "holds ?m 4096 ?bs" by (rule holds_list) (use length_header_bytes [OF n(2)] in simp)
  then have h: "holds ?m (unat (4096 :: u32)) ?bs" by simp
  have v: "ih_os demo_header = IH_OS_LINUX" "ih_arch demo_header = 2" "ih_type demo_header = IH_TYPE_RAMDISK"
    by (simp_all add: demo_header_def IH_OS_LINUX_def IH_TYPE_RAMDISK_def)
  show ?thesis
    using image_valid [OF h n(1), of False 2 True] image_valid [OF h n(1), of True 2 True] image_valid [OF h n(1), of True 3 True] v
    by (intro exI [of _ ?m]) simp
qed

text \<open>
  Damage is noticed: when one byte of the data of an image is not the one that was sealed, the check of
  the data fails and the image is not taken as a ramdisk when it is to be verified.
\<close>

theorem image_damage:
  assumes "holds m (unat hdr) (header_bytes (sealed h (as @ x # bs)) @ (as @ y # bs) @ rest)" and "length (ih_name h) = IH_NMLEN"
    and "x \<noteq> y" and "length as + length bs < 4294967290" and "unat hdr + 64 < 4294967296"
  shows "image_check_dcrc wd m hdr = Some False \<and> image_get_ramdisk wd m hdr arch True = Some None"
proof -
  let ?h = "sealed h (as @ x # bs)"
  have f: "ih_size ?h = of_nat (length (as @ y # bs))" "ih_dcrc ?h = crc_ref 0 (as @ x # bs)" "length (ih_name ?h) = IH_NMLEN"
      "ih_magic ?h = IH_MAGIC" "ih_hcrc ?h = crc_ref 0 (header_bytes (?h\<lparr>ih_hcrc := 0\<rparr>))"
    using assms(2) by (simp_all add: sealed_def Let_def)
  have "unat (ih_size ?h) = length (as @ y # bs)" unfolding f(1) by (rule of_nat_u32) (use assms(4) in simp)
  moreover have "crc_ref 0 (as @ y # bs) \<noteq> crc_ref 0 (as @ x # bs)"
    using crc_bytes_one_change [of y x "0 XOR 0xffffffff" as bs] assms(3) by (simp add: crc_ref_def xor_cancel)
  ultimately have d: "image_check_dcrc wd m hdr = Some False"
    using check_dcrc_value [OF assms(1) f(3) _ assms(5)] f(2) by simp
  have c: "image_check_hcrc m hdr = Some True" using check_hcrc_value [OF assms(1) f(3)] f(5) by simp
  have "image_check_magic m hdr = Some True" using header_fields(1) [OF assms(1)] by (simp add: image_check_magic_def f)
  then show ?thesis using c d by (simp add: image_get_ramdisk_def)
qed

theorem image_damage_witness:
  "\<exists>m. image_check_dcrc True m 4096 = Some False \<and> image_get_ramdisk True m 4096 2 True = Some None"
proof -
  let ?bs = "header_bytes (sealed demo_header ([1] @ 2 # [3])) @ ([1] @ 9 # [3]) @ []"
  let ?m = "\<lambda>i. (replicate 4096 0 @ ?bs @ [0]) ! min i (4096 + length ?bs)"
  have n: "length (ih_name demo_header) = IH_NMLEN" "length (ih_name (sealed demo_header ([1] @ 2 # [3]))) = IH_NMLEN"
    by (simp_all add: demo_header_def sealed_def IH_NMLEN_def Let_def)
  have "holds ?m 4096 ?bs" by (rule holds_list) (use length_header_bytes [OF n(2)] in simp)
  then have h: "holds ?m (unat (4096 :: u32)) ?bs" by simp
  show ?thesis using image_damage [OF h n(1), of True 2] by (intro exI [of _ ?m]) simp
qed

text \<open>
  C39: In an image of several files every file is found with its size at the address that is given for it, and
  an index behind the last gives 0 for both; the search for the end of the table stays in the table.
\<close>

theorem image_multi_correct:
  assumes "files_ok fs" and "holds m (unat hdr + 64) (multi_data fs @ rest)"
    and "unat hdr + 64 + length (multi_data fs) < 4294967296"
  shows "(\<forall>i < length fs. \<exists>a. image_multi_getimg m hdr (of_nat i) = Some (a, of_nat (length (fs ! i))) \<and> holds m (unat a) (fs ! i)) \<and>
    (\<forall>idx. of_nat (length fs) \<le> idx \<longrightarrow> image_multi_getimg m hdr idx = Some (0, 0))"
  using multi_getimg_file [OF assms(1,2) _ assms(3)] multi_getimg_missing [OF assms(1,2)] assms(3) by simp

theorem image_multi_correct_witness:
  "\<exists>m a. image_multi_getimg m 4096 1 = Some (a, 5) \<and> holds m (unat a) [4, 5, 6, 7, 8] \<and> image_multi_getimg m 4096 2 = Some (0, 0)"
proof -
  let ?fs = "[[1, 2, 3], [4, 5, 6, 7, 8]] :: u8 list list"
  let ?m = "\<lambda>i. (replicate 4160 0 @ multi_data ?fs @ [0]) ! min i (4160 + length (multi_data ?fs))"
  have ok: "files_ok ?fs" "length (multi_data ?fs) = 24" by (simp_all add: files_ok_def multi_data_def round4_def)
  have "holds ?m 4160 (multi_data ?fs)" by (rule holds_list) (simp add: ok(2))
  then have h: "holds ?m (unat (4096 :: u32) + 64) (multi_data ?fs @ [])" by simp
  have r: "(\<forall>i < length ?fs. \<exists>a. image_multi_getimg ?m 4096 (of_nat i) = Some (a, of_nat (length (?fs ! i))) \<and> holds ?m (unat a) (?fs ! i)) \<and>
    (\<forall>idx. of_nat (length ?fs) \<le> idx \<longrightarrow> image_multi_getimg ?m 4096 idx = Some (0, 0))"
    by (rule image_multi_correct [OF ok(1) h]) (simp add: ok(2))
  then obtain a where "image_multi_getimg ?m 4096 1 = Some (a, 5)" "holds ?m (unat a) [4, 5, 6, 7, 8]"
    by (elim conjE allE [of _ 1]) (auto simp: ok(2))
  moreover have "image_multi_getimg ?m 4096 2 = Some (0, 0)" using r by simp
  ultimately show ?thesis by blast
qed

end
