(* ===== verification/Isi.thy ===== *)
theory Isi
  imports Image Md5 Sha1 Sha256 Div64
begin

text \<open>
  Signed images of the Infotmic loader: \<^verbatim>\<open>infotm/strategy/isi/isi.c\<close> (and its copy \<^verbatim>\<open>common/isi.c\<close> for the
  header) over \<^verbatim>\<open>infotm/drivers/secure/hash.c\<close>, which dispatches to the CRC in software (\<open>Crc\<close>) and to \<^verbatim>\<open>md5.c\<close>,
  \<^verbatim>\<open>sha1.c\<close> and \<^verbatim>\<open>sha256.c\<close>, which count the bytes and drive the hash module of the chip.  The chip is an
  argument, with its contract as the locale \<open>hash_chip\<close>.  The header is little-endian, at any address.  The
  bytes to sum are read also where the fuse makes \<open>hash_data\<close> ignore them.
\<close>

section \<open>The hash module\<close>

text \<open>
  The module of the chip, as \<^verbatim>\<open>hash_module.c\<close> drives it: an operation changes the state \<open>'e\<close> of the chip and may
  time out.  \<open>mod_init\<close> takes the mode and the length of the message in bits, in two words, \<open>mod_dma\<close> one transfer
  of at most \<open>0x8000\<close> bytes, and \<open>mod_result\<close> gives the 32 bytes of the result registers.
\<close>

record 'e hash_module =
  mod_init :: "nat \<Rightarrow> u32 \<Rightarrow> u32 \<Rightarrow> 'e \<Rightarrow> bool \<times> 'e"
  mod_dma :: "u8 list \<Rightarrow> 'e \<Rightarrow> bool \<times> 'e"
  mod_result :: "'e \<Rightarrow> u8 list option \<times> 'e"

definition MODE_MD5 :: nat where "MODE_MD5 = 0"
definition MODE_SHA1 :: nat where "MODE_SHA1 = 1"
definition MODE_SHA256 :: nat where "MODE_SHA256 = 3"

text \<open>The length is kept in an \<open>int\<close>, so that half of the lengths are refused by the first transfer.\<close>

fun dma_loop :: "'e hash_module \<Rightarrow> u8 list \<Rightarrow> 'e \<Rightarrow> bool \<times> 'e" where
  "dma_loop hw buf e =
     (if buf = [] then (False, e)
      else let (bad, e) = mod_dma hw (take 0x8000 buf) e in
        if bad then (True, e) else dma_loop hw (drop 0x8000 buf) e)"

declare dma_loop.simps [simp del]

definition hash_dma_transfer :: "'e hash_module \<Rightarrow> u8 list \<Rightarrow> 'e \<Rightarrow> bool \<times> 'e" where
  "hash_dma_transfer hw buf e = (if 2147483648 \<le> length buf then (True, e) else dma_loop hw buf e)"

text \<open>
  The state: \<open>g_type\<close> of \<^verbatim>\<open>hash.c\<close>, \<open>g_crc\<close> of \<^verbatim>\<open>crc32.c\<close>, and \<open>msg_len\<close>, of which \<^verbatim>\<open>md5.c\<close>, \<^verbatim>\<open>sha1.c\<close> and \<^verbatim>\<open>sha256.c\<close>
  each have one, here at their mode.
\<close>

record 'e hash_state =
  g_type :: nat
  g_crc :: u32
  msg_len :: "nat \<Rightarrow> u64"
  engine :: 'e

definition set_msg_len :: "nat \<Rightarrow> u64 \<Rightarrow> 'e hash_state \<Rightarrow> 'e hash_state" where
  "set_msg_len k n st = st\<lparr>msg_len := (msg_len st)(k := n)\<rparr>"

definition digest_init :: "'e hash_module \<Rightarrow> nat \<Rightarrow> u32 \<Rightarrow> 'e hash_state \<Rightarrow> int \<times> 'e hash_state" where
  "digest_init hw k len st =
     (let st = set_msg_len k (push_bit 3 (ucast len)) st;
          (bad, e) = mod_init hw k (ucast (drop_bit 32 (msg_len st k))) (ucast (msg_len st k)) (engine st);
          st = st\<lparr>engine := e\<rparr>
      in if bad then (- 1, st) else (0, set_msg_len k (drop_bit 3 (msg_len st k)) st))"

definition digest_data :: "'e hash_module \<Rightarrow> nat \<Rightarrow> u8 list \<Rightarrow> 'e hash_state \<Rightarrow> int \<times> 'e hash_state" where
  "digest_data hw k buf st =
     (if msg_len st k < of_nat (length buf) then (- 1, st)
      else let st = set_msg_len k (msg_len st k - of_nat (length buf)) st;
               (bad, e) = hash_dma_transfer hw buf (engine st)
        in (if bad then - 2 else 0, st\<lparr>engine := e\<rparr>))"

text \<open>The bytes that are stored in the buffer: the first \<open>n\<close> of the result, or none.\<close>

definition digest_value :: "'e hash_module \<Rightarrow> nat \<Rightarrow> nat \<Rightarrow> 'e hash_state \<Rightarrow> int \<times> u8 list \<times> 'e hash_state" where
  "digest_value hw k n st =
     (if msg_len st k \<noteq> 0 then (- 1, [], st)
      else case mod_result hw (engine st) of
        (None, e) \<Rightarrow> (- 2, [], st\<lparr>engine := e\<rparr>)
      | (Some d, e) \<Rightarrow> (0, take n d, st\<lparr>engine := e\<rparr>))"

text \<open>\<open>hash_funcs\<close>: the table of the functions of each type.\<close>

definition IUW_HASH_CRC :: nat where "IUW_HASH_CRC = 0"
definition IUW_HASH_SHA256 :: nat where "IUW_HASH_SHA256 = 3"

record 'e hash_func =
  hf_len :: nat
  hf_init :: "u32 \<Rightarrow> 'e hash_state \<Rightarrow> int \<times> 'e hash_state"
  hf_data :: "u8 list \<Rightarrow> 'e hash_state \<Rightarrow> (int \<times> 'e hash_state) option"
  hf_value :: "'e hash_state \<Rightarrow> int \<times> u8 list \<times> 'e hash_state"

definition crc_func :: "'e hash_func" where
  "crc_func = \<lparr>hf_len = 4, hf_init = (\<lambda>len st. (0, st\<lparr>g_crc := crc32_init len\<rparr>)),
     hf_data = (\<lambda>buf st. map_option (\<lambda>c. (0, st\<lparr>g_crc := c\<rparr>)) (crc32_data (g_crc st) buf (of_nat (length buf)))),
     hf_value = (\<lambda>st. (0, store_le (crc32_value (g_crc st)), st))\<rparr>"

definition digest_func :: "'e hash_module \<Rightarrow> nat \<Rightarrow> nat \<Rightarrow> 'e hash_func" where
  "digest_func hw k n = \<lparr>hf_len = n, hf_init = digest_init hw k, hf_data = (\<lambda>buf st. Some (digest_data hw k buf st)),
     hf_value = digest_value hw k n\<rparr>"

definition hash_funcs :: "'e hash_module \<Rightarrow> 'e hash_func list" where
  "hash_funcs hw = [crc_func, digest_func hw MODE_MD5 16, digest_func hw MODE_SHA1 20, digest_func hw MODE_SHA256 32]"

text \<open>\<open>crypto\<close> is the fuse \<open>ECFG_ENABLE_CRYPTO\<close>.\<close>

definition hash_len :: "'e hash_module \<Rightarrow> 'e hash_state \<Rightarrow> nat" where
  "hash_len hw st = hf_len (hash_funcs hw ! g_type st)"

definition hash_init :: "bool \<Rightarrow> 'e hash_module \<Rightarrow> nat \<Rightarrow> u32 \<Rightarrow> 'e hash_state \<Rightarrow> int \<times> 'e hash_state" where
  "hash_init crypto hw t len st =
     (if IUW_HASH_SHA256 < t then (- 1, st)
      else let st = st\<lparr>g_type := t\<rparr> in
        if t \<noteq> 0 \<and> \<not> crypto then (0, st) else hf_init (hash_funcs hw ! t) len st)"

definition hash_data :: "bool \<Rightarrow> 'e hash_module \<Rightarrow> u8 list \<Rightarrow> 'e hash_state \<Rightarrow> (int \<times> 'e hash_state) option" where
  "hash_data crypto hw buf st =
     (if g_type st \<noteq> 0 \<and> \<not> crypto then Some (0, st) else hf_data (hash_funcs hw ! g_type st) buf st)"

text \<open>The value goes to the start of \<open>buf\<close>.\<close>

definition overwrite :: "u8 list \<Rightarrow> u8 list \<Rightarrow> u8 list option" where
  "overwrite buf bs = (if length bs \<le> length buf then Some (bs @ drop (length bs) buf) else None)"

definition hash_value :: "bool \<Rightarrow> 'e hash_module \<Rightarrow> u8 list \<Rightarrow> 'e hash_state \<Rightarrow> (int \<times> u8 list \<times> 'e hash_state) option" where
  "hash_value crypto hw buf st =
     (if g_type st \<noteq> 0 \<and> \<not> crypto then Some (0, buf, st)
      else do {
        let (r, d, st) = hf_value (hash_funcs hw ! g_type st) st;
        buf \<leftarrow> overwrite buf d;
        Some (r, buf, st) })"

definition hash_lens :: "nat list" where "hash_lens = [4, 16, 20, 32]"
definition hash_modes :: "nat list" where "hash_modes = [0, 0, 1, 3]"

lemma hash_funcs_nth:
  "k \<in> {1, 2, 3} \<Longrightarrow> hash_funcs hw ! k = digest_func hw (hash_modes ! k) (hash_lens ! k)" "hash_funcs hw ! 0 = crc_func"
  by (auto simp: hash_funcs_def hash_modes_def hash_lens_def MODE_MD5_def MODE_SHA1_def MODE_SHA256_def)

lemma hash_lens_le: "k \<in> {1, 2, 3} \<Longrightarrow> hash_lens ! k \<le> 32"
  by (auto simp: hash_lens_def)

lemmas hash_simps = hash_init_def hash_data_def hash_value_def IUW_HASH_SHA256_def IUW_HASH_CRC_def Let_def hash_len_def

section \<open>Signed images\<close>

definition ISI_SIZE :: u32 where "ISI_SIZE = 0x200"
definition ISI_MAGIC :: u32 where "ISI_MAGIC = 0x6973692b"
definition EBADMAGIC :: int where "EBADMAGIC = 31"
definition EBADCRC :: int where "EBADCRC = 32"
definition EBADSIG :: int where "EBADSIG = 33"

definition load_le32 :: "bytes \<Rightarrow> nat \<Rightarrow> u32 option" where
  "load_le32 m a = map_option (\<lambda>bs. load_le bs 0) (mem_bytes m a 4)"

definition store_bytes :: "bytes \<Rightarrow> nat \<Rightarrow> u8 list \<Rightarrow> bytes option" where
  "store_bytes m a bs =
     (if a + length bs \<le> 4294967296
      then Some (\<lambda>i. if a \<le> i \<and> i < a + length bs then bs ! (i - a) else m i) else None)"

definition isi_get_type_sig :: "u32 \<Rightarrow> nat" where "isi_get_type_sig ty = unat (drop_bit 24 ty AND 0xf)"
definition isi_get_data :: "u32 \<Rightarrow> u32" where "isi_get_data hdr = hdr + ISI_SIZE"

text \<open>The checksum field is cleared while the header is summed, and then put back.\<close>

definition isi_check_header ::
    "bool \<Rightarrow> 'e hash_module \<Rightarrow> u8 list \<Rightarrow> u32 \<Rightarrow> bytes \<Rightarrow> 'e hash_state \<Rightarrow> (int \<times> bytes \<times> 'e hash_state) option" where
  "isi_check_header crypto hw crc_calc hdr m st = do {
     magic \<leftarrow> load_le32 m (unat hdr);
     if magic \<noteq> ISI_MAGIC then Some (- EBADMAGIC, m, st)
     else do {
       crc_ori \<leftarrow> load_le32 m (unat hdr + 28);
       m \<leftarrow> store_bytes m (unat hdr + 28) (store_le 0);
       let (_, st) = hash_init crypto hw IUW_HASH_CRC ISI_SIZE st;
       bs \<leftarrow> mem_bytes m (unat hdr) (unat ISI_SIZE);
       (_, st) \<leftarrow> hash_data crypto hw bs st;
       (_, crc_calc, st) \<leftarrow> hash_value crypto hw crc_calc st;
       m \<leftarrow> store_bytes m (unat hdr + 28) (store_le crc_ori);
       Some (if crc_ori \<noteq> load_le crc_calc 0 then - EBADCRC else 0, m, st) } }"

text \<open>\<open>common/isi.c\<close>: the header only, with \<open>crc32\<close> of the library.\<close>

definition common_isi_check_header :: "u32 \<Rightarrow> bytes \<Rightarrow> (int \<times> bytes) option" where
  "common_isi_check_header hdr m = do {
     magic \<leftarrow> load_le32 m (unat hdr);
     if magic \<noteq> ISI_MAGIC then Some (- 1, m)
     else do {
       crc_ori \<leftarrow> load_le32 m (unat hdr + 28);
       m \<leftarrow> store_bytes m (unat hdr + 28) (store_le 0);
       bs \<leftarrow> mem_bytes m (unat hdr) (unat ISI_SIZE);
       crc_calc \<leftarrow> crc32 0 bs ISI_SIZE;
       m \<leftarrow> store_bytes m (unat hdr + 28) (store_le crc_ori);
       Some (if crc_ori \<noteq> crc_calc then - 2 else 0, m) } }"

text \<open>\<open>sig\<close> is the local array, with what was on the stack.\<close>

definition isi_check_data_separate ::
    "bool \<Rightarrow> 'e hash_module \<Rightarrow> u8 list \<Rightarrow> u32 \<Rightarrow> u32 \<Rightarrow> bytes \<Rightarrow> 'e hash_state \<Rightarrow> (int \<times> 'e hash_state) option" where
  "isi_check_data_separate crypto hw sig hdr data m st = do {
     ty \<leftarrow> load_le32 m (unat hdr + 4);
     sz \<leftarrow> load_le32 m (unat hdr + 12);
     let (_, st) = hash_init crypto hw (isi_get_type_sig ty) sz st;
     bs \<leftarrow> mem_bytes m (unat data) (unat sz);
     (_, st) \<leftarrow> hash_data crypto hw bs st;
     (_, sig, st) \<leftarrow> hash_value crypto hw sig st;
     d \<leftarrow> mem_bytes m (unat hdr + 32) (hash_len hw st);
     Some (if take (hash_len hw st) sig \<noteq> d then - EBADSIG else 0, st) }"

definition isi_check_data ::
    "bool \<Rightarrow> 'e hash_module \<Rightarrow> u8 list \<Rightarrow> u32 \<Rightarrow> bytes \<Rightarrow> 'e hash_state \<Rightarrow> (int \<times> 'e hash_state) option" where
  "isi_check_data crypto hw sig hdr = isi_check_data_separate crypto hw sig hdr (isi_get_data hdr)"

definition isi_check ::
    "bool \<Rightarrow> 'e hash_module \<Rightarrow> u8 list \<Rightarrow> u8 list \<Rightarrow> u32 \<Rightarrow> bytes \<Rightarrow> 'e hash_state \<Rightarrow> (int \<times> bytes \<times> 'e hash_state) option" where
  "isi_check crypto hw crc_calc sig data m st = do {
     (ret, m, st) \<leftarrow> isi_check_header crypto hw crc_calc data m st;
     if ret \<noteq> 0 then Some (ret, m, st)
     else do { (ret, st) \<leftarrow> isi_check_data crypto hw sig data m st; Some (ret, m, st) } }"


section \<open>Images in memory\<close>

record isi_hdr =
  isi_magic :: u32
  isi_type :: u32
  isi_flag :: u32
  isi_size :: u32
  isi_load :: u32
  isi_entry :: u32
  isi_time :: u32
  isi_hcrc :: u32
  isi_dcheck :: "u8 list"
  isi_name :: "u8 list"
  isi_extra :: "u8 list"

definition isi_head :: "isi_hdr \<Rightarrow> u8 list" where
  "isi_head h = store_le (isi_magic h) @ store_le (isi_type h) @ store_le (isi_flag h) @ store_le (isi_size h) @
     store_le (isi_load h) @ store_le (isi_entry h) @ store_le (isi_time h)"

definition isi_tail :: "isi_hdr \<Rightarrow> u8 list" where
  "isi_tail h = isi_dcheck h @ isi_name h @ isi_extra h"

definition isi_bytes :: "isi_hdr \<Rightarrow> u8 list" where
  "isi_bytes h = isi_head h @ store_le (isi_hcrc h) @ isi_tail h"

definition isi_ok :: "isi_hdr \<Rightarrow> bool" where
  "isi_ok h \<longleftrightarrow> length (isi_dcheck h) = 32 \<and> length (isi_name h) = 192 \<and> length (isi_extra h) = 256"

lemma length_isi_head [simp]: "length (isi_head h) = 28"
  by (simp add: isi_head_def)

lemma length_isi_bytes: "isi_ok h \<Longrightarrow> length (isi_bytes h) = 512"
  by (simp add: isi_bytes_def isi_tail_def isi_ok_def)

lemma le_put: "load_le (store_le v @ r) 0 = v"
proof -
  have "load_le (store_le v @ r) 0 = get_uint32_be (put_uint32_be v @ []) 0"
    by (simp add: load_le_def store_le_def get_uint32_be_def put_uint32_be_def)
  then show ?thesis by (simp only: be32_put)
qed

lemma load_le32_holds: "holds m a (store_le v @ zs) \<Longrightarrow> load_le32 m a = Some v"
  using mem_bytes_holds [of m a "store_le v" zs 4] le_put [of v "[]"] by (simp add: load_le32_def)

lemma isi_fields:
  assumes "holds m (unat hdr) (isi_bytes h @ rest)"
  shows "load_le32 m (unat hdr) = Some (isi_magic h)" "load_le32 m (unat hdr + 4) = Some (isi_type h)"
    "load_le32 m (unat hdr + 12) = Some (isi_size h)" "load_le32 m (unat hdr + 28) = Some (isi_hcrc h)"
proof -
  have w: "load_le32 m (unat hdr + length xs) = Some v" if "isi_bytes h @ rest = xs @ store_le v @ zs" for xs v zs
    using holds_part [of m "unat hdr" xs "store_le v @ zs" "[]" "unat hdr + length xs"] assms that
    by (auto intro: load_le32_holds)
  let ?w = store_le
  show "load_le32 m (unat hdr) = Some (isi_magic h)" using w [of "[]"] by (simp add: isi_bytes_def isi_head_def)
  show "load_le32 m (unat hdr + 4) = Some (isi_type h)"
    using w [of "?w (isi_magic h)"] by (simp add: isi_bytes_def isi_head_def)
  show "load_le32 m (unat hdr + 12) = Some (isi_size h)"
    using w [of "?w (isi_magic h) @ ?w (isi_type h) @ ?w (isi_flag h)"] by (simp add: isi_bytes_def isi_head_def)
  show "load_le32 m (unat hdr + 28) = Some (isi_hcrc h)" using w [of "isi_head h"] by (simp add: isi_bytes_def)
qed

text \<open>Storing over a part of memory, and putting the old bytes back.\<close>

lemma store_holds:
  assumes "holds m a (xs @ ys @ zs)" and "length ys' = length ys"
  shows "\<exists>m'. store_bytes m (a + length xs) ys' = Some m' \<and> holds m' a (xs @ ys' @ zs) \<and>
    store_bytes m' (a + length xs) ys = Some m"
proof -
  let ?m = "\<lambda>i. if a + length xs \<le> i \<and> i < a + length xs + length ys' then ys' ! (i - (a + length xs)) else m i"
  have b: "a + length xs + length ys \<le> 4294967296" using assms(1) by (simp add: holds_def)
  have "holds ?m a (xs @ ys' @ zs)" using assms by (auto simp: holds_def nth_append)
  moreover have "m i = ys ! (i - (a + length xs))" if "a + length xs \<le> i" "i < a + length xs + length ys" for i
  proof -
    obtain j where j: "i = a + length xs + j" using \<open>a + length xs \<le> i\<close> by (metis le_iff_add)
    then show ?thesis using holds_part [OF assms(1) refl] that by (simp add: holds_def)
  qed
  then have "store_bytes ?m (a + length xs) ys = Some m" using b assms(2) by (auto simp: store_bytes_def fun_eq_iff)
  ultimately show ?thesis using b assms(2) by (intro exI [of _ ?m]) (simp add: store_bytes_def)
qed

lemma crc32_data_foldl: "length buf < 4294967296 \<Longrightarrow> crc32_data c buf (of_nat (length buf)) = Some (foldl crc_step c buf)"
  by (simp add: crc32_data_def crc_tables_equal crc_loop_step of_nat_u32)

text \<open>The header: its sum is the CRC with the field cleared, and memory is as before.\<close>

definition head_sum :: "isi_hdr \<Rightarrow> u32" where
  "head_sum h = crc_ref 0 (isi_bytes (h\<lparr>isi_hcrc := 0\<rparr>))"

lemma check_header_value:
  assumes "holds m (unat hdr) (isi_bytes h @ rest)" and "isi_ok h" and "length c = 4"
  shows "isi_check_header crypto hw c hdr m st =
    Some (if isi_magic h \<noteq> ISI_MAGIC then - EBADMAGIC else if isi_hcrc h \<noteq> head_sum h then - EBADCRC else 0, m,
      if isi_magic h \<noteq> ISI_MAGIC then st
      else st\<lparr>g_type := 0, g_crc := foldl crc_step 0xffffffff (isi_bytes (h\<lparr>isi_hcrc := 0\<rparr>))\<rparr>)"
proof (cases "isi_magic h = ISI_MAGIC")
  case False
  then show ?thesis using isi_fields(1) [OF assms(1)] by (simp add: isi_check_header_def)
next
  case True
  let ?h = "h\<lparr>isi_hcrc := 0\<rparr>"
  have b: "isi_bytes ?h = isi_head h @ store_le 0 @ isi_tail h" by (simp add: isi_bytes_def isi_head_def isi_tail_def)
  have l: "length (isi_bytes ?h) = 512" using length_isi_bytes [of ?h] assms(2) by (simp add: isi_ok_def)
  have "holds m (unat hdr) (isi_head h @ store_le (isi_hcrc h) @ (isi_tail h @ rest))" using assms(1) by (simp add: isi_bytes_def)
  then obtain m' where m': "store_bytes m (unat hdr + 28) (store_le 0) = Some m'" "holds m' (unat hdr) (isi_bytes ?h @ rest)"
      "store_bytes m' (unat hdr + 28) (store_le (isi_hcrc h)) = Some m"
    using store_holds [of m "unat hdr" "isi_head h" "store_le (isi_hcrc h)" "isi_tail h @ rest" "store_le 0"] by (auto simp: b)
  have s: "mem_bytes m' (unat hdr) (unat ISI_SIZE) = Some (isi_bytes ?h)"
    by (rule mem_bytes_holds [OF m'(2)]) (simp add: l ISI_SIZE_def)
  have d: "crc32_data 0xffffffff (isi_bytes ?h) (of_nat (length (isi_bytes ?h))) = Some (foldl crc_step 0xffffffff (isi_bytes ?h))"
    by (rule crc32_data_foldl) (simp add: l)
  have v: "overwrite c (store_le (head_sum h)) = Some (store_le (head_sum h))" using assms(3) by (simp add: overwrite_def)
  have e: "crc32_value (foldl crc_step 0xffffffff (isi_bytes ?h)) = head_sum h"
    by (simp add: crc32_value_def head_sum_def crc_ref_def)
  show ?thesis
    using True isi_fields [OF assms(1)] m'(1,3) s d v e le_put [of "head_sum h" "[]"]
    by (simp add: isi_check_header_def hash_simps hash_funcs_nth(2) crc_func_def crc32_init_def)
qed


section \<open>The digests of the chip\<close>

text \<open>
  What the chip promises: \<open>fed e k n bs\<close> is a chip in mode \<open>k\<close> that expects \<open>n\<close> bits and has got the bytes
  \<open>bs\<close>; when it has all of them, the result begins with the digest.
\<close>

locale hash_chip =
  fixes hw :: "'e hash_module" and fed :: "'e \<Rightarrow> nat \<Rightarrow> nat \<Rightarrow> u8 list \<Rightarrow> bool" and digest :: "nat \<Rightarrow> u8 list \<Rightarrow> u8 list"
  assumes chip_init: "k \<in> {0, 1, 3} \<Longrightarrow> \<exists>e'. mod_init hw k hi lo e = (False, e') \<and> fed e' k (4294967296 * unat hi + unat lo) []"
    and chip_dma: "fed e k n bs \<Longrightarrow> length cs \<le> 0x8000 \<Longrightarrow> \<exists>e'. mod_dma hw cs e = (False, e') \<and> fed e' k n (bs @ cs)"
    and chip_result: "fed e k (8 * length bs) bs \<Longrightarrow> length bs < 2147483648 \<Longrightarrow>
      \<exists>d e'. mod_result hw e = (Some (digest k bs @ d), e') \<and> length (digest k bs @ d) = 32"
    and digest_length: "k \<in> {1, 2, 3} \<Longrightarrow> length (digest (hash_modes ! k) bs) = hash_lens ! k"
begin

lemma dma_loop_fed: "fed e k n bs \<Longrightarrow> \<exists>e'. dma_loop hw cs e = (False, e') \<and> fed e' k n (bs @ cs)"
proof (induction "length cs" arbitrary: cs e bs rule: less_induct)
  case less
  show ?case
  proof (cases "cs = []")
    case False
    obtain e1 where e1: "mod_dma hw (take 0x8000 cs) e = (False, e1)" "fed e1 k n (bs @ take 0x8000 cs)"
      using chip_dma [OF less.prems, of "take 0x8000 cs"] by auto
    have "length (drop 0x8000 cs) < length cs" using False by (cases cs) auto
    from less.hyps [OF this e1(2)] show ?thesis using e1(1) False by (simp add: dma_loop.simps [of hw cs])
  qed (use less.prems in \<open>simp add: dma_loop.simps\<close>)
qed

lemma hash_run:
  assumes "k \<in> {1, 2, 3}" and "length bs < 2147483648" and "length sig = 32"
  shows "\<exists>st'. do { let (_, st) = hash_init True hw k (of_nat (length bs)) st;
        (_, st) \<leftarrow> hash_data True hw bs st;
        (_, sig, st) \<leftarrow> hash_value True hw sig st;
        Some (take (hash_len hw st) sig, st) } = Some (digest (hash_modes ! k) bs, st') \<and> hash_len hw st' = hash_lens ! k"
proof -
  let ?m = "hash_modes ! k"
  let ?n = "push_bit 3 (ucast (of_nat (length bs) :: u32)) :: u64"
  have u: "unat (of_nat (length bs) :: u64) = length bs" using assms(2) by (simp add: unat_of_nat)
  have w: "ucast (of_nat (length bs) :: u32) = (of_nat (length bs) :: u64)"
    using assms(2) by (intro word_unat_eq_iff [THEN iffD2]) (simp add: unat_ucast_u64 of_nat_u32 unat_of_nat)
  have n: "unat ?n = 8 * length bs" using assms(2) by (simp add: w push_bit_eq_mult unat_word_ariths unat_of_nat mult.commute)
  have "unat (drop_bit 3 ?n) = length bs" unfolding unat_drop_bit_eq n by (simp add: drop_bit_eq_div)
  then have s: "drop_bit 3 ?n = of_nat (length bs)" unfolding word_unat_eq_iff u .
  have lo: "unat (ucast ?n :: u32) = unat ?n mod 4294967296" by (simp only: unsigned_ucast_eq unsigned_take_bit_eq take_bit_eq_mod) simp
  have m: "?m \<in> {0, 1, 3}" using assms(1) by (auto simp: hash_modes_def)
  obtain e1 where e1: "mod_init hw ?m (ucast (drop_bit 32 ?n)) (ucast ?n) (engine st) = (False, e1)" "fed e1 ?m (8 * length bs) []"
    using chip_init [OF m, of "ucast (drop_bit 32 ?n)" "ucast ?n" "engine st"] unfolding unat_high lo n mult_div_mod_eq by auto
  obtain e2 where e2: "dma_loop hw bs e1 = (False, e2)" "fed e2 ?m (8 * length bs) bs" using dma_loop_fed [OF e1(2), of bs] by auto
  obtain d e3 where e3: "mod_result hw e2 = (Some (digest ?m bs @ d), e3)" "length (digest ?m bs @ d) = 32"
    using chip_result [OF e2(2) assms(2)] by blast
  have k: "k \<noteq> 0" "k \<le> 3" using assms(1) by auto
  have l: "length (digest ?m bs) = hash_lens ! k" by (rule digest_length [OF assms(1)])
  show ?thesis
    using e1(1) e2(1) e3 k l s hash_lens_le [OF assms(1)] assms(2,3)
    by (simp add: hash_simps hash_funcs_nth(1) [OF assms(1)] digest_func_def digest_init_def digest_data_def digest_value_def
        set_msg_len_def hash_dma_transfer_def overwrite_def)
qed

end


text \<open>A chip in software, with the functions of \<^verbatim>\<open>lib_generic\<close>.\<close>

definition soft_value :: "nat \<Rightarrow> u8 list \<Rightarrow> u8 list option" where
  "soft_value k bs =
     (if k = 0 then do { c \<leftarrow> MD5Update (MD5Init (replicate 64 0)) bs (word_of_nat (length bs)); md5_digest c }
      else if k = 1 then do { c \<leftarrow> sha1_update (sha1_starts (replicate 64 0)) bs (int (length bs)); sha1_finish c }
      else do { c \<leftarrow> sha256_update (sha256_starts (replicate 64 0)) bs (word_of_nat (length bs)); sha256_finish c })"

definition soft_chip :: "(nat \<times> nat \<times> u8 list) hash_module" where
  "soft_chip = \<lparr>mod_init = (\<lambda>k hi lo e. (False, k, 4294967296 * unat hi + unat lo, [])),
     mod_dma = (\<lambda>cs (k, n, bs). (False, k, n, bs @ cs)),
     mod_result = (\<lambda>(k, n, bs).
       (if n = 8 * length bs then map_option (\<lambda>d. d @ replicate (32 - length d) 0) (soft_value k bs) else None, k, n, bs))\<rparr>"

definition soft_digest :: "nat \<Rightarrow> u8 list \<Rightarrow> u8 list" where
  "soft_digest k bs = (if k = 0 then md5_spec bs else if k = 1 then sha1_spec bs else sha256_spec bs)"

lemma length_sha256_spec: "length (sha256_spec m) = 32"
proof -
  have "length (fst (blocks fips_compress sha256_iv (sha_pad m))) = 8"
    by (rule length_blocks) (simp_all only: length_fips_compress length_sha256_iv)
  then show ?thesis by (simp add: sha256_spec_def length_concat o_def sum_list_triv)
qed

lemma length_md5_spec: "length (md5_spec m) = 16"
proof -
  have "length (fst (blocks rfc_compress md5_iv (md5_pad m))) = 4"
    by (rule length_blocks) (simp_all only: length_rfc_compress length_md5_iv)
  then show ?thesis by (simp add: md5_spec_def length_concat o_def sum_list_triv)
qed

lemma soft_value_digest: "length bs < 2147483648 \<Longrightarrow> soft_value k bs = Some (soft_digest k bs)"
proof -
  assume l: "length bs < 2147483648"
  have z: "length (replicate 64 (0 :: u8)) = 64" by simp
  have u: "unat (word_of_nat (length bs) :: u32) = length bs" using l by (simp add: of_nat_u32)
  obtain c1 where "MD5Update (MD5Init (replicate 64 0)) bs (word_of_nat (length bs)) = Some c1" "md5_rep c1 ([] @ bs)"
    using md5_update_rep [OF MD5Init_rep [OF z], of "word_of_nat (length bs)" bs] u by auto
  moreover obtain c2 where "sha1_update (sha1_starts (replicate 64 0)) bs (int (length bs)) = Some c2" "sha1_rep c2 ([] @ bs)"
    using sha1_update_rep [OF sha1_starts_rep [OF z], of "int (length bs)" bs] l by auto
  moreover obtain c3 where "sha256_update (sha256_starts (replicate 64 0)) bs (word_of_nat (length bs)) = Some c3" "sha256_rep c3 ([] @ bs)"
    using sha256_update_rep [OF sha256_starts_rep [OF z], of "word_of_nat (length bs)" bs] u by auto
  ultimately show ?thesis
    using md5_digest_rep [of c1 bs] sha1_finish_rep [of c2 bs] sha256_finish_rep [of c3 bs]
    by (simp add: soft_value_def soft_digest_def)
qed

lemma length_soft_digest: "length (soft_digest k bs) \<le> 32"
  by (simp add: soft_digest_def length_md5_spec length_sha1_spec length_sha256_spec)

interpretation soft: hash_chip soft_chip "\<lambda>e k n bs. e = (k, n, bs)" soft_digest
proof
  show "length (soft_digest (hash_modes ! k) bs) = hash_lens ! k" if "k \<in> {1, 2, 3}" for k and bs
    using that by (auto simp: soft_digest_def hash_lens_def hash_modes_def length_md5_spec length_sha1_spec length_sha256_spec)
  show "\<exists>d e'. mod_result soft_chip e = (Some (soft_digest k bs @ d), e') \<and> length (soft_digest k bs @ d) = 32"
    if "e = (k, 8 * length bs, bs)" and "length bs < 2147483648" for e k and bs :: "u8 list"
    using that length_soft_digest [of k bs] by (simp add: soft_chip_def soft_value_digest)
qed (simp_all add: soft_chip_def)

section \<open>The data\<close>

definition isi_sig :: "isi_hdr \<Rightarrow> nat" where
  "isi_sig h = isi_get_type_sig (isi_type h)"

lemma isi_parts:
  assumes "holds m (unat hdr) (isi_bytes h @ bs @ rest)" and "isi_ok h" and "k \<le> 32" and "unat hdr + 512 < 4294967296"
  shows "mem_bytes m (unat hdr + 32) k = Some (take k (isi_dcheck h))" "unat (isi_get_data hdr) = unat hdr + 512"
    "mem_bytes m (unat hdr + 512) (length bs) = Some bs"
proof -
  have e: "isi_bytes h @ bs @ rest = (isi_head h @ store_le (isi_hcrc h)) @ take k (isi_dcheck h) @
      (drop k (isi_dcheck h) @ isi_name h @ isi_extra h @ bs @ rest)"
    by (simp add: isi_bytes_def isi_tail_def)
  have "holds m (unat hdr + 32) (take k (isi_dcheck h) @ [])"
    using holds_part [OF assms(1) [unfolded e], of "unat hdr + 32"] by simp
  then show "mem_bytes m (unat hdr + 32) k = Some (take k (isi_dcheck h))"
    by (rule mem_bytes_holds) (use assms(2,3) in \<open>simp add: isi_ok_def\<close>)
  show "unat (isi_get_data hdr) = unat hdr + 512" using assms(4) by (simp add: isi_get_data_def ISI_SIZE_def unat_word_ariths)
  have "holds m (unat hdr + 512) (bs @ rest)"
    using holds_part [of m "unat hdr" "isi_bytes h" "bs @ rest" "[]"] assms(1) length_isi_bytes [OF assms(2)] by simp
  then show "mem_bytes m (unat hdr + 512) (length bs) = Some bs" by (rule mem_bytes_holds) simp
qed


definition sig_value :: "(nat \<Rightarrow> u8 list \<Rightarrow> u8 list) \<Rightarrow> nat \<Rightarrow> u8 list \<Rightarrow> u8 list" where
  "sig_value digest k bs = (if k = 0 then store_le (crc_ref 0 bs) else digest (hash_modes ! k) bs)"

text \<open>An image in memory, with the buffers on the stack.\<close>

definition isi_in :: "bytes \<Rightarrow> u32 \<Rightarrow> isi_hdr \<Rightarrow> u8 list \<Rightarrow> u8 list \<Rightarrow> u8 list \<Rightarrow> bool" where
  "isi_in m hdr h bs c sig \<longleftrightarrow> (\<exists>rest. holds m (unat hdr) (isi_bytes h @ bs @ rest)) \<and> isi_ok h \<and>
     isi_size h = of_nat (length bs) \<and> length bs < 2147483648 \<and> unat hdr + 512 < 4294967296 \<and> length c = 4 \<and> length sig = 32"

lemma check_data_value:
  assumes "isi_in m hdr h bs c sig"
    and "do { let (_, st) = hash_init crypto hw (isi_sig h) (of_nat (length bs)) st;
        (_, st) \<leftarrow> hash_data crypto hw bs st;
        (_, sig, st) \<leftarrow> hash_value crypto hw sig st;
        Some (take (hash_len hw st) sig, st) } = Some (v, st')" and "hash_len hw st' \<le> 32"
  shows "isi_check_data crypto hw sig hdr m st = Some (if take (hash_len hw st') (isi_dcheck h) = v then 0 else - EBADSIG, st')"
proof -
  obtain rest where h: "holds m (unat hdr) (isi_bytes h @ bs @ rest)" "isi_ok h" "unat hdr + 512 < 4294967296"
      "isi_size h = of_nat (length bs)" "unat (of_nat (length bs) :: u32) = length bs"
    using assms(1) by (auto simp: isi_in_def of_nat_u32)
  obtain st1 r1 where i: "hash_init crypto hw (isi_sig h) (of_nat (length bs)) st = (r1, st1)" by fastforce
  obtain r2 st2 where d: "hash_data crypto hw bs st1 = Some (r2, st2)" using assms(2) i by (auto simp: Let_def bind_eq_Some_conv)
  obtain r3 s3 where v: "hash_value crypto hw sig st2 = Some (r3, s3, st')" "v = take (hash_len hw st') s3"
    using assms(2) i d by (auto simp: Let_def bind_eq_Some_conv)
  show ?thesis
    using isi_fields(2,3) [OF h(1)] i d v isi_parts [OF h(1,2) assms(3) h(3)] h(4,5)
    by (auto simp: isi_check_data_def isi_check_data_separate_def isi_sig_def Let_def)
qed

lemma isi_check_value:
  assumes "isi_in m hdr h bs c sig"
    and "\<And>st0. g_type st0 = 0 \<Longrightarrow> g_crc st0 = foldl crc_step 0xffffffff (isi_bytes (h\<lparr>isi_hcrc := 0\<rparr>)) \<Longrightarrow> \<exists>st'.
      do { let (_, st) = hash_init crypto hw (isi_sig h) (of_nat (length bs)) st0;
        (_, st) \<leftarrow> hash_data crypto hw bs st;
        (_, sig, st) \<leftarrow> hash_value crypto hw sig st;
        Some (take (hash_len hw st) sig, st) } = Some (v, st') \<and> hash_len hw st' = n" and "n \<le> 32"
  shows "\<exists>st'. isi_check crypto hw c sig hdr m st =
    Some (if isi_magic h \<noteq> ISI_MAGIC then - EBADMAGIC else if isi_hcrc h \<noteq> head_sum h then - EBADCRC
      else if take n (isi_dcheck h) \<noteq> v then - EBADSIG else 0, m, st')"
proof -
  obtain rest where h: "holds m (unat hdr) (isi_bytes h @ bs @ rest)" "isi_ok h" "length c = 4"
    using assms(1) by (auto simp: isi_in_def)
  let ?st = "st\<lparr>g_type := 0, g_crc := foldl crc_step 0xffffffff (isi_bytes (h\<lparr>isi_hcrc := 0\<rparr>))\<rparr>"
  obtain st' where s: "do { let (_, st) = hash_init crypto hw (isi_sig h) (of_nat (length bs)) ?st;
        (_, st) \<leftarrow> hash_data crypto hw bs st;
        (_, sig, st) \<leftarrow> hash_value crypto hw sig st;
        Some (take (hash_len hw st) sig, st) } = Some (v, st')" "hash_len hw st' = n"
    using assms(2) [of ?st] by auto
  have d: "isi_check_data crypto hw sig hdr m ?st = Some (if take n (isi_dcheck h) = v then 0 else - EBADSIG, st')"
    using check_data_value [OF assms(1) s(1)] s(2) assms(3) by simp
  have e: "- EBADMAGIC \<noteq> 0" "- EBADCRC \<noteq> 0" by (simp_all add: EBADMAGIC_def EBADCRC_def)
  show ?thesis
    using check_header_value [OF h, of crypto hw st] d e by (auto simp: isi_check_def)
qed

lemma hash_run_crc:
  assumes "g_type st0 = 0" and "k = 0 \<or> 3 < k" and "length bs < 2147483648" and "length sig = 32"
  shows "\<exists>st'. do { let (_, st) = hash_init crypto hw k (of_nat (length bs)) st0;
        (_, st) \<leftarrow> hash_data crypto hw bs st;
        (_, sig, st) \<leftarrow> hash_value crypto hw sig st;
        Some (take (hash_len hw st) sig, st) } =
      Some (store_le (foldl crc_step (if k = 0 then 0xffffffff else g_crc st0) bs XOR 0xffffffff), st') \<and> hash_len hw st' = 4"
proof -
  have d: "crc32_data x bs (word_of_nat (length bs)) = Some (foldl crc_step x bs)" for x
    using crc32_data_foldl [of bs x] assms(3) by simp
  have o: "overwrite sig (store_le x) = Some (store_le x @ drop 4 sig)" for x using assms(4) by (simp add: overwrite_def)
  show ?thesis
    using assms(1,2)
    by (auto simp: hash_simps hash_funcs_nth(2) crc_func_def d o crc32_init_def crc32_value_def)
qed

text \<open>Nothing is stored when the fuse is off, or when the chip does not answer.\<close>

lemma digest_type: "g_type (snd (digest_init hw k len st)) = g_type st" "g_type (snd (digest_data hw k buf st)) = g_type st"
  by (auto simp: digest_init_def digest_data_def set_msg_len_def Let_def split: prod.split)

lemma digest_value_silent:
  "\<forall>e. fst (mod_result hw e) = None \<Longrightarrow> \<exists>r st'. digest_value hw k n st = (r, [], st') \<and> g_type st' = g_type st"
  by (cases "mod_result hw (engine st)") (auto simp: digest_value_def dest: spec [of _ "engine st"])

lemma hash_run_silent:
  assumes "k \<in> {1, 2, 3}" and "\<not> crypto \<or> (\<forall>e. fst (mod_result hw e) = None)"
  shows "\<exists>st'. do { let (_, st) = hash_init crypto hw k len st;
        (_, st) \<leftarrow> hash_data crypto hw bs st;
        (_, sig, st) \<leftarrow> hash_value crypto hw sig st;
        Some (take (hash_len hw st) sig, st) } = Some (take (hash_lens ! k) sig, st') \<and> hash_len hw st' = hash_lens ! k"
proof -
  have k: "k \<noteq> 0" "k \<le> 3" using assms(1) by auto
  note f = hash_simps hash_funcs_nth(1) [OF assms(1)] digest_func_def
  show ?thesis
  proof (cases crypto)
    case True
    let ?k = "hash_modes ! k" and ?n = "hash_lens ! k"
    obtain r1 st1 where 1: "digest_init hw ?k len (st\<lparr>g_type := k\<rparr>) = (r1, st1)" by fastforce
    obtain r2 st2 where 2: "digest_data hw ?k bs st1 = (r2, st2)" by fastforce
    have g: "g_type st1 = k" "g_type st2 = k"
      using digest_type(1) [of hw ?k len "st\<lparr>g_type := k\<rparr>"] digest_type(2) [of hw ?k bs st1] 1 2 by simp_all
    obtain r3 st3 where "digest_value hw ?k ?n st2 = (r3, [], st3)" "g_type st3 = k"
      using digest_value_silent [of hw ?k ?n st2] assms(2) True g(2) by auto
    then show ?thesis using 1 2 g k True by (simp add: f overwrite_def)
  qed (use k in \<open>simp add: f\<close>)
qed

section \<open>Properties\<close>

text \<open>
  C8: Checking a signed image: for the four kinds of signature the code knows, with the hash engines
  enabled, \<open>isi_check\<close> returns 0 when the magic number is right, the header has the sum of the header with
  the field cleared, and the signature is the CRC or the digest of the data; else the error of the first
  that is wrong.  Memory is left as it was, and no access is outside the image.
\<close>

theorem isi_check_correct:
  assumes "hash_chip hw fed digest" and "isi_in m hdr h bs c sig" and "isi_sig h \<le> 3"
  shows "\<exists>st'. isi_check True hw c sig hdr m st =
    Some (if isi_magic h \<noteq> ISI_MAGIC then - EBADMAGIC else if isi_hcrc h \<noteq> head_sum h then - EBADCRC
      else if take (hash_lens ! isi_sig h) (isi_dcheck h) \<noteq> sig_value digest (isi_sig h) bs then - EBADSIG else 0, m, st')"
proof (rule isi_check_value [OF assms(2)])
  have b: "length bs < 2147483648" "length sig = 32" using assms(2) by (simp_all add: isi_in_def)
  fix st0 :: "'a hash_state"
  assume g: "g_type st0 = 0"
  show "\<exists>st'. do { let (_, st) = hash_init True hw (isi_sig h) (of_nat (length bs)) st0;
        (_, st) \<leftarrow> hash_data True hw bs st;
        (_, sig, st) \<leftarrow> hash_value True hw sig st;
        Some (take (hash_len hw st) sig, st) } = Some (sig_value digest (isi_sig h) bs, st') \<and> hash_len hw st' = hash_lens ! isi_sig h"
  proof (cases "isi_sig h = 0")
    case True
    then show ?thesis using hash_run_crc [OF g _ b, of 0 True hw] by (simp add: sig_value_def crc_ref_def hash_lens_def)
  next
    case False
    then have "isi_sig h \<in> {1, 2, 3}" using assms(3) by auto
    then show ?thesis using hash_chip.hash_run [OF assms(1) _ b] False by (simp add: sig_value_def)
  qed
next
  have "isi_sig h \<in> {0, 1, 2, 3}" using assms(3) by auto
  then show "hash_lens ! isi_sig h \<le> 32" by (auto simp: hash_lens_def)
qed

text \<open>
  C40: What is not checked: a signature of a kind that \<open>hash_init\<close> refuses is compared, in its first four bytes, with a
  CRC that goes on from the header; and with the fuse for the engines off, or a chip that does not answer in
  time, a digest is compared with what happens to be on the stack, whatever the data are.
\<close>

theorem isi_check_unchecked:
  assumes "isi_in m hdr h bs c sig"
  shows "(3 < isi_sig h \<longrightarrow> (\<exists>st'. isi_check crypto hw c sig hdr m st =
      Some (if isi_magic h \<noteq> ISI_MAGIC then - EBADMAGIC else if isi_hcrc h \<noteq> head_sum h then - EBADCRC
        else if take 4 (isi_dcheck h) \<noteq> store_le (crc_ref 0 (isi_bytes (h\<lparr>isi_hcrc := 0\<rparr>) @ bs)) then - EBADSIG else 0, m, st'))) \<and>
    (isi_sig h \<in> {1, 2, 3} \<and> (\<not> crypto \<or> (\<forall>e. fst (mod_result hw e) = None)) \<longrightarrow> (\<exists>st'. isi_check crypto hw c sig hdr m st =
      Some (if isi_magic h \<noteq> ISI_MAGIC then - EBADMAGIC else if isi_hcrc h \<noteq> head_sum h then - EBADCRC
        else if take (hash_lens ! isi_sig h) (isi_dcheck h) \<noteq> take (hash_lens ! isi_sig h) sig then - EBADSIG else 0, m, st')))"
proof (intro conjI impI)
  have b: "length bs < 2147483648" "length sig = 32" using assms by (simp_all add: isi_in_def)
  show "\<exists>st'. isi_check crypto hw c sig hdr m st =
      Some (if isi_magic h \<noteq> ISI_MAGIC then - EBADMAGIC else if isi_hcrc h \<noteq> head_sum h then - EBADCRC
        else if take 4 (isi_dcheck h) \<noteq> store_le (crc_ref 0 (isi_bytes (h\<lparr>isi_hcrc := 0\<rparr>) @ bs)) then - EBADSIG else 0, m, st')"
    if k: "3 < isi_sig h"
  proof (rule isi_check_value [OF assms])
    fix st0 :: "'a hash_state"
    assume g: "g_type st0 = 0" "g_crc st0 = foldl crc_step 0xffffffff (isi_bytes (h\<lparr>isi_hcrc := 0\<rparr>))"
    show "\<exists>st'. do { let (_, st) = hash_init crypto hw (isi_sig h) (of_nat (length bs)) st0;
        (_, st) \<leftarrow> hash_data crypto hw bs st;
        (_, sig, st) \<leftarrow> hash_value crypto hw sig st;
        Some (take (hash_len hw st) sig, st) } =
          Some (store_le (crc_ref 0 (isi_bytes (h\<lparr>isi_hcrc := 0\<rparr>) @ bs)), st') \<and> hash_len hw st' = 4"
      using hash_run_crc [OF g(1) _ b, of "isi_sig h" crypto hw] k g(2) by (simp add: crc_ref_def)
  qed simp
  show "\<exists>st'. isi_check crypto hw c sig hdr m st =
      Some (if isi_magic h \<noteq> ISI_MAGIC then - EBADMAGIC else if isi_hcrc h \<noteq> head_sum h then - EBADCRC
        else if take (hash_lens ! isi_sig h) (isi_dcheck h) \<noteq> take (hash_lens ! isi_sig h) sig then - EBADSIG else 0, m, st')"
    if k: "isi_sig h \<in> {1, 2, 3} \<and> (\<not> crypto \<or> (\<forall>e. fst (mod_result hw e) = None))"
  proof (rule isi_check_value [OF assms hash_run_silent])
    show "hash_lens ! isi_sig h \<le> 32" using k hash_lens_le by blast
  qed (use k in blast)+
qed


text \<open>The header check of \<^verbatim>\<open>common/isi.c\<close> accepts the same headers.\<close>

lemma common_isi_same:
  assumes "holds m (unat hdr) (isi_bytes h @ rest)" and "isi_ok h"
  shows "common_isi_check_header hdr m =
    Some (if isi_magic h \<noteq> ISI_MAGIC then - 1 else if isi_hcrc h \<noteq> head_sum h then - 2 else 0, m)"
proof (cases "isi_magic h = ISI_MAGIC")
  case False
  then show ?thesis using isi_fields(1) [OF assms(1)] by (simp add: common_isi_check_header_def)
next
  case True
  let ?h = "h\<lparr>isi_hcrc := 0\<rparr>"
  have b: "isi_bytes ?h = isi_head h @ store_le 0 @ isi_tail h" by (simp add: isi_bytes_def isi_head_def isi_tail_def)
  have l: "length (isi_bytes ?h) = 512" using length_isi_bytes [of ?h] assms(2) by (simp add: isi_ok_def)
  have "holds m (unat hdr) (isi_head h @ store_le (isi_hcrc h) @ (isi_tail h @ rest))" using assms(1) by (simp add: isi_bytes_def)
  then obtain m' where m': "store_bytes m (unat hdr + 28) (store_le 0) = Some m'" "holds m' (unat hdr) (isi_bytes ?h @ rest)"
      "store_bytes m' (unat hdr + 28) (store_le (isi_hcrc h)) = Some m"
    using store_holds [of m "unat hdr" "isi_head h" "store_le (isi_hcrc h)" "isi_tail h @ rest" "store_le 0"] by (auto simp: b)
  have "mem_bytes m' (unat hdr) (unat ISI_SIZE) = Some (isi_bytes ?h)"
    by (rule mem_bytes_holds [OF m'(2)]) (simp add: l ISI_SIZE_def)
  moreover have "crc32 0 (isi_bytes ?h) ISI_SIZE = Some (head_sum h)"
    using crc32_ref [of ISI_SIZE "isi_bytes ?h" 0] by (simp add: l ISI_SIZE_def head_sum_def)
  ultimately show ?thesis using True isi_fields [OF assms(1)] m'(1,3) by (simp add: common_isi_check_header_def)
qed

definition demo_isi :: "u32 \<Rightarrow> u8 list \<Rightarrow> u8 list \<Rightarrow> isi_hdr" where
  "demo_isi ty d bs = (let h = \<lparr>isi_magic = ISI_MAGIC, isi_type = ty, isi_flag = 0, isi_size = of_nat (length bs), isi_load = 0,
       isi_entry = 0, isi_time = 0, isi_hcrc = 0, isi_dcheck = d, isi_name = replicate 192 0, isi_extra = replicate 256 0\<rparr>
     in h\<lparr>isi_hcrc := head_sum h\<rparr>)"

definition demo_mem :: "u8 list \<Rightarrow> bytes" where
  "demo_mem bs = (\<lambda>i. (replicate 4096 0 @ bs @ [0]) ! min i (4096 + length bs))"

lemma demo_isi_simps:
  "isi_magic (demo_isi ty d bs) = ISI_MAGIC" "isi_type (demo_isi ty d bs) = ty" "isi_dcheck (demo_isi ty d bs) = d"
  "isi_size (demo_isi ty d bs) = of_nat (length bs)" "isi_hcrc (demo_isi ty d bs) = head_sum (demo_isi ty d bs)"
  "length d = 32 \<Longrightarrow> isi_ok (demo_isi ty d bs)"
  by (simp_all add: demo_isi_def Let_def head_sum_def isi_ok_def)

lemma demo_isi_in:
  assumes "length d = 32" and "length bs < 1000" and "length c = 4" and "length sig = 32"
  shows "isi_in (demo_mem (isi_bytes (demo_isi ty d bs) @ bs)) 4096 (demo_isi ty d bs) bs c sig"
proof -
  have "holds (demo_mem (isi_bytes (demo_isi ty d bs) @ bs)) 4096 (isi_bytes (demo_isi ty d bs) @ bs)"
    unfolding demo_mem_def by (rule holds_list) (use assms length_isi_bytes [OF demo_isi_simps(6)] in simp)
  then have "\<exists>rest. holds (demo_mem (isi_bytes (demo_isi ty d bs) @ bs)) (unat (4096 :: u32)) (isi_bytes (demo_isi ty d bs) @ bs @ rest)"
    by (intro exI [of _ "[]"]) simp
  then show ?thesis using assms by (simp add: isi_in_def demo_isi_simps)
qed

theorem isi_check_correct_witness:
  "\<exists>m. (\<exists>st'. isi_check True soft_chip (replicate 4 0) (replicate 32 0) 4096 m \<lparr>g_type = 0, g_crc = 0, msg_len = (\<lambda>k. 0), engine = (0, 0, [])\<rparr> = Some (0, m, st')) \<and>
    (\<exists>m' st'. isi_check True soft_chip (replicate 4 0) (replicate 32 0) 4096 m' \<lparr>g_type = 0, g_crc = 0, msg_len = (\<lambda>k. 0), engine = (0, 0, [])\<rparr> = Some (- EBADSIG, m', st'))"
proof -
  let ?h = "demo_isi 0x03000000 (sha256_spec [1, 2, 3]) [1, 2, 3]" and ?g = "demo_isi 0x03000000 (map (\<lambda>b. b + 1) (sha256_spec [1, 2, 3])) [1, 2, 3]"
  let ?m = "demo_mem (isi_bytes ?h @ [1, 2, 3])" and ?n = "demo_mem (isi_bytes ?g @ [1, 2, 3])"
  have i: "isi_in ?m 4096 ?h [1, 2, 3] (replicate 4 0) (replicate 32 0)" "isi_in ?n 4096 ?g [1, 2, 3] (replicate 4 0) (replicate 32 0)"
    by (rule demo_isi_in, simp_all add: length_sha256_spec)+
  have k: "isi_sig ?h = 3" "isi_sig ?g = 3" by (simp_all add: isi_sig_def demo_isi_simps isi_get_type_sig_def)
  have s: "sha256_spec [1, 2, 3] \<noteq> []" using length_sha256_spec [of "[1, 2, 3]"] by (metis list.size(3) zero_neq_numeral)
  have ne: "map (\<lambda>b. b + 1) xs \<noteq> xs" if "xs \<noteq> []" for xs :: "u8 list" using that by (cases xs) auto
  have a: "\<exists>st'. isi_check True soft_chip (replicate 4 0) (replicate 32 0) 4096 ?m \<lparr>g_type = 0, g_crc = 0, msg_len = (\<lambda>k. 0), engine = (0, 0, [])\<rparr> = Some (0, ?m, st')"
    using isi_check_correct [OF soft.hash_chip_axioms i(1), of "\<lparr>g_type = 0, g_crc = 0, msg_len = (\<lambda>k. 0), engine = (0, 0, [])\<rparr>"] k
    by (simp add: demo_isi_simps hash_lens_def sig_value_def soft_digest_def hash_modes_def length_sha256_spec)
  have b: "\<exists>st'. isi_check True soft_chip (replicate 4 0) (replicate 32 0) 4096 ?n \<lparr>g_type = 0, g_crc = 0, msg_len = (\<lambda>k. 0), engine = (0, 0, [])\<rparr> = Some (- EBADSIG, ?n, st')"
    using isi_check_correct [OF soft.hash_chip_axioms i(2), of "\<lparr>g_type = 0, g_crc = 0, msg_len = (\<lambda>k. 0), engine = (0, 0, [])\<rparr>"] k ne [OF s]
    by (simp add: demo_isi_simps hash_lens_def sig_value_def soft_digest_def hash_modes_def length_sha256_spec)
  show ?thesis using a b by blast
qed

theorem isi_check_unchecked_witness:
  "\<exists>m st'. isi_check False soft_chip (replicate 4 0) (replicate 32 7) 4096 m \<lparr>g_type = 0, g_crc = 0, msg_len = (\<lambda>k. 0), engine = (0, 0, [])\<rparr> = Some (0, m, st')"
proof -
  let ?h = "demo_isi 0x03000000 (replicate 32 7) [1, 2, 3]"
  let ?m = "demo_mem (isi_bytes ?h @ [1, 2, 3])"
  have i: "isi_in ?m 4096 ?h [1, 2, 3] (replicate 4 0) (replicate 32 7)" by (rule demo_isi_in) simp_all
  have k: "isi_sig ?h = 3" by (simp add: isi_sig_def demo_isi_simps isi_get_type_sig_def)
  show ?thesis
    using isi_check_unchecked [OF i, of False soft_chip "\<lparr>g_type = 0, g_crc = 0, msg_len = (\<lambda>k. 0), engine = (0, 0, [])\<rparr>"] k
    by (intro exI [of _ ?m]) (simp add: demo_isi_simps)
qed

end
