(* ===== verification/Spec2Isabelle.thy ===== *)
theory Spec2Isabelle
  imports Lmb CString Circbuf SRecord CrcTable Crc BlockHash Sha256 Sha1 Md5 Ctype Strtoul Div64 Vsprintf Format Env CmdLine LineEdit HushVars HushParse HushExec HushRun HushWf HushScript Items ItemQuery Storage VStorage MemSize TestCmd Image Isi
begin

text \<open>
  U-Boot for the Infotmic iMAPx800: the boot loader's own library and core logic, over the 32-bit
  ARM target.  Every theory models one component of the sources under
  \<^verbatim>\<open>src/imapx800-develop/\<close>: its structs as records, its functions under their C names, machine integers
  as words, \<^verbatim>\<open>char\<close> unsigned as on ARM.  A function that can go wrong in C returns an option: \<open>None\<close>
  stands for an access outside an object, and for a loop that never ends or an input that runs out.  A
  theorem that a function returns \<open>Some\<close> therefore also says that its accesses stay inside the objects
  and that its loops end.

  Library

  \<^item> \<open>Prelude\<close>: word types, the collections of hints, characters as bytes, checked reads and writes of
    arrays (\<open>rd\<close>, \<open>wr\<close>).
  \<^item> \<open>Ctype\<close> (\<^verbatim>\<open>lib_generic/ctype.c\<close>): the table of character classes.
  \<^item> \<open>CString\<close> (\<^verbatim>\<open>lib_generic/string.c\<close>): string and memory routines over an explicit memory; copies
    that overlap, strings that are cut in place.
  \<^item> \<open>Strtoul\<close> (\<^verbatim>\<open>lib_generic/strtoul.c\<close>): reading numbers in base 8, 10 and 16, with their suffixes,
    against the value of the leading digits (\<open>numeral_of\<close>, \<open>number_of\<close>).
  \<^item> \<open>Div64\<close> (\<^verbatim>\<open>lib_generic/div64.c\<close>): the division by shift and subtract is division with remainder.
  \<^item> \<open>Vsprintf\<close>, \<open>Format\<close> (\<^verbatim>\<open>lib_generic/vsprintf.c\<close>): the decimal conversion by multiplications, the
    layout of a number, and the loop over the format string; what is printed is read
    back by \<open>Strtoul\<close>, unless it has a sign or \<open>0X\<close> in front.
  \<^item> \<open>Circbuf\<close> (\<^verbatim>\<open>common/circbuf.c\<close>): the circular buffer is a queue; interface \<open>byte_fifo\<close>.
  \<^item> \<open>SRecord\<close> (\<^verbatim>\<open>common/s_record.c\<close>): the S-record decoder accepts what the format says, and reads
    nothing outside its line.

  Memory and checks

  \<^item> \<open>Lmb\<close> (\<^verbatim>\<open>lib_generic/lmb.c\<close>): the tables of memory and reserved ranges stay sorted and separated;
    they implement sets of addresses, on full tables too.
  \<^item> \<open>CrcTable\<close>, \<open>Crc\<close> (\<^verbatim>\<open>lib_generic/crc32.c\<close>, its copies, \<^verbatim>\<open>crc16.c\<close>): the tables come from the
    polynomials, the implementations agree, a sum can be taken in pieces and finds a changed byte.
  \<^item> \<open>BlockHash\<close> (interface \<open>stream_hash\<close>), \<open>Sha256\<close>, \<open>Sha1\<close>, \<open>Md5\<close> (\<^verbatim>\<open>lib_generic/sha256.c\<close>,
    \<^verbatim>\<open>sha1.c\<close>, \<^verbatim>\<open>md5.c\<close>): the unrolled block functions are those of the standards, with the constants
    of the standards (roots of primes, sines) and not those of the code, and feeding a
    message in pieces gives the digest of the whole message.

  Console

  \<^item> \<open>Env\<close> (\<^verbatim>\<open>common/env_common.c\<close>, \<^verbatim>\<open>env_nowhere.c\<close>, \<^verbatim>\<open>cmd_nvedit.c\<close>): the environment is an array of
    bytes with a checksum (from \<open>Crc\<close>); it implements a map from names to values.  The interface
    \<open>key_store\<close> holds the laws of such a store and what follows for a sequence of writes; it is
    interpreted on \<open>getenv\<close> and \<open>setenv\<close>.
  \<^item> \<open>CmdLine\<close> (\<^verbatim>\<open>common/main.c\<close>, \<^verbatim>\<open>command.c\<close>), the parser of boards without \<^verbatim>\<open>hush\<close>: a line
    is split at semicolons, its variables are expanded
    from \<open>Env\<close>, it is split into arguments, and the command is looked up and called.  The commands
    themselves are an argument of the model.
  \<^item> \<open>LineEdit\<close> (\<^verbatim>\<open>common/main.c\<close>): the history ring is a list of lines; the editor does to its buffer
    what the keys say to a text with a cursor.


  The \<^verbatim>\<open>hush\<close> shell (\<^verbatim>\<open>common/hush.c\<close>, \<open>__U_BOOT__\<close>), which the board's configuration uses

  \<^item> \<open>HushVars\<close>: local variables beside the environment, and the replacement of variables in words.  The
    list of variables interprets the interface \<open>key_store\<close> a second time.
  \<^item> \<open>HushParse\<close>: from a string to lists of pipes.  A syntax of commands is printed and read back: words
    with quotes and variables, \<open>&&\<close> and \<open>||\<close>, \<open>if\<close>, \<open>while\<close>, \<open>until\<close>, \<open>for\<close>, nested to any depth.
  \<^item> \<open>HushWf\<close>: what holds of the pipes and of the stack of the parser for any text at all.
  \<^item> \<open>HushExec\<close>: running the pipes.  \<open>run_list_real\<close>, \<open>run_pipe_real\<close> and \<open>parse_string_outer\<close> call each
    other; the recursion goes through the loop of \<open>run_list_real\<close>, whose body is shown to be monotone.
  \<^item> \<open>HushRun\<close>: a semantics of the syntax (\<open>stmt_runs\<close> and its companions) and the proof that the loop with
    its flags follows it; loops with a measure end.
  \<^item> \<open>HushScript\<close>: whole strings: a line, a script, the command \<open>run\<close>, and commands with variables, which
    are read a second time.

  Memory, images and commands

  \<^item> \<open>MemSize\<close> (\<^verbatim>\<open>common/memsize.c\<close>): how much RAM answers, over any bus; what is given back and what is not.
  \<^item> \<open>Image\<close> (\<^verbatim>\<open>common/image.c\<close>, \<^verbatim>\<open>include/image.h\<close>): images with a header, their checksums, images of
    several files, the ramdisk and the tables of names: what \<^verbatim>\<open>mkimage\<close> makes is accepted and found, and a
    changed byte is noticed.
  \<^item> \<open>Isi\<close> (\<^verbatim>\<open>infotm/strategy/isi/isi.c\<close>, \<^verbatim>\<open>infotm/drivers/secure/hash.c\<close> and the engines beside it): the
    check of a signed image accepts it when its sum and its digest are right; the contract of the hash chip
    is the locale \<open>hash_chip\<close>, interpreted on the digests of \<open>Md5\<close>, \<open>Sha1\<close> and \<open>Sha256\<close>; what is accepted when
    the chip is off or the kind of digest is unknown.
  \<^item> \<open>TestCmd\<close> (\<^verbatim>\<open>common/command.c\<close>): \<open>test\<close> evaluates the condition that its arguments spell; \<open>exit\<close> and the
    return codes of the shell.

  Infotmic configuration

  \<^item> \<open>Items\<close> (\<^verbatim>\<open>infotm/strategy/items/items.c\<close>): the text with the board's configuration is read into the
    array of items; its syntax and the proof that it is read back, what holds for any text, and where
    the parser gives up or leaves its arrays.
  \<^item> \<open>ItemQuery\<close> (same file): the queries of keys and sections are lookups in an association list; the
    list of items is printed with \<open>vsprintf\<close>.
  \<^item> \<open>Storage\<close> (\<^verbatim>\<open>infotm/strategy/burn/storage.c\<close>): the system disk and the layout of its partitions, from
    the table \<open>default_cfg\<close> and the configuration: partitions lie one behind the other, and what the code
    makes of a missing size.  The partition table of a disk (\<^verbatim>\<open>block.c\<close>) is an argument.
  \<^item> \<open>VStorage\<close> (\<^verbatim>\<open>infotm/strategy/vstorage/vstorage.c\<close>, \<^verbatim>\<open>infotm/drivers/ramdisk/ramdisk.c\<close>): the table of
    devices and reads over drivers that read whole blocks, of ranges that need not be whole blocks, with the
    case where the buffer is overrun; the contract of such a driver is
    the locale \<open>block_device\<close>, interpreted on the RAM disk.

  Configuration and bounds.  The configuration is that of \<^verbatim>\<open>include/configs/imapx800.h\<close>: lines of 256
  bytes, 16 arguments, 20 lines of history, \<open>CONFIG_ENV_IS_NOWHERE\<close>, \<open>CONFIG_CMDLINE_EDITING\<close>, neither
  \<open>CONFIG_AUTO_COMPLETE\<close> nor \<open>CONFIG_BOOT_RETRY_TIME\<close>.  No fuel is used except where the C bounds its loop
  itself: loops whose end depends on memory are \<open>partial_function (option)\<close>, and the theorems show that
  they return; what the shell runs may go on for ever, so its theorems follow a derivation of the
  semantics, and \<open>loop_terminates\<close> says when there is one.  Console input is a list of characters, console output a list.

  Not modelled.  Device drivers, boards and start-up code (registers, delays, assembly); file systems;
  the network stack; the vendored decompressors and \<^verbatim>\<open>libfdt\<close>; the input of \<^verbatim>\<open>hush\<close> from the console
  (\<open>get_user_input\<close>, \<open>parse_file_outer\<close>); \<open>saveenv\<close> and name completion, which are compiled out.  What is
  printed is modelled where it is the result (\<open>printenv\<close>, \<open>showvar\<close>, \<open>vsprintf\<close>), not where it is a
  message.  Of the program's own logic these parts are left: the flow of \<open>bootm\<close> behind the header, \<^verbatim>\<open>rbtree\<close>,
  the Infotmic sparse images and partition tables.
\<close>

end
